(* ===== verification/Prelude.thy ===== *)
theory Prelude
  imports Main "HOL-Library.Word"
begin

text \<open>
  What every component shares: the types that name the program's data (bytes, offsets, byte
  ranges), Rust's checked and saturating arithmetic on \<open>usize\<close>, the error type of the
  document crate and the sequencing of fallible steps, and the generic lemmas on lists, options
  and sums that the component proofs use through the collections \<open>res_simps\<close> and
  \<open>arith_defs\<close>.
\<close>

unbundle bit_operations_syntax

named_theorems res_simps "inversion of sequenced fallible steps"
named_theorems arith_defs "definitions of the checked and saturating arithmetic"

section \<open>Data\<close>

text \<open>
  A byte is a \<open>u8\<close>. Offsets, lengths and counts are \<open>usize\<close> or \<open>u64\<close> values of the code; the
  model keeps them as natural numbers and writes the bound out where the code tests for it
  (\<open>checked_add\<close>, \<open>saturating_add\<close>).
\<close>

type_synonym byte = "8 word"
type_synonym text_offset = nat
type_synonym range = "nat \<times> nat"

abbreviation CR :: byte where "CR \<equiv> 13"
abbreviation LF :: byte where "LF \<equiv> 10"

text \<open>A property of all bytes is decided by running through the 256 values.\<close>

lemma all_bytes:
  assumes "\<forall>n\<in>set [0..<256]. P (word_of_nat n)"
  shows "P (b :: byte)"
proof -
  have "unat b \<in> set [0..<256]"
    using unsigned_less [where ?'a = nat, of b] by simp
  with assms have "P (word_of_nat (unat b))"
    by (rule bspec)
  then show ?thesis
    by simp
qed

definition usize_max :: nat where
  "usize_max = 2 ^ 64 - 1"

definition sat_add :: "nat \<Rightarrow> nat \<Rightarrow> nat" where
  "sat_add a b = min (a + b) usize_max"

definition sat_mul :: "nat \<Rightarrow> nat \<Rightarrow> nat" where
  "sat_mul a b = min (a * b) usize_max"

definition checked_add :: "nat \<Rightarrow> nat \<Rightarrow> nat option" where
  "checked_add a b = (if a + b \<le> usize_max then Some (a + b) else None)"

definition checked_mul :: "nat \<Rightarrow> nat \<Rightarrow> nat option" where
  "checked_mul a b = (if a * b \<le> usize_max then Some (a * b) else None)"

definition checked_sub :: "nat \<Rightarrow> nat \<Rightarrow> nat option" where
  "checked_sub a b = (if b \<le> a then Some (a - b) else None)"

lemmas arith_all [arith_defs] =
  sat_add_def sat_mul_def checked_add_def checked_mul_def checked_sub_def

lemma checked_add_Some_iff: "checked_add a b = Some c \<longleftrightarrow> c = a + b \<and> a + b \<le> usize_max"
  by (auto simp: checked_add_def)

lemma checked_sub_Some_iff: "checked_sub a b = Some c \<longleftrightarrow> b \<le> a \<and> c = a - b"
  by (auto simp: checked_sub_def)

lemma checked_sub_None_iff: "checked_sub a b = None \<longleftrightarrow> a < b"
  by (auto simp: checked_sub_def)

lemma sat_add_le: "sat_add a b \<le> a + b" "sat_add a b \<le> usize_max"
  by (simp_all add: sat_add_def)

lemma sat_add_exact: "a + b \<le> usize_max \<Longrightarrow> sat_add a b = a + b"
  by (simp add: sat_add_def)

section \<open>Fallible steps\<close>

text \<open>
  The errors of \<open>bareline_document::Error\<close>, in its order. \<open>Panicked\<close> is the model's value
  for a run that aborts (\<open>unreachable!\<close>, \<open>unwrap\<close> on \<open>None\<close>, a string slice off a character
  boundary, an index out of range, an unsigned subtraction below zero); the code has no such
  constructor, and the component theorems show which inputs never reach it.
\<close>

datatype error =
    OutOfBounds
  | InvalidBoundary
  | OverlappingEdits
  | StaleRevision
  | BudgetExceeded
  | EmptyHistory
  | WrongDocument
  | RevisionOverflow
  | IncompleteSource
  | EmptyTransaction
  | LinkedUndoRequired
  | ActorBusy
  | Panicked

type_synonym 'a res = "error + 'a"

text \<open>Rust's \<open>?\<close>: the first error ends the sequence.\<close>

definition and_then :: "'e + 'a \<Rightarrow> ('a \<Rightarrow> 'e + 'b) \<Rightarrow> 'e + 'b" where
  "and_then m f = (case m of Inl e \<Rightarrow> Inl e | Inr x \<Rightarrow> f x)"

definition ok_or :: "'e \<Rightarrow> 'a option \<Rightarrow> 'e + 'a" where
  "ok_or e m = (case m of None \<Rightarrow> Inl e | Some x \<Rightarrow> Inr x)"

lemma and_then_simps [simp]:
  "and_then (Inl e) f = Inl e"
  "and_then (Inr x) f = f x"
  by (simp_all add: and_then_def)

lemma and_then_Inr_iff [res_simps]:
  "and_then m f = Inr y \<longleftrightarrow> (\<exists>x. m = Inr x \<and> f x = Inr y)"
  by (cases m) simp_all

lemma and_then_Inl_iff [res_simps]:
  "and_then m f = Inl e \<longleftrightarrow> m = Inl e \<or> (\<exists>x. m = Inr x \<and> f x = Inl e)"
  by (cases m) simp_all

lemma ok_or_simps [simp]:
  "ok_or e None = Inl e"
  "ok_or e (Some x) = Inr x"
  by (simp_all add: ok_or_def)

lemma ok_or_Inr_iff [res_simps]: "ok_or e m = Inr x \<longleftrightarrow> m = Some x"
  by (cases m) simp_all

lemma ok_or_Inl_iff [res_simps]: "ok_or e m = Inl e' \<longleftrightarrow> m = None \<and> e' = e"
  by (cases m) auto

lemma and_then_cong [fundef_cong]:
  "m = m' \<Longrightarrow> (\<And>x. m' = Inr x \<Longrightarrow> f x = f' x) \<Longrightarrow> and_then m f = and_then m' f'"
  by (cases m') simp_all

section \<open>Lists and ranges\<close>

text \<open>\<open>&xs[start..end]\<close> for a range inside \<open>xs\<close>.\<close>

definition sub :: "nat \<Rightarrow> nat \<Rightarrow> 'a list \<Rightarrow> 'a list" where
  "sub s e xs = take (e - s) (drop s xs)"

lemma sub_full [simp]: "length xs \<le> e \<Longrightarrow> sub 0 e xs = xs"
  by (simp add: sub_def)

lemma sub_empty [simp]: "e \<le> s \<Longrightarrow> sub s e xs = []"
  by (simp add: sub_def)

lemma length_sub: "length (sub s e xs) = min (e - s) (length xs - s)"
  by (simp add: sub_def)

lemma length_sub_le [simp]: "s \<le> e \<Longrightarrow> e \<le> length xs \<Longrightarrow> length (sub s e xs) = e - s"
  by (simp add: sub_def)

lemma take_sub: "take n (sub s e xs) = sub s (min e (s + n)) xs"
proof -
  have "min n (e - s) = min e (s + n) - s"
    by simp
  then show ?thesis
    by (simp add: sub_def)
qed

lemma drop_sub: "drop n (sub s e xs) = sub (s + n) e xs"
  by (simp add: sub_def drop_take add.commute)

lemma sub_sub: "sub a b (sub s e xs) = sub (s + a) (min e (s + b)) xs"
proof -
  have "sub a b (sub s e xs) = take (b - a) (take (e - (s + a)) (drop (s + a) xs))"
    by (simp add: sub_def drop_take add.commute)
  also have "\<dots> = take (min (e - (s + a)) (b - a)) (drop (s + a) xs)"
    by (simp add: min.commute)
  also have "min (e - (s + a)) (b - a) = min e (s + b) - (s + a)"
    by simp
  finally show ?thesis
    by (simp add: sub_def)
qed

lemma sub_append_left: "e \<le> length xs \<Longrightarrow> sub s e (xs @ ys) = sub s e xs"
  by (cases "s \<le> e") (simp_all add: sub_def)

lemma sub_append_right:
  "length xs \<le> s \<Longrightarrow> sub s e (xs @ ys) = sub (s - length xs) (e - length xs) ys"
  by (simp add: sub_def)

lemma sub_append_mid:
  "s \<le> length xs \<Longrightarrow> length xs \<le> e \<Longrightarrow>
   sub s e (xs @ ys) = sub s (length xs) xs @ sub 0 (e - length xs) ys"
  by (simp add: sub_def)

lemma sub_split: "s \<le> m \<Longrightarrow> m \<le> e \<Longrightarrow> sub s m xs @ sub m e xs = sub s e xs"
proof -
  assume "s \<le> m" "m \<le> e"
  then have len: "e - s = (m - s) + (e - m)"
    by simp
  have "sub s e xs = sub s m xs @ sub m e xs"
    using \<open>s \<le> m\<close> by (simp only: sub_def len take_add drop_drop) simp
  then show ?thesis
    by simp
qed

lemma sub_0_take: "sub 0 n xs = take n xs"
  by (simp add: sub_def)

lemma sub_to_end: "length xs \<le> e \<Longrightarrow> sub s e xs = drop s xs"
  by (simp add: sub_def)

lemma sub_nth: "s + i < e \<Longrightarrow> e \<le> length xs \<Longrightarrow> sub s e xs ! i = xs ! (s + i)"
  by (simp add: sub_def)

lemma sub_map: "sub s e (map f xs) = map f (sub s e xs)"
  by (simp add: sub_def take_map drop_map)

lemma take_sub_drop: "s \<le> e \<Longrightarrow> take s xs @ sub s e xs @ drop e xs = xs"
proof -
  assume "s \<le> e"
  then have "drop e xs = drop (e - s) (drop s xs)"
    by simp
  then show ?thesis
    by (simp only: sub_def append_take_drop_id)
qed

text \<open>Replacing the bytes of a range: what one edit means for a text.\<close>

definition replace_range :: "nat \<Rightarrow> nat \<Rightarrow> 'a list \<Rightarrow> 'a list \<Rightarrow> 'a list" where
  "replace_range s e ins xs = take s xs @ ins @ drop e xs"

lemma length_replace_range:
  "s \<le> e \<Longrightarrow> e \<le> length xs \<Longrightarrow> length (replace_range s e ins xs) = length xs - (e - s) + length ins"
  by (simp add: replace_range_def)

lemma replace_range_inverse:
  "s \<le> e \<Longrightarrow> e \<le> length xs \<Longrightarrow>
   replace_range s (s + length ins) (sub s e xs) (replace_range s e ins xs) = xs"
  by (simp add: replace_range_def take_sub_drop)

lemma replace_range_none [simp]: "replace_range s s [] xs = xs"
  by (simp add: replace_range_def)

lemma filter_le_nth_sorted:
  "sorted_wrt (<) xs \<Longrightarrow> k < length xs \<Longrightarrow>
     filter (\<lambda>p. p \<le> xs ! k) xs = take (Suc k) (xs :: nat list)"
proof (induction xs arbitrary: k)
  case Nil
  then show ?case by simp
next
  case (Cons x xs)
  show ?case
  proof (cases k)
    case 0
    with Cons.prems show ?thesis
      by (auto simp: filter_empty_conv)
  next
    case (Suc j)
    with Cons.prems have "x \<le> xs ! j"
      by (auto simp: less_imp_le)
    with Suc Cons show ?thesis
      by simp
  qed
qed

lemma length_filter_neq:
  "distinct xs \<Longrightarrow> x \<in> set xs \<Longrightarrow> length (filter (\<lambda>i. i \<noteq> x) xs) = length xs - 1"
proof (induction xs)
  case Nil
  then show ?case by simp
next
  case (Cons y xs)
  show ?case
  proof (cases "x = y")
    case True
    with Cons.prems show ?thesis
      by (auto intro!: arg_cong [where f = length] filter_True)
  next
    case False
    with Cons have "length (filter (\<lambda>i. i \<noteq> x) xs) = length xs - 1" "0 < length xs"
      by (auto simp: length_pos_if_in_set)
    with False show ?thesis
      by simp
  qed
qed

text \<open>The standard library specifies \<open>partition_point\<close> on slices whose accepted elements come first.\<close>

definition partition_point :: "('a \<Rightarrow> bool) \<Rightarrow> 'a list \<Rightarrow> nat" where
  "partition_point p xs = length (takeWhile p xs)"

end
