(* ===== verification/Utf8.thy ===== *)
theory Utf8
  imports Prelude
begin

text \<open>
  UTF-8 as the program relies on it: \<open>str\<close> values are well-formed UTF-8 byte sequences
  (\<open>valid_utf8\<close>, the condition of \<open>std::str::from_utf8\<close>), and slicing a \<open>str\<close> panics off a
  character boundary (\<open>char_boundary\<close>, that is \<open>str::is_char_boundary\<close>). The lemmas say that
  well-formedness is closed under concatenation and under cutting at a boundary.
\<close>

section \<open>Continuation bytes and boundaries\<close>

definition cont :: "byte \<Rightarrow> bool" where
  "cont b \<longleftrightarrow> b AND 0xC0 = 0x80"

lemma cont_iff: "cont b \<longleftrightarrow> 0x80 \<le> b \<and> b \<le> 0xBF"
proof (rule all_bytes [where P = "\<lambda>b. cont b \<longleftrightarrow> 0x80 \<le> b \<and> b \<le> 0xBF"])
  show "\<forall>n\<in>set [0..<256]. cont (word_of_nat n) \<longleftrightarrow>
      0x80 \<le> (word_of_nat n :: byte) \<and> (word_of_nat n :: byte) \<le> 0xBF"
    unfolding cont_def by code_simp
qed

definition char_boundary :: "byte list \<Rightarrow> nat \<Rightarrow> bool" where
  "char_boundary xs n \<longleftrightarrow>
     n = 0 \<or> n = length xs \<or> (n < length xs \<and> \<not> cont (xs ! n))"

lemma char_boundary_ends [simp]: "char_boundary xs 0" "char_boundary xs (length xs)"
  by (simp_all add: char_boundary_def)

lemma char_boundary_le: "char_boundary xs n \<Longrightarrow> n \<le> length xs"
  by (auto simp: char_boundary_def)

section \<open>Well-formed sequences\<close>

text \<open>Bytes of the scalar value that a lead byte announces; 0 for no lead byte.\<close>

definition utf8_width :: "byte \<Rightarrow> nat" where
  "utf8_width b =
     (if b < 0x80 then 1
      else if 0xC2 \<le> b \<and> b \<le> 0xDF then 2
      else if 0xE0 \<le> b \<and> b \<le> 0xEF then 3
      else if 0xF0 \<le> b \<and> b \<le> 0xF4 then 4
      else 0)"

text \<open>No overlong form, no surrogate and nothing above U+10FFFF: limits on the second byte.\<close>

definition utf8_second_ok :: "byte \<Rightarrow> byte \<Rightarrow> bool" where
  "utf8_second_ok b c \<longleftrightarrow>
     (b = 0xE0 \<longrightarrow> 0xA0 \<le> c) \<and> (b = 0xED \<longrightarrow> c \<le> 0x9F) \<and>
     (b = 0xF0 \<longrightarrow> 0x90 \<le> c) \<and> (b = 0xF4 \<longrightarrow> c \<le> 0x8F)"

definition utf8_scalar :: "byte list \<Rightarrow> bool" where
  "utf8_scalar xs \<longleftrightarrow>
     (case xs of [] \<Rightarrow> False
      | b # cs \<Rightarrow> length xs = utf8_width b \<and> list_all cont cs \<and>
          (case cs of [] \<Rightarrow> True | c # _ \<Rightarrow> utf8_second_ok b c))"

function valid_utf8 :: "byte list \<Rightarrow> bool" where
  "valid_utf8 xs =
     (case xs of [] \<Rightarrow> True
      | b # _ \<Rightarrow>
          if utf8_width b = 0 then False
          else utf8_scalar (take (utf8_width b) xs) \<and> valid_utf8 (drop (utf8_width b) xs))"
  by pat_completeness auto
termination
  by (relation "measure length") auto

declare valid_utf8.simps [simp del]

lemma valid_utf8_Nil [simp]: "valid_utf8 []"
  by (simp add: valid_utf8.simps)

lemma valid_utf8_Cons:
  "valid_utf8 (b # bs) \<longleftrightarrow>
     0 < utf8_width b \<and> utf8_scalar (take (utf8_width b) (b # bs)) \<and>
     valid_utf8 (drop (utf8_width b) (b # bs))"
  by (subst valid_utf8.simps) simp

lemma utf8_width_not_cont: "0 < utf8_width b \<Longrightarrow> \<not> cont b"
  by (auto simp: utf8_width_def cont_iff word_le_nat_alt word_less_nat_alt split: if_splits)

lemma valid_utf8_hd: "valid_utf8 xs \<Longrightarrow> xs \<noteq> [] \<Longrightarrow> \<not> cont (hd xs)"
  by (cases xs) (auto simp: valid_utf8_Cons utf8_width_not_cont)

lemma utf8_scalar_length:
  "utf8_scalar xs \<Longrightarrow> xs \<noteq> [] \<and> length xs = utf8_width (hd xs)"
  by (auto simp: utf8_scalar_def split: list.splits)

lemma utf8_scalar_tail_cont:
  "utf8_scalar xs \<Longrightarrow> 0 < i \<Longrightarrow> i < length xs \<Longrightarrow> cont (xs ! i)"
  by (cases xs) (auto simp: utf8_scalar_def list_all_length nth_Cons split: nat.splits)

lemma utf8_width_le_4: "utf8_width b \<le> 4"
  by (simp add: utf8_width_def)

lemma valid_utf8_step:
  assumes "valid_utf8 xs" and "xs \<noteq> []"
  obtains w where "w = utf8_width (hd xs)" and "0 < w" and "w \<le> 4" and "w \<le> length xs"
    and "utf8_scalar (take w xs)" and "valid_utf8 (drop w xs)"
proof -
  let ?w = "utf8_width (hd xs)"
  from assms obtain b bs where xs: "xs = b # bs"
    by (cases xs) auto
  with assms(1) have v: "0 < ?w" "utf8_scalar (take ?w xs)" "valid_utf8 (drop ?w xs)"
    by (auto simp: valid_utf8_Cons)
  from utf8_scalar_length [OF v(2)] v(1) xs have "min (length xs) ?w = ?w"
    by (cases ?w) auto
  with v show thesis
    by (intro that [of ?w]) (auto simp: utf8_width_le_4)
qed

lemma valid_utf8_append: "valid_utf8 xs \<Longrightarrow> valid_utf8 (xs @ ys) \<longleftrightarrow> valid_utf8 ys"
proof (induction xs rule: valid_utf8.induct)
  case (1 xs)
  show ?case
  proof (cases xs)
    case Nil
    then show ?thesis by simp
  next
    case (Cons b bs)
    from "1.prems" Cons obtain w where w: "w = utf8_width b" "0 < w" "w \<le> length xs"
      "utf8_scalar (take w xs)" "valid_utf8 (drop w xs)"
      by (metis valid_utf8_step list.discI list.sel(1))
    have "valid_utf8 (drop w xs @ ys) \<longleftrightarrow> valid_utf8 ys"
      using "1.IH" [OF Cons] w by simp
    moreover have "valid_utf8 (xs @ ys) \<longleftrightarrow> valid_utf8 (drop w xs @ ys)"
    proof -
      have "xs @ ys = b # (bs @ ys)"
        by (simp add: Cons)
      moreover have "take w (xs @ ys) = take w xs" "drop w (xs @ ys) = drop w xs @ ys"
        using w(3) by simp_all
      ultimately show ?thesis
        using w(1,2,4) valid_utf8_Cons [of b "bs @ ys"] by simp
    qed
    ultimately show ?thesis by simp
  qed
qed

lemma valid_utf8_concat: "(\<forall>x\<in>set xss. valid_utf8 x) \<Longrightarrow> valid_utf8 (concat xss)"
  by (induction xss) (auto simp: valid_utf8_append)

text \<open>Cutting at a boundary: no scalar value straddles it.\<close>

lemma valid_utf8_cut:
  "valid_utf8 xs \<Longrightarrow> char_boundary xs n \<Longrightarrow> valid_utf8 (take n xs) \<and> valid_utf8 (drop n xs)"
proof (induction xs arbitrary: n rule: valid_utf8.induct)
  case (1 xs)
  show ?case
  proof (cases "xs = [] \<or> n = 0")
    case True
    with "1.prems" show ?thesis by auto
  next
    case False
    then obtain b bs where xs: "xs = b # bs"
      by (cases xs) auto
    from "1.prems"(1) False obtain w where w: "w = utf8_width b" "0 < w" "w \<le> length xs"
      "utf8_scalar (take w xs)" "valid_utf8 (drop w xs)"
      by (metis valid_utf8_step xs list.sel(1))
    have "w \<le> n"
    proof (rule ccontr)
      assume "\<not> w \<le> n"
      with False have "0 < n" "n < length (take w xs)"
        using w(3) by auto
      with utf8_scalar_tail_cont [OF w(4)] have "cont (take w xs ! n)"
        by blast
      then have "cont (xs ! n)"
        using \<open>\<not> w \<le> n\<close> by simp
      with "1.prems"(2) False \<open>\<not> w \<le> n\<close> w(3) show False
        by (auto simp: char_boundary_def)
    qed
    moreover have "char_boundary (drop w xs) (n - w)"
      using "1.prems"(2) \<open>w \<le> n\<close> w(3) by (auto simp: char_boundary_def)
    ultimately have IH: "valid_utf8 (take (n - w) (drop w xs))" "valid_utf8 (drop n xs)"
      using "1.IH" [OF xs, of "n - w"] w by simp_all
    have split: "take n xs = take w xs @ take (n - w) (drop w xs)"
      using \<open>w \<le> n\<close> by (metis le_add_diff_inverse take_add)
    have "valid_utf8 (take w xs)"
    proof -
      from w(2,3) xs have "take w xs = b # take (w - 1) bs"
        by (cases w) auto
      with w show ?thesis
        by (simp add: valid_utf8_Cons)
    qed
    with IH split show ?thesis
      by (simp add: valid_utf8_append)
  qed
qed

lemma char_boundary_append_right:
  "valid_utf8 ys \<Longrightarrow> length xs \<le> n \<Longrightarrow>
     char_boundary (xs @ ys) n \<longleftrightarrow> char_boundary ys (n - length xs)"
  by (cases ys) (auto simp: char_boundary_def nth_append dest: valid_utf8_hd)

lemma char_boundary_append_left:
  "valid_utf8 ys \<Longrightarrow> n \<le> length xs \<Longrightarrow>
     char_boundary (xs @ ys) n \<longleftrightarrow> char_boundary xs n"
  by (cases ys) (auto simp: char_boundary_def nth_append dest: valid_utf8_hd)

lemma valid_utf8_sub:
  assumes "valid_utf8 xs" and "char_boundary xs s" and "char_boundary xs e" and "s \<le> e"
  shows "valid_utf8 (sub s e xs)"
proof -
  have v: "valid_utf8 (take e xs)" "valid_utf8 (drop e xs)"
    using valid_utf8_cut [OF assms(1,3)] by auto
  have "char_boundary (take e xs) s"
    using char_boundary_append_left [OF v(2), of s "take e xs"] assms
    by (simp add: char_boundary_le)
  with v(1) have "valid_utf8 (drop s (take e xs))"
    by (blast dest: valid_utf8_cut)
  then show ?thesis
    by (simp add: sub_def drop_take)
qed

text \<open>The bytes of a scalar value that starts before a boundary end before it.\<close>

lemma char_boundary_near:
  assumes "valid_utf8 xs" and "n \<le> length xs"
  shows "\<exists>m. m \<le> n \<and> n \<le> m + 3 \<and> char_boundary xs m"
  using assms
proof (induction xs arbitrary: n rule: valid_utf8.induct)
  case (1 xs)
  show ?case
  proof (cases "xs = []")
    case True
    with "1.prems" show ?thesis by auto
  next
    case False
    then obtain b bs where xs: "xs = b # bs"
      by (cases xs) auto
    from "1.prems"(1) False obtain w where w: "w = utf8_width b" "0 < w" "w \<le> 4" "w \<le> length xs"
      "utf8_scalar (take w xs)" "valid_utf8 (drop w xs)"
      by (metis valid_utf8_step xs list.sel(1))
    show ?thesis
    proof (cases "w \<le> n")
      case False
      with w show ?thesis
        by (intro exI [of _ 0]) auto
    next
      case True
      obtain m where m: "m \<le> n - w" "n - w \<le> m + 3" "char_boundary (drop w xs) m"
      proof -
        have "\<exists>m. m \<le> n - w \<and> n - w \<le> m + 3 \<and> char_boundary (drop w xs) m"
          using "1.IH" [OF xs, of "n - w"] w(1,2,6) "1.prems"(2) by auto
        with that show thesis
          by blast
      qed
      have "char_boundary xs (w + m)"
        using char_boundary_append_right [OF w(6), of "take w xs" "w + m"] m(3) w(4)
        by simp
      with m True show ?thesis
        by (intro exI [of _ "w + m"]) auto
    qed
  qed
qed

end
