(* ===== verification/Summary.thy ===== *)
theory Summary
  imports Utf8
begin

text \<open>
  \<open>Summary\<close> of crates/document/src/tree.rs: the line-break counts cached in every node of the
  document tree. \<open>scan\<close> counts a text byte by byte; \<open>combine\<close> joins the counts of neighbours;
  \<open>after\<close> and \<open>before\<close> take a scanned prefix or suffix off. The lemmas say that the three agree
  with scanning the joined or remaining text, across a CR LF pair on the seam included.
\<close>

section \<open>The record and the scan\<close>

record summary =
  sm_unknown :: bool
  sm_bytes :: nat
  sm_breaks :: nat
  sm_cr :: nat
  sm_lf :: nat
  sm_crlf :: nat
  sm_first :: "byte option"
  sm_last :: "byte option"

definition summary_default :: summary where
  "summary_default =
     \<lparr>sm_unknown = False, sm_bytes = 0, sm_breaks = 0, sm_cr = 0, sm_lf = 0, sm_crlf = 0,
      sm_first = None, sm_last = None\<rparr>"

text \<open>The loop of \<open>scan\<close>: the state is \<open>(previous, breaks, cr, lf, crlf)\<close>.\<close>

fun scan_loop ::
  "byte list \<Rightarrow> byte option \<Rightarrow> nat \<Rightarrow> nat \<Rightarrow> nat \<Rightarrow> nat \<Rightarrow> byte option \<times> nat \<times> nat \<times> nat \<times> nat"
where
  "scan_loop [] previous breaks cr lf crlf = (previous, breaks, cr, lf, crlf)"
| "scan_loop (b # bs) previous breaks cr lf crlf =
     (let (cr', lf', crlf') =
            (if b = CR then (cr + 1, lf, crlf)
             else if b = LF then
               (if previous = Some CR then (cr - 1, lf, crlf + 1) else (cr, lf + 1, crlf))
             else (cr, lf, crlf));
          breaks' =
            (if b = CR \<or> (b = LF \<and> previous \<noteq> Some CR) then breaks + 1 else breaks)
      in scan_loop bs (Some b) breaks' cr' lf' crlf')"

definition scan :: "byte list \<Rightarrow> summary" where
  "scan text =
     (case scan_loop text None 0 0 0 0 of
        (previous, breaks, cr, lf, crlf) \<Rightarrow>
          \<lparr>sm_unknown = False, sm_bytes = length text, sm_breaks = breaks, sm_cr = cr,
           sm_lf = lf, sm_crlf = crlf,
           sm_first = (case text of [] \<Rightarrow> None | b # _ \<Rightarrow> Some b), sm_last = previous\<rparr>)"

section \<open>Joining and taking apart\<close>

definition sm_after :: "summary \<Rightarrow> summary \<Rightarrow> byte \<Rightarrow> summary" where
  "sm_after self left first =
     (let cross = (if sm_last left = Some CR \<and> first = LF then 1 else 0)
      in \<lparr>sm_unknown = False,
          sm_bytes = sm_bytes self - sm_bytes left,
          sm_breaks = sm_breaks self + cross - sm_breaks left,
          sm_cr = sm_cr self + cross - sm_cr left,
          sm_lf = sm_lf self + cross - sm_lf left,
          sm_crlf = sm_crlf self - sm_crlf left - cross,
          sm_first = Some first, sm_last = sm_last self\<rparr>)"

definition sm_before :: "summary \<Rightarrow> summary \<Rightarrow> byte \<Rightarrow> summary" where
  "sm_before self right lst =
     (let cross = (if lst = CR \<and> sm_first right = Some LF then 1 else 0)
      in \<lparr>sm_unknown = False,
          sm_bytes = sm_bytes self - sm_bytes right,
          sm_breaks = sm_breaks self + cross - sm_breaks right,
          sm_cr = sm_cr self + cross - sm_cr right,
          sm_lf = sm_lf self + cross - sm_lf right,
          sm_crlf = sm_crlf self - sm_crlf right - cross,
          sm_first = sm_first self, sm_last = Some lst\<rparr>)"

definition combine :: "summary \<Rightarrow> summary \<Rightarrow> summary" where
  "combine self rhs =
     (if sm_unknown self \<or> sm_unknown rhs then
        summary_default\<lparr>sm_bytes := sm_bytes self + sm_bytes rhs, sm_unknown := True\<rparr>
      else
        let cross = (if sm_last self = Some CR \<and> sm_first rhs = Some LF then 1 else 0)
        in \<lparr>sm_unknown = False,
            sm_bytes = sm_bytes self + sm_bytes rhs,
            sm_breaks = sm_breaks self + sm_breaks rhs - cross,
            sm_cr = sm_cr self + sm_cr rhs - cross,
            sm_lf = sm_lf self + sm_lf rhs - cross,
            sm_crlf = sm_crlf self + sm_crlf rhs + cross,
            sm_first = (case sm_first self of None \<Rightarrow> sm_first rhs | Some b \<Rightarrow> Some b),
            sm_last = (case sm_last rhs of None \<Rightarrow> sm_last self | Some b \<Rightarrow> Some b)\<rparr>)"

section \<open>The loop over a joined text\<close>

lemma scan_loop_append:
  "scan_loop (xs @ ys) p b c l x =
     (case scan_loop xs p b c l x of (p', b', c', l', x') \<Rightarrow> scan_loop ys p' b' c' l' x')"
  by (induction xs arbitrary: p b c l x) (simp_all add: Let_def split: prod.splits)

text \<open>The counters start anywhere: they only accumulate (a CR just read has been counted).\<close>

lemma scan_loop_shift:
  "(p = Some CR \<Longrightarrow> 0 < c) \<Longrightarrow>
   scan_loop xs p (b + b0) (c + c0) (l + l0) (x + x0) =
     (case scan_loop xs p b c l x of
        (q, b', c', l', x') \<Rightarrow> (q, b' + b0, c' + c0, l' + l0, x' + x0))"
proof (induction xs arbitrary: p b c l x)
  case Nil
  then show ?case by simp
next
  case (Cons y ys)
  consider "y = CR" | "y = LF" "p = Some CR" | "y = LF" "p \<noteq> Some CR" | "y \<noteq> CR" "y \<noteq> LF"
    by blast
  then show ?case
  proof cases
    case 1
    with Cons.IH [of "Some CR" "c + 1" "b + 1" l x] show ?thesis
      by simp
  next
    case 2
    with Cons.prems have "c + c0 - Suc 0 = (c - Suc 0) + c0"
      by auto
    with 2 Cons.IH [of "Some LF" "c - 1" b l "x + 1"] show ?thesis
      by simp
  next
    case 3
    with Cons.IH [of "Some LF" c "b + 1" "l + 1" x] show ?thesis
      by simp
  next
    case 4
    with Cons.IH [of "Some y" c b l x] show ?thesis
      by (cases "p = Some CR") simp_all
  qed
qed

lemma scan_loop_last:
  "fst (scan_loop xs p b c l x) = (if xs = [] then p else Some (last xs))"
  by (induction xs arbitrary: p b c l x) (simp_all add: Let_def split: prod.splits)

text \<open>What the bytes before the text change: only a leading LF after a CR counts differently.\<close>

lemma scan_loop_previous:
  assumes "\<not> (p = Some CR \<and> (\<exists>zs. ys = LF # zs))" and "ys \<noteq> []"
  shows "scan_loop ys p b c l x = scan_loop ys None b c l x"
  using assms by (cases ys) auto

lemma scan_loop_seam:
  "scan_loop (LF # ys) (Some CR) b (Suc c) l x = scan_loop ys (Some LF) b c l (x + 1)"
  by simp

lemma scan_last: "sm_last (scan xs) = (if xs = [] then None else Some (last xs))"
  using scan_loop_last [of xs None 0 0 0 0] by (auto simp: scan_def split: prod.splits)

lemma scan_first: "sm_first (scan xs) = (if xs = [] then None else Some (hd xs))"
  by (auto simp: scan_def split: prod.splits list.splits)

lemma scan_bytes [simp]: "sm_bytes (scan xs) = length xs"
  by (auto simp: scan_def split: prod.splits)

lemma scan_known [simp]: "\<not> sm_unknown (scan xs)"
  by (auto simp: scan_def split: prod.splits)

lemma scan_Nil: "scan [] = summary_default"
  by (simp add: scan_def summary_default_def)

text \<open>A text that ends with a CR counts one more CR than it has CR LF pairs to close.\<close>

lemma scan_loop_ends_cr:
  "scan_loop xs p b c l x = (Some CR, b', c', l', x') \<Longrightarrow> (p = Some CR \<Longrightarrow> 0 < c) \<Longrightarrow>
     0 < c'"
proof (induction xs arbitrary: p b c l x)
  case Nil
  then show ?case by simp
next
  case (Cons y ys)
  from Cons.prems(1) show ?case
    by (auto simp: Let_def split: if_splits dest!: Cons.IH)
qed

section \<open>Scanning a joined text\<close>

theorem scan_append: "scan (xs @ ys) = combine (scan xs) (scan ys)"
proof (cases "xs = [] \<or> ys = []")
  case True
  then show ?thesis
    by (auto simp: combine_def scan_Nil summary_default_def scan_def split: prod.splits
        option.splits list.splits)
next
  case False
  obtain p b c l x where X: "scan_loop xs None 0 0 0 0 = (p, b, c, l, x)"
    by (cases "scan_loop xs None 0 0 0 0") auto
  have p: "p = Some (last xs)"
    using scan_loop_last [of xs None 0 0 0 0] X False by simp
  obtain q b' c' l' x' where Y: "scan_loop ys None 0 0 0 0 = (q, b', c', l', x')"
    by (cases "scan_loop ys None 0 0 0 0") auto
  have q: "q = Some (last ys)"
    using scan_loop_last [of ys None 0 0 0 0] Y False by simp
  have first: "(case xs @ ys of [] \<Rightarrow> None | b # _ \<Rightarrow> Some b) = sm_first (scan xs)"
    using False by (cases xs) (simp_all add: scan_first)
  have pos: "p = Some CR \<Longrightarrow> 0 < c"
    using scan_loop_ends_cr X by fastforce
  show ?thesis
  proof (cases "p = Some CR \<and> hd ys = LF")
    case True
    with False obtain zs where ys: "ys = LF # zs"
      by (cases ys) auto
    obtain c0 where c0: "c = Suc c0"
      using pos True by (cases c) auto
    obtain q2 b2 c2 l2 x2 where Z: "scan_loop zs (Some LF) 0 0 0 0 = (q2, b2, c2, l2, x2)"
      by (cases "scan_loop zs (Some LF) 0 0 0 0") auto
    have "scan_loop zs (Some LF) 1 0 1 0 = (q2, b2 + 1, c2, l2 + 1, x2)"
      using scan_loop_shift [of "Some LF" 0 zs 0 1 0 0 1 0 0] Z by simp
    with Y ys have Y': "q = q2" "b' = b2 + 1" "c' = c2" "l' = l2 + 1" "x' = x2"
      by simp_all
    have "scan_loop ys p b c l x = (q2, b2 + b, c2 + c0, l2 + l, x2 + (x + 1))"
      using scan_loop_shift [of "Some LF" 0 zs 0 b c0 0 l 0 "x + 1"] Z True ys c0
      by (simp add: scan_loop_seam)
    then have "scan_loop (xs @ ys) None 0 0 0 0 = (q, b + b' - 1, c + c' - 1, l + l' - 1, x + x' + 1)"
      using X Y' c0 by (simp add: scan_loop_append)
    then show ?thesis
      using X Y False True p q first
      by (auto simp: scan_def combine_def scan_first split: list.splits)
  next
    case nocross: False
    have "scan_loop ys p b c l x = scan_loop ys None b c l x"
      using nocross False by (intro scan_loop_previous) auto
    also have "\<dots> = (q, b' + b, c' + c, l' + l, x' + x)"
      using scan_loop_shift [of None 0 ys 0 b c 0 l 0 x] Y by simp
    finally have "scan_loop (xs @ ys) None 0 0 0 0 = (q, b + b', c + c', l + l', x + x')"
      using X by (simp add: scan_loop_append add.commute)
    then show ?thesis
      using X Y False nocross p q first
      by (auto simp: scan_def combine_def scan_first split: list.splits)
  qed
qed

section \<open>Taking a scanned part off\<close>

lemma scan_loop_ge:
  "scan_loop xs p b c l x = (q, b', c', l', x') \<Longrightarrow> b \<le> b' \<and> l \<le> l' \<and> x \<le> x'"
  by (induction xs arbitrary: p b c l x)
     (fastforce simp: Let_def split: if_splits)+

lemma scan_ends_cr:
  assumes "xs \<noteq> []" and "last xs = CR"
  shows "0 < sm_cr (scan xs)" and "0 < sm_breaks (scan xs)"
proof -
  from assms obtain ys where xs: "xs = ys @ [CR]"
    by (metis append_butlast_last_id)
  obtain p b c l x where "scan_loop ys None 0 0 0 0 = (p, b, c, l, x)"
    by (cases "scan_loop ys None 0 0 0 0") auto
  with xs show "0 < sm_cr (scan xs)" "0 < sm_breaks (scan xs)"
    by (simp_all add: scan_def scan_loop_append)
qed

lemma scan_starts_lf:
  assumes "xs \<noteq> []" and "hd xs = LF"
  shows "0 < sm_lf (scan xs)" and "0 < sm_breaks (scan xs)"
proof -
  from assms obtain ys where xs: "xs = LF # ys"
    by (cases xs) auto
  obtain q b c l x where Y: "scan_loop ys (Some LF) 1 0 1 0 = (q, b, c, l, x)"
    by (cases "scan_loop ys (Some LF) 1 0 1 0") auto
  with xs show "0 < sm_lf (scan xs)" "0 < sm_breaks (scan xs)"
    using scan_loop_ge [OF Y] by (simp_all add: scan_def)
qed

text \<open>The seam of a joined text: both sides counted the terminator.\<close>

definition seam :: "byte list \<Rightarrow> byte list \<Rightarrow> bool" where
  "seam xs ys \<longleftrightarrow> xs \<noteq> [] \<and> ys \<noteq> [] \<and> last xs = CR \<and> hd ys = LF"

lemma scan_append_fields:
  "sm_breaks (scan (xs @ ys)) = sm_breaks (scan xs) + sm_breaks (scan ys) - (if seam xs ys then 1 else 0)"
  "sm_cr (scan (xs @ ys)) = sm_cr (scan xs) + sm_cr (scan ys) - (if seam xs ys then 1 else 0)"
  "sm_lf (scan (xs @ ys)) = sm_lf (scan xs) + sm_lf (scan ys) - (if seam xs ys then 1 else 0)"
  "sm_crlf (scan (xs @ ys)) = sm_crlf (scan xs) + sm_crlf (scan ys) + (if seam xs ys then 1 else 0)"
  by (simp_all add: scan_append combine_def scan_first scan_last seam_def)

lemma seam_pos:
  assumes "seam xs ys"
  shows "0 < sm_breaks (scan xs)" "0 < sm_cr (scan xs)" "0 < sm_breaks (scan ys)" "0 < sm_lf (scan ys)"
  using assms scan_ends_cr [of xs] scan_starts_lf [of ys] by (simp_all add: seam_def)

lemma summary_eqI:
  assumes "sm_unknown a = sm_unknown b" "sm_bytes a = sm_bytes b" "sm_breaks a = sm_breaks b"
    "sm_cr a = sm_cr b" "sm_lf a = sm_lf b" "sm_crlf a = sm_crlf b"
    "sm_first a = sm_first b" "sm_last a = sm_last b"
  shows "a = (b :: summary)"
  using assms by simp

theorem sm_after_scan:
  assumes "ys \<noteq> []"
  shows "sm_after (scan (xs @ ys)) (scan xs) (hd ys) = scan ys"
proof (rule summary_eqI)
  have "(sm_last (scan xs) = Some CR \<and> hd ys = LF) = seam xs ys"
    using assms by (simp add: scan_last seam_def)
  then show "sm_breaks (sm_after (scan (xs @ ys)) (scan xs) (hd ys)) = sm_breaks (scan ys)"
    "sm_cr (sm_after (scan (xs @ ys)) (scan xs) (hd ys)) = sm_cr (scan ys)"
    "sm_lf (sm_after (scan (xs @ ys)) (scan xs) (hd ys)) = sm_lf (scan ys)"
    "sm_crlf (sm_after (scan (xs @ ys)) (scan xs) (hd ys)) = sm_crlf (scan ys)"
    using seam_pos [of xs ys] by (simp_all add: sm_after_def Let_def scan_append_fields)
qed (use assms in \<open>simp_all add: sm_after_def Let_def scan_first scan_last\<close>)

theorem sm_before_scan:
  assumes "xs \<noteq> []"
  shows "sm_before (scan (xs @ ys)) (scan ys) (last xs) = scan xs"
proof (rule summary_eqI)
  have "(last xs = CR \<and> sm_first (scan ys) = Some LF) = seam xs ys"
    using assms by (simp add: scan_first seam_def)
  then show "sm_breaks (sm_before (scan (xs @ ys)) (scan ys) (last xs)) = sm_breaks (scan xs)"
    "sm_cr (sm_before (scan (xs @ ys)) (scan ys) (last xs)) = sm_cr (scan xs)"
    "sm_lf (sm_before (scan (xs @ ys)) (scan ys) (last xs)) = sm_lf (scan xs)"
    "sm_crlf (sm_before (scan (xs @ ys)) (scan ys) (last xs)) = sm_crlf (scan xs)"
    using seam_pos [of xs ys] by (simp_all add: sm_before_def Let_def scan_append_fields)
qed (use assms in \<open>simp_all add: sm_before_def Let_def scan_first scan_last\<close>)

text \<open>
  No unsigned subtraction of \<open>after\<close> goes below zero on a text and a prefix of it.
\<close>

lemma sm_after_no_underflow:
  "sm_breaks (scan xs) \<le> sm_breaks (scan (xs @ ys)) + (if seam xs ys then 1 else 0)"
  "sm_cr (scan xs) \<le> sm_cr (scan (xs @ ys)) + (if seam xs ys then 1 else 0)"
  "sm_lf (scan xs) \<le> sm_lf (scan (xs @ ys)) + (if seam xs ys then 1 else 0)"
  "sm_crlf (scan xs) + (if seam xs ys then 1 else 0) \<le> sm_crlf (scan (xs @ ys))"
  using seam_pos [of xs ys] by (simp_all add: scan_append_fields)

end
