(* ===== verification/Lines.thy ===== *)
theory Lines
  imports Summary
begin

text \<open>
  The reference notion of a line. A line ends with CR, LF or CR LF; \<open>line_starts\<close> lists the
  offsets at which lines start. \<open>break_positions\<close> lists the first byte of every terminator, in
  the order in which the tree and the paged index count them; the lemmas connect it with the
  counts of \<open>scan\<close>, with joined texts and with \<open>line_starts\<close>.
\<close>

section \<open>Terminators\<close>

fun break_positions :: "byte list \<Rightarrow> bool \<Rightarrow> nat \<Rightarrow> nat list" where
  "break_positions [] preceding_cr i = []"
| "break_positions (b # bs) preceding_cr i =
     (if b = CR \<or> (b = LF \<and> \<not> preceding_cr) then i # break_positions bs (b = CR) (i + 1)
      else break_positions bs (b = CR) (i + 1))"

definition ends_cr :: "bool \<Rightarrow> byte list \<Rightarrow> bool" where
  "ends_cr preceding_cr xs \<longleftrightarrow> (if xs = [] then preceding_cr else last xs = CR)"

lemma ends_cr_simps [simp]:
  "ends_cr p [] = p"
  "ends_cr p (x # xs) = ends_cr (x = CR) xs"
  "ends_cr p (xs @ [x]) = (x = CR)"
  by (simp_all add: ends_cr_def)

lemma ends_cr_append: "ends_cr p (xs @ ys) = ends_cr (ends_cr p xs) ys"
  by (simp add: ends_cr_def)

lemma break_positions_append:
  "break_positions (xs @ ys) p i =
     break_positions xs p i @ break_positions ys (ends_cr p xs) (i + length xs)"
  by (induction xs arbitrary: p i) simp_all

lemma break_positions_offset:
  "break_positions xs p (i + k) = map (\<lambda>n. n + k) (break_positions xs p i)"
  by (induction xs arbitrary: p i) (simp_all flip: add_Suc)

lemma break_positions_shift: "break_positions xs p i = map (\<lambda>n. n + i) (break_positions xs p 0)"
  using break_positions_offset [of xs p 0 i] by simp

lemma break_positions_range:
  "n \<in> set (break_positions xs p i) \<Longrightarrow> i \<le> n \<and> n < i + length xs"
  by (induction xs arbitrary: p i) (fastforce split: if_splits)+

lemma sorted_break_positions: "sorted_wrt (<) (break_positions xs p i)"
  by (induction xs arbitrary: p i) (fastforce dest: break_positions_range)+

text \<open>The byte at \<open>n\<close> starts a terminator.\<close>

definition is_break :: "byte list \<Rightarrow> bool \<Rightarrow> nat \<Rightarrow> bool" where
  "is_break xs p n \<longleftrightarrow> n < length xs \<and>
     (xs ! n = CR \<or> (xs ! n = LF \<and> \<not> (if n = 0 then p else xs ! (n - 1) = CR)))"

lemma mem_break_positions: "n \<in> set (break_positions xs p 0) \<longleftrightarrow> is_break xs p n"
proof (induction xs rule: rev_induct)
  case Nil
  then show ?case by (simp add: is_break_def)
next
  case (snoc x xs)
  have last: "ends_cr p xs = (if length xs = 0 then p else xs ! (length xs - 1) = CR)"
    by (simp add: ends_cr_def last_conv_nth)
  consider "n < length xs" | "n = length xs" | "n > length xs"
    by linarith
  then show ?case
  proof cases
    case 1
    then have "is_break (xs @ [x]) p n = is_break xs p n"
      by (auto simp: is_break_def nth_append)
    with 1 snoc.IH show ?thesis
      by (auto simp: break_positions_append split: if_splits)
  next
    case 2
    then have "n \<notin> set (break_positions xs p 0)"
      using break_positions_range [of n xs p 0] by auto
    with 2 show ?thesis
      by (auto simp: break_positions_append is_break_def nth_append last split: if_splits)
  next
    case 3
    then show ?thesis
      using break_positions_range [of n "xs @ [x]" p 0] by (auto simp: is_break_def)
  qed
qed

text \<open>The counts of \<open>scan\<close> count the terminators.\<close>

lemma length_break_positions_seam:
  "length (break_positions ys True i) =
     length (break_positions ys False i) - (if ys \<noteq> [] \<and> hd ys = LF then 1 else 0)"
  by (cases ys) auto

lemma scan_loop_breaks:
  "fst (snd (scan_loop xs q b c l x)) = b + length (break_positions xs (q = Some CR) 0)"
proof (induction xs arbitrary: q b c l x)
  case Nil
  then show ?case by simp
next
  case (Cons y ys)
  have "length (break_positions ys p (Suc 0)) = length (break_positions ys p 0)" for p
    by (subst break_positions_shift) simp
  with Cons.IH show ?case
    by (simp add: Let_def)
qed

lemma scan_breaks: "sm_breaks (scan xs) = length (break_positions xs False 0)"
  using scan_loop_breaks [of xs None 0 0 0 0] by (auto simp: scan_def split: prod.splits)

lemma breaks_after_cr:
  "length (break_positions xs True 0) =
     sm_breaks (scan xs) - (if sm_first (scan xs) = Some LF then 1 else 0)"
  by (simp add: length_break_positions_seam scan_breaks scan_first)

section \<open>Line starts\<close>

definition terminator_width :: "byte list \<Rightarrow> nat \<Rightarrow> nat" where
  "terminator_width xs i =
     (if xs ! i = CR \<and> i + 1 < length xs \<and> xs ! (i + 1) = LF then 2 else 1)"

definition line_starts :: "byte list \<Rightarrow> nat list" where
  "line_starts xs = 0 # map (\<lambda>i. i + terminator_width xs i) (break_positions xs False 0)"

definition is_line_start :: "byte list \<Rightarrow> nat \<Rightarrow> bool" where
  "is_line_start xs p \<longleftrightarrow>
     p = 0 \<or>
     (p \<le> length xs \<and>
      (xs ! (p - 1) = LF \<or> (xs ! (p - 1) = CR \<and> \<not> (p < length xs \<and> xs ! p = LF))))"

lemma length_line_starts: "length (line_starts xs) = sm_breaks (scan xs) + 1"
  by (simp add: line_starts_def scan_breaks)

lemma set_line_starts: "p \<in> set (line_starts xs) \<longleftrightarrow> is_line_start xs p"
proof
  assume "p \<in> set (line_starts xs)"
  then consider "p = 0" | i where "is_break xs False i" "p = i + terminator_width xs i"
    by (auto simp: line_starts_def mem_break_positions)
  then show "is_line_start xs p"
    by cases (auto simp: is_line_start_def is_break_def terminator_width_def)
next
  assume start: "is_line_start xs p"
  show "p \<in> set (line_starts xs)"
  proof (cases p)
    case 0
    then show ?thesis by (simp add: line_starts_def)
  next
    case (Suc q)
    with start have q: "q < length xs"
      "xs ! q = LF \<or> (xs ! q = CR \<and> \<not> (Suc q < length xs \<and> xs ! Suc q = LF))"
      by (auto simp: is_line_start_def)
    have "\<exists>i. is_break xs False i \<and> p = i + terminator_width xs i"
    proof (cases "xs ! q = LF \<and> 0 < q \<and> xs ! (q - 1) = CR")
      case True
      with q Suc show ?thesis
        by (intro exI [of _ "q - 1"]) (auto simp: is_break_def terminator_width_def)
    next
      case False
      with q Suc show ?thesis
        by (intro exI [of _ q]) (auto simp: is_break_def terminator_width_def)
    qed
    then show ?thesis
      by (auto simp: line_starts_def mem_break_positions)
  qed
qed

lemma terminator_width_pos: "0 < terminator_width xs i"
  by (simp add: terminator_width_def)

lemma terminator_ends_before:
  assumes "is_break xs False i" "is_break xs False j" "i < j"
  shows "i + terminator_width xs i \<le> j"
proof (cases "j = i + 1")
  case True
  with assms show ?thesis
    by (auto simp: is_break_def terminator_width_def)
next
  case False
  with assms show ?thesis
    by (simp add: terminator_width_def)
qed

lemma sorted_line_starts: "sorted_wrt (<) (line_starts xs)"
proof -
  have "i + terminator_width xs i < j + terminator_width xs j"
    if "is_break xs False i" "is_break xs False j" "i < j" for i j
    using terminator_ends_before [OF that] terminator_width_pos [of xs j] by linarith
  then have "sorted_wrt (\<lambda>i j. i + terminator_width xs i < j + terminator_width xs j)
      (break_positions xs False 0)"
    by (intro sorted_wrt_mono_rel [OF _ sorted_break_positions]) (simp add: mem_break_positions)
  then show ?thesis
    by (auto simp: line_starts_def sorted_wrt_map terminator_width_pos)
qed

text \<open>The line an offset lies on: the lines that start at or before it, counted from 0.\<close>

definition line_of :: "byte list \<Rightarrow> nat \<Rightarrow> nat" where
  "line_of xs offset = length (filter (\<lambda>p. p \<le> offset) (line_starts xs)) - 1"

lemma break_positions_take:
  assumes "n \<le> length xs"
  shows "break_positions (take n xs) False 0 = filter (\<lambda>i. i < n) (break_positions xs False 0)"
proof -
  have "break_positions xs False 0 =
      break_positions (take n xs) False 0 @
      break_positions (drop n xs) (ends_cr False (take n xs)) n"
    using break_positions_append [of "take n xs" "drop n xs" False 0] assms by simp
  moreover have "filter (\<lambda>i. i < n) (break_positions (take n xs) False 0) =
      break_positions (take n xs) False 0"
    by (rule filter_True) (auto dest: break_positions_range)
  moreover have "filter (\<lambda>i. i < n) (break_positions (drop n xs) q n) = []" for q
    by (auto simp: filter_empty_conv dest: break_positions_range)
  ultimately show ?thesis
    by simp
qed

lemma terminator_ends_by:
  assumes "is_break xs False i" and "n \<le> length xs"
  shows "i + terminator_width xs i \<le> n \<longleftrightarrow>
    i < n \<and> \<not> (0 < n \<and> n < length xs \<and> xs ! (n - 1) = CR \<and> xs ! n = LF \<and> i = n - 1)"
proof (cases "i + 1 = n")
  case True
  with assms show ?thesis
    by (auto simp: is_break_def terminator_width_def)
next
  case False
  with assms show ?thesis
    by (auto simp: terminator_width_def)
qed

lemma line_of_prefix:
  assumes "n \<le> length xs"
  shows "line_of xs n =
    sm_breaks (scan (take n xs)) -
      (if 0 < n \<and> n < length xs \<and> xs ! (n - 1) = CR \<and> xs ! n = LF then 1 else 0)"
proof -
  let ?bp = "break_positions xs False 0"
  let ?seam = "0 < n \<and> n < length xs \<and> xs ! (n - 1) = CR \<and> xs ! n = LF"
  have "line_of xs n = length (filter (\<lambda>i. i + terminator_width xs i \<le> n) ?bp)"
    by (simp add: line_of_def line_starts_def filter_map comp_def)
  also have "filter (\<lambda>i. i + terminator_width xs i \<le> n) ?bp =
      filter (\<lambda>i. \<not> (?seam \<and> i = n - 1)) (filter (\<lambda>i. i < n) ?bp)"
  proof -
    have "i + terminator_width xs i \<le> n \<longleftrightarrow> i < n \<and> \<not> (?seam \<and> i = n - 1)"
      if "i \<in> set ?bp" for i
      using terminator_ends_by [OF _ assms] that unfolding mem_break_positions by blast
    then show ?thesis
      unfolding filter_filter by (intro filter_cong) auto
  qed
  also have "length \<dots> = length (filter (\<lambda>i. i < n) ?bp) - (if ?seam then 1 else 0)"
  proof (cases ?seam)
    case True
    have "distinct (filter (\<lambda>i. i < n) ?bp)"
      using sorted_break_positions [of xs False 0] by (simp add: strict_sorted_iff)
    moreover have "n - 1 \<in> set (filter (\<lambda>i. i < n) ?bp)"
      using True by (auto simp: mem_break_positions is_break_def)
    ultimately have "length (filter (\<lambda>i. i \<noteq> n - 1) (filter (\<lambda>i. i < n) ?bp)) =
        length (filter (\<lambda>i. i < n) ?bp) - 1"
      by (rule length_filter_neq)
    with True show ?thesis
      by (simp only: simp_thms if_True)
  qed (simp only: simp_thms filter_True if_False, simp)
  finally show ?thesis
    using assms by (simp add: scan_breaks break_positions_take)
qed

text \<open>Line numbers and line starts are inverse.\<close>

lemma line_of_line_start:
  assumes "k < length (line_starts xs)"
  shows "line_of xs (line_starts xs ! k) = k"
  using assms by (simp add: line_of_def filter_le_nth_sorted [OF sorted_line_starts])

end
