(* ===== verification/Rope.thy ===== *)
theory Rope
  imports Lines
begin

text \<open>
  The document tree of crates/document/src/tree.rs: an immutable AVL tree whose leaves are
  pieces of owned UTF-8 segments or ranges of a source, and whose nodes cache the summary of
  their text. This theory holds the data, joining (\<open>tree_concat\<close> with its rotations), cutting
  (\<open>tree_split\<close>, \<open>tree_slice\<close>) and the navigation by offset, with the proof that they are the
  list operations on the text and keep the tree well formed and balanced.

  \<open>Arc\<close> sharing is not observable through these operations and is left out, as are the
  \<open>Reservation\<close> fields, whose bytes the charged operations claim (theory \<open>Rope_Text\<close>). A
  \<open>MemorySource\<close> is a handle, a number here; what bytes it stands for is the argument \<open>rd\<close> of
  the abstraction \<open>flat\<close>, never of an operation.
\<close>

section \<open>Data\<close>

record segment =
  seg_text :: "byte list"
  seg_origin :: "(nat \<times> range) option"
  seg_inserted :: bool

record piece =
  pc_segment :: segment
  pc_start :: nat
  pc_end :: nat
  pc_summary :: summary

datatype node =
    Leaf piece
  | Source nat nat nat
  | OwnedSource nat nat nat "(nat \<times> range) option" summary
  | Branch node node nat summary

type_synonym root = "node option"

definition piece_text :: "piece \<Rightarrow> byte list" where
  "piece_text p = sub (pc_start p) (pc_end p) (seg_text (pc_segment p))"

definition piece_origin :: "piece \<Rightarrow> (nat \<times> range) option" where
  "piece_origin p =
     (case seg_origin (pc_segment p) of None \<Rightarrow> None
      | Some (source, s, _) \<Rightarrow> Some (source, s + pc_start p, s + pc_end p))"

text \<open>Slicing a \<open>str\<close> panics outside it and off a character boundary.\<close>

definition str_slice :: "nat \<Rightarrow> nat \<Rightarrow> byte list \<Rightarrow> byte list res" where
  "str_slice s e text =
     (if s \<le> e \<and> e \<le> length text \<and> char_boundary text s \<and> char_boundary text e
      then Inr (sub s e text) else Inl Panicked)"

definition piece_new :: "segment \<Rightarrow> nat \<Rightarrow> nat \<Rightarrow> piece res" where
  "piece_new segment s e =
     and_then (str_slice s e (seg_text segment))
       (\<lambda>text. Inr \<lparr>pc_segment = segment, pc_start = s, pc_end = e, pc_summary = scan text\<rparr>)"

definition prefix_summary :: "piece \<Rightarrow> nat \<Rightarrow> summary res" where
  "prefix_summary p offset =
     (let text = piece_text p in
      if offset \<le> length text div 2 then
        and_then (str_slice 0 offset text) (\<lambda>t. Inr (scan t))
      else
        and_then (str_slice offset (length text) text)
          (\<lambda>t. Inr (sm_before (pc_summary p) (scan t) (text ! (offset - 1)))))"

definition piece_split :: "piece \<Rightarrow> nat \<Rightarrow> (piece \<times> piece) res" where
  "piece_split p offset =
     (let middle = pc_start p + offset in
      and_then (prefix_summary p offset) (\<lambda>left.
        if offset < length (piece_text p) then
          let right = sm_after (pc_summary p) left (piece_text p ! offset) in
          Inr (p\<lparr>pc_end := middle, pc_summary := left\<rparr>,
               p\<lparr>pc_start := middle, pc_summary := right\<rparr>)
        else Inl Panicked))"

fun node_height :: "node \<Rightarrow> nat" where
  "node_height (Leaf _) = 1"
| "node_height (Source _ _ _) = 1"
| "node_height (OwnedSource _ _ _ _ _) = 1"
| "node_height (Branch _ _ height _) = height"

fun node_summary :: "node \<Rightarrow> summary" where
  "node_summary (Leaf p) = pc_summary p"
| "node_summary (OwnedSource _ _ _ _ summary) = summary"
| "node_summary (Source _ s e) = summary_default\<lparr>sm_bytes := e - s, sm_unknown := True\<rparr>"
| "node_summary (Branch _ _ _ summary) = summary"

definition tree_summary :: "root \<Rightarrow> summary" where
  "tree_summary root = (case root of None \<Rightarrow> summary_default | Some n \<Rightarrow> node_summary n)"

definition tree_height :: "root \<Rightarrow> nat" where
  "tree_height root = (case root of None \<Rightarrow> 0 | Some n \<Rightarrow> node_height n)"

abbreviation node_bytes :: "node \<Rightarrow> nat" where
  "node_bytes n \<equiv> sm_bytes (node_summary n)"

section \<open>Joining\<close>

definition branch :: "node \<Rightarrow> node \<Rightarrow> node" where
  "branch left right =
     Branch left right (1 + max (node_height left) (node_height right))
       (combine (node_summary left) (node_summary right))"

definition balance :: "node \<Rightarrow> node \<Rightarrow> node res" where
  "balance left right =
     (if node_height left > node_height right + 1 then
        (case left of
          Branch a b _ _ \<Rightarrow>
            if node_height a \<ge> node_height b then Inr (branch a (branch b right))
            else (case b of
                Branch c d _ _ \<Rightarrow> Inr (branch (branch a c) (branch d right))
              | _ \<Rightarrow> Inl Panicked)
        | _ \<Rightarrow> Inl Panicked)
      else if node_height right > node_height left + 1 then
        (case right of
          Branch a b _ _ \<Rightarrow>
            if node_height b \<ge> node_height a then Inr (branch (branch left a) b)
            else (case a of
                Branch c d _ _ \<Rightarrow> Inr (branch (branch left c) (branch d b))
              | _ \<Rightarrow> Inl Panicked)
        | _ \<Rightarrow> Inl Panicked)
      else Inr (branch left right))"

function node_concat :: "node \<Rightarrow> node \<Rightarrow> node res" where
  "node_concat l r =
     (if node_height l > node_height r + 1 then
        (case l of
          Branch a b _ _ \<Rightarrow> and_then (node_concat b r) (\<lambda>m. balance a m)
        | _ \<Rightarrow> Inl Panicked)
      else if node_height r > node_height l + 1 then
        (case r of
          Branch a b _ _ \<Rightarrow> and_then (node_concat l a) (\<lambda>m. balance m b)
        | _ \<Rightarrow> Inl Panicked)
      else Inr (branch l r))"
  by pat_completeness auto
termination
  by (relation "measure (\<lambda>(l, r). size l + size r)") auto

declare node_concat.simps [simp del]

definition tree_concat :: "root \<Rightarrow> root \<Rightarrow> root res" where
  "tree_concat left right =
     (case (left, right) of
        (None, r) \<Rightarrow> Inr r
      | (l, None) \<Rightarrow> Inr l
      | (Some l, Some r) \<Rightarrow> and_then (node_concat l r) (\<lambda>n. Inr (Some n)))"

section \<open>Cutting\<close>

definition from_source :: "nat \<Rightarrow> nat \<Rightarrow> nat \<Rightarrow> root" where
  "from_source source s e = (if s < e then Some (Source source s e) else None)"

definition from_owned_source :: "nat \<Rightarrow> nat \<Rightarrow> nat \<Rightarrow> (nat \<times> range) option \<Rightarrow> root" where
  "from_owned_source source s e original =
     (if s < e then
        Some (OwnedSource source s e original
                (summary_default\<lparr>sm_bytes := e - s, sm_unknown := True\<rparr>))
      else None)"

text \<open>The parts of an original range that belong to the two halves.\<close>

definition origin_left :: "nat \<Rightarrow> (nat \<times> range) option \<Rightarrow> (nat \<times> range) option" where
  "origin_left offset original =
     (case original of None \<Rightarrow> None | Some (s, rs, re) \<Rightarrow> Some (s, rs, rs + offset))"

definition origin_right :: "nat \<Rightarrow> (nat \<times> range) option \<Rightarrow> (nat \<times> range) option" where
  "origin_right offset original =
     (case original of None \<Rightarrow> None | Some (s, rs, re) \<Rightarrow> Some (s, rs + offset, re))"

fun node_split :: "node \<Rightarrow> nat \<Rightarrow> (root \<times> root) res" where
  "node_split node offset =
     (if offset = 0 then Inr (None, Some node)
      else if offset = node_bytes node then Inr (Some node, None)
      else (case node of
          OwnedSource source s e original _ \<Rightarrow>
            Inr (from_owned_source source s (s + offset) (origin_left offset original),
                 from_owned_source source (s + offset) e (origin_right offset original))
        | Source source s e \<Rightarrow>
            Inr (from_source source s (s + offset), from_source source (s + offset) e)
        | Leaf p \<Rightarrow>
            and_then (piece_split p offset) (\<lambda>(left, right).
              Inr (Some (Leaf left), Some (Leaf right)))
        | Branch left right _ _ \<Rightarrow>
            let size = node_bytes left in
            if offset < size then
              and_then (node_split left offset) (\<lambda>(a, b).
                and_then (tree_concat b (Some right)) (\<lambda>b'. Inr (a, b')))
            else
              and_then (node_split right (offset - size)) (\<lambda>(a, b).
                and_then (tree_concat (Some left) a) (\<lambda>a'. Inr (a', b)))))"

declare node_split.simps [simp del]

definition tree_split :: "root \<Rightarrow> nat \<Rightarrow> (root \<times> root) res" where
  "tree_split root offset =
     (case root of None \<Rightarrow> Inr (None, None) | Some node \<Rightarrow> node_split node offset)"

fun slice_node :: "node \<Rightarrow> nat \<Rightarrow> nat \<Rightarrow> root res" where
  "slice_node node rs re =
     (let bytes = node_bytes node; s = min rs bytes; e = min re bytes in
      if e \<le> s then Inr None
      else if s = 0 \<and> e = bytes then Inr (Some node)
      else (case node of
          Leaf p \<Rightarrow>
            and_then (piece_new (pc_segment p) (pc_start p + s) (pc_start p + e))
              (\<lambda>q. Inr (Some (Leaf q)))
        | Branch left right _ _ \<Rightarrow>
            let size = node_bytes left in
            if e \<le> size then slice_node left s e
            else if size \<le> s then slice_node right (s - size) (e - size)
            else
              and_then (slice_node left s size) (\<lambda>a.
                and_then (slice_node right 0 (e - size)) (\<lambda>b. tree_concat a b))
        | _ \<Rightarrow>
            and_then (tree_split (Some node) e) (\<lambda>(prefix, _).
              and_then (tree_split prefix s) (\<lambda>(_, r). Inr r))))"

declare slice_node.simps [simp del]

definition tree_slice :: "root \<Rightarrow> nat \<Rightarrow> nat \<Rightarrow> root res" where
  "tree_slice root s e =
     (case root of None \<Rightarrow> Inr None | Some node \<Rightarrow> slice_node node s e)"

section \<open>Navigation by offset\<close>

fun node_byte_at :: "node \<Rightarrow> nat \<Rightarrow> byte option" where
  "node_byte_at (Source _ _ _) offset = None"
| "node_byte_at (OwnedSource _ _ _ _ _) offset = None"
| "node_byte_at (Leaf p) offset =
     (if offset < length (piece_text p) then Some (piece_text p ! offset) else None)"
| "node_byte_at (Branch left right _ _) offset =
     (if offset < node_bytes left then node_byte_at left offset
      else node_byte_at right (offset - node_bytes left))"

definition byte_at :: "root \<Rightarrow> nat \<Rightarrow> byte option" where
  "byte_at root offset = (case root of None \<Rightarrow> None | Some n \<Rightarrow> node_byte_at n offset)"

definition tree_boundary :: "root \<Rightarrow> nat \<Rightarrow> bool" where
  "tree_boundary root offset \<longleftrightarrow>
     offset = sm_bytes (tree_summary root) \<or>
     (case byte_at root offset of None \<Rightarrow> False | Some b \<Rightarrow> b AND 0xC0 \<noteq> 0x80)"

datatype span =
    SpanOwnedSource nat nat nat
  | SpanOwned "byte list"
  | SpanSource nat nat nat

fun node_span_at :: "node \<Rightarrow> nat \<Rightarrow> span res" where
  "node_span_at (Leaf p) offset =
     (if offset \<le> length (piece_text p) then Inr (SpanOwned (drop offset (piece_text p)))
      else Inl Panicked)"
| "node_span_at (OwnedSource source s e _ _) offset = Inr (SpanOwnedSource source (s + offset) e)"
| "node_span_at (Source source s e) offset = Inr (SpanSource source (s + offset) e)"
| "node_span_at (Branch left right _ _) offset =
     (if offset < node_bytes left then node_span_at left offset
      else node_span_at right (offset - node_bytes left))"

fun node_last_leaf :: "node \<Rightarrow> piece option" where
  "node_last_leaf (Leaf p) = Some p"
| "node_last_leaf (Branch _ right _ _) = node_last_leaf right"
| "node_last_leaf (Source _ _ _) = None"
| "node_last_leaf (OwnedSource _ _ _ _ _) = None"

fun node_has_source :: "node \<Rightarrow> bool" where
  "node_has_source (Source _ _ _) = True"
| "node_has_source (OwnedSource _ _ _ _ _) = True"
| "node_has_source (Leaf _) = False"
| "node_has_source (Branch left right _ _) = (node_has_source left \<or> node_has_source right)"

definition has_source :: "root \<Rightarrow> bool" where
  "has_source root = (case root of None \<Rightarrow> False | Some n \<Rightarrow> node_has_source n)"

section \<open>The text of a tree and its well-formedness\<close>

text \<open>\<open>rd source\<close> are the bytes a source handle stands for.\<close>

fun flat :: "(nat \<Rightarrow> byte list) \<Rightarrow> node \<Rightarrow> byte list" where
  "flat rd (Leaf p) = piece_text p"
| "flat rd (Source source s e) = sub s e (rd source)"
| "flat rd (OwnedSource source s e _ _) = sub s e (rd source)"
| "flat rd (Branch left right _ _) = flat rd left @ flat rd right"

definition root_flat :: "(nat \<Rightarrow> byte list) \<Rightarrow> root \<Rightarrow> byte list" where
  "root_flat rd root = (case root of None \<Rightarrow> [] | Some n \<Rightarrow> flat rd n)"

text \<open>
  A piece is a nonempty range of its segment between character boundaries, its summary the
  scan of its text.
\<close>

definition piece_ok :: "piece \<Rightarrow> bool" where
  "piece_ok p \<longleftrightarrow>
     valid_utf8 (seg_text (pc_segment p)) \<and>
     pc_start p < pc_end p \<and> pc_end p \<le> length (seg_text (pc_segment p)) \<and>
     char_boundary (seg_text (pc_segment p)) (pc_start p) \<and>
     char_boundary (seg_text (pc_segment p)) (pc_end p) \<and>
     pc_summary p = scan (piece_text p)"

definition source_summary :: "nat \<Rightarrow> summary" where
  "source_summary n = summary_default\<lparr>sm_bytes := n, sm_unknown := True\<rparr>"

fun node_ok :: "(nat \<Rightarrow> byte list) \<Rightarrow> node \<Rightarrow> bool" where
  "node_ok rd (Leaf p) = piece_ok p"
| "node_ok rd (Source source s e) = (s < e \<and> e \<le> length (rd source))"
| "node_ok rd (OwnedSource source s e _ summary) =
     (s < e \<and> e \<le> length (rd source) \<and> summary = source_summary (e - s))"
| "node_ok rd (Branch left right height summary) =
     (node_ok rd left \<and> node_ok rd right \<and>
      node_height left \<le> node_height right + 1 \<and> node_height right \<le> node_height left + 1 \<and>
      height = 1 + max (node_height left) (node_height right) \<and>
      summary = combine (node_summary left) (node_summary right))"

definition root_ok :: "(nat \<Rightarrow> byte list) \<Rightarrow> root \<Rightarrow> bool" where
  "root_ok rd root = (case root of None \<Rightarrow> True | Some n \<Rightarrow> node_ok rd n)"

lemma root_simps [simp]:
  "root_flat rd None = []" "root_flat rd (Some n) = flat rd n"
  "root_ok rd None" "root_ok rd (Some n) = node_ok rd n"
  "has_source None = False" "has_source (Some n) = node_has_source n"
  "tree_summary None = summary_default" "tree_summary (Some n) = node_summary n"
  by (simp_all add: root_flat_def root_ok_def has_source_def tree_summary_def)

lemma combine_bytes [simp]: "sm_bytes (combine a b) = sm_bytes a + sm_bytes b"
  by (simp add: combine_def Let_def)

lemma combine_unknown [simp]: "sm_unknown (combine a b) = (sm_unknown a \<or> sm_unknown b)"
  by (simp add: combine_def Let_def)

lemma piece_ok_length: "piece_ok p \<Longrightarrow> length (piece_text p) = pc_end p - pc_start p"
  by (simp add: piece_ok_def piece_text_def)

lemma piece_ok_nonempty: "piece_ok p \<Longrightarrow> piece_text p \<noteq> []"
  using piece_ok_length [of p] by (auto simp: piece_ok_def)

lemma piece_ok_valid: "piece_ok p \<Longrightarrow> valid_utf8 (piece_text p)"
  by (simp add: piece_ok_def piece_text_def valid_utf8_sub)

lemma node_bytes_flat: "node_ok rd n \<Longrightarrow> node_bytes n = length (flat rd n)"
  by (induction n) (auto simp: piece_ok_def source_summary_def)

lemma flat_nonempty: "node_ok rd n \<Longrightarrow> flat rd n \<noteq> []"
  by (induction n) (auto simp: piece_ok_nonempty sub_def)

lemma node_bytes_pos: "node_ok rd n \<Longrightarrow> 0 < node_bytes n"
  using flat_nonempty node_bytes_flat by fastforce

lemma node_height_pos: "node_ok rd n \<Longrightarrow> 0 < node_height n"
  by (induction n) auto

text \<open>The cached summary is the scan of the text, or unknown where a source has not been read.\<close>

lemma node_summary_flat:
  "node_ok rd n \<Longrightarrow>
   node_summary n = (if node_has_source n then source_summary (length (flat rd n)) else scan (flat rd n))"
proof (induction n)
  case (Branch l r h s)
  show ?case
  proof (cases "node_has_source l \<or> node_has_source r")
    case True
    with Branch show ?thesis
      by (auto simp: source_summary_def combine_def)
  next
    case False
    with Branch show ?thesis
      by (simp add: scan_append)
  qed
qed (auto simp: piece_ok_def source_summary_def)

lemma node_has_source_unknown: "node_ok rd n \<Longrightarrow> sm_unknown (node_summary n) = node_has_source n"
  by (simp add: node_summary_flat source_summary_def)

lemma flat_valid: "node_ok rd n \<Longrightarrow> \<not> node_has_source n \<Longrightarrow> valid_utf8 (flat rd n)"
  by (induction n) (auto simp: piece_ok_valid valid_utf8_append)

lemma root_flat_valid: "root_ok rd root \<Longrightarrow> \<not> has_source root \<Longrightarrow> valid_utf8 (root_flat rd root)"
  by (cases root) (auto simp: flat_valid)

lemma tree_summary_bytes: "root_ok rd root \<Longrightarrow> sm_bytes (tree_summary root) = length (root_flat rd root)"
  by (cases root) (auto simp: node_bytes_flat summary_default_def)

lemma tree_summary_scan:
  "root_ok rd root \<Longrightarrow> \<not> has_source root \<Longrightarrow> tree_summary root = scan (root_flat rd root)"
  by (cases root) (auto simp: node_summary_flat scan_Nil)

section \<open>Joining keeps the text, the order and the balance\<close>

lemma branch_simps [simp]:
  "flat rd (branch l r) = flat rd l @ flat rd r"
  "node_height (branch l r) = 1 + max (node_height l) (node_height r)"
  "node_has_source (branch l r) = (node_has_source l \<or> node_has_source r)"
  "node_summary (branch l r) = combine (node_summary l) (node_summary r)"
  by (simp_all add: branch_def)

lemma node_ok_branch [simp]:
  "node_ok rd (branch l r) \<longleftrightarrow>
     node_ok rd l \<and> node_ok rd r \<and>
     node_height l \<le> node_height r + 1 \<and> node_height r \<le> node_height l + 1"
  by (auto simp: branch_def)

text \<open>
  One rotation restores the balance of siblings whose heights differ by two: it never panics,
  keeps the text, and the result is one level higher than the higher sibling or as high.
\<close>

lemma balance_ok:
  assumes "node_ok rd l" "node_ok rd r"
    and "node_height l \<le> node_height r + 2" "node_height r \<le> node_height l + 2"
  obtains n where "balance l r = Inr n" "flat rd n = flat rd l @ flat rd r" "node_ok rd n"
    "node_has_source n = (node_has_source l \<or> node_has_source r)"
    "node_height n \<le> 1 + max (node_height l) (node_height r)"
    "max (node_height l) (node_height r) \<le> node_height n"
    "node_height l \<le> node_height r + 1 \<longrightarrow> node_height r \<le> node_height l + 1 \<longrightarrow>
       node_height n = 1 + max (node_height l) (node_height r)"
proof -
  consider (left) "node_height l = node_height r + 2" | (right) "node_height r = node_height l + 2"
    | (even) "node_height l \<le> node_height r + 1" "node_height r \<le> node_height l + 1"
    using assms(3,4) by linarith
  then show thesis
  proof cases
    case left
    then obtain a b h s where l: "l = Branch a b h s"
      using node_height_pos [OF assms(2)] by (cases l) auto
    show ?thesis
    proof (cases "node_height a \<ge> node_height b")
      case True
      with left l assms(1,2) show ?thesis
        by (intro that [of "branch a (branch b r)"]) (auto simp: balance_def)
    next
      case False
      with left l assms(1,2) obtain c d h' s' where "b = Branch c d h' s'"
        using node_height_pos [OF assms(2)] by (cases b) auto
      with False left l assms(1,2) show ?thesis
        by (intro that [of "branch (branch a c) (branch d r)"]) (auto simp: balance_def)
    qed
  next
    case right
    then obtain a b h s where r: "r = Branch a b h s"
      using node_height_pos [OF assms(1)] by (cases r) auto
    show ?thesis
    proof (cases "node_height b \<ge> node_height a")
      case True
      with right r assms(1,2) show ?thesis
        by (intro that [of "branch (branch l a) b"]) (auto simp: balance_def)
    next
      case False
      with right r assms(1,2) obtain c d h' s' where "a = Branch c d h' s'"
        using node_height_pos [OF assms(1)] by (cases a) auto
      with False right r assms(1,2) show ?thesis
        by (intro that [of "branch (branch l c) (branch d b)"]) (auto simp: balance_def)
    qed
  next
    case even
    with assms(1,2) show ?thesis
      by (intro that [of "branch l r"]) (auto simp: balance_def)
  qed
qed

lemma node_concat_ok:
  "node_ok rd l \<Longrightarrow> node_ok rd r \<Longrightarrow>
   \<exists>n. node_concat l r = Inr n \<and> flat rd n = flat rd l @ flat rd r \<and> node_ok rd n \<and>
     node_has_source n = (node_has_source l \<or> node_has_source r) \<and>
     node_height n \<le> 1 + max (node_height l) (node_height r) \<and>
     max (node_height l) (node_height r) \<le> node_height n"
proof (induction l r rule: node_concat.induct)
  case (1 l r)
  consider (left) "node_height l > node_height r + 1"
    | (right) "node_height r > node_height l + 1" "\<not> node_height l > node_height r + 1"
    | (even) "\<not> node_height l > node_height r + 1" "\<not> node_height r > node_height l + 1"
    by blast
  then show ?case
  proof cases
    case left
    then obtain a b h s where l: "l = Branch a b h s"
      using node_height_pos [OF "1.prems"(2)] by (cases l) auto
    obtain m where m: "node_concat b r = Inr m" "flat rd m = flat rd b @ flat rd r" "node_ok rd m"
      "node_has_source m = (node_has_source b \<or> node_has_source r)"
      "node_height m \<le> 1 + max (node_height b) (node_height r)"
      "max (node_height b) (node_height r) \<le> node_height m"
      using "1.IH"(1) [OF left l] "1.prems" l by auto
    have a: "node_ok rd a" "node_height a \<le> node_height m + 2" "node_height m \<le> node_height a + 2"
      using "1.prems" l left m(5,6) by auto
    obtain n where n: "balance a m = Inr n" "flat rd n = flat rd a @ flat rd m" "node_ok rd n"
      "node_has_source n = (node_has_source a \<or> node_has_source m)"
      "node_height n \<le> 1 + max (node_height a) (node_height m)"
      "max (node_height a) (node_height m) \<le> node_height n"
      "node_height a \<le> node_height m + 1 \<longrightarrow> node_height m \<le> node_height a + 1 \<longrightarrow>
         node_height n = 1 + max (node_height a) (node_height m)"
      using balance_ok [OF a(1) m(3) a(2,3)] by metis
    have "node_concat l r = Inr n"
      using left l m(1) n(1) by (subst node_concat.simps) simp
    moreover have "node_height n \<le> 1 + node_height l" "node_height l \<le> node_height n"
      using n(5-7) m(5,6) left l "1.prems"(1) by auto
    ultimately show ?thesis
      using n(2-4) m(2,4) l left by (intro exI [of _ n]) auto
  next
    case right
    then obtain a b h s where r: "r = Branch a b h s"
      using node_height_pos [OF "1.prems"(1)] by (cases r) auto
    obtain m where m: "node_concat l a = Inr m" "flat rd m = flat rd l @ flat rd a" "node_ok rd m"
      "node_has_source m = (node_has_source l \<or> node_has_source a)"
      "node_height m \<le> 1 + max (node_height l) (node_height a)"
      "max (node_height l) (node_height a) \<le> node_height m"
      using "1.IH"(2) [OF right(2,1) r] "1.prems" r by auto
    have b: "node_ok rd b" "node_height m \<le> node_height b + 2" "node_height b \<le> node_height m + 2"
      using "1.prems" r right(1) m(5,6) by auto
    obtain n where n: "balance m b = Inr n" "flat rd n = flat rd m @ flat rd b" "node_ok rd n"
      "node_has_source n = (node_has_source m \<or> node_has_source b)"
      "node_height n \<le> 1 + max (node_height m) (node_height b)"
      "max (node_height m) (node_height b) \<le> node_height n"
      "node_height m \<le> node_height b + 1 \<longrightarrow> node_height b \<le> node_height m + 1 \<longrightarrow>
         node_height n = 1 + max (node_height m) (node_height b)"
      using balance_ok [OF m(3) b(1) b(2,3)] by metis
    have "node_concat l r = Inr n"
      using right r m(1) n(1) by (subst node_concat.simps) simp
    moreover have "node_height n \<le> 1 + node_height r" "node_height r \<le> node_height n"
      using n(5-7) m(5,6) right(1) r "1.prems"(2) by auto
    ultimately show ?thesis
      using n(2-4) m(2,4) r right(1) by (intro exI [of _ n]) auto
  next
    case even
    with "1.prems" show ?thesis
      by (subst node_concat.simps) auto
  qed
qed

lemma tree_concat_ok:
  assumes "root_ok rd l" "root_ok rd r"
  obtains t where "tree_concat l r = Inr t" "root_flat rd t = root_flat rd l @ root_flat rd r"
    "root_ok rd t" "has_source t = (has_source l \<or> has_source r)"
proof (cases l)
  case None
  with assms that [of r] show ?thesis
    by (simp add: tree_concat_def)
next
  case l: (Some l')
  show ?thesis
  proof (cases r)
    case None
    with l assms that [of l] show ?thesis
      by (simp add: tree_concat_def)
  next
    case r: (Some r')
    with l assms node_concat_ok [of rd l' r'] obtain n where "node_concat l' r' = Inr n"
      "flat rd n = flat rd l' @ flat rd r'" "node_ok rd n"
      "node_has_source n = (node_has_source l' \<or> node_has_source r')"
      by auto
    with l r that [of "Some n"] show ?thesis
      by (simp add: tree_concat_def)
  qed
qed

section \<open>The height is logarithmic in the number of leaves\<close>

fun leaves :: "node \<Rightarrow> nat" where
  "leaves (Branch l r _ _) = leaves l + leaves r"
| "leaves _ = 1"

lemma leaves_pos: "0 < leaves n"
  by (induction n rule: leaves.induct) simp_all

lemma height_leaves: "node_ok rd n \<Longrightarrow> 2 ^ (node_height n div 2) \<le> leaves n"
proof (induction n)
  case (Branch l r h s)
  have "h div 2 \<le> Suc (node_height l div 2) \<and> h div 2 \<le> Suc (node_height r div 2)"
    using Branch.prems by auto
  then have "2 ^ (h div 2) \<le> (2 :: nat) ^ Suc (node_height l div 2)"
    "2 ^ (h div 2) \<le> (2 :: nat) ^ Suc (node_height r div 2)"
    by (simp_all only: power_increasing one_le_numeral)
  with Branch show ?case
    by auto
qed simp_all

section \<open>Cutting keeps the text and the well-formedness\<close>

text \<open>
  A cut that falls inside a leaf has to fall on a character boundary, or \<open>str\<close> slicing panics.
  Over a tree without sources that is a boundary of the whole text.
\<close>

fun cut_ok :: "node \<Rightarrow> nat \<Rightarrow> bool" where
  "cut_ok (Leaf p) offset = char_boundary (piece_text p) offset"
| "cut_ok (Branch left right _ _) offset =
     (if offset \<le> node_bytes left then cut_ok left offset
      else cut_ok right (offset - node_bytes left))"
| "cut_ok _ offset = True"

definition root_cut_ok :: "root \<Rightarrow> nat \<Rightarrow> bool" where
  "root_cut_ok root offset = (case root of None \<Rightarrow> True | Some n \<Rightarrow> cut_ok n offset)"

lemma root_cut_ok_simps [simp]: "root_cut_ok None k" "root_cut_ok (Some n) k = cut_ok n k"
  by (simp_all add: root_cut_ok_def)

lemma cut_ok_boundary:
  "node_ok rd n \<Longrightarrow> \<not> node_has_source n \<Longrightarrow> k \<le> length (flat rd n) \<Longrightarrow>
     cut_ok n k = char_boundary (flat rd n) k"
proof (induction n arbitrary: k)
  case (Branch l r h s)
  then show ?case
    by (auto simp: node_bytes_flat [of rd l] char_boundary_append_left char_boundary_append_right
        flat_valid)
qed simp_all

lemma cut_ok_0 [simp]: "cut_ok n 0"
  by (induction n) simp_all

lemma cut_ok_bytes: "node_ok rd n \<Longrightarrow> cut_ok n (node_bytes n)"
proof (induction n)
  case (Leaf p)
  then show ?case by (simp add: node_bytes_flat [of rd "Leaf p", simplified] piece_ok_def)
next
  case (Branch l r h s)
  then show ?case
    using node_bytes_pos [of rd r] by auto
qed simp_all

lemma str_slice_ok:
  "s \<le> e \<Longrightarrow> char_boundary text s \<Longrightarrow> char_boundary text e \<Longrightarrow> str_slice s e text = Inr (sub s e text)"
  by (simp add: str_slice_def char_boundary_le)

lemma prefix_summary_ok:
  assumes "piece_ok p" and "char_boundary (piece_text p) k"
  shows "prefix_summary p k = Inr (scan (take k (piece_text p)))"
proof (cases "k \<le> length (piece_text p) div 2")
  case True
  with assms show ?thesis
    by (simp add: prefix_summary_def str_slice_ok sub_0_take)
next
  case False
  have k: "k \<le> length (piece_text p)"
    using assms(2) by (rule char_boundary_le)
  from False k have pos: "0 < k" "take k (piece_text p) \<noteq> []"
    by auto
  then have last: "last (take k (piece_text p)) = piece_text p ! (k - 1)"
    using k by (simp add: last_conv_nth min_def)
  have "sm_before (scan (take k (piece_text p) @ drop k (piece_text p)))
      (scan (drop k (piece_text p))) (last (take k (piece_text p))) = scan (take k (piece_text p))"
    by (rule sm_before_scan [OF pos(2)])
  moreover have "pc_summary p = scan (piece_text p)"
    using assms(1) by (simp add: piece_ok_def)
  ultimately show ?thesis
    using False assms(2) k by (simp add: prefix_summary_def str_slice_ok sub_to_end last Let_def)
qed

lemma char_boundary_sub:
  assumes "valid_utf8 text" "char_boundary text s" "char_boundary text e" "s \<le> e" "k \<le> e - s"
  shows "char_boundary (sub s e text) k \<longleftrightarrow> char_boundary text (s + k)"
proof -
  have le: "e \<le> length text"
    using assms(3) by (rule char_boundary_le)
  have v: "valid_utf8 (drop e text)" "valid_utf8 (take e text)" "valid_utf8 (drop s text)"
    using assms valid_utf8_cut by auto
  have "char_boundary text (s + k) \<longleftrightarrow> char_boundary (take e text) (s + k)"
    using char_boundary_append_left [OF v(1), of "s + k" "take e text"] le assms(4,5) by simp
  also have "take e text = take s text @ sub s e text"
    using assms(4) by (simp add: sub_def flip: take_add)
  also have "char_boundary \<dots> (s + k) \<longleftrightarrow> char_boundary (sub s e text) k"
    using char_boundary_append_right [of "sub s e text" "take s text" "s + k"] assms le
    by (simp add: valid_utf8_sub)
  finally show ?thesis by simp
qed

lemma piece_part_ok:
  assumes "piece_ok p" "char_boundary (piece_text p) a" "char_boundary (piece_text p) b" "a < b"
    and "q = p\<lparr>pc_start := pc_start p + a, pc_end := pc_start p + b, pc_summary := sm\<rparr>"
    and "sm = scan (sub a b (piece_text p))"
  shows "piece_ok q" and "piece_text q = sub a b (piece_text p)"
proof -
  let ?text = "seg_text (pc_segment p)"
  have le: "b \<le> pc_end p - pc_start p"
    using char_boundary_le [OF assms(3)] piece_ok_length [OF assms(1)] by simp
  have bnd: "char_boundary ?text (pc_start p + a)" "char_boundary ?text (pc_start p + b)"
    using assms(1-4) le char_boundary_sub [of ?text "pc_start p" "pc_end p"]
    by (auto simp: piece_ok_def piece_text_def)
  show part: "piece_text q = sub a b (piece_text p)"
  proof -
    have "min (pc_end p) (pc_start p + b) = pc_start p + b"
      using le assms(1) by (auto simp: piece_ok_def)
    then show ?thesis
      by (simp add: assms(5) piece_text_def sub_sub)
  qed
  from part bnd char_boundary_le [OF bnd(2)] le assms(1,4) show "piece_ok q"
    unfolding piece_ok_def by (simp add: assms(5,6))
qed

lemma piece_split_ok:
  assumes "piece_ok p" "char_boundary (piece_text p) k" "0 < k" "k < length (piece_text p)"
  obtains a b where "piece_split p k = Inr (a, b)" "piece_ok a" "piece_ok b"
    "piece_text a = take k (piece_text p)" "piece_text b = drop k (piece_text p)"
proof -
  let ?t = "piece_text p"
  let ?a = "p\<lparr>pc_end := pc_start p + k, pc_summary := scan (take k ?t)\<rparr>"
  let ?b = "p\<lparr>pc_start := pc_start p + k, pc_summary := scan (drop k ?t)\<rparr>"
  have "sm_after (scan (take k ?t @ drop k ?t)) (scan (take k ?t)) (hd (drop k ?t)) = scan (drop k ?t)"
    by (rule sm_after_scan) (use assms(4) in simp)
  then have "sm_after (pc_summary p) (scan (take k ?t)) (?t ! k) = scan (drop k ?t)"
    using assms(1,4) by (simp add: piece_ok_def hd_drop_conv_nth)
  then have "piece_split p k = Inr (?a, ?b)"
    using assms by (simp add: piece_split_def prefix_summary_ok Let_def)
  moreover have "piece_ok ?a" "piece_text ?a = take k ?t"
  proof -
    have "?a = p\<lparr>pc_start := pc_start p + 0, pc_end := pc_start p + k,
        pc_summary := scan (take k ?t)\<rparr>"
      by (rule piece.equality) simp_all
    from piece_part_ok [OF assms(1) char_boundary_ends(1) assms(2,3) this]
    show "piece_ok ?a" "piece_text ?a = take k ?t"
      by (simp_all only: sub_0_take)
  qed
  moreover have len: "pc_start p + length ?t = pc_end p"
    using assms(1) piece_ok_length [OF assms(1)] by (simp add: piece_ok_def)
  have eq: "?b = p\<lparr>pc_start := pc_start p + k, pc_end := pc_start p + length ?t,
      pc_summary := scan (drop k ?t)\<rparr>"
    unfolding len by (rule piece.equality) simp_all
  have "sub k (length ?t) ?t = drop k ?t"
    by (simp add: sub_to_end)
  then have "piece_ok ?b" "piece_text ?b = drop k ?t"
    using piece_part_ok [OF assms(1,2) char_boundary_ends(2) assms(4) eq] by (simp_all only:)
  ultimately show thesis
    using that by blast
qed

lemma node_split_ok:
  "node_ok rd n \<Longrightarrow> k \<le> length (flat rd n) \<Longrightarrow> cut_ok n k \<Longrightarrow>
   \<exists>a b. node_split n k = Inr (a, b) \<and>
     root_flat rd a = take k (flat rd n) \<and> root_flat rd b = drop k (flat rd n) \<and>
     root_ok rd a \<and> root_ok rd b \<and>
     (\<not> node_has_source n \<longrightarrow> \<not> has_source a \<and> \<not> has_source b)"
proof (induction n arbitrary: k)
  case (Leaf p)
  show ?case
  proof (cases "k = 0 \<or> k = node_bytes (Leaf p)")
    case True
    with Leaf.prems show ?thesis
      by (auto simp: node_split.simps node_bytes_flat [OF Leaf.prems(1), simplified])
  next
    case False
    with Leaf.prems node_bytes_flat [OF Leaf.prems(1)]
    obtain a b where "piece_split p k = Inr (a, b)" "piece_ok a" "piece_ok b"
      "piece_text a = take k (piece_text p)" "piece_text b = drop k (piece_text p)"
      by (auto elim!: piece_split_ok [of p k])
    with False show ?thesis
      by (subst node_split.simps) simp
  qed
next
  case (Source source s e)
  then show ?case
    by (subst node_split.simps)
       (auto simp: from_source_def take_sub drop_sub node_bytes_flat min_def)
next
  case (OwnedSource source s e original sm)
  then show ?case
    by (subst node_split.simps)
       (auto simp: from_owned_source_def take_sub drop_sub source_summary_def min_def)
next
  case (Branch l r h s)
  let ?n = "Branch l r h s"
  have bytes: "node_bytes ?n = length (flat rd l) + length (flat rd r)"
    "node_bytes l = length (flat rd l)"
    using Branch.prems(1) node_bytes_flat by auto
  consider (ends) "k = 0 \<or> k = node_bytes ?n"
    | (left) "k \<noteq> 0" "k \<noteq> node_bytes ?n" "k < node_bytes l"
    | (right) "k \<noteq> 0" "k \<noteq> node_bytes ?n" "node_bytes l \<le> k"
    by linarith
  then show ?case
  proof cases
    case ends
    then show ?thesis
    proof
      assume "k = 0"
      with Branch.prems(1) show ?thesis
        by (subst node_split.simps) simp
    next
      assume k: "k = node_bytes ?n"
      then have "k \<noteq> 0"
        using node_bytes_pos [OF Branch.prems(1)] by simp
      with k Branch.prems(1) bytes(1) show ?thesis
        by (subst node_split.simps) simp
    qed
  next
    case left
    then obtain a b where ab: "node_split l k = Inr (a, b)" "root_flat rd a = take k (flat rd l)"
      "root_flat rd b = drop k (flat rd l)" "root_ok rd a" "root_ok rd b"
      "\<not> node_has_source l \<longrightarrow> \<not> has_source a \<and> \<not> has_source b"
      using Branch.IH(1) [of k] Branch.prems bytes by fastforce
    obtain t where "tree_concat b (Some r) = Inr t" "root_flat rd t = root_flat rd b @ flat rd r"
      "root_ok rd t" "has_source t = (has_source b \<or> node_has_source r)"
      using tree_concat_ok [OF ab(5), of "Some r"] Branch.prems(1) by auto
    with ab left bytes show ?thesis
      by (subst node_split.simps) (auto simp: Let_def)
  next
    case right
    then have "cut_ok r (k - node_bytes l)"
      using Branch.prems(3) by (cases "k = node_bytes l") auto
    then obtain a b where ab: "node_split r (k - node_bytes l) = Inr (a, b)"
      "root_flat rd a = take (k - node_bytes l) (flat rd r)"
      "root_flat rd b = drop (k - node_bytes l) (flat rd r)" "root_ok rd a" "root_ok rd b"
      "\<not> node_has_source r \<longrightarrow> \<not> has_source a \<and> \<not> has_source b"
      using Branch.IH(2) [of "k - node_bytes l"] Branch.prems right bytes by fastforce
    obtain t where "tree_concat (Some l) a = Inr t" "root_flat rd t = flat rd l @ root_flat rd a"
      "root_ok rd t" "has_source t = (node_has_source l \<or> has_source a)"
      using tree_concat_ok [OF _ ab(4), of "Some l"] Branch.prems(1) by auto
    with ab right bytes show ?thesis
      by (subst node_split.simps) (auto simp: Let_def)
  qed
qed

lemma tree_split_ok:
  assumes "root_ok rd root" "k \<le> length (root_flat rd root)" "root_cut_ok root k"
  obtains a b where "tree_split root k = Inr (a, b)"
    "root_flat rd a = take k (root_flat rd root)" "root_flat rd b = drop k (root_flat rd root)"
    "root_ok rd a" "root_ok rd b"
    "\<not> has_source root \<longrightarrow> \<not> has_source a \<and> \<not> has_source b"
proof (cases root)
  case None
  with that [of None None] show ?thesis
    by (simp add: tree_split_def)
next
  case (Some n)
  with assms node_split_ok [of rd n k] that show ?thesis
    by (auto simp: tree_split_def)
qed

section \<open>Slices\<close>

lemma piece_new_ok:
  assumes "piece_ok p" "char_boundary (piece_text p) a" "char_boundary (piece_text p) b" "a < b"
  obtains q where "piece_new (pc_segment p) (pc_start p + a) (pc_start p + b) = Inr q"
    "piece_ok q" "piece_text q = sub a b (piece_text p)"
proof -
  let ?text = "seg_text (pc_segment p)"
  let ?q = "p\<lparr>pc_start := pc_start p + a, pc_end := pc_start p + b,
    pc_summary := scan (sub a b (piece_text p))\<rparr>"
  note q = piece_part_ok [OF assms refl refl]
  have "str_slice (pc_start p + a) (pc_start p + b) ?text = Inr (piece_text ?q)"
    using q(1) assms(4) by (simp add: piece_ok_def piece_text_def str_slice_def)
  then have "piece_new (pc_segment p) (pc_start p + a) (pc_start p + b) =
      Inr \<lparr>pc_segment = pc_segment p, pc_start = pc_start p + a, pc_end = pc_start p + b,
        pc_summary = scan (piece_text ?q)\<rparr>"
    by (simp add: piece_new_def)
  also have "\<dots> = Inr ?q"
    unfolding q(2) by (simp add: piece.equality)
  finally show thesis
    using q that by blast
qed

lemma slice_node_ok:
  "node_ok rd n \<Longrightarrow> s \<le> e \<Longrightarrow> e \<le> length (flat rd n) \<Longrightarrow> cut_ok n s \<Longrightarrow> cut_ok n e \<Longrightarrow>
   \<exists>t. slice_node n s e = Inr t \<and> root_flat rd t = sub s e (flat rd n) \<and> root_ok rd t \<and>
     (\<not> node_has_source n \<longrightarrow> \<not> has_source t)"
proof (induction n arbitrary: s e)
  case (Leaf p)
  have bytes: "node_bytes (Leaf p) = length (piece_text p)"
    using node_bytes_flat [OF Leaf.prems(1)] by simp
  consider "s = e" | "s = 0" "e = length (piece_text p)" "s < e"
    | "s < e" "\<not> (s = 0 \<and> e = length (piece_text p))"
    using Leaf.prems by linarith
  then show ?case
  proof cases
    case 3
    with Leaf.prems obtain q where "piece_new (pc_segment p) (pc_start p + s) (pc_start p + e) = Inr q"
      "piece_ok q" "piece_text q = sub s e (piece_text p)"
      by (auto elim!: piece_new_ok [of p s e])
    with 3 bytes Leaf.prems show ?thesis
      by (subst slice_node.simps) (auto simp: Let_def min_def)
  qed (use Leaf.prems bytes in \<open>subst slice_node.simps, auto simp: Let_def\<close>)+
next
  case (Branch l r h sm)
  let ?n = "Branch l r h sm"
  have bytes: "node_bytes ?n = length (flat rd l) + length (flat rd r)"
    "node_bytes l = length (flat rd l)" "node_bytes r = length (flat rd r)"
    using Branch.prems(1) node_bytes_flat by auto
  have ends: "cut_ok l (node_bytes l)" "cut_ok r 0"
    using Branch.prems(1) cut_ok_bytes by auto
  consider (empty) "s = e" | (whole) "s = 0" "e = node_bytes ?n" "s < e"
    | (left) "s < e" "\<not> (s = 0 \<and> e = node_bytes ?n)" "e \<le> node_bytes l"
    | (right) "s < e" "\<not> (s = 0 \<and> e = node_bytes ?n)" "node_bytes l < e" "node_bytes l \<le> s"
    | (both) "s < e" "\<not> (s = 0 \<and> e = node_bytes ?n)" "node_bytes l < e" "s < node_bytes l"
    using Branch.prems(2) by linarith
  then show ?case
  proof cases
    case left
    then obtain t where "slice_node l s e = Inr t" "root_flat rd t = sub s e (flat rd l)" "root_ok rd t"
      "\<not> node_has_source l \<longrightarrow> \<not> has_source t"
      using Branch.IH(1) [of s e] Branch.prems bytes by auto
    with left bytes show ?thesis
      by (subst slice_node.simps) (auto simp: Let_def min_def sub_append_left)
  next
    case right
    then have "cut_ok r (s - node_bytes l)"
      using Branch.prems(4) ends(2) by (cases "s = node_bytes l") auto
    moreover have "s - node_bytes l \<le> e - node_bytes l" "e - node_bytes l \<le> length (flat rd r)"
      "cut_ok r (e - node_bytes l)" "node_ok rd r"
      using right Branch.prems bytes by auto
    ultimately obtain t where "slice_node r (s - node_bytes l) (e - node_bytes l) = Inr t"
      "root_flat rd t = sub (s - node_bytes l) (e - node_bytes l) (flat rd r)" "root_ok rd t"
      "\<not> node_has_source r \<longrightarrow> \<not> has_source t"
      using Branch.IH(2) by blast
    with right bytes Branch.prems(3) show ?thesis
      by (subst slice_node.simps) (auto simp: Let_def min_def sub_append_right)
  next
    case both
    obtain a where a: "slice_node l s (node_bytes l) = Inr a"
      "root_flat rd a = sub s (node_bytes l) (flat rd l)" "root_ok rd a"
      "\<not> node_has_source l \<longrightarrow> \<not> has_source a"
      using Branch.IH(1) [of s "node_bytes l"] Branch.prems both bytes ends by auto
    obtain b where b: "slice_node r 0 (e - node_bytes l) = Inr b"
      "root_flat rd b = sub 0 (e - node_bytes l) (flat rd r)" "root_ok rd b"
      "\<not> node_has_source r \<longrightarrow> \<not> has_source b"
    proof -
      have "e - node_bytes l \<le> length (flat rd r)" "cut_ok r (e - node_bytes l)" "node_ok rd r"
        using both Branch.prems bytes by auto
      with Branch.IH(2) ends(2) that show thesis
        by blast
    qed
    obtain t where "tree_concat a b = Inr t" "root_flat rd t = root_flat rd a @ root_flat rd b"
      "root_ok rd t" "has_source t = (has_source a \<or> has_source b)"
      using tree_concat_ok [OF a(3) b(3)] by blast
    with a b both bytes Branch.prems(3) show ?thesis
      by (subst slice_node.simps) (auto simp: Let_def min_def sub_append_mid)
  qed (use Branch.prems bytes in \<open>subst slice_node.simps, auto simp: Let_def\<close>)+
next
  case (Source source a b)
  let ?n = "Source source a b"
  obtain p x where p: "tree_split (Some ?n) e = Inr (p, x)" "root_flat rd p = take e (flat rd ?n)"
    "root_ok rd p"
  proof -
    have "root_ok rd (Some ?n)" "e \<le> length (root_flat rd (Some ?n))" "root_cut_ok (Some ?n) e"
      using Source.prems by auto
    from tree_split_ok [OF this] that show thesis
      by (metis root_simps(2))
  qed
  have "root_cut_ok p s"
    using Source.prems(2) p(1) by (auto simp: tree_split_def node_split.simps from_source_def split: if_splits)
  moreover have "s \<le> length (root_flat rd p)"
    using Source.prems p(2) by auto
  ultimately obtain y q where q: "tree_split p s = Inr (y, q)" "root_flat rd q = drop s (root_flat rd p)"
    "root_ok rd q"
    using tree_split_ok [OF p(3)] by metis
  with p Source.prems show ?case
    by (subst slice_node.simps) (auto simp: Let_def sub_def drop_take)
next
  case (OwnedSource source a b original sm)
  let ?n = "OwnedSource source a b original sm"
  obtain p x where p: "tree_split (Some ?n) e = Inr (p, x)" "root_flat rd p = take e (flat rd ?n)"
    "root_ok rd p"
  proof -
    have "root_ok rd (Some ?n)" "e \<le> length (root_flat rd (Some ?n))" "root_cut_ok (Some ?n) e"
      using OwnedSource.prems by auto
    from tree_split_ok [OF this] that show thesis
      by (metis root_simps(2))
  qed
  have "root_cut_ok p s"
    using OwnedSource.prems(2) p(1)
    by (auto simp: tree_split_def node_split.simps from_owned_source_def split: if_splits)
  moreover have "s \<le> length (root_flat rd p)"
    using OwnedSource.prems p(2) by auto
  ultimately obtain y q where q: "tree_split p s = Inr (y, q)" "root_flat rd q = drop s (root_flat rd p)"
    "root_ok rd q"
    using tree_split_ok [OF p(3)] by metis
  with p OwnedSource.prems show ?case
    by (subst slice_node.simps) (auto simp: Let_def sub_def drop_take source_summary_def)
qed

lemma tree_slice_ok:
  assumes "root_ok rd root" "s \<le> e" "e \<le> length (root_flat rd root)"
    "root_cut_ok root s" "root_cut_ok root e"
  obtains t where "tree_slice root s e = Inr t" "root_flat rd t = sub s e (root_flat rd root)"
    "root_ok rd t" "\<not> has_source root \<longrightarrow> \<not> has_source t"
proof (cases root)
  case None
  with that [of None] show ?thesis
    by (simp add: tree_slice_def sub_def)
next
  case (Some n)
  with assms slice_node_ok [of rd n s e] that show ?thesis
    by (auto simp: tree_slice_def)
qed

section \<open>Bytes and boundaries\<close>

lemma node_byte_at_ok:
  "node_ok rd n \<Longrightarrow> \<not> node_has_source n \<Longrightarrow>
   node_byte_at n k = (if k < length (flat rd n) then Some (flat rd n ! k) else None)"
proof (induction n arbitrary: k)
  case (Branch l r h s)
  then show ?case
    using node_bytes_flat [of rd l] by (auto simp: nth_append)
qed simp_all

lemma byte_at_ok:
  "root_ok rd root \<Longrightarrow> \<not> has_source root \<Longrightarrow>
   byte_at root k = (if k < length (root_flat rd root) then Some (root_flat rd root ! k) else None)"
  by (cases root) (simp_all add: byte_at_def node_byte_at_ok)

lemma tree_boundary_ok:
  assumes "root_ok rd root" "\<not> has_source root"
  shows "tree_boundary root k \<longleftrightarrow> char_boundary (root_flat rd root) k"
proof -
  have "valid_utf8 (root_flat rd root)"
    using assms by (rule root_flat_valid)
  then have "root_flat rd root \<noteq> [] \<Longrightarrow> \<not> cont (root_flat rd root ! 0)"
    using valid_utf8_hd by (metis hd_conv_nth)
  then show ?thesis
    using assms
    by (auto simp: tree_boundary_def byte_at_ok tree_summary_bytes char_boundary_def cont_def)
qed

lemma root_cut_ok_boundary:
  "root_ok rd root \<Longrightarrow> \<not> has_source root \<Longrightarrow> k \<le> length (root_flat rd root) \<Longrightarrow>
     root_cut_ok root k = char_boundary (root_flat rd root) k"
  by (cases root) (auto simp: cut_ok_boundary char_boundary_def)


section \<open>Properties\<close>

text \<open>Joining two well-formed trees never panics; the result has the text of the left followed by
  the text of the right, is well formed (balanced, summaries exact), and holds a source exactly if
  one of the two does.\<close>

theorem rope_concat_text:
  assumes "root_ok rd l" "root_ok rd r"
  shows "\<exists>t. tree_concat l r = Inr t \<and> root_flat rd t = root_flat rd l @ root_flat rd r \<and>
    root_ok rd t \<and> has_source t = (has_source l \<or> has_source r)"
  using tree_concat_ok [OF assms] by metis

text \<open>Cutting a well-formed tree of owned text at a character boundary never panics; the halves
  hold the text before and after the cut, are well formed and their caches say so.\<close>

theorem rope_split_text:
  assumes "root_ok rd root" "\<not> has_source root" "char_boundary (root_flat rd root) k"
  shows "\<exists>a b. tree_split root k = Inr (a, b) \<and>
    root_flat rd a = take k (root_flat rd root) \<and> root_flat rd b = drop k (root_flat rd root) \<and>
    root_ok rd a \<and> root_ok rd b \<and>
    tree_summary a = scan (take k (root_flat rd root)) \<and>
    tree_summary b = scan (drop k (root_flat rd root))"
proof -
  have k: "k \<le> length (root_flat rd root)"
    using assms(3) by (rule char_boundary_le)
  moreover have "root_cut_ok root k"
    using root_cut_ok_boundary [OF assms(1,2) k] assms(3) by simp
  ultimately obtain a b where ab: "tree_split root k = Inr (a, b)"
    "root_flat rd a = take k (root_flat rd root)" "root_flat rd b = drop k (root_flat rd root)"
    "root_ok rd a" "root_ok rd b" "\<not> has_source a" "\<not> has_source b"
    using tree_split_ok [OF assms(1)] assms(2) by metis
  then show ?thesis
    using tree_summary_scan [of rd a] tree_summary_scan [of rd b] by simp
qed

text \<open>A small tree: \<open>ab CR\<close> and \<open>LF c\<close> in two leaves.\<close>

definition sample_piece :: "byte list \<Rightarrow> piece" where
  "sample_piece text =
     \<lparr>pc_segment = \<lparr>seg_text = text, seg_origin = None, seg_inserted = False\<rparr>,
      pc_start = 0, pc_end = length text, pc_summary = scan text\<rparr>"

definition sample_left :: root where
  "sample_left = Some (Leaf (sample_piece [97, 98, CR]))"

definition sample_right :: root where
  "sample_right = Some (Leaf (sample_piece [LF, 99]))"

definition sample_root :: root where
  "sample_root = Some (branch (Leaf (sample_piece [97, 98, CR])) (Leaf (sample_piece [LF, 99])))"

lemma sample_piece_ok: "valid_utf8 text \<Longrightarrow> text \<noteq> [] \<Longrightarrow> piece_ok (sample_piece text)"
  by (simp add: piece_ok_def sample_piece_def piece_text_def)

lemma sample_valid: "valid_utf8 [97, 98, CR]" "valid_utf8 [LF, 99]" "valid_utf8 [97, 98, CR, LF, 99]"
  by code_simp+

lemma sample_ok [simp]:
  "root_ok rd sample_left" "root_ok rd sample_right" "root_ok rd sample_root"
  "\<not> has_source sample_root" "root_flat rd sample_root = [97, 98, CR, LF, 99]"
  "root_flat rd sample_left = [97, 98, CR]" "root_flat rd sample_right = [LF, 99]"
  using sample_valid
  by (simp_all add: sample_left_def sample_right_def sample_root_def sample_piece_ok)
     (simp_all add: sample_piece_def piece_text_def)

theorem rope_concat_text_witness:
  "\<exists>t. tree_concat sample_left sample_right = Inr t \<and> root_flat (\<lambda>_. []) t = [97, 98, CR, LF, 99] \<and>
    root_ok (\<lambda>_. []) t"
  using rope_concat_text [OF sample_ok(1,2), where rd = "\<lambda>_. []"] by auto

theorem rope_split_text_witness:
  "\<exists>a b. tree_split sample_root 3 = Inr (a, b) \<and> root_flat (\<lambda>_. []) a = [97, 98, CR] \<and>
    root_flat (\<lambda>_. []) b = [LF, 99]"
proof -
  have "char_boundary (root_flat (\<lambda>_. []) sample_root) 3"
    by (simp add: char_boundary_def cont_iff)
  from rope_split_text [OF sample_ok(3,4) this] show ?thesis
    by auto
qed

end
