(* ===== verification/Rope_Lines.thy ===== *)
theory Rope_Lines
  imports Rope
begin

text \<open>
  Lines and reading of the document tree (crates/document/src/tree.rs): \<open>line_start\<close> descends by
  the cached break counts to the terminator of a given ordinal, \<open>line_at\<close> adds up the summaries
  left of an offset, and the iterator \<open>Chunks\<close> walks a range with an explicit stack. The lemmas
  show that the first two compute the reference notions of theory \<open>Lines\<close>, CR LF pairs split over
  two leaves included, and that the chunks of a range join to its text.
\<close>

section \<open>Operations\<close>

text \<open>The byte loop of \<open>find\<close> in a leaf, from byte \<open>i\<close> on; the last arm is \<open>unreachable!\<close>.\<close>

fun find_in :: "byte list \<Rightarrow> nat \<Rightarrow> nat \<Rightarrow> bool \<Rightarrow> nat res" where
  "find_in [] i ordinal previous_cr = Inl Panicked"
| "find_in (b # bs) i ordinal previous_cr =
     (if b = CR \<or> (b = LF \<and> \<not> previous_cr) then
        (if ordinal = 0 then Inl Panicked
         else if ordinal - 1 = 0 then Inr i
         else find_in bs (i + 1) (ordinal - 1) (b = CR))
      else find_in bs (i + 1) ordinal (b = CR))"

fun find :: "node \<Rightarrow> nat \<Rightarrow> bool \<Rightarrow> nat res" where
  "find (Source _ _ _) ordinal preceding_cr = Inl Panicked"
| "find (OwnedSource _ _ _ _ _) ordinal preceding_cr = Inl Panicked"
| "find (Leaf p) ordinal preceding_cr = find_in (piece_text p) 0 ordinal preceding_cr"
| "find (Branch left right _ _) ordinal preceding_cr =
     (let ls = node_summary left in
      and_then (ok_or Panicked (checked_sub (sm_breaks ls)
          (if preceding_cr \<and> sm_first ls = Some LF then 1 else 0))) (\<lambda>count.
        if ordinal \<le> count then find left ordinal preceding_cr
        else
          and_then (find right (ordinal - count) (sm_last ls = Some CR))
            (\<lambda>n. Inr (sm_bytes ls + n))))"

definition line_start :: "root \<Rightarrow> nat \<Rightarrow> nat option res" where
  "line_start root line =
     (if line = 0 then Inr (Some 0)
      else (case root of None \<Rightarrow> Inr None
        | Some node \<Rightarrow>
            if line > sm_breaks (node_summary node) then Inr None
            else
              and_then (find node line False) (\<lambda>separator.
                Inr (Some (separator +
                  (if byte_at root separator = Some CR \<and> byte_at root (separator + 1) = Some LF
                   then 2 else 1))))))"

fun prefix :: "node \<Rightarrow> nat \<Rightarrow> summary res" where
  "prefix node offset =
     (if offset = node_bytes node then Inr (node_summary node)
      else (case node of
          Leaf p \<Rightarrow> prefix_summary p offset
        | Branch left right _ _ \<Rightarrow>
            let middle = node_bytes left in
            if offset \<le> middle then prefix left offset
            else
              and_then (prefix right (offset - middle))
                (\<lambda>s. Inr (combine (node_summary left) s))
        | _ \<Rightarrow> Inl Panicked))"

declare prefix.simps [simp del]

definition line_at :: "root \<Rightarrow> nat \<Rightarrow> nat res" where
  "line_at root offset =
     and_then
       (case root of None \<Rightarrow> Inr 0
        | Some node \<Rightarrow> and_then (prefix node offset) (\<lambda>s. Inr (sm_breaks s)))
       (\<lambda>count. ok_or Panicked (checked_sub count
          (if 0 < offset \<and> byte_at root (offset - 1) = Some CR \<and> byte_at root offset = Some LF
           then 1 else 0)))"

text \<open>\<open>Chunks\<close>: the stack holds nodes with the range of each that is still to be read.\<close>

type_synonym chunk_stack = "(node \<times> nat \<times> nat) list"

definition chunks :: "root \<Rightarrow> nat \<Rightarrow> nat \<Rightarrow> chunk_stack" where
  "chunks root s e =
     (if s < e then (case root of None \<Rightarrow> [] | Some node \<Rightarrow> [(node, s, e)]) else [])"

definition stack_size :: "chunk_stack \<Rightarrow> nat" where
  "stack_size stack = sum_list (map (\<lambda>(n, _). 2 * size n + 1) stack)"

lemma stack_size_simps [simp]:
  "stack_size [] = 0"
  "stack_size ((n, r) # stack) = 2 * size n + 1 + stack_size stack"
  by (simp_all add: stack_size_def)

function chunks_next :: "chunk_stack \<Rightarrow> (byte list option \<times> chunk_stack) res" where
  "chunks_next [] = Inr (None, [])"
| "chunks_next ((node, s, e) # stack) =
     (case node of
        Leaf p \<Rightarrow> and_then (str_slice s e (piece_text p)) (\<lambda>t. Inr (Some t, stack))
      | Branch left right _ _ \<Rightarrow>
          let middle = node_bytes left;
              stack1 = (if e > middle then (right, s - middle, e - middle) # stack else stack);
              stack2 = (if s < middle then (left, s, min e middle) # stack1 else stack1)
          in chunks_next stack2
      | _ \<Rightarrow> Inr (None, stack))"
  by pat_completeness auto
termination
  by (relation "measure stack_size") (auto simp: Let_def)

lemma chunks_next_size:
  "chunks_next stack = Inr (Some t, stack') \<Longrightarrow> stack_size stack' < stack_size stack"
proof (induction stack rule: chunks_next.induct)
  case (2 node s e stack)
  show ?case
  proof (cases node)
    case (Branch l r h sm)
    let ?m = "node_bytes l"
    let ?stack1 = "if e > ?m then (r, s - ?m, e - ?m) # stack else stack"
    let ?stack2 = "if s < ?m then (l, s, min e ?m) # ?stack1 else ?stack1"
    have "chunks_next ?stack2 = Inr (Some t, stack')"
      using "2.prems" Branch by (simp add: Let_def)
    then have "stack_size stack' < stack_size ?stack2"
      by (rule "2.IH" [OF Branch refl refl refl])
    also have "\<dots> \<le> stack_size ((node, s, e) # stack)"
      using Branch by simp
    finally show ?thesis .
  qed (use "2.prems" in \<open>auto simp: and_then_Inr_iff\<close>)
qed simp

text \<open>A caller's loop over the iterator: the chunks until \<open>next\<close> is \<open>None\<close>.\<close>

function chunks_all :: "chunk_stack \<Rightarrow> byte list list res" where
  "chunks_all stack =
     (case chunks_next stack of
        Inl e \<Rightarrow> Inl e
      | Inr (None, _) \<Rightarrow> Inr []
      | Inr (Some t, stack') \<Rightarrow> and_then (chunks_all stack') (\<lambda>ts. Inr (t # ts)))"
  by pat_completeness auto
termination
  by (relation "measure stack_size") (auto dest: chunks_next_size)

declare chunks_all.simps [simp del]

lemma chunks_all_Nil [simp]: "chunks_all [] = Inr []"
  by (subst chunks_all.simps) simp

text \<open>What the callers do with the chunks of a range: push each onto a string.\<close>

definition chunks_text :: "root \<Rightarrow> nat \<Rightarrow> nat \<Rightarrow> byte list res" where
  "chunks_text root s e = and_then (chunks_all (chunks root s e)) (\<lambda>ts. Inr (List.concat ts))"

text \<open>
  \<open>exclusive_text\<close>: the nodes are visited right before left. \<open>strong\<close> is the reference count of a
  piece's segment, which the allocator keeps and the model takes as an argument.
\<close>

function exclusive_loop :: "(piece \<Rightarrow> nat) \<Rightarrow> nat \<Rightarrow> node list \<Rightarrow> nat \<Rightarrow> nat" where
  "exclusive_loop strong enough [] found = found"
| "exclusive_loop strong enough (node # stack) found =
     (if found \<ge> enough then found
      else (case node of
          Leaf p \<Rightarrow>
            exclusive_loop strong enough stack
              (if strong p = 1 then sat_add found (length (seg_text (pc_segment p))) else found)
        | Branch left right _ _ \<Rightarrow> exclusive_loop strong enough (right # left # stack) found
        | _ \<Rightarrow> exclusive_loop strong enough stack found))"
  by pat_completeness auto
termination
  by (relation "measure (\<lambda>(_, _, stack, _). sum_list (map (\<lambda>n. 2 * size n + 1) stack))") auto

definition exclusive_text :: "(piece \<Rightarrow> nat) \<Rightarrow> root \<Rightarrow> nat \<Rightarrow> nat" where
  "exclusive_text strong root enough =
     exclusive_loop strong enough (case root of None \<Rightarrow> [] | Some n \<Rightarrow> [n]) 0"

section \<open>Finding the start of a line\<close>

lemma find_in_ok:
  "0 < k \<Longrightarrow> k \<le> length (break_positions xs p i) \<Longrightarrow>
   find_in xs i k p = Inr (break_positions xs p i ! (k - 1))"
proof (induction xs arbitrary: i k p)
  case Nil
  then show ?case by simp
next
  case (Cons x xs)
  show ?case
  proof (cases "x = CR \<or> (x = LF \<and> \<not> p)")
    case True
    with Cons.prems Cons.IH [of "k - 1" "x = CR" "i + 1"] show ?thesis
      by (cases "k = 1") (auto simp: nth_Cons' split: if_splits)
  next
    case False
    with Cons.prems Cons.IH [of k "x = CR" "i + 1"] show ?thesis
      by (auto split: if_splits)
  qed
qed

lemma summary_ends_cr:
  "node_ok rd n \<Longrightarrow> \<not> node_has_source n \<Longrightarrow>
   ends_cr p (flat rd n) = (sm_last (node_summary n) = Some CR)"
  using flat_nonempty [of rd n] by (simp add: node_summary_flat scan_last ends_cr_def)

text \<open>The count the descent compares with: the breaks of the left text after what precedes it.\<close>

lemma find_count:
  assumes "node_ok rd n" "\<not> node_has_source n"
  shows "checked_sub (sm_breaks (node_summary n))
      (if p \<and> sm_first (node_summary n) = Some LF then 1 else 0) =
    Some (length (break_positions (flat rd n) p 0))"
proof (cases p)
  case True
  have "sm_first (scan (flat rd n)) = Some LF \<Longrightarrow> 0 < sm_breaks (scan (flat rd n))"
    using scan_starts_lf [of "flat rd n"] by (auto simp: scan_first split: if_splits)
  with True assms show ?thesis
    by (auto simp: node_summary_flat breaks_after_cr checked_sub_def)
next
  case False
  with assms show ?thesis
    by (simp add: node_summary_flat scan_breaks checked_sub_def)
qed

lemma find_ok:
  "node_ok rd n \<Longrightarrow> \<not> node_has_source n \<Longrightarrow> 0 < k \<Longrightarrow>
   k \<le> length (break_positions (flat rd n) p 0) \<Longrightarrow>
   find n k p = Inr (break_positions (flat rd n) p 0 ! (k - 1))"
proof (induction n arbitrary: k p)
  case (Leaf q)
  then show ?case by (simp add: find_in_ok)
next
  case (Branch l r h s)
  let ?L = "break_positions (flat rd l) p 0"
  let ?cr = "sm_last (node_summary l) = Some CR"
  let ?R = "break_positions (flat rd r) ?cr 0"
  have ok: "node_ok rd l" "\<not> node_has_source l" "node_ok rd r" "\<not> node_has_source r"
    using Branch.prems(1,2) by auto
  have all: "break_positions (flat rd (Branch l r h s)) p 0 =
      ?L @ map (\<lambda>n. n + length (flat rd l)) ?R"
    using break_positions_append [of "flat rd l" "flat rd r" p 0] summary_ends_cr [OF ok(1,2), of p]
    by (simp add: break_positions_shift [of _ _ "length (flat rd l)"])
  show ?case
  proof (cases "k \<le> length ?L")
    case True
    have "find (Branch l r h s) k p = find l k p"
      using True find_count [OF ok(1,2), of p] by (simp add: Let_def)
    also have "\<dots> = Inr (?L ! (k - 1))"
      using Branch.IH(1) [OF ok(1,2) Branch.prems(3) True] .
    also have "?L ! (k - 1) = break_positions (flat rd (Branch l r h s)) p 0 ! (k - 1)"
    proof -
      have "k - 1 < length ?L"
        using True Branch.prems(3) by linarith
      then show ?thesis
        unfolding all by (simp add: nth_append)
    qed
    finally show ?thesis .
  next
    case False
    have le: "k - length ?L \<le> length ?R" "0 < k - length ?L"
      using Branch.prems(4) False unfolding all by auto
    have "find (Branch l r h s) k p =
        and_then (find r (k - length ?L) ?cr) (\<lambda>n. Inr (node_bytes l + n))"
      using False find_count [OF ok(1,2), of p] by (simp add: Let_def)
    also have "\<dots> = Inr (?R ! (k - length ?L - 1) + length (flat rd l))"
      using Branch.IH(2) [OF ok(3,4) le(2,1)] node_bytes_flat [OF ok(1)] by simp
    also have "?R ! (k - length ?L - 1) + length (flat rd l) =
        break_positions (flat rd (Branch l r h s)) p 0 ! (k - 1)"
    proof -
      have "k - 1 - length ?L = k - length ?L - 1" "\<not> k - 1 < length ?L" "k - length ?L - 1 < length ?R"
        using le by auto
      then show ?thesis
        unfolding all by (simp add: nth_append)
    qed
    finally show ?thesis .
  qed
qed simp_all

lemma line_start_ok:
  assumes "root_ok rd root" "\<not> has_source root"
  shows "line_start root k =
    Inr (if k < length (line_starts (root_flat rd root)) then Some (line_starts (root_flat rd root) ! k)
         else None)"
proof (cases root)
  case None
  then show ?thesis
    by (auto simp: line_start_def line_starts_def)
next
  case (Some n)
  with assms have n: "node_ok rd n" "\<not> node_has_source n"
    by auto
  let ?xs = "flat rd n"
  let ?bp = "break_positions ?xs False 0"
  have len: "sm_breaks (node_summary n) = length ?bp"
    using n by (simp add: node_summary_flat scan_breaks)
  show ?thesis
  proof (cases "0 < k \<and> k \<le> length ?bp")
    case False
    with Some len show ?thesis
      by (auto simp: line_start_def line_starts_def)
  next
    case True
    let ?i = "?bp ! (k - 1)"
    have "?i \<in> set ?bp"
      using True by (intro nth_mem) auto
    then have i: "?i < length ?xs"
      by (auto simp: mem_break_positions is_break_def)
    have "byte_at root ?i = Some (?xs ! ?i)"
      "byte_at root (?i + 1) = (if ?i + 1 < length ?xs then Some (?xs ! (?i + 1)) else None)"
      using byte_at_ok [OF assms] Some i by simp_all
    then have "line_start root k = Inr (Some (?i + terminator_width ?xs ?i))"
      using True Some len find_ok [OF n, of k False]
      by (auto simp: line_start_def terminator_width_def)
    moreover have "line_starts ?xs ! k = ?i + terminator_width ?xs ?i"
    proof -
      have "k - 1 < length ?bp" "k \<noteq> 0"
        using True by auto
      then show ?thesis
        by (simp add: line_starts_def nth_Cons')
    qed
    ultimately show ?thesis
      using True Some by (simp add: line_starts_def)
  qed
qed

section \<open>The line of an offset\<close>

lemma prefix_ok:
  "node_ok rd n \<Longrightarrow> \<not> node_has_source n \<Longrightarrow> char_boundary (flat rd n) k \<Longrightarrow>
   prefix n k = Inr (scan (take k (flat rd n)))"
proof (induction n arbitrary: k)
  case (Leaf p)
  then show ?case
    using node_bytes_flat [OF Leaf.prems(1)]
    by (subst prefix.simps) (auto simp: prefix_summary_ok piece_ok_def)
next
  case (Branch l r h s)
  have ok: "node_ok rd l" "\<not> node_has_source l" "node_ok rd r" "\<not> node_has_source r"
    using Branch.prems(1,2) by auto
  note v = flat_valid [OF ok(1,2)] flat_valid [OF ok(3,4)]
  note bytes = node_bytes_flat [OF ok(1)] node_bytes_flat [OF Branch.prems(1)]
  show ?case
  proof (cases "k = length (flat rd (Branch l r h s))")
    case True
    with Branch.prems bytes show ?thesis
      using node_summary_flat [OF Branch.prems(1)] by (subst prefix.simps) simp
  next
    case whole: False
    show ?thesis
    proof (cases "k \<le> length (flat rd l)")
      case True
      then have "char_boundary (flat rd l) k"
        using Branch.prems(3) char_boundary_append_left [OF v(2)] by simp
      with True whole Branch.IH(1) [OF ok(1,2)] bytes show ?thesis
        by (subst prefix.simps) (simp add: Let_def)
    next
      case False
      then have "char_boundary (flat rd r) (k - length (flat rd l))"
        using Branch.prems(3) char_boundary_append_right [OF v(2)] by simp
      with False whole Branch.IH(2) [OF ok(3,4)] bytes show ?thesis
        using node_summary_flat [OF ok(1)] ok(2)
        by (subst prefix.simps) (simp add: Let_def scan_append)
    qed
  qed
qed simp_all

lemma line_at_ok:
  assumes "root_ok rd root" "\<not> has_source root" "char_boundary (root_flat rd root) k"
  shows "line_at root k = Inr (line_of (root_flat rd root) k)"
proof (cases root)
  case None
  with assms(3) show ?thesis
    by (simp add: line_at_def byte_at_def line_of_def line_starts_def checked_sub_def)
next
  case (Some n)
  let ?xs = "flat rd n"
  let ?cross = "0 < k \<and> byte_at root (k - 1) = Some CR \<and> byte_at root k = Some LF"
  have k: "k \<le> length ?xs"
    using assms(3) Some char_boundary_le by auto
  have cross: "?cross \<longleftrightarrow> 0 < k \<and> k < length ?xs \<and> ?xs ! (k - 1) = CR \<and> ?xs ! k = LF"
    using byte_at_ok [OF assms(1,2)] Some k by auto
  have pos: "0 < sm_breaks (scan (take k ?xs))" if ?cross
  proof -
    have "last (take k ?xs) = ?xs ! (k - 1)"
      using that k by (subst last_conv_nth) (auto simp: min_def)
    with that k cross show ?thesis
      by (intro scan_ends_cr) auto
  qed
  have "line_at root k = ok_or Panicked (checked_sub (sm_breaks (scan (take k ?xs))) (if ?cross then 1 else 0))"
    using prefix_ok [of rd n k] assms Some by (simp add: line_at_def)
  also have "\<dots> = Inr (sm_breaks (scan (take k ?xs)) - (if ?cross then 1 else 0))"
    using pos by (auto simp: checked_sub_def)
  finally show ?thesis
    using line_of_prefix [OF k] Some unfolding cross by simp
qed

section \<open>Reading a range\<close>

text \<open>An entry of the stack: a nonempty range of a source-free subtree, cut at boundaries.\<close>

definition pending_ok :: "node \<times> nat \<times> nat \<Rightarrow> bool" where
  "pending_ok = (\<lambda>(n, s, e). node_ok (\<lambda>_. []) n \<and> \<not> node_has_source n \<and> s < e \<and>
     e \<le> length (flat (\<lambda>_. []) n) \<and> cut_ok n s \<and> cut_ok n e)"

definition stack_text :: "chunk_stack \<Rightarrow> byte list" where
  "stack_text stack = List.concat (map (\<lambda>(n, s, e). sub s e (flat (\<lambda>_. []) n)) stack)"

lemma stack_text_simps [simp]:
  "stack_text [] = []"
  "stack_text ((n, s, e) # stack) = sub s e (flat (\<lambda>_. []) n) @ stack_text stack"
  by (simp_all add: stack_text_def)

lemma pending_ok_branch:
  assumes "pending_ok (Branch l r h sm, s, e)"
  shows "node_bytes l < e \<Longrightarrow> pending_ok (r, s - node_bytes l, e - node_bytes l)"
    and "s < node_bytes l \<Longrightarrow> pending_ok (l, s, min e (node_bytes l))"
    and "node_bytes l = length (flat (\<lambda>_. []) l)"
proof -
  show bytes: "node_bytes l = length (flat (\<lambda>_. []) l)"
    using assms node_bytes_flat by (auto simp: pending_ok_def)
  have "cut_ok r (s - node_bytes l)"
    using assms by (cases "s \<le> node_bytes l") (auto simp: pending_ok_def)
  then show "node_bytes l < e \<Longrightarrow> pending_ok (r, s - node_bytes l, e - node_bytes l)"
    using assms bytes by (auto simp: pending_ok_def)
  have "cut_ok l (min e (node_bytes l))"
    using assms cut_ok_bytes [of "\<lambda>_. []" l] by (auto simp: pending_ok_def min_def)
  then show "s < node_bytes l \<Longrightarrow> pending_ok (l, s, min e (node_bytes l))"
    using assms bytes by (auto simp: pending_ok_def)
qed

lemma chunks_next_ok:
  "list_all pending_ok stack \<Longrightarrow> stack \<noteq> [] \<Longrightarrow>
   \<exists>t stack'. chunks_next stack = Inr (Some t, stack') \<and> t \<noteq> [] \<and> list_all pending_ok stack' \<and>
     stack_text stack = t @ stack_text stack'"
proof (induction stack rule: chunks_next.induct)
  case (2 node s e stack)
  show ?case
  proof (cases node)
    case (Leaf p)
    with "2.prems" have "s < e" "e \<le> length (piece_text p)" "char_boundary (piece_text p) s"
      "char_boundary (piece_text p) e"
      by (auto simp: pending_ok_def)
    then have "str_slice s e (piece_text p) = Inr (sub s e (piece_text p))" "sub s e (piece_text p) \<noteq> []"
      by (auto simp: str_slice_ok sub_def)
    with Leaf "2.prems" show ?thesis
      by simp
  next
    case (Branch l r h sm)
    let ?m = "node_bytes l"
    let ?stack1 = "if e > ?m then (r, s - ?m, e - ?m) # stack else stack"
    let ?stack2 = "if s < ?m then (l, s, min e ?m) # ?stack1 else ?stack1"
    have entry: "pending_ok (Branch l r h sm, s, e)"
      using "2.prems" Branch by simp
    note parts = pending_ok_branch [OF entry]
    have "list_all pending_ok ?stack2" "?stack2 \<noteq> []"
      using parts(1,2) "2.prems" entry by (auto simp: pending_ok_def)
    from "2.IH" [OF Branch refl refl refl this] obtain t stack' where
      t: "chunks_next ?stack2 = Inr (Some t, stack')" "t \<noteq> []" "list_all pending_ok stack'"
        "stack_text ?stack2 = t @ stack_text stack'"
      by blast
    have "s < e" "e \<le> length (flat (\<lambda>_. []) l) + length (flat (\<lambda>_. []) r)"
      using entry by (auto simp: pending_ok_def)
    then have "stack_text ?stack2 = stack_text ((node, s, e) # stack)"
      using parts(3) Branch
      by (auto simp: sub_append_left sub_append_right sub_append_mid min_def)
    with t Branch show ?thesis
      by (auto simp: Let_def)
  qed (use "2.prems" in \<open>auto simp: pending_ok_def\<close>)
qed simp

lemma chunks_all_ok:
  "list_all pending_ok stack \<Longrightarrow> \<exists>ts. chunks_all stack = Inr ts \<and> List.concat ts = stack_text stack \<and> [] \<notin> set ts"
proof (induction stack rule: chunks_all.induct)
  case (1 stack)
  show ?case
  proof (cases "stack = []")
    case True
    then show ?thesis by (subst chunks_all.simps) simp
  next
    case False
    from chunks_next_ok [OF "1.prems" False] obtain t stack' where
      t: "chunks_next stack = Inr (Some t, stack')" "t \<noteq> []" "list_all pending_ok stack'"
        "stack_text stack = t @ stack_text stack'"
      by blast
    from "1.IH" [OF t(1) refl refl t(3)] obtain ts where
      "chunks_all stack' = Inr ts" "List.concat ts = stack_text stack'" "[] \<notin> set ts"
      by blast
    with t show ?thesis
      by (subst chunks_all.simps) auto
  qed
qed

lemma node_ok_any: "node_ok rd n \<Longrightarrow> \<not> node_has_source n \<Longrightarrow> node_ok rd' n \<and> flat rd' n = flat rd n"
  by (induction n) auto

lemma chunks_text_ok:
  assumes "root_ok rd root" "\<not> has_source root" "s \<le> e"
    "char_boundary (root_flat rd root) s" "char_boundary (root_flat rd root) e"
  shows "chunks_text root s e = Inr (sub s e (root_flat rd root))"
proof (cases root)
  case None
  then show ?thesis
    by (simp add: chunks_text_def chunks_def sub_def)
next
  case (Some n)
  have n: "node_ok (\<lambda>_. []) n" "flat (\<lambda>_. []) n = flat rd n" "\<not> node_has_source n"
    using assms(1,2) Some node_ok_any [of rd n "\<lambda>_. []"] by auto
  show ?thesis
  proof (cases "s < e")
    case True
    have "pending_ok (n, s, e)"
      using assms n True Some char_boundary_le [OF assms(4)] char_boundary_le [OF assms(5)]
        cut_ok_boundary [OF n(1,3)] by (auto simp: pending_ok_def)
    then obtain ts where "chunks_all [(n, s, e)] = Inr ts" "List.concat ts = stack_text [(n, s, e)]"
      using chunks_all_ok [of "[(n, s, e)]"] by auto
    with True Some n show ?thesis
      by (simp add: chunks_text_def chunks_def)
  next
    case False
    then show ?thesis
      by (simp add: chunks_text_def chunks_def)
  qed
qed

section \<open>Text that only one root holds\<close>

fun exclusive_sum :: "(piece \<Rightarrow> nat) \<Rightarrow> node \<Rightarrow> nat" where
  "exclusive_sum strong (Leaf p) = (if strong p = 1 then length (seg_text (pc_segment p)) else 0)"
| "exclusive_sum strong (Branch l r _ _) = exclusive_sum strong l + exclusive_sum strong r"
| "exclusive_sum strong _ = 0"

lemma exclusive_loop_ok:
  "found + sum_list (map (exclusive_sum strong) stack) \<le> usize_max \<Longrightarrow>
   exclusive_loop strong enough stack found \<le> found + sum_list (map (exclusive_sum strong) stack) \<and>
   (exclusive_loop strong enough stack found < enough \<longrightarrow>
      exclusive_loop strong enough stack found = found + sum_list (map (exclusive_sum strong) stack))"
proof (induction strong enough stack found rule: exclusive_loop.induct)
  case (2 strong enough node stack found)
  then show ?case
    by (cases node) (auto simp: sat_add_exact)
qed simp

lemma exclusive_text_ok:
  assumes "exclusive_sum strong n \<le> usize_max"
  shows "exclusive_text strong (Some n) enough \<le> exclusive_sum strong n"
    and "exclusive_text strong (Some n) enough < enough \<Longrightarrow>
      exclusive_text strong (Some n) enough = exclusive_sum strong n"
  using exclusive_loop_ok [of 0 strong "[n]" enough] assms
  by (auto simp: exclusive_text_def simp del: exclusive_loop.simps)

section \<open>Properties\<close>

text \<open>The start of line \<open>k\<close> of a document whose tree holds only owned text is entry \<open>k\<close> of the
  table of line starts of the text, and there is none exactly when the text has no such line. In
  particular the descent never reaches its \<open>unreachable!\<close> arms.\<close>

theorem line_start_refines:
  assumes "root_ok rd root" "\<not> has_source root"
  shows "line_start root k =
    Inr (if k \<le> sm_breaks (tree_summary root) then Some (line_starts (root_flat rd root) ! k) else None)"
  using line_start_ok [OF assms, of k] tree_summary_scan [OF assms]
  by (simp add: length_line_starts less_Suc_eq_le)

theorem line_start_refines_witness:
  "line_start sample_root 0 = Inr (Some 0) \<and> line_start sample_root 1 = Inr (Some 4) \<and>
   line_start sample_root 2 = Inr None"
proof -
  have "line_starts [97, 98, CR, LF, 99] = [0, 4]" "sm_breaks (tree_summary sample_root) = 1"
    by code_simp+
  then show ?thesis
    using line_start_refines [OF sample_ok(3,4), where rd = "\<lambda>_. []"] by simp
qed

text \<open>The line of an offset on a character boundary is the number of lines that start after
  offset 0 and at or before it (an offset between CR and LF still lies on the line they end), and
  the line at which line \<open>k\<close> starts is \<open>k\<close>.\<close>

theorem line_at_refines:
  assumes "root_ok rd root" "\<not> has_source root" "char_boundary (root_flat rd root) offset"
  shows "line_at root offset = Inr (line_of (root_flat rd root) offset) \<and>
    (\<forall>k p. line_start root k = Inr (Some p) \<longrightarrow> line_of (root_flat rd root) p = k)"
  using line_at_ok [OF assms] line_start_ok [OF assms(1,2)]
  by (auto split: if_splits intro: line_of_line_start)

theorem line_at_refines_witness:
  "line_at sample_root 3 = Inr 0 \<and> line_at sample_root 4 = Inr 1"
proof -
  have b: "char_boundary (root_flat (\<lambda>_. []) sample_root) 3" "char_boundary (root_flat (\<lambda>_. []) sample_root) 4"
    by (simp_all add: char_boundary_def cont_iff)
  have "line_of [97, 98, CR, LF, 99] 3 = 0" "line_of [97, 98, CR, LF, 99] 4 = 1"
    by code_simp+
  then show ?thesis
    using line_at_refines [OF sample_ok(3,4) b(1)] line_at_refines [OF sample_ok(3,4) b(2)] by simp
qed

text \<open>Reading a range between character boundaries through the chunk iterator never panics, ends,
  and the chunks join to exactly the bytes of the range.\<close>

theorem chunks_read:
  assumes "root_ok rd root" "\<not> has_source root" "s \<le> e"
    "char_boundary (root_flat rd root) s" "char_boundary (root_flat rd root) e"
  shows "chunks_text root s e = Inr (sub s e (root_flat rd root))"
  by (rule chunks_text_ok [OF assms])

theorem chunks_read_witness: "chunks_text sample_root 1 4 = Inr [98, CR, LF]"
proof -
  have b: "char_boundary (root_flat (\<lambda>_. []) sample_root) 1" "char_boundary (root_flat (\<lambda>_. []) sample_root) 4"
    by (simp_all add: char_boundary_def cont_iff)
  show ?thesis
    using chunks_read [OF sample_ok(3,4) _ b] by (simp add: sub_def)
qed

end
