(* ===== verification/Rope_Text.thy ===== *)
theory Rope_Text
  imports Rope_Lines
begin

text \<open>
  Building and editing document trees (crates/document/src/tree.rs): \<open>from_text\<close> cuts a text
  into segments of at most 64 KiB at character boundaries, \<open>concat_coalesced\<close> grows the last small
  leaf while typing, and the \<open>charged_\<close> family repeats join and cut with every new node charged
  to the byte budget.

  The budget is the argument \<open>mt\<close>: \<open>m_reserve mt b n\<close> is the outcome of reserving \<open>n\<close> bytes in
  state \<open>b\<close> (\<open>None\<close> is a refusal, \<open>Error::BudgetExceeded\<close>), and \<open>m_node mt\<close> the size of a node's
  charge, a sum of \<open>size_of\<close> constants. An error drops the claims made so far, so it returns no
  state. Theory \<open>Budget\<close> provides the program's own meter.
\<close>

record 'b meter =
  m_reserve :: "'b \<Rightarrow> nat \<Rightarrow> 'b option"
  m_node :: nat

section \<open>Cutting a text into segments\<close>

definition CHUNK :: nat where
  "CHUNK = 64 * 1024"

text \<open>\<open>while !text.is_char_boundary(end) { end -= 1 }\<close>: offset 0 is a boundary.\<close>

fun floor_boundary :: "byte list \<Rightarrow> nat \<Rightarrow> nat" where
  "floor_boundary text 0 = 0"
| "floor_boundary text (Suc n) =
     (if char_boundary text (Suc n) then Suc n else floor_boundary text n)"

lemma floor_boundary_le: "floor_boundary text n \<le> n"
  by (induction n) auto

lemma floor_boundary_ok: "char_boundary text (floor_boundary text n)"
  by (induction n) auto

lemma floor_boundary_ge: "char_boundary text m \<Longrightarrow> m \<le> n \<Longrightarrow> m \<le> floor_boundary text n"
  by (induction n) (auto simp: le_Suc_eq)

text \<open>
  The loop of \<open>text_segments\<close> and of \<open>charged_text\<close>; \<open>add\<close> appends the leaf of a new segment. A cut
  that makes no progress would run the code forever; it is \<open>Panicked\<close> here and never reached.
\<close>

function segments_loop ::
  "'b meter \<Rightarrow> bool \<Rightarrow> ('b \<Rightarrow> root \<Rightarrow> piece \<Rightarrow> (root \<times> 'b) res) \<Rightarrow>
   byte list \<Rightarrow> 'b \<Rightarrow> root \<Rightarrow> nat \<Rightarrow> (root \<times> 'b) res"
where
  "segments_loop mt inserted add text b root start =
     (if start < length text then
        let e = floor_boundary text (min (start + CHUNK) (length text)) in
        if e \<le> start then Inl Panicked
        else
          and_then (ok_or BudgetExceeded (m_reserve mt b (e - start))) (\<lambda>b.
            and_then (str_slice start e text) (\<lambda>t.
              and_then
                (piece_new \<lparr>seg_text = t, seg_origin = None, seg_inserted = inserted\<rparr> 0 (e - start)) (\<lambda>p.
                and_then (add b root p) (\<lambda>(root, b). segments_loop mt inserted add text b root e))))
      else Inr (root, b))"
  by pat_completeness auto
termination
  by (relation "measure (\<lambda>(_, _, _, text, _, _, start). length text - start)") auto

declare segments_loop.simps [simp del]

definition text_segments :: "'b meter \<Rightarrow> 'b \<Rightarrow> byte list \<Rightarrow> bool \<Rightarrow> (root \<times> 'b) res" where
  "text_segments mt b text inserted =
     segments_loop mt inserted
       (\<lambda>b root p. and_then (tree_concat root (Some (Leaf p))) (\<lambda>root. Inr (root, b)))
       text b None 0"

definition from_text :: "'b meter \<Rightarrow> 'b \<Rightarrow> byte list \<Rightarrow> (root \<times> 'b) res" where
  "from_text mt b text = text_segments mt b text False"

definition from_inserted_text :: "'b meter \<Rightarrow> 'b \<Rightarrow> byte list \<Rightarrow> (root \<times> 'b) res" where
  "from_inserted_text mt b text = text_segments mt b text True"

section \<open>Growing the last leaf\<close>

definition last_leaf :: "root \<Rightarrow> piece option" where
  "last_leaf root = (case root of None \<Rightarrow> None | Some n \<Rightarrow> node_last_leaf n)"

text \<open>
  The joined text, when the last leaf of \<open>left\<close> is an inserted one and stays within \<open>limit\<close>. The
  chunk loop stops early at a source, and then the pieces stay apart.
\<close>

definition coalesced_text :: "root \<Rightarrow> root \<Rightarrow> nat \<Rightarrow> (nat \<times> byte list) option res" where
  "coalesced_text left right limit =
     (let right_bytes = sm_bytes (tree_summary right) in
      case last_leaf left of None \<Rightarrow> Inr None
      | Some piece \<Rightarrow>
          let len = pc_end piece - pc_start piece in
          if right_bytes = 0 \<or> \<not> seg_inserted (pc_segment piece) \<or>
             seg_origin (pc_segment piece) \<noteq> None \<or> sat_add len right_bytes > limit
          then Inr None
          else
            and_then (chunks_text right 0 right_bytes) (\<lambda>t.
              let text = piece_text piece @ t in
              Inr (if length text = len + right_bytes then Some (len, text) else None)))"

definition concat_coalesced :: "'b meter \<Rightarrow> 'b \<Rightarrow> root \<Rightarrow> root \<Rightarrow> nat \<Rightarrow> (root \<times> 'b) res" where
  "concat_coalesced mt b left right limit =
     and_then (coalesced_text left right limit) (\<lambda>joined.
       case joined of
         None \<Rightarrow> and_then (tree_concat left right) (\<lambda>root. Inr (root, b))
       | Some (len, text) \<Rightarrow>
           (case from_inserted_text mt b text of
              Inr (leaf, b') \<Rightarrow>
                let total = sm_bytes (tree_summary left) in
                if total < len then Inl Panicked
                else
                  and_then (tree_split left (total - len)) (\<lambda>(rest, _).
                    and_then (tree_concat rest leaf) (\<lambda>root. Inr (root, b')))
            | Inl Panicked \<Rightarrow> Inl Panicked
            | Inl _ \<Rightarrow> and_then (tree_concat left right) (\<lambda>root. Inr (root, b))))"

section \<open>Charged joins and cuts\<close>

definition charged_node :: "'b meter \<Rightarrow> 'b \<Rightarrow> node \<Rightarrow> (node \<times> 'b) res" where
  "charged_node mt b node =
     and_then (ok_or BudgetExceeded (m_reserve mt b (m_node mt))) (\<lambda>b. Inr (node, b))"

definition charged_branch :: "'b meter \<Rightarrow> 'b \<Rightarrow> node \<Rightarrow> node \<Rightarrow> (node \<times> 'b) res" where
  "charged_branch mt b left right =
     charged_node mt b
       (Branch left right (1 + max (node_height left) (node_height right))
          (combine (node_summary left) (node_summary right)))"

definition charged_balance :: "'b meter \<Rightarrow> 'b \<Rightarrow> node \<Rightarrow> node \<Rightarrow> (node \<times> 'b) res" where
  "charged_balance mt b0 left right =
     (if node_height left > node_height right + 1 then
        (case left of
          Branch a b _ _ \<Rightarrow>
            if node_height a \<ge> node_height b then
              and_then (charged_branch mt b0 b right) (\<lambda>(m, b1). charged_branch mt b1 a m)
            else (case b of
                Branch c d _ _ \<Rightarrow>
                  and_then (charged_branch mt b0 a c) (\<lambda>(m, b1).
                    and_then (charged_branch mt b1 d right) (\<lambda>(n, b2). charged_branch mt b2 m n))
              | _ \<Rightarrow> Inl Panicked)
        | _ \<Rightarrow> Inl Panicked)
      else if node_height right > node_height left + 1 then
        (case right of
          Branch a b _ _ \<Rightarrow>
            if node_height b \<ge> node_height a then
              and_then (charged_branch mt b0 left a) (\<lambda>(m, b1). charged_branch mt b1 m b)
            else (case a of
                Branch c d _ _ \<Rightarrow>
                  and_then (charged_branch mt b0 left c) (\<lambda>(m, b1).
                    and_then (charged_branch mt b1 d b) (\<lambda>(n, b2). charged_branch mt b2 m n))
              | _ \<Rightarrow> Inl Panicked)
        | _ \<Rightarrow> Inl Panicked)
      else charged_branch mt b0 left right)"

function charged_node_concat :: "'b meter \<Rightarrow> 'b \<Rightarrow> node \<Rightarrow> node \<Rightarrow> (node \<times> 'b) res" where
  "charged_node_concat mt b0 l r =
     (if node_height l > node_height r + 1 then
        (case l of
          Branch a b _ _ \<Rightarrow>
            and_then (charged_node_concat mt b0 b r) (\<lambda>(m, b1). charged_balance mt b1 a m)
        | _ \<Rightarrow> Inl Panicked)
      else if node_height r > node_height l + 1 then
        (case r of
          Branch a b _ _ \<Rightarrow>
            and_then (charged_node_concat mt b0 l a) (\<lambda>(m, b1). charged_balance mt b1 m b)
        | _ \<Rightarrow> Inl Panicked)
      else charged_branch mt b0 l r)"
  by pat_completeness auto
termination
  by (relation "measure (\<lambda>(_, _, l, r). size l + size r)") auto

declare charged_node_concat.simps [simp del]

definition charged_concat :: "'b meter \<Rightarrow> 'b \<Rightarrow> root \<Rightarrow> root \<Rightarrow> (root \<times> 'b) res" where
  "charged_concat mt b left right =
     (case (left, right) of
        (None, r) \<Rightarrow> Inr (r, b)
      | (l, None) \<Rightarrow> Inr (l, b)
      | (Some l, Some r) \<Rightarrow> and_then (charged_node_concat mt b l r) (\<lambda>(n, b). Inr (Some n, b)))"

definition charged_source :: "'b meter \<Rightarrow> 'b \<Rightarrow> nat \<Rightarrow> nat \<Rightarrow> nat \<Rightarrow> (root \<times> 'b) res" where
  "charged_source mt b source s e =
     (if e \<le> s then Inr (None, b)
      else and_then (charged_node mt b (Source source s e)) (\<lambda>(n, b). Inr (Some n, b)))"

definition charged_owned ::
  "'b meter \<Rightarrow> 'b \<Rightarrow> nat \<Rightarrow> nat \<Rightarrow> nat \<Rightarrow> (nat \<times> range) option \<Rightarrow> (root \<times> 'b) res"
where
  "charged_owned mt b source s e original =
     (if e \<le> s then Inr (None, b)
      else
        and_then
          (charged_node mt b
            (OwnedSource source s e original
              (summary_default\<lparr>sm_bytes := e - s, sm_unknown := True\<rparr>)))
          (\<lambda>(n, b). Inr (Some n, b)))"

fun charged_node_split :: "'b meter \<Rightarrow> 'b \<Rightarrow> node \<Rightarrow> nat \<Rightarrow> ((root \<times> root) \<times> 'b) res" where
  "charged_node_split mt b0 node offset =
     (if offset = 0 then Inr ((None, Some node), b0)
      else if offset \<ge> node_bytes node then Inr ((Some node, None), b0)
      else (case node of
          Leaf p \<Rightarrow>
            and_then (piece_split p offset) (\<lambda>(left, right).
              and_then (charged_node mt b0 (Leaf left)) (\<lambda>(l, b1).
                and_then (charged_node mt b1 (Leaf right)) (\<lambda>(r, b2).
                  Inr ((Some l, Some r), b2))))
        | Source source s e \<Rightarrow>
            and_then (charged_source mt b0 source s (s + offset)) (\<lambda>(l, b1).
              and_then (charged_source mt b1 source (s + offset) e) (\<lambda>(r, b2). Inr ((l, r), b2)))
        | OwnedSource source s e original _ \<Rightarrow>
            and_then (charged_owned mt b0 source s (s + offset) (origin_left offset original)) (\<lambda>(l, b1).
              and_then (charged_owned mt b1 source (s + offset) e (origin_right offset original))
                (\<lambda>(r, b2). Inr ((l, r), b2)))
        | Branch left right _ _ \<Rightarrow>
            let size = node_bytes left in
            if offset < size then
              and_then (charged_node_split mt b0 left offset) (\<lambda>((a, b), b1).
                and_then (charged_concat mt b1 b (Some right)) (\<lambda>(b, b2). Inr ((a, b), b2)))
            else
              and_then (charged_node_split mt b0 right (offset - size)) (\<lambda>((a, b), b1).
                and_then (charged_concat mt b1 (Some left) a) (\<lambda>(a, b2). Inr ((a, b), b2)))))"

declare charged_node_split.simps [simp del]

definition charged_split :: "'b meter \<Rightarrow> 'b \<Rightarrow> root \<Rightarrow> nat \<Rightarrow> ((root \<times> root) \<times> 'b) res" where
  "charged_split mt b root offset =
     (case root of None \<Rightarrow> Inr ((None, None), b) | Some node \<Rightarrow> charged_node_split mt b node offset)"

definition charged_replace ::
  "'b meter \<Rightarrow> 'b \<Rightarrow> root \<Rightarrow> nat \<Rightarrow> nat \<Rightarrow> root \<Rightarrow> (root \<times> 'b) res"
where
  "charged_replace mt b root s e inserted =
     and_then (charged_split mt b root e) (\<lambda>((prefix, suffix), b).
       and_then (charged_split mt b prefix s) (\<lambda>((prefix, _), b).
         and_then (charged_concat mt b prefix inserted) (\<lambda>(joined, b).
           charged_concat mt b joined suffix)))"

definition charged_text :: "'b meter \<Rightarrow> 'b \<Rightarrow> byte list \<Rightarrow> (root \<times> 'b) res" where
  "charged_text mt b text =
     segments_loop mt False
       (\<lambda>b root p. and_then (charged_node mt b (Leaf p)) (\<lambda>(n, b). charged_concat mt b root (Some n)))
       text b None 0"

section \<open>A charged operation is the plain one, or the budget refuses\<close>

text \<open>
  \<open>charges mt u c\<close>: the charged computation \<open>c\<close> returns the value of the plain \<open>u\<close> with a new
  budget state, fails as \<open>u\<close> does, or fails because the meter refuses some request.
\<close>

definition charges :: "'b meter \<Rightarrow> 'a res \<Rightarrow> ('a \<times> 'b) res \<Rightarrow> bool" where
  "charges mt u c \<longleftrightarrow>
     (case c of
        Inr (x, b) \<Rightarrow> u = Inr x
      | Inl e \<Rightarrow> u = Inl e \<or> (e = BudgetExceeded \<and> (\<exists>b n. m_reserve mt b n = None)))"

lemma charges_Inl [simp]: "charges mt (Inl e) (Inl e)"
  by (simp add: charges_def)

lemma charges_Inr [simp]: "charges mt (Inr x) (Inr (x, b))"
  by (simp add: charges_def)

lemma charges_bind:
  assumes "charges mt u c" "\<And>x b. charges mt (f x) (g (x, b))"
  shows "charges mt (and_then u f) (and_then c g)"
  using assms by (cases c) (fastforce simp: charges_def)+

text \<open>A step of the charged side that the plain side does not have.\<close>

lemma charges_bind_pure:
  assumes "charges mt (Inr x) c" "\<And>b. charges mt u (g (x, b))"
  shows "charges mt u (and_then c g)"
  using assms by (cases c) (auto simp: charges_def)

lemma charges_reserve:
  assumes "\<And>b. charges mt u (g b)"
  shows "charges mt u (and_then (ok_or BudgetExceeded (m_reserve mt b n)) g)"
proof (cases "m_reserve mt b n")
  case None
  then show ?thesis
    by (auto simp: charges_def)
next
  case (Some b')
  with assms show ?thesis
    by simp
qed

lemma charges_step:
  assumes "\<And>x. charges mt (f x) (g x)"
  shows "charges mt (and_then u f) (and_then u g)"
  using assms by (cases u) auto

lemma charges_map:
  assumes "charges mt u c"
  shows "charges mt (and_then u (\<lambda>x. Inr (f x))) (and_then c (\<lambda>(x, b). Inr (f x, b)))"
  using assms by (rule charges_bind) simp

named_theorems charge_intros "introduction rules for charges"

lemma charged_node_charges [charge_intros]: "charges mt (Inr n) (charged_node mt b n)"
  unfolding charged_node_def by (rule charges_reserve) simp

lemma charged_branch_charges [charge_intros]:
  "charges mt (Inr (branch l r)) (charged_branch mt b l r)"
  unfolding charged_branch_def branch_def by (rule charged_node_charges)

lemma charged_branch2 [charge_intros]:
  "charges mt (Inr (branch l (branch m r)))
     (and_then (charged_branch mt b m r) (\<lambda>(n, b). charged_branch mt b l n))"
  by (rule charges_bind_pure [OF charged_branch_charges]) (simp add: charged_branch_charges)

lemma charged_branch2' [charge_intros]:
  "charges mt (Inr (branch (branch l m) r))
     (and_then (charged_branch mt b l m) (\<lambda>(n, b). charged_branch mt b n r))"
  by (rule charges_bind_pure [OF charged_branch_charges]) (simp add: charged_branch_charges)

lemma charged_branch4 [charge_intros]:
  "charges mt (Inr (branch (branch a c) (branch d r)))
     (and_then (charged_branch mt b a c) (\<lambda>(m, b1).
        and_then (charged_branch mt b1 d r) (\<lambda>(n, b2). charged_branch mt b2 m n)))"
  by (rule charges_bind_pure [OF charged_branch_charges], simp,
      rule charges_bind_pure [OF charged_branch_charges], simp add: charged_branch_charges)

lemma charged_balance_charges [charge_intros]:
  "charges mt (balance l r) (charged_balance mt b l r)"
proof (cases "node_height l > node_height r + 1")
  case True
  then show ?thesis
    by (auto simp: balance_def charged_balance_def charge_intros split: node.splits)
next
  case False
  then show ?thesis
    by (auto simp: balance_def charged_balance_def charge_intros split: node.splits)
qed

lemma charged_node_concat_charges [charge_intros]:
  "charges mt (node_concat l r) (charged_node_concat mt b l r)"
proof (induction mt b l r rule: charged_node_concat.induct)
  case (1 mt b l r)
  consider (left) a c h s where "node_height l > node_height r + 1" "l = Branch a c h s"
    | (left_panic) "node_height l > node_height r + 1" "\<nexists>a c h s. l = Branch a c h s"
    | (right) a c h s where "\<not> node_height l > node_height r + 1" "node_height r > node_height l + 1"
        "r = Branch a c h s"
    | (right_panic) "\<not> node_height l > node_height r + 1" "node_height r > node_height l + 1"
        "\<nexists>a c h s. r = Branch a c h s"
    | (even) "\<not> node_height l > node_height r + 1" "\<not> node_height r > node_height l + 1"
    by blast
  then show ?case
  proof cases
    case left
    show ?thesis
      unfolding charged_node_concat.simps [of mt b l r] node_concat.simps [of l r]
      using left "1.IH"(1) [OF left] by (auto intro!: charges_bind charge_intros)
  next
    case left_panic
    then show ?thesis
      by (cases l) (auto simp: charged_node_concat.simps [of mt b l r] node_concat.simps [of l r])
  next
    case right
    show ?thesis
      unfolding charged_node_concat.simps [of mt b l r] node_concat.simps [of l r]
      using right "1.IH"(2) [OF right(1,2,3)] by (auto intro!: charges_bind charge_intros)
  next
    case right_panic
    then show ?thesis
      by (cases r) (auto simp: charged_node_concat.simps [of mt b l r] node_concat.simps [of l r])
  next
    case even
    then show ?thesis
      by (simp add: charged_node_concat.simps [of mt b l r] node_concat.simps [of l r] charge_intros)
  qed
qed

lemma charged_concat_charges [charge_intros]:
  "charges mt (tree_concat l r) (charged_concat mt b l r)"
  by (cases l; cases r) (auto simp: tree_concat_def charged_concat_def intro!: charges_map charge_intros)

lemma charged_source_charges [charge_intros]:
  "charges mt (Inr (from_source source s e)) (charged_source mt b source s e)"
  by (auto simp: from_source_def charged_source_def intro!: charges_bind_pure [OF charged_node_charges])

lemma charged_owned_charges [charge_intros]:
  "charges mt (Inr (from_owned_source source s e original)) (charged_owned mt b source s e original)"
  by (auto simp: from_owned_source_def charged_owned_def intro!: charges_bind_pure [OF charged_node_charges])

lemma charged_node_split_charges:
  "node_ok rd n \<Longrightarrow> k \<le> node_bytes n \<Longrightarrow> charges mt (node_split n k) (charged_node_split mt b n k)"
proof (induction n arbitrary: k b)
  case (Leaf p)
  then show ?case
    unfolding charged_node_split.simps [of mt b "Leaf p"] node_split.simps [of "Leaf p"]
    by (auto intro!: charges_step charges_bind_pure [OF charged_node_charges])
next
  case (Source source s e)
  then show ?case
    unfolding charged_node_split.simps [of mt b "Source source s e"] node_split.simps [of "Source source s e"]
    by (auto intro!: charges_bind_pure [OF charged_source_charges])
next
  case (OwnedSource source s e original sm)
  then show ?case
    unfolding charged_node_split.simps [of mt b "OwnedSource source s e original sm"]
      node_split.simps [of "OwnedSource source s e original sm"]
    by (auto intro!: charges_bind_pure [OF charged_owned_charges])
next
  case (Branch l r h s)
  let ?n = "Branch l r h s"
  have ok: "node_ok rd l" "node_ok rd r" "node_bytes ?n = node_bytes l + node_bytes r"
    using Branch.prems(1) by auto
  consider (ends) "k = 0 \<or> k = node_bytes ?n" | (left) "k \<noteq> 0" "k < node_bytes ?n" "k < node_bytes l"
    | (right) "k \<noteq> 0" "k < node_bytes ?n" "\<not> k < node_bytes l"
    using Branch.prems(2) by linarith
  then show ?case
  proof cases
    case ends
    then show ?thesis
      unfolding charged_node_split.simps [of mt b ?n] node_split.simps [of ?n] by auto
  next
    case left
    have "charges mt (node_split l k) (charged_node_split mt b l k)"
      using left ok by (intro Branch.IH(1)) auto
    with left show ?thesis
      unfolding charged_node_split.simps [of mt b ?n] node_split.simps [of ?n]
      by (auto simp: Let_def intro!: charges_bind charge_intros)
  next
    case right
    have "charges mt (node_split r (k - node_bytes l)) (charged_node_split mt b r (k - node_bytes l))"
      using right ok by (intro Branch.IH(2)) auto
    with right show ?thesis
      unfolding charged_node_split.simps [of mt b ?n] node_split.simps [of ?n]
      by (auto simp: Let_def intro!: charges_bind charge_intros)
  qed
qed

lemma charged_split_charges:
  assumes "root_ok rd root" "k \<le> length (root_flat rd root)"
  shows "charges mt (tree_split root k) (charged_split mt b root k)"
  using assms charged_node_split_charges [of rd _ k mt b]
  by (cases root) (auto simp: tree_split_def charged_split_def node_bytes_flat)

section \<open>The text of a new tree\<close>

lemma char_boundary_step:
  assumes "valid_utf8 text" "char_boundary text s" "s < length text"
    and "e = floor_boundary text (min (s + CHUNK) (length text))"
  shows "s < e" and "e \<le> length text" and "e \<le> s + CHUNK" and "char_boundary text e"
proof -
  let ?m = "min (s + CHUNK) (length text)"
  have "e \<le> ?m"
    unfolding assms(4) by (rule floor_boundary_le)
  then show "e \<le> length text" "e \<le> s + CHUNK"
    by simp_all
  show "char_boundary text e"
    using assms(4) floor_boundary_ok by simp
  show "s < e"
  proof (cases "s + CHUNK \<le> length text")
    case True
    obtain k where "char_boundary text k" "k \<le> s + CHUNK" "s + CHUNK \<le> k + 3"
      using char_boundary_near [OF assms(1) True] by auto
    then have "k \<le> e" "s < k"
      using True assms(4) floor_boundary_ge [of "text" k "s + CHUNK"] by (simp_all add: CHUNK_def)
    then show ?thesis
      by simp
  next
    case False
    then have "length text \<le> e"
      using assms(4) floor_boundary_ge [of "text" "length text" ?m] by simp
    with assms(3) show ?thesis
      by simp
  qed
qed

lemma new_leaf_ok:
  assumes "valid_utf8 t" "t \<noteq> []"
  obtains p where
    "piece_new \<lparr>seg_text = t, seg_origin = None, seg_inserted = i\<rparr> 0 (length t) = Inr p"
    "piece_ok p" "piece_text p = t"
  using assms that
    [of "\<lparr>pc_segment = \<lparr>seg_text = t, seg_origin = None, seg_inserted = i\<rparr>, pc_start = 0,
          pc_end = length t, pc_summary = scan t\<rparr>"]
  by (simp add: piece_new_def str_slice_def piece_ok_def piece_text_def)

text \<open>
  \<open>add_ok\<close>: adding a leaf appends its text, or fails only because the meter refuses.
\<close>

definition add_ok :: "'b meter \<Rightarrow> ('b \<Rightarrow> root \<Rightarrow> piece \<Rightarrow> (root \<times> 'b) res) \<Rightarrow> bool" where
  "add_ok mt add \<longleftrightarrow>
     (\<forall>b root p. root_ok (\<lambda>_. []) root \<longrightarrow> \<not> has_source root \<longrightarrow> piece_ok p \<longrightarrow>
        (\<exists>t b'. add b root p = Inr (t, b') \<and> root_ok (\<lambda>_. []) t \<and> \<not> has_source t \<and>
           root_flat (\<lambda>_. []) t = root_flat (\<lambda>_. []) root @ piece_text p) \<or>
        (add b root p = Inl BudgetExceeded \<and> (\<exists>b n. m_reserve mt b n = None)))"

lemma segments_loop_ok:
  assumes "add_ok mt add" "valid_utf8 text"
  shows "root_ok (\<lambda>_. []) root \<Longrightarrow> \<not> has_source root \<Longrightarrow> char_boundary text start \<Longrightarrow>
    (\<exists>t b'. segments_loop mt inserted add text b root start = Inr (t, b') \<and>
       root_ok (\<lambda>_. []) t \<and> \<not> has_source t \<and>
       root_flat (\<lambda>_. []) t = root_flat (\<lambda>_. []) root @ drop start text) \<or>
    (segments_loop mt inserted add text b root start = Inl BudgetExceeded \<and>
       (\<exists>b n. m_reserve mt b n = None))"
  using assms
proof (induction mt inserted "add" "text" b root start rule: segments_loop.induct)
  case (1 mt inserted adder str b root start)
  let ?e = "floor_boundary str (min (start + CHUNK) (length str))"
  let ?loop = "segments_loop mt inserted adder str b root start"
  note loop = segments_loop.simps [of mt inserted adder str b root start]
  show ?case
  proof (cases "start < length str")
    case False
    with "1.prems" show ?thesis
      by (simp add: loop char_boundary_le)
  next
    case True
    note e = char_boundary_step [OF "1.prems"(5,3) True refl]
    have t: "valid_utf8 (sub start ?e str)" "sub start ?e str \<noteq> []"
      "length (sub start ?e str) = ?e - start"
      using valid_utf8_sub [OF "1.prems"(5,3) e(4)] e by (auto simp: sub_def)
    obtain p where p: "piece_new \<lparr>seg_text = sub start ?e str, seg_origin = None,
        seg_inserted = inserted\<rparr> 0 (?e - start) = Inr p" "piece_ok p" "piece_text p = sub start ?e str"
      using new_leaf_ok [OF t(1,2), of inserted] t(3) by metis
    have slice: "str_slice start ?e str = Inr (sub start ?e str)"
      using "1.prems"(3) e by (intro str_slice_ok) auto
    show ?thesis
    proof (cases "m_reserve mt b (?e - start)")
      case None
      with True e show ?thesis
        by (auto simp: loop Let_def)
    next
      case (Some b1)
      have run: "?loop = and_then (adder b1 root p)
          (\<lambda>(root, b). segments_loop mt inserted adder str b root ?e)"
        using True e Some slice p by (simp add: loop Let_def)
      consider t b2 where "adder b1 root p = Inr (t, b2)" "root_ok (\<lambda>_. []) t" "\<not> has_source t"
          "root_flat (\<lambda>_. []) t = root_flat (\<lambda>_. []) root @ piece_text p"
        | "adder b1 root p = Inl BudgetExceeded" "\<exists>b n. m_reserve mt b n = None"
        using "1.prems"(1,2,4) p(2) unfolding add_ok_def by blast
      then show ?thesis
      proof cases
        case 1
        have "ok_or BudgetExceeded (m_reserve mt b (?e - start)) = Inr b1"
          using Some by simp
        from "1.IH" [OF True refl _ this slice p(1) 1(1) refl 1(2,3) e(4) "1.prems"(4,5)] e(1)
        have "(\<exists>u b'. segments_loop mt inserted adder str b2 t ?e = Inr (u, b') \<and>
            root_ok (\<lambda>_. []) u \<and> \<not> has_source u \<and>
            root_flat (\<lambda>_. []) u = root_flat (\<lambda>_. []) t @ drop ?e str) \<or>
          (segments_loop mt inserted adder str b2 t ?e = Inl BudgetExceeded \<and>
            (\<exists>b n. m_reserve mt b n = None))"
          by simp
        moreover have "sub start ?e str @ drop ?e str = drop start str"
          using e by (simp add: sub_def flip: append_assoc)
            (metis append_take_drop_id drop_drop le_add_diff_inverse2 less_imp_le)
        ultimately show ?thesis
          unfolding run using 1(1,4) p(3) by auto
      next
        case 2
        then show ?thesis
          unfolding run by simp
      qed
    qed
  qed
qed

lemma add_leaf_ok: "add_ok mt (\<lambda>b root p. and_then (tree_concat root (Some (Leaf p))) (\<lambda>root. Inr (root, b)))"
  unfolding add_ok_def
proof (intro allI impI disjI1)
  fix b root p
  assume "root_ok (\<lambda>_. []) root" "\<not> has_source root" "piece_ok p"
  moreover from this have "root_ok (\<lambda>_. []) (Some (Leaf p))"
    by simp
  ultimately obtain t where "tree_concat root (Some (Leaf p)) = Inr t" "root_ok (\<lambda>_. []) t"
    "root_flat (\<lambda>_. []) t = root_flat (\<lambda>_. []) root @ piece_text p" "\<not> has_source t"
    using tree_concat_ok [of "\<lambda>_. []" root "Some (Leaf p)"] by (metis flat.simps(1) node_has_source.simps(3) root_simps(2,6))
  then show "\<exists>t b'. and_then (tree_concat root (Some (Leaf p))) (\<lambda>root. Inr (root, b)) = Inr (t, b') \<and>
      root_ok (\<lambda>_. []) t \<and> \<not> has_source t \<and>
      root_flat (\<lambda>_. []) t = root_flat (\<lambda>_. []) root @ piece_text p"
    by simp
qed

lemma add_charged_leaf_ok:
  "add_ok mt (\<lambda>b root p.
     and_then (charged_node mt b (Leaf p)) (\<lambda>(n, b). charged_concat mt b root (Some n)))"
  unfolding add_ok_def
proof (intro allI impI)
  fix b root p
  assume ok: "root_ok (\<lambda>_. []) root" "\<not> has_source root" "piece_ok p"
  let ?add = "and_then (charged_node mt b (Leaf p)) (\<lambda>(n, b). charged_concat mt b root (Some n))"
  have "charges mt (tree_concat root (Some (Leaf p))) ?add"
    by (rule charges_bind_pure [OF charged_node_charges]) (simp add: charged_concat_charges)
  moreover obtain t where "tree_concat root (Some (Leaf p)) = Inr t" "root_ok (\<lambda>_. []) t"
    "root_flat (\<lambda>_. []) t = root_flat (\<lambda>_. []) root @ piece_text p" "\<not> has_source t"
    using tree_concat_ok [of "\<lambda>_. []" root "Some (Leaf p)"] ok
    by (metis flat.simps(1) node_has_source.simps(3) node_ok.simps(1) root_simps(2,4,6))
  ultimately show "(\<exists>t b'. ?add = Inr (t, b') \<and> root_ok (\<lambda>_. []) t \<and> \<not> has_source t \<and>
        root_flat (\<lambda>_. []) t = root_flat (\<lambda>_. []) root @ piece_text p) \<or>
      (?add = Inl BudgetExceeded \<and> (\<exists>b n. m_reserve mt b n = None))"
    unfolding charges_def by (cases ?add) auto
qed

text \<open>Both builders: the tree has the text, or the meter has refused.\<close>

definition builds :: "'b meter \<Rightarrow> byte list \<Rightarrow> (root \<times> 'b) res \<Rightarrow> bool" where
  "builds mt text c \<longleftrightarrow>
     (\<exists>t b. c = Inr (t, b) \<and> root_ok (\<lambda>_. []) t \<and> \<not> has_source t \<and> root_flat (\<lambda>_. []) t = text) \<or>
     (c = Inl BudgetExceeded \<and> (\<exists>b n. m_reserve mt b n = None))"

lemma text_segments_builds: "valid_utf8 text \<Longrightarrow> builds mt text (text_segments mt b text inserted)"
  using segments_loop_ok [OF add_leaf_ok, where start = 0 and root = None]
  unfolding builds_def text_segments_def by fastforce

lemma charged_text_builds: "valid_utf8 text \<Longrightarrow> builds mt text (charged_text mt b text)"
  using segments_loop_ok [OF add_charged_leaf_ok, where start = 0 and root = None]
  unfolding builds_def charged_text_def by fastforce

section \<open>Trees of owned text as a text store\<close>

text \<open>
  A tree without sources, as the Resident document holds it: \<open>text_of\<close> is its text, which is
  UTF-8.
\<close>

definition owned :: "root \<Rightarrow> bool" where
  "owned root \<longleftrightarrow> root_ok (\<lambda>_. []) root \<and> \<not> has_source root"

definition text_of :: "root \<Rightarrow> byte list" where
  "text_of root = root_flat (\<lambda>_. []) root"

lemma owned_None [simp]: "owned None" "text_of None = []"
  by (simp_all add: owned_def text_of_def)

lemma owned_valid: "owned root \<Longrightarrow> valid_utf8 (text_of root)"
  unfolding owned_def text_of_def by (intro root_flat_valid) auto

lemma owned_summary: "owned root \<Longrightarrow> tree_summary root = scan (text_of root)"
  unfolding owned_def text_of_def by (intro tree_summary_scan) auto

lemma owned_boundary: "owned root \<Longrightarrow> tree_boundary root k = char_boundary (text_of root) k"
  unfolding owned_def text_of_def by (intro tree_boundary_ok) auto

lemma owned_concat:
  assumes "owned l" "owned r"
  obtains t where "tree_concat l r = Inr t" "owned t" "text_of t = text_of l @ text_of r"
  using assms tree_concat_ok [of "\<lambda>_. []" l r] unfolding owned_def text_of_def by metis

lemma owned_split:
  assumes "owned root" "char_boundary (text_of root) k"
  obtains a b where "tree_split root k = Inr (a, b)" "owned a" "owned b"
    "text_of a = take k (text_of root)" "text_of b = drop k (text_of root)"
proof -
  have k: "k \<le> length (root_flat (\<lambda>_. []) root)"
    using assms(2) unfolding text_of_def by (rule char_boundary_le)
  then have "root_cut_ok root k"
    using root_cut_ok_boundary [of "\<lambda>_. []" root k] assms unfolding owned_def text_of_def by auto
  then show thesis
    using tree_split_ok [of "\<lambda>_. []" root k] assms(1) k that unfolding owned_def text_of_def by metis
qed

lemma owned_slice:
  assumes "owned root" "s \<le> e" "char_boundary (text_of root) s" "char_boundary (text_of root) e"
  obtains t where "tree_slice root s e = Inr t" "owned t" "text_of t = sub s e (text_of root)"
proof -
  have e: "e \<le> length (root_flat (\<lambda>_. []) root)" "s \<le> length (root_flat (\<lambda>_. []) root)"
    using assms(3,4) unfolding text_of_def by (auto dest: char_boundary_le)
  then have "root_cut_ok root s" "root_cut_ok root e"
    using root_cut_ok_boundary [of "\<lambda>_. []" root] assms unfolding owned_def text_of_def by auto
  then show thesis
    using tree_slice_ok [of "\<lambda>_. []" root s e] assms(1,2) e that unfolding owned_def text_of_def by metis
qed

lemma owned_chunks:
  "owned root \<Longrightarrow> s \<le> e \<Longrightarrow> char_boundary (text_of root) s \<Longrightarrow> char_boundary (text_of root) e \<Longrightarrow>
   chunks_text root s e = Inr (sub s e (text_of root))"
  unfolding owned_def text_of_def by (intro chunks_text_ok) auto

text \<open>
  What an edit needs of the storage, over any representation: joining and cutting are list
  operations on valid UTF-8, and they never fail at a boundary.
\<close>

locale text_store =
  fixes join :: "'r \<Rightarrow> 'r \<Rightarrow> 'r res"
    and cut :: "'r \<Rightarrow> nat \<Rightarrow> ('r \<times> 'r) res"
    and ok :: "'r \<Rightarrow> bool"
    and abs :: "'r \<Rightarrow> byte list"
  assumes valid: "ok r \<Longrightarrow> valid_utf8 (abs r)"
    and join: "ok l \<Longrightarrow> ok r \<Longrightarrow> \<exists>t. join l r = Inr t \<and> ok t \<and> abs t = abs l @ abs r"
    and cut: "ok r \<Longrightarrow> char_boundary (abs r) k \<Longrightarrow>
      \<exists>a b. cut r k = Inr (a, b) \<and> ok a \<and> ok b \<and> abs a = take k (abs r) \<and> abs b = drop k (abs r)"
begin

text \<open>Cutting a range out: the deleted part and what stays on its two sides.\<close>

lemma cut_range:
  assumes "ok r" "s \<le> e" "char_boundary (abs r) s" "char_boundary (abs r) e"
  shows "\<exists>p m a b. cut r e = Inr (p, b) \<and> cut p s = Inr (a, m) \<and> ok a \<and> ok m \<and> ok b \<and>
    abs a = take s (abs r) \<and> abs m = sub s e (abs r) \<and> abs b = drop e (abs r)"
proof -
  obtain p b where p: "cut r e = Inr (p, b)" "ok p" "ok b" "abs p = take e (abs r)" "abs b = drop e (abs r)"
    using cut [OF assms(1,4)] by blast
  have "valid_utf8 (drop e (abs r))"
    using p(3,5) valid by metis
  moreover have "e \<le> length (abs r)"
    using assms(4) by (rule char_boundary_le)
  ultimately have "char_boundary (take e (abs r)) s"
    using assms(2,3) char_boundary_append_left [of "drop e (abs r)" s "take e (abs r)"] by simp
  then obtain a m where "cut p s = Inr (a, m)" "ok a" "ok m" "abs a = take s (take e (abs r))"
    "abs m = drop s (take e (abs r))"
    using cut [OF p(2)] p(4) by metis
  with p assms(2) show ?thesis
    by (intro exI [of _ p] exI [of _ m] exI [of _ a] exI [of _ b])
      (simp add: sub_def drop_take min_def)
qed

lemma replace:
  assumes "ok r" "ok i" "s \<le> e" "char_boundary (abs r) s" "char_boundary (abs r) e"
  shows "\<exists>p m a b c t. cut r e = Inr (p, b) \<and> cut p s = Inr (a, m) \<and> join a i = Inr c \<and>
    join c b = Inr t \<and> ok t \<and> abs t = replace_range s e (abs i) (abs r)"
proof -
  obtain p m a b where "cut r e = Inr (p, b)" "cut p s = Inr (a, m)" "ok a" "ok b"
    "abs a = take s (abs r)" "abs b = drop e (abs r)"
    using cut_range [OF assms(1,3-5)] by blast
  moreover from this obtain c where "join a i = Inr c" "ok c" "abs c = abs a @ abs i"
    using join [OF _ assms(2)] by blast
  moreover from calculation obtain t where "join c b = Inr t" "ok t" "abs t = abs c @ abs b"
    using join by blast
  ultimately show ?thesis
    by (fastforce simp: replace_range_def)
qed

lemma replace_valid:
  assumes "ok r" "ok i" "s \<le> e" "char_boundary (abs r) s" "char_boundary (abs r) e"
  shows "valid_utf8 (replace_range s e (abs i) (abs r))"
  using replace [OF assms] valid by metis

end

interpretation rope: text_store tree_concat tree_split owned text_of
proof
  show "valid_utf8 (text_of r)" if "owned r" for r
    using that by (rule owned_valid)
  show "\<exists>t. tree_concat l r = Inr t \<and> owned t \<and> text_of t = text_of l @ text_of r"
    if "owned l" "owned r" for l r
    using owned_concat [OF that] by metis
  show "\<exists>a b. tree_split r k = Inr (a, b) \<and> owned a \<and> owned b \<and>
      text_of a = take k (text_of r) \<and> text_of b = drop k (text_of r)"
    if "owned r" "char_boundary (text_of r) k" for r k
    using owned_split [OF that] by metis
qed

section \<open>Typing into the last leaf\<close>

lemma node_last_leaf_ok:
  "node_ok rd n \<Longrightarrow> \<not> node_has_source n \<Longrightarrow> node_last_leaf n = Some p \<Longrightarrow>
   piece_ok p \<and> (\<exists>pre. flat rd n = pre @ piece_text p)"
  by (induction n) auto

lemma last_leaf_ok:
  assumes "owned root" "last_leaf root = Some p"
  obtains pre where "text_of root = pre @ piece_text p" "piece_ok p"
    "char_boundary (text_of root) (length pre)"
proof -
  obtain pre where pre: "text_of root = pre @ piece_text p" "piece_ok p"
    using assms node_last_leaf_ok [of "\<lambda>_. []" _ p]
    by (cases root) (auto simp: owned_def text_of_def last_leaf_def)
  then have "char_boundary (text_of root) (length pre)"
    using char_boundary_append_right [of "piece_text p" pre "length pre"] piece_ok_valid by simp
  with pre that show thesis
    by blast
qed

lemma coalesced_text_ok:
  assumes "owned l" "owned r"
  shows "coalesced_text l r limit = Inr None \<or>
    (\<exists>p. last_leaf l = Some p \<and>
       coalesced_text l r limit = Inr (Some (length (piece_text p), piece_text p @ text_of r)))"
proof -
  have bytes: "sm_bytes (tree_summary r) = length (text_of r)"
    using owned_summary [OF assms(2)] by simp
  then have "chunks_text r 0 (sm_bytes (tree_summary r)) = Inr (text_of r)"
    using owned_chunks [OF assms(2), of 0 "length (text_of r)"] by simp
  moreover have "pc_end p - pc_start p = length (piece_text p)" if "last_leaf l = Some p" for p
    using last_leaf_ok [OF assms(1) that] piece_ok_length by metis
  ultimately show ?thesis
    using bytes by (cases "last_leaf l") (auto simp: coalesced_text_def Let_def)
qed

lemma concat_coalesced_ok:
  assumes "owned l" "owned r"
  obtains t b' where "concat_coalesced mt b l r limit = Inr (t, b')" "owned t"
    "text_of t = text_of l @ text_of r"
proof -
  obtain u where u: "tree_concat l r = Inr u" "owned u" "text_of u = text_of l @ text_of r"
    using owned_concat [OF assms] by metis
  consider "coalesced_text l r limit = Inr None"
    | p where "last_leaf l = Some p"
      "coalesced_text l r limit = Inr (Some (length (piece_text p), piece_text p @ text_of r))"
    using coalesced_text_ok [OF assms] by blast
  then show thesis
  proof cases
    case 1
    with u that show ?thesis
      by (simp add: concat_coalesced_def)
  next
    case 2
    obtain pre where pre: "text_of l = pre @ piece_text p" "piece_ok p"
      "char_boundary (text_of l) (length pre)"
      using last_leaf_ok [OF assms(1) 2(1)] by metis
    have "valid_utf8 (piece_text p @ text_of r)"
      using piece_ok_valid [OF pre(2)] owned_valid [OF assms(2)] by (simp add: valid_utf8_append)
    then have "builds mt (piece_text p @ text_of r) (from_inserted_text mt b (piece_text p @ text_of r))"
      unfolding from_inserted_text_def by (rule text_segments_builds)
    then consider leaf b' where "from_inserted_text mt b (piece_text p @ text_of r) = Inr (leaf, b')"
        "owned leaf" "text_of leaf = piece_text p @ text_of r"
      | "from_inserted_text mt b (piece_text p @ text_of r) = Inl BudgetExceeded"
      unfolding builds_def owned_def text_of_def by blast
    then show ?thesis
    proof cases
      case leaf: 1
      obtain a c where ac: "tree_split l (length pre) = Inr (a, c)" "owned a" "text_of a = pre"
        using owned_split [OF assms(1) pre(3)] pre(1) by (metis append_eq_conv_conj)
      obtain t where t: "tree_concat a leaf = Inr t" "owned t" "text_of t = pre @ piece_text p @ text_of r"
        using owned_concat [OF ac(2) leaf(2)] ac(3) leaf(3) by metis
      have "sm_bytes (tree_summary l) = length pre + length (piece_text p)"
        using owned_summary [OF assms(1)] pre(1) by simp
      then have "concat_coalesced mt b l r limit = Inr (t, b')"
        using 2(2) leaf(1) ac(1) t(1) by (simp add: concat_coalesced_def Let_def)
      with t pre(1) that show ?thesis
        by simp
    next
      case full: 2
      with 2(2) u that show ?thesis
        by (simp add: concat_coalesced_def)
    qed
  qed
qed

section \<open>Replacing a range under charge\<close>

lemma charged_replace_charges:
  assumes "owned root" "owned inserted" "s \<le> e"
    "char_boundary (text_of root) s" "char_boundary (text_of root) e"
  obtains t where "charges mt (Inr t) (charged_replace mt b root s e inserted)" "owned t"
    "text_of t = replace_range s e (text_of inserted) (text_of root)"
proof -
  obtain p m a r c t where run: "tree_split root e = Inr (p, r)" "tree_split p s = Inr (a, m)"
    "tree_concat a inserted = Inr c" "tree_concat c r = Inr t"
    and t: "owned t" "text_of t = replace_range s e (text_of inserted) (text_of root)"
    using rope.replace [OF assms] by blast
  obtain a' r' where "tree_split root e = Inr (a', r')" "owned a'" "text_of a' = take e (text_of root)"
    using owned_split [OF assms(1,5)] by metis
  with run(1) have p: "owned p" "text_of p = take e (text_of root)"
    by simp_all
  have e: "e \<le> length (text_of root)"
    using assms(5) by (rule char_boundary_le)
  have c1: "charges mt (Inr (p, r)) (charged_split mt b root e)" for b
    using charged_split_charges [of "\<lambda>_. []" root e mt b] assms(1) e run(1)
    by (simp add: owned_def text_of_def)
  have c2: "charges mt (Inr (a, m)) (charged_split mt b p s)" for b
    using charged_split_charges [of "\<lambda>_. []" p s mt b] p e assms(3) run(2)
    by (simp add: owned_def text_of_def)
  have c3: "charges mt (Inr c) (charged_concat mt b a inserted)" for b
    using charged_concat_charges [of mt a inserted b] run(3) by simp
  have c4: "charges mt (Inr t) (charged_concat mt b c r)" for b
    using charged_concat_charges [of mt c r b] run(4) by simp
  have "charges mt (Inr t) (charged_replace mt b root s e inserted)"
    unfolding charged_replace_def
    by (rule charges_bind_pure [OF c1], simp, rule charges_bind_pure [OF c2], simp,
        rule charges_bind_pure [OF c3], simp add: c4)
  with t that show thesis
    by blast
qed

lemma charges_cases:
  assumes "charges mt (Inr x) c"
  obtains b where "c = Inr (x, b)" | "c = Inl BudgetExceeded" "\<exists>b n. m_reserve mt b n = None"
  using assms by (cases c) (auto simp: charges_def)

section \<open>Properties\<close>

text \<open>Building a tree from a UTF-8 text ends and never panics: every cut below 64 KiB falls on a
  character boundary and makes progress. The tree holds exactly the text, or the budget has
  refused a segment.\<close>

theorem from_text_roundtrip:
  assumes "valid_utf8 txt"
  shows "(\<exists>t b'. from_text mt b txt = Inr (t, b') \<and> owned t \<and> text_of t = txt) \<or>
    (from_text mt b txt = Inl BudgetExceeded \<and> (\<exists>b n. m_reserve mt b n = None))"
  using text_segments_builds [OF assms, of mt b False]
  unfolding builds_def from_text_def owned_def text_of_def by blast

definition free_meter :: "unit meter" where
  "free_meter = \<lparr>m_reserve = \<lambda>b n. Some b, m_node = 64\<rparr>"

theorem from_text_roundtrip_witness:
  "\<exists>t b'. from_text free_meter () [97, 98, CR] = Inr (t, b') \<and> owned t \<and> text_of t = [97, 98, CR]"
  using from_text_roundtrip [OF sample_valid(1), of free_meter "()"] by (simp add: free_meter_def)

text \<open>Appending typed text never fails, whatever the budget says: when the last small inserted leaf
  can grow it is replaced by one that holds both texts, and otherwise, or when the budget refuses
  the joined leaf, the trees are concatenated.\<close>

theorem concat_coalesced_total:
  assumes "owned l" "owned r"
  shows "\<exists>t b'. concat_coalesced mt b l r limit = Inr (t, b') \<and> owned t \<and>
    text_of t = text_of l @ text_of r"
  using concat_coalesced_ok [OF assms] by metis

lemma sample_owned [simp]: "owned sample_left" "owned sample_right" "owned sample_root"
  using sample_ok unfolding owned_def by (simp_all add: sample_left_def sample_right_def)

lemma sample_text_of [simp]: "text_of sample_root = [97, 98, CR, LF, 99]"
  "text_of sample_left = [97, 98, CR]" "text_of sample_right = [LF, 99]"
  unfolding text_of_def by simp_all

theorem concat_coalesced_total_witness:
  "\<exists>t b'. concat_coalesced free_meter () sample_left sample_right 256 = Inr (t, b') \<and> owned t \<and>
    text_of t = [97, 98, CR, LF, 99]"
  using concat_coalesced_total [OF sample_owned(1,2), of free_meter "()" 256] by simp

text \<open>Replacing a range between character boundaries on the charged path returns a tree with the
  range replaced, well formed like the uncharged one, or fails with \<open>BudgetExceeded\<close> because the
  meter refused a request; it never panics and has no other error.\<close>

theorem charged_replace_text:
  assumes "owned root" "owned inserted" "s \<le> e"
    "char_boundary (text_of root) s" "char_boundary (text_of root) e"
  shows "(\<exists>t b'. charged_replace mt b root s e inserted = Inr (t, b') \<and> owned t \<and>
      text_of t = replace_range s e (text_of inserted) (text_of root)) \<or>
    (charged_replace mt b root s e inserted = Inl BudgetExceeded \<and> (\<exists>b n. m_reserve mt b n = None))"
  using charged_replace_charges [OF assms, of mt b] charges_cases by (metis (no_types, lifting))

theorem charged_replace_text_witness:
  "\<exists>t b'. charged_replace free_meter () sample_root 1 3 sample_right = Inr (t, b') \<and>
    text_of t = [97, LF, 99, LF, 99]"
proof -
  have "char_boundary (text_of sample_root) 1" "char_boundary (text_of sample_root) 3"
    by (simp_all add: char_boundary_def cont_iff)
  from charged_replace_text [OF sample_owned(3,2) _ this, of free_meter "()"] show ?thesis
    by (simp add: free_meter_def replace_range_def) blast
qed

end
