(* ===== verification/Budget.thy ===== *)
theory Budget
  imports Rope_Text
begin

text \<open>
  The memory budgets of crates/document/src/lib.rs: a limit that can be lowered at any time and
  the bytes in use, claimed by \<open>reserve\<close> and given back when a \<open>Reservation\<close> is dropped. Both
  fields are changed atomically (a lock around the limit, \<open>fetch_update\<close> on the counter), so a
  run of concurrent holders is a sequence of the steps of \<open>budget_step\<close>.
\<close>

section \<open>Operations\<close>

record budget =
  b_limit :: nat
  b_used :: nat

definition budget_new :: "nat \<Rightarrow> budget" where
  "budget_new limit = \<lparr>b_limit = limit, b_used = 0\<rparr>"

definition set_limit :: "nat \<Rightarrow> budget \<Rightarrow> budget" where
  "set_limit limit b = b\<lparr>b_limit := limit\<rparr>"

definition available :: "budget \<Rightarrow> nat" where
  "available b = b_limit b - b_used b"

definition reserve :: "budget \<Rightarrow> nat \<Rightarrow> budget option" where
  "reserve b n =
     (case checked_add (b_used b) n of
        None \<Rightarrow> None
      | Some u \<Rightarrow> if u \<le> b_limit b then Some (b\<lparr>b_used := u\<rparr>) else None)"

definition claim :: "budget \<Rightarrow> nat \<Rightarrow> budget res" where
  "claim b n = ok_or BudgetExceeded (reserve b n)"

text \<open>Dropping a reservation of \<open>n\<close> bytes.\<close>

definition release :: "budget \<Rightarrow> nat \<Rightarrow> budget" where
  "release b n = b\<lparr>b_used := b_used b - n\<rparr>"

lemma reserve_Some_iff:
  "reserve b n = Some b' \<longleftrightarrow>
     b_used b + n \<le> b_limit b \<and> b_used b + n \<le> usize_max \<and> b' = b\<lparr>b_used := b_used b + n\<rparr>"
  by (auto simp: reserve_def checked_add_def)

lemma reserve_None_iff:
  "reserve b n = None \<longleftrightarrow> b_limit b < b_used b + n \<or> usize_max < b_used b + n"
  by (auto simp: reserve_def checked_add_def)

lemma release_reserve: "reserve b n = Some b' \<Longrightarrow> release b' n = b"
  by (auto simp: reserve_Some_iff release_def)

lemma available_reserve:
  "b_limit b \<le> usize_max \<Longrightarrow> reserve b n = None \<longleftrightarrow> available b < n \<or> b_limit b < b_used b"
  by (auto simp: reserve_None_iff available_def)

section \<open>The laws a holder of claims relies on\<close>

text \<open>
  What code that takes and drops claims needs of its budget. \<open>held\<close> is what the client holds; it
  is at most what the budget counts, because other holders share it.
\<close>

locale allowance =
  fixes take :: "'b \<Rightarrow> nat \<Rightarrow> 'b option"
    and give :: "'b \<Rightarrow> nat \<Rightarrow> 'b"
    and in_use :: "'b \<Rightarrow> nat"
    and cap :: "'b \<Rightarrow> nat"
  assumes take_used: "take b n = Some b' \<Longrightarrow> in_use b' = in_use b + n \<and> cap b' = cap b"
    and take_cap: "take b n = Some b' \<Longrightarrow> in_use b + n \<le> cap b"
    and give_used: "n \<le> in_use b \<Longrightarrow> in_use (give b n) = in_use b - n \<and> cap (give b n) = cap b"
begin

text \<open>Taking a list of claims one after the other, all or nothing at the caller.\<close>

fun take_all :: "'b \<Rightarrow> nat list \<Rightarrow> 'b option" where
  "take_all b [] = Some b"
| "take_all b (n # ns) = (case take b n of None \<Rightarrow> None | Some b' \<Rightarrow> take_all b' ns)"

fun give_all :: "'b \<Rightarrow> nat list \<Rightarrow> 'b" where
  "give_all b [] = b"
| "give_all b (n # ns) = give_all (give b n) ns"

lemma take_all_used: "take_all b ns = Some b' \<Longrightarrow> in_use b' = in_use b + sum_list ns \<and> cap b' = cap b"
  by (induction ns arbitrary: b) (fastforce dest: take_used split: option.splits)+

lemma take_all_cap: "take_all b ns = Some b' \<Longrightarrow> ns \<noteq> [] \<Longrightarrow> in_use b' \<le> cap b"
proof (induction ns arbitrary: b)
  case Nil
  then show ?case by simp
next
  case (Cons n ns)
  then obtain b1 where b1: "take b n = Some b1" "take_all b1 ns = Some b'"
    by (auto split: option.splits)
  show ?case
  proof (cases "ns = []")
    case True
    with b1 show ?thesis
      using take_used [OF b1(1)] take_cap [OF b1(1)] by auto
  next
    case False
    with b1 Cons.IH [OF b1(2) False] show ?thesis
      using take_used [OF b1(1)] by simp
  qed
qed

lemma give_all_used:
  "sum_list ns \<le> in_use b \<Longrightarrow> in_use (give_all b ns) = in_use b - sum_list ns \<and> cap (give_all b ns) = cap b"
  by (induction ns arbitrary: b) (use give_used in \<open>fastforce+\<close>)

text \<open>Dropping everything that was taken restores the count.\<close>

lemma take_give: "take_all b ns = Some b' \<Longrightarrow> in_use (give_all b' ns) = in_use b"
  using take_all_used give_all_used [of ns b'] by fastforce

end

interpretation budget: allowance reserve release b_used b_limit
  by unfold_locales (auto simp: reserve_Some_iff release_def)

section \<open>Concurrent holders\<close>

text \<open>A state is the budget with the claims that are alive.\<close>

type_synonym holders = "budget \<times> nat list"

inductive budget_step :: "holders \<Rightarrow> holders \<Rightarrow> bool" where
  admit: "reserve b n = Some b' \<Longrightarrow> budget_step (b, claims) (b', n # claims)"
| drop: "budget_step (b, xs @ n # ys) (release b n, xs @ ys)"
| relimit: "budget_step (b, claims) (set_limit limit b, claims)"

inductive_cases budget_step_cases: "budget_step (b, claims) (b', claims')"

inductive reachable :: "nat \<Rightarrow> holders \<Rightarrow> bool" for limit where
  start: "reachable limit (budget_new limit, [])"
| step: "reachable limit s \<Longrightarrow> budget_step s s' \<Longrightarrow> reachable limit s'"

lemma budget_step_used:
  assumes "budget_step (b, claims) (b', claims')" "b_used b = sum_list claims"
  shows "b_used b' = sum_list claims'"
  using assms by cases (auto simp: reserve_Some_iff release_def set_limit_def)

lemma reachable_used: "reachable limit s \<Longrightarrow> b_used (fst s) = sum_list (snd s)"
proof (induction rule: reachable.induct)
  case start
  then show ?case by (simp add: budget_new_def)
next
  case (step s s')
  then show ?case
    using budget_step_used [of "fst s" "snd s" "fst s'" "snd s'"] by simp
qed

section \<open>Properties\<close>

text \<open>However reservations, drops and limit changes interleave, the bytes in use are the sum of the
  live claims, so dropping a claim never goes below zero; and a step that claims more leaves the
  use within the limit of that moment, even after the limit was lowered below the use.\<close>

theorem budget_accounts:
  assumes "reachable limit (b, claims)" "budget_step (b, claims) (b', claims')"
  shows "b_used b' = sum_list claims' \<and> (\<forall>n\<in>set claims. n \<le> b_used b) \<and>
    (sum_list claims < sum_list claims' \<longrightarrow> b_used b' \<le> b_limit b' \<and> b_used b' \<le> usize_max)"
proof -
  have used: "b_used b = sum_list claims"
    using reachable_used [OF assms(1)] by simp
  then have "b_used b' = sum_list claims'"
    using budget_step_used [OF assms(2)] by simp
  moreover have "\<forall>n\<in>set claims. n \<le> b_used b"
    using used by (auto intro: member_le_sum_list)
  moreover from assms(2) have
    "sum_list claims < sum_list claims' \<longrightarrow> b_used b' \<le> b_limit b' \<and> b_used b' \<le> usize_max"
    by cases (auto simp: reserve_Some_iff)
  ultimately show ?thesis
    by blast
qed

theorem budget_accounts_witness:
  "\<exists>b. reserve (budget_new 100) 80 = Some b \<and> b_used b = 80 \<and> b_used b \<le> b_limit b"
proof -
  let ?b = "\<lparr>b_limit = 100, b_used = 80\<rparr>"
  have r: "reserve (budget_new 100) 80 = Some ?b"
    by (simp add: reserve_def budget_new_def checked_add_def usize_max_def)
  show ?thesis
    using budget_accounts [OF reachable.start budget_step.admit [OF r]] r by simp
qed

end
