(* ===== verification/History.thy ===== *)
theory History
  imports Budget
begin

text \<open>
  The data of undo history: crates/document/src/history.rs (selections, edit metadata, charges and
  the stack that owns the allocation of its slots), metadata.rs (the document metadata) and
  change.rs (the receipt of an applied change).

  \<open>size_of\<close> constants are the fields of \<open>sizes\<close>. What the allocator returns for a request of \<open>n\<close>
  slots is the argument \<open>grow\<close>: the capacity it gives, or \<open>None\<close>.
\<close>

record sizes =
  sz_slot :: nat
  sz_compact :: nat
  sz_change :: nat
  sz_owned_edit :: nat
  sz_selection :: nat
  sz_node :: nat

section \<open>Document metadata\<close>

text \<open>A \<open>BTreeMap<String, String>\<close>: the pairs in key order.\<close>

type_synonym doc_metadata = "(byte list \<times> byte list) list"

fun metadata_bytes :: "nat \<Rightarrow> doc_metadata \<Rightarrow> nat option" where
  "metadata_bytes n [] = Some n"
| "metadata_bytes n ((k, v) # kvs) =
     (case checked_add n (length k) of None \<Rightarrow> None
      | Some t \<Rightarrow> (case checked_add t (length v) of None \<Rightarrow> None
        | Some t' \<Rightarrow> metadata_bytes t' kvs))"

definition metadata_new :: "doc_metadata \<Rightarrow> doc_metadata res" where
  "metadata_new values =
     and_then (ok_or BudgetExceeded (metadata_bytes 0 values)) (\<lambda>bytes.
       if length values > 64 \<or> bytes > 64 * 1024 \<or> (\<exists>kv\<in>set values. fst kv = [])
       then Inl BudgetExceeded else Inr values)"

definition metadata_get :: "doc_metadata \<Rightarrow> byte list \<Rightarrow> byte list option" where
  "metadata_get m key = map_of m key"

definition metadata_charge :: "doc_metadata \<Rightarrow> nat" where
  "metadata_charge m = sum_list (map (\<lambda>(k, v). length k + length v + 128) m)"

section \<open>Selections and edit metadata\<close>

record selection =
  sel_anchor :: nat
  sel_caret :: nat

datatype edit_origin = Typing | Paste | Macro | MultiCursor | ReplaceAll | Extension | Command

definition MAX_SELECTIONS :: nat where
  "MAX_SELECTIONS = 1024"

record edit_metadata =
  em_before :: "selection list"
  em_after :: "selection list"
  em_origin :: edit_origin
  em_boundary :: nat
  em_monotonic_ms :: nat

definition edit_metadata_default :: edit_metadata where
  "edit_metadata_default =
     \<lparr>em_before = [], em_after = [], em_origin = Command, em_boundary = 0, em_monotonic_ms = 0\<rparr>"

definition validate :: "edit_metadata \<Rightarrow> nat \<Rightarrow> nat \<Rightarrow> unit res" where
  "validate m before_len after_len =
     (if length (em_before m) > MAX_SELECTIONS \<or> length (em_after m) > MAX_SELECTIONS
      then Inl BudgetExceeded
      else if (\<exists>s\<in>set (em_before m). sel_anchor s > before_len \<or> sel_caret s > before_len) \<or>
              (\<exists>s\<in>set (em_after m). sel_anchor s > after_len \<or> sel_caret s > after_len)
      then Inl OutOfBounds
      else Inr ())"

definition follows :: "edit_metadata \<Rightarrow> edit_metadata \<Rightarrow> nat \<Rightarrow> bool" where
  "follows self previous interval \<longleftrightarrow>
     em_origin self = Typing \<and> em_origin previous = Typing \<and>
     length (em_before self) = 1 \<and> length (em_after self) = 1 \<and>
     em_after previous = em_before self \<and> em_boundary self = em_boundary previous \<and>
     (case checked_sub (em_monotonic_ms self) (em_monotonic_ms previous) of
        None \<Rightarrow> False | Some gap \<Rightarrow> gap \<le> interval)"

record history_policy =
  max_changes :: nat
  typing_interval_ms :: nat

definition history_policy_default :: history_policy where
  "history_policy_default = \<lparr>max_changes = 100000, typing_interval_ms = 1000\<rparr>"

section \<open>Charges\<close>

text \<open>
  A claim on the history budget behind an \<open>Arc\<close>: its bytes and the number of references. Only the
  last reference gives the bytes back.
\<close>

type_synonym claim = "nat \<times> nat"
type_synonym charge = "claim list"

definition exclusive :: "claim \<Rightarrow> nat" where
  "exclusive c = (if snd c = 1 then fst c else 0)"

definition charge_new :: "nat \<Rightarrow> charge" where
  "charge_new bytes = [(bytes, 1)]"

definition charge_empty :: charge where
  "charge_empty = []"

definition charge_bytes :: "charge \<Rightarrow> nat" where
  "charge_bytes c = sum_list (map fst c)"

definition charge_exclusive :: "charge \<Rightarrow> nat" where
  "charge_exclusive c = sum_list (map fst (filter (\<lambda>claim. snd claim = 1) c))"

definition charge_add :: "charge \<Rightarrow> nat \<Rightarrow> charge" where
  "charge_add c bytes = c @ [(bytes, 1)]"

definition charge_merge :: "charge \<Rightarrow> charge \<Rightarrow> charge" where
  "charge_merge c other = c @ other"

record owned_edit =
  oe_before :: range
  oe_after :: range
  oe_inverse :: root
  oe_inserted :: root

section \<open>The stack\<close>

record 'a stack =
  st_entries :: "'a list"
  st_capacity :: nat
  st_charge :: "nat option"

definition stack_new :: "'a stack" where
  "stack_new = \<lparr>st_entries = [], st_capacity = 0, st_charge = None\<rparr>"

definition stack_from_vec :: "nat \<Rightarrow> budget \<Rightarrow> 'a list \<Rightarrow> nat \<Rightarrow> ('a stack \<times> budget) res" where
  "stack_from_vec slot b entries capacity =
     and_then (ok_or BudgetExceeded (checked_mul capacity slot)) (\<lambda>bytes.
       if bytes = 0 then Inr (\<lparr>st_entries = entries, st_capacity = capacity, st_charge = None\<rparr>, b)
       else
         and_then (claim b bytes) (\<lambda>b'.
           Inr (\<lparr>st_entries = entries, st_capacity = capacity, st_charge = Some bytes\<rparr>, b')))"

definition capacity_bytes :: "'a stack \<Rightarrow> nat" where
  "capacity_bytes s = (case st_charge s of None \<Rightarrow> 0 | Some bytes \<Rightarrow> bytes)"

definition growth_bytes :: "nat \<Rightarrow> 'a stack \<Rightarrow> nat \<Rightarrow> nat" where
  "growth_bytes slot s additional =
     (let requested = sat_add (length (st_entries s)) additional in
      if requested \<le> st_capacity s then 0
      else sat_mul (max (max requested (sat_mul (st_capacity s) 2)) 1) slot)"

text \<open>
  The new allocation is charged while the old one is still charged; the old charge is given back
  when the new one replaces it. An error gives back what it claimed.
\<close>

definition try_reserve ::
  "nat \<Rightarrow> (nat \<Rightarrow> nat option) \<Rightarrow> budget \<Rightarrow> 'a stack \<Rightarrow> nat \<Rightarrow> ('a stack \<times> budget) res"
where
  "try_reserve slot grow b s additional =
     and_then (ok_or BudgetExceeded (checked_add (length (st_entries s)) additional)) (\<lambda>requested.
     if requested \<le> st_capacity s then Inr (s, b)
     else
       and_then (ok_or BudgetExceeded (checked_mul (st_capacity s) 2)) (\<lambda>doubled.
       let requested = max (max requested doubled) 1 in
       and_then (ok_or BudgetExceeded (checked_mul requested slot)) (\<lambda>bytes.
       and_then (claim b bytes) (\<lambda>b1.
       and_then (ok_or BudgetExceeded (grow requested)) (\<lambda>capacity.
       and_then (ok_or BudgetExceeded (checked_mul capacity slot)) (\<lambda>actual.
       and_then (if actual > bytes then claim b1 (actual - bytes) else Inr b1) (\<lambda>b2.
         Inr (\<lparr>st_entries = st_entries s, st_capacity = capacity, st_charge = Some (max bytes actual)\<rparr>,
              release b2 (capacity_bytes s)))))))))"

text \<open>
  Growth is admitted before; a release build drops an entry it has no slot for (a debug build
  asserts). The theorems show that the document never gets there.
\<close>

definition stack_push :: "'a stack \<Rightarrow> 'a \<Rightarrow> 'a stack" where
  "stack_push s entry =
     (if length (st_entries s) \<ge> st_capacity s then s else s\<lparr>st_entries := st_entries s @ [entry]\<rparr>)"

definition stack_last :: "'a stack \<Rightarrow> 'a option" where
  "stack_last s = (if st_entries s = [] then None else Some (last (st_entries s)))"

definition stack_pop :: "'a stack \<Rightarrow> 'a option \<times> 'a stack" where
  "stack_pop s = (stack_last s, s\<lparr>st_entries := butlast (st_entries s)\<rparr>)"

definition stack_clear :: "'a stack \<Rightarrow> 'a stack" where
  "stack_clear s = s\<lparr>st_entries := []\<rparr>"

text \<open>\<open>drain(..n)\<close>.\<close>

definition stack_drain :: "nat \<Rightarrow> 'a stack \<Rightarrow> 'a stack" where
  "stack_drain n s = s\<lparr>st_entries := drop n (st_entries s)\<rparr>"

section \<open>Receipts of applied changes\<close>

definition MAX_RECEIPT_BYTES :: nat where
  "MAX_RECEIPT_BYTES = 64 * 1024 * 1024"

datatype change_direction = DirEdit | DirUndo | DirRedo

record compact_edit =
  ce_before :: range
  ce_inserted_len :: nat

record applied_change =
  ac_document :: nat
  ac_before_revision :: nat
  ac_after_revision :: nat
  ac_before_state :: nat
  ac_after_state :: nat
  ac_direction :: change_direction
  ac_edits :: "compact_edit list"

text \<open>\<open>sz_change\<close> is \<open>size_of::<AppliedChange>() + 2 * size_of::<usize>()\<close>.\<close>

definition charged_bytes :: "sizes \<Rightarrow> applied_change \<Rightarrow> nat" where
  "charged_bytes sz c = length (ac_edits c) * sz_compact sz + sz_change sz"

definition matches_before :: "applied_change \<Rightarrow> nat \<times> nat \<Rightarrow> nat \<Rightarrow> bool" where
  "matches_before c identity state \<longleftrightarrow>
     identity = (ac_document c, ac_before_revision c) \<and> state = ac_before_state c"

definition receipt_bytes :: "sizes \<Rightarrow> nat \<Rightarrow> nat option" where
  "receipt_bytes sz count =
     (case checked_mul count (sz_compact sz) of None \<Rightarrow> None
      | Some payload \<Rightarrow>
          if payload \<le> MAX_RECEIPT_BYTES then checked_add payload (sz_change sz) else None)"

text \<open>\<open>collect\<close> is the loop that fills the output: at most \<open>count\<close> edits.\<close>

fun change_collect :: "nat \<Rightarrow> compact_edit list \<Rightarrow> compact_edit list \<Rightarrow> compact_edit list res" where
  "change_collect count output [] = (if length output \<noteq> count then Inl OutOfBounds else Inr output)"
| "change_collect count output (e # es) =
     (if length output = count then Inl BudgetExceeded else change_collect count (output @ [e]) es)"

definition change_build ::
  "'b meter \<Rightarrow> sizes \<Rightarrow> 'b \<Rightarrow> nat \<Rightarrow> nat \<Rightarrow> nat \<Rightarrow> nat \<Rightarrow> nat \<Rightarrow> change_direction \<Rightarrow> nat \<Rightarrow>
   compact_edit list \<Rightarrow> (applied_change \<times> 'b) res"
where
  "change_build mt sz b document before_revision after_revision before_state after_state direction
     count edits =
     and_then (ok_or BudgetExceeded (receipt_bytes sz count)) (\<lambda>bytes.
     and_then (ok_or BudgetExceeded (m_reserve mt b bytes)) (\<lambda>b.
     and_then (change_collect count [] edits) (\<lambda>output.
       Inr (\<lparr>ac_document = document, ac_before_revision = before_revision,
             ac_after_revision = after_revision, ac_before_state = before_state,
             ac_after_state = after_state, ac_direction = direction, ac_edits = output\<rparr>, b))))"

definition compact :: "change_direction \<Rightarrow> owned_edit \<Rightarrow> compact_edit" where
  "compact direction edit =
     (let (range, inserted) =
        (if direction = DirUndo then (oe_after edit, oe_inverse edit)
         else (oe_before edit, oe_inserted edit))
      in \<lparr>ce_before = range, ce_inserted_len = sm_bytes (tree_summary inserted)\<rparr>)"

definition change_owned ::
  "'b meter \<Rightarrow> sizes \<Rightarrow> 'b \<Rightarrow> nat \<Rightarrow> nat \<Rightarrow> nat \<Rightarrow> nat \<Rightarrow> nat \<Rightarrow> change_direction \<Rightarrow>
   owned_edit list \<Rightarrow> (applied_change \<times> 'b) res"
where
  "change_owned mt sz b document before_revision after_revision before_state after_state direction edits =
     change_build mt sz b document before_revision after_revision before_state after_state direction
       (length edits) (map (compact direction) edits)"

section \<open>Lemmas\<close>

lemma change_collect_ok:
  "length output + length es = count \<Longrightarrow> change_collect count output es = Inr (output @ es)"
  by (induction es arbitrary: "output") auto

text \<open>A receipt records every edit, or the budget (or the size bound) refuses it.\<close>

lemma change_owned_cases:
  obtains (ok) c b' where
    "change_owned mt sz b document r1 r2 s1 s2 direction edits = Inr (c, b')"
    "c = \<lparr>ac_document = document, ac_before_revision = r1, ac_after_revision = r2,
          ac_before_state = s1, ac_after_state = s2, ac_direction = direction,
          ac_edits = map (compact direction) edits\<rparr>"
  | (refused) "change_owned mt sz b document r1 r2 s1 s2 direction edits = Inl BudgetExceeded"
      "receipt_bytes sz (length edits) = None \<or> (\<exists>b n. m_reserve mt b n = None)"
proof -
  have collected:
    "change_collect (length edits) [] (map (compact direction) edits) = Inr (map (compact direction) edits)"
    by (simp add: change_collect_ok)
  show thesis
  proof (cases "receipt_bytes sz (length edits)")
    case None
    then show thesis
      by (intro refused) (simp_all add: change_owned_def change_build_def)
  next
    case (Some n)
    show thesis
    proof (cases "m_reserve mt b n")
      case None
      with Some show thesis
        by (intro refused) (auto simp: change_owned_def change_build_def)
    next
      case (Some b')
      with \<open>receipt_bytes sz (length edits) = Some n\<close> collected show thesis
        by (intro ok) (simp_all add: change_owned_def change_build_def)
    qed
  qed
qed

text \<open>A stack within its capacity, with the capacity charged.\<close>

definition stack_ok :: "nat \<Rightarrow> 'a stack \<Rightarrow> bool" where
  "stack_ok slot s \<longleftrightarrow>
     length (st_entries s) \<le> st_capacity s \<and> st_capacity s * slot \<le> capacity_bytes s"

lemma stack_new_ok [simp]: "stack_ok slot stack_new"
  by (simp add: stack_ok_def stack_new_def capacity_bytes_def)

lemma stack_push_entries:
  "length (st_entries s) < st_capacity s \<Longrightarrow>
     stack_push s e = s\<lparr>st_entries := st_entries s @ [e]\<rparr>"
  by (simp add: stack_push_def)

lemma stack_ok_update:
  "stack_ok slot s \<Longrightarrow> length xs \<le> st_capacity s \<Longrightarrow> stack_ok slot (s\<lparr>st_entries := xs\<rparr>)"
  by (simp add: stack_ok_def capacity_bytes_def)

lemma stack_drain_ok: "stack_ok slot s \<Longrightarrow> stack_ok slot (stack_drain n s)"
  unfolding stack_drain_def by (intro stack_ok_update) (auto simp: stack_ok_def)

lemma stack_clear_ok: "stack_ok slot s \<Longrightarrow> stack_ok slot (stack_clear s)"
  unfolding stack_clear_def by (intro stack_ok_update) (auto simp: stack_ok_def)

text \<open>
  What growing does: the entries stay, the requested slots exist, and the budget counts the new
  charge in place of the old one.
\<close>

lemma try_reserve_cases:
  assumes "try_reserve slot grow b s additional = Inr (s', b')"
  obtains "s' = s" "b' = b" "length (st_entries s) + additional \<le> st_capacity s"
  | n c b1 b2 where "length (st_entries s) + additional \<le> n" "grow n = Some c"
      "reserve b (n * slot) = Some b1"
      "(if c * slot > n * slot then claim b1 (c * slot - n * slot) else Inr b1) = Inr b2"
      "s' = \<lparr>st_entries = st_entries s, st_capacity = c, st_charge = Some (max (n * slot) (c * slot))\<rparr>"
      "b' = release b2 (capacity_bytes s)" "st_capacity s < n"
proof (cases "length (st_entries s) + additional \<le> st_capacity s")
  case True
  with assms that(1) show thesis
    by (auto simp: try_reserve_def and_then_Inr_iff ok_or_Inr_iff checked_add_Some_iff)
next
  case False
  let ?n = "max (max (length (st_entries s) + additional) (st_capacity s * 2)) 1"
  have "length (st_entries s) + additional \<le> ?n" "st_capacity s < ?n"
    using False by auto
  then show thesis
    using assms False that(2) [of ?n]
    by (auto simp: try_reserve_def and_then_Inr_iff ok_or_Inr_iff checked_add_Some_iff
        checked_mul_def claim_def Let_def split: if_splits)
qed

lemma try_reserve_stack:
  assumes "try_reserve slot grow b s additional = Inr (s', b')" "stack_ok slot s"
    and "\<And>n c. grow n = Some c \<Longrightarrow> n \<le> c"
  shows "st_entries s' = st_entries s \<and> length (st_entries s) + additional \<le> st_capacity s' \<and>
    stack_ok slot s' \<and> st_capacity s \<le> st_capacity s'"
  using assms(1)
proof (cases rule: try_reserve_cases)
  case 1
  with assms(2) show ?thesis
    by simp
next
  case (2 n c b1 b2)
  with assms(3) [OF 2(2)] show ?thesis
    by (simp add: stack_ok_def capacity_bytes_def)
qed

lemma try_reserve_budget:
  assumes "try_reserve slot grow b s additional = Inr (s', b')" "capacity_bytes s \<le> b_used b"
  shows "b_used b' + capacity_bytes s = b_used b + capacity_bytes s' \<and> b_limit b' = b_limit b"
  using assms(1)
proof (cases rule: try_reserve_cases)
  case (2 n c b1 b2)
  have "b_used b2 = b_used b + max (n * slot) (c * slot)" "b_limit b2 = b_limit b"
    using 2(3,4) by (auto simp: claim_def ok_or_Inr_iff reserve_Some_iff max_def split: if_splits)
  moreover have "capacity_bytes s' = max (n * slot) (c * slot)"
    using 2(5) by (simp add: capacity_bytes_def)
  ultimately show ?thesis
    using 2(6) assms(2) by (simp add: release_def)
qed simp

end
