(* ===== verification/Document.thy ===== *)
theory Document
  imports History "HOL-Library.Product_Lexorder"
begin

text \<open>
  The Resident document of crates/document/src/lib.rs: snapshots, transactions, undo and redo,
  typing merges, and the eviction of history when a budget is short.

  The state is a \<open>world\<close> shared by all documents (the two budgets, the counter behind \<open>unique()\<close>
  and the \<open>linked\<close> flags of undo groups) and a \<open>doc\<close>. The history budget is the concrete one of
  theory \<open>Budget\<close>; the byte budget is an abstract meter, because its claims live in text segments
  and follow their reference counts: \<open>e_dropped\<close> is its state after trees are dropped,
  \<open>e_released\<close> after the claim of an unpublished receipt is, and \<open>e_strong\<close> the reference count of
  a piece's segment. An operation that fails returns the state with whatever
  relief evicted and nothing else changed; the claims and identities of the failed attempt are gone.
\<close>

section \<open>The environment and the state\<close>

record 'b env =
  e_meter :: "'b meter"
  e_available :: "'b \<Rightarrow> nat"
  e_dropped :: "'b \<Rightarrow> root list \<Rightarrow> 'b"
  e_released :: "'b \<Rightarrow> nat \<Rightarrow> 'b"
  e_strong :: "'b \<Rightarrow> piece \<Rightarrow> nat"
  e_grow :: "nat \<Rightarrow> nat option"
  e_sizes :: sizes

record 'b world =
  w_bytes :: 'b
  w_history :: budget
  w_next :: nat
  w_linked :: "nat \<Rightarrow> bool"

text \<open>\<open>unique()\<close>.\<close>

definition unique :: "'b world \<Rightarrow> nat \<times> 'b world" where
  "unique w = (w_next w, w\<lparr>w_next := w_next w + 1\<rparr>)"

record snapshot =
  sn_change :: "applied_change option"
  sn_metadata :: doc_metadata
  sn_root :: root
  sn_revision :: nat
  sn_state :: nat
  sn_id :: nat
  sn_complete :: bool

text \<open>\<open>GroupTag\<close>; \<open>gt_linked\<close> is the address of the shared \<open>AtomicBool\<close>.\<close>

record group_tag =
  gt_id :: nat
  gt_members :: "nat list"
  gt_linked :: nat

record entry =
  en_before_metadata :: doc_metadata
  en_after_metadata :: doc_metadata
  en_before :: root
  en_after :: root
  en_before_state :: nat
  en_after_state :: nat
  en_undo_reservation :: charge
  en_structure :: "claim option"
  en_sequence :: nat
  en_edits :: "owned_edit list"
  en_group :: "group_tag option"
  en_metadata :: edit_metadata
  en_typing_insert :: bool

record doc =
  d_current :: snapshot
  d_saved :: nat
  d_policy :: history_policy
  d_undo :: "entry stack"
  d_redo :: "entry stack"
  d_last_merged :: bool
  d_last_untracked :: bool

record edit =
  ed_start :: nat
  ed_end :: nat
  ed_insert :: "byte list"

record transaction =
  tr_base :: nat
  tr_edits :: "edit list"

record prepared =
  pr_change :: applied_change
  pr_document :: nat
  pr_base :: nat
  pr_revision :: nat
  pr_entry :: entry
  pr_tracked :: bool

definition PIECEWISE_EDITS :: nat where "PIECEWISE_EDITS = 10000"
definition COALESCE_GAP :: nat where "COALESCE_GAP = 256"
definition COALESCE_BYTES :: nat where "COALESCE_BYTES = 1024 * 1024"
definition TYPED_LEAF_BYTES :: nat where "TYPED_LEAF_BYTES = 256"
definition NODES_PER_EDIT :: nat where "NODES_PER_EDIT = 4"
definition RELIEF_PASSES :: nat where "RELIEF_PASSES = 4"

datatype demand = DemandEdit nat | DemandUndo | DemandRedo | DemandText nat

fun keep :: "demand \<Rightarrow> nat \<times> nat" where
  "keep (DemandEdit _) = (0, 0)"
| "keep (DemandText _) = (0, 0)"
| "keep DemandUndo = (1, 0)"
| "keep DemandRedo = (0, 1)"

section \<open>Snapshots\<close>

definition snapshot_len :: "snapshot \<Rightarrow> nat" where
  "snapshot_len s = sm_bytes (tree_summary (sn_root s))"

definition line_count :: "snapshot \<Rightarrow> nat" where
  "line_count s = sm_breaks (tree_summary (sn_root s)) + 1"

definition is_boundary :: "snapshot \<Rightarrow> nat \<Rightarrow> bool" where
  "is_boundary s offset \<longleftrightarrow> offset \<le> snapshot_len s \<and> tree_boundary (sn_root s) offset"

definition same_document :: "snapshot \<Rightarrow> snapshot \<Rightarrow> bool" where
  "same_document s t \<longleftrightarrow> sn_id s = sn_id t"

definition identity_token :: "snapshot \<Rightarrow> nat \<times> nat" where
  "identity_token s = (sn_id s, sn_revision s)"

datatype eol_label = EolLF | EolCR | EolCRLF | EolMixed

definition new_document_eol_key :: "byte list" where
  "new_document_eol_key =
     [102, 105, 108, 101, 46, 110, 101, 119, 95, 100, 111, 99, 117, 109, 101, 110, 116, 95, 101,
      111, 108]"

definition eol_label :: "snapshot \<Rightarrow> eol_label" where
  "eol_label s =
     (let sm = tree_summary (sn_root s) in
      case (sm_cr sm > 0, sm_lf sm > 0, sm_crlf sm > 0) of
        (False, False, False) \<Rightarrow>
          (case metadata_get (sn_metadata s) new_document_eol_key of
             None \<Rightarrow> EolLF
           | Some v \<Rightarrow>
               if v = [99, 114, 108, 102] then EolCRLF
               else if v = [99, 114] then EolCR else EolLF)
      | (False, True, False) \<Rightarrow> EolLF
      | (True, False, False) \<Rightarrow> EolCR
      | (False, False, True) \<Rightarrow> EolCRLF
      | _ \<Rightarrow> EolMixed)"

definition insertion_eol :: "snapshot \<Rightarrow> byte list" where
  "insertion_eol s =
     (case eol_label s of
        EolCRLF \<Rightarrow> [CR, LF]
      | EolCR \<Rightarrow> [CR]
      | EolMixed \<Rightarrow>
          let sm = tree_summary (sn_root s) in
          if sm_crlf sm \<ge> sm_lf sm \<and> sm_crlf sm \<ge> sm_cr sm then [CR, LF]
          else if sm_lf sm \<ge> sm_cr sm then [LF] else [CR]
      | EolLF \<Rightarrow> [LF])"

definition line_range :: "snapshot \<Rightarrow> nat \<Rightarrow> range res" where
  "line_range s line =
     and_then (line_start (sn_root s) line) (\<lambda>first.
     and_then (ok_or OutOfBounds first) (\<lambda>start.
     and_then (line_start (sn_root s) (line + 1)) (\<lambda>next.
       Inr (start, case next of None \<Rightarrow> snapshot_len s | Some e \<Rightarrow> e))))"

definition snapshot_line_at :: "snapshot \<Rightarrow> nat \<Rightarrow> nat res" where
  "snapshot_line_at s offset =
     (if offset > snapshot_len s then Inl OutOfBounds
      else if \<not> is_boundary s offset then Inl InvalidBoundary
      else line_at (sn_root s) offset)"

definition validate_range :: "snapshot \<Rightarrow> nat \<Rightarrow> nat \<Rightarrow> unit res" where
  "validate_range s a b =
     (if a > b \<or> b > snapshot_len s then Inl OutOfBounds
      else if \<not> is_boundary s a \<or> \<not> is_boundary s b then Inl InvalidBoundary
      else Inr ())"

definition snapshot_chunks :: "snapshot \<Rightarrow> nat \<Rightarrow> nat \<Rightarrow> chunk_stack res" where
  "snapshot_chunks s a b = and_then (validate_range s a b) (\<lambda>_. Inr (chunks (sn_root s) a b))"

definition snapshot_read :: "snapshot \<Rightarrow> nat \<Rightarrow> nat \<Rightarrow> nat \<Rightarrow> byte list res" where
  "snapshot_read s a b max_bytes =
     and_then (validate_range s a b) (\<lambda>_.
       if b - a > max_bytes then Inl BudgetExceeded
       else
         and_then (snapshot_chunks s a b) (\<lambda>stack.
         and_then (chunks_all stack) (\<lambda>ts. Inr (List.concat ts))))"

section \<open>New documents\<close>

definition empty_doc :: "root \<Rightarrow> doc_metadata \<Rightarrow> nat \<Rightarrow> nat \<Rightarrow> doc" where
  "empty_doc root metadata state document_id =
     \<lparr>d_current =
        \<lparr>sn_change = None, sn_metadata = metadata, sn_root = root, sn_revision = 0,
         sn_state = state, sn_id = document_id, sn_complete = True\<rparr>,
      d_saved = state, d_policy = history_policy_default, d_undo = stack_new, d_redo = stack_new,
      d_last_merged = False, d_last_untracked = False\<rparr>"

definition from_utf8 :: "'b env \<Rightarrow> 'b world \<Rightarrow> byte list \<Rightarrow> (doc \<times> 'b world) res" where
  "from_utf8 env w text =
     and_then (from_text (e_meter env) (w_bytes w) text) (\<lambda>(root, b).
       let (state, w) = unique (w\<lparr>w_bytes := b\<rparr>); (document_id, w) = unique w
       in Inr (empty_doc root [] state document_id, w))"

definition fork_from_snapshot :: "'b world \<Rightarrow> snapshot \<Rightarrow> (doc \<times> 'b world) res" where
  "fork_from_snapshot w s =
     (if \<not> sn_complete s then Inl IncompleteSource
      else
        let (state, w) = unique w; (document_id, w) = unique w
        in Inr (empty_doc (sn_root s) (sn_metadata s) state document_id, w))"

definition next_revision :: "doc \<Rightarrow> nat res" where
  "next_revision d = ok_or RevisionOverflow (checked_add (sn_revision (d_current d)) 1)"

text \<open>\<open>DocumentBuilder\<close>: the document under construction.\<close>

definition builder_new :: "'b env \<Rightarrow> 'b world \<Rightarrow> (doc \<times> 'b world) res" where
  "builder_new env w = from_utf8 env w []"

definition builder_append :: "'b env \<Rightarrow> 'b world \<Rightarrow> doc \<Rightarrow> byte list \<Rightarrow> (doc \<times> 'b world) res" where
  "builder_append env w d text =
     and_then (from_text (e_meter env) (w_bytes w) text) (\<lambda>(suffix, b).
     and_then (next_revision d) (\<lambda>revision.
     and_then (tree_concat (sn_root (d_current d)) suffix) (\<lambda>root.
       let (state, w) = unique (w\<lparr>w_bytes := b\<rparr>)
       in Inr (d\<lparr>d_current := (d_current d)\<lparr>sn_root := root, sn_revision := revision,
                 sn_state := state\<rparr>\<rparr>, w))))"

definition builder_prefix :: "doc \<Rightarrow> snapshot" where
  "builder_prefix d = (d_current d)\<lparr>sn_complete := False\<rparr>"

definition builder_finish :: "doc \<Rightarrow> doc" where
  "builder_finish d = d\<lparr>d_saved := sn_state (d_current d)\<rparr>"

definition dirty :: "doc \<Rightarrow> bool" where
  "dirty d \<longleftrightarrow> sn_state (d_current d) \<noteq> d_saved d"

definition initialize_metadata :: "doc \<Rightarrow> doc_metadata \<Rightarrow> doc res" where
  "initialize_metadata d metadata =
     (if dirty d \<or> st_entries (d_undo d) \<noteq> [] \<or> st_entries (d_redo d) \<noteq> [] then Inl ActorBusy
      else Inr (d\<lparr>d_current := (d_current d)\<lparr>sn_metadata := metadata\<rparr>\<rparr>))"

definition mark_saved :: "doc \<Rightarrow> snapshot \<Rightarrow> doc res" where
  "mark_saved d captured =
     (if \<not> sn_complete captured then Inl IncompleteSource
      else if sn_id captured \<noteq> sn_id (d_current d) then Inl WrongDocument
      else Inr (d\<lparr>d_saved := sn_state captured\<rparr>))"

definition mark_saved_state :: "doc \<Rightarrow> nat \<Rightarrow> doc" where
  "mark_saved_state d state = d\<lparr>d_saved := state\<rparr>"

section \<open>Dropping history\<close>

definition linked :: "'b world \<Rightarrow> group_tag \<Rightarrow> bool" where
  "linked w tag = w_linked w (gt_linked tag)"

definition entry_roots :: "entry \<Rightarrow> root list" where
  "entry_roots e =
     [en_before e, en_after e] @ List.concat (map (\<lambda>d. [oe_inverse d, oe_inserted d]) (en_edits e))"

definition structure_exclusive :: "claim option \<Rightarrow> nat" where
  "structure_exclusive c = (case c of None \<Rightarrow> 0 | Some cl \<Rightarrow> exclusive cl)"

text \<open>Dropping an entry: its claims, its trees and, for a group, the link of all its members.\<close>

definition drop_entry :: "'b env \<Rightarrow> 'b world \<Rightarrow> entry \<Rightarrow> 'b world" where
  "drop_entry env w e =
     w\<lparr>w_history := release (release (w_history w) (charge_exclusive (en_undo_reservation e)))
                     (structure_exclusive (en_structure e)),
       w_bytes := e_dropped env (w_bytes w) (entry_roots e),
       w_linked := (case en_group e of None \<Rightarrow> w_linked w
                    | Some tag \<Rightarrow> (w_linked w)(gt_linked tag := False))\<rparr>"

definition drop_entries :: "'b env \<Rightarrow> 'b world \<Rightarrow> entry list \<Rightarrow> 'b world" where
  "drop_entries env w es = fold (\<lambda>e w. drop_entry env w e) es w"

definition clear_undo :: "'b env \<Rightarrow> 'b world \<Rightarrow> doc \<Rightarrow> 'b world \<times> doc" where
  "clear_undo env w d =
     (drop_entries env w (st_entries (d_undo d)), d\<lparr>d_undo := stack_clear (d_undo d)\<rparr>)"

definition clear_redo :: "'b env \<Rightarrow> 'b world \<Rightarrow> doc \<Rightarrow> 'b world \<times> doc" where
  "clear_redo env w d =
     (drop_entries env w (st_entries (d_redo d)), d\<lparr>d_redo := stack_clear (d_redo d)\<rparr>)"

definition clear_history :: "'b env \<Rightarrow> 'b world \<Rightarrow> doc \<Rightarrow> 'b world \<times> doc" where
  "clear_history env w d = (let (w, d) = clear_undo env w d in clear_redo env w d)"

definition drain_undo :: "'b env \<Rightarrow> nat \<Rightarrow> 'b world \<Rightarrow> doc \<Rightarrow> 'b world \<times> doc" where
  "drain_undo env n w d =
     (drop_entries env w (take n (st_entries (d_undo d))), d\<lparr>d_undo := stack_drain n (d_undo d)\<rparr>)"

definition drain_redo :: "'b env \<Rightarrow> nat \<Rightarrow> 'b world \<Rightarrow> doc \<Rightarrow> 'b world \<times> doc" where
  "drain_redo env n w d =
     (drop_entries env w (take n (st_entries (d_redo d))), d\<lparr>d_redo := stack_drain n (d_redo d)\<rparr>)"

definition trim_history :: "'b env \<Rightarrow> 'b world \<Rightarrow> doc \<Rightarrow> 'b world \<times> doc" where
  "trim_history env w d =
     (let (w, d) = drain_undo env (length (st_entries (d_undo d)) - max_changes (d_policy d)) w d
      in drain_redo env
           (length (st_entries (d_redo d)) - (max_changes (d_policy d) - length (st_entries (d_undo d)))) w d)"

definition set_history_policy :: "'b env \<Rightarrow> history_policy \<Rightarrow> 'b world \<Rightarrow> doc \<Rightarrow> 'b world \<times> doc" where
  "set_history_policy env policy w d = trim_history env w (d\<lparr>d_policy := policy\<rparr>)"

section \<open>Room for a mutation\<close>

fun retained_loop :: "(piece \<Rightarrow> nat) \<Rightarrow> bool \<Rightarrow> nat \<Rightarrow> nat \<Rightarrow> owned_edit list \<Rightarrow> nat" where
  "retained_loop strong undone enough found [] = found"
| "retained_loop strong undone enough found (e # es) =
     (if found \<ge> enough then found
      else
        let root = (if undone then oe_inserted e else oe_inverse e)
        in retained_loop strong undone enough
             (sat_add found (exclusive_text strong root (enough - found))) es)"

definition retained_text :: "(piece \<Rightarrow> nat) \<Rightarrow> entry \<Rightarrow> bool \<Rightarrow> nat \<Rightarrow> nat" where
  "retained_text strong e undone enough = retained_loop strong undone enough 0 (en_edits e)"

definition text_need :: "sizes \<Rightarrow> transaction \<Rightarrow> nat" where
  "text_need sz tr =
     sat_add
       (sat_add (fold (\<lambda>e n. sat_add n (length (ed_insert e))) (tr_edits tr) 0)
          (sat_mul (length (tr_edits tr)) (sz_compact sz)))
       (sz_change sz)"

definition entry_charge :: "sizes \<Rightarrow> doc \<Rightarrow> owned_edit list \<Rightarrow> nat" where
  "entry_charge sz d edits =
     (let nodes = sat_add (sat_mul (tree_height (sn_root (d_current d))) 3)
                    (sat_mul (length edits) NODES_PER_EDIT)
      in sat_add (sat_mul nodes (sz_node sz)) (sat_mul (length edits) (sz_owned_edit sz)))"

definition edit_demand :: "sizes \<Rightarrow> doc \<Rightarrow> prepared \<Rightarrow> nat \<Rightarrow> demand" where
  "edit_demand sz d p selections =
     DemandEdit (sat_add (entry_charge sz d (en_edits (pr_entry p)))
                   (sat_mul selections (sz_selection sz)))"

text \<open>A failed second claim gives the first one back.\<close>

definition charge :: "'b env \<Rightarrow> 'b world \<Rightarrow> doc \<Rightarrow> prepared \<Rightarrow> nat \<Rightarrow> (prepared \<times> 'b world) res" where
  "charge env w d p selections =
     (let sz = e_sizes env; n = sat_mul selections (sz_selection sz);
          structure = entry_charge sz d (en_edits (pr_entry p)) in
      and_then
        (if selections > 0 then and_then (claim (w_history w) n) (\<lambda>b. Inr (charge_add charge_empty n, b))
         else Inr (charge_empty, w_history w))
        (\<lambda>(reservation, b).
      and_then (claim b structure) (\<lambda>b.
        Inr (p\<lparr>pr_entry := (pr_entry p)\<lparr>en_undo_reservation := reservation,
                             en_structure := Some (structure, 1)\<rparr>,
               pr_tracked := True\<rparr>,
             w\<lparr>w_history := b\<rparr>))))"

abbreviation growth :: "'b env \<Rightarrow> 'a stack \<Rightarrow> nat" where
  "growth env s \<equiv> growth_bytes (sz_slot (e_sizes env)) s 1"

fun history_need :: "'b env \<Rightarrow> doc \<Rightarrow> demand \<Rightarrow> nat" where
  "history_need env d (DemandEdit history) = sat_add history (growth env (d_undo d))"
| "history_need env d DemandUndo = growth env (d_redo d)"
| "history_need env d DemandRedo = growth env (d_undo d)"
| "history_need env d (DemandText _) = 0"

fun metered_available :: "'b env \<Rightarrow> 'b world \<Rightarrow> demand \<Rightarrow> nat" where
  "metered_available env w (DemandText _) = e_available env (w_bytes w)"
| "metered_available env w _ = available (w_history w)"

definition shortfall :: "'b env \<Rightarrow> 'b world \<Rightarrow> doc \<Rightarrow> demand \<Rightarrow> nat" where
  "shortfall env w d demand =
     (case demand of
        DemandText bytes \<Rightarrow> bytes - e_available env (w_bytes w)
      | _ \<Rightarrow> history_need env d demand - available (w_history w))"

definition lacks_room :: "'b env \<Rightarrow> 'b world \<Rightarrow> doc \<Rightarrow> demand \<Rightarrow> bool" where
  "lacks_room env w d demand \<longleftrightarrow> shortfall env w d demand > 0"

text \<open>The entries eviction may drop, oldest first, with the flag of the redo side.\<close>

definition evictable_entries :: "doc \<Rightarrow> nat \<times> nat \<Rightarrow> (entry \<times> bool) list" where
  "evictable_entries d kp =
     map (\<lambda>e. (e, False)) (take (length (st_entries (d_undo d)) - fst kp) (st_entries (d_undo d))) @
     map (\<lambda>e. (e, True)) (take (length (st_entries (d_redo d)) - snd kp) (st_entries (d_redo d)))"

fun freeable_text_loop :: "(piece \<Rightarrow> nat) \<Rightarrow> nat \<Rightarrow> nat \<Rightarrow> (entry \<times> bool) list \<Rightarrow> nat" where
  "freeable_text_loop strong enough n [] = n"
| "freeable_text_loop strong enough n ((e, undone) # es) =
     (if n \<ge> enough then n
      else freeable_text_loop strong enough (sat_add n (retained_text strong e undone (enough - n))) es)"

definition freeable_text :: "'b env \<Rightarrow> 'b world \<Rightarrow> doc \<Rightarrow> nat \<times> nat \<Rightarrow> nat \<Rightarrow> nat" where
  "freeable_text env w d kp enough =
     freeable_text_loop (e_strong env (w_bytes w)) enough 0 (evictable_entries d kp)"

fun freeable_history_loop :: "nat \<Rightarrow> nat \<Rightarrow> entry list \<Rightarrow> nat" where
  "freeable_history_loop enough n [] = n"
| "freeable_history_loop enough n (e # es) =
     (if n \<ge> enough then n
      else
        freeable_history_loop enough
          (sat_add (sat_add n (charge_exclusive (en_undo_reservation e)))
             (structure_exclusive (en_structure e))) es)"

definition freeable_history :: "doc \<Rightarrow> nat \<times> nat \<Rightarrow> nat \<Rightarrow> nat" where
  "freeable_history d kp enough = freeable_history_loop enough 0 (map fst (evictable_entries d kp))"

definition freeable :: "'b env \<Rightarrow> 'b world \<Rightarrow> doc \<Rightarrow> demand \<Rightarrow> nat \<times> nat \<Rightarrow> nat \<Rightarrow> nat" where
  "freeable env w d demand kp enough =
     (case demand of DemandText _ \<Rightarrow> freeable_text env w d kp enough | _ \<Rightarrow> freeable_history d kp enough)"

definition relief_bound :: "'b env \<Rightarrow> 'b world \<Rightarrow> doc \<Rightarrow> demand \<Rightarrow> nat" where
  "relief_bound env w d demand =
     (case demand of DemandText _ \<Rightarrow> shortfall env w d demand | _ \<Rightarrow> usize_max)"

definition growth_unless_evictable :: "'b env \<Rightarrow> entry stack \<Rightarrow> nat \<Rightarrow> nat" where
  "growth_unless_evictable env s kp = (if length (st_entries s) > kp then 0 else growth env s)"

definition relief_missing :: "'b env \<Rightarrow> 'b world \<Rightarrow> doc \<Rightarrow> demand \<Rightarrow> nat" where
  "relief_missing env w d demand =
     (let (keep_undo, keep_redo) = keep demand;
          floor = (case demand of
              DemandEdit history \<Rightarrow> sat_add history (growth_unless_evictable env (d_undo d) keep_undo)
            | DemandUndo \<Rightarrow> growth_unless_evictable env (d_redo d) keep_redo
            | DemandRedo \<Rightarrow> growth_unless_evictable env (d_undo d) keep_undo
            | DemandText bytes \<Rightarrow> bytes);
          missing = floor - metered_available env w demand
      in missing - freeable env w d demand (keep demand) missing)"

section \<open>Eviction\<close>

definition evictable :: "doc \<Rightarrow> nat \<times> nat \<Rightarrow> nat option \<times> nat option" where
  "evictable d kp =
     (let first = (\<lambda>s k. if length (st_entries s) > k then Some (en_sequence (hd (st_entries s))) else None)
      in (first (d_undo d) (fst kp), first (d_redo d) (snd kp)))"

definition oldest_history :: "doc \<Rightarrow> nat \<times> nat \<Rightarrow> nat option" where
  "oldest_history d kp =
     (case evictable d kp of
        (Some u, Some r) \<Rightarrow> Some (min u r)
      | (Some u, None) \<Rightarrow> Some u
      | (None, r) \<Rightarrow> r)"

definition evict_oldest_entry ::
  "'b env \<Rightarrow> 'b world \<Rightarrow> doc \<Rightarrow> nat \<times> nat \<Rightarrow> bool \<Rightarrow> (nat \<times> 'b world \<times> doc) option"
where
  "evict_oldest_entry env w d kp by_text =
     (case
        (case evictable d kp of
           (Some undo, Some redo) \<Rightarrow> Some (redo < undo)
         | (Some _, None) \<Rightarrow> Some False
         | (None, Some _) \<Rightarrow> Some True
         | (None, None) \<Rightarrow> None)
      of None \<Rightarrow> None
      | Some from_redo \<Rightarrow>
          let s = (if from_redo then d_redo d else d_undo d);
              released =
                (if by_text then retained_text (e_strong env (w_bytes w)) (hd (st_entries s)) from_redo usize_max
                 else 0)
          in Some (released, if from_redo then drain_redo env 1 w d else drain_undo env 1 w d))"

definition evict_oldest_history :: "'b env \<Rightarrow> 'b world \<Rightarrow> doc \<Rightarrow> nat \<times> nat \<Rightarrow> ('b world \<times> doc) option" where
  "evict_oldest_history env w d kp = map_option snd (evict_oldest_entry env w d kp False)"

definition history_size :: "doc \<Rightarrow> nat" where
  "history_size d = length (st_entries (d_undo d)) + length (st_entries (d_redo d))"

lemma evict_oldest_entry_size:
  "evict_oldest_entry env w d kp t = Some (n, w', d') \<Longrightarrow> history_size d' < history_size d"
  by (auto simp: evict_oldest_entry_def evictable_def history_size_def drain_undo_def drain_redo_def
      stack_drain_def Let_def split: option.splits if_splits prod.splits)

lemma evict_oldest_history_size:
  "evict_oldest_history env w d kp = Some (w', d') \<Longrightarrow> history_size d' < history_size d"
  by (auto simp: evict_oldest_history_def dest: evict_oldest_entry_size)

function relieve_redo_loop :: "'b env \<Rightarrow> demand \<Rightarrow> bool \<Rightarrow> 'b world \<Rightarrow> doc \<Rightarrow> nat \<Rightarrow> nat \<times> 'b world \<times> doc" where
  "relieve_redo_loop env demand by_text w d released =
     (if lacks_room env w d demand \<and> st_entries (d_redo d) \<noteq> [] then
        let released =
              (if by_text then
                 sat_add released
                   (retained_text (e_strong env (w_bytes w)) (hd (st_entries (d_redo d))) True usize_max)
               else released);
            (w', d') = drain_redo env 1 w d
        in relieve_redo_loop env demand by_text w' d' released
      else (released, w, d))"
  by pat_completeness auto
termination
  by (relation "measure (\<lambda>(_, _, _, _, d, _). length (st_entries (d_redo d)))")
     (auto simp: drain_redo_def stack_drain_def)

declare relieve_redo_loop.simps [simp del]

definition is_text :: "demand \<Rightarrow> bool" where
  "is_text demand = (case demand of DemandText _ \<Rightarrow> True | _ \<Rightarrow> False)"

definition relieve_redo :: "'b env \<Rightarrow> demand \<Rightarrow> 'b world \<Rightarrow> doc \<Rightarrow> nat \<times> 'b world \<times> doc" where
  "relieve_redo env demand w d =
     (case demand of
        DemandEdit _ \<Rightarrow> relieve_redo_loop env demand False w d 0
      | DemandText _ \<Rightarrow> relieve_redo_loop env demand True w d 0
      | _ \<Rightarrow> (0, w, d))"

function relieve_loop :: "'b env \<Rightarrow> demand \<Rightarrow> 'b world \<Rightarrow> doc \<Rightarrow> nat \<Rightarrow> 'b world \<times> doc" where
  "relieve_loop env demand w d uncovered =
     (if lacks_room env w d demand \<and> uncovered > 0 then
        (case evict_oldest_entry env w d (keep demand) (is_text demand) of
           None \<Rightarrow> (w, d)
         | Some (released, w', d') \<Rightarrow> relieve_loop env demand w' d' (uncovered - released))
      else (w, d))"
  by pat_completeness auto
termination
  by (relation "measure (\<lambda>(_, _, _, d, _). history_size d)") (auto dest: evict_oldest_entry_size)

declare relieve_loop.simps [simp del]

definition relieve_history :: "'b env \<Rightarrow> demand \<Rightarrow> 'b world \<Rightarrow> doc \<Rightarrow> 'b world \<times> doc" where
  "relieve_history env demand w d =
     (if \<not> lacks_room env w d demand \<or> relief_missing env w d demand > 0 then (w, d)
      else
        let uncovered = relief_bound env w d demand;
            (released, w, d) = relieve_redo env demand w d
        in relieve_loop env demand w d (uncovered - released))"

text \<open>The closure \<open>relieve\<close> of an operation: it may evict history, of this or another document.\<close>

type_synonym 'b relief = "demand \<Rightarrow> 'b world \<Rightarrow> doc \<Rightarrow> 'b world \<times> doc"

definition reserve_undo :: "'b env \<Rightarrow> 'b world \<Rightarrow> doc \<Rightarrow> ('b world \<times> doc) res" where
  "reserve_undo env w d =
     and_then (try_reserve (sz_slot (e_sizes env)) (e_grow env) (w_history w) (d_undo d) 1)
       (\<lambda>(s, b). Inr (w\<lparr>w_history := b\<rparr>, d\<lparr>d_undo := s\<rparr>))"

definition reserve_redo :: "'b env \<Rightarrow> 'b world \<Rightarrow> doc \<Rightarrow> ('b world \<times> doc) res" where
  "reserve_redo env w d =
     and_then (try_reserve (sz_slot (e_sizes env)) (e_grow env) (w_history w) (d_redo d) 1)
       (\<lambda>(s, b). Inr (w\<lparr>w_history := b\<rparr>, d\<lparr>d_redo := s\<rparr>))"

text \<open>
  \<open>admit\<close>: the slot and the charge together; relief runs up to \<open>RELIEF_PASSES\<close> times before the
  document's own oldest entries give way one by one.
\<close>

function admit_loop :: "'b env \<Rightarrow> 'b relief \<Rightarrow> demand \<Rightarrow> nat \<Rightarrow> nat \<Rightarrow> prepared \<Rightarrow> 'b world \<Rightarrow> doc \<Rightarrow>
    prepared \<times> 'b world \<times> doc" where
  "admit_loop env relieve demand selections passes p w d =
     (let (slot, w1, d1) =
            (case reserve_undo env w d of Inl _ \<Rightarrow> (False, w, d) | Inr (w1, d1) \<Rightarrow> (True, w1, d1));
          charged = (if slot then charge env w1 d1 p selections else Inl BudgetExceeded)
      in case charged of
          Inr (p', w2) \<Rightarrow> (p', w2, d1)
        | Inl _ \<Rightarrow>
            if passes < RELIEF_PASSES then
              let (w2, d2) = relieve demand w1 d1
              in admit_loop env relieve demand selections (passes + 1) p w2 d2
            else
              (case evict_oldest_history env w1 d1 (0, 0) of
                 None \<Rightarrow> (p, w1, d1)
               | Some (w2, d2) \<Rightarrow> admit_loop env relieve demand selections passes p w2 d2))"
  by pat_completeness auto

lemma try_reserve_entries:
  "try_reserve slot grow b s n = Inr (s', b') \<Longrightarrow> st_entries s' = st_entries s"
  by (auto simp: try_reserve_def and_then_Inr_iff Let_def split: if_splits)

lemma reserve_undo_entries:
  "reserve_undo env w d = Inr (w', d') \<Longrightarrow>
     d' = d\<lparr>d_undo := d_undo d'\<rparr> \<and> st_entries (d_undo d') = st_entries (d_undo d)"
  by (auto simp: reserve_undo_def and_then_Inr_iff dest: try_reserve_entries)

lemma reserve_redo_entries:
  "reserve_redo env w d = Inr (w', d') \<Longrightarrow>
     d' = d\<lparr>d_redo := d_redo d'\<rparr> \<and> st_entries (d_redo d') = st_entries (d_redo d)"
  by (auto simp: reserve_redo_def and_then_Inr_iff dest: try_reserve_entries)

lemma reserve_undo_size: "reserve_undo env w d = Inr (w', d') \<Longrightarrow> history_size d' = history_size d"
  by (auto simp: reserve_undo_def and_then_Inr_iff history_size_def dest: try_reserve_entries)

termination admit_loop
proof (relation "measures [\<lambda>(_, _, _, _, passes, _, _, _). RELIEF_PASSES - passes,
    \<lambda>(_, _, _, _, _, _, _, d). history_size d]", goal_cases)
  case 1
  then show ?case by simp
next
  case 2
  then show ?case by auto
next
  case 3
  then show ?case
    by (fastforce dest: evict_oldest_history_size reserve_undo_size split: sum.splits)
qed

declare admit_loop.simps [simp del]

definition admit :: "'b env \<Rightarrow> 'b relief \<Rightarrow> prepared \<Rightarrow> nat \<Rightarrow> 'b world \<Rightarrow> doc \<Rightarrow> prepared \<times> 'b world \<times> doc" where
  "admit env relieve p selections w d =
     (let demand = edit_demand (e_sizes env) d p selections;
          (w, d) = relieve demand w d
      in admit_loop env relieve demand selections 1 p w d)"

section \<open>Validating and staging a transaction\<close>

fun check_edits :: "snapshot \<Rightarrow> edit option \<Rightarrow> edit list \<Rightarrow> unit res" where
  "check_edits s previous [] = Inr ()"
| "check_edits s previous (e # es) =
     and_then (validate_range s (ed_start e) (ed_end e)) (\<lambda>_.
       if (case previous of None \<Rightarrow> False
           | Some p \<Rightarrow> ed_end p > ed_start e \<or> ed_start p = ed_start e)
       then Inl OverlappingEdits
       else check_edits s (Some e) es)"

definition check_transaction :: "doc \<Rightarrow> transaction \<Rightarrow> transaction res" where
  "check_transaction d tr =
     (if tr_base tr \<noteq> sn_revision (d_current d) then Inl StaleRevision
      else if tr_edits tr = [] then Inl EmptyTransaction
      else
        let edits = sort_key (\<lambda>e. (ed_start e, ed_end e)) (tr_edits tr) in
        and_then (check_edits (d_current d) None edits) (\<lambda>_.
        and_then (next_revision d) (\<lambda>_. Inr (tr\<lparr>tr_edits := edits\<rparr>))))"

definition coalesce_step :: "root \<Rightarrow> edit list \<Rightarrow> edit \<Rightarrow> edit list res" where
  "coalesce_step root output e =
     (if output = [] then Inr [e]
      else
        let l = last output; gap = ed_start e - ed_end l in
        if gap \<le> COALESCE_GAP \<and>
           length (ed_insert l) + gap + length (ed_insert e) \<le> COALESCE_BYTES then
          and_then (chunks_text root (ed_end l) (ed_start e)) (\<lambda>t.
            Inr (if length t = gap then
                   butlast output @
                     [l\<lparr>ed_insert := ed_insert l @ t @ ed_insert e, ed_end := ed_end e\<rparr>]
                 else output @ [e]))
        else Inr (output @ [e]))"

fun coalesce_loop :: "root \<Rightarrow> edit list \<Rightarrow> edit list \<Rightarrow> edit list res" where
  "coalesce_loop root output [] = Inr output"
| "coalesce_loop root output (e # es) =
     and_then (coalesce_step root output e) (\<lambda>output. coalesce_loop root output es)"

definition coalesce :: "doc \<Rightarrow> edit list \<Rightarrow> edit list res" where
  "coalesce d edits = coalesce_loop (sn_root (d_current d)) [] edits"

fun stage_inserts :: "'b meter \<Rightarrow> 'b \<Rightarrow> edit list \<Rightarrow> (root list \<times> 'b) res" where
  "stage_inserts mt b [] = Inr ([], b)"
| "stage_inserts mt b (e # es) =
     and_then (from_inserted_text mt b (ed_insert e)) (\<lambda>(i, b).
     and_then (stage_inserts mt b es) (\<lambda>(is, b). Inr (i # is, b)))"

fun stage_edits :: "root \<Rightarrow> nat \<Rightarrow> nat \<Rightarrow> (edit \<times> root) list \<Rightarrow> owned_edit list res" where
  "stage_edits root before_cursor after_cursor [] = Inr []"
| "stage_edits root before_cursor after_cursor ((e, inserted) # es) =
     and_then (ok_or Panicked (checked_sub (ed_start e) before_cursor)) (\<lambda>gap.
     and_then (ok_or BudgetExceeded (checked_add after_cursor gap)) (\<lambda>start.
     and_then (ok_or BudgetExceeded (checked_add start (length (ed_insert e)))) (\<lambda>stop.
     and_then (tree_slice root (ed_start e) (ed_end e)) (\<lambda>inverse.
     and_then (stage_edits root (ed_end e) stop es) (\<lambda>owned.
       Inr (\<lparr>oe_before = (ed_start e, ed_end e), oe_after = (start, stop),
             oe_inverse = inverse, oe_inserted = inserted\<rparr> # owned))))))"

text \<open>The edits are applied right to left: the list is the reversed zip.\<close>

fun stage_root :: "'b meter \<Rightarrow> bool \<Rightarrow> 'b \<Rightarrow> root \<Rightarrow> (edit \<times> root) list \<Rightarrow> (root \<times> 'b) res" where
  "stage_root mt single b root [] = Inr (root, b)"
| "stage_root mt single b root ((e, inserted) # es) =
     and_then (tree_split root (ed_end e)) (\<lambda>(left_and_deleted, right).
     and_then (tree_split left_and_deleted (ed_start e)) (\<lambda>(left, _).
     and_then
       (if single \<and> ed_end e \<le> ed_start e then concat_coalesced mt b left inserted TYPED_LEAF_BYTES
        else and_then (tree_concat left inserted) (\<lambda>r. Inr (r, b))) (\<lambda>(left, b).
     and_then (tree_concat left right) (\<lambda>root. stage_root mt single b root es))))"

definition stage :: "'b env \<Rightarrow> 'b world \<Rightarrow> doc \<Rightarrow> transaction \<Rightarrow> (prepared \<times> 'b world) res" where
  "stage env w d tr =
     (let cur = d_current d; mt = e_meter env in
      and_then (check_transaction d tr) (\<lambda>tr.
      and_then (next_revision d) (\<lambda>revision.
      and_then (if length (tr_edits tr) > PIECEWISE_EDITS then coalesce d (tr_edits tr)
                else Inr (tr_edits tr)) (\<lambda>edits.
      and_then (stage_inserts mt (w_bytes w) edits) (\<lambda>(inserts, b).
      and_then (stage_edits (sn_root cur) 0 0 (zip edits inserts)) (\<lambda>owned_edits.
      and_then (stage_root mt (length edits = 1) b (sn_root cur) (rev (zip edits inserts)))
        (\<lambda>(root, b).
      let (state, w) = unique w in
      and_then (change_owned mt (e_sizes env) b (sn_id cur) (sn_revision cur) revision (sn_state cur)
                  state DirEdit owned_edits) (\<lambda>(change, b).
      let (sequence, w) = unique w in
        Inr (\<lparr>pr_change = change, pr_document = sn_id cur, pr_base = sn_revision cur,
              pr_revision = revision,
              pr_entry =
                \<lparr>en_before_metadata = sn_metadata cur, en_after_metadata = sn_metadata cur,
                 en_before = sn_root cur, en_after = root, en_before_state = sn_state cur,
                 en_after_state = state, en_undo_reservation = charge_empty, en_structure = None,
                 en_sequence = sequence, en_edits = owned_edits, en_group = None,
                 en_metadata = edit_metadata_default, en_typing_insert = False\<rparr>,
              pr_tracked = False\<rparr>, w\<lparr>w_bytes := b\<rparr>)))))))))"

definition prepare :: "'b env \<Rightarrow> 'b world \<Rightarrow> doc \<Rightarrow> transaction \<Rightarrow> (prepared \<times> 'b world) res" where
  "prepare env w d tr = and_then (stage env w d tr) (\<lambda>(p, w). charge env w d p 0)"

section \<open>Committing\<close>

definition validate_prepared :: "doc \<Rightarrow> prepared \<Rightarrow> unit res" where
  "validate_prepared d p =
     (if pr_document p \<noteq> sn_id (d_current d) then Inl WrongDocument
      else if pr_base p \<noteq> sn_revision (d_current d) then Inl StaleRevision
      else Inr ())"

definition merges :: "doc \<Rightarrow> entry \<Rightarrow> bool" where
  "merges d e =
     (case stack_last (d_undo d) of None \<Rightarrow> False
      | Some l \<Rightarrow>
          en_group l = None \<and> en_group e = None \<and> en_typing_insert l \<and> en_typing_insert e \<and>
          en_after_state l = en_before_state e \<and> en_after_state l \<noteq> d_saved d \<and>
          follows (en_metadata e) (en_metadata l) (typing_interval_ms (d_policy d)))"

text \<open>The entry that covers the previous one and the new edit; indexing an empty list panics.\<close>

definition merge_entry :: "'b env \<Rightarrow> 'b \<Rightarrow> entry \<Rightarrow> entry \<Rightarrow> (entry \<times> 'b) res" where
  "merge_entry env b l e =
     (case (en_edits l, en_edits e) of
        (le # les, ne # _) \<Rightarrow>
          and_then
            (concat_coalesced (e_meter env) b (oe_inserted le) (oe_inserted ne) TYPED_LEAF_BYTES)
            (\<lambda>(inserted, b).
              Inr (l\<lparr>en_after := en_after e, en_after_state := en_after_state e,
                     en_metadata := (en_metadata l)\<lparr>em_after := em_after (en_metadata e),
                                       em_monotonic_ms := em_monotonic_ms (en_metadata e)\<rparr>,
                     en_edits := le\<lparr>oe_inserted := inserted,
                                    oe_after := (fst (oe_after le), snd (oe_after ne))\<rparr> # les,
                     en_undo_reservation := en_undo_reservation e, en_structure := en_structure e\<rparr>, b))
      | _ \<Rightarrow> Inl Panicked)"

text \<open>What a merge drops: the charges of the old entry and the intermediate trees.\<close>

definition drop_merged :: "'b env \<Rightarrow> 'b world \<Rightarrow> entry \<Rightarrow> entry \<Rightarrow> 'b world" where
  "drop_merged env w l e =
     w\<lparr>w_history := release (release (w_history w) (charge_exclusive (en_undo_reservation l)))
                     (structure_exclusive (en_structure l)),
       w_bytes := e_dropped env (w_bytes w) ([en_after l, en_before e] @ map oe_inserted (en_edits l @ en_edits e))\<rparr>"

definition commit_unchecked :: "'b env \<Rightarrow> 'b world \<Rightarrow> doc \<Rightarrow> prepared \<Rightarrow> ('b world \<times> doc) res" where
  "commit_unchecked env w d p =
     (let e = pr_entry p;
          (w, d) = clear_redo env w d;
          d = d\<lparr>d_current := (d_current d)\<lparr>sn_change := Some (pr_change p), sn_root := en_after e,
                  sn_state := en_after_state e, sn_revision := pr_revision p\<rparr>,
                d_last_untracked := \<not> pr_tracked p\<rparr>
      in
      if \<not> pr_tracked p then
        let (w, d) = clear_undo env w d
        in Inr (drop_entry env w e, d\<lparr>d_last_merged := False\<rparr>)
      else if merges d e then
        (case stack_last (d_undo d) of None \<Rightarrow> Inl Panicked
         | Some l \<Rightarrow>
            and_then (merge_entry env (w_bytes w) l e) (\<lambda>(l', b).
              Inr (trim_history env (drop_merged env (w\<lparr>w_bytes := b\<rparr>) l e)
                (d\<lparr>d_undo := (d_undo d)\<lparr>st_entries := butlast (st_entries (d_undo d)) @ [l']\<rparr>,
                   d_last_merged := True\<rparr>))))
      else
        Inr (trim_history env w (d\<lparr>d_undo := stack_push (d_undo d) e, d_last_merged := False\<rparr>)))"

text \<open>Dropping a prepared edit that is not committed: its receipt and its entry.\<close>

definition drop_prepared :: "'b env \<Rightarrow> 'b world \<Rightarrow> prepared \<Rightarrow> 'b world" where
  "drop_prepared env w p =
     drop_entry env
       (w\<lparr>w_bytes := e_released env (w_bytes w) (charged_bytes (e_sizes env) (pr_change p))\<rparr>)
       (pr_entry p)"

text \<open>
  The result of an operation on a document: its value or error, and the state in either case.
\<close>

type_synonym ('a, 'b) outcome = "'a res \<times> 'b world \<times> doc"

definition finish :: "'b world \<Rightarrow> doc \<Rightarrow> ('b world \<times> doc) res \<Rightarrow> (nat, 'b) outcome" where
  "finish w d r =
     (case r of Inl e \<Rightarrow> (Inl e, w, d) | Inr (w', d') \<Rightarrow> (Inr (sn_revision (d_current d')), w', d'))"

definition commit_prepared :: "'b env \<Rightarrow> 'b world \<Rightarrow> doc \<Rightarrow> prepared \<Rightarrow> (nat, 'b) outcome" where
  "commit_prepared env w d p =
     (case validate_prepared d p of
        Inl e \<Rightarrow> (Inl e, drop_prepared env w p, d)
      | Inr _ \<Rightarrow>
          if \<not> pr_tracked p then (Inl BudgetExceeded, drop_prepared env w p, d)
          else
            (case reserve_undo env w d of
               Inl _ \<Rightarrow> (Inl BudgetExceeded, drop_prepared env w p, d)
             | Inr (w, d) \<Rightarrow> finish w d (commit_unchecked env w d p)))"

section \<open>Applying\<close>

definition typing_insert :: "transaction \<Rightarrow> edit_metadata \<Rightarrow> bool" where
  "typing_insert tr m =
     (case (tr_edits tr, em_before m, em_after m) of
        ([e], [b], [a]) \<Rightarrow>
          ed_end e \<le> ed_start e \<and> ed_insert e \<noteq> [] \<and>
          sel_anchor b = sel_caret b \<and> sel_caret b = ed_start e \<and>
          sel_anchor a = sel_caret a \<and> sel_caret a = sat_add (ed_start e) (length (ed_insert e))
      | _ \<Rightarrow> False)"

definition before_boundaries :: "doc \<Rightarrow> edit_metadata \<Rightarrow> bool" where
  "before_boundaries d m \<longleftrightarrow>
     (\<forall>s\<in>set (em_before m). is_boundary (d_current d) (sel_anchor s) \<and> is_boundary (d_current d) (sel_caret s))"

definition relieve_text ::
  "'b env \<Rightarrow> 'b relief \<Rightarrow> transaction \<Rightarrow> edit_metadata option \<Rightarrow> 'b world \<Rightarrow> doc \<Rightarrow>
   (transaction, 'b) outcome"
where
  "relieve_text env relieve tr metadata w d =
     (let demand = DemandText (text_need (e_sizes env) tr) in
      if \<not> lacks_room env w d demand then (Inr tr, w, d)
      else
        (case and_then (check_transaction d tr) (\<lambda>tr.
          case metadata of
            None \<Rightarrow> Inr tr
          | Some m \<Rightarrow>
              let removed = fold (\<lambda>e n. sat_add n (ed_end e - ed_start e)) (tr_edits tr) 0;
                  inserted = fold (\<lambda>e n. sat_add n (length (ed_insert e))) (tr_edits tr) 0;
                  len = snapshot_len (d_current d);
                  after_len = sat_add (len - removed) inserted
              in
              and_then (validate m len after_len) (\<lambda>_.
                if \<not> before_boundaries d m then Inl InvalidBoundary else Inr tr)) of
          Inl e \<Rightarrow> (Inl e, w, d)
        | Inr tr \<Rightarrow> (let (w, d) = relieve demand w d in (Inr tr, w, d))))"

definition check_selections :: "doc \<Rightarrow> prepared \<Rightarrow> edit_metadata \<Rightarrow> unit res" where
  "check_selections d p m =
     and_then (validate m (snapshot_len (d_current d)) (sm_bytes (tree_summary (en_after (pr_entry p)))))
       (\<lambda>_.
        if \<not> before_boundaries d m then Inl InvalidBoundary
        else if (\<exists>s\<in>set (em_after m). \<not> tree_boundary (en_after (pr_entry p)) (sel_anchor s) \<or>
                  \<not> tree_boundary (en_after (pr_entry p)) (sel_caret s))
        then Inl InvalidBoundary
        else Inr ())"

definition finish_apply :: "'b env \<Rightarrow> prepared \<Rightarrow> 'b world \<Rightarrow> doc \<Rightarrow> (nat, 'b) outcome" where
  "finish_apply env p w d =
     (case validate_prepared d p of
        Inl e \<Rightarrow> (Inl e, drop_prepared env w p, d)
      | Inr _ \<Rightarrow> finish w d (commit_unchecked env w d p))"

definition apply_relieved ::
  "'b env \<Rightarrow> 'b relief \<Rightarrow> transaction \<Rightarrow> edit_metadata option \<Rightarrow> 'b world \<Rightarrow> doc \<Rightarrow> (nat, 'b) outcome"
where
  "apply_relieved env relieve tr metadata w d =
     (case metadata of
        None \<Rightarrow>
          if tr_base tr \<noteq> sn_revision (d_current d) then (Inl StaleRevision, w, d)
          else if tr_edits tr = [] then (Inr (sn_revision (d_current d)), w, d)
          else
            (case relieve_text env relieve tr None w d of
               (Inl e, w, d) \<Rightarrow> (Inl e, w, d)
             | (Inr tr, w, d) \<Rightarrow>
                 (case stage env w d tr of
                    Inl e \<Rightarrow> (Inl e, w, d)
                  | Inr (p, w) \<Rightarrow>
                      (let (p, w, d) = admit env relieve p 0 w d in finish_apply env p w d)))
      | Some m \<Rightarrow>
          let typing = typing_insert tr m;
              selections = sat_add (length (em_before m)) (length (em_after m))
          in
          (case relieve_text env relieve tr (Some m) w d of
             (Inl e, w, d) \<Rightarrow> (Inl e, w, d)
           | (Inr tr, w, d) \<Rightarrow>
               (case stage env w d tr of
                  Inl e \<Rightarrow> (Inl e, w, d)
                | Inr (p, w') \<Rightarrow>
                    (case check_selections d p m of
                       Inl e \<Rightarrow> (Inl e, w, d)
                     | Inr _ \<Rightarrow>
                         (let (p, w, d) = admit env relieve p selections w' d;
                              p = p\<lparr>pr_entry := (pr_entry p)\<lparr>en_metadata := m, en_typing_insert := typing\<rparr>\<rparr>
                          in finish_apply env p w d)))))"

definition apply_transaction :: "'b env \<Rightarrow> transaction \<Rightarrow> 'b world \<Rightarrow> doc \<Rightarrow> (nat, 'b) outcome" where
  "apply_transaction env tr w d = apply_relieved env (relieve_history env) tr None w d"

definition apply_with_metadata ::
  "'b env \<Rightarrow> transaction \<Rightarrow> edit_metadata \<Rightarrow> 'b world \<Rightarrow> doc \<Rightarrow> (nat, 'b) outcome"
where
  "apply_with_metadata env tr m w d = apply_relieved env (relieve_history env) tr (Some m) w d"

definition apply_metadata_relieved ::
  "'b env \<Rightarrow> 'b relief \<Rightarrow> nat \<Rightarrow> doc_metadata \<Rightarrow> 'b world \<Rightarrow> doc \<Rightarrow> (nat, 'b) outcome"
where
  "apply_metadata_relieved env relieve base metadata w d =
     (let cur = d_current d in
      if base \<noteq> sn_revision cur then (Inl StaleRevision, w, d)
      else if metadata = sn_metadata cur then (Inr base, w, d)
      else
        (case and_then (next_revision d) (\<lambda>revision.
                let (state, w1) = unique w in
                and_then (change_owned (e_meter env) (e_sizes env) (w_bytes w1) (sn_id cur)
                    (sn_revision cur) revision (sn_state cur) state DirEdit [])
                  (\<lambda>(change, b). Inr (revision, state, change, w1\<lparr>w_bytes := b\<rparr>))) of
           Inl e \<Rightarrow> (Inl e, w, d)
         | Inr (revision, state, change, w) \<Rightarrow>
             (let entry_bytes = sat_add (metadata_charge metadata) 128;
                  (w, d) = relieve (DemandEdit entry_bytes) w d
              in
              (case and_then (claim (w_history w) entry_bytes) (\<lambda>b. reserve_undo env (w\<lparr>w_history := b\<rparr>) d) of
                 Inl _ \<Rightarrow>
                   (Inl BudgetExceeded,
                    w\<lparr>w_bytes := e_released env (w_bytes w) (charged_bytes (e_sizes env) change)\<rparr>, d)
               | Inr (w, d) \<Rightarrow>
                   (let (sequence, w) = unique w; cur = d_current d;
                        e = \<lparr>en_before_metadata = sn_metadata cur, en_after_metadata = metadata,
                             en_before = sn_root cur, en_after = sn_root cur,
                             en_before_state = sn_state cur, en_after_state = state,
                             en_undo_reservation = charge_new entry_bytes, en_structure = None,
                             en_sequence = sequence, en_edits = [], en_group = None,
                             en_metadata = edit_metadata_default, en_typing_insert = False\<rparr>;
                        (w, d) = clear_redo env w (d\<lparr>d_undo := stack_push (d_undo d) e\<rparr>);
                        (w, d) = trim_history env w
                          (d\<lparr>d_current := cur\<lparr>sn_change := Some change, sn_metadata := metadata,
                               sn_revision := revision, sn_state := state\<rparr>\<rparr>)
                    in (Inr revision, w, d))))))"

section \<open>Undo and redo\<close>

definition group_linked :: "'b world \<Rightarrow> entry option \<Rightarrow> bool" where
  "group_linked w e =
     (case e of None \<Rightarrow> False
      | Some e \<Rightarrow> (case en_group e of None \<Rightarrow> False | Some tag \<Rightarrow> linked w tag))"

definition untype_last :: "entry stack \<Rightarrow> entry stack" where
  "untype_last s =
     (case stack_last s of None \<Rightarrow> s
      | Some e \<Rightarrow> s\<lparr>st_entries := butlast (st_entries s) @ [e\<lparr>en_typing_insert := False\<rparr>]\<rparr>)"

definition undo_relieved :: "'b env \<Rightarrow> 'b relief \<Rightarrow> 'b world \<Rightarrow> doc \<Rightarrow> (nat, 'b) outcome" where
  "undo_relieved env relieve w d =
     (if group_linked w (stack_last (d_undo d)) then (Inl LinkedUndoRequired, w, d)
      else
        (case next_revision d of Inl e \<Rightarrow> (Inl e, w, d)
         | Inr revision \<Rightarrow>
            if st_entries (d_undo d) = [] then (Inl EmptyHistory, w, d)
            else
              (let (w, d) = relieve DemandUndo w d in
               (case reserve_redo env w d of Inl e \<Rightarrow> (Inl e, w, d)
                | Inr (w, d) \<Rightarrow>
                   (case stack_last (d_undo d) of None \<Rightarrow> (Inl EmptyHistory, w, d)
                    | Some e \<Rightarrow>
                       (let cur = d_current d in
                        (case change_owned (e_meter env) (e_sizes env) (w_bytes w) (sn_id cur)
                                (sn_revision cur) revision (sn_state cur) (en_before_state e) DirUndo
                                (en_edits e) of
                           Inl err \<Rightarrow> (Inl err, w, d)
                         | Inr (change, b) \<Rightarrow>
                             (Inr revision, w\<lparr>w_bytes := b\<rparr>,
                              d\<lparr>d_current := cur\<lparr>sn_change := Some change,
                                  sn_metadata := en_before_metadata e, sn_root := en_before e,
                                  sn_state := en_before_state e, sn_revision := revision\<rparr>,
                                d_undo := untype_last (snd (stack_pop (d_undo d))),
                                d_redo := stack_push (d_redo d) (e\<lparr>en_typing_insert := False\<rparr>)\<rparr>))))))))"

definition redo_relieved :: "'b env \<Rightarrow> 'b relief \<Rightarrow> 'b world \<Rightarrow> doc \<Rightarrow> (nat, 'b) outcome" where
  "redo_relieved env relieve w d =
     (if group_linked w (stack_last (d_redo d)) then (Inl LinkedUndoRequired, w, d)
      else
        (case next_revision d of Inl e \<Rightarrow> (Inl e, w, d)
         | Inr revision \<Rightarrow>
            if st_entries (d_redo d) = [] then (Inl EmptyHistory, w, d)
            else
              (let (w, d) = relieve DemandRedo w d in
               (case reserve_undo env w d of Inl e \<Rightarrow> (Inl e, w, d)
                | Inr (w, d) \<Rightarrow>
                   (case stack_last (d_redo d) of None \<Rightarrow> (Inl EmptyHistory, w, d)
                    | Some e \<Rightarrow>
                       (let cur = d_current d in
                        (case change_owned (e_meter env) (e_sizes env) (w_bytes w) (sn_id cur)
                                (sn_revision cur) revision (sn_state cur) (en_after_state e) DirRedo
                                (en_edits e) of
                           Inl err \<Rightarrow> (Inl err, w, d)
                         | Inr (change, b) \<Rightarrow>
                             (Inr revision, w\<lparr>w_bytes := b\<rparr>,
                              d\<lparr>d_current := cur\<lparr>sn_change := Some change,
                                  sn_metadata := en_after_metadata e, sn_root := en_after e,
                                  sn_state := en_after_state e, sn_revision := revision\<rparr>,
                                d_redo := snd (stack_pop (d_redo d)),
                                d_undo := stack_push (d_undo d) (e\<lparr>en_typing_insert := False\<rparr>)\<rparr>))))))))"

definition undo :: "'b env \<Rightarrow> 'b world \<Rightarrow> doc \<Rightarrow> (nat, 'b) outcome" where
  "undo env w d = undo_relieved env (relieve_history env) w d"

definition redo :: "'b env \<Rightarrow> 'b world \<Rightarrow> doc \<Rightarrow> (nat, 'b) outcome" where
  "redo env w d = redo_relieved env (relieve_history env) w d"

end
