(* ===== verification/Document_Text.thy ===== *)
theory Document_Text
  imports Document
begin

text \<open>
  What staging a transaction means for the text. \<open>render\<close> is the reference: one pass over the text
  that copies the gaps and replaces the ranges. The lemmas show that the sorted and validated edits
  of \<open>check_transaction\<close> are ordered, that coalescing keeps their meaning, that the tree built right
  to left by \<open>stage_root\<close> has the rendered text, and that the edit records of the history entry lead
  from the old text to the new one and back.
\<close>

section \<open>The reference\<close>

fun render :: "nat \<Rightarrow> byte list \<Rightarrow> edit list \<Rightarrow> byte list" where
  "render pos t [] = drop pos t"
| "render pos t (e # es) = sub pos (ed_start e) t @ ed_insert e @ render (ed_end e) t es"

text \<open>Edits in order, each a range between character boundaries, none overlapping the next.\<close>

fun ordered :: "nat \<Rightarrow> byte list \<Rightarrow> edit list \<Rightarrow> bool" where
  "ordered pos t [] = True"
| "ordered pos t (e # es) =
     (pos \<le> ed_start e \<and> ed_start e \<le> ed_end e \<and> char_boundary t (ed_start e) \<and>
      char_boundary t (ed_end e) \<and> ordered (ed_end e) t es)"

definition inserts_valid :: "edit list \<Rightarrow> bool" where
  "inserts_valid es \<longleftrightarrow> (\<forall>e\<in>set es. valid_utf8 (ed_insert e))"

lemma inserts_valid_simps [simp]:
  "inserts_valid []"
  "inserts_valid (e # es) \<longleftrightarrow> valid_utf8 (ed_insert e) \<and> inserts_valid es"
  "inserts_valid (es @ fs) \<longleftrightarrow> inserts_valid es \<and> inserts_valid fs"
  by (auto simp: inserts_valid_def)

lemma ordered_le: "ordered pos t es \<Longrightarrow> pos' \<le> pos \<Longrightarrow> ordered pos' t es"
  by (cases es) auto

lemma ordered_append:
  "ordered pos t (es @ fs) \<longleftrightarrow>
     ordered pos t es \<and> ordered (if es = [] then pos else ed_end (last es)) t fs"
  by (induction es arbitrary: pos) auto

lemma valid_render:
  "valid_utf8 t \<Longrightarrow> ordered pos t es \<Longrightarrow> inserts_valid es \<Longrightarrow> char_boundary t pos \<Longrightarrow>
   valid_utf8 (render pos t es)"
proof (induction es arbitrary: pos)
  case Nil
  then show ?case
    using valid_utf8_cut by auto
next
  case (Cons e es)
  then show ?case
    by (auto intro!: valid_utf8_append [THEN iffD2] simp: valid_utf8_sub valid_utf8_append)
qed

section \<open>Validation\<close>

definition good :: "snapshot \<Rightarrow> bool" where
  "good s \<longleftrightarrow> owned (sn_root s)"

definition snap_text :: "snapshot \<Rightarrow> byte list" where
  "snap_text s = text_of (sn_root s)"

lemma snapshot_len_text: "good s \<Longrightarrow> snapshot_len s = length (snap_text s)"
  by (simp add: good_def snapshot_len_def snap_text_def owned_summary)

lemma is_boundary_text: "good s \<Longrightarrow> is_boundary s k \<longleftrightarrow> char_boundary (snap_text s) k"
  by (auto simp: is_boundary_def snapshot_len_text good_def owned_boundary snap_text_def char_boundary_le
      dest: char_boundary_le)

lemma validate_range_iff:
  "good s \<Longrightarrow> validate_range s a b = Inr () \<longleftrightarrow>
     a \<le> b \<and> char_boundary (snap_text s) a \<and> char_boundary (snap_text s) b"
  by (auto simp: validate_range_def is_boundary_text snapshot_len_text dest: char_boundary_le)

lemma validate_range_errors:
  "validate_range s a b = Inl err \<Longrightarrow> err = OutOfBounds \<or> err = InvalidBoundary"
  by (auto simp: validate_range_def split: if_splits)

definition valid_step :: "byte list \<Rightarrow> edit option \<Rightarrow> edit \<Rightarrow> bool" where
  "valid_step t previous e \<longleftrightarrow>
     ed_start e \<le> ed_end e \<and> char_boundary t (ed_start e) \<and> char_boundary t (ed_end e) \<and>
     (case previous of None \<Rightarrow> True | Some p \<Rightarrow> ed_end p \<le> ed_start e \<and> ed_start p \<noteq> ed_start e)"

text \<open>Acceptance by \<open>check_edits\<close>, spelled out.\<close>

fun accepted :: "byte list \<Rightarrow> edit option \<Rightarrow> edit list \<Rightarrow> bool" where
  "accepted t previous [] = True"
| "accepted t previous (e # es) = (valid_step t previous e \<and> accepted t (Some e) es)"

lemma check_edits_iff:
  "good s \<Longrightarrow> check_edits s previous es = Inr () \<longleftrightarrow> accepted (snap_text s) previous es"
proof (induction es arbitrary: previous)
  case (Cons e es)
  then show ?case
    by (cases previous)
      (auto simp: and_then_Inr_iff validate_range_iff valid_step_def split: if_splits)
qed simp

lemma check_edits_errors:
  "check_edits s previous es = Inl err \<Longrightarrow> err \<in> {OutOfBounds, InvalidBoundary, OverlappingEdits}"
  by (induction es arbitrary: previous)
    (auto simp: and_then_Inl_iff dest: validate_range_errors split: if_splits)

lemma accepted_ordered:
  "accepted t previous es \<Longrightarrow> ordered (case previous of None \<Rightarrow> 0 | Some p \<Rightarrow> ed_end p) t es"
  by (induction es arbitrary: previous) (fastforce simp: valid_step_def split: option.splits)+

definition sorted_edits :: "transaction \<Rightarrow> edit list" where
  "sorted_edits tr = sort_key (\<lambda>e. (ed_start e, ed_end e)) (tr_edits tr)"

lemma set_sorted_edits: "set (sorted_edits tr) = set (tr_edits tr)"
  by (simp add: sorted_edits_def)

lemma length_sorted_edits: "length (sorted_edits tr) = length (tr_edits tr)"
  by (simp add: sorted_edits_def)

lemma check_transaction_ok:
  assumes "check_transaction d tr = Inr tr'" "good (d_current d)"
  shows "tr' = tr\<lparr>tr_edits := sorted_edits tr\<rparr>" "tr_base tr = sn_revision (d_current d)"
    "tr_edits tr \<noteq> []" "accepted (snap_text (d_current d)) None (sorted_edits tr)"
    "ordered 0 (snap_text (d_current d)) (sorted_edits tr)"
    "sn_revision (d_current d) + 1 \<le> usize_max"
  using assms accepted_ordered [of "snap_text (d_current d)" None "sorted_edits tr"]
  by (auto simp: check_transaction_def and_then_Inr_iff check_edits_iff sorted_edits_def
      next_revision_def ok_or_Inr_iff checked_add_Some_iff Let_def split: if_splits)

lemma check_transaction_accepts:
  assumes "good (d_current d)"
  shows "check_transaction d tr = Inr tr' \<longleftrightarrow>
    tr' = tr\<lparr>tr_edits := sorted_edits tr\<rparr> \<and> tr_base tr = sn_revision (d_current d) \<and>
    tr_edits tr \<noteq> [] \<and> accepted (snap_text (d_current d)) None (sorted_edits tr) \<and>
    sn_revision (d_current d) + 1 \<le> usize_max"
  using assms
  by (auto simp: check_transaction_def and_then_Inr_iff check_edits_iff sorted_edits_def
      next_revision_def ok_or_Inr_iff checked_add_Some_iff Let_def split: if_splits)

lemma check_transaction_errors:
  "check_transaction d tr = Inl err \<Longrightarrow>
     err \<in> {StaleRevision, EmptyTransaction, OutOfBounds, InvalidBoundary, OverlappingEdits,
       RevisionOverflow}"
  by (auto simp: check_transaction_def and_then_Inl_iff next_revision_def ok_or_Inl_iff Let_def
      dest: check_edits_errors split: if_splits)

section \<open>Coalescing\<close>

lemma render_join:
  assumes "ed_start m = ed_start l" "ed_end m = ed_end e"
    "ed_insert m = ed_insert l @ sub (ed_end l) (ed_start e) t @ ed_insert e"
  shows "render pos t (xs @ m # ys) = render pos t (xs @ l # e # ys)"
  using assms by (induction xs arbitrary: pos) auto

lemma ordered_join:
  assumes "ed_start m = ed_start l" "ed_end m = ed_end e" "ordered pos t (xs @ l # e # ys)"
  shows "ordered pos t (xs @ m # ys)"
  using assms by (induction xs arbitrary: pos) auto

lemma ordered_gap: "ordered pos t (xs @ l # e # ys) \<Longrightarrow>
    ed_end l \<le> ed_start e \<and> char_boundary t (ed_end l) \<and> char_boundary t (ed_start e)"
  by (induction xs arbitrary: pos) auto

lemma coalesce_step_ok:
  assumes "owned root" "ordered 0 (text_of root) (output @ e # es)" "inserts_valid (output @ e # es)"
  obtains out where "coalesce_step root output e = Inr out" "out \<noteq> []"
    "ordered 0 (text_of root) (out @ es)" "inserts_valid (out @ es)"
    "render 0 (text_of root) (out @ es) = render 0 (text_of root) (output @ e # es)"
proof (cases "output = []")
  case True
  with assms(2,3) that [of "[e]"] show ?thesis
    by (simp add: coalesce_step_def)
next
  case False
  let ?t = "text_of root"
  let ?l = "last output"
  let ?gap = "sub (ed_end ?l) (ed_start e) ?t"
  let ?m = "?l\<lparr>ed_insert := ed_insert ?l @ ?gap @ ed_insert e, ed_end := ed_end e\<rparr>"
  have eq: "output @ e # es = butlast output @ ?l # e # es"
    using False by (cases "output" rule: rev_cases) auto
  have ord: "ordered 0 ?t (butlast output @ ?l # e # es)"
    using assms(2) unfolding eq .
  note gap = ordered_gap [OF ord]
  have chunks: "chunks_text root (ed_end ?l) (ed_start e) = Inr ?gap"
    using gap by (intro owned_chunks assms(1)) auto
  have len: "length ?gap = ed_start e - ed_end ?l"
    using gap char_boundary_le by auto
  have push: "coalesce_step root output e = Inr (output @ [e]) \<Longrightarrow> thesis"
    using that assms(2,3) by simp
  show ?thesis
  proof (cases "ed_start e - ed_end ?l \<le> COALESCE_GAP \<and>
      length (ed_insert ?l) + (ed_start e - ed_end ?l) + length (ed_insert e) \<le> COALESCE_BYTES")
    case True
    then have step: "coalesce_step root output e = Inr (butlast output @ [?m])"
      using False chunks len by (simp add: coalesce_step_def Let_def)
    have "render 0 ?t (butlast output @ ?m # es) = render 0 ?t (butlast output @ ?l # e # es)"
      by (rule render_join) auto
    moreover have "ordered 0 ?t (butlast output @ ?m # es)"
      by (rule ordered_join [OF _ _ ord]) auto
    moreover have "valid_utf8 (ed_insert ?m)"
    proof -
      have "valid_utf8 (ed_insert ?l)" "valid_utf8 (ed_insert e)"
        using assms(3) False by (auto simp: inserts_valid_def)
      moreover have "valid_utf8 ?gap"
        using gap by (intro valid_utf8_sub owned_valid assms(1)) auto
      ultimately show ?thesis
        by (simp add: valid_utf8_append)
    qed
    moreover have "inserts_valid (butlast output @ es)"
      using assms(3) by (auto simp: inserts_valid_def dest: in_set_butlastD)
    ultimately show ?thesis
      using that [OF step] unfolding eq by simp
  next
    case False
    then have "coalesce_step root output e = Inr (output @ [e])"
      using \<open>output \<noteq> []\<close> by (auto simp: coalesce_step_def Let_def)
    then show ?thesis
      by (rule push)
  qed
qed

lemma coalesce_step_length:
  "coalesce_step root output e = Inr out \<Longrightarrow> length out \<le> length output + 1"
  by (auto simp: coalesce_step_def and_then_Inr_iff Let_def split: if_splits)

lemma coalesce_loop_length:
  "coalesce_loop root output es = Inr out \<Longrightarrow> length out \<le> length output + length es"
  by (induction es arbitrary: "output") (fastforce simp: and_then_Inr_iff dest: coalesce_step_length)+

lemma coalesce_loop_ok:
  "owned root \<Longrightarrow> ordered 0 (text_of root) (output @ es) \<Longrightarrow> inserts_valid (output @ es) \<Longrightarrow>
   \<exists>out. coalesce_loop root output es = Inr out \<and> ordered 0 (text_of root) out \<and> inserts_valid out \<and>
     render 0 (text_of root) out = render 0 (text_of root) (output @ es) \<and>
     (output @ es \<noteq> [] \<longrightarrow> out \<noteq> [])"
proof (induction es arbitrary: "output")
  case (Cons e es)
  obtain out where out: "coalesce_step root output e = Inr out" "out \<noteq> []"
    "ordered 0 (text_of root) (out @ es)" "inserts_valid (out @ es)"
    "render 0 (text_of root) (out @ es) = render 0 (text_of root) (output @ e # es)"
    using coalesce_step_ok [OF Cons.prems] by blast
  from Cons.IH [OF Cons.prems(1) out(3,4)] out show ?case
    by auto
qed simp

section \<open>Staging the text\<close>

text \<open>A tree that holds the inserted text of an edit.\<close>

definition holds :: "edit \<Rightarrow> root \<Rightarrow> bool" where
  "holds e i \<longleftrightarrow> owned i \<and> text_of i = ed_insert e"

lemma from_inserted_cases:
  assumes "valid_utf8 t"
  obtains r b' where "from_inserted_text mt b t = Inr (r, b')" "owned r" "text_of r = t"
    | "from_inserted_text mt b t = Inl BudgetExceeded" "\<exists>b n. m_reserve mt b n = None"
  using text_segments_builds [OF assms, of mt b True]
  unfolding builds_def from_inserted_text_def owned_def text_of_def by blast

lemma stage_inserts_cases:
  assumes "inserts_valid es"
  obtains (ok) ins b' where "stage_inserts mt b es = Inr (ins, b')" "list_all2 holds es ins"
    | (refused) "stage_inserts mt b es = Inl BudgetExceeded" "\<exists>b n. m_reserve mt b n = None"
proof -
  from assms have "(\<exists>ins b'. stage_inserts mt b es = Inr (ins, b') \<and> list_all2 holds es ins) \<or>
      (stage_inserts mt b es = Inl BudgetExceeded \<and> (\<exists>b n. m_reserve mt b n = None))"
  proof (induction es arbitrary: b)
    case Nil
    then show ?case by simp
  next
    case (Cons e es)
    then have e: "valid_utf8 (ed_insert e)" "inserts_valid es"
      by auto
    from e(1) show ?case
    proof (cases rule: from_inserted_cases [of _ mt b])
      case (1 r b1)
      with Cons.IH [OF e(2), of b1] show ?thesis
        by (auto simp: holds_def)
    next
      case 2
      then show ?thesis by simp
    qed
  qed
  with that show thesis
    by blast
qed

lemma stage_root_append:
  "stage_root mt single b root (xs @ ys) =
     and_then (stage_root mt single b root xs) (\<lambda>(r, b). stage_root mt single b r ys)"
  by (induction xs arbitrary: root b)
    (auto simp: and_then_def split: sum.splits prod.splits if_splits)

lemma stage_root_step:
  assumes "owned r" "s \<le> e" "char_boundary (text_of r) s" "char_boundary (text_of r) e"
    "owned i" "ed_start ed = s" "ed_end ed = e"
  obtains r' b' where "stage_root mt single b r [(ed, i)] = Inr (r', b')" "owned r'"
    "text_of r' = replace_range s e (text_of i) (text_of r)"
proof -
  obtain p m a d where cut: "tree_split r e = Inr (p, d)" "tree_split p s = Inr (a, m)" "owned a"
    "owned d" "text_of a = take s (text_of r)" "text_of d = drop e (text_of r)"
    using rope.cut_range [OF assms(1-4)] by metis
  obtain l b' where l:
    "(if single \<and> e \<le> s then concat_coalesced mt b a i TYPED_LEAF_BYTES
      else and_then (tree_concat a i) (\<lambda>r. Inr (r, b))) = Inr (l, b')" "owned l"
    "text_of l = text_of a @ text_of i"
  proof (cases "single \<and> e \<le> s")
    case True
    obtain u c where "concat_coalesced mt b a i TYPED_LEAF_BYTES = Inr (u, c)" "owned u"
      "text_of u = text_of a @ text_of i"
      using concat_coalesced_ok [OF cut(3) assms(5)] .
    with True show thesis
      by (intro that [of u c]) simp_all
  next
    case False
    obtain u where "tree_concat a i = Inr u" "owned u" "text_of u = text_of a @ text_of i"
      using owned_concat [OF cut(3) assms(5)] .
    with False show thesis
      by (intro that [of u b]) auto
  qed
  obtain r' where r': "tree_concat l d = Inr r'" "owned r'" "text_of r' = text_of l @ text_of d"
    using owned_concat [OF l(2) cut(4)] by metis
  have "stage_root mt single b r [(ed, i)] = Inr (r', b')"
    using cut(1,2) l(1) r'(1) assms(6,7) by simp
  with r' l(3) cut(5,6) that show thesis
    by (simp add: replace_range_def)
qed

lemma char_boundary_take:
  assumes "valid_utf8 t" "char_boundary t e" "char_boundary t s" "s \<le> e"
  shows "char_boundary (take e t) s"
  using assms char_boundary_append_left [of "drop e t" s "take e t"] valid_utf8_cut [OF assms(1,2)]
    char_boundary_le [OF assms(2)] by simp

lemma stage_root_ok:
  "owned root \<Longrightarrow> ordered pos (text_of root) es \<Longrightarrow> inserts_valid es \<Longrightarrow> list_all2 holds es ins \<Longrightarrow>
   \<exists>r b'. stage_root mt single b root (rev (zip es ins)) = Inr (r, b') \<and> owned r \<and>
     text_of r = take pos (text_of root) @ render pos (text_of root) es"
proof (induction es arbitrary: pos "ins")
  case Nil
  then show ?case by simp
next
  case (Cons e es)
  let ?T = "text_of root"
  let ?R = "render (ed_end e) ?T es"
  let ?T1 = "take (ed_end e) ?T @ ?R"
  obtain i ins' where ins': "ins = i # ins'" "holds e i" "list_all2 holds es ins'"
    using Cons.prems(4) by (cases "ins") auto
  have e: "pos \<le> ed_start e" "ed_start e \<le> ed_end e" "char_boundary ?T (ed_start e)"
    "char_boundary ?T (ed_end e)" "ordered (ed_end e) ?T es" "inserts_valid es"
    using Cons.prems(2,3) by auto
  have le: "ed_end e \<le> length ?T"
    using e(4) by (rule char_boundary_le)
  note v = owned_valid [OF Cons.prems(1)]
  obtain r1 b1 where r1: "stage_root mt single b root (rev (zip es ins')) = Inr (r1, b1)" "owned r1"
    "text_of r1 = ?T1"
    using Cons.IH [OF Cons.prems(1) e(5,6) ins'(3)] by blast
  have "valid_utf8 ?R"
    by (rule valid_render [OF v e(5,6,4)])
  then have b: "char_boundary (text_of r1) (ed_end e)" "char_boundary (text_of r1) (ed_start e)"
    using char_boundary_append_right [of ?R "take (ed_end e) ?T" "ed_end e"]
      char_boundary_append_left [of ?R "ed_start e" "take (ed_end e) ?T"]
      char_boundary_take [OF v e(4,3,2)] le e(2) r1(3) by auto
  obtain r b' where r: "stage_root mt single b1 r1 [(e, i)] = Inr (r, b')" "owned r"
    "text_of r = replace_range (ed_start e) (ed_end e) (text_of i) (text_of r1)"
    using stage_root_step [OF r1(2) e(2) b(2,1) _ refl refl] ins'(2) unfolding holds_def by metis
  have "text_of r = take (ed_start e) ?T @ ed_insert e @ ?R"
    using r(3) r1(3) le e(2) ins'(2) by (simp add: replace_range_def holds_def min_def)
  also have "take (ed_start e) ?T = take pos ?T @ sub pos (ed_start e) ?T"
    using sub_split [of 0 pos "ed_start e" ?T] e(1) by (simp add: sub_0_take)
  finally have "text_of r = take pos ?T @ render pos ?T (e # es)"
    by simp
  moreover have "stage_root mt single b root (rev (zip (e # es) ins)) = Inr (r, b')"
    using r1(1) r(1) ins'(1) by (simp add: stage_root_append)
  ultimately show ?case
    using r(2) by blast
qed

section \<open>The edit records\<close>

definition redo_edit :: "owned_edit \<Rightarrow> edit" where
  "redo_edit oe =
     \<lparr>ed_start = fst (oe_before oe), ed_end = snd (oe_before oe), ed_insert = text_of (oe_inserted oe)\<rparr>"

definition undo_edit :: "owned_edit \<Rightarrow> edit" where
  "undo_edit oe =
     \<lparr>ed_start = fst (oe_after oe), ed_end = snd (oe_after oe), ed_insert = text_of (oe_inverse oe)\<rparr>"

definition owned_edits :: "owned_edit list \<Rightarrow> bool" where
  "owned_edits oes \<longleftrightarrow> (\<forall>oe\<in>set oes. owned (oe_inverse oe) \<and> owned (oe_inserted oe))"

text \<open>The records lead from \<open>t\<close> to \<open>t'\<close> and back.\<close>

definition exact :: "byte list \<Rightarrow> byte list \<Rightarrow> owned_edit list \<Rightarrow> bool" where
  "exact t t' oes \<longleftrightarrow>
     owned_edits oes \<and>
     ordered 0 t (map redo_edit oes) \<and> render 0 t (map redo_edit oes) = t' \<and>
     ordered 0 t' (map undo_edit oes) \<and> render 0 t' (map undo_edit oes) = t"

lemma exact_refl [simp]: "exact t t []"
  by (simp add: exact_def owned_edits_def)

text \<open>\<open>a\<close> is the new text before the cursor; what follows is rendered from \<open>pos\<close>.\<close>

lemma stage_edits_ok:
  "owned root \<Longrightarrow> ordered pos (text_of root) es \<Longrightarrow> inserts_valid es \<Longrightarrow> list_all2 holds es ins \<Longrightarrow>
   char_boundary (text_of root) pos \<Longrightarrow> valid_utf8 a \<Longrightarrow>
   (stage_edits root pos (length a) (zip es ins) = Inl BudgetExceeded \<and>
      usize_max < length a + length (render pos (text_of root) es)) \<or>
   (\<exists>oes. stage_edits root pos (length a) (zip es ins) = Inr oes \<and> owned_edits oes \<and>
      map redo_edit oes = es \<and>
      ordered (length a) (a @ render pos (text_of root) es) (map undo_edit oes) \<and>
      render (length a) (a @ render pos (text_of root) es) (map undo_edit oes) = drop pos (text_of root))"
proof (induction es arbitrary: pos "ins" a)
  case Nil
  then show ?case by (simp add: owned_edits_def)
next
  case (Cons e es)
  let ?T = "text_of root"
  let ?s = "ed_start e"
  let ?e = "ed_end e"
  let ?A = "a @ sub pos ?s ?T"
  let ?A' = "?A @ ed_insert e"
  obtain i ins' where ins': "ins = i # ins'" "holds e i" "list_all2 holds es ins'"
    using Cons.prems(4) by (cases "ins") auto
  have e: "pos \<le> ?s" "?s \<le> ?e" "char_boundary ?T ?s" "char_boundary ?T ?e" "ordered ?e ?T es"
    "inserts_valid es" "valid_utf8 (ed_insert e)"
    using Cons.prems(2,3) by auto
  have len: "length ?A = length a + (?s - pos)" "?e \<le> length ?T"
    using char_boundary_le [OF e(3)] char_boundary_le [OF e(4)] e(1) by simp_all
  note v = owned_valid [OF Cons.prems(1)]
  have vA: "valid_utf8 ?A"
    using valid_utf8_sub [OF v Cons.prems(5) e(3,1)] Cons.prems(6) by (simp add: valid_utf8_append)
  then have vA': "valid_utf8 ?A'"
    using valid_utf8_append [of ?A "ed_insert e"] e(7) by simp
  obtain inv where inv: "tree_slice root ?s ?e = Inr inv" "owned inv" "text_of inv = sub ?s ?e ?T"
    using owned_slice [OF Cons.prems(1) e(2,3,4)] by metis
  let ?run = "stage_edits root pos (length a) (zip (e # es) ins)"
  let ?oe = "\<lparr>oe_before = (?s, ?e), oe_after = (length ?A, length ?A'), oe_inverse = inv, oe_inserted = i\<rparr>"
  have fits: "?run = and_then (stage_edits root ?e (length ?A') (zip es ins')) (\<lambda>oes. Inr (?oe # oes))"
    if "length ?A' \<le> usize_max"
  proof -
    have "length ?A' = length a + (?s - pos) + length (ed_insert e)"
      using len(1) by simp
    with that show ?thesis
      using inv(1) ins'(1) e(1) len(1) by (simp add: checked_sub_def checked_add_def)
  qed
  have over: "?run = Inl BudgetExceeded" if "\<not> length ?A' \<le> usize_max"
  proof -
    have "length ?A' = length a + (?s - pos) + length (ed_insert e)"
      using len(1) by simp
    with that show ?thesis
      using ins'(1) e(1) by (simp add: checked_sub_def checked_add_def)
  qed
  show ?case
  proof (cases "stage_edits root ?e (length ?A') (zip es ins')")
    case (Inl err)
    with Cons.IH [OF Cons.prems(1) e(5,6) ins'(3) e(4) vA'] have err: "err = BudgetExceeded"
      "usize_max < length ?A' + length (render ?e ?T es)"
      by auto
    then have "usize_max < length a + length (render pos ?T (e # es))"
      by simp
    moreover have "?run = Inl BudgetExceeded"
      using Inl err(1) fits over by (cases "length ?A' \<le> usize_max") simp_all
    ultimately show ?thesis
      by (intro disjI1 conjI)
  next
    case (Inr oes)
    have oes: "owned_edits oes" "map redo_edit oes = es"
      "ordered (length ?A') (?A' @ render ?e ?T es) (map undo_edit oes)"
      "render (length ?A') (?A' @ render ?e ?T es) (map undo_edit oes) = drop ?e ?T"
      using Cons.IH [OF Cons.prems(1) e(5,6) ins'(3) e(4) vA'] Inr by auto
    let ?T' = "a @ render pos ?T (e # es)"
    have T': "?T' = ?A @ ed_insert e @ render ?e ?T es" "?T' = ?A' @ render ?e ?T es"
      by simp_all
    have vR: "valid_utf8 (render ?e ?T es)"
      by (rule valid_render [OF v e(5,6,4)])
    have b: "char_boundary ?T' (length ?A)" "char_boundary ?T' (length ?A')"
    proof -
      have "valid_utf8 (ed_insert e @ render ?e ?T es)"
        using e(7) vR by (simp add: valid_utf8_append)
      then show "char_boundary ?T' (length ?A)"
        unfolding T'(1) by (subst char_boundary_append_right) auto
      show "char_boundary ?T' (length ?A')"
        unfolding T'(2) using vR by (subst char_boundary_append_right) auto
    qed
    have ord: "ordered (length a) ?T' (map undo_edit (?oe # oes))"
      using b oes(3) T'(2) by (simp add: undo_edit_def)
    have "sub (length a) (length ?A) ?T' = sub pos ?s ?T"
      unfolding T'(1) using len by (simp add: sub_def)
    then have "render (length a) ?T' (map undo_edit (?oe # oes)) =
        sub pos ?s ?T @ sub ?s ?e ?T @ drop ?e ?T"
      using oes(4) T'(2) inv(3) by (simp add: undo_edit_def)
    also have "\<dots> = drop pos ?T"
      using sub_split [of ?s ?e "length ?T" ?T] sub_split [of pos ?s "length ?T" ?T] e(1,2) len(2)
      by (simp add: sub_to_end)
    finally have ren: "render (length a) ?T' (map undo_edit (?oe # oes)) = drop pos ?T" .
    show ?thesis
    proof (cases "length ?A' \<le> usize_max")
      case True
      then have run: "?run = Inr (?oe # oes)"
        using fits Inr by simp
      have "map redo_edit (?oe # oes) = e # es" "owned_edits (?oe # oes)"
        using oes(1,2) ins'(2) inv(2) by (simp_all add: redo_edit_def holds_def owned_edits_def)
      with run ord ren show ?thesis
        by (intro disjI2 exI [of _ "?oe # oes"] conjI)
    next
      case False
      then have "usize_max < length a + length (render pos ?T (e # es))"
        by simp
      with over [OF False] show ?thesis
        by (intro disjI1 conjI)
    qed
  qed
qed

text \<open>A single edit starts at the same offset before and after.\<close>

definition single_after :: "owned_edit list \<Rightarrow> bool" where
  "single_after oes \<longleftrightarrow>
     (\<forall>oe. oes = [oe] \<longrightarrow>
        oe_after oe = (fst (oe_before oe), fst (oe_before oe) + length (text_of (oe_inserted oe))) \<and>
        snd (oe_after oe) \<le> usize_max)"

lemma stage_edits_single:
  assumes "stage_edits root 0 0 (zip es ins) = Inr oes" "map redo_edit oes = es" "list_all2 holds es ins"
  shows "single_after oes"
proof -
  have "oe_after oe = (fst (oe_before oe), fst (oe_before oe) + length (text_of (oe_inserted oe))) \<and>
      snd (oe_after oe) \<le> usize_max"
    if "oes = [oe]" for oe
  proof -
    from that assms(2,3) obtain e i where "es = [e]" "ins = [i]" "holds e i"
      by (auto simp: list_all2_Cons1)
    with assms(1) that show ?thesis
      by (auto simp: and_then_Inr_iff checked_sub_Some_iff checked_add_Some_iff holds_def ok_or_Inr_iff)
  qed
  then show ?thesis
    unfolding single_after_def by blast
qed

section \<open>Staging a transaction\<close>

text \<open>What a staged edit is: the entry of the whole step, exact, with its receipt.\<close>

definition staged :: "doc \<Rightarrow> transaction \<Rightarrow> prepared \<Rightarrow> bool" where
  "staged d tr p \<longleftrightarrow>
     (let cur = d_current d; e = pr_entry p in
      pr_document p = sn_id cur \<and> pr_base p = sn_revision cur \<and> pr_revision p = sn_revision cur + 1 \<and>
      \<not> pr_tracked p \<and>
      pr_change p =
        \<lparr>ac_document = sn_id cur, ac_before_revision = sn_revision cur,
         ac_after_revision = sn_revision cur + 1, ac_before_state = sn_state cur,
         ac_after_state = en_after_state e, ac_direction = DirEdit,
         ac_edits = map (compact DirEdit) (en_edits e)\<rparr> \<and>
      en_before_metadata e = sn_metadata cur \<and> en_after_metadata e = sn_metadata cur \<and>
      en_before e = sn_root cur \<and> en_before_state e = sn_state cur \<and>
      en_group e = None \<and> \<not> en_typing_insert e \<and> en_undo_reservation e = charge_empty \<and>
      en_structure e = None \<and>
      owned (en_after e) \<and> text_of (en_after e) = render 0 (snap_text cur) (sorted_edits tr) \<and>
      exact (snap_text cur) (text_of (en_after e)) (en_edits e) \<and> en_edits e \<noteq> [] \<and>
      single_after (en_edits e) \<and>
      (length (tr_edits tr) \<le> PIECEWISE_EDITS \<longrightarrow> map redo_edit (en_edits e) = sorted_edits tr))"

lemma stage_roots_cases:
  assumes "good cur" "ordered 0 (snap_text cur) es" "inserts_valid es"
  obtains (ok) ins b1 oes root b2 where
    "stage_inserts mt b es = Inr (ins, b1)" "stage_edits (sn_root cur) 0 0 (zip es ins) = Inr oes"
    "stage_root mt single b1 (sn_root cur) (rev (zip es ins)) = Inr (root, b2)" "owned root"
    "text_of root = render 0 (snap_text cur) es" "exact (snap_text cur) (text_of root) oes"
    "map redo_edit oes = es" "single_after oes"
  | (no_inserts) "stage_inserts mt b es = Inl BudgetExceeded" "\<exists>b n. m_reserve mt b n = None"
  | (no_edits) ins b1 where "stage_inserts mt b es = Inr (ins, b1)"
      "stage_edits (sn_root cur) 0 0 (zip es ins) = Inl BudgetExceeded"
      "usize_max < length (render 0 (snap_text cur) es)"
proof -
  have o: "owned (sn_root cur)" "ordered 0 (text_of (sn_root cur)) es"
    using assms(1,2) by (simp_all add: good_def snap_text_def)
  from assms(3) show thesis
  proof (cases rule: stage_inserts_cases [of _ mt b])
    case (ok ins b1)
    obtain root b2 where root: "stage_root mt single b1 (sn_root cur) (rev (zip es ins)) = Inr (root, b2)"
      "owned root" "text_of root = render 0 (snap_text cur) es"
      using stage_root_ok [OF o assms(3) ok(2), of mt single b1] by (auto simp: snap_text_def)
    have edits: "(stage_edits (sn_root cur) 0 0 (zip es ins) = Inl BudgetExceeded \<and>
        usize_max < length (render 0 (snap_text cur) es)) \<or>
      (\<exists>oes. stage_edits (sn_root cur) 0 0 (zip es ins) = Inr oes \<and> owned_edits oes \<and>
        map redo_edit oes = es \<and>
        ordered 0 (render 0 (snap_text cur) es) (map undo_edit oes) \<and>
        render 0 (render 0 (snap_text cur) es) (map undo_edit oes) = snap_text cur)"
      using stage_edits_ok [OF o assms(3) ok(2), of "[]"] by (simp add: snap_text_def)
    then show thesis
    proof
      assume "stage_edits (sn_root cur) 0 0 (zip es ins) = Inl BudgetExceeded \<and>
        usize_max < length (render 0 (snap_text cur) es)"
      with ok(1) show thesis
        using no_edits by blast
    next
      assume "\<exists>oes. stage_edits (sn_root cur) 0 0 (zip es ins) = Inr oes \<and> owned_edits oes \<and>
        map redo_edit oes = es \<and>
        ordered 0 (render 0 (snap_text cur) es) (map undo_edit oes) \<and>
        render 0 (render 0 (snap_text cur) es) (map undo_edit oes) = snap_text cur"
      then obtain oes where oes: "stage_edits (sn_root cur) 0 0 (zip es ins) = Inr oes"
        "owned_edits oes" "map redo_edit oes = es"
        "ordered 0 (render 0 (snap_text cur) es) (map undo_edit oes)"
        "render 0 (render 0 (snap_text cur) es) (map undo_edit oes) = snap_text cur"
        by blast
      then have "exact (snap_text cur) (text_of root) oes"
        using assms(2) root(3) by (simp add: exact_def)
      then show thesis
        using that(1) [OF ok(1) oes(1) root] oes(3) stage_edits_single [OF oes(1,3) ok(2)] by blast
    qed
  next
    case refused
    then show thesis
      by (rule no_inserts)
  qed
qed

lemma coalesce_ok:
  assumes "good (d_current d)" "ordered 0 (snap_text (d_current d)) es" "inserts_valid es" "es \<noteq> []"
  obtains out where "coalesce d es = Inr out" "ordered 0 (snap_text (d_current d)) out"
    "inserts_valid out" "render 0 (snap_text (d_current d)) out = render 0 (snap_text (d_current d)) es"
    "out \<noteq> []"
  using coalesce_loop_ok [of "sn_root (d_current d)" "[]" es] assms
  by (auto simp: coalesce_def good_def snap_text_def)

lemma coalesce_length: "coalesce d es = Inr out \<Longrightarrow> length out \<le> length es"
  unfolding coalesce_def by (drule coalesce_loop_length) simp

lemma stage_edit_list:
  assumes "good (d_current d)" "ordered 0 (snap_text (d_current d)) es" "inserts_valid es" "es \<noteq> []"
  obtains out where
    "(if length es > PIECEWISE_EDITS then coalesce d es else Inr es) = Inr out"
    "ordered 0 (snap_text (d_current d)) out" "inserts_valid out" "out \<noteq> []"
    "render 0 (snap_text (d_current d)) out = render 0 (snap_text (d_current d)) es"
    "length es \<le> PIECEWISE_EDITS \<longrightarrow> out = es" "length out \<le> length es"
proof (cases "length es > PIECEWISE_EDITS")
  case True
  obtain out where "coalesce d es = Inr out" "ordered 0 (snap_text (d_current d)) out"
    "inserts_valid out" "render 0 (snap_text (d_current d)) out = render 0 (snap_text (d_current d)) es"
    "out \<noteq> []"
    using coalesce_ok [OF assms] .
  with True that [of out] coalesce_length [of d es out] show thesis
    by simp
next
  case False
  with assms that [of es] show thesis
    by simp
qed

definition stage_errors :: "error set" where
  "stage_errors =
     {StaleRevision, EmptyTransaction, OutOfBounds, InvalidBoundary, OverlappingEdits,
      RevisionOverflow, BudgetExceeded}"

text \<open>
  Why a valid transaction can fail: the byte budget refuses some request, the new text or the
  receipt is too large.
\<close>

definition short_of_memory :: "'b env \<Rightarrow> snapshot \<Rightarrow> transaction \<Rightarrow> bool" where
  "short_of_memory env cur tr \<longleftrightarrow>
     (\<exists>b n. m_reserve (e_meter env) b n = None) \<or>
     usize_max < length (render 0 (snap_text cur) (sorted_edits tr)) \<or>
     (\<exists>n\<le>length (tr_edits tr). receipt_bytes (e_sizes env) n = None)"

lemma stage_cases:
  assumes "good (d_current d)" "inserts_valid (tr_edits tr)"
  obtains (ok) p b where "stage env w d tr = Inr (p, w\<lparr>w_next := w_next w + 2, w_bytes := b\<rparr>)"
      "staged d tr p" "check_transaction d tr = Inr (tr\<lparr>tr_edits := sorted_edits tr\<rparr>)"
      "en_after_state (pr_entry p) = w_next w" "en_sequence (pr_entry p) = w_next w + 1"
  | (error) err where "stage env w d tr = Inl err" "err \<in> stage_errors"
      "check_transaction d tr = Inl err \<or>
        (err = BudgetExceeded \<and> short_of_memory env (d_current d) tr)"
proof (cases "check_transaction d tr")
  case (Inl err)
  then have "stage env w d tr = Inl err"
    by (simp add: stage_def Let_def)
  moreover have "err \<in> stage_errors"
    using check_transaction_errors [OF Inl] by (auto simp: stage_errors_def)
  ultimately show thesis
    using error Inl by blast
next
  case (Inr tr')
  let ?cur = "d_current d"
  let ?es = "sorted_edits tr"
  let ?mt = "e_meter env"
  let ?rev = "sn_revision ?cur + 1"
  note check = check_transaction_ok [OF Inr assms(1)]
  have v: "inserts_valid ?es" "?es \<noteq> []"
    using assms(2) check(3) set_sorted_edits [of tr] by (auto simp: inserts_valid_def)
  obtain es where es: "(if length ?es > PIECEWISE_EDITS then coalesce d ?es else Inr ?es) = Inr es"
    "ordered 0 (snap_text ?cur) es" "inserts_valid es" "es \<noteq> []"
    "render 0 (snap_text ?cur) es = render 0 (snap_text ?cur) ?es"
    "length ?es \<le> PIECEWISE_EDITS \<longrightarrow> es = ?es" "length es \<le> length ?es"
    using stage_edit_list [OF assms(1) check(5) v] .
  have rev: "next_revision d = Inr ?rev"
    using check(6) by (simp add: next_revision_def checked_add_def)
  have run: "stage env w d tr =
      and_then (stage_inserts ?mt (w_bytes w) es) (\<lambda>(inserts, b).
      and_then (stage_edits (sn_root ?cur) 0 0 (zip es inserts)) (\<lambda>owned_edits.
      and_then (stage_root ?mt (length es = 1) b (sn_root ?cur) (rev (zip es inserts))) (\<lambda>(root, b).
      and_then (change_owned ?mt (e_sizes env) b (sn_id ?cur) (sn_revision ?cur) ?rev (sn_state ?cur)
                  (w_next w) DirEdit owned_edits) (\<lambda>(change, b).
        Inr (\<lparr>pr_change = change, pr_document = sn_id ?cur, pr_base = sn_revision ?cur,
              pr_revision = ?rev,
              pr_entry =
                \<lparr>en_before_metadata = sn_metadata ?cur, en_after_metadata = sn_metadata ?cur,
                 en_before = sn_root ?cur, en_after = root, en_before_state = sn_state ?cur,
                 en_after_state = w_next w, en_undo_reservation = charge_empty, en_structure = None,
                 en_sequence = w_next w + 1, en_edits = owned_edits, en_group = None,
                 en_metadata = edit_metadata_default, en_typing_insert = False\<rparr>,
              pr_tracked = False\<rparr>, w\<lparr>w_next := w_next w + 2, w_bytes := b\<rparr>)))))"
    using Inr check(1) rev es(1)
    by (cases "length ?es > PIECEWISE_EDITS") (simp_all add: stage_def unique_def Let_def)
  from assms(1) es(2,3) show thesis
  proof (cases rule: stage_roots_cases [where mt = ?mt and b = "w_bytes w" and single = "length es = 1"])
    case (ok ins b1 oes root b2)
    show thesis
    proof (cases rule: change_owned_cases [of ?mt "e_sizes env" b2 "sn_id ?cur" "sn_revision ?cur" ?rev
          "sn_state ?cur" "w_next w" DirEdit oes])
      case (ok c b3)
      let ?p = "\<lparr>pr_change = c, pr_document = sn_id ?cur, pr_base = sn_revision ?cur,
              pr_revision = ?rev,
              pr_entry =
                \<lparr>en_before_metadata = sn_metadata ?cur, en_after_metadata = sn_metadata ?cur,
                 en_before = sn_root ?cur, en_after = root, en_before_state = sn_state ?cur,
                 en_after_state = w_next w, en_undo_reservation = charge_empty, en_structure = None,
                 en_sequence = w_next w + 1, en_edits = oes, en_group = None,
                 en_metadata = edit_metadata_default, en_typing_insert = False\<rparr>,
              pr_tracked = False\<rparr>"
      have "oes \<noteq> []"
        using \<open>map redo_edit oes = es\<close> es(4) by auto
      then have "staged d tr ?p"
        using ok(2) \<open>owned root\<close> \<open>text_of root = render 0 (snap_text ?cur) es\<close>
          \<open>exact (snap_text ?cur) (text_of root) oes\<close> \<open>map redo_edit oes = es\<close> es(5,6)
          \<open>single_after oes\<close>
        by (simp add: staged_def length_sorted_edits)
      moreover have "stage env w d tr = Inr (?p, w\<lparr>w_next := w_next w + 2, w_bytes := b3\<rparr>)"
        unfolding run using ok(1) \<open>stage_inserts ?mt (w_bytes w) es = Inr (ins, b1)\<close>
          \<open>stage_edits (sn_root ?cur) 0 0 (zip es ins) = Inr oes\<close>
          \<open>stage_root ?mt (length es = 1) b1 (sn_root ?cur) (rev (zip es ins)) = Inr (root, b2)\<close>
        by simp
      ultimately show thesis
        using Inr check(1) by (intro that(1) [of ?p b3]) simp_all
    next
      case refused
      then have "stage env w d tr = Inl BudgetExceeded"
        unfolding run using \<open>stage_inserts ?mt (w_bytes w) es = Inr (ins, b1)\<close>
          \<open>stage_edits (sn_root ?cur) 0 0 (zip es ins) = Inr oes\<close>
          \<open>stage_root ?mt (length es = 1) b1 (sn_root ?cur) (rev (zip es ins)) = Inr (root, b2)\<close>
        by simp
      moreover have "length oes \<le> length (tr_edits tr)"
        using \<open>map redo_edit oes = es\<close> es(7) by (metis length_map length_sorted_edits)
      then have "short_of_memory env ?cur tr"
        using refused(2) by (auto simp: short_of_memory_def)
      ultimately show thesis
        by (intro error [of BudgetExceeded]) (auto simp: stage_errors_def)
    qed
  next
    case no_inserts
    then have "stage env w d tr = Inl BudgetExceeded"
      unfolding run by simp
    then show thesis
      using no_inserts(2) by (intro error [of BudgetExceeded]) (auto simp: stage_errors_def short_of_memory_def)
  next
    case (no_edits ins b1)
    then have "stage env w d tr = Inl BudgetExceeded"
      unfolding run by simp
    then show thesis
      using no_edits(3) es(5) by (intro error [of BudgetExceeded]) (auto simp: stage_errors_def short_of_memory_def)
  qed
qed

end
