(* ===== verification/Document_History.thy ===== *)
theory Document_History
  imports Document_Text
begin

text \<open>
  Undo history of the Resident document: the invariant that makes undo and redo exact, and its
  preservation by every operation. An undo entry remembers the tree before and after its step; the
  entries form chains that end at the current tree (undo) and start from it (redo), so that each
  undo returns to a tree that was current, and its receipt describes the change exactly. A typing
  merge keeps this although it replaces the end of an entry.
\<close>

section \<open>The invariant\<close>

type_synonym point = "root \<times> nat \<times> doc_metadata"

abbreviation point_before :: "entry \<Rightarrow> point" where
  "point_before e \<equiv> (en_before e, en_before_state e, en_before_metadata e)"

abbreviation point_after :: "entry \<Rightarrow> point" where
  "point_after e \<equiv> (en_after e, en_after_state e, en_after_metadata e)"

definition now :: "doc \<Rightarrow> point" where
  "now d = (sn_root (d_current d), sn_state (d_current d), sn_metadata (d_current d))"

text \<open>Newest entry first.\<close>

fun undo_chain :: "point \<Rightarrow> entry list \<Rightarrow> bool" where
  "undo_chain p [] = True"
| "undo_chain p (e # es) = (point_after e = p \<and> undo_chain (point_before e) es)"

fun redo_chain :: "point \<Rightarrow> entry list \<Rightarrow> bool" where
  "redo_chain p [] = True"
| "redo_chain p (e # es) = (point_before e = p \<and> redo_chain (point_after e) es)"

text \<open>
  An entry that typing may extend: one insertion, with the caret at its end. \<open>s\<close> is where it starts.
\<close>

definition typed :: "entry \<Rightarrow> bool" where
  "typed e \<longleftrightarrow>
     (\<exists>oe a s. en_edits e = [oe] \<and> oe_before oe = (s, s) \<and>
        oe_after oe = (s, s + length (text_of (oe_inserted oe))) \<and>
        em_after (en_metadata e) = [a] \<and> sel_caret a = s + length (text_of (oe_inserted oe)))"

definition entry_ok :: "entry \<Rightarrow> bool" where
  "entry_ok e \<longleftrightarrow>
     owned (en_before e) \<and> owned (en_after e) \<and>
     exact (text_of (en_before e)) (text_of (en_after e)) (en_edits e) \<and>
     (en_typing_insert e \<longrightarrow> typed e)"

definition doc_ok :: "nat \<Rightarrow> doc \<Rightarrow> bool" where
  "doc_ok slot d \<longleftrightarrow>
     good (d_current d) \<and> undo_chain (now d) (rev (st_entries (d_undo d))) \<and>
     redo_chain (now d) (rev (st_entries (d_redo d))) \<and>
     (\<forall>e\<in>set (st_entries (d_undo d)) \<union> set (st_entries (d_redo d)). entry_ok e) \<and>
     stack_ok slot (d_undo d) \<and> stack_ok slot (d_redo d) \<and>
     history_size d \<le> max_changes (d_policy d)"

lemma undo_chain_take: "undo_chain p es \<Longrightarrow> undo_chain p (take n es)"
  by (induction es arbitrary: p n) (auto simp: take_Cons' split: nat.splits)

lemma redo_chain_take: "redo_chain p es \<Longrightarrow> redo_chain p (take n es)"
  by (induction es arbitrary: p n) (auto simp: take_Cons' split: nat.splits)

lemma rev_drop_take: "rev (drop n xs) = take (length xs - n) (rev xs)"
  by (simp add: rev_drop)

lemma undo_chain_drop: "undo_chain p (rev es) \<Longrightarrow> undo_chain p (rev (drop n es))"
  by (simp add: rev_drop_take undo_chain_take)

lemma redo_chain_drop: "redo_chain p (rev es) \<Longrightarrow> redo_chain p (rev (drop n es))"
  by (simp add: rev_drop_take redo_chain_take)

section \<open>Steps that only drop old entries or make room\<close>

definition shrinks :: "nat \<Rightarrow> doc \<Rightarrow> doc \<Rightarrow> bool" where
  "shrinks slot d d' \<longleftrightarrow>
     (\<exists>m n. d' = d\<lparr>d_undo := d_undo d', d_redo := d_redo d'\<rparr> \<and>
        st_entries (d_undo d') = drop m (st_entries (d_undo d)) \<and>
        st_entries (d_redo d') = drop n (st_entries (d_redo d)) \<and>
        (stack_ok slot (d_undo d) \<longrightarrow> stack_ok slot (d_undo d')) \<and>
        (stack_ok slot (d_redo d) \<longrightarrow> stack_ok slot (d_redo d')) \<and>
        st_capacity (d_undo d) \<le> st_capacity (d_undo d') \<and>
        st_capacity (d_redo d) \<le> st_capacity (d_redo d'))"

lemma shrinks_refl [simp]: "shrinks slot d d"
  unfolding shrinks_def by (intro exI [of _ 0]) simp

lemma shrinks_same:
  assumes "shrinks slot d d'"
  shows "d_current d' = d_current d" "d_saved d' = d_saved d" "d_policy d' = d_policy d"
    "d_last_merged d' = d_last_merged d" "d_last_untracked d' = d_last_untracked d"
proof -
  from assms have "d' = d\<lparr>d_undo := d_undo d', d_redo := d_redo d'\<rparr>"
    unfolding shrinks_def by blast
  then obtain u r where d': "d' = d\<lparr>d_undo := u, d_redo := r\<rparr>"
    by blast
  show "d_current d' = d_current d" "d_saved d' = d_saved d" "d_policy d' = d_policy d"
    "d_last_merged d' = d_last_merged d" "d_last_untracked d' = d_last_untracked d"
    by (simp_all add: d')
qed

lemma shrinks_trans:
  assumes "shrinks slot a b" "shrinks slot b c"
  shows "shrinks slot a c"
proof -
  from assms(1) obtain m n where ab: "b = a\<lparr>d_undo := d_undo b, d_redo := d_redo b\<rparr>"
    "st_entries (d_undo b) = drop m (st_entries (d_undo a))"
    "st_entries (d_redo b) = drop n (st_entries (d_redo a))"
    unfolding shrinks_def by blast
  from assms(2) obtain k l where bc: "c = b\<lparr>d_undo := d_undo c, d_redo := d_redo c\<rparr>"
    "st_entries (d_undo c) = drop k (st_entries (d_undo b))"
    "st_entries (d_redo c) = drop l (st_entries (d_redo b))"
    unfolding shrinks_def by blast
  have "c = a\<lparr>d_undo := d_undo c, d_redo := d_redo c\<rparr>"
    by (subst bc(1), subst ab(1)) simp
  moreover have "st_entries (d_undo c) = drop (k + m) (st_entries (d_undo a))"
    "st_entries (d_redo c) = drop (l + n) (st_entries (d_redo a))"
    using ab(2,3) bc(2,3) by simp_all
  ultimately show ?thesis
    using assms unfolding shrinks_def by (meson order_trans)
qed

lemma shrinks_ok:
  assumes "doc_ok slot d" "shrinks slot d d'"
  shows "doc_ok slot d'"
proof -
  obtain m n where d': "st_entries (d_undo d') = drop m (st_entries (d_undo d))"
    "st_entries (d_redo d') = drop n (st_entries (d_redo d))"
    "stack_ok slot (d_undo d')" "stack_ok slot (d_redo d')"
    using assms unfolding shrinks_def doc_ok_def by blast
  note same = shrinks_same [OF assms(2)]
  have "now d' = now d"
    by (simp add: now_def same)
  moreover have "history_size d' \<le> history_size d"
    using d'(1,2) by (simp add: history_size_def)
  ultimately show ?thesis
    using assms(1) d' same undo_chain_drop redo_chain_drop
    by (auto simp: doc_ok_def dest: in_set_dropD)
qed

lemma drain_undo_shrinks: "drain_undo env n w d = (w', d') \<Longrightarrow> shrinks slot d d'"
  unfolding shrinks_def drain_undo_def
  by (intro exI [of _ n] exI [of _ 0])
    (auto simp: stack_drain_def intro: stack_ok_update stack_drain_ok [unfolded stack_drain_def])

lemma drain_redo_shrinks: "drain_redo env n w d = (w', d') \<Longrightarrow> shrinks slot d d'"
  unfolding shrinks_def drain_redo_def
  by (intro exI [of _ 0] exI [of _ n])
    (auto simp: stack_drain_def intro: stack_ok_update stack_drain_ok [unfolded stack_drain_def])

lemma clear_redo_shrinks: "clear_redo env w d = (w', d') \<Longrightarrow> shrinks slot d d'"
  unfolding shrinks_def clear_redo_def
  by (intro exI [of _ 0] exI [of _ "length (st_entries (d_redo d))"])
    (auto simp: stack_clear_def intro: stack_clear_ok [unfolded stack_clear_def])

lemma clear_undo_shrinks: "clear_undo env w d = (w', d') \<Longrightarrow> shrinks slot d d'"
  unfolding shrinks_def clear_undo_def
  by (intro exI [of _ "length (st_entries (d_undo d))"] exI [of _ 0])
    (auto simp: stack_clear_def intro: stack_clear_ok [unfolded stack_clear_def])

lemma trim_history_shrinks: "trim_history env w d = (w', d') \<Longrightarrow> shrinks slot d d'"
  by (auto simp: trim_history_def split: prod.splits
      intro: shrinks_trans [OF drain_undo_shrinks drain_redo_shrinks])

lemma trim_history_bound:
  "trim_history env w d = (w', d') \<Longrightarrow> history_size d' \<le> max_changes (d_policy d')"
  by (auto simp: trim_history_def drain_undo_def drain_redo_def stack_drain_def history_size_def Let_def)

lemma evict_oldest_entry_shrinks:
  "evict_oldest_entry env w d kp t = Some (n, w', d') \<Longrightarrow> shrinks slot d d'"
  by (auto simp: evict_oldest_entry_def Let_def split: option.splits if_splits prod.splits
      intro: drain_undo_shrinks drain_redo_shrinks)

lemma evict_oldest_history_shrinks:
  "evict_oldest_history env w d kp = Some (w', d') \<Longrightarrow> shrinks slot d d'"
  by (auto simp: evict_oldest_history_def intro: evict_oldest_entry_shrinks)

lemma relieve_redo_loop_shrinks:
  "relieve_redo_loop env demand t w d released = (n, w', d') \<Longrightarrow> shrinks slot d d'"
proof (induction env demand t w d released rule: relieve_redo_loop.induct)
  case (1 env demand t w d released)
  show ?case
  proof (cases "lacks_room env w d demand \<and> st_entries (d_redo d) \<noteq> []")
    case True
    obtain w1 d1 where d1: "drain_redo env 1 w d = (w1, d1)"
      by fastforce
    then have "shrinks slot d1 d'"
      using True "1.IH" [OF True refl d1 [symmetric] refl] "1.prems"
      by (subst (asm) relieve_redo_loop.simps) (simp add: Let_def)
    then show ?thesis
      using shrinks_trans [OF drain_redo_shrinks [OF d1]] by blast
  next
    case False
    with "1.prems" show ?thesis
      by (subst (asm) relieve_redo_loop.simps) (simp add: False)
  qed
qed

lemma relieve_loop_shrinks:
  "relieve_loop env demand w d uncovered = (w', d') \<Longrightarrow> shrinks slot d d'"
proof (induction env demand w d uncovered rule: relieve_loop.induct)
  case (1 env demand w d uncovered)
  show ?case
  proof (cases "lacks_room env w d demand \<and> uncovered > 0")
    case True
    show ?thesis
    proof (cases "evict_oldest_entry env w d (keep demand) (is_text demand)")
      case None
      with True "1.prems" show ?thesis
        by (subst (asm) relieve_loop.simps) simp
    next
      case (Some r)
      obtain n w1 d1 where r: "r = (n, w1, d1)"
        by (cases r) auto
      have "shrinks slot d1 d'"
        using True "1.IH" [OF True Some [unfolded r] refl] Some r "1.prems"
        by (subst (asm) relieve_loop.simps) simp
      then show ?thesis
        using shrinks_trans [OF evict_oldest_entry_shrinks [OF Some [unfolded r]]] by blast
    qed
  next
    case False
    with "1.prems" show ?thesis
      by (subst (asm) relieve_loop.simps) (simp add: False)
  qed
qed

text \<open>What the operations rely on in the closure that makes room: it only drops old entries.\<close>

locale relief =
  fixes slot :: nat and relieve :: "'b relief"
  assumes shrinks: "relieve demand w d = (w', d') \<Longrightarrow> shrinks slot d d'"

lemma relieve_history_shrinks: "relieve_history env demand w d = (w', d') \<Longrightarrow> shrinks slot d d'"
proof -
  assume run: "relieve_history env demand w d = (w', d')"
  obtain n w1 d1 where redo: "relieve_redo env demand w d = (n, w1, d1)"
    by (cases "relieve_redo env demand w d") auto
  then have "shrinks slot d d1"
    by (cases demand) (auto simp: relieve_redo_def intro: relieve_redo_loop_shrinks)
  with run redo show ?thesis
    by (auto simp: relieve_history_def Let_def split: if_splits
        intro: shrinks_trans relieve_loop_shrinks)
qed

interpretation own: relief slot "relieve_history env" for slot env
  by unfold_locales (rule relieve_history_shrinks)

section \<open>Admission\<close>

definition env_ok :: "'b env \<Rightarrow> bool" where
  "env_ok env \<longleftrightarrow> (\<forall>n c. e_grow env n = Some c \<longrightarrow> n \<le> c)"

abbreviation slot_of :: "'b env \<Rightarrow> nat" where
  "slot_of env \<equiv> sz_slot (e_sizes env)"

lemma reserve_undo_ok:
  assumes "reserve_undo env w d = Inr (w', d')" "stack_ok (slot_of env) (d_undo d)" "env_ok env"
  shows "shrinks (slot_of env) d d'" "length (st_entries (d_undo d')) < st_capacity (d_undo d')"
    "st_entries (d_undo d') = st_entries (d_undo d)" "d_redo d' = d_redo d"
proof -
  obtain s b where s: "try_reserve (slot_of env) (e_grow env) (w_history w) (d_undo d) 1 = Inr (s, b)"
    "d' = d\<lparr>d_undo := s\<rparr>"
    using assms(1) by (auto simp: reserve_undo_def and_then_Inr_iff)
  note r = try_reserve_stack [OF s(1) assms(2)] assms(3) [unfolded env_ok_def]
  then show "length (st_entries (d_undo d')) < st_capacity (d_undo d')"
    "st_entries (d_undo d') = st_entries (d_undo d)" "d_redo d' = d_redo d"
    using s(2) by auto
  show "shrinks (slot_of env) d d'"
    unfolding shrinks_def using r s(2) by (intro exI [of _ 0]) auto
qed

lemma reserve_redo_ok:
  assumes "reserve_redo env w d = Inr (w', d')" "stack_ok (slot_of env) (d_redo d)" "env_ok env"
  shows "shrinks (slot_of env) d d'" "length (st_entries (d_redo d')) < st_capacity (d_redo d')"
    "st_entries (d_redo d') = st_entries (d_redo d)" "d_undo d' = d_undo d"
proof -
  obtain s b where s: "try_reserve (slot_of env) (e_grow env) (w_history w) (d_redo d) 1 = Inr (s, b)"
    "d' = d\<lparr>d_redo := s\<rparr>"
    using assms(1) by (auto simp: reserve_redo_def and_then_Inr_iff)
  note r = try_reserve_stack [OF s(1) assms(2)] assms(3) [unfolded env_ok_def]
  then show "length (st_entries (d_redo d')) < st_capacity (d_redo d')"
    "st_entries (d_redo d') = st_entries (d_redo d)" "d_undo d' = d_undo d"
    using s(2) by auto
  show "shrinks (slot_of env) d d'"
    unfolding shrinks_def using r s(2) by (intro exI [of _ 0]) auto
qed

text \<open>Charging touches the charges of the entry only.\<close>

definition charged_like :: "prepared \<Rightarrow> prepared \<Rightarrow> bool" where
  "charged_like p p' \<longleftrightarrow>
     p' = p\<lparr>pr_entry := (pr_entry p)\<lparr>en_undo_reservation := en_undo_reservation (pr_entry p'),
                               en_structure := en_structure (pr_entry p')\<rparr>,
            pr_tracked := pr_tracked p'\<rparr>"

lemma charged_like_refl [simp]: "charged_like p p"
  by (simp add: charged_like_def)

lemma charge_like:
  "charge env w d p n = Inr (p', w') \<Longrightarrow>
     charged_like p p' \<and> pr_tracked p'"
  by (auto simp: charge_def charged_like_def and_then_Inr_iff Let_def split: if_splits)

lemma admit_loop_ok:
  assumes "env_ok env"
  shows "admit_loop env relieve demand selections passes p w d = (p', w', d') \<Longrightarrow>
    relief (slot_of env) relieve \<Longrightarrow> doc_ok (slot_of env) d \<Longrightarrow> \<not> pr_tracked p \<Longrightarrow>
    shrinks (slot_of env) d d' \<and> charged_like p p' \<and>
    (pr_tracked p' \<longrightarrow> length (st_entries (d_undo d')) < st_capacity (d_undo d'))"
  using assms
proof (induction env relieve demand selections passes p w d rule: admit_loop.induct)
  case (1 env relieve demand selections passes p w d)
  let ?slot = "slot_of env"
  let ?attempt = "case reserve_undo env w d of Inl _ \<Rightarrow> (False, w, d) | Inr (w1, d1) \<Rightarrow> (True, w1, d1)"
  obtain room w1 d1 where att: "?attempt = (room, w1, d1)"
    by (metis prod_cases3)
  have "shrinks ?slot d d1 \<and> (room \<longrightarrow> length (st_entries (d_undo d1)) < st_capacity (d_undo d1))"
  proof (cases "reserve_undo env w d")
    case (Inl err)
    with att show ?thesis
      by auto
  next
    case (Inr x)
    obtain w2 d2 where x: "x = (w2, d2)"
      by (cases x)
    have "stack_ok ?slot (d_undo d)"
      using "1.prems"(3) by (simp add: doc_ok_def)
    with Inr x att show ?thesis
      using reserve_undo_ok [OF _ _ "1.prems"(5), of w d w2 d2] by auto
  qed
  then have d1: "shrinks ?slot d d1" "room \<longrightarrow> length (st_entries (d_undo d1)) < st_capacity (d_undo d1)"
    by simp_all
  let ?charged = "if room then charge env w1 d1 p selections else Inl BudgetExceeded"
  note loop = admit_loop.simps [of env relieve demand selections passes p w d]
  show ?case
  proof (cases ?charged)
    case (Inr x)
    obtain p2 w2 where x: "x = (p2, w2)"
      by (cases x)
    have "room" "charge env w1 d1 p selections = Inr (p2, w2)"
      using Inr x by (auto split: if_splits)
    moreover have "(p', w', d') = (p2, w2, d1)"
      using "1.prems"(1) Inr x unfolding loop by (simp add: att)
    ultimately show ?thesis
      using d1 charge_like [of env w1 d1 p selections p2 w2] by simp
  next
    case (Inl err)
    have ok1: "doc_ok ?slot d1"
      using "1.prems"(3) d1(1) by (rule shrinks_ok)
    show ?thesis
    proof (cases "passes < RELIEF_PASSES")
      case True
      obtain w2 d2 where rel: "relieve demand w1 d1 = (w2, d2)"
        by fastforce
      have d2: "shrinks ?slot d1 d2"
        using relief.shrinks [OF "1.prems"(2) rel] .
      have run: "admit_loop env relieve demand selections (passes + 1) p w2 d2 = (p', w', d')"
        using "1.prems"(1) Inl True rel unfolding loop by (simp add: att)
      have "shrinks ?slot d2 d' \<and> charged_like p p' \<and>
          (pr_tracked p' \<longrightarrow> length (st_entries (d_undo d')) < st_capacity (d_undo d'))"
        using "1.IH"(1) [OF att [symmetric] refl refl refl Inl True rel [symmetric] refl run "1.prems"(2)
            shrinks_ok [OF ok1 d2] "1.prems"(4,5)] .
      then show ?thesis
        using d1(1) d2 shrinks_trans by blast
    next
      case False
      show ?thesis
      proof (cases "evict_oldest_history env w1 d1 (0, 0)")
        case None
        then have "(p', w', d') = (p, w1, d1)"
          using "1.prems"(1) Inl False unfolding loop by (simp add: att)
        with d1(1) "1.prems"(4) show ?thesis
          by simp
      next
        case (Some x)
        obtain w2 d2 where x: "x = (w2, d2)"
          by (cases x)
        have d2: "shrinks ?slot d1 d2"
          using evict_oldest_history_shrinks Some x by blast
        have run: "admit_loop env relieve demand selections passes p w2 d2 = (p', w', d')"
          using "1.prems"(1) Inl False Some x unfolding loop by (simp add: att)
        have "shrinks ?slot d2 d' \<and> charged_like p p' \<and>
            (pr_tracked p' \<longrightarrow> length (st_entries (d_undo d')) < st_capacity (d_undo d'))"
          using "1.IH"(2) [OF att [symmetric] refl refl refl Inl False Some x [symmetric] run "1.prems"(2)
              shrinks_ok [OF ok1 d2] "1.prems"(4,5)] .
        then show ?thesis
          using d1(1) d2 shrinks_trans by blast
      qed
    qed
  qed
qed

section \<open>Typing merges\<close>

lemma boundary_insert:
  assumes "valid_utf8 t" "char_boundary t s" "valid_utf8 i"
  shows "char_boundary (take s t @ i @ drop s t) s"
    and "char_boundary (take s t @ i @ drop s t) (s + length i)"
proof -
  have s: "length (take s t) = s"
    using char_boundary_le [OF assms(2)] by simp
  have v: "valid_utf8 (drop s t)"
    using valid_utf8_cut [OF assms(1,2)] by simp
  then have "valid_utf8 (i @ drop s t)"
    using assms(3) by (simp add: valid_utf8_append)
  then show "char_boundary (take s t @ i @ drop s t) s"
    using char_boundary_append_right [of "i @ drop s t" "take s t" s] s by simp
  show "char_boundary (take s t @ i @ drop s t) (s + length i)"
    using char_boundary_append_right [OF v, of "take s t @ i" "s + length i"] s by simp
qed

text \<open>One insertion, as a record.\<close>

lemma exact_insert_iff:
  assumes "valid_utf8 t" "oe_before oe = (s, s)" "oe_after oe = (s, s + length (text_of (oe_inserted oe)))"
    "owned (oe_inverse oe)" "owned (oe_inserted oe)"
  shows "exact t t' [oe] \<longleftrightarrow>
    char_boundary t s \<and> t' = take s t @ text_of (oe_inserted oe) @ drop s t \<and> text_of (oe_inverse oe) = []"
    (is "?exact \<longleftrightarrow> ?insert")
proof
  assume ?exact
  then have e: "char_boundary t s" "t' = take s t @ text_of (oe_inserted oe) @ drop s t"
    "take s t' @ text_of (oe_inverse oe) @ drop (s + length (text_of (oe_inserted oe))) t' = t"
    using assms(2,3) by (auto simp: exact_def redo_edit_def undo_edit_def sub_0_take)
  have "length (take s t) = s"
    using char_boundary_le [OF e(1)] by simp
  with e(2,3) have "take s t @ text_of (oe_inverse oe) @ drop s t = t"
    by simp
  then have "length (take s t @ text_of (oe_inverse oe) @ drop s t) = length t"
    by simp
  then have "text_of (oe_inverse oe) = []"
    using char_boundary_le [OF e(1)] by simp
  with e show ?insert
    by simp
next
  assume i: ?insert
  then have "length (take s t) = s"
    using char_boundary_le by auto
  moreover have "valid_utf8 (text_of (oe_inserted oe))"
    using assms(5) by (rule owned_valid)
  ultimately show ?exact
    using i assms boundary_insert [OF assms(1), of s "text_of (oe_inserted oe)"]
    by (auto simp: exact_def redo_edit_def undo_edit_def sub_0_take owned_edits_def)
qed

lemma typed_text:
  assumes "entry_ok e" "typed e"
  obtains oe a s where "en_edits e = [oe]" "oe_before oe = (s, s)"
    "oe_after oe = (s, s + length (text_of (oe_inserted oe)))" "em_after (en_metadata e) = [a]"
    "sel_caret a = s + length (text_of (oe_inserted oe))" "owned (oe_inserted oe)" "owned (oe_inverse oe)"
    "char_boundary (text_of (en_before e)) s" "text_of (oe_inverse oe) = []"
    "text_of (en_after e) =
       take s (text_of (en_before e)) @ text_of (oe_inserted oe) @ drop s (text_of (en_before e))"
proof -
  obtain oe a s where oe: "en_edits e = [oe]" "oe_before oe = (s, s)"
    "oe_after oe = (s, s + length (text_of (oe_inserted oe)))" "em_after (en_metadata e) = [a]"
    "sel_caret a = s + length (text_of (oe_inserted oe))"
    using assms(2) unfolding typed_def by blast
  have ex: "exact (text_of (en_before e)) (text_of (en_after e)) [oe]"
    "valid_utf8 (text_of (en_before e))"
    using assms(1) oe(1) by (auto simp: entry_ok_def owned_valid)
  then have o: "owned (oe_inverse oe)" "owned (oe_inserted oe)"
    by (simp_all add: exact_def owned_edits_def)
  show thesis
    using exact_insert_iff [OF ex(2) oe(2,3) o] ex(1) that [OF oe o(2,1)] by simp
qed

text \<open>The new entry starts where the caret of the previous one stands.\<close>

definition continues :: "entry \<Rightarrow> entry \<Rightarrow> bool" where
  "continues l e \<longleftrightarrow>
     (\<exists>oe b. en_edits e = [oe] \<and> em_before (en_metadata e) = [b] \<and>
        fst (oe_before oe) = sel_caret b \<and> em_after (en_metadata l) = em_before (en_metadata e))"

lemma merge_entry_ok:
  assumes "entry_ok l" "entry_ok e" "typed l" "typed e" "continues l e"
    "text_of (en_after l) = text_of (en_before e)" "en_typing_insert l"
  obtains l' b' where "merge_entry env b l e = Inr (l', b')" "entry_ok l'" "typed l'"
    "point_before l' = point_before l" "en_after l' = en_after e" "en_after_state l' = en_after_state e"
    "en_after_metadata l' = en_after_metadata l" "en_group l' = en_group l"
proof -
  obtain le a s where l: "en_edits l = [le]" "oe_before le = (s, s)"
    "oe_after le = (s, s + length (text_of (oe_inserted le)))" "em_after (en_metadata l) = [a]"
    "sel_caret a = s + length (text_of (oe_inserted le))" "owned (oe_inserted le)" "owned (oe_inverse le)"
    "char_boundary (text_of (en_before l)) s" "text_of (oe_inverse le) = []"
    "text_of (en_after l) =
       take s (text_of (en_before l)) @ text_of (oe_inserted le) @ drop s (text_of (en_before l))"
    by (rule typed_text [OF assms(1,3)])
  obtain ne c r where e: "en_edits e = [ne]" "oe_before ne = (r, r)"
    "oe_after ne = (r, r + length (text_of (oe_inserted ne)))" "em_after (en_metadata e) = [c]"
    "sel_caret c = r + length (text_of (oe_inserted ne))" "owned (oe_inserted ne)" "owned (oe_inverse ne)"
    "char_boundary (text_of (en_before e)) r" "text_of (oe_inverse ne) = []"
    "text_of (en_after e) =
       take r (text_of (en_before e)) @ text_of (oe_inserted ne) @ drop r (text_of (en_before e))"
    by (rule typed_text [OF assms(2,4)])
  let ?t = "text_of (en_before l)"
  let ?i = "text_of (oe_inserted le)"
  let ?j = "text_of (oe_inserted ne)"
  have r: "r = s + length ?i"
    using assms(5) l(4,5) e(1,2) by (auto simp: continues_def)
  have s: "length (take s ?t) = s"
    using char_boundary_le [OF l(8)] by simp
  have after: "text_of (en_after e) = take s ?t @ (?i @ ?j) @ drop s ?t"
    using e(10) s unfolding assms(6) [symmetric] l(10) r by simp
  obtain inserted b' where ins:
    "concat_coalesced (e_meter env) b (oe_inserted le) (oe_inserted ne) TYPED_LEAF_BYTES = Inr (inserted, b')"
    "owned inserted" "text_of inserted = ?i @ ?j"
    using concat_coalesced_ok [OF l(6) e(6)] .
  let ?oe = "le\<lparr>oe_inserted := inserted, oe_after := (fst (oe_after le), snd (oe_after ne))\<rparr>"
  let ?l' = "l\<lparr>en_after := en_after e, en_after_state := en_after_state e,
                     en_metadata := (en_metadata l)\<lparr>em_after := em_after (en_metadata e),
                                       em_monotonic_ms := em_monotonic_ms (en_metadata e)\<rparr>,
                     en_edits := [?oe],
                     en_undo_reservation := en_undo_reservation e, en_structure := en_structure e\<rparr>"
  have oe: "oe_before ?oe = (s, s)" "oe_after ?oe = (s, s + length (text_of (oe_inserted ?oe)))"
    using l(2,3) e(3) ins(3) r by simp_all
  have "valid_utf8 ?t"
    using assms(1) by (simp add: entry_ok_def owned_valid)
  from exact_insert_iff [OF this oe] have "exact ?t (text_of (en_after e)) [?oe]"
    using l(7-9) ins(2,3) after by simp
  moreover have "typed ?l'"
    using oe e(4,5) ins(3) r by (auto simp: typed_def)
  ultimately have "entry_ok ?l'"
    using assms(1,2) by (simp add: entry_ok_def)
  moreover have "merge_entry env b l e = Inr (?l', b')"
    using l(1) e(1) ins(1) by (simp add: merge_entry_def)
  ultimately show thesis
    using \<open>typed ?l'\<close> by (intro that [of ?l' b']) simp_all
qed

section \<open>Committing\<close>

text \<open>A prepared edit for the current revision, with its slot if it has a charge.\<close>

definition ready :: "doc \<Rightarrow> prepared \<Rightarrow> bool" where
  "ready d p \<longleftrightarrow>
     (let e = pr_entry p in
      point_before e = now d \<and> en_after_metadata e = sn_metadata (d_current d) \<and> entry_ok e \<and>
      (en_typing_insert e \<longrightarrow>
         (\<exists>oe b. en_edits e = [oe] \<and> em_before (en_metadata e) = [b] \<and> fst (oe_before oe) = sel_caret b)) \<and>
      (pr_tracked p \<longrightarrow> length (st_entries (d_undo d)) < st_capacity (d_undo d)))"

lemma stack_last_rev: "stack_last s = (case rev (st_entries s) of [] \<Rightarrow> None | e # _ \<Rightarrow> Some e)"
  by (cases "st_entries s" rule: rev_cases) (simp_all add: stack_last_def)

lemma stack_last_Some:
  "stack_last s = Some e \<Longrightarrow> st_entries s = butlast (st_entries s) @ [e]"
  by (cases "st_entries s" rule: rev_cases) (simp_all add: stack_last_def)

text \<open>
  Where undo leads after a commit: to the state before this edit, or, when typing was merged, to the
  state before the run of typing.
\<close>

definition resumes :: "doc \<Rightarrow> doc \<Rightarrow> bool" where
  "resumes d d' \<longleftrightarrow>
     (d_last_merged d' \<longrightarrow> st_entries (d_undo d) \<noteq> []) \<and>
     (st_entries (d_undo d') \<noteq> [] \<longrightarrow>
        point_before (last (st_entries (d_undo d'))) =
          (if d_last_merged d' then point_before (last (st_entries (d_undo d))) else now d))"

lemma resumes_shrinks:
  assumes "shrinks slot d d1" "resumes d1 d'"
  shows "resumes d d'"
proof -
  obtain m where "st_entries (d_undo d1) = drop m (st_entries (d_undo d))"
    using assms(1) unfolding shrinks_def by blast
  then have "st_entries (d_undo d1) \<noteq> [] \<longrightarrow>
      st_entries (d_undo d) \<noteq> [] \<and> last (st_entries (d_undo d1)) = last (st_entries (d_undo d))"
    by (auto simp: last_drop)
  moreover have "now d1 = now d"
    using shrinks_same [OF assms(1)] by (simp add: now_def)
  ultimately show ?thesis
    using assms(2) by (auto simp: resumes_def)
qed

definition commits :: "doc \<Rightarrow> prepared \<Rightarrow> doc \<Rightarrow> bool" where
  "commits d p d' \<longleftrightarrow>
     d_current d' = (d_current d)\<lparr>sn_change := Some (pr_change p), sn_root := en_after (pr_entry p),
       sn_state := en_after_state (pr_entry p), sn_revision := pr_revision p\<rparr> \<and>
     d_saved d' = d_saved d \<and> d_policy d' = d_policy d \<and> st_entries (d_redo d') = [] \<and>
     d_last_untracked d' = (\<not> pr_tracked p) \<and>
     (\<not> pr_tracked p \<longrightarrow> st_entries (d_undo d') = []) \<and> resumes d d'"

lemma commit_pushed_ok:
  assumes "doc_ok slot d" "ready d p" "st_entries (d_redo d) = []"
    "length es \<le> st_capacity (d_undo d)" "undo_chain (point_after (pr_entry p)) (rev es)"
    "\<forall>e\<in>set es. entry_ok e"
    "d1 = d\<lparr>d_current := (d_current d)\<lparr>sn_change := Some (pr_change p),
        sn_root := en_after (pr_entry p), sn_state := en_after_state (pr_entry p),
        sn_revision := pr_revision p\<rparr>,
      d_last_untracked := u, d_undo := (d_undo d)\<lparr>st_entries := es\<rparr>, d_last_merged := m\<rparr>"
    "trim_history env w d1 = (w', d')"
  shows "doc_ok slot d'"
proof -
  have good: "good (d_current d1)"
    using assms(2,7) by (simp add: good_def ready_def entry_ok_def Let_def)
  have now: "now d1 = point_after (pr_entry p)"
    using assms(2,7) by (simp add: now_def ready_def Let_def)
  have st: "stack_ok slot (d_undo d1)" "stack_ok slot (d_redo d1)"
    using assms(1,4,7) by (auto simp: doc_ok_def intro: stack_ok_update)
  note tr = trim_history_shrinks [OF assms(8), of slot]
  obtain k n where d': "st_entries (d_undo d') = drop k (st_entries (d_undo d1))"
    "st_entries (d_redo d') = drop n (st_entries (d_redo d1))"
    "stack_ok slot (d_undo d')" "stack_ok slot (d_redo d')"
    using tr st unfolding shrinks_def by blast
  have ents: "st_entries (d_undo d1) = es" "st_entries (d_redo d1) = []"
    using assms(3,7) by simp_all
  have "now d' = now d1" "d_current d' = d_current d1"
    using shrinks_same [OF tr] by (simp_all add: now_def)
  then show ?thesis
    using good now d' ents trim_history_bound [OF assms(8)] assms(5,6) undo_chain_drop
    by (auto simp: doc_ok_def dest: in_set_dropD)
qed

lemma merges_typed:
  assumes "merges d e" "doc_ok slot d" "entry_ok e"
    "\<exists>oe b. en_edits e = [oe] \<and> em_before (en_metadata e) = [b] \<and> fst (oe_before oe) = sel_caret b"
  obtains l where "stack_last (d_undo d) = Some l" "entry_ok l" "typed l" "typed e" "continues l e"
    "en_typing_insert l" "en_typing_insert e" "point_after l = now d"
proof -
  obtain l where l: "stack_last (d_undo d) = Some l" "en_typing_insert l" "en_typing_insert e"
    "follows (en_metadata e) (en_metadata l) (typing_interval_ms (d_policy d))"
    using assms(1) by (auto simp: merges_def split: option.splits)
  have "l \<in> set (st_entries (d_undo d))"
    using stack_last_Some [OF l(1)] by (metis in_set_conv_decomp)
  then have ok: "entry_ok l"
    using assms(2) by (auto simp: doc_ok_def)
  obtain es where "rev (st_entries (d_undo d)) = l # es"
    using l(1) by (auto simp: stack_last_rev split: list.splits)
  then have "point_after l = now d"
    using assms(2) by (auto simp: doc_ok_def)
  moreover have "continues l e"
    using l(4) assms(4) by (auto simp: continues_def follows_def)
  ultimately show thesis
    using that l ok assms(3) by (auto simp: entry_ok_def)
qed

lemma commit_unchecked_ok:
  assumes "doc_ok slot d" "ready d p"
  obtains w' d' where "commit_unchecked env w d p = Inr (w', d')" "doc_ok slot d'" "commits d p d'"
proof -
  let ?e = "pr_entry p"
  obtain w0 d0 where d0: "clear_redo env w d = (w0, d0)"
    by fastforce
  then have d0_eq: "d0 = d\<lparr>d_redo := stack_clear (d_redo d)\<rparr>" "st_entries (d_redo d0) = []"
    by (auto simp: clear_redo_def stack_clear_def)
  have ok0: "doc_ok slot d0"
    using assms(1) clear_redo_shrinks [OF d0] by (rule shrinks_ok)
  have ready0: "ready d0 p"
    using assms(2) by (simp add: ready_def d0_eq(1) now_def Let_def)
  let ?cur = "(d_current d0)\<lparr>sn_change := Some (pr_change p), sn_root := en_after ?e,
                  sn_state := en_after_state ?e, sn_revision := pr_revision p\<rparr>"
  let ?d = "d0\<lparr>d_current := ?cur, d_last_untracked := \<not> pr_tracked p\<rparr>"
  have run: "commit_unchecked env w d p =
     (if \<not> pr_tracked p then
        let (w, d) = clear_undo env w0 ?d in Inr (drop_entry env w ?e, d\<lparr>d_last_merged := False\<rparr>)
      else if merges ?d ?e then
        (case stack_last (d_undo d0) of None \<Rightarrow> Inl Panicked
         | Some l \<Rightarrow>
            and_then (merge_entry env (w_bytes w0) l ?e) (\<lambda>(l', b).
              Inr (trim_history env (drop_merged env (w0\<lparr>w_bytes := b\<rparr>) l ?e)
                (?d\<lparr>d_undo := (d_undo d0)\<lparr>st_entries := butlast (st_entries (d_undo d0)) @ [l']\<rparr>,
                   d_last_merged := True\<rparr>))))
      else
        Inr (trim_history env w0 (?d\<lparr>d_undo := stack_push (d_undo d0) ?e, d_last_merged := False\<rparr>)))"
    by (simp add: commit_unchecked_def d0 Let_def split: option.split)
  have e_ok: "entry_ok ?e" "point_before ?e = now d0" "en_after_metadata ?e = sn_metadata (d_current d0)"
    using ready0 by (simp_all add: ready_def Let_def)
  have committed: "commits d p d'" if "trim_history env w1 d1 = (w', d')" "d_current d1 = ?cur"
    "d_saved d1 = d_saved d" "d_policy d1 = d_policy d" "st_entries (d_redo d1) = []"
    "d_last_untracked d1 = (\<not> pr_tracked p)" "pr_tracked p"
    "resumes d d1" for w1 d1 w' d'
  proof -
    note run = that
    note tr = trim_history_shrinks [OF that(1), of slot]
    obtain k where k: "st_entries (d_redo d') = []" "st_entries (d_undo d') = drop k (st_entries (d_undo d1))"
      using tr run(5) unfolding shrinks_def by auto
    have "last (st_entries (d_undo d')) = last (st_entries (d_undo d1))" if "st_entries (d_undo d') \<noteq> []"
      using that k(2) by (simp add: last_drop)
    then have "resumes d d'"
      using run(8) shrinks_same [OF tr] k(2) unfolding resumes_def by (auto simp del: prod.inject)
    then show ?thesis
      using shrinks_same [OF tr] run(2-7) k(1) d0_eq(1) by (simp add: commits_def)
  qed
  have now0: "now d0 = now d"
    by (simp add: d0_eq(1) now_def)
  show thesis
  proof (cases "pr_tracked p")
    case untracked: False
    obtain w1 d1 where d1: "clear_undo env w0 ?d = (w1, d1)"
      by fastforce
    have d1_eq: "d1 = ?d\<lparr>d_undo := stack_clear (d_undo d0)\<rparr>"
      using d1 by (auto simp: clear_undo_def)
    have "doc_ok slot (d1\<lparr>d_last_merged := False\<rparr>)"
    proof -
      have "stack_ok slot (stack_clear (d_undo d0))" "stack_ok slot (d_redo d0)"
        using ok0 stack_clear_ok by (auto simp: doc_ok_def)
      then show ?thesis
        using e_ok(1) d0_eq(2)
        by (simp add: d1_eq doc_ok_def good_def entry_ok_def history_size_def) (simp add: stack_clear_def)
    qed
    moreover have "commits d p (d1\<lparr>d_last_merged := False\<rparr>)"
      using untracked d0_eq by (simp add: d1_eq commits_def stack_clear_def resumes_def)
    ultimately show thesis
      using untracked run d1 that by simp
  next
    case tracked: True
    show thesis
    proof (cases "merges ?d ?e")
      case True
      then have "merges d0 ?e"
        by (simp add: merges_def split: option.splits)
      moreover have "en_typing_insert ?e"
        using True by (auto simp: merges_def split: option.splits)
      then have "\<exists>oe b. en_edits ?e = [oe] \<and> em_before (en_metadata ?e) = [b] \<and> fst (oe_before oe) = sel_caret b"
        using ready0 by (simp add: ready_def Let_def)
      ultimately obtain l where l: "stack_last (d_undo d0) = Some l" "entry_ok l" "typed l" "typed ?e"
        "continues l ?e" "en_typing_insert l" "point_after l = now d0"
        using merges_typed [OF _ ok0 e_ok(1)] by metis
      have "text_of (en_after l) = text_of (en_before ?e)"
        using l(7) e_ok(2) by (simp add: now_def)
      then obtain l' b' where l': "merge_entry env (w_bytes w0) l ?e = Inr (l', b')" "entry_ok l'"
        "point_before l' = point_before l" "en_after l' = en_after ?e"
        "en_after_state l' = en_after_state ?e" "en_after_metadata l' = en_after_metadata l"
        using merge_entry_ok [OF l(2) e_ok(1) l(3-5) _ l(6)] by metis
      let ?es = "butlast (st_entries (d_undo d0)) @ [l']"
      let ?d1 = "?d\<lparr>d_undo := (d_undo d0)\<lparr>st_entries := ?es\<rparr>, d_last_merged := True\<rparr>"
      obtain w' d' where d': "trim_history env (drop_merged env (w0\<lparr>w_bytes := b'\<rparr>) l ?e) ?d1 = (w', d')"
        by fastforce
      have ents: "st_entries (d_undo d0) = butlast (st_entries (d_undo d0)) @ [l]"
        using l(1) by (rule stack_last_Some)
      then have rev: "rev (st_entries (d_undo d0)) = l # rev (butlast (st_entries (d_undo d0)))"
        by (metis rev_eq_Cons_iff rev_rev_ident)
      have "point_after l' = point_after ?e"
        using l'(4-6) l(7) e_ok(3) by (simp add: now_def)
      then have chain: "undo_chain (point_after ?e) (rev ?es)"
        using ok0 l'(3) rev by (auto simp: doc_ok_def)
      have "length ?es = length (st_entries (d_undo d0))"
        using ents by (metis length_append_singleton)
      then have len: "length ?es \<le> st_capacity (d_undo d0)"
        using ok0 by (simp add: doc_ok_def stack_ok_def)
      have all: "\<forall>e\<in>set ?es. entry_ok e"
        using ok0 l'(2) by (auto simp: doc_ok_def dest: in_set_butlastD)
      have "doc_ok slot d'"
        by (rule commit_pushed_ok [OF ok0 ready0 d0_eq(2) len chain all _ d']) simp
      moreover have "commits d p d'"
        by (rule committed [OF d'])
          (use tracked d0_eq l'(3) l(1) in \<open>simp_all add: stack_last_def resumes_def split: if_splits\<close>)
      moreover have "commit_unchecked env w d p = Inr (w', d')"
        using tracked True l(1) l'(1) d' run by simp
      ultimately show thesis
        using that by blast
    next
      case False
      let ?es = "st_entries (d_undo d0) @ [?e]"
      have room: "length (st_entries (d_undo d0)) < st_capacity (d_undo d0)"
        using ready0 tracked by (simp add: ready_def Let_def)
      let ?d1 = "?d\<lparr>d_undo := stack_push (d_undo d0) ?e, d_last_merged := False\<rparr>"
      obtain w' d' where d': "trim_history env w0 ?d1 = (w', d')"
        by fastforce
      have chain: "undo_chain (point_after ?e) (rev ?es)"
        using ok0 e_ok(2) by (simp add: doc_ok_def)
      have all: "\<forall>e\<in>set ?es. entry_ok e"
        using ok0 e_ok(1) by (auto simp: doc_ok_def)
      have "doc_ok slot d'"
        by (rule commit_pushed_ok [OF ok0 ready0 d0_eq(2) _ chain all _ d'])
          (use room in \<open>simp_all add: stack_push_entries\<close>)
      moreover have "commits d p d'"
        by (rule committed [OF d'])
          (use tracked d0_eq room e_ok(2) now0 in \<open>simp_all add: stack_push_entries resumes_def\<close>)
      moreover have "commit_unchecked env w d p = Inr (w', d')"
        using tracked False d' run by simp
      ultimately show thesis
        using that by blast
    qed
  qed
qed

section \<open>Applying\<close>

text \<open>The same step with other charges and other caller metadata.\<close>

definition same_step :: "prepared \<Rightarrow> prepared \<Rightarrow> bool" where
  "same_step p q \<longleftrightarrow>
     pr_change q = pr_change p \<and> pr_document q = pr_document p \<and> pr_base q = pr_base p \<and>
     pr_revision q = pr_revision p \<and>
     point_before (pr_entry q) = point_before (pr_entry p) \<and>
     point_after (pr_entry q) = point_after (pr_entry p) \<and> en_edits (pr_entry q) = en_edits (pr_entry p)"

lemma charged_like_same:
  assumes "charged_like p p'"
  shows "same_step p p'" "en_typing_insert (pr_entry p') = en_typing_insert (pr_entry p)"
proof -
  from assms obtain a b c where p': "p' = p\<lparr>pr_entry := (pr_entry p)\<lparr>en_undo_reservation := a,
      en_structure := b\<rparr>, pr_tracked := c\<rparr>"
    unfolding charged_like_def by blast
  show "same_step p p'" "en_typing_insert (pr_entry p') = en_typing_insert (pr_entry p)"
    by (simp_all add: p' same_step_def)
qed

lemma same_step_with:
  "same_step p q \<Longrightarrow>
     same_step p (q\<lparr>pr_entry := (pr_entry q)\<lparr>en_metadata := m, en_typing_insert := t\<rparr>\<rparr>)"
  by (simp add: same_step_def)

lemma typing_insert_typed:
  assumes "staged d tr p" "typing_insert tr m" "same_step p q" "en_metadata (pr_entry q) = m"
  shows "typed (pr_entry q) \<and>
    (\<exists>oe b. en_edits (pr_entry q) = [oe] \<and> em_before (en_metadata (pr_entry q)) = [b] \<and>
      fst (oe_before oe) = sel_caret b)"
proof -
  obtain e a b where e: "tr_edits tr = [e]" "em_before m = [b]" "em_after m = [a]" "ed_end e \<le> ed_start e"
    "sel_caret b = ed_start e" "sel_caret a = sat_add (ed_start e) (length (ed_insert e))"
    using assms(2) by (auto simp: typing_insert_def split: list.splits)
  have "map redo_edit (en_edits (pr_entry p)) = [e]"
    using assms(1) e(1) by (simp add: staged_def sorted_edits_def PIECEWISE_EDITS_def Let_def)
  then obtain oe where oe: "en_edits (pr_entry p) = [oe]" "redo_edit oe = e"
    by auto
  have ex: "exact (snap_text (d_current d)) (text_of (en_after (pr_entry p))) [oe]" "single_after [oe]"
    using assms(1) oe(1) by (auto simp: staged_def Let_def)
  have after: "oe_after oe = (ed_start e, ed_start e + length (ed_insert e))"
    "ed_start e + length (ed_insert e) \<le> usize_max"
    using ex(2) oe(2) by (auto simp: single_after_def redo_edit_def)
  have before: "oe_before oe = (ed_start e, ed_start e)"
    using ex(1) oe(2) e(4) by (cases "oe_before oe") (auto simp: exact_def redo_edit_def)
  have "text_of (oe_inserted oe) = ed_insert e"
    using oe(2) by (auto simp: redo_edit_def)
  then show ?thesis
    using assms(3,4) oe(1) after before e sat_add_exact [OF after(2)]
    by (auto simp: typed_def same_step_def)
qed

lemma staged_ready:
  assumes "doc_ok slot d" "staged d tr p" "shrinks slot d d1" "same_step p q"
    "pr_tracked q \<longrightarrow> length (st_entries (d_undo d1)) < st_capacity (d_undo d1)"
    "en_typing_insert (pr_entry q) \<longrightarrow> typing_insert tr (en_metadata (pr_entry q))"
  shows "ready d1 q" "validate_prepared d1 q = Inr ()"
proof -
  note same = shrinks_same [OF assms(3)]
  have "owned (sn_root (d_current d))"
    using assms(1) by (simp add: doc_ok_def good_def)
  moreover have "en_typing_insert (pr_entry q) \<longrightarrow> typed (pr_entry q) \<and>
    (\<exists>oe b. en_edits (pr_entry q) = [oe] \<and> em_before (en_metadata (pr_entry q)) = [b] \<and>
      fst (oe_before oe) = sel_caret b)"
    using typing_insert_typed [OF assms(2) _ assms(4)] assms(6) by blast
  ultimately show "ready d1 q"
    using assms(2,4,5) same
    by (auto simp: ready_def staged_def same_step_def now_def entry_ok_def snap_text_def Let_def)
  show "validate_prepared d1 q = Inr ()"
    using assms(2,4) same by (simp add: validate_prepared_def staged_def same_step_def Let_def)
qed

text \<open>The receipt published with \<open>cur'\<close>: it lists edits that lead from the text of \<open>cur\<close> to it.\<close>

definition receipt_for :: "change_direction \<Rightarrow> snapshot \<Rightarrow> snapshot \<Rightarrow> bool" where
  "receipt_for direction cur cur' \<longleftrightarrow>
     (\<exists>oes.
        (if direction = DirUndo then exact (snap_text cur') (snap_text cur) oes
         else exact (snap_text cur) (snap_text cur') oes) \<and>
        sn_change cur' = Some
          \<lparr>ac_document = sn_id cur, ac_before_revision = sn_revision cur,
           ac_after_revision = sn_revision cur + 1, ac_before_state = sn_state cur,
           ac_after_state = sn_state cur', ac_direction = direction,
           ac_edits = map (compact direction) oes\<rparr>)"

text \<open>What a successful apply does: the reference rendering, a new revision, an exact receipt.\<close>

definition applied :: "doc \<Rightarrow> transaction \<Rightarrow> doc \<Rightarrow> bool" where
  "applied d tr d' \<longleftrightarrow>
     (let cur = d_current d; cur' = d_current d' in
      tr_base tr = sn_revision cur \<and> accepted (snap_text cur) None (sorted_edits tr) \<and>
      snap_text cur' = render 0 (snap_text cur) (sorted_edits tr) \<and>
      sn_revision cur' = sn_revision cur + 1 \<and> sn_metadata cur' = sn_metadata cur \<and>
      sn_id cur' = sn_id cur \<and> d_saved d' = d_saved d \<and> d_policy d' = d_policy d \<and>
      st_entries (d_redo d') = [] \<and>
      (d_last_untracked d' \<longrightarrow> st_entries (d_undo d') = []) \<and>
      resumes d d' \<and>
      receipt_for DirEdit cur cur')"

lemma finish_apply_ok:
  assumes "doc_ok slot d" "staged d tr p" "shrinks slot d d1" "same_step p q"
    "pr_tracked q \<longrightarrow> length (st_entries (d_undo d1)) < st_capacity (d_undo d1)"
    "en_typing_insert (pr_entry q) \<longrightarrow> typing_insert tr (en_metadata (pr_entry q))"
    "check_transaction d tr = Inr (tr\<lparr>tr_edits := sorted_edits tr\<rparr>)"
  obtains w' d' where "finish_apply env q w d1 = (Inr (sn_revision (d_current d) + 1), w', d')"
    "doc_ok slot d'" "applied d tr d'"
proof -
  note r = staged_ready [OF assms(1-6)]
  obtain w' d' where c: "commit_unchecked env w d1 q = Inr (w', d')" "doc_ok slot d'" "commits d1 q d'"
    using commit_unchecked_ok [OF shrinks_ok [OF assms(1,3)] r(1)] .
  have good: "good (d_current d)"
    using assms(1) by (simp add: doc_ok_def)
  note check = check_transaction_ok [OF assms(7) good]
  note same = shrinks_same [OF assms(3)]
  have cur: "d_current d' = (d_current d)\<lparr>sn_change := Some (pr_change p), sn_root := en_after (pr_entry p),
       sn_state := en_after_state (pr_entry p), sn_revision := pr_revision p\<rparr>"
    using c(3) assms(4) same by (auto simp: commits_def same_step_def)
  have "resumes d d'"
    using c(3) resumes_shrinks [OF assms(3)] by (simp add: commits_def)
  moreover have "d_last_untracked d' \<longrightarrow> st_entries (d_undo d') = []" "st_entries (d_redo d') = []"
    "d_saved d' = d_saved d" "d_policy d' = d_policy d"
    using c(3) same by (auto simp: commits_def)
  moreover have "receipt_for DirEdit (d_current d) (d_current d')"
    unfolding receipt_for_def
  proof (intro exI [of _ "en_edits (pr_entry p)"])
    have "exact (snap_text (d_current d)) (text_of (en_after (pr_entry p))) (en_edits (pr_entry p))"
      "pr_change p = \<lparr>ac_document = sn_id (d_current d), ac_before_revision = sn_revision (d_current d),
         ac_after_revision = sn_revision (d_current d) + 1, ac_before_state = sn_state (d_current d),
         ac_after_state = en_after_state (pr_entry p), ac_direction = DirEdit,
         ac_edits = map (compact DirEdit) (en_edits (pr_entry p))\<rparr>"
      using assms(2) unfolding staged_def Let_def by blast+
    then show "(if DirEdit = DirUndo
        then exact (snap_text (d_current d')) (snap_text (d_current d)) (en_edits (pr_entry p))
        else exact (snap_text (d_current d)) (snap_text (d_current d')) (en_edits (pr_entry p))) \<and>
      sn_change (d_current d') = Some
        \<lparr>ac_document = sn_id (d_current d), ac_before_revision = sn_revision (d_current d),
         ac_after_revision = sn_revision (d_current d) + 1, ac_before_state = sn_state (d_current d),
         ac_after_state = sn_state (d_current d'), ac_direction = DirEdit,
         ac_edits = map (compact DirEdit) (en_edits (pr_entry p))\<rparr>"
      by (simp add: cur snap_text_def)
  qed
  ultimately have "applied d tr d'"
    using assms(2) check(2,4) unfolding applied_def
    by (simp add: cur staged_def snap_text_def Let_def)
  moreover have "finish_apply env q w d1 = (Inr (sn_revision (d_current d) + 1), w', d')"
    using r(2) c(1) cur assms(2) by (simp add: finish_apply_def finish_def staged_def Let_def)
  ultimately show thesis
    using that c(2) by blast
qed

lemma validate_errors: "validate m n k = Inl err \<Longrightarrow> err \<in> stage_errors"
  by (auto simp: validate_def stage_errors_def split: if_splits)

lemma check_selections_errors: "check_selections d p m = Inl err \<Longrightarrow> err \<in> stage_errors"
  by (auto simp: check_selections_def and_then_Inl_iff stage_errors_def dest!: validate_errors
      split: if_splits)

lemma sorted_edits_idem: "sorted_edits (tr\<lparr>tr_edits := sorted_edits tr\<rparr>) = sorted_edits tr"
  by (simp add: sorted_edits_def sort_key_id_if_sorted)

lemma applied_sorted:
  "applied d (tr\<lparr>tr_edits := sorted_edits tr\<rparr>) d' \<longleftrightarrow> applied d tr d'"
  by (simp add: applied_def sorted_edits_idem)

lemma relieve_text_ok:
  assumes "relief slot relieve" "relieve_text env relieve tr m w d = (r, w', d')"
  shows "shrinks slot d d' \<and>
    (case r of Inl err \<Rightarrow> err \<in> stage_errors \<and> (m = None \<longrightarrow> check_transaction d tr = Inl err)
     | Inr tr' \<Rightarrow> tr' = tr \<or> tr' = tr\<lparr>tr_edits := sorted_edits tr\<rparr>)"
proof (cases "lacks_room env w d (DemandText (text_need (e_sizes env) tr))")
  case False
  with assms(2) show ?thesis
    by (auto simp: relieve_text_def)
next
  case True
  have checked: "tr' = tr\<lparr>tr_edits := sorted_edits tr\<rparr>" if "check_transaction d tr = Inr tr'" for tr'
    using that by (auto simp: check_transaction_def and_then_Inr_iff sorted_edits_def Let_def split: if_splits)
  have refused: "err \<in> stage_errors" if "check_transaction d tr = Inl err" for err
    using check_transaction_errors [OF that] by (auto simp: stage_errors_def)
  have invalid: "InvalidBoundary \<in> stage_errors"
    by (simp add: stage_errors_def)
  obtain w1 d1 where rel: "relieve (DemandText (text_need (e_sizes env) tr)) w d = (w1, d1)"
    by fastforce
  then have "shrinks slot d d1"
    using relief.shrinks [OF assms(1)] by blast
  then have rel_ok: "shrinks slot d d1" .
  show ?thesis
  proof (cases "check_transaction d tr")
    case (Inl err)
    with True assms(2) have "r = Inl err" "d' = d"
      by (simp_all add: relieve_text_def Let_def)
    with refused [OF Inl] Inl show ?thesis
      by simp
  next
    case (Inr tr')
    show ?thesis
    proof (cases m)
      case None
      with True assms(2) rel Inr have "r = Inr tr'" "d' = d1"
        by (simp_all add: relieve_text_def Let_def)
      with checked [OF Inr] rel_ok show ?thesis
        by simp
    next
      case (Some m')
      let ?len = "snapshot_len (d_current d)"
      let ?after = "sat_add (?len - fold (\<lambda>e n. sat_add n (ed_end e - ed_start e)) (tr_edits tr') 0)
        (fold (\<lambda>e n. sat_add n (length (ed_insert e))) (tr_edits tr') 0)"
      let ?check = "and_then (validate m' ?len ?after)
        (\<lambda>_. if \<not> before_boundaries d m' then Inl InvalidBoundary else Inr tr')"
      note ctx = True assms(2) rel Inr Some
      show ?thesis
      proof (cases ?check)
        case (Inl err)
        then have "err \<in> stage_errors"
          using validate_errors invalid by (auto simp: and_then_Inl_iff split: if_splits)
        moreover have "r = Inl err" "d' = d"
          using ctx Inl by (simp_all add: relieve_text_def Let_def)
        ultimately show ?thesis
          using Some by simp
      next
        case (Inr u)
        then have "u = tr'"
          by (auto simp: and_then_Inr_iff split: if_splits)
        moreover have "r = Inr u" "d' = d1"
          using ctx Inr by (simp_all add: relieve_text_def Let_def)
        ultimately show ?thesis
          using rel_ok checked [OF \<open>check_transaction d tr = Inr tr'\<close>] by simp
      qed
    qed
  qed
qed

lemma check_transaction_sorted:
  assumes "d_current d1 = d_current d" "tr1 = tr \<or> tr1 = tr\<lparr>tr_edits := sorted_edits tr\<rparr>"
    "check_transaction d1 tr1 = Inl err"
  shows "check_transaction d tr = Inl err"
proof -
  have "sort_key (\<lambda>e. (ed_start e, ed_end e)) (tr_edits tr1) = sorted_edits tr"
    using assms(2) sorted_edits_idem [of tr] by (auto simp: sorted_edits_def)
  moreover have "tr_edits tr1 = [] \<longleftrightarrow> tr_edits tr = []"
    using assms(2) length_sorted_edits [of tr] by auto
  moreover have "tr_base tr1 = tr_base tr"
    using assms(2) by auto
  ultimately show ?thesis
    using assms(1,3)
    by (auto simp: check_transaction_def next_revision_def and_then_Inl_iff ok_or_Inl_iff Let_def
        sorted_edits_def split: if_splits)
qed

lemma short_of_memory_sorted:
  "tr1 = tr \<or> tr1 = tr\<lparr>tr_edits := sorted_edits tr\<rparr> \<Longrightarrow>
     short_of_memory env cur tr1 \<Longrightarrow> short_of_memory env cur tr"
  by (auto simp: short_of_memory_def sorted_edits_idem length_sorted_edits)

lemma sort_one: "length (tr_edits tr) = 1 \<Longrightarrow> sorted_edits tr = tr_edits tr"
  by (auto simp: sorted_edits_def length_Suc_conv)

lemma typing_insert_sorted:
  "typing_insert tr m \<Longrightarrow> typing_insert (tr\<lparr>tr_edits := sorted_edits tr\<rparr>) m"
  using sort_one [of tr] by (auto simp: typing_insert_def split: list.splits)

context relief begin

text \<open>Staging and admission together, for the transaction \<open>tr\<close> that passed text relief.\<close>

lemma staged_admitted:
  assumes "env_ok env" "slot = slot_of env" "doc_ok slot d" "staged d tr p"
    "admit env relieve p selections w d = (q, w', d')"
  shows "shrinks slot d d'" "same_step p q" "\<not> en_typing_insert (pr_entry q)"
    "pr_tracked q \<longrightarrow> length (st_entries (d_undo d')) < st_capacity (d_undo d')"
proof -
  obtain w1 d1 where rel: "relieve (edit_demand (e_sizes env) d p selections) w d = (w1, d1)"
    by fastforce
  have d1: "shrinks slot d d1"
    using rel by (rule shrinks)
  have "admit_loop env relieve (edit_demand (e_sizes env) d p selections) selections 1 p w1 d1 = (q, w', d')"
    using assms(5) rel by (simp add: admit_def Let_def)
  moreover have "relief (slot_of env) relieve"
    using relief_axioms assms(2) by simp
  ultimately have "shrinks slot d1 d' \<and> charged_like p q \<and>
    (pr_tracked q \<longrightarrow> length (st_entries (d_undo d')) < st_capacity (d_undo d'))"
    using admit_loop_ok [OF assms(1)] shrinks_ok [OF assms(3) d1] assms(2,4)
    by (auto simp: staged_def Let_def)
  then show "shrinks slot d d'" "same_step p q" "\<not> en_typing_insert (pr_entry q)"
    "pr_tracked q \<longrightarrow> length (st_entries (d_undo d')) < st_capacity (d_undo d')"
    using shrinks_trans [OF d1] charged_like_same assms(4) by (auto simp: staged_def Let_def)
qed

lemma apply_relieved_ok:
  assumes "env_ok env" "slot = slot_of env" "doc_ok slot d" "inserts_valid (tr_edits tr)"
    "apply_relieved env relieve tr m w d = (r, w', d')"
  shows "case r of
      Inl err \<Rightarrow> shrinks slot d d' \<and> err \<in> stage_errors \<and>
        (m = None \<longrightarrow> check_transaction d tr = Inl err \<or>
           (err = BudgetExceeded \<and> short_of_memory env (d_current d) tr))
    | Inr revision \<Rightarrow>
        doc_ok slot d' \<and> revision = sn_revision (d_current d') \<and>
        (applied d tr d' \<or> (m = None \<and> tr_edits tr = [] \<and> d' = d))"
proof -
  have good: "good (d_current d)"
    using assms(3) by (simp add: doc_ok_def)
  note text_ok = relieve_text_ok [OF relief_axioms]
  consider (stale) "m = None" "tr_base tr \<noteq> sn_revision (d_current d)"
    | (nothing) "m = None" "tr_base tr = sn_revision (d_current d)" "tr_edits tr = []"
    | (run) "m = None \<longrightarrow> tr_base tr = sn_revision (d_current d) \<and> tr_edits tr \<noteq> []"
    by blast
  then show ?thesis
  proof cases
    case stale
    then have "check_transaction d tr = Inl StaleRevision"
      by (simp add: check_transaction_def)
    with stale assms(5) show ?thesis
      by (auto simp: apply_relieved_def stage_errors_def)
  next
    case nothing
    with assms(3,5) show ?thesis
      by (auto simp: apply_relieved_def)
  next
    case run
    obtain r1 w1 d1 where rt: "relieve_text env relieve tr m w d = (r1, w1, d1)"
      by (cases "relieve_text env relieve tr m w d") auto
    note t = text_ok [OF rt]
    show ?thesis
    proof (cases r1)
      case (Inl err)
      then have "(r, w', d') = (Inl err, w1, d1)"
        using assms(5) run rt by (cases m) (auto simp: apply_relieved_def Let_def)
      with t Inl show ?thesis
        by auto
    next
      case (Inr tr1)
      have tr1: "tr1 = tr \<or> tr1 = tr\<lparr>tr_edits := sorted_edits tr\<rparr>" and d1: "shrinks slot d d1"
        using t Inr by auto
      have ok1: "doc_ok slot d1"
        using assms(3) d1 by (rule shrinks_ok)
      then have good1: "good (d_current d1)"
        by (simp add: doc_ok_def)
      have v: "inserts_valid (tr_edits tr1)"
        using assms(4) tr1 set_sorted_edits [of tr] by (auto simp: inserts_valid_def)
      have applied1: "applied d tr d2" if "applied d1 tr1 d2" for d2
      proof -
        have "applied d1 tr d2"
          using that tr1 applied_sorted by blast
        then show ?thesis
          using shrinks_same [OF d1] resumes_shrinks [OF d1] by (simp add: applied_def Let_def)
      qed
      have typing1: "typing_insert tr m' \<Longrightarrow> typing_insert tr1 m'" for m'
        using tr1 typing_insert_sorted by auto
      from good1 v show ?thesis
      proof (cases rule: stage_cases [where env = env and w = w1])
        case (error err)
        then have "(r, w', d') = (Inl err, w1, d1)"
          using assms(5) run rt Inr by (cases m) (auto simp: apply_relieved_def Let_def)
        moreover have "check_transaction d tr = Inl err \<or>
            (err = BudgetExceeded \<and> short_of_memory env (d_current d) tr)"
          using error(3) check_transaction_sorted [OF shrinks_same(1) [OF d1] tr1]
            short_of_memory_sorted [OF tr1] shrinks_same(1) [OF d1] by auto
        ultimately show ?thesis
          using error(2) d1 by simp
      next
        case (ok p b)
        let ?w = "w1\<lparr>w_next := w_next w1 + 2, w_bytes := b\<rparr>"
        have fin: ?thesis if "admit env relieve p n ?w d1 = (q, w2, d2)" "same_step q q'"
          "pr_tracked q' = pr_tracked q"
          "en_typing_insert (pr_entry q') \<longrightarrow> typing_insert tr1 (en_metadata (pr_entry q'))"
          "finish_apply env q' w2 d2 = (r, w', d')" for n q q' w2 d2
        proof -
          note run = that
          note a = staged_admitted [OF assms(1,2) ok1 ok(2) that(1)]
          have "same_step p q'"
            using a(2) that(2) by (simp add: same_step_def)
          then obtain w3 d3 where "finish_apply env q' w2 d2 = (Inr (sn_revision (d_current d1) + 1), w3, d3)"
            "doc_ok slot d3" "applied d1 tr1 d3"
            using finish_apply_ok [OF ok1 ok(2) a(1) _ _ run(4) ok(3)] a(4) run(3) by metis
          moreover have "sn_revision (d_current d3) = sn_revision (d_current d1) + 1"
            if "applied d1 tr1 d3"
            using that by (simp add: applied_def Let_def)
          ultimately show ?thesis
            using run(5) applied1 by auto
        qed
        show ?thesis
        proof (cases m)
          case None
          obtain q w2 d2 where adm: "admit env relieve p 0 ?w d1 = (q, w2, d2)"
            by (cases "admit env relieve p 0 ?w d1") auto
          have "finish_apply env q w2 d2 = (r, w', d')"
            using assms(5) run rt Inr ok(1) adm None by (simp add: apply_relieved_def)
          moreover have "\<not> en_typing_insert (pr_entry q)"
            using staged_admitted [OF assms(1,2) ok1 ok(2) adm] by blast
          ultimately show ?thesis
            using adm by (intro fin [of 0 q w2 d2 q]) (simp_all add: same_step_def)
        next
          case (Some m')
          show ?thesis
          proof (cases "check_selections d1 p m'")
            case (Inl err)
            then have "(r, w', d') = (Inl err, w1, d1)"
              using assms(5) rt \<open>r1 = Inr tr1\<close> ok(1) Some by (simp add: apply_relieved_def Let_def)
            with d1 check_selections_errors [OF Inl] Some show ?thesis
              by auto
          next
            case (Inr u)
            let ?n = "sat_add (length (em_before m')) (length (em_after m'))"
            obtain q w2 d2 where adm: "admit env relieve p ?n ?w d1 = (q, w2, d2)"
              by (cases "admit env relieve p ?n ?w d1") auto
            let ?q = "q\<lparr>pr_entry := (pr_entry q)\<lparr>en_metadata := m', en_typing_insert := typing_insert tr m'\<rparr>\<rparr>"
            have "finish_apply env ?q w2 d2 = (r, w', d')"
              using assms(5) rt \<open>r1 = Inr tr1\<close> ok(1) adm Some Inr
              by (simp add: apply_relieved_def Let_def)
            with adm show ?thesis
              by (intro fin [of ?n q w2 d2 ?q]) (simp_all add: same_step_def typing1)
          qed
        qed
      qed
    qed
  qed
qed

end

section \<open>Undo and redo\<close>

definition untyped :: "entry \<Rightarrow> entry" where
  "untyped e = e\<lparr>en_typing_insert := False\<rparr>"

lemma untyped_same [simp]:
  "point_before (untyped e) = point_before e" "point_after (untyped e) = point_after e"
  "en_edits (untyped e) = en_edits e" "entry_ok e \<Longrightarrow> entry_ok (untyped e)"
  by (simp_all add: untyped_def entry_ok_def)

lemma untype_last_entries:
  "st_entries (untype_last s) =
     (if st_entries s = [] then [] else butlast (st_entries s) @ [untyped (last (st_entries s))])"
  "st_capacity (untype_last s) = st_capacity s" "st_charge (untype_last s) = st_charge s"
  by (auto simp: untype_last_def stack_last_def untyped_def)

lemma untype_last_length: "length (st_entries (untype_last s)) = length (st_entries s)"
  by (cases "st_entries s" rule: rev_cases) (simp_all add: untype_last_entries)

lemma untype_last_rev:
  "rev (st_entries (untype_last s)) =
     (case rev (st_entries s) of [] \<Rightarrow> [] | e # es \<Rightarrow> untyped e # es)"
  by (cases "st_entries s" rule: rev_cases) (simp_all add: untype_last_entries)

lemma untype_last_ok: "stack_ok slot s \<Longrightarrow> stack_ok slot (untype_last s)"
  by (auto simp: stack_ok_def capacity_bytes_def untype_last_entries)

lemma undo_chain_untype:
  "undo_chain p (rev (st_entries s)) \<Longrightarrow> undo_chain p (rev (st_entries (untype_last s)))"
  by (auto simp: untype_last_rev split: list.splits)

definition history_errors :: "error set" where
  "history_errors = {LinkedUndoRequired, RevisionOverflow, EmptyHistory, BudgetExceeded}"

text \<open>One step back: the state before the newest undo entry, which moves to the redo stack.\<close>

definition undone :: "doc \<Rightarrow> doc \<Rightarrow> bool" where
  "undone d d' \<longleftrightarrow>
     (\<exists>e n. stack_last (d_undo d) = Some e \<and> now d' = point_before e \<and>
        sn_revision (d_current d') = sn_revision (d_current d) + 1 \<and>
        sn_id (d_current d') = sn_id (d_current d) \<and> d_saved d' = d_saved d \<and> d_policy d' = d_policy d \<and>
        receipt_for DirUndo (d_current d) (d_current d') \<and>
        st_entries (d_redo d') = drop n (st_entries (d_redo d)) @ [untyped e])"

definition redone :: "doc \<Rightarrow> doc \<Rightarrow> bool" where
  "redone d d' \<longleftrightarrow>
     (\<exists>e n. stack_last (d_redo d) = Some e \<and> now d' = point_after e \<and>
        sn_revision (d_current d') = sn_revision (d_current d) + 1 \<and>
        sn_id (d_current d') = sn_id (d_current d) \<and> d_saved d' = d_saved d \<and> d_policy d' = d_policy d \<and>
        receipt_for DirRedo (d_current d) (d_current d') \<and>
        st_entries (d_undo d') = drop n (st_entries (d_undo d)) @ [untyped e])"

lemma next_revision_cases:
  obtains "next_revision d = Inr (sn_revision (d_current d) + 1)" | "next_revision d = Inl RevisionOverflow"
  using that by (cases "sn_revision (d_current d) + 1 \<le> usize_max")
    (simp_all add: next_revision_def checked_add_def)

lemma try_reserve_error: "try_reserve slot grow b s n = Inl err \<Longrightarrow> err = BudgetExceeded"
  by (auto simp: try_reserve_def and_then_Inl_iff claim_def ok_or_Inl_iff Let_def split: if_splits)

lemma reserve_redo_error: "reserve_redo env w d = Inl err \<Longrightarrow> err = BudgetExceeded"
  by (auto simp: reserve_redo_def and_then_Inl_iff dest: try_reserve_error)

lemma reserve_undo_error: "reserve_undo env w d = Inl err \<Longrightarrow> err = BudgetExceeded"
  by (auto simp: reserve_undo_def and_then_Inl_iff dest: try_reserve_error)

lemma shrinks_last:
  "shrinks slot d d' \<Longrightarrow> stack_last (d_undo d') = Some e \<Longrightarrow> stack_last (d_undo d) = Some e"
  "shrinks slot d d' \<Longrightarrow> stack_last (d_redo d') = Some e \<Longrightarrow> stack_last (d_redo d) = Some e"
  unfolding shrinks_def by (auto simp: stack_last_def last_drop split: if_splits)

lemma undo_step_ok:
  assumes "doc_ok slot d" "stack_last (d_undo d) = Some e"
    "length (st_entries (d_redo d)) < st_capacity (d_redo d)"
    "c = \<lparr>ac_document = sn_id (d_current d), ac_before_revision = sn_revision (d_current d),
          ac_after_revision = sn_revision (d_current d) + 1, ac_before_state = sn_state (d_current d),
          ac_after_state = en_before_state e, ac_direction = DirUndo,
          ac_edits = map (compact DirUndo) (en_edits e)\<rparr>"
    "d' = d\<lparr>d_current := (d_current d)\<lparr>sn_change := Some c,
              sn_metadata := en_before_metadata e, sn_root := en_before e,
              sn_state := en_before_state e, sn_revision := sn_revision (d_current d) + 1\<rparr>,
            d_undo := untype_last (snd (stack_pop (d_undo d))),
            d_redo := stack_push (d_redo d) (e\<lparr>en_typing_insert := False\<rparr>)\<rparr>"
  shows "doc_ok slot d'" "undone d d'"
proof -
  have ents: "st_entries (d_undo d) = butlast (st_entries (d_undo d)) @ [e]"
    using assms(2) by (rule stack_last_Some)
  have rev: "rev (st_entries (d_undo d)) = e # rev (butlast (st_entries (d_undo d)))"
    by (subst ents) simp
  have mem: "e \<in> set (st_entries (d_undo d))"
    by (subst ents) simp
  have len: "length (st_entries (d_undo d)) = length (butlast (st_entries (d_undo d))) + 1"
    by (subst ents) simp
  have e: "entry_ok e" "point_after e = now d"
    using assms(1) rev mem by (auto simp: doc_ok_def)
  have now': "now d' = point_before e"
    by (simp add: assms(5) now_def)
  have redo': "st_entries (d_redo d') = st_entries (d_redo d) @ [untyped e]"
    using assms(3) by (simp add: assms(5) stack_push_entries untyped_def)
  have undo': "st_entries (d_undo d') = st_entries (untype_last (snd (stack_pop (d_undo d))))"
    by (simp add: assms(5))
  have pop: "st_entries (snd (stack_pop (d_undo d))) = butlast (st_entries (d_undo d))"
    by (simp add: stack_pop_def)
  have "undo_chain (point_before e) (rev (st_entries (snd (stack_pop (d_undo d)))))"
    using assms(1) rev pop by (simp add: doc_ok_def)
  then have chain: "undo_chain (now d') (rev (st_entries (d_undo d')))"
    using undo_chain_untype now' undo' by metis
  have entries: "\<forall>x\<in>set (st_entries (d_undo d')). entry_ok x"
  proof -
    have "\<forall>x\<in>set (butlast (st_entries (d_undo d))). entry_ok x"
      using assms(1) by (auto simp: doc_ok_def dest: in_set_butlastD)
    then show ?thesis
      unfolding undo' by (auto simp: untype_last_entries pop dest: in_set_butlastD)
  qed
  have stacks: "stack_ok slot (d_undo d')" "stack_ok slot (d_redo d')"
  proof -
    have "stack_ok slot (snd (stack_pop (d_undo d)))"
      using assms(1) unfolding stack_pop_def by (auto simp: doc_ok_def stack_ok_def capacity_bytes_def)
    then show "stack_ok slot (d_undo d')"
      by (simp add: assms(5) untype_last_ok)
    show "stack_ok slot (d_redo d')"
      using assms(1,3) by (auto simp: assms(5) doc_ok_def stack_push_entries intro: stack_ok_update)
  qed
  have "length (st_entries (d_undo d')) + 1 = length (st_entries (d_undo d))"
    unfolding undo' len by (simp add: untype_last_length pop)
  then have size: "history_size d' = history_size d"
    using redo' by (simp add: history_size_def)
  have good': "good (d_current d')"
    using e(1) by (simp add: good_def entry_ok_def assms(5))
  have rchain: "redo_chain (now d') (rev (st_entries (d_redo d')))"
    using assms(1) e(2) unfolding redo' now' by (simp add: doc_ok_def)
  have all: "\<forall>x\<in>set (st_entries (d_redo d')). entry_ok x"
    using assms(1) e(1) unfolding redo' by (auto simp: doc_ok_def)
  have "d_policy d' = d_policy d"
    by (simp add: assms(5))
  then show "doc_ok slot d'"
    unfolding doc_ok_def using good' chain rchain entries all stacks size assms(1)
    by (auto simp: doc_ok_def)
  have "receipt_for DirUndo (d_current d) (d_current d')"
    unfolding receipt_for_def using e assms(4)
    by (intro exI [of _ "en_edits e"]) (simp add: assms(5) snap_text_def entry_ok_def now_def)
  then show "undone d d'"
    unfolding undone_def using assms(2) now' redo'
    by (intro exI [of _ e] exI [of _ 0]) (simp add: assms(5))
qed

lemma redo_step_ok:
  assumes "doc_ok slot d" "stack_last (d_redo d) = Some e"
    "length (st_entries (d_undo d)) < st_capacity (d_undo d)"
    "c = \<lparr>ac_document = sn_id (d_current d), ac_before_revision = sn_revision (d_current d),
          ac_after_revision = sn_revision (d_current d) + 1, ac_before_state = sn_state (d_current d),
          ac_after_state = en_after_state e, ac_direction = DirRedo,
          ac_edits = map (compact DirRedo) (en_edits e)\<rparr>"
    "d' = d\<lparr>d_current := (d_current d)\<lparr>sn_change := Some c,
              sn_metadata := en_after_metadata e, sn_root := en_after e,
              sn_state := en_after_state e, sn_revision := sn_revision (d_current d) + 1\<rparr>,
            d_redo := snd (stack_pop (d_redo d)),
            d_undo := stack_push (d_undo d) (e\<lparr>en_typing_insert := False\<rparr>)\<rparr>"
  shows "doc_ok slot d'" "redone d d'"
proof -
  have ents: "st_entries (d_redo d) = butlast (st_entries (d_redo d)) @ [e]"
    using assms(2) by (rule stack_last_Some)
  have rev: "rev (st_entries (d_redo d)) = e # rev (butlast (st_entries (d_redo d)))"
    by (subst ents) simp
  have mem: "e \<in> set (st_entries (d_redo d))"
    by (subst ents) simp
  have len: "length (st_entries (d_redo d)) = length (butlast (st_entries (d_redo d))) + 1"
    by (subst ents) simp
  have e: "entry_ok e" "point_before e = now d"
    using assms(1) rev mem by (auto simp: doc_ok_def)
  have now': "now d' = point_after e"
    by (simp add: assms(5) now_def)
  have undo': "st_entries (d_undo d') = st_entries (d_undo d) @ [untyped e]"
    using assms(3) by (simp add: assms(5) stack_push_entries untyped_def)
  have redo': "st_entries (d_redo d') = butlast (st_entries (d_redo d))"
    by (simp add: assms(5) stack_pop_def)
  have chain: "redo_chain (now d') (rev (st_entries (d_redo d')))"
    using assms(1) rev redo' now' by (simp add: doc_ok_def)
  have stacks: "stack_ok slot (d_undo d')" "stack_ok slot (d_redo d')"
    using assms(1,3) unfolding assms(5) stack_pop_def
    by (auto simp: doc_ok_def stack_push_entries stack_ok_def capacity_bytes_def)
  have "length (st_entries (d_redo d')) + 1 = length (st_entries (d_redo d))"
    unfolding redo' len by simp
  then have size: "history_size d' = history_size d"
    using undo' by (simp add: history_size_def)
  have good': "good (d_current d')"
    using e(1) by (simp add: good_def entry_ok_def assms(5))
  have uchain: "undo_chain (now d') (rev (st_entries (d_undo d')))"
    using assms(1) e(2) unfolding undo' now' by (simp add: doc_ok_def)
  have all: "\<forall>x\<in>set (st_entries (d_undo d')) \<union> set (st_entries (d_redo d')). entry_ok x"
    using assms(1) e(1) unfolding undo' redo' by (auto simp: doc_ok_def dest: in_set_butlastD)
  have "d_policy d' = d_policy d"
    by (simp add: assms(5))
  then show "doc_ok slot d'"
    unfolding doc_ok_def using good' chain uchain all stacks size assms(1)
    by (auto simp: doc_ok_def)
  have "receipt_for DirRedo (d_current d) (d_current d')"
    unfolding receipt_for_def using e assms(4)
    by (intro exI [of _ "en_edits e"]) (simp add: assms(5) snap_text_def entry_ok_def now_def)
  then show "redone d d'"
    unfolding redone_def using assms(2) now' undo'
    by (intro exI [of _ e] exI [of _ 0]) (simp add: assms(5))
qed

end
