(* ===== verification/Document_Run.thy ===== *)
theory Document_Run
  imports Document_History
begin

text \<open>
  Whole operations of the Resident document and the runs made of them: undo and redo with their
  guards, metadata changes, new documents, and the step relation whose reachable documents all
  satisfy the invariant of theory \<open>Document_History\<close>. The properties of the document follow.
\<close>

section \<open>Undo, redo and metadata with their guards\<close>

context relief begin

lemma undo_relieved_ok:
  assumes "env_ok env" "slot = slot_of env" "doc_ok slot d"
    "undo_relieved env relieve w d = (r, w', d')"
  shows "case r of
      Inl err \<Rightarrow> shrinks slot d d' \<and> err \<in> history_errors
    | Inr revision \<Rightarrow> doc_ok slot d' \<and> revision = sn_revision (d_current d') \<and> undone d d'"
proof (cases "group_linked w (stack_last (d_undo d)) \<or> next_revision d = Inl RevisionOverflow \<or>
    st_entries (d_undo d) = []")
  case True
  let ?linked = "group_linked w (stack_last (d_undo d))"
  consider "?linked" | "\<not> ?linked" "next_revision d = Inl RevisionOverflow"
    | "\<not> ?linked" "next_revision d = Inr (sn_revision (d_current d) + 1)" "st_entries (d_undo d) = []"
    using True next_revision_cases [of d] by metis
  then have "\<exists>err. undo_relieved env relieve w d = (Inl err, w, d) \<and> err \<in> history_errors"
    by cases (simp_all add: undo_relieved_def history_errors_def)
  then have "\<exists>err. (r, w', d') = (Inl err, w, d) \<and> err \<in> history_errors"
    using assms(4) by simp
  then show ?thesis
    by auto
next
  case False
  then have rev: "next_revision d = Inr (sn_revision (d_current d) + 1)"
    using next_revision_cases [of d] by metis
  obtain w1 d1 where rel: "relieve DemandUndo w d = (w1, d1)"
    by fastforce
  have d1: "shrinks slot d d1"
    using rel by (rule shrinks)
  have ok1: "doc_ok slot d1"
    using assms(3) d1 by (rule shrinks_ok)
  note run = assms(4) [unfolded undo_relieved_def]
  show ?thesis
  proof (cases "reserve_redo env w1 d1")
    case (Inl err)
    then have "(r, w', d') = (Inl err, w1, d1)"
      using run False rev rel by simp
    with d1 reserve_redo_error [OF Inl] show ?thesis
      by (simp add: history_errors_def)
  next
    case (Inr x)
    obtain w2 d2 where x: "x = (w2, d2)"
      by (cases x)
    note d2 = reserve_redo_ok [OF Inr [unfolded x] _ assms(1)]
    have st: "stack_ok (slot_of env) (d_redo d1)"
      using ok1 assms(2) by (simp add: doc_ok_def)
    have s2: "shrinks slot d d2"
      using shrinks_trans [OF d1] d2(1) [OF st] assms(2) by simp
    have ok2: "doc_ok slot d2"
      using assms(3) s2 by (rule shrinks_ok)
    note same = shrinks_same [OF s2]
    show ?thesis
    proof (cases "stack_last (d_undo d2)")
      case None
      then have "(r, w', d') = (Inl EmptyHistory, w2, d2)"
        using run False rev rel Inr x by simp
      with s2 show ?thesis
        by (simp add: history_errors_def)
    next
      case (Some e)
      let ?cur = "d_current d2"
      show ?thesis
      proof (cases rule: change_owned_cases [of "e_meter env" "e_sizes env" "w_bytes w2" "sn_id ?cur"
            "sn_revision ?cur" "sn_revision (d_current d) + 1" "sn_state ?cur" "en_before_state e" DirUndo
            "en_edits e"])
        case (ok c b)
        have res: "r = Inr (sn_revision ?cur + 1)" "d' = d2\<lparr>d_current := ?cur\<lparr>sn_change := Some c,
              sn_metadata := en_before_metadata e, sn_root := en_before e,
              sn_state := en_before_state e, sn_revision := sn_revision ?cur + 1\<rparr>,
            d_undo := untype_last (snd (stack_pop (d_undo d2))),
            d_redo := stack_push (d_redo d2) (e\<lparr>en_typing_insert := False\<rparr>)\<rparr>"
          using run False rev rel Inr x Some ok(1) same by (simp_all add: Let_def)
        note step = undo_step_ok [OF ok2 Some d2(2) [OF st] _ res(2)]
        have c: "c = \<lparr>ac_document = sn_id ?cur, ac_before_revision = sn_revision ?cur,
          ac_after_revision = sn_revision ?cur + 1, ac_before_state = sn_state ?cur,
          ac_after_state = en_before_state e, ac_direction = DirUndo,
          ac_edits = map (compact DirUndo) (en_edits e)\<rparr>"
          using ok(2) same by simp
        obtain n where "st_entries (d_redo d2) = drop n (st_entries (d_redo d))"
          using s2 unfolding shrinks_def by blast
        then have "undone d d'"
          using step(2) [OF c] same shrinks_last(1) [OF s2]
          unfolding undone_def by (auto simp: drop_drop)
        with step(1) [OF c] res show ?thesis
          by simp
      next
        case refused
        then have "(r, w', d') = (Inl BudgetExceeded, w2, d2)"
          using run False rev rel Inr x Some same by (simp add: Let_def)
        with s2 show ?thesis
          by (simp add: history_errors_def)
      qed
    qed
  qed
qed

lemma redo_relieved_ok:
  assumes "env_ok env" "slot = slot_of env" "doc_ok slot d"
    "redo_relieved env relieve w d = (r, w', d')"
  shows "case r of
      Inl err \<Rightarrow> shrinks slot d d' \<and> err \<in> history_errors
    | Inr revision \<Rightarrow> doc_ok slot d' \<and> revision = sn_revision (d_current d') \<and> redone d d'"
proof (cases "group_linked w (stack_last (d_redo d)) \<or> next_revision d = Inl RevisionOverflow \<or>
    st_entries (d_redo d) = []")
  case True
  let ?linked = "group_linked w (stack_last (d_redo d))"
  consider "?linked" | "\<not> ?linked" "next_revision d = Inl RevisionOverflow"
    | "\<not> ?linked" "next_revision d = Inr (sn_revision (d_current d) + 1)" "st_entries (d_redo d) = []"
    using True next_revision_cases [of d] by metis
  then have "\<exists>err. redo_relieved env relieve w d = (Inl err, w, d) \<and> err \<in> history_errors"
    by cases (simp_all add: redo_relieved_def history_errors_def)
  then have "\<exists>err. (r, w', d') = (Inl err, w, d) \<and> err \<in> history_errors"
    using assms(4) by simp
  then show ?thesis
    by auto
next
  case False
  then have rev: "next_revision d = Inr (sn_revision (d_current d) + 1)"
    using next_revision_cases [of d] by metis
  obtain w1 d1 where rel: "relieve DemandRedo w d = (w1, d1)"
    by fastforce
  have d1: "shrinks slot d d1"
    using rel by (rule shrinks)
  have ok1: "doc_ok slot d1"
    using assms(3) d1 by (rule shrinks_ok)
  note run = assms(4) [unfolded redo_relieved_def]
  show ?thesis
  proof (cases "reserve_undo env w1 d1")
    case (Inl err)
    then have "(r, w', d') = (Inl err, w1, d1)"
      using run False rev rel by simp
    with d1 reserve_undo_error [OF Inl] show ?thesis
      by (simp add: history_errors_def)
  next
    case (Inr x)
    obtain w2 d2 where x: "x = (w2, d2)"
      by (cases x)
    note d2 = reserve_undo_ok [OF Inr [unfolded x] _ assms(1)]
    have st: "stack_ok (slot_of env) (d_undo d1)"
      using ok1 assms(2) by (simp add: doc_ok_def)
    have s2: "shrinks slot d d2"
      using shrinks_trans [OF d1] d2(1) [OF st] assms(2) by simp
    have ok2: "doc_ok slot d2"
      using assms(3) s2 by (rule shrinks_ok)
    note same = shrinks_same [OF s2]
    show ?thesis
    proof (cases "stack_last (d_redo d2)")
      case None
      then have "(r, w', d') = (Inl EmptyHistory, w2, d2)"
        using run False rev rel Inr x by simp
      with s2 show ?thesis
        by (simp add: history_errors_def)
    next
      case (Some e)
      let ?cur = "d_current d2"
      show ?thesis
      proof (cases rule: change_owned_cases [of "e_meter env" "e_sizes env" "w_bytes w2" "sn_id ?cur"
            "sn_revision ?cur" "sn_revision (d_current d) + 1" "sn_state ?cur" "en_after_state e" DirRedo
            "en_edits e"])
        case (ok c b)
        have res: "r = Inr (sn_revision ?cur + 1)" "d' = d2\<lparr>d_current := ?cur\<lparr>sn_change := Some c,
              sn_metadata := en_after_metadata e, sn_root := en_after e,
              sn_state := en_after_state e, sn_revision := sn_revision ?cur + 1\<rparr>,
            d_redo := snd (stack_pop (d_redo d2)),
            d_undo := stack_push (d_undo d2) (e\<lparr>en_typing_insert := False\<rparr>)\<rparr>"
          using run False rev rel Inr x Some ok(1) same by (simp_all add: Let_def)
        note step = redo_step_ok [OF ok2 Some d2(2) [OF st] _ res(2)]
        have c: "c = \<lparr>ac_document = sn_id ?cur, ac_before_revision = sn_revision ?cur,
          ac_after_revision = sn_revision ?cur + 1, ac_before_state = sn_state ?cur,
          ac_after_state = en_after_state e, ac_direction = DirRedo,
          ac_edits = map (compact DirRedo) (en_edits e)\<rparr>"
          using ok(2) same by simp
        obtain n where "st_entries (d_undo d2) = drop n (st_entries (d_undo d))"
          using s2 unfolding shrinks_def by blast
        then have "redone d d'"
          using step(2) [OF c] same shrinks_last(2) [OF s2]
          unfolding redone_def by (auto simp: drop_drop)
        with step(1) [OF c] res show ?thesis
          by simp
      next
        case refused
        then have "(r, w', d') = (Inl BudgetExceeded, w2, d2)"
          using run False rev rel Inr x Some same by (simp add: Let_def)
        with s2 show ?thesis
          by (simp add: history_errors_def)
      qed
    qed
  qed
qed

text \<open>A metadata change keeps the text and is one undo step.\<close>

lemma apply_metadata_ok:
  assumes "env_ok env" "slot = slot_of env" "doc_ok slot d"
    "apply_metadata_relieved env relieve base metadata w d = (r, w', d')"
  shows "case r of
      Inl err \<Rightarrow> shrinks slot d d' \<and> err \<in> {StaleRevision, RevisionOverflow, BudgetExceeded}
    | Inr revision \<Rightarrow> doc_ok slot d' \<and> revision = sn_revision (d_current d') \<and>
        sn_root (d_current d') = sn_root (d_current d) \<and> sn_metadata (d_current d') = metadata \<and>
        sn_id (d_current d') = sn_id (d_current d) \<and> d_saved d' = d_saved d"
proof -
  let ?cur = "d_current d"
  note run = assms(4) [unfolded apply_metadata_relieved_def Let_def]
  consider (stale) "base \<noteq> sn_revision ?cur"
    | (same) "base = sn_revision ?cur" "metadata = sn_metadata ?cur"
    | (overflow) "base = sn_revision ?cur" "metadata \<noteq> sn_metadata ?cur"
        "next_revision d = Inl RevisionOverflow"
    | (change) "base = sn_revision ?cur" "metadata \<noteq> sn_metadata ?cur"
        "next_revision d = Inr (sn_revision ?cur + 1)"
    using next_revision_cases [of d] by metis
  then show ?thesis
  proof cases
    case change
    show ?thesis
    proof (cases rule: change_owned_cases [of "e_meter env" "e_sizes env" "w_bytes w" "sn_id ?cur"
          "sn_revision ?cur" "sn_revision ?cur + 1" "sn_state ?cur" "w_next w" DirEdit "[]"])
      case refused
      with run change have "(r, w', d') = (Inl BudgetExceeded, w, d)"
        by (simp add: unique_def)
      then show ?thesis
        by simp
    next
      case (ok c b)
      let ?w = "w\<lparr>w_next := w_next w + 1, w_bytes := b\<rparr>"
      let ?n = "sat_add (metadata_charge metadata) 128"
      obtain w1 d1 where rel: "relieve (DemandEdit ?n) ?w d = (w1, d1)"
        by fastforce
      have d1: "shrinks slot d d1"
        using rel by (rule shrinks)
      have ok1: "doc_ok slot d1"
        using assms(3) d1 by (rule shrinks_ok)
      let ?slot = "and_then (claim (w_history w1) ?n) (\<lambda>b. reserve_undo env (w1\<lparr>w_history := b\<rparr>) d1)"
      show ?thesis
      proof (cases ?slot)
        case (Inl err)
        with run change ok(1) rel have "r = Inl BudgetExceeded" "d' = d1"
          by (simp_all add: unique_def)
        with d1 show ?thesis
          by simp
      next
        case (Inr x)
        obtain w2 d2 where x: "x = (w2, d2)"
          by (cases x)
        obtain b' where slot: "reserve_undo env (w1\<lparr>w_history := b'\<rparr>) d1 = Inr (w2, d2)"
          using Inr x by (auto simp: and_then_Inr_iff)
        have st: "stack_ok (slot_of env) (d_undo d1)"
          using ok1 assms(2) by (simp add: doc_ok_def)
        note d2 = reserve_undo_ok [OF slot st assms(1)]
        have s2: "shrinks slot d d2"
          using shrinks_trans [OF d1] d2(1) assms(2) by simp
        have ok2: "doc_ok slot d2"
          using assms(3) s2 by (rule shrinks_ok)
        note same2 = shrinks_same [OF s2]
        let ?e = "\<lparr>en_before_metadata = sn_metadata (d_current d2), en_after_metadata = metadata,
                   en_before = sn_root (d_current d2), en_after = sn_root (d_current d2),
                   en_before_state = sn_state (d_current d2), en_after_state = w_next w,
                   en_undo_reservation = charge_new ?n, en_structure = None,
                   en_sequence = w_next w2, en_edits = [], en_group = None,
                   en_metadata = edit_metadata_default, en_typing_insert = False\<rparr>"
        let ?d3 = "d2\<lparr>d_undo := stack_push (d_undo d2) ?e\<rparr>"
        obtain w4 d4 where clear: "clear_redo env (w2\<lparr>w_next := w_next w2 + 1\<rparr>) ?d3 = (w4, d4)"
          by fastforce
        have d4: "d4 = ?d3\<lparr>d_redo := stack_clear (d_redo d2)\<rparr>"
          using clear by (auto simp: clear_redo_def)
        let ?cur' = "(d_current d2)\<lparr>sn_change := Some c, sn_metadata := metadata,
            sn_revision := sn_revision ?cur + 1, sn_state := w_next w\<rparr>"
        let ?d5 = "d4\<lparr>d_current := ?cur'\<rparr>"
        obtain w6 d6 where trim: "trim_history env w4 ?d5 = (w6, d6)"
          by fastforce
        have res: "r = Inr (sn_revision ?cur + 1)" "d' = d6"
          using run change ok(1) rel Inr x clear trim by (simp_all add: unique_def)
        have ents: "st_entries (d_undo ?d5) = st_entries (d_undo d2) @ [?e]" "st_entries (d_redo ?d5) = []"
          using d2(2,3) by (simp_all add: d4 stack_push_entries stack_clear_def)
        have e_ok: "entry_ok ?e"
          using ok2 by (simp add: entry_ok_def doc_ok_def good_def)
        have now5: "now ?d5 = point_after ?e"
          by (simp add: now_def)
        have stacks: "stack_ok slot (d_undo ?d5)" "stack_ok slot (d_redo ?d5)"
          using ok2 d2(2,3)
          by (auto simp: d4 doc_ok_def stack_push_entries stack_clear_ok intro!: stack_ok_update)
        note tr = trim_history_shrinks [OF trim, of slot]
        obtain k n where d6: "st_entries (d_undo d6) = drop k (st_entries (d_undo ?d5))"
          "st_entries (d_redo d6) = drop n (st_entries (d_redo ?d5))"
          "stack_ok slot (d_undo d6)" "stack_ok slot (d_redo d6)"
          using tr stacks unfolding shrinks_def by blast
        note same6 = shrinks_same [OF tr]
        have chain: "undo_chain (now d6) (rev (st_entries (d_undo d6)))"
        proof -
          have "undo_chain (now ?d5) (rev (st_entries (d_undo ?d5)))"
            unfolding now5 ents(1) using ok2 by (simp add: doc_ok_def now_def)
          then show ?thesis
            using undo_chain_drop d6(1) same6(1) by (simp add: now_def)
        qed
        have all: "\<forall>e\<in>set (st_entries (d_undo d6)). entry_ok e"
          using ok2 e_ok unfolding d6(1) ents(1) by (auto simp: doc_ok_def dest!: in_set_dropD)
        have "good (d_current d6)"
          using ok2 same6(1) by (simp add: doc_ok_def good_def)
        then have "doc_ok slot d6"
          using chain all d6 ents(2) trim_history_bound [OF trim] by (simp add: doc_ok_def)
        then show ?thesis
          using res same6 same2 by (simp add: d4)
      qed
    qed
  next
    case overflow
    then have "apply_metadata_relieved env relieve base metadata w d = (Inl RevisionOverflow, w, d)"
      by (simp add: apply_metadata_relieved_def Let_def)
    with assms(4) show ?thesis
      by auto
  qed (use assms(3) run in auto)
qed

end

section \<open>New documents\<close>

lemma from_text_builds: "valid_utf8 t \<Longrightarrow> builds mt t (from_text mt b t)"
  unfolding from_text_def by (rule text_segments_builds)

lemma empty_doc_ok: "owned root \<Longrightarrow> doc_ok slot (empty_doc root metadata state i)"
  by (simp add: doc_ok_def empty_doc_def good_def now_def history_size_def)
    (simp add: stack_new_def)

lemma from_utf8_ok:
  assumes "valid_utf8 t"
  shows "(\<exists>d w'. from_utf8 env w t = Inr (d, w') \<and> doc_ok slot d \<and> snap_text (d_current d) = t \<and>
      \<not> dirty d \<and> sn_complete (d_current d)) \<or>
    from_utf8 env w t = Inl BudgetExceeded"
  using from_text_builds [OF assms, of "e_meter env" "w_bytes w"]
  by (auto simp: builds_def from_utf8_def unique_def Let_def snap_text_def text_of_def dirty_def
      intro!: empty_doc_ok) (auto simp: empty_doc_def owned_def)

lemma builder_append_ok:
  assumes "valid_utf8 t" "doc_ok slot d" "st_entries (d_undo d) = []" "st_entries (d_redo d) = []"
  shows "(\<exists>d' w'. builder_append env w d t = Inr (d', w') \<and> doc_ok slot d' \<and>
      snap_text (d_current d') = snap_text (d_current d) @ t \<and>
      st_entries (d_undo d') = [] \<and> st_entries (d_redo d') = []) \<or>
    builder_append env w d t \<in> {Inl BudgetExceeded, Inl RevisionOverflow}"
proof -
  consider r b where "from_text (e_meter env) (w_bytes w) t = Inr (r, b)" "owned r" "text_of r = t"
    | "from_text (e_meter env) (w_bytes w) t = Inl BudgetExceeded"
    using from_text_builds [OF assms(1), of "e_meter env" "w_bytes w"]
    by (auto simp: builds_def owned_def text_of_def)
  then show ?thesis
  proof cases
    case 1
    have "owned (sn_root (d_current d))"
      using assms(2) by (simp add: doc_ok_def good_def)
    then obtain u where u: "tree_concat (sn_root (d_current d)) r = Inr u" "owned u"
      "text_of u = snap_text (d_current d) @ t"
      using owned_concat [OF _ 1(2)] 1(3) unfolding snap_text_def by metis
    show ?thesis
    proof (cases rule: next_revision_cases [of d])
      case 1
      with \<open>from_text (e_meter env) (w_bytes w) t = Inr (r, b)\<close> u assms(2-4) show ?thesis
        by (auto simp: builder_append_def unique_def Let_def doc_ok_def good_def now_def snap_text_def
            history_size_def)
    next
      case 2
      with \<open>from_text (e_meter env) (w_bytes w) t = Inr (r, b)\<close> show ?thesis
        by (simp add: builder_append_def)
    qed
  next
    case 2
    then show ?thesis
      by (simp add: builder_append_def)
  qed
qed

section \<open>Runs\<close>

text \<open>
  One call on a document. The rule \<open>shared\<close> is what the holders of the same budgets do between two
  calls: the world changes, the document does not.
\<close>

inductive doc_step :: "'b env \<Rightarrow> 'b world \<times> doc \<Rightarrow> 'b world \<times> doc \<Rightarrow> bool" for env :: "'b env" where
  edits: "inserts_valid (tr_edits tr) \<Longrightarrow> apply_transaction env tr w d = (r, w', d') \<Longrightarrow>
    doc_step env (w, d) (w', d')"
| edits_with_metadata: "inserts_valid (tr_edits tr) \<Longrightarrow>
    apply_with_metadata env tr m w d = (r, w', d') \<Longrightarrow> doc_step env (w, d) (w', d')"
| metadata: "apply_metadata_relieved env (relieve_history env) base md w d = (r, w', d') \<Longrightarrow>
    doc_step env (w, d) (w', d')"
| undo: "undo env w d = (r, w', d') \<Longrightarrow> doc_step env (w, d) (w', d')"
| redo: "redo env w d = (r, w', d') \<Longrightarrow> doc_step env (w, d) (w', d')"
| clear: "clear_history env w d = (w', d') \<Longrightarrow> doc_step env (w, d) (w', d')"
| policy: "set_history_policy env policy w d = (w', d') \<Longrightarrow> doc_step env (w, d) (w', d')"
| saved: "mark_saved d captured = Inr d' \<Longrightarrow> doc_step env (w, d) (w, d')"
| saved_state: "doc_step env (w, d) (w, mark_saved_state d state)"
| initialize: "initialize_metadata d md = Inr d' \<Longrightarrow> doc_step env (w, d) (w, d')"
| shared: "doc_step env (w, d) (w', d)"

inductive_cases doc_stepE: "doc_step env (w, d) (w', d')"

inductive building :: "'b env \<Rightarrow> 'b world \<times> doc \<Rightarrow> bool" for env :: "'b env" where
  new: "builder_new env w = Inr (d, w') \<Longrightarrow> building env (w', d)"
| append: "building env (w, d) \<Longrightarrow> valid_utf8 t \<Longrightarrow> builder_append env w d t = Inr (d', w') \<Longrightarrow>
    building env (w', d')"

inductive doc_reachable :: "'b env \<Rightarrow> 'b world \<times> doc \<Rightarrow> bool" for env :: "'b env" where
  opened: "valid_utf8 t \<Longrightarrow> from_utf8 env w t = Inr (d, w') \<Longrightarrow> doc_reachable env (w', d)"
| built: "building env (w, d) \<Longrightarrow> doc_reachable env (w, builder_finish d)"
| forked: "doc_reachable env (w, d) \<Longrightarrow> fork_from_snapshot w (d_current d) = Inr (d', w') \<Longrightarrow>
    doc_reachable env (w', d')"
| stepped: "doc_reachable env s \<Longrightarrow> doc_step env s s' \<Longrightarrow> doc_reachable env s'"

lemmas relief_ok = own.apply_relieved_ok own.undo_relieved_ok own.redo_relieved_ok own.apply_metadata_ok

lemma apply_ok:
  assumes "env_ok env" "doc_ok (slot_of env) d" "inserts_valid (tr_edits tr)"
    "apply_relieved env (relieve_history env) tr m w d = (r, w', d')"
  shows "doc_ok (slot_of env) d'"
  using own.apply_relieved_ok [OF assms(1) refl assms(2,3,4)] assms(2) shrinks_ok
  by (auto split: sum.splits)

lemma trimmed_ok:
  assumes "doc_ok slot d" "trim_history env w (d\<lparr>d_policy := policy\<rparr>) = (w', d')"
  shows "doc_ok slot d'"
proof -
  note tr = trim_history_shrinks [OF assms(2), of slot]
  obtain m n where d': "st_entries (d_undo d') = drop m (st_entries (d_undo d))"
    "st_entries (d_redo d') = drop n (st_entries (d_redo d))"
    "stack_ok slot (d_undo d')" "stack_ok slot (d_redo d')"
    using tr assms(1) unfolding shrinks_def doc_ok_def by auto
  have "d_current d' = d_current d" "now d' = now d"
    using shrinks_same [OF tr] by (simp_all add: now_def)
  then show ?thesis
    using assms(1) d' trim_history_bound [OF assms(2)] undo_chain_drop redo_chain_drop
    by (auto simp: doc_ok_def dest: in_set_dropD)
qed

lemma doc_ok_saved [simp]: "doc_ok slot (d\<lparr>d_saved := state\<rparr>) = doc_ok slot d"
  by (simp add: doc_ok_def now_def history_size_def)

lemma cleared_ok: "doc_ok slot d \<Longrightarrow> clear_history env w d = (w', d') \<Longrightarrow> doc_ok slot d'"
  by (auto simp: clear_history_def split: prod.splits
      intro: shrinks_ok shrinks_trans [OF clear_undo_shrinks clear_redo_shrinks])

lemma step_ok: "doc_step env (w, d) (w', d') \<Longrightarrow> env_ok env \<Longrightarrow> doc_ok (slot_of env) d \<Longrightarrow>
    doc_ok (slot_of env) d'"
proof (erule doc_stepE)
  fix r
  assume "env_ok env" "doc_ok (slot_of env) d" "undo env w d = (r, w', d')"
  then show ?thesis
    using own.undo_relieved_ok [OF _ refl] unfolding undo_def
    by (fastforce intro: shrinks_ok split: sum.splits)
next
  fix r
  assume "env_ok env" "doc_ok (slot_of env) d" "redo env w d = (r, w', d')"
  then show ?thesis
    using own.redo_relieved_ok [OF _ refl] unfolding redo_def
    by (fastforce intro: shrinks_ok split: sum.splits)
next
  fix base md r
  assume "env_ok env" "doc_ok (slot_of env) d"
    "apply_metadata_relieved env (relieve_history env) base md w d = (r, w', d')"
  then show ?thesis
    using own.apply_metadata_ok [OF _ refl] by (fastforce intro: shrinks_ok split: sum.splits)
next
  fix md
  assume "doc_ok (slot_of env) d" "initialize_metadata d md = Inr d'"
  then show ?thesis
    by (auto simp: initialize_metadata_def doc_ok_def good_def now_def history_size_def split: if_splits)
qed (auto simp: apply_transaction_def apply_with_metadata_def set_history_policy_def mark_saved_def
      mark_saved_state_def split: if_splits dest: apply_ok cleared_ok trimmed_ok)

lemma building_ok:
  "building env s \<Longrightarrow> doc_ok slot (snd s) \<and> st_entries (d_undo (snd s)) = [] \<and>
     st_entries (d_redo (snd s)) = []"
proof (induction rule: building.induct)
  case (new w d w')
  have "valid_utf8 []"
    by simp
  from from_utf8_ok [OF this, of env w slot] new show ?case
    by (auto simp: builder_new_def from_utf8_def and_then_Inr_iff unique_def empty_doc_def stack_new_def)
next
  case (append w d t d' w')
  from builder_append_ok [OF append(2), of slot d env w] append show ?case
    by auto
qed

end
