(* ===== verification/Document_Properties.thy ===== *)
theory Document_Properties
  imports Document_Run
begin

text \<open>
  The properties of the Resident document, over the operations of theory \<open>Document\<close>, and concrete
  documents on which they apply.
\<close>

section \<open>A concrete document\<close>

definition sample_sizes :: sizes where
  "sample_sizes =
     \<lparr>sz_slot = 8, sz_compact = 4, sz_change = 16, sz_owned_edit = 8, sz_selection = 2, sz_node = 4\<rparr>"

definition sample_env :: "unit env" where
  "sample_env =
     \<lparr>e_meter = free_meter, e_available = \<lambda>_. 1000, e_dropped = \<lambda>b _. b, e_released = \<lambda>b _. b,
      e_strong = \<lambda>_ _. 1, e_grow = Some, e_sizes = sample_sizes\<rparr>"

definition sample_world :: "unit world" where
  "sample_world = \<lparr>w_bytes = (), w_history = budget_new 1000, w_next = 5, w_linked = \<lambda>_. False\<rparr>"

definition sample_doc :: doc where
  "sample_doc = empty_doc sample_root [] 1 2"

definition sample_edits :: transaction where
  "sample_edits =
     \<lparr>tr_base = 0, tr_edits = [\<lparr>ed_start = 3, ed_end = 3, ed_insert = [120, 121]\<rparr>,
        \<lparr>ed_start = 0, ed_end = 1, ed_insert = []\<rparr>]\<rparr>"

lemma sample_env_ok [simp]: "env_ok sample_env"
  by (simp add: env_ok_def sample_env_def)

lemma sample_doc_ok [simp]: "doc_ok slot sample_doc" "good (d_current sample_doc)"
  by (simp_all add: sample_doc_def empty_doc_ok) (simp add: empty_doc_def good_def)

lemma sample_doc_text [simp]: "snap_text (d_current sample_doc) = [97, 98, CR, LF, 99]"
  "sn_revision (d_current sample_doc) = 0"
  by (simp_all add: sample_doc_def empty_doc_def snap_text_def)

lemma sample_edits_valid [simp]: "inserts_valid (tr_edits sample_edits)"
  by (simp add: sample_edits_def) code_simp

lemma sample_receipt: "n \<le> 2 \<Longrightarrow> receipt_bytes sample_sizes n = Some (n * 4 + 16)"
  by (simp add: receipt_bytes_def checked_mul_def checked_add_def usize_max_def
      MAX_RECEIPT_BYTES_def sample_sizes_def)

section \<open>The invariant\<close>

text \<open>C1: In every reachable state of a document (opened, built or forked, then any sequence of
  edits, metadata changes, undo, redo, clearing, policy changes and saves, interleaved with changes
  of the shared budgets) the tree is well formed, the undo and redo entries form chains through the
  current state, every entry records its step exactly, and the history respects its limit.\<close>
theorem document_invariant:
  assumes "doc_reachable env s" "env_ok env"
  shows "doc_ok (slot_of env) (snd s)"
  using assms
proof (induction rule: doc_reachable.induct)
  case (opened t w d w')
  with from_utf8_ok [OF opened(1), of env w "slot_of env"] show ?case
    by auto
next
  case (built w d)
  then show ?case
    using building_ok [OF built(1), of "slot_of env"] by (simp add: builder_finish_def)
next
  case (forked w d d' w')
  then show ?case
    by (auto simp: fork_from_snapshot_def unique_def doc_ok_def [of _ d] good_def split: if_splits
        intro: empty_doc_ok)
next
  case (stepped s s')
  then show ?case
    using step_ok by (cases s; cases s') auto
qed

theorem document_invariant_witness:
  "\<exists>d w. from_utf8 sample_env sample_world [97, CR, LF] = Inr (d, w) \<and> doc_ok 8 d"
proof -
  have v: "valid_utf8 [97, CR, LF]"
    by code_simp
  have "from_utf8 sample_env sample_world [97, CR, LF] \<noteq> Inl BudgetExceeded"
    using from_text_builds [OF v, of "e_meter sample_env" "()"]
    by (auto simp: builds_def from_utf8_def unique_def sample_env_def free_meter_def sample_world_def)
  then obtain d w where "from_utf8 sample_env sample_world [97, CR, LF] = Inr (d, w)"
    using from_utf8_ok [OF v, of sample_env sample_world] by blast
  with document_invariant [OF doc_reachable.opened [OF v this] sample_env_ok] show ?thesis
    by (simp add: sample_env_def sample_sizes_def)
qed

section \<open>Edits\<close>

text \<open>C2: \<open>apply\<close> on a well-formed document never panics. When it succeeds the new text is the
  old one with every range replaced (one pass over the sorted edits), under a new revision, with an
  exact receipt and an undo history that leads back; when it fails the document, its saved state and
  its policy are unchanged, only old history entries may have been evicted, and the reason is a
  failed check or a shortage of memory.\<close>
theorem apply_transaction_refines:
  assumes "env_ok env" "doc_ok (slot_of env) d" "inserts_valid (tr_edits tr)"
  shows "case apply_transaction env tr w d of
      (Inr revision, w', d') \<Rightarrow>
        doc_ok (slot_of env) d' \<and> revision = sn_revision (d_current d') \<and>
        (applied d tr d' \<or> tr_edits tr = [] \<and> d' = d)
    | (Inl err, w', d') \<Rightarrow>
        shrinks (slot_of env) d d' \<and> doc_ok (slot_of env) d' \<and> err \<noteq> Panicked \<and>
        (check_transaction d tr = Inl err \<or> err = BudgetExceeded \<and> short_of_memory env (d_current d) tr)"
proof -
  obtain r w' d' where run: "apply_relieved env (relieve_history env) tr None w d = (r, w', d')"
    by (metis prod_cases3)
  note ok = own.apply_relieved_ok [OF assms(1) refl assms(2,3) run]
  show ?thesis
  proof (cases r)
    case (Inl err)
    with ok shrinks_ok [OF assms(2), of d'] show ?thesis
      by (auto simp: apply_transaction_def run stage_errors_def)
  qed (use ok in \<open>auto simp: apply_transaction_def run\<close>)
qed

theorem apply_transaction_refines_witness:
  "case apply_transaction sample_env sample_edits sample_world sample_doc of
      (Inr revision, w', d') \<Rightarrow>
        doc_ok (slot_of sample_env) d' \<and> revision = sn_revision (d_current d') \<and>
        (applied sample_doc sample_edits d' \<or> tr_edits sample_edits = [] \<and> d' = sample_doc)
    | (Inl err, w', d') \<Rightarrow>
        shrinks (slot_of sample_env) sample_doc d' \<and> doc_ok (slot_of sample_env) d' \<and> err \<noteq> Panicked \<and>
        (check_transaction sample_doc sample_edits = Inl err \<or>
         err = BudgetExceeded \<and> short_of_memory sample_env (d_current sample_doc) sample_edits)"
  by (rule apply_transaction_refines) simp_all



text \<open>\<open>apply_with_metadata\<close>, the edit with selections, has the same meaning for the text, and
  its undo leads back to the text before it or, when it was merged into a run of typing, before the
  run; a failure changes nothing but the eviction of old history.\<close>
theorem apply_with_metadata_refines:
  assumes "env_ok env" "doc_ok (slot_of env) d" "inserts_valid (tr_edits tr)"
  shows "case apply_with_metadata env tr m w d of
      (Inr revision, w', d') \<Rightarrow>
        doc_ok (slot_of env) d' \<and> revision = sn_revision (d_current d') \<and> applied d tr d'
    | (Inl err, w', d') \<Rightarrow> shrinks (slot_of env) d d' \<and> doc_ok (slot_of env) d' \<and> err \<noteq> Panicked"
proof -
  obtain r w' d' where run: "apply_relieved env (relieve_history env) tr (Some m) w d = (r, w', d')"
    by (metis prod_cases3)
  note ok = own.apply_relieved_ok [OF assms(1) refl assms(2,3) run]
  show ?thesis
  proof (cases r)
    case (Inl err)
    with ok shrinks_ok [OF assms(2), of d'] show ?thesis
      by (auto simp: apply_with_metadata_def run stage_errors_def)
  qed (use ok in \<open>auto simp: apply_with_metadata_def run\<close>)
qed

theorem apply_with_metadata_refines_witness:
  "case apply_with_metadata sample_env sample_edits edit_metadata_default sample_world sample_doc of
      (Inr revision, w', d') \<Rightarrow>
        doc_ok (slot_of sample_env) d' \<and> revision = sn_revision (d_current d') \<and>
        applied sample_doc sample_edits d'
    | (Inl err, w', d') \<Rightarrow>
        shrinks (slot_of sample_env) sample_doc d' \<and> doc_ok (slot_of sample_env) d' \<and> err \<noteq> Panicked"
  by (rule apply_with_metadata_refines) simp_all

section \<open>Edits in order\<close>

lemma accepted_sorted:
  "accepted t previous es \<Longrightarrow> sorted (map (\<lambda>e. (ed_start e, ed_end e)) es)"
proof (induction es arbitrary: previous)
  case (Cons e es)
  then have "ordered (ed_end e) t es" "ed_start e \<le> ed_end e"
    using accepted_ordered [of t "Some e" es] by (auto simp: valid_step_def)
  moreover have "pos \<le> ed_start f" "ed_start f \<le> ed_end f" if "ordered pos t fs" "f \<in> set fs" for pos fs f
    using that by (induction fs arbitrary: pos) fastforce+
  ultimately have "(ed_start e, ed_end e) \<le> (ed_start f, ed_end f)" if "f \<in> set es" for f
    using that by (fastforce simp: less_eq_prod_def)
  with Cons show ?case
    by auto
qed simp

lemma sorted_edits_accepted: "accepted t None (tr_edits tr) \<Longrightarrow> sorted_edits tr = tr_edits tr"
  by (simp add: sorted_edits_def sort_key_id_if_sorted accepted_sorted)

text \<open>A document applies edits that are in order, or is short of memory or out of revisions.\<close>

lemma apply_accepted:
  assumes "env_ok env" "doc_ok (slot_of env) d" "inserts_valid (tr_edits tr)"
    "tr_base tr = sn_revision (d_current d)" "accepted (snap_text (d_current d)) None (tr_edits tr)"
  shows "case apply_transaction env tr w d of
      (Inr revision, w', d') \<Rightarrow>
        doc_ok (slot_of env) d' \<and> revision = sn_revision (d_current d') \<and>
        snap_text (d_current d') = render 0 (snap_text (d_current d)) (tr_edits tr)
    | (Inl err, w', d') \<Rightarrow> err = BudgetExceeded \<or> err = RevisionOverflow"
proof -
  note sorted = sorted_edits_accepted [OF assms(5)]
  obtain res w' d' where run: "apply_relieved env (relieve_history env) tr None w d = (res, w', d')"
    by (metis prod_cases3)
  note ok = own.apply_relieved_ok [OF assms(1) refl assms(2,3) run]
  show ?thesis
  proof (cases "tr_edits tr = []")
    case True
    with run assms(2,4) show ?thesis
      by (auto simp: apply_transaction_def apply_relieved_def)
  next
    case False
    have "good (d_current d)"
      using assms(2) by (simp add: doc_ok_def)
    then have refused: "err = RevisionOverflow" if "check_transaction d tr = Inl err" for err
      using that check_edits_iff [of "d_current d" None "sorted_edits tr"] assms(4,5) False
      by (auto simp: check_transaction_def and_then_Inl_iff sorted [unfolded sorted_edits_def] next_revision_def
          ok_or_def sorted split: option.splits if_splits)
    show ?thesis
    proof (cases res)
      case (Inl err)
      with ok refused run show ?thesis
        by (auto simp: apply_transaction_def)
    next
      case (Inr revision)
      with ok run False sorted show ?thesis
        by (auto simp: apply_transaction_def applied_def Let_def)
    qed
  qed
qed

section \<open>Undo and redo\<close>

lemma undo_cases:
  assumes "env_ok env" "doc_ok (slot_of env) d"
  obtains (ok) w' d' where "undo env w d = (Inr (sn_revision (d_current d')), w', d')"
      "doc_ok (slot_of env) d'" "undone d d'"
  | (error) err w' d' where "undo env w d = (Inl err, w', d')" "shrinks (slot_of env) d d'"
      "err \<in> history_errors"
proof -
  obtain r w' d' where run: "undo_relieved env (relieve_history env) w d = (r, w', d')"
    by (metis prod_cases3)
  from own.undo_relieved_ok [OF assms(1) refl assms(2) run] run that show thesis
    by (cases r) (auto simp: undo_def)
qed

lemma redo_cases:
  assumes "env_ok env" "doc_ok (slot_of env) d"
  obtains (ok) w' d' where "redo env w d = (Inr (sn_revision (d_current d')), w', d')"
      "doc_ok (slot_of env) d'" "redone d d'"
  | (error) err w' d' where "redo env w d = (Inl err, w', d')" "shrinks (slot_of env) d d'"
      "err \<in> history_errors"
proof -
  obtain r w' d' where run: "redo_relieved env (relieve_history env) w d = (r, w', d')"
    by (metis prod_cases3)
  from own.redo_relieved_ok [OF assms(1) refl assms(2) run] run that show thesis
    by (cases r) (auto simp: redo_def)
qed

lemma apply_cases:
  assumes "env_ok env" "doc_ok (slot_of env) d" "inserts_valid (tr_edits tr)" "tr_edits tr \<noteq> []"
  obtains (ok) w' d' where "apply_transaction env tr w d = (Inr (sn_revision (d_current d')), w', d')"
      "doc_ok (slot_of env) d'" "applied d tr d'"
  | (error) err w' d' where "apply_transaction env tr w d = (Inl err, w', d')"
      "shrinks (slot_of env) d d'" "err \<in> stage_errors"
proof -
  obtain r w' d' where run: "apply_relieved env (relieve_history env) tr None w d = (r, w', d')"
    by (metis prod_cases3)
  from own.apply_relieved_ok [OF assms(1) refl assms(2,3) run] run assms(4) that show thesis
    by (cases r) (auto simp: apply_transaction_def)
qed

lemma undo_chain_last:
  "doc_ok slot d \<Longrightarrow> stack_last (d_undo d) = Some e \<Longrightarrow> point_after e = now d \<and> entry_ok e"
  by (auto simp: doc_ok_def stack_last_rev split: list.splits)







text \<open>A metadata change is one undoable step that keeps the text.\<close>
theorem apply_metadata_refines:
  assumes "env_ok env" "doc_ok (slot_of env) d"
  shows "case apply_metadata_relieved env (relieve_history env) base md w d of
      (Inr revision, w', d') \<Rightarrow>
        doc_ok (slot_of env) d' \<and> revision = sn_revision (d_current d') \<and>
        sn_root (d_current d') = sn_root (d_current d) \<and> sn_metadata (d_current d') = md
    | (Inl err, w', d') \<Rightarrow> shrinks (slot_of env) d d' \<and> doc_ok (slot_of env) d' \<and>
        err \<in> {StaleRevision, RevisionOverflow, BudgetExceeded}"
proof -
  obtain r w' d' where run: "apply_metadata_relieved env (relieve_history env) base md w d = (r, w', d')"
    by (metis prod_cases3)
  from own.apply_metadata_ok [OF assms(1) refl assms(2) run] shrinks_ok [OF assms(2)] show ?thesis
    by (cases r) (auto simp: run)
qed

theorem apply_metadata_refines_witness:
  "case apply_metadata_relieved sample_env (relieve_history sample_env) 0 [([97], [98])] sample_world sample_doc of
      (Inr revision, w', d') \<Rightarrow>
        doc_ok (slot_of sample_env) d' \<and> revision = sn_revision (d_current d') \<and>
        sn_root (d_current d') = sn_root (d_current sample_doc) \<and>
        sn_metadata (d_current d') = [([97], [98])]
    | (Inl err, w', d') \<Rightarrow>
        shrinks (slot_of sample_env) sample_doc d' \<and> doc_ok (slot_of sample_env) d' \<and>
        err \<in> {StaleRevision, RevisionOverflow, BudgetExceeded}"
  by (rule apply_metadata_refines) simp_all

section \<open>Coalescing\<close>

text \<open>Coalescing a large transaction never fails on ordered edits and keeps its meaning: the
  merged edits are still ordered, no more than before, and render to the same text.\<close>
theorem coalesce_equivalent:
  assumes "good (d_current d)" "ordered 0 (snap_text (d_current d)) es" "inserts_valid es" "es \<noteq> []"
  shows "\<exists>out. coalesce d es = Inr out \<and> ordered 0 (snap_text (d_current d)) out \<and>
    length out \<le> length es \<and>
    render 0 (snap_text (d_current d)) out = render 0 (snap_text (d_current d)) es"
  by (rule coalesce_ok [OF assms]) (auto dest: coalesce_length)

theorem coalesce_equivalent_witness:
  "\<exists>out. coalesce sample_doc (rev (tr_edits sample_edits)) = Inr out \<and>
    ordered 0 [97, 98, CR, LF, 99] out \<and> length out \<le> 2 \<and>
    render 0 [97, 98, CR, LF, 99] out = [98, CR, 120, 121, LF, 99]"
proof -
  have o: "ordered 0 (snap_text (d_current sample_doc)) (rev (tr_edits sample_edits))"
    by (simp add: sample_edits_def) code_simp
  have i: "inserts_valid (rev (tr_edits sample_edits))" "rev (tr_edits sample_edits) \<noteq> []"
    using sample_edits_valid by (auto simp: inserts_valid_def) (simp add: sample_edits_def)
  from coalesce_equivalent [OF sample_doc_ok(2) o i] show ?thesis
    by (simp add: sample_edits_def sub_def numeral_2_eq_2)
qed

section \<open>Reading\<close>

lemma snapshot_chunks_text:
  assumes "good s" "a \<le> b" "char_boundary (snap_text s) a" "char_boundary (snap_text s) b"
  shows "and_then (snapshot_chunks s a b) (\<lambda>stack. and_then (chunks_all stack) (\<lambda>ts. Inr (List.concat ts))) =
    Inr (sub a b (snap_text s))"
proof -
  have "validate_range s a b = Inr ()"
    using assms by (simp add: validate_range_iff)
  moreover have "chunks_text (sn_root s) a b = Inr (sub a b (snap_text s))"
    using assms chunks_text_ok [of "\<lambda>_. []" "sn_root s" a b]
    by (simp add: good_def owned_def snap_text_def text_of_def)
  ultimately show ?thesis
    by (simp add: snapshot_chunks_def chunks_text_def)
qed

lemma snapshot_read_text:
  assumes "good s" "a \<le> b" "char_boundary (snap_text s) a" "char_boundary (snap_text s) b" "b - a \<le> max_bytes"
  shows "snapshot_read s a b max_bytes = Inr (sub a b (snap_text s))"
  using snapshot_chunks_text [OF assms(1-4)] assms
  by (simp add: snapshot_read_def validate_range_iff [THEN iffD2])

text \<open>\<open>read\<close> returns exactly the bytes of a range that lies on character boundaries and fits
  the caller's limit, whatever the shape of the tree, and refuses every other range.\<close>
theorem snapshot_read_refines:
  assumes "good s"
  shows "snapshot_read s a b max_bytes =
    (if a > b \<or> b > length (snap_text s) then Inl OutOfBounds
     else if \<not> char_boundary (snap_text s) a \<or> \<not> char_boundary (snap_text s) b then Inl InvalidBoundary
     else if b - a > max_bytes then Inl BudgetExceeded
     else Inr (sub a b (snap_text s)))"
  using assms snapshot_chunks_text [OF assms, of a b]
  by (simp add: snapshot_read_def validate_range_def snapshot_len_text is_boundary_text)

theorem snapshot_read_refines_witness:
  "snapshot_read (d_current sample_doc) 1 4 10 = Inr [98, CR, LF]"
proof -
  have "char_boundary [97, 98, CR, LF, 99] 1" "char_boundary [97, 98, CR, LF, 99] 4"
    by code_simp+
  with snapshot_read_refines [OF sample_doc_ok(2), of 1 4 10] show ?thesis
    by (simp add: sub_def)
qed

text \<open>C31: The line index of a snapshot agrees with a scan of its text: \<open>line_range\<close> gives the
  start of each line and the start of the next (or the end of the text), refuses lines past the last
  one, and \<open>line_at\<close> maps every character boundary to the line that contains it.\<close>
theorem snapshot_lines_refine:
  assumes "good s"
  shows "line_range s k =
      (let ls = line_starts (snap_text s) in
       if k < length ls then
         Inr (ls ! k, if k + 1 < length ls then ls ! (k + 1) else length (snap_text s))
       else Inl OutOfBounds) \<and>
    line_count s = length (line_starts (snap_text s)) \<and>
    snapshot_line_at s p =
      (if p > length (snap_text s) then Inl OutOfBounds
       else if \<not> char_boundary (snap_text s) p then Inl InvalidBoundary
       else Inr (line_of (snap_text s) p))"
proof -
  have ok: "root_ok (\<lambda>_. []) (sn_root s)" "\<not> has_source (sn_root s)"
    using assms by (auto simp: good_def owned_def)
  show ?thesis
    using line_start_ok [OF ok] line_at_ok [OF ok, of p] tree_summary_scan [OF ok]
    by (auto simp: line_range_def snapshot_line_at_def snapshot_len_text [OF assms] ok_or_def
        is_boundary_text [OF assms] snap_text_def text_of_def line_count_def length_line_starts Let_def)
qed

theorem snapshot_lines_refine_witness:
  "line_range (d_current sample_doc) 1 = Inr (4, 5) \<and>
   line_range (d_current sample_doc) 2 = Inl OutOfBounds \<and> snapshot_line_at (d_current sample_doc) 4 = Inr 1"
proof -
  have "line_starts [97, 98, CR, LF, 99] = [0, 4]" "line_of [97, 98, CR, LF, 99] 4 = 1"
    "char_boundary [97, 98, CR, LF, 99] 4"
    by code_simp+
  then show ?thesis
    using snapshot_lines_refine [OF sample_doc_ok(2), of 1 4]
      snapshot_lines_refine [OF sample_doc_ok(2), of 2 4]
    by simp
qed

end
