(* ===== verification/Group.thy ===== *)
theory Group
  imports Document_Properties
begin

text \<open>
  Atomic commits over several documents, crates/document/src/group.rs. All documents of a group
  share the budgets of the world; the link of a group, one \<open>AtomicBool\<close>, is identified by the
  identity of the group. Every operation returns the documents in either case: a refused one may
  have reserved history slots, and nothing else.
\<close>

definition MAX_GROUP_DOCUMENTS :: nat where "MAX_GROUP_DOCUMENTS = 100"

definition group_members :: "doc list \<Rightarrow> nat list res" where
  "group_members docs =
     (if length docs < 2 \<or> length docs > MAX_GROUP_DOCUMENTS then Inl OutOfBounds
      else
        let ids = sort (map (\<lambda>d. sn_id (d_current d)) docs) in
        if \<exists>i<length ids - 1. ids ! i = ids ! (i + 1) then Inl WrongDocument else Inr ids)"

section \<open>Commit\<close>

fun reserve_all ::
  "'b env \<Rightarrow> 'b world \<Rightarrow> (doc \<times> prepared) list \<Rightarrow> unit res \<times> 'b world \<times> doc list"
where
  "reserve_all env w [] = (Inr (), w, [])"
| "reserve_all env w ((d, p) # rest) =
     (case validate_prepared d p of
        Inl e \<Rightarrow> (Inl e, w, d # map fst rest)
      | Inr _ \<Rightarrow>
          (case reserve_undo env w d of
             Inl _ \<Rightarrow> (Inl BudgetExceeded, w, d # map fst rest)
           | Inr (w, d) \<Rightarrow> (let (r, w, ds) = reserve_all env w rest in (r, w, d # ds))))"

definition tagged :: "group_tag \<Rightarrow> prepared \<Rightarrow> prepared" where
  "tagged tag p = p\<lparr>pr_entry := (pr_entry p)\<lparr>en_group := Some tag\<rparr>\<rparr>"

fun commit_all :: "'b env \<Rightarrow> 'b world \<Rightarrow> (doc \<times> prepared) list \<Rightarrow> ('b world \<times> doc list) res" where
  "commit_all env w [] = Inr (w, [])"
| "commit_all env w ((d, p) # rest) =
     and_then (commit_unchecked env w d p) (\<lambda>(w, d).
     and_then (commit_all env w rest) (\<lambda>(w, ds). Inr (w, d # ds)))"

definition drop_all_prepared :: "'b env \<Rightarrow> 'b world \<Rightarrow> prepared list \<Rightarrow> 'b world" where
  "drop_all_prepared env w ps = fold (\<lambda>p w. drop_prepared env w p) ps w"

definition group_commit ::
  "'b env \<Rightarrow> 'b world \<Rightarrow> doc list \<Rightarrow> prepared list \<Rightarrow> nat res \<times> 'b world \<times> doc list"
where
  "group_commit env w docs ps =
     (if length docs \<noteq> length ps then (Inl OutOfBounds, drop_all_prepared env w ps, docs)
      else
        (case group_members docs of
           Inl e \<Rightarrow> (Inl e, drop_all_prepared env w ps, docs)
         | Inr members \<Rightarrow>
            (case reserve_all env w (zip docs ps) of
               (Inl e, w, docs) \<Rightarrow> (Inl e, drop_all_prepared env w ps, docs)
             | (Inr _, w, docs) \<Rightarrow>
                 (let (i, w) = unique w;
                      tag = \<lparr>gt_id = i, gt_members = members, gt_linked = i\<rparr>;
                      w = w\<lparr>w_linked := (w_linked w)(i := True)\<rparr>
                  in
                  (case commit_all env w (zip docs (map (tagged tag) ps)) of
                     Inl e \<Rightarrow> (Inl e, w, docs)
                   | Inr (w, docs) \<Rightarrow> (Inr i, w, docs))))))"

section \<open>Undo and redo\<close>

text \<open>
  The first loop of \<open>move_history\<close>: checks, receipts and room for every document. When it stops the
  receipts already made are released.
\<close>

definition release_change :: "'b env \<Rightarrow> applied_change \<Rightarrow> 'b world \<Rightarrow> 'b world" where
  "release_change env c w =
     w\<lparr>w_bytes := e_released env (w_bytes w) (charged_bytes (e_sizes env) c)\<rparr>"

definition plan_one ::
  "'b env \<Rightarrow> bool \<Rightarrow> nat \<Rightarrow> nat list \<Rightarrow> 'b world \<Rightarrow> doc \<Rightarrow>
   (nat \<times> applied_change) res \<times> 'b world \<times> doc"
where
  "plan_one env again expected members w d =
     (case stack_last (if again then d_redo d else d_undo d) of
        None \<Rightarrow> (Inl EmptyHistory, w, d)
      | Some e \<Rightarrow>
          (case en_group e of
             None \<Rightarrow> (Inl LinkedUndoRequired, w, d)
           | Some tag \<Rightarrow>
               if gt_id tag \<noteq> expected \<or> gt_members tag \<noteq> members \<or> \<not> linked w tag
               then (Inl LinkedUndoRequired, w, d)
               else
                 (case and_then (next_revision d) (\<lambda>revision.
                    and_then (change_owned (e_meter env) (e_sizes env) (w_bytes w) (sn_id (d_current d))
                        (sn_revision (d_current d)) revision (sn_state (d_current d))
                        (if again then en_after_state e else en_before_state e)
                        (if again then DirRedo else DirUndo) (en_edits e))
                      (\<lambda>(change, b). Inr (revision, change, b))) of
                    Inl err \<Rightarrow> (Inl err, w, d)
                  | Inr (revision, change, b) \<Rightarrow>
                      (let w = w\<lparr>w_bytes := b\<rparr> in
                       (case if again then reserve_undo env w d else reserve_redo env w d of
                          Inl _ \<Rightarrow> (Inl BudgetExceeded, release_change env change w, d)
                        | Inr (w, d) \<Rightarrow> (Inr (revision, change), w, d))))))"

fun plan_all ::
  "'b env \<Rightarrow> bool \<Rightarrow> nat \<Rightarrow> nat list \<Rightarrow> 'b world \<Rightarrow> doc list \<Rightarrow>
   (nat \<times> applied_change) list res \<times> 'b world \<times> doc list"
where
  "plan_all env again expected members w [] = (Inr [], w, [])"
| "plan_all env again expected members w (d # ds) =
     (case plan_one env again expected members w d of
        (Inl e, w, d) \<Rightarrow> (Inl e, w, d # ds)
      | (Inr step, w, d) \<Rightarrow>
          (case plan_all env again expected members w ds of
             (Inl e, w, ds) \<Rightarrow> (Inl e, release_change env (snd step) w, d # ds)
           | (Inr steps, w, ds) \<Rightarrow> (Inr (step # steps), w, d # ds)))"

text \<open>The second loop, for one document; \<open>pop().unwrap()\<close> on an empty stack panics.\<close>

definition move_one :: "bool \<Rightarrow> doc \<Rightarrow> nat \<times> applied_change \<Rightarrow> doc res" where
  "move_one again d step =
     (let cur = d_current d; (revision, change) = step in
      if again then
        (case stack_pop (d_redo d) of
           (None, _) \<Rightarrow> Inl Panicked
         | (Some e, rest) \<Rightarrow>
             Inr (d\<lparr>d_current := cur\<lparr>sn_change := Some change, sn_metadata := en_after_metadata e,
                      sn_root := en_after e, sn_state := en_after_state e, sn_revision := revision\<rparr>,
                    d_redo := rest, d_undo := stack_push (d_undo d) e\<rparr>))
      else
        (case stack_pop (d_undo d) of
           (None, _) \<Rightarrow> Inl Panicked
         | (Some e, rest) \<Rightarrow>
             Inr (d\<lparr>d_current := cur\<lparr>sn_change := Some change, sn_metadata := en_before_metadata e,
                      sn_root := en_before e, sn_state := en_before_state e, sn_revision := revision\<rparr>,
                    d_undo := rest, d_redo := stack_push (d_redo d) e\<rparr>)))"

fun move_all :: "bool \<Rightarrow> (doc \<times> nat \<times> applied_change) list \<Rightarrow> doc list res" where
  "move_all again [] = Inr []"
| "move_all again ((d, step) # rest) =
     and_then (move_one again d step) (\<lambda>d. and_then (move_all again rest) (\<lambda>ds. Inr (d # ds)))"

definition move_history ::
  "'b env \<Rightarrow> 'b world \<Rightarrow> doc list \<Rightarrow> nat \<Rightarrow> bool \<Rightarrow> unit res \<times> 'b world \<times> doc list"
where
  "move_history env w docs expected again =
     (case group_members docs of
        Inl e \<Rightarrow> (Inl e, w, docs)
      | Inr members \<Rightarrow>
          (case plan_all env again expected members w docs of
             (Inl e, w, docs) \<Rightarrow> (Inl e, w, docs)
           | (Inr steps, w, docs) \<Rightarrow>
               (case move_all again (zip docs steps) of
                  Inl e \<Rightarrow> (Inl e, w, docs)
                | Inr docs \<Rightarrow> (Inr (), w, docs))))"

definition group_undo where
  "group_undo env w docs expected = move_history env w docs expected False"

definition group_redo where
  "group_redo env w docs expected = move_history env w docs expected True"

section \<open>Commit is all or nothing\<close>

text \<open>What \<open>prepare\<close> returns for the document: a staged step with its charges.\<close>

definition prepared_for :: "doc \<Rightarrow> prepared \<Rightarrow> bool" where
  "prepared_for d p \<longleftrightarrow>
     pr_tracked p \<and> \<not> en_typing_insert (pr_entry p) \<and> (\<exists>tr p0. staged d tr p0 \<and> same_step p0 p)"

lemma prepare_ok:
  assumes "good (d_current d)" "inserts_valid (tr_edits tr)" "prepare env w d tr = Inr (p, w')"
  shows "prepared_for d p" "validate_prepared d p = Inr ()"
    "text_of (en_after (pr_entry p)) = render 0 (snap_text (d_current d)) (sorted_edits tr)"
proof -
  obtain p0 w0 where p0: "stage env w d tr = Inr (p0, w0)" "charge env w0 d p0 0 = Inr (p, w')"
    using assms(3) by (auto simp: prepare_def and_then_Inr_iff)
  have st: "staged d tr p0"
    by (rule stage_cases [OF assms(1,2), of env w]) (use p0(1) in auto)
  note like = charge_like [OF p0(2)]
  note same = charged_like_same [of p0 p]
  show "prepared_for d p"
    using like same st unfolding prepared_for_def by (auto simp: staged_def Let_def)
  show "validate_prepared d p = Inr ()"
    "text_of (en_after (pr_entry p)) = render 0 (snap_text (d_current d)) (sorted_edits tr)"
    using like same st by (auto simp: staged_def Let_def validate_prepared_def same_step_def)
qed

lemma prepared_ready:
  assumes "doc_ok slot d" "prepared_for d p" "shrinks slot d d1"
    "length (st_entries (d_undo d1)) < st_capacity (d_undo d1)"
  shows "ready d1 (tagged tag p)"
proof -
  obtain tr p0 where p: "staged d tr p0" "same_step p0 p" "\<not> en_typing_insert (pr_entry p)"
    using assms(2) unfolding prepared_for_def by blast
  have "same_step p0 (tagged tag p)" "\<not> en_typing_insert (pr_entry (tagged tag p))"
    using p(2,3) by (simp_all add: same_step_def tagged_def)
  then show ?thesis
    using staged_ready(1) [OF assms(1) p(1) assms(3)] assms(4) by blast
qed

lemma reserve_all_ok:
  assumes "env_ok env" "\<forall>dp\<in>set dps. doc_ok (slot_of env) (fst dp)"
    "reserve_all env w dps = (r, w', ds)"
  shows "list_all2 (\<lambda>dp d. shrinks (slot_of env) (fst dp) d) dps ds \<and>
    (case r of
       Inl err \<Rightarrow> err \<in> {WrongDocument, StaleRevision, BudgetExceeded}
     | Inr _ \<Rightarrow> list_all2 (\<lambda>dp d. validate_prepared (fst dp) (snd dp) = Inr () \<and>
         length (st_entries (d_undo d)) < st_capacity (d_undo d)) dps ds)"
  using assms(2,3)
proof (induction dps arbitrary: w r w' ds)
  case Nil
  then show ?case
    by auto
next
  case (Cons dp rest)
  obtain d p where dp: "dp = (d, p)"
    by (cases dp)
  have refl: "list_all2 (\<lambda>dp d. shrinks (slot_of env) (fst dp) d) rest (map fst rest)"
    by (simp add: list_all2_conv_all_nth)
  show ?case
  proof (cases "validate_prepared d p")
    case (Inl err)
    then have "(r, w', ds) = (Inl err, w, d # map fst rest)" "err \<in> {WrongDocument, StaleRevision}"
      using Cons.prems(2) dp by (auto simp: validate_prepared_def split: if_splits)
    with refl dp show ?thesis
      by auto
  next
    case valid: (Inr u)
    show ?thesis
    proof (cases "reserve_undo env w d")
      case (Inl err)
      with refl dp valid Cons.prems(2) show ?thesis
        by auto
    next
      case (Inr x)
      obtain w1 d1 where x: "x = (w1, d1)"
        by (cases x)
      obtain r2 w2 ds2 where rest: "reserve_all env w1 rest = (r2, w2, ds2)"
        by (metis prod_cases3)
      have "stack_ok (slot_of env) (d_undo d)"
        using Cons.prems(1) dp by (simp add: doc_ok_def)
      note d1 = reserve_undo_ok [OF Inr [unfolded x] this assms(1)]
      have "r = r2" "ds = d1 # ds2"
        using Cons.prems(2) dp valid Inr x rest by auto
      with d1 Cons.IH [OF _ rest] Cons.prems(1) dp valid show ?thesis
        by (cases r2) auto
    qed
  qed
qed

lemma commit_group_unmerged:
  assumes "commit_unchecked env w d p = Inr (w', d')" "en_group (pr_entry p) \<noteq> None"
  shows "\<not> d_last_merged d'"
  using assms
  by (auto simp: commit_unchecked_def merges_def Let_def clear_redo_def clear_undo_def
      split: if_splits option.splits prod.splits dest: trim_history_shrinks [THEN shrinks_same(4)])

definition group_committed :: "nat \<Rightarrow> doc \<Rightarrow> prepared \<Rightarrow> doc \<Rightarrow> bool" where
  "group_committed slot d p d' \<longleftrightarrow>
     doc_ok slot d' \<and> snap_text (d_current d') = text_of (en_after (pr_entry p)) \<and>
     sn_revision (d_current d') = sn_revision (d_current d) + 1 \<and>
     sn_id (d_current d') = sn_id (d_current d) \<and>
     (st_entries (d_undo d') \<noteq> [] \<longrightarrow> point_before (last (st_entries (d_undo d'))) = now d)"

lemma commit_all_ok:
  assumes "\<forall>(d, p)\<in>set dps. doc_ok slot d \<and> ready d p \<and> en_group (pr_entry p) \<noteq> None \<and>
    pr_revision p = sn_revision (d_current d) + 1"
  shows "\<exists>w' ds. commit_all env w dps = Inr (w', ds) \<and>
    list_all2 (\<lambda>(d, p) d'. group_committed slot d p d') dps ds"
  using assms
proof (induction dps arbitrary: w)
  case (Cons dp rest)
  obtain d p where dp: "dp = (d, p)"
    by (cases dp)
  obtain w1 d1 where d1: "commit_unchecked env w d p = Inr (w1, d1)" "doc_ok slot d1" "commits d p d1"
    using commit_unchecked_ok [of slot d p env w] Cons.prems dp by auto
  have "\<not> d_last_merged d1"
    using commit_group_unmerged [OF d1(1)] Cons.prems dp by auto
  then have "group_committed slot d p d1"
    using d1(2,3) Cons.prems dp
    by (auto simp: group_committed_def commits_def resumes_def snap_text_def)
  with d1(1) Cons.IH [of w1] Cons.prems dp show ?case
    by auto
qed simp

abbreviation untouched :: "nat \<Rightarrow> doc \<Rightarrow> doc \<Rightarrow> bool" where
  "untouched slot d d' \<equiv> shrinks slot d d' \<and> doc_ok slot d' \<and> now d' = now d"

lemma untouched: "doc_ok slot d \<Longrightarrow> shrinks slot d d' \<Longrightarrow> untouched slot d d'"
  using shrinks_ok shrinks_same(1) by (simp add: now_def)

lemma prepared_list_ready:
  assumes "\<forall>d\<in>set docs. doc_ok slot d" "length docs = length ps"
    "list_all2 (\<lambda>d p. validate_prepared d p = Inr () \<longrightarrow> prepared_for d p) docs ps"
    "list_all2 (\<lambda>dp d. shrinks slot (fst dp) d) (zip docs ps) ds"
    "list_all2 (\<lambda>dp d. validate_prepared (fst dp) (snd dp) = Inr () \<and>
         length (st_entries (d_undo d)) < st_capacity (d_undo d)) (zip docs ps) ds"
  shows "\<forall>(d, p)\<in>set (zip ds (map (tagged tag) ps)). doc_ok slot d \<and> ready d p \<and>
    en_group (pr_entry p) \<noteq> None \<and> pr_revision p = sn_revision (d_current d) + 1"
proof -
  have "doc_ok slot (ds ! i) \<and> ready (ds ! i) (tagged tag (ps ! i)) \<and>
      pr_revision (ps ! i) = sn_revision (d_current (ds ! i)) + 1"
    if i: "i < length docs" for i
  proof -
    have valid: "validate_prepared (docs ! i) (ps ! i) = Inr ()"
      "length (st_entries (d_undo (ds ! i))) < st_capacity (d_undo (ds ! i))"
      "shrinks slot (docs ! i) (ds ! i)"
      using assms(2,4,5) i by (auto simp: list_all2_conv_all_nth)
    have p: "prepared_for (docs ! i) (ps ! i)"
      using valid(1) assms(2,3) i by (auto simp: list_all2_conv_all_nth)
    have d: "doc_ok slot (docs ! i)"
      using assms(1) i by simp
    have "pr_revision (ps ! i) = sn_revision (d_current (ds ! i)) + 1"
      using p shrinks_same(1) [OF valid(3)]
      by (auto simp: prepared_for_def staged_def same_step_def Let_def)
    with prepared_ready [OF d p valid(3,2)] shrinks_ok [OF d valid(3)] show ?thesis
      by simp
  qed
  then show ?thesis
    using assms(2) list_all2_lengthD [OF assms(4)] by (auto simp: in_set_zip tagged_def)
qed

lemma group_commit_ok:
  assumes "env_ok env" "\<forall>d\<in>set docs. doc_ok (slot_of env) d"
    "list_all2 (\<lambda>d p. validate_prepared d p = Inr () \<longrightarrow> prepared_for d p) docs ps"
  shows "case group_commit env w docs ps of
      (Inr i, w', docs') \<Rightarrow> list_all2 (\<lambda>(d, p) d'. group_committed (slot_of env) d p d') (zip docs ps) docs'
    | (Inl err, w', docs') \<Rightarrow>
        list_all2 (untouched (slot_of env)) docs docs' \<and>
        err \<in> {OutOfBounds, WrongDocument, StaleRevision, BudgetExceeded}"
proof -
  let ?slot = "slot_of env"
  have len: "length docs = length ps"
    using assms(3) by (rule list_all2_lengthD)
  obtain r w1 ds where res: "reserve_all env w (zip docs ps) = (r, w1, ds)"
    by (metis prod_cases3)
  have "\<forall>dp\<in>set (zip docs ps). doc_ok ?slot (fst dp)"
    using assms(2) by (auto dest: set_zip_leftD)
  note reserved = reserve_all_ok [OF assms(1) this res]
  have kept: "list_all2 (untouched ?slot) docs ds" "list_all2 (untouched ?slot) docs docs"
    using conjunct1 [OF reserved] assms(2) len untouched [of ?slot]
    by (auto simp: list_all2_conv_all_nth all_set_conv_all_nth)
  consider (members) err where "group_members docs = Inl err" "err \<in> {OutOfBounds, WrongDocument}"
    | (refused) m err where "group_members docs = Inr m" "r = Inl err"
    | (ok) m where "group_members docs = Inr m" "r = Inr ()"
    by (cases "group_members docs"; cases r) (auto simp: group_members_def Let_def split: if_splits)
  then show ?thesis
  proof cases
    case ok
    let ?tag = "\<lparr>gt_id = w_next w1, gt_members = m, gt_linked = w_next w1\<rparr>"
    let ?dps = "zip ds (map (tagged ?tag) ps)"
    have "\<forall>(d, p)\<in>set ?dps. doc_ok ?slot d \<and> ready d p \<and> en_group (pr_entry p) \<noteq> None \<and>
        pr_revision p = sn_revision (d_current d) + 1"
      using prepared_list_ready [OF assms(2) len assms(3)] reserved unfolding ok(2) sum.case by blast
    then obtain w2 ds2 where run: "commit_all env (w1\<lparr>w_next := w_next w1 + 1,
          w_linked := (w_linked w1)(w_next w1 := True)\<rparr>) ?dps = Inr (w2, ds2)"
        "list_all2 (\<lambda>(d, p) d'. group_committed ?slot d p d') ?dps ds2"
      using commit_all_ok by blast
    have "list_all2 (\<lambda>(d, p) d'. group_committed ?slot d p d') (zip docs ps) ds2"
      using run(2) reserved len
      by (auto simp: list_all2_conv_all_nth group_committed_def tagged_def now_def
          dest!: shrinks_same(1))
    with run(1) res ok len show ?thesis
      by (simp add: group_commit_def unique_def)
  qed (use kept res reserved len in \<open>auto simp: group_commit_def\<close>)
qed

text \<open>C19: A group commit is all or nothing. When it succeeds every document of the group carries its
  prepared text, one revision later, with its own step on the undo stack (never merged into typing)
  or, when its history had no room, no history; when it is refused every document is as it was. It
  never panics, whatever documents and prepared edits it is given, as long as each edit that passes
  the revision check was prepared for its document.\<close>
theorem group_commit_atomic:
  assumes "env_ok env" "\<forall>d\<in>set docs. doc_ok (slot_of env) d"
    "list_all2 (\<lambda>d p. validate_prepared d p = Inr () \<longrightarrow> prepared_for d p) docs ps"
  shows "case group_commit env w docs ps of
      (Inr i, w', docs') \<Rightarrow> list_all2 (\<lambda>(d, p) d'. group_committed (slot_of env) d p d') (zip docs ps) docs'
    | (Inl err, w', docs') \<Rightarrow>
        list_all2 (untouched (slot_of env)) docs docs' \<and>
        err \<in> {OutOfBounds, WrongDocument, StaleRevision, BudgetExceeded}"
  by (rule group_commit_ok [OF assms])

section \<open>A group moves together\<close>

text \<open>The step planned for a document: the receipt of the move and room for the entry.\<close>

definition planned :: "bool \<Rightarrow> doc \<Rightarrow> nat \<times> applied_change \<Rightarrow> bool" where
  "planned again d step \<longleftrightarrow>
     (\<exists>e. let cur = d_current d; dir = (if again then DirRedo else DirUndo) in
        stack_last (if again then d_redo d else d_undo d) = Some e \<and>
        step = (sn_revision cur + 1,
          \<lparr>ac_document = sn_id cur, ac_before_revision = sn_revision cur,
           ac_after_revision = sn_revision cur + 1, ac_before_state = sn_state cur,
           ac_after_state = (if again then en_after_state e else en_before_state e),
           ac_direction = dir, ac_edits = map (compact dir) (en_edits e)\<rparr>) \<and>
        (if again then length (st_entries (d_undo d)) < st_capacity (d_undo d)
         else length (st_entries (d_redo d)) < st_capacity (d_redo d)))"

lemma plan_one_ok:
  assumes "env_ok env" "doc_ok (slot_of env) d" "plan_one env again expected members w d = (r, w', d')"
  shows "shrinks (slot_of env) d d' \<and>
    (case r of Inl err \<Rightarrow> err \<in> history_errors | Inr step \<Rightarrow> planned again d' step)"
proof (cases "stack_last (if again then d_redo d else d_undo d)")
  case None
  with assms(3) show ?thesis
    by (auto simp: plan_one_def history_errors_def)
next
  case (Some e)
  show ?thesis
  proof (cases "\<exists>tag. en_group e = Some tag \<and> gt_id tag = expected \<and> gt_members tag = members \<and> linked w tag")
    case False
    with Some assms(3) show ?thesis
      by (auto simp: plan_one_def history_errors_def split: option.splits if_splits)
  next
    case True
    let ?cur = "d_current d"
    let ?dir = "if again then DirRedo else DirUndo"
    let ?state = "if again then en_after_state e else en_before_state e"
    note run = assms(3) [unfolded plan_one_def Some]
    consider (overflow) "next_revision d = Inl RevisionOverflow"
      | (forward) "next_revision d = Inr (sn_revision ?cur + 1)"
      using next_revision_cases [of d] by metis
    then show ?thesis
    proof cases
      case overflow
      with run True show ?thesis
        by (auto simp: history_errors_def)
    next
      case forward
      show ?thesis
      proof (cases rule: change_owned_cases [of "e_meter env" "e_sizes env" "w_bytes w" "sn_id ?cur"
            "sn_revision ?cur" "sn_revision ?cur + 1" "sn_state ?cur" ?state ?dir "en_edits e"])
        case refused
        with run True forward show ?thesis
          by (auto simp: history_errors_def)
      next
        case (ok c b)
        let ?w = "w\<lparr>w_bytes := b\<rparr>"
        let ?room = "if again then reserve_undo env ?w d else reserve_redo env ?w d"
        have st: "stack_ok (slot_of env) (d_undo d)" "stack_ok (slot_of env) (d_redo d)"
          using assms(2) by (simp_all add: doc_ok_def)
        show ?thesis
        proof (cases ?room)
          case (Inl err)
          with run True forward ok(1) show ?thesis
            by (auto simp: history_errors_def Let_def)
        next
          case (Inr x)
          obtain w1 d1 where x: "x = (w1, d1)"
            by (cases x)
          have "r = Inr (sn_revision ?cur + 1, c)" "d' = d1"
            using run True forward ok(1) Inr x by (auto simp: Let_def)
          moreover have d1: "shrinks (slot_of env) d d1"
            "if again then length (st_entries (d_undo d1)) < st_capacity (d_undo d1) \<and> d_redo d1 = d_redo d
             else length (st_entries (d_redo d1)) < st_capacity (d_redo d1) \<and> d_undo d1 = d_undo d"
            using Inr x reserve_undo_ok [OF _ st(1) assms(1), of ?w w1 d1]
              reserve_redo_ok [OF _ st(2) assms(1), of ?w w1 d1]
            by (auto split: if_splits)
          ultimately show ?thesis
            using ok(2) Some shrinks_same(1) [OF d1(1)] by (auto simp: planned_def Let_def)
        qed
      qed
    qed
  qed
qed

lemma plan_all_ok:
  assumes "env_ok env" "\<forall>d\<in>set docs. doc_ok (slot_of env) d"
    "plan_all env again expected members w docs = (r, w', ds)"
  shows "list_all2 (shrinks (slot_of env)) docs ds \<and>
    (case r of Inl err \<Rightarrow> err \<in> history_errors | Inr steps \<Rightarrow> list_all2 (planned again) ds steps)"
  using assms(2,3)
proof (induction docs arbitrary: w r w' ds)
  case (Cons d rest)
  obtain r1 w1 d1 where one: "plan_one env again expected members w d = (r1, w1, d1)"
    by (metis prod_cases3)
  obtain r2 w2 ds2 where rest: "plan_all env again expected members w1 rest = (r2, w2, ds2)"
    by (metis prod_cases3)
  have d1: "shrinks (slot_of env) d d1 \<and>
    (case r1 of Inl err \<Rightarrow> err \<in> history_errors | Inr step \<Rightarrow> planned again d1 step)"
    using Cons.prems(1) by (intro plan_one_ok [OF assms(1) _ one]) simp
  have refl: "list_all2 (shrinks (slot_of env)) rest rest"
    by (simp add: list_all2_conv_all_nth)
  show ?case
    using Cons.prems(2) one rest d1 refl Cons.IH [OF _ rest] Cons.prems(1)
    by (cases r1; cases r2) auto
qed auto

text \<open>The invariant does not depend on which entries are still open for typing.\<close>

lemma undo_chain_untyped: "undo_chain p (map untyped es) = undo_chain p es"
  by (induction es arbitrary: p) (simp_all add: untyped_def)

lemma redo_chain_untyped: "redo_chain p (map untyped es) = redo_chain p es"
  by (induction es arbitrary: p) (simp_all add: untyped_def)

lemma doc_ok_retyped:
  assumes "doc_ok slot d" "d_current d' = d_current d" "d_policy d' = d_policy d"
    "map untyped (st_entries (d_undo d')) = map untyped (st_entries (d_undo d))"
    "map untyped (st_entries (d_redo d')) = map untyped (st_entries (d_redo d))"
    "\<forall>e\<in>set (st_entries (d_undo d')) \<union> set (st_entries (d_redo d')). entry_ok e"
    "stack_ok slot (d_undo d')" "stack_ok slot (d_redo d')"
  shows "doc_ok slot d'"
proof -
  have "now d' = now d"
    using assms(2) by (simp add: now_def)
  moreover have "undo_chain (now d) (rev (st_entries (d_undo d')))"
    "redo_chain (now d) (rev (st_entries (d_redo d')))"
    using assms(1,4,5) undo_chain_untyped redo_chain_untyped unfolding doc_ok_def
    by (metis rev_map)+
  moreover have "history_size d' = history_size d"
    using assms(4,5) by (metis history_size_def length_map)
  ultimately show ?thesis
    using assms by (simp add: doc_ok_def)
qed

definition moved :: "bool \<Rightarrow> doc \<Rightarrow> doc \<Rightarrow> bool" where
  "moved again d d' \<longleftrightarrow>
     (\<exists>e. stack_last (if again then d_redo d else d_undo d) = Some e \<and>
        stack_last (if again then d_undo d' else d_redo d') = Some e \<and>
        now d' = (if again then point_after e else point_before e) \<and>
        sn_revision (d_current d') = sn_revision (d_current d) + 1 \<and>
        sn_id (d_current d') = sn_id (d_current d) \<and>
        receipt_for (if again then DirRedo else DirUndo) (d_current d) (d_current d'))"

lemma map_untyped_last: "xs \<noteq> [] \<Longrightarrow> map untyped (butlast xs @ [untyped (last xs)]) = map untyped xs"
  by (induction xs) (simp_all add: untyped_def)

lemma move_back_ok:
  assumes "doc_ok slot d" "planned False d step"
  shows "\<exists>d'. move_one False d step = Inr d' \<and> doc_ok slot d' \<and> moved False d d'"
proof -
  let ?cur = "d_current d"
  obtain e c where e: "stack_last (d_undo d) = Some e" "step = (sn_revision ?cur + 1, c)"
    "c = \<lparr>ac_document = sn_id ?cur, ac_before_revision = sn_revision ?cur,
          ac_after_revision = sn_revision ?cur + 1, ac_before_state = sn_state ?cur,
          ac_after_state = en_before_state e, ac_direction = DirUndo,
          ac_edits = map (compact DirUndo) (en_edits e)\<rparr>"
    "length (st_entries (d_redo d)) < st_capacity (d_redo d)"
    using assms(2) by (auto simp: planned_def Let_def)
  let ?cur' = "?cur\<lparr>sn_change := Some c, sn_metadata := en_before_metadata e, sn_root := en_before e,
      sn_state := en_before_state e, sn_revision := sn_revision ?cur + 1\<rparr>"
  let ?single = "d\<lparr>d_current := ?cur', d_undo := untype_last (snd (stack_pop (d_undo d))),
      d_redo := stack_push (d_redo d) (e\<lparr>en_typing_insert := False\<rparr>)\<rparr>"
  let ?d = "d\<lparr>d_current := ?cur', d_undo := snd (stack_pop (d_undo d)), d_redo := stack_push (d_redo d) e\<rparr>"
  note single = undo_step_ok [OF assms(1) e(1,4,3) refl]
  have run: "move_one False d step = Inr ?d"
    using e(1,2) by (simp add: move_one_def stack_pop_def)
  have pushed: "st_entries (d_redo ?d) = st_entries (d_redo d) @ [e]"
    "st_entries (d_redo ?single) = st_entries (d_redo d) @ [untyped e]"
    using e(4) by (simp_all add: stack_push_entries untyped_def)
  have mem: "e \<in> set (st_entries (d_undo d))"
    using e(1) by (auto simp: stack_last_def split: if_splits)
  have popped: "map untyped (st_entries (d_undo ?d)) = map untyped (st_entries (d_undo ?single))"
    using map_untyped_last by (auto simp: stack_pop_def untype_last_entries)
  have "untyped (untyped e) = untyped e"
    by (simp add: untyped_def)
  then have "doc_ok slot ?d"
    using assms(1) e(4) pushed popped mem
    by (intro doc_ok_retyped [OF single(1)])
      (auto simp: doc_ok_def stack_pop_def stack_push_entries stack_ok_def capacity_bytes_def
        dest: in_set_butlastD)
  moreover have "moved False d ?d"
    using single(2) e(1) pushed by (auto simp: moved_def undone_def now_def stack_last_def receipt_for_def snap_text_def)
  ultimately show ?thesis
    using run by blast
qed

lemma move_again_ok:
  assumes "doc_ok slot d" "planned True d step"
  shows "\<exists>d'. move_one True d step = Inr d' \<and> doc_ok slot d' \<and> moved True d d'"
proof -
  let ?cur = "d_current d"
  obtain e c where e: "stack_last (d_redo d) = Some e" "step = (sn_revision ?cur + 1, c)"
    "c = \<lparr>ac_document = sn_id ?cur, ac_before_revision = sn_revision ?cur,
          ac_after_revision = sn_revision ?cur + 1, ac_before_state = sn_state ?cur,
          ac_after_state = en_after_state e, ac_direction = DirRedo,
          ac_edits = map (compact DirRedo) (en_edits e)\<rparr>"
    "length (st_entries (d_undo d)) < st_capacity (d_undo d)"
    using assms(2) by (auto simp: planned_def Let_def)
  let ?cur' = "?cur\<lparr>sn_change := Some c, sn_metadata := en_after_metadata e, sn_root := en_after e,
      sn_state := en_after_state e, sn_revision := sn_revision ?cur + 1\<rparr>"
  let ?d = "d\<lparr>d_current := ?cur', d_redo := snd (stack_pop (d_redo d)), d_undo := stack_push (d_undo d) e\<rparr>"
  note single = redo_step_ok [OF assms(1) e(1,4,3) refl]
  have run: "move_one True d step = Inr ?d"
    using e(1,2) by (simp add: move_one_def stack_pop_def)
  have pushed: "st_entries (stack_push (d_undo d) x) = st_entries (d_undo d) @ [x]" for x
    using e(4) by (simp add: stack_push_entries)
  have mem: "e \<in> set (st_entries (d_redo d))"
    using e(1) by (auto simp: stack_last_def split: if_splits)
  have "doc_ok slot ?d"
    using assms(1) e(4) pushed mem
    by (intro doc_ok_retyped [OF single(1)])
      (auto simp: doc_ok_def stack_pop_def stack_ok_def capacity_bytes_def stack_push_entries untyped_def
        dest: in_set_butlastD)
  moreover have "moved True d ?d"
    using single(2) e(1) pushed by (auto simp: moved_def redone_def now_def stack_last_def receipt_for_def snap_text_def)
  ultimately show ?thesis
    using run by blast
qed

lemma move_all_ok:
  assumes "\<forall>(d, step)\<in>set steps. doc_ok slot d \<and> planned again d step"
  shows "\<exists>ds. move_all again steps = Inr ds \<and>
    list_all2 (\<lambda>x d'. doc_ok slot d' \<and> moved again (fst x) d') steps ds"
  using assms
proof (induction steps)
  case (Cons x rest)
  obtain d step where x: "x = (d, step)"
    by (cases x)
  have "\<exists>d'. move_one again d step = Inr d' \<and> doc_ok slot d' \<and> moved again d d'"
    using move_back_ok [of slot d step] move_again_ok [of slot d step] Cons.prems x by (cases again) auto
  with Cons x show ?case
    by auto
qed simp

definition moves :: "nat \<Rightarrow> bool \<Rightarrow> doc \<Rightarrow> doc \<Rightarrow> bool" where
  "moves slot again d d' \<longleftrightarrow> (\<exists>d1. untouched slot d d1 \<and> doc_ok slot d' \<and> moved again d1 d')"

lemma move_history_cases:
  assumes "env_ok env" "\<forall>d\<in>set docs. doc_ok (slot_of env) d"
  obtains (ok) w' ds' where "move_history env w docs expected again = (Inr (), w', ds')"
      "list_all2 (moves (slot_of env) again) docs ds'"
  | (error) err w' ds where "move_history env w docs expected again = (Inl err, w', ds)"
      "list_all2 (untouched (slot_of env)) docs ds"
      "err \<in> history_errors \<union> {OutOfBounds, WrongDocument}"
proof -
  have same: "list_all2 (untouched (slot_of env)) docs docs"
    using assms(2) by (simp add: list_all2_conv_all_nth)
  show thesis
  proof (cases "group_members docs")
    case (Inl err)
    then have "err \<in> {OutOfBounds, WrongDocument}"
      by (auto simp: group_members_def Let_def split: if_splits)
    with Inl same show thesis
      by (intro error [of err w docs]) (auto simp: move_history_def)
  next
    case (Inr members)
    obtain r w1 ds where plan: "plan_all env again expected members w docs = (r, w1, ds)"
      by (metis prod_cases3)
    note planned = plan_all_ok [OF assms plan]
    have kept: "list_all2 (untouched (slot_of env)) docs ds"
      using conjunct1 [OF planned] assms(2) untouched [of "slot_of env"]
      by (auto simp: list_all2_conv_all_nth all_set_conv_all_nth)
    then have ok_ds: "\<forall>d\<in>set ds. doc_ok (slot_of env) d"
      by (auto simp: list_all2_conv_all_nth all_set_conv_all_nth)
    show thesis
    proof (cases r)
      case (Inl err)
      with planned kept plan Inr show thesis
        by (intro error [of err w1 ds]) (auto simp: move_history_def)
    next
      case steps: (Inr steps)
      then have "length ds = length steps" "\<forall>(d, step)\<in>set (zip ds steps). planned again d step"
        using planned by (auto simp: list_all2_iff)
      then obtain ds' where ds': "move_all again (zip ds steps) = Inr ds'"
        "list_all2 (\<lambda>x d'. doc_ok (slot_of env) d' \<and> moved again (fst x) d') (zip ds steps) ds'"
        using move_all_ok [of "zip ds steps" "slot_of env" again] ok_ds by (fast dest: set_zip_leftD)
      then have "list_all2 (\<lambda>d d'. doc_ok (slot_of env) d' \<and> moved again d d') ds ds'"
        using \<open>length ds = length steps\<close> by (simp add: list_all2_conv_all_nth)
      from kept this have "list_all2 (moves (slot_of env) again) docs ds'"
        by (rule list_all2_trans [rotated]) (auto simp: moves_def)
      with ds'(1) plan Inr steps show thesis
        by (intro ok) (auto simp: move_history_def)
    qed
  qed
qed

lemma moves_revision:
  "moves slot again d d' \<Longrightarrow> doc_ok slot d' \<and> sn_revision (d_current d') = sn_revision (d_current d) + 1 \<and>
     receipt_for (if again then DirRedo else DirUndo) (d_current d) (d_current d')"
  by (auto simp: moves_def moved_def dest: shrinks_same(1))

lemma moves_undo_committed:
  "group_committed slot d p d1 \<Longrightarrow> moves slot False d1 d2 \<Longrightarrow> now d2 = now d"
  by (auto simp: moves_def moved_def group_committed_def stack_last_def split: if_splits
      dest!: shrinks_last(1))

lemma moves_redo_undone:
  "moves slot False d d1 \<Longrightarrow> moves slot True d1 d2 \<Longrightarrow> now d2 = now d"
proof -
  assume a: "moves slot False d d1" "moves slot True d1 d2"
  obtain y e where y: "doc_ok slot y" "now y = now d" "stack_last (d_undo y) = Some e"
    "stack_last (d_redo d1) = Some e"
    using a(1) by (auto simp: moves_def moved_def)
  obtain z f where z: "shrinks slot d1 z" "stack_last (d_redo z) = Some f" "now d2 = point_after f"
    using a(2) by (auto simp: moves_def moved_def)
  have "f = e"
    using shrinks_last(2) [OF z(1,2)] y(4) by simp
  then show "now d2 = now d"
    using undo_chain_last [OF y(1,3)] y(2) z(3) by simp
qed


text \<open>Undo right after a group commit returns every document of the group to its tree, metadata
  and state token from before the commit, and a refused undo leaves all of them where they were.\<close>
theorem group_commit_undo:
  assumes "env_ok env" "\<forall>d\<in>set docs. doc_ok (slot_of env) d"
    "list_all2 (\<lambda>d p. validate_prepared d p = Inr () \<longrightarrow> prepared_for d p) docs ps"
  shows "case group_commit env w docs ps of
      (Inr i, w1, docs1) \<Rightarrow>
        (case group_undo env w2 docs1 i of
           (Inr _, w3, docs2) \<Rightarrow> map now docs2 = map now docs
         | (Inl err, w3, docs2) \<Rightarrow> map now docs2 = map now docs1)
    | (Inl err, w1, docs1) \<Rightarrow> map now docs1 = map now docs"
proof -
  obtain r w1 docs1 where run: "group_commit env w docs ps = (r, w1, docs1)"
    by (metis prod_cases3)
  note ok = group_commit_ok [OF assms, of w, unfolded run]
  show ?thesis
  proof (cases r)
    case (Inl err)
    with ok show ?thesis
      by (auto simp: run list_all2_conv_all_nth intro!: nth_equalityI)
  next
    case (Inr i)
    have len: "length docs = length ps"
      using assms(3) by (rule list_all2_lengthD)
    have committed: "list_all2 (\<lambda>(d, p) d'. group_committed (slot_of env) d p d') (zip docs ps) docs1"
      using ok Inr by simp
    then have "\<forall>d\<in>set docs1. doc_ok (slot_of env) d"
      using len by (auto simp: list_all2_conv_all_nth all_set_conv_all_nth group_committed_def)
    with assms(1) show ?thesis
    proof (cases rule: move_history_cases [where w = w2 and expected = i and again = False])
      case (ok w' ds')
      then show ?thesis
        using Inr run committed len moves_undo_committed
        by (auto simp: group_undo_def list_all2_conv_all_nth intro!: nth_equalityI)
    next
      case (error err w' ds)
      then show ?thesis
        using Inr run by (auto simp: group_undo_def list_all2_conv_all_nth intro!: nth_equalityI)
    qed
  qed
qed

text \<open>Redo right after a group undo returns every document of the group to where it was.\<close>
theorem group_undo_redo:
  assumes "env_ok env" "\<forall>d\<in>set docs. doc_ok (slot_of env) d"
  shows "case group_undo env w docs i of
      (Inr _, w1, docs1) \<Rightarrow>
        (case group_redo env w2 docs1 i of
           (Inr _, w3, docs2) \<Rightarrow> map now docs2 = map now docs
         | (Inl err, w3, docs2) \<Rightarrow> map now docs2 = map now docs1)
    | (Inl err, w1, docs1) \<Rightarrow> map now docs1 = map now docs"
  using assms
proof (cases rule: move_history_cases [where w = w and expected = i and again = False])
  case (error err w' ds)
  then show ?thesis
    by (auto simp: group_undo_def list_all2_conv_all_nth intro!: nth_equalityI)
next
  case first: (ok w1 docs1)
  then have "\<forall>d\<in>set docs1. doc_ok (slot_of env) d"
    by (auto simp: list_all2_conv_all_nth all_set_conv_all_nth moves_def)
  with assms(1) show ?thesis
  proof (cases rule: move_history_cases [where w = w2 and expected = i and again = True])
    case (ok w' ds')
    then show ?thesis
      using first moves_redo_undone
      by (auto simp: group_undo_def group_redo_def list_all2_conv_all_nth intro!: nth_equalityI)
  next
    case (error err w' ds)
    then show ?thesis
      using first
      by (auto simp: group_undo_def group_redo_def list_all2_conv_all_nth intro!: nth_equalityI)
  qed
qed

section \<open>A concrete group\<close>

definition sample_doc2 :: doc where
  "sample_doc2 = empty_doc sample_left [] 3 4"

definition sample_docs :: "doc list" where
  "sample_docs = [sample_doc, sample_doc2]"

definition sample_delete :: transaction where
  "sample_delete = \<lparr>tr_base = 0, tr_edits = [\<lparr>ed_start = 0, ed_end = 1, ed_insert = []\<rparr>]\<rparr>"

lemma sample_doc2_ok [simp]: "doc_ok slot sample_doc2" "good (d_current sample_doc2)"
  "snap_text (d_current sample_doc2) = [97, 98, CR]" "sn_revision (d_current sample_doc2) = 0"
  by (simp_all add: sample_doc2_def empty_doc_ok)
    (simp_all add: empty_doc_def good_def snap_text_def)

lemma sample_docs_ok: "\<forall>d\<in>set sample_docs. doc_ok (slot_of sample_env) d"
  by (simp add: sample_docs_def)

lemma sample_prepared:
  assumes "d \<in> set sample_docs"
  shows "\<exists>p. validate_prepared d p = Inr () \<and> prepared_for d p"
proof -
  have d: "good (d_current d)" "snap_text (d_current d) \<in> {[97, 98, CR, LF, 99], [97, 98, CR]}"
    "sn_revision (d_current d) = 0"
    using assms by (auto simp: sample_docs_def)
  have i: "inserts_valid (tr_edits sample_delete)" "sorted_edits sample_delete = tr_edits sample_delete"
    by (simp_all add: sample_delete_def sorted_edits_def)
  have b: "char_boundary t 0" "char_boundary t 1" if "t \<in> {[97, 98, CR, LF, 99], [97, 98, CR]}" for t
    using that by (auto simp: char_boundary_def cont_iff)
  have check: "check_transaction d sample_delete = Inr sample_delete"
    using d b [OF d(2)] unfolding check_transaction_accepts [OF d(1)] i(2)
    by (simp add: sample_delete_def valid_step_def usize_max_def)
  have receipt: "receipt_bytes sample_sizes n = Some (n * 4 + 16)" if "n \<le> 1" for n
    using that by (simp add: receipt_bytes_def checked_mul_def checked_add_def usize_max_def
        MAX_RECEIPT_BYTES_def sample_sizes_def)
  have enough: "\<not> short_of_memory sample_env (d_current d) sample_delete"
    using receipt d(2) unfolding short_of_memory_def i(2)
    by (auto simp: sample_delete_def sample_env_def free_meter_def usize_max_def sub_def)
  obtain p where "staged d sample_delete p"
    by (rule stage_cases [OF d(1) i(1), of sample_env sample_world]) (use check enough in auto)
  note st = \<open>staged d sample_delete p\<close>
  have "validate_prepared d (p\<lparr>pr_tracked := True\<rparr>) = Inr ()" "\<not> en_typing_insert (pr_entry p)"
    using st by (simp_all add: staged_def validate_prepared_def Let_def)
  moreover have "same_step p (p\<lparr>pr_tracked := True\<rparr>)"
    by (simp add: same_step_def)
  ultimately have "validate_prepared d (p\<lparr>pr_tracked := True\<rparr>) = Inr ()"
    "prepared_for d (p\<lparr>pr_tracked := True\<rparr>)"
    using st unfolding prepared_for_def by auto
  then show ?thesis
    by blast
qed

lemma sample_prepared_list:
  "\<exists>ps. list_all2 (\<lambda>d p. validate_prepared d p = Inr () \<and> prepared_for d p) sample_docs ps"
  using sample_prepared [of sample_doc] sample_prepared [of sample_doc2]
  by (auto simp: sample_docs_def list_all2_Cons1)

theorem group_commit_atomic_witness:
  "\<exists>ps. length ps = 2 \<and> (case group_commit sample_env sample_world sample_docs ps of
      (Inr i, w', docs') \<Rightarrow>
        list_all2 (\<lambda>(d, p) d'. group_committed (slot_of sample_env) d p d') (zip sample_docs ps) docs'
    | (Inl err, w', docs') \<Rightarrow>
        list_all2 (untouched (slot_of sample_env)) sample_docs docs' \<and>
        err \<in> {OutOfBounds, WrongDocument, StaleRevision, BudgetExceeded})"
proof -
  obtain ps where ps: "list_all2 (\<lambda>d p. validate_prepared d p = Inr () \<and> prepared_for d p) sample_docs ps"
    using sample_prepared_list by blast
  then have "list_all2 (\<lambda>d p. validate_prepared d p = Inr () \<longrightarrow> prepared_for d p) sample_docs ps"
    by (rule list_all2_mono) simp
  from group_commit_atomic [OF sample_env_ok sample_docs_ok this] list_all2_lengthD [OF ps]
  show ?thesis
    by (intro exI [of _ ps]) (simp add: sample_docs_def)
qed


theorem group_commit_undo_witness:
  "\<exists>ps. length ps = 2 \<and> (case group_commit sample_env sample_world sample_docs ps of
      (Inr i, w1, docs1) \<Rightarrow>
        (case group_undo sample_env sample_world docs1 i of
           (Inr _, w3, docs2) \<Rightarrow> map now docs2 = map now sample_docs
         | (Inl err, w3, docs2) \<Rightarrow> map now docs2 = map now docs1)
    | (Inl err, w1, docs1) \<Rightarrow> map now docs1 = map now sample_docs)"
proof -
  obtain ps where ps: "list_all2 (\<lambda>d p. validate_prepared d p = Inr () \<and> prepared_for d p) sample_docs ps"
    using sample_prepared_list by blast
  then have "list_all2 (\<lambda>d p. validate_prepared d p = Inr () \<longrightarrow> prepared_for d p) sample_docs ps"
    by (rule list_all2_mono) simp
  from group_commit_undo [OF sample_env_ok sample_docs_ok this] list_all2_lengthD [OF ps]
  show ?thesis
    by (intro exI [of _ ps]) (simp add: sample_docs_def)
qed

theorem group_undo_redo_witness:
  "case group_undo sample_env sample_world sample_docs 7 of
      (Inr _, w1, docs1) \<Rightarrow>
        (case group_redo sample_env sample_world docs1 7 of
           (Inr _, w3, docs2) \<Rightarrow> map now docs2 = map now sample_docs
         | (Inl err, w3, docs2) \<Rightarrow> map now docs2 = map now docs1)
    | (Inl err, w1, docs1) \<Rightarrow> map now docs1 = map now sample_docs"
  by (rule group_undo_redo [OF sample_env_ok sample_docs_ok])

end
