(* ===== verification/Change_Log.thy ===== *)
theory Change_Log
  imports History
begin

text \<open>
  The bounded log of committed receipts that the views of one document share,
  crates/editor-surface/src/change_log.rs. A view that is several revisions behind asks for the
  chain of receipts from its point to the current one.
\<close>

section \<open>The log\<close>

definition MAX_CHANGES :: nat where "MAX_CHANGES = 1024"
definition MAX_BYTES :: nat where "MAX_BYTES = 4 * 1024 * 1024"

text \<open>A document identity token with its content state.\<close>

type_synonym log_point = "(nat \<times> nat) \<times> nat"

record change_log =
  cl_changes :: "applied_change list"
  cl_bytes :: nat

definition log_empty :: change_log where
  "log_empty = \<lparr>cl_changes = [], cl_bytes = 0\<rparr>"

fun log_trim :: "sizes \<Rightarrow> applied_change list \<Rightarrow> nat \<Rightarrow> change_log" where
  "log_trim sz [] bytes = \<lparr>cl_changes = [], cl_bytes = bytes\<rparr>"
| "log_trim sz (c # cs) bytes =
     (if length (c # cs) > MAX_CHANGES \<or> (length (c # cs) > 1 \<and> bytes > MAX_BYTES)
      then log_trim sz cs (bytes - charged_bytes sz c)
      else \<lparr>cl_changes = c # cs, cl_bytes = bytes\<rparr>)"

definition log_append :: "sizes \<Rightarrow> change_log \<Rightarrow> applied_change \<Rightarrow> change_log" where
  "log_append sz log c =
     log_trim sz (cl_changes log @ [c]) (sat_add (cl_bytes log) (charged_bytes sz c))"

definition log_record :: "sizes \<Rightarrow> change_log \<Rightarrow> applied_change \<Rightarrow> change_log" where
  "log_record sz log c =
     (if cl_changes log = [] then log_append sz log c
      else
        let l = last (cl_changes log) in
        if ac_document l = ac_document c \<and> ac_after_revision c \<le> ac_after_revision l then log
        else if ac_document l \<noteq> ac_document c \<or> ac_after_revision l \<noteq> ac_before_revision c \<or>
                ac_after_state l \<noteq> ac_before_state c
        then log_append sz log_empty c
        else log_append sz log c)"

text \<open>The walk from the first receipt that leaves \<open>from\<close>, stopping at the identity of \<open>to\<close>.\<close>

fun log_walk :: "log_point \<Rightarrow> applied_change list \<Rightarrow> applied_change list \<Rightarrow> applied_change list option" where
  "log_walk to chain [] = None"
| "log_walk to chain (c # cs) =
     (if (ac_document c, ac_after_revision c) = fst to
      then (if ac_after_state c = snd to then Some (chain @ [c]) else None)
      else log_walk to (chain @ [c]) cs)"

definition log_chain :: "change_log \<Rightarrow> log_point \<Rightarrow> log_point \<Rightarrow> applied_change list option" where
  "log_chain log from to =
     (if from = to then Some []
      else
        let rest = dropWhile (\<lambda>c. \<not> matches_before c (fst from) (snd from)) (cl_changes log) in
        if rest = [] then None else log_walk to [] rest)"

section \<open>Connected receipts\<close>

definition point_from :: "applied_change \<Rightarrow> log_point" where
  "point_from c = ((ac_document c, ac_before_revision c), ac_before_state c)"

definition point_to :: "applied_change \<Rightarrow> log_point" where
  "point_to c = ((ac_document c, ac_after_revision c), ac_after_state c)"

text \<open>The receipts lead from one point to another, each starting where the previous one ended.\<close>

fun leads :: "log_point \<Rightarrow> applied_change list \<Rightarrow> log_point \<Rightarrow> bool" where
  "leads p [] q = (p = q)"
| "leads p (c # cs) q = (point_from c = p \<and> leads (point_to c) cs q)"

fun connected :: "applied_change list \<Rightarrow> bool" where
  "connected (c # c' # cs) = (point_to c = point_from c' \<and> connected (c' # cs))"
| "connected _ = True"

definition advancing :: "applied_change \<Rightarrow> bool" where
  "advancing c \<longleftrightarrow> ac_before_revision c < ac_after_revision c"

text \<open>
  Receipts of a document advance the revision by one, so they are \<open>advancing\<close>; their size is bounded
  by \<open>MAX_RECEIPT_BYTES\<close>, so that the sum over a log cannot reach the width of an address.
\<close>

definition receipt_ok :: "sizes \<Rightarrow> applied_change \<Rightarrow> bool" where
  "receipt_ok sz c \<longleftrightarrow> advancing c \<and> charged_bytes sz c \<le> 2 ^ 32"

definition log_bytes :: "sizes \<Rightarrow> applied_change list \<Rightarrow> nat" where
  "log_bytes sz cs = sum_list (map (charged_bytes sz) cs)"

definition log_ok :: "sizes \<Rightarrow> change_log \<Rightarrow> bool" where
  "log_ok sz log \<longleftrightarrow>
     connected (cl_changes log) \<and> (\<forall>c\<in>set (cl_changes log). receipt_ok sz c) \<and>
     cl_bytes log = log_bytes sz (cl_changes log) \<and> length (cl_changes log) \<le> MAX_CHANGES \<and>
     (length (cl_changes log) \<le> 1 \<or> cl_bytes log \<le> MAX_BYTES)"

lemma connected_Cons: "connected (c # cs) \<longleftrightarrow> (cs = [] \<or> point_to c = point_from (hd cs)) \<and> connected cs"
  by (cases cs) auto

lemma connected_append:
  "connected (xs @ ys) \<longleftrightarrow> connected xs \<and> connected ys \<and>
     (xs = [] \<or> ys = [] \<or> point_to (last xs) = point_from (hd ys))"
  by (induction xs) (auto simp: connected_Cons)

lemma matches_before_iff: "matches_before c (fst p) (snd p) \<longleftrightarrow> point_from c = p"
  by (cases p) (auto simp: matches_before_def point_from_def)

lemma log_bytes_bound:
  "(\<forall>c\<in>set cs. receipt_ok sz c) \<Longrightarrow> log_bytes sz cs \<le> length cs * 2 ^ 32"
  by (induction cs) (auto simp: log_bytes_def receipt_ok_def)

lemma log_trim_ok:
  assumes "connected cs" "\<forall>c\<in>set cs. receipt_ok sz c" "bytes = log_bytes sz cs"
  shows "log_ok sz (log_trim sz cs bytes)"
    and "\<exists>n. cl_changes (log_trim sz cs bytes) = drop n cs \<and> (cs \<noteq> [] \<longrightarrow> n < length cs)"
proof -
  have "log_ok sz (log_trim sz cs bytes) \<and>
    (\<exists>n. cl_changes (log_trim sz cs bytes) = drop n cs \<and> (cs \<noteq> [] \<longrightarrow> n < length cs))"
    using assms
  proof (induction cs arbitrary: bytes)
    case Nil
    then show ?case
      by (simp add: log_ok_def log_bytes_def MAX_CHANGES_def)
  next
    case (Cons c cs)
    show ?case
    proof (cases "length (c # cs) > MAX_CHANGES \<or> (length (c # cs) > 1 \<and> bytes > MAX_BYTES)")
      case True
      then have ne: "cs \<noteq> []"
        by (auto simp: MAX_CHANGES_def)
      have "connected cs" "\<forall>x\<in>set cs. receipt_ok sz x" "bytes - charged_bytes sz c = log_bytes sz cs"
        using Cons.prems by (simp_all add: connected_Cons log_bytes_def)
      from Cons.IH [OF this] obtain n where
        "log_ok sz (log_trim sz cs (bytes - charged_bytes sz c))"
        "cl_changes (log_trim sz cs (bytes - charged_bytes sz c)) = drop n cs" "n < length cs"
        using ne by auto
      then show ?thesis
        using True by (auto intro!: exI [of _ "Suc n"])
    next
      case False
      with Cons.prems show ?thesis
        by (auto simp: log_ok_def intro!: exI [of _ 0])
    qed
  qed
  then show "log_ok sz (log_trim sz cs bytes)"
    "\<exists>n. cl_changes (log_trim sz cs bytes) = drop n cs \<and> (cs \<noteq> [] \<longrightarrow> n < length cs)"
    by blast+
qed

lemma log_append_ok:
  assumes "log_ok sz log" "receipt_ok sz c"
    "cl_changes log = [] \<or> point_to (last (cl_changes log)) = point_from c"
  shows "log_ok sz (log_append sz log c)"
    and "\<exists>n. cl_changes (log_append sz log c) = drop n (cl_changes log) @ [c]"
proof -
  let ?cs = "cl_changes log @ [c]"
  have all: "connected ?cs" "\<forall>x\<in>set ?cs. receipt_ok sz x"
    using assms by (auto simp: connected_append log_ok_def)
  have "log_bytes sz ?cs \<le> length ?cs * 2 ^ 32"
    using all(2) by (rule log_bytes_bound)
  also have "\<dots> \<le> 1025 * 2 ^ 32"
    using assms(1) by (simp add: log_ok_def MAX_CHANGES_def)
  finally have "sat_add (cl_bytes log) (charged_bytes sz c) = log_bytes sz ?cs"
    using assms(1) by (simp add: sat_add_def log_ok_def log_bytes_def usize_max_def)
  note trim = log_trim_ok [OF all this]
  show "log_ok sz (log_append sz log c)"
    using trim(1) by (simp add: log_append_def)
  obtain n where "cl_changes (log_append sz log c) = drop n ?cs" "n < length ?cs"
    using trim(2) by (auto simp: log_append_def)
  then show "\<exists>n. cl_changes (log_append sz log c) = drop n (cl_changes log) @ [c]"
    by auto
qed

lemma log_empty_ok: "log_ok sz log_empty"
  by (simp add: log_ok_def log_empty_def log_bytes_def MAX_CHANGES_def)

lemma log_walk_Some:
  "log_walk to chain cs = Some r \<Longrightarrow>
     \<exists>done' c rest. cs = done' @ c # rest \<and> r = chain @ done' @ [c] \<and> point_to c = to"
proof (induction cs arbitrary: chain)
  case (Cons c cs)
  show ?case
  proof (cases "(ac_document c, ac_after_revision c) = fst to")
    case True
    with Cons.prems show ?thesis
      by (cases to) (auto simp: point_to_def split: if_splits intro!: exI [of _ "[]"])
  next
    case False
    with Cons obtain xs d ys where "cs = xs @ d # ys" "r = (chain @ [c]) @ xs @ [d]" "point_to d = to"
      by fastforce
    then show ?thesis
      by (intro exI [of _ "c # xs"] exI [of _ d] exI [of _ ys]) simp
  qed
qed simp

lemma connected_leads: "connected cs \<Longrightarrow> cs \<noteq> [] \<Longrightarrow> leads (point_from (hd cs)) cs (point_to (last cs))"
  by (induction cs rule: connected.induct) auto

text \<open>Along a connected run the revisions grow and the document stays the same.\<close>

lemma connected_later:
  "connected (x # cs) \<Longrightarrow> \<forall>c\<in>set (x # cs). advancing c \<Longrightarrow>
     \<forall>c\<in>set cs. ac_document c = ac_document x \<and> ac_after_revision x \<le> ac_before_revision c"
  by (induction cs arbitrary: x) (fastforce simp: advancing_def point_to_def point_from_def)+

lemma connected_earlier:
  assumes "connected (xs @ c # ys)" "\<forall>c\<in>set (xs @ c # ys). advancing c" "x \<in> set xs"
  shows "ac_after_revision x < ac_after_revision c" "ac_before_revision x < ac_before_revision c"
proof -
  obtain us vs where xs: "xs = us @ x # vs"
    using assms(3) by (meson split_list)
  have "connected (x # vs @ c # ys)" "\<forall>c\<in>set (x # vs @ c # ys). advancing c"
    using assms(1,2) xs by (simp_all add: connected_append)
  from connected_later [OF this] have "ac_after_revision x \<le> ac_before_revision c"
    by simp
  then show "ac_after_revision x < ac_after_revision c" "ac_before_revision x < ac_before_revision c"
    using assms(2) xs by (auto simp: advancing_def)
qed

lemma log_walk_finds:
  "\<forall>x\<in>set xs. ac_after_revision x \<noteq> ac_after_revision c \<Longrightarrow>
     log_walk (point_to c) chain (xs @ c # ys) = Some (chain @ xs @ [c])"
  by (induction xs arbitrary: chain) (auto simp: point_to_def)

lemma leads_ends:
  "leads p cs q \<Longrightarrow> cs \<noteq> [] \<Longrightarrow> point_from (hd cs) = p \<and> point_to (last cs) = q"
  by (induction cs arbitrary: p) (auto split: if_splits)

lemma log_chain_sound:
  assumes "log_ok sz log" "log_chain log from to = Some cs"
  shows "leads from cs to \<and> (\<exists>xs ys. cl_changes log = xs @ cs @ ys)"
proof (cases "from = to")
  case True
  with assms(2) show ?thesis
    by (auto simp: log_chain_def)
next
  case False
  let ?differs = "\<lambda>c. \<not> matches_before c (fst from) (snd from)"
  let ?rest = "dropWhile ?differs (cl_changes log)"
  have rest: "?rest \<noteq> []" "log_walk to [] ?rest = Some cs"
    using assms(2) False by (auto simp: log_chain_def Let_def split: if_splits)
  obtain xs c ys where cs: "?rest = xs @ c # ys" "cs = xs @ [c]" "point_to c = to"
    using log_walk_Some [OF rest(2)] by auto
  have split: "cl_changes log = takeWhile ?differs (cl_changes log) @ cs @ ys"
    using cs(1,2) by (metis append.assoc append_Cons append_Nil takeWhile_dropWhile_id)
  have "connected cs"
    using assms(1) split by (metis connected_append log_ok_def)
  moreover have "point_from (hd cs) = from"
    using hd_dropWhile [OF rest(1)] cs(1,2) by (cases xs) (auto simp: matches_before_iff)
  ultimately have "leads from cs to"
    using connected_leads [of cs] cs(2,3) by simp
  with split show ?thesis
    by blast
qed

lemma log_chain_complete:
  assumes "log_ok sz log" "cl_changes log = xs @ cs @ ys" "leads from cs to"
  shows "log_chain log from to = Some cs"
proof (cases "cs = []")
  case True
  with assms(3) show ?thesis
    by (simp add: log_chain_def)
next
  case False
  obtain c ds where first: "cs = c # ds"
    using False by (cases cs) auto
  obtain es l where final: "cs = es @ [l]"
    using False by (cases cs rule: rev_cases) auto
  have ends: "point_from c = from" "point_to l = to"
    using leads_ends [OF assms(3) False] arg_cong [OF first, of hd] arg_cong [OF final, of last]
    by simp_all
  have all: "connected (xs @ cs @ ys)" "\<forall>c\<in>set (xs @ cs @ ys). advancing c"
    using assms(1,2) by (auto simp: log_ok_def receipt_ok_def)
  have "ac_before_revision c < ac_after_revision l"
  proof (cases "es = []")
    case True
    with first final all(2) show ?thesis
      by (auto simp: advancing_def)
  next
    case e: False
    then have cs: "cs = c # tl es @ [l]"
      using first final by (cases es) auto
    then have "connected (c # tl es @ l # ys)" "\<forall>c\<in>set (c # tl es @ l # ys). advancing c"
      using all unfolding connected_append [of xs] cs by auto
    from connected_later [OF this] this(2) show ?thesis
      by (auto simp: advancing_def)
  qed
  then have ne: "from \<noteq> to"
    using ends by (auto simp: point_from_def point_to_def)
  have before: "\<forall>x\<in>set xs. point_from x \<noteq> from"
  proof
    fix x
    assume "x \<in> set xs"
    then have "ac_before_revision x < ac_before_revision c"
      using connected_earlier(2) [of xs c "ds @ ys" x] all first by simp
    then show "point_from x \<noteq> from"
      using ends(1) by (auto simp: point_from_def)
  qed
  have "dropWhile (\<lambda>c. \<not> matches_before c (fst from) (snd from)) (cl_changes log) = cs @ ys"
    using before assms(2) first ends(1) by (simp add: matches_before_iff dropWhile_append2)
  moreover have "\<forall>x\<in>set es. ac_after_revision x \<noteq> ac_after_revision l"
    using connected_earlier(1) [of "xs @ es" l ys] all final by fastforce
  ultimately show ?thesis
    using ne False final log_walk_finds [of es l "[]" ys] ends(2) by (simp add: log_chain_def)
qed

section \<open>Properties\<close>

text \<open>The log always holds one connected run of receipts, within its bounds on number and bytes
  (a single larger receipt excepted) and with exact accounting, and a receipt that is new to it is
  its newest entry afterwards: after an unseen change the run starts again with it.\<close>
theorem change_log_connected:
  assumes "log_ok sz log" "receipt_ok sz c"
  shows "log_ok sz (log_record sz log c) \<and>
    (log_record sz log c = log \<and> cl_changes log \<noteq> [] \<and>
       ac_after_revision c \<le> ac_after_revision (last (cl_changes log)) \<or>
     (\<exists>n. cl_changes (log_record sz log c) = drop n (cl_changes log) @ [c]))"
proof -
  have "cl_changes log = [] \<or>
      cl_changes log \<noteq> [] \<and> log_record sz log c = log \<and>
        ac_after_revision c \<le> ac_after_revision (last (cl_changes log)) \<or>
      log_record sz log c = log_append sz log_empty c \<or>
      log_record sz log c = log_append sz log c \<and> point_to (last (cl_changes log)) = point_from c"
    by (simp add: log_record_def Let_def point_to_def point_from_def)
  then consider (first) "cl_changes log = []"
    | (seen) "cl_changes log \<noteq> []" "log_record sz log c = log"
        "ac_after_revision c \<le> ac_after_revision (last (cl_changes log))"
    | (broken) "log_record sz log c = log_append sz log_empty c"
    | (follows) "log_record sz log c = log_append sz log c"
        "point_to (last (cl_changes log)) = point_from c"
    by blast
  then show ?thesis
  proof cases
    case first
    with assms log_append_ok [OF assms] show ?thesis
      by (auto simp: log_record_def)
  next
    case seen
    with assms show ?thesis
      by simp
  next
    case broken
    have "log_ok sz (log_append sz log_empty c)" "cl_changes (log_append sz log_empty c) = [c]"
      using log_append_ok [OF log_empty_ok assms(2)] by (auto simp: log_empty_def)
    with broken show ?thesis
      by (auto intro!: disjI2 exI [of _ "length (cl_changes log)"])
  next
    case follows
    with log_append_ok [OF assms] show ?thesis
      by auto
  qed
qed

text \<open>C29: A lookup in the log never skips a change: the receipts it returns lead, one after the
  other, from the asked point to the asked one, they are a contiguous part of the log, and whenever
  the log holds such receipts the lookup returns exactly them.\<close>
theorem change_log_chain:
  assumes "log_ok sz log"
  shows "log_chain log from to = Some cs \<longleftrightarrow>
    leads from cs to \<and> (\<exists>xs ys. cl_changes log = xs @ cs @ ys)"
  using log_chain_sound [OF assms] log_chain_complete [OF assms] by blast

definition sample_receipt :: "nat \<Rightarrow> applied_change" where
  "sample_receipt n =
     \<lparr>ac_document = 1, ac_before_revision = n, ac_after_revision = n + 1, ac_before_state = n + 10,
      ac_after_state = n + 11, ac_direction = DirEdit, ac_edits = []\<rparr>"

definition sample_log_sizes :: sizes where
  "sample_log_sizes =
     \<lparr>sz_slot = 8, sz_compact = 4, sz_change = 16, sz_owned_edit = 8, sz_selection = 2, sz_node = 4\<rparr>"

lemma sample_receipt_ok [simp]: "receipt_ok sample_log_sizes (sample_receipt n)"
  by (simp add: receipt_ok_def advancing_def sample_receipt_def charged_bytes_def sample_log_sizes_def)

definition sample_log :: change_log where
  "sample_log = \<lparr>cl_changes = [sample_receipt 0, sample_receipt 1], cl_bytes = 32\<rparr>"

lemma sample_log_ok [simp]: "log_ok sample_log_sizes sample_log"
  by (simp add: log_ok_def sample_log_def log_bytes_def MAX_CHANGES_def MAX_BYTES_def)
    (simp add: point_to_def point_from_def sample_receipt_def charged_bytes_def sample_log_sizes_def)

theorem change_log_connected_witness:
  "log_ok sample_log_sizes (log_record sample_log_sizes sample_log (sample_receipt 2)) \<and>
   cl_changes (log_record sample_log_sizes sample_log (sample_receipt 2)) =
     [sample_receipt 0, sample_receipt 1, sample_receipt 2]"
proof -
  have "cl_changes (log_record sample_log_sizes sample_log (sample_receipt 2)) =
     [sample_receipt 0, sample_receipt 1, sample_receipt 2]"
    by (simp add: log_record_def log_append_def sample_log_def sample_receipt_def MAX_CHANGES_def
        MAX_BYTES_def sat_add_def usize_max_def charged_bytes_def sample_log_sizes_def)
  with change_log_connected [OF sample_log_ok sample_receipt_ok, of 2] show ?thesis
    by simp
qed

theorem change_log_chain_witness:
  "log_chain sample_log ((1, 1), 11) ((1, 2), 12) = Some [sample_receipt 1]"
proof -
  have "leads ((1, 1), 11) [sample_receipt 1] ((1, 2), 12)"
    by (simp add: sample_receipt_def point_from_def point_to_def)
  moreover have "cl_changes sample_log = [sample_receipt 0] @ [sample_receipt 1] @ []"
    by (simp add: sample_log_def)
  ultimately show ?thesis
    using change_log_chain [OF sample_log_ok, of "((1, 1), 11)" "((1, 2), 12)" "[sample_receipt 1]"] by blast
qed

end
