(* ===== verification/Btree.thy ===== *)
theory Btree
  imports Prelude
begin

text \<open>
  A \<open>BTreeMap\<close> as the list of its pairs in key order: \<open>map_of\<close> looks a key up, a filter retains pairs,
  and insertion keeps the order.
\<close>

abbreviation keys_sorted :: "('k::linorder \<times> 'v) list \<Rightarrow> bool" where
  "keys_sorted kvs \<equiv> sorted_wrt (<) (map fst kvs)"

fun btree_insert :: "'k::linorder \<Rightarrow> 'v \<Rightarrow> ('k \<times> 'v) list \<Rightarrow> ('k \<times> 'v) list" where
  "btree_insert k v [] = [(k, v)]"
| "btree_insert k v ((k', v') # kvs) =
     (if k < k' then (k, v) # (k', v') # kvs
      else if k = k' then (k, v) # kvs
      else (k', v') # btree_insert k v kvs)"

lemma keys_sorted_filter: "keys_sorted xs \<Longrightarrow> keys_sorted (filter p xs)"
  by (induction xs) auto

lemma keys_split:
  "keys_sorted xs \<Longrightarrow>
     xs = filter (\<lambda>(l, _). l < k) xs @ filter (\<lambda>(l, _). l = k) xs @ filter (\<lambda>(l, _). k < l) xs"
proof (induction xs)
  case (Cons x xs)
  obtain l r where x: "x = (l, r)"
    by (cases x)
  have later: "\<forall>(k', _)\<in>set xs. l < k'"
    using Cons.prems x by auto
  show ?case
  proof (cases "l < k")
    case True
    then have "l \<noteq> k" "\<not> k < l"
      by auto
    with True Cons x show ?thesis
      by simp
  next
    case False
    with later have "filter (\<lambda>(l, _). l < k) xs = []" "l = k \<Longrightarrow> filter (\<lambda>(l, _). l = k) xs = []"
      "k < l \<Longrightarrow> filter (\<lambda>(l, _). l = k) xs = []"
      by (fastforce simp: filter_empty_conv)+
    with False Cons x show ?thesis
      by (cases "l = k") auto
  qed
qed simp

lemma keys_single:
  "keys_sorted xs \<Longrightarrow> filter (\<lambda>(l, _). l = k) xs = (case map_of xs k of None \<Rightarrow> [] | Some v \<Rightarrow> [(k, v)])"
proof (induction xs)
  case (Cons x xs)
  obtain l r where x: "x = (l, r)"
    by (cases x)
  have "filter (\<lambda>(l', _). l' = l) xs = []"
    using Cons.prems x by (auto simp: filter_empty_conv)
  with Cons x show ?case
    by auto
qed simp

lemma btree_insert_split:
  "keys_sorted xs \<Longrightarrow>
     btree_insert k v xs = filter (\<lambda>(l, _). l < k) xs @ [(k, v)] @ filter (\<lambda>(l, _). k < l) xs"
proof (induction xs)
  case (Cons x xs)
  obtain l r where x: "x = (l, r)"
    by (cases x)
  have later: "\<forall>(k', _)\<in>set xs. l < k'"
    using Cons.prems x by auto
  then have "k \<le> l \<Longrightarrow> filter (\<lambda>(l, _). l < k) xs = []" "k \<le> l \<Longrightarrow> filter (\<lambda>(l, _). k < l) xs = xs"
    by (fastforce simp: filter_empty_conv filter_id_conv)+
  with Cons x show ?case
    by auto
qed simp

lemma btree_insert_sorted: "keys_sorted xs \<Longrightarrow> keys_sorted (btree_insert k v xs)"
  using keys_sorted_filter [of xs] by (auto simp: btree_insert_split sorted_wrt_append)

lemma map_of_btree_insert: "map_of (btree_insert k v xs) = (map_of xs)(k \<mapsto> v)"
  by (induction xs) (auto simp: fun_upd_def)

lemma set_btree_insert: "set (btree_insert k v xs) \<subseteq> insert (k, v) (set xs)"
  by (induction xs) (auto split: if_splits)

lemma keys_sorted_distinct: "keys_sorted xs \<Longrightarrow> distinct (map fst xs)"
  by (simp add: strict_sorted_iff)

lemma btree_insert_new:
  "map_of xs k = None \<Longrightarrow>
     set (btree_insert k v xs) = insert (k, v) (set xs) \<and> length (btree_insert k v xs) = Suc (length xs)"
  by (induction xs) (auto split: if_splits)

lemma keys_sorted_map_of: "keys_sorted xs \<Longrightarrow> map_of xs k = Some v \<longleftrightarrow> (k, v) \<in> set xs"
  by (simp add: map_of_eq_Some_iff keys_sorted_distinct)

end
