(* ===== verification/Row_Map.thy ===== *)
theory Row_Map
  imports Btree
begin

text \<open>
  Visual rows of logical lines, crates/editor-surface/src/row_map.rs: hidden lines, view spacers and
  measured wrap rows, each with prefix sums. The lemmas show that the sums give the row a scan of
  all lines would give, and that a single measurement updates them in place as a rebuild would.

  \<open>partition_point\<close> is modelled on partitioned slices, where the standard library specifies it.
\<close>

section \<open>The map\<close>

type_synonym rows = "(nat \<times> nat) list"

record wrap_rows =
  wr_rows :: nat
  wr_content :: "nat \<times> nat"

record row_map =
  rm_hidden :: "(nat \<times> nat) list"
  rm_through :: "nat list"
  rm_spacers :: rows
  rm_spacer_rows :: rows
  rm_wrap :: "(nat \<times> wrap_rows) list"
  rm_wrap_rows :: rows

definition row_map_default :: row_map where
  "row_map_default =
     \<lparr>rm_hidden = [], rm_through = [], rm_spacers = [], rm_spacer_rows = [], rm_wrap = [],
      rm_wrap_rows = []\<rparr>"

text \<open>The accumulated value of the last entry \<open>before\<close> accepts, or zero.\<close>

definition prefix_rows :: "rows \<Rightarrow> (nat \<Rightarrow> bool) \<Rightarrow> nat" where
  "prefix_rows sums before =
     (case checked_sub (partition_point (\<lambda>(line, _). before line) sums) 1 of
        None \<Rightarrow> 0 | Some l \<Rightarrow> snd (sums ! l))"

fun running :: "nat \<Rightarrow> rows \<Rightarrow> rows" where
  "running acc [] = []"
| "running acc ((line, rows) # xs) = (line, sat_add acc rows) # running (sat_add acc rows) xs"

definition hidden_index :: "row_map \<Rightarrow> nat \<Rightarrow> nat option" where
  "hidden_index rm line = checked_sub (partition_point (\<lambda>(a, _). a \<le> line) (rm_hidden rm)) 1"

definition is_hidden :: "row_map \<Rightarrow> nat \<Rightarrow> bool" where
  "is_hidden rm line =
     (case hidden_index rm line of None \<Rightarrow> False | Some l \<Rightarrow> line \<le> snd (rm_hidden rm ! l))"

definition hidden_through :: "row_map \<Rightarrow> nat \<Rightarrow> nat" where
  "hidden_through rm line =
     (case hidden_index rm line of None \<Rightarrow> 0
      | Some l \<Rightarrow>
          let range = rm_hidden rm ! l;
              before = (case checked_sub l 1 of None \<Rightarrow> 0 | Some i \<Rightarrow> rm_through rm ! i)
          in sat_add before (min line (snd range) - fst range + 1))"

definition rebuild_spacers :: "row_map \<Rightarrow> row_map" where
  "rebuild_spacers rm =
     rm\<lparr>rm_spacer_rows := running 0 (filter (\<lambda>(line, _). \<not> is_hidden rm line) (rm_spacers rm))\<rparr>"

definition rebuild_wrap :: "row_map \<Rightarrow> row_map" where
  "rebuild_wrap rm =
     rm\<lparr>rm_wrap_rows := running 0
          (map (\<lambda>(line, m). (line, wr_rows m - 1))
            (filter (\<lambda>(line, m). wr_rows m > 1 \<and> \<not> is_hidden rm line) (rm_wrap rm)))\<rparr>"

definition set_hidden :: "(nat \<times> nat) list \<Rightarrow> row_map \<Rightarrow> row_map" where
  "set_hidden hidden rm =
     rebuild_wrap (rebuild_spacers
       (rm\<lparr>rm_through := map snd (running 0 (map (\<lambda>(a, b). (a, sat_add (b - a) 1)) hidden)),
           rm_hidden := hidden\<rparr>))"

definition set_spacers :: "rows \<Rightarrow> row_map \<Rightarrow> row_map" where
  "set_spacers spacers rm = rebuild_spacers (rm\<lparr>rm_spacers := spacers\<rparr>)"

definition wrap_rows_of :: "row_map \<Rightarrow> nat \<Rightarrow> nat option" where
  "wrap_rows_of rm line = map_option wr_rows (map_of (rm_wrap rm) line)"

definition shift_wrap :: "nat \<Rightarrow> nat \<Rightarrow> row_map \<Rightarrow> row_map" where
  "shift_wrap line extra rm =
     (let sums = rm_wrap_rows rm;
          index = partition_point (\<lambda>(wrapped, _). wrapped < line) sums;
          before = (case checked_sub index 1 of None \<Rightarrow> 0 | Some l \<Rightarrow> snd (sums ! l));
          found = index < length sums \<and> fst (sums ! index) = line
      in
      if \<not> found \<and> extra = 0 then rm
      else
        let old = (if found then snd (sums ! index) - before else 0);
            sums = (if found then sums else take index sums @ [(line, before)] @ drop index sums);
            moved = take index sums @ map (\<lambda>(l, acc). (l, sat_add (acc - old) extra)) (drop index sums)
        in rm\<lparr>rm_wrap_rows :=
             (if extra = 0 then take index moved @ drop (index + 1) moved else moved)\<rparr>)"

definition set_wrap_rows :: "nat \<Rightarrow> nat \<Rightarrow> nat \<times> nat \<Rightarrow> row_map \<Rightarrow> bool \<times> row_map" where
  "set_wrap_rows line rows content rm =
     (let previous = wrap_rows_of rm line;
          rm = rm\<lparr>rm_wrap := btree_insert line \<lparr>wr_rows = rows, wr_content = content\<rparr> (rm_wrap rm)\<rparr>
      in
      if previous = Some rows then (False, rm)
      else (True, if is_hidden rm line then rm else shift_wrap line (rows - 1) rm))"

definition clear_wrap :: "row_map \<Rightarrow> row_map" where
  "clear_wrap rm = rm\<lparr>rm_wrap := [], rm_wrap_rows := []\<rparr>"

definition retain_wrap :: "(nat \<Rightarrow> bool) \<Rightarrow> row_map \<Rightarrow> row_map" where
  "retain_wrap keep rm = rebuild_wrap (rm\<lparr>rm_wrap := filter (\<lambda>(line, _). keep line) (rm_wrap rm)\<rparr>)"

definition take_wrap :: "row_map \<Rightarrow> (nat \<times> wrap_rows) list \<times> row_map" where
  "take_wrap rm = (rm_wrap rm, rm\<lparr>rm_wrap := [], rm_wrap_rows := []\<rparr>)"

definition replace_wrap :: "(nat \<times> wrap_rows) list \<Rightarrow> row_map \<Rightarrow> row_map" where
  "replace_wrap wrap rm = rebuild_wrap (rm\<lparr>rm_wrap := wrap\<rparr>)"

definition visual_line :: "row_map \<Rightarrow> nat \<Rightarrow> bool \<Rightarrow> nat" where
  "visual_line rm line wrap =
     (let spacers = prefix_rows (rm_spacer_rows rm) (\<lambda>before. before \<le> line);
          wrapped = (if wrap then prefix_rows (rm_wrap_rows rm) (\<lambda>wrapped. wrapped < line) else 0)
      in sat_add (sat_add (line - hidden_through rm line) spacers) wrapped)"

section \<open>Reference: scans\<close>

definition hides :: "(nat \<times> nat) list \<Rightarrow> nat \<Rightarrow> bool" where
  "hides hidden line \<longleftrightarrow> (\<exists>(a, b)\<in>set hidden. a \<le> line \<and> line \<le> b)"

definition hidden_upto :: "(nat \<times> nat) list \<Rightarrow> nat \<Rightarrow> nat" where
  "hidden_upto hidden line = length (filter (hides hidden) [0..<line + 1])"

definition spacer_upto :: "row_map \<Rightarrow> nat \<Rightarrow> nat" where
  "spacer_upto rm line =
     sum_list (map snd (filter (\<lambda>(l, _). l \<le> line \<and> \<not> hides (rm_hidden rm) l) (rm_spacers rm)))"

definition wrap_before :: "row_map \<Rightarrow> nat \<Rightarrow> nat" where
  "wrap_before rm line =
     sum_list (map (\<lambda>(_, m). wr_rows m - 1)
       (filter (\<lambda>(l, _). l < line \<and> \<not> hides (rm_hidden rm) l) (rm_wrap rm)))"

fun ranges_ok :: "nat \<Rightarrow> (nat \<times> nat) list \<Rightarrow> bool" where
  "ranges_ok lo [] = True"
| "ranges_ok lo ((a, b) # rs) = (lo \<le> a \<and> a \<le> b \<and> b < usize_max \<and> ranges_ok (b + 1) rs)"

abbreviation total_rows :: "rows \<Rightarrow> nat" where
  "total_rows xs \<equiv> sum_list (map snd xs)"

section \<open>Prefix sums\<close>

lemma total_rows_take: "total_rows (take n xs) \<le> total_rows xs"
  by (metis append_take_drop_id le_add1 map_append sum_list_append)

lemma length_running [simp]: "length (running acc xs) = length xs"
  by (induction acc xs rule: running.induct) auto

lemma fst_running [simp]: "map fst (running acc xs) = map fst xs"
  by (induction acc xs rule: running.induct) auto

lemma running_nth:
  "acc + total_rows xs \<le> usize_max \<Longrightarrow> i < length xs \<Longrightarrow>
     running acc xs ! i = (fst (xs ! i), acc + total_rows (take (Suc i) xs))"
proof (induction acc xs arbitrary: i rule: running.induct)
  case (2 acc line rows xs)
  have sat: "sat_add acc rows = acc + rows"
    using "2.prems"(1) by (simp add: sat_add_def)
  with 2 show ?case
    by (cases i) (auto simp: sat_add_def)
qed simp

lemma takeWhile_sorted:
  fixes f :: "'a \<Rightarrow> nat"
  assumes "sorted_wrt (<) (map f xs)" "\<And>x y. x < y \<Longrightarrow> p y \<Longrightarrow> p x"
  shows "takeWhile (\<lambda>x. p (f x)) xs = filter (\<lambda>x. p (f x)) xs"
  using assms(1)
proof (induction xs)
  case (Cons x xs)
  show ?case
  proof (cases "p (f x)")
    case False
    then have "\<forall>y\<in>set xs. \<not> p (f y)"
      using Cons.prems assms(2) by auto
    with False show ?thesis
      by (simp add: filter_empty_conv)
  qed (use Cons in simp)
qed simp

lemma fst_takeWhile: "map fst (takeWhile (\<lambda>(l, _). p l) xs) = takeWhile p (map fst xs)"
  by (induction xs) auto

lemma takeWhile_keys:
  fixes xs :: "(nat \<times> 'v) list"
  assumes "keys_sorted xs" "\<And>x y. x < y \<Longrightarrow> p y \<Longrightarrow> p x"
  shows "takeWhile (\<lambda>(l, _). p l) xs = filter (\<lambda>(l, _). p l) xs"
  using takeWhile_sorted [of fst xs p] assms by (simp add: case_prod_unfold)

lemma dropWhile_keys:
  fixes xs :: "(nat \<times> 'v) list"
  assumes "keys_sorted xs" "\<And>x y. x < y \<Longrightarrow> p y \<Longrightarrow> p x"
  shows "\<forall>(l, _)\<in>set (dropWhile (\<lambda>(l, _). p l) xs). \<not> p l"
  using assms(1)
proof (induction xs)
  case (Cons x xs)
  obtain l r where x: "x = (l, r)"
    by (cases x)
  show ?case
  proof (cases "p l")
    case False
    then have "\<not> p k" if "(k, v) \<in> set (x # xs)" for k v
      using Cons.prems assms(2) [of l k] that x by auto
    with False x show ?thesis
      by auto
  qed (use Cons x in simp)
qed simp

lemma prefix_running:
  assumes "total_rows xs \<le> usize_max" "keys_sorted xs" "\<And>x y. x < y \<Longrightarrow> p y \<Longrightarrow> p x"
  shows "prefix_rows (running 0 xs) p = total_rows (filter (\<lambda>(l, _). p l) xs)"
proof -
  let ?n = "partition_point (\<lambda>(l, _). p l) (running 0 xs)"
  have "map fst (takeWhile (\<lambda>(l, _). p l) (running 0 xs)) = map fst (takeWhile (\<lambda>(l, _). p l) xs)"
    by (simp add: fst_takeWhile)
  then have "length (takeWhile (\<lambda>(l, _). p l) (running 0 xs)) = length (takeWhile (\<lambda>(l, _). p l) xs)"
    by (rule map_eq_imp_length_eq)
  then have n: "?n = length (filter (\<lambda>(l, _). p l) xs)"
    using takeWhile_keys [OF assms(2,3)] by (simp add: partition_point_def)
  have "take ?n xs = filter (\<lambda>(l, _). p l) xs"
    using takeWhile_keys [OF assms(2,3)] n takeWhile_eq_take [of "\<lambda>(l, _). p l" xs] by simp
  moreover have "?n \<le> length xs"
    unfolding n by simp
  ultimately show ?thesis
    using running_nth [of 0 xs "?n - 1"] assms(1)
    by (cases ?n) (simp_all add: prefix_rows_def checked_sub_def)
qed

section \<open>Hidden lines\<close>

definition covered :: "(nat \<times> nat) list \<Rightarrow> nat \<Rightarrow> nat" where
  "covered rs line = sum_list (map (\<lambda>(a, b). if a \<le> line then min line b - a + 1 else 0) rs)"

lemma ranges_ok_bounds: "ranges_ok lo rs \<Longrightarrow> (a, b) \<in> set rs \<Longrightarrow> lo \<le> a \<and> a \<le> b \<and> b < usize_max"
  by (induction lo rs rule: ranges_ok.induct) auto

lemma ranges_ok_keys: "ranges_ok lo rs \<Longrightarrow> keys_sorted rs"
proof (induction lo rs rule: ranges_ok.induct)
  case (2 lo a b rs)
  then show ?case
    using ranges_ok_bounds [of "b + 1" rs] by fastforce
qed simp

lemma ranges_ok_append:
  "ranges_ok lo (xs @ (a, b) # ys) \<Longrightarrow> (a', b') \<in> set xs \<Longrightarrow> b' < a"
proof (induction xs arbitrary: lo)
  case (Cons x xs)
  then show ?case
    using ranges_ok_bounds [of "snd x + 1" "xs @ (a, b) # ys" a b] by (cases x) auto
qed simp

lemma hidden_upto_card: "hidden_upto rs line = card {i. i \<le> line \<and> hides rs i}"
  unfolding hidden_upto_def length_filter_conv_card
  by (rule arg_cong [of _ _ card]) (auto simp: nth_append less_Suc_eq_le)

lemma hidden_upto_covered: "ranges_ok lo rs \<Longrightarrow> hidden_upto rs line = covered rs line"
proof (induction lo rs rule: ranges_ok.induct)
  case (1 lo)
  then show ?case
    by (simp add: hidden_upto_card hides_def covered_def)
next
  case (2 lo a b rs)
  let ?here = "{i. i \<le> line \<and> a \<le> i \<and> i \<le> b}" and ?rest = "{i. i \<le> line \<and> hides rs i}"
  have disjoint: "?here \<inter> ?rest = {}"
    using 2 ranges_ok_bounds [of "b + 1" rs] by (force simp: hides_def)
  have "{i. i \<le> line \<and> hides ((a, b) # rs) i} = ?here \<union> ?rest"
    by (auto simp: hides_def)
  then have "hidden_upto ((a, b) # rs) line = card ?here + hidden_upto rs line"
    using card_Un_disjoint [OF _ _ disjoint] by (simp add: hidden_upto_card)
  moreover have "?here = (if a \<le> line then {a..min line b} else {})"
    by auto
  then have "card ?here = (if a \<le> line then min line b - a + 1 else 0)"
    using 2 by (auto simp: Suc_diff_le)
  ultimately show ?case
    using 2 by (simp add: covered_def)
qed

text \<open>The range the code looks at is the last one that starts at or before the line.\<close>

lemma hidden_index_cases:
  assumes "ranges_ok 0 (rm_hidden rm)"
  obtains (none) "hidden_index rm line = None" "\<forall>(a, b)\<in>set (rm_hidden rm). line < a"
  | (some) xs a b ys where "hidden_index rm line = Some (length xs)"
      "rm_hidden rm = xs @ (a, b) # ys" "a \<le> line" "\<forall>(a', b')\<in>set xs. b' < line \<and> a' \<le> b' \<and> b' < a"
      "\<forall>(a', b')\<in>set ys. line < a'"
proof -
  let ?hs = "rm_hidden rm"
  let ?le = "\<lambda>(a, b). a \<le> line"
  have early: "takeWhile ?le ?hs = filter ?le ?hs"
    using takeWhile_keys [OF ranges_ok_keys [OF assms], of "\<lambda>a. a \<le> line"] by simp
  have late: "\<forall>(a, b)\<in>set (dropWhile ?le ?hs). line < a"
    using dropWhile_keys [OF ranges_ok_keys [OF assms], of "\<lambda>a. a \<le> line"] by fastforce
  show thesis
  proof (cases "takeWhile ?le ?hs" rule: rev_cases)
    case Nil
    then have "dropWhile ?le ?hs = ?hs"
      by (metis append_Nil takeWhile_dropWhile_id)
    with Nil late show thesis
      by (intro none) (auto simp: hidden_index_def partition_point_def checked_sub_def)
  next
    case (snoc xs r)
    obtain a b where r: "r = (a, b)"
      by (cases r)
    have split: "?hs = xs @ (a, b) # dropWhile ?le ?hs"
      using takeWhile_dropWhile_id [of ?le ?hs] snoc r by simp
    have "(a, b) \<in> set (takeWhile ?le ?hs)"
      using snoc r by simp
    then have "a \<le> line"
      by (auto dest: set_takeWhileD)
    moreover have "\<forall>(a', b')\<in>set xs. b' < line \<and> a' \<le> b' \<and> b' < a"
    proof -
      have "b' < a \<and> a' \<le> b'" if "(a', b') \<in> set xs" for a' b'
        using ranges_ok_append [of 0 xs a b "dropWhile ?le ?hs" a' b'] ranges_ok_bounds [OF assms, of a' b']
          split assms that by (metis Un_iff set_append)
      with \<open>a \<le> line\<close> show ?thesis
        by fastforce
    qed
    ultimately show thesis
      using late split snoc
      by (intro some [of xs a b]) (auto simp: hidden_index_def partition_point_def checked_sub_def)
  qed
qed

lemma is_hidden_iff:
  assumes "ranges_ok 0 (rm_hidden rm)"
  shows "is_hidden rm line = hides (rm_hidden rm) line"
  using assms
proof (cases rule: hidden_index_cases [where line = line])
  case none
  then show ?thesis
    by (fastforce simp: is_hidden_def hides_def)
next
  case (some xs a b ys)
  then show ?thesis
    by (fastforce simp: is_hidden_def hides_def nth_append)
qed

definition through_ok :: "row_map \<Rightarrow> bool" where
  "through_ok rm \<longleftrightarrow>
     rm_through rm = map snd (running 0 (map (\<lambda>(a, b). (a, sat_add (b - a) 1)) (rm_hidden rm)))"

lemma covered_append: "covered (xs @ ys) line = covered xs line + covered ys line"
  by (simp add: covered_def)

lemma covered_before:
  "\<forall>(a, b)\<in>set xs. b < line \<and> a \<le> b \<Longrightarrow>
     covered xs line = total_rows (map (\<lambda>(a, b). (a, b - a + 1)) xs)"
  by (induction xs) (auto simp: covered_def min_def)

lemma covered_after: "\<forall>(a, b)\<in>set ys. line < a \<Longrightarrow> covered ys line = 0"
  by (induction ys) (auto simp: covered_def)

lemma hidden_sizes:
  assumes "ranges_ok lo rs"
  shows "map (\<lambda>(a, b). (a, sat_add (b - a) 1)) rs = map (\<lambda>(a, b). (a, b - a + 1)) rs"
    and "total_rows (map (\<lambda>(a, b). (a, b - a + 1)) rs) + lo \<le> max lo usize_max"
proof -
  show "map (\<lambda>(a, b). (a, sat_add (b - a) 1)) rs = map (\<lambda>(a, b). (a, b - a + 1)) rs"
    using ranges_ok_bounds [OF assms] by (intro map_cong refl) (fastforce intro: sat_add_exact)
  show "total_rows (map (\<lambda>(a, b). (a, b - a + 1)) rs) + lo \<le> max lo usize_max"
    using assms by (induction lo rs rule: ranges_ok.induct) auto
qed

lemma covered_le: "covered rs line \<le> total_rows (map (\<lambda>(a, b). (a, b - a + 1)) rs)"
  unfolding covered_def by (induction rs) (auto simp: min_def)

lemma hidden_through_ok:
  assumes "ranges_ok 0 (rm_hidden rm)" "through_ok rm"
  shows "hidden_through rm line = hidden_upto (rm_hidden rm) line"
proof -
  have upto: "hidden_upto (rm_hidden rm) line = covered (rm_hidden rm) line"
    using hidden_upto_covered [OF assms(1)] .
  from assms(1) show ?thesis
  proof (cases rule: hidden_index_cases [where line = line])
    case none
    then show ?thesis
      by (simp add: hidden_through_def upto covered_after)
  next
    case (some xs a b ys)
    let ?sizes = "map (\<lambda>(a, b). (a, b - a + 1)) (rm_hidden rm)"
    have fits: "total_rows ?sizes \<le> usize_max"
      using hidden_sizes(2) [OF assms(1)] by simp
    have through: "rm_through rm ! i = total_rows (take (Suc i) ?sizes)" if "i < length (rm_hidden rm)" for i
      using running_nth [of 0 ?sizes i] fits that
        assms(2) [unfolded through_ok_def hidden_sizes(1) [OF assms(1)]] by simp
    have "\<forall>(a', b')\<in>set xs. b' < line \<and> a' \<le> b'"
      using some(4) by auto
    then have cov: "covered (rm_hidden rm) line =
        total_rows (map (\<lambda>(a, b). (a, b - a + 1)) xs) + (min line b - a + 1)"
      using some(2,3,5) covered_before [of xs line] covered_after [of ys line]
      by (simp add: covered_append) (simp add: covered_def)
    have "(case checked_sub (length xs) 1 of None \<Rightarrow> 0 | Some i \<Rightarrow> rm_through rm ! i) =
        total_rows (map (\<lambda>(a, b). (a, b - a + 1)) xs)"
      using through [of "length xs - 1"] some(2)
      by (cases xs) (simp_all add: checked_sub_def)
    moreover have "covered (rm_hidden rm) line \<le> usize_max"
      using covered_le [of "rm_hidden rm" line] fits by simp
    ultimately show ?thesis
      unfolding upto using some(1,2) cov
      by (simp add: hidden_through_def Let_def nth_append sat_add_def)
  qed
qed

section \<open>Wrap rows\<close>

definition extras :: "(nat \<times> nat) list \<Rightarrow> (nat \<times> wrap_rows) list \<Rightarrow> rows" where
  "extras hidden wrap =
     map (\<lambda>(l, m). (l, wr_rows m - 1)) (filter (\<lambda>(l, m). wr_rows m > 1 \<and> \<not> hides hidden l) wrap)"

lemma extras_append: "extras h (xs @ ys) = extras h xs @ extras h ys"
  by (simp add: extras_def)

lemma extras_keys: "(l, r) \<in> set (extras h xs) \<Longrightarrow> \<exists>m. (l, m) \<in> set xs \<and> r > 0"
  by (auto simp: extras_def)

lemma keys_sorted_extras: "keys_sorted wrap \<Longrightarrow> keys_sorted (extras h wrap)"
  by (induction wrap) (auto simp: extras_def)

lemma total_extras_filter:
  "total_rows (filter (\<lambda>(l, _). p l) (extras h wrap)) =
     sum_list (map (\<lambda>(_, m). wr_rows m - 1) (filter (\<lambda>(l, _). p l \<and> \<not> hides h l) wrap))"
  by (induction wrap) (auto simp: extras_def)

lemma running_append:
  "acc + total_rows xs \<le> usize_max \<Longrightarrow>
     running acc (xs @ ys) = running acc xs @ running (acc + total_rows xs) ys"
  by (induction acc xs rule: running.induct) (auto simp: sat_add_def min_def add.assoc)

lemma running_shift:
  "acc + total_rows xs \<le> usize_max \<Longrightarrow> old \<le> acc \<Longrightarrow> acc - old + extra + total_rows xs \<le> usize_max \<Longrightarrow>
     map (\<lambda>(l, acc). (l, sat_add (acc - old) extra)) (running acc xs) = running (acc - old + extra) xs"
proof (induction acc xs rule: running.induct)
  case (2 acc line rows xs)
  have "sat_add acc rows = acc + rows" "sat_add (acc + rows - old) extra = acc + rows - old + extra"
    "sat_add (acc - old + extra) rows = acc + rows - old + extra"
    using "2.prems" by (auto simp: sat_add_def)
  with 2 show ?case
    by (auto simp: add.commute add.left_commute)
qed simp

lemma shift_wrap_sums:
  assumes "rm_wrap_rows rm = running 0 (xs @ mid @ ys)" "\<forall>(l, _)\<in>set xs. l < k" "\<forall>(l, _)\<in>set ys. k < l"
    "mid = (if old = 0 then [] else [(k, old)])" "total_rows (xs @ mid @ ys) \<le> usize_max"
    "total_rows xs + extra + total_rows ys \<le> usize_max"
  shows "shift_wrap k extra rm =
    rm\<lparr>rm_wrap_rows := running 0 (xs @ (if extra = 0 then [] else [(k, extra)]) @ ys)\<rparr>"
proof -
  let ?t = "total_rows xs"
  have sums: "rm_wrap_rows rm = running 0 xs @ running ?t (mid @ ys)"
    using assms(1,5) running_append [of 0 xs "mid @ ys"] by simp
  have "takeWhile (\<lambda>l. l < k) (map fst xs @ zs) = map fst xs @ takeWhile (\<lambda>l. l < k) zs" for zs
    by (rule takeWhile_append2) (use assms(2) in auto)
  moreover have "takeWhile (\<lambda>l. l < k) (map fst (mid @ ys)) = []"
    using assms(3,4) by (cases ys) auto
  ultimately have "map fst (takeWhile (\<lambda>(l, _). l < k) (rm_wrap_rows rm)) = map fst xs"
    unfolding fst_takeWhile sums by simp
  then have index: "partition_point (\<lambda>(l, _). l < k) (rm_wrap_rows rm) = length xs"
    by (metis length_map partition_point_def)
  have before: "(case checked_sub (length xs) 1 of None \<Rightarrow> 0 | Some l \<Rightarrow> snd (rm_wrap_rows rm ! l)) = ?t"
    using running_nth [of 0 xs "length xs - 1"] assms(5)
    by (cases xs) (simp_all add: checked_sub_def sums nth_append)
  have rest: "running 0 (xs @ e @ ys) = running 0 xs @ running ?t (e @ ys)" for e
    using running_append [of 0 xs "e @ ys"] assms(5) by simp
  show ?thesis
  proof (cases "old = 0")
    case True
    then have "\<not> (length xs < length (rm_wrap_rows rm) \<and> fst (rm_wrap_rows rm ! length xs) = k)"
      using assms(3,4) by (cases ys) (auto simp: sums nth_append)
    moreover have "map (\<lambda>(l, acc). (l, sat_add acc extra)) (running ?t ys) = running (?t + extra) ys"
      using running_shift [of ?t ys 0 extra] assms(5,6) by simp
    moreover have "mid = []" "rm_wrap_rows rm = running 0 xs @ running ?t ys"
      "sat_add ?t extra = ?t + extra"
      using True assms(4,6) sums by (simp_all add: sat_add_def)
    ultimately show ?thesis
      unfolding shift_wrap_def Let_def index before
      by (simp only: if_False if_True simp_thms rest)
        (simp add: rest [of "[]", simplified] rest [of "[(k, extra)]", simplified])
  next
    case False
    have mid: "running ?t (mid @ ys) = (k, ?t + old) # running (?t + old) ys"
      using False assms(4,5) by (simp add: sat_add_def)
    have all: "rm_wrap_rows rm = running 0 xs @ (k, ?t + old) # running (?t + old) ys"
      using sums mid by simp
    then have at: "length xs < length (rm_wrap_rows rm) \<and> fst (rm_wrap_rows rm ! length xs) = k"
      "snd (rm_wrap_rows rm ! length xs) - ?t = old" "take (length xs) (rm_wrap_rows rm) = running 0 xs"
      "drop (length xs) (rm_wrap_rows rm) = (k, ?t + old) # running (?t + old) ys"
      by (simp_all add: nth_append)
    have "map (\<lambda>(l, acc). (l, sat_add (acc - old) extra)) (running (?t + old) ys) = running (?t + extra) ys"
      using running_shift [of "?t + old" ys old extra] assms(4,5,6) False by simp
    moreover have "sat_add ?t extra = ?t + extra"
      using assms(6) by (simp add: sat_add_def)
    ultimately have moved: "take (length xs) (rm_wrap_rows rm) @
        map (\<lambda>(l, acc). (l, sat_add (acc - old) extra)) (drop (length xs) (rm_wrap_rows rm)) =
        running 0 xs @ (k, ?t + extra) # running (?t + extra) ys"
      unfolding at by simp
    show ?thesis
      unfolding shift_wrap_def Let_def index before
      by (simp only: at(1) simp_thms if_True if_False at(2) moved)
        (simp add: rest [of "[]", simplified] rest [of "[(k, extra)]", simplified] \<open>sat_add ?t extra = ?t + extra\<close>)
  qed
qed

section \<open>The invariant\<close>

definition visible_spacers :: "row_map \<Rightarrow> rows" where
  "visible_spacers rm = filter (\<lambda>(l, _). \<not> hides (rm_hidden rm) l) (rm_spacers rm)"

definition row_ok :: "row_map \<Rightarrow> bool" where
  "row_ok rm \<longleftrightarrow>
     ranges_ok 0 (rm_hidden rm) \<and> through_ok rm \<and>
     keys_sorted (rm_spacers rm) \<and> rm_spacer_rows rm = running 0 (visible_spacers rm) \<and>
     keys_sorted (rm_wrap rm) \<and> rm_wrap_rows rm = running 0 (extras (rm_hidden rm) (rm_wrap rm))"

lemma rebuild_ok:
  assumes "ranges_ok 0 (rm_hidden rm)"
  shows "rm_spacer_rows (rebuild_spacers rm) = running 0 (visible_spacers rm)"
    and "rm_wrap_rows (rebuild_wrap rm) = running 0 (extras (rm_hidden rm) (rm_wrap rm))"
  using is_hidden_iff [OF assms]
  by (simp_all add: rebuild_spacers_def rebuild_wrap_def visible_spacers_def extras_def)

lemma set_wrap_rows_ok:
  assumes "row_ok rm" "set_wrap_rows line rows content rm = (changed, rm')"
    "total_rows (extras (rm_hidden rm) (rm_wrap rm)) + rows \<le> usize_max"
  shows "row_ok rm'" "rm_wrap rm' = btree_insert line \<lparr>wr_rows = rows, wr_content = content\<rparr> (rm_wrap rm)"
    "changed \<longleftrightarrow> wrap_rows_of rm line \<noteq> Some rows" "rm_hidden rm' = rm_hidden rm"
    "rm_spacers rm' = rm_spacers rm"
proof -
  let ?h = "rm_hidden rm" and ?w = "rm_wrap rm" and ?m = "\<lparr>wr_rows = rows, wr_content = content\<rparr>"
  let ?xs = "filter (\<lambda>(l, _). l < line) ?w" and ?ys = "filter (\<lambda>(l, _). line < l) ?w"
  let ?rm = "rm\<lparr>rm_wrap := btree_insert line ?m ?w\<rparr>"
  have ok: "ranges_ok 0 ?h" "keys_sorted ?w" "rm_wrap_rows rm = running 0 (extras ?h ?w)"
    using assms(1) by (simp_all add: row_ok_def)
  have hid: "is_hidden ?rm line = hides ?h line"
    using is_hidden_iff [of ?rm line] ok(1) by simp
  have new: "extras ?h (btree_insert line ?m ?w) = extras ?h ?xs @ extras ?h [(line, ?m)] @ extras ?h ?ys"
    using btree_insert_split [OF ok(2), of line ?m] by (simp add: extras_append [symmetric])
  define old where "old = (if hides ?h line then 0 else case map_of ?w line of None \<Rightarrow> 0 | Some m \<Rightarrow> wr_rows m - 1)"
  have was: "extras ?h ?w = extras ?h ?xs @ (if old = 0 then [] else [(line, old)]) @ extras ?h ?ys"
  proof -
    have "extras ?h ?w = extras ?h ?xs @ extras ?h (filter (\<lambda>(l, _). l = line) ?w) @ extras ?h ?ys"
      using keys_split [OF ok(2), of line] by (metis extras_append)
    moreover have "extras ?h (filter (\<lambda>(l, _). l = line) ?w) = (if old = 0 then [] else [(line, old)])"
      unfolding keys_single [OF ok(2)] old_def by (auto simp: extras_def split: option.splits)
    ultimately show ?thesis
      by simp
  qed
  have keys: "\<forall>(l, _)\<in>set (extras ?h ?xs). l < line" "\<forall>(l, _)\<in>set (extras ?h ?ys). line < l"
    by (auto simp: extras_def)
  have "extras ?h ?w = extras ?h (btree_insert line ?m ?w)" if "hides ?h line \<or> wrap_rows_of rm line = Some rows"
    using that unfolding new was old_def by (auto simp: extras_def wrap_rows_of_def)
  moreover have "shift_wrap line (rows - 1) ?rm =
      ?rm\<lparr>rm_wrap_rows := running 0 (extras ?h (btree_insert line ?m ?w))\<rparr>" if "\<not> hides ?h line"
  proof -
    have "extras ?h [(line, ?m)] = (if rows - 1 = 0 then [] else [(line, rows - 1)])"
      using that by (simp add: extras_def)
    moreover have "total_rows (extras ?h ?w) \<le> usize_max"
      "total_rows (extras ?h ?xs) + (rows - 1) + total_rows (extras ?h ?ys) \<le> usize_max"
      using assms(3) was by auto
    ultimately show ?thesis
      unfolding new using shift_wrap_sums [of ?rm "extras ?h ?xs" _ "extras ?h ?ys" line old "rows - 1"]
        keys ok(3) was by simp
  qed
  ultimately have rm': "rm' = ?rm\<lparr>rm_wrap_rows := running 0 (extras ?h (btree_insert line ?m ?w))\<rparr>"
    "changed \<longleftrightarrow> wrap_rows_of rm line \<noteq> Some rows"
    using assms(2) ok(3) hid by (auto simp: set_wrap_rows_def Let_def split: if_splits)
  then show "rm_wrap rm' = btree_insert line ?m ?w" "changed \<longleftrightarrow> wrap_rows_of rm line \<noteq> Some rows"
    "rm_hidden rm' = ?h" "rm_spacers rm' = rm_spacers rm"
    by simp_all
  show "row_ok rm'"
    using assms(1) btree_insert_sorted [OF ok(2)]
    by (simp add: rm' row_ok_def through_ok_def visible_spacers_def)
qed

section \<open>Properties\<close>

text \<open>The first visual row of a line, which the code computes with three binary searches over
  prefix sums, is the number a scan of all lines gives: the visible lines before it, the spacer rows
  up to it and, with wrapping, the extra rows of the visible wrapped lines before it.\<close>
theorem visual_line_scan:
  assumes "row_ok rm" "total_rows (visible_spacers rm) \<le> usize_max"
    "total_rows (extras (rm_hidden rm) (rm_wrap rm)) \<le> usize_max"
    "line + spacer_upto rm line + wrap_before rm line \<le> usize_max"
  shows "visual_line rm line wrap =
    line - hidden_upto (rm_hidden rm) line + spacer_upto rm line + (if wrap then wrap_before rm line else 0)"
proof -
  have ok: "ranges_ok 0 (rm_hidden rm)" "through_ok rm" "keys_sorted (rm_wrap rm)"
    "keys_sorted (visible_spacers rm)"
    using assms(1) keys_sorted_filter by (auto simp: row_ok_def visible_spacers_def)
  have "prefix_rows (rm_spacer_rows rm) (\<lambda>before. before \<le> line) =
      total_rows (filter (\<lambda>(l, _). l \<le> line) (visible_spacers rm))"
    using assms(1) prefix_running [OF assms(2) ok(4), of "\<lambda>l. l \<le> line"] by (simp add: row_ok_def)
  also have "\<dots> = spacer_upto rm line"
    unfolding spacer_upto_def visible_spacers_def
    by (rule arg_cong [of _ _ total_rows]) (auto intro!: filter_cong)
  finally have spacers: "prefix_rows (rm_spacer_rows rm) (\<lambda>before. before \<le> line) = spacer_upto rm line" .
  have "prefix_rows (rm_wrap_rows rm) (\<lambda>wrapped. wrapped < line) =
      total_rows (filter (\<lambda>(l, _). l < line) (extras (rm_hidden rm) (rm_wrap rm)))"
    using assms(1) prefix_running [OF assms(3) keys_sorted_extras [OF ok(3)], of "\<lambda>l. l < line"]
    by (simp add: row_ok_def)
  also have "\<dots> = wrap_before rm line"
    by (simp add: total_extras_filter wrap_before_def)
  finally have wrapped: "prefix_rows (rm_wrap_rows rm) (\<lambda>wrapped. wrapped < line) = wrap_before rm line" .
  show ?thesis
    using assms(4) hidden_through_ok [OF ok(1,2), of line]
    by (simp add: visual_line_def spacers wrapped sat_add_def)
qed

text \<open>Recording one measurement updates the prefix sums in place to what a rebuild from the new
  measurements would give, reports whether the row count changed, and keeps the invariant.\<close>
theorem set_wrap_rows_rebuilds:
  assumes "row_ok rm" "total_rows (extras (rm_hidden rm) (rm_wrap rm)) + rows \<le> usize_max"
  shows "set_wrap_rows line rows content rm =
    (wrap_rows_of rm line \<noteq> Some rows,
     replace_wrap (btree_insert line \<lparr>wr_rows = rows, wr_content = content\<rparr> (rm_wrap rm)) rm)"
proof -
  obtain changed rm' where run: "set_wrap_rows line rows content rm = (changed, rm')"
    by fastforce
  note ok = set_wrap_rows_ok [OF assms(1) run assms(2)]
  let ?w = "btree_insert line \<lparr>wr_rows = rows, wr_content = content\<rparr> (rm_wrap rm)"
  have a: "rm_wrap_rows (replace_wrap ?w rm) = rm_wrap_rows rm'"
    using rebuild_ok(2) [of "rm\<lparr>rm_wrap := ?w\<rparr>"] assms(1) ok(1,2,4) by (simp add: replace_wrap_def row_ok_def)
  have b: "rm' = rm\<lparr>rm_wrap := ?w, rm_wrap_rows := rm_wrap_rows rm'\<rparr>"
    using run by (auto simp: set_wrap_rows_def shift_wrap_def Let_def split: if_splits)
  have c: "replace_wrap ?w rm = rm\<lparr>rm_wrap := ?w, rm_wrap_rows := rm_wrap_rows (replace_wrap ?w rm)\<rparr>"
    by (simp add: replace_wrap_def rebuild_wrap_def)
  have "rm' = replace_wrap ?w rm"
    by (rule trans [OF b trans [OF _ c [symmetric]]]) (simp only: a)
  then show ?thesis
    unfolding run using ok(3) by simp
qed

text \<open>C30: Every operation on the row map keeps its invariant: sorted ranges and keys, and prefix sums
  that equal their rebuild.\<close>
theorem row_map_invariant:
  assumes "row_ok rm" "ranges_ok 0 hidden" "keys_sorted spacers" "keys_sorted wrap"
    "total_rows (extras (rm_hidden rm) (rm_wrap rm)) + rows \<le> usize_max"
  shows "row_ok row_map_default \<and> row_ok (set_hidden hidden rm) \<and> row_ok (set_spacers spacers rm) \<and>
    row_ok (snd (set_wrap_rows line rows content rm)) \<and> row_ok (clear_wrap rm) \<and>
    row_ok (retain_wrap keep rm) \<and> row_ok (snd (take_wrap rm)) \<and> row_ok (replace_wrap wrap rm)"
proof -
  have ok: "ranges_ok 0 (rm_hidden rm)"
    using assms(1) by (simp add: row_ok_def)
  have wrap: "row_ok (replace_wrap w rm)" if "keys_sorted w" for w
    using that assms(1) rebuild_ok(2) [of "rm\<lparr>rm_wrap := w\<rparr>"] ok
    by (simp add: row_ok_def replace_wrap_def rebuild_wrap_def through_ok_def visible_spacers_def)
  have "row_ok (set_spacers spacers rm)"
    using assms(1,3) rebuild_ok(1) [of "rm\<lparr>rm_spacers := spacers\<rparr>"] ok
    by (simp add: row_ok_def set_spacers_def rebuild_spacers_def through_ok_def visible_spacers_def)
  moreover have "row_ok (set_hidden hidden rm)"
    using assms(1,2) is_hidden_iff
    by (simp add: row_ok_def set_hidden_def rebuild_wrap_def rebuild_spacers_def through_ok_def
        visible_spacers_def extras_def)
  moreover have "row_ok (snd (set_wrap_rows line rows content rm))"
    using set_wrap_rows_ok(1) [OF assms(1) _ assms(5)] by (metis prod.collapse)
  moreover have "row_ok (retain_wrap keep rm)"
    unfolding retain_wrap_def replace_wrap_def [symmetric]
    by (intro wrap keys_sorted_filter) (use assms(1) in \<open>simp add: row_ok_def\<close>)
  moreover have "row_ok (clear_wrap rm)"
    using assms(1) by (simp add: row_ok_def clear_wrap_def through_ok_def visible_spacers_def extras_def)
  ultimately show ?thesis
    using wrap [OF assms(4)]
    by (simp add: row_ok_def row_map_default_def take_wrap_def clear_wrap_def through_ok_def
        visible_spacers_def extras_def)
qed

section \<open>A concrete map\<close>

definition sample_rows :: row_map where
  "sample_rows =
     \<lparr>rm_hidden = [(2, 4)], rm_through = [3], rm_spacers = [(1, 2), (3, 5)], rm_spacer_rows = [(1, 2)],
      rm_wrap = [(0, \<lparr>wr_rows = 3, wr_content = (0, 9)\<rparr>)], rm_wrap_rows = [(0, 2)]\<rparr>"

lemma sample_rows_facts:
  "visible_spacers sample_rows = [(1, 2)]" "extras (rm_hidden sample_rows) (rm_wrap sample_rows) = [(0, 2)]"
  "spacer_upto sample_rows 6 = 2" "wrap_before sample_rows 6 = 2" "hidden_upto (rm_hidden sample_rows) 6 = 3"
  by code_simp+

lemma sample_rows_ok: "row_ok sample_rows"
  unfolding row_ok_def sample_rows_facts
  by (simp add: sample_rows_def through_ok_def sat_add_def usize_max_def)

theorem visual_line_scan_witness: "visual_line sample_rows 6 True = 7"
  using visual_line_scan [OF sample_rows_ok, of 6 True] unfolding sample_rows_facts
  by (simp add: usize_max_def)

theorem set_wrap_rows_rebuilds_witness:
  "fst (set_wrap_rows 6 2 (10, 30) sample_rows) \<and>
   rm_wrap_rows (snd (set_wrap_rows 6 2 (10, 30) sample_rows)) = [(0, 2), (6, 3)]"
proof -
  have "wrap_rows_of sample_rows 6 = None"
    "extras [(2, 4)] [(0, \<lparr>wr_rows = 3, wr_content = (0, 9)\<rparr>), (6, \<lparr>wr_rows = 2, wr_content = (10, 30)\<rparr>)] =
      [(0, 2), (6, 1)]"
    by code_simp+
  moreover have "ranges_ok 0 [(2, 4)]"
    by (simp add: usize_max_def)
  ultimately show ?thesis
    using set_wrap_rows_rebuilds [OF sample_rows_ok, of 2 6 "(10, 30)"] sample_rows_facts(2)
      rebuild_ok(2) [of "sample_rows\<lparr>rm_wrap := btree_insert 6 \<lparr>wr_rows = 2, wr_content = (10, 30)\<rparr> (rm_wrap sample_rows)\<rparr>"]
    by (simp add: replace_wrap_def) (simp add: sample_rows_def sat_add_def usize_max_def)
qed

theorem row_map_invariant_witness:
  "row_ok (set_hidden [(1, 3), (7, 7)] sample_rows) \<and> row_ok (snd (set_wrap_rows 6 2 (10, 30) sample_rows))"
  using row_map_invariant [OF sample_rows_ok, of "[(1, 3), (7, 7)]" "[]" "[]" 2] sample_rows_facts(2)
  by (simp add: usize_max_def)

end
