(* ===== verification/Recovery.thy ===== *)
theory Recovery
  imports Prelude
begin

text \<open>
  The data of the recovery journal, crates/file-io/src/recovery/mod.rs: edits with their inverse
  bytes, the records of the journal and the segments that hold their payload, the CRC of a
  journal frame, and the meaning of a transaction as a text edit. A directory is the map from a
  file's name to its bytes, or to the error that opening it gives.
\<close>

section \<open>Data\<close>

text \<open>The kinds of \<open>io::Error\<close> the recovery code makes or tells apart.\<close>

datatype io_error =
    InvalidData
  | UnexpectedEof
  | OutOfMemory
  | Interrupted
  | NotFound
  | AlreadyExists
  | OtherIo

type_synonym 'a io = "io_error + 'a"
type_synonym disk = "string \<Rightarrow> byte list io"

record recovery_edit =
  re_offset :: nat
  re_removed :: "byte list"
  re_inserted :: "byte list"

record edit_ref =
  ef_offset :: nat
  ef_removed :: nat
  ef_inserted :: nat

record durable_receipt =
  dr_revision :: nat
  dr_ms :: nat

record blob =
  bl_name :: string
  bl_len :: nat
  bl_sha :: "byte list"

type_synonym policy = "(byte list \<times> byte list) list"

record journal_record =
  jr_version :: nat
  jr_metadata :: "policy option"
  jr_receipt :: durable_receipt
  jr_segment :: blob
  jr_edits :: "edit_ref list"

definition CHUNK :: nat where "CHUNK = 64 * 1024"

lemma CHUNK_pos [simp]: "0 < CHUNK"
  by (simp add: CHUNK_def)

section \<open>Reading\<close>

text \<open>\<open>read_exact\<close> of \<open>n\<close> bytes after a seek to \<open>pos\<close>: a short file is an end-of-file error.\<close>

definition read_exact :: "byte list \<Rightarrow> nat \<Rightarrow> nat \<Rightarrow> byte list io" where
  "read_exact file pos n =
     (if pos + n \<le> length file then Inr (sub pos (pos + n) file) else Inl UnexpectedEof)"

text \<open>\<open>try_exists\<close>: a missing file is no error, any other failure is.\<close>

definition try_exists :: "disk \<Rightarrow> string \<Rightarrow> bool io" where
  "try_exists d name =
     (case d name of
        Inr _ \<Rightarrow> Inr True
      | Inl e \<Rightarrow> (if e = NotFound then Inr False else Inl e))"

lemma read_exact_Inr_iff [res_simps]:
  "read_exact file pos n = Inr bs \<longleftrightarrow> pos + n \<le> length file \<and> bs = sub pos (pos + n) file"
  by (auto simp: read_exact_def)

section \<open>The frame checksum\<close>

text \<open>One byte of the CRC-32C: eight shifts with the reflected Castagnoli polynomial.\<close>

definition crc_bit :: "32 word \<Rightarrow> 32 word" where
  "crc_bit crc = xor (drop_bit 1 crc) (0x82f63b78 AND (0 - (crc AND 1)))"

definition crc_byte :: "32 word \<Rightarrow> byte \<Rightarrow> 32 word" where
  "crc_byte crc b = (crc_bit ^^ 8) (xor crc (ucast b))"

definition crc32c :: "byte list \<Rightarrow> 32 word" where
  "crc32c bs = NOT (foldl crc_byte (NOT 0) bs)"

section \<open>A transaction as edits of a text\<close>

text \<open>
  The reference meaning. The edits of a transaction are sorted, disjoint, and hold the bytes they
  remove; their offsets are all in the text before the transaction, so the last one is applied
  first.
\<close>

abbreviation re_end :: "recovery_edit \<Rightarrow> nat" where
  "re_end e \<equiv> re_offset e + length (re_removed e)"

fun fits :: "nat \<Rightarrow> byte list \<Rightarrow> recovery_edit list \<Rightarrow> bool" where
  "fits c t [] = True"
| "fits c t (e # es) =
     (c \<le> re_offset e \<and> re_end e \<le> length t \<and> sub (re_offset e) (re_end e) t = re_removed e \<and>
      fits (re_end e) t es)"

definition splice_text :: "recovery_edit \<Rightarrow> byte list \<Rightarrow> byte list" where
  "splice_text e t = replace_range (re_offset e) (re_end e) (re_inserted e) t"

definition render :: "recovery_edit list \<Rightarrow> byte list \<Rightarrow> byte list" where
  "render es t = foldr splice_text es t"

text \<open>What the journal keeps of an edit: the offset and the two lengths.\<close>

definition edit_ref_of :: "recovery_edit \<Rightarrow> edit_ref" where
  "edit_ref_of e =
     \<lparr>ef_offset = re_offset e, ef_removed = length (re_removed e), ef_inserted = length (re_inserted e)\<rparr>"

text \<open>The segment of a transaction: for every edit its removed, then its inserted bytes.\<close>

definition edit_payload :: "recovery_edit \<Rightarrow> byte list" where
  "edit_payload e = re_removed e @ re_inserted e"

definition segment_bytes :: "recovery_edit list \<Rightarrow> byte list" where
  "segment_bytes es = concat (map edit_payload es)"

text \<open>The edits read back from a segment, from byte \<open>cursor\<close> on.\<close>

fun take_edits :: "byte list \<Rightarrow> nat \<Rightarrow> edit_ref list \<Rightarrow> recovery_edit list" where
  "take_edits bytes cursor [] = []"
| "take_edits bytes cursor (r # rs) =
     (let removed_end = cursor + ef_removed r;
          inserted_end = removed_end + ef_inserted r
      in \<lparr>re_offset = ef_offset r, re_removed = sub cursor removed_end bytes,
          re_inserted = sub removed_end inserted_end bytes\<rparr> # take_edits bytes inserted_end rs)"

definition payload_size :: "edit_ref list \<Rightarrow> nat" where
  "payload_size rs = sum_list (map (\<lambda>r. ef_removed r + ef_inserted r) rs)"

text \<open>The length of the text after a transaction, with every bound and overflow checked.\<close>

fun edited_len_from :: "nat \<Rightarrow> nat \<Rightarrow> nat \<Rightarrow> edit_ref list \<Rightarrow> nat io" where
  "edited_len_from source_len cursor result [] = Inr result"
| "edited_len_from source_len cursor result (r # rs) =
     (case checked_add (ef_offset r) (ef_removed r) of
        None \<Rightarrow> Inl InvalidData
      | Some e \<Rightarrow>
          if source_len < e then Inl InvalidData
          else if ef_offset r < cursor then Inl InvalidData
          else
            (case checked_sub result (ef_removed r) of
               None \<Rightarrow> Inl InvalidData
             | Some n \<Rightarrow>
                 (case checked_add n (ef_inserted r) of
                    None \<Rightarrow> Inl InvalidData
                  | Some m \<Rightarrow> edited_len_from source_len e m rs)))"

definition edited_len :: "nat \<Rightarrow> edit_ref list \<Rightarrow> nat io" where
  "edited_len source_len rs = edited_len_from source_len 0 source_len rs"

section \<open>Lemmas\<close>

lemma edit_ref_of_simps [simp]:
  "ef_offset (edit_ref_of e) = re_offset e"
  "ef_removed (edit_ref_of e) = length (re_removed e)"
  "ef_inserted (edit_ref_of e) = length (re_inserted e)"
  by (simp_all add: edit_ref_of_def)

lemma render_simps [simp]:
  "render [] t = t"
  "render (e # es) t = splice_text e (render es t)"
  by (simp_all add: render_def)

lemma render_append: "render (as @ bs) t = render as (render bs t)"
  by (simp add: render_def)

lemma payload_size_simps [simp]:
  "payload_size [] = 0"
  "payload_size (r # rs) = ef_removed r + ef_inserted r + payload_size rs"
  by (simp_all add: payload_size_def)

lemma segment_bytes_simps [simp]:
  "segment_bytes [] = []"
  "segment_bytes (e # es) = re_removed e @ re_inserted e @ segment_bytes es"
  by (simp_all add: segment_bytes_def edit_payload_def)

lemma length_segment_bytes: "length (segment_bytes es) = payload_size (map edit_ref_of es)"
  by (induction es) simp_all

text \<open>Reading a segment back gives the edits that were written to it.\<close>

lemma take_edits_segment:
  "take_edits (pre @ segment_bytes es @ post) (length pre) (map edit_ref_of es) = es"
proof (induction es arbitrary: pre)
  case Nil
  then show ?case by simp
next
  case (Cons e es)
  have "take_edits (pre @ segment_bytes (e # es) @ post)
          (length pre + length (re_removed e) + length (re_inserted e)) (map edit_ref_of es) = es"
    using Cons.IH [of "pre @ re_removed e @ re_inserted e"] by (simp add: add.assoc)
  then show ?case
    by (simp add: Let_def sub_def)
qed

lemma map_ref_take_edits:
  "cursor + payload_size rs \<le> length bytes \<Longrightarrow>
     map edit_ref_of (take_edits bytes cursor rs) = rs"
  by (induction rs arbitrary: cursor) (auto simp: edit_ref_of_def Let_def length_sub)

lemma length_splice_text:
  "re_end e \<le> length t \<Longrightarrow>
     length (splice_text e t) = length t - length (re_removed e) + length (re_inserted e)"
  by (simp add: splice_text_def length_replace_range)

text \<open>An edit at or after the cursor leaves what precedes it alone.\<close>

lemma take_render:
  "fits c t es \<Longrightarrow> c \<le> length t \<Longrightarrow> take c (render es t) = take c t \<and> c \<le> length (render es t)"
proof (induction es arbitrary: c)
  case Nil
  then show ?case by simp
next
  case (Cons e es)
  then have IH: "take (re_end e) (render es t) = take (re_end e) t" "re_end e \<le> length (render es t)"
    by auto
  have "take (re_offset e) (render es t) = take (re_offset e) (take (re_end e) (render es t))"
    by simp
  also have "\<dots> = take (re_offset e) t"
    by (simp only: IH) simp
  finally have *: "take (re_offset e) (render es t) = take (re_offset e) t" .
  have c: "c \<le> re_offset e" "re_offset e \<le> length (render es t)"
    using Cons.prems IH(2) by auto
  have "take c (splice_text e (render es t)) = take c (take (re_offset e) (render es t))"
    using c by (simp add: splice_text_def replace_range_def)
  also have "\<dots> = take c t"
    using c by (simp only: * ) simp
  finally have "take c (splice_text e (render es t)) = take c t" .
  moreover have "c \<le> length (splice_text e (render es t))"
    using c by (simp add: splice_text_def replace_range_def)
  ultimately show ?case
    by simp
qed

lemma length_render:
  "fits c t es \<Longrightarrow> c \<le> length t \<Longrightarrow>
     length (render es t) + sum_list (map (length \<circ> re_removed) es) =
     length t + sum_list (map (length \<circ> re_inserted) es)"
proof (induction es arbitrary: c)
  case Nil
  then show ?case by simp
next
  case (Cons e es)
  then have "fits (re_end e) t es" "re_end e \<le> length t"
    by auto
  with Cons.IH [of "re_end e"] take_render [of "re_end e" t es] show ?case
    by (simp add: length_splice_text)
qed

lemma edited_len_from_render:
  assumes "fits c t es" "c \<le> length t"
    and "edited_len_from (length t) c result (map edit_ref_of es) = Inr n"
  shows "n + sum_list (map (length \<circ> re_removed) es) =
         result + sum_list (map (length \<circ> re_inserted) es)"
  using assms
proof (induction es arbitrary: c result)
  case Nil
  then show ?case by simp
next
  case (Cons e es)
  from Cons.prems obtain m where
    m: "length (re_removed e) \<le> result" "m = result - length (re_removed e) + length (re_inserted e)"
    and "edited_len_from (length t) (re_end e) m (map edit_ref_of es) = Inr n"
    by (simp add: checked_add_def checked_sub_def split: if_splits)
  with Cons.IH [of "re_end e" m] Cons.prems show ?case
    by simp
qed

text \<open>The length the writer keeps is the length of the edited text.\<close>

lemma edited_len_render:
  "fits 0 t es \<Longrightarrow> edited_len (length t) (map edit_ref_of es) = Inr n \<Longrightarrow> n = length (render es t)"
  using edited_len_from_render [of 0 t es "length t" n] length_render [of 0 t es]
  by (simp add: edited_len_def)

end
