(* ===== verification/Effects.thy ===== *)
theory Effects
  imports Prelude
begin

text \<open>
  Fallible steps over a state, for the loops that thread a state through many operations that may
  fail (validation of a journal, comparison of texts).
\<close>

text \<open>A step returns an error or a value, and the state it leaves.\<close>

type_synonym ('s, 'e, 'a) step = "'s \<Rightarrow> ('e + 'a) \<times> 's"

definition act_bind :: "('s, 'e, 'a) step \<Rightarrow> ('a \<Rightarrow> ('s, 'e, 'b) step) \<Rightarrow> ('s, 'e, 'b) step" where
  "act_bind m f s = (case m s of (Inl e, s') \<Rightarrow> (Inl e, s') | (Inr x, s') \<Rightarrow> f x s')"

definition act_lift :: "'e + 'a \<Rightarrow> ('s, 'e, 'a) step" where
  "act_lift r s = (r, s)"

lemma act_bind_Inr_iff [res_simps]:
  "act_bind m f s = (Inr y, s') \<longleftrightarrow> (\<exists>x t. m s = (Inr x, t) \<and> f x t = (Inr y, s'))"
  by (auto simp: act_bind_def split: prod.splits sum.splits)

lemma act_bind_Inl_iff [res_simps]:
  "act_bind m f s = (Inl e, s') \<longleftrightarrow>
     m s = (Inl e, s') \<or> (\<exists>x t. m s = (Inr x, t) \<and> f x t = (Inl e, s'))"
  by (auto simp: act_bind_def split: prod.splits sum.splits)

lemma act_lift_iff [res_simps]: "act_lift r s = (r', s') \<longleftrightarrow> r' = r \<and> s' = s"
  by (auto simp: act_lift_def)

lemma act_bind_cong [fundef_cong]:
  "m s = m' s' \<Longrightarrow> (\<And>x t. m' s' = (Inr x, t) \<Longrightarrow> f x t = f' x t) \<Longrightarrow>
     act_bind m f s = act_bind m' f' s'"
  by (auto simp: act_bind_def split: prod.splits sum.splits)

end
