(* ===== verification/Replay.thy ===== *)
theory Replay
  imports Recovery Effects
begin

text \<open>
  Validation of a journal over an interval map, crates/file-io/src/recovery/replay.rs. The map
  describes the current text as spans of the sealed baseline and of the segments' inserted bytes;
  a record is checked by comparing its inverse bytes with the spans it removes, then the map is
  spliced. The reading of the text out of the map is \<open>rp_text\<close>; what a record does to a text is
  \<open>render\<close>.
\<close>

section \<open>The map\<close>

definition BLOCK :: nat where "BLOCK = 256"
definition MAX_SPANS :: nat where "MAX_SPANS = 2 ^ 22"

datatype origin = Baseline | Segment nat

record span =
  s_origin :: origin
  s_offset :: nat
  s_len :: nat

record block =
  b_len :: nat
  b_spans :: "span list"

record replay =
  rp_blocks :: "block list"
  rp_len :: nat
  rp_baseline :: "byte list"
  rp_cached :: "(nat \<times> byte list) option"
  rp_spans :: nat
  rp_read_bytes :: nat
  rp_polls :: nat

section \<open>Steps with a state\<close>

type_synonym ('s, 'a) act = "('s, io_error, 'a) step"

text \<open>The cancellation token: its answer to the \<open>n\<close>-th poll of the run.\<close>

definition poll :: "(nat \<Rightarrow> bool) \<Rightarrow> (replay, unit) act" where
  "poll cancel st =
     (let st' = st\<lparr>rp_polls := Suc (rp_polls st)\<rparr>
      in (if cancel (rp_polls st) then Inl Interrupted else Inr (), st'))"

section \<open>Reading\<close>

text \<open>Bytes of a span's origin. The segment read last stays open in \<open>rp_cached\<close>.\<close>

definition open_segment :: "disk \<Rightarrow> journal_record list \<Rightarrow> nat \<Rightarrow> (replay, byte list) act" where
  "open_segment disk records index st =
     (if index < length records then
        (case disk (bl_name (jr_segment (records ! index))) of
           Inl e \<Rightarrow> (Inl e, st)
         | Inr file \<Rightarrow> (Inr file, st\<lparr>rp_cached := Some (index, file)\<rparr>))
      else (Inl InvalidData, st))"

definition segment_handle :: "disk \<Rightarrow> journal_record list \<Rightarrow> nat \<Rightarrow> (replay, byte list) act" where
  "segment_handle disk records index st =
     (case rp_cached st of
        Some (i, file) \<Rightarrow>
          if i = index then (Inr file, st) else open_segment disk records index st
      | None \<Rightarrow> open_segment disk records index st)"

definition read_origin ::
  "disk \<Rightarrow> journal_record list \<Rightarrow> origin \<Rightarrow> nat \<Rightarrow> nat \<Rightarrow> (replay, byte list) act" where
  "read_origin disk records orig offset n st =
     (case orig of
        Baseline \<Rightarrow> (read_exact (rp_baseline st) offset n, st)
      | Segment index \<Rightarrow>
          act_bind (segment_handle disk records index) (\<lambda>file. act_lift (read_exact file offset n)) st)"

section \<open>Pieces of a range\<close>

type_synonym piece = "origin \<times> nat \<times> nat"

fun span_pieces :: "nat \<Rightarrow> nat \<Rightarrow> nat \<Rightarrow> span list \<Rightarrow> piece list" where
  "span_pieces offset stop at [] = []"
| "span_pieces offset stop at (s # ss) =
     (let span_end = at + s_len s in
      (if offset < span_end \<and> at < stop
       then let a = max offset at; b = min stop span_end
            in [(s_origin s, s_offset s + (a - at), b - a)]
       else []) @ span_pieces offset stop span_end ss)"

fun block_pieces :: "nat \<Rightarrow> nat \<Rightarrow> nat \<Rightarrow> block list \<Rightarrow> piece list" where
  "block_pieces offset stop start [] = []"
| "block_pieces offset stop start (b # bs) =
     (let block_end = start + b_len b in
      (if offset < block_end \<and> start < stop then span_pieces offset stop start (b_spans b) else []) @
      (if stop \<le> block_end then [] else block_pieces offset stop block_end bs))"

definition range_end :: "nat \<Rightarrow> nat \<Rightarrow> replay \<Rightarrow> nat io" where
  "range_end offset len st =
     (case checked_add offset len of
        None \<Rightarrow> Inl InvalidData
      | Some e \<Rightarrow> if e \<le> rp_len st then Inr e else Inl InvalidData)"

definition pieces :: "nat \<Rightarrow> nat \<Rightarrow> replay \<Rightarrow> piece list io" where
  "pieces offset len st =
     and_then (range_end offset len st) (\<lambda>e.
       let ps = block_pieces offset e 0 (rp_blocks st)
       in if sum_list (map (\<lambda>(_, _, n). n) ps) \<noteq> len then Inl InvalidData else Inr ps)"

section \<open>Comparing inverse bytes\<close>

definition count_read :: "nat \<Rightarrow> (replay, unit) act" where
  "count_read n st = (Inr (), st\<lparr>rp_read_bytes := rp_read_bytes st + n\<rparr>)"

lemma chunk_less:
  "finished < count \<Longrightarrow> count - (finished + min (count - finished) CHUNK) < count - finished"
  using CHUNK_pos by linarith

text \<open>One piece in chunks; \<open>position\<close> is where the piece starts in the segment.\<close>

function compare_chunks ::
  "(nat \<Rightarrow> bool) \<Rightarrow> disk \<Rightarrow> journal_record list \<Rightarrow> byte list \<Rightarrow> origin \<Rightarrow> nat \<Rightarrow> nat \<Rightarrow> nat \<Rightarrow> nat
     \<Rightarrow> (replay, unit) act" where
  "compare_chunks cancel disk records segment orig start count position finished st =
     (if finished < count then
        let n = min (count - finished) CHUNK in
        act_bind (poll cancel) (\<lambda>_.
        act_bind (read_origin disk records orig (start + finished) n) (\<lambda>actual.
        act_bind (act_lift (read_exact segment (position + finished) n)) (\<lambda>expected.
        act_bind (count_read (2 * n)) (\<lambda>_ st'.
          if actual \<noteq> expected then (Inl InvalidData, st')
          else compare_chunks cancel disk records segment orig start count position
                 (finished + n) st')))) st
      else (Inr (), st))"
  by pat_completeness auto
termination
  by (relation "measure (\<lambda>(_, _, _, _, _, _, count, _, finished, _). count - finished)")
    (auto intro: chunk_less)

declare compare_chunks.simps [simp del]

fun compare_pieces ::
  "(nat \<Rightarrow> bool) \<Rightarrow> disk \<Rightarrow> journal_record list \<Rightarrow> byte list \<Rightarrow> nat \<Rightarrow> piece list
     \<Rightarrow> (replay, unit) act" where
  "compare_pieces cancel disk records segment position [] st = (Inr (), st)"
| "compare_pieces cancel disk records segment position ((orig, start, count) # ps) st =
     act_bind (compare_chunks cancel disk records segment orig start count position 0)
       (\<lambda>_. compare_pieces cancel disk records segment (position + count) ps) st"

definition compare_range ::
  "(nat \<Rightarrow> bool) \<Rightarrow> disk \<Rightarrow> journal_record list \<Rightarrow> nat \<Rightarrow> nat \<Rightarrow> byte list \<Rightarrow> nat \<Rightarrow> (replay, unit) act" where
  "compare_range cancel disk records offset len segment position st =
     (if len = 0 then (Inr (), st)
      else act_bind (act_lift (pieces offset len st))
             (compare_pieces cancel disk records segment position) st)"

section \<open>Splicing\<close>

text \<open>Where an offset falls in a block: on a span boundary, inside a span, or nowhere.\<close>

datatype place = On_boundary nat | Inside nat span nat | Missing

fun find_span :: "nat \<Rightarrow> nat \<Rightarrow> nat \<Rightarrow> span list \<Rightarrow> place" where
  "find_span offset at position [] = Missing"
| "find_span offset at position (s # ss) =
     (if offset = at then On_boundary position
      else if offset < at + s_len s then Inside position s (offset - at)
      else find_span offset (at + s_len s) (Suc position) ss)"

fun find_block :: "nat \<Rightarrow> nat \<Rightarrow> nat \<Rightarrow> block list \<Rightarrow> (nat \<times> place) io" where
  "find_block offset start index [] =
     (if offset = start then Inr (index, On_boundary 0) else Inl InvalidData)"
| "find_block offset start index (b # bs) =
     (if offset < start + b_len b then Inr (index, find_span offset start 0 (b_spans b))
      else find_block offset (start + b_len b) (Suc index) bs)"

definition split_span :: "nat \<Rightarrow> span \<Rightarrow> nat \<Rightarrow> span list \<Rightarrow> span list" where
  "split_span position s head ss =
     take position ss @
     [s\<lparr>s_len := head\<rparr>, \<lparr>s_origin = s_origin s, s_offset = s_offset s + head, s_len = s_len s - head\<rparr>] @
     drop (Suc position) ss"

definition split_at :: "nat \<Rightarrow> (replay, nat \<times> nat) act" where
  "split_at offset st =
     (case find_block offset 0 0 (rp_blocks st) of
        Inl e \<Rightarrow> (Inl e, st)
      | Inr (index, On_boundary position) \<Rightarrow> (Inr (index, position), st)
      | Inr (index, Missing) \<Rightarrow> (Inl InvalidData, st)
      | Inr (index, Inside position s head) \<Rightarrow>
          if MAX_SPANS \<le> rp_spans st then (Inl OutOfMemory, st)
          else
            let b = rp_blocks st ! index;
                b' = b\<lparr>b_spans := split_span position s head (b_spans b)\<rparr>
            in (Inr (index, Suc position),
                st\<lparr>rp_blocks := (rp_blocks st)[index := b'], rp_spans := Suc (rp_spans st)\<rparr>))"

text \<open>The spans from \<open>(fb, fs)\<close> up to \<open>(lb, ls)\<close> leave the map; their count is returned.\<close>

definition drain_spans :: "nat \<Rightarrow> nat \<Rightarrow> nat \<Rightarrow> nat \<Rightarrow> block list \<Rightarrow> block list \<times> nat" where
  "drain_spans fb fs lb ls bs =
     (if fb = lb then
        (case drop fb bs of
           [] \<Rightarrow> (bs, 0)
         | b # rest \<Rightarrow>
             (take fb bs @ b\<lparr>b_spans := take fs (b_spans b) @ drop ls (b_spans b)\<rparr> # rest, ls - fs))
      else
        let first = bs ! fb;
            middle = sub (Suc fb) lb bs
        in (case drop lb bs of
              [] \<Rightarrow>
                (take fb bs @ first\<lparr>b_spans := take fs (b_spans first)\<rparr> #
                   map (\<lambda>b. b\<lparr>b_spans := []\<rparr>) middle,
                 (length (b_spans first) - fs) + sum_list (map (\<lambda>b. length (b_spans b)) middle))
            | b # rest \<Rightarrow>
                (take fb bs @ first\<lparr>b_spans := take fs (b_spans first)\<rparr> #
                   map (\<lambda>b. b\<lparr>b_spans := []\<rparr>) middle @ b\<lparr>b_spans := drop ls (b_spans b)\<rparr> # rest,
                 (length (b_spans first) - fs) + sum_list (map (\<lambda>b. length (b_spans b)) middle) + ls)))"

text \<open>Where the new span goes; text appended at the end joins the last block.\<close>

definition insert_target :: "nat \<Rightarrow> nat \<Rightarrow> block list \<Rightarrow> block list \<times> nat \<times> nat" where
  "insert_target target position bs =
     (if target = length bs then
        (if bs = [] then ([\<lparr>b_len = 0, b_spans = []\<rparr>], target, position)
         else (bs, target - 1, length (b_spans (last bs))))
      else (bs, target, position))"

definition insert_span :: "nat \<Rightarrow> nat \<Rightarrow> span \<Rightarrow> block list \<Rightarrow> block list" where
  "insert_span target position s bs =
     (let b = bs ! target
      in bs[target := b\<lparr>b_spans := take position (b_spans b) @ s # drop position (b_spans b)\<rparr>])"

definition span_total :: "span list \<Rightarrow> nat" where
  "span_total ss = sum_list (map s_len ss)"

definition retouch :: "nat \<Rightarrow> nat \<Rightarrow> block list \<Rightarrow> block list" where
  "retouch from to bs =
     take from bs @ map (\<lambda>b. b\<lparr>b_len := span_total (b_spans b)\<rparr>) (sub from to bs) @ drop to bs"

definition divide_block :: "nat \<Rightarrow> block list \<Rightarrow> block list" where
  "divide_block target bs =
     (if target < length bs \<and> 2 * BLOCK < length (b_spans (bs ! target)) then
        let b = bs ! target;
            tail = drop BLOCK (b_spans b)
        in take target bs @
           [\<lparr>b_len = b_len b - span_total tail, b_spans = take BLOCK (b_spans b)\<rparr>,
            \<lparr>b_len = span_total tail, b_spans = tail\<rparr>] @ drop (Suc target) bs
      else bs)"

text \<open>The end of a splice: lengths of the touched blocks, a block too long, emptied blocks.\<close>

definition settle :: "nat \<Rightarrow> nat \<Rightarrow> block list \<Rightarrow> block list" where
  "settle target lb bs =
     filter (\<lambda>b. b_spans b \<noteq> [])
       (divide_block target (retouch target (min (Suc lb) (length bs)) bs))"

definition splice_between ::
  "nat \<Rightarrow> nat \<Rightarrow> nat \<Rightarrow> nat \<Rightarrow> nat \<Rightarrow> span option \<Rightarrow> (replay, unit) act" where
  "splice_between fb fs lb ls removed ins st =
     (let (bs, dropped) = drain_spans fb fs lb ls (rp_blocks st);
          st' = st\<lparr>rp_blocks := bs, rp_spans := rp_spans st - dropped\<rparr>
      in case ins of
           None \<Rightarrow>
             (Inr (), st'\<lparr>rp_blocks := settle fb lb bs, rp_len := rp_len st - removed\<rparr>)
         | Some s \<Rightarrow>
             let (bs', target, position) = insert_target fb fs bs in
             if MAX_SPANS \<le> rp_spans st' then (Inl OutOfMemory, st'\<lparr>rp_blocks := bs'\<rparr>)
             else
               (Inr (), st'\<lparr>rp_blocks := settle target lb (insert_span target position s bs'),
                            rp_spans := Suc (rp_spans st'),
                            rp_len := rp_len st - removed + s_len s\<rparr>))"

definition splice :: "nat \<Rightarrow> nat \<Rightarrow> span option \<Rightarrow> (replay, unit) act" where
  "splice offset removed ins =
     act_bind (\<lambda>st. (range_end offset removed st, st)) (\<lambda>e.
     act_bind (split_at offset) (\<lambda>(fb, fs).
     act_bind (split_at e) (\<lambda>(lb, ls). splice_between fb fs lb ls removed ins)))"

section \<open>Records\<close>

type_synonym placed = "nat \<times> nat \<times> nat \<times> nat"

fun check_edits ::
  "(nat \<Rightarrow> bool) \<Rightarrow> disk \<Rightarrow> journal_record list \<Rightarrow> byte list \<Rightarrow> edit_ref list \<Rightarrow> nat \<Rightarrow> nat
     \<Rightarrow> placed list \<Rightarrow> (replay, placed list \<times> nat) act" where
  "check_edits cancel disk records segment [] position previous placed st = (Inr (placed, position), st)"
| "check_edits cancel disk records segment (r # rs) position previous placed st =
     act_bind (\<lambda>st. (range_end (ef_offset r) (ef_removed r) st, st)) (\<lambda>e.
       if ef_offset r < previous then act_lift (Inl InvalidData)
       else
         act_bind (compare_range cancel disk records (ef_offset r) (ef_removed r) segment position) (\<lambda>_.
         act_bind (act_lift (ok_or InvalidData (checked_add position (ef_removed r)))) (\<lambda>inserted_at.
         act_bind (act_lift (ok_or InvalidData (checked_add inserted_at (ef_inserted r)))) (\<lambda>position'.
           check_edits cancel disk records segment rs position' e
             (placed @ [(ef_offset r, ef_removed r, inserted_at, ef_inserted r)]))))) st"

fun splice_placed :: "(nat \<Rightarrow> bool) \<Rightarrow> nat \<Rightarrow> placed list \<Rightarrow> (replay, unit) act" where
  "splice_placed cancel index [] st = (Inr (), st)"
| "splice_placed cancel index ((offset, removed, inserted_at, inserted) # ps) st =
     act_bind (poll cancel) (\<lambda>_.
     act_bind (splice offset removed
       (if inserted \<noteq> 0
        then Some \<lparr>s_origin = Segment index, s_offset = inserted_at, s_len = inserted\<rparr> else None)) (\<lambda>_.
       splice_placed cancel index ps)) st"

definition apply_record ::
  "(nat \<Rightarrow> bool) \<Rightarrow> disk \<Rightarrow> journal_record list \<Rightarrow> nat \<Rightarrow> (replay, unit) act" where
  "apply_record cancel disk records index =
     (let record = records ! index in
      act_bind (act_lift (disk (bl_name (jr_segment record)))) (\<lambda>segment.
      act_bind (check_edits cancel disk records segment (jr_edits record) 0 0 []) (\<lambda>(placed, position).
        if position \<noteq> bl_len (jr_segment record) then act_lift (Inl InvalidData)
        else splice_placed cancel index (rev placed))))"

text \<open>\<open>build\<close>: mismatching data ends the valid prefix, any other failure is the caller's.\<close>

definition ends_prefix :: "io_error \<Rightarrow> bool" where
  "ends_prefix e = (e = InvalidData \<or> e = UnexpectedEof)"

fun build_from ::
  "(nat \<Rightarrow> bool) \<Rightarrow> disk \<Rightarrow> journal_record list \<Rightarrow> nat list \<Rightarrow> replay \<Rightarrow> (nat \<times> replay) io" where
  "build_from cancel disk records [] st = Inr (length records, st)"
| "build_from cancel disk records (index # rest) st =
     (case act_bind (poll cancel) (\<lambda>_ st'. (Inr st', st')) st of
        (Inl e, _) \<Rightarrow> Inl e
      | (Inr st1, _) \<Rightarrow>
          (case apply_record cancel disk records index st1 of
             (Inr _, st2) \<Rightarrow> build_from cancel disk records rest st2
           | (Inl e, st2) \<Rightarrow> if ends_prefix e then Inr (index, st2) else Inl e))"

definition replay_start :: "byte list \<Rightarrow> nat \<Rightarrow> replay" where
  "replay_start baseline len =
     \<lparr>rp_blocks =
        (if len \<noteq> 0
         then [\<lparr>b_len = len, b_spans = [\<lparr>s_origin = Baseline, s_offset = 0, s_len = len\<rparr>]\<rparr>]
         else []),
      rp_len = len, rp_baseline = baseline, rp_cached = None,
      rp_spans = (if len \<noteq> 0 then 1 else 0), rp_read_bytes = 0, rp_polls = 0\<rparr>"

definition build ::
  "(nat \<Rightarrow> bool) \<Rightarrow> disk \<Rightarrow> journal_record list \<Rightarrow> nat \<Rightarrow> (nat \<times> replay) io" where
  "build cancel disk records baseline_len =
     and_then (disk ''baseline.bin'') (\<lambda>baseline.
       if length baseline \<noteq> baseline_len then Inl InvalidData
       else build_from cancel disk records [0..<length records] (replay_start baseline baseline_len))"

section \<open>Writing the text\<close>

function write_chunks ::
  "(nat \<Rightarrow> bool) \<Rightarrow> disk \<Rightarrow> journal_record list \<Rightarrow> span \<Rightarrow> nat \<Rightarrow> byte list \<Rightarrow> (replay, byte list) act" where
  "write_chunks cancel disk records s finished out st =
     (if finished < s_len s then
        let n = min (s_len s - finished) CHUNK in
        act_bind (poll cancel) (\<lambda>_.
        act_bind (read_origin disk records (s_origin s) (s_offset s + finished) n) (\<lambda>bytes st'.
          write_chunks cancel disk records s (finished + n) (out @ bytes) st')) st
      else (Inr out, st))"
  by pat_completeness auto
termination
  by (relation "measure (\<lambda>(_, _, _, s, finished, _, _). s_len s - finished)")
    (auto intro: chunk_less)

declare write_chunks.simps [simp del]

fun write_spans ::
  "(nat \<Rightarrow> bool) \<Rightarrow> disk \<Rightarrow> journal_record list \<Rightarrow> span list \<Rightarrow> byte list \<Rightarrow> (replay, byte list) act" where
  "write_spans cancel disk records [] out st = (Inr out, st)"
| "write_spans cancel disk records (s # ss) out st =
     act_bind (write_chunks cancel disk records s 0 out)
       (write_spans cancel disk records ss) st"

definition write_to ::
  "(nat \<Rightarrow> bool) \<Rightarrow> disk \<Rightarrow> journal_record list \<Rightarrow> (replay, byte list) act" where
  "write_to cancel disk records st =
     (case write_spans cancel disk records (concat (map b_spans (rp_blocks st))) []
             (st\<lparr>rp_blocks := []\<rparr>) of
        (r, st') \<Rightarrow> (r, st'\<lparr>rp_blocks := rp_blocks st\<rparr>))"

end
