(* ===== verification/Replay_Map.thy ===== *)
theory Replay_Map
  imports Replay
begin

text \<open>
  The interval map of the replay as one list of spans: what locating, splitting and splicing do
  to that list, and the invariant of the block structure.
\<close>

section \<open>Abstraction and invariant\<close>

definition flat :: "block list \<Rightarrow> span list" where
  "flat bs = concat (map b_spans bs)"

definition span_text :: "(origin \<Rightarrow> byte list) \<Rightarrow> span \<Rightarrow> byte list" where
  "span_text src s = sub (s_offset s) (s_offset s + s_len s) (src (s_origin s))"

definition spans_text :: "(origin \<Rightarrow> byte list) \<Rightarrow> span list \<Rightarrow> byte list" where
  "spans_text src ss = concat (map (span_text src) ss)"

definition rp_text :: "(origin \<Rightarrow> byte list) \<Rightarrow> replay \<Rightarrow> byte list" where
  "rp_text src st = spans_text src (flat (rp_blocks st))"

definition span_ok :: "(origin \<Rightarrow> byte list) \<Rightarrow> span \<Rightarrow> bool" where
  "span_ok src s = (0 < s_len s \<and> s_offset s + s_len s \<le> length (src (s_origin s)))"

definition block_len_ok :: "block \<Rightarrow> bool" where
  "block_len_ok b = (b_len b = span_total (b_spans b))"

definition block_ok :: "block \<Rightarrow> bool" where
  "block_ok b =
     (block_len_ok b \<and> b_spans b \<noteq> [] \<and> length (b_spans b) \<le> 2 * BLOCK)"

definition map_ok :: "(origin \<Rightarrow> byte list) \<Rightarrow> replay \<Rightarrow> bool" where
  "map_ok src st =
     ((\<forall>b\<in>set (rp_blocks st). block_ok b) \<and>
      (\<forall>s\<in>set (flat (rp_blocks st)). span_ok src s) \<and>
      rp_len st = span_total (flat (rp_blocks st)) \<and>
      rp_spans st = length (flat (rp_blocks st)))"

abbreviation lens_pos :: "span list \<Rightarrow> bool" where
  "lens_pos ss \<equiv> \<forall>s\<in>set ss. 0 < s_len s"

lemma flat_simps [simp]:
  "flat [] = []"
  "flat (b # bs) = b_spans b @ flat bs"
  "flat (as @ bs) = flat as @ flat bs"
  by (simp_all add: flat_def)

lemma span_total_simps [simp]:
  "span_total [] = 0"
  "span_total (s # ss) = s_len s + span_total ss"
  "span_total (as @ bs) = span_total as + span_total bs"
  by (simp_all add: span_total_def)

lemma spans_text_simps [simp]:
  "spans_text src [] = []"
  "spans_text src (s # ss) = span_text src s @ spans_text src ss"
  "spans_text src (as @ bs) = spans_text src as @ spans_text src bs"
  by (simp_all add: spans_text_def)

lemma length_span_text: "span_ok src s \<Longrightarrow> length (span_text src s) = s_len s"
  by (simp add: span_ok_def span_text_def)

lemma length_spans_text:
  "\<forall>s\<in>set ss. span_ok src s \<Longrightarrow> length (spans_text src ss) = span_total ss"
  by (induction ss) (simp_all add: length_span_text)

lemma span_total_pos: "lens_pos ss \<Longrightarrow> ss \<noteq> [] \<Longrightarrow> 0 < span_total ss"
  by (cases ss) auto

lemma span_ok_lens_pos: "\<forall>s\<in>set ss. span_ok src s \<Longrightarrow> lens_pos ss"
  by (simp add: span_ok_def)

lemma length_rp_text: "map_ok src st \<Longrightarrow> length (rp_text src st) = rp_len st"
  by (simp add: map_ok_def rp_text_def length_spans_text)

section \<open>Locating an offset\<close>

lemma find_span_skip:
  "lens_pos sa \<Longrightarrow> at + span_total sa \<le> offset \<Longrightarrow>
     find_span offset at position (sa @ sb) =
     find_span offset (at + span_total sa) (position + length sa) sb"
  by (induction sa arbitrary: at position) (auto simp: add.assoc)

lemma find_block_skip:
  "\<forall>b\<in>set pre. block_len_ok b \<Longrightarrow> start + span_total (flat pre) \<le> offset \<Longrightarrow>
     find_block offset start index (pre @ bs) =
     find_block offset (start + span_total (flat pre)) (index + length pre) bs"
  by (induction pre arbitrary: start index) (auto simp: add.assoc block_len_ok_def)

lemma find_span_cases:
  assumes "at \<le> offset" "offset < at + span_total ss"
  obtains (boundary) sa sb where
      "ss = sa @ sb" "sb \<noteq> []" "offset = at + span_total sa"
      "find_span offset at position ss = On_boundary (position + length sa)"
    | (inside) sa s sb head where
      "ss = sa @ s # sb" "offset = at + span_total sa + head" "0 < head" "head < s_len s"
      "find_span offset at position ss = Inside (position + length sa) s head"
proof -
  from assms have "(\<exists>sa sb. ss = sa @ sb \<and> sb \<noteq> [] \<and> offset = at + span_total sa \<and>
      find_span offset at position ss = On_boundary (position + length sa)) \<or>
    (\<exists>sa s sb head. ss = sa @ s # sb \<and> offset = at + span_total sa + head \<and> 0 < head \<and> head < s_len s \<and>
      find_span offset at position ss = Inside (position + length sa) s head)"
  proof (induction ss arbitrary: at position)
    case Nil
    then show ?case by simp
  next
    case (Cons s ss)
    consider "offset = at" | "at < offset" "offset < at + s_len s" | "at + s_len s \<le> offset" "offset \<noteq> at"
      using Cons.prems by linarith
    then show ?case
    proof cases
      case 1
      then show ?thesis
        by (intro disjI1 exI [of _ "[]"] exI [of _ "s # ss"]) simp
    next
      case 2
      then show ?thesis
        by (intro disjI2 exI [of _ "[]"] exI [of _ s] exI [of _ ss] exI [of _ "offset - at"]) simp
    next
      case 3
      have "offset < at + s_len s + span_total ss"
        using Cons.prems by simp
      from Cons.IH [OF 3(1) this, of "Suc position"] show ?thesis
      proof (elim disjE exE conjE)
        fix sa sb
        assume "ss = sa @ sb" "sb \<noteq> []" "offset = at + s_len s + span_total sa"
          "find_span offset (at + s_len s) (Suc position) ss = On_boundary (Suc position + length sa)"
        with 3 show ?thesis
          by (intro disjI1 exI [of _ "s # sa"] exI [of _ sb]) simp
      next
        fix sa s' sb head
        assume "ss = sa @ s' # sb" "offset = at + s_len s + span_total sa + head" "0 < head"
          "head < s_len s'"
          "find_span offset (at + s_len s) (Suc position) ss = Inside (Suc position + length sa) s' head"
        with 3 show ?thesis
          by (intro disjI2 exI [of _ "s # sa"] exI [of _ s'] exI [of _ sb] exI [of _ head]) simp
      qed
    qed
  qed
  then show thesis
    using that by blast
qed

lemma find_block_cases:
  assumes "\<forall>b\<in>set bs. block_len_ok b" "start \<le> offset"
  obtains (past) "start + span_total (flat bs) < offset" "find_block offset start index bs = Inl InvalidData"
    | (at_end) "offset = start + span_total (flat bs)"
      "find_block offset start index bs = Inr (index + length bs, On_boundary 0)"
    | (within) pre b post where "bs = pre @ b # post" "start + span_total (flat pre) \<le> offset"
      "offset < start + span_total (flat pre) + span_total (b_spans b)"
      "find_block offset start index bs =
         Inr (index + length pre, find_span offset (start + span_total (flat pre)) 0 (b_spans b))"
proof -
  from assms have "(start + span_total (flat bs) < offset \<and> find_block offset start index bs = Inl InvalidData) \<or>
    (offset = start + span_total (flat bs) \<and>
      find_block offset start index bs = Inr (index + length bs, On_boundary 0)) \<or>
    (\<exists>pre b post. bs = pre @ b # post \<and> start + span_total (flat pre) \<le> offset \<and>
      offset < start + span_total (flat pre) + span_total (b_spans b) \<and>
      find_block offset start index bs =
        Inr (index + length pre, find_span offset (start + span_total (flat pre)) 0 (b_spans b)))"
  proof (induction bs arbitrary: start index)
    case Nil
    then show ?case by auto
  next
    case (Cons b bs)
    then have len: "b_len b = span_total (b_spans b)"
      by (simp add: block_len_ok_def)
    show ?case
    proof (cases "offset < start + b_len b")
      case True
      with Cons.prems len show ?thesis
        by (intro disjI2 exI [of _ "[]"] exI [of _ b] exI [of _ bs]) simp
    next
      case False
      then have "start + b_len b \<le> offset"
        by simp
      with Cons.IH [of "start + b_len b" "Suc index"] Cons.prems False len show ?thesis
        apply simp
        apply (elim disjE exE conjE)
        subgoal by simp
        subgoal by simp
        subgoal for pre b' post
          by (intro disjI2 exI [of _ "b # pre"] exI [of _ b'] exI [of _ post]) (simp add: add.assoc)
        done
    qed
  qed
  then show thesis
    using that by blast
qed

section \<open>Splitting\<close>

text \<open>What a split keeps: the text, the counts, and the blocks' lengths.\<close>

definition split_ok :: "(origin \<Rightarrow> byte list) \<Rightarrow> replay \<Rightarrow> bool" where
  "split_ok src st =
     ((\<forall>b\<in>set (rp_blocks st). block_len_ok b \<and> b_spans b \<noteq> []) \<and>
      (\<forall>s\<in>set (flat (rp_blocks st)). span_ok src s) \<and>
      rp_len st = span_total (flat (rp_blocks st)) \<and>
      rp_spans st = length (flat (rp_blocks st)))"

lemma map_ok_split_ok: "map_ok src st \<Longrightarrow> split_ok src st"
  by (auto simp: map_ok_def split_ok_def block_ok_def)

definition split_head :: "span \<Rightarrow> nat \<Rightarrow> span" where
  "split_head s head = s\<lparr>s_len := head\<rparr>"

definition split_tail :: "span \<Rightarrow> nat \<Rightarrow> span" where
  "split_tail s head = \<lparr>s_origin = s_origin s, s_offset = s_offset s + head, s_len = s_len s - head\<rparr>"

lemma split_span_append:
  "split_span (length sa) s head (sa @ s # sb) = sa @ split_head s head # split_tail s head # sb"
  by (simp add: split_span_def split_head_def split_tail_def)

lemma split_parts:
  assumes "span_ok src s" "0 < head" "head < s_len s"
  shows "span_ok src (split_head s head)" "span_ok src (split_tail s head)"
    and "span_text src (split_head s head) @ span_text src (split_tail s head) = span_text src s"
    and "s_len (split_head s head) = head" "s_len (split_tail s head) = s_len s - head"
  using assms by (simp_all add: split_head_def split_tail_def span_ok_def span_text_def sub_split)

text \<open>The spans \<open>ss\<close> cut in two at a boundary, with at most one span split for it.\<close>

definition cut :: "(origin \<Rightarrow> byte list) \<Rightarrow> span list \<Rightarrow> span list \<Rightarrow> span list \<Rightarrow> bool" where
  "cut src ss m t =
     (t \<noteq> [] \<and> spans_text src (m @ t) = spans_text src ss \<and> span_total (m @ t) = span_total ss \<and>
      (\<forall>s\<in>set (m @ t). span_ok src s) \<and>
      length ss \<le> length (m @ t) \<and> length (m @ t) \<le> length ss + (if m = [] then 0 else 1))"

lemma cutD:
  assumes "cut src ss m t"
  shows "t \<noteq> []" "spans_text src m @ spans_text src t = spans_text src ss"
    "span_total m + span_total t = span_total ss"
    "\<forall>s\<in>set m. span_ok src s" "\<forall>s\<in>set t. span_ok src s"
    "length ss \<le> length m + length t" "length m + length t \<le> Suc (length ss)"
    "m = [] \<Longrightarrow> length t \<le> length ss" "length t \<le> length ss"
  using assms by (cases m; auto simp: cut_def split: if_splits)+

lemma split_focus:
  assumes blocks: "rp_blocks st = pre @ b # post"
    and lens: "\<forall>b\<in>set pre. block_len_ok b" "block_len_ok b"
    and spans: "b_spans b = s1 @ s2" "\<forall>s\<in>set (s1 @ s2). span_ok src s"
    and bounds: "span_total (flat pre) + span_total s1 \<le> e"
      "e < span_total (flat pre) + span_total (b_spans b)"
  obtains (memory) "split_at e st = (Inl OutOfMemory, st)" "MAX_SPANS \<le> rp_spans st"
    | (split) m t where "cut src s2 m t" "e = span_total (flat pre) + span_total s1 + span_total m"
      "split_at e st = (Inr (length pre, length (s1 @ m)),
         st\<lparr>rp_blocks := pre @ b\<lparr>b_spans := s1 @ m @ t\<rparr> # post,
            rp_spans := rp_spans st + length (m @ t) - length s2\<rparr>)"
proof -
  let ?p = "span_total (flat pre)"
  have fb: "find_block e 0 0 (rp_blocks st) = Inr (length pre, find_span e ?p 0 (b_spans b))"
    using find_block_skip [of pre 0 e 0 "b # post"] lens bounds by (simp add: blocks block_len_ok_def)
  have fs: "find_span e ?p 0 (b_spans b) = find_span e (?p + span_total s1) (length s1) s2"
    using find_span_skip [of s1 ?p e 0 s2] spans bounds by (auto simp: span_ok_def)
  have lt: "e < ?p + span_total s1 + span_total s2"
    using bounds(2) spans(1) by simp
  from bounds(1) lt show thesis
  proof (cases rule: find_span_cases [where position = "length s1"])
    case (boundary sa sb)
    have "cut src s2 sa sb"
      using boundary spans by (simp add: cut_def)
    moreover have "split_at e st = (Inr (length pre, length (s1 @ sa)), st)"
      by (simp add: split_at_def fb fs boundary(4))
    moreover have "st = st\<lparr>rp_blocks := pre @ b\<lparr>b_spans := s1 @ sa @ sb\<rparr> # post,
            rp_spans := rp_spans st + length (sa @ sb) - length s2\<rparr>"
      using boundary blocks spans by (cases st) (auto simp: block.defs)
    ultimately show thesis
      using split [of sa sb] boundary by auto
  next
    case (inside sa s sb head)
    then have s: "span_ok src s" "0 < head" "head < s_len s"
      using spans by auto
    show thesis
    proof (cases "MAX_SPANS \<le> rp_spans st")
      case True
      then have "split_at e st = (Inl OutOfMemory, st)"
        by (simp add: split_at_def fb fs inside(5))
      with True memory show thesis
        by blast
    next
      case False
      let ?m = "sa @ [split_head s head]" and ?t = "split_tail s head # sb"
      have "cut src s2 ?m ?t"
        using inside spans split_parts [OF s] by (auto simp: cut_def)
      moreover have "split_span (length s1 + length sa) s head (b_spans b) = s1 @ ?m @ ?t"
        using split_span_append [of "s1 @ sa" s head sb] spans inside by simp
      then have "split_at e st = (Inr (length pre, length (s1 @ ?m)),
         st\<lparr>rp_blocks := pre @ b\<lparr>b_spans := s1 @ ?m @ ?t\<rparr> # post,
            rp_spans := rp_spans st + length (?m @ ?t) - length s2\<rparr>)"
        using False blocks
        by (simp add: split_at_def fb [unfolded blocks] fs inside(5) Let_def) (simp add: inside(1))
      ultimately show thesis
        using split [of ?m ?t] inside split_parts [OF s] by simp
    qed
  qed
qed

section \<open>Cutting a range out\<close>

text \<open>The first split, and the second one at or after it.\<close>

lemma first_split:
  assumes ok: "map_ok src st" and le: "off \<le> rp_len st"
  obtains (memory) "split_at off st = (Inl OutOfMemory, st)" "MAX_SPANS \<le> rp_spans st"
    | (at_end) "off = rp_len st" "split_at off st = (Inr (length (rp_blocks st), 0), st)"
    | (split) pre b post sa sb where "rp_blocks st = pre @ b # post" "cut src (b_spans b) sa sb"
      "off = span_total (flat pre) + span_total sa"
      "split_at off st = (Inr (length pre, length sa),
         st\<lparr>rp_blocks := pre @ b\<lparr>b_spans := sa @ sb\<rparr> # post,
            rp_spans := length (flat (pre @ b\<lparr>b_spans := sa @ sb\<rparr> # post))\<rparr>)"
proof -
  have lens: "\<forall>b\<in>set (rp_blocks st). block_len_ok b"
    using ok by (auto simp: map_ok_def block_ok_def)
  have total: "rp_len st = span_total (flat (rp_blocks st))"
    using ok by (simp add: map_ok_def)
  from lens le0 [of off] show thesis
  proof (cases rule: find_block_cases [where index = 0])
    case past
    with le total show thesis by simp
  next
    case at_end
    with that(2) total show thesis
      by (simp add: split_at_def)
  next
    case (within pre b post)
    have spans: "\<forall>s\<in>set ([] @ b_spans b). span_ok src s"
      using ok within(1) by (simp add: map_ok_def)
    have pre: "\<forall>b\<in>set pre. block_len_ok b" "block_len_ok b" "b_spans b = [] @ b_spans b"
      using lens within(1) by auto
    have "span_total (flat pre) + span_total [] \<le> off"
      "off < span_total (flat pre) + span_total (b_spans b)"
      using within by simp_all
    with within(1) pre spans show thesis
    proof (cases rule: split_focus [where ?s1.0 = "[]" and ?s2.0 = "b_spans b"])
      case memory
      then show thesis by (rule that(1))
    next
      case (split m t)
      have "rp_spans st + length (m @ t) - length (b_spans b) = length (flat (pre @ b\<lparr>b_spans := m @ t\<rparr> # post))"
        using ok within(1) by (simp add: map_ok_def)
      with split within(1) show thesis
        by (intro that(3) [of pre b post m t]) simp_all
    qed
  qed
qed

text \<open>
  The state after both splits and the drain: the spans \<open>sa @ sx\<close> stay in block \<open>x\<close>, \<open>M\<close> has
  gone, and only \<open>x\<close> and the blocks \<open>mid\<close> have a length to correct.
\<close>

definition cut_out ::
  "(origin \<Rightarrow> byte list) \<Rightarrow> replay \<Rightarrow> nat \<Rightarrow> nat \<Rightarrow> block list \<Rightarrow> block \<Rightarrow> block list \<Rightarrow> block list \<Rightarrow>
     span list \<Rightarrow> span list \<Rightarrow> span list \<Rightarrow> bool" where
  "cut_out src st off e pre x mid post sa M sx =
     (b_spans x = sa @ sx \<and>
      spans_text src (flat pre @ sa @ M @ sx @ flat mid @ flat post) = rp_text src st \<and>
      off = span_total (flat pre @ sa) \<and> e = off + span_total M \<and>
      span_total (flat pre @ sa @ M @ sx @ flat mid @ flat post) = rp_len st \<and>
      (\<forall>s\<in>set (flat pre @ sa @ M @ sx @ flat mid @ flat post). span_ok src s) \<and>
      (\<forall>b\<in>set pre \<union> set post. block_ok b) \<and>
      length (b_spans x) \<le> 2 * BLOCK + 1 \<and>
      (\<forall>b\<in>set mid. length (b_spans b) \<le> 2 * BLOCK))"

lemma flat_cleared [simp]: "flat (map (b_spans_update (\<lambda>_. [])) bs) = []"
  by (induction bs) simp_all

lemma length_flat: "length (flat bs) = sum_list (map (\<lambda>b. length (b_spans b)) bs)"
  by (induction bs) simp_all

lemma cut_out_within:
  assumes ok: "map_ok src st"
    and first: "rp_blocks st = pre @ b # mid @ c # post" "cut src (b_spans b) sa sb"
      "off = span_total (flat pre) + span_total sa"
    and second: "cut src (b_spans c) m t" "e = span_total (flat pre @ b_spans b @ flat mid) + span_total m"
  shows "cut_out src st off e pre (b\<lparr>b_spans := sa\<rparr>)
           (map (b_spans_update (\<lambda>_. [])) mid @ [c\<lparr>b_spans := t\<rparr>]) post sa (sb @ flat mid @ m) []"
  unfolding cut_out_def
  using ok first second cutD [OF first(2)] cutD [OF second(1)]
  by (auto simp: map_ok_def rp_text_def block_ok_def)

lemma cut_out_to_end:
  assumes ok: "map_ok src st"
    and first: "rp_blocks st = pre @ b # post" "cut src (b_spans b) sa sb"
      "off = span_total (flat pre) + span_total sa" "e = rp_len st"
  shows "cut_out src st off e pre (b\<lparr>b_spans := sa\<rparr>)
           (map (b_spans_update (\<lambda>_. [])) post) [] sa (sb @ flat post) []"
  unfolding cut_out_def
  using ok first cutD [OF first(2)]
  by (auto simp: map_ok_def rp_text_def block_ok_def)

lemma cut_out_same:
  assumes ok: "map_ok src st"
    and first: "rp_blocks st = pre @ b # post" "cut src (b_spans b) sa sb"
      "off = span_total (flat pre) + span_total sa"
    and second: "cut src sb m t" "e = off + span_total m"
  shows "cut_out src st off e pre (b\<lparr>b_spans := sa @ t\<rparr>) [] post sa m t"
  unfolding cut_out_def
  using ok first second cutD [OF first(2)] cutD [OF second(1)]
  by (auto simp: map_ok_def rp_text_def block_ok_def)

text \<open>The drained map and what its blocks and counters are, after both splits.\<close>

definition drained ::
  "(origin \<Rightarrow> byte list) \<Rightarrow> replay \<Rightarrow> nat \<Rightarrow> nat \<Rightarrow> replay \<Rightarrow> nat \<Rightarrow> nat \<Rightarrow> nat \<Rightarrow> nat \<Rightarrow> block list \<Rightarrow>
     block \<Rightarrow> block list \<Rightarrow> block list \<Rightarrow> span list \<Rightarrow> span list \<Rightarrow> span list \<Rightarrow> bool" where
  "drained src st off e st2 fb fs lb ls pre x mid post sa M sx =
     (cut_out src st off e pre x mid post sa M sx \<and>
      st2 = st\<lparr>rp_blocks := rp_blocks st2,
               rp_spans := length (flat pre @ sa @ M @ sx @ flat mid @ flat post)\<rparr> \<and>
      rp_spans st2 \<le> rp_spans st + 2 \<and>
      fb = length pre \<and> fs = length sa \<and>
      min (Suc lb) (length (pre @ x # mid @ post)) = Suc (length pre + length mid) \<and>
      drain_spans fb fs lb ls (rp_blocks st2) = (pre @ x # mid @ post, length M))"

lemma drain_later:
  "drain_spans (length pre) (length sa) (length (pre @ b # mid)) ls (pre @ b\<lparr>b_spans := sa @ sb\<rparr> # mid @ c # post) =
     (pre @ b\<lparr>b_spans := sa\<rparr> # map (b_spans_update (\<lambda>_. [])) mid @ c\<lparr>b_spans := drop ls (b_spans c)\<rparr> # post,
      length sb + length (flat mid) + ls)"
  by (simp add: drain_spans_def Let_def sub_def length_flat nth_append)

lemma drain_to_end:
  "drain_spans (length pre) (length sa) (length (pre @ b # post)) ls (pre @ b\<lparr>b_spans := sa @ sb\<rparr> # post) =
     (pre @ b\<lparr>b_spans := sa\<rparr> # map (b_spans_update (\<lambda>_. [])) post, length sb + length (flat post))"
  by (simp add: drain_spans_def Let_def sub_def length_flat nth_append)

lemma drain_same:
  "drain_spans (length pre) (length sa) (length pre) (length sa + length m) (pre @ b\<lparr>b_spans := sa @ m @ t\<rparr> # post) =
     (pre @ b\<lparr>b_spans := sa @ t\<rparr> # post, length m)"
  by (simp add: drain_spans_def)

lemma second_split:
  assumes ok: "map_ok src st" and le: "off \<le> e" "e \<le> rp_len st"
    and first: "rp_blocks st = pre @ b # post" "cut src (b_spans b) sa sb"
      "off = span_total (flat pre) + span_total sa"
    and st1: "st1 = st\<lparr>rp_blocks := pre @ b\<lparr>b_spans := sa @ sb\<rparr> # post,
      rp_spans := length (flat (pre @ b\<lparr>b_spans := sa @ sb\<rparr> # post))\<rparr>"
  obtains (memory) "split_at e st1 = (Inl OutOfMemory, st1)" "MAX_SPANS \<le> rp_spans st1"
    | (cut) lb ls st2 x mid post' M sx where "split_at e st1 = (Inr (lb, ls), st2)"
      "drained src st off e st2 (length pre) (length sa) lb ls pre x mid post' sa M sx"
proof -
  note c1 = cutD [OF first(2)]
  let ?b = "b\<lparr>b_spans := sa @ sb\<rparr>"
  have lens: "\<forall>b\<in>set pre. block_len_ok b" "block_len_ok ?b" "\<forall>b\<in>set post. block_len_ok b"
    using ok first(1) c1(3) by (auto simp: map_ok_def block_ok_def block_len_ok_def)
  have spans: "\<forall>s\<in>set (sa @ sb). span_ok src s" "\<forall>s\<in>set (flat post). span_ok src s"
    using ok first(1) c1(4,5) by (auto simp: map_ok_def)
  have total: "rp_len st = span_total (flat pre) + span_total (sa @ sb) + span_total (flat post)"
    and count: "rp_spans st = length (flat pre) + length (b_spans b) + length (flat post)"
    using ok first(1) c1(3) by (auto simp: map_ok_def)
  show thesis
  proof (cases "e < span_total (flat pre) + span_total (sa @ sb)")
    case True
    have blocks1: "rp_blocks st1 = pre @ ?b # post" "b_spans ?b = sa @ sb"
      by (simp_all add: st1)
    have "span_total (flat pre) + span_total sa \<le> e"
      "e < span_total (flat pre) + span_total (b_spans ?b)"
      using le(1) first(3) True by simp_all
    with blocks1(1) lens(1,2) blocks1(2) spans(1) show thesis
    proof (cases rule: split_focus)
      case memory
      then show thesis by (rule that(1))
    next
      case (split m t)
      note c2 = cutD [OF split(1)]
      let ?bs2 = "pre @ b\<lparr>b_spans := sa @ m @ t\<rparr> # post"
      have "cut_out src st off e pre (b\<lparr>b_spans := sa @ t\<rparr>) [] post sa m t"
        using cut_out_same [OF ok first split(1)] split(2) first(3) by simp
      moreover have "split_at e st1 = (Inr (length pre, length sa + length m),
          st\<lparr>rp_blocks := ?bs2, rp_spans := length (flat ?bs2)\<rparr>)"
        using split(3) c2(6) by (simp add: st1)
      moreover have "length (flat ?bs2) \<le> rp_spans st + 2"
        using count c1(7) c2(7) by simp
      ultimately show thesis
        by (intro that(2)) (auto simp: drained_def drain_same)
    qed
  next
    case False
    let ?p = "span_total (flat (pre @ [?b]))"
    have skip: "find_block e 0 0 (rp_blocks st1) = find_block e ?p (length (pre @ [?b])) post"
      using find_block_skip [of "pre @ [?b]" 0 e 0 post] lens False by (simp add: st1)
    from False have "?p \<le> e"
      by simp
    with lens(3) show thesis
    proof (cases rule: find_block_cases [where index = "length (pre @ [?b])"])
      case past
      with le(2) total show thesis by simp
    next
      case at_end
      from at_end(2) have "split_at e st1 = (Inr (length (pre @ b # post), 0), st1)"
        by (simp add: split_at_def skip)
      moreover have "e = rp_len st"
        using at_end(1) total by simp
      then have "cut_out src st off e pre (b\<lparr>b_spans := sa\<rparr>) (map (b_spans_update (\<lambda>_. [])) post) [] sa (sb @ flat post) []"
        by (rule cut_out_to_end [OF ok first])
      moreover have "length (flat (pre @ ?b # post)) \<le> rp_spans st + 2"
        using count c1(7) by simp
      ultimately show thesis
        by (intro that(2)) (auto simp: drained_def st1 drain_to_end [simplified])
    next
      case (within mid c post')
      have blocks1: "rp_blocks st1 = (pre @ ?b # mid) @ c # post'" "b_spans c = [] @ b_spans c"
        by (simp_all add: st1 within(1))
      have lens1: "\<forall>b\<in>set (pre @ ?b # mid). block_len_ok b" "block_len_ok c"
        and spans1: "\<forall>s\<in>set ([] @ b_spans c). span_ok src s"
        using lens spans within(1) by auto
      have "span_total (flat (pre @ ?b # mid)) + span_total [] \<le> e"
        "e < span_total (flat (pre @ ?b # mid)) + span_total (b_spans c)"
        using within(2,3) by simp_all
      with blocks1(1) lens1 blocks1(2) spans1 show thesis
      proof (cases rule: split_focus)
        case memory
        then show thesis by (rule that(1))
      next
        case (split m t)
        note c2 = cutD [OF split(1)]
        let ?bs2 = "pre @ ?b # mid @ c\<lparr>b_spans := m @ t\<rparr> # post'"
        have "rp_blocks st = pre @ b # mid @ c # post'"
          using first(1) within(1) by simp
        moreover have "e = span_total (flat pre @ b_spans b @ flat mid) + span_total m"
          using split(2) c1(3) by simp
        ultimately have "cut_out src st off e pre (b\<lparr>b_spans := sa\<rparr>)
           (map (b_spans_update (\<lambda>_. [])) mid @ [c\<lparr>b_spans := t\<rparr>]) post' sa (sb @ flat mid @ m) []"
          using cut_out_within [OF ok _ first(2,3) split(1)] by simp
        moreover have "split_at e st1 = (Inr (length (pre @ b # mid), length m),
            st\<lparr>rp_blocks := ?bs2, rp_spans := length (flat ?bs2)\<rparr>)"
          using split(3) c2(6) by (simp add: st1 within(1))
        moreover have "length (flat ?bs2) \<le> rp_spans st + 2"
          using count c1(7) c2(7) within(1) by simp
        ultimately show thesis
          by (intro that(2)) (auto simp: drained_def drain_later [simplified])
      qed
    qed
  qed
qed

section \<open>Splicing\<close>

text \<open>\<open>settle\<close> corrects the target and the touched blocks after it, and divides the target.\<close>

lemma retouch_parts:
  "retouch (length pre) (Suc (length pre + length mid)) (pre @ x # mid @ post) =
     pre @ map (\<lambda>b. b\<lparr>b_len := span_total (b_spans b)\<rparr>) (x # mid) @ post"
  by (simp add: retouch_def sub_def)

lemma divide_flat: "flat (divide_block target bs) = flat bs"
proof (cases "target < length bs \<and> 2 * BLOCK < length (b_spans (bs ! target))")
  case True
  then have "bs = take target bs @ bs ! target # drop (Suc target) bs"
    by (simp add: id_take_nth_drop)
  then have "flat bs = flat (take target bs) @ b_spans (bs ! target) @ flat (drop (Suc target) bs)"
    by (metis flat_simps(2,3))
  then show ?thesis
    using True by (simp add: divide_block_def Let_def flip: append_assoc)
next
  case False
  then show ?thesis
    by (simp only: divide_block_def if_False)
qed

lemma flat_filter_nonempty: "flat (filter (\<lambda>b. b_spans b \<noteq> []) bs) = flat bs"
  by (induction bs) auto

lemma settle_parts:
  assumes "min (Suc lb) (length (pre @ x # mid @ post)) = Suc (length pre + length mid)"
  shows "flat (settle (length pre) lb (pre @ x # mid @ post)) = flat (pre @ x # mid @ post)"
proof -
  have "flat (map (\<lambda>b. b\<lparr>b_len := span_total (b_spans b)\<rparr>) mid) = flat mid"
    by (induction mid) simp_all
  then show ?thesis
    unfolding settle_def assms by (simp add: flat_filter_nonempty divide_flat retouch_parts)
qed

lemma divide_sized:
  assumes "\<forall>b\<in>set pre \<union> set post. P b" "block_len_ok x" "length (b_spans x) \<le> 3 * BLOCK"
    and P: "\<And>b. P b \<longleftrightarrow> block_len_ok b \<and> length (b_spans b) \<le> 2 * BLOCK"
  shows "\<forall>b\<in>set (divide_block (length pre) (pre @ x # post)). P b"
proof (cases "2 * BLOCK < length (b_spans x)")
  case True
  let ?head = "take BLOCK (b_spans x)" and ?tail = "drop BLOCK (b_spans x)"
  have "span_total ?head = b_len x - span_total ?tail"
    using span_total_simps(3) [of ?head ?tail] assms(2) by (simp add: block_len_ok_def)
  then have "P \<lparr>b_len = b_len x - span_total ?tail, b_spans = ?head\<rparr>"
    "P \<lparr>b_len = span_total ?tail, b_spans = ?tail\<rparr>"
    using assms(3) by (simp_all add: P block_len_ok_def)
  moreover have "divide_block (length pre) (pre @ x # post) =
      pre @ [\<lparr>b_len = b_len x - span_total ?tail, b_spans = ?head\<rparr>,
             \<lparr>b_len = span_total ?tail, b_spans = ?tail\<rparr>] @ post"
    using True by (simp add: divide_block_def Let_def)
  ultimately show ?thesis
    using assms(1) by auto
next
  case False
  then have "divide_block (length pre) (pre @ x # post) = pre @ x # post" "P x"
    using assms(2) by (simp_all add: divide_block_def P)
  then show ?thesis
    using assms(1) by simp
qed

lemma settle_blocks:
  assumes "min (Suc lb) (length (pre @ x # mid @ post)) = Suc (length pre + length mid)"
    and "\<forall>b\<in>set pre \<union> set post. block_ok b" "length (b_spans x) \<le> 3 * BLOCK"
    and "\<forall>b\<in>set mid. length (b_spans b) \<le> 2 * BLOCK"
  shows "\<forall>b\<in>set (settle (length pre) lb (pre @ x # mid @ post)). block_ok b"
proof -
  let ?len = "\<lambda>b. b\<lparr>b_len := span_total (b_spans b)\<rparr>"
  let ?sized = "\<lambda>b. block_len_ok b \<and> length (b_spans b) \<le> 2 * BLOCK"
  have "\<forall>b\<in>set pre \<union> set (map ?len mid @ post). ?sized b"
    using assms(2,4) by (auto simp: block_ok_def block_len_ok_def)
  moreover have "block_len_ok (?len x)" "length (b_spans (?len x)) \<le> 3 * BLOCK"
    using assms(3) by (simp_all add: block_len_ok_def)
  ultimately have "\<forall>b\<in>set (divide_block (length pre) (pre @ ?len x # map ?len mid @ post)). ?sized b"
    by (rule divide_sized) simp
  then show ?thesis
    unfolding settle_def assms(1) by (simp add: retouch_parts block_ok_def)
qed

lemma insert_span_append:
  "b_spans x = sa @ sx \<Longrightarrow>
     insert_span (length pre) (length sa) s (pre @ x # bs) = pre @ x\<lparr>b_spans := sa @ s # sx\<rparr> # bs"
  by (simp add: insert_span_def)

text \<open>The result of a splice over the cut.\<close>

definition inserted_spans :: "span option \<Rightarrow> span list" where
  "inserted_spans ins = (case ins of None \<Rightarrow> [] | Some s \<Rightarrow> [s])"

definition spliced ::
  "(origin \<Rightarrow> byte list) \<Rightarrow> replay \<Rightarrow> nat \<Rightarrow> nat \<Rightarrow> span option \<Rightarrow> replay \<Rightarrow> bool" where
  "spliced src st offset removed ins st' =
     (map_ok src st' \<and>
      rp_text src st' =
        replace_range offset (offset + removed) (spans_text src (inserted_spans ins)) (rp_text src st) \<and>
      rp_spans st' \<le> rp_spans st + 3 \<and>
      st' = st\<lparr>rp_blocks := rp_blocks st', rp_len := rp_len st', rp_spans := rp_spans st'\<rparr>)"

lemma splice_between_drained:
  assumes d: "drained src st offset (offset + removed) st2 fb fs lb ls pre x mid post sa M sx"
    and ins: "\<forall>s\<in>set (inserted_spans ins). span_ok src s"
  obtains (memory) st' where "splice_between fb fs lb ls removed ins st2 = (Inl OutOfMemory, st')"
      "MAX_SPANS \<le> rp_spans st + 2"
    | (spliced) st' where "splice_between fb fs lb ls removed ins st2 = (Inr (), st')"
      "spliced src st offset removed ins st'"
proof -
  let ?rest = "pre @ x # mid @ post"
  let ?all = "flat pre @ sa @ M @ sx @ flat mid @ flat post"
  from d have x: "b_spans x = sa @ sx" and content: "spans_text src ?all = rp_text src st"
    and off: "offset = span_total (flat pre @ sa)" and M: "removed = span_total M"
    and total: "span_total ?all = rp_len st" and spans: "\<forall>s\<in>set ?all. span_ok src s"
    and blocks: "\<forall>b\<in>set pre \<union> set post. block_ok b" "length (b_spans x) \<le> 2 * BLOCK + 1"
      "\<forall>b\<in>set mid. length (b_spans b) \<le> 2 * BLOCK"
    and st2: "st2 = st\<lparr>rp_blocks := rp_blocks st2, rp_spans := length ?all\<rparr>"
    and le: "length ?all \<le> rp_spans st + 2"
    and pos: "fb = length pre" "fs = length sa"
    and touched: "min (Suc lb) (length ?rest) = Suc (length pre + length mid)"
    and drain: "drain_spans fb fs lb ls (rp_blocks st2) = (?rest, length M)"
    unfolding drained_def cut_out_def by (auto dest: arg_cong [where f = rp_spans])
  let ?st' = "\<lambda>bs n l. st\<lparr>rp_blocks := bs, rp_spans := n, rp_len := l\<rparr>"
  have content': "rp_text src st = spans_text src (flat pre @ sa) @ spans_text src M @
      spans_text src (sx @ flat mid @ flat post)"
    using content by simp
  have len: "length (spans_text src (flat pre @ sa)) = offset" "length (spans_text src M) = removed"
    using spans off M by (simp_all add: length_spans_text)
  have range: "replace_range offset (offset + removed) new (rp_text src st) =
      spans_text src (flat pre @ sa) @ new @ spans_text src (sx @ flat mid @ flat post)" for new
    unfolding content' by (simp add: replace_range_def flip: len)
  have n2: "rp_spans st2 = length ?all" "rp_len st2 = rp_len st"
    by (subst st2; simp)+
  show thesis
  proof (cases ins)
    case None
    let ?bs = "settle (length pre) lb ?rest"
    have "splice_between fb fs lb ls removed ins st2 =
        (Inr (), ?st' ?bs (length ?all - length M) (rp_len st - removed))"
      using None pos drain n2 by (simp add: splice_between_def Let_def) (subst st2, simp)
    moreover have "spliced src st offset removed ins (?st' ?bs (length ?all - length M) (rp_len st - removed))"
      using settle_parts [OF touched] settle_blocks [OF touched blocks(1) _ blocks(3)] blocks(2)
        spans x total M le None range [of "[]"]
      by (auto simp: spliced_def map_ok_def rp_text_def inserted_spans_def BLOCK_def)
    ultimately show thesis
      by (rule that(2))
  next
    case (Some s)
    have target: "insert_target fb fs ?rest = (?rest, length pre, length sa)"
      using pos by (simp add: insert_target_def)
    show thesis
    proof (cases "MAX_SPANS \<le> length ?all - length M")
      case True
      then show thesis
        using that(1) Some pos drain n2 target le by (simp add: splice_between_def Let_def)
    next
      case False
      let ?x = "x\<lparr>b_spans := sa @ s # sx\<rparr>"
      let ?bs = "settle (length pre) lb (pre @ ?x # mid @ post)"
      have touched': "min (Suc lb) (length (pre @ ?x # mid @ post)) = Suc (length pre + length mid)"
        using touched by simp
      have "splice_between fb fs lb ls removed ins st2 =
          (Inr (), ?st' ?bs (Suc (length ?all - length M)) (rp_len st - removed + s_len s))"
        using Some pos drain n2 target False x
        by (simp add: splice_between_def Let_def insert_span_append) (subst st2, simp)
      moreover have "spliced src st offset removed ins
          (?st' ?bs (Suc (length ?all - length M)) (rp_len st - removed + s_len s))"
        using settle_parts [OF touched'] settle_blocks [OF touched' blocks(1) _ blocks(3)] blocks(2)
          spans x total M le Some ins range [of "span_text src s"]
        by (auto simp: spliced_def map_ok_def rp_text_def inserted_spans_def BLOCK_def)
      ultimately show thesis
        by (rule that(2))
    qed
  qed
qed

lemma settle_none:
  assumes "\<forall>b\<in>set bs. block_ok b"
  shows "settle (length bs) (length bs) bs = bs"
  using assms by (simp add: settle_def retouch_def divide_block_def block_ok_def)

text \<open>A splice at the end of the map joins the last block, or makes the first one.\<close>

lemma splice_at_end:
  assumes ok: "map_ok src st" and ins: "\<forall>s\<in>set (inserted_spans ins). span_ok src s"
    and off: "offset = rp_len st"
  obtains (memory) st' where
      "splice_between (length (rp_blocks st)) 0 (length (rp_blocks st)) 0 0 ins st = (Inl OutOfMemory, st')"
      "MAX_SPANS \<le> rp_spans st + 2"
    | (spliced) st' where
      "splice_between (length (rp_blocks st)) 0 (length (rp_blocks st)) 0 0 ins st = (Inr (), st')"
      "spliced src st offset 0 ins st'"
proof -
  let ?bs = "rp_blocks st"
  let ?n = "length ?bs"
  have drain: "drain_spans ?n 0 ?n 0 ?bs = (?bs, 0)"
    by (simp add: drain_spans_def)
  have blocks: "\<forall>b\<in>set ?bs. block_ok b" and spans: "\<forall>s\<in>set (flat ?bs). span_ok src s"
    using ok by (simp_all add: map_ok_def)
  have range: "replace_range offset (offset + 0) new (rp_text src st) = rp_text src st @ new" for new
    using off length_rp_text [OF ok] by (simp add: replace_range_def)
  show thesis
  proof (cases ins)
    case None
    then have "splice_between ?n 0 ?n 0 0 ins st = (Inr (), st)"
      using drain settle_none [OF blocks] by (simp add: splice_between_def Let_def)
    moreover have "spliced src st offset 0 ins st"
      using ok None range [of "[]"] by (simp add: spliced_def inserted_spans_def)
    ultimately show thesis
      by (rule that(2))
  next
    case (Some s)
    obtain pre x where target: "insert_target ?n 0 ?bs = (pre @ [x], length pre, length (b_spans x))"
      and parts: "flat ?bs = flat pre @ b_spans x" "\<forall>b\<in>set pre. block_ok b"
        "length (b_spans x) \<le> 2 * BLOCK" "length pre \<le> ?n" "?n \<le> Suc (length pre)"
    proof (cases "?bs = []")
      case True
      then show thesis
        by (intro that [of "[]" "\<lparr>b_len = 0, b_spans = []\<rparr>"]) (simp_all add: insert_target_def)
    next
      case False
      then obtain pre x where "?bs = pre @ [x]"
        by (cases ?bs rule: rev_cases) auto
      with blocks show thesis
        by (intro that [of pre x]) (auto simp: insert_target_def block_ok_def)
    qed
    show thesis
    proof (cases "MAX_SPANS \<le> rp_spans st")
      case True
      then show thesis
        using that(1) Some drain target by (simp add: splice_between_def Let_def)
    next
      case False
      let ?x = "x\<lparr>b_spans := b_spans x @ [s]\<rparr>"
      let ?bs' = "settle (length pre) ?n (pre @ [?x])"
      have touched: "min (Suc ?n) (length (pre @ ?x # [] @ [])) = Suc (length pre + length ([] :: block list))"
        using parts(4) by simp
      let ?st' = "st\<lparr>rp_blocks := ?bs', rp_spans := Suc (rp_spans st), rp_len := rp_len st + s_len s\<rparr>"
      have "splice_between ?n 0 ?n 0 0 ins st = (Inr (), ?st')"
        using False Some drain target insert_span_append [of x "b_spans x" "[]" pre s "[]"]
        by (simp add: splice_between_def Let_def)
      moreover have "spliced src st offset 0 ins ?st'"
        using settle_parts [OF touched] settle_blocks [OF touched] ok parts Some ins
          range [of "span_text src s"]
        by (auto simp: spliced_def map_ok_def rp_text_def inserted_spans_def BLOCK_def)
      ultimately show thesis
        by (rule that(2))
    qed
  qed
qed

lemma splice_cases:
  assumes ok: "map_ok src st" and ins: "\<forall>s\<in>set (inserted_spans ins). span_ok src s"
    and le: "offset + removed \<le> rp_len st" "offset + removed \<le> usize_max"
  obtains (memory) st' where "splice offset removed ins st = (Inl OutOfMemory, st')"
      "MAX_SPANS \<le> rp_spans st + 2"
    | (spliced) st' where "splice offset removed ins st = (Inr (), st')"
      "spliced src st offset removed ins st'"
proof -
  have "range_end offset removed st = Inr (offset + removed)"
    using le by (simp add: range_end_def checked_add_def)
  then have splice: "splice offset removed ins st =
      act_bind (split_at offset) (\<lambda>(fb, fs). act_bind (split_at (offset + removed))
        (\<lambda>(lb, ls). splice_between fb fs lb ls removed ins)) st"
    by (simp add: splice_def act_bind_def)
  have "offset \<le> rp_len st"
    using le by simp
  with ok show thesis
  proof (cases rule: first_split)
    case memory
    then show thesis
      using that(1) by (simp add: splice act_bind_def)
  next
    case at_end
    then have "removed = 0"
      using le by simp
    have *: "splice offset removed ins st =
        splice_between (length (rp_blocks st)) 0 (length (rp_blocks st)) 0 0 ins st"
      unfolding splice using at_end(2) \<open>removed = 0\<close> by (simp add: act_bind_def)
    from ok ins at_end(1) show thesis
      by (cases rule: splice_at_end) (use * \<open>removed = 0\<close> that in auto)
  next
    case (split pre b post sa sb)
    let ?b = "b\<lparr>b_spans := sa @ sb\<rparr>"
    let ?st1 = "st\<lparr>rp_blocks := pre @ ?b # post, rp_spans := length (flat (pre @ ?b # post))\<rparr>"
    have spans1: "rp_spans ?st1 \<le> rp_spans st + 1"
      using ok split(1) cutD(7) [OF split(2)] by (simp add: map_ok_def)
    have "offset \<le> offset + removed"
      by simp
    from ok this le(1) split(1-3) refl show thesis
    proof (cases rule: second_split)
      case memory
      then have "splice offset removed ins st = (Inl OutOfMemory, ?st1)"
        using split(4) by (simp add: splice act_bind_def)
      with memory(2) spans1 show thesis
        by (intro that(1)) auto
    next
      case (cut lb ls st2 x mid post' M sx)
      then have *: "splice offset removed ins st =
          splice_between (length pre) (length sa) lb ls removed ins st2"
        using split(4) by (simp add: splice act_bind_def)
      from cut(2) ins show thesis
        by (cases rule: splice_between_drained) (use * that in auto)
    qed
  qed
qed

end
