(* ===== verification/Replay_Text.thy ===== *)
theory Replay_Text
  imports Replay_Map
begin

text \<open>
  The replay as validation of a journal against the meaning of its records: the comparison reads
  exactly the bytes the map stands for, a record is accepted when its edits fit the text, the map
  then describes the edited text, and writing it out gives that text.
\<close>

section \<open>Sources\<close>

definition sources :: "disk \<Rightarrow> journal_record list \<Rightarrow> byte list \<Rightarrow> origin \<Rightarrow> byte list" where
  "sources disk records baseline orig =
     (case orig of
        Baseline \<Rightarrow> baseline
      | Segment i \<Rightarrow>
          if i < length records then
            (case disk (bl_name (jr_segment (records ! i))) of Inr file \<Rightarrow> file | Inl _ \<Rightarrow> [])
          else [])"

text \<open>The open handles hold what the directory holds.\<close>

definition held :: "disk \<Rightarrow> journal_record list \<Rightarrow> byte list \<Rightarrow> replay \<Rightarrow> bool" where
  "held disk records baseline st =
     (rp_baseline st = baseline \<and>
      (case rp_cached st of
         None \<Rightarrow> True
       | Some (i, file) \<Rightarrow>
           i < length records \<and> disk (bl_name (jr_segment (records ! i))) = Inr file))"

text \<open>Reading changes the handles and the counters only, and reads at most \<open>k\<close> bytes twice.\<close>

definition kept :: "disk \<Rightarrow> journal_record list \<Rightarrow> byte list \<Rightarrow> nat \<Rightarrow> replay \<Rightarrow> replay \<Rightarrow> bool" where
  "kept disk records baseline k st st' =
     (held disk records baseline st' \<and>
      rp_blocks st' = rp_blocks st \<and> rp_len st' = rp_len st \<and> rp_spans st' = rp_spans st \<and>
      rp_read_bytes st' \<le> rp_read_bytes st + 2 * k)"

lemma kept_refl: "held disk records baseline st \<Longrightarrow> kept disk records baseline k st st"
  by (simp add: kept_def)

lemma kept_trans:
  "kept disk records baseline j st st' \<Longrightarrow> kept disk records baseline k st' st'' \<Longrightarrow> j + k \<le> n \<Longrightarrow>
     kept disk records baseline n st st''"
  by (simp add: kept_def)

lemma kept_mono:
  "kept disk records baseline j st st' \<Longrightarrow> j \<le> k \<Longrightarrow> kept disk records baseline k st st'"
  by (simp add: kept_def)

lemma kept_held: "kept disk records baseline k st st' \<Longrightarrow> held disk records baseline st'"
  by (simp add: kept_def)

lemma kept_map_ok: "kept disk records baseline k st st' \<Longrightarrow> map_ok src st' = map_ok src st"
  by (simp add: kept_def map_ok_def)

lemma kept_text: "kept disk records baseline k st st' \<Longrightarrow> rp_text src st' = rp_text src st"
  by (simp add: kept_def rp_text_def)

lemma kept_len:
  "kept disk records baseline k st st' \<Longrightarrow> rp_len st' = rp_len st \<and> rp_spans st' = rp_spans st"
  by (simp add: kept_def)

lemma kept_poll:
  "held disk records baseline st \<Longrightarrow> poll cancel st = (r, st') \<Longrightarrow> kept disk records baseline 0 st st'"
  by (auto simp: poll_def Let_def kept_def held_def)

lemma poll_result: "poll cancel st = (r, st') \<Longrightarrow> r = (if cancel (rp_polls st) then Inl Interrupted else Inr ())"
  by (auto simp: poll_def Let_def)

lemma count_read_result:
  "held disk records baseline st \<Longrightarrow> count_read (2 * n) st = (r, st') \<Longrightarrow>
     r = Inr () \<and> kept disk records baseline n st st'"
  by (auto simp: count_read_def kept_def held_def)

lemma read_origin_result:
  assumes "held disk (take m records) baseline st" "read_origin disk records orig offset n st = (r, st')"
    and "0 < n" "offset + n \<le> length (sources disk (take m records) baseline orig)"
  shows "r = Inr (sub offset (offset + n) (sources disk (take m records) baseline orig))"
    and "kept disk (take m records) baseline 0 st st'"
proof -
  show "r = Inr (sub offset (offset + n) (sources disk (take m records) baseline orig))"
    using assms
    by (auto simp: read_origin_def segment_handle_def open_segment_def sources_def held_def
        act_bind_def act_lift_def read_exact_def split: origin.splits option.splits sum.splits if_splits)
  show "kept disk (take m records) baseline 0 st st'"
    using assms
    by (auto simp: read_origin_def segment_handle_def open_segment_def sources_def held_def kept_def
        act_bind_def act_lift_def read_exact_def split: origin.splits option.splits sum.splits if_splits)
qed

section \<open>Pieces\<close>

fun piece_text :: "(origin \<Rightarrow> byte list) \<Rightarrow> piece \<Rightarrow> byte list" where
  "piece_text src (orig, start, n) = sub start (start + n) (src orig)"

fun piece_ok :: "(origin \<Rightarrow> byte list) \<Rightarrow> piece \<Rightarrow> bool" where
  "piece_ok src (orig, start, n) = (0 < n \<and> start + n \<le> length (src orig))"

definition pieces_text :: "(origin \<Rightarrow> byte list) \<Rightarrow> piece list \<Rightarrow> byte list" where
  "pieces_text src ps = concat (map (piece_text src) ps)"

lemma pieces_text_simps [simp]:
  "pieces_text src [] = []"
  "pieces_text src (p # ps) = piece_text src p @ pieces_text src ps"
  "pieces_text src (ps @ qs) = pieces_text src ps @ pieces_text src qs"
  by (simp_all add: pieces_text_def)

lemma sub_Nil [simp]: "sub s e [] = []"
  by (simp add: sub_def)

lemma sub_append: "sub s e (xs @ ys) = sub s e xs @ sub (s - length xs) (e - length xs) ys"
proof (cases "s \<le> length xs")
  case True
  then have "e - s - (length xs - s) = e - length xs"
    by simp
  with True show ?thesis
    by (simp add: sub_def)
next
  case False
  then show ?thesis
    by (simp add: sub_def)
qed

lemma length_pieces_text:
  "\<forall>p\<in>set ps. piece_ok src p \<Longrightarrow> length (pieces_text src ps) = sum_list (map (\<lambda>(_, _, n). n) ps)"
  by (induction ps) auto

lemma span_piece_text:
  assumes "span_ok src s"
  shows "sub (offset - at) (stop - at) (span_text src s) =
    (if offset < at + s_len s \<and> at < stop
     then let a = max offset at; b = min stop (at + s_len s)
          in sub (s_offset s + (a - at)) (s_offset s + (a - at) + (b - a)) (src (s_origin s))
     else [])"
proof (cases "offset < at + s_len s \<and> at < stop")
  case True
  let ?a = "max offset at" and ?b = "min stop (at + s_len s)"
  have "?a - at = offset - at"
    by simp
  moreover have "s_offset s + (offset - at) + (?b - ?a) = min (s_offset s + s_len s) (s_offset s + (stop - at))
      \<or> ?b \<le> ?a \<and> stop \<le> offset"
    using True by linarith
  ultimately show ?thesis
    using True by (auto simp: span_text_def sub_sub Let_def)
next
  case False
  then show ?thesis
    using length_span_text [OF assms] by (auto simp: sub_def)
qed

lemma span_pieces_text:
  "\<forall>s\<in>set ss. span_ok src s \<Longrightarrow> offset < stop \<Longrightarrow>
     pieces_text src (span_pieces offset stop at ss) = sub (offset - at) (stop - at) (spans_text src ss) \<and>
     (\<forall>p\<in>set (span_pieces offset stop at ss). piece_ok src p)"
proof (induction ss arbitrary: at)
  case Nil
  then show ?case by simp
next
  case (Cons s ss)
  then have s: "span_ok src s" and len: "length (span_text src s) = s_len s"
    by (simp_all add: length_span_text)
  have "offset - at - s_len s = offset - (at + s_len s)" "stop - at - s_len s = stop - (at + s_len s)"
    by simp_all
  with Cons.IH [of "at + s_len s"] Cons.prems s show ?case
    by (auto simp: Let_def sub_append len span_piece_text [OF s] span_ok_def)
qed

lemma block_pieces_text:
  "\<forall>b\<in>set bs. block_len_ok b \<Longrightarrow> \<forall>s\<in>set (flat bs). span_ok src s \<Longrightarrow> offset < stop \<Longrightarrow>
     pieces_text src (block_pieces offset stop start bs) =
       sub (offset - start) (stop - start) (spans_text src (flat bs)) \<and>
     (\<forall>p\<in>set (block_pieces offset stop start bs). piece_ok src p)"
proof (induction bs arbitrary: start)
  case Nil
  then show ?case by simp
next
  case (Cons b bs)
  let ?fin = "start + b_len b"
  have spans: "\<forall>s\<in>set (b_spans b). span_ok src s"
    using Cons.prems by simp
  have len: "length (spans_text src (b_spans b)) = b_len b"
    using length_spans_text [OF spans] Cons.prems(1) by (simp add: block_len_ok_def)
  have minus: "offset - start - b_len b = offset - ?fin" "stop - start - b_len b = stop - ?fin"
    by simp_all
  have none: "sub (offset - start) (stop - start) (spans_text src (b_spans b)) = []"
    if "\<not> (offset < ?fin \<and> start < stop)"
    using that len by (auto simp: sub_def)
  have rest: "sub (offset - ?fin) (stop - ?fin) (spans_text src (flat bs)) = []" if "stop \<le> ?fin"
    using that by simp
  show ?case
    using Cons.IH [of ?fin] Cons.prems span_pieces_text [OF spans Cons.prems(3), of start] none rest
    by (auto simp: Let_def sub_append len minus)
qed

lemma pieces_result:
  assumes ok: "map_ok src st" and le: "0 < len" "offset + len \<le> rp_len st" "offset + len \<le> usize_max"
  obtains ps where "pieces offset len st = Inr ps"
    "pieces_text src ps = sub offset (offset + len) (rp_text src st)" "\<forall>p\<in>set ps. piece_ok src p"
proof -
  let ?ps = "block_pieces offset (offset + len) 0 (rp_blocks st)"
  have "\<forall>b\<in>set (rp_blocks st). block_len_ok b" "\<forall>s\<in>set (flat (rp_blocks st)). span_ok src s"
    using ok by (auto simp: map_ok_def block_ok_def)
  from block_pieces_text [OF this, of offset "offset + len" 0]
  have ps: "pieces_text src ?ps = sub offset (offset + len) (rp_text src st)" "\<forall>p\<in>set ?ps. piece_ok src p"
    using le(1) by (simp_all add: rp_text_def)
  have "sum_list (map (\<lambda>(_, _, n). n) ?ps) = len"
    using length_pieces_text [OF ps(2)] le(2) length_rp_text [OF ok] by (simp add: ps(1))
  then have "pieces offset len st = Inr ?ps"
    using le by (simp add: pieces_def range_end_def checked_add_def Let_def)
  with ps that show thesis
    by blast
qed

section \<open>Comparing\<close>

text \<open>The bytes \<open>xs\<close> stand in the segment at a position.\<close>

definition match_at :: "byte list \<Rightarrow> byte list \<Rightarrow> nat \<Rightarrow> bool" where
  "match_at xs segment p = (sub p (p + length xs) segment = xs)"

lemma match_at_Nil [simp]: "match_at [] segment p"
  by (simp add: match_at_def)

lemma match_at_append:
  "match_at (xs @ ys) segment p \<longleftrightarrow> match_at xs segment p \<and> match_at ys segment (p + length xs)"
proof -
  have "sub p (p + length (xs @ ys)) segment =
      sub p (p + length xs) segment @ sub (p + length xs) (p + length xs + length ys) segment"
    by (simp add: sub_split add.assoc)
  moreover have "length (sub p (p + length xs) segment) = length xs \<or>
      sub (p + length xs) (p + length xs + length ys) segment = [] \<and>
      length (sub p (p + length xs) segment) < length xs"
    by (auto simp: length_sub sub_def)
  ultimately show ?thesis
    unfolding match_at_def by (auto simp: append_eq_append_conv)
qed

text \<open>A check's answer: success when \<open>P\<close> holds, an error that ends the prefix when it does not.\<close>

definition verdict :: "(nat \<Rightarrow> bool) \<Rightarrow> bool \<Rightarrow> 'a io \<Rightarrow> bool" where
  "verdict cancel P r =
     (case r of
        Inr _ \<Rightarrow> P
      | Inl e \<Rightarrow> e = Interrupted \<and> (\<exists>n. cancel n) \<or> ends_prefix e \<and> \<not> P)"

lemma verdict_simps [simp]:
  "verdict cancel P (Inr x) = P"
  "verdict cancel P (Inl Interrupted) = (\<exists>n. cancel n)"
  "verdict cancel P (Inl InvalidData) = (\<not> P)"
  "verdict cancel P (Inl UnexpectedEof) = (\<not> P)"
  by (auto simp: verdict_def ends_prefix_def)

lemma read_exact_match:
  assumes "0 < length xs"
  shows "match_at xs segment p \<longleftrightarrow> read_exact segment p (length xs) = Inr xs"
proof
  assume match: "match_at xs segment p"
  then have "length (sub p (p + length xs) segment) = length xs"
    by (simp add: match_at_def)
  then have "p + length xs \<le> length segment"
    using assms by (simp only: length_sub)
  with match show "read_exact segment p (length xs) = Inr xs"
    by (simp add: read_exact_def match_at_def)
next
  assume "read_exact segment p (length xs) = Inr xs"
  then show "match_at xs segment p"
    by (simp add: res_simps match_at_def)
qed

lemma compare_chunks_result:
  "compare_chunks cancel disk records segment orig start count position finished st = (r, st') \<Longrightarrow>
   held disk (take m records) baseline st \<Longrightarrow> finished \<le> count \<Longrightarrow>
   start + count \<le> length (sources disk (take m records) baseline orig) \<Longrightarrow>
     verdict cancel (match_at (sub (start + finished) (start + count) (sources disk (take m records) baseline orig))
       segment (position + finished)) r \<and>
     kept disk (take m records) baseline (count - finished) st st'"
proof (induction cancel disk records segment orig start count position finished st rule: compare_chunks.induct)
  case (1 cancel disk records segment orig start count position finished st)
  let ?src = "sources disk (take m records) baseline orig"
  let ?rest = "sub (start + finished) (start + count) ?src"
  note step = 1(2) [unfolded compare_chunks.simps [of cancel disk records segment orig start count position finished st]]
  show ?case
  proof (cases "finished < count")
    case False
    with step 1(3,4) show ?thesis
      by (auto simp: kept_refl)
  next
    case True
    let ?n = "min (count - finished) CHUNK"
    let ?mid = "start + finished + ?n"
    let ?now = "sub (start + finished) ?mid ?src"
    have n: "0 < ?n" "?mid \<le> start + count"
      using True CHUNK_pos by linarith+
    then have len: "length ?now = ?n" and split: "?rest = ?now @ sub ?mid (start + count) ?src"
      using 1(5) by (simp_all add: sub_split length_sub)
    obtain p st1 where poll: "poll cancel st = (p, st1)"
      by (cases "poll cancel st")
    note k1 = kept_poll [OF 1(3) poll]
    show ?thesis
    proof (cases p)
      case (Inl e)
      then have "r = Inl Interrupted" "\<exists>n. cancel n" "st' = st1"
        using step poll poll_result [OF poll] True by (auto simp: act_bind_def Let_def split: if_splits)
      with kept_mono [OF k1] show ?thesis
        by simp
    next
      case (Inr u)
      obtain a st2 where read: "read_origin disk records orig (start + finished) ?n st1 = (a, st2)"
        by (cases "read_origin disk records orig (start + finished) ?n st1")
      have "start + finished + ?n \<le> length ?src"
        using n(2) 1(5) by simp
      from read_origin_result [OF kept_held [OF k1] read n(1) this]
      have a: "a = Inr ?now" and k2: "kept disk (take m records) baseline 0 st1 st2"
        by simp_all
      have k12: "kept disk (take m records) baseline k st st2" for k
        using kept_trans [OF k1 k2] by simp
      show ?thesis
      proof (cases "read_exact segment (position + finished) ?n")
        case (Inl e)
        then have "e = UnexpectedEof"
          by (auto simp: read_exact_def split: if_splits)
        then have "r = Inl UnexpectedEof" "st' = st2"
          using step poll read a Inl \<open>p = Inr u\<close> True by (auto simp: act_bind_def act_lift_def Let_def)
        moreover have "\<not> match_at ?now segment (position + finished)"
          using read_exact_match [of ?now segment "position + finished"] Inl len n(1) by simp
        ultimately show ?thesis
          using k12 by (simp add: split match_at_append)
      next
        case (Inr expected)
        obtain c st3 where count: "count_read (2 * ?n) st2 = (c, st3)"
          by (cases "count_read (2 * ?n) st2")
        from count_read_result [OF kept_held [OF k2] this]
        have c: "c = Inr ()" and k3: "kept disk (take m records) baseline ?n st2 st3"
          by simp_all
        have k13: "kept disk (take m records) baseline k st st3" if "?n \<le> k" for k
          using kept_trans [OF k12 [of 0] k3] that by simp
        have now: "match_at ?now segment (position + finished) \<longleftrightarrow> ?now = expected"
          using read_exact_match [of ?now segment "position + finished"] Inr len n(1) by auto
        show ?thesis
        proof (cases "?now = expected")
          case False
          then have "r = Inl InvalidData" "st' = st3"
            using step poll read a Inr count c \<open>p = Inr u\<close> True
            by (auto simp: act_bind_def act_lift_def Let_def)
          then show ?thesis
            using k13 [of "count - finished"] False now by (simp add: split match_at_append)
        next
          case same: True
          have rec: "compare_chunks cancel disk records segment orig start count position (finished + ?n) st3 = (r, st')"
            using step poll read a Inr count c \<open>p = Inr u\<close> True same
            by (simp add: act_bind_def act_lift_def Let_def)
          have "verdict cancel (match_at (sub (start + (finished + ?n)) (start + count) ?src)
                segment (position + (finished + ?n))) r \<and>
              kept disk (take m records) baseline (count - (finished + ?n)) st3 st'"
          proof (rule 1(1) [OF True refl _ _ _ _ _ rec kept_held [OF k3] _ 1(5)])
            show "poll cancel st = (Inr u, st1)"
              using poll \<open>p = Inr u\<close> by simp
            show "read_origin disk records orig (start + finished) ?n st1 = (Inr ?now, st2)"
              using read a by simp
            show "act_lift (read_exact segment (position + finished) ?n) st2 = (Inr expected, st2)"
              using Inr by (simp add: act_lift_def)
            show "count_read (2 * ?n) st2 = (Inr (), st3)"
              using count c by simp
            show "\<not> ?now \<noteq> expected"
              using same by simp
            show "finished + ?n \<le> count"
              using True by simp
          qed
          then have v: "verdict cancel (match_at (sub ?mid (start + count) ?src) segment (position + finished + ?n)) r"
            and k: "kept disk (take m records) baseline (count - (finished + ?n)) st3 st'"
            by (simp_all add: add.assoc)
          have "match_at ?rest segment (position + finished) \<longleftrightarrow>
              match_at (sub ?mid (start + count) ?src) segment (position + finished + ?n)"
            using now same len by (simp add: split match_at_append)
          moreover have "kept disk (take m records) baseline (count - finished) st st'"
            using kept_trans [OF k13 [OF order_refl] k] True by simp
          ultimately show ?thesis
            using v by simp
        qed
      qed
    qed
  qed
qed

lemma compare_pieces_result:
  "compare_pieces cancel disk records segment position ps st = (r, st') \<Longrightarrow>
   held disk (take m records) baseline st \<Longrightarrow> \<forall>p\<in>set ps. piece_ok (sources disk (take m records) baseline) p \<Longrightarrow>
     verdict cancel (match_at (pieces_text (sources disk (take m records) baseline) ps) segment position) r \<and>
     kept disk (take m records) baseline (sum_list (map (\<lambda>(_, _, n). n) ps)) st st'"
proof (induction ps arbitrary: position st)
  case Nil
  then show ?case
    by (auto simp: kept_refl)
next
  case (Cons p ps)
  obtain orig start count where p: "p = (orig, start, count)"
    by (cases p)
  let ?src = "sources disk (take m records) baseline"
  obtain r1 st1 where first: "compare_chunks cancel disk records segment orig start count position 0 st = (r1, st1)"
    by (cases "compare_chunks cancel disk records segment orig start count position 0 st")
  have bounds: "start + count \<le> length (?src orig)"
    using Cons.prems(3) p by simp
  from compare_chunks_result [OF first Cons.prems(2) le0 this]
  have v: "verdict cancel (match_at (sub start (start + count) (?src orig)) segment position) r1"
    and k: "kept disk (take m records) baseline count st st1"
    by simp_all
  have split: "match_at (pieces_text ?src (p # ps)) segment position \<longleftrightarrow>
      match_at (sub start (start + count) (?src orig)) segment position \<and>
      match_at (pieces_text ?src ps) segment (position + count)"
    using bounds by (simp add: p match_at_append)
  show ?case
  proof (cases r1)
    case (Inl e)
    then have "r = Inl e" "st' = st1"
      using Cons.prems(1) first p by (simp_all add: act_bind_def)
    then show ?thesis
      using v kept_mono [OF k] Inl p
      unfolding split by (auto simp: verdict_def)
  next
    case (Inr u)
    then have "compare_pieces cancel disk records segment (position + count) ps st1 = (r, st')"
      using Cons.prems(1) first p by (simp add: act_bind_def)
    from Cons.IH [OF this kept_held [OF k]] Cons.prems(3)
    have "verdict cancel (match_at (pieces_text ?src ps) segment (position + count)) r"
      and k': "kept disk (take m records) baseline (sum_list (map (\<lambda>(_, _, n). n) ps)) st1 st'"
      by simp_all
    with v Inr kept_trans [OF k k'] show ?thesis
      unfolding split by (simp add: p)
  qed
qed

text \<open>Comparing a range: the removed bytes stand in the segment.\<close>

lemma compare_range_result:
  assumes run: "compare_range cancel disk records offset len segment position st = (r, st')"
    and ok: "map_ok (sources disk (take m records) baseline) st" "held disk (take m records) baseline st"
    and le: "offset + len \<le> rp_len st" "offset + len \<le> usize_max"
  shows "verdict cancel (match_at (sub offset (offset + len) (rp_text (sources disk (take m records) baseline) st))
           segment position) r"
    and "kept disk (take m records) baseline len st st'"
proof -
  let ?src = "sources disk (take m records) baseline"
  have "verdict cancel (match_at (sub offset (offset + len) (rp_text ?src st)) segment position) r \<and>
      kept disk (take m records) baseline len st st'"
  proof (cases "len = 0")
    case True
    with run ok(2) show ?thesis
      by (auto simp: compare_range_def kept_refl)
  next
    case False
    then have "0 < len"
      by simp
    from ok(1) this le obtain ps where ps: "pieces offset len st = Inr ps"
      "pieces_text ?src ps = sub offset (offset + len) (rp_text ?src st)" "\<forall>p\<in>set ps. piece_ok ?src p"
      by (rule pieces_result)
    have "compare_pieces cancel disk records segment position ps st = (r, st')"
      using run False ps(1) by (simp add: compare_range_def act_bind_def act_lift_def)
    from compare_pieces_result [OF this ok(2) ps(3)]
    have "verdict cancel (match_at (pieces_text ?src ps) segment position) r"
      "kept disk (take m records) baseline (sum_list (map (\<lambda>(_, _, n). n) ps)) st st'"
      by simp_all
    moreover have "sum_list (map (\<lambda>(_, _, n). n) ps) = len"
      using length_pieces_text [OF ps(3)] le(1) length_rp_text [OF ok(1)] by (simp add: ps(2))
    ultimately show ?thesis
      by (simp add: ps(2))
  qed
  then show "verdict cancel (match_at (sub offset (offset + len) (rp_text ?src st)) segment position) r"
    and "kept disk (take m records) baseline len st st'"
    by simp_all
qed

section \<open>Checking a record\<close>

text \<open>The check as a predicate on the text and the segment.\<close>

fun refs_fit :: "byte list \<Rightarrow> byte list \<Rightarrow> nat \<Rightarrow> nat \<Rightarrow> edit_ref list \<Rightarrow> bool" where
  "refs_fit t segment position previous [] = True"
| "refs_fit t segment position previous (r # rs) =
     (ef_offset r + ef_removed r \<le> length t \<and> ef_offset r + ef_removed r \<le> usize_max \<and>
      previous \<le> ef_offset r \<and>
      match_at (sub (ef_offset r) (ef_offset r + ef_removed r) t) segment position \<and>
      position + ef_removed r + ef_inserted r \<le> usize_max \<and>
      refs_fit t segment (position + ef_removed r + ef_inserted r) (ef_offset r + ef_removed r) rs)"

fun placed_of :: "nat \<Rightarrow> edit_ref list \<Rightarrow> placed list" where
  "placed_of position [] = []"
| "placed_of position (r # rs) =
     (ef_offset r, ef_removed r, position + ef_removed r, ef_inserted r) #
     placed_of (position + ef_removed r + ef_inserted r) rs"

definition removed_size :: "edit_ref list \<Rightarrow> nat" where
  "removed_size rs = sum_list (map ef_removed rs)"

lemma check_edits_result:
  "check_edits cancel disk records segment rs position previous placed st = (r, st') \<Longrightarrow>
   map_ok (sources disk (take m records) baseline) st \<Longrightarrow> held disk (take m records) baseline st \<Longrightarrow>
     verdict cancel (refs_fit (rp_text (sources disk (take m records) baseline) st) segment position previous rs) r \<and>
     kept disk (take m records) baseline (removed_size rs) st st' \<and>
     (\<forall>p. r = Inr p \<longrightarrow> p = (placed @ placed_of position rs, position + payload_size rs))"
proof (induction rs arbitrary: position previous placed st)
  case Nil
  then show ?case
    by (auto simp: kept_refl)
next
  case (Cons e rs)
  let ?src = "sources disk (take m records) baseline"
  let ?fin = "ef_offset e + ef_removed e"
  note step = Cons.prems(1) [unfolded check_edits.simps]
  have t: "length (rp_text ?src st) = rp_len st"
    by (rule length_rp_text [OF Cons.prems(2)])
  note k0 = kept_refl [OF Cons.prems(3)]
  show ?case
  proof (cases "?fin \<le> rp_len st \<and> ?fin \<le> usize_max \<and> previous \<le> ef_offset e")
    case False
    then have "r = Inl InvalidData" "st' = st"
      using step by (auto simp: act_bind_def act_lift_def range_end_def checked_add_def split: if_splits)
    with False t k0 show ?thesis
      by auto
  next
    case True
    obtain c st1 where compare: "compare_range cancel disk records (ef_offset e) (ef_removed e) segment position st = (c, st1)"
      by (cases "compare_range cancel disk records (ef_offset e) (ef_removed e) segment position st")
    from compare_range_result [OF this Cons.prems(2,3)] True
    have v: "verdict cancel (match_at (sub (ef_offset e) ?fin (rp_text ?src st)) segment position) c"
      and k: "kept disk (take m records) baseline (ef_removed e) st st1"
      by simp_all
    have k_le: "kept disk (take m records) baseline (removed_size (e # rs)) st st1"
      using kept_mono [OF k] by (simp add: removed_size_def)
    show ?thesis
    proof (cases c)
      case (Inl x)
      then have "r = Inl x" "st' = st1"
        using step compare True by (auto simp: act_bind_def range_end_def checked_add_def)
      with v Inl k_le show ?thesis
        by (auto simp: verdict_def)
    next
      case (Inr u)
      show ?thesis
      proof (cases "position + ef_removed e + ef_inserted e \<le> usize_max")
        case False
        then have "r = Inl InvalidData" "st' = st1"
          using step compare True Inr
          by (auto simp: act_bind_def act_lift_def range_end_def checked_add_def split: if_splits)
        with False k_le show ?thesis
          by simp
      next
        case fits: True
        then have "check_edits cancel disk records segment rs (position + ef_removed e + ef_inserted e) ?fin
            (placed @ [(ef_offset e, ef_removed e, position + ef_removed e, ef_inserted e)]) st1 = (r, st')"
          using step compare True Inr
          by (simp add: act_bind_def act_lift_def range_end_def checked_add_def)
        from Cons.IH [OF this] k Cons.prems(2) kept_held [OF k]
        have "verdict cancel (refs_fit (rp_text ?src st) segment (position + ef_removed e + ef_inserted e) ?fin rs) r"
          "kept disk (take m records) baseline (removed_size rs) st1 st'"
          "\<forall>p. r = Inr p \<longrightarrow> p = (placed @ placed_of position (e # rs), position + payload_size (e # rs))"
          by (simp_all add: kept_map_ok kept_text add.assoc)
        moreover from this(2) have "kept disk (take m records) baseline (removed_size (e # rs)) st st'"
          by (rule kept_trans [OF k]) (simp add: removed_size_def)
        ultimately show ?thesis
          using v Inr True fits t by simp
      qed
    qed
  qed
qed

text \<open>The predicate against the decoded edits.\<close>

lemma length_take_removed:
  "position + a \<le> length segment \<Longrightarrow> length (sub position (position + a) segment) = a"
  by (simp add: length_sub)

lemma fits_refs_fit:
  assumes "position + payload_size rs \<le> length segment" "length segment \<le> usize_max" "length t \<le> usize_max"
  shows "refs_fit t segment position previous rs \<longleftrightarrow> fits previous t (take_edits segment position rs)"
  using assms
proof (induction rs arbitrary: position previous)
  case Nil
  then show ?case by simp
next
  case (Cons r rs)
  have len: "length (sub position (position + ef_removed r) segment) = ef_removed r"
    using Cons.prems(1) by (intro length_take_removed) simp
  have "match_at (sub (ef_offset r) (ef_offset r + ef_removed r) t) segment position \<longleftrightarrow>
      sub (ef_offset r) (ef_offset r + ef_removed r) t = sub position (position + ef_removed r) segment"
    if "ef_offset r + ef_removed r \<le> length t"
    using that by (auto simp: match_at_def length_sub)
  with Cons.IH [of "position + ef_removed r + ef_inserted r" "ef_offset r + ef_removed r"] Cons.prems len show ?case
    by (auto simp: Let_def add.assoc)
qed

section \<open>Applying a record\<close>

definition record_edits :: "disk \<Rightarrow> journal_record \<Rightarrow> recovery_edit list" where
  "record_edits disk r =
     (case disk (bl_name (jr_segment r)) of
        Inl _ \<Rightarrow> []
      | Inr segment \<Rightarrow> take_edits segment 0 (jr_edits r))"

definition record_valid :: "disk \<Rightarrow> journal_record \<Rightarrow> byte list \<Rightarrow> bool" where
  "record_valid disk r t =
     (payload_size (jr_edits r) = bl_len (jr_segment r) \<and> fits 0 t (record_edits disk r))"

text \<open>The failures that say nothing about the journal.\<close>

definition no_verdict :: "(nat \<Rightarrow> bool) \<Rightarrow> nat \<Rightarrow> io_error \<Rightarrow> bool" where
  "no_verdict cancel n e =
     (e = Interrupted \<and> (\<exists>k. cancel k) \<or> e = OutOfMemory \<and> MAX_SPANS \<le> n)"

lemma no_verdict_mono: "no_verdict cancel m e \<Longrightarrow> m \<le> n \<Longrightarrow> no_verdict cancel n e"
  by (auto simp: no_verdict_def)

lemma no_verdict_not_ends: "no_verdict cancel n e \<Longrightarrow> \<not> ends_prefix e"
  by (auto simp: no_verdict_def ends_prefix_def)

text \<open>The map moved on by some edits: new text, the handles and the bytes read as they were.\<close>

definition advanced :: "(origin \<Rightarrow> byte list) \<Rightarrow> nat \<Rightarrow> byte list \<Rightarrow> replay \<Rightarrow> replay \<Rightarrow> bool" where
  "advanced src k t st st' =
     (map_ok src st' \<and> rp_text src st' = t \<and> rp_spans st' \<le> rp_spans st + k \<and>
      rp_baseline st' = rp_baseline st \<and> rp_cached st' = rp_cached st \<and>
      rp_read_bytes st' = rp_read_bytes st)"

lemma splice_placed_append:
  "splice_placed cancel index (ps @ qs) st =
     act_bind (splice_placed cancel index ps) (\<lambda>_. splice_placed cancel index qs) st"
proof (induction ps arbitrary: st)
  case Nil
  then show ?case by (simp add: act_bind_def)
next
  case (Cons p ps)
  then show ?case
    by (cases p) (simp add: act_bind_def split: prod.splits sum.splits)
qed

lemma splice_poll:
  assumes ok: "map_ok src st" and ins: "\<forall>s\<in>set (inserted_spans ins). span_ok src s"
    and le: "offset + removed \<le> rp_len st" "offset + removed \<le> usize_max"
    and run: "act_bind (poll cancel) (\<lambda>_. splice offset removed ins) st = (r, st')"
  shows "case r of
      Inl e \<Rightarrow> no_verdict cancel (rp_spans st + 3) e
    | Inr _ \<Rightarrow> advanced src 3
        (replace_range offset (offset + removed) (spans_text src (inserted_spans ins)) (rp_text src st)) st st'"
proof (cases "cancel (rp_polls st)")
  case True
  with run have "r = Inl Interrupted"
    by (simp add: poll_def act_bind_def)
  with True show ?thesis
    by (auto simp: no_verdict_def)
next
  case False
  let ?st = "st\<lparr>rp_polls := Suc (rp_polls st)\<rparr>"
  have run': "splice offset removed ins ?st = (r, st')"
    using False run by (simp add: poll_def act_bind_def)
  have ok': "map_ok src ?st" and le': "offset + removed \<le> rp_len ?st"
    using ok le by (simp_all add: map_ok_def)
  from ok' ins le' le(2) show ?thesis
  proof (cases rule: splice_cases)
    case (memory st'')
    with run' show ?thesis
      by (auto simp: no_verdict_def)
  next
    case (spliced st'')
    then have "st'' = st'" and r: "r = Inr ()"
      using run' by simp_all
    with spliced(2) have s: "spliced src ?st offset removed ins st'"
      by simp
    then have "rp_baseline st' = rp_baseline st" "rp_cached st' = rp_cached st"
      "rp_read_bytes st' = rp_read_bytes st"
      unfolding spliced_def by (metis (no_types, lifting) replay.select_convs replay.surjective replay.update_convs)+
    with s r show ?thesis
      by (auto simp: advanced_def spliced_def rp_text_def)
  qed
qed

lemma splice_placed_result:
  assumes "refs_fit (rp_text src st) segment position previous rs" "map_ok src st"
    and "src (Segment index) = segment" "position + payload_size rs \<le> length segment"
    and "length segment \<le> usize_max" "rp_len st \<le> usize_max"
    and "splice_placed cancel index (rev (placed_of position rs)) st = (r, st')"
  shows "case r of
      Inl e \<Rightarrow> no_verdict cancel (rp_spans st + 3 * length rs) e
    | Inr _ \<Rightarrow> advanced src (3 * length rs) (render (take_edits segment position rs) (rp_text src st)) st st'"
  using assms
proof (induction rs arbitrary: position previous r st')
  case Nil
  then show ?case
    by (auto simp: advanced_def)
next
  case (Cons e rs)
  let ?next = "position + ef_removed e + ef_inserted e"
  let ?fin = "ef_offset e + ef_removed e"
  let ?t = "rp_text src st"
  let ?es = "take_edits segment ?next rs"
  let ?ins = "if ef_inserted e \<noteq> 0
    then Some \<lparr>s_origin = Segment index, s_offset = position + ef_removed e, s_len = ef_inserted e\<rparr> else None"
  obtain r1 st1 where rest: "splice_placed cancel index (rev (placed_of ?next rs)) st = (r1, st1)"
    by (cases "splice_placed cancel index (rev (placed_of ?next rs)) st")
  have fit: "refs_fit ?t segment ?next ?fin rs" and bounds: "?fin \<le> length ?t" "?fin \<le> usize_max"
    using Cons.prems(1) by auto
  have le: "?next + payload_size rs \<le> length segment"
    using Cons.prems(4) by simp
  have IH: "case r1 of
      Inl e \<Rightarrow> no_verdict cancel (rp_spans st + 3 * length rs) e
    | Inr _ \<Rightarrow> advanced src (3 * length rs) (render ?es ?t) st st1"
    by (rule Cons.IH [OF fit Cons.prems(2,3) le Cons.prems(5,6) rest])
  have whole: "splice_placed cancel index (rev (placed_of position (e # rs))) st =
      act_bind (splice_placed cancel index (rev (placed_of ?next rs)))
        (\<lambda>_. splice_placed cancel index [(ef_offset e, ef_removed e, position + ef_removed e, ef_inserted e)]) st"
    by (simp only: placed_of.simps rev.simps splice_placed_append)
  show ?case
  proof (cases r1)
    case (Inl x)
    then have "r = Inl x"
      using Cons.prems(7) rest unfolding whole by (simp add: act_bind_def)
    with IH Inl show ?thesis
      by (auto intro: no_verdict_mono)
  next
    case (Inr u)
    with IH have adv: "advanced src (3 * length rs) (render ?es ?t) st st1"
      by simp
    then have ok1: "map_ok src st1" and t1: "rp_text src st1 = render ?es ?t"
      by (simp_all add: advanced_def)
    have "length ?t \<le> usize_max"
      using length_rp_text [OF Cons.prems(2)] Cons.prems(6) by simp
    with fits_refs_fit [OF le Cons.prems(5)] fit have fits: "fits ?fin ?t ?es"
      by simp
    have len1: "?fin \<le> rp_len st1"
      using take_render [OF fits bounds(1)] length_rp_text [OF ok1] by (simp add: t1)
    have "\<forall>s\<in>set (inserted_spans ?ins). span_ok src s"
      using Cons.prems(3,4) by (simp add: inserted_spans_def span_ok_def)
    moreover obtain r2 st2 where last: "act_bind (poll cancel) (\<lambda>_. splice (ef_offset e) (ef_removed e) ?ins) st1 = (r2, st2)"
      by (cases "act_bind (poll cancel) (\<lambda>_. splice (ef_offset e) (ef_removed e) ?ins) st1")
    ultimately have step: "case r2 of
        Inl e \<Rightarrow> no_verdict cancel (rp_spans st1 + 3) e
      | Inr _ \<Rightarrow> advanced src 3
          (replace_range (ef_offset e) ?fin (spans_text src (inserted_spans ?ins)) (rp_text src st1)) st1 st2"
      using splice_poll [OF ok1 _ len1 bounds(2)] by blast
    have out: "r = r2" "st' = st2"
      using Cons.prems(7) rest Inr last unfolding whole
      by (auto simp: act_bind_def split: prod.splits sum.splits)
    have spans: "rp_spans st1 \<le> rp_spans st + 3 * length rs"
      using adv by (simp add: advanced_def)
    show ?thesis
    proof (cases r2)
      case (Inl x)
      with step out spans show ?thesis
        by (auto intro: no_verdict_mono)
    next
      case (Inr v)
      have "spans_text src (inserted_spans ?ins) = sub (position + ef_removed e) ?next segment"
        using Cons.prems(3) by (simp add: inserted_spans_def span_text_def)
      moreover have "length (sub position (position + ef_removed e) segment) = ef_removed e"
        using Cons.prems(4) by (intro length_take_removed) simp
      ultimately have "render (take_edits segment position (e # rs)) ?t =
          replace_range (ef_offset e) ?fin (spans_text src (inserted_spans ?ins)) (rp_text src st1)"
        by (simp add: Let_def splice_text_def t1)
      with step out Inr spans adv show ?thesis
        by (simp add: advanced_def)
    qed
  qed
qed

lemma sources_grow:
  assumes "map_ok (sources disk (take i records) baseline) st"
  shows "map_ok (sources disk (take (Suc i) records) baseline) st"
    and "rp_text (sources disk (take (Suc i) records) baseline) st =
      rp_text (sources disk (take i records) baseline) st"
proof -
  let ?src = "sources disk (take i records) baseline"
  let ?src' = "sources disk (take (Suc i) records) baseline"
  have same: "?src' orig = ?src orig" if "?src orig \<noteq> []" for orig
    using that by (auto simp: sources_def split: origin.splits if_splits)
  have spans: "span_ok ?src' s \<and> span_text ?src' s = span_text ?src s" if "span_ok ?src s" for s
  proof -
    have "?src (s_origin s) \<noteq> []"
      using that by (auto simp: span_ok_def)
    from same [OF this] that show ?thesis
      by (simp add: span_ok_def span_text_def)
  qed
  with assms show "map_ok ?src' st"
    by (simp add: map_ok_def)
  have "\<forall>s\<in>set (flat (rp_blocks st)). span_ok ?src s"
    using assms by (simp add: map_ok_def)
  with spans show "rp_text ?src' st = rp_text ?src st"
    by (auto simp: rp_text_def spans_text_def intro!: arg_cong [where f = concat])
qed

lemma held_grow:
  "held disk (take i records) baseline st \<Longrightarrow> held disk (take (Suc i) records) baseline st"
  by (auto simp: held_def split: option.splits)

lemma apply_record_result:
  assumes run: "apply_record cancel disk records index st = (r, st')"
    and index: "index < length records" "disk (bl_name (jr_segment (records ! index))) = Inr segment"
    and len: "length segment = bl_len (jr_segment (records ! index))" "length segment \<le> usize_max"
    and ok: "map_ok (sources disk (take index records) baseline) st" "held disk (take index records) baseline st" "rp_len st \<le> usize_max"
  shows "case r of
      Inl e \<Rightarrow>
        no_verdict cancel (rp_spans st + 3 * length (jr_edits (records ! index))) e \<or>
        ends_prefix e \<and>
        \<not> record_valid disk (records ! index) (rp_text (sources disk (take index records) baseline) st) \<and>
        kept disk (take index records) baseline (removed_size (jr_edits (records ! index))) st st'
    | Inr _ \<Rightarrow>
        record_valid disk (records ! index) (rp_text (sources disk (take index records) baseline) st) \<and>
        map_ok (sources disk (take (Suc index) records) baseline) st' \<and>
        rp_text (sources disk (take (Suc index) records) baseline) st' =
          render (record_edits disk (records ! index)) (rp_text (sources disk (take index records) baseline) st) \<and>
        rp_spans st' \<le> rp_spans st + 3 * length (jr_edits (records ! index)) \<and>
        held disk (take (Suc index) records) baseline st' \<and>
        rp_read_bytes st' \<le> rp_read_bytes st + 2 * removed_size (jr_edits (records ! index))"
proof -
  let ?src = "sources disk (take index records) baseline"
  let ?rec = "records ! index"
  let ?rs = "jr_edits ?rec"
  let ?src' = "sources disk (take (Suc index) records) baseline"
  have source: "?src' (Segment index) = segment"
    using index by (simp add: sources_def)
  have edits: "record_edits disk ?rec = take_edits segment 0 ?rs"
    using index by (simp add: record_edits_def)
  have t: "length (rp_text ?src st) \<le> usize_max"
    using length_rp_text [OF ok(1)] ok(3) by simp
  obtain c st1 where check: "check_edits cancel disk records segment ?rs 0 0 [] st = (c, st1)"
    by (cases "check_edits cancel disk records segment ?rs 0 0 [] st")
  from check_edits_result [OF this ok(1,2)]
  have v: "verdict cancel (refs_fit (rp_text ?src st) segment 0 0 ?rs) c"
    and k: "kept disk (take index records) baseline (removed_size ?rs) st st1"
    and placed: "\<forall>p. c = Inr p \<longrightarrow> p = (placed_of 0 ?rs, payload_size ?rs)"
    by simp_all
  have valid: "record_valid disk ?rec (rp_text ?src st) \<longleftrightarrow>
      payload_size ?rs = length segment \<and> refs_fit (rp_text ?src st) segment 0 0 ?rs"
    using fits_refs_fit [of 0 ?rs segment "rp_text ?src st" 0] len t
    by (auto simp: record_valid_def edits)
  show ?thesis
  proof (cases c)
    case (Inl e)
    then have "r = Inl e" "st' = st1"
      using run check index by (auto simp: apply_record_def act_bind_def act_lift_def Let_def)
    with v Inl k valid show ?thesis
      by (auto simp: verdict_def no_verdict_def)
  next
    case (Inr p)
    then have p: "p = (placed_of 0 ?rs, payload_size ?rs)"
      and fit: "refs_fit (rp_text ?src st) segment 0 0 ?rs"
      using placed v by auto
    show ?thesis
    proof (cases "payload_size ?rs = length segment")
      case False
      then have "r = Inl InvalidData" "st' = st1"
        using run check index Inr p len(1) by (auto simp: apply_record_def act_bind_def act_lift_def Let_def)
      with False k valid show ?thesis
        by (simp add: ends_prefix_def)
    next
      case True
      then have "splice_placed cancel index (rev (placed_of 0 ?rs)) st1 = (r, st')"
        using run check index Inr p len(1) by (simp add: apply_record_def act_bind_def act_lift_def Let_def)
      moreover have ok1: "map_ok ?src st1" and "rp_len st1 \<le> usize_max"
        using k ok by (simp_all add: kept_map_ok kept_len)
      moreover have up: "map_ok ?src' st1" "rp_text ?src' st1 = rp_text ?src st"
        using sources_grow [OF ok1] k by (simp_all add: kept_text)
      moreover have "refs_fit (rp_text ?src' st1) segment 0 0 ?rs"
        using fit up(2) by simp
      ultimately have "case r of
          Inl e \<Rightarrow> no_verdict cancel (rp_spans st1 + 3 * length ?rs) e
        | Inr _ \<Rightarrow> advanced ?src' (3 * length ?rs) (render (take_edits segment 0 ?rs) (rp_text ?src' st1)) st1 st'"
        using splice_placed_result [of ?src' st1 segment 0 0 ?rs index cancel r st'] source True len(2)
        by simp
      moreover have "record_valid disk ?rec (rp_text ?src st)"
        using valid fit True by simp
      moreover have "held disk (take (Suc index) records) baseline st1"
        using kept_held [OF k] by (rule held_grow)
      ultimately show ?thesis
        using k by (cases r) (auto simp: edits up(2) advanced_def kept_def held_def)
    qed
  qed
qed

section \<open>The valid prefix\<close>

text \<open>The reference: records are applied as long as they fit the text.\<close>

fun valid_prefix :: "disk \<Rightarrow> journal_record list \<Rightarrow> byte list \<Rightarrow> nat \<times> byte list" where
  "valid_prefix disk [] t = (0, t)"
| "valid_prefix disk (r # rs) t =
     (if record_valid disk r t
      then (case valid_prefix disk rs (render (record_edits disk r) t) of (n, t') \<Rightarrow> (Suc n, t'))
      else (0, t))"

text \<open>What the scan has established before: sealed segments, and lengths that do not overflow.\<close>

definition sealed :: "disk \<Rightarrow> journal_record \<Rightarrow> bool" where
  "sealed disk r =
     (case disk (bl_name (jr_segment r)) of
        Inl _ \<Rightarrow> False
      | Inr segment \<Rightarrow> length segment = bl_len (jr_segment r) \<and> length segment \<le> usize_max)"

fun lens_ok :: "nat \<Rightarrow> journal_record list \<Rightarrow> bool" where
  "lens_ok n [] = (n \<le> usize_max)"
| "lens_ok n (r # rs) =
     (n \<le> usize_max \<and> (case edited_len n (jr_edits r) of Inl _ \<Rightarrow> False | Inr m \<Rightarrow> lens_ok m rs))"

definition edit_count :: "journal_record list \<Rightarrow> nat" where
  "edit_count rs = sum_list (map (\<lambda>r. length (jr_edits r)) rs)"

definition removed_total :: "journal_record list \<Rightarrow> nat" where
  "removed_total rs = sum_list (map (\<lambda>r. removed_size (jr_edits r)) rs)"

lemma valid_length:
  assumes "sealed disk r" "record_valid disk r t" "edited_len (length t) (jr_edits r) = Inr n"
  shows "length (render (record_edits disk r) t) = n"
proof -
  obtain segment where segment: "disk (bl_name (jr_segment r)) = Inr segment"
    "length segment = bl_len (jr_segment r)"
    using assms(1) by (auto simp: sealed_def split: sum.splits)
  then have "map edit_ref_of (record_edits disk r) = jr_edits r"
    using assms(2) by (simp add: record_edits_def record_valid_def map_ref_take_edits)
  with edited_len_render [of t "record_edits disk r" n] assms(2,3) show ?thesis
    by (simp add: record_valid_def)
qed

lemma lens_ok_le: "lens_ok n rs \<Longrightarrow> n \<le> usize_max"
  by (cases rs) simp_all

lemma build_from_result:
  assumes "drop i records = rs" "i \<le> length records" "\<forall>r\<in>set rs. sealed disk r"
    and "map_ok (sources disk (take i records) baseline) st" "held disk (take i records) baseline st" "lens_ok (rp_len st) rs"
    and "build_from cancel disk records [i..<length records] st = result"
  shows "case result of
      Inl e \<Rightarrow> no_verdict cancel (rp_spans st + 3 * edit_count rs) e
    | Inr (n, st') \<Rightarrow>
        valid_prefix disk rs (rp_text (sources disk (take i records) baseline) st) =
          (n - i, rp_text (sources disk (take n records) baseline) st') \<and> i \<le> n \<and> n \<le> length records \<and>
        map_ok (sources disk (take n records) baseline) st' \<and> held disk (take n records) baseline st' \<and>
        rp_read_bytes st' \<le> rp_read_bytes st + 2 * removed_total rs"
  using assms
proof (induction rs arbitrary: i st)
  case Nil
  then show ?case
    by auto
next
  case (Cons r rs)
  let ?src = "sources disk (take i records) baseline"
  let ?src' = "sources disk (take (Suc i) records) baseline"
  have i: "i < length records"
    using arg_cong [OF Cons.prems(1), of length] by simp
  then have r: "records ! i = r" and rest: "drop (Suc i) records = rs"
    using Cons_nth_drop_Suc [OF i] Cons.prems(1) by simp_all
  have "[i..<length records] = i # [Suc i..<length records]"
    using i by (rule upt_conv_Cons)
  note step = Cons.prems(7) [unfolded this build_from.simps poll_def act_bind_def Let_def]
  obtain segment where segment: "disk (bl_name (jr_segment (records ! i))) = Inr segment"
    "length segment = bl_len (jr_segment (records ! i))" "length segment \<le> usize_max"
    using Cons.prems(3) r by (auto simp: sealed_def split: sum.splits)
  show ?case
  proof (cases "cancel (rp_polls st)")
    case True
    then have "result = Inl Interrupted"
      using step by simp
    with True show ?thesis
      by (auto simp: no_verdict_def)
  next
    case False
    let ?st = "st\<lparr>rp_polls := Suc (rp_polls st)\<rparr>"
    have ok: "map_ok ?src ?st" "held disk (take i records) baseline ?st" "rp_len ?st \<le> usize_max"
      using Cons.prems(4,5,6) by (simp_all add: map_ok_def held_def)
    have same: "rp_text ?src ?st = rp_text ?src st"
      by (simp add: rp_text_def)
    obtain a st2 where applied: "apply_record cancel disk records i ?st = (a, st2)"
      by (cases "apply_record cancel disk records i ?st")
    note res = apply_record_result [OF applied i segment ok, unfolded r same]
    show ?thesis
    proof (cases a)
      case (Inl e)
      have result: "result = (if ends_prefix e then Inr (i, st2) else Inl e)"
        using step False applied Inl by simp
      show ?thesis
      proof (cases "ends_prefix e")
        case True
        with res Inl have invalid: "\<not> record_valid disk r (rp_text ?src st)"
          and k: "kept disk (take i records) baseline (removed_size (jr_edits r)) ?st st2"
          by (auto dest: no_verdict_not_ends)
        have "map_ok ?src st2" "held disk (take i records) baseline st2" "rp_text ?src st2 = rp_text ?src st"
          "rp_read_bytes st2 \<le> rp_read_bytes st + 2 * removed_total (r # rs)"
          using k ok same by (simp_all add: kept_map_ok kept_held kept_text) (simp add: kept_def removed_total_def)
        with True result invalid i show ?thesis
          by simp
      next
        case False
        with res Inl result show ?thesis
          by (auto simp: edit_count_def intro: no_verdict_mono)
      qed
    next
      case (Inr u)
      with res have valid: "record_valid disk r (rp_text ?src st)"
        and ok2: "map_ok ?src' st2" "held disk (take (Suc i) records) baseline st2"
        and t2: "rp_text ?src' st2 = render (record_edits disk r) (rp_text ?src st)"
        and spans: "rp_spans st2 \<le> rp_spans st + 3 * length (jr_edits r)"
        and reads: "rp_read_bytes st2 \<le> rp_read_bytes st + 2 * removed_size (jr_edits r)"
        by simp_all
      from Cons.prems(6) obtain m where m: "edited_len (rp_len st) (jr_edits r) = Inr m" "lens_ok m rs"
        by (auto split: sum.splits)
      have "rp_len st2 = m"
        using valid_length [of disk r "rp_text ?src st" m] Cons.prems(3) valid m(1)
          length_rp_text [OF Cons.prems(4)] length_rp_text [OF ok2(1)] t2 by simp
      with m have lens: "lens_ok (rp_len st2) rs"
        by simp
      have "build_from cancel disk records [Suc i..<length records] st2 = result"
        using step False applied Inr by simp
      from Cons.IH [OF rest _ _ ok2 lens this] i Cons.prems(3)
      have IH: "case result of
          Inl e \<Rightarrow> no_verdict cancel (rp_spans st2 + 3 * edit_count rs) e
        | Inr (n, st') \<Rightarrow>
            valid_prefix disk rs (rp_text ?src' st2) =
              (n - Suc i, rp_text (sources disk (take n records) baseline) st') \<and>
            Suc i \<le> n \<and> n \<le> length records \<and> map_ok (sources disk (take n records) baseline) st' \<and>
            held disk (take n records) baseline st' \<and>
            rp_read_bytes st' \<le> rp_read_bytes st2 + 2 * removed_total rs"
        by simp
      show ?thesis
      proof (cases result)
        case (Inl e)
        with IH spans show ?thesis
          by (auto simp: edit_count_def intro: no_verdict_mono)
      next
        case (Inr p)
        obtain n st' where p: "p = (n, st')"
          by (cases p)
        with IH Inr have prefix: "valid_prefix disk rs (rp_text ?src' st2) =
            (n - Suc i, rp_text (sources disk (take n records) baseline) st')"
          and le: "Suc i \<le> n" "n \<le> length records"
          and ok': "map_ok (sources disk (take n records) baseline) st'" "held disk (take n records) baseline st'"
          and reads': "rp_read_bytes st' \<le> rp_read_bytes st2 + 2 * removed_total rs"
          by simp_all
        have "valid_prefix disk (r # rs) (rp_text ?src st) =
            (n - i, rp_text (sources disk (take n records) baseline) st')"
          using prefix valid le(1) by (simp add: t2)
        moreover have "rp_read_bytes st' \<le> rp_read_bytes st + 2 * removed_total (r # rs)"
          using reads reads' by (simp add: removed_total_def)
        ultimately show ?thesis
          using le ok' by (simp add: Inr p)
      qed
    qed
  qed
qed

lemma map_ok_start:
  assumes "src Baseline = baseline"
  shows "map_ok src (replay_start baseline (length baseline))"
    and "rp_text src (replay_start baseline (length baseline)) = baseline"
    and "rp_spans (replay_start baseline (length baseline)) \<le> 1"
  using assms
  by (simp_all add: map_ok_def replay_start_def block_ok_def block_len_ok_def span_ok_def rp_text_def
      span_text_def BLOCK_def)

lemma build_result:
  assumes "disk ''baseline.bin'' = Inr baseline" "\<forall>r\<in>set records. sealed disk r"
    and "lens_ok (length baseline) records"
  shows "case build cancel disk records (length baseline) of
      Inl e \<Rightarrow> no_verdict cancel (1 + 3 * edit_count records) e
    | Inr (n, st) \<Rightarrow>
        valid_prefix disk records baseline = (n, rp_text (sources disk (take n records) baseline) st) \<and>
        n \<le> length records \<and> map_ok (sources disk (take n records) baseline) st \<and>
        held disk (take n records) baseline st \<and> rp_read_bytes st \<le> 2 * removed_total records"
proof -
  let ?src = "sources disk (take 0 records) baseline"
  let ?st = "replay_start baseline (length baseline)"
  have base: "?src Baseline = baseline"
    by (simp add: sources_def)
  note start = map_ok_start [of ?src, OF base]
  have "held disk (take 0 records) baseline ?st" "lens_ok (rp_len ?st) records"
    using assms(3) by (simp_all add: held_def replay_start_def)
  from build_from_result [OF _ _ assms(2) start(1) this refl, where cancel = cancel]
  have "case build_from cancel disk records [0..<length records] ?st of
      Inl e \<Rightarrow> no_verdict cancel (rp_spans ?st + 3 * edit_count records) e
    | Inr (n, st') \<Rightarrow>
        valid_prefix disk records (rp_text ?src ?st) = (n - 0, rp_text (sources disk (take n records) baseline) st') \<and> 0 \<le> n \<and>
        n \<le> length records \<and> map_ok (sources disk (take n records) baseline) st' \<and>
        held disk (take n records) baseline st' \<and>
        rp_read_bytes st' \<le> rp_read_bytes ?st + 2 * removed_total records"
    by simp
  moreover have "rp_read_bytes ?st = 0"
    by (simp add: replay_start_def)
  moreover have "build cancel disk records (length baseline) =
      build_from cancel disk records [0..<length records] ?st"
    using assms(1) by (simp add: build_def)
  ultimately show ?thesis
    using start(2,3) by (auto simp: split: sum.splits prod.splits intro: no_verdict_mono)
qed

section \<open>Writing the text out\<close>

lemma write_chunks_result:
  "write_chunks cancel disk records s finished out st = (r, st') \<Longrightarrow>
   held disk records baseline st \<Longrightarrow> finished \<le> s_len s \<Longrightarrow>
   span_ok (sources disk records baseline) s \<Longrightarrow>
     held disk records baseline st' \<and>
     (case r of
        Inl e \<Rightarrow> e = Interrupted \<and> (\<exists>n. cancel n)
      | Inr bytes \<Rightarrow> bytes = out @ drop finished (span_text (sources disk records baseline) s))"
proof (induction cancel disk records s finished out st rule: write_chunks.induct)
  case (1 cancel disk records s finished out st)
  let ?src = "sources disk records baseline"
  note step = 1(2) [unfolded write_chunks.simps [of cancel disk records s finished out st]]
  note len = length_span_text [OF 1(5)]
  show ?case
  proof (cases "finished < s_len s")
    case False
    with step 1(3,4) len show ?thesis
      by auto
  next
    case True
    let ?n = "min (s_len s - finished) CHUNK"
    have n: "0 < ?n" "finished + ?n \<le> s_len s"
      using True CHUNK_pos by linarith+
    obtain p st1 where poll: "poll cancel st = (p, st1)"
      by (cases "poll cancel st")
    note k1 = kept_poll [OF 1(3) poll]
    show ?thesis
    proof (cases p)
      case (Inl e)
      then have "r = Inl Interrupted" "\<exists>n. cancel n" "st' = st1"
        using step poll poll_result [OF poll] True by (auto simp: act_bind_def Let_def split: if_splits)
      with kept_held [OF k1] show ?thesis
        by simp
    next
      case (Inr u)
      obtain a st2 where read: "read_origin disk records (s_origin s) (s_offset s + finished) ?n st1 = (a, st2)"
        by (cases "read_origin disk records (s_origin s) (s_offset s + finished) ?n st1")
      have "s_offset s + finished + ?n \<le> length (?src (s_origin s))"
        using n(2) 1(5) by (simp add: span_ok_def)
      from read_origin_result [where m = "length records" and records = records, simplified, OF kept_held [OF k1] read n(1) this]
      have a: "a = Inr (sub (s_offset s + finished) (s_offset s + finished + ?n) (?src (s_origin s)))"
        and k2: "kept disk records baseline 0 st1 st2"
        by simp_all
      let ?bytes = "sub finished (finished + ?n) (span_text ?src s)"
      have bytes: "sub (s_offset s + finished) (s_offset s + finished + ?n) (?src (s_origin s)) = ?bytes"
        using n(2) by (simp add: span_text_def sub_sub add.assoc)
      have rec: "write_chunks cancel disk records s (finished + ?n) (out @ ?bytes) st2 = (r, st')"
        using step poll read a bytes Inr True by (simp add: act_bind_def Let_def)
      have p': "poll cancel st = (Inr u, st1)"
        "read_origin disk records (s_origin s) (s_offset s + finished) ?n st1 = (Inr ?bytes, st2)"
        using poll Inr read a bytes by simp_all
      have "?bytes @ drop (finished + ?n) (span_text ?src s) = drop finished (span_text ?src s)"
        by (metis append_take_drop_id diff_add_inverse drop_drop add.commute sub_def)
      with 1(1) [OF True refl p' rec kept_held [OF k2] n(2) 1(5)] show ?thesis
        by (auto split: sum.splits)
    qed
  qed
qed

lemma write_spans_result:
  "write_spans cancel disk records ss out st = (r, st') \<Longrightarrow>
   held disk records baseline st \<Longrightarrow> \<forall>s\<in>set ss. span_ok (sources disk records baseline) s \<Longrightarrow>
     (case r of
        Inl e \<Rightarrow> e = Interrupted \<and> (\<exists>n. cancel n)
      | Inr bytes \<Rightarrow> bytes = out @ spans_text (sources disk records baseline) ss)"
proof (induction ss arbitrary: out st)
  case Nil
  then show ?case
    by auto
next
  case (Cons s ss)
  obtain a st1 where chunk: "write_chunks cancel disk records s 0 out st = (a, st1)"
    by (cases "write_chunks cancel disk records s 0 out st")
  have "span_ok (sources disk records baseline) s"
    using Cons.prems(3) by simp
  from write_chunks_result [OF chunk Cons.prems(2) le0 this]
  have held: "held disk records baseline st1"
    and a: "case a of Inl e \<Rightarrow> e = Interrupted \<and> (\<exists>n. cancel n)
      | Inr bytes \<Rightarrow> bytes = out @ span_text (sources disk records baseline) s"
    by (simp_all cong: sum.case_cong)
  show ?case
  proof (cases a)
    case (Inl e)
    with a chunk Cons.prems(1) show ?thesis
      by (auto simp: act_bind_def)
  next
    case (Inr bytes)
    then have "write_spans cancel disk records ss bytes st1 = (r, st')"
      using chunk Cons.prems(1) by (simp add: act_bind_def)
    from Cons.IH [OF this held] Cons.prems(3) a Inr show ?thesis
      by (auto split: sum.splits)
  qed
qed

lemma write_to_result:
  assumes "map_ok (sources disk records baseline) st" "held disk records baseline st"
  shows "case fst (write_to cancel disk records st) of
      Inl e \<Rightarrow> e = Interrupted \<and> (\<exists>n. cancel n)
    | Inr bytes \<Rightarrow> bytes = rp_text (sources disk records baseline) st"
proof -
  let ?st = "st\<lparr>rp_blocks := []\<rparr>"
  obtain r st' where run: "write_spans cancel disk records (flat (rp_blocks st)) [] ?st = (r, st')"
    by (cases "write_spans cancel disk records (flat (rp_blocks st)) [] ?st")
  have "held disk records baseline ?st" "\<forall>s\<in>set (flat (rp_blocks st)). span_ok (sources disk records baseline) s"
    using assms by (simp_all add: held_def map_ok_def)
  from write_spans_result [OF run this] run show ?thesis
    by (cases r) (simp_all add: write_to_def rp_text_def flat_def)
qed

end
