(* ===== verification/Replay_Properties.thy ===== *)
theory Replay_Properties
  imports Replay_Text
begin

text \<open>The properties of the journal's validation, over the model of Replay.\<close>

section \<open>A sample journal\<close>

definition sample_base :: "byte list" where
  "sample_base = [97, 98, 99]"

text \<open>One record that fits the baseline, and one whose inverse bytes it does not hold.\<close>

definition sample_disk :: disk where
  "sample_disk name =
     (if name = ''baseline.bin'' then Inr sample_base
      else if name = ''segment-1.bin'' then Inr [98, 120, 121]
      else if name = ''segment-2.bin'' then Inr [98, 122]
      else Inl NotFound)"

definition sample_record :: "nat \<Rightarrow> string \<Rightarrow> nat \<Rightarrow> edit_ref list \<Rightarrow> journal_record" where
  "sample_record revision name len edits =
     \<lparr>jr_version = 2, jr_metadata = None, jr_receipt = \<lparr>dr_revision = revision, dr_ms = 0\<rparr>,
      jr_segment = \<lparr>bl_name = name, bl_len = len, bl_sha = []\<rparr>, jr_edits = edits\<rparr>"

definition sample_records :: "journal_record list" where
  "sample_records =
     [sample_record 1 ''segment-1.bin'' 3 [\<lparr>ef_offset = 1, ef_removed = 1, ef_inserted = 2\<rparr>],
      sample_record 2 ''segment-2.bin'' 2 [\<lparr>ef_offset = 0, ef_removed = 1, ef_inserted = 1\<rparr>]]"

lemma sample_sealed: "\<forall>r\<in>set sample_records. sealed sample_disk r"
  by (simp add: sample_records_def sample_record_def sealed_def sample_disk_def usize_max_def)

lemma sample_lens: "lens_ok 3 sample_records"
  by (simp add: sample_records_def sample_record_def edited_len_def checked_add_def checked_sub_def
      usize_max_def)

lemma sample_base_file: "sample_disk ''baseline.bin'' = Inr sample_base"
  by (simp add: sample_disk_def)

lemma sample_length: "length sample_base = 3"
  by (simp add: sample_base_def)

lemma sample_prefix: "valid_prefix sample_disk sample_records sample_base = (1, [97, 120, 121, 99])"
  by (simp add: sample_records_def sample_record_def record_valid_def record_edits_def sample_disk_def
      sample_base_def sub_def splice_text_def replace_range_def Let_def)

section \<open>Properties\<close>

text \<open>C7: validation decides exactly the longest prefix of records that fit: over sealed segments
  whose lengths have been checked, the number of records it reports is the number that apply one
  after the other to the baseline, and its map describes the text they lead to.
\<close>

theorem replay_valid_prefix:
  assumes "disk ''baseline.bin'' = Inr baseline" "\<forall>r\<in>set records. sealed disk r"
    and "lens_ok (length baseline) records"
    and "build cancel disk records (length baseline) = Inr (n, st)"
  shows "valid_prefix disk records baseline = (n, rp_text (sources disk (take n records) baseline) st)"
  using build_result [OF assms(1-3), of cancel] assms(4) by simp

theorem replay_valid_prefix_witness:
  "\<exists>st. build (\<lambda>_. False) sample_disk sample_records 3 = Inr (1, st) \<and>
     rp_text (sources sample_disk (take 1 sample_records) sample_base) st = [97, 120, 121, 99]"
proof (cases "build (\<lambda>_. False) sample_disk sample_records 3")
  case (Inl e)
  with build_result [OF sample_base_file sample_sealed, of "\<lambda>_. False"] sample_lens sample_length show ?thesis
    by (simp add: no_verdict_def MAX_SPANS_def edit_count_def sample_records_def sample_record_def)
next
  case (Inr p)
  obtain n st where "p = (n, st)"
    by (cases p)
  with Inr have "build (\<lambda>_. False) sample_disk sample_records 3 = Inr (n, st)"
    by simp
  moreover from this have "valid_prefix sample_disk sample_records sample_base =
      (n, rp_text (sources sample_disk (take n sample_records) sample_base) st)"
    using replay_valid_prefix [OF sample_base_file sample_sealed, of "\<lambda>_. False" n st]
      sample_lens sample_length by simp
  ultimately show ?thesis
    by (simp add: sample_prefix)
qed

text \<open>Recovery writes out the text of the valid prefix and nothing else: after a validation, an
  uncancelled write over the accepted records streams exactly the bytes they lead to.
\<close>

theorem replay_writes_valid_text:
  assumes "disk ''baseline.bin'' = Inr baseline" "\<forall>r\<in>set records. sealed disk r"
    and "lens_ok (length baseline) records"
    and "build cancel disk records (length baseline) = Inr (n, st)" "\<forall>k. \<not> cancel' k"
  shows "fst (write_to cancel' disk (take n records) st) = Inr (snd (valid_prefix disk records baseline))"
proof -
  have "map_ok (sources disk (take n records) baseline) st" "held disk (take n records) baseline st"
    and prefix: "valid_prefix disk records baseline = (n, rp_text (sources disk (take n records) baseline) st)"
    using build_result [OF assms(1-3), of cancel] assms(4) by simp_all
  from write_to_result [OF this(1,2), of cancel'] assms(5) show ?thesis
    by (cases "fst (write_to cancel' disk (take n records) st)") (auto simp: prefix)
qed

lemma sample_build: "\<exists>n st. build (\<lambda>_. False) sample_disk sample_records (length sample_base) = Inr (n, st)"
proof (cases "build (\<lambda>_. False) sample_disk sample_records (length sample_base)")
  case (Inl e)
  with build_result [OF sample_base_file sample_sealed, of "\<lambda>_. False"] sample_lens sample_length show ?thesis
    by (simp add: no_verdict_def MAX_SPANS_def edit_count_def sample_records_def sample_record_def)
next
  case (Inr p)
  then show ?thesis
    by (cases p) simp
qed

theorem replay_writes_valid_text_witness:
  "\<exists>n st. build (\<lambda>_. False) sample_disk sample_records 3 = Inr (n, st) \<and>
     fst (write_to (\<lambda>_. False) sample_disk (take n sample_records) st) = Inr [97, 120, 121, 99]"
proof -
  obtain n st where st: "build (\<lambda>_. False) sample_disk sample_records (length sample_base) = Inr (n, st)"
    using sample_build by blast
  moreover have "fst (write_to (\<lambda>_. False) sample_disk (take n sample_records) st) = Inr [97, 120, 121, 99]"
    using replay_writes_valid_text [OF sample_base_file sample_sealed _ st, of "\<lambda>_. False"]
      sample_lens sample_length by (simp add: sample_prefix)
  ultimately show ?thesis
    using sample_length by auto
qed

text \<open>C32: the map stays small and the reading linear: after any validation no block holds more than
  \<open>2 * BLOCK\<close> spans, the span count is exact, and the bytes read are at most twice the bytes the
  records remove, whatever the size of the text.
\<close>

theorem replay_bounds:
  assumes "disk ''baseline.bin'' = Inr baseline" "\<forall>r\<in>set records. sealed disk r"
    and "lens_ok (length baseline) records"
    and "build cancel disk records (length baseline) = Inr (n, st)"
  shows "(\<forall>b\<in>set (rp_blocks st). 0 < length (b_spans b) \<and> length (b_spans b) \<le> 2 * BLOCK) \<and>
    rp_spans st = sum_list (map (length \<circ> b_spans) (rp_blocks st)) \<and>
    rp_read_bytes st \<le> 2 * removed_total records"
  using build_result [OF assms(1-3), of cancel] assms(4)
  by (auto simp: map_ok_def block_ok_def length_flat comp_def)

theorem replay_bounds_witness:
  "\<exists>n st. build (\<lambda>_. False) sample_disk sample_records 3 = Inr (n, st) \<and> rp_read_bytes st \<le> 4"
proof -
  obtain n st where st: "build (\<lambda>_. False) sample_disk sample_records (length sample_base) = Inr (n, st)"
    using sample_build by blast
  moreover have "rp_read_bytes st \<le> 4"
    using replay_bounds [OF sample_base_file sample_sealed _ st] sample_lens sample_length
    by (simp add: removed_total_def removed_size_def sample_records_def sample_record_def)
  ultimately show ?thesis
    using sample_length by auto
qed

text \<open>Validation always answers, and a failure never speaks about the journal: it fails only when
  the token was cancelled or when the records hold so many edits that the map may reach its limit;
  bad data is never a failure.
\<close>

theorem replay_failure_reasons:
  assumes "disk ''baseline.bin'' = Inr baseline" "\<forall>r\<in>set records. sealed disk r"
    and "lens_ok (length baseline) records"
  shows "(\<exists>n st. build cancel disk records (length baseline) = Inr (n, st) \<and> n \<le> length records) \<or>
    (build cancel disk records (length baseline) = Inl Interrupted \<and> (\<exists>k. cancel k)) \<or>
    (build cancel disk records (length baseline) = Inl OutOfMemory \<and> MAX_SPANS \<le> 1 + 3 * edit_count records)"
  using build_result [OF assms, of cancel]
  by (cases "build cancel disk records (length baseline)") (auto simp: no_verdict_def)

theorem replay_failure_reasons_witness:
  "\<exists>n st. build (\<lambda>_. False) sample_disk sample_records 3 = Inr (n, st) \<and> n \<le> 2"
  using replay_failure_reasons [OF sample_base_file sample_sealed, of "\<lambda>_. False"] sample_lens sample_length
  by (auto simp: MAX_SPANS_def edit_count_def sample_records_def sample_record_def)

end
