(* ===== verification/Framing.thy ===== *)
theory Framing
  imports Prelude
begin

text \<open>
  The little-endian words in front of the frames that the journal
  (crates/file-io/src/recovery/mod.rs) and the extension protocol
  (crates/extensions-protocol/src/lib.rs) write.
\<close>

definition to_le_bytes :: "32 word \<Rightarrow> byte list" where
  "to_le_bytes w = [ucast w, ucast (drop_bit 8 w), ucast (drop_bit 16 w), ucast (drop_bit 24 w)]"

fun from_le_bytes :: "byte list \<Rightarrow> 32 word" where
  "from_le_bytes [a, b, c, d] =
     ucast a OR push_bit 8 (ucast b) OR push_bit 16 (ucast c) OR push_bit 24 (ucast d)"
| "from_le_bytes _ = 0"

lemma le_bytes_inverse: "from_le_bytes (to_le_bytes w) = w"
proof (rule bit_word_eqI)
  fix n :: nat
  assume "n < LENGTH(32)"
  then consider "n < 8" | "8 \<le> n" "n < 16" | "16 \<le> n" "n < 24" | "24 \<le> n" "n < 32"
    by force
  then show "bit (from_le_bytes (to_le_bytes w)) n = bit w n"
    unfolding to_le_bytes_def from_le_bytes.simps by cases (auto simp: bit_simps)
qed

lemma length_to_le_bytes [simp]: "length (to_le_bytes w) = 4"
  by (simp add: to_le_bytes_def)

lemma le_bytes_header:
  "take 4 (to_le_bytes w @ bs) = to_le_bytes w" "drop 4 (to_le_bytes w @ bs) = bs"
  by (simp_all add: to_le_bytes_def)

lemma unat_of_length: "length bs < 2 ^ 32 \<Longrightarrow> unat (of_nat (length bs) :: 32 word) = length bs"
  by (simp add: unat_of_nat take_bit_nat_eq_self)

end
