(* ===== verification/Decimal.thy ===== *)
theory Decimal
  imports Main
begin

text \<open>The decimal form of an unsigned integer, as \<open>Display\<close> writes it.\<close>

fun decimal :: "nat \<Rightarrow> string" where
  "decimal n =
     (if n < 10 then [char_of (48 + n)] else decimal (n div 10) @ [char_of (48 + n mod 10)])"

declare decimal.simps [simp del]

lemma decimal_length: "n < 10 ^ Suc k \<Longrightarrow> length (decimal n) \<le> Suc k"
proof (induction k arbitrary: n)
  case 0
  then show ?case
    by (simp add: decimal.simps)
next
  case (Suc k)
  show ?case
  proof (cases "n < 10")
    case False
    then have "length (decimal n) = Suc (length (decimal (n div 10)))"
      by (subst decimal.simps) simp
    moreover have "n div 10 < 10 ^ Suc k"
      using Suc.prems by (simp add: less_mult_imp_div_less mult.commute)
    ultimately show ?thesis
      using Suc.IH by simp
  qed (simp add: decimal.simps)
qed

end
