(* ===== verification/Journal.thy ===== *)
theory Journal
  imports History Replay Framing Decimal
begin

text \<open>
  The recovery journal of one document, crates/file-io/src/recovery/mod.rs: the writer that appends
  a transaction as a sealed segment and a CRC-framed record, the manifest it publishes, the scan
  that reads the valid records back, and the operations on a scanned journal (inspection, visiting
  the transactions, reconstructing the text, retiring the journal).
\<close>

section \<open>Data\<close>

definition VERSION :: nat where "VERSION = 2"
definition MAX_RECORD :: nat where "MAX_RECORD = 1024 * 1024"
definition MAX_TRANSACTION :: nat where "MAX_TRANSACTION = 16 * 1024 * 1024"
definition MAX_RECORDS :: nat where "MAX_RECORDS = 100000"
definition MAX_JOURNAL :: nat where "MAX_JOURNAL = 64 * 1024 * 1024"
definition MAX_MANIFEST :: nat where "MAX_MANIFEST = 32 * 1024"

record recovery_metadata =
  rm_path :: "byte list option"
  rm_generation :: "byte list"
  rm_catalog :: "byte list"
  rm_original_len :: nat

record manifest =
  mf_version :: nat
  mf_metadata :: recovery_metadata
  mf_baseline :: "blob option"
  mf_durable :: "durable_receipt option"
  mf_retired :: bool

datatype boundary =
    SegmentsWritten
  | SegmentsFlushed
  | JournalWritten
  | JournalFlushed
  | CheckpointWritten
  | CheckpointCommitted

type_synonym faults = "boundary \<Rightarrow> io_error option"

text \<open>
  The code the journal only calls: JSON of records and manifests, SHA-256, and whether a name of
  the directory is a symbolic link.
\<close>

record codec =
  cd_record :: "journal_record \<Rightarrow> byte list"
  cd_parse_record :: "byte list \<Rightarrow> journal_record option"
  cd_manifest :: "manifest \<Rightarrow> byte list"
  cd_parse_manifest :: "byte list \<Rightarrow> manifest option"
  cd_sha256 :: "byte list \<Rightarrow> byte list"
  cd_is_link :: "string \<Rightarrow> bool"

record recovery_writer =
  rw_manifest :: manifest
  rw_poisoned :: bool
  rw_records :: nat
  rw_current_len :: nat
  rw_charged :: nat

section \<open>Names and frames\<close>

text \<open>\<open>format!("segment-{revision}.bin")\<close>.\<close>

definition segment_name :: "nat \<Rightarrow> string" where
  "segment_name revision = ''segment-'' @ decimal revision @ ''.bin''"

definition frame :: "byte list \<Rightarrow> byte list" where
  "frame bytes = to_le_bytes (of_nat (length bytes)) @ to_le_bytes (crc32c bytes) @ bytes"

section \<open>Publishing a manifest\<close>

definition read_manifest_file :: "codec \<Rightarrow> disk \<Rightarrow> string \<Rightarrow> manifest io" where
  "read_manifest_file cd disk name =
     and_then (disk name) (\<lambda>bytes.
       if MAX_MANIFEST < length bytes then Inl InvalidData
       else and_then (ok_or OtherIo (cd_parse_manifest cd bytes)) (\<lambda>m.
         if mf_version m \<notin> {1, VERSION} \<or> 4096 < length (rm_generation (mf_metadata m)) \<or>
            4096 < length (rm_catalog (mf_metadata m))
         then Inl InvalidData
         else
           (case mf_baseline m of
              None \<Rightarrow> Inr m
            | Some blob \<Rightarrow>
                if bl_name blob \<noteq> ''baseline.bin'' \<or> bl_len blob \<noteq> rm_original_len (mf_metadata m)
                then Inl InvalidData else Inr m)))"

definition read_manifest :: "codec \<Rightarrow> disk \<Rightarrow> manifest io" where
  "read_manifest cd disk =
     (case read_manifest_file cd disk ''manifest.json'' of
        Inr m \<Rightarrow> Inr m
      | Inl primary \<Rightarrow>
          (case read_manifest_file cd disk ''manifest.previous.json'' of
             Inr m \<Rightarrow> Inr m
           | Inl _ \<Rightarrow> Inl primary))"

text \<open>
  A staged file takes the name in one step: a failure before the commit leaves the old file, one
  after it leaves the new one.
\<close>

definition publish_file :: "codec \<Rightarrow> faults \<Rightarrow> string \<Rightarrow> manifest \<Rightarrow> disk \<Rightarrow> unit io \<times> disk" where
  "publish_file cd faults name m disk =
     (case faults CheckpointWritten of
        Some e \<Rightarrow> (Inl e, disk)
      | None \<Rightarrow>
          let disk' = disk(name := Inr (cd_manifest cd m))
          in (case faults CheckpointCommitted of
                Some e \<Rightarrow> (Inl e, disk')
              | None \<Rightarrow> (Inr (), disk')))"

definition no_fault :: faults where
  "no_fault b = None"

definition publish :: "codec \<Rightarrow> faults \<Rightarrow> manifest \<Rightarrow> disk \<Rightarrow> unit io \<times> disk" where
  "publish cd faults m disk =
     (case read_manifest_file cd disk ''manifest.json'' of
        Inl _ \<Rightarrow> publish_file cd faults ''manifest.json'' m disk
      | Inr previous \<Rightarrow>
          (case publish_file cd no_fault ''manifest.previous.json'' previous disk of
             (Inl e, disk') \<Rightarrow> (Inl e, disk')
           | (Inr _, disk') \<Rightarrow> publish_file cd faults ''manifest.json'' m disk'))"

section \<open>The writer\<close>

definition create_writer :: "codec \<Rightarrow> recovery_metadata \<Rightarrow> disk \<Rightarrow> recovery_writer io \<times> disk" where
  "create_writer cd metadata disk =
     (if 4096 < length (rm_generation metadata) \<or> 4096 < length (rm_catalog metadata)
      then (Inl InvalidData, disk)
      else
        let m = \<lparr>mf_version = VERSION, mf_metadata = metadata, mf_baseline = None, mf_durable = None,
                 mf_retired = False\<rparr>
        in (case disk ''journal.bin'' of
              Inr _ \<Rightarrow> (Inl AlreadyExists, disk)
            | Inl e \<Rightarrow>
                if e \<noteq> NotFound then (Inl e, disk)
                else
                  (case publish cd no_fault m (disk(''journal.bin'' := Inr [])) of
                     (Inl e, disk') \<Rightarrow> (Inl e, disk')
                   | (Inr _, disk') \<Rightarrow>
                       (Inr \<lparr>rw_manifest = m, rw_poisoned = False, rw_records = 0,
                             rw_current_len = rm_original_len metadata, rw_charged = 0\<rparr>, disk'))))"

definition break_continuity :: "recovery_writer \<Rightarrow> recovery_writer" where
  "break_continuity w = w\<lparr>rw_poisoned := True\<rparr>"

definition ensure_writable :: "disk \<Rightarrow> recovery_writer \<Rightarrow> unit io" where
  "ensure_writable disk w =
     (if rw_poisoned w \<or> mf_retired (rw_manifest w) then Inl OtherIo
      else and_then (try_exists disk ''retired.json'') (\<lambda>b. if b then Inl OtherIo else Inr ()))"

fun append_size :: "nat \<Rightarrow> recovery_edit list \<Rightarrow> nat option" where
  "append_size n [] = Some n"
| "append_size n (e # es) =
     (case checked_add n (length (re_removed e)) of
        None \<Rightarrow> None
      | Some m \<Rightarrow>
          (case checked_add m (length (re_inserted e)) of
             None \<Rightarrow> None
           | Some k \<Rightarrow> append_size k es))"

definition append_entry ::
  "codec \<Rightarrow> nat \<Rightarrow> nat \<Rightarrow> recovery_edit list \<Rightarrow> policy option \<Rightarrow> nat \<Rightarrow> journal_record" where
  "append_entry cd now revision edits metadata total_len =
     \<lparr>jr_version = VERSION, jr_metadata = metadata,
      jr_receipt = \<lparr>dr_revision = revision, dr_ms = now\<rparr>,
      jr_segment = \<lparr>bl_name = segment_name revision, bl_len = total_len,
                    bl_sha = cd_sha256 cd (segment_bytes edits)\<rparr>,
      jr_edits = map edit_ref_of edits\<rparr>"

text \<open>The files of an append, with a boundary at which the storage may fail after each step.\<close>

definition append_journal ::
  "codec \<Rightarrow> faults \<Rightarrow> journal_record \<Rightarrow> disk \<Rightarrow> nat io \<times> disk" where
  "append_journal cd faults entry disk =
     (let bytes = cd_record cd entry in
      case disk ''journal.bin'' of
        Inl e \<Rightarrow> (Inl e, disk)
      | Inr journal \<Rightarrow>
          if MAX_RECORD < length bytes \<or> MAX_JOURNAL < length journal + length bytes + 8
          then (Inl InvalidData, disk)
          else
            let disk' = disk(''journal.bin'' := Inr (journal @ frame bytes))
            in (case faults JournalWritten of
                  Some e \<Rightarrow> (Inl e, disk')
                | None \<Rightarrow>
                    (case faults JournalFlushed of
                       Some e \<Rightarrow> (Inl e, disk')
                     | None \<Rightarrow> (Inr (length bytes), disk'))))"

definition append_files ::
  "codec \<Rightarrow> faults \<Rightarrow> journal_record \<Rightarrow> recovery_edit list \<Rightarrow> disk \<Rightarrow> nat io \<times> disk" where
  "append_files cd faults entry edits disk =
     (let name = bl_name (jr_segment entry) in
      case disk name of
        Inr _ \<Rightarrow> (Inl AlreadyExists, disk)
      | Inl x \<Rightarrow>
          if x \<noteq> NotFound then (Inl x, disk)
          else
            let disk' = disk(name := Inr (segment_bytes edits))
            in (case faults SegmentsWritten of
                  Some e \<Rightarrow> (Inl e, disk')
                | None \<Rightarrow>
                    (case faults SegmentsFlushed of
                       Some e \<Rightarrow> (Inl e, disk')
                     | None \<Rightarrow> append_journal cd faults entry disk')))"

definition append_record ::
  "codec \<Rightarrow> nat \<Rightarrow> faults \<Rightarrow> nat \<Rightarrow> recovery_edit list \<Rightarrow> policy option \<Rightarrow> disk \<Rightarrow> recovery_writer \<Rightarrow>
     durable_receipt io \<times> disk \<times> recovery_writer" where
  "append_record cd now faults revision edits metadata disk w =
     (case ensure_writable disk w of
        Inl e \<Rightarrow> (Inl e, disk, w)
      | Inr _ \<Rightarrow>
          if (edits = [] \<and> metadata = None) \<or> 4096 < length edits \<or> MAX_RECORDS \<le> rw_records w \<or>
             (case mf_durable (rw_manifest w) of None \<Rightarrow> False | Some r \<Rightarrow> revision \<le> dr_revision r)
          then (Inl InvalidData, disk, w)
          else
            (case append_size 0 edits of
               None \<Rightarrow> (Inl InvalidData, disk, w)
             | Some total_len \<Rightarrow>
                 if MAX_TRANSACTION < total_len then (Inl InvalidData, disk, w)
                 else
                   (case edited_len (rw_current_len w) (map edit_ref_of edits) of
                      Inl e \<Rightarrow> (Inl e, disk, w)
                    | Inr next_len \<Rightarrow>
                        let entry = append_entry cd now revision edits metadata total_len
                        in (case append_files cd faults entry edits disk of
                              (Inl e, disk') \<Rightarrow> (Inl e, disk', w\<lparr>rw_poisoned := True\<rparr>)
                            | (Inr framed, disk') \<Rightarrow>
                                (Inr (jr_receipt entry), disk',
                                 w\<lparr>rw_manifest := (rw_manifest w)\<lparr>mf_durable := Some (jr_receipt entry)\<rparr>,
                                   rw_records := Suc (rw_records w), rw_current_len := next_len,
                                   rw_charged := sat_add (rw_charged w) (total_len + framed + 8)\<rparr>)))))"

definition append :: "codec \<Rightarrow> nat \<Rightarrow> faults \<Rightarrow> nat \<Rightarrow> recovery_edit list \<Rightarrow> disk \<Rightarrow> recovery_writer \<Rightarrow>
    durable_receipt io \<times> disk \<times> recovery_writer" where
  "append cd now faults revision edits = append_record cd now faults revision edits None"

definition append_metadata :: "codec \<Rightarrow> nat \<Rightarrow> nat \<Rightarrow> policy \<Rightarrow> disk \<Rightarrow> recovery_writer \<Rightarrow>
    durable_receipt io \<times> disk \<times> recovery_writer" where
  "append_metadata cd now revision values =
     append_record cd now no_fault revision [] (Some values)"

definition checkpoint :: "codec \<Rightarrow> faults \<Rightarrow> disk \<Rightarrow> recovery_writer \<Rightarrow> unit io \<times> disk" where
  "checkpoint cd faults disk w =
     (case ensure_writable disk w of
        Inl e \<Rightarrow> (Inl e, disk)
      | Inr _ \<Rightarrow> publish cd faults (rw_manifest w) disk)"

section \<open>The scan\<close>

definition verify_blob :: "codec \<Rightarrow> bool \<Rightarrow> disk \<Rightarrow> blob \<Rightarrow> unit io" where
  "verify_blob cd cancel disk blob =
     (if cd_is_link cd (bl_name blob) then Inl InvalidData
      else and_then (disk (bl_name blob)) (\<lambda>file.
        if length file \<noteq> bl_len blob then Inl InvalidData
        else if cancel then Inl Interrupted
        else if cd_sha256 cd file \<noteq> bl_sha blob then Inl InvalidData
        else Inr ()))"

fun payload_sum :: "nat \<Rightarrow> edit_ref list \<Rightarrow> nat option" where
  "payload_sum n [] = Some n"
| "payload_sum n (r # rs) =
     (case checked_add n (ef_removed r) of
        None \<Rightarrow> None
      | Some m \<Rightarrow>
          (case checked_add m (ef_inserted r) of
             None \<Rightarrow> None
           | Some k \<Rightarrow> payload_sum k rs))"

definition is_ok :: "'e + 'a \<Rightarrow> bool" where
  "is_ok r = (case r of Inl _ \<Rightarrow> False | Inr _ \<Rightarrow> True)"

definition record_admitted :: "codec \<Rightarrow> bool \<Rightarrow> disk \<Rightarrow> journal_record list \<Rightarrow> journal_record \<Rightarrow> bool" where
  "record_admitted cd cancel disk records r =
     (jr_version r \<in> {1, VERSION, 3} \<and>
      \<not> (jr_version r = 1 \<and> jr_metadata r \<noteq> None) \<and>
      \<not> (jr_edits r = [] \<and> jr_metadata r = None) \<and>
      (case jr_metadata r of None \<Rightarrow> True | Some m \<Rightarrow> is_ok (metadata_new m)) \<and>
      length (jr_edits r) \<le> 4096 \<and>
      \<not> (jr_version r \<noteq> 3 \<and> MAX_TRANSACTION < bl_len (jr_segment r)) \<and>
      payload_sum 0 (jr_edits r) = Some (bl_len (jr_segment r)) \<and>
      bl_name (jr_segment r) = segment_name (dr_revision (jr_receipt r)) \<and>
      (records = [] \<or> dr_revision (jr_receipt (last records)) < dr_revision (jr_receipt r)) \<and>
      is_ok (verify_blob cd cancel disk (jr_segment r)))"

text \<open>The frames of the journal, up to its end or to the first that is not a valid record.\<close>

function scan_frames ::
  "codec \<Rightarrow> bool \<Rightarrow> disk \<Rightarrow> byte list \<Rightarrow> journal_record list \<Rightarrow> nat \<Rightarrow> (journal_record list \<times> bool) io" where
  "scan_frames cd cancel disk rest records current_len =
     (if cancel then Inl Interrupted
      else if rest = [] then Inr (records, False)
      else if MAX_RECORDS \<le> length records \<or> length rest < 8 then Inr (records, True)
      else
        let len = unat (from_le_bytes (take 4 rest));
            bytes = sub 8 (8 + len) rest
        in if len = 0 \<or> MAX_RECORD < len then Inr (records, True)
           else if length rest < 8 + len \<or> crc32c bytes \<noteq> from_le_bytes (sub 4 8 rest)
           then Inr (records, True)
           else
             (case cd_parse_record cd bytes of
                None \<Rightarrow> Inr (records, True)
              | Some r \<Rightarrow>
                  if \<not> record_admitted cd cancel disk records r then Inr (records, True)
                  else
                    (case edited_len current_len (jr_edits r) of
                       Inl _ \<Rightarrow> Inr (records, True)
                     | Inr n \<Rightarrow> scan_frames cd cancel disk (drop (8 + len) rest) (records @ [r]) n)))"
  by pat_completeness auto
termination
  by (relation "measure (\<lambda>(_, _, _, rest, _, _). length rest)") auto

declare scan_frames.simps [simp del]

record journal_scan =
  sc_manifest :: manifest
  sc_records :: "journal_record list"
  sc_corrupt :: bool
  sc_baseline_valid :: bool
  sc_replay :: "replay option"

definition scan_manifest :: "codec \<Rightarrow> disk \<Rightarrow> manifest io" where
  "scan_manifest cd disk =
     and_then
       (case read_manifest cd disk of
          Inr m \<Rightarrow> Inr m
        | Inl e \<Rightarrow>
            and_then (try_exists disk ''retired.json'') (\<lambda>b.
              if b then
                (case read_manifest_file cd disk ''retired.json'' of Inr m \<Rightarrow> Inr m | Inl _ \<Rightarrow> Inl e)
              else Inl e))
       (\<lambda>m. and_then (try_exists disk ''retired.json'') (\<lambda>b.
          Inr (if b then m\<lparr>mf_retired := True\<rparr> else m)))"

definition behind_watermark :: "manifest \<Rightarrow> journal_record list \<Rightarrow> bool" where
  "behind_watermark m records =
     (case mf_durable m of
        None \<Rightarrow> False
      | Some receipt \<Rightarrow>
          records = [] \<or> dr_revision (jr_receipt (last records)) < dr_revision receipt)"

definition scan_journal :: "codec \<Rightarrow> bool \<Rightarrow> disk \<Rightarrow> manifest \<Rightarrow> journal_scan io" where
  "scan_journal cd cancel disk m =
     (let baseline_valid =
            (case mf_baseline m of None \<Rightarrow> False | Some blob \<Rightarrow> is_ok (verify_blob cd cancel disk blob))
      in if cancel then Inl Interrupted
         else and_then (disk ''journal.bin'') (\<lambda>journal.
           if MAX_JOURNAL < length journal then Inl InvalidData
           else and_then (scan_frames cd cancel disk journal [] (rm_original_len (mf_metadata m)))
             (\<lambda>(records, corrupt).
               let corrupt = (corrupt \<or> behind_watermark m records);
                   unread = \<lparr>sc_manifest = m, sc_records = records, sc_corrupt = corrupt,
                             sc_baseline_valid = False, sc_replay = None\<rparr>
               in if \<not> baseline_valid then Inr unread
                  else
                    (case build (\<lambda>_. cancel) disk records (rm_original_len (mf_metadata m)) of
                       Inr (valid, built) \<Rightarrow>
                         Inr \<lparr>sc_manifest = m, sc_records = take valid records,
                              sc_corrupt = (corrupt \<or> valid < length records),
                              sc_baseline_valid = True, sc_replay = Some built\<rparr>
                     | Inl e \<Rightarrow> if e = Interrupted then Inl e else Inr unread))))"

definition scan :: "codec \<Rightarrow> bool \<Rightarrow> disk \<Rightarrow> journal_scan io" where
  "scan cd cancel disk =
     and_then (scan_manifest cd disk) (\<lambda>m.
       if mf_retired m then
         Inr \<lparr>sc_manifest = m, sc_records = [], sc_corrupt = False, sc_baseline_valid = False,
              sc_replay = None\<rparr>
       else scan_journal cd cancel disk m)"

section \<open>Operations on a scanned journal\<close>

datatype recovery_status = Complete | EditsOnly | CorruptTail | SourceUnavailable | Discarded

record recovery_inspection =
  ri_status :: recovery_status
  ri_metadata :: recovery_metadata
  ri_last_durable :: "durable_receipt option"
  ri_checkpoint_durable :: "durable_receipt option"
  ri_validated_records :: nat
  ri_complete_baseline :: bool
  ri_document_metadata :: "policy option"

definition last_option :: "'a list \<Rightarrow> 'a option" where
  "last_option xs = (if xs = [] then None else Some (last xs))"

fun find_policy :: "journal_record list \<Rightarrow> policy option" where
  "find_policy [] = None"
| "find_policy (r # rs) = (case jr_metadata r of Some m \<Rightarrow> Some m | None \<Rightarrow> find_policy rs)"

definition scan_status :: "journal_scan \<Rightarrow> recovery_status" where
  "scan_status s =
     (if mf_retired (sc_manifest s) then Discarded
      else if sc_corrupt s then CorruptTail
      else if sc_baseline_valid s then Complete
      else if mf_baseline (sc_manifest s) \<noteq> None then SourceUnavailable
      else EditsOnly)"

definition inspection :: "journal_scan \<Rightarrow> recovery_inspection" where
  "inspection s =
     \<lparr>ri_status = scan_status s, ri_metadata = mf_metadata (sc_manifest s),
      ri_last_durable = map_option jr_receipt (last_option (sc_records s)),
      ri_checkpoint_durable = mf_durable (sc_manifest s),
      ri_validated_records = length (sc_records s),
      ri_complete_baseline = sc_baseline_valid s,
      ri_document_metadata = find_policy (rev (sc_records s))\<rparr>"

definition inspect :: "codec \<Rightarrow> bool \<Rightarrow> disk \<Rightarrow> recovery_inspection io" where
  "inspect cd cancel disk = and_then (scan cd cancel disk) (\<lambda>s. Inr (inspection s))"

type_synonym 's visitor = "durable_receipt \<Rightarrow> recovery_edit list \<Rightarrow> 's \<Rightarrow> 's io"

definition read_transaction :: "codec \<Rightarrow> bool \<Rightarrow> disk \<Rightarrow> journal_record \<Rightarrow> recovery_edit list io" where
  "read_transaction cd cancel disk r =
     (if cancel then Inl Interrupted
      else and_then (disk (bl_name (jr_segment r))) (\<lambda>segment.
        if MAX_TRANSACTION < bl_len (jr_segment r) then Inl InvalidData
        else and_then (read_exact segment 0 (bl_len (jr_segment r))) (\<lambda>bytes.
          if cd_sha256 cd bytes \<noteq> bl_sha (jr_segment r) then Inl InvalidData
          else Inr (take_edits bytes 0 (jr_edits r)))))"

fun visit_records :: "codec \<Rightarrow> bool \<Rightarrow> disk \<Rightarrow> 's visitor \<Rightarrow> journal_record list \<Rightarrow> 's \<Rightarrow> 's io" where
  "visit_records cd cancel disk visit [] s = Inr s"
| "visit_records cd cancel disk visit (r # rs) s =
     and_then (read_transaction cd cancel disk r) (\<lambda>edits.
     and_then (visit (jr_receipt r) edits s) (\<lambda>s'.
       visit_records cd cancel disk visit rs s'))"

definition replay_transactions ::
  "codec \<Rightarrow> bool \<Rightarrow> disk \<Rightarrow> 's visitor \<Rightarrow> 's \<Rightarrow> (recovery_inspection \<times> 's) io" where
  "replay_transactions cd cancel disk visit s =
     and_then (scan cd cancel disk) (\<lambda>sc.
     and_then (visit_records cd cancel disk visit (sc_records sc) s) (\<lambda>s'.
       Inr (inspection sc, s')))"

text \<open>\<open>dest\<close> is what the destination's name holds; the bytes are those left there on success.\<close>

definition recover_to :: "codec \<Rightarrow> bool \<Rightarrow> disk \<Rightarrow> byte list io \<Rightarrow> (recovery_inspection \<times> byte list) io" where
  "recover_to cd cancel disk dest =
     and_then (scan cd cancel disk) (\<lambda>s.
       if \<not> sc_baseline_valid s \<or> mf_retired (sc_manifest s) then Inl InvalidData
       else
         (case dest of
            Inr _ \<Rightarrow> Inl AlreadyExists
          | Inl e \<Rightarrow>
              if e \<noteq> NotFound then Inl e
              else
                (case sc_replay s of
                   None \<Rightarrow> Inl InvalidData
                 | Some st \<Rightarrow>
                     and_then (fst (write_to (\<lambda>_. cancel) disk (sc_records s) st)) (\<lambda>bytes.
                       Inr (inspection s, bytes)))))"

section \<open>Retiring a journal\<close>

text \<open>The tombstone of a journal whose manifest cannot be read.\<close>

definition blank_tombstone :: manifest where
  "blank_tombstone =
     \<lparr>mf_version = VERSION,
      mf_metadata = \<lparr>rm_path = None, rm_generation = [], rm_catalog = [], rm_original_len = 0\<rparr>,
      mf_baseline = None, mf_durable = None, mf_retired = True\<rparr>"

definition discard_journal :: "codec \<Rightarrow> disk \<Rightarrow> unit io \<times> disk" where
  "discard_journal cd disk =
     (case read_manifest cd disk of
        Inr m \<Rightarrow> publish_file cd no_fault ''retired.json'' (m\<lparr>mf_retired := True\<rparr>) disk
      | Inl e \<Rightarrow>
          (case and_then (try_exists disk ''manifest.json'') (\<lambda>b.
                  if b then Inr True else try_exists disk ''manifest.previous.json'') of
             Inl x \<Rightarrow> (Inl x, disk)
           | Inr known \<Rightarrow>
               if \<not> known then (Inl e, disk)
               else
                 publish_file cd no_fault ''retired.json'' blank_tombstone disk))"

end
