(* ===== verification/Journal_Read.thy ===== *)
theory Journal_Read
  imports Journal Replay_Text
begin

text \<open>
  Reading back what the journal's writer wrote: names and frames are read back, an append keeps
  the journal valid, and a cut journal reads as a prefix of its records.
\<close>

section \<open>Names and frames\<close>

definition digit_value :: "string \<Rightarrow> nat" where
  "digit_value = foldl (\<lambda>v c. 10 * v + (of_char c - 48)) 0"

lemma decimal_value: "digit_value (decimal n) = n"
proof (induction n rule: decimal.induct)
  case (1 n)
  show ?case
  proof (cases "n < 10")
    case True
    then show ?thesis
      by (simp add: decimal.simps digit_value_def of_char_of)
  next
    case False
    then have "digit_value (decimal (n div 10)) = n div 10"
      by (rule 1)
    with False show ?thesis
      by (subst decimal.simps) (simp add: digit_value_def of_char_of)
  qed
qed

lemma segment_name_inject [simp]: "segment_name a = segment_name b \<longleftrightarrow> a = b"
proof
  assume "segment_name a = segment_name b"
  then have "decimal a = decimal b"
    by (simp add: segment_name_def)
  then show "a = b"
    by (metis decimal_value)
qed simp

lemma segment_name_other [simp]:
  "segment_name n \<noteq> ''journal.bin''" "segment_name n \<noteq> ''baseline.bin''"
  "segment_name n \<noteq> ''manifest.json''" "segment_name n \<noteq> ''manifest.previous.json''"
  "segment_name n \<noteq> ''retired.json''"
  by (simp_all add: segment_name_def)

lemmas segment_name_other_sym [simp] = segment_name_other [THEN not_sym]

lemma length_frame [simp]: "length (frame bytes) = 8 + length bytes"
  by (simp add: frame_def)

lemma frame_not_Nil [simp]: "frame bytes \<noteq> []"
  by (simp add: frame_def to_le_bytes_def)

lemma frame_parts:
  "take 4 (frame bytes @ rest) = to_le_bytes (of_nat (length bytes))"
  "sub 4 8 (frame bytes @ rest) = to_le_bytes (crc32c bytes)"
  "sub 8 (8 + length bytes) (frame bytes @ rest) = bytes"
  "drop (8 + length bytes) (frame bytes @ rest) = rest"
  by (simp_all add: frame_def sub_def)

lemma frame_len:
  "length bytes \<le> MAX_RECORD \<Longrightarrow> unat (of_nat (length bytes) :: 32 word) = length bytes"
  by (simp add: MAX_RECORD_def unsigned_of_nat take_bit_nat_eq_self)

section \<open>Valid journals\<close>

text \<open>The records that the scan admits one after the other, and the length they lead to.\<close>

fun frames_ok :: "codec \<Rightarrow> disk \<Rightarrow> journal_record list \<Rightarrow> nat \<Rightarrow> journal_record list \<Rightarrow> bool" where
  "frames_ok cd disk records current_len [] = True"
| "frames_ok cd disk records current_len (r # rs) =
     (length records < MAX_RECORDS \<and> cd_parse_record cd (cd_record cd r) = Some r \<and>
      cd_record cd r \<noteq> [] \<and> length (cd_record cd r) \<le> MAX_RECORD \<and>
      record_admitted cd False disk records r \<and>
      (case edited_len current_len (jr_edits r) of
         Inl _ \<Rightarrow> False
       | Inr n \<Rightarrow> frames_ok cd disk (records @ [r]) n rs))"

definition journal_bytes :: "codec \<Rightarrow> journal_record list \<Rightarrow> byte list" where
  "journal_bytes cd rs = concat (map (\<lambda>r. frame (cd_record cd r)) rs)"

fun journal_len :: "nat \<Rightarrow> journal_record list \<Rightarrow> nat" where
  "journal_len n [] = n"
| "journal_len n (r # rs) =
     (case edited_len n (jr_edits r) of Inl _ \<Rightarrow> n | Inr m \<Rightarrow> journal_len m rs)"

lemma journal_bytes_simps [simp]:
  "journal_bytes cd [] = []"
  "journal_bytes cd (r # rs) = frame (cd_record cd r) @ journal_bytes cd rs"
  "journal_bytes cd (rs @ qs) = journal_bytes cd rs @ journal_bytes cd qs"
  by (simp_all add: journal_bytes_def)

lemma scan_frame:
  assumes "frames_ok cd disk records n (r # rs)"
  obtains m where "edited_len n (jr_edits r) = Inr m" "frames_ok cd disk (records @ [r]) m rs"
    "scan_frames cd False disk (frame (cd_record cd r) @ rest) records n =
       scan_frames cd False disk rest (records @ [r]) m"
proof -
  let ?bytes = "cd_record cd r"
  from assms obtain m where m: "edited_len n (jr_edits r) = Inr m" "frames_ok cd disk (records @ [r]) m rs"
    by (auto split: sum.splits)
  have len: "unat (from_le_bytes (take 4 (frame ?bytes @ rest))) = length ?bytes"
    using assms by (simp only: frame_parts le_bytes_inverse) (simp add: frame_len)
  have crc: "from_le_bytes (sub 4 8 (frame ?bytes @ rest)) = crc32c ?bytes"
    by (simp only: frame_parts le_bytes_inverse)
  have ne: "frame ?bytes \<noteq> []"
    by (rule frame_not_Nil)
  have "scan_frames cd False disk (frame ?bytes @ rest) records n =
      scan_frames cd False disk rest (records @ [r]) m"
    by (subst scan_frames.simps) (simp only: len crc Let_def frame_parts(3,4), use assms m ne in simp)
  with m that show thesis
    by blast
qed

text \<open>A valid journal is read back whole; what follows it is scanned from there.\<close>

lemma scan_frames_journal:
  "frames_ok cd disk records n rs \<Longrightarrow>
     scan_frames cd False disk (journal_bytes cd rs @ rest) records n =
     scan_frames cd False disk rest (records @ rs) (journal_len n rs)"
proof (induction rs arbitrary: records n)
  case Nil
  then show ?case by simp
next
  case (Cons r rs)
  from Cons.prems show ?case
  proof (rule scan_frame [where rest = "journal_bytes cd rs @ rest"])
    fix m
    assume "edited_len n (jr_edits r) = Inr m" "frames_ok cd disk (records @ [r]) m rs"
      "scan_frames cd False disk (frame (cd_record cd r) @ journal_bytes cd rs @ rest) records n =
        scan_frames cd False disk (journal_bytes cd rs @ rest) (records @ [r]) m"
    with Cons.IH [of "records @ [r]" m] show ?thesis
      by simp
  qed
qed

lemma scan_frames_end [simp]: "scan_frames cd False disk [] records n = Inr (records, False)"
  by (subst scan_frames.simps) simp

text \<open>A frame cut short ends the scan as a corrupt tail.\<close>

lemma scan_cut_frame:
  assumes "frames_ok cd disk records n (r # rs)" "0 < k" "k < length (frame (cd_record cd r))"
  shows "scan_frames cd False disk (take k (frame (cd_record cd r))) records n = Inr (records, True)"
proof (cases "k < 8")
  case True
  with assms show ?thesis
    by (subst scan_frames.simps) (auto simp: take_eq_Nil)
next
  case False
  let ?bytes = "cd_record cd r"
  have "take 4 (take k (frame ?bytes)) = to_le_bytes (of_nat (length ?bytes))"
    using False frame_parts(1) [of ?bytes "[]"] by (simp add: min_def)
  then have len: "unat (from_le_bytes (take 4 (take k (frame ?bytes)))) = length ?bytes"
    using assms(1) by (simp only: le_bytes_inverse) (simp add: frame_len)
  have "length (take k (frame ?bytes)) < 8 + length ?bytes"
    using assms(3) by simp
  with assms(1,2) False show ?thesis
    by (subst scan_frames.simps) (simp only: len Let_def, simp)
qed

lemma scan_frames_cut:
  "frames_ok cd disk records n rs \<Longrightarrow>
     \<exists>j corrupt. j \<le> length rs \<and>
       scan_frames cd False disk (take k (journal_bytes cd rs)) records n = Inr (records @ take j rs, corrupt) \<and>
       length (journal_bytes cd (take j rs)) \<le> k \<and>
       (j < length rs \<longrightarrow> k < length (journal_bytes cd (take (Suc j) rs))) \<and>
       (corrupt \<longleftrightarrow> length (journal_bytes cd (take j rs)) \<noteq> min k (length (journal_bytes cd rs)))"
proof (induction rs arbitrary: records n k)
  case Nil
  show ?case
    by (intro exI [of _ 0] exI [of _ False]) simp
next
  case (Cons r rs)
  let ?f = "frame (cd_record cd r)"
  show ?case
  proof (cases "k < length ?f")
    case True
    have cut: "take k (journal_bytes cd (r # rs)) = take k ?f"
      using True by simp
    show ?thesis
    proof (cases "k = 0")
      case True
      then show ?thesis
        by (intro exI [of _ 0] exI [of _ False]) simp
    next
      case False
      with True scan_cut_frame [OF Cons.prems, of k] cut show ?thesis
        by (intro exI [of _ 0] exI [of _ True]) simp
    qed
  next
    case False
    have split: "take k (journal_bytes cd (r # rs)) = ?f @ take (k - length ?f) (journal_bytes cd rs)"
      using False by simp
    from Cons.prems show ?thesis
    proof (rule scan_frame [where rest = "take (k - length ?f) (journal_bytes cd rs)"])
      fix m
      assume m: "frames_ok cd disk (records @ [r]) m rs"
        "scan_frames cd False disk (?f @ take (k - length ?f) (journal_bytes cd rs)) records n =
          scan_frames cd False disk (take (k - length ?f) (journal_bytes cd rs)) (records @ [r]) m"
      from Cons.IH [OF m(1), of "k - length ?f"] obtain j corrupt where j: "j \<le> length rs"
        "scan_frames cd False disk (take (k - length ?f) (journal_bytes cd rs)) (records @ [r]) m =
          Inr ((records @ [r]) @ take j rs, corrupt)"
        "length (journal_bytes cd (take j rs)) \<le> k - length ?f"
        "j < length rs \<longrightarrow> k - length ?f < length (journal_bytes cd (take (Suc j) rs))"
        "corrupt \<longleftrightarrow> length (journal_bytes cd (take j rs)) \<noteq> min (k - length ?f) (length (journal_bytes cd rs))"
        by blast
      show ?thesis
      proof (intro exI [of _ "Suc j"] exI [of _ corrupt] conjI)
        show "scan_frames cd False disk (take k (journal_bytes cd (r # rs))) records n =
            Inr (records @ take (Suc j) (r # rs), corrupt)"
          unfolding split m(2) j(2) by simp
      qed (use j False in auto)
    qed
  qed
qed

section \<open>Appending\<close>

lemma frames_ok_append:
  "frames_ok cd disk records n (rs @ qs) \<longleftrightarrow>
     frames_ok cd disk records n rs \<and> frames_ok cd disk (records @ rs) (journal_len n rs) qs"
proof (induction rs arbitrary: records n)
  case Nil
  then show ?case by simp
next
  case (Cons r rs)
  then show ?case
    by (auto split: sum.splits)
qed

lemma verify_blob_disk:
  "disk' (bl_name b) = disk (bl_name b) \<Longrightarrow> verify_blob cd cancel disk' b = verify_blob cd cancel disk b"
  by (simp add: verify_blob_def)

lemma frames_ok_disk:
  "frames_ok cd disk records n rs \<Longrightarrow>
   \<forall>r\<in>set rs. disk' (bl_name (jr_segment r)) = disk (bl_name (jr_segment r)) \<Longrightarrow>
     frames_ok cd disk' records n rs"
  by (induction rs arbitrary: records n)
    (auto simp: record_admitted_def verify_blob_disk [where disk' = disk' and disk = disk] split: sum.splits)

lemma is_ok_iff: "is_ok r \<longleftrightarrow> (\<exists>x. r = Inr x)"
  by (cases r) (auto simp: is_ok_def)

text \<open>What an admitted record says of its segment.\<close>

lemma payload_sum_size: "payload_sum n rs = Some k \<Longrightarrow> k = n + payload_size rs \<and> (rs = [] \<or> k \<le> usize_max)"
  by (induction rs arbitrary: n) (fastforce simp: checked_add_def split: if_splits option.splits)+

lemma admitted_segment:
  assumes "record_admitted cd cancel disk records r"
  obtains segment where "disk (bl_name (jr_segment r)) = Inr segment"
    "length segment = bl_len (jr_segment r)" "length segment = payload_size (jr_edits r)"
    "length segment \<le> usize_max" "cd_sha256 cd segment = bl_sha (jr_segment r)"
    "bl_name (jr_segment r) = segment_name (dr_revision (jr_receipt r))"
proof -
  from assms obtain segment where "disk (bl_name (jr_segment r)) = Inr segment"
    "length segment = bl_len (jr_segment r)" "cd_sha256 cd segment = bl_sha (jr_segment r)"
    by (auto simp: record_admitted_def is_ok_iff verify_blob_def and_then_Inr_iff split: if_splits)
  moreover have "payload_sum 0 (jr_edits r) = Some (bl_len (jr_segment r))"
    using assms by (simp add: record_admitted_def)
  from payload_sum_size [OF this] have "bl_len (jr_segment r) = payload_size (jr_edits r)"
    "bl_len (jr_segment r) \<le> usize_max"
    by (auto simp: usize_max_def)
  ultimately show thesis
    using assms that by (simp add: record_admitted_def)
qed

lemma frames_ok_admitted:
  "frames_ok cd disk records n rs \<Longrightarrow> r \<in> set rs \<Longrightarrow> \<exists>records'. record_admitted cd False disk records' r"
  by (induction rs arbitrary: records n) (auto split: sum.splits)

lemma frames_ok_segment:
  assumes "frames_ok cd disk records n rs" "r \<in> set rs"
  shows "sealed disk r" and "\<exists>segment. disk (bl_name (jr_segment r)) = Inr segment"
    and "\<exists>k. bl_name (jr_segment r) = segment_name k"
  using frames_ok_admitted [OF assms] by (auto elim!: admitted_segment simp: sealed_def)

lemma append_size_payload: "append_size n es = payload_sum n (map edit_ref_of es)"
  by (induction es arbitrary: n) (simp_all split: option.splits)

text \<open>The writer's state against the records its journal holds.\<close>

definition writer_ok :: "codec \<Rightarrow> disk \<Rightarrow> recovery_writer \<Rightarrow> journal_record list \<Rightarrow> bool" where
  "writer_ok cd disk w records =
     (disk ''journal.bin'' = Inr (journal_bytes cd records) \<and>
      length (journal_bytes cd records) \<le> MAX_JOURNAL \<and>
      frames_ok cd disk [] (rm_original_len (mf_metadata (rw_manifest w))) records \<and>
      rw_records w = length records \<and>
      rw_current_len w = journal_len (rm_original_len (mf_metadata (rw_manifest w))) records \<and>
      mf_durable (rw_manifest w) = map_option jr_receipt (last_option records))"

text \<open>What the append takes from the libraries and the platform for the record it writes.\<close>

definition entry_readable :: "codec \<Rightarrow> journal_record \<Rightarrow> bool" where
  "entry_readable cd r =
     (cd_parse_record cd (cd_record cd r) = Some r \<and> cd_record cd r \<noteq> [] \<and>
      \<not> cd_is_link cd (bl_name (jr_segment r)))"

definition policy_ok :: "policy option \<Rightarrow> bool" where
  "policy_ok m = (case m of None \<Rightarrow> True | Some values \<Rightarrow> is_ok (metadata_new values))"

lemma append_size_length: "append_size 0 edits = Some k \<Longrightarrow> k = length (segment_bytes edits)"
  using payload_sum_size [of 0 "map edit_ref_of edits" k]
  by (simp add: append_size_payload length_segment_bytes)

lemma append_files_cases:
  assumes "append_files cd faults entry edits disk = (r, disk')"
  obtains (unchanged) e where "r = Inl e" "disk' = disk"
    | (segment) e where "r = Inl e" "disk (bl_name (jr_segment entry)) = Inl NotFound"
      "disk' = disk(bl_name (jr_segment entry) := Inr (segment_bytes edits))"
    | (framed) journal where "disk (bl_name (jr_segment entry)) = Inl NotFound"
      "(disk(bl_name (jr_segment entry) := Inr (segment_bytes edits))) ''journal.bin'' = Inr journal"
      "length (cd_record cd entry) \<le> MAX_RECORD"
      "length journal + length (cd_record cd entry) + 8 \<le> MAX_JOURNAL"
      "disk' = disk(bl_name (jr_segment entry) := Inr (segment_bytes edits),
         ''journal.bin'' := Inr (journal @ frame (cd_record cd entry)))"
  using assms
  by (auto simp: append_files_def append_journal_def Let_def split: sum.splits if_splits option.splits)

lemma frames_ok_entry:
  assumes ok: "writer_ok cd disk w records"
    and fresh: "disk (segment_name revision) = Inl NotFound"
    and len: "append_size 0 edits = Some total_len" "total_len \<le> MAX_TRANSACTION"
      "edited_len (rw_current_len w) (map edit_ref_of edits) = Inr next_len"
    and some: "edits \<noteq> [] \<or> metadata \<noteq> None" "length edits \<le> 4096" "rw_records w < MAX_RECORDS"
      "case mf_durable (rw_manifest w) of None \<Rightarrow> True | Some r \<Rightarrow> dr_revision r < revision"
    and entry: "entry = append_entry cd now revision edits metadata total_len"
      "entry_readable cd entry" "policy_ok metadata" "length (cd_record cd entry) \<le> MAX_RECORD"
    and disk': "disk' (segment_name revision) = Inr (segment_bytes edits)"
      "\<forall>name. name \<noteq> segment_name revision \<and> name \<noteq> ''journal.bin'' \<longrightarrow> disk' name = disk name"
  shows "frames_ok cd disk' [] (rm_original_len (mf_metadata (rw_manifest w))) (records @ [entry])"
    and "journal_len (rm_original_len (mf_metadata (rw_manifest w))) (records @ [entry]) = next_len"
    and "\<forall>r\<in>set records. disk' (bl_name (jr_segment r)) = disk (bl_name (jr_segment r))"
proof -
  let ?n = "rm_original_len (mf_metadata (rw_manifest w))"
  have frames: "frames_ok cd disk [] ?n records"
    using ok by (simp add: writer_ok_def)
  show same: "\<forall>r\<in>set records. disk' (bl_name (jr_segment r)) = disk (bl_name (jr_segment r))"
    using frames_ok_segment(2,3) [OF frames] fresh disk'(2) by (metis Inl_Inr_False segment_name_other(1))
  have edits: "jr_edits entry = map edit_ref_of edits" and seg: "bl_name (jr_segment entry) = segment_name revision"
    "bl_len (jr_segment entry) = total_len" "bl_sha (jr_segment entry) = cd_sha256 cd (segment_bytes edits)"
    by (simp_all add: entry(1) append_entry_def)
  have "total_len = length (segment_bytes edits)"
    by (rule append_size_length [OF len(1)])
  then have verified: "is_ok (verify_blob cd False disk' (jr_segment entry))"
    using seg disk'(1) entry(2) by (simp add: verify_blob_def entry_readable_def is_ok_def)
  have revision: "records = [] \<or> dr_revision (jr_receipt (last records)) < revision"
    using some(4) ok by (auto simp: writer_ok_def last_option_def split: if_splits)
  have "record_admitted cd False disk' records entry"
    unfolding record_admitted_def
    using verified revision len(1,2) some(1,2) entry(3)
    by (simp add: edits seg append_size_payload policy_ok_def) (auto simp: entry(1) append_entry_def VERSION_def)
  moreover have "journal_len ?n records = rw_current_len w"
    using ok by (simp add: writer_ok_def)
  moreover have "length records < MAX_RECORDS"
    using ok some(3) by (simp add: writer_ok_def)
  ultimately show "frames_ok cd disk' [] ?n (records @ [entry])"
    using frames_ok_disk [OF frames same] len(3) entry(2,4)
    by (simp add: frames_ok_append edits entry_readable_def)
  show "journal_len ?n (records @ [entry]) = next_len"
  proof -
    have "journal_len n (rs @ [r]) = m"
      if "frames_ok cd disk recs n rs" "edited_len (journal_len n rs) (jr_edits r) = Inr m" for recs n rs r m
      using that by (induction rs arbitrary: recs n) (auto split: sum.splits)
    with frames len(3) \<open>journal_len ?n records = rw_current_len w\<close> show ?thesis
      by (simp add: edits)
  qed
qed

text \<open>An append returns with the record in the journal, or fails and the writer is closed.\<close>

lemma append_record_cases:
  assumes run: "append_record cd now faults revision edits metadata disk w = (result, disk', w')"
    and ok: "writer_ok cd disk w records" and policy: "policy_ok metadata"
    and readable: "entry_readable cd
      (append_entry cd now revision edits metadata (length (segment_bytes edits)))"
  obtains (refused) e where "result = Inl e" "disk' = disk" "w' = w"
    | (failed) e where "result = Inl e" "w' = w\<lparr>rw_poisoned := True\<rparr>" "writer_ok cd disk' w records"
    | (unacknowledged) e entry where "result = Inl e" "w' = w\<lparr>rw_poisoned := True\<rparr>"
      "entry = append_entry cd now revision edits metadata (length (segment_bytes edits))"
      "disk' ''journal.bin'' = Inr (journal_bytes cd (records @ [entry]))"
      "frames_ok cd disk' [] (rm_original_len (mf_metadata (rw_manifest w))) (records @ [entry])"
    | (appended) entry where "result = Inr (jr_receipt entry)"
      "entry = append_entry cd now revision edits metadata (length (segment_bytes edits))"
      "writer_ok cd disk' w' (records @ [entry])" "rw_poisoned w' = rw_poisoned w"
      "disk' (bl_name (jr_segment entry)) = Inr (segment_bytes edits)"
      "\<forall>r\<in>set records. disk' (bl_name (jr_segment r)) = disk (bl_name (jr_segment r))"
      "\<forall>name. name \<noteq> bl_name (jr_segment entry) \<and> name \<noteq> ''journal.bin'' \<longrightarrow> disk' name = disk name"
      "mf_metadata (rw_manifest w') = mf_metadata (rw_manifest w)"
      "\<forall>r\<in>set records. dr_revision (jr_receipt (last records)) < revision"
proof -
  let ?n = "rm_original_len (mf_metadata (rw_manifest w))"
  let ?entry = "append_entry cd now revision edits metadata (length (segment_bytes edits))"
  have name: "bl_name (jr_segment ?entry) = segment_name revision"
    by (simp add: append_entry_def)
  show thesis
  proof (cases "(\<exists>e. result = Inl e) \<and> disk' = disk \<and> w' = w")
    case True
    with refused show thesis by blast
  next
    case False
    have some: "\<not> (edits = [] \<and> metadata = None)" "length edits \<le> 4096" "rw_records w < MAX_RECORDS"
      "\<not> (case mf_durable (rw_manifest w) of None \<Rightarrow> False | Some r \<Rightarrow> revision \<le> dr_revision r)"
      using run False by (simp_all add: append_record_def split: sum.splits if_splits) auto
    obtain total_len next_len where len: "append_size 0 edits = Some total_len" "total_len \<le> MAX_TRANSACTION"
      "edited_len (rw_current_len w) (map edit_ref_of edits) = Inr next_len"
      using run False by (auto simp: append_record_def split: sum.splits if_splits option.splits)
    obtain r1 disk1 where files: "append_files cd faults ?entry edits disk = (r1, disk1)"
      by (cases "append_files cd faults ?entry edits disk")
    have size: "total_len = length (segment_bytes edits)"
      by (rule append_size_length [OF len(1)])
    have out: "disk' = disk1" "(case r1 of
          Inl e \<Rightarrow> result = Inl e \<and> w' = w\<lparr>rw_poisoned := True\<rparr>
        | Inr framed \<Rightarrow> result = Inr (jr_receipt ?entry) \<and>
            w' = w\<lparr>rw_manifest := (rw_manifest w)\<lparr>mf_durable := Some (jr_receipt ?entry)\<rparr>,
              rw_records := Suc (rw_records w), rw_current_len := next_len,
              rw_charged := sat_add (rw_charged w) (total_len + framed + 8)\<rparr>)"
      using run False some len files
      by (auto simp: append_record_def size Let_def split: sum.splits if_splits option.splits)
    from files show thesis
    proof (cases rule: append_files_cases)
      case (unchanged e)
      with out ok show thesis
        by (intro failed [of e]) simp_all
    next
      case (segment e)
      then have "\<forall>r\<in>set records. disk1 (bl_name (jr_segment r)) = disk (bl_name (jr_segment r))"
        using ok frames_ok_segment(2) [of cd disk "[]" ?n records] by (fastforce simp: writer_ok_def)
      then have "writer_ok cd disk1 w records"
        using ok segment(3) frames_ok_disk [of cd disk "[]" ?n records disk1] name
        by (simp add: writer_ok_def)
      with out segment(1) show thesis
        by (intro failed [of e]) simp_all
    next
      case (framed journal)
      have journal: "journal = journal_bytes cd records"
        using framed(2) ok name by (simp add: writer_ok_def)
      have d: "disk1 (segment_name revision) = Inr (segment_bytes edits)"
        "\<forall>name. name \<noteq> segment_name revision \<and> name \<noteq> ''journal.bin'' \<longrightarrow> disk1 name = disk name"
        "disk1 ''journal.bin'' = Inr (journal_bytes cd (records @ [?entry]))"
        using framed(5) name journal by simp_all
      have fresh: "disk (segment_name revision) = Inl NotFound"
        using framed(1) name by simp
      have durable: "case mf_durable (rw_manifest w) of None \<Rightarrow> True | Some r \<Rightarrow> dr_revision r < revision"
        using some(4) by (auto split: option.splits)
      have some1: "edits \<noteq> [] \<or> metadata \<noteq> None"
        using some(1) by blast
      note entry = frames_ok_entry [OF ok fresh len some1 some(2,3) durable _ _ policy _ d(1,2), of ?entry now,
          OF _ readable framed(3), unfolded size, OF refl]
      show thesis
      proof (cases r1)
        case (Inl e)
        with out d(3) entry(1) show thesis
          by (intro unacknowledged [of e ?entry]) simp_all
      next
        case (Inr framed_len)
        have last: "last_option (records @ [?entry]) = Some ?entry"
          by (simp add: last_option_def)
        have "writer_ok cd disk1 w' (records @ [?entry])"
          using Inr out(2) d(3) entry(1,2) framed(4) ok journal last
          by (simp add: writer_ok_def del: journal_len.simps)
        moreover have "\<forall>r\<in>set records. dr_revision (jr_receipt (last records)) < revision"
          using durable ok by (auto simp: writer_ok_def last_option_def split: if_splits)
        ultimately show thesis
          using Inr out d entry(3) by (intro appended [of ?entry]) (simp_all add: name)
      qed
    qed
  qed
qed

end
