(* ===== verification/Journal_Properties.thy ===== *)
theory Journal_Properties
  imports Journal_Read
begin

text \<open>
  The properties of the recovery journal: what an append guarantees under storage failures, what a
  cut journal still yields, and that recovery reconstructs the text of the appended edits.
\<close>

section \<open>The scan of a directory\<close>

text \<open>The manifest on disk, the sealed baseline, and no retirement.\<close>

definition directory_ok :: "codec \<Rightarrow> disk \<Rightarrow> manifest \<Rightarrow> byte list \<Rightarrow> bool" where
  "directory_ok cd disk m base =
     (read_manifest_file cd disk ''manifest.json'' = Inr m \<and> \<not> mf_retired m \<and>
      disk ''retired.json'' = Inl NotFound \<and> disk ''baseline.bin'' = Inr base \<and>
      (\<exists>blob. mf_baseline m = Some blob \<and> is_ok (verify_blob cd False disk blob)) \<and>
      rm_original_len (mf_metadata m) = length base \<and> length base \<le> usize_max)"

definition journal_ok :: "codec \<Rightarrow> disk \<Rightarrow> nat \<Rightarrow> journal_record list \<Rightarrow> bool" where
  "journal_ok cd disk n records =
     (disk ''journal.bin'' = Inr (journal_bytes cd records) \<and>
      length (journal_bytes cd records) \<le> MAX_JOURNAL \<and> frames_ok cd disk [] n records)"

lemma edited_len_from_le:
  "result \<le> usize_max \<Longrightarrow> edited_len_from n c result rs = Inr m \<Longrightarrow> m \<le> usize_max"
  by (induction rs arbitrary: c result)
    (auto simp: checked_add_def checked_sub_def split: if_splits option.splits)

lemma frames_ok_lens: "frames_ok cd disk records n rs \<Longrightarrow> n \<le> usize_max \<Longrightarrow> lens_ok n rs"
proof (induction rs arbitrary: records n)
  case Nil
  then show ?case by simp
next
  case (Cons r rs)
  then obtain m where m: "edited_len n (jr_edits r) = Inr m" "frames_ok cd disk (records @ [r]) m rs"
    by (auto split: sum.splits)
  then have "m \<le> usize_max"
    using Cons.prems(2) edited_len_from_le by (auto simp: edited_len_def)
  with Cons m show ?case
    by simp
qed

lemma scan_manifest_directory: "directory_ok cd disk m base \<Longrightarrow> scan_manifest cd disk = Inr m"
  by (simp add: directory_ok_def scan_manifest_def read_manifest_def try_exists_def)

lemma scan_directory:
  assumes dir: "directory_ok cd disk m base" and journal: "journal_ok cd disk (length base) records"
    and few: "1 + 3 * edit_count records < MAX_SPANS"
  obtains n st where "n = fst (valid_prefix disk records base)" "n \<le> length records"
    "scan cd False disk = Inr \<lparr>sc_manifest = m, sc_records = take n records,
       sc_corrupt = (behind_watermark m records \<or> n < length records), sc_baseline_valid = True,
       sc_replay = Some st\<rparr>"
    "fst (write_to (\<lambda>_. False) disk (take n records) st) = Inr (snd (valid_prefix disk records base))"
proof -
  have frames: "frames_ok cd disk [] (length base) records"
    using journal by (simp add: journal_ok_def)
  have base: "disk ''baseline.bin'' = Inr base" "length base \<le> usize_max"
    using dir by (simp_all add: directory_ok_def)
  have "\<forall>r\<in>set records. sealed disk r"
    using frames_ok_segment(1) [OF frames] by blast
  from build_result [OF base(1) this frames_ok_lens [OF frames base(2)], of "\<lambda>_. False"] few
  obtain n st where build: "build (\<lambda>_. False) disk records (length base) = Inr (n, st)"
    and prefix: "valid_prefix disk records base = (n, rp_text (sources disk (take n records) base) st)"
    and st: "n \<le> length records" "map_ok (sources disk (take n records) base) st"
      "held disk (take n records) base st"
    by (auto simp: no_verdict_def split: sum.splits)
  have frames': "scan_frames cd False disk (journal_bytes cd records) [] (length base) = Inr (records, False)"
    using scan_frames_journal [OF frames, of "[]"] by simp
  have "scan_journal cd False disk m = Inr \<lparr>sc_manifest = m, sc_records = take n records,
       sc_corrupt = (behind_watermark m records \<or> n < length records), sc_baseline_valid = True,
       sc_replay = Some st\<rparr>"
    using dir journal frames' build by (auto simp: scan_journal_def directory_ok_def journal_ok_def Let_def)
  then have "scan cd False disk = Inr \<lparr>sc_manifest = m, sc_records = take n records,
       sc_corrupt = (behind_watermark m records \<or> n < length records), sc_baseline_valid = True,
       sc_replay = Some st\<rparr>"
    using dir scan_manifest_directory [OF dir] by (simp add: scan_def directory_ok_def)
  moreover have "fst (write_to (\<lambda>_. False) disk (take n records) st) = Inr (snd (valid_prefix disk records base))"
    using write_to_result [OF st(2,3), of "\<lambda>_. False"] prefix
    by (cases "fst (write_to (\<lambda>_. False) disk (take n records) st)") simp_all
  ultimately show thesis
    using that prefix st(1) by simp
qed

lemma recover_directory:
  assumes dir: "directory_ok cd disk m base" and journal: "journal_ok cd disk (length base) records"
    and few: "1 + 3 * edit_count records < MAX_SPANS"
  obtains insp where "recover_to cd False disk (Inl NotFound) = Inr (insp, snd (valid_prefix disk records base))"
    "ri_validated_records insp = fst (valid_prefix disk records base)"
    "ri_status insp = (if behind_watermark m records \<or> fst (valid_prefix disk records base) < length records
                       then CorruptTail else Complete)"
  using assms
proof (rule scan_directory)
  fix n st
  assume scan: "n = fst (valid_prefix disk records base)" "n \<le> length records"
    "scan cd False disk = Inr \<lparr>sc_manifest = m, sc_records = take n records,
       sc_corrupt = (behind_watermark m records \<or> n < length records), sc_baseline_valid = True,
       sc_replay = Some st\<rparr>"
    "fst (write_to (\<lambda>_. False) disk (take n records) st) = Inr (snd (valid_prefix disk records base))"
  have "\<not> mf_retired m"
    using dir by (simp add: directory_ok_def)
  with scan show thesis
    by (intro that [of "inspection \<lparr>sc_manifest = m, sc_records = take n records,
       sc_corrupt = (behind_watermark m records \<or> n < length records), sc_baseline_valid = True,
       sc_replay = Some st\<rparr>"]) (simp_all add: recover_to_def inspection_def scan_status_def)
qed

section \<open>One more record\<close>

lemma record_edits_segment:
  "disk (bl_name (jr_segment r)) = Inr (segment_bytes edits) \<Longrightarrow> jr_edits r = map edit_ref_of edits \<Longrightarrow>
     record_edits disk r = edits"
  using take_edits_segment [of "[]" edits "[]"] by (simp add: record_edits_def)

lemma valid_prefix_append:
  "valid_prefix disk rs t = (length rs, t') \<Longrightarrow>
     valid_prefix disk (rs @ [r]) t =
       (if record_valid disk r t' then (Suc (length rs), render (record_edits disk r) t') else (length rs, t'))"
  by (induction rs arbitrary: t) (auto split: prod.splits if_splits)

lemma valid_prefix_disk:
  "\<forall>r\<in>set rs. disk' (bl_name (jr_segment r)) = disk (bl_name (jr_segment r)) \<Longrightarrow>
     valid_prefix disk' rs t = valid_prefix disk rs t"
  by (induction rs arbitrary: t) (simp_all add: record_valid_def record_edits_def)

lemma valid_prefix_appended:
  assumes "valid_prefix disk records base = (length records, t)" "fits 0 t edits"
    and "\<forall>r\<in>set records. disk' (bl_name (jr_segment r)) = disk (bl_name (jr_segment r))"
    and entry: "entry = append_entry cd now revision edits metadata (length (segment_bytes edits))"
      "disk' (bl_name (jr_segment entry)) = Inr (segment_bytes edits)"
  shows "valid_prefix disk' (records @ [entry]) base = (Suc (length records), render edits t)"
proof -
  have "jr_edits entry = map edit_ref_of edits" "bl_len (jr_segment entry) = length (segment_bytes edits)"
    by (simp_all add: entry(1) append_entry_def)
  moreover from this(1) have "record_edits disk' entry = edits"
    using record_edits_segment [of disk' entry edits] entry(2) by simp
  ultimately show ?thesis
    using assms(1,2) valid_prefix_append [of disk' records base t entry] valid_prefix_disk [OF assms(3), of base]
    by (simp add: record_valid_def length_segment_bytes)
qed

section \<open>Visiting the transactions\<close>

fun visit_all :: "disk \<Rightarrow> 's visitor \<Rightarrow> journal_record list \<Rightarrow> 's \<Rightarrow> 's io" where
  "visit_all disk visit [] s = Inr s"
| "visit_all disk visit (r # rs) s =
     and_then (visit (jr_receipt r) (record_edits disk r) s) (\<lambda>s'. visit_all disk visit rs s')"

lemma read_transaction_admitted:
  assumes "record_admitted cd False disk records r" "jr_version r \<noteq> 3"
  shows "read_transaction cd False disk r = Inr (record_edits disk r)"
proof -
  from assms(1) obtain segment where segment: "disk (bl_name (jr_segment r)) = Inr segment"
    "length segment = bl_len (jr_segment r)" "cd_sha256 cd segment = bl_sha (jr_segment r)"
    by (rule admitted_segment)
  have "bl_len (jr_segment r) \<le> MAX_TRANSACTION"
    using assms by (simp add: record_admitted_def)
  with segment show ?thesis
    by (simp add: read_transaction_def read_exact_def record_edits_def)
qed

lemma visit_records_admitted:
  "\<forall>r\<in>set rs. (\<exists>records. record_admitted cd False disk records r) \<and> jr_version r \<noteq> 3 \<Longrightarrow>
     visit_records cd False disk visit rs s = visit_all disk visit rs s"
proof (induction rs arbitrary: s)
  case Nil
  then show ?case by simp
next
  case (Cons r rs)
  then obtain records where "record_admitted cd False disk records r" "jr_version r \<noteq> 3"
    by auto
  from read_transaction_admitted [OF this] Cons show ?case
    by (simp cong: and_then_cong)
qed

section \<open>A sample journal\<close>

text \<open>A codec that reads back the two values the sample writes.\<close>

definition sample_edits :: "recovery_edit list" where
  "sample_edits = [\<lparr>re_offset = 1, re_removed = [98], re_inserted = [120, 121]\<rparr>]"

definition journal_meta :: recovery_metadata where
  "journal_meta = \<lparr>rm_path = None, rm_generation = [], rm_catalog = [], rm_original_len = 3\<rparr>"

definition journal_manifest :: manifest where
  "journal_manifest =
     \<lparr>mf_version = 2, mf_metadata = journal_meta,
      mf_baseline = Some \<lparr>bl_name = ''baseline.bin'', bl_len = 3, bl_sha = []\<rparr>,
      mf_durable = None, mf_retired = False\<rparr>"

definition journal_entry :: journal_record where
  "journal_entry =
     \<lparr>jr_version = 2, jr_metadata = None, jr_receipt = \<lparr>dr_revision = 1, dr_ms = 5\<rparr>,
      jr_segment = \<lparr>bl_name = segment_name 1, bl_len = 3, bl_sha = []\<rparr>,
      jr_edits = map edit_ref_of sample_edits\<rparr>"

definition journal_codec :: codec where
  "journal_codec =
     \<lparr>cd_record = \<lambda>_. [1], cd_parse_record = \<lambda>_. Some journal_entry, cd_manifest = \<lambda>_. [2],
      cd_parse_manifest = \<lambda>_. Some journal_manifest, cd_sha256 = \<lambda>_. [], cd_is_link = \<lambda>_. False\<rparr>"

definition journal_disk :: disk where
  "journal_disk =
     (\<lambda>_. Inl NotFound)(''manifest.json'' := Inr [2], ''baseline.bin'' := Inr [97, 98, 99],
       ''journal.bin'' := Inr [])"

definition journal_writer :: recovery_writer where
  "journal_writer =
     \<lparr>rw_manifest = journal_manifest, rw_poisoned = False, rw_records = 0, rw_current_len = 3,
      rw_charged = 0\<rparr>"

lemma journal_writer_ok: "writer_ok journal_codec journal_disk journal_writer []"
  by (simp add: writer_ok_def journal_disk_def journal_writer_def journal_manifest_def journal_meta_def
      MAX_JOURNAL_def last_option_def)

lemma journal_directory_ok: "directory_ok journal_codec journal_disk journal_manifest [97, 98, 99]"
  by (simp add: directory_ok_def journal_disk_def journal_codec_def journal_manifest_def journal_meta_def
      read_manifest_file_def MAX_MANIFEST_def VERSION_def verify_blob_def is_ok_def usize_max_def)

lemma sample_entry:
  "append_entry journal_codec 5 1 sample_edits None (length (segment_bytes sample_edits)) = journal_entry"
  by (simp add: append_entry_def journal_entry_def journal_codec_def sample_edits_def VERSION_def)

lemma sample_append:
  "\<exists>disk' w'. append_record journal_codec 5 no_fault 1 sample_edits None journal_disk journal_writer =
     (Inr \<lparr>dr_revision = 1, dr_ms = 5\<rparr>, disk', w')"
  by (simp add: append_record_def ensure_writable_def try_exists_def journal_disk_def journal_writer_def
      journal_manifest_def sample_edits_def edited_len_def edit_ref_of_def checked_add_def checked_sub_def
      usize_max_def MAX_TRANSACTION_def MAX_RECORDS_def append_entry_def append_files_def append_journal_def
      no_fault_def journal_codec_def MAX_RECORD_def MAX_JOURNAL_def Let_def)

lemma sample_readable:
  "entry_readable journal_codec (append_entry journal_codec 5 1 sample_edits None (length (segment_bytes sample_edits)))"
  unfolding sample_entry by (simp add: entry_readable_def journal_codec_def)

section \<open>Properties\<close>

text \<open>C27: an acknowledged append leaves a valid journal with exactly one more record: the writer's
  counters, length and durable receipt match the frames on disk, and the segment of the new record
  reads back as the edits that were appended.
\<close>

theorem append_keeps_journal:
  assumes "writer_ok cd disk w records" "policy_ok metadata"
    and "entry_readable cd (append_entry cd now revision edits metadata (length (segment_bytes edits)))"
    and "append_record cd now faults revision edits metadata disk w = (Inr receipt, disk', w')"
  shows "\<exists>entry. entry = append_entry cd now revision edits metadata (length (segment_bytes edits)) \<and>
    receipt = jr_receipt entry \<and> writer_ok cd disk' w' (records @ [entry]) \<and>
    record_edits disk' entry = edits"
  using assms(4,1,2,3)
proof (cases rule: append_record_cases)
  case (appended entry)
  then have "record_edits disk' entry = edits"
    by (intro record_edits_segment) (simp_all add: append_entry_def)
  with appended show ?thesis
    by auto
qed auto

theorem append_keeps_journal_witness:
  "\<exists>disk' w'. append_record journal_codec 5 no_fault 1 sample_edits None journal_disk journal_writer =
      (Inr \<lparr>dr_revision = 1, dr_ms = 5\<rparr>, disk', w') \<and>
    writer_ok journal_codec disk' w' [journal_entry] \<and> record_edits disk' journal_entry = sample_edits"
proof -
  obtain disk' w' where run: "append_record journal_codec 5 no_fault 1 sample_edits None journal_disk journal_writer =
      (Inr \<lparr>dr_revision = 1, dr_ms = 5\<rparr>, disk', w')"
    using sample_append by blast
  from append_keeps_journal [OF journal_writer_ok _ sample_readable run] run show ?thesis
    unfolding sample_entry by (auto simp: policy_ok_def)
qed



text \<open>A journal cut after any number of bytes reads as the records whose frames are whole, in
  order, and the cut is reported as a corrupt tail unless it falls between two frames.
\<close>

theorem cut_journal_prefix:
  assumes "frames_ok cd disk [] n rs"
  shows "\<exists>j corrupt. j \<le> length rs \<and>
    scan_frames cd False disk (take k (journal_bytes cd rs)) [] n = Inr (take j rs, corrupt) \<and>
    length (journal_bytes cd (take j rs)) \<le> k \<and>
    (j < length rs \<longrightarrow> k < length (journal_bytes cd (take (Suc j) rs))) \<and>
    (corrupt \<longleftrightarrow> length (journal_bytes cd (take j rs)) \<noteq> min k (length (journal_bytes cd rs)))"
  using scan_frames_cut [OF assms, of k] by simp

theorem cut_journal_prefix_witness:
  "\<exists>disk j corrupt. frames_ok journal_codec disk [] 3 [journal_entry] \<and>
     scan_frames journal_codec False disk (take 5 (journal_bytes journal_codec [journal_entry])) [] 3 =
       Inr (take j [journal_entry], corrupt) \<and> j = 0 \<and> corrupt"
proof -
  let ?disk = "journal_disk(segment_name 1 := Inr [98, 120, 121])"
  have ok: "frames_ok journal_codec ?disk [] 3 [journal_entry]"
    by (simp add: journal_codec_def journal_entry_def sample_edits_def edit_ref_of_def MAX_RECORDS_def MAX_RECORD_def
        record_admitted_def VERSION_def MAX_TRANSACTION_def checked_add_def checked_sub_def usize_max_def
        verify_blob_def is_ok_def edited_len_def)
  have len: "length (journal_bytes journal_codec [journal_entry]) = 9"
    by (simp add: journal_codec_def)
  from cut_journal_prefix [OF ok, of 5] obtain j corrupt where j: "j \<le> 1"
    "scan_frames journal_codec False ?disk (take 5 (journal_bytes journal_codec [journal_entry])) [] 3 =
      Inr (take j [journal_entry], corrupt)"
    "length (journal_bytes journal_codec (take j [journal_entry])) \<le> 5"
    "corrupt \<longleftrightarrow> length (journal_bytes journal_codec (take j [journal_entry])) \<noteq> min 5 9"
    unfolding len by auto
  then have "j = 0"
    by (cases j) (auto simp: journal_codec_def)
  with ok j show ?thesis
    by (intro exI [of _ ?disk] exI [of _ j] exI [of _ corrupt]) simp
qed

text \<open>C26: recovery writes the text of the longest prefix of records that fit the sealed baseline, says
  how many records that is, and calls the result complete exactly when no record and no durable
  receipt lies beyond it.
\<close>

theorem recovery_exposes_valid_prefix:
  assumes "directory_ok cd disk m base" "journal_ok cd disk (length base) records"
    and "1 + 3 * edit_count records < MAX_SPANS"
  shows "\<exists>insp. recover_to cd False disk (Inl NotFound) = Inr (insp, snd (valid_prefix disk records base)) \<and>
    ri_validated_records insp = fst (valid_prefix disk records base) \<and>
    ri_status insp = (if behind_watermark m records \<or> fst (valid_prefix disk records base) < length records
                      then CorruptTail else Complete)"
  using assms by (rule recover_directory) blast

theorem recovery_exposes_valid_prefix_witness:
  "\<exists>insp. recover_to journal_codec False journal_disk (Inl NotFound) = Inr (insp, [97, 98, 99]) \<and>
     ri_status insp = Complete"
proof -
  have "journal_ok journal_codec journal_disk (length [97, 98, 99 :: byte]) []"
    by (simp add: journal_ok_def journal_disk_def MAX_JOURNAL_def)
  from recovery_exposes_valid_prefix [OF journal_directory_ok this] show ?thesis
    by (auto simp: edit_count_def MAX_SPANS_def behind_watermark_def journal_manifest_def)
qed

text \<open>C5: what was appended is what is recovered: over a sealed baseline and a journal that leads to a
  text, an acknowledged append of edits that fit this text makes recovery write exactly the edited
  text, with every record validated and the status complete.
\<close>

theorem recover_after_append:
  assumes "writer_ok cd disk w records" "directory_ok cd disk m base"
    and "mf_metadata (rw_manifest w) = mf_metadata m" "\<not> behind_watermark m records"
    and "valid_prefix disk records base = (length records, t)" "fits 0 t edits"
    and "entry_readable cd (append_entry cd now revision edits None (length (segment_bytes edits)))"
    and "append cd now faults revision edits disk w = (Inr receipt, disk', w')"
    and "1 + 3 * (edit_count records + length edits) < MAX_SPANS"
  shows "\<exists>insp. recover_to cd False disk' (Inl NotFound) = Inr (insp, render edits t) \<and>
    ri_status insp = Complete \<and> ri_validated_records insp = Suc (length records)"
proof -
  have run: "append_record cd now faults revision edits None disk w = (Inr receipt, disk', w')"
    using assms(8) by (simp add: append_def)
  have "policy_ok None"
    by (simp add: policy_ok_def)
  from run assms(1) this assms(7) show ?thesis
  proof (cases rule: append_record_cases)
    case (appended entry)
    have n: "rm_original_len (mf_metadata (rw_manifest w')) = length base"
      using appended(8) assms(2,3) by (simp add: directory_ok_def)
    have same: "disk' name = disk name"
      if "name \<in> {''manifest.json'', ''retired.json'', ''baseline.bin''}" for name
      using appended(2,7) that by (auto simp: append_entry_def)
    have blob: "bl_name blob = ''baseline.bin''" if "mf_baseline m = Some blob" for blob
      using assms(2) that
      by (auto simp: directory_ok_def read_manifest_file_def and_then_Inr_iff split: if_splits option.splits)
    have "directory_ok cd disk' m base"
      using assms(2) same verify_blob_disk [of disk' _ disk cd False] blob
      by (auto simp: directory_ok_def read_manifest_file_def)
    moreover have "journal_ok cd disk' (length base) (records @ [entry])"
      using appended(3) n by (simp add: journal_ok_def writer_ok_def)
    moreover have "1 + 3 * edit_count (records @ [entry]) < MAX_SPANS"
      using assms(9) appended(2) by (simp add: edit_count_def append_entry_def)
    ultimately obtain insp where insp:
      "recover_to cd False disk' (Inl NotFound) = Inr (insp, snd (valid_prefix disk' (records @ [entry]) base))"
      "ri_validated_records insp = fst (valid_prefix disk' (records @ [entry]) base)"
      "ri_status insp = (if behind_watermark m (records @ [entry]) \<or>
          fst (valid_prefix disk' (records @ [entry]) base) < length (records @ [entry])
        then CorruptTail else Complete)"
      by (rule recover_directory)
    have prefix: "valid_prefix disk' (records @ [entry]) base = (Suc (length records), render edits t)"
      by (rule valid_prefix_appended [OF assms(5,6) appended(6,2,5)])
    have "\<not> behind_watermark m (records @ [entry])"
      using assms(4) appended(2,9)
      by (auto simp: behind_watermark_def append_entry_def split: option.splits)
    with insp prefix show ?thesis
      by auto
  qed auto
qed

theorem recover_after_append_witness:
  "\<exists>disk' w' insp. append journal_codec 5 no_fault 1 sample_edits journal_disk journal_writer =
      (Inr \<lparr>dr_revision = 1, dr_ms = 5\<rparr>, disk', w') \<and>
    recover_to journal_codec False disk' (Inl NotFound) = Inr (insp, [97, 120, 121, 99]) \<and>
    ri_status insp = Complete"
proof -
  obtain disk' w' where run: "append journal_codec 5 no_fault 1 sample_edits journal_disk journal_writer =
      (Inr \<lparr>dr_revision = 1, dr_ms = 5\<rparr>, disk', w')"
    using sample_append by (auto simp: append_def)
  have "fits 0 [97, 98, 99] sample_edits" "render sample_edits [97, 98, 99] = [97, 120, 121, 99]"
    by (simp_all add: sample_edits_def sub_def splice_text_def replace_range_def)
  with recover_after_append [OF journal_writer_ok journal_directory_ok _ _ _ _ sample_readable run, of "[97, 98, 99]"] run
  show ?thesis
    by (auto simp: journal_writer_def behind_watermark_def journal_manifest_def edit_count_def sample_edits_def
        MAX_SPANS_def)
qed

text \<open>Replaying the transactions hands the visitor, in order, the receipt and the edits of every
  record of the valid prefix, each decoded from its segment, and nothing after it.
\<close>

theorem transactions_replayed:
  assumes "directory_ok cd disk m base" "journal_ok cd disk (length base) records"
    and "1 + 3 * edit_count records < MAX_SPANS" "\<forall>r\<in>set records. jr_version r \<noteq> 3"
  shows "\<exists>insp. replay_transactions cd False disk visit s =
    and_then (visit_all disk visit (take (fst (valid_prefix disk records base)) records) s)
      (\<lambda>s'. Inr (insp, s'))"
  using assms(1-3)
proof (rule scan_directory)
  fix n st
  assume n: "n = fst (valid_prefix disk records base)"
    and scan: "scan cd False disk = Inr \<lparr>sc_manifest = m, sc_records = take n records,
       sc_corrupt = (behind_watermark m records \<or> n < length records), sc_baseline_valid = True,
       sc_replay = Some st\<rparr>"
  have "\<forall>r\<in>set (take n records). (\<exists>records. record_admitted cd False disk records r) \<and> jr_version r \<noteq> 3"
    using assms(2,4) frames_ok_admitted by (fastforce simp: journal_ok_def dest: in_set_takeD)
  from visit_records_admitted [where visit = visit and s = s, OF this] scan show ?thesis
    unfolding replay_transactions_def n by auto
qed

theorem transactions_replayed_witness:
  "\<exists>insp. replay_transactions journal_codec False journal_disk (\<lambda>r es s. Inr (s @ es)) [] = Inr (insp, [])"
proof -
  have "journal_ok journal_codec journal_disk (length [97, 98, 99 :: byte]) []"
    by (simp add: journal_ok_def journal_disk_def MAX_JOURNAL_def)
  from transactions_replayed [OF journal_directory_ok this, of "\<lambda>r es s. Inr (s @ es)" "[]"] show ?thesis
    by (simp add: edit_count_def MAX_SPANS_def)
qed

text \<open>The manifest reads back from the bytes that publishing writes.\<close>

definition manifest_readable :: "codec \<Rightarrow> manifest \<Rightarrow> bool" where
  "manifest_readable cd m = (read_manifest_file cd (\<lambda>_. Inr (cd_manifest cd m)) [] = Inr m)"

lemma read_published:
  "manifest_readable cd m \<Longrightarrow> disk name = Inr (cd_manifest cd m) \<Longrightarrow> read_manifest_file cd disk name = Inr m"
  by (simp add: manifest_readable_def read_manifest_file_def)

lemma read_manifest_file_disk:
  "disk' name = disk name \<Longrightarrow> read_manifest_file cd disk' name = read_manifest_file cd disk name"
  by (simp add: read_manifest_file_def)



text \<open>Discarding is durable and final: after it, whatever the manifest was, inspection reports the
  journal as discarded with no records, recovery refuses it, and no writer appends to it.
\<close>

theorem discard_is_final:
  assumes "discard_journal cd disk = (Inr (), disk')" "manifest_readable cd blank_tombstone"
  shows "(\<exists>insp. inspect cd cancel disk' = Inr insp \<and> ri_status insp = Discarded \<and>
      ri_validated_records insp = 0) \<and>
    recover_to cd cancel disk' dest = Inl InvalidData \<and>
    (\<exists>e. append_record cd now faults revision edits metadata disk' w = (Inl e, disk', w))"
proof -
  have retired: "try_exists disk' ''retired.json'' = Inr True"
    and manifest: "read_manifest cd disk' = read_manifest cd disk"
    and blank: "\<And>e. read_manifest cd disk = Inl e \<Longrightarrow> disk' ''retired.json'' = Inr (cd_manifest cd blank_tombstone)"
    using assms(1)
    by (auto simp: discard_journal_def publish_file_def no_fault_def try_exists_def read_manifest_def
        read_manifest_file_def Let_def split: sum.splits if_splits)
  have "\<exists>m. scan_manifest cd disk' = Inr m \<and> mf_retired m"
  proof (cases "read_manifest cd disk")
    case (Inr m)
    with retired manifest show ?thesis
      by (simp add: scan_manifest_def)
  next
    case (Inl e)
    from read_published [of cd blank_tombstone disk' "''retired.json''"] assms(2) blank [OF Inl] retired manifest Inl
    show ?thesis
      by (simp add: scan_manifest_def)
  qed
  then obtain m where "scan_manifest cd disk' = Inr m" "mf_retired m"
    by blast
  moreover have "\<exists>e. ensure_writable disk' w = Inl e"
    using retired by (simp add: ensure_writable_def)
  ultimately show ?thesis
    by (auto simp: inspect_def scan_def inspection_def scan_status_def recover_to_def append_record_def)
qed

definition blank_codec :: codec where
  "blank_codec = journal_codec\<lparr>cd_parse_manifest := \<lambda>bs. Some (if bs = [2] then blank_tombstone else journal_manifest)\<rparr>"

theorem discard_is_final_witness:
  "\<exists>disk'. discard_journal blank_codec journal_disk = (Inr (), disk') \<and>
     recover_to blank_codec False disk' (Inl NotFound) = Inl InvalidData"
proof -
  obtain disk' where run: "discard_journal blank_codec journal_disk = (Inr (), disk')"
    by (simp add: discard_journal_def publish_file_def no_fault_def read_manifest_def read_manifest_file_def
        journal_disk_def blank_codec_def journal_codec_def MAX_MANIFEST_def VERSION_def blank_tombstone_def)
  have "manifest_readable blank_codec blank_tombstone"
    by (simp add: manifest_readable_def read_manifest_file_def blank_codec_def journal_codec_def MAX_MANIFEST_def
        VERSION_def blank_tombstone_def)
  from discard_is_final [OF run this, of False "Inl NotFound"] run show ?thesis
    by auto
qed

end
