(* ===== verification/Compose.thy ===== *)
theory Compose
  imports Recovery
begin

text \<open>
  Folding several transactions into one journal record, \<open>compose_edits\<close> of
  crates/file-io/src/recovery/mod.rs: the edits of the next transaction, whose offsets are in the
  text a batch produces, become edits of the text before the batch.
\<close>

section \<open>The operations\<close>

definition removed_between :: "recovery_edit \<Rightarrow> nat \<Rightarrow> nat \<Rightarrow> byte list io" where
  "removed_between e from to =
     (case (checked_sub from (re_offset e), checked_sub to (re_offset e)) of
        (Some a, Some b) \<Rightarrow>
          if a \<le> b \<and> b \<le> length (re_removed e) then Inr (sub a b (re_removed e)) else Inl InvalidData
      | _ \<Rightarrow> Inl InvalidData)"

definition to_u64 :: "int \<Rightarrow> nat io" where
  "to_u64 i = (if 0 \<le> i \<and> i \<le> int usize_max then Inr (nat i) else Inl InvalidData)"

definition produced :: "recovery_edit \<Rightarrow> int \<Rightarrow> nat io" where
  "produced e shift = to_u64 (int (re_offset e) + shift)"

definition delta :: "recovery_edit \<Rightarrow> int" where
  "delta e = int (length (re_inserted e)) - int (length (re_removed e))"

text \<open>Batch edits wholly before the new edit keep their place.\<close>

fun edits_before :: "nat \<Rightarrow> recovery_edit list \<Rightarrow> nat \<Rightarrow> int \<Rightarrow> (nat \<times> int) io" where
  "edits_before start [] first shift = Inr (first, shift)"
| "edits_before start (e # es) first shift =
     and_then (produced e shift) (\<lambda>p.
       if start \<le> p + length (re_inserted e) then Inr (first, shift)
       else edits_before start es (Suc first) (shift + delta e))"

text \<open>The positions of the batch edits the new edit overlaps or touches.\<close>

fun edits_touched :: "nat \<Rightarrow> recovery_edit list \<Rightarrow> int \<Rightarrow> nat list io" where
  "edits_touched stop [] shift = Inr []"
| "edits_touched stop (e # es) shift =
     and_then (produced e shift) (\<lambda>p.
       if stop < p then Inr []
       else and_then (edits_touched stop es (shift + delta e)) (\<lambda>ps. Inr (p # ps)))"

text \<open>The original bytes a merged edit removes, with the check of the inserted bytes it covers.\<close>

fun merge_removed ::
  "recovery_edit \<Rightarrow> nat \<Rightarrow> nat \<Rightarrow> (recovery_edit \<times> nat) list \<Rightarrow> nat \<Rightarrow> byte list \<Rightarrow> (nat \<times> byte list) io" where
  "merge_removed e start stop [] cursor removed = Inr (cursor, removed)"
| "merge_removed e start stop ((entry, position) # es) cursor removed =
     (let entry_end = position + length (re_inserted entry);
          from = max position start;
          to = min entry_end stop
      in and_then (if cursor < position then removed_between e cursor position else Inr []) (\<lambda>gap.
         and_then (if from < to then removed_between e from to else Inr []) (\<lambda>seen.
           if from < to \<and> seen \<noteq> sub (from - position) (to - position) (re_inserted entry)
           then Inl InvalidData
           else merge_removed e start stop es (max cursor entry_end)
                  (removed @ gap @ re_removed entry))))"

definition compose_edit :: "recovery_edit list \<Rightarrow> recovery_edit \<Rightarrow> recovery_edit list io" where
  "compose_edit batch e =
     (if re_removed e = re_inserted e then Inr batch
      else
        let start = re_offset e;
            stop = start + length (re_removed e)
        in and_then (edits_before start batch 0 0) (\<lambda>(first, shift).
           and_then (edits_touched stop (drop first batch) shift) (\<lambda>touched.
             let after = first + length touched in
             if touched = [] then
               and_then (to_u64 (int start - shift)) (\<lambda>offset.
                 Inr (take first batch @ e\<lparr>re_offset := offset\<rparr> # drop first batch))
             else
               let head = batch ! first;
                   tail = batch ! (after - 1);
                   head_at = hd touched;
                   tail_at = last touched;
                   tail_end = tail_at + length (re_inserted tail)
               in and_then (merge_removed e start stop (zip (sub first after batch) touched) start [])
                    (\<lambda>(cursor, removed).
                  and_then (if cursor < stop then removed_between e cursor stop else Inr []) (\<lambda>rest.
                  let inserted =
                        (if head_at < start then take (start - head_at) (re_inserted head) else []) @
                        re_inserted e @
                        (if stop < tail_end then drop (stop - tail_at) (re_inserted tail) else [])
                  in and_then
                       (if start < head_at
                        then ok_or InvalidData (checked_sub (re_offset head) (head_at - start))
                        else Inr (re_offset head)) (\<lambda>offset.
                     let merged = \<lparr>re_offset = offset, re_removed = removed @ rest, re_inserted = inserted\<rparr>
                     in Inr (take first batch @
                             (if re_removed merged \<noteq> re_inserted merged then [merged] else []) @
                             drop after batch)))))))"

text \<open>The last edit of the next transaction first; the batch changes only when all of them fold.\<close>

fun compose_loop :: "recovery_edit list \<Rightarrow> nat \<Rightarrow> recovery_edit list \<Rightarrow> recovery_edit list io" where
  "compose_loop composed following [] = Inr composed"
| "compose_loop composed following (e # es) =
     (case checked_add (re_offset e) (length (re_removed e)) of
        None \<Rightarrow> Inl InvalidData
      | Some stop \<Rightarrow>
          if following < stop then Inl InvalidData
          else and_then (compose_edit composed e) (\<lambda>composed'. compose_loop composed' (re_offset e) es))"

definition compose_edits :: "recovery_edit list \<Rightarrow> recovery_edit list \<Rightarrow> recovery_edit list io" where
  "compose_edits batch next_edits = compose_loop batch usize_max (rev next_edits)"

section \<open>Layouts\<close>

text \<open>
  A list of fitting edits cuts the text before and the text after into the same gaps: a layout is
  the list of a gap, the removed and the inserted bytes of each edit in turn.
\<close>

type_synonym layout = "(byte list \<times> byte list \<times> byte list) list"

fun old_text :: "layout \<Rightarrow> byte list" where
  "old_text [] = []"
| "old_text ((g, r, i) # l) = g @ r @ old_text l"

fun new_text :: "layout \<Rightarrow> byte list" where
  "new_text [] = []"
| "new_text ((g, r, i) # l) = g @ i @ new_text l"

fun edits_of :: "nat \<Rightarrow> layout \<Rightarrow> recovery_edit list" where
  "edits_of k [] = []"
| "edits_of k ((g, r, i) # l) =
     \<lparr>re_offset = k + length g, re_removed = r, re_inserted = i\<rparr> #
     edits_of (k + length g + length r) l"

fun positions :: "nat \<Rightarrow> layout \<Rightarrow> nat list" where
  "positions n [] = []"
| "positions n ((g, r, i) # l) = (n + length g) # positions (n + length g + length i) l"

definition shape :: "nat \<Rightarrow> recovery_edit list \<Rightarrow> byte list \<Rightarrow> byte list \<Rightarrow> bool" where
  "shape k es x y \<longleftrightarrow> (\<exists>l z. es = edits_of k l \<and> x = old_text l @ z \<and> y = new_text l @ z)"

lemma old_new_append [simp]:
  "old_text (l @ m) = old_text l @ old_text m"
  "new_text (l @ m) = new_text l @ new_text m"
  by (induction l) auto

lemma edits_of_append [simp]:
  "edits_of k (l @ m) = edits_of k l @ edits_of (k + length (old_text l)) m"
  by (induction l arbitrary: k) (auto simp: add.assoc)

lemma positions_append:
  "positions n (l @ m) = positions n l @ positions (n + length (new_text l)) m"
  by (induction l arbitrary: n) (auto simp: add.assoc)

lemma length_edits_of [simp]: "length (edits_of k l) = length l"
  by (induction l arbitrary: k) auto

lemma length_positions [simp]: "length (positions n l) = length l"
  by (induction l arbitrary: n) auto

lemma positions_Nil_iff [simp]: "positions n l = [] \<longleftrightarrow> l = []"
  by (cases l) auto

lemma shape_none [simp]: "shape k [] x x"
  unfolding shape_def by (intro exI [of _ "[]"] exI [of _ x]) simp

lemma shape_edit:
  assumes "shape (k + length r) es x y"
  shows "shape k (\<lparr>re_offset = k, re_removed = r, re_inserted = i\<rparr> # es) (r @ x) (i @ y)"
proof -
  from assms obtain l z where "es = edits_of (k + length r) l" "x = old_text l @ z" "y = new_text l @ z"
    by (auto simp: shape_def)
  then show ?thesis
    unfolding shape_def by (intro exI [of _ "([], r, i) # l"] exI [of _ z]) simp
qed

lemma shape_gap:
  assumes "shape (k + length g) es x y"
  shows "shape k es (g @ x) (g @ y)"
proof -
  from assms obtain l z where l: "es = edits_of (k + length g) l" "x = old_text l @ z" "y = new_text l @ z"
    by (auto simp: shape_def)
  show ?thesis
  proof (cases l)
    case Nil
    with l show ?thesis by simp
  next
    case (Cons p l')
    obtain g' r i where "p = (g', r, i)"
      by (cases p)
    with l Cons show ?thesis
      unfolding shape_def by (intro exI [of _ "(g @ g', r, i) # l'"] exI [of _ z]) (simp add: add.assoc)
  qed
qed

lemma shape_prefix:
  "shape (k + length (old_text a)) es x y \<Longrightarrow> shape k (edits_of k a @ es) (old_text a @ x) (new_text a @ y)"
proof (induction a arbitrary: k)
  case Nil
  then show ?case by simp
next
  case (Cons p a)
  obtain g r i where p: "p = (g, r, i)"
    by (cases p)
  have "shape (k + length g + length r) (edits_of (k + length g + length r) a @ es) (old_text a @ x) (new_text a @ y)"
    by (rule Cons.IH) (use Cons.prems p in \<open>simp add: add.assoc\<close>)
  from shape_gap [OF shape_edit [OF this, of i]] show ?case
    by (simp add: p)
qed

text \<open>The beginning of the first gap can be left out.\<close>

definition first_gap :: "layout \<Rightarrow> byte list \<Rightarrow> byte list" where
  "first_gap l z = (case l of [] \<Rightarrow> z | (g, _, _) # _ \<Rightarrow> g)"

lemma shape_drop:
  assumes "m \<le> length (first_gap l z)"
  shows "shape (k + m) (edits_of k l) (drop m (old_text l @ z)) (drop m (new_text l @ z))"
proof (cases l)
  case Nil
  then show ?thesis by simp
next
  case (Cons p l')
  obtain g r i where p: "p = (g, r, i)"
    by (cases p)
  with assms Cons have "m \<le> length g"
    by (simp add: first_gap_def)
  then show ?thesis
    unfolding shape_def Cons p by (intro exI [of _ "(drop m g, r, i) # l'"] exI [of _ z]) simp
qed

lemma take_first_gap:
  "m \<le> length (first_gap l z) \<Longrightarrow> take m (old_text l @ z) = take m (first_gap l z)"
  "m \<le> length (first_gap l z) \<Longrightarrow> take m (new_text l @ z) = take m (first_gap l z)"
  by (cases l; auto simp: first_gap_def)+

text \<open>Layouts are the fitting edits, and what they mean.\<close>

lemma fits_layout:
  "fits c t es \<Longrightarrow> c \<le> length t \<Longrightarrow> \<exists>l z. es = edits_of c l \<and> drop c t = old_text l @ z"
proof (induction es arbitrary: c)
  case Nil
  then show ?case
    by (intro exI [of _ "[]"] exI [of _ "drop c t"]) simp
next
  case (Cons e es)
  then have e: "c \<le> re_offset e" "re_end e \<le> length t" "sub (re_offset e) (re_end e) t = re_removed e"
    and "fits (re_end e) t es"
    by auto
  with Cons.IH [of "re_end e"] obtain l z where l: "es = edits_of (re_end e) l" "drop (re_end e) t = old_text l @ z"
    by blast
  have "drop c t = sub c (re_offset e) t @ re_removed e @ drop (re_end e) t"
  proof -
    have "drop c t = sub c (length t) t"
      by (simp add: sub_def)
    also have "\<dots> = sub c (re_offset e) t @ sub (re_offset e) (re_end e) t @ sub (re_end e) (length t) t"
      using sub_split [of c "re_offset e" "length t" t] sub_split [of "re_offset e" "re_end e" "length t" t] e(1,2)
      by simp
    finally show ?thesis
      by (simp add: e(3)) (simp add: sub_def)
  qed
  moreover have "length (sub c (re_offset e) t) = re_offset e - c"
    using e by (simp add: length_sub)
  ultimately show ?case
    using l e(1) by (intro exI [of _ "(sub c (re_offset e) t, re_removed e, re_inserted e) # l"] exI [of _ z])
      (simp add: add.assoc)
qed

lemma shape_fits:
  "fits (length pre) (pre @ old_text l @ z) (edits_of (length pre) l) \<and>
   render (edits_of (length pre) l) (pre @ old_text l @ z) = pre @ new_text l @ z"
proof (induction l arbitrary: pre)
  case Nil
  then show ?case by simp
next
  case (Cons p l)
  obtain g r i where p: "p = (g, r, i)"
    by (cases p)
  have IH: "fits (length pre + length g + length r) (pre @ g @ r @ old_text l @ z)
        (edits_of (length pre + length g + length r) l)"
    "render (edits_of (length pre + length g + length r) l) (pre @ g @ r @ old_text l @ z) =
        pre @ g @ r @ new_text l @ z"
    using Cons.IH [of "pre @ g @ r"] by (simp_all add: add.assoc)
  have "sub (length pre + length g) (length pre + length g + length r) (pre @ g @ r @ old_text l @ z) = r"
    by (simp add: sub_def)
  then show ?case
    using IH by (simp add: p splice_text_def replace_range_def)
qed

lemma shape_iff: "shape 0 es x y \<longleftrightarrow> fits 0 x es \<and> y = render es x"
proof
  assume "shape 0 es x y"
  then show "fits 0 x es \<and> y = render es x"
    using shape_fits [of "[]"] by (auto simp: shape_def)
next
  assume *: "fits 0 x es \<and> y = render es x"
  with fits_layout [of 0 x es] obtain l z where l: "es = edits_of 0 l" "x = old_text l @ z"
    by auto
  with * shape_fits [of "[]" l z] have "y = new_text l @ z"
    by simp
  with l show "shape 0 es x y"
    by (auto simp: shape_def)
qed

section \<open>The loops over a layout\<close>

lemma to_u64_int [simp]: "n \<le> usize_max \<Longrightarrow> to_u64 (int n) = Inr n"
  by (simp add: to_u64_def)

lemma produced_layout:
  "n + length g \<le> usize_max \<Longrightarrow>
     produced \<lparr>re_offset = k + length g, re_removed = r, re_inserted = i\<rparr> (int n - int k) = Inr (n + length g)"
  using to_u64_int [of "n + length g"] by (simp add: produced_def add.commute)

lemma delta_layout:
  "int n - int k + delta \<lparr>re_offset = o', re_removed = r, re_inserted = i\<rparr> =
     int (n + length g + length i) - int (k + length g + length r)"
  by (simp add: delta_def)

definition touches_from :: "nat \<Rightarrow> nat \<Rightarrow> layout \<Rightarrow> bool" where
  "touches_from start n l = (case l of [] \<Rightarrow> True | (g, _, i) # _ \<Rightarrow> start \<le> n + length g + length i)"

definition starts_after :: "nat \<Rightarrow> nat \<Rightarrow> layout \<Rightarrow> bool" where
  "starts_after stop n l = (case l of [] \<Rightarrow> True | (g, _, _) # _ \<Rightarrow> stop < n + length g)"

lemma edits_before_layout:
  assumes "n + length (new_text l) \<le> usize_max" "n \<le> start"
  obtains a b where "l = a @ b" "n + length (new_text a) \<le> start"
    "touches_from start (n + length (new_text a)) b"
    "edits_before start (edits_of k l) first (int n - int k) =
       Inr (first + length a, int (n + length (new_text a)) - int (k + length (old_text a)))"
  using assms
proof (induction l arbitrary: n k first thesis)
  case Nil
  then show ?case
    by (intro Nil(1) [of "[]" "[]"]) (simp_all add: touches_from_def)
next
  case (Cons p l)
  obtain g r i where p: "p = (g, r, i)"
    by (cases p)
  have bound: "n + length g \<le> usize_max"
    using Cons.prems(2) p by simp
  show ?case
  proof (cases "start \<le> n + length g + length i")
    case True
    then show ?thesis
      using bound Cons.prems(3)
      by (intro Cons.prems(1) [of "[]" "p # l"]) (simp_all add: p produced_layout touches_from_def)
  next
    case False
    have "n + length g + length i + length (new_text l) \<le> usize_max" "n + length g + length i \<le> start"
      using Cons.prems(2) p False by simp_all
    then obtain a b where ab: "l = a @ b" "n + length g + length i + length (new_text a) \<le> start"
      "touches_from start (n + length g + length i + length (new_text a)) b"
      "edits_before start (edits_of (k + length g + length r) l) (Suc first)
         (int (n + length g + length i) - int (k + length g + length r)) =
       Inr (Suc first + length a, int (n + length g + length i + length (new_text a)) -
         int (k + length g + length r + length (old_text a)))"
      by (rule Cons.IH [rotated])
    show ?thesis
    proof (rule Cons.prems(1) [of "p # a" b])
      show "edits_before start (edits_of k (p # l)) first (int n - int k) =
          Inr (first + length (p # a), int (n + length (new_text (p # a))) - int (k + length (old_text (p # a))))"
        using False bound ab(4) by (simp add: p produced_layout delta_layout [where g = g] add.assoc)
    qed (use ab p in \<open>simp_all add: add.assoc\<close>)
  qed
qed

lemma edits_touched_layout:
  assumes "n + length (new_text l) \<le> usize_max"
  obtains c d where "l = c @ d" "\<forall>p\<in>set (positions n c). p \<le> stop"
    "starts_after stop (n + length (new_text c)) d"
    "edits_touched stop (edits_of k l) (int n - int k) = Inr (positions n c)"
  using assms
proof (induction l arbitrary: n k thesis)
  case Nil
  then show ?case
    by (intro Nil(1) [of "[]" "[]"]) (simp_all add: starts_after_def)
next
  case (Cons p l)
  obtain g r i where p: "p = (g, r, i)"
    by (cases p)
  have bound: "n + length g \<le> usize_max"
    using Cons.prems(2) p by simp
  show ?case
  proof (cases "stop < n + length g")
    case True
    then show ?thesis
      using bound by (intro Cons.prems(1) [of "[]" "p # l"]) (simp_all add: p produced_layout starts_after_def)
  next
    case False
    have "n + length g + length i + length (new_text l) \<le> usize_max"
      using Cons.prems(2) p by simp
    then obtain c d where cd: "l = c @ d" "\<forall>p\<in>set (positions (n + length g + length i) c). p \<le> stop"
      "starts_after stop (n + length g + length i + length (new_text c)) d"
      "edits_touched stop (edits_of (k + length g + length r) l)
         (int (n + length g + length i) - int (k + length g + length r)) =
       Inr (positions (n + length g + length i) c)"
      by (rule Cons.IH [rotated])
    show ?thesis
    proof (rule Cons.prems(1) [of "p # c" d])
      show "edits_touched stop (edits_of k (p # l)) (int n - int k) = Inr (positions n (p # c))"
        using False bound cd(4) by (simp add: p produced_layout delta_layout [where g = g])
    qed (use cd p False in \<open>simp_all add: add.assoc\<close>)
  qed
qed

text \<open>The bytes the new edit removes are those of the text it is applied to.\<close>

lemma removed_between_text:
  assumes "sub (re_offset e) (re_end e) t = re_removed e" "re_end e \<le> length t"
    and "re_offset e \<le> from" "from \<le> to" "to \<le> re_end e"
  shows "removed_between e from to = Inr (sub from to t)"
proof -
  have "sub (from - re_offset e) (to - re_offset e) (re_removed e) =
      sub (from - re_offset e) (to - re_offset e) (sub (re_offset e) (re_end e) t)"
    by (simp only: assms(1))
  also have "\<dots> = sub from to t"
    using assms(3-5) by (simp add: sub_sub)
  finally show ?thesis
    using assms(3-5) by (auto simp: removed_between_def checked_sub_def)
qed

text \<open>One entry of the merge: its gap, and the part of its insertion the new edit covers.\<close>

lemma merge_entry:
  assumes e: "sub start stop t = re_removed e" "re_offset e = start" "re_end e = stop" "stop \<le> length t"
    and t: "t = p @ g @ i @ q" "length p = n"
    and at: "position = n + length g" "position \<le> stop" "start \<le> position + length i"
      "start \<le> cursor" "cursor = max start n"
  shows "merge_removed e start stop ((\<lparr>re_offset = k, re_removed = r, re_inserted = i\<rparr>, position) # es) cursor removed =
     merge_removed e start stop es (max start (position + length i)) (removed @ drop (start - n) g @ r)"
proof -
  let ?from = "max position start" and ?to = "min (position + length i) stop"
  have e': "sub (re_offset e) (re_end e) t = re_removed e" "re_end e \<le> length t"
    using e by simp_all
  have gap: "(if cursor < position then removed_between e cursor position else Inr []) = Inr (drop (start - n) g)"
  proof (cases "cursor < position")
    case True
    then have "removed_between e cursor position = Inr (sub cursor position t)"
      using e at by (intro removed_between_text [OF e']) simp_all
    moreover have "sub cursor position t = drop (cursor - n) g"
      using True at t(2) by (simp add: t(1) sub_def)
    moreover have "cursor - n = start - n"
      using at(5) by simp
    ultimately show ?thesis
      using True by simp
  next
    case False
    then have "g = [] \<or> n + length g \<le> start"
      using at by (auto simp: max_def split: if_splits)
    then have "length g \<le> start - n"
      by auto
    with False show ?thesis
      by simp
  qed
  have seen: "(if ?from < ?to then removed_between e ?from ?to else Inr []) =
      Inr (sub (?from - position) (?to - position) i)"
  proof (cases "?from < ?to")
    case True
    then have "removed_between e ?from ?to = Inr (sub ?from ?to t)"
      using e at by (intro removed_between_text [OF e']) simp_all
    moreover have "sub ?from ?to t = sub (?from - position) (?to - position) i"
    proof -
      have "t = (p @ g) @ i @ q" "length (p @ g) = position"
        using t at(1) by simp_all
      then show ?thesis
        using True by (simp only:) (simp add: sub_append_right sub_append_left)
    qed
    ultimately show ?thesis
      using True by simp
  next
    case False
    then have "?to - position \<le> ?from - position"
      by linarith
    with False show ?thesis
      by (simp only: if_False sub_empty)
  qed
  have "max cursor (position + length i) = max start (position + length i)"
    using at by simp
  with gap seen show ?thesis
    by (simp add: Let_def)
qed

lemma merge_rest:
  assumes e: "sub start stop t = re_removed e" "re_offset e = start" "re_end e = stop" "stop \<le> length t"
  shows "t = p @ new_text c @ q \<Longrightarrow> length p = n \<Longrightarrow> \<forall>x\<in>set (positions n c). x \<le> stop \<Longrightarrow> start \<le> n \<Longrightarrow>
     merge_removed e start stop (zip (edits_of k c) (positions n c)) n removed =
       Inr (n + length (new_text c), removed @ old_text c)"
proof (induction c arbitrary: p n k removed)
  case Nil
  then show ?case by simp
next
  case (Cons x c)
  obtain g r i where x: "x = (g, r, i)"
    by (cases x)
  let ?n = "n + length g + length i"
  have "merge_removed e start stop (zip (edits_of k (x # c)) (positions n (x # c))) n removed =
      merge_removed e start stop (zip (edits_of (k + length g + length r) c) (positions ?n c))
        (max start ?n) (removed @ drop (start - n) g @ r)"
    unfolding x edits_of.simps positions.simps zip_Cons_Cons
    by (rule merge_entry [OF e, where p = p and q = "new_text c @ q"]) (use Cons.prems x in auto)
  moreover have "merge_removed e start stop (zip (edits_of (k + length g + length r) c) (positions ?n c))
        ?n (removed @ g @ r) = Inr (?n + length (new_text c), (removed @ g @ r) @ old_text c)"
    by (rule Cons.IH [where p = "p @ g @ i"]) (use Cons.prems x in auto)
  moreover have "max start ?n = ?n" "start - n = 0"
    using Cons.prems(4) by simp_all
  ultimately show ?case
    by (simp add: x add.assoc)
qed

lemma merge_all:
  assumes e: "sub start stop t = re_removed e" "re_offset e = start" "re_end e = stop" "stop \<le> length t"
    and t: "t = p @ new_text ((g, r, i) # c) @ q" "length p = n"
    and at: "\<forall>x\<in>set (positions n ((g, r, i) # c)). x \<le> stop" "n \<le> start" "start \<le> n + length g + length i"
  shows "merge_removed e start stop (zip (edits_of k ((g, r, i) # c)) (positions n ((g, r, i) # c))) start [] =
     Inr (n + length (new_text ((g, r, i) # c)), drop (start - n) g @ r @ old_text c)"
proof -
  let ?n = "n + length g + length i"
  have "merge_removed e start stop (zip (edits_of k ((g, r, i) # c)) (positions n ((g, r, i) # c))) start [] =
      merge_removed e start stop (zip (edits_of (k + length g + length r) c) (positions ?n c))
        (max start ?n) ([] @ drop (start - n) g @ r)"
    unfolding edits_of.simps positions.simps zip_Cons_Cons
    by (rule merge_entry [OF e, where p = p and q = "new_text c @ q"]) (use t at in auto)
  moreover have "merge_removed e start stop (zip (edits_of (k + length g + length r) c) (positions ?n c))
        ?n (drop (start - n) g @ r) = Inr (?n + length (new_text c), (drop (start - n) g @ r) @ old_text c)"
    by (rule merge_rest [OF e, where p = "p @ g @ i"]) (use t at in auto)
  moreover have "max start ?n = ?n"
    using at by simp
  ultimately show ?thesis
    by (simp add: add.assoc)
qed

section \<open>One edit folds into the batch\<close>

lemma shape_merge:
  assumes "shape (k + length g + length r) es x y"
  shows "shape k ((if r \<noteq> i then [\<lparr>re_offset = k + length g, re_removed = r, re_inserted = i\<rparr>] else []) @ es)
           (g @ r @ x) (g @ i @ y)"
proof (cases "r = i")
  case True
  with shape_gap [of k "g @ r" es x y] assms show ?thesis
    by (simp add: add.assoc)
next
  case False
  with shape_gap [OF shape_edit [OF assms]] show ?thesis
    by simp
qed

lemma compose_untouched:
  assumes l: "batch = edits_of 0 (a @ d)" and x: "x = old_text (a @ d) @ z" and y: "y = new_text (a @ d) @ z"
    and e: "sub start stop y = re_removed e" "re_offset e = start" "re_end e = stop" "stop \<le> length y"
    and at: "length (new_text a) \<le> start" "starts_after stop (length (new_text a)) d"
    and ne: "re_removed e \<noteq> re_inserted e"
  shows "shape 0 (edits_of 0 a @ e\<lparr>re_offset := length (old_text a) + (start - length (new_text a))\<rparr> #
           edits_of (length (old_text a)) d) x (splice_text e y)"
    and "length (old_text a) + (start - length (new_text a)) \<le> length x"
proof -
  let ?n = "length (new_text a)" and ?k = "length (old_text a)"
  let ?m1 = "start - ?n" and ?m2 = "stop - ?n"
  have le: "start \<le> stop"
    using e(2,3) by auto
  have m2: "?m2 \<le> length (first_gap d z)"
    using at(2) e(4) by (cases d) (auto simp: starts_after_def first_gap_def y)
  have len: "length (re_removed e) = stop - start"
    using e(2,3) by auto
  have removed: "re_removed e = sub ?m1 ?m2 (new_text d @ z)"
    using e(1) at(1) by (simp add: y sub_append_right)
  have same: "take ?m2 (old_text d @ z) = take ?m2 (new_text d @ z)"
    using take_first_gap [OF m2] by simp
  have "take ?m1 (take ?m2 w) = take ?m1 w" for w :: "byte list"
    using le by simp
  with same have same1: "take ?m1 (old_text d @ z) = take ?m1 (new_text d @ z)"
    by metis
  have cut: "take ?m1 (old_text d @ z) @ re_removed e @ drop ?m2 (old_text d @ z) = old_text d @ z"
  proof -
    have "take ?m2 (new_text d @ z) = take ?m1 (new_text d @ z) @ re_removed e"
      using le at(1) sub_split [of 0 ?m1 ?m2 "new_text d @ z"] by (simp only: removed sub_0_take)
    then show ?thesis
      by (metis append_assoc append_take_drop_id same same1)
  qed
  let ?g = "take ?m1 (old_text d @ z)"
  have "length (first_gap d z) \<le> length (old_text d @ z)"
    by (cases d) (auto simp: first_gap_def)
  with m2 le have len_g: "length ?g = ?m1"
    by simp
  have "?k + length ?g + length (re_removed e) = ?k + ?m2"
    unfolding len_g len using le at(1) by simp
  with shape_drop [OF m2, of ?k] have "shape (?k + length ?g + length (re_removed e)) (edits_of ?k d)
      (drop ?m2 (old_text d @ z)) (drop ?m2 (new_text d @ z))"
    by (simp only:)
  from shape_merge [OF this, of "re_inserted e"] ne
  have "shape ?k ([\<lparr>re_offset = ?k + ?m1, re_removed = re_removed e, re_inserted = re_inserted e\<rparr>] @ edits_of ?k d)
      (?g @ re_removed e @ drop ?m2 (old_text d @ z)) (?g @ re_inserted e @ drop ?m2 (new_text d @ z))"
    by (simp only: len_g if_True simp_thms)
  from shape_prefix [of 0 a, simplified, OF this [unfolded cut]]
  have "shape 0 (edits_of 0 a @ \<lparr>re_offset = ?k + ?m1, re_removed = re_removed e, re_inserted = re_inserted e\<rparr> # edits_of ?k d)
      x (new_text a @ take ?m1 (new_text d @ z) @ re_inserted e @ drop ?m2 (new_text d @ z))"
    by (simp only: x same1 old_new_append append_assoc append_Cons append_Nil)
  moreover have "splice_text e y = new_text a @ take ?m1 (new_text d @ z) @ re_inserted e @ drop ?m2 (new_text d @ z)"
    using at(1) le e(2,3) by (simp add: splice_text_def replace_range_def y)
  moreover have "e\<lparr>re_offset := ?k + ?m1\<rparr> = \<lparr>re_offset = ?k + ?m1, re_removed = re_removed e, re_inserted = re_inserted e\<rparr>"
    by (cases e) simp
  ultimately show "shape 0 (edits_of 0 a @ e\<lparr>re_offset := ?k + ?m1\<rparr> # edits_of ?k d) x (splice_text e y)"
    by (simp only:)
  have "length (first_gap d z) \<le> length (old_text d @ z)"
    by (cases d) (auto simp: first_gap_def)
  with m2 le show "?k + ?m1 \<le> length x"
    by (simp add: x)
qed

lemma compose_merged:
  assumes l: "x = old_text (a @ c @ d) @ z" "y = new_text (a @ c @ d) @ z"
    and c: "c = (g, r, i) # c'" "c = c0 @ [(g', r', i')]"
    and e: "sub start stop y = re_removed e" "re_offset e = start" "re_end e = stop" "stop \<le> length y"
    and at: "length (new_text a) \<le> start" "start \<le> length (new_text a) + length g + length i"
      "length (new_text (a @ c0)) + length g' \<le> stop"
      "starts_after stop (length (new_text (a @ c))) d"
  defines "n \<equiv> length (new_text a)" and "k \<equiv> length (old_text a)"
  defines "m \<equiv> stop - length (new_text (a @ c))"
  defines "removed \<equiv> drop (start - n) g @ r @ old_text c' @ take m (new_text d @ z)"
    and "inserted \<equiv> take (start - n - length g) i @ re_inserted e @
      drop (stop - length (new_text (a @ c0)) - length g') i'"
  shows "shape 0 (edits_of 0 a @
           (if removed \<noteq> inserted
            then [\<lparr>re_offset = k + length (take (start - n) g), re_removed = removed, re_inserted = inserted\<rparr>]
            else []) @ edits_of (length (old_text (a @ c))) d) x (splice_text e y)"
proof -
  let ?g1 = "take (start - n) g"
  let ?k' = "length (old_text (a @ c))"
  have m: "m \<le> length (first_gap d z)"
    using at(4) e(4) by (cases d) (auto simp: starts_after_def first_gap_def l(2) m_def)
  have same: "take m (old_text d @ z) = take m (new_text d @ z)"
    using take_first_gap [OF m] by simp
  have "length (first_gap d z) \<le> length (new_text d @ z)"
    by (cases d) (auto simp: first_gap_def)
  then have len_m: "length (take m (new_text d @ z)) = m"
    using m by simp
  have old_c: "old_text c = ?g1 @ drop (start - n) g @ r @ old_text c'"
    by (simp add: c(1))
  have len: "k + length ?g1 + length removed = ?k' + m"
  proof -
    have "length (old_text c) = length g + length r + length (old_text c')"
      by (simp add: c(1))
    moreover have "length ?g1 + length (drop (start - n) g) = length g"
      by simp
    ultimately show ?thesis
      using len_m by (simp only: removed_def k_def old_new_append length_append)
  qed
  have "shape (?k' + m) (edits_of ?k' d) (drop m (old_text d @ z)) (drop m (new_text d @ z))"
    by (rule shape_drop [OF m])
  then have "shape k ((if removed \<noteq> inserted
        then [\<lparr>re_offset = k + length ?g1, re_removed = removed, re_inserted = inserted\<rparr>] else []) @ edits_of ?k' d)
      (?g1 @ removed @ drop m (old_text d @ z)) (?g1 @ inserted @ drop m (new_text d @ z))"
    using shape_merge [of k ?g1 removed "edits_of ?k' d" "drop m (old_text d @ z)" "drop m (new_text d @ z)" inserted]
    by (simp only: len)
  then have shape: "shape 0 (edits_of 0 a @ (if removed \<noteq> inserted
        then [\<lparr>re_offset = k + length ?g1, re_removed = removed, re_inserted = inserted\<rparr>] else []) @ edits_of ?k' d)
      (old_text a @ ?g1 @ removed @ drop m (old_text d @ z))
      (new_text a @ ?g1 @ inserted @ drop m (new_text d @ z))"
    unfolding k_def by (intro shape_prefix) simp
  have "removed = drop (start - n) g @ r @ old_text c' @ take m (old_text d @ z)"
    by (simp only: removed_def same)
  then have "old_text a @ ?g1 @ removed @ drop m (old_text d @ z) = x"
    using old_c by (simp only: l(1) old_new_append append_assoc append_take_drop_id)
  moreover have "new_text a @ ?g1 @ inserted @ drop m (new_text d @ z) = splice_text e y"
  proof -
    have "y = new_text a @ g @ i @ new_text c' @ new_text d @ z"
      by (simp add: l(2) c(1))
    then have head: "take start y = new_text a @ ?g1 @ take (start - n - length g) i"
      using at(1,2) by (simp add: n_def)
    have split: "y = (new_text (a @ c0) @ g') @ i' @ new_text d @ z"
      by (simp add: l(2) c(2))
    have len_c: "length (new_text (a @ c)) = length (new_text (a @ c0)) + length g' + length i'"
      by (simp add: c(2))
    have "drop stop y = drop (stop - length (new_text (a @ c0) @ g')) (i' @ new_text d @ z)"
      using at(3) by (simp only: split drop_append) simp
    also have "\<dots> = drop (stop - length (new_text (a @ c0)) - length g') i' @ drop m (new_text d @ z)"
      by (simp only: m_def len_c drop_append length_append diff_diff_left)
    finally have "drop stop y =
        drop (stop - length (new_text (a @ c0)) - length g') i' @ drop m (new_text d @ z)" .
    with head show ?thesis
      using e(2,3) by (simp add: splice_text_def replace_range_def inserted_def)
  qed
  ultimately show ?thesis
    using shape by simp
qed

lemma compose_edit_touched:
  assumes "re_removed e \<noteq> re_inserted e"
    and "edits_before (re_offset e) batch 0 0 = Inr (first, shift)"
    and "edits_touched (re_end e) (drop first batch) shift = Inr touched" "touched \<noteq> []"
    and "merge_removed e (re_offset e) (re_end e)
      (zip (sub first (first + length touched) batch) touched) (re_offset e) [] = Inr (cursor, removed)"
    and "(if cursor < re_end e then removed_between e cursor (re_end e) else Inr []) = Inr rest"
    and "(if re_offset e < hd touched
      then ok_or InvalidData (checked_sub (re_offset (batch ! first)) (hd touched - re_offset e))
      else Inr (re_offset (batch ! first))) = Inr offset"
    and "inserted =
      (if hd touched < re_offset e then take (re_offset e - hd touched) (re_inserted (batch ! first)) else []) @
      re_inserted e @
      (if re_end e < last touched + length (re_inserted (batch ! (first + length touched - 1)))
       then drop (re_end e - last touched) (re_inserted (batch ! (first + length touched - 1))) else [])"
  shows "compose_edit batch e = Inr (take first batch @
      (if removed @ rest \<noteq> inserted
       then [\<lparr>re_offset = offset, re_removed = removed @ rest, re_inserted = inserted\<rparr>] else []) @
      drop (first + length touched) batch)"
  using assms(1-7) by (simp add: compose_edit_def Let_def assms(8))

lemma compose_edit_shape:
  assumes shape: "shape 0 batch x y"
    and e: "sub (re_offset e) (re_end e) y = re_removed e" "re_end e \<le> length y"
    and bounds: "length x \<le> usize_max" "length y \<le> usize_max"
  obtains batch' where "compose_edit batch e = Inr batch'" "shape 0 batch' x (splice_text e y)"
proof (cases "re_removed e = re_inserted e")
  case True
  have "splice_text e y = y"
    using e take_sub_drop [of "re_offset e" "re_end e" y] True by (simp add: splice_text_def replace_range_def)
  with True shape that [of batch] show thesis
    by (simp add: compose_edit_def)
next
  case ne: False
  let ?start = "re_offset e" and ?stop = "re_end e"
  obtain l z where l: "batch = edits_of 0 l" "x = old_text l @ z" "y = new_text l @ z"
    using shape by (auto simp: shape_def)
  have bound: "0 + length (new_text l) \<le> usize_max"
    using bounds(2) l(3) by simp
  obtain a b where ab: "l = a @ b" "length (new_text a) \<le> ?start"
    "touches_from ?start (length (new_text a)) b"
    "edits_before ?start batch 0 0 =
       Inr (length a, int (length (new_text a)) - int (length (old_text a)))"
    using edits_before_layout [OF bound le0, of ?start 0 0] l(1) by (auto simp del: of_nat_add)
  let ?n = "length (new_text a)" and ?k = "length (old_text a)"
  have "?n + length (new_text b) \<le> usize_max"
    using bound ab(1) by simp
  then obtain c d where cd: "b = c @ d" "\<forall>p\<in>set (positions ?n c). p \<le> ?stop"
    "starts_after ?stop (?n + length (new_text c)) d"
    "edits_touched ?stop (edits_of ?k b) (int ?n - int ?k) = Inr (positions ?n c)"
    by (rule edits_touched_layout)
  have batch: "batch = edits_of 0 a @ edits_of ?k b" "drop (length a) batch = edits_of ?k b"
    "take (length a) batch = edits_of 0 a"
    using l(1) ab(1) by simp_all
  show thesis
  proof (cases c)
    case Nil
    with cd have d: "b = d" "starts_after ?stop ?n d"
      by simp_all
    note u = compose_untouched [of batch a d x z y ?start ?stop e, OF _ _ _ e(1) refl refl e(2) ab(2) d(2) ne]
    have "int ?start - (int ?n - int ?k) = int (?k + (?start - ?n))"
      using ab(2) by simp
    moreover have "?k + (?start - ?n) \<le> usize_max"
      using u(2) l ab(1) d(1) bounds(1) by simp
    ultimately have "to_u64 (int ?start - (int ?n - int ?k)) = Inr (?k + (?start - ?n))"
      by (simp only: to_u64_int)
    then have "compose_edit batch e = Inr (edits_of 0 a @ e\<lparr>re_offset := ?k + (?start - ?n)\<rparr> # edits_of ?k d)"
      using ne ab(4) cd(4) batch Nil d(1) by (simp add: compose_edit_def Let_def)
    with u(1) l ab(1) d(1) show thesis
      by (intro that) simp_all
  next
    case (Cons p c')
    obtain g r i where p: "p = (g, r, i)"
      by (cases p)
    obtain c0 q where c0: "c = c0 @ [q]"
      using Cons by (metis append_butlast_last_id list.distinct(1))
    obtain g' r' i' where q: "q = (g', r', i')"
      by (cases q)
    have c: "c = (g, r, i) # c'" "c = c0 @ [(g', r', i')]"
      using Cons p c0 q by simp_all
    let ?head_at = "?n + length g" and ?tail_at = "length (new_text (a @ c0)) + length g'"
    let ?m = "?stop - length (new_text (a @ c))"
    have "?tail_at \<in> set (positions ?n c)"
      unfolding c(2) by (simp add: positions_append)
    then have "?tail_at \<le> ?stop"
      by (rule bspec [OF cd(2)])
    moreover have "?start \<le> ?n + length g + length i"
      using ab(3) cd(1) c(1) by (simp add: touches_from_def)
    ultimately have at: "?start \<le> ?n + length g + length i" "?tail_at \<le> ?stop"
      by blast+
    have y: "y = new_text (a @ c @ d) @ z" and x: "x = old_text (a @ c @ d) @ z"
      using l ab(1) cd(1) by simp_all
    have after: "starts_after ?stop (length (new_text (a @ c))) d"
      using cd(3) by simp
    have merge: "merge_removed e ?start ?stop (zip (edits_of ?k c) (positions ?n c)) ?start [] =
        Inr (?n + length (new_text c), drop (?start - ?n) g @ r @ old_text c')"
      unfolding c(1)
      by (rule merge_all [OF e(1) refl refl e(2), where p = "new_text a" and q = "new_text d @ z"])
        (use y c(1) cd(2) ab(2) at(1) in auto)
    have rest: "(if ?n + length (new_text c) < ?stop then removed_between e (?n + length (new_text c)) ?stop else Inr []) =
        Inr (take ?m (new_text d @ z))"
    proof (cases "?n + length (new_text c) < ?stop")
      case True
      have "?start \<le> ?n + length (new_text c)"
        using at(1) by (simp add: c(1))
      then have "removed_between e (?n + length (new_text c)) ?stop = Inr (sub (?n + length (new_text c)) ?stop y)"
        using True by (intro removed_between_text [OF e]) simp_all
      moreover have "sub (?n + length (new_text c)) ?stop y = take ?m (new_text d @ z)"
        by (simp add: y sub_append_right sub_def)
      ultimately show ?thesis
        using True by simp
    next
      case False
      then show ?thesis
        by simp
    qed
    have head: "(if ?head_at < ?start then take (?start - ?head_at) i else []) = take (?start - ?n - length g) i"
      by simp
    have tail: "(if ?stop < ?tail_at + length i' then drop (?stop - ?tail_at) i' else []) =
        drop (?stop - length (new_text (a @ c0)) - length g') i'"
      by (simp add: add.assoc)
    have offset: "(if ?start < ?head_at
          then ok_or InvalidData (checked_sub (?k + length g) (?head_at - ?start)) else Inr (?k + length g)) =
        Inr (?k + length (take (?start - ?n) g))"
      using ab(2) by (auto simp: checked_sub_def min_def)
    have "length a + length c - 1 = length (edits_of 0 a @ edits_of ?k c0)"
      by (simp add: c(2))
    moreover have "re_inserted (batch ! length (edits_of 0 a @ edits_of ?k c0)) = i'"
      using batch(1) unfolding cd(1) c(2) by (simp add: nth_append)
    ultimately have nth: "batch ! length a = \<lparr>re_offset = ?k + length g, re_removed = r, re_inserted = i\<rparr>"
      "re_inserted (batch ! (length a + length c - 1)) = i'"
      using batch(1) cd(1) c(1) by (simp_all only: nth_append) simp
    have ends: "hd (positions ?n c) = ?head_at" "last (positions ?n c) = ?tail_at"
      by (simp add: c(1), unfold c(2)) (simp add: positions_append)
    have parts: "sub (length a) (length a + length c) batch = edits_of ?k c"
      "drop (length a + length c) batch = edits_of (length (old_text (a @ c))) d"
      using batch(1) cd(1) by (simp_all add: sub_def)
    have inserted: "take (?start - ?n - length g) i @ re_inserted e @
          drop (?stop - length (new_text (a @ c0)) - length g') i' =
        (if hd (positions ?n c) < ?start then take (?start - hd (positions ?n c)) (re_inserted (batch ! length a)) else []) @
        re_inserted e @
        (if ?stop < last (positions ?n c) + length (re_inserted (batch ! (length a + length (positions ?n c) - 1)))
         then drop (?stop - last (positions ?n c)) (re_inserted (batch ! (length a + length (positions ?n c) - 1))) else [])"
      unfolding ends length_positions nth by (simp only: recovery_edit.select_convs head tail)
    have "positions ?n c \<noteq> []"
      using Cons by simp
    note touched = cd(4) [folded batch(2)] this
    have "compose_edit batch e = Inr (take (length a) batch @
        (if (drop (?start - ?n) g @ r @ old_text c') @ take ?m (new_text d @ z) \<noteq>
            take (?start - ?n - length g) i @ re_inserted e @
              drop (?stop - length (new_text (a @ c0)) - length g') i'
         then [\<lparr>re_offset = ?k + length (take (?start - ?n) g),
                re_removed = (drop (?start - ?n) g @ r @ old_text c') @ take ?m (new_text d @ z),
                re_inserted = take (?start - ?n - length g) i @ re_inserted e @
                  drop (?stop - length (new_text (a @ c0)) - length g') i'\<rparr>]
         else []) @ drop (length a + length (positions ?n c)) batch)"
    proof (rule compose_edit_touched [OF ne ab(4) touched _ rest _ inserted])
      show "merge_removed e ?start ?stop
          (zip (sub (length a) (length a + length (positions ?n c)) batch) (positions ?n c)) ?start [] =
          Inr (?n + length (new_text c), drop (?start - ?n) g @ r @ old_text c')"
        unfolding length_positions parts(1) by (rule merge)
      show "(if ?start < hd (positions ?n c)
          then ok_or InvalidData (checked_sub (re_offset (batch ! length a)) (hd (positions ?n c) - ?start))
          else Inr (re_offset (batch ! length a))) = Inr (?k + length (take (?start - ?n) g))"
        unfolding ends(1) nth(1) recovery_edit.select_convs by (rule offset)
    qed
    then have "compose_edit batch e = Inr (edits_of 0 a @
        (if drop (?start - ?n) g @ r @ old_text c' @ take ?m (new_text d @ z) \<noteq>
            take (?start - ?n - length g) i @ re_inserted e @
              drop (?stop - length (new_text (a @ c0)) - length g') i'
         then [\<lparr>re_offset = ?k + length (take (?start - ?n) g),
                re_removed = drop (?start - ?n) g @ r @ old_text c' @ take ?m (new_text d @ z),
                re_inserted = take (?start - ?n - length g) i @ re_inserted e @
                  drop (?stop - length (new_text (a @ c0)) - length g') i'\<rparr>]
         else []) @ edits_of (length (old_text (a @ c))) d)"
      unfolding length_positions parts(2) batch(3) append_assoc .
    then show thesis
      by (rule that [OF _ compose_merged [OF x y c e(1) refl refl e(2) ab(2) at after]])
  qed
qed

section \<open>A transaction folds into the batch\<close>

lemma fits_middle:
  "fits c t (as @ e # bs) \<Longrightarrow>
     re_end e \<le> length t \<and> sub (re_offset e) (re_end e) t = re_removed e \<and> fits (re_end e) t bs \<and>
     c \<le> re_offset e \<and> (\<forall>a\<in>set as. re_end a \<le> re_offset e)"
proof (induction as arbitrary: c)
  case Nil
  then show ?case by simp
next
  case (Cons a as)
  then have "fits (re_end a) t (as @ e # bs)" "c \<le> re_offset a"
    by simp_all
  with Cons.IH [of "re_end a"] show ?case
    by auto
qed

definition inserted_size :: "recovery_edit list \<Rightarrow> nat" where
  "inserted_size es = sum_list (map (length \<circ> re_inserted) es)"

lemma compose_loop_shape:
  assumes "fits 0 y (rev rs @ suf)" "shape 0 composed x (render suf y)" "\<forall>e\<in>set rs. re_end e \<le> following"
    and "length x \<le> usize_max" "length y + inserted_size (rev rs @ suf) \<le> usize_max"
  obtains composed' where "compose_loop composed following rs = Inr composed'"
    "shape 0 composed' x (render (rev rs @ suf) y)"
  using assms
proof (induction rs arbitrary: suf composed following thesis)
  case Nil
  then show ?case by simp
next
  case (Cons e rs)
  have "fits 0 y (rev rs @ e # suf)"
    using Cons.prems(2) by simp
  from fits_middle [OF this] have e: "re_end e \<le> length y" "sub (re_offset e) (re_end e) y = re_removed e"
    and suf: "fits (re_end e) y suf" and before: "\<forall>a\<in>set rs. re_end a \<le> re_offset e"
    by auto
  note same = take_render [OF suf e(1)]
  have "sub (re_offset e) (re_end e) (render suf y) = sub (re_offset e) (re_end e) (take (re_end e) (render suf y))"
    by (simp add: sub_def drop_take)
  also have "\<dots> = sub (re_offset e) (re_end e) (take (re_end e) y)"
    using same by simp
  also have "\<dots> = re_removed e"
    using e(2) by (simp add: sub_def drop_take)
  finally have removed: "sub (re_offset e) (re_end e) (render suf y) = re_removed e" .
  have "length (render suf y) \<le> usize_max"
    using length_render [OF suf e(1)] Cons.prems(6) by (simp add: inserted_size_def)
  with Cons.prems(3) removed same Cons.prems(5) obtain b where
    b: "compose_edit composed e = Inr b" "shape 0 b x (splice_text e (render suf y))"
    by (blast elim: compose_edit_shape)
  have "fits 0 y (rev rs @ e # suf)" "shape 0 b x (render (e # suf) y)"
    "length y + inserted_size (rev rs @ e # suf) \<le> usize_max"
    using Cons.prems(2,6) b(2) by simp_all
  then obtain c where c: "compose_loop b (re_offset e) rs = Inr c" "shape 0 c x (render (rev rs @ e # suf) y)"
    using Cons.IH [where suf = "e # suf" and composed = b and following = "re_offset e"] before Cons.prems(5)
    by blast
  have "compose_loop composed following (e # rs) = Inr c"
    using b(1) c(1) e(1) Cons.prems(4,6) by (simp add: checked_add_def)
  with c(2) show ?case
    by (intro Cons.prems(1)) simp_all
qed

lemma fits_ends: "fits c t es \<Longrightarrow> \<forall>e\<in>set es. re_end e \<le> length t"
  by (induction es arbitrary: c) auto

lemma compose_edits_shape:
  assumes "fits 0 t batch" "fits 0 (render batch t) next_edits"
    and "length t \<le> usize_max" "length (render batch t) + inserted_size next_edits \<le> usize_max"
  obtains composed where "compose_edits batch next_edits = Inr composed"
    "shape 0 composed t (render next_edits (render batch t))"
proof -
  have "shape 0 batch t (render [] (render batch t))"
    using assms(1) by (simp add: shape_iff)
  moreover have "\<forall>e\<in>set (rev next_edits). re_end e \<le> usize_max"
    using fits_ends [OF assms(2)] assms(4) by fastforce
  ultimately show thesis
    using compose_loop_shape [of "render batch t" "rev next_edits" "[]" batch t usize_max] assms that
    by (auto simp: compose_edits_def)
qed

text \<open>C6: when a batch of edits fits a text and the next transaction fits the text the batch produces,
  the two compose: the composed batch fits the first text and produces, alone, the text both
  produce.
\<close>

theorem compose_edits_correct:
  assumes "fits 0 t batch" "fits 0 (render batch t) next_edits"
    and "length t \<le> usize_max" "length (render batch t) + inserted_size next_edits \<le> usize_max"
  shows "\<exists>composed. compose_edits batch next_edits = Inr composed \<and> fits 0 t composed \<and>
    render composed t = render next_edits (render batch t)"
  using assms by (rule compose_edits_shape) (auto simp: shape_iff)

theorem compose_edits_correct_witness:
  "\<exists>composed. compose_edits
      [\<lparr>re_offset = 1, re_removed = [98], re_inserted = [120, 121]\<rparr>]
      [\<lparr>re_offset = 2, re_removed = [121, 99], re_inserted = [122]\<rparr>] = Inr composed \<and>
    fits 0 [97, 98, 99, 100 :: byte] composed \<and>
    render composed [97, 98, 99, 100] = [97, 120, 122, 100]"
  using compose_edits_correct [of "[97, 98, 99, 100]"
      "[\<lparr>re_offset = 1, re_removed = [98], re_inserted = [120, 121]\<rparr>]"
      "[\<lparr>re_offset = 2, re_removed = [121, 99], re_inserted = [122]\<rparr>]"]
  by (simp add: splice_text_def replace_range_def sub_def inserted_size_def usize_max_def)

section \<open>Refusal\<close>

lemma to_u64_error: "to_u64 i = Inl x \<Longrightarrow> x = InvalidData"
  by (auto simp: to_u64_def split: if_splits)

lemma removed_between_error: "removed_between e from to = Inl x \<Longrightarrow> x = InvalidData"
  by (auto simp: removed_between_def split: option.splits if_splits)

lemma edits_before_error: "edits_before start es first shift = Inl x \<Longrightarrow> x = InvalidData"
  by (induction es arbitrary: first shift)
    (auto simp: and_then_Inl_iff produced_def split: if_splits dest: to_u64_error)

lemma edits_touched_error: "edits_touched stop es shift = Inl x \<Longrightarrow> x = InvalidData"
  by (induction es arbitrary: shift)
    (auto simp: and_then_Inl_iff produced_def split: if_splits dest: to_u64_error)

lemma merge_removed_error: "merge_removed e start stop es cursor removed = Inl x \<Longrightarrow> x = InvalidData"
  by (induction e start stop es cursor removed rule: merge_removed.induct)
    (auto simp: and_then_Inl_iff Let_def split: if_splits dest: removed_between_error)

lemma compose_edit_error: "compose_edit batch e = Inl x \<Longrightarrow> x = InvalidData"
  by (auto simp: compose_edit_def and_then_Inl_iff Let_def ok_or_Inl_iff split: if_splits prod.splits
      dest: edits_before_error edits_touched_error to_u64_error merge_removed_error removed_between_error)

lemma compose_loop_error: "compose_loop composed following es = Inl x \<Longrightarrow> x = InvalidData"
  by (induction composed following es rule: compose_loop.induct)
    (auto simp: and_then_Inl_iff split: option.splits if_splits dest: compose_edit_error)

text \<open>A refused composition is always reported as invalid data, and is refused for a reason: the
  next transaction does not fit the text that the batch produces from any text the batch fits.
\<close>

theorem compose_edits_refuses:
  assumes "compose_edits batch next_edits = Inl x" "fits 0 t batch"
    and "length t \<le> usize_max" "length (render batch t) + inserted_size next_edits \<le> usize_max"
  shows "x = InvalidData \<and> \<not> fits 0 (render batch t) next_edits"
proof -
  have "x = InvalidData"
    using assms(1) unfolding compose_edits_def by (rule compose_loop_error)
  moreover have "\<not> fits 0 (render batch t) next_edits"
    using compose_edits_shape [OF assms(2) _ assms(3,4)] assms(1) by (metis Inl_Inr_False)
  ultimately show ?thesis
    by simp
qed

theorem compose_edits_refuses_witness:
  "compose_edits
      [\<lparr>re_offset = 1, re_removed = [98], re_inserted = [120, 121]\<rparr>]
      [\<lparr>re_offset = 2, re_removed = [122, 99], re_inserted = [122]\<rparr>] = Inl InvalidData \<and>
   \<not> fits 0 [97, 120, 121, 99, 100 :: byte] [\<lparr>re_offset = 2, re_removed = [122, 99], re_inserted = [122]\<rparr>]"
proof -
  let ?b = "[\<lparr>re_offset = 1, re_removed = [98], re_inserted = [120, 121]\<rparr>]"
  let ?n = "[\<lparr>re_offset = 2, re_removed = [122, 99], re_inserted = [122 :: byte]\<rparr>]"
  have "compose_edits ?b ?n = Inl InvalidData"
    by (simp add: compose_edits_def compose_edit_def checked_add_def usize_max_def produced_def
        to_u64_def delta_def removed_between_def checked_sub_def sub_def Let_def)
  with compose_edits_refuses [of ?b ?n InvalidData "[97, 98, 99, 100]"] show ?thesis
    by (simp add: splice_text_def replace_range_def sub_def inserted_size_def usize_max_def)
qed

end
