(* ===== verification/Schedule.thy ===== *)
theory Schedule
  imports Recovery
begin

text \<open>
  When edits become durable: the deadline accounting of \<open>RecoverySchedule\<close>,
  crates/file-io/src/recovery/mod.rs. Edits wait in a queue with the instant they were made;
  a receipt from the journal releases those it covers. Instants are milliseconds.
\<close>

section \<open>Operations\<close>

record schedule =
  sd_pending :: "(nat \<times> nat \<times> nat) list"
  sd_last :: "durable_receipt option"
  sd_unavailable :: "string option"

definition schedule_new :: schedule where
  "schedule_new = \<lparr>sd_pending = [], sd_last = None, sd_unavailable = None\<rparr>"

definition edited :: "nat \<Rightarrow> nat \<Rightarrow> nat \<Rightarrow> schedule \<Rightarrow> schedule io" where
  "edited revision bytes now s =
     (if 4096 \<le> length (sd_pending s) \<or>
         (sd_pending s \<noteq> [] \<and> revision \<le> fst (last (sd_pending s))) \<or>
         (case sd_last s of None \<Rightarrow> False | Some r \<Rightarrow> revision \<le> dr_revision r)
      then Inl InvalidData
      else Inr (s\<lparr>sd_pending := sd_pending s @ [(revision, bytes, now)]\<rparr>))"

definition next_deadline :: "schedule \<Rightarrow> nat option" where
  "next_deadline s =
     (if sd_unavailable s \<noteq> None then None
      else
        (case sd_pending s of
           [] \<Rightarrow> None
         | (_, _, time) # _ \<Rightarrow> checked_add time 5000))"

definition pending_bytes :: "schedule \<Rightarrow> nat" where
  "pending_bytes s = foldl (\<lambda>total (_, bytes, _). sat_add total bytes) 0 (sd_pending s)"

definition due :: "nat \<Rightarrow> schedule \<Rightarrow> bool" where
  "due now s =
     (sd_unavailable s = None \<and>
      ((case next_deadline s of None \<Rightarrow> False | Some deadline \<Rightarrow> deadline \<le> now) \<or>
       256 * 1024 \<le> pending_bytes s))"

definition protected :: "durable_receipt \<Rightarrow> schedule \<Rightarrow> schedule" where
  "protected receipt s =
     (if (case sd_last s of None \<Rightarrow> False | Some l \<Rightarrow> dr_revision receipt < dr_revision l) then s
      else \<lparr>sd_pending = dropWhile (\<lambda>p. fst p \<le> dr_revision receipt) (sd_pending s),
            sd_last = Some receipt, sd_unavailable = None\<rparr>)"

definition failed :: "string \<Rightarrow> schedule \<Rightarrow> schedule" where
  "failed message s = s\<lparr>sd_unavailable := Some message\<rparr>"

definition retry :: "schedule \<Rightarrow> schedule" where
  "retry s = s\<lparr>sd_unavailable := None\<rparr>"

section \<open>Runs\<close>

text \<open>The calls in any order, over a clock that never runs backwards.\<close>

inductive schedule_step :: "schedule \<times> nat \<Rightarrow> schedule \<times> nat \<Rightarrow> bool" where
  tick: "now \<le> now' \<Longrightarrow> schedule_step (s, now) (s, now')"
| edit: "edited revision bytes now s = Inr s' \<Longrightarrow> schedule_step (s, now) (s', now)"
| protect: "schedule_step (s, now) (protected receipt s, now)"
| fail: "schedule_step (s, now) (failed message s, now)"
| retry: "schedule_step (s, now) (retry s, now)"

inductive_cases schedule_stepE: "schedule_step p q"

inductive schedule_reachable :: "schedule \<times> nat \<Rightarrow> bool" where
  start: "schedule_reachable (schedule_new, now)"
| step: "schedule_reachable p \<Longrightarrow> schedule_step p q \<Longrightarrow> schedule_reachable q"

definition schedule_inv :: "schedule \<Rightarrow> nat \<Rightarrow> bool" where
  "schedule_inv s now =
     (sorted_wrt (\<lambda>p q. fst p < fst q \<and> snd (snd p) \<le> snd (snd q)) (sd_pending s) \<and>
      (\<forall>p\<in>set (sd_pending s). snd (snd p) \<le> now \<and>
        (case sd_last s of None \<Rightarrow> True | Some r \<Rightarrow> dr_revision r < fst p)) \<and>
      length (sd_pending s) \<le> 4096)"

lemma sorted_last:
  "sorted_wrt (\<lambda>p q. fst p < fst q \<and> R p q) xs \<Longrightarrow> x \<in> set xs \<Longrightarrow> fst x \<le> (fst (last xs) :: nat)"
  by (induction xs) (auto simp: less_imp_le)

lemma edited_inv:
  assumes "schedule_inv s now" "edited revision bytes now s = Inr s'"
  shows "schedule_inv s' now"
proof -
  have "fst p < revision" if "p \<in> set (sd_pending s)" for p
    using assms sorted_last [of "\<lambda>p q. snd (snd p) \<le> snd (snd q)" "sd_pending s" p] that
    by (cases "sd_pending s = []") (auto simp: schedule_inv_def edited_def split: if_splits)
  with assms show ?thesis
    by (fastforce simp: schedule_inv_def edited_def sorted_wrt_append split: if_splits option.splits)
qed

lemma dropWhile_filter:
  "sorted_wrt (\<lambda>p q. fst p < fst q \<and> R p q) xs \<Longrightarrow>
     dropWhile (\<lambda>p. fst p \<le> (n :: nat)) xs = filter (\<lambda>p. n < fst p) xs"
proof (induction xs)
  case Nil
  then show ?case by simp
next
  case (Cons x xs)
  show ?case
  proof (cases "fst x \<le> n")
    case True
    with Cons show ?thesis
      by simp
  next
    case False
    with Cons.prems have "filter (\<lambda>p. n < fst p) xs = xs"
      by (intro filter_True) auto
    with False show ?thesis
      by simp
  qed
qed

lemma protected_pending:
  assumes "schedule_inv s now"
  shows "sd_pending (protected receipt s) =
    (if (case sd_last s of None \<Rightarrow> False | Some l \<Rightarrow> dr_revision receipt < dr_revision l) then sd_pending s
     else filter (\<lambda>p. dr_revision receipt < fst p) (sd_pending s))"
  using assms dropWhile_filter by (auto simp: protected_def schedule_inv_def)

lemma protected_inv:
  assumes "schedule_inv s now"
  shows "schedule_inv (protected receipt s) now"
proof (cases "case sd_last s of None \<Rightarrow> False | Some l \<Rightarrow> dr_revision receipt < dr_revision l")
  case True
  with assms show ?thesis
    by (simp add: protected_def)
next
  case False
  then have "sd_last (protected receipt s) = Some receipt"
    by (simp add: protected_def)
  with assms False protected_pending [OF assms, of receipt] show ?thesis
    by (auto simp: schedule_inv_def sorted_wrt_filter intro: order_trans [OF length_filter_le])
qed

lemma schedule_step_inv: "schedule_step (s, now) (s', now') \<Longrightarrow> schedule_inv s now \<Longrightarrow> schedule_inv s' now'"
proof (induction "(s, now)" "(s', now')" rule: schedule_step.induct)
  case tick
  then show ?case
    by (auto simp: schedule_inv_def intro: order_trans)
next
  case edit
  then show ?case
    by (auto intro: edited_inv)
next
  case protect
  then show ?case
    by (auto intro: protected_inv)
qed (auto simp: schedule_inv_def failed_def retry_def)

lemma reachable_inv: "schedule_reachable (s, now) \<Longrightarrow> schedule_inv s now"
proof (induction "(s, now)" arbitrary: s now rule: schedule_reachable.induct)
  case start
  then show ?case
    by (simp add: schedule_inv_def schedule_new_def)
next
  case (step p)
  obtain s0 n0 where p: "p = (s0, n0)"
    by (cases p)
  with step have "schedule_inv s0 n0" "schedule_step (s0, n0) (s, now)"
    by simp_all
  then show ?case
    by (rule schedule_step_inv [rotated])
qed

section \<open>Properties\<close>

text \<open>An edit stays pending until a receipt covers it: in every reachable state a receipt that is
  not older than the last releases exactly the edits of its revision and before, in order.
\<close>

theorem schedule_releases_covered:
  assumes "schedule_reachable (s, now)"
    and "case sd_last s of None \<Rightarrow> True | Some l \<Rightarrow> dr_revision l \<le> dr_revision receipt"
  shows "sd_pending (protected receipt s) = filter (\<lambda>p. dr_revision receipt < fst p) (sd_pending s) \<and>
    sd_last (protected receipt s) = Some receipt"
  using protected_pending [OF reachable_inv [OF assms(1)], of receipt] assms(2)
  by (auto simp: protected_def not_less split: option.splits)

lemma sample_reachable:
  "schedule_reachable (\<lparr>sd_pending = [(1, 10, 0), (2, 20, 0)], sd_last = None, sd_unavailable = None\<rparr>, 0)"
proof -
  have "schedule_step (schedule_new, 0) (\<lparr>sd_pending = [(1, 10, 0)], sd_last = None, sd_unavailable = None\<rparr>, 0)"
    by (rule schedule_step.edit [of 1 10]) (simp add: edited_def schedule_new_def)
  moreover have "schedule_step (\<lparr>sd_pending = [(1, 10, 0)], sd_last = None, sd_unavailable = None\<rparr>, 0)
      (\<lparr>sd_pending = [(1, 10, 0), (2, 20, 0)], sd_last = None, sd_unavailable = None\<rparr>, 0)"
    by (rule schedule_step.edit [of 2 20]) (simp add: edited_def)
  ultimately show ?thesis
    by (blast intro: schedule_reachable.intros)
qed

theorem schedule_releases_covered_witness:
  "sd_pending (protected \<lparr>dr_revision = 1, dr_ms = 7\<rparr>
     \<lparr>sd_pending = [(1, 10, 0), (2, 20, 0)], sd_last = None, sd_unavailable = None\<rparr>) = [(2, 20, 0)]"
  using schedule_releases_covered [OF sample_reachable, of "\<lparr>dr_revision = 1, dr_ms = 7\<rparr>"] by simp

text \<open>No edit waits longer than five seconds: in every reachable state with storage available, a
  batch is due as soon as five seconds have passed since any pending edit was made.
\<close>

theorem schedule_due_in_time:
  assumes "schedule_reachable (s, now)" "sd_unavailable s = None"
    and "(revision, bytes, time) \<in> set (sd_pending s)" "time + 5000 \<le> now" "now \<le> usize_max"
  shows "due now s"
proof -
  obtain r b t rest where pending: "sd_pending s = (r, b, t) # rest"
    using assms(3) by (cases "sd_pending s") auto
  have "t \<le> time"
    using reachable_inv [OF assms(1)] assms(3) by (auto simp: schedule_inv_def pending)
  then show ?thesis
    using assms(2,4,5) pending by (simp add: due_def next_deadline_def checked_add_def)
qed

theorem schedule_due_in_time_witness:
  "due 6000 \<lparr>sd_pending = [(1, 10, 0), (2, 20, 0)], sd_last = None, sd_unavailable = None\<rparr>"
proof -
  have "schedule_reachable (\<lparr>sd_pending = [(1, 10, 0), (2, 20, 0)], sd_last = None, sd_unavailable = None\<rparr>, 6000)"
    by (rule schedule_reachable.step [OF sample_reachable]) (rule schedule_step.tick, simp)
  from schedule_due_in_time [OF this, of 2 20 0] show ?thesis
    by (simp add: usize_max_def)
qed

end
