(* ===== verification/Protocol.thy ===== *)
theory Protocol
  imports Framing
begin

text \<open>
  The contract between the editor and the extension host, crates/extensions-protocol/src/lib.rs:
  capabilities, scopes and requests, the validation of a message, and the length-prefixed frames
  that carry messages over a pipe.

  The serializer \<open>postcard\<close> is the record \<open>wire\<close>, an argument of the operations that use it; an
  \<open>impl Read\<close> is the bytes it still yields before its end or failure, and an \<open>impl Write\<close> a
  \<open>pipe\<close>, the bytes it took and how many it still takes.
\<close>

section \<open>Contracts\<close>

definition PROTOCOL_VERSION :: nat where "PROTOCOL_VERSION = 1"
definition MAX_FRAME_BYTES :: nat where "MAX_FRAME_BYTES = 8 * 1024 * 1024"
definition MAX_CHUNK_BYTES :: nat where "MAX_CHUNK_BYTES = 1024 * 1024"
definition MAX_PENDING :: nat where "MAX_PENDING = 32"
definition MEMORY_LIMIT :: nat where "MEMORY_LIMIT = 128 * 1024 * 1024"
definition INTERACTIVE_TIMEOUT_MS :: nat where "INTERACTIVE_TIMEOUT_MS = 5000"
definition BACKGROUND_TIMEOUT_MS :: nat where "BACKGROUND_TIMEOUT_MS = 120000"

datatype execution_budget = Interactive | Background

fun timeout_ms :: "execution_budget \<Rightarrow> nat" where
  "timeout_ms Interactive = INTERACTIVE_TIMEOUT_MS"
| "timeout_ms Background = BACKGROUND_TIMEOUT_MS"

fun budget_fuel :: "execution_budget \<Rightarrow> nat" where
  "budget_fuel Interactive = 50000000"
| "budget_fuel Background = 200000000000"

datatype capability =
    DocumentRead
  | DocumentEdit
  | WorkspaceRead
  | WorkspaceWrite
  | Network
  | ProcessSpawn
  | UiPanel
  | Settings

fun is_brokered :: "capability \<Rightarrow> bool" where
  "is_brokered DocumentRead = True"
| "is_brokered DocumentEdit = True"
| "is_brokered UiPanel = True"
| "is_brokered _ = False"

text \<open>A \<open>String\<close> is its UTF-8 bytes.\<close>

datatype scope =
    DocumentScope nat
  | WorkspaceScope "byte list"
  | ExtensionScope

record capability_context =
  cc_capability :: capability
  cc_scope :: scope
  cc_generation :: nat

record text_edit =
  te_start :: nat
  te_end :: nat
  te_replacement :: "byte list"

datatype request =
    ReadTextRange (rq_document: nat) (rq_revision: nat) (rq_range: range)
  | ReadOriginalBytes (rq_document: nat) (rq_generation: nat) (rq_range: range)
  | ApplyEdits (rq_document: nat) (rq_revision: nat) (rq_edits: "text_edit list")
  | BeginEdits (rq_document: nat) (rq_revision: nat)
  | AppendChunk (rq_transaction: nat) (rq_chunk: "byte list")
  | CommitEdits (rq_transaction: nat) (rq_revision: nat)
  | Cancel (rq_request: nat)
  | InvokeCommand (rq_command: "byte list")
  | Panel (rq_panel: "byte list") (rq_text: "byte list")

record envelope =
  ev_protocol :: nat
  ev_request_id :: nat
  ev_extension_id :: "byte list"
  ev_context :: capability_context
  ev_request :: request

datatype protocol_error =
    Io
  | Oversized
  | Malformed
  | Version
  | InvalidIdentity
  | ChunkTooLarge

definition ascii :: "string \<Rightarrow> byte list" where
  "ascii s = map of_char s"

definition is_ascii_alphanumeric :: "byte \<Rightarrow> bool" where
  "is_ascii_alphanumeric b \<longleftrightarrow> 48 \<le> b \<and> b \<le> 57 \<or> 65 \<le> b \<and> b \<le> 90 \<or> 97 \<le> b \<and> b \<le> 122"

definition valid_id :: "byte list \<Rightarrow> bool" where
  "valid_id i \<longleftrightarrow>
     i \<noteq> [] \<and> length i \<le> 128 \<and>
     (\<forall>b\<in>set i. is_ascii_alphanumeric b \<or> b = 46 \<or> b = 45 \<or> b = 95) \<and>
     i \<noteq> ascii ''.'' \<and> i \<noteq> ascii ''..''"

definition validate :: "envelope \<Rightarrow> protocol_error + unit" where
  "validate m =
     (if ev_protocol m \<noteq> PROTOCOL_VERSION then Inl Version
      else if \<not> valid_id (ev_extension_id m) then Inl InvalidIdentity
      else
        case ev_request m of
          AppendChunk _ chunk \<Rightarrow>
            if length chunk > MAX_CHUNK_BYTES then Inl ChunkTooLarge else Inr ()
        | _ \<Rightarrow> Inr ())"

definition negotiate :: "nat \<Rightarrow> nat \<Rightarrow> protocol_error + nat" where
  "negotiate minimum maximum =
     (if minimum \<le> PROTOCOL_VERSION \<and> maximum \<ge> PROTOCOL_VERSION then Inr PROTOCOL_VERSION
      else Inl Version)"

section \<open>Frames\<close>

record wire =
  wr_put :: "envelope \<Rightarrow> byte list option"
  wr_take :: "byte list \<Rightarrow> (envelope \<times> byte list) option"

record pipe =
  pp_taken :: "byte list"
  pp_room :: nat

definition write_all :: "byte list \<Rightarrow> pipe \<Rightarrow> bool \<times> pipe" where
  "write_all bs p =
     (if length bs \<le> pp_room p
      then (True, \<lparr>pp_taken = pp_taken p @ bs, pp_room = pp_room p - length bs\<rparr>)
      else (False, \<lparr>pp_taken = pp_taken p @ take (pp_room p) bs, pp_room = 0\<rparr>))"

definition read_exact :: "nat \<Rightarrow> byte list \<Rightarrow> (byte list \<times> byte list) option" where
  "read_exact n input = (if n \<le> length input then Some (take n input, drop n input) else None)"

text \<open>The message and the input that is left.\<close>

definition read_frame :: "wire \<Rightarrow> byte list \<Rightarrow> protocol_error + envelope \<times> byte list" where
  "read_frame wr input =
     and_then (ok_or Io (read_exact 4 input)) (\<lambda>(prefix, input).
       let len = unat (from_le_bytes prefix) in
       if len = 0 \<or> len > MAX_FRAME_BYTES then Inl Oversized
       else
         and_then (ok_or Io (read_exact len input)) (\<lambda>(bytes, input).
         and_then (ok_or Malformed (wr_take wr bytes)) (\<lambda>(message, rest).
           if rest \<noteq> [] then Inl Malformed
           else and_then (validate message) (\<lambda>_. Inr (message, input)))))"

definition write_frame :: "wire \<Rightarrow> envelope \<Rightarrow> pipe \<Rightarrow> (protocol_error + unit) \<times> pipe" where
  "write_frame wr m p =
     (case validate m of
        Inl e \<Rightarrow> (Inl e, p)
      | Inr _ \<Rightarrow>
          case wr_put wr m of
            None \<Rightarrow> (Inl Malformed, p)
          | Some bytes \<Rightarrow>
              if length bytes > MAX_FRAME_BYTES then (Inl Oversized, p)
              else
                let (ok, p) = write_all (to_le_bytes (of_nat (length bytes))) p in
                if \<not> ok then (Inl Io, p)
                else
                  let (ok, p) = write_all bytes p in
                  (if ok then Inr () else Inl Io, p))"

fun write_frames :: "wire \<Rightarrow> envelope list \<Rightarrow> pipe \<Rightarrow> (protocol_error + unit) \<times> pipe" where
  "write_frames wr [] p = (Inr (), p)"
| "write_frames wr (m # ms) p =
     (case write_frame wr m p of
        (Inl e, p) \<Rightarrow> (Inl e, p)
      | (Inr _, p) \<Rightarrow> write_frames wr ms p)"

text \<open>What a peer that reads until an error has received, and that error.\<close>

lemma read_frame_shorter: "read_frame wr input = Inr (m, rest) \<Longrightarrow> length rest < length input"
  by (auto simp: read_frame_def read_exact_def res_simps Let_def split: if_splits prod.splits)

function read_frames :: "wire \<Rightarrow> byte list \<Rightarrow> envelope list \<times> protocol_error" where
  "read_frames wr input =
     (case read_frame wr input of
        Inl e \<Rightarrow> ([], e)
      | Inr (m, rest) \<Rightarrow> let (ms, e) = read_frames wr rest in (m # ms, e))"
  by auto
termination
  by (relation "measure (\<lambda>(_, input). length input)") (auto dest: read_frame_shorter)

declare read_frames.simps [simp del]

section \<open>Frames are read as they were written\<close>

text \<open>
  What \<open>postcard\<close> documents: \<open>take_from_bytes\<close> reads the bytes of \<open>to_stdvec\<close> and leaves none; an
  envelope starts with its version, so it has at least one byte.
\<close>

definition wire_ok :: "wire \<Rightarrow> bool" where
  "wire_ok wr \<longleftrightarrow> (\<forall>m bs. wr_put wr m = Some bs \<longrightarrow> bs \<noteq> [] \<and> wr_take wr bs = Some (m, []))"

definition wire_frame :: "byte list \<Rightarrow> byte list" where
  "wire_frame bytes = to_le_bytes (of_nat (length bytes)) @ bytes"

lemma wire_header:
  assumes "length bytes \<le> MAX_FRAME_BYTES"
  shows "unat (from_le_bytes (to_le_bytes (of_nat (length bytes)))) = length bytes"
proof -
  have "length bytes < 2 ^ 32"
    using assms by (simp add: MAX_FRAME_BYTES_def)
  then show ?thesis
    by (simp only: le_bytes_inverse unat_of_length)
qed

lemma read_frame_written:
  assumes "wire_ok wr" "wr_put wr m = Some bytes" "length bytes \<le> MAX_FRAME_BYTES" "validate m = Inr ()"
  shows "read_frame wr (wire_frame bytes @ rest) = Inr (m, rest)"
  using assms wire_header [OF assms(3)]
  by (auto simp: read_frame_def read_exact_def wire_frame_def wire_ok_def le_bytes_header)

lemma read_frame_torn:
  assumes "length bytes \<le> MAX_FRAME_BYTES" "bytes \<noteq> []" "k < length (wire_frame bytes)"
  shows "read_frame wr (take k (wire_frame bytes)) = Inl Io"
proof (cases "k < 4")
  case True
  then show ?thesis
    by (simp add: read_frame_def read_exact_def wire_frame_def)
next
  case False
  then have "take k (wire_frame bytes) = to_le_bytes (of_nat (length bytes)) @ take (k - 4) bytes"
    by (simp add: wire_frame_def)
  moreover have "length (take (k - 4) bytes) < length bytes"
    using assms(3) False by (simp add: wire_frame_def)
  ultimately show ?thesis
    using assms(1,2) wire_header [OF assms(1)]
    by (auto simp: read_frame_def read_exact_def le_bytes_header Let_def)
qed

lemma read_frame_end: "read_frame wr [] = Inl Io"
  by (simp add: read_frame_def read_exact_def)

text \<open>A frame is written whole, or the pipe ends inside it.\<close>

lemma write_frame_Inr:
  assumes "write_frame wr m p = (Inr (), q)"
  obtains bytes where "validate m = Inr ()" "wr_put wr m = Some bytes" "length bytes \<le> MAX_FRAME_BYTES"
    "pp_taken q = pp_taken p @ wire_frame bytes"
  using assms that
  by (auto simp: write_frame_def write_all_def wire_frame_def split: sum.splits option.splits if_splits)

lemma write_frame_Inl:
  assumes "write_frame wr m p = (Inl e, q)"
  shows "pp_taken q = pp_taken p \<or>
    (\<exists>bytes k. wr_put wr m = Some bytes \<and> length bytes \<le> MAX_FRAME_BYTES \<and>
      k < length (wire_frame bytes) \<and> pp_taken q = pp_taken p @ take k (wire_frame bytes))"
proof (cases "pp_taken q = pp_taken p")
  case False
  then obtain bytes where bytes: "wr_put wr m = Some bytes" "length bytes \<le> MAX_FRAME_BYTES"
    using assms by (auto simp: write_frame_def split: sum.splits option.splits if_splits)
  have "pp_room p < length (wire_frame bytes) \<and>
      pp_taken q = pp_taken p @ take (pp_room p) (wire_frame bytes)"
    using assms bytes False
    by (auto simp: write_frame_def write_all_def wire_frame_def split: sum.splits if_splits)
  with bytes show ?thesis
    by blast
qed simp

lemma read_frames_end: "read_frame wr input = Inl e \<Longrightarrow> read_frames wr input = ([], e)"
  by (simp add: read_frames.simps)

lemma read_frames_next:
  "read_frame wr input = Inr (m, rest) \<Longrightarrow>
   read_frames wr input = (m # fst (read_frames wr rest), snd (read_frames wr rest))"
  by (subst read_frames.simps) (simp add: split_def Let_def)

lemma frames_written:
  assumes "wire_ok wr"
  shows "write_frames wr ms p = (r, q) \<Longrightarrow>
    \<exists>sent stream. pp_taken q = pp_taken p @ stream \<and> read_frames wr stream = (sent, Io) \<and>
      (\<exists>unsent. ms = sent @ unsent \<and> (unsent = [] \<longleftrightarrow> r = Inr ()))"
proof (induction ms arbitrary: p)
  case Nil
  then show ?case
    by (auto intro!: exI [of _ "[]"] simp: read_frames_end [OF read_frame_end])
next
  case (Cons m ms)
  show ?case
  proof (cases "write_frame wr m p")
    case (Pair r1 p1)
    show ?thesis
    proof (cases r1)
      case (Inl e)
      then have q: "r = Inl e" "q = p1"
        using Cons.prems Pair by simp_all
      from write_frame_Inl [OF Pair [unfolded Inl]]
      have "\<exists>stream. pp_taken q = pp_taken p @ stream \<and> read_frame wr stream = Inl Io"
        using read_frame_torn assms q(2) read_frame_end unfolding wire_ok_def by fastforce
      with q(1) show ?thesis
        by (auto dest!: read_frames_end)
    next
      case (Inr u)
      then have rest: "write_frames wr ms p1 = (r, q)"
        using Cons.prems Pair by simp
      obtain bytes where bytes: "validate m = Inr ()" "wr_put wr m = Some bytes"
          "length bytes \<le> MAX_FRAME_BYTES" "pp_taken p1 = pp_taken p @ wire_frame bytes"
        using Pair Inr by (metis old.unit.exhaust write_frame_Inr)
      obtain sent stream unsent where ih: "pp_taken q = pp_taken p1 @ stream"
          "read_frames wr stream = (sent, Io)" "ms = sent @ unsent" "unsent = [] \<longleftrightarrow> r = Inr ()"
        using Cons.IH [OF rest] by blast
      have "read_frames wr (wire_frame bytes @ stream) = (m # sent, Io)"
        using read_frames_next [OF read_frame_written [OF assms bytes(2,3,1)]] ih(2) by simp
      then show ?thesis
        using ih bytes(4) by (intro exI [of _ "m # sent"] exI [of _ "wire_frame bytes @ stream"]) auto
    qed
  qed
qed

text \<open>What a message accepted from an untrusted peer satisfies.\<close>

lemma read_frame_accepts:
  assumes "read_frame wr input = Inr (m, rest)"
  shows "validate m = Inr ()" "length input \<le> length rest + 4 + MAX_FRAME_BYTES"
proof -
  show "validate m = Inr ()"
    using assms by (auto simp: read_frame_def res_simps Let_def split: if_splits prod.splits)
  show "length input \<le> length rest + 4 + MAX_FRAME_BYTES"
    using assms by (auto simp: read_frame_def read_exact_def res_simps Let_def split: if_splits prod.splits)
qed

section \<open>The property of the frames\<close>


definition sample_message :: envelope where
  "sample_message =
     \<lparr>ev_protocol = 1, ev_request_id = 7, ev_extension_id = ascii ''fixture'',
      ev_context = \<lparr>cc_capability = DocumentRead, cc_scope = DocumentScope 3, cc_generation = 1\<rparr>,
      ev_request = ReadTextRange 3 4 (0, 2)\<rparr>"

text \<open>The bytes the repository's fixture gives for this message.\<close>

definition sample_bytes :: "byte list" where
  "sample_bytes = [1, 7, 7, 102, 105, 120, 116, 117, 114, 101, 0, 0, 3, 1, 0, 3, 4, 0, 2]"

definition sample_wire :: wire where
  "sample_wire =
     \<lparr>wr_put = (\<lambda>m. if m = sample_message then Some sample_bytes else None),
      wr_take = (\<lambda>bs. if bs = sample_bytes then Some (sample_message, []) else None)\<rparr>"

lemma validate_sample: "validate sample_message = Inr ()"
  by (simp add: validate_def sample_message_def PROTOCOL_VERSION_def valid_id_def ascii_def
      is_ascii_alphanumeric_def of_char_def)


end
