(* ===== verification/Broker.thy ===== *)
theory Broker
  imports Protocol Utf8 "HOL-Library.AList"
begin

text \<open>
  The permissions and the staged edits of one extension, crates/extensions-protocol/src/broker.rs:
  grants that a revocation ends, requests that expire, edits that arrive in chunks and leave as one
  validated list.

  An \<open>Instant\<close> is a number of milliseconds. A \<open>BTreeMap\<close> is an association list with distinct keys;
  the code looks up, inserts, removes and sums, so the order of keys is not observable. What
  \<open>postcard\<close> makes of the staged bytes is the argument \<open>decode\<close>: the sequence it hands to the
  visitor, or \<open>None\<close>.
\<close>

section \<open>Data\<close>

datatype broker_error =
    Denied
  | InvalidScope
  | PendingLimit
  | DuplicateRequest
  | UnknownRequest
  | Expired
  | StaleSnapshot
  | ChunkLimit
  | StagingLimit
  | InvalidEdits
  | ApprovalRequired

fun broker_message :: "broker_error \<Rightarrow> string" where
  "broker_message Denied = ''the extension does not have permission for this request''"
| "broker_message InvalidScope = ''the request is outside what the extension may access''"
| "broker_message PendingLimit = ''the extension has too many requests waiting''"
| "broker_message DuplicateRequest = ''the extension sent the same request twice''"
| "broker_message UnknownRequest = ''the extension answered a request that does not exist''"
| "broker_message Expired = ''the request took too long and expired''"
| "broker_message StaleSnapshot =
     ''the document changed while the extension was working; run it again''"
| "broker_message ChunkLimit = ''the extension sent too much data in one part''"
| "broker_message StagingLimit = ''the extension's changes are larger than the allowed limit''"
| "broker_message InvalidEdits = ''the extension's changes do not fit the document''"
| "broker_message ApprovalRequired = ''this request needs your approval first''"

record grant =
  gr_capability :: capability
  gr_scope :: scope

record staged =
  sg_document :: nat
  sg_revision :: nat
  sg_bytes :: "byte list"

text \<open>\<open>ss_pending\<close> maps a request to its deadline.\<close>

record session =
  ss_id :: "byte list"
  ss_generation :: nat
  ss_grants :: "grant list"
  ss_pending :: "(nat \<times> nat) list"
  ss_staged :: "(nat \<times> staged) list"
  ss_enabled :: bool
  ss_budget :: execution_budget

section \<open>Grants\<close>

definition new_with_budget :: "byte list \<Rightarrow> execution_budget \<Rightarrow> broker_error + session" where
  "new_with_budget i budget =
     (if \<not> valid_id i then Inl Denied
      else Inr \<lparr>ss_id = i, ss_generation = 0, ss_grants = [], ss_pending = [], ss_staged = [],
                ss_enabled = False, ss_budget = budget\<rparr>)"

definition new_session :: "byte list \<Rightarrow> broker_error + session" where
  "new_session i = new_with_budget i Interactive"

definition revoke :: "session \<Rightarrow> session" where
  "revoke s =
     s\<lparr>ss_generation := sat_add (ss_generation s) 1, ss_grants := [], ss_pending := [],
       ss_staged := [], ss_enabled := False\<rparr>"

definition approve :: "grant list \<Rightarrow> session \<Rightarrow> session" where
  "approve grants s = (revoke s)\<lparr>ss_grants := grants, ss_enabled := True\<rparr>"

definition check_grant :: "session \<Rightarrow> capability \<Rightarrow> scope \<Rightarrow> broker_error + unit" where
  "check_grant s c sc =
     (if ss_enabled s \<and> (\<exists>g\<in>set (ss_grants s). gr_capability g = c \<and> gr_scope g = sc)
      then Inr () else Inl Denied)"

text \<open>
  The capability and scope that a request needs; \<open>None\<close> is the early \<open>Ok\<close> of a cancellation.
\<close>

fun expected_grant :: "session \<Rightarrow> request \<Rightarrow> broker_error + (capability \<times> scope) option" where
  "expected_grant s (ReadTextRange document _ _) = Inr (Some (DocumentRead, DocumentScope document))"
| "expected_grant s (ReadOriginalBytes document _ _) =
     Inr (Some (DocumentRead, DocumentScope document))"
| "expected_grant s (ApplyEdits document _ _) = Inr (Some (DocumentEdit, DocumentScope document))"
| "expected_grant s (BeginEdits document _) = Inr (Some (DocumentEdit, DocumentScope document))"
| "expected_grant s (AppendChunk transaction _) =
     and_then (ok_or UnknownRequest (map_of (ss_staged s) transaction)) (\<lambda>staged.
       Inr (Some (DocumentEdit, DocumentScope (sg_document staged))))"
| "expected_grant s (CommitEdits transaction _) =
     and_then (ok_or UnknownRequest (map_of (ss_staged s) transaction)) (\<lambda>staged.
       Inr (Some (DocumentEdit, DocumentScope (sg_document staged))))"
| "expected_grant s (Panel _ _) = Inr (Some (UiPanel, ExtensionScope))"
| "expected_grant s (InvokeCommand _) = Inl Denied"
| "expected_grant s (Cancel r) =
     (if map_of (ss_pending s) r \<noteq> None then Inr None else Inl UnknownRequest)"

definition authorize :: "session \<Rightarrow> envelope \<Rightarrow> broker_error + unit" where
  "authorize s m =
     (if \<not> ss_enabled s \<or> ev_extension_id m \<noteq> ss_id s \<or> ev_protocol m \<noteq> PROTOCOL_VERSION \<or>
         cc_generation (ev_context m) \<noteq> ss_generation s
      then Inl Denied
      else
        and_then (expected_grant s (ev_request m)) (\<lambda>expected.
          case expected of
            None \<Rightarrow> Inr ()
          | Some (c, sc) \<Rightarrow>
              if cc_capability (ev_context m) \<noteq> c \<or> cc_scope (ev_context m) \<noteq> sc then Inl InvalidScope
              else check_grant s c sc))"

section \<open>Requests\<close>

definition cancel :: "nat \<Rightarrow> session \<Rightarrow> session" where
  "cancel r s =
     s\<lparr>ss_pending := AList.delete r (ss_pending s), ss_staged := AList.delete r (ss_staged s)\<rparr>"

definition expire :: "nat \<Rightarrow> session \<Rightarrow> session" where
  "expire now s = foldl (\<lambda>s r. cancel r s) s (map fst (filter (\<lambda>(_, deadline). deadline \<le> now) (ss_pending s)))"

definition start :: "envelope \<Rightarrow> nat \<Rightarrow> session \<Rightarrow> (broker_error + unit) \<times> session" where
  "start m now s =
     (let s = expire now s in
      case authorize s m of
        Inl e \<Rightarrow> (Inl e, s)
      | Inr _ \<Rightarrow>
          if map_of (ss_pending s) (ev_request_id m) \<noteq> None then (Inl DuplicateRequest, s)
          else if length (ss_pending s) \<ge> MAX_PENDING then (Inl PendingLimit, s)
          else
            (Inr (), s\<lparr>ss_pending :=
               AList.update (ev_request_id m) (now + timeout_ms (ss_budget s)) (ss_pending s)\<rparr>))"

definition accept_reply :: "nat \<Rightarrow> nat \<Rightarrow> nat \<Rightarrow> session \<Rightarrow> (broker_error + unit) \<times> session" where
  "accept_reply r generation now s =
     (let s = expire now s in
      if \<not> ss_enabled s \<or> generation \<noteq> ss_generation s then (Inl Denied, s)
      else if map_of (ss_pending s) r = None then (Inl UnknownRequest, s)
      else (Inr (), cancel r s))"

section \<open>Edits in chunks\<close>

definition begin_edits :: "envelope \<Rightarrow> nat \<Rightarrow> nat \<Rightarrow> session \<Rightarrow> (broker_error + unit) \<times> session" where
  "begin_edits m current now s =
     (case ev_request m of
        BeginEdits document revision \<Rightarrow>
          if revision \<noteq> current then (Inl StaleSnapshot, s)
          else
            (case start m now s of
               (Inl e, s) \<Rightarrow> (Inl e, s)
             | (Inr _, s) \<Rightarrow>
                 (Inr (), s\<lparr>ss_staged :=
                    AList.update (ev_request_id m)
                      \<lparr>sg_document = document, sg_revision = revision, sg_bytes = []\<rparr>
                      (ss_staged s)\<rparr>))
      | _ \<Rightarrow> (Inl InvalidEdits, s))"

definition staged_total :: "session \<Rightarrow> nat" where
  "staged_total s = sum_list (map (\<lambda>(_, st). length (sg_bytes st)) (ss_staged s))"

definition append_chunk :: "envelope \<Rightarrow> nat \<Rightarrow> session \<Rightarrow> (broker_error + unit) \<times> session" where
  "append_chunk m now s =
     (let s = expire now s in
      case authorize s m of
        Inl e \<Rightarrow> (Inl e, s)
      | Inr _ \<Rightarrow>
          (case ev_request m of
             AppendChunk transaction chunk \<Rightarrow>
               if length chunk > MAX_CHUNK_BYTES then (Inl ChunkLimit, cancel transaction s)
               else if sat_add (staged_total s) (length chunk) > MEMORY_LIMIT div 2
               then (Inl StagingLimit, cancel transaction s)
               else
                 (case map_of (ss_staged s) transaction of
                    None \<Rightarrow> (Inl UnknownRequest, s)
                  | Some st \<Rightarrow>
                      (Inr (), s\<lparr>ss_staged :=
                         AList.update transaction (st\<lparr>sg_bytes := sg_bytes st @ chunk\<rparr>)
                           (ss_staged s)\<rparr>))
           | _ \<Rightarrow> (Inl InvalidEdits, s)))"

text \<open>
  A serialized sequence as the visitor sees it: the announced count, the elements it yields, and
  whether it ends after them or fails to yield another.
\<close>

record edit_sequence =
  sq_hint :: "nat option"
  sq_elements :: "text_edit list"
  sq_complete :: bool

fun visit_elements :: "bool \<Rightarrow> text_edit list \<Rightarrow> nat \<Rightarrow> text_edit list \<Rightarrow> text_edit list option" where
  "visit_elements complete edits replacement_bytes [] = (if complete then Some edits else None)"
| "visit_elements complete edits replacement_bytes (e # es) =
     (if length edits \<ge> 4096 then None
      else
        let replacement_bytes = sat_add replacement_bytes (length (te_replacement e)) in
        if replacement_bytes > MEMORY_LIMIT div 2 then None
        else visit_elements complete (edits @ [e]) replacement_bytes es)"

definition visit_seq :: "edit_sequence \<Rightarrow> text_edit list option" where
  "visit_seq sq =
     (case sq_hint sq of
        Some n \<Rightarrow> if n > 4096 then None else visit_elements (sq_complete sq) [] 0 (sq_elements sq)
      | None \<Rightarrow> visit_elements (sq_complete sq) [] 0 (sq_elements sq))"

definition bounded_edits :: "(byte list \<Rightarrow> edit_sequence option) \<Rightarrow> byte list \<Rightarrow> text_edit list option" where
  "bounded_edits decode bytes = Option.bind (decode bytes) visit_seq"

definition commit_checked ::
  "(byte list \<Rightarrow> edit_sequence option) \<Rightarrow> (text_edit list \<Rightarrow> broker_error + unit) \<Rightarrow>
   envelope \<Rightarrow> nat \<Rightarrow> nat \<Rightarrow> session \<Rightarrow> (broker_error + text_edit list) \<times> session" where
  "commit_checked decode check m current now s =
     (let s = expire now s in
      case authorize s m of
        Inl e \<Rightarrow> (Inl e, s)
      | Inr _ \<Rightarrow>
          (case ev_request m of
             CommitEdits transaction revision \<Rightarrow>
               (case map_of (ss_staged s) transaction of
                  None \<Rightarrow> (Inl UnknownRequest, s)
                | Some st \<Rightarrow>
                    let s = cancel transaction s in
                    if revision \<noteq> current \<or> sg_revision st \<noteq> revision then (Inl StaleSnapshot, s)
                    else
                      (case bounded_edits decode (sg_bytes st) of
                         None \<Rightarrow> (Inl InvalidEdits, s)
                       | Some edits \<Rightarrow>
                           (and_then (check edits) (\<lambda>_. Inr edits), s)))
           | _ \<Rightarrow> (Inl InvalidEdits, s)))"

fun validate_from :: "byte list \<Rightarrow> nat \<Rightarrow> text_edit list \<Rightarrow> broker_error + unit" where
  "validate_from t e [] = Inr ()"
| "validate_from t e (ed # eds) =
     (if te_start ed > usize_max \<or> te_end ed > usize_max then Inl InvalidEdits
      else if te_start ed < e \<or> te_start ed > te_end ed \<or> te_end ed > length t \<or>
        \<not> char_boundary t (te_start ed) \<or> \<not> char_boundary t (te_end ed)
      then Inl InvalidEdits
      else validate_from t (te_end ed) eds)"

definition validate_edits :: "text_edit list \<Rightarrow> byte list \<Rightarrow> broker_error + unit" where
  "validate_edits edits t = validate_from t 0 edits"

definition commit ::
  "(byte list \<Rightarrow> edit_sequence option) \<Rightarrow> envelope \<Rightarrow> nat \<Rightarrow> byte list \<Rightarrow> nat \<Rightarrow> session \<Rightarrow>
   (broker_error + text_edit list) \<times> session" where
  "commit decode m current current_text now s =
     commit_checked decode (\<lambda>edits. validate_edits edits current_text) m current now s"

definition approve_update :: "capability list \<Rightarrow> capability list \<Rightarrow> bool \<Rightarrow> broker_error + unit" where
  "approve_update previous requested approved =
     (if \<not> approved \<and> (\<exists>c\<in>set requested. c \<notin> set previous) then Inl ApprovalRequired else Inr ())"

end
