(* ===== verification/Broker_Properties.thy ===== *)
theory Broker_Properties
  imports Broker
begin

text \<open>
  What a session guarantees over its whole life: the runs of a session as a step relation, the
  invariant of every reachable session, what a revocation ends, and that a commit hands out exactly
  the edits whose chunks were received under the current grant.
\<close>

section \<open>The invariant\<close>

text \<open>Nothing is staged without a pending request, and staged data is bounded over all requests.\<close>

definition session_ok :: "session \<Rightarrow> bool" where
  "session_ok s \<longleftrightarrow>
     distinct (map fst (ss_pending s)) \<and> distinct (map fst (ss_staged s)) \<and>
     fst ` set (ss_staged s) \<subseteq> fst ` set (ss_pending s) \<and>
     length (ss_pending s) \<le> MAX_PENDING \<and>
     staged_total s \<le> MEMORY_LIMIT div 2 \<and>
     ss_generation s \<le> usize_max \<and>
     (\<not> ss_enabled s \<longrightarrow> ss_grants s = [] \<and> ss_pending s = [])"

lemma staged_length: "session_ok s \<Longrightarrow> length (ss_staged s) \<le> MAX_PENDING"
proof -
  assume ok: "session_ok s"
  have "length (ss_staged s) = card (fst ` set (ss_staged s))"
    using ok distinct_card [of "map fst (ss_staged s)"] by (simp add: session_ok_def)
  also have "\<dots> \<le> card (fst ` set (ss_pending s))"
    using ok by (intro card_mono) (auto simp: session_ok_def)
  also have "\<dots> \<le> length (ss_pending s)"
    using card_image_le [of "set (ss_pending s)" fst] card_length [of "ss_pending s"] by simp
  finally show ?thesis
    using ok by (simp add: session_ok_def)
qed

text \<open>The number a map's values add up to.\<close>

lemma sum_list_delete:
  "sum_list (map (\<lambda>(_, v). f v) (AList.delete k m)) \<le> sum_list (map (\<lambda>(_, v). f v :: nat) m)"
  by (induction m) (auto simp: AList.delete_eq)

lemma sum_list_update:
  "distinct (map fst m) \<Longrightarrow>
   sum_list (map (\<lambda>(_, v). f v) (AList.update k v m)) + (case map_of m k of None \<Rightarrow> 0 | Some u \<Rightarrow> f u) =
   sum_list (map (\<lambda>(_, v). f v :: nat) m) + f v"
  by (induction m) (auto simp: map_of_eq_None_iff split: option.splits)

lemma length_update: "length (AList.update k v m) = (if k \<in> fst ` set m then length m else Suc (length m))"
  by (induction m) auto

lemma length_delete: "length (AList.delete k m) \<le> length m"
  by (simp add: AList.delete_eq)

lemma keys_update: "fst ` set (AList.update k v m) = insert k (fst ` set m)"
  by (simp add: AList.dom_update)

lemma keys_delete: "fst ` set (AList.delete k m) = fst ` set m - {k}"
  by (auto simp: AList.delete_eq image_iff)

lemmas session_maps =
  keys_update keys_delete length_update length_delete distinct_update distinct_delete

text \<open>The fields that a cancellation, and so an expiry, leaves as they are.\<close>

lemma cancel_frame [simp]:
  "ss_id (cancel r s) = ss_id s" "ss_generation (cancel r s) = ss_generation s"
  "ss_grants (cancel r s) = ss_grants s" "ss_enabled (cancel r s) = ss_enabled s"
  "ss_budget (cancel r s) = ss_budget s"
  by (simp_all add: cancel_def)

lemma cancel_ok: "session_ok s \<Longrightarrow> session_ok (cancel r s)"
  using sum_list_delete [of "\<lambda>st. length (sg_bytes st)" r "ss_staged s"]
    length_delete [of r "ss_pending s"]
  unfolding session_ok_def cancel_def staged_total_def by (auto simp: keys_delete distinct_delete)

lemma map_of_cancel:
  "map_of (ss_staged (cancel r s)) t = (if t = r then None else map_of (ss_staged s) t)"
  "map_of (ss_pending (cancel r s)) t = (if t = r then None else map_of (ss_pending s) t)"
  by (simp_all add: cancel_def delete_conv')

text \<open>An expiry is a run of cancellations; what every cancellation keeps, it keeps.\<close>

lemma expire_induct:
  assumes "P s" "\<And>r s. P s \<Longrightarrow> P (cancel r s)"
  shows "P (expire now s)"
proof -
  have "P (foldl (\<lambda>s r. cancel r s) s rs)" if "P s" for rs s
    using that by (induction rs arbitrary: s) (simp_all add: assms(2))
  with assms(1) show ?thesis
    by (simp add: expire_def)
qed

lemma expire_frame [simp]:
  "ss_id (expire now s) = ss_id s" "ss_generation (expire now s) = ss_generation s"
  "ss_grants (expire now s) = ss_grants s" "ss_enabled (expire now s) = ss_enabled s"
  "ss_budget (expire now s) = ss_budget s"
  using expire_induct [of "\<lambda>s'. ss_id s' = ss_id s \<and> ss_generation s' = ss_generation s \<and>
      ss_grants s' = ss_grants s \<and> ss_enabled s' = ss_enabled s \<and> ss_budget s' = ss_budget s" s now]
  by simp_all

lemma expire_ok: "session_ok s \<Longrightarrow> session_ok (expire now s)"
  by (rule expire_induct [of session_ok]) (simp_all add: cancel_ok)

lemma map_of_expire:
  "map_of (ss_staged (expire now s)) t = Some st \<Longrightarrow> map_of (ss_staged s) t = Some st"
  using expire_induct [of "\<lambda>s'. map_of (ss_staged s') t = Some st \<longrightarrow> map_of (ss_staged s) t = Some st" s now]
  by (simp add: map_of_cancel split: if_splits)

lemma authorize_iff:
  "authorize s m = Inr () \<longleftrightarrow>
     ss_enabled s \<and> ev_extension_id m = ss_id s \<and> ev_protocol m = PROTOCOL_VERSION \<and>
     cc_generation (ev_context m) = ss_generation s \<and>
     (expected_grant s (ev_request m) = Inr None \<or>
      (\<exists>g\<in>set (ss_grants s). expected_grant s (ev_request m) = Inr (Some (gr_capability g, gr_scope g)) \<and>
        cc_capability (ev_context m) = gr_capability g \<and> cc_scope (ev_context m) = gr_scope g))"
proof (cases "expected_grant s (ev_request m)")
  case (Inr x)
  show ?thesis
    by (cases x) (force simp: authorize_def check_grant_def Inr split: if_splits)+
qed (simp add: authorize_def)

lemma revoke_ok: "session_ok s \<Longrightarrow> session_ok (revoke s)"
  by (simp add: session_ok_def revoke_def staged_total_def sat_add_le)

lemma approve_ok: "session_ok s \<Longrightarrow> session_ok (approve gs s)"
  by (simp add: session_ok_def revoke_def approve_def staged_total_def sat_add_le)

lemma start_Inr:
  assumes "start m now s = (Inr (), s')"
  shows "authorize (expire now s) m = Inr ()"
    "map_of (ss_pending (expire now s)) (ev_request_id m) = None"
    "length (ss_pending (expire now s)) < MAX_PENDING"
    "s' = (expire now s)\<lparr>ss_pending := AList.update (ev_request_id m)
       (now + timeout_ms (ss_budget s)) (ss_pending (expire now s))\<rparr>"
  using assms by (auto simp: start_def Let_def split: sum.splits if_splits)

lemma start_Inl: "start m now s = (Inl e, s') \<Longrightarrow> s' = expire now s"
  by (auto simp: start_def Let_def split: sum.splits if_splits)

lemma authorize_enabled: "authorize s m = Inr () \<Longrightarrow> ss_enabled s"
  by (simp add: authorize_iff)

lemma start_ok: "session_ok s \<Longrightarrow> start m now s = (r, s') \<Longrightarrow> session_ok s'"
proof (cases r)
  case (Inr u)
  assume a: "session_ok s" "start m now s = (r, s')"
  then have s: "start m now s = (Inr (), s')"
    using Inr by simp
  from expire_ok [OF a(1)] start_Inr [OF s] authorize_enabled [OF start_Inr(1) [OF s]] show ?thesis
    by (auto simp: session_ok_def distinct_update keys_update length_update staged_total_def)
qed (auto dest!: start_Inl simp: expire_ok)

lemma begin_edits_Inr:
  assumes "begin_edits m current now s = (Inr (), s')"
  obtains document s1 where "ev_request m = BeginEdits document current"
    "start m now s = (Inr (), s1)"
    "s' = s1\<lparr>ss_staged := AList.update (ev_request_id m)
       \<lparr>sg_document = document, sg_revision = current, sg_bytes = []\<rparr> (ss_staged s1)\<rparr>"
  using assms that
  by (auto simp: begin_edits_def split: request.splits if_splits prod.splits sum.splits)

lemma begin_edits_Inl: "begin_edits m current now s = (Inl e, s') \<Longrightarrow> s' = s \<or> s' = expire now s"
  by (auto simp: begin_edits_def dest: start_Inl split: request.splits if_splits prod.splits sum.splits)

text \<open>A request is fresh when it starts, so nothing is staged under its number.\<close>

lemma start_fresh:
  assumes "session_ok s" "start m now s = (Inr (), s')"
  shows "map_of (ss_staged s') (ev_request_id m) = None"
  using start_Inr [OF assms(2)] expire_ok [OF assms(1), of now]
  by (auto simp: session_ok_def map_of_eq_None_iff)

lemma begin_edits_ok:
  assumes "session_ok s" "begin_edits m current now s = (r, s')"
  shows "session_ok s'"
proof (cases r)
  case (Inl e)
  then show ?thesis
    using assms begin_edits_Inl expire_ok by metis
next
  case (Inr u)
  then have "begin_edits m current now s = (Inr (), s')"
    using assms(2) by simp
  then obtain document s1 where s1: "start m now s = (Inr (), s1)"
      "s' = s1\<lparr>ss_staged := AList.update (ev_request_id m)
         \<lparr>sg_document = document, sg_revision = current, sg_bytes = []\<rparr> (ss_staged s1)\<rparr>"
    by (rule begin_edits_Inr)
  have ok: "session_ok s1"
    using assms(1) s1(1) by (rule start_ok)
  have "staged_total s' = staged_total s1"
    using sum_list_update [of "ss_staged s1" "\<lambda>st. length (sg_bytes st)" "ev_request_id m"]
      start_fresh [OF assms(1) s1(1)] ok
    by (simp add: staged_total_def s1(2) session_ok_def)
  moreover have "ev_request_id m \<in> fst ` set (ss_pending s1)" "ss_enabled s1"
    using start_Inr [OF s1(1)] authorize_enabled [OF start_Inr(1) [OF s1(1)]]
    by (auto simp: keys_update)
  ultimately show ?thesis
    using ok s1(2) by (auto simp: session_ok_def keys_update distinct_update)
qed

lemma append_chunk_Inr:
  assumes "append_chunk m now s = (Inr (), s')"
  obtains t chunk st where "ev_request m = AppendChunk t chunk" "authorize (expire now s) m = Inr ()"
    "length chunk \<le> MAX_CHUNK_BYTES"
    "sat_add (staged_total (expire now s)) (length chunk) \<le> MEMORY_LIMIT div 2"
    "map_of (ss_staged (expire now s)) t = Some st"
    "s' = (expire now s)\<lparr>ss_staged :=
       AList.update t (st\<lparr>sg_bytes := sg_bytes st @ chunk\<rparr>) (ss_staged (expire now s))\<rparr>"
  using assms that
  by (auto simp: append_chunk_def Let_def split: request.splits if_splits sum.splits option.splits)

lemma append_chunk_Inl:
  "append_chunk m now s = (Inl e, s') \<Longrightarrow> s' = expire now s \<or> (\<exists>t. s' = cancel t (expire now s))"
  by (auto simp: append_chunk_def Let_def split: request.splits if_splits sum.splits option.splits)

lemma append_chunk_ok:
  assumes "session_ok s" "append_chunk m now s = (r, s')"
  shows "session_ok s'"
proof (cases r)
  case (Inl e)
  then show ?thesis
    using assms append_chunk_Inl expire_ok cancel_ok by metis
next
  case (Inr u)
  let ?s = "expire now s"
  obtain t chunk st where st: "authorize ?s m = Inr ()"
      "sat_add (staged_total ?s) (length chunk) \<le> MEMORY_LIMIT div 2"
      "map_of (ss_staged ?s) t = Some st"
      "s' = ?s\<lparr>ss_staged := AList.update t (st\<lparr>sg_bytes := sg_bytes st @ chunk\<rparr>) (ss_staged ?s)\<rparr>"
    using assms(2) Inr by (metis (full_types) append_chunk_Inr old.unit.exhaust)
  have ok: "session_ok ?s"
    using assms(1) by (rule expire_ok)
  have "staged_total s' = staged_total ?s + length chunk"
    using sum_list_update [of "ss_staged ?s" "\<lambda>st. length (sg_bytes st)" t "st\<lparr>sg_bytes := sg_bytes st @ chunk\<rparr>"]
      ok st(3)
    by (simp add: staged_total_def st(4) session_ok_def)
  moreover have "staged_total ?s + length chunk \<le> MEMORY_LIMIT div 2"
    using st(2) by (simp add: sat_add_def MEMORY_LIMIT_def usize_max_def min_def split: if_splits)
  moreover have "t \<in> fst ` set (ss_staged ?s)"
    using st(3) by (force dest: map_of_SomeD)
  ultimately show ?thesis
    using ok st(4) authorize_enabled [OF st(1)]
    by (auto simp: session_ok_def keys_update distinct_update)
qed

lemma commit_checked_Inr:
  assumes "commit_checked decode check m current now s = (Inr edits, s')"
  obtains t st where "ev_request m = CommitEdits t current" "authorize (expire now s) m = Inr ()"
    "map_of (ss_staged (expire now s)) t = Some st" "sg_revision st = current"
    "bounded_edits decode (sg_bytes st) = Some edits" "check edits = Inr ()"
    "s' = cancel t (expire now s)"
  using assms that
  by (auto simp: commit_checked_def Let_def res_simps
      split: request.splits if_splits sum.splits option.splits)

lemma commit_checked_state:
  "commit_checked decode check m current now s = (r, s') \<Longrightarrow>
     s' = expire now s \<or> (\<exists>t. s' = cancel t (expire now s))"
  by (auto simp: commit_checked_def Let_def split: request.splits if_splits sum.splits option.splits)

lemma accept_reply_state:
  "accept_reply i g now s = (r, s') \<Longrightarrow> s' = expire now s \<or> (\<exists>t. s' = cancel t (expire now s))"
  by (auto simp: accept_reply_def Let_def split: if_splits)

section \<open>Runs of a session\<close>

text \<open>What a step shows of itself: a change of the grants, a transaction begun, a chunk received.\<close>

datatype session_label =
    Quiet
  | Granted
  | Began nat nat
  | Received nat "byte list"

inductive session_step ::
  "(byte list \<Rightarrow> edit_sequence option) \<Rightarrow> session \<Rightarrow> session_label \<Rightarrow> session \<Rightarrow> bool" for decode where
  step_approve: "session_step decode s Granted (approve gs s)"
| step_revoke: "session_step decode s Granted (revoke s)"
| step_start: "start m now s = (r, s') \<Longrightarrow> session_step decode s Quiet s'"
| step_cancel: "session_step decode s Quiet (cancel i s)"
| step_expire: "session_step decode s Quiet (expire now s)"
| step_reply: "accept_reply i g now s = (r, s') \<Longrightarrow> session_step decode s Quiet s'"
| step_begin: "begin_edits m current now s = (Inr (), s') \<Longrightarrow>
    session_step decode s (Began (ev_request_id m) current) s'"
| step_begin_refused: "begin_edits m current now s = (Inl e, s') \<Longrightarrow> session_step decode s Quiet s'"
| step_append: "append_chunk m now s = (Inr (), s') \<Longrightarrow> ev_request m = AppendChunk t chunk \<Longrightarrow>
    session_step decode s (Received t chunk) s'"
| step_append_refused: "append_chunk m now s = (Inl e, s') \<Longrightarrow> session_step decode s Quiet s'"
| step_commit: "commit_checked decode check m current now s = (r, s') \<Longrightarrow>
    session_step decode s Quiet s'"

inductive session_run ::
  "(byte list \<Rightarrow> edit_sequence option) \<Rightarrow> session \<Rightarrow> session_label list \<Rightarrow> session \<Rightarrow> bool" for decode where
  run_none: "session_run decode s [] s"
| run_step: "session_run decode s ls s' \<Longrightarrow> session_step decode s' l s'' \<Longrightarrow>
    session_run decode s (ls @ [l]) s''"

inductive_simps session_run_start: "session_run decode s [] s'"

lemma session_step_ok: "session_step decode s l s' \<Longrightarrow> session_ok s \<Longrightarrow> session_ok s'"
  by (induction rule: session_step.induct)
    (auto intro: approve_ok revoke_ok start_ok cancel_ok expire_ok begin_edits_ok append_chunk_ok
      dest: accept_reply_state commit_checked_state)

lemma session_run_ok: "session_run decode s ls s' \<Longrightarrow> session_ok s \<Longrightarrow> session_ok s'"
  by (induction rule: session_run.induct) (auto dest: session_step_ok)

lemma new_session_ok: "new_with_budget i budget = Inr s \<Longrightarrow> session_ok s"
  by (auto simp: new_with_budget_def session_ok_def staged_total_def split: if_splits)

text \<open>The generation never falls, and a change of the grants raises it below its ceiling.\<close>

lemma start_generation: "start m now s = (r, s') \<Longrightarrow> ss_generation s' = ss_generation s"
  by (auto simp: start_def Let_def split: sum.splits if_splits)

lemma begin_generation: "begin_edits m current now s = (r, s') \<Longrightarrow> ss_generation s' = ss_generation s"
  by (auto simp: begin_edits_def dest: start_generation
      split: request.splits if_splits prod.splits sum.splits)

lemma append_generation: "append_chunk m now s = (r, s') \<Longrightarrow> ss_generation s' = ss_generation s"
  by (auto simp: append_chunk_def Let_def split: request.splits if_splits sum.splits option.splits)

lemma session_step_generation:
  "session_step decode s l s' \<Longrightarrow> session_ok s \<Longrightarrow>
     ss_generation s' = (if l = Granted then sat_add (ss_generation s) 1 else ss_generation s)"
proof (induction rule: session_step.induct)
  case (step_reply i g now s r s')
  then show ?case
    by (auto dest!: accept_reply_state)
next
  case (step_commit check m current now s r s')
  then show ?case
    by (auto dest!: commit_checked_state)
qed (auto simp: approve_def revoke_def start_generation begin_generation append_generation)

lemma session_run_generation:
  "session_run decode s ls s' \<Longrightarrow> session_ok s \<Longrightarrow> ss_generation s \<le> ss_generation s'"
proof (induction rule: session_run.induct)
  case (run_step s ls s' l s'')
  then have "session_ok s'"
    using session_run_ok by blast
  then show ?case
    using run_step session_step_generation [OF run_step.hyps(2)]
    by (auto simp: sat_add_def session_ok_def)
qed simp

section \<open>What was received\<close>

text \<open>The revision and the bytes of a transaction according to the labels of a run.\<close>

fun receive :: "nat \<Rightarrow> session_label \<Rightarrow> (nat \<times> byte list) option \<Rightarrow> (nat \<times> byte list) option" where
  "receive t Quiet x = x"
| "receive t Granted x = None"
| "receive t (Began i revision) x = (if i = t then Some (revision, []) else x)"
| "receive t (Received i chunk) x =
     (if i = t then map_option (\<lambda>(revision, bytes). (revision, bytes @ chunk)) x else x)"

definition received :: "nat \<Rightarrow> session_label list \<Rightarrow> (nat \<times> byte list) option" where
  "received t ls = foldl (\<lambda>x l. receive t l x) None ls"

lemma received_simps [simp]:
  "received t [] = None" "received t (ls @ [l]) = receive t l (received t ls)"
  by (simp_all add: received_def)

text \<open>What is staged is what was received; something received may have been dropped.\<close>

definition staged_received :: "session \<Rightarrow> (nat \<Rightarrow> (nat \<times> byte list) option) \<Rightarrow> bool" where
  "staged_received s x \<longleftrightarrow>
     (\<forall>t st. map_of (ss_staged s) t = Some st \<longrightarrow> x t = Some (sg_revision st, sg_bytes st))"

lemma staged_received_expire: "staged_received s x \<Longrightarrow> staged_received (expire now s) x"
  by (auto simp: staged_received_def dest: map_of_expire)

lemma staged_received_cancel: "staged_received s x \<Longrightarrow> staged_received (cancel t s) x"
  by (auto simp: staged_received_def map_of_cancel split: if_splits)

lemma staged_received_start: "start m now s = (r, s') \<Longrightarrow> staged_received s x \<Longrightarrow> staged_received s' x"
  using staged_received_expire [of s x now]
  by (auto simp: start_def Let_def staged_received_def split: sum.splits if_splits)

lemma session_step_received:
  "session_step decode s l s' \<Longrightarrow> staged_received s x \<Longrightarrow> staged_received s' (\<lambda>t. receive t l (x t))"
proof (induction rule: session_step.induct)
  case (step_begin m current now s s')
  from step_begin.hyps obtain document s1 where s1: "start m now s = (Inr (), s1)"
      "s' = s1\<lparr>ss_staged := AList.update (ev_request_id m)
         \<lparr>sg_document = document, sg_revision = current, sg_bytes = []\<rparr> (ss_staged s1)\<rparr>"
    by (rule begin_edits_Inr)
  show ?case
    using staged_received_start [OF s1(1) step_begin.prems]
    by (auto simp: staged_received_def s1(2) update_conv')
next
  case (step_append m now s s' t chunk)
  from step_append.hyps(1) obtain st where st: "map_of (ss_staged (expire now s)) t = Some st"
      "s' = (expire now s)\<lparr>ss_staged :=
         AList.update t (st\<lparr>sg_bytes := sg_bytes st @ chunk\<rparr>) (ss_staged (expire now s))\<rparr>"
    using step_append.hyps(2) by (auto elim: append_chunk_Inr)
  show ?case
    using staged_received_expire [OF step_append.prems, of now] st(1)
    by (auto simp: staged_received_def st(2) update_conv')
next
  case (step_reply i g now s r s')
  then show ?case
    by (auto dest!: accept_reply_state intro: staged_received_expire staged_received_cancel)
next
  case (step_commit check m current now s r s')
  then show ?case
    by (auto dest!: commit_checked_state intro: staged_received_expire staged_received_cancel)
next
  case (step_begin_refused m current now s e s')
  then show ?case
    by (auto dest!: begin_edits_Inl intro: staged_received_expire)
next
  case (step_append_refused m now s e s')
  then show ?case
    by (auto dest!: append_chunk_Inl intro: staged_received_expire staged_received_cancel)
qed (auto simp: staged_received_expire staged_received_cancel staged_received_start,
     auto simp: staged_received_def approve_def revoke_def)

lemma session_run_received:
  "session_run decode s ls s' \<Longrightarrow> ss_staged s = [] \<Longrightarrow> staged_received s' (\<lambda>t. received t ls)"
proof (induction rule: session_run.induct)
  case (run_step s ls s' l s'')
  then show ?case
    using session_step_received [OF run_step.hyps(2)] by simp
qed (simp add: staged_received_def)

section \<open>Delivering chunks in time\<close>

lemma cancel_all:
  "ss_staged (foldl (\<lambda>s r. cancel r s) s rs) = filter (\<lambda>(k, _). k \<notin> set rs) (ss_staged s)"
  "ss_pending (foldl (\<lambda>s r. cancel r s) s rs) = filter (\<lambda>(k, _). k \<notin> set rs) (ss_pending s)"
  by (induction rs arbitrary: s) (auto simp: cancel_def AList.delete_eq intro!: filter_cong)

lemma map_of_filter_key: "map_of (filter (\<lambda>(k, _). P k) m) t = (if P t then map_of m t else None)"
  by (induction m) auto

text \<open>A request is kept as long as its deadline is ahead.\<close>

lemma expire_keeps:
  assumes "distinct (map fst (ss_pending s))" "map_of (ss_pending s) t = Some deadline" "now < deadline"
  shows "map_of (ss_pending (expire now s)) t = Some deadline"
    "map_of (ss_staged (expire now s)) t = map_of (ss_staged s) t"
proof -
  have "t \<notin> set (map fst (filter (\<lambda>(_, deadline). deadline \<le> now) (ss_pending s)))"
    using assms by (auto dest: map_of_SomeD eq_key_imp_eq_value)
  then show "map_of (ss_pending (expire now s)) t = Some deadline"
    "map_of (ss_staged (expire now s)) t = map_of (ss_staged s) t"
    using assms(2) by (simp_all add: expire_def cancel_all map_of_filter_key)
qed

lemma staged_total_expire: "staged_total (expire now s) \<le> staged_total s"
proof (rule expire_induct)
  show "staged_total (cancel r s') \<le> staged_total s" if "staged_total s' \<le> staged_total s" for r s'
    using that sum_list_delete [of "\<lambda>st. length (sg_bytes st)" r "ss_staged s'"]
    by (simp add: staged_total_def cancel_def)
qed simp

text \<open>The messages of one transaction: the context of its first message.\<close>

definition follow_up :: "envelope \<Rightarrow> nat \<Rightarrow> request \<Rightarrow> envelope" where
  "follow_up m i r = m\<lparr>ev_request_id := i, ev_request := r\<rparr>"

fun send_chunks ::
  "envelope \<Rightarrow> nat \<Rightarrow> byte list list \<Rightarrow> nat \<Rightarrow> session \<Rightarrow> (broker_error + unit) \<times> session" where
  "send_chunks m i [] now s = (Inr (), s)"
| "send_chunks m i (c # cs) now s =
     (case append_chunk (follow_up m i (AppendChunk (ev_request_id m) c)) now s of
        (Inl e, s) \<Rightarrow> (Inl e, s)
      | (Inr _, s) \<Rightarrow> send_chunks m (i + 1) cs now s)"

text \<open>A transaction that was begun by \<open>m\<close> and is still in time.\<close>

definition open_transaction :: "envelope \<Rightarrow> nat \<Rightarrow> byte list \<Rightarrow> nat \<Rightarrow> session \<Rightarrow> bool" where
  "open_transaction m current bytes now s \<longleftrightarrow>
     session_ok s \<and>
     (\<exists>document deadline.
        map_of (ss_pending s) (ev_request_id m) = Some deadline \<and> now < deadline \<and>
        map_of (ss_staged s) (ev_request_id m) =
          Some \<lparr>sg_document = document, sg_revision = current, sg_bytes = bytes\<rparr> \<and>
        ss_enabled s \<and> ev_extension_id m = ss_id s \<and> ev_protocol m = PROTOCOL_VERSION \<and>
        cc_generation (ev_context m) = ss_generation s \<and>
        cc_capability (ev_context m) = DocumentEdit \<and>
        cc_scope (ev_context m) = DocumentScope document \<and>
        (\<exists>g\<in>set (ss_grants s). gr_capability g = DocumentEdit \<and> gr_scope g = DocumentScope document))"

lemma open_transaction_authorized:
  assumes "open_transaction m current bytes now s"
    "r = AppendChunk (ev_request_id m) c \<or> r = CommitEdits (ev_request_id m) current"
  shows "open_transaction m current bytes now (expire now s)"
    "authorize (expire now s) (follow_up m i r) = Inr ()"
proof -
  show op: "open_transaction m current bytes now (expire now s)"
    using assms(1) expire_keeps [of s "ev_request_id m"]
    by (auto simp: open_transaction_def expire_ok session_ok_def [of s])
  then show "authorize (expire now s) (follow_up m i r) = Inr ()"
    using assms(2) by (force simp: authorize_iff open_transaction_def follow_up_def)
qed

lemma append_open:
  assumes "open_transaction m current bytes now s" "length c \<le> MAX_CHUNK_BYTES"
    "staged_total s + length c \<le> MEMORY_LIMIT div 2"
  shows "\<exists>s'. append_chunk (follow_up m i (AppendChunk (ev_request_id m) c)) now s = (Inr (), s') \<and>
    open_transaction m current (bytes @ c) now s' \<and> staged_total s' \<le> staged_total s + length c"
proof -
  let ?m = "follow_up m i (AppendChunk (ev_request_id m) c)" and ?s = "expire now s"
  have op: "open_transaction m current bytes now ?s"
    and auth: "authorize ?s ?m = Inr ()"
    using open_transaction_authorized [OF assms(1)] by blast+
  obtain document where st: "map_of (ss_staged ?s) (ev_request_id m) =
      Some \<lparr>sg_document = document, sg_revision = current, sg_bytes = bytes\<rparr>"
    using op by (auto simp: open_transaction_def)
  have "sat_add (staged_total ?s) (length c) \<le> MEMORY_LIMIT div 2"
    using assms(3) staged_total_expire [of now s] sat_add_le(1) [of "staged_total ?s" "length c"] by simp
  with auth st assms(2) obtain s' where s': "append_chunk ?m now s = (Inr (), s')"
      "s' = ?s\<lparr>ss_staged := AList.update (ev_request_id m)
        \<lparr>sg_document = document, sg_revision = current, sg_bytes = bytes @ c\<rparr> (ss_staged ?s)\<rparr>"
    by (auto simp: append_chunk_def follow_up_def Let_def)
  have "session_ok s'"
    using assms(1) append_chunk_ok [OF _ s'(1)] by (simp add: open_transaction_def)
  then have "open_transaction m current (bytes @ c) now s'"
    using op st by (auto simp: open_transaction_def s'(2) update_conv')
  moreover have "staged_total s' \<le> staged_total s + length c"
    using sum_list_update [of "ss_staged ?s" "\<lambda>st. length (sg_bytes st)" "ev_request_id m"
        "\<lparr>sg_document = document, sg_revision = current, sg_bytes = bytes @ c\<rparr>"]
      op st staged_total_expire [of now s]
    by (simp add: staged_total_def s'(2) open_transaction_def session_ok_def)
  ultimately show ?thesis
    using s'(1) by blast
qed

lemma send_chunks_open:
  assumes "open_transaction m current bytes now s" "\<forall>c\<in>set cs. length c \<le> MAX_CHUNK_BYTES"
    "staged_total s + length (concat cs) \<le> MEMORY_LIMIT div 2"
  shows "\<exists>s'. send_chunks m i cs now s = (Inr (), s') \<and>
    open_transaction m current (bytes @ concat cs) now s'"
  using assms
proof (induction cs arbitrary: i bytes s)
  case (Cons c cs)
  obtain s1 where s1: "append_chunk (follow_up m i (AppendChunk (ev_request_id m) c)) now s = (Inr (), s1)"
      "open_transaction m current (bytes @ c) now s1" "staged_total s1 \<le> staged_total s + length c"
    using append_open [OF Cons.prems(1), of c i] Cons.prems(2,3) by auto
  have "staged_total s1 + length (concat cs) \<le> MEMORY_LIMIT div 2"
    using s1(3) Cons.prems(3) by simp
  from Cons.IH [OF s1(2) _ this, of "i + 1"] Cons.prems(2) s1(1) show ?case
    by simp
qed simp

lemma commit_open:
  assumes "open_transaction m current bytes now s" "bounded_edits decode bytes = Some edits"
    "check edits = Inr ()"
  shows "\<exists>s'. commit_checked decode check (follow_up m i (CommitEdits (ev_request_id m) current))
    current now s = (Inr edits, s')"
proof -
  let ?s = "expire now s" and ?m = "follow_up m i (CommitEdits (ev_request_id m) current)"
  have "open_transaction m current bytes now ?s" "authorize ?s ?m = Inr ()"
    using open_transaction_authorized [OF assms(1)] by blast+
  with assms(2,3) show ?thesis
    by (auto simp: commit_checked_def follow_up_def open_transaction_def Let_def)
qed

lemma begin_open:
  assumes "session_ok s" "begin_edits m current now s = (Inr (), s')" "now' < now + timeout_ms (ss_budget s)"
  shows "open_transaction m current [] now' s'"
proof -
  obtain document s1 where s1: "ev_request m = BeginEdits document current" "start m now s = (Inr (), s1)"
      "s' = s1\<lparr>ss_staged := AList.update (ev_request_id m)
         \<lparr>sg_document = document, sg_revision = current, sg_bytes = []\<rparr> (ss_staged s1)\<rparr>"
    using assms(2) by (rule begin_edits_Inr)
  show ?thesis
    using start_Inr [OF s1(2)] s1(1,3) assms(3) begin_edits_ok [OF assms(1,2)]
    by (simp add: open_transaction_def authorize_iff update_conv') metis
qed

section \<open>A sample session\<close>

definition sample_session :: session where
  "sample_session =
     \<lparr>ss_id = ascii ''fixture'', ss_generation = 0, ss_grants = [], ss_pending = [], ss_staged = [],
      ss_enabled = False, ss_budget = Interactive\<rparr>"

definition sample_granted :: session where
  "sample_granted =
     approve [\<lparr>gr_capability = DocumentEdit, gr_scope = DocumentScope 1\<rparr>] sample_session"

definition sample_begin :: envelope where
  "sample_begin =
     \<lparr>ev_protocol = 1, ev_request_id = 5, ev_extension_id = ascii ''fixture'',
      ev_context = \<lparr>cc_capability = DocumentEdit, cc_scope = DocumentScope 1, cc_generation = 1\<rparr>,
      ev_request = BeginEdits 1 2\<rparr>"

definition sample_begun :: session where
  "sample_begun =
     sample_granted\<lparr>ss_pending := [(5, 5000)],
       ss_staged := [(5, \<lparr>sg_document = 1, sg_revision = 2, sg_bytes = []\<rparr>)]\<rparr>"

text \<open>A decoder that reads two bytes as one insertion at offset 0, and nothing else.\<close>

definition sample_decode :: "byte list \<Rightarrow> edit_sequence option" where
  "sample_decode bytes =
     (if length bytes = 2 then
        Some \<lparr>sq_hint = Some 1,
              sq_elements = [\<lparr>te_start = 0, te_end = 0, te_replacement = bytes\<rparr>],
              sq_complete = True\<rparr>
      else None)"

lemma sample_session_new: "new_with_budget (ascii ''fixture'') Interactive = Inr sample_session"
  by (simp add: new_with_budget_def sample_session_def valid_id_def ascii_def
      is_ascii_alphanumeric_def of_char_def)

lemma sample_session_ok: "session_ok sample_session"
  using sample_session_new by (rule new_session_ok)

lemma sample_granted_eq:
  "sample_granted =
     \<lparr>ss_id = ascii ''fixture'', ss_generation = 1,
      ss_grants = [\<lparr>gr_capability = DocumentEdit, gr_scope = DocumentScope 1\<rparr>],
      ss_pending = [], ss_staged = [], ss_enabled = True, ss_budget = Interactive\<rparr>"
  by (simp add: sample_granted_def approve_def revoke_def sample_session_def sat_add_def usize_max_def)

lemma sample_begun_eq: "begin_edits sample_begin 2 0 sample_granted = (Inr (), sample_begun)"
  by (simp add: begin_edits_def sample_begin_def start_def expire_def authorize_def check_grant_def
      sample_granted_eq sample_begun_def PROTOCOL_VERSION_def MAX_PENDING_def INTERACTIVE_TIMEOUT_MS_def)

lemma sample_edits:
  "bounded_edits sample_decode [104, 105] =
     Some [\<lparr>te_start = 0, te_end = 0, te_replacement = [104, 105]\<rparr>]"
  by (simp add: bounded_edits_def sample_decode_def visit_seq_def sat_add_def MEMORY_LIMIT_def
      usize_max_def)

definition sample_received :: session where
  "sample_received =
     sample_begun\<lparr>ss_staged := [(5, \<lparr>sg_document = 1, sg_revision = 2, sg_bytes = [104, 105]\<rparr>)]\<rparr>"

lemma run_one: "session_step decode s l s' \<Longrightarrow> session_run decode s [l] s'"
  using run_step [OF run_none] by fastforce

lemma run_two:
  "session_step decode s l s' \<Longrightarrow> session_step decode s' l' s'' \<Longrightarrow> session_run decode s [l, l'] s''"
  using run_step [OF run_one] by fastforce

lemma sample_run: "session_run sample_decode sample_session [Granted, Began 5 2] sample_begun"
  using run_two [OF step_approve step_begin [OF sample_begun_eq [unfolded sample_granted_def]]]
  by (simp add: sample_begin_def)

lemma sample_received_eq:
  "append_chunk (follow_up sample_begin 6 (AppendChunk 5 [104, 105])) 10 sample_begun = (Inr (), sample_received)"
  by (simp add: append_chunk_def follow_up_def sample_begin_def expire_def authorize_def check_grant_def
      sample_granted_eq sample_begun_def sample_received_def PROTOCOL_VERSION_def MAX_CHUNK_BYTES_def
      MEMORY_LIMIT_def staged_total_def sat_add_def usize_max_def)

lemma sample_run_received:
  "session_run sample_decode sample_session [Granted, Began 5 2, Received 5 [104, 105]] sample_received"
  using run_step [OF sample_run step_append [OF sample_received_eq]] by (simp add: follow_up_def)

lemma sample_commit:
  "commit_checked sample_decode (\<lambda>_. Inr ()) (follow_up sample_begin 7 (CommitEdits 5 2)) 2 10 sample_received =
     (Inr [\<lparr>te_start = 0, te_end = 0, te_replacement = [104, 105]\<rparr>], sample_granted)"
  by (simp add: commit_checked_def follow_up_def sample_begin_def expire_def authorize_def check_grant_def
      sample_granted_eq sample_begun_def sample_received_def PROTOCOL_VERSION_def sample_edits cancel_def)

section \<open>The properties of a session\<close>

text \<open>C37: In every session that a run reaches, at most 32 requests are pending, every staged
  transaction belongs to a pending request, the chunks of all transactions together stay within half
  of the extension's memory limit, and a session that is not enabled holds no grant, no pending
  request and no staged data.\<close>
theorem session_invariant:
  assumes "new_with_budget i budget = Inr s" "session_run decode s ls s'"
  shows "session_ok s' \<and> length (ss_staged s') \<le> MAX_PENDING \<and>
    (\<not> ss_enabled s' \<longrightarrow> ss_grants s' = [] \<and> ss_pending s' = [] \<and> ss_staged s' = [])"
proof -
  have "session_ok s'"
    using session_run_ok [OF assms(2) new_session_ok [OF assms(1)]] .
  then show ?thesis
    using staged_length by (auto simp: session_ok_def)
qed

theorem session_invariant_witness:
  "new_with_budget (ascii ''fixture'') Interactive = Inr sample_session \<and>
   session_run sample_decode sample_session [Granted, Began 5 2] sample_begun \<and>
   session_ok sample_begun \<and> length (ss_staged sample_begun) \<le> MAX_PENDING"
  using sample_session_new sample_run session_invariant [OF sample_session_new sample_run] by blast

text \<open>A message is authorized only in an enabled session, from the session's own extension, at
  the current generation; it then cancels a pending request, or it claims exactly the capability and
  scope that its kind of request needs, the user granted exactly these, and the capability is one
  of those the package check lets through as brokered.\<close>
theorem authorize_needs_grant:
  assumes "authorize s m = Inr ()"
  shows "ss_enabled s \<and> ev_extension_id m = ss_id s \<and> ev_protocol m = PROTOCOL_VERSION \<and>
    cc_generation (ev_context m) = ss_generation s \<and>
    ((\<exists>r. ev_request m = Cancel r \<and> map_of (ss_pending s) r \<noteq> None) \<or>
     (\<exists>g\<in>set (ss_grants s).
        expected_grant s (ev_request m) = Inr (Some (gr_capability g, gr_scope g)) \<and>
        cc_capability (ev_context m) = gr_capability g \<and> cc_scope (ev_context m) = gr_scope g \<and>
        is_brokered (gr_capability g)))"
proof -
  have none: "\<exists>r'. ev_request m = Cancel r' \<and> map_of (ss_pending s) r' \<noteq> None"
    if "expected_grant s (ev_request m) = Inr None"
    using that by (cases "ev_request m") (auto simp: res_simps split: if_splits)
  have brokered: "is_brokered c" if "expected_grant s (ev_request m) = Inr (Some (c, sc))" for c sc
    using that by (cases "ev_request m") (auto simp: res_simps split: if_splits)
  from assms none brokered show ?thesis
    unfolding authorize_iff by blast
qed

theorem authorize_needs_grant_witness:
  "authorize sample_granted sample_begin = Inr () \<and>
   ss_enabled sample_granted \<and> ev_extension_id sample_begin = ss_id sample_granted"
proof -
  have "authorize sample_granted sample_begin = Inr ()"
    by (simp add: sample_begin_def authorize_def check_grant_def sample_granted_eq PROTOCOL_VERSION_def)
  with authorize_needs_grant [OF this] show ?thesis
    by blast
qed

text \<open>C36: After the user revokes or replaces the grants of a session, every message and every reply
  of an earlier generation is denied, whatever the session does afterwards, and the data staged
  before is gone at once. The generation is a counter that saturates: below its ceiling this is
  unconditional.\<close>
theorem revocation_is_final:
  assumes "session_ok s" "s1 = revoke s \<or> s1 = approve gs s" "session_run decode s1 ls s'"
    "ss_generation s < usize_max"
  shows "ss_pending s1 = [] \<and> ss_staged s1 = [] \<and>
    (cc_generation (ev_context m) \<le> ss_generation s \<longrightarrow>
       authorize s' m = Inl Denied \<and> fst (start m now s') = Inl Denied \<and>
       fst (append_chunk m now s') = Inl Denied \<and>
       fst (commit_checked decode check m current now s') = Inl Denied) \<and>
    (g \<le> ss_generation s \<longrightarrow> fst (accept_reply i g now s') = Inl Denied)"
proof -
  have s1: "ss_generation s1 = ss_generation s + 1" "ss_pending s1 = []" "ss_staged s1 = []" "session_ok s1"
    using assms(2,4) revoke_ok [OF assms(1)] approve_ok [OF assms(1)]
    by (auto simp: revoke_def approve_def sat_add_def)
  then have "ss_generation s < ss_generation s'"
    using session_run_generation [OF assms(3)] by simp
  moreover have "authorize s'' m = Inl Denied"
    if "cc_generation (ev_context m) \<le> ss_generation s" "ss_generation s < ss_generation s''" for s''
    using that by (auto simp: authorize_def)
  ultimately show ?thesis
    using s1(2,3)
    by (auto simp: start_def append_chunk_def commit_checked_def accept_reply_def Let_def)
qed

theorem revocation_is_final_witness:
  "ss_staged (revoke sample_begun) = [] \<and>
   authorize (approve [\<lparr>gr_capability = DocumentEdit, gr_scope = DocumentScope 1\<rparr>] (revoke sample_begun))
     sample_begin = Inl Denied"
proof -
  have ok: "session_ok sample_begun"
    using session_run_ok [OF sample_run sample_session_ok] .
  note run = run_one [OF step_approve, of sample_decode "revoke sample_begun"
      "[\<lparr>gr_capability = DocumentEdit, gr_scope = DocumentScope 1\<rparr>]"]
  have "ss_generation sample_begun = 1" "cc_generation (ev_context sample_begin) = 1"
    by (simp_all add: sample_begun_def sample_granted_eq sample_begin_def)
  with revocation_is_final [OF ok disjI1 [OF refl] run] show ?thesis
    by (auto simp: usize_max_def)
qed

text \<open>A commit that succeeds hands out the edits decoded from the concatenation, in order of
  arrival, of all chunks received for its transaction since that was begun, with no change of the
  grants in between; the transaction was begun at the revision that is current now, and the edits
  passed the caller's check against the document.\<close>
theorem commit_returns_received:
  assumes "new_with_budget i budget = Inr s" "session_run decode s ls s'"
    "commit_checked decode check m current now s' = (Inr edits, s'')"
  shows "\<exists>t bytes. ev_request m = CommitEdits t current \<and>
    received t ls = Some (current, bytes) \<and> bounded_edits decode bytes = Some edits \<and>
    check edits = Inr ()"
proof -
  have "ss_staged s = []"
    using assms(1) by (auto simp: new_with_budget_def split: if_splits)
  then have "staged_received s' (\<lambda>t. received t ls)"
    using session_run_received [OF assms(2)] by simp
  with assms(3) show ?thesis
    by (elim commit_checked_Inr) (force simp: staged_received_def dest: map_of_expire)
qed

theorem commit_returns_received_witness:
  "\<exists>bytes. received 5 [Granted, Began 5 2, Received 5 [104, 105]] = Some (2, bytes) \<and>
     bounded_edits sample_decode bytes = Some [\<lparr>te_start = 0, te_end = 0, te_replacement = [104, 105]\<rparr>]"
  using commit_returns_received [OF sample_session_new sample_run_received sample_commit]
  by (simp add: follow_up_def)

text \<open>From a transaction that was begun, chunks within the limits that arrive before the
  deadline are all accepted, and the commit then returns the edits their concatenation decodes to.\<close>
theorem chunks_reach_commit:
  assumes "session_ok s" "begin_edits m current now s = (Inr (), s1)"
    "now' < now + timeout_ms (ss_budget s)"
    "\<forall>c\<in>set cs. length c \<le> MAX_CHUNK_BYTES" "staged_total s1 + length (concat cs) \<le> MEMORY_LIMIT div 2"
    "bounded_edits decode (concat cs) = Some edits" "check edits = Inr ()"
  shows "\<exists>s2 s3. send_chunks m i cs now' s1 = (Inr (), s2) \<and>
    commit_checked decode check (follow_up m j (CommitEdits (ev_request_id m) current)) current now' s2 =
      (Inr edits, s3)"
proof -
  obtain s2 where s2: "send_chunks m i cs now' s1 = (Inr (), s2)"
      "open_transaction m current ([] @ concat cs) now' s2"
    using send_chunks_open [OF begin_open [OF assms(1-3)] assms(4,5)] by blast
  then show ?thesis
    using commit_open [of m current "concat cs" now' s2 decode edits check j] assms(6,7) by auto
qed

theorem chunks_reach_commit_witness:
  "\<exists>s2 s3. send_chunks sample_begin 6 [[104], [105]] 10 sample_begun = (Inr (), s2) \<and>
    commit_checked sample_decode (\<lambda>_. Inr ()) (follow_up sample_begin 8 (CommitEdits (ev_request_id sample_begin) 2))
      2 10 s2 =
      (Inr [\<lparr>te_start = 0, te_end = 0, te_replacement = [104, 105]\<rparr>], s3)"
proof -
  have ok: "session_ok sample_granted"
    using approve_ok [OF sample_session_ok] by (simp add: sample_granted_def)
  show ?thesis
    by (rule chunks_reach_commit [OF ok sample_begun_eq])
      (simp_all add: sample_granted_eq INTERACTIVE_TIMEOUT_MS_def MAX_CHUNK_BYTES_def staged_total_def
        sample_begun_def MEMORY_LIMIT_def sample_edits)
qed

end
