(* ===== verification/Invocation.thy ===== *)
theory Invocation
  imports Broker_Properties Document_Properties
begin

text \<open>
  One invocation of an extension command, crates/app/src/extensions.rs: a captured snapshot that the
  guest reads, the requests it may make, and the proposal that becomes a transaction only when the
  guest's process has ended well.

  A refusal is the text shown to the user. \<open>Aborted\<close> stands for a panic (a counter below zero, a
  slice off its text). Reading the file's original bytes and the text of a paged document are the
  arguments \<open>original\<close> and \<open>external\<close>.
\<close>

section \<open>Data\<close>

datatype failure = Refused string | Aborted

fun user_message :: "error \<Rightarrow> failure" where
  "user_message OutOfBounds = Refused ''the position is past the end of the document; nothing was changed''"
| "user_message InvalidBoundary = Refused ''the position falls inside a character; nothing was changed''"
| "user_message OverlappingEdits = Refused ''two of the requested changes overlap; nothing was changed''"
| "user_message StaleRevision =
     Refused ''the document changed while the edit was prepared; nothing was changed, try again''"
| "user_message BudgetExceeded =
     Refused ''it needs more memory than the configured limit allows; nothing was changed (Settings > Advanced)''"
| "user_message EmptyHistory = Refused ''there is nothing to undo or redo''"
| "user_message WrongDocument =
     Refused ''the document was reloaded or replaced while the change was prepared; nothing was changed, try again''"
| "user_message RevisionOverflow =
     Refused ''the document has too many revisions; save it and reopen it to continue''"
| "user_message IncompleteSource =
     Refused ''the document is still loading; try again when loading finishes''"
| "user_message EmptyTransaction = Refused ''there was nothing to change''"
| "user_message LinkedUndoRequired =
     Refused ''this change was made in several documents together; undo it from the document where it was made''"
| "user_message ActorBusy =
     Refused ''the document is busy with another operation; try again in a moment''"
| "user_message Panicked = Aborted"

record invocation =
  iv_extension_id :: "byte list"
  iv_command :: "byte list"
  iv_arguments :: "byte list"
  iv_document :: nat
  iv_revision :: nat
  iv_source_generation :: nat
  iv_text_length :: nat
  iv_raw_length :: nat
  iv_grant_generation :: nat

datatype broker_value =
    TextValue "byte list"
  | BytesValue "byte list"
  | TransactionValue nat
  | Applied nat
  | Acknowledged

record invocation_broker =
  ib_invocation :: invocation
  ib_source :: snapshot
  ib_session :: session
  ib_allowed_panels :: "byte list list"
  ib_seen :: "nat list"
  ib_edits :: "text_edit list option"
  ib_panels :: "(byte list \<times> byte list) list"
  ib_panel_bytes :: nat
  ib_external_text :: bool

record invocation_output =
  io_source :: snapshot
  io_transaction :: "transaction option"
  io_panels :: "(byte list \<times> byte list) list"

section \<open>Reading text\<close>

text \<open>The loops that widen a range to character boundaries, counters checked.\<close>

fun widen_left :: "(nat \<Rightarrow> bool) \<Rightarrow> nat \<Rightarrow> nat option" where
  "widen_left boundary 0 = (if boundary 0 then Some 0 else None)"
| "widen_left boundary (Suc n) = (if boundary (Suc n) then Some (Suc n) else widen_left boundary n)"

function widen_right :: "(nat \<Rightarrow> bool) \<Rightarrow> nat \<Rightarrow> nat option" where
  "widen_right boundary n =
     (if boundary n then Some n
      else if n \<ge> usize_max then None
      else widen_right boundary (n + 1))"
  by auto
termination
  by (relation "measure (\<lambda>(_, n). usize_max - n)") auto

declare widen_right.simps [simp del]

definition read_bytes :: "snapshot \<Rightarrow> range \<Rightarrow> failure + byte list" where
  "read_bytes source r =
     (let (s, e) = r in
      if s > usize_max \<or> e > usize_max then Inl (Refused ''TextOffset overflow'')
      else if s > e \<or> e > snapshot_len source \<or> e - s > MAX_CHUNK_BYTES - 128
      then Inl (Refused ''Text range limit'')
      else
        case (widen_left (is_boundary source) s, widen_right (is_boundary source) e) of
          (Some left, Some right) \<Rightarrow>
            (case snapshot_read source left right MAX_CHUNK_BYTES of
               Inl err \<Rightarrow> Inl (user_message err)
             | Inr t \<Rightarrow> if e - left \<le> length t then Inr (sub (s - left) (e - left) t) else Inl Aborted)
        | _ \<Rightarrow> Inl Aborted)"

section \<open>Requests\<close>

fun validate_proposal_from :: "snapshot \<Rightarrow> nat \<Rightarrow> text_edit list \<Rightarrow> broker_error + unit" where
  "validate_proposal_from source previous [] = Inr ()"
| "validate_proposal_from source previous (ed # eds) =
     (if te_start ed > usize_max \<or> te_end ed > usize_max then Inl InvalidEdits
      else if te_start ed < previous \<or> te_start ed > te_end ed \<or>
        \<not> is_boundary source (te_start ed) \<or> \<not> is_boundary source (te_end ed)
      then Inl InvalidEdits
      else validate_proposal_from source (te_end ed) eds)"

definition validate_proposal :: "snapshot \<Rightarrow> text_edit list \<Rightarrow> broker_error + unit" where
  "validate_proposal source edits =
     (if length edits > 4096 then Inl InvalidEdits else validate_proposal_from source 0 edits)"

definition new_invocation ::
  "invocation \<Rightarrow> snapshot \<Rightarrow> session \<Rightarrow> byte list list \<Rightarrow> failure + invocation_broker" where
  "new_invocation i source session panels =
     (if iv_revision i \<noteq> sn_revision source \<or> iv_text_length i \<noteq> snapshot_len source \<or>
         iv_grant_generation i \<noteq> ss_generation session \<or> \<not> sn_complete source
      then Inl (Refused ''Invocation snapshot or grant changed'')
      else Inr \<lparr>ib_invocation = i, ib_source = source, ib_session = session,
                ib_allowed_panels = panels, ib_seen = [], ib_edits = None, ib_panels = [],
                ib_panel_bytes = 0, ib_external_text = False\<rparr>)"

definition new_paged_invocation ::
  "invocation \<Rightarrow> snapshot \<Rightarrow> session \<Rightarrow> byte list list \<Rightarrow> failure + invocation_broker" where
  "new_paged_invocation i source session panels =
     (if iv_grant_generation i \<noteq> ss_generation session then Inl (Refused ''Invocation grant changed'')
      else Inr \<lparr>ib_invocation = i, ib_source = source, ib_session = session,
                ib_allowed_panels = panels, ib_seen = [], ib_edits = None, ib_panels = [],
                ib_panel_bytes = 0, ib_external_text = True\<rparr>)"

type_synonym reply = "(failure + broker_value) \<times> invocation_broker"

text \<open>A refusal of the session, and the session it leaves.\<close>

definition session_reply ::
  "(broker_error + 'a) \<times> session \<Rightarrow> ('a \<Rightarrow> invocation_broker \<Rightarrow> reply) \<Rightarrow> invocation_broker \<Rightarrow> reply" where
  "session_reply outcome f b =
     (let b = b\<lparr>ib_session := snd outcome\<rparr> in
      case fst outcome of
        Inl e \<Rightarrow> (Inl (Refused (broker_message e)), b)
      | Inr x \<Rightarrow> f x b)"

text \<open>The arms of the handler; \<open>b\<close> is the state after the replay check.\<close>

definition read_text ::
  "(range \<Rightarrow> failure + byte list) \<Rightarrow> nat \<Rightarrow> nat \<Rightarrow> range \<Rightarrow> invocation_broker \<Rightarrow> failure + broker_value" where
  "read_text external document revision r b =
     (let i = ib_invocation b; (s, e) = r in
      if document \<noteq> iv_document i \<or> revision \<noteq> iv_revision i then Inl (Refused ''Stale text snapshot'')
      else if s > e \<or> e > iv_text_length i \<or> e - s > MAX_CHUNK_BYTES - 128
      then Inl (Refused ''Text range limit'')
      else
        and_then (if ib_external_text b then external r else read_bytes (ib_source b) r) (\<lambda>bytes.
          if length bytes \<noteq> e - s then Inl (Refused ''Text range unavailable'')
          else Inr (BytesValue bytes)))"

definition read_original ::
  "(nat \<Rightarrow> range \<Rightarrow> failure + byte list) \<Rightarrow> nat \<Rightarrow> nat \<Rightarrow> range \<Rightarrow> invocation_broker \<Rightarrow>
   failure + broker_value" where
  "read_original original document generation r b =
     (let i = ib_invocation b; (s, e) = r in
      if document \<noteq> iv_document i \<or> generation \<noteq> iv_source_generation i \<or> s > e \<or>
         e > iv_raw_length i \<or> e - s > MAX_CHUNK_BYTES - 128
      then Inl (Refused ''Stale or invalid original range'')
      else
        and_then (original generation r) (\<lambda>bytes.
          if length bytes \<noteq> e - s then Inl (Refused ''Original range unavailable'')
          else Inr (BytesValue bytes)))"

definition begin_proposal :: "envelope \<Rightarrow> nat \<Rightarrow> nat \<Rightarrow> invocation_broker \<Rightarrow> reply" where
  "begin_proposal m document instant b =
     (if ib_external_text b then (Inl (Refused ''Paged invocation is read-only''), b)
      else if document \<noteq> iv_document (ib_invocation b) \<or> ib_edits b \<noteq> None
      then (Inl (Refused ''One document transaction per invocation''), b)
      else
        session_reply (begin_edits m (iv_revision (ib_invocation b)) instant (ib_session b))
          (\<lambda>_ b. (Inr (TransactionValue (ev_request_id m)), b)) b)"

definition commit_proposal ::
  "(byte list \<Rightarrow> edit_sequence option) \<Rightarrow> envelope \<Rightarrow> nat \<Rightarrow> invocation_broker \<Rightarrow> reply" where
  "commit_proposal decode m instant b =
     (if ib_edits b \<noteq> None then (Inl (Refused ''One document transaction per invocation''), b)
      else
        session_reply
          (commit_checked decode (validate_proposal (ib_source b)) m (iv_revision (ib_invocation b)) instant
            (ib_session b))
          (\<lambda>edits b. (Inr Acknowledged, b\<lparr>ib_edits := Some edits\<rparr>)) b)"

definition apply_proposal :: "nat \<Rightarrow> nat \<Rightarrow> text_edit list \<Rightarrow> invocation_broker \<Rightarrow> reply" where
  "apply_proposal document revision edits b =
     (if ib_external_text b then (Inl (Refused ''Paged invocation is read-only''), b)
      else if document \<noteq> iv_document (ib_invocation b) \<or> revision \<noteq> iv_revision (ib_invocation b) \<or>
        ib_edits b \<noteq> None
      then (Inl (Refused ''Stale or duplicate transaction''), b)
      else
        case validate_proposal (ib_source b) edits of
          Inl e \<Rightarrow> (Inl (Refused (broker_message e)), b)
        | Inr _ \<Rightarrow> (Inr Acknowledged, b\<lparr>ib_edits := Some edits\<rparr>))"

definition show_panel :: "byte list \<Rightarrow> byte list \<Rightarrow> invocation_broker \<Rightarrow> reply" where
  "show_panel panel t b =
     (if panel \<notin> set (ib_allowed_panels b) \<or> length (ib_panels b) \<ge> 16 \<or>
         sat_add (ib_panel_bytes b) (length t) > MAX_CHUNK_BYTES
      then (Inl (Refused ''Undeclared panel or panel output limit''), b)
      else
        (Inr Acknowledged,
         b\<lparr>ib_panel_bytes := ib_panel_bytes b + length t, ib_panels := ib_panels b @ [(panel, t)]\<rparr>))"

definition append_proposal :: "envelope \<Rightarrow> nat \<Rightarrow> invocation_broker \<Rightarrow> reply" where
  "append_proposal m instant b =
     session_reply (append_chunk m instant (ib_session b)) (\<lambda>_ b. (Inr Acknowledged, b)) b"

text \<open>The \<open>match\<close> of the handler.\<close>

definition serve ::
  "(byte list \<Rightarrow> edit_sequence option) \<Rightarrow> (nat \<Rightarrow> range \<Rightarrow> failure + byte list) \<Rightarrow>
   (range \<Rightarrow> failure + byte list) \<Rightarrow> envelope \<Rightarrow> nat \<Rightarrow> invocation_broker \<Rightarrow> reply" where
  "serve decode original external m instant b =
     (case ev_request m of
        ReadTextRange document revision r \<Rightarrow> (read_text external document revision r b, b)
      | ReadOriginalBytes document generation r \<Rightarrow>
          (read_original original document generation r b, b)
      | BeginEdits document _ \<Rightarrow> begin_proposal m document instant b
      | AppendChunk _ _ \<Rightarrow> append_proposal m instant b
      | CommitEdits _ _ \<Rightarrow> commit_proposal decode m instant b
      | ApplyEdits document revision edits \<Rightarrow> apply_proposal document revision edits b
      | Panel panel t \<Rightarrow> show_panel panel t b
      | Cancel r \<Rightarrow>
          (Inr Acknowledged, b\<lparr>ib_session := cancel r (ib_session b), ib_edits := None\<rparr>)
      | InvokeCommand _ \<Rightarrow> (Inl (Refused ''API unavailable in this invocation''), b))"

definition request_with_text ::
  "(byte list \<Rightarrow> edit_sequence option) \<Rightarrow> (nat \<Rightarrow> range \<Rightarrow> failure + byte list) \<Rightarrow>
   (range \<Rightarrow> failure + byte list) \<Rightarrow> envelope \<Rightarrow> nat \<Rightarrow> invocation_broker \<Rightarrow> reply" where
  "request_with_text decode original external m instant b =
     (case authorize (ib_session b) m of
        Inl e \<Rightarrow> (Inl (Refused (broker_message e)), b)
      | Inr _ \<Rightarrow>
          if length (ib_seen b) \<ge> 65536 \<or> ev_request_id m \<in> set (ib_seen b)
          then (Inl (Refused ''Request replay or invocation request limit''), b)
          else
            serve decode original external m instant (b\<lparr>ib_seen := ev_request_id m # ib_seen b\<rparr>))"

definition invocation_request ::
  "(byte list \<Rightarrow> edit_sequence option) \<Rightarrow> (nat \<Rightarrow> range \<Rightarrow> failure + byte list) \<Rightarrow>
   envelope \<Rightarrow> nat \<Rightarrow> invocation_broker \<Rightarrow> reply" where
  "invocation_request decode original m instant b =
     request_with_text decode original (\<lambda>_. Inl (Refused ''External text reader unavailable'')) m instant b"

definition proposal_transaction :: "snapshot \<Rightarrow> text_edit list \<Rightarrow> transaction" where
  "proposal_transaction source edits =
     \<lparr>tr_base = sn_revision source,
      tr_edits = map (\<lambda>e. \<lparr>ed_start = te_start e, ed_end = te_end e, ed_insert = te_replacement e\<rparr>) edits\<rparr>"

text \<open>\<open>finish\<close> consumes the broker; its session is revoked and dropped.\<close>

definition finish_invocation :: "failure + unit \<Rightarrow> invocation_broker \<Rightarrow> failure + invocation_output" where
  "finish_invocation child b =
     and_then child (\<lambda>_.
       Inr \<lparr>io_source = ib_source b,
            io_transaction = map_option (proposal_transaction (ib_source b)) (ib_edits b),
            io_panels = ib_panels b\<rparr>)"

end
