(* ===== verification/Invocation_Properties.thy ===== *)
theory Invocation_Properties
  imports Invocation
begin

text \<open>
  What an invocation guarantees to the editor and to the guest: text is read exactly, the proposals
  of every reachable broker are bounded and fit the captured snapshot, and the transaction that a
  finished invocation yields is one the document applies as it stands.
\<close>

section \<open>Widening a range to character boundaries\<close>

lemma widen_left_Some:
  assumes "boundary m" "m \<le> n"
  shows "\<exists>l. widen_left boundary n = Some l \<and> m \<le> l \<and> l \<le> n \<and> boundary l"
  using assms(2)
proof (induction n)
  case 0
  with assms(1) show ?case by simp
next
  case (Suc n)
  show ?case
  proof (cases "boundary (Suc n)")
    case False
    with assms(1) Suc.prems have "m \<le> n"
      by (metis le_SucE)
    with Suc.IH False show ?thesis
      by fastforce
  qed (use Suc.prems in simp)
qed

lemma widen_right_Some:
  assumes "boundary m" "n \<le> m" "m \<le> usize_max"
  shows "\<exists>r. widen_right boundary n = Some r \<and> n \<le> r \<and> r \<le> m \<and> boundary r"
  using assms(2)
proof (induction "m - n" arbitrary: n)
  case 0
  with assms(1) show ?case
    by (simp add: widen_right.simps)
next
  case (Suc k)
  show ?case
  proof (cases "boundary n")
    case True
    then show ?thesis
      using Suc.prems by (simp add: widen_right.simps)
  next
    case False
    have "k = m - (n + 1)" "n + 1 \<le> m" "n < usize_max"
      using Suc.hyps(2) assms(3) by simp_all
    with Suc.hyps(1) [of "n + 1"] False show ?thesis
      by (subst widen_right.simps) fastforce
  qed
qed

text \<open>What reading bytes needs from a store of text: boundaries, and reads between them.\<close>

locale byte_reader =
  fixes ok :: "'s \<Rightarrow> bool"
    and bytes :: "'s \<Rightarrow> byte list"
    and boundary :: "'s \<Rightarrow> nat \<Rightarrow> bool"
    and read :: "'s \<Rightarrow> nat \<Rightarrow> nat \<Rightarrow> nat \<Rightarrow> 'e + byte list"
  assumes valid: "ok s \<Longrightarrow> valid_utf8 (bytes s)"
    and boundary: "ok s \<Longrightarrow> boundary s k \<longleftrightarrow> char_boundary (bytes s) k"
    and read: "ok s \<Longrightarrow> a \<le> e \<Longrightarrow> char_boundary (bytes s) a \<Longrightarrow> char_boundary (bytes s) e \<Longrightarrow>
      e - a \<le> m \<Longrightarrow> read s a e m = Inr (sub a e (bytes s))"
begin

lemma boundary_below: "ok s \<Longrightarrow> n \<le> length (bytes s) \<Longrightarrow> \<exists>m. m \<le> n \<and> n \<le> m + 3 \<and> boundary s m"
  using char_boundary_near valid boundary by metis

lemma boundary_above:
  assumes "ok s" "n \<le> length (bytes s)"
  shows "\<exists>m. n \<le> m \<and> m \<le> n + 3 \<and> m \<le> length (bytes s) \<and> boundary s m"
proof (cases "n + 3 \<le> length (bytes s)")
  case True
  then obtain m where "m \<le> n + 3" "n + 3 \<le> m + 3" "boundary s m"
    using boundary_below [OF assms(1)] by blast
  with True show ?thesis
    by (intro exI [of _ m]) simp
next
  case False
  with assms show ?thesis
    by (intro exI [of _ "length (bytes s)"]) (simp add: boundary)
qed

text \<open>Three bytes on either side are enough, so a budget of six more than the range is.\<close>

lemma covered_read:
  assumes "ok s" "a \<le> e" "e \<le> length (bytes s)" "length (bytes s) \<le> usize_max" "e - a + 6 \<le> m"
  shows "\<exists>l r t. widen_left (boundary s) a = Some l \<and> widen_right (boundary s) e = Some r \<and>
    read s l r m = Inr t \<and> e - l \<le> length t \<and> sub (a - l) (e - l) t = sub a e (bytes s)"
proof -
  obtain ml where "ml \<le> a" "a \<le> ml + 3" "boundary s ml"
    using boundary_below [OF assms(1), of a] assms(2,3) by auto
  then obtain l where l: "widen_left (boundary s) a = Some l" "l \<le> a" "a \<le> l + 3" "boundary s l"
    using widen_left_Some [of "boundary s" ml a] by auto
  obtain mr where "e \<le> mr" "mr \<le> e + 3" "mr \<le> length (bytes s)" "boundary s mr"
    using boundary_above [OF assms(1,3)] by blast
  then obtain r where r: "widen_right (boundary s) e = Some r" "e \<le> r" "r \<le> e + 3"
      "r \<le> length (bytes s)" "boundary s r"
    using widen_right_Some [of "boundary s" mr e] assms(4) by auto
  have "read s l r m = Inr (sub l r (bytes s))"
    using read [OF assms(1), of l r m] l r assms boundary by auto
  moreover have "e - l \<le> length (sub l r (bytes s))"
    using l r assms(2) by simp
  moreover have "sub (a - l) (e - l) (sub l r (bytes s)) = sub a e (bytes s)"
    using l r assms(2) by (simp add: sub_sub min_def)
  ultimately show ?thesis
    using l(1) r(1) by blast
qed

end

interpretation snapshot_bytes: byte_reader good snap_text is_boundary snapshot_read
proof
  show "valid_utf8 (snap_text s)" if "good s" for s
    using that by (simp add: good_def snap_text_def owned_valid)
  show "is_boundary s k \<longleftrightarrow> char_boundary (snap_text s) k" if "good s" for s k
    using that by (rule is_boundary_text)
  show "snapshot_read s a e m = Inr (sub a e (snap_text s))"
    if "good s" "a \<le> e" "char_boundary (snap_text s) a" "char_boundary (snap_text s) e" "e - a \<le> m"
    for s a e m
    using that snapshot_chunks_text [OF that(1), of a e] char_boundary_le [OF that(4)]
    by (simp add: snapshot_read_def validate_range_def snapshot_len_text is_boundary_text)
qed

section \<open>Proposals\<close>

abbreviation proposal_edits :: "text_edit list \<Rightarrow> edit list" where
  "proposal_edits edits \<equiv>
     map (\<lambda>e. \<lparr>ed_start = te_start e, ed_end = te_end e, ed_insert = te_replacement e\<rparr>) edits"

lemma validate_proposal_ordered:
  "good source \<Longrightarrow> validate_proposal_from source p edits = Inr () \<Longrightarrow>
     ordered p (snap_text source) (proposal_edits edits)"
  by (induction source p edits rule: validate_proposal_from.induct)
    (auto simp: is_boundary_text split: if_splits)

lemma ordered_bounds:
  "ordered p t es \<Longrightarrow> e \<in> set es \<Longrightarrow> p \<le> ed_start e \<and> ed_start e \<le> ed_end e"
  by (induction es arbitrary: p) fastforce+

lemma ordered_sorted: "ordered p t es \<Longrightarrow> sorted (map (\<lambda>e. (ed_start e, ed_end e)) es)"
proof (induction es arbitrary: p)
  case (Cons e es)
  have "(ed_start e, ed_end e) \<le> (ed_start x, ed_end x)" if "x \<in> set es" for x
  proof -
    have "ed_start e \<le> ed_end e" "ed_end e \<le> ed_start x" "ed_start x \<le> ed_end x"
      using Cons.prems that ordered_bounds by auto
    then show ?thesis
      by (auto simp: less_eq_prod_def)
  qed
  with Cons show ?case
    by auto
qed simp

lemma ordered_checked:
  assumes "good s"
  shows "ordered p (snap_text s) es \<Longrightarrow> (\<And>q. previous = Some q \<Longrightarrow> ed_start q \<le> ed_end q \<and> ed_end q \<le> p) \<Longrightarrow>
    check_edits s previous es =
      (if distinct (map ed_start es) \<and> (\<forall>q. previous = Some q \<longrightarrow> ed_start q \<notin> ed_start ` set es)
       then Inr () else Inl OverlappingEdits)"
proof (induction es arbitrary: p previous)
  case (Cons e es)
  let ?t = "snap_text s"
  have e: "p \<le> ed_start e" "ed_start e \<le> ed_end e" "ordered (ed_end e) ?t es"
    "validate_range s (ed_start e) (ed_end e) = Inr ()"
    using Cons.prems(1) assms by (auto simp: validate_range_iff)
  have IH: "check_edits s (Some e) es =
      (if distinct (map ed_start es) \<and> ed_start e \<notin> ed_start ` set es then Inr () else Inl OverlappingEdits)"
    using Cons.IH [OF e(3), of "Some e"] e(2) by simp
  show ?case
  proof (cases previous)
    case None
    with IH e show ?thesis
      by simp
  next
    case (Some q)
    have q: "ed_start q \<le> ed_end q" "ed_end q \<le> ed_start e"
      using Cons.prems(2) [OF Some] e(1) by auto
    have "ed_start q \<notin> ed_start ` set es" if "ed_start q \<noteq> ed_start e"
      using that q e(2) ordered_bounds [OF e(3)] by fastforce
    with IH e q Some show ?thesis
      by auto
  qed
qed simp

lemma proposal_checked:
  assumes "good (d_current d)" "validate_proposal (d_current d) edits = Inr ()"
    "sn_revision (d_current d) + 1 \<le> usize_max"
    "tr = proposal_transaction (d_current d) edits"
  shows "check_transaction d tr =
    (if tr_edits tr = [] then Inl EmptyTransaction
     else if \<not> distinct (map ed_start (tr_edits tr)) then Inl OverlappingEdits
     else Inr tr)" "sorted_edits tr = tr_edits tr" "tr_base tr = sn_revision (d_current d)"
proof -
  have ord: "ordered 0 (snap_text (d_current d)) (tr_edits tr)"
    using assms validate_proposal_ordered
    by (auto simp: validate_proposal_def proposal_transaction_def split: if_splits)
  have "sort_key (\<lambda>e. (ed_start e, ed_end e)) (tr_edits tr) = tr_edits tr"
    by (rule sort_key_id_if_sorted [OF ordered_sorted [OF ord]])
  then show "sorted_edits tr = tr_edits tr"
    by (simp add: sorted_edits_def)
  show base: "tr_base tr = sn_revision (d_current d)"
    using assms(4) by (simp add: proposal_transaction_def)
  show "check_transaction d tr =
    (if tr_edits tr = [] then Inl EmptyTransaction
     else if \<not> distinct (map ed_start (tr_edits tr)) then Inl OverlappingEdits
     else Inr tr)"
    using ordered_checked [OF assms(1) ord, of None] \<open>sort_key _ _ = _\<close> base assms(3)
    by (simp add: check_transaction_def next_revision_def checked_add_def)
qed

section \<open>Runs of a broker\<close>

text \<open>A run is labelled with the numbers of the requests that were answered.\<close>

inductive invocation_run :: "invocation_broker \<Rightarrow> nat list \<Rightarrow> invocation_broker \<Rightarrow> bool" where
  invoked: "invocation_run b [] b"
| answered: "invocation_run b ids b' \<Longrightarrow>
    request_with_text decode original external m instant b' = (Inr v, b'') \<Longrightarrow>
    invocation_run b (ids @ [ev_request_id m]) b''"
| refused: "invocation_run b ids b' \<Longrightarrow>
    request_with_text decode original external m instant b' = (Inl f, b'') \<Longrightarrow>
    invocation_run b ids b''"

text \<open>What a request may change, and what it keeps.\<close>

definition broker_ok :: "invocation_broker \<Rightarrow> bool" where
  "broker_ok b \<longleftrightarrow>
     session_ok (ib_session b) \<and> distinct (ib_seen b) \<and> length (ib_seen b) \<le> 65536 \<and>
     length (ib_panels b) \<le> 16 \<and> list_all (\<lambda>(panel, _). panel \<in> set (ib_allowed_panels b)) (ib_panels b) \<and>
     ib_panel_bytes b = sum_list (map (\<lambda>(_, t). length t) (ib_panels b)) \<and>
     ib_panel_bytes b \<le> MAX_CHUNK_BYTES \<and>
     (\<forall>edits. ib_edits b = Some edits \<longrightarrow> validate_proposal (ib_source b) edits = Inr ()) \<and>
     (ib_external_text b \<longrightarrow> ib_edits b = None \<and> ss_staged (ib_session b) = [])"

definition same_capture :: "invocation_broker \<Rightarrow> invocation_broker \<Rightarrow> bool" where
  "same_capture b b' \<longleftrightarrow>
     ib_invocation b' = ib_invocation b \<and> ib_source b' = ib_source b \<and>
     ib_external_text b' = ib_external_text b \<and> ib_allowed_panels b' = ib_allowed_panels b"

lemma same_capture_trans: "same_capture a b \<Longrightarrow> same_capture b c \<Longrightarrow> same_capture a c"
  by (simp add: same_capture_def)

text \<open>Steps of the session that stage nothing new.\<close>

lemma nothing_staged:
  "ss_staged s = [] \<Longrightarrow> ss_staged (expire instant s) = []"
  "ss_staged s = [] \<Longrightarrow> ss_staged (cancel r s) = []"
  by (simp add: expire_def cancel_all) (simp add: cancel_def)

lemma append_nothing:
  assumes "append_chunk m instant s = (r, s')" "ss_staged s = []"
  shows "ss_staged s' = []"
proof (cases r)
  case (Inl e)
  with assms show ?thesis
    by (auto dest!: append_chunk_Inl simp: nothing_staged)
next
  case (Inr u)
  with assms nothing_staged(1) [OF assms(2), of instant] show ?thesis
    by (auto elim: append_chunk_Inr)
qed

lemma commit_nothing:
  "commit_checked decode check m current instant s = (r, s') \<Longrightarrow> ss_staged s = [] \<Longrightarrow>
   ss_staged s' = [] \<and> (\<exists>e. r = Inl e)"
proof (cases r)
  case (Inr u)
  assume c: "commit_checked decode check m current instant s = (r, s')" "ss_staged s = []"
  with Inr nothing_staged(1) [OF c(2), of instant] show ?thesis
    by (auto elim: commit_checked_Inr)
qed (auto dest!: commit_checked_state simp: nothing_staged)

lemma commit_checked_ok:
  "session_ok s \<Longrightarrow> commit_checked decode check m current instant s = (r, s') \<Longrightarrow> session_ok s'"
  by (auto dest!: commit_checked_state intro: expire_ok cancel_ok)

text \<open>The arms of the handler keep the invariant and the capture.\<close>

lemma begin_proposal_ok:
  assumes "broker_ok b" "begin_proposal m document instant b = (r, b')"
  shows "broker_ok b' \<and> same_capture b b' \<and> ib_seen b' = ib_seen b"
proof -
  obtain r1 s' where s': "begin_edits m (iv_revision (ib_invocation b)) instant (ib_session b) = (r1, s')"
    by fastforce
  then have "session_ok s'"
    using assms(1) begin_edits_ok by (auto simp: broker_ok_def)
  with assms s' show ?thesis
    by (auto simp: begin_proposal_def session_reply_def broker_ok_def same_capture_def Let_def
        split: if_splits sum.splits)
qed

lemma append_proposal_ok:
  assumes "broker_ok b"
    "append_proposal m instant b = (r, b')"
  shows "broker_ok b' \<and> same_capture b b' \<and> ib_seen b' = ib_seen b"
proof -
  obtain r1 s' where s': "append_chunk m instant (ib_session b) = (r1, s')"
    by fastforce
  then have "session_ok s'" "ss_staged (ib_session b) = [] \<Longrightarrow> ss_staged s' = []"
    using assms(1) append_chunk_ok append_nothing by (auto simp: broker_ok_def)
  with assms s' show ?thesis
    by (auto simp: append_proposal_def session_reply_def broker_ok_def same_capture_def Let_def split: sum.splits)
qed

lemma commit_proposal_ok:
  assumes "broker_ok b" "commit_proposal decode m instant b = (r, b')"
  shows "broker_ok b' \<and> same_capture b b' \<and> ib_seen b' = ib_seen b"
proof -
  obtain r1 s' where s': "commit_checked decode (validate_proposal (ib_source b)) m
      (iv_revision (ib_invocation b)) instant (ib_session b) = (r1, s')"
    by fastforce
  then have "session_ok s'" "ss_staged (ib_session b) = [] \<Longrightarrow> ss_staged s' = [] \<and> (\<exists>e. r1 = Inl e)"
    using assms(1) commit_checked_ok commit_nothing by (auto simp: broker_ok_def)
  moreover have "r1 = Inr edits \<Longrightarrow> validate_proposal (ib_source b) edits = Inr ()" for edits
    using s' by (auto elim: commit_checked_Inr)
  ultimately show ?thesis
    using assms s'
    by (auto simp: commit_proposal_def session_reply_def broker_ok_def same_capture_def Let_def
        split: if_splits sum.splits)
qed

lemma apply_proposal_ok:
  "broker_ok b \<Longrightarrow> apply_proposal document revision edits b = (r, b') \<Longrightarrow>
   broker_ok b' \<and> same_capture b b' \<and> ib_seen b' = ib_seen b"
  by (auto simp: apply_proposal_def broker_ok_def same_capture_def split: if_splits sum.splits)

lemma show_panel_ok:
  assumes "broker_ok b" "show_panel panel t b = (r, b')"
  shows "broker_ok b' \<and> same_capture b b' \<and> ib_seen b' = ib_seen b"
proof -
  have "MAX_CHUNK_BYTES < usize_max"
    by (simp add: MAX_CHUNK_BYTES_def usize_max_def)
  then have "ib_panel_bytes b + length t \<le> MAX_CHUNK_BYTES"
    if "sat_add (ib_panel_bytes b) (length t) \<le> MAX_CHUNK_BYTES"
    using that by (auto simp: sat_add_def min_def split: if_splits)
  with assms show ?thesis
    by (auto simp: show_panel_def broker_ok_def same_capture_def split: if_splits)
qed

lemma cancel_proposal_ok:
  "broker_ok b \<Longrightarrow> broker_ok (b\<lparr>ib_session := cancel r (ib_session b), ib_edits := None\<rparr>)"
  by (simp add: broker_ok_def cancel_ok nothing_staged)

lemma serve_ok:
  assumes "broker_ok b" "serve decode original external m instant b = (r, b')"
  shows "broker_ok b' \<and> same_capture b b' \<and> ib_seen b' = ib_seen b"
proof (cases "ev_request m")
  case (BeginEdits document revision)
  with assms begin_proposal_ok show ?thesis
    by (simp add: serve_def)
next
  case (AppendChunk t c)
  with assms append_proposal_ok show ?thesis
    by (simp add: serve_def)
next
  case (CommitEdits t revision)
  with assms commit_proposal_ok show ?thesis
    by (simp add: serve_def)
next
  case (ApplyEdits document revision edits)
  with assms apply_proposal_ok show ?thesis
    by (simp add: serve_def)
next
  case (Panel panel t)
  with assms show_panel_ok show ?thesis
    by (simp add: serve_def)
next
  case (Cancel i)
  with assms cancel_proposal_ok show ?thesis
    by (auto simp: serve_def same_capture_def)
qed (use assms in \<open>auto simp: serve_def same_capture_def\<close>)

lemma request_ok:
  assumes "broker_ok b" "request_with_text decode original external m instant b = (r, b')"
  shows "broker_ok b' \<and> same_capture b b' \<and>
    (b' = b \<and> (\<exists>f. r = Inl f) \<or>
     ev_request_id m \<notin> set (ib_seen b) \<and> ib_seen b' = ev_request_id m # ib_seen b)"
proof (cases "authorize (ib_session b) m = Inr () \<and> length (ib_seen b) < 65536 \<and>
    ev_request_id m \<notin> set (ib_seen b)")
  case False
  with assms show ?thesis
    by (auto simp: request_with_text_def same_capture_def split: sum.splits if_splits)
next
  case True
  let ?b = "b\<lparr>ib_seen := ev_request_id m # ib_seen b\<rparr>"
  have "broker_ok ?b" "same_capture b ?b"
    using assms(1) True by (simp_all add: broker_ok_def same_capture_def)
  moreover have "serve decode original external m instant ?b = (r, b')"
    using assms(2) True by (simp add: request_with_text_def)
  ultimately have "broker_ok b' \<and> same_capture ?b b' \<and> ib_seen b' = ib_seen ?b"
    using serve_ok by blast
  with True \<open>same_capture b ?b\<close> same_capture_trans show ?thesis
    by (metis (no_types, lifting) invocation_broker.select_convs(5) invocation_broker.surjective
        invocation_broker.update_convs(5))
qed

lemma invocation_run_ok:
  "invocation_run b ids b' \<Longrightarrow> broker_ok b \<Longrightarrow> ib_seen b = [] \<Longrightarrow>
     broker_ok b' \<and> same_capture b b' \<and> distinct ids \<and> set ids \<subseteq> set (ib_seen b')"
proof (induction rule: invocation_run.induct)
  case (answered b ids b' decode original external m instant v b'')
  then show ?case
    using request_ok [of b' decode original external m instant "Inr v" b''] same_capture_trans by fastforce
next
  case (refused b ids b' decode original external m instant f b'')
  then show ?case
    using request_ok [of b' decode original external m instant "Inl f" b''] same_capture_trans by fastforce
qed (simp add: same_capture_def)

lemma new_invocation_ok:
  assumes "new_invocation i source session panels = Inr b" "session_ok session"
  shows "broker_ok b" "ib_seen b = []" "ib_source b = source"
  using assms by (auto simp: new_invocation_def broker_ok_def split: if_splits)

lemma new_paged_invocation_ok:
  assumes "new_paged_invocation i source session panels = Inr b" "session_ok session" "ss_staged session = []"
  shows "broker_ok b" "ib_seen b = []"
  using assms by (auto simp: new_paged_invocation_def broker_ok_def split: if_splits)

section \<open>A sample invocation\<close>

text \<open>A guest that inserts two bytes before the last character of the sample document.\<close>

definition sample_source :: snapshot where
  "sample_source = d_current sample_doc"

definition sample_invocation :: invocation where
  "sample_invocation =
     \<lparr>iv_extension_id = ascii ''fixture'', iv_command = [], iv_arguments = [], iv_document = 1,
      iv_revision = 0, iv_source_generation = 0, iv_text_length = 5, iv_raw_length = 5,
      iv_grant_generation = 1\<rparr>"

definition sample_broker :: invocation_broker where
  "sample_broker =
     \<lparr>ib_invocation = sample_invocation, ib_source = sample_source, ib_session = sample_granted,
      ib_allowed_panels = [], ib_seen = [], ib_edits = None, ib_panels = [], ib_panel_bytes = 0,
      ib_external_text = False\<rparr>"

definition sample_proposal :: "text_edit list" where
  "sample_proposal = [\<lparr>te_start = 4, te_end = 4, te_replacement = [120, 121]\<rparr>]"

definition sample_proposed :: invocation_broker where
  "sample_proposed = sample_broker\<lparr>ib_seen := [5], ib_edits := Some sample_proposal\<rparr>"

lemma sample_source_ok: "good sample_source" "snap_text sample_source = [97, 98, CR, LF, 99]"
  "sn_revision sample_source = 0" "snapshot_len sample_source = 5" "sn_complete sample_source"
  using snapshot_len_text [OF sample_doc_ok(2)]
  by (simp_all add: sample_source_def) (simp add: sample_doc_def empty_doc_def)

lemma sample_broker_new:
  "new_invocation sample_invocation sample_source sample_granted [] = Inr sample_broker"
  by (simp add: new_invocation_def sample_invocation_def sample_source_ok sample_granted_eq sample_broker_def)

lemma sample_granted_ok: "session_ok sample_granted"
  using approve_ok [OF sample_session_ok] by (simp add: sample_granted_def)

lemma sample_proposal_valid: "validate_proposal sample_source sample_proposal = Inr ()"
proof -
  have "is_boundary sample_source 4"
    unfolding is_boundary_text [OF sample_source_ok(1)] sample_source_ok(2) by code_simp
  then show ?thesis
    by (simp add: validate_proposal_def sample_proposal_def usize_max_def)
qed

lemma sample_proposed_run: "invocation_run sample_broker [5] sample_proposed"
proof -
  let ?m = "follow_up sample_begin 5 (ApplyEdits 1 0 sample_proposal)"
  have "authorize (ib_session sample_broker) ?m = Inr ()"
    by (simp add: authorize_def check_grant_def follow_up_def sample_begin_def sample_broker_def
        sample_granted_eq PROTOCOL_VERSION_def)
  then have "request_with_text sample_decode (\<lambda>_ _. Inl Aborted) (\<lambda>_. Inl Aborted) ?m 0 sample_broker =
      (Inr Acknowledged, sample_proposed)"
    by (simp add: request_with_text_def serve_def apply_proposal_def follow_up_def sample_broker_def
        sample_invocation_def sample_proposal_valid sample_proposed_def)
  from answered [OF invoked this] show ?thesis
    by (simp add: follow_up_def)
qed

section \<open>The properties of an invocation\<close>

text \<open>The guest reads exactly the bytes of the captured text that it asks for, also when the
  range starts or stops inside a character: the widening loops stop at the boundaries around the
  range, the widened read fits its budget, and nothing panics. Every other range is refused.\<close>
theorem read_bytes_exact:
  assumes "good source" "length (snap_text source) \<le> usize_max"
  shows "read_bytes source (s, e) =
    (if s > usize_max \<or> e > usize_max then Inl (Refused ''TextOffset overflow'')
     else if s > e \<or> e > length (snap_text source) \<or> e - s > MAX_CHUNK_BYTES - 128
     then Inl (Refused ''Text range limit'')
     else Inr (sub s e (snap_text source)))"
proof (cases "s \<le> e \<and> e \<le> length (snap_text source) \<and> e - s \<le> MAX_CHUNK_BYTES - 128")
  case True
  then have "e - s + 6 \<le> MAX_CHUNK_BYTES"
    unfolding MAX_CHUNK_BYTES_def by linarith
  with True assms snapshot_bytes.covered_read [OF assms(1), of s e MAX_CHUNK_BYTES] show ?thesis
    by (auto simp: read_bytes_def snapshot_len_text)
qed (auto simp: read_bytes_def snapshot_len_text [OF assms(1)])

theorem read_bytes_exact_witness: "read_bytes sample_source (1, 4) = Inr [98, CR, LF]"
proof -
  have "length (snap_text sample_source) \<le> usize_max"
    by (simp add: sample_source_ok usize_max_def)
  from read_bytes_exact [OF sample_source_ok(1) this, of 1 4] show ?thesis
    by (simp add: sample_source_ok sub_def usize_max_def MAX_CHUNK_BYTES_def)
qed

text \<open>C35: Whatever messages the guest sends, in any order and at any instants, its broker stays
  within its limits: the session invariant holds, no request number is answered twice, panels are
  among those the package declares and their output is bounded, at most one proposal is held and it
  fits the snapshot captured at the start, and an invocation on a paged document never holds one.\<close>
theorem invocation_invariant:
  assumes "new_invocation i source session panels = Inr b \<or>
      new_paged_invocation i source session panels = Inr b \<and> ss_staged session = []"
    "session_ok session" "invocation_run b ids b'"
  shows "broker_ok b' \<and> same_capture b b' \<and> distinct ids \<and> length ids \<le> 65536"
proof -
  have "broker_ok b \<and> ib_seen b = []"
    using assms(1,2) new_invocation_ok(1,2) new_paged_invocation_ok by blast
  then have run: "broker_ok b' \<and> same_capture b b' \<and> distinct ids \<and> set ids \<subseteq> set (ib_seen b')"
    using invocation_run_ok [OF assms(3)] by blast
  have "length ids = card (set ids)"
    using run by (simp add: distinct_card)
  also have "\<dots> \<le> card (set (ib_seen b'))"
    using run by (simp add: card_mono)
  also have "\<dots> \<le> 65536"
    using run card_length [of "ib_seen b'"] by (simp add: broker_ok_def)
  finally show ?thesis
    using run by blast
qed

theorem invocation_invariant_witness:
  "broker_ok sample_proposed \<and> same_capture sample_broker sample_proposed"
  using invocation_invariant [OF disjI1 [OF sample_broker_new] sample_granted_ok sample_proposed_run]
  by blast

text \<open>The transaction of a finished invocation passes the document's checks exactly as it
  stands, without being reordered, when the document is still at the captured snapshot: only a
  proposal without edits, or one in which two edits start at the same offset, is refused, with the
  error named.\<close>
theorem proposal_checks_exactly:
  assumes "new_invocation i source session panels = Inr b" "session_ok session" "invocation_run b ids b'"
    "finish_invocation child b' = Inr out" "io_transaction out = Some tr"
    "d_current d = source" "good source" "sn_revision source + 1 \<le> usize_max"
  shows "io_source out = source \<and>
    check_transaction d tr =
     (if tr_edits tr = [] then Inl EmptyTransaction
      else if \<not> distinct (map ed_start (tr_edits tr)) then Inl OverlappingEdits
      else Inr tr)"
proof -
  note new = new_invocation_ok [OF assms(1,2)]
  note run = invocation_run_ok [OF assms(3) new(1,2)]
  from run new(3) have src: "ib_source b' = source"
    by (simp add: same_capture_def)
  obtain edits where edits: "ib_edits b' = Some edits" "tr = proposal_transaction source edits"
    using assms(4,5) src by (auto simp: finish_invocation_def and_then_Inr_iff)
  have "validate_proposal source edits = Inr ()"
    using run edits(1) src by (simp add: broker_ok_def)
  with proposal_checked(1) [of d edits tr] assms(4,6-8) edits(2) src show ?thesis
    by (auto simp: finish_invocation_def and_then_Inr_iff)
qed

lemma sample_finished:
  "finish_invocation (Inr ()) sample_proposed =
     Inr \<lparr>io_source = sample_source,
          io_transaction = Some (proposal_transaction sample_source sample_proposal), io_panels = []\<rparr>"
  by (simp add: finish_invocation_def sample_proposed_def sample_broker_def)

theorem proposal_checks_exactly_witness:
  "check_transaction sample_doc (proposal_transaction sample_source sample_proposal) =
     Inr (proposal_transaction sample_source sample_proposal)"
proof -
  have "sn_revision sample_source + 1 \<le> usize_max"
    by (simp add: sample_source_ok usize_max_def)
  from proposal_checks_exactly [OF sample_broker_new sample_granted_ok sample_proposed_run sample_finished
      _ sample_source_def [symmetric] sample_source_ok(1) this]
  show ?thesis
    by (simp add: proposal_transaction_def sample_proposal_def)
qed



end
