(* ===== verification/Chars.thy ===== *)
theory Chars
  imports Utf8
begin

text \<open>
  Characters: a \<open>char\<close> is the list of its UTF-8 bytes, \<open>str::chars\<close> cuts a text into them, and a code
  point is read from the bytes or written as bytes.
\<close>

section \<open>The characters of a text\<close>

text \<open>A byte that starts no character is one of its own; a \<open>str\<close> has none.\<close>

function utf8_chars :: "byte list \<Rightarrow> byte list list" where
  "utf8_chars xs =
     (case xs of [] \<Rightarrow> []
      | b # _ \<Rightarrow> take (max 1 (utf8_width b)) xs # utf8_chars (drop (max 1 (utf8_width b)) xs))"
  by pat_completeness auto
termination
  by (relation "measure length") auto

declare utf8_chars.simps [simp del]

lemma utf8_chars_Nil [simp]: "utf8_chars [] = []"
  by (simp add: utf8_chars.simps)

lemma utf8_chars_eq_Nil [simp]: "utf8_chars t = [] \<longleftrightarrow> t = []"
  by (subst utf8_chars.simps) (simp split: list.splits)

text \<open>The first character of a well-formed text.\<close>

lemma utf8_chars_step:
  assumes "valid_utf8 t" "t \<noteq> []"
  obtains w where "w = utf8_width (hd t)" "0 < w" "w \<le> 4" "w \<le> length t" "utf8_scalar (take w t)"
    "valid_utf8 (drop w t)" "utf8_chars t = take w t # utf8_chars (drop w t)"
proof -
  obtain w where w: "w = utf8_width (hd t)" "0 < w" "w \<le> 4" "w \<le> length t" "utf8_scalar (take w t)"
    "valid_utf8 (drop w t)"
    using valid_utf8_step [OF assms] by metis
  obtain b bs where t: "t = b # bs"
    using assms(2) by (cases t) auto
  have "max 1 (utf8_width b) = w"
    using w(1,2) t by simp
  then have "utf8_chars t = take w t # utf8_chars (drop w t)"
    unfolding utf8_chars.simps [of t] by (simp only: t list.case)
  with w that show thesis
    by blast
qed

lemma valid_utf8_induct [consumes 1, case_names Nil Char]:
  assumes "valid_utf8 t" "P []"
    "\<And>c t. utf8_scalar c \<Longrightarrow> valid_utf8 t \<Longrightarrow> utf8_chars (c @ t) = c # utf8_chars t \<Longrightarrow> P t \<Longrightarrow> P (c @ t)"
  shows "P t"
  using assms(1)
proof (induction "length t" arbitrary: t rule: less_induct)
  case less
  show ?case
  proof (cases "t = []")
    case False
    then obtain w where w: "0 < w" "w \<le> length t" "utf8_scalar (take w t)" "valid_utf8 (drop w t)"
      "utf8_chars t = take w t # utf8_chars (drop w t)"
      using utf8_chars_step [OF less.prems] by metis
    have "P (take w t @ drop w t)"
      using w less.hyps [of "drop w t"] False by (intro assms(3)) auto
    then show ?thesis
      by simp
  qed (simp add: assms(2))
qed

lemma concat_utf8_chars [simp]: "valid_utf8 t \<Longrightarrow> concat (utf8_chars t) = t"
  by (induction t rule: valid_utf8_induct) simp_all

lemma utf8_scalar_valid: "utf8_scalar c \<Longrightarrow> valid_utf8 c"
  by (cases c) (auto simp: utf8_scalar_def valid_utf8_Cons split: list.splits)

lemma utf8_chars_scalar: "valid_utf8 t \<Longrightarrow> c \<in> set (utf8_chars t) \<Longrightarrow> utf8_scalar c"
  by (induction t rule: valid_utf8_induct) auto

lemma utf8_chars_append: "valid_utf8 s \<Longrightarrow> valid_utf8 t \<Longrightarrow> utf8_chars (s @ t) = utf8_chars s @ utf8_chars t"
proof (induction s rule: valid_utf8_induct)
  case (Char c s)
  obtain b bs where c: "c = b # bs" "length c = utf8_width b"
    using Char.hyps(1) by (cases c) (auto simp: utf8_scalar_def)
  then have "max 1 (utf8_width b) = length c"
    by simp
  then have "utf8_chars (c @ s @ t) = take (length c) (c @ s @ t) # utf8_chars (drop (length c) (c @ s @ t))"
    unfolding utf8_chars.simps [of "c @ s @ t"] by (simp only: c(1) append_Cons list.case)
  with Char show ?case
    by simp
qed simp

lemma utf8_chars_concat:
  "list_all valid_utf8 ts \<Longrightarrow> utf8_chars (concat ts) = concat (map utf8_chars ts)"
proof (induction ts)
  case (Cons t ts)
  moreover from Cons have "valid_utf8 (concat ts)"
    by (intro valid_utf8_concat) (auto simp: list_all_iff)
  ultimately show ?case
    by (simp add: utf8_chars_append)
qed simp

lemma utf8_scalar_not_Nil: "utf8_scalar c \<Longrightarrow> c \<noteq> []"
  by (auto simp: utf8_scalar_def)

section \<open>Code points\<close>

text \<open>\<open>char as u32\<close> and \<open>char::from_u32\<close>.\<close>

definition char_code :: "byte list \<Rightarrow> nat" where
  "char_code c =
     (case map unat c of
        [a] \<Rightarrow> a
      | [a, b] \<Rightarrow> (a - 0xC0) * 64 + (b - 0x80)
      | [a, b, d] \<Rightarrow> ((a - 0xE0) * 64 + (b - 0x80)) * 64 + (d - 0x80)
      | [a, b, d, e] \<Rightarrow> (((a - 0xF0) * 64 + (b - 0x80)) * 64 + (d - 0x80)) * 64 + (e - 0x80)
      | _ \<Rightarrow> 0)"

definition encode_char :: "nat \<Rightarrow> byte list" where
  "encode_char n =
     map of_nat
       (if n < 0x80 then [n]
        else if n < 0x800 then [0xC0 + n div 64, 0x80 + n mod 64]
        else if n < 0x10000 then [0xE0 + n div 4096, 0x80 + n div 64 mod 64, 0x80 + n mod 64]
        else [0xF0 + n div 262144, 0x80 + n div 4096 mod 64, 0x80 + n div 64 mod 64, 0x80 + n mod 64])"

definition char_from_u32 :: "nat \<Rightarrow> byte list option" where
  "char_from_u32 n =
     (if n > 0x10FFFF \<or> 0xD800 \<le> n \<and> n \<le> 0xDFFF then None else Some (encode_char n))"

lemma unat_byte: "x < 256 \<Longrightarrow> unat (of_nat x :: byte) = x"
  by (simp add: unsigned_of_nat take_bit_nat_eq_self)

lemma utf8_scalar_2:
  assumes "0xC2 \<le> x" "x \<le> 0xDF" "0x80 \<le> y" "y \<le> 0xBF"
  shows "utf8_scalar [of_nat x, of_nat y]"
  using assms
  by (simp add: utf8_scalar_def utf8_width_def utf8_second_ok_def cont_iff word_le_nat_alt word_less_nat_alt
      word_unat_eq_iff unat_byte)

lemma cont_of_nat: "0x80 \<le> y \<Longrightarrow> y \<le> 0xBF \<Longrightarrow> cont (of_nat y)"
  by (simp add: cont_iff word_le_nat_alt unat_byte)

lemma utf8_scalar_3:
  assumes "0xE0 \<le> x" "x \<le> 0xEF" "0x80 \<le> y" "y \<le> 0xBF" "0x80 \<le> z" "z \<le> 0xBF"
    "x = 0xE0 \<Longrightarrow> 0xA0 \<le> y" "x = 0xED \<Longrightarrow> y \<le> 0x9F"
  shows "utf8_scalar [of_nat x, of_nat y, of_nat z]"
proof -
  have "utf8_width (of_nat x) = 3"
    using assms(1,2) by (simp add: utf8_width_def word_le_nat_alt word_less_nat_alt unat_byte)
  moreover have "utf8_second_ok (of_nat x) (of_nat y)"
    using assms by (auto simp: utf8_second_ok_def word_le_nat_alt word_unat_eq_iff unat_byte)
  ultimately show ?thesis
    using assms(3-6) by (simp add: utf8_scalar_def cont_of_nat)
qed

lemma utf8_scalar_4:
  assumes "0xF0 \<le> x" "x \<le> 0xF4" "0x80 \<le> y" "y \<le> 0xBF" "0x80 \<le> z" "z \<le> 0xBF" "0x80 \<le> u" "u \<le> 0xBF"
    "x = 0xF0 \<Longrightarrow> 0x90 \<le> y" "x = 0xF4 \<Longrightarrow> y \<le> 0x8F"
  shows "utf8_scalar [of_nat x, of_nat y, of_nat z, of_nat u]"
proof -
  have "utf8_width (of_nat x) = 4"
    using assms(1,2) by (simp add: utf8_width_def word_le_nat_alt word_less_nat_alt unat_byte)
  moreover have "utf8_second_ok (of_nat x) (of_nat y)"
    using assms by (auto simp: utf8_second_ok_def word_le_nat_alt word_unat_eq_iff unat_byte)
  ultimately show ?thesis
    using assms(3-8) by (simp add: utf8_scalar_def cont_of_nat)
qed

lemma char_from_u32_scalar:
  assumes "char_from_u32 n = Some c"
  shows "utf8_scalar c"
proof -
  have n: "n \<le> 0x10FFFF" "\<not> (0xD800 \<le> n \<and> n \<le> 0xDFFF)" and c: "c = encode_char n"
    using assms by (auto simp: char_from_u32_def split: if_splits)
  have tail: "0x80 \<le> 0x80 + m mod 64" "0x80 + m mod 64 \<le> 0xBF" for m :: nat
    using mod_less_divisor [of 64 m] by linarith+
  consider "n < 0x80" | "0x80 \<le> n" "n < 0x800" | "0x800 \<le> n" "n < 0x10000" | "0x10000 \<le> n"
    by linarith
  then show ?thesis
  proof cases
    case 1
    then show ?thesis
      by (simp add: c encode_char_def utf8_scalar_def utf8_width_def word_less_nat_alt unat_byte)
  next
    case 2
    then have "utf8_scalar [of_nat (0xC0 + n div 64), of_nat (0x80 + n mod 64)]"
      by (intro utf8_scalar_2 tail) linarith+
    with 2 show ?thesis
      by (simp add: c encode_char_def)
  next
    case 3
    have "utf8_scalar [of_nat (0xE0 + n div 4096), of_nat (0x80 + n div 64 mod 64), of_nat (0x80 + n mod 64)]"
    proof (intro utf8_scalar_3 tail)
      have "n div 64 = 64 * (n div 4096) + n div 64 mod 64"
        using div_mult2_eq [of n 64 64] mult_div_mod_eq [of 64 "n div 64"] by simp
      with 3 n show "0xE0 + n div 4096 = 0xE0 \<Longrightarrow> 0xA0 \<le> 0x80 + n div 64 mod 64"
        "0xE0 + n div 4096 = 0xED \<Longrightarrow> 0x80 + n div 64 mod 64 \<le> 0x9F"
        by linarith+
    qed (use 3 in linarith)+
    with 3 show ?thesis
      by (simp add: c encode_char_def)
  next
    case 4
    have "utf8_scalar [of_nat (0xF0 + n div 262144), of_nat (0x80 + n div 4096 mod 64), of_nat (0x80 + n div 64 mod 64),
        of_nat (0x80 + n mod 64)]"
    proof (intro utf8_scalar_4 tail)
      have "n div 4096 = 64 * (n div 262144) + n div 4096 mod 64"
        using div_mult2_eq [of n 4096 64] mult_div_mod_eq [of 64 "n div 4096"] by simp
      with 4 n show "0xF0 + n div 262144 = 0xF0 \<Longrightarrow> 0x90 \<le> 0x80 + n div 4096 mod 64"
        "0xF0 + n div 262144 = 0xF4 \<Longrightarrow> 0x80 + n div 4096 mod 64 \<le> 0x8F"
        by linarith+
    qed (use 4 n in linarith)+
    with 4 show ?thesis
      by (simp add: c encode_char_def)
  qed
qed

section \<open>Kinds of characters\<close>

definition ascii_lower :: "byte \<Rightarrow> byte" where
  "ascii_lower b = (if 65 \<le> b \<and> b \<le> 90 then b + 32 else b)"

text \<open>\<open>char::is_control\<close> and \<open>char::is_whitespace\<close>: the Unicode category Cc, and the property White_Space.\<close>

definition is_control :: "byte list \<Rightarrow> bool" where
  "is_control c \<longleftrightarrow> char_code c < 0x20 \<or> 0x7F \<le> char_code c \<and> char_code c \<le> 0x9F"

definition is_whitespace :: "byte list \<Rightarrow> bool" where
  "is_whitespace c \<longleftrightarrow>
     (let n = char_code c in
      9 \<le> n \<and> n \<le> 13 \<or> n \<in> {0x20, 0x85, 0xA0, 0x1680, 0x2028, 0x2029, 0x202F, 0x205F, 0x3000} \<or>
      0x2000 \<le> n \<and> n \<le> 0x200A)"

text \<open>\<open>str::trim\<close>, on the characters of a text.\<close>

definition trim_chars :: "byte list list \<Rightarrow> byte list list" where
  "trim_chars cs = rev (dropWhile is_whitespace (rev (dropWhile is_whitespace cs)))"

text \<open>\<open>split\<close> at the characters a test accepts.\<close>

fun split_at_chars :: "('a \<Rightarrow> bool) \<Rightarrow> 'a list \<Rightarrow> 'a list list" where
  "split_at_chars p [] = [[]]"
| "split_at_chars p (c # cs) =
     (if p c then [] # split_at_chars p cs
      else case split_at_chars p cs of [] \<Rightarrow> [[c]] | w # ws \<Rightarrow> (c # w) # ws)"

text \<open>The bytes of an ASCII literal.\<close>

definition ascii :: "string \<Rightarrow> byte list" where
  "ascii s = map of_char s"

definition strip_prefix :: "byte list \<Rightarrow> byte list \<Rightarrow> byte list option" where
  "strip_prefix p t = (if take (length p) t = p then Some (drop (length p) t) else None)"

end
