(* ===== verification/Diff_Work.thy ===== *)
theory Diff_Work
  imports Document_Text Effects Chars
begin

text \<open>
  The comparison of two texts, crates/diff/src/lib.rs: its options and limits, the meter that every
  phase works under, and the cutting of a text into normalized lines.

  A comparison asks two things of its surroundings again and again: whether it was cancelled and how
  much time the phase has taken. Both are oracles, asked at the \<open>n\<close>-th poll. The case folding of
  crates/unicode-fold is a generated table, and words and grapheme clusters come from an external
  crate; they, the capacity an allocation gets and the \<open>size_of\<close> constants are fields of the
  \<open>setting\<close>.
\<close>

section \<open>Options, outcomes and the meter\<close>

datatype whitespace = Significant | TrimEdges | IgnoreAll

record resource_limits =
  rl_max_lines_exact :: nat
  rl_max_bytes_exact :: nat
  rl_time_budget_ms :: nat
  rl_max_memory_bytes :: nat

record compare_options =
  co_whitespace :: whitespace
  co_ignore_blank_lines :: bool
  co_ignore_case :: bool
  co_ignore_eol_style :: bool
  co_ignore_encoding_bom :: bool
  co_normalize_tabs :: bool
  co_limits :: resource_limits

datatype coarse_reason = LinesLimit | BytesLimit | MemoryLimit | TimeLimit | Windowed

text \<open>\<open>Crashed\<close> is the model's value for a panic; the code has no such constructor.\<close>

datatype completeness =
    Exact
  | Coarse coarse_reason
  | Cancelled
  | Unavailable
  | Failed
  | Crashed

record setting =
  cs_options :: compare_options
  cs_cancelled :: "nat \<Rightarrow> bool"
  cs_elapsed :: "nat \<Rightarrow> nat"
  cs_fold :: "byte list \<Rightarrow> byte list"
  cs_capacity :: "byte list \<Rightarrow> nat"
  cs_words :: "byte list \<Rightarrow> byte list list"
  cs_graphemes :: "byte list \<Rightarrow> byte list list"
  cs_line_size :: nat
  cs_usize_size :: nat
  cs_hunk_size :: nat
  cs_span_size :: nat

record work =
  wk_used :: nat
  wk_peak :: nat
  wk_polls :: nat

type_synonym 'a run = "(work, completeness, 'a) step"

abbreviation limits :: "setting \<Rightarrow> resource_limits" where
  "limits cs \<equiv> co_limits (cs_options cs)"

definition cancelled :: "setting \<Rightarrow> unit run" where
  "cancelled cs w =
     (if cs_cancelled cs (wk_polls w) then Inl Cancelled else Inr (),
      w\<lparr>wk_polls := Suc (wk_polls w)\<rparr>)"

definition check :: "setting \<Rightarrow> unit run" where
  "check cs w =
     (if cs_cancelled cs (wk_polls w) then Inl Cancelled
      else if cs_elapsed cs (wk_polls w) \<ge> rl_time_budget_ms (limits cs) then Inl (Coarse TimeLimit)
      else Inr (),
      w\<lparr>wk_polls := Suc (wk_polls w)\<rparr>)"

definition reserve :: "setting \<Rightarrow> nat \<Rightarrow> unit run" where
  "reserve cs n w =
     (let next_used = sat_add (wk_used w) n in
      if next_used > rl_max_memory_bytes (limits cs) then (Inl (Coarse MemoryLimit), w)
      else (Inr (), w\<lparr>wk_used := next_used, wk_peak := max (wk_peak w) next_used\<rparr>))"

lemma cancelled_Inr [simp]: "cancelled cs w = (Inr (), w') \<longleftrightarrow>
    \<not> cs_cancelled cs (wk_polls w) \<and> w' = w\<lparr>wk_polls := Suc (wk_polls w)\<rparr>"
  by (auto simp: cancelled_def)

section \<open>Characters\<close>

text \<open>\<open>char::is_whitespace\<close>: the code points with the property White_Space.\<close>

definition is_whitespace :: "byte list \<Rightarrow> bool" where
  "is_whitespace c \<longleftrightarrow>
     (case c of
        [a] \<Rightarrow> 9 \<le> a \<and> a \<le> 13 \<or> a = 32
      | [a, b] \<Rightarrow> a = 0xC2 \<and> (b = 0x85 \<or> b = 0xA0)
      | [a, b, d] \<Rightarrow>
          a = 0xE1 \<and> b = 0x9A \<and> d = 0x80 \<or>
          a = 0xE2 \<and> b = 0x80 \<and> (0x80 \<le> d \<and> d \<le> 0x8A \<or> d = 0xA8 \<or> d = 0xA9 \<or> d = 0xAF) \<or>
          a = 0xE2 \<and> b = 0x81 \<and> d = 0x9F \<or>
          a = 0xE3 \<and> b = 0x80 \<and> d = 0x80
      | _ \<Rightarrow> False)"

definition trim_start :: "byte list \<Rightarrow> byte list" where
  "trim_start t = concat (dropWhile is_whitespace (utf8_chars t))"

definition trim_end :: "byte list \<Rightarrow> byte list" where
  "trim_end t = concat (rev (dropWhile is_whitespace (rev (utf8_chars t))))"

definition trim :: "byte list \<Rightarrow> byte list" where
  "trim t = trim_end (trim_start t)"

section \<open>Normalized lines\<close>

definition MAX_LINE_BYTES :: nat where "MAX_LINE_BYTES = 64 * 1024"

record diff_line =
  ln_start :: nat
  ln_end :: nat
  ln_text :: "byte list"
  ln_hint :: nat

definition strip_suffix :: "byte list \<Rightarrow> byte list \<Rightarrow> byte list option" where
  "strip_suffix s t =
     (if length s \<le> length t \<and> drop (length t - length s) t = s
      then Some (take (length t - length s) t) else None)"

definition split_eol :: "byte list \<Rightarrow> byte list \<times> byte list" where
  "split_eol raw =
     (case strip_suffix [CR, LF] raw of
        Some body \<Rightarrow> (body, [CR, LF])
      | None \<Rightarrow>
          case strip_suffix [LF] raw of
            Some body \<Rightarrow> (body, [LF])
          | None \<Rightarrow>
              case strip_suffix [CR] raw of
                Some body \<Rightarrow> (body, [CR])
              | None \<Rightarrow> (raw, []))"

fun expand_tabs :: "nat \<Rightarrow> byte list list \<Rightarrow> byte list" where
  "expand_tabs col [] = []"
| "expand_tabs col (c # cs) =
     (if c = [9] then replicate (4 - col mod 4) 32 @ expand_tabs (col + (4 - col mod 4)) cs
      else c @ expand_tabs (col + 1) cs)"

definition normalize :: "setting \<Rightarrow> byte list \<Rightarrow> bool \<Rightarrow> byte list" where
  "normalize cs raw first =
     (let opt = cs_options cs;
          raw = (if first \<and> co_ignore_encoding_bom opt
                 then case strip_prefix [0xEF, 0xBB, 0xBF] raw of Some r \<Rightarrow> r | None \<Rightarrow> raw
                 else raw);
          (body, eol) = split_eol raw;
          body = (case co_whitespace opt of
                    Significant \<Rightarrow> body
                  | TrimEdges \<Rightarrow> trim body
                  | IgnoreAll \<Rightarrow> concat (filter (\<lambda>c. \<not> is_whitespace c) (utf8_chars body)));
          body = (if co_normalize_tabs opt then expand_tabs 0 (utf8_chars body) else body);
          body = (if co_ignore_case opt then cs_fold cs body else body)
      in body @ (if co_ignore_eol_style opt \<and> eol \<noteq> [] then [LF] else eol))"

definition push_line ::
  "setting \<Rightarrow> diff_line list \<Rightarrow> byte list \<Rightarrow> nat \<Rightarrow> nat \<Rightarrow> nat \<Rightarrow> diff_line list run" where
  "push_line cs out raw s e hint w =
     (if length out \<ge> rl_max_lines_exact (limits cs) then (Inl (Coarse LinesLimit), w)
      else if e - s > MAX_LINE_BYTES then (Inl (Coarse BytesLimit), w)
      else
        act_bind (reserve cs (sat_add (e - s) (cs_line_size cs))) (\<lambda>_ w.
          if co_ignore_blank_lines (cs_options cs) \<and> trim raw = [] then (Inr out, w)
          else
            let t = normalize cs raw (hint = 0) in
            act_bind (reserve cs (cs_capacity cs t - (e - s))) (\<lambda>_.
              act_lift (Inr (out @ [\<lparr>ln_start = s, ln_end = e, ln_text = t, ln_hint = hint\<rparr>]))) w) w)"

text \<open>The variables of the pass over the chunks.\<close>

record line_scan =
  sc_out :: "diff_line list"
  sc_raw :: "byte list"
  sc_start :: nat
  sc_offset :: nat
  sc_hint :: nat
  sc_pending_cr :: bool

fun find_eol :: "byte list \<Rightarrow> nat option" where
  "find_eol [] = None"
| "find_eol (b # bs) = (if b = CR \<or> b = LF then Some 0 else map_option Suc (find_eol bs))"

definition end_line :: "setting \<Rightarrow> line_scan \<Rightarrow> line_scan run" where
  "end_line cs st =
     act_bind (push_line cs (sc_out st) (sc_raw st) (sc_start st) (sc_offset st) (sc_hint st)) (\<lambda>out.
       act_lift (Inr (st\<lparr>sc_out := out, sc_raw := [], sc_hint := sc_hint st + 1,
         sc_start := sc_offset st\<rparr>)))"

definition line_within :: "line_scan \<Rightarrow> completeness + unit" where
  "line_within st =
     (if sc_offset st - sc_start st > MAX_LINE_BYTES then Inl (Coarse BytesLimit) else Inr ())"

function scan_chunk :: "setting \<Rightarrow> byte list \<Rightarrow> line_scan \<Rightarrow> line_scan run" where
  "scan_chunk cs rest st w =
     (if rest = [] then (Inr st, w)
      else if sc_pending_cr st then
        let st = st\<lparr>sc_pending_cr := False\<rparr> in
        (case strip_prefix [LF] rest of
           Some tail \<Rightarrow>
             act_bind (end_line cs (st\<lparr>sc_raw := sc_raw st @ [LF], sc_offset := sc_offset st + 1\<rparr>))
               (scan_chunk cs tail) w
         | None \<Rightarrow> act_bind (end_line cs st) (scan_chunk cs rest) w)
      else
        (case find_eol rest of
           None \<Rightarrow>
             let st = st\<lparr>sc_raw := sc_raw st @ rest, sc_offset := sc_offset st + length rest\<rparr> in
             act_bind (act_lift (line_within st)) (\<lambda>_. act_lift (Inr st)) w
         | Some k \<Rightarrow>
             let cr = (rest ! k = CR);
                 st = st\<lparr>sc_raw := sc_raw st @ take (k + 1) rest, sc_offset := sc_offset st + (k + 1)\<rparr>
             in
             act_bind (if cr then act_lift (Inr (st\<lparr>sc_pending_cr := True\<rparr>)) else end_line cs st) (\<lambda>st.
             act_bind (act_lift (line_within st)) (\<lambda>_. scan_chunk cs (drop (k + 1) rest) st)) w))"
  by pat_completeness auto
termination
  by (relation "measure (\<lambda>(_, rest, st, _). 2 * length rest + (if sc_pending_cr st then 1 else 0))")
    (auto simp: strip_prefix_def end_line_def res_simps simp flip: length_greater_0_conv split: if_splits)

declare scan_chunk.simps [simp del]

fun scan_chunks :: "setting \<Rightarrow> byte list list \<Rightarrow> line_scan \<Rightarrow> line_scan run" where
  "scan_chunks cs [] st = act_lift (Inr st)"
| "scan_chunks cs (t # ts) st =
     act_bind (check cs) (\<lambda>_. act_bind (scan_chunk cs t st) (scan_chunks cs ts))"

text \<open>The chunks of a whole snapshot; the iterator itself fails only by a panic.\<close>

definition all_chunks :: "snapshot \<Rightarrow> completeness + byte list list" where
  "all_chunks s =
     (case snapshot_chunks s 0 (snapshot_len s) of
        Inl Panicked \<Rightarrow> Inl Crashed
      | Inl _ \<Rightarrow> Inl Unavailable
      | Inr stack \<Rightarrow> (case chunks_all stack of Inl _ \<Rightarrow> Inl Crashed | Inr ts \<Rightarrow> Inr ts))"

definition snapshot_lines :: "setting \<Rightarrow> snapshot \<Rightarrow> diff_line list run" where
  "snapshot_lines cs s =
     act_bind (act_lift (all_chunks s)) (\<lambda>ts.
     act_bind (scan_chunks cs ts
       \<lparr>sc_out = [], sc_raw = [], sc_start = 0, sc_offset = 0, sc_hint = 0, sc_pending_cr = False\<rparr>) (\<lambda>st.
       if sc_offset st \<noteq> snapshot_len s then act_lift (Inl Unavailable)
       else if sc_start st < sc_offset st
       then push_line cs (sc_out st) (sc_raw st) (sc_start st) (sc_offset st) (sc_hint st)
       else act_lift (Inr (sc_out st))))"

end
