(* ===== verification/Diff_Align.thy ===== *)
theory Diff_Align
  imports Diff_Work
begin

text \<open>
  Aligning the lines of two texts, crates/diff/src/lib.rs: the greedy search of Myers with its trace
  and backtracking, and the unique common lines that anchor it on large inputs.

  \<open>isize\<close> values are integers; \<open>as_usize\<close> is the conversion \<open>as usize\<close> of a 64 bit value. An index
  out of range is \<open>Crashed\<close>.
\<close>

definition as_usize :: "int \<Rightarrow> nat" where
  "as_usize i = (if 0 \<le> i then nat i else nat (i + 2 ^ 64))"

definition index :: "'a list \<Rightarrow> nat \<Rightarrow> completeness + 'a" where
  "index xs i = (if i < length xs then Inr (xs ! i) else Inl Crashed)"

definition hash :: "byte list \<Rightarrow> 64 word" where
  "hash s = foldl (\<lambda>h b. (h XOR ucast b) * 1099511628211) 14695981039346656037 s"

section \<open>Myers\<close>

text \<open>Whether diagonal \<open>k\<close> of row \<open>d\<close> is entered from diagonal \<open>k + 1\<close>.\<close>

definition from_above :: "nat list \<Rightarrow> nat \<Rightarrow> nat \<Rightarrow> int \<Rightarrow> completeness + bool" where
  "from_above v offset d k =
     (let idx = as_usize (int offset + k) in
      if k = - int d then Inr True
      else if k = int d then Inr False
      else
        and_then (index v (idx - 1)) (\<lambda>l. and_then (index v (idx + 1)) (\<lambda>r. Inr (l < r))))"

definition start_x :: "nat list \<Rightarrow> nat \<Rightarrow> nat \<Rightarrow> int \<Rightarrow> completeness + nat" where
  "start_x v offset d k =
     (let idx = as_usize (int offset + k) in
      and_then (from_above v offset d k) (\<lambda>down.
        if down then index v (idx + 1) else and_then (index v (idx - 1)) (\<lambda>l. Inr (l + 1))))"

definition line_match :: "diff_line list \<Rightarrow> diff_line list \<Rightarrow> nat \<Rightarrow> nat \<Rightarrow> bool" where
  "line_match a b x y \<longleftrightarrow> x < length a \<and> y < length b \<and> ln_text (a ! x) = ln_text (b ! y)"

function snake :: "setting \<Rightarrow> diff_line list \<Rightarrow> diff_line list \<Rightarrow> nat \<Rightarrow> nat \<Rightarrow> (nat \<times> nat) run" where
  "snake cs a b x y w =
     (if line_match a b x y then act_bind (check cs) (\<lambda>_. snake cs a b (x + 1) (y + 1)) w
      else (Inr (x, y), w))"
  by auto
termination
  by (relation "measure (\<lambda>(_, a, _, x, _). length a - x)") (auto simp: line_match_def)

declare snake.simps [simp del]

text \<open>One row of the search; whether the end of both texts was reached, and the row.\<close>

fun myers_row ::
  "setting \<Rightarrow> diff_line list \<Rightarrow> diff_line list \<Rightarrow> nat \<Rightarrow> nat \<Rightarrow> int list \<Rightarrow> nat list \<Rightarrow> (bool \<times> nat list) run"
where
  "myers_row cs a b offset d [] v = act_lift (Inr (False, v))"
| "myers_row cs a b offset d (k # ks) v =
     act_bind (check cs) (\<lambda>_.
     act_bind (act_lift (start_x v offset d k)) (\<lambda>x.
     act_bind (snake cs a b x (as_usize (int x - k))) (\<lambda>(x, y).
       let idx = as_usize (int offset + k) in
       if idx \<ge> length v then act_lift (Inl Crashed)
       else if x \<ge> length a \<and> y \<ge> length b then act_lift (Inr (True, v[idx := x]))
       else myers_row cs a b offset d ks (v[idx := x]))))"

definition diagonals :: "nat \<Rightarrow> int list" where
  "diagonals d = map (\<lambda>i. 2 * int i - int d) [0..<Suc d]"

text \<open>The number of the last row and the rows before each step.\<close>

function myers_search ::
  "setting \<Rightarrow> diff_line list \<Rightarrow> diff_line list \<Rightarrow> nat \<Rightarrow> nat \<Rightarrow> nat \<Rightarrow> nat list \<Rightarrow> nat list list \<Rightarrow>
   (nat \<times> nat list list) run" where
  "myers_search cs a b max_d row_bytes d v trace w =
     (if d > max_d then (Inr (0, trace), w)
      else
        act_bind (check cs) (\<lambda>_.
        act_bind (reserve cs (row_bytes + 64)) (\<lambda>_.
        act_bind (myers_row cs a b (max_d + 1) d (diagonals d) v) (\<lambda>(found, v').
          if found then act_lift (Inr (d, trace @ [v]))
          else myers_search cs a b max_d row_bytes (d + 1) v' (trace @ [v])))) w)"
  by auto
termination
  by (relation "measure (\<lambda>(_, _, _, max_d, _, d, _). Suc max_d - d)") auto

declare myers_search.simps [simp del]

function slide :: "nat \<Rightarrow> nat \<Rightarrow> nat \<Rightarrow> nat \<Rightarrow> (nat \<times> nat) list \<Rightarrow> (nat \<times> nat) list" where
  "slide x y px py pairs =
     (if x > px \<and> y > py then slide (x - 1) (y - 1) px py (pairs @ [(x - 1, y - 1)]) else pairs)"
  by auto
termination
  by (relation "measure (\<lambda>(x, _). x)") auto

declare slide.simps [simp del]

fun backtrack ::
  "setting \<Rightarrow> nat list list \<Rightarrow> nat \<Rightarrow> nat \<Rightarrow> nat \<Rightarrow> nat \<Rightarrow> (nat \<times> nat) list \<Rightarrow> (nat \<times> nat) list run" where
  "backtrack cs trace offset 0 x y pairs =
     act_bind (check cs) (\<lambda>_. act_lift (Inr (slide x y 0 0 pairs)))"
| "backtrack cs trace offset (Suc d) x y pairs =
     act_bind (check cs) (\<lambda>_.
     act_bind (act_lift (index trace (Suc d))) (\<lambda>v.
       let k = int x - int y in
       act_bind (act_lift (from_above v offset (Suc d) k)) (\<lambda>down.
       let pk = (if down then k + 1 else k - 1) in
       act_bind (act_lift (index v (as_usize (int offset + pk)))) (\<lambda>px.
       let py = as_usize (int px - pk) in
       backtrack cs trace offset d px py (slide x y px py pairs)))))"

definition myers :: "setting \<Rightarrow> diff_line list \<Rightarrow> diff_line list \<Rightarrow> (nat \<times> nat) list run" where
  "myers cs a b =
     (let max_d = length a + length b;
          width = 2 * max_d + 3;
          row_bytes = sat_mul width (cs_usize_size cs)
      in
      act_bind (reserve cs row_bytes) (\<lambda>_.
      act_bind (myers_search cs a b max_d row_bytes 0 (replicate width 0) []) (\<lambda>(final_d, trace).
      act_bind (backtrack cs trace (max_d + 1) final_d (length a) (length b) []) (\<lambda>pairs.
        act_lift (Inr (rev pairs))))))"

section \<open>Anchors\<close>

text \<open>\<open>BTreeMap\<close>s keyed by the hash and the text of a line: its first index and how often it occurs.\<close>

type_synonym line_index = "64 word \<times> byte list \<Rightarrow> (nat \<times> nat) option"

definition line_key :: "(byte list \<Rightarrow> 64 word) \<Rightarrow> diff_line \<Rightarrow> 64 word \<times> byte list" where
  "line_key hash_line l = (hash_line (ln_text l), ln_text l)"

fun tally ::
  "setting \<Rightarrow> (byte list \<Rightarrow> 64 word) \<Rightarrow> nat \<Rightarrow> diff_line list \<Rightarrow> line_index \<Rightarrow> line_index run" where
  "tally cs hash_line i [] m = act_lift (Inr m)"
| "tally cs hash_line i (l # ls) m =
     act_bind (check cs) (\<lambda>_.
       let key = line_key hash_line l in
       tally cs hash_line (i + 1) ls
         (m(key \<mapsto> (case m key of Some (j, n) \<Rightarrow> (j, n + 1) | None \<Rightarrow> (i, 1)))))"

fun candidates ::
  "setting \<Rightarrow> (byte list \<Rightarrow> 64 word) \<Rightarrow> line_index \<Rightarrow> line_index \<Rightarrow> nat \<Rightarrow> diff_line list \<Rightarrow>
   (nat \<times> nat) list \<Rightarrow> (nat \<times> nat) list run" where
  "candidates cs hash_line left right i [] acc = act_lift (Inr acc)"
| "candidates cs hash_line left right i (l # ls) acc =
     act_bind (check cs) (\<lambda>_.
       let key = line_key hash_line l in
       case left key of
         None \<Rightarrow> act_lift (Inl Crashed)
       | Some (_, n) \<Rightarrow>
           candidates cs hash_line left right (i + 1) ls
             (case right key of
                Some (j, k) \<Rightarrow> if n = 1 \<and> k = 1 then acc @ [(i, j)] else acc
              | None \<Rightarrow> acc))"

definition unique_lines ::
  "setting \<Rightarrow> diff_line list \<Rightarrow> diff_line list \<Rightarrow> (byte list \<Rightarrow> 64 word) \<Rightarrow> (nat \<times> nat) list run" where
  "unique_lines cs a b hash_line =
     act_bind (reserve cs (sat_mul (length a + length b) 160)) (\<lambda>_.
     act_bind (tally cs hash_line 0 a Map.empty) (\<lambda>left.
     act_bind (tally cs hash_line 0 b Map.empty) (\<lambda>right.
       candidates cs hash_line left right 0 a [])))"

text \<open>Patience: the last candidate of the best chain of each length, and each candidate's predecessor.\<close>

fun patience ::
  "setting \<Rightarrow> (nat \<times> nat) list \<Rightarrow> nat \<Rightarrow> (nat \<times> nat) list \<Rightarrow> nat list \<Rightarrow> nat option list \<Rightarrow>
   (nat list \<times> nat option list) run" where
  "patience cs cands idx [] tails prev = act_lift (Inr (tails, prev))"
| "patience cs cands idx ((_, j) # js) tails prev =
     act_bind (check cs) (\<lambda>_.
       let p = partition_point (\<lambda>t. snd (cands ! t) < j) tails;
           prev = (if p > 0 then prev[idx := Some (tails ! (p - 1))] else prev)
       in
       patience cs cands (idx + 1) js (if p = length tails then tails @ [idx] else tails[p := idx]) prev)"

text \<open>The chain from its last candidate back; it has no more candidates than there are.\<close>

fun walk :: "nat \<Rightarrow> (nat \<times> nat) list \<Rightarrow> nat option list \<Rightarrow> nat option \<Rightarrow> completeness + (nat \<times> nat) list" where
  "walk fuel cands prev None = Inr []"
| "walk 0 cands prev (Some idx) = Inl Crashed"
| "walk (Suc fuel) cands prev (Some idx) =
     and_then (index cands idx) (\<lambda>c.
     and_then (index prev idx) (\<lambda>link.
     and_then (walk fuel cands prev link) (\<lambda>cs. Inr (c # cs))))"

definition anchor_list ::
  "setting \<Rightarrow> diff_line list \<Rightarrow> diff_line list \<Rightarrow> (byte list \<Rightarrow> 64 word) \<Rightarrow> (nat \<times> nat) list run" where
  "anchor_list cs a b hash_line =
     act_bind (unique_lines cs a b hash_line) (\<lambda>cands.
     act_bind (patience cs cands 0 cands [] (replicate (length cands) None)) (\<lambda>(tails, prev).
     act_bind (act_lift (walk (length cands) cands prev (if tails = [] then None else Some (last tails))))
       (\<lambda>anchors. act_lift (Inr (rev anchors)))))"

record alignment =
  al_pairs :: "(nat \<times> nat) list"
  al_coarse :: "(nat \<times> nat) set"
  al_reason :: "coarse_reason option"

text \<open>The equal lines at the start and at the end of a gap.\<close>

function prefix_pairs ::
  "diff_line list \<Rightarrow> diff_line list \<Rightarrow> nat \<Rightarrow> nat \<Rightarrow> nat \<Rightarrow> nat \<Rightarrow> (nat \<times> nat) list \<Rightarrow>
   nat \<times> nat \<times> (nat \<times> nat) list" where
  "prefix_pairs a b i j x y pairs =
     (if x < i \<and> y < j \<and> ln_text (a ! x) = ln_text (b ! y)
      then prefix_pairs a b i j (x + 1) (y + 1) (pairs @ [(x, y)]) else (x, y, pairs))"
  by auto
termination
  by (relation "measure (\<lambda>(_, _, i, _, x, _). i - x)") auto

declare prefix_pairs.simps [simp del]

function suffix_edges :: "diff_line list \<Rightarrow> diff_line list \<Rightarrow> nat \<Rightarrow> nat \<Rightarrow> nat \<Rightarrow> nat \<Rightarrow> nat \<times> nat" where
  "suffix_edges a b x y xe ye =
     (if x < xe \<and> y < ye \<and> ln_text (a ! (xe - 1)) = ln_text (b ! (ye - 1))
      then suffix_edges a b x y (xe - 1) (ye - 1) else (xe, ye))"
  by auto
termination
  by (relation "measure (\<lambda>(_, _, _, _, xe, _). xe)") auto

declare suffix_edges.simps [simp del]

text \<open>The middle of a gap; a limit leaves it coarse, and its workspace is given back.\<close>

definition middle ::
  "setting \<Rightarrow> diff_line list \<Rightarrow> diff_line list \<Rightarrow> nat \<Rightarrow> nat \<Rightarrow> nat \<Rightarrow> nat \<Rightarrow> alignment \<Rightarrow> alignment run" where
  "middle cs a b x y xe ye out w =
     (if x < xe \<and> y < ye then
        let mark = wk_used w in
        (case myers cs (sub x xe a) (sub y ye b) w of
           (Inr inner, w') \<Rightarrow>
             (Inr (out\<lparr>al_pairs := al_pairs out @ map (\<lambda>(dx, dy). (x + dx, y + dy)) inner\<rparr>),
              w'\<lparr>wk_used := mark\<rparr>)
         | (Inl (Coarse reason), w') \<Rightarrow>
             (Inr (out\<lparr>al_reason := (case al_reason out of None \<Rightarrow> Some reason | Some r \<Rightarrow> Some r),
                al_coarse := insert (x, y) (al_coarse out)\<rparr>),
              w'\<lparr>wk_used := mark\<rparr>)
         | (Inl e, w') \<Rightarrow> (Inl e, w'))
      else (Inr out, w))"

definition gap ::
  "setting \<Rightarrow> diff_line list \<Rightarrow> diff_line list \<Rightarrow> nat \<times> nat \<Rightarrow> nat \<Rightarrow> nat \<Rightarrow> alignment \<Rightarrow> alignment run" where
  "gap cs a b = (\<lambda>(i, j) x y out.
     act_bind (cancelled cs) (\<lambda>_.
       let (x, y, pairs) = prefix_pairs a b i j x y (al_pairs out);
           (xe, ye) = suffix_edges a b x y i j
       in
       act_bind (middle cs a b x y xe ye (out\<lparr>al_pairs := pairs\<rparr>)) (\<lambda>out.
         act_lift (Inr (out\<lparr>al_pairs := al_pairs out @ zip [xe..<i] [ye..<j] @
           (if i < length a then [(i, j)] else [])\<rparr>)))))"

fun gaps ::
  "setting \<Rightarrow> diff_line list \<Rightarrow> diff_line list \<Rightarrow> (nat \<times> nat) list \<Rightarrow> nat \<Rightarrow> nat \<Rightarrow> alignment \<Rightarrow> alignment run"
where
  "gaps cs a b [] x y out = act_lift (Inr out)"
| "gaps cs a b (anchor # anchors) x y out =
     act_bind (gap cs a b anchor x y out) (gaps cs a b anchors (fst anchor + 1) (snd anchor + 1))"

definition anchored ::
  "setting \<Rightarrow> diff_line list \<Rightarrow> diff_line list \<Rightarrow> (byte list \<Rightarrow> 64 word) \<Rightarrow> alignment run" where
  "anchored cs a b hash_line =
     act_bind (anchor_list cs a b hash_line) (\<lambda>anchors.
       gaps cs a b (anchors @ [(length a, length b)]) 0 0
         \<lparr>al_pairs = [], al_coarse = {}, al_reason = None\<rparr>)"

end
