(* ===== verification/Diff.thy ===== *)
theory Diff
  imports Diff_Align
begin

text \<open>
  The comparison of two snapshots, crates/diff/src/lib.rs: from the aligned lines to hunks with their
  identities, intraline spans and moved blocks, and the edits that merge a hunk.

  The result of \<open>compare\<close> is a value in every case; a run that fails leaves no hunks, or one that
  covers both texts when a limit was the reason. A slice out of range is \<open>Crashed\<close>. Identities are
  64 bit words, as in the code.
\<close>

section \<open>Hunks\<close>

datatype diff_kind = Equal | Added | Removed | Changed | MovedAligned

record span =
  sp_left :: range
  sp_right :: range

record hunk =
  hk_id :: "64 word"
  hk_left :: range
  hk_right :: range
  hk_left_hint :: "nat option"
  hk_right_hint :: "nat option"
  hk_kind :: diff_kind
  hk_coarse :: bool
  hk_intraline :: "span list"
  hk_left_revision :: nat
  hk_right_revision :: nat
  hk_left_state :: nat
  hk_right_state :: nat
  hk_options :: compare_options

record compare_result =
  cr_left_revision :: nat
  cr_right_revision :: nat
  cr_options :: compare_options
  cr_hunks :: "hunk list"
  cr_completeness :: completeness
  cr_input_bytes :: nat
  cr_peak_bytes :: nat

definition default_limits :: resource_limits where
  "default_limits = \<lparr>rl_max_lines_exact = 200000, rl_max_bytes_exact = 64 * 1024 * 1024,
     rl_time_budget_ms = 5000, rl_max_memory_bytes = 256 * 1024 * 1024\<rparr>"

definition default_options :: compare_options where
  "default_options = \<lparr>co_whitespace = Significant, co_ignore_blank_lines = False, co_ignore_case = False,
     co_ignore_eol_style = False, co_ignore_encoding_bom = False, co_normalize_tabs = False,
     co_limits = default_limits\<rparr>"

definition ignores :: "compare_options \<Rightarrow> bool" where
  "ignores opt \<longleftrightarrow>
     co_whitespace opt \<noteq> Significant \<or> co_ignore_blank_lines opt \<or> co_ignore_case opt \<or>
     co_ignore_eol_style opt \<or> co_ignore_encoding_bom opt \<or> co_normalize_tabs opt"

definition matches_states :: "hunk \<Rightarrow> nat \<Rightarrow> nat \<Rightarrow> nat \<Rightarrow> nat \<Rightarrow> bool" where
  "matches_states h left_revision left_state right_revision right_state \<longleftrightarrow>
     hk_left_revision h = left_revision \<and> hk_right_revision h = right_revision \<and>
     hk_left_state h = left_state \<and> hk_right_state h = right_state"

definition is_stale :: "compare_result \<Rightarrow> nat \<Rightarrow> nat \<Rightarrow> bool" where
  "is_stale r left right \<longleftrightarrow> cr_left_revision r \<noteq> left \<or> cr_right_revision r \<noteq> right"

definition empty_range :: "range \<Rightarrow> bool" where
  "empty_range r \<longleftrightarrow> \<not> fst r < snd r"

definition make_hunk :: "snapshot \<Rightarrow> snapshot \<Rightarrow> range \<Rightarrow> range \<Rightarrow> nat \<times> nat \<Rightarrow> 64 word \<Rightarrow> hunk" where
  "make_hunk l r left right hints i =
     \<lparr>hk_id = i, hk_left = left, hk_right = right, hk_left_hint = Some (fst hints),
      hk_right_hint = Some (snd hints),
      hk_kind = (if empty_range left then Added else if empty_range right then Removed else Changed),
      hk_coarse = False, hk_intraline = [], hk_left_revision = sn_revision l,
      hk_right_revision = sn_revision r, hk_left_state = sn_state l, hk_right_state = sn_state r,
      hk_options = default_options\<rparr>"

section \<open>Equal texts\<close>

text \<open>The next bytes of one side, from its current chunk or the next one.\<close>

definition refill :: "byte list \<Rightarrow> byte list list \<Rightarrow> (byte list \<times> byte list list) option" where
  "refill x rest =
     (if x = [] then (case rest of [] \<Rightarrow> None | t # ts \<Rightarrow> Some (t, ts)) else Some (x, rest))"

function same_loop ::
  "setting \<Rightarrow> nat \<Rightarrow> byte list \<Rightarrow> byte list list \<Rightarrow> byte list \<Rightarrow> byte list list \<Rightarrow> nat \<Rightarrow> bool run" where
  "same_loop cs len x left y right matched w =
     act_bind (cancelled cs) (\<lambda>_ w.
       case refill x left of
         None \<Rightarrow> (Inr (matched = len), w)
       | Some (x, left) \<Rightarrow>
           case refill y right of
             None \<Rightarrow> (Inr (matched = len), w)
           | Some (y, right) \<Rightarrow>
               let n = min (length x) (length y) in
               if take n x \<noteq> take n y then (Inr False, w)
               else same_loop cs len (drop n x) left (drop n y) right (matched + n) w) w"
  by pat_completeness auto
termination
  by (relation "measure (\<lambda>(_, _, x, left, y, right, _).
        length x + length left + length (concat left) + length y + length right + length (concat right))")
    (auto simp: refill_def split: if_splits list.splits)

declare same_loop.simps [simp del]

definition same_bytes :: "setting \<Rightarrow> snapshot \<Rightarrow> snapshot \<Rightarrow> bool run" where
  "same_bytes cs l r =
     (if snapshot_len l \<noteq> snapshot_len r then act_lift (Inr False)
      else
        act_bind (act_lift (all_chunks l)) (\<lambda>left.
        act_bind (act_lift (all_chunks r)) (\<lambda>right.
          same_loop cs (snapshot_len l) [] left [] right 0)))"

section \<open>Intraline spans\<close>

definition read_range :: "snapshot \<Rightarrow> range \<Rightarrow> nat \<Rightarrow> completeness + byte list" where
  "read_range s rng max_bytes =
     (case snapshot_read s (fst rng) (snd rng) max_bytes of
        Inl Panicked \<Rightarrow> Inl Crashed
      | Inl _ \<Rightarrow> Inl Unavailable
      | Inr t \<Rightarrow> Inr t)"

definition slice :: "nat \<Rightarrow> nat \<Rightarrow> 'a list \<Rightarrow> completeness + 'a list" where
  "slice s e xs = (if s \<le> e \<and> e \<le> length xs then Inr (sub s e xs) else Inl Crashed)"

definition str_slice :: "nat \<Rightarrow> nat \<Rightarrow> byte list \<Rightarrow> completeness + byte list" where
  "str_slice s e t =
     (if s \<le> e \<and> char_boundary t s \<and> char_boundary t e then Inr (sub s e t) else Inl Crashed)"

text \<open>The bytes of the equal pieces both lists begin with.\<close>

fun common_bytes :: "setting \<Rightarrow> byte list list \<Rightarrow> byte list list \<Rightarrow> nat \<Rightarrow> nat run" where
  "common_bytes cs (x # xs) (y # ys) n =
     act_bind (check cs) (\<lambda>_. if x \<noteq> y then act_lift (Inr n) else common_bytes cs xs ys (n + length x))"
| "common_bytes cs xs ys n = act_lift (Inr n)"

text \<open>The bytes two texts have in common at the front, and at the back of the rest, by pieces.\<close>

definition common_ends ::
  "setting \<Rightarrow> (byte list \<Rightarrow> byte list list) \<Rightarrow> byte list \<Rightarrow> byte list \<Rightarrow> (nat \<times> nat) run" where
  "common_ends cs pieces s t =
     act_bind (common_bytes cs (pieces s) (pieces t) 0) (\<lambda>prefix.
     act_bind (act_lift (str_slice prefix (length s) s)) (\<lambda>s1.
     act_bind (act_lift (str_slice prefix (length t) t)) (\<lambda>t1.
     act_bind (common_bytes cs (rev (pieces s1)) (rev (pieces t1)) 0) (\<lambda>suffix.
       act_lift (Inr (prefix, suffix))))))"

definition intraline :: "setting \<Rightarrow> snapshot \<Rightarrow> snapshot \<Rightarrow> diff_line \<Rightarrow> diff_line \<Rightarrow> span run" where
  "intraline cs l r a b =
     act_bind (act_lift (read_range l (ln_start a, ln_end a) (ln_end a - ln_start a))) (\<lambda>lt.
     act_bind (act_lift (read_range r (ln_start b, ln_end b) (ln_end b - ln_start b))) (\<lambda>rt.
     act_bind (common_ends cs (cs_words cs) lt rt) (\<lambda>(prefix, suffix).
     act_bind (act_lift (str_slice prefix (length lt - suffix) lt)) (\<lambda>lm.
     act_bind (act_lift (str_slice prefix (length rt - suffix) rt)) (\<lambda>rm.
     act_bind (common_ends cs (cs_graphemes cs) lm rm) (\<lambda>(gp, gs).
       act_lift (Inr
         \<lparr>sp_left = (ln_start a + prefix + gp, ln_end a - suffix - gs),
          sp_right = (ln_start b + prefix + gp, ln_end b - suffix - gs)\<rparr>)))))))"

text \<open>The spans of a hunk's line pairs; a limit drops them all and is returned beside.\<close>

fun spans ::
  "setting \<Rightarrow> snapshot \<Rightarrow> snapshot \<Rightarrow> (diff_line \<times> diff_line) list \<Rightarrow> span list \<Rightarrow>
   (span list \<times> coarse_reason option) run" where
  "spans cs l r [] acc = act_lift (Inr (acc, None))"
| "spans cs l r ((al, bl) # pairs) acc =
     act_bind (reserve cs (cs_span_size cs)) (\<lambda>_ w.
       case intraline cs l r al bl w of
         (Inr sp, w) \<Rightarrow> spans cs l r pairs (acc @ [sp]) w
       | (Inl (Coarse reason), w) \<Rightarrow> (Inr ([], Some reason), w)
       | (Inl e, w) \<Rightarrow> (Inl e, w))"

section \<open>From pairs to hunks\<close>

fun content_id :: "setting \<Rightarrow> diff_line list \<Rightarrow> 64 word \<Rightarrow> 64 word run" where
  "content_id cs [] acc = act_lift (Inr acc)"
| "content_id cs (l # ls) acc =
     act_bind (cancelled cs) (\<lambda>_. content_id cs ls (word_rotl 7 acc XOR hash (ln_text l)))"

text \<open>The byte range of lines \<open>s\<close> to \<open>e\<close>, empty at the start of line \<open>e\<close> when there are none.\<close>

definition lines_range :: "diff_line list \<Rightarrow> nat \<Rightarrow> nat \<Rightarrow> nat \<Rightarrow> range" where
  "lines_range ls len s e =
     (if s < e then (ln_start (ls ! s), ln_end (ls ! (e - 1)))
      else
        let p = (if e < length ls then ln_start (ls ! e) else len) in (p, p))"

definition hash_at :: "diff_line list \<Rightarrow> nat \<Rightarrow> 64 word" where
  "hash_at ls i = (if i < length ls then hash (ln_text (ls ! i)) else 0)"

definition hint_at :: "diff_line list \<Rightarrow> snapshot \<Rightarrow> nat \<Rightarrow> nat" where
  "hint_at ls s i = (if i < length ls then ln_hint (ls ! i) else line_count s - 1)"

record hunk_state =
  hs_si :: nat
  hs_sj :: nat
  hs_anchor :: "64 word"
  hs_occurrences :: "64 word \<Rightarrow> 64 word option"
  hs_hunks :: "hunk list"
  hs_coarse :: "coarse_reason option"
  hs_refine :: bool

definition or_reason :: "coarse_reason option \<Rightarrow> coarse_reason \<Rightarrow> coarse_reason option" where
  "or_reason c reason = (case c of None \<Rightarrow> Some reason | Some c \<Rightarrow> Some c)"

definition hunk_before ::
  "setting \<Rightarrow> snapshot \<Rightarrow> snapshot \<Rightarrow> diff_line list \<Rightarrow> diff_line list \<Rightarrow> (nat \<times> nat) set \<Rightarrow> nat \<Rightarrow> nat \<Rightarrow>
   hunk_state \<Rightarrow> hunk_state run" where
  "hunk_before cs l r a b blocks i j st =
     (let si = hs_si st; sj = hs_sj st in
      act_bind (reserve cs (cs_hunk_size cs * 2 + 64)) (\<lambda>_.
      act_bind (act_lift (slice si i a)) (\<lambda>als.
      act_bind (act_lift (slice sj j b)) (\<lambda>bls.
      act_bind (content_id cs (als @ bls) 0) (\<lambda>content.
        let base = word_rotl 17 (hs_anchor st) XOR hash_at a i XOR word_rotl 31 content;
            ordinal = (case hs_occurrences st base of None \<Rightarrow> 0 | Some n \<Rightarrow> n);
            change = (make_hunk l r (lines_range a (snapshot_len l) si i)
              (lines_range b (snapshot_len r) sj j) (hint_at a l si, hint_at b r sj)
              (base XOR ordinal * 0x9e3779b97f4a7c15))
              \<lparr>hk_coarse := (si, sj) \<in> blocks\<rparr>
        in
        act_bind
          (if hs_refine st \<and> \<not> hk_coarse change then spans cs l r (zip als bls) []
           else act_lift (Inr ([], None))) (\<lambda>(sps, limit).
        act_lift (Inr
          (st\<lparr>hs_occurrences := (hs_occurrences st)(base \<mapsto> ordinal + 1),
              hs_hunks := hs_hunks st @
                [change\<lparr>hk_intraline := sps, hk_options := cs_options cs\<rparr>],
              hs_coarse := (case limit of None \<Rightarrow> hs_coarse st | Some c \<Rightarrow> or_reason (hs_coarse st) c),
              hs_refine := hs_refine st \<and> limit = None\<rparr>))))))))"

definition pair_step ::
  "setting \<Rightarrow> snapshot \<Rightarrow> snapshot \<Rightarrow> diff_line list \<Rightarrow> diff_line list \<Rightarrow> (nat \<times> nat) set \<Rightarrow> nat \<times> nat \<Rightarrow>
   hunk_state \<Rightarrow> hunk_state run" where
  "pair_step cs l r a b blocks = (\<lambda>(i, j) st.
     act_bind (cancelled cs) (\<lambda>_.
     act_bind
       (if hs_si st < i \<or> hs_sj st < j then hunk_before cs l r a b blocks i j st
        else act_lift (Inr st)) (\<lambda>st.
     act_lift (Inr (st\<lparr>hs_anchor := hash_at a i, hs_si := i + 1, hs_sj := j + 1\<rparr>)))))"

fun pair_steps ::
  "setting \<Rightarrow> snapshot \<Rightarrow> snapshot \<Rightarrow> diff_line list \<Rightarrow> diff_line list \<Rightarrow> (nat \<times> nat) set \<Rightarrow> (nat \<times> nat) list \<Rightarrow>
   hunk_state \<Rightarrow> hunk_state run" where
  "pair_steps cs l r a b blocks [] st = act_lift (Inr st)"
| "pair_steps cs l r a b blocks (p # ps) st =
     act_bind (pair_step cs l r a b blocks p st) (pair_steps cs l r a b blocks ps)"

section \<open>Moved blocks\<close>

definition range_size :: "range \<Rightarrow> nat" where
  "range_size r = snd r - fst r"

text \<open>Looks for the partner of hunk \<open>removed\<close>; a limit ends the whole search.\<close>

fun find_moved ::
  "setting \<Rightarrow> snapshot \<Rightarrow> snapshot \<Rightarrow> nat \<Rightarrow> nat list \<Rightarrow> hunk list \<Rightarrow> nat set \<Rightarrow>
   (hunk list \<times> nat set \<times> coarse_reason option) run" where
  "find_moved cs l r removed [] hunks paired = act_lift (Inr (hunks, paired, None))"
| "find_moved cs l r removed (added # rest) hunks paired = (\<lambda>w.
     case check cs w of
       (Inl (Coarse reason), w) \<Rightarrow> (Inr (hunks, paired, Some reason), w)
     | (Inl e, w) \<Rightarrow> (Inl e, w)
     | (Inr _, w) \<Rightarrow>
         if added \<in> paired \<or> hk_kind (hunks ! added) \<noteq> Added then
           find_moved cs l r removed rest hunks paired w
         else
           let lr = hk_left (hunks ! removed); rr = hk_right (hunks ! added) in
           if range_size lr > 64 * 1024 \<or> range_size lr \<noteq> range_size rr then
             find_moved cs l r removed rest hunks paired w
           else
             act_bind (act_lift (read_range l lr (rl_max_bytes_exact (limits cs)))) (\<lambda>lt.
             act_bind (act_lift (read_range r rr (rl_max_bytes_exact (limits cs)))) (\<lambda>rt.
               if lt = rt then
                 act_lift (Inr
                   ((hunks[removed := (hunks ! removed)\<lparr>hk_kind := MovedAligned\<rparr>])
                      [added := (hunks ! added)\<lparr>hk_kind := MovedAligned\<rparr>],
                    insert added paired, None))
               else find_moved cs l r removed rest hunks paired)) w)"

fun moved_from ::
  "setting \<Rightarrow> snapshot \<Rightarrow> snapshot \<Rightarrow> nat list \<Rightarrow> hunk list \<Rightarrow> nat set \<Rightarrow> (hunk list \<times> coarse_reason option) run"
where
  "moved_from cs l r [] hunks paired = act_lift (Inr (hunks, None))"
| "moved_from cs l r (removed # rest) hunks paired =
     (if hk_kind (hunks ! removed) \<noteq> Removed then moved_from cs l r rest hunks paired
      else
        act_bind (find_moved cs l r removed [removed - 64..<min (length hunks) (removed + 65)] hunks paired)
          (\<lambda>(hunks, paired, limit).
             if limit = None then moved_from cs l r rest hunks paired
             else act_lift (Inr (hunks, limit))))"

section \<open>The comparison\<close>

definition compare_lines ::
  "setting \<Rightarrow> snapshot \<Rightarrow> snapshot \<Rightarrow> (byte list \<Rightarrow> 64 word) \<Rightarrow> (hunk list \<times> coarse_reason option) run" where
  "compare_lines cs l r hash_line =
     act_bind (snapshot_lines cs l) (\<lambda>a.
     act_bind (snapshot_lines cs r) (\<lambda>b.
     act_bind (anchored cs a b hash_line) (\<lambda>al.
     act_bind (pair_steps cs l r a b (al_coarse al) (al_pairs al @ [(length a, length b)])
       \<lparr>hs_si = 0, hs_sj = 0, hs_anchor = 0, hs_occurrences = Map.empty, hs_hunks = [],
        hs_coarse = al_reason al, hs_refine = True\<rparr>) (\<lambda>st.
     act_bind (moved_from cs l r [0..<length (hs_hunks st)] (hs_hunks st) {}) (\<lambda>(hunks, limit).
       act_lift (Inr (hunks,
         case limit of None \<Rightarrow> hs_coarse st | Some c \<Rightarrow> or_reason (hs_coarse st) c)))))))"

definition compare_body ::
  "setting \<Rightarrow> snapshot \<Rightarrow> snapshot \<Rightarrow> (byte list \<Rightarrow> 64 word) \<Rightarrow> (hunk list \<times> coarse_reason option) run" where
  "compare_body cs l r hash_line =
     act_bind (cancelled cs) (\<lambda>_.
       if \<not> sn_complete l \<or> \<not> sn_complete r then act_lift (Inl Unavailable)
       else if rl_max_memory_bytes (limits cs) < cs_hunk_size cs * 2 then act_lift (Inl Failed)
       else
         act_bind (check cs) (\<lambda>_.
         act_bind (same_bytes cs l r) (\<lambda>same.
           if same then act_lift (Inr ([], None))
           else if sat_add (snapshot_len l) (snapshot_len r) > rl_max_bytes_exact (limits cs)
           then act_lift (Inl (Coarse BytesLimit))
           else
             compare_lines cs l r hash_line)))"

text \<open>The one hunk of a comparison that a limit ended.\<close>

definition whole_hunk :: "setting \<Rightarrow> snapshot \<Rightarrow> snapshot \<Rightarrow> hunk" where
  "whole_hunk cs l r =
     (make_hunk l r (0, snapshot_len l) (0, snapshot_len r) (0, 0) 0)
       \<lparr>hk_coarse := True, hk_options := cs_options cs\<rparr>"

definition compare_hashed ::
  "setting \<Rightarrow> snapshot \<Rightarrow> snapshot \<Rightarrow> (byte list \<Rightarrow> 64 word) \<Rightarrow> compare_result" where
  "compare_hashed cs l r hash_line =
     (let (outcome, w) = compare_body cs l r hash_line \<lparr>wk_used = 0, wk_peak = 0, wk_polls = 0\<rparr>;
          (hunks, completeness) =
            (case outcome of
               Inr (hunks, None) \<Rightarrow> (hunks, Exact)
             | Inr (hunks, Some reason) \<Rightarrow> (hunks, Coarse reason)
             | Inl (Coarse reason) \<Rightarrow> ([whole_hunk cs l r], Coarse reason)
             | Inl e \<Rightarrow> ([], e))
      in
      \<lparr>cr_left_revision = sn_revision l, cr_right_revision = sn_revision r, cr_options = cs_options cs,
       cr_hunks = hunks, cr_completeness = completeness,
       cr_input_bytes = sat_add (snapshot_len l) (snapshot_len r), cr_peak_bytes = wk_peak w\<rparr>)"

definition compare :: "setting \<Rightarrow> snapshot \<Rightarrow> snapshot \<Rightarrow> compare_result" where
  "compare cs l r = compare_hashed cs l r hash"

end
