(* ===== verification/Diff_Lines.thy ===== *)
theory Diff_Lines
  imports Diff_Work Document_Properties
begin

text \<open>
  The pass over the chunks of a snapshot cuts its text into the lines of the reference \<open>split_lines\<close>,
  wherever the chunks end, CR LF pairs split over two chunks included.
\<close>

section \<open>The reference\<close>

fun first_line :: "byte list \<Rightarrow> byte list" where
  "first_line [] = []"
| "first_line [b] = [b]"
| "first_line (b # c # bs) =
     (if b = CR \<and> c = LF then [b, c]
      else if b = CR \<or> b = LF then [b]
      else b # first_line (c # bs))"

lemma first_line_eq_Nil [simp]: "first_line t = [] \<longleftrightarrow> t = []" "[] = first_line t \<longleftrightarrow> t = []"
  by (cases t rule: first_line.cases; simp)+

lemma first_line_prefix: "first_line t @ drop (length (first_line t)) t = t"
  by (induction t rule: first_line.induct) simp_all

lemma first_line_pos: "t \<noteq> [] \<Longrightarrow> 0 < length (first_line t) \<and> 0 < length t"
  by simp

function split_lines :: "byte list \<Rightarrow> byte list list" where
  "split_lines t =
     (if t = [] then [] else first_line t # split_lines (drop (length (first_line t)) t))"
  by auto
termination
  by (relation "measure length") (auto dest: first_line_pos intro: diff_less)

declare split_lines.simps [simp del]

lemma split_lines_Nil [simp]: "split_lines [] = []"
  by (simp add: split_lines.simps)

lemma split_lines_step: "t \<noteq> [] \<Longrightarrow> first_line t = l \<Longrightarrow> drop (length l) t = r \<Longrightarrow> split_lines t = l # split_lines r"
  by (subst split_lines.simps) simp

lemma concat_split_lines [simp]: "concat (split_lines t) = t"
proof (induction t rule: split_lines.induct)
  case (1 t)
  show ?case
  proof (cases "t = []")
    case False
    with 1 show ?thesis
      by (subst split_lines.simps) (simp add: first_line_prefix)
  qed simp
qed

lemma split_lines_not_Nil: "l \<in> set (split_lines t) \<Longrightarrow> l \<noteq> []"
proof (induction t rule: split_lines.induct)
  case (1 t)
  then show ?case
    by (subst (asm) (2) split_lines.simps) (auto split: if_splits)
qed

definition plain :: "byte list \<Rightarrow> bool" where
  "plain xs \<longleftrightarrow> CR \<notin> set xs \<and> LF \<notin> set xs"

lemma plain_simps [simp]:
  "plain []" "plain (x # xs) \<longleftrightarrow> x \<noteq> CR \<and> x \<noteq> LF \<and> plain xs"
  "plain (xs @ ys) \<longleftrightarrow> plain xs \<and> plain ys"
  by (auto simp: plain_def)

lemma first_line_plain: "plain xs \<Longrightarrow> first_line (xs @ ys) = xs @ first_line ys"
proof (induction xs)
  case (Cons x xs)
  then show ?case
    by (cases "xs @ ys") auto
qed simp

lemma split_plain: "plain xs \<Longrightarrow> xs \<noteq> [] \<Longrightarrow> split_lines xs = [xs]"
  using split_lines_step [of xs xs "[]"] first_line_plain [of xs "[]"] by simp

lemma split_LF: "plain xs \<Longrightarrow> split_lines (xs @ LF # ys) = (xs @ [LF]) # split_lines ys"
  by (rule split_lines_step) (cases ys; simp add: first_line_plain)+

lemma split_CR_LF: "plain xs \<Longrightarrow> split_lines (xs @ CR # LF # ys) = (xs @ [CR, LF]) # split_lines ys"
  by (rule split_lines_step) (simp_all add: first_line_plain)

lemma split_CR:
  "plain xs \<Longrightarrow> \<not> (\<exists>zs. ys = LF # zs) \<Longrightarrow> split_lines (xs @ CR # ys) = (xs @ [CR]) # split_lines ys"
  by (rule split_lines_step) (cases ys; simp add: first_line_plain)+

lemma find_eol_None: "find_eol xs = None \<longleftrightarrow> plain xs"
  by (induction xs) auto

lemma find_eol_Some:
  "find_eol xs = Some k \<Longrightarrow> k < length xs \<and> plain (take k xs) \<and> (xs ! k = CR \<or> xs ! k = LF)"
  by (induction xs arbitrary: k) (auto split: if_splits)

section \<open>The lines that are kept\<close>

definition kept_line :: "setting \<Rightarrow> nat \<Rightarrow> nat \<Rightarrow> byte list \<Rightarrow> diff_line list" where
  "kept_line cs pos hint raw =
     (if co_ignore_blank_lines (cs_options cs) \<and> trim raw = [] then []
      else [\<lparr>ln_start = pos, ln_end = pos + length raw, ln_text = normalize cs raw (hint = 0),
             ln_hint = hint\<rparr>])"

fun line_list :: "setting \<Rightarrow> nat \<Rightarrow> nat \<Rightarrow> byte list list \<Rightarrow> diff_line list" where
  "line_list cs pos hint [] = []"
| "line_list cs pos hint (raw # raws) =
     kept_line cs pos hint raw @ line_list cs (pos + length raw) (hint + 1) raws"

lemma push_line_Inr:
  "push_line cs out raw s e hint w = (Inr out', w') \<Longrightarrow> e = s + length raw \<Longrightarrow>
   out' = out @ kept_line cs s hint raw"
  by (auto simp: push_line_def kept_line_def res_simps Let_def split: if_splits)

lemma end_line_Inr:
  assumes "end_line cs st w = (Inr st', w')" "sc_offset st = sc_start st + length (sc_raw st)"
  shows "st' = st\<lparr>sc_out := sc_out st @ kept_line cs (sc_start st) (sc_hint st) (sc_raw st),
    sc_raw := [], sc_hint := sc_hint st + 1, sc_start := sc_offset st\<rparr>"
  using assms by (auto simp: end_line_def res_simps dest!: push_line_Inr)

text \<open>What a scan in progress will have found when the rest of the text follows.\<close>

definition expected :: "setting \<Rightarrow> line_scan \<Rightarrow> byte list \<Rightarrow> diff_line list" where
  "expected cs st rest =
     sc_out st @ line_list cs (sc_start st) (sc_hint st) (split_lines (sc_raw st @ rest))"

definition scan_ok :: "line_scan \<Rightarrow> bool" where
  "scan_ok st \<longleftrightarrow>
     sc_offset st = sc_start st + length (sc_raw st) \<and>
     (if sc_pending_cr st then \<exists>xs. sc_raw st = xs @ [CR] \<and> plain xs else plain (sc_raw st))"

lemma end_line_expected:
  assumes "end_line cs st w = (Inr st', w')" "sc_offset st = sc_start st + length (sc_raw st)"
    "split_lines (raw @ rest) = sc_raw st # split_lines tail" "\<not> sc_pending_cr st"
    "sc_out st = out" "sc_start st = s" "sc_hint st = h"
  shows "scan_ok st'" "expected cs st' tail = out @ line_list cs s h (split_lines (raw @ rest))"
    "sc_offset st' = sc_offset st"
  using end_line_Inr [OF assms(1,2)] assms by (simp_all add: scan_ok_def expected_def)

lemma scan_chunk_expected:
  assumes "scan_chunk cs rest st w = (Inr st', w')" "scan_ok st"
  shows "scan_ok st' \<and> expected cs st' R = expected cs st (rest @ R) \<and>
    sc_offset st' = sc_offset st + length rest"
  using assms
proof (induction cs rest st w arbitrary: st' w' rule: scan_chunk.induct)
  case (1 cs rest st w)
  consider (stop) "rest = []"
    | (pair) zs where "rest = LF # zs" "sc_pending_cr st"
    | (single) "rest \<noteq> []" "strip_prefix [LF] rest = None" "sc_pending_cr st"
    | (none) "rest \<noteq> []" "\<not> sc_pending_cr st" "find_eol rest = None"
    | (some) k where "rest \<noteq> []" "\<not> sc_pending_cr st" "find_eol rest = Some k"
    by (cases rest; cases "sc_pending_cr st"; cases "find_eol rest"; fastforce simp: strip_prefix_def)
  then show ?case
  proof cases
    case stop
    with "1.prems" show ?thesis
      by (simp add: scan_chunk.simps)
  next
    case pair
    let ?st = "st\<lparr>sc_pending_cr := False\<rparr>"
    let ?st2 = "?st\<lparr>sc_raw := sc_raw ?st @ [LF], sc_offset := sc_offset ?st + 1\<rparr>"
    have tail: "strip_prefix [LF] rest = Some zs" "rest \<noteq> []"
      using pair by (simp_all add: strip_prefix_def)
    obtain xs where xs: "sc_raw st = xs @ [CR]" "plain xs"
      "sc_offset st = sc_start st + length (sc_raw st)"
      using "1.prems"(2) pair(2) by (auto simp: scan_ok_def)
    obtain st1 w1 where st1: "end_line cs ?st2 w = (Inr st1, w1)"
        "scan_chunk cs zs st1 w1 = (Inr st', w')"
      using "1.prems"(1) pair(2) tail by (auto simp: scan_chunk.simps [of cs rest] res_simps)
    have sp: "split_lines (sc_raw st @ rest @ R) = sc_raw ?st2 # split_lines (zs @ R)"
      using split_CR_LF [OF xs(2), of "zs @ R"] xs(1) pair(1) by simp
    note e = end_line_expected [OF st1(1) _ sp _ refl refl refl]
    have "scan_ok st1" "expected cs st1 (zs @ R) = expected cs st (rest @ R)" "sc_offset st1 = sc_offset st + 1"
      using e xs by (simp_all add: expected_def)
    with "1.IH"(2) [OF tail(2) pair(2) refl tail(1) st1] pair(1) show ?thesis
      by simp
  next
    case single
    let ?st = "st\<lparr>sc_pending_cr := False\<rparr>"
    obtain xs where xs: "sc_raw st = xs @ [CR]" "plain xs"
      "sc_offset st = sc_start st + length (sc_raw st)"
      using "1.prems"(2) single(3) by (auto simp: scan_ok_def)
    obtain st1 w1 where st1: "end_line cs ?st w = (Inr st1, w1)"
        "scan_chunk cs rest st1 w1 = (Inr st', w')"
      using "1.prems"(1) single by (auto simp: scan_chunk.simps [of cs rest st] res_simps)
    have "\<not> (\<exists>zs. rest @ R = LF # zs)"
      using single(1,2) by (cases rest) (auto simp: strip_prefix_def)
    then have sp: "split_lines (sc_raw st @ rest @ R) = sc_raw ?st # split_lines (rest @ R)"
      using split_CR [OF xs(2), of "rest @ R"] xs(1) by simp
    note e = end_line_expected [OF st1(1) _ sp _ refl refl refl]
    have "scan_ok st1" "expected cs st1 (rest @ R) = expected cs st (rest @ R)" "sc_offset st1 = sc_offset st"
      using e xs by (simp_all add: expected_def)
    with "1.IH"(1) [OF single(1,3) refl single(2) st1] show ?thesis
      by simp
  next
    case none
    have "plain rest"
      using none(3) by (simp add: find_eol_None)
    with "1.prems" none show ?thesis
      by (auto simp: scan_chunk.simps [of cs rest st] res_simps Let_def scan_ok_def expected_def)
  next
    case (some k)
    let ?st = "st\<lparr>sc_raw := sc_raw st @ take (k + 1) rest, sc_offset := sc_offset st + (k + 1)\<rparr>"
    have k: "k < length rest" "plain (take k rest)" "rest ! k = CR \<or> rest ! k = LF"
      using find_eol_Some [OF some(3)] by auto
    have cut: "take (k + 1) rest = take k rest @ [rest ! k]" "rest = take k rest @ rest ! k # drop (k + 1) rest"
      using k(1) by (simp_all add: take_Suc_conv_app_nth id_take_nth_drop)
    have raw: "plain (sc_raw st)" "sc_offset st = sc_start st + length (sc_raw st)"
      using "1.prems"(2) some(2) by (auto simp: scan_ok_def)
    have "act_bind (if rest ! k = CR then act_lift (Inr (?st\<lparr>sc_pending_cr := True\<rparr>)) else end_line cs ?st)
        (\<lambda>st. act_bind (act_lift (line_within st)) (\<lambda>_. scan_chunk cs (drop (k + 1) rest) st)) w = (Inr st', w')"
      using "1.prems"(1) some by (simp add: scan_chunk.simps [of cs rest st] Let_def split del: if_split cong: if_cong)
    then obtain st1 w1 where st1:
        "(if rest ! k = CR then act_lift (Inr (?st\<lparr>sc_pending_cr := True\<rparr>)) else end_line cs ?st) w = (Inr st1, w1)"
        "Inr () = line_within st1" "scan_chunk cs (drop (k + 1) rest) st1 w1 = (Inr st', w')"
      unfolding act_bind_Inr_iff act_lift_iff by auto
    then have within: "act_lift (line_within st1) w1 = (Inr (), w1)"
      by (simp add: act_lift_iff)
    have "scan_ok st1 \<and> expected cs st1 (drop (k + 1) rest @ R) = expected cs st (rest @ R) \<and>
        sc_offset st1 = sc_offset st + (k + 1)"
    proof (cases "rest ! k = CR")
      case True
      with st1(1) have "st1 = ?st\<lparr>sc_pending_cr := True\<rparr>"
        by (simp add: act_lift_iff)
      moreover have "expected cs (?st\<lparr>sc_pending_cr := True\<rparr>) (drop (k + 1) rest @ R) = expected cs st (rest @ R)"
        by (simp add: expected_def) (metis append.assoc append_take_drop_id)
      moreover have "scan_ok (?st\<lparr>sc_pending_cr := True\<rparr>)"
        using raw k True cut(1) by (auto simp: scan_ok_def)
      ultimately show ?thesis
        by simp
    next
      case False
      have "split_lines (sc_raw st @ rest @ R) = sc_raw ?st # split_lines (drop (k + 1) rest @ R)"
      proof -
        have eq: "rest @ R = take k rest @ LF # drop (k + 1) rest @ R"
          using cut(2) k(3) False by (metis append.assoc append_Cons)
        show ?thesis
          unfolding eq
          using split_LF [of "sc_raw st @ take k rest" "drop (k + 1) rest @ R"] raw(1) k(2,3) False cut(1)
          by simp
      qed
      note sp = this
      have run: "end_line cs ?st w = (Inr st1, w1)"
        using st1(1) False by simp
      from end_line_expected [OF run _ sp _ refl refl refl] raw(2) some(2) k(1) show ?thesis
        by (simp add: expected_def)
    qed
    with "1.IH"(3) [OF some(1,2,3) refl refl st1(1) within st1(3)] k(1) show ?thesis
      by simp
  qed
qed

lemma scan_chunks_expected:
  "scan_chunks cs ts st w = (Inr st', w') \<Longrightarrow> scan_ok st \<Longrightarrow>
     scan_ok st' \<and> expected cs st' R = expected cs st (concat ts @ R) \<and>
     sc_offset st' = sc_offset st + length (concat ts)"
proof (induction ts arbitrary: st w)
  case (Cons t ts)
  then obtain w1 st1 w2 where st1: "scan_chunk cs t st w1 = (Inr st1, w2)"
      "scan_chunks cs ts st1 w2 = (Inr st', w')"
    by (auto simp: res_simps)
  from scan_chunk_expected [OF st1(1) Cons.prems(2), of "concat ts @ R"] Cons.IH [OF st1(2)] show ?case
    by simp
qed (simp add: act_lift_iff)

lemma all_chunks_good:
  assumes "good s"
  shows "\<exists>ts. all_chunks s = Inr ts \<and> concat ts = snap_text s"
proof -
  have "and_then (snapshot_chunks s 0 (snapshot_len s))
      (\<lambda>stack. and_then (chunks_all stack) (\<lambda>ts. Inr (List.concat ts))) = Inr (snap_text s)"
    using snapshot_chunks_text [OF assms, of 0 "snapshot_len s"] assms
    by (simp add: snapshot_len_text)
  then show ?thesis
    by (auto simp: all_chunks_def and_then_Inr_iff)
qed

section \<open>The lines of a snapshot\<close>

lemma snapshot_lines_reference:
  assumes "good s" "snapshot_lines cs s w = (Inr out, w')"
  shows "out = line_list cs 0 0 (split_lines (snap_text s))"
proof -
  let ?st = "\<lparr>sc_out = [], sc_raw = [], sc_start = 0, sc_offset = 0, sc_hint = 0, sc_pending_cr = False\<rparr>"
  obtain ts where ts: "all_chunks s = Inr ts" "concat ts = snap_text s"
    using all_chunks_good [OF assms(1)] by blast
  obtain st w1 where st: "scan_chunks cs ts ?st w = (Inr st, w1)"
      "(if sc_start st < sc_offset st
        then push_line cs (sc_out st) (sc_raw st) (sc_start st) (sc_offset st) (sc_hint st)
        else act_lift (Inr (sc_out st))) w1 = (Inr out, w')"
    using assms(2) ts(1) by (auto simp: snapshot_lines_def res_simps split: if_splits)
  have ok: "scan_ok st" "expected cs st [] = line_list cs 0 0 (split_lines (snap_text s))"
    using scan_chunks_expected [OF st(1), of "[]"] ts(2) by (simp_all add: scan_ok_def expected_def)
  have "split_lines (sc_raw st) = (if sc_raw st = [] then [] else [sc_raw st])"
    using ok(1) split_plain split_CR [of _ "[]"] by (fastforce simp: scan_ok_def split: if_splits)
  with ok st(2) show ?thesis
    by (auto simp: expected_def scan_ok_def act_lift_iff dest!: push_line_Inr split: if_splits)
qed

end
