(* ===== verification/Myers.thy ===== *)
theory Myers
  imports Diff_Align
begin

text \<open>
  The greedy search finds a longest common subsequence. The reference is the table \<open>lcs\<close> and the
  distance \<open>dist\<close> it gives; a row of the search holds, for each diagonal, the furthest point within
  that many edits, also past the ends of the texts, where nothing matches.
\<close>

section \<open>Common subsequences\<close>

text \<open>A strictly increasing list of pairs.\<close>

definition chain :: "(nat \<times> nat) list \<Rightarrow> bool" where
  "chain ps \<longleftrightarrow> sorted_wrt (\<lambda>p q. fst p < fst q \<and> snd p < snd q) ps"

lemma chain_simps [simp]:
  "chain []"
  "chain (p # ps) \<longleftrightarrow> (\<forall>q\<in>set ps. fst p < fst q \<and> snd p < snd q) \<and> chain ps"
  "chain (ps @ qs) \<longleftrightarrow>
     chain ps \<and> chain qs \<and> (\<forall>p\<in>set ps. \<forall>q\<in>set qs. fst p < fst q \<and> snd p < snd q)"
  by (auto simp: chain_def sorted_wrt_append)

text \<open>The pairs before \<open>x\<close> and \<open>y\<close>.\<close>

definition within :: "nat \<Rightarrow> nat \<Rightarrow> (nat \<times> nat) list \<Rightarrow> bool" where
  "within x y ps \<longleftrightarrow> (\<forall>p\<in>set ps. fst p < x \<and> snd p < y)"

lemma within_simps [simp]:
  "within x y []" "within x y (p # ps) \<longleftrightarrow> fst p < x \<and> snd p < y \<and> within x y ps"
  "within x y (ps @ qs) \<longleftrightarrow> within x y ps \<and> within x y qs"
  by (auto simp: within_def)

lemma within_mono: "within x y ps \<Longrightarrow> x \<le> x' \<Longrightarrow> y \<le> y' \<Longrightarrow> within x' y' ps"
  by (fastforce simp: within_def)

definition matching :: "(nat \<Rightarrow> nat \<Rightarrow> bool) \<Rightarrow> (nat \<times> nat) list \<Rightarrow> bool" where
  "matching m ps \<longleftrightarrow> (\<forall>p\<in>set ps. m (fst p) (snd p))"

lemma matching_simps [simp]:
  "matching m []" "matching m (p # ps) \<longleftrightarrow> m (fst p) (snd p) \<and> matching m ps"
  "matching m (ps @ qs) \<longleftrightarrow> matching m ps \<and> matching m qs"
  by (auto simp: matching_def)

section \<open>The table\<close>

fun lcs :: "(nat \<Rightarrow> nat \<Rightarrow> bool) \<Rightarrow> nat \<Rightarrow> nat \<Rightarrow> nat" where
  "lcs m 0 y = 0"
| "lcs m (Suc x) 0 = 0"
| "lcs m (Suc x) (Suc y) =
     (if m x y then Suc (lcs m x y) else max (lcs m x (Suc y)) (lcs m (Suc x) y))"

lemma lcs_0 [simp]: "lcs m x 0 = 0"
  by (cases x) simp_all

lemma lcs_le: "lcs m x y \<le> x \<and> lcs m x y \<le> y"
  by (induction m x y rule: lcs.induct) auto

lemma lcs_steps:
  "lcs m x y \<le> lcs m (Suc x) y \<and> lcs m (Suc x) y \<le> Suc (lcs m x y) \<and>
   lcs m x y \<le> lcs m x (Suc y) \<and> lcs m x (Suc y) \<le> Suc (lcs m x y)"
proof (induction "x + y" arbitrary: x y rule: less_induct)
  case less
  have right: "lcs m x y \<le> lcs m (Suc x) y \<and> lcs m (Suc x) y \<le> Suc (lcs m x y)"
  proof (cases y)
    case (Suc y')
    have "lcs m x y' \<le> lcs m x (Suc y') \<and> lcs m x (Suc y') \<le> Suc (lcs m x y')"
      "lcs m x y' \<le> lcs m (Suc x) y' \<and> lcs m (Suc x) y' \<le> Suc (lcs m x y')"
      using less [of x y'] Suc by auto
    then show ?thesis
      unfolding Suc by auto
  qed simp
  have left: "lcs m x y \<le> lcs m x (Suc y) \<and> lcs m x (Suc y) \<le> Suc (lcs m x y)"
  proof (cases x)
    case (Suc x')
    have "lcs m x' y \<le> lcs m x' (Suc y) \<and> lcs m x' (Suc y) \<le> Suc (lcs m x' y)"
      "lcs m x' y \<le> lcs m (Suc x') y \<and> lcs m (Suc x') y \<le> Suc (lcs m x' y)"
      using less [of x' y] Suc by auto
    then show ?thesis
      unfolding Suc by auto
  qed simp
  show ?case
    using right left by blast
qed

lemma lcs_mono: "x \<le> x' \<Longrightarrow> y \<le> y' \<Longrightarrow> lcs m x y \<le> lcs m x' y'"
proof -
  assume le: "x \<le> x'" "y \<le> y'"
  have "lcs m x y \<le> lcs m x' y"
    using le(1) by (induction x' rule: dec_induct) (use lcs_steps le_trans in blast)+
  also have "\<dots> \<le> lcs m x' y'"
    using le(2) by (induction y' rule: dec_induct) (use lcs_steps le_trans in blast)+
  finally show ?thesis .
qed

text \<open>No chain of matches is longer than the table says.\<close>

lemma chain_lcs: "chain ps \<Longrightarrow> matching m ps \<Longrightarrow> within x y ps \<Longrightarrow> length ps \<le> lcs m x y"
proof (induction m x y arbitrary: ps rule: lcs.induct)
  case (3 m x y)
  show ?case
  proof (cases ps rule: rev_cases)
    case (snoc qs p)
    have before: "\<forall>q\<in>set qs. fst q < fst p \<and> snd q < snd p"
      using "3.prems"(1) snoc by auto
    then have "within x y qs"
      using "3.prems"(3) snoc by (fastforce simp: within_def)
    show ?thesis
    proof (cases "m x y")
      case True
      with "3.IH"(1) [of qs] \<open>within x y qs\<close> "3.prems"(1,2) snoc show ?thesis
        by simp
    next
      case False
      then have "fst p < x \<or> snd p < y"
        using "3.prems"(2,3) snoc by (cases p) (auto simp: less_Suc_eq)
      then have "within x (Suc y) ps \<or> within (Suc x) y ps"
        using before "3.prems"(3) snoc by (fastforce simp: within_def)
      with "3.IH"(2,3) [of ps] "3.prems"(1,2) False show ?thesis
        by auto
    qed
  qed simp
next
  case (1 m y)
  then show ?case
    by (cases ps) auto
next
  case (2 m x)
  then show ?case
    by (cases ps) auto
qed

text \<open>Nothing matches past the ends.\<close>

definition bounded :: "(nat \<Rightarrow> nat \<Rightarrow> bool) \<Rightarrow> nat \<Rightarrow> nat \<Rightarrow> bool" where
  "bounded m n k \<longleftrightarrow> (\<forall>i j. m i j \<longrightarrow> i < n \<and> j < k)"

lemma lcs_outside: "bounded m n k \<Longrightarrow> lcs m x y = lcs m (min x n) (min y k)"
proof (induction m x y rule: lcs.induct)
  case (3 m x y)
  show ?case
  proof (cases "x < n \<and> y < k")
    case True
    then have "min (Suc x) n = Suc x" "min (Suc y) k = Suc y"
      by auto
    then show ?thesis
      by simp
  next
    case False
    then have "\<not> m x y"
      using "3.prems" by (auto simp: bounded_def)
    with "3.IH"(2,3) "3.prems" have eq: "lcs m (Suc x) (Suc y) =
        max (lcs m (min x n) (min (Suc y) k)) (lcs m (min (Suc x) n) (min y k))"
      by simp
    have "min x n = min (Suc x) n \<or> min y k = min (Suc y) k"
      using False by auto
    moreover have "lcs m (min x n) (min (Suc y) k) \<le> lcs m (min (Suc x) n) (min (Suc y) k)"
      "lcs m (min (Suc x) n) (min y k) \<le> lcs m (min (Suc x) n) (min (Suc y) k)"
      by (rule lcs_mono; simp)+
    ultimately show ?thesis
      unfolding eq by (auto simp: max_def)
  qed
qed auto

section \<open>The distance\<close>

definition dist :: "(nat \<Rightarrow> nat \<Rightarrow> bool) \<Rightarrow> nat \<Rightarrow> nat \<Rightarrow> nat" where
  "dist m x y = x + y - 2 * lcs m x y"

lemma dist_plus: "dist m x y + 2 * lcs m x y = x + y"
  using lcs_le [of m x y] by (simp add: dist_def)

lemma dist_ge: "x \<le> y + dist m x y" "y \<le> x + dist m x y"
  using lcs_le [of m x y] by (auto simp: dist_def)

lemma dist_even: "even (dist m x y) = even (x + y)"
  using dist_plus [of m x y] by (metis even_add even_mult_iff even_numeral)

lemma dist_Suc: "dist m (Suc x) y \<le> Suc (dist m x y)" "dist m x (Suc y) \<le> Suc (dist m x y)"
  using lcs_steps [of m x y] by (auto simp: dist_def)

lemma dist_match: "m x y \<Longrightarrow> dist m (Suc x) (Suc y) = dist m x y"
  by (simp add: dist_def)

lemma dist_no_match:
  "\<not> m x y \<Longrightarrow> dist m (Suc x) (Suc y) = Suc (min (dist m x (Suc y)) (dist m (Suc x) y))"
  using dist_plus [of m x "Suc y"] dist_plus [of m "Suc x" y] dist_plus [of m "Suc x" "Suc y"]
  by (auto simp: max_def min_def split: if_splits)

lemma dist_diagonal: "dist m x y \<le> dist m (x + i) (y + i)"
proof (induction i)
  case (Suc i)
  have "dist m (x + i) (y + i) \<le> dist m (Suc (x + i)) (Suc (y + i))"
  proof (cases "m (x + i) (y + i)")
    case True
    then show ?thesis
      by (simp add: dist_match)
  next
    case False
    have "lcs m (x + i) (Suc (y + i)) \<le> Suc (lcs m (x + i) (y + i))"
      "lcs m (Suc (x + i)) (y + i) \<le> Suc (lcs m (x + i) (y + i))"
      using lcs_steps by blast+
    with False have "lcs m (Suc (x + i)) (Suc (y + i)) \<le> Suc (lcs m (x + i) (y + i))"
      by simp
    then show ?thesis
      by (simp add: dist_def)
  qed
  with Suc show ?case
    by simp
qed simp

lemma dist_outside:
  assumes "bounded m n k" "n \<le> x" "k \<le> y"
  shows "dist m x y = dist m n k + (x - n) + (y - k)"
  using lcs_outside [OF assms(1), of x y] assms(2,3) lcs_le [of m n k] by (auto simp: dist_def min_def)

section \<open>Furthest points\<close>

text \<open>The row of a point on diagonal \<open>k\<close>.\<close>

abbreviation row_of :: "int \<Rightarrow> nat \<Rightarrow> nat" where
  "row_of k x \<equiv> nat (int x - k)"

definition furthest :: "(nat \<Rightarrow> nat \<Rightarrow> bool) \<Rightarrow> nat \<Rightarrow> int \<Rightarrow> nat \<Rightarrow> bool" where
  "furthest m d k x \<longleftrightarrow>
     k \<le> int x \<and> dist m x (row_of k x) \<le> d \<and> (\<forall>x'. dist m x' (row_of k x') \<le> d \<longrightarrow> k \<le> int x' \<longrightarrow> x' \<le> x)"

lemma furthest_unique: "furthest m d k x \<Longrightarrow> furthest m d k x' \<Longrightarrow> x = x'"
  by (meson furthest_def le_antisym)

lemma row_of_add: "k \<le> int x \<Longrightarrow> row_of k (x + i) = row_of k x + i"
  by simp

text \<open>From a start that no shorter path overtakes, a run of matches ends at the furthest point.\<close>

definition best_start :: "(nat \<Rightarrow> nat \<Rightarrow> bool) \<Rightarrow> nat \<Rightarrow> int \<Rightarrow> nat \<Rightarrow> bool" where
  "best_start m d k x0 \<longleftrightarrow>
     k \<le> int x0 \<and> dist m x0 (row_of k x0) \<le> d \<and>
     (\<forall>x. k - 1 \<le> int x \<longrightarrow> dist m x (row_of (k - 1) x) < d \<longrightarrow> x < x0) \<and>
     (\<forall>x. k + 1 \<le> int x \<longrightarrow> dist m x (row_of (k + 1) x) < d \<longrightarrow> x \<le> x0)"

lemma furthest_snake:
  assumes "best_start m d k x0" "\<forall>i<l. m (x0 + i) (row_of k x0 + i)" "\<not> m (x0 + l) (row_of k x0 + l)"
  shows "furthest m d k (x0 + l)"
proof -
  have start: "k \<le> int x0" "dist m x0 (row_of k x0) \<le> d"
    "\<And>x. k - 1 \<le> int x \<Longrightarrow> dist m x (row_of (k - 1) x) < d \<Longrightarrow> x < x0"
    "\<And>x. k + 1 \<le> int x \<Longrightarrow> dist m x (row_of (k + 1) x) < d \<Longrightarrow> x \<le> x0"
    using assms(1) by (auto simp: best_start_def)
  let ?x = "x0 + l" and ?y = "row_of k x0 + l"
  have "dist m (x0 + i) (row_of k x0 + i) = dist m x0 (row_of k x0)" if "i \<le> l" for i
    using that
  proof (induction i)
    case (Suc i)
    with assms(2) dist_match [of m "x0 + i" "row_of k x0 + i"] show ?case
      by simp
  qed simp
  then have "dist m ?x ?y \<le> d"
    using start(2) by simp
  moreover have "x' \<le> ?x" if "k \<le> int x'" "dist m x' (row_of k x') \<le> d" for x'
  proof (rule ccontr)
    assume "\<not> x' \<le> ?x"
    then obtain i where i: "x' = Suc ?x + i"
      by (metis less_iff_Suc_add not_le add_Suc)
    then have "row_of k x' = Suc ?y + i"
      using start(1) by simp
    with that(2) i dist_diagonal [of m "Suc ?x" "Suc ?y" i] have "dist m (Suc ?x) (Suc ?y) \<le> d"
      by simp
    then consider "dist m ?x (Suc ?y) < d" | "dist m (Suc ?x) ?y < d"
      using dist_no_match [of m ?x ?y] assms(3) by (auto simp: min_def split: if_splits)
    then show False
    proof cases
      case 1
      have "row_of (k - 1) ?x = Suc ?y"
        using start(1) by simp
      with start(3) [of ?x] 1 start(1) show ?thesis
        by simp
    next
      case 2
      have "row_of (k + 1) (Suc ?x) = ?y"
        using start(1) by simp
      with start(4) [of "Suc ?x"] 2 start(1) show ?thesis
        by simp
    qed
  qed
  ultimately show ?thesis
    using start(1) row_of_add [OF start(1), of l] by (simp add: furthest_def del: of_nat_add)
qed

section \<open>Rows\<close>

abbreviation entry :: "nat list \<Rightarrow> nat \<Rightarrow> int \<Rightarrow> nat" where
  "entry v offset k \<equiv> v ! nat (int offset + k)"

definition on_row :: "nat \<Rightarrow> int \<Rightarrow> bool" where
  "on_row d k \<longleftrightarrow> \<bar>k\<bar> \<le> int d \<and> even (int d - k)"

text \<open>What row \<open>d\<close> reads: the row before it, or the zero that starts the search.\<close>

definition row_before :: "(nat \<Rightarrow> nat \<Rightarrow> bool) \<Rightarrow> nat \<Rightarrow> nat \<Rightarrow> nat list \<Rightarrow> bool" where
  "row_before m offset d v \<longleftrightarrow>
     (case d of
        0 \<Rightarrow> v ! (offset + 1) = 0
      | Suc e \<Rightarrow> \<forall>k. on_row e k \<longrightarrow> furthest m e k (entry v offset k))"

definition room_for :: "nat \<Rightarrow> nat \<Rightarrow> nat list \<Rightarrow> bool" where
  "room_for offset d v \<longleftrightarrow> d < offset \<and> offset + d + 1 < length v"

lemma as_usize_offset: "- int offset \<le> k \<Longrightarrow> as_usize (int offset + k) = nat (int offset + k)"
  by (simp add: as_usize_def)

lemma index_Inr: "i < length v \<Longrightarrow> index v i = Inr (v ! i)"
  by (simp add: index_def)

lemma index_entry:
  assumes "room_for offset d v" "\<bar>k\<bar> \<le> int d + 1"
  shows "index v (as_usize (int offset + k)) = Inr (entry v offset k)"
    "nat (int offset + k) < length v"
  using assms by (auto simp: room_for_def as_usize_def index_def)

lemma idx_neighbours:
  assumes "room_for offset d v" "\<bar>k\<bar> \<le> int d"
  shows "as_usize (int offset + k) + 1 = as_usize (int offset + (k + 1))"
    "as_usize (int offset + k) - 1 = as_usize (int offset + (k - 1))"
  using assms by (auto simp: room_for_def as_usize_def)

text \<open>The diagonal a row enters another from, and the point there.\<close>

lemma from_above_neighbour:
  assumes "room_for offset d v" "on_row d k" "row_before m offset d v" "d = Suc e"
  obtains down px where "from_above v offset d k = Inr down"
    "on_row e (if down then k + 1 else k - 1)"
    "index v (as_usize (int offset + (if down then k + 1 else k - 1))) = Inr px"
    "furthest m e (if down then k + 1 else k - 1) px"
    "\<And>x. \<not> down \<Longrightarrow> k + 1 \<le> int x \<Longrightarrow> dist m x (row_of (k + 1) x) < d \<Longrightarrow> x \<le> px"
    "\<And>x. down \<Longrightarrow> k - 1 \<le> int x \<Longrightarrow> dist m x (row_of (k - 1) x) < d \<Longrightarrow> x < px"
proof -
  have k: "\<bar>k\<bar> \<le> int d"
    using assms(2) by (simp add: on_row_def)
  note idx = idx_neighbours [OF assms(1) k]
  have above: "index v (as_usize (int offset + (k + 1))) = Inr (entry v offset (k + 1))"
    and below: "index v (as_usize (int offset + (k - 1))) = Inr (entry v offset (k - 1))"
    by (rule index_entry [OF assms(1)]; use k in linarith)+
  have up: "on_row e (k + 1)" if "k \<noteq> int d"
    using that assms(2) unfolding on_row_def assms(4) by presburger
  have dn: "on_row e (k - 1)" if "k \<noteq> - int d"
    using that assms(2) unfolding on_row_def assms(4) by presburger
  have far: "furthest m e j (entry v offset j)" if "on_row e j" for j
    using assms(3,4) that by (simp add: row_before_def)
  consider (first) "k = - int d" | (final) "k \<noteq> - int d" "k = int d"
    | (inner) "k \<noteq> - int d" "k \<noteq> int d"
    by blast
  then show ?thesis
  proof cases
    case first
    then have "k \<noteq> int d"
      using assms(4) by simp
    have far_off: "\<not> dist m x (row_of (k - 1) x) < d" if "k - 1 \<le> int x" for x
      using dist_ge(2) [of "row_of (k - 1) x" x m] that first by simp
    show ?thesis
      by (rule that [of True "entry v offset (k + 1)"])
        (use first above far far_off up [OF \<open>k \<noteq> int d\<close>] in \<open>simp_all add: from_above_def Let_def\<close>)
  next
    case final
    have far_off: "\<not> dist m x (row_of (k + 1) x) < d" if "k + 1 \<le> int x" for x
      using dist_ge(1) [of x "row_of (k + 1) x" m] that final by simp
    show ?thesis
      by (rule that [of False "entry v offset (k - 1)"])
        (use final below far far_off dn [OF final(1)] in \<open>simp_all add: from_above_def Let_def\<close>)
  next
    case inner
    let ?l = "entry v offset (k - 1)" and ?r = "entry v offset (k + 1)"
    have fa: "from_above v offset d k = Inr (?l < ?r)"
      using inner idx above below by (simp add: from_above_def Let_def)
    have "x \<le> ?r" if "k + 1 \<le> int x" "dist m x (row_of (k + 1) x) < d" for x
      using that far [OF up [OF inner(2)]] assms(4) by (simp add: furthest_def)
    moreover have "x \<le> ?l" if "k - 1 \<le> int x" "dist m x (row_of (k - 1) x) < d" for x
      using that far [OF dn [OF inner(1)]] assms(4) by (simp add: furthest_def)
    ultimately show ?thesis
      by (intro that [of "?l < ?r" "if ?l < ?r then ?r else ?l"])
        (use fa above below far up [OF inner(2)] dn [OF inner(1)] in \<open>fastforce split: if_splits\<close>)+
  qed
qed

text \<open>The start of a diagonal is as far as the row before allows, and no further.\<close>

lemma start_conditions:
  assumes "room_for offset d v" "on_row d k" "row_before m offset d v"
  shows "\<exists>x0. start_x v offset d k = Inr x0 \<and> best_start m d k x0"
proof (cases d)
  case 0
  then have "k = 0"
    using assms(2) by (simp add: on_row_def)
  moreover have "index v (offset + 1) = Inr 0"
    using assms(1,3) 0 by (simp add: room_for_def row_before_def index_def)
  ultimately show ?thesis
    using 0 by (simp add: start_x_def from_above_def as_usize_def dist_def best_start_def)
next
  case (Suc e)
  have k: "\<bar>k\<bar> \<le> int d"
    using assms(2) by (simp add: on_row_def)
  note idx = idx_neighbours [OF assms(1) k]
  obtain down px where px: "from_above v offset d k = Inr down"
    "index v (as_usize (int offset + (if down then k + 1 else k - 1))) = Inr px"
    "furthest m e (if down then k + 1 else k - 1) px"
    "\<And>x. \<not> down \<Longrightarrow> k + 1 \<le> int x \<Longrightarrow> dist m x (row_of (k + 1) x) < d \<Longrightarrow> x \<le> px"
    "\<And>x. down \<Longrightarrow> k - 1 \<le> int x \<Longrightarrow> dist m x (row_of (k - 1) x) < d \<Longrightarrow> x < px"
    using from_above_neighbour [OF assms Suc] by metis
  show ?thesis
  proof (cases down)
    case True
    then have far: "furthest m e (k + 1) px"
      using px(3) by simp
    then have row: "row_of k px = Suc (row_of (k + 1) px)" "k + 1 \<le> int px"
      "dist m px (row_of (k + 1) px) \<le> e"
      by (auto simp: furthest_def)
    have "start_x v offset d k = Inr px"
      using px(1,2) True idx by (simp add: start_x_def Let_def)
    moreover have "dist m px (row_of k px) \<le> d"
      using dist_Suc(2) [of m px "row_of (k + 1) px"] row Suc by simp
    ultimately show ?thesis
      using px(5) True row far Suc by (auto simp: furthest_def best_start_def)
  next
    case False
    then have far: "furthest m e (k - 1) px"
      using px(3) by simp
    then have row: "row_of k (Suc px) = row_of (k - 1) px" "k - 1 \<le> int px"
      "dist m px (row_of (k - 1) px) \<le> e"
      by (auto simp: furthest_def)
    have "start_x v offset d k = Inr (Suc px)"
      using px(1,2) False idx by (simp add: start_x_def Let_def)
    moreover have "dist m (Suc px) (row_of k (Suc px)) \<le> d"
      using dist_Suc(1) [of m px "row_of (k - 1) px"] row Suc by simp
    moreover have "x \<le> Suc px" if "k + 1 \<le> int x" "dist m x (row_of (k + 1) x) < d" for x
      using px(4) [OF False that] by simp
    ultimately show ?thesis
      using row far Suc by (auto simp: furthest_def less_Suc_eq_le best_start_def)
  qed
qed

section \<open>The search\<close>

lemma snake_Inr:
  "snake cs a b x y w = (Inr (x', y'), w') \<Longrightarrow>
   \<exists>l. x' = x + l \<and> y' = y + l \<and> (\<forall>i<l. line_match a b (x + i) (y + i)) \<and> \<not> line_match a b x' y'"
proof (induction cs a b x y w rule: snake.induct)
  case (1 cs a b x y w)
  show ?case
  proof (cases "line_match a b x y")
    case True
    then obtain w1 where w1: "check cs w = (Inr (), w1)" "snake cs a b (x + 1) (y + 1) w1 = (Inr (x', y'), w')"
      using "1.prems" by (auto simp: snake.simps [of cs a b x y] res_simps)
    obtain l where l: "x' = x + 1 + l" "y' = y + 1 + l" "\<forall>i<l. line_match a b (x + 1 + i) (y + 1 + i)"
        "\<not> line_match a b x' y'"
      using "1.IH" [OF True w1] by blast
    have "line_match a b (x + i) (y + i)" if "i < Suc l" for i
      using that True l(3) by (cases i) auto
    with l show ?thesis
      by (intro exI [of _ "Suc l"]) auto
  next
    case False
    with "1.prems" show ?thesis
      by (auto simp: snake.simps [of cs a b x y])
  qed
qed

lemma match_bounded: "bounded (line_match a b) (length a) (length b)"
  by (simp add: bounded_def line_match_def)

lemma snake_furthest:
  assumes "room_for offset d v" "on_row d k" "row_before (line_match a b) offset d v"
    "start_x v offset d k = Inr x0" "snake cs a b x0 (as_usize (int x0 - k)) w = (Inr (x1, y1), w')"
  shows "furthest (line_match a b) d k x1" "y1 = row_of k x1" "k \<le> int x1"
proof -
  let ?m = "line_match a b"
  have c: "best_start ?m d k x0"
    using start_conditions [OF assms(1-3)] assms(4) by auto
  then have k: "k \<le> int x0" "as_usize (int x0 - k) = row_of k x0"
    by (simp_all add: best_start_def as_usize_def)
  with snake_Inr [OF assms(5)] obtain l where l: "x1 = x0 + l" "y1 = row_of k x0 + l"
      "\<forall>i<l. ?m (x0 + i) (row_of k x0 + i)" "\<not> ?m x1 y1"
    by auto
  from furthest_snake [OF c l(3)] l(4) show "furthest ?m d k x1"
    by (simp add: l(1,2))
  show "y1 = row_of k x1" "k \<le> int x1"
    using k(1) by (simp_all add: l(1,2))
qed

lemma entry_update:
  "room_for offset d v \<Longrightarrow> \<bar>k\<bar> \<le> int d + 1 \<Longrightarrow> \<bar>j\<bar> \<le> int d + 1 \<Longrightarrow>
   entry (v[nat (int offset + k) := x]) offset j = (if j = k then x else entry v offset j)"
  by (auto simp: room_for_def nth_list_update)

lemma row_before_update:
  assumes "room_for offset d v" "on_row d k" "row_before m offset d v"
  shows "row_before m offset d (v[nat (int offset + k) := x])"
proof (cases d)
  case 0
  with assms show ?thesis
    by (auto simp: row_before_def on_row_def nth_list_update)
next
  case (Suc e)
  have "\<bar>j\<bar> \<le> int d + 1 \<and> j \<noteq> k" if "on_row e j" for j
    using that assms(2) unfolding on_row_def Suc by presburger
  moreover have "\<bar>k\<bar> \<le> int d + 1"
    using assms(2) by (simp add: on_row_def)
  ultimately show ?thesis
    using assms(3) Suc entry_update [OF assms(1)] by (simp add: row_before_def)
qed

lemma myers_row_Inr:
  assumes "myers_row cs a b offset d ks v w = (Inr (found, v'), w')" "room_for offset d v"
    "row_before (line_match a b) offset d v" "\<forall>k\<in>set ks. on_row d k" "distinct ks"
  shows "length v' = length v \<and>
    (if found then \<exists>k x. furthest (line_match a b) d k x \<and> length a \<le> x \<and> length b \<le> row_of k x
     else (\<forall>k\<in>set ks. furthest (line_match a b) d k (entry v' offset k) \<and>
        \<not> (length a \<le> entry v' offset k \<and> length b \<le> row_of k (entry v' offset k))) \<and>
       (\<forall>k. k \<notin> set ks \<longrightarrow> \<bar>k\<bar> \<le> int d + 1 \<longrightarrow> entry v' offset k = entry v offset k))"
  using assms
proof (induction ks arbitrary: v w)
  case (Cons k ks)
  let ?v = "\<lambda>x. v[nat (int offset + k) := x]"
  have k: "on_row d k" "\<bar>k\<bar> \<le> int d + 1"
    using Cons.prems(4) by (auto simp: on_row_def)
  note ie = index_entry [OF Cons.prems(2) k(2)]
  have idx: "as_usize (int offset + k) = nat (int offset + k)"
    using Cons.prems(2) k(2) by (auto simp: room_for_def as_usize_def)
  obtain x0 where x0: "start_x v offset d k = Inr x0"
    using start_conditions [OF Cons.prems(2) k(1) Cons.prems(3)] by blast
  have "act_bind (check cs) (\<lambda>_. act_bind (act_lift (Inr x0)) (\<lambda>x.
      act_bind (snake cs a b x (as_usize (int x - k))) (\<lambda>(x, y).
      if x \<ge> length a \<and> y \<ge> length b then act_lift (Inr (True, ?v x))
      else myers_row cs a b offset d ks (?v x)))) w = (Inr (found, v'), w')"
    using Cons.prems(1) x0 idx ie(2) by (simp add: Let_def split del: if_split)
  then obtain w1 p w2 where p: "snake cs a b x0 (as_usize (int x0 - k)) w1 = (Inr p, w2)"
      "(case p of (x, y) \<Rightarrow> if x \<ge> length a \<and> y \<ge> length b then act_lift (Inr (True, ?v x))
      else myers_row cs a b offset d ks (?v x)) w2 = (Inr (found, v'), w')"
    unfolding act_bind_Inr_iff act_lift_iff by auto
  obtain x1 y1 where xy: "p = (x1, y1)"
    by fastforce
  note run = x0 p(1) [unfolded xy] p(2) [unfolded xy prod.case]
  note far = snake_furthest [OF Cons.prems(2) k(1) Cons.prems(3) run(1,2)]
  show ?case
  proof (cases "x1 \<ge> length a \<and> y1 \<ge> length b")
    case True
    with run(3) far show ?thesis
      by (auto simp: act_lift_iff)
  next
    case False
    have v: "room_for offset d (?v x1)" "row_before (line_match a b) offset d (?v x1)"
      using Cons.prems(2) row_before_update [OF Cons.prems(2) k(1) Cons.prems(3)]
      by (simp_all add: room_for_def)
    have "myers_row cs a b offset d ks (?v x1) w2 = (Inr (found, v'), w')"
      using run(3) False by simp
    note ih = Cons.IH [OF this v] 
    have "k \<notin> set ks"
      using Cons.prems(5) by simp
    with ih Cons.prems(4,5) far False k(2) entry_update [OF Cons.prems(2) k(2)] show ?thesis
      by (auto split: if_splits)
  qed
qed (auto simp: act_lift_iff)

lemma diagonals_row: "set (diagonals d) = {k. on_row d k}"
proof -
  have "k \<in> set (diagonals d)" if "on_row d k" for k
  proof -
    from that have "even (k + int d)"
      by (simp add: on_row_def)
    then obtain i where i: "k + int d = 2 * i"
      by (elim evenE)
    with that have "k = 2 * int (nat i) - int d" "nat i < Suc d"
      by (auto simp: on_row_def)
    then show ?thesis
      unfolding diagonals_def list.set_map set_upt by (intro image_eqI [of _ _ "nat i"]) auto
  qed
  moreover have "on_row d k" if "k \<in> set (diagonals d)" for k
    using that by (auto simp: diagonals_def on_row_def)
  ultimately show ?thesis
    by blast
qed

lemma diagonals_distinct: "distinct (diagonals d)"
  by (auto simp: diagonals_def distinct_map inj_on_def)

text \<open>The rows a search keeps.\<close>

definition trace_for :: "(nat \<Rightarrow> nat \<Rightarrow> bool) \<Rightarrow> nat \<Rightarrow> nat list list \<Rightarrow> bool" where
  "trace_for m max_d tr \<longleftrightarrow>
     (\<forall>e<length tr. row_before m (max_d + 1) e (tr ! e) \<and> length (tr ! e) = 2 * max_d + 3)"

lemma trace_for_snoc:
  "trace_for m max_d tr \<Longrightarrow> row_before m (max_d + 1) (length tr) v \<Longrightarrow> length v = 2 * max_d + 3 \<Longrightarrow>
   trace_for m max_d (tr @ [v])"
  by (auto simp: trace_for_def nth_append less_Suc_eq)

text \<open>The first row that reaches the end of both texts is the distance.\<close>

lemma dist_le: "dist m x y \<le> x + y"
  by (simp add: dist_def)

lemma reached_least:
  assumes "bounded m n k" "furthest m d j x" "n \<le> x" "k \<le> row_of j x" "d \<le> dist m n k"
  shows "d = dist m n k"
  using dist_outside [OF assms(1,3,4)] assms(2,5) by (simp add: furthest_def)

lemma end_on_row: "on_row (dist m n k) (int n - int k)"
  using dist_ge [of n k m] dist_ge [of k n m] dist_even [of m n k] by (auto simp: on_row_def)

lemma not_reached:
  assumes "\<forall>j. on_row (dist m n k) j \<longrightarrow> furthest m (dist m n k) j (x j) \<and> \<not> (n \<le> x j \<and> k \<le> row_of j (x j))"
  shows False
proof -
  let ?j = "int n - int k"
  have "on_row (dist m n k) ?j"
    by (rule end_on_row)
  then have "furthest m (dist m n k) ?j (x ?j)" "\<not> (n \<le> x ?j \<and> k \<le> row_of ?j (x ?j))"
    using assms by auto
  moreover have "row_of ?j n = k"
    by simp
  ultimately have "n \<le> x ?j"
    by (auto simp: furthest_def)
  then have "k \<le> row_of ?j (x ?j)"
    by simp
  with \<open>n \<le> x ?j\<close> \<open>\<not> (n \<le> x ?j \<and> k \<le> row_of ?j (x ?j))\<close> show False
    by simp
qed

lemma myers_search_Inr:
  fixes a b
  defines "m \<equiv> line_match a b" and "D \<equiv> dist (line_match a b) (length a) (length b)"
  assumes "myers_search cs a b max_d row_bytes d v tr w = (Inr (fd, tr'), w')"
    "max_d = length a + length b" "length v = 2 * max_d + 3" "row_before m (max_d + 1) d v" "d \<le> D"
    "length tr = d" "trace_for m max_d tr"
  shows "fd = D \<and> length tr' = Suc D \<and> trace_for m max_d tr'"
  using assms(3-)
proof (induction cs a' \<equiv> a b' \<equiv> b max_d row_bytes d v tr w rule: myers_search.induct)
  case (1 cs max_d row_bytes d v tr w)
  have le: "D \<le> max_d"
    using "1.prems"(2) dist_le by (simp add: D_def)
  then obtain w1 w2 found v' w3 where run: "check cs w = (Inr (), w1)"
      "reserve cs (row_bytes + 64) w1 = (Inr (), w2)"
      "myers_row cs a b (max_d + 1) d (diagonals d) v w2 = (Inr (found, v'), w3)"
      "(if found then act_lift (Inr (d, tr @ [v]))
        else myers_search cs a b max_d row_bytes (d + 1) v' (tr @ [v])) w3 = (Inr (fd, tr'), w')"
    using "1.prems"(1,5) unfolding myers_search.simps [of cs a b max_d row_bytes d v tr w]
    by (auto simp: act_bind_Inr_iff split del: if_split)
  have room: "room_for (max_d + 1) d v"
    using "1.prems"(3,5) le by (simp add: room_for_def)
  note row = myers_row_Inr [OF run(3) room "1.prems"(4) [unfolded m_def]]
  note tr = trace_for_snoc [OF "1.prems"(7), unfolded "1.prems"(6), OF "1.prems"(4,3)]
  show ?case
  proof (cases found)
    case True
    then obtain j x where "furthest m d j x" "length a \<le> x" "length b \<le> row_of j x"
      using row diagonals_distinct diagonals_row by (auto simp: m_def)
    then have "d = D"
      using reached_least match_bounded "1.prems"(5) unfolding m_def D_def by blast
    with run(4) True tr "1.prems"(6) show ?thesis
      by (auto simp: act_lift_iff)
  next
    case False
    then have v': "length v' = length v" "\<forall>j. on_row d j \<longrightarrow> furthest m d j (entry v' (max_d + 1) j) \<and>
        \<not> (length a \<le> entry v' (max_d + 1) j \<and> length b \<le> row_of j (entry v' (max_d + 1) j))"
      using row diagonals_distinct diagonals_row by (auto simp: m_def)
    have "d \<noteq> D"
      using not_reached [of "line_match a b" "length a" "length b" "entry v' (max_d + 1)"] v'(2) unfolding m_def D_def by metis
    then have "d + 1 \<le> D"
      using "1.prems"(5) by simp
    moreover have "row_before m (max_d + 1) (d + 1) v'"
      using v'(2) by (simp add: row_before_def)
    moreover have "myers_search cs a b max_d row_bytes (d + 1) v' (tr @ [v]) w3 = (Inr (fd, tr'), w')"
      using run(4) False by simp
    ultimately show ?thesis
      using "1.hyps" [OF _ run(1,2,3) refl False] le "1.prems"(2,3,5,6) v'(1) tr by simp
  qed
qed

section \<open>The way back\<close>

text \<open>A furthest point lies on the run of matches from the best start.\<close>

lemma furthest_run:
  assumes "bounded m n k'" "furthest m d k x" "best_start m d k x0"
  obtains l where "x = x0 + l" "row_of k x = row_of k x0 + l" "\<forall>i<l. m (x0 + i) (row_of k x0 + i)"
proof -
  let ?stop = "\<lambda>l. \<not> m (x0 + l) (row_of k x0 + l)"
  have "?stop n"
    using assms(1) by (auto simp: bounded_def)
  then have stop: "?stop (LEAST l. ?stop l)"
    by (rule LeastI)
  have run: "\<forall>i<LEAST l. ?stop l. m (x0 + i) (row_of k x0 + i)"
    using not_less_Least by blast
  have "x = x0 + (LEAST l. ?stop l)"
    using furthest_unique [OF assms(2) furthest_snake [OF assms(3) run stop]] .
  moreover have "k \<le> int x0"
    using assms(3) by (simp add: best_start_def)
  ultimately show ?thesis
    using that [of "LEAST l. ?stop l"] run row_of_add by simp
qed

definition run_of :: "nat \<Rightarrow> nat \<Rightarrow> nat \<Rightarrow> (nat \<times> nat) list" where
  "run_of x y l = map (\<lambda>i. (x + i, y + i)) [0..<l]"

lemma run_of_Suc: "run_of x y (Suc l) = run_of x y l @ [(x + l, y + l)]"
  by (simp add: run_of_def)

lemma run_of_chain: "chain (run_of x y l)" "within (x + l) (y + l) (run_of x y l)"
  by (induction l) (auto simp: run_of_Suc run_of_def chain_def within_def sorted_wrt_append)

lemma run_of_matching: "\<forall>i<l. m (x + i) (y + i) \<Longrightarrow> matching m (run_of x y l)"
  by (auto simp: matching_def run_of_def)

lemma run_of_after: "within x y ps \<Longrightarrow> chain ps \<Longrightarrow> chain (ps @ run_of x y l)"
  using run_of_chain(1) by (fastforce simp: within_def run_of_def)

lemma slide_run:
  "px \<le> x \<Longrightarrow> py \<le> y \<Longrightarrow> min (x + l - px) (y + l - py) = l \<Longrightarrow>
   slide (x + l) (y + l) px py acc = acc @ rev (run_of x y l)"
proof (induction l arbitrary: acc)
  case 0
  then show ?case
    by (simp add: slide.simps [of x y] run_of_def min_def split: if_splits)
next
  case (Suc l)
  then have "px < x + Suc l" "py < y + Suc l" "min (x + l - px) (y + l - py) = l"
    by linarith+
  with Suc show ?case
    by (simp add: slide.simps [of "Suc (x + l)" "Suc (y + l)"] run_of_Suc)
qed

lemma row_of_start:
  "furthest m e (k + 1) px \<Longrightarrow> row_of k px = Suc (row_of (k + 1) px)"
  "furthest m e (k - 1) px \<Longrightarrow> row_of k (Suc px) = row_of (k - 1) px"
  by (auto simp: furthest_def)

lemma backtrack_Inr:
  fixes a b
  defines "m \<equiv> line_match a b"
  assumes "backtrack cs tr (max_d + 1) d x y acc w = (Inr ps, w')" "trace_for m max_d tr" "d < length tr"
    "length tr \<le> Suc max_d" "on_row d (int x - int y)" "furthest m d (int x - int y) x"
  shows "\<exists>qs. ps = acc @ rev qs \<and> chain qs \<and> matching m qs \<and> within x y qs \<and> 2 * length qs + d = x + y"
  using assms(2-)
proof (induction d arbitrary: x y acc w)
  case 0
  have "x = y"
    using "0.prems"(5) by (simp add: on_row_def)
  moreover have "best_start m 0 0 0"
    by (simp add: best_start_def dist_def)
  moreover have "furthest m 0 0 x"
    using "0.prems"(6) \<open>x = y\<close> by simp
  ultimately have "\<forall>i<x. m i i"
    using furthest_run [OF match_bounded [of a b, folded m_def]] by (metis add_0 diff_zero nat_int)
  then have "matching m (run_of 0 0 x)"
    by (simp add: run_of_matching)
  moreover have "slide x x 0 0 acc = acc @ rev (run_of 0 0 x)"
    using slide_run [of 0 0 0 0 x acc] by simp
  ultimately show ?case
    using "0.prems"(1) \<open>x = y\<close> run_of_chain(1) [of 0 0 x] run_of_chain(2) [of 0 x 0]
    by (intro exI [of _ "run_of 0 0 x"]) (auto simp: res_simps run_of_def)
next
  case (Suc d)
  let ?k = "int x - int y" and ?v = "tr ! Suc d" and ?off = "max_d + 1"
  have tr: "index tr (Suc d) = Inr ?v" "room_for ?off (Suc d) ?v" "row_before m ?off (Suc d) ?v"
    using Suc.prems(2-4) by (auto simp: trace_for_def room_for_def index_def)
  obtain down px where px: "from_above ?v ?off (Suc d) ?k = Inr down"
    "on_row d (if down then ?k + 1 else ?k - 1)"
    "index ?v (as_usize (int ?off + (if down then ?k + 1 else ?k - 1))) = Inr px"
    "furthest m d (if down then ?k + 1 else ?k - 1) px"
    using from_above_neighbour [OF tr(2) Suc.prems(5) tr(3) refl] by metis
  let ?pk = "if down then ?k + 1 else ?k - 1"
  let ?py = "row_of ?pk px"
  have le: "?pk \<le> int px"
    using px(4) by (simp add: furthest_def)
  then have py: "as_usize (int px - ?pk) = ?py" "?pk = int px - int ?py"
    by (simp_all add: as_usize_def)
  obtain w1 where w1: "backtrack cs tr ?off d px ?py (slide x y px ?py acc) w1 = (Inr ps, w')"
    using Suc.prems(1) px(1,3) tr(1) py(1)
    unfolding backtrack.simps act_bind_Inr_iff act_lift_iff by (auto simp: Let_def res_simps)
  obtain x0 where x0: "start_x ?v ?off (Suc d) ?k = Inr x0" "best_start m (Suc d) ?k x0"
    using start_conditions [OF tr(2) Suc.prems(5) tr(3)] by blast
  have idx: "x0 = (if down then px else Suc px)"
    using x0(1) px(1,3) idx_neighbours [OF tr(2), of ?k] Suc.prems(5)
    by (auto simp: start_x_def on_row_def Let_def split: if_splits)
  obtain l where l: "x = x0 + l" "row_of ?k x = row_of ?k x0 + l" "\<forall>i<l. m (x0 + i) (row_of ?k x0 + i)"
    using furthest_run [OF match_bounded [of a b, folded m_def] Suc.prems(6) x0(2)] by blast
  define y0 where "y0 = row_of ?k x0"
  have y: "y = y0 + l" "y0 = (if down then Suc ?py else ?py)"
    using l(2) row_of_start px(4) idx by (auto simp: y0_def split: if_splits)
  have sl: "slide x y px ?py acc = acc @ rev (run_of x0 y0 l)"
    using idx y l(1) slide_run [of px x0 ?py y0 l acc] by (auto split: if_splits)
  obtain qs where qs: "ps = (acc @ rev (run_of x0 y0 l)) @ rev qs" "chain qs" "matching m qs"
      "within px ?py qs" "2 * length qs + d = px + ?py"
    using Suc.IH [OF w1 [unfolded sl] Suc.prems(2)] Suc.prems(3,4) px(2,4) unfolding py(2) [symmetric] by auto
  have "x0 + y0 = Suc (px + ?py)"
    unfolding idx y(2) by simp
  then have sum: "x + y = Suc (px + ?py) + 2 * l"
    unfolding l(1) y(1) by linarith
  have before: "within x0 y0 qs"
    using qs(4) by (rule within_mono) (auto simp: idx y(2))
  have "chain (qs @ run_of x0 y0 l)"
    using before qs(2) by (rule run_of_after)
  moreover have "within x y qs"
    using before by (rule within_mono) (simp_all only: l(1) y(1) le_add1)
  moreover have "within x y (run_of x0 y0 l)"
    unfolding l(1) y(1) by (rule run_of_chain(2))
  moreover have "matching m (run_of x0 y0 l)"
    using run_of_matching [of l m x0 y0] l(3) by (simp add: y0_def)
  moreover have "2 * (length qs + l) + Suc d = x + y"
    using qs(5) sum by simp
  moreover have "length (run_of x0 y0 l) = l"
    by (simp add: run_of_def)
  ultimately show ?case
    using qs(1,3) by (intro exI [of _ "qs @ run_of x0 y0 l"]) simp
qed

text \<open>The pairs are a longest common subsequence.\<close>

definition longest :: "(nat \<Rightarrow> nat \<Rightarrow> bool) \<Rightarrow> nat \<Rightarrow> nat \<Rightarrow> (nat \<times> nat) list \<Rightarrow> bool" where
  "longest m x y ps \<longleftrightarrow>
     chain ps \<and> matching m ps \<and> within x y ps \<and>
     (\<forall>qs. chain qs \<longrightarrow> matching m qs \<longrightarrow> within x y qs \<longrightarrow> length qs \<le> length ps)"

lemma end_furthest:
  assumes "bounded m n k"
  shows "furthest m (dist m n k) (int n - int k) n"
proof -
  have "x \<le> n" if "dist m x (row_of (int n - int k) x) \<le> dist m n k" "int n - int k \<le> int x" for x
  proof (rule ccontr)
    assume "\<not> x \<le> n"
    then show False
      using dist_outside [OF assms, of x "row_of (int n - int k) x"] that by auto
  qed
  then show ?thesis
    by (simp add: furthest_def)
qed

lemma first_row: "row_before m (max_d + 1) 0 (replicate (2 * max_d + 3) 0)"
  by (simp add: row_before_def)

lemma myers_result:
  assumes "myers cs a b w = (Inr ps, w')"
  shows "longest (line_match a b) (length a) (length b) ps \<and> length ps = lcs (line_match a b) (length a) (length b)"
proof -
  let ?m = "line_match a b" and ?n = "length a" and ?k = "length b"
  let ?max_d = "?n + ?k"
  let ?row_bytes = "sat_mul (2 * ?max_d + 3) (cs_usize_size cs)"
  obtain w1 w2 fd tr qs w3 where run:
    "myers_search cs a b ?max_d ?row_bytes 0 (replicate (2 * ?max_d + 3) 0) [] w1 = (Inr (fd, tr), w2)"
    "backtrack cs tr (?max_d + 1) fd ?n ?k [] w2 = (Inr qs, w3)" "ps = rev qs"
    using assms unfolding myers_def Let_def
    by (auto simp: act_bind_Inr_iff act_lift_iff simp del: distrib_left_numeral One_nat_def add_Suc_right)
  have search: "fd = dist ?m ?n ?k" "length tr = Suc fd" "trace_for ?m ?max_d tr"
    using myers_search_Inr [OF run(1) refl _ first_row] by (auto simp: trace_for_def)
  obtain qs' where qs: "qs = [] @ rev qs'" "chain qs'" "matching ?m qs'" "within ?n ?k qs'"
      "2 * length qs' + fd = ?n + ?k"
    using backtrack_Inr [OF run(2) search(3)] search(1,2) end_furthest [OF match_bounded, of a b]
      end_on_row [of ?m ?n ?k] dist_le [of ?m ?n ?k] by auto
  have "length qs' = lcs ?m ?n ?k"
    using qs(5) dist_plus [of ?m ?n ?k] search(1) by simp
  with qs run(3) chain_lcs show ?thesis
    by (auto simp: longest_def)
qed


lemma myers_Inr: "myers cs a b w = (Inr ps, w') \<Longrightarrow> longest (line_match a b) (length a) (length b) ps"
  by (simp add: myers_result)

lemma myers_length: "myers cs a b w = (Inr ps, w') \<Longrightarrow> length ps = lcs (line_match a b) (length a) (length b)"
  by (simp add: myers_result)

end
