(* ===== verification/Myers_Total.thy ===== *)
theory Myers_Total
  imports Myers
begin

text \<open>
  The greedy search always ends with a path unless the meter stops it: it reads no row out of range
  and never runs past its last row.
\<close>

text \<open>What the meter may stop a search for.\<close>

definition stopped :: "setting \<Rightarrow> completeness \<Rightarrow> bool" where
  "stopped cs e \<longleftrightarrow>
     e = Cancelled \<and> (\<exists>n. cs_cancelled cs n) \<or>
     e = Coarse TimeLimit \<and> (\<exists>n. rl_time_budget_ms (limits cs) \<le> cs_elapsed cs n) \<or>
     e = Coarse MemoryLimit \<and> rl_max_memory_bytes (limits cs) < usize_max"

definition unlimited :: "setting \<Rightarrow> bool" where
  "unlimited cs \<longleftrightarrow> (\<forall>e. \<not> stopped cs e)"

lemma check_Inl: "check cs w = (Inl e, w') \<Longrightarrow> stopped cs e"
  by (auto simp: check_def stopped_def split: if_splits)

lemma reserve_Inl: "reserve cs n w = (Inl e, w') \<Longrightarrow> stopped cs e"
  by (auto simp: reserve_def stopped_def sat_add_def Let_def split: if_splits)

lemma snake_Inl: "snake cs a b x y w = (Inl e, w') \<Longrightarrow> stopped cs e"
proof (induction cs a b x y w rule: snake.induct)
  case (1 cs a b x y w)
  then show ?case
    by (auto simp: snake.simps [of cs a b x y] act_bind_Inl_iff check_Inl split: if_splits)
qed

lemma myers_row_Inl:
  assumes "myers_row cs a b offset d ks v w = (Inl e, w')" "room_for offset d v"
    "row_before (line_match a b) offset d v" "\<forall>k\<in>set ks. on_row d k"
  shows "stopped cs e"
  using assms
proof (induction ks arbitrary: v w)
  case (Cons k ks)
  let ?v = "\<lambda>x. v[nat (int offset + k) := x]"
  have k: "on_row d k" "\<bar>k\<bar> \<le> int d + 1"
    using Cons.prems(4) by (auto simp: on_row_def)
  note ie = index_entry [OF Cons.prems(2) k(2)]
  have idx: "as_usize (int offset + k) = nat (int offset + k)"
    using Cons.prems(2) k(2) by (auto simp: room_for_def as_usize_def)
  obtain x0 where x0: "start_x v offset d k = Inr x0"
    using start_conditions [OF Cons.prems(2) k(1) Cons.prems(3)] by blast
  have v: "room_for offset d (?v x)" "row_before (line_match a b) offset d (?v x)" for x
    using Cons.prems(2) row_before_update [OF Cons.prems(2) k(1) Cons.prems(3)]
    by (simp_all add: room_for_def)
  have "act_bind (check cs) (\<lambda>_. act_bind (act_lift (Inr x0)) (\<lambda>x.
      act_bind (snake cs a b x (as_usize (int x - k))) (\<lambda>(x, y).
      if x \<ge> length a \<and> y \<ge> length b then act_lift (Inr (True, ?v x))
      else myers_row cs a b offset d ks (?v x)))) w = (Inl e, w')"
    using Cons.prems(1) x0 idx ie(2) by (simp add: Let_def split del: if_split)
  then consider (stop) w1 w2 x y where "check cs w1 = (Inl e, w2) \<or> snake cs a b x y w1 = (Inl e, w2)"
    | (rest) x w1 where "myers_row cs a b offset d ks (?v x) w1 = (Inl e, w')"
    unfolding act_bind_Inl_iff act_lift_iff by (auto split: if_splits simp: act_lift_iff)
  then show ?case
  proof cases
    case stop
    then show ?thesis
      using check_Inl snake_Inl by blast
  next
    case rest
    then show ?thesis
      using Cons.IH v Cons.prems(4) by simp
  qed
qed (simp add: act_lift_iff)

lemma myers_search_Inl:
  fixes a b
  defines "m \<equiv> line_match a b"
  assumes "myers_search cs a b max_d row_bytes d v tr w = (Inl e, w')"
    "length v = 2 * max_d + 3" "row_before m (max_d + 1) d v"
  shows "stopped cs e"
  using assms(2-)
proof (induction cs a' \<equiv> a b' \<equiv> b max_d row_bytes d v tr w rule: myers_search.induct)
  case (1 cs max_d row_bytes d v tr w)
  have le: "d \<le> max_d"
    using "1.prems"(1) by (auto simp: myers_search.simps [of cs a b max_d row_bytes d v tr w] split: if_splits)
  then have room: "room_for (max_d + 1) d v"
    using "1.prems"(2) by (simp add: room_for_def)
  have rows: "\<forall>k\<in>set (diagonals d). on_row d k"
    by (simp add: diagonals_row)
  consider (stop) w1 w2 n where "check cs w1 = (Inl e, w2) \<or> reserve cs n w1 = (Inl e, w2) \<or>
      myers_row cs a b (max_d + 1) d (diagonals d) v w1 = (Inl e, w2)"
    | (rest) w1 w2 v' w3 where "check cs w = (Inr (), w1)" "reserve cs (row_bytes + 64) w1 = (Inr (), w2)"
      "myers_row cs a b (max_d + 1) d (diagonals d) v w2 = (Inr (False, v'), w3)"
      "myers_search cs a b max_d row_bytes (d + 1) v' (tr @ [v]) w3 = (Inl e, w')"
    using "1.prems"(1) le unfolding myers_search.simps [of cs a b max_d row_bytes d v tr w]
    by (auto simp: act_bind_Inl_iff act_lift_iff split: if_splits)
  then show ?case
  proof cases
    case stop
    then show ?thesis
      using check_Inl reserve_Inl myers_row_Inl [OF _ room "1.prems"(3) [unfolded m_def] rows] by blast
  next
    case rest
    have "length v' = length v" "row_before m (max_d + 1) (d + 1) v'"
      using myers_row_Inr [OF rest(3) room "1.prems"(3) [unfolded m_def] rows diagonals_distinct]
      by (auto simp: m_def row_before_def diagonals_row)
    then show ?thesis
      using "1.hyps" [OF _ rest(1-3) refl _ rest(4)] le "1.prems"(2) by simp
  qed
qed

lemma backtrack_Inl:
  fixes a b
  defines "m \<equiv> line_match a b"
  assumes "backtrack cs tr (max_d + 1) d x y acc w = (Inl e, w')" "trace_for m max_d tr" "d < length tr"
    "length tr \<le> Suc max_d" "on_row d (int x - int y)"
  shows "stopped cs e"
  using assms(2-)
proof (induction d arbitrary: x y acc w)
  case 0
  then show ?case
    by (auto simp: act_bind_Inl_iff act_lift_iff check_Inl)
next
  case (Suc d)
  let ?k = "int x - int y" and ?v = "tr ! Suc d" and ?off = "max_d + 1"
  have tr: "index tr (Suc d) = Inr ?v" "room_for ?off (Suc d) ?v" "row_before m ?off (Suc d) ?v"
    using Suc.prems(2-4) by (auto simp: trace_for_def room_for_def index_def)
  obtain down px where px: "from_above ?v ?off (Suc d) ?k = Inr down"
    "on_row d (if down then ?k + 1 else ?k - 1)"
    "index ?v (as_usize (int ?off + (if down then ?k + 1 else ?k - 1))) = Inr px"
    "furthest m d (if down then ?k + 1 else ?k - 1) px"
    using from_above_neighbour [OF tr(2) Suc.prems(5) tr(3) refl] by metis
  define pk where "pk = (if down then ?k + 1 else ?k - 1)"
  have py: "as_usize (int px - pk) = row_of pk px" "int px - int (row_of pk px) = pk"
    using px(4) by (auto simp: furthest_def as_usize_def pk_def)
  consider w1 where "check cs w = (Inl e, w1)"
    | w1 acc' where "backtrack cs tr ?off d px (row_of pk px) acc' w1 = (Inl e, w')"
    using Suc.prems(1) px(1,3) tr(1) py(1)
    unfolding backtrack.simps act_bind_Inl_iff act_lift_iff pk_def by (auto simp: Let_def res_simps)
  then show ?case
  proof cases
    case 2
    then show ?thesis
      using Suc.IH [OF 2 Suc.prems(2)] Suc.prems(3,4) px(2) py(2) by (simp add: pk_def)
  qed (rule check_Inl)
qed

lemma myers_Inl:
  assumes "myers cs a b w = (Inl e, w')"
  shows "stopped cs e"
proof -
  let ?m = "line_match a b" and ?n = "length a" and ?k = "length b"
  let ?max_d = "?n + ?k"
  let ?row_bytes = "sat_mul (2 * ?max_d + 3) (cs_usize_size cs)"
  let ?search = "myers_search cs a b ?max_d ?row_bytes 0 (replicate (2 * ?max_d + 3) 0) []"
  have start: "length (replicate (2 * ?max_d + 3) (0::nat)) = 2 * ?max_d + 3"
    by simp
  consider (stop) w1 w2 n where "reserve cs n w1 = (Inl e, w2) \<or> ?search w1 = (Inl e, w2)"
    | (way) w1 w2 w3 fd tr where "?search w1 = (Inr (fd, tr), w2)"
        "backtrack cs tr (?max_d + 1) fd ?n ?k [] w2 = (Inl e, w3)"
    using assms unfolding myers_def Let_def
    by (auto simp: act_bind_Inl_iff act_lift_iff simp del: distrib_left_numeral One_nat_def add_Suc_right)
  then show ?thesis
  proof cases
    case stop
    then show ?thesis
      using reserve_Inl myers_search_Inl [OF _ start first_row] by blast
  next
    case way
    have "fd = dist ?m ?n ?k" "length tr = Suc fd" "trace_for ?m ?max_d tr"
      using myers_search_Inr [OF way(1) refl _ first_row] by (auto simp: trace_for_def)
    then show ?thesis
      using backtrack_Inl [OF way(2)] end_on_row [of ?m ?n ?k] dist_le [of ?m ?n ?k] by simp
  qed
qed

lemma unlimited_run: "unlimited cs \<Longrightarrow> \<exists>ps w'. myers cs a b w = (Inr ps, w')"
  by (cases "myers cs a b w"; cases "fst (myers cs a b w)") (auto simp: unlimited_def dest: myers_Inl)

end
