(* ===== verification/Anchors.thy ===== *)
theory Anchors
  imports Myers_Total
begin

text \<open>
  The anchored alignment pairs equal lines in order: its anchors are lines that occur once on each
  side, its gaps are filled by their common edges and the greedy search, and only a limit or a
  cancellation ends it early.
\<close>

section \<open>Lines that occur once\<close>

definition positions :: "(byte list \<Rightarrow> 64 word) \<Rightarrow> diff_line list \<Rightarrow> 64 word \<times> byte list \<Rightarrow> nat list" where
  "positions hash_line ls k = filter (\<lambda>i. line_key hash_line (ls ! i) = k) [0..<length ls]"

fun first_count :: "nat list \<Rightarrow> (nat \<times> nat) option" where
  "first_count [] = None"
| "first_count (i # is) = Some (i, Suc (length is))"

lemma first_count_snoc:
  "first_count (is @ [i]) = Some (case first_count is of Some (j, n) \<Rightarrow> (j, n + 1) | None \<Rightarrow> (i, 1))"
  by (cases "is") simp_all

lemma first_count_one: "first_count is = Some (j, Suc 0) \<longleftrightarrow> is = [j]"
  by (cases "is") auto

definition indexes :: "(byte list \<Rightarrow> 64 word) \<Rightarrow> diff_line list \<Rightarrow> line_index \<Rightarrow> bool" where
  "indexes hash_line ls m \<longleftrightarrow> (\<forall>k. m k = first_count (positions hash_line ls k))"

lemma positions_snoc:
  "positions hash_line (ls @ [l]) k =
     positions hash_line ls k @ (if line_key hash_line l = k then [length ls] else [])"
proof -
  have "filter (\<lambda>i. line_key hash_line ((ls @ [l]) ! i) = k) [0..<length ls] = positions hash_line ls k"
    unfolding positions_def by (rule filter_cong) (auto simp: nth_append)
  then show ?thesis
    by (simp add: positions_def)
qed

lemma indexes_at: "indexes hash_line ls m \<Longrightarrow> m k = first_count (positions hash_line ls k)"
  by (cases k) (simp add: indexes_def)

lemma indexes_snoc:
  assumes "indexes hash_line ls m"
  shows "indexes hash_line (ls @ [l]) (m(line_key hash_line l \<mapsto>
    (case m (line_key hash_line l) of Some (j, n) \<Rightarrow> (j, n + 1) | None \<Rightarrow> (length ls, 1))))"
  using assms by (auto simp: indexes_def positions_snoc first_count_snoc simp del: split_paired_All)

lemma tally_Inr:
  "tally cs hash_line (length pre) ls m w = (Inr m', w') \<Longrightarrow> indexes hash_line pre m \<Longrightarrow>
   indexes hash_line (pre @ ls) m'"
proof (induction ls arbitrary: pre m w)
  case (Cons l ls)
  then show ?case
    using Cons.IH [of "pre @ [l]", OF _ indexes_snoc [OF Cons.prems(2), of l]]
    by (auto simp: res_simps Let_def simp del: fun_upd_apply)
qed (simp add: res_simps)

lemma tally_Inl: "tally cs hash_line i ls m w = (Inl e, w') \<Longrightarrow> stopped cs e"
  by (induction ls arbitrary: i m w) (auto simp: res_simps Let_def check_Inl)

text \<open>A pair of equal lines that occur nowhere else.\<close>

definition unique_pair :: "(byte list \<Rightarrow> 64 word) \<Rightarrow> diff_line list \<Rightarrow> diff_line list \<Rightarrow> nat \<times> nat \<Rightarrow> bool" where
  "unique_pair hash_line a b = (\<lambda>(i, j).
     line_match a b i j \<and>
     positions hash_line a (line_key hash_line (a ! i)) = [i] \<and>
     positions hash_line b (line_key hash_line (b ! j)) = [j])"

lemma positions_in: "i \<in> set (positions hash_line ls k) \<longleftrightarrow> i < length ls \<and> line_key hash_line (ls ! i) = k"
  by (auto simp: positions_def)

lemma indexes_one: "indexes hash_line ls m \<Longrightarrow> m k = Some (j, 1) \<Longrightarrow> positions hash_line ls k = [j]"
  by (simp add: indexes_at first_count_one)

lemma unique_pair_found:
  assumes "indexes hash_line a left" "indexes hash_line b right" "i < length a"
    "left (line_key hash_line (a ! i)) = Some (i0, 1)" "right (line_key hash_line (a ! i)) = Some (j, 1)"
  shows "unique_pair hash_line a b (i, j)"
proof -
  let ?k = "line_key hash_line (a ! i)"
  have a: "positions hash_line a ?k = [i0]" and b: "positions hash_line b ?k = [j]"
    using indexes_one assms by blast+
  have "i \<in> set (positions hash_line a ?k)"
    using assms(3) by (simp add: positions_in)
  then have "i = i0"
    using a by simp
  have "j < length b" "line_key hash_line (b ! j) = ?k"
    using b positions_in [of j hash_line b ?k] by simp_all
  with a b \<open>i = i0\<close> assms(3) show ?thesis
    by (simp add: unique_pair_def line_match_def line_key_def)
qed

definition ordered_candidates ::
  "(byte list \<Rightarrow> 64 word) \<Rightarrow> diff_line list \<Rightarrow> diff_line list \<Rightarrow> nat \<Rightarrow> (nat \<times> nat) list \<Rightarrow> bool" where
  "ordered_candidates hash_line a b n cands \<longleftrightarrow>
     sorted_wrt (\<lambda>p q. fst p < fst q) cands \<and> list_all (unique_pair hash_line a b) cands \<and>
     list_all (\<lambda>p. fst p < n) cands"

lemma ordered_candidates_Suc: "ordered_candidates hl a b n cands \<Longrightarrow> ordered_candidates hl a b (Suc n) cands"
  by (auto simp: ordered_candidates_def list_all_iff)

lemma ordered_candidates_snoc:
  "ordered_candidates hl a b n cands \<Longrightarrow> unique_pair hl a b (n, j) \<Longrightarrow>
   ordered_candidates hl a b (Suc n) (cands @ [(n, j)])"
  by (auto simp: ordered_candidates_def sorted_wrt_append list_all_iff)

lemma candidates_Inr:
  assumes "candidates cs hash_line left right (length pre) ls acc w = (Inr cands, w')" "a = pre @ ls"
    "indexes hash_line a left" "indexes hash_line b right" "ordered_candidates hash_line a b (length pre) acc"
  shows "ordered_candidates hash_line a b (length a) cands"
  using assms
proof (induction ls arbitrary: pre acc w)
  case (Cons l ls)
  let ?key = "line_key hash_line l"
  have l: "length pre < length a" "a ! length pre = l"
    using Cons.prems(2) by simp_all
  let ?acc = "\<lambda>n. case right ?key of
      Some (j, k) \<Rightarrow> if n = 1 \<and> k = 1 then acc @ [(length pre, j)] else acc | None \<Rightarrow> acc"
  obtain w1 i0 n where n: "left ?key = Some (i0, n)"
      "candidates cs hash_line left right (length (pre @ [l])) ls (?acc n) w1 = (Inr cands, w')"
    using Cons.prems(1) by (auto simp: res_simps Let_def split: option.splits prod.splits)
  have "ordered_candidates hash_line a b (length (pre @ [l])) (?acc n)"
    using ordered_candidates_Suc [OF Cons.prems(5)] ordered_candidates_snoc [OF Cons.prems(5)]
      unique_pair_found [OF Cons.prems(3,4) l(1)] n(1) l(2) by (auto split: option.splits)
  with Cons.IH [OF n(2) _ Cons.prems(3,4)] Cons.prems(2) show ?case
    by simp
qed (simp add: res_simps)

lemma candidates_Inl:
  "candidates cs hash_line left right i ls acc w = (Inl e, w') \<Longrightarrow>
   \<forall>l\<in>set ls. left (line_key hash_line l) \<noteq> None \<Longrightarrow> stopped cs e"
  by (induction ls arbitrary: i acc w)
    (auto simp: res_simps Let_def check_Inl split: option.splits prod.splits)

lemma indexes_found: "indexes hash_line ls m \<Longrightarrow> l \<in> set ls \<Longrightarrow> m (line_key hash_line l) \<noteq> None"
proof -
  assume "indexes hash_line ls m" "l \<in> set ls"
  moreover from this obtain i where "i < length ls" "ls ! i = l"
    by (auto simp: in_set_conv_nth)
  then have "positions hash_line ls (line_key hash_line l) \<noteq> []"
    using positions_in [of i hash_line ls "line_key hash_line l"] by fastforce
  ultimately show ?thesis
    by (cases "positions hash_line ls (line_key hash_line l)") (simp_all add: indexes_at)
qed

section \<open>Patience\<close>

text \<open>Every link leads to an earlier candidate that is also earlier on the other side.\<close>

definition links_ok :: "(nat \<times> nat) list \<Rightarrow> nat option list \<Rightarrow> bool" where
  "links_ok cands prev \<longleftrightarrow>
     length prev = length cands \<and>
     (\<forall>t<length cands. \<forall>p. prev ! t = Some p \<longrightarrow> p < t \<and> snd (cands ! p) < snd (cands ! t))"

definition tails_ok :: "(nat \<times> nat) list \<Rightarrow> nat \<Rightarrow> nat list \<Rightarrow> bool" where
  "tails_ok cands idx tails \<longleftrightarrow>
     (\<forall>t\<in>set tails. t < idx) \<and> sorted_wrt (\<lambda>s t. snd (cands ! s) < snd (cands ! t)) tails"

lemma tails_ok_update:
  assumes "tails_ok cands idx tails" "p = partition_point (\<lambda>t. snd (cands ! t) < snd (cands ! idx)) tails"
  shows "tails_ok cands (Suc idx) (if p = length tails then tails @ [idx] else tails[p := idx])"
    "p > 0 \<Longrightarrow> tails ! (p - 1) < idx \<and> snd (cands ! (tails ! (p - 1))) < snd (cands ! idx)"
proof -
  let ?P = "\<lambda>t. snd (cands ! t) < snd (cands ! idx)"
  have p: "p = length (takeWhile ?P tails)"
    using assms(2) by (simp add: partition_point_def)
  have before: "snd (cands ! (tails ! q)) < snd (cands ! idx)" "q < length tails" if "q < p" for q
    using that nth_mem [of q "takeWhile ?P tails"] takeWhile_nth [of q ?P tails]
      length_takeWhile_le [of ?P tails] unfolding p by (auto dest: set_takeWhileD)
  show "p > 0 \<Longrightarrow> tails ! (p - 1) < idx \<and> snd (cands ! (tails ! (p - 1))) < snd (cands ! idx)"
    using before [of "p - 1"] assms(1) by (auto simp: tails_ok_def)
  show "tails_ok cands (Suc idx) (if p = length tails then tails @ [idx] else tails[p := idx])"
  proof (cases "p = length tails")
    case True
    then have "\<forall>t\<in>set tails. snd (cands ! t) < snd (cands ! idx)"
      using before by (metis in_set_conv_nth)
    with True assms(1) show ?thesis
      by (auto simp: tails_ok_def sorted_wrt_append less_Suc_eq)
  next
    case False
    then have lt: "p < length tails"
      using p length_takeWhile_le [of ?P tails] by simp
    then have after: "\<not> ?P (tails ! p)"
      unfolding p by (metis nth_length_takeWhile)
    have "snd (cands ! (tails[p := idx] ! s)) < snd (cands ! (tails[p := idx] ! t))"
      if "s < t" "t < length tails" for s t
    proof -
      have "snd (cands ! (tails ! s)) < snd (cands ! (tails ! t))"
        using that assms(1) by (auto simp: tails_ok_def sorted_wrt_iff_nth_less)
      moreover have "snd (cands ! (tails ! p)) < snd (cands ! (tails ! t))" if "p < t"
        using that \<open>t < length tails\<close> assms(1) by (auto simp: tails_ok_def sorted_wrt_iff_nth_less)
      ultimately show ?thesis
        using that before(1) [of s] after by (cases "s = p"; cases "t = p") auto
    qed
    with False assms(1) show ?thesis
      using set_update_subset_insert [of tails p idx]
      by (fastforce simp: tails_ok_def sorted_wrt_iff_nth_less less_Suc_eq)
  qed
qed

lemma Cons_eq_drop: "x # xs = drop i ys \<Longrightarrow> i < length ys \<and> ys ! i = x \<and> xs = drop (Suc i) ys"
proof -
  assume eq: "x # xs = drop i ys"
  then have "i < length ys"
    by (metis drop_all leI list.distinct(1))
  with Cons_nth_drop_Suc [OF this] eq show ?thesis
    by (metis list.inject)
qed

lemma patience_Inr:
  assumes "patience cs cands idx js tails prev w = (Inr (tails', prev'), w')"
    "js = drop idx cands" "tails_ok cands idx tails" "links_ok cands prev" "idx \<le> length cands"
  shows "tails_ok cands (length cands) tails' \<and> links_ok cands prev'"
  using assms
proof (induction cs cands idx js tails prev arbitrary: w rule: patience.induct)
  case (1 cs cands idx tails prev)
  then show ?case
    by (auto simp: res_simps tails_ok_def)
next
  case (2 cs cands idx i j js tails prev)
  let ?p = "partition_point (\<lambda>t. snd (cands ! t) < j) tails"
  let ?prev = "if ?p > 0 then prev[idx := Some (tails ! (?p - 1))] else prev"
  have idx: "idx < length cands" "cands ! idx = (i, j)" "js = drop (Suc idx) cands"
    using Cons_eq_drop [OF "2.prems"(2)] by simp_all
  note upd = tails_ok_update [OF "2.prems"(3), of ?p]
  have "links_ok cands ?prev"
    using "2.prems"(4) upd(2) idx by (auto simp: links_ok_def nth_list_update)
  moreover obtain w1 where "patience cs cands (idx + 1) js
      (if ?p = length tails then tails @ [idx] else tails[?p := idx]) ?prev w1 = (Inr (tails', prev'), w')"
    using "2.prems"(1) by (auto simp: res_simps Let_def split del: if_split)
  ultimately show ?case
    using "2.IH" idx upd(1) by simp
qed

lemma patience_Inl: "patience cs cands idx js tails prev w = (Inl e, w') \<Longrightarrow> stopped cs e"
  by (induction cs cands idx js tails prev arbitrary: w rule: patience.induct)
    (auto simp: res_simps Let_def check_Inl)

text \<open>The candidates on the way back increase on both sides.\<close>

lemma walk_chain:
  assumes "links_ok cands prev" "sorted_wrt (\<lambda>p q. fst p < fst q) cands" "idx < fuel" "fuel \<le> length cands"
  shows "\<exists>ps. walk fuel cands prev (Some idx) = Inr (cands ! idx # ps) \<and> chain (rev (cands ! idx # ps)) \<and>
    set ps \<subseteq> set cands"
  using assms(3,4)
proof (induction fuel arbitrary: idx)
  case (Suc fuel)
  have idx: "index cands idx = Inr (cands ! idx)" "index prev idx = Inr (prev ! idx)"
    using Suc.prems assms(1) by (auto simp: index_def links_ok_def)
  show ?case
  proof (cases "prev ! idx")
    case None
    with idx show ?thesis
      by (intro exI [of _ "[]"]) simp
  next
    case (Some p)
    then have p: "p < idx" "snd (cands ! p) < snd (cands ! idx)"
      using assms(1) Suc.prems by (auto simp: links_ok_def)
    then have "p < fuel" "fuel \<le> length cands"
      using Suc.prems by simp_all
    then obtain ps where ps: "walk fuel cands prev (Some p) = Inr (cands ! p # ps)"
        "chain (rev (cands ! p # ps))" "set ps \<subseteq> set cands"
      using Suc.IH by blast
    have "fst (cands ! p) < fst (cands ! idx)"
      using assms(2) p(1) Suc.prems by (auto simp: sorted_wrt_iff_nth_less)
    moreover have "fst q \<le> fst (cands ! p) \<and> snd q \<le> snd (cands ! p)" if "q \<in> set (cands ! p # ps)" for q
      using that ps(2) by fastforce
    ultimately have "fst q < fst (cands ! idx) \<and> snd q < snd (cands ! idx)" if "q \<in> set (cands ! p # ps)" for q
      using that p(2) by (meson le_less_trans)
    then have "chain (rev (cands ! p # ps) @ [cands ! idx])"
      using ps(2) by (simp del: rev.simps)
    moreover have "cands ! p \<in> set cands"
      using \<open>p < fuel\<close> Suc.prems by simp
    ultimately show ?thesis
      using ps(1,3) idx Some by (intro exI [of _ "cands ! p # ps"]) simp
  qed
qed simp

text \<open>The length of the chain that ends at each candidate.\<close>

definition ranks_ok :: "nat option list \<Rightarrow> nat \<Rightarrow> nat list \<Rightarrow> (nat \<Rightarrow> nat) \<Rightarrow> bool" where
  "ranks_ok prev idx tails r \<longleftrightarrow>
     (\<forall>t<idx. r t = (case prev ! t of None \<Rightarrow> 1 | Some p \<Rightarrow> Suc (r p))) \<and>
     (\<forall>t<length prev. idx \<le> t \<longrightarrow> prev ! t = None) \<and>
     (\<forall>q<length tails. r (tails ! q) = Suc q)"

text \<open>A chain of candidates by their numbers.\<close>

definition number_chain :: "(nat \<times> nat) list \<Rightarrow> nat list \<Rightarrow> bool" where
  "number_chain cands ts \<longleftrightarrow> sorted_wrt (\<lambda>s t. s < t \<and> snd (cands ! s) < snd (cands ! t)) ts"

text \<open>Each tail ends its chains lowest.\<close>

definition tails_least :: "(nat \<times> nat) list \<Rightarrow> nat \<Rightarrow> nat list \<Rightarrow> bool" where
  "tails_least cands idx tails \<longleftrightarrow>
     (\<forall>ts t. number_chain cands (ts @ [t]) \<longrightarrow> t < idx \<longrightarrow>
        length ts < length tails \<and> snd (cands ! (tails ! length ts)) \<le> snd (cands ! t))"

lemma tails_least_update:
  assumes "tails_least cands idx tails" "tails_ok cands idx tails"
    "p = partition_point (\<lambda>t. snd (cands ! t) < snd (cands ! idx)) tails"
  shows "tails_least cands (Suc idx) (if p = length tails then tails @ [idx] else tails[p := idx])"
    (is "tails_least cands (Suc idx) ?tails")
  unfolding tails_least_def
proof (intro allI impI)
  fix ts t
  assume chain: "number_chain cands (ts @ [t])" and t: "t < Suc idx"
  let ?P = "\<lambda>t. snd (cands ! t) < snd (cands ! idx)"
  have p: "p = length (takeWhile ?P tails)"
    using assms(3) by (simp add: partition_point_def)
  then have le: "p \<le> length tails"
    by (simp add: length_takeWhile_le)
  define ys where "ys = ?tails"
  have size: "q < length ys \<longleftrightarrow> q < length tails \<or> q = p" for q
    using le by (auto simp: ys_def)
  have tail: "ys ! q = (if q = p then idx else tails ! q)" if "q < length ys" for q
    using that le by (auto simp: ys_def nth_append nth_list_update)
  have low: "?P (tails ! q)" if "q < p" for q
    using that takeWhile_nth [of q ?P tails] nth_mem [of q "takeWhile ?P tails"]
    unfolding p by (auto dest: set_takeWhileD)
  have "length ts < length ys \<and> snd (cands ! (ys ! length ts)) \<le> snd (cands ! t)"
  proof (cases "t < idx")
    case True
    then have old: "length ts < length tails" "snd (cands ! (tails ! length ts)) \<le> snd (cands ! t)"
      using assms(1) chain by (auto simp: tails_least_def)
    have "\<not> ?P (tails ! p)" if "p < length tails"
      using that unfolding p by (metis nth_length_takeWhile)
    with old show ?thesis
      by (cases "length ts = p") (auto simp: size tail)
  next
    case False
    then have "t = idx"
      using t by simp
    have reach: "length ts \<le> p"
    proof (cases ts rule: rev_cases)
      case (snoc us u)
      then have "number_chain cands (us @ [u])" "u < idx" "?P u"
        using chain \<open>t = idx\<close> by (auto simp: number_chain_def sorted_wrt_append)
      then have "length us < length tails" "?P (tails ! length us)"
        using assms(1) by (auto simp: tails_least_def intro: le_less_trans)
      moreover have "\<not> ?P (tails ! q)" if "p \<le> q" "q < length tails" for q
      proof -
        have "\<not> ?P (tails ! p)"
          using nth_length_takeWhile [of ?P tails] that unfolding p by linarith
        moreover have "snd (cands ! (tails ! p)) \<le> snd (cands ! (tails ! q))"
          using that assms(2) by (cases "p = q") (auto simp: tails_ok_def sorted_wrt_iff_nth_less less_imp_le)
        ultimately show ?thesis
          by simp
      qed
      ultimately have "length us < p"
        by (metis not_le)
      then show ?thesis
        using snoc by simp
    qed simp
    then show ?thesis
      using low [of "length ts"] le \<open>t = idx\<close> by (cases "length ts = p") (simp_all add: size tail less_imp_le)
  qed
  then show "length ts < length ?tails \<and> snd (cands ! (?tails ! length ts)) \<le> snd (cands ! t)"
    by (simp only: ys_def)
qed

lemma ranks_ok_update:
  assumes "ranks_ok prev idx tails r" "tails_ok cands idx tails" "links_ok cands prev" "idx < length cands"
    "p \<le> length tails"
  shows "ranks_ok (if p > 0 then prev[idx := Some (tails ! (p - 1))] else prev) (Suc idx)
    (if p = length tails then tails @ [idx] else tails[p := idx]) (r(idx := Suc p))"
    (is "ranks_ok ?prev _ ?tails ?r")
proof -
  have tail: "tails ! q < idx" "r (tails ! q) = Suc q" if "q < length tails" for q
    using that assms(1,2) by (auto simp: ranks_ok_def tails_ok_def)
  have len: "length prev = length cands"
    using assms(3) by (simp add: links_ok_def)
  have old: "?r t = (case ?prev ! t of None \<Rightarrow> 1 | Some q \<Rightarrow> Suc (?r q))" if t: "t < idx" for t
  proof -
    have "t < length cands"
      using t assms(4) by simp
    then have "q < idx" if "prev ! t = Some q" for q
      using that t assms(3) by (auto simp: links_ok_def)
    moreover have "?prev ! t = prev ! t"
      using t by simp
    ultimately show ?thesis
      using t assms(1) by (auto simp: ranks_ok_def split: option.splits)
  qed
  have "?r idx = (case ?prev ! idx of None \<Rightarrow> 1 | Some q \<Rightarrow> Suc (?r q))"
  proof (cases p)
    case 0
    then show ?thesis
      using assms(1,4) len by (simp add: ranks_ok_def)
  next
    case (Suc q)
    then have "q < length tails"
      using assms(5) by simp
    with tail [of q] Suc assms(4) len show ?thesis
      by simp
  qed
  with old have "\<forall>t<Suc idx. ?r t = (case ?prev ! t of None \<Rightarrow> 1 | Some q \<Rightarrow> Suc (?r q))"
    by (auto simp: less_Suc_eq)
  moreover have "\<forall>t<length ?prev. Suc idx \<le> t \<longrightarrow> ?prev ! t = None"
    using assms(1) by (auto simp: ranks_ok_def)
  moreover have "?r (?tails ! q) = Suc q" if "q < length ?tails" for q
    using that tail [of q] assms(5) by (auto simp: nth_append nth_list_update less_Suc_eq)
  ultimately show ?thesis
    by (auto simp: ranks_ok_def)
qed

lemma patience_longest:
  assumes "patience cs cands idx js tails prev w = (Inr (tails', prev'), w')"
    "js = drop idx cands" "tails_ok cands idx tails" "links_ok cands prev" "idx \<le> length cands"
    "ranks_ok prev idx tails r" "tails_least cands idx tails"
  shows "(\<exists>r. ranks_ok prev' (length cands) tails' r) \<and> tails_least cands (length cands) tails'"
  using assms
proof (induction cs cands idx js tails prev arbitrary: w r rule: patience.induct)
  case (1 cs cands idx tails prev)
  then show ?case
    by (auto simp: res_simps)
next
  case (2 cs cands idx i j js tails prev)
  let ?p = "partition_point (\<lambda>t. snd (cands ! t) < j) tails"
  let ?tails = "if ?p = length tails then tails @ [idx] else tails[?p := idx]"
  let ?prev = "if ?p > 0 then prev[idx := Some (tails ! (?p - 1))] else prev"
  have idx: "idx < length cands" "cands ! idx = (i, j)" "js = drop (Suc idx) cands"
    using Cons_eq_drop [OF "2.prems"(2)] by simp_all
  note upd = tails_ok_update [OF "2.prems"(3), of ?p]
  have links: "links_ok cands ?prev"
    using "2.prems"(4) upd(2) idx by (auto simp: links_ok_def nth_list_update)
  have "ranks_ok ?prev (Suc idx) ?tails (r(idx := Suc ?p))"
    using ranks_ok_update [OF "2.prems"(6,3,4) idx(1), of ?p] upd(2) idx(2)
      length_takeWhile_le [of "\<lambda>t. snd (cands ! t) < j" tails] by (simp add: partition_point_def)
  moreover obtain w1 where "patience cs cands (idx + 1) js ?tails ?prev w1 = (Inr (tails', prev'), w')"
    using "2.prems"(1) by (auto simp: res_simps Let_def split del: if_split)
  ultimately show ?case
    using "2.IH" [OF refl refl] idx upd(1) links tails_least_update [OF "2.prems"(7,3), of ?p] by simp
qed

lemma walk_length:
  "walk fuel cands prev (Some idx) = Inr ps \<Longrightarrow> \<forall>t<length cands. r t = (case prev ! t of None \<Rightarrow> 1 | Some p \<Rightarrow> Suc (r p)) \<Longrightarrow>
   length ps = r idx"
proof (induction fuel arbitrary: idx ps)
  case (Suc fuel)
  then have "idx < length cands"
    by (auto simp: index_def split: if_splits)
  with Suc show ?case
    by (cases "prev ! idx") (auto simp: res_simps index_def split: if_splits)
qed simp

section \<open>The anchors\<close>

lemma chain_numbers:
  assumes "chain ps" "set ps \<subseteq> set cands" "sorted_wrt (\<lambda>p q. fst p < fst q) cands"
  shows "\<exists>ts. ps = map ((!) cands) ts \<and> number_chain cands ts \<and> (\<forall>t\<in>set ts. t < length cands)"
  using assms(1,2)
proof (induction ps)
  case (Cons p ps)
  then obtain ts t where ts: "ps = map ((!) cands) ts" "number_chain cands ts" "\<forall>t\<in>set ts. t < length cands"
    and t: "t < length cands" "cands ! t = p"
    by (auto simp: in_set_conv_nth)
  have "t < s \<and> snd (cands ! t) < snd (cands ! s)" if "s \<in> set ts" for s
  proof -
    have lt: "fst (cands ! t) < fst (cands ! s)" "snd (cands ! t) < snd (cands ! s)"
      using Cons.prems(1) ts(1) t(2) that by auto
    moreover have "fst (cands ! s) \<le> fst (cands ! t)" if "s \<le> t"
      using that t(1) assms(3) by (cases "s = t") (auto simp: sorted_wrt_iff_nth_less less_imp_le)
    ultimately show ?thesis
      by (meson not_le)
  qed
  with ts t show ?case
    by (intro exI [of _ "t # ts"]) (auto simp: number_chain_def)
qed (simp add: number_chain_def)

lemma candidates_complete:
  assumes "candidates cs hash_line left right (length pre) ls acc w = (Inr cands, w')" "a = pre @ ls"
    "indexes hash_line a left" "indexes hash_line b right"
    "\<forall>p. unique_pair hash_line a b p \<longrightarrow> fst p < length pre \<longrightarrow> p \<in> set acc"
  shows "\<forall>p. unique_pair hash_line a b p \<longrightarrow> p \<in> set cands"
  using assms
proof (induction ls arbitrary: pre acc w)
  case Nil
  then show ?case
    by (auto simp: res_simps unique_pair_def line_match_def)
next
  case (Cons l ls)
  let ?key = "line_key hash_line l"
  let ?acc = "\<lambda>n. case right ?key of
      Some (j, k) \<Rightarrow> if n = 1 \<and> k = 1 then acc @ [(length pre, j)] else acc | None \<Rightarrow> acc"
  obtain w1 i0 n where n: "left ?key = Some (i0, n)"
      "candidates cs hash_line left right (length (pre @ [l])) ls (?acc n) w1 = (Inr cands, w')"
    using Cons.prems(1) by (auto simp: res_simps Let_def split: option.splits prod.splits)
  have "p \<in> set (?acc n)" if p: "unique_pair hash_line a b p" "fst p < length (pre @ [l])" for p
  proof (cases "fst p < length pre")
    case True
    then show ?thesis
      using p(1) Cons.prems(5) by (cases p) (auto split: option.splits)
  next
    case False
    then obtain j where ij: "p = (length pre, j)"
      using p(2) by (cases p) simp
    have "a ! length pre = l"
      using Cons.prems(2) by simp
    then have u: "positions hash_line a ?key = [length pre]" "positions hash_line b (line_key hash_line (b ! j)) = [j]"
      "ln_text (b ! j) = ln_text l"
      using p(1) unfolding ij by (auto simp: unique_pair_def line_match_def)
    then have "left ?key = Some (length pre, 1)" "right ?key = Some (j, 1)"
      using indexes_at [OF Cons.prems(3), of ?key] indexes_at [OF Cons.prems(4), of ?key]
      by (simp_all add: line_key_def)
    with n(1) ij show ?thesis
      by simp
  qed
  with Cons.IH [OF n(2) _ Cons.prems(3,4)] Cons.prems(2) show ?case
    by simp
qed

text \<open>A longest chain of lines that occur once on each side.\<close>

definition best_anchors ::
  "(byte list \<Rightarrow> 64 word) \<Rightarrow> diff_line list \<Rightarrow> diff_line list \<Rightarrow> (nat \<times> nat) list \<Rightarrow> bool" where
  "best_anchors hash_line a b ps \<longleftrightarrow>
     chain ps \<and> list_all (unique_pair hash_line a b) ps \<and>
     (\<forall>qs. chain qs \<longrightarrow> list_all (unique_pair hash_line a b) qs \<longrightarrow> length qs \<le> length ps)"

lemma indexes_empty: "indexes hash_line [] Map.empty"
  by (simp add: indexes_def positions_def)

lemma anchors_walk:
  assumes "ordered_candidates hash_line a b n cands" "\<forall>p. unique_pair hash_line a b p \<longrightarrow> p \<in> set cands"
    "patience cs cands 0 cands [] (replicate (length cands) None) w = (Inr (tails, prev), w')"
  shows "\<exists>ps. walk (length cands) cands prev (if tails = [] then None else Some (last tails)) = Inr ps \<and>
    best_anchors hash_line a b (rev ps)"
proof -
  have start: "tails_ok cands 0 []" "links_ok cands (replicate (length cands) None)"
    "ranks_ok (replicate (length cands) None) 0 [] (\<lambda>_. 0)" "tails_least cands 0 []"
    by (simp_all add: tails_ok_def links_ok_def ranks_ok_def tails_least_def)
  have cands: "cands = drop 0 cands" "0 \<le> length cands"
    by simp_all
  have sorted: "sorted_wrt (\<lambda>p q. fst p < fst q) cands" and unique: "list_all (unique_pair hash_line a b) cands"
    using assms(1) by (simp_all add: ordered_candidates_def)
  have ok: "tails_ok cands (length cands) tails" "links_ok cands prev"
    using patience_Inr [OF assms(3) cands(1) start(1,2) cands(2)] by simp_all
  obtain r where r: "ranks_ok prev (length cands) tails r" and least: "tails_least cands (length cands) tails"
    using patience_longest [OF assms(3) cands(1) start(1,2) cands(2) start(3,4)] by blast
  have longest: "length qs \<le> length tails" if qs: "chain qs" "list_all (unique_pair hash_line a b) qs" for qs
  proof -
    have "set qs \<subseteq> set cands"
      using qs(2) assms(2) by (auto simp: list_all_iff)
    then obtain ts where ts: "qs = map ((!) cands) ts" "number_chain cands ts" "\<forall>t\<in>set ts. t < length cands"
      using chain_numbers [OF qs(1) _ sorted] by blast
    then show ?thesis
      using least by (cases ts rule: rev_cases) (auto simp: tails_least_def Suc_le_eq)
  qed
  show ?thesis
  proof (cases "tails = []")
    case True
    then show ?thesis
      using longest by (simp add: best_anchors_def)
  next
    case False
    then have "last tails < length cands"
      using ok(1) by (simp add: tails_ok_def)
    then obtain ps where ps: "walk (length cands) cands prev (Some (last tails)) = Inr (cands ! last tails # ps)"
        "chain (rev (cands ! last tails # ps))" "set ps \<subseteq> set cands"
      using walk_chain [OF ok(2) sorted] by blast
    have "length (cands ! last tails # ps) = length tails"
      using walk_length [OF ps(1), of r] r False by (simp add: ranks_ok_def last_conv_nth)
    moreover have "list_all (unique_pair hash_line a b) (rev (cands ! last tails # ps))"
      using ps(3) \<open>last tails < length cands\<close> unique by (auto simp: list_all_iff)
    ultimately show ?thesis
      using ps(1,2) longest False by (auto simp: best_anchors_def simp del: rev.simps)
  qed
qed

lemma tally_start: "tally cs hash_line 0 ls Map.empty w = (Inr m, w') \<Longrightarrow> indexes hash_line ls m"
  using tally_Inr [of cs hash_line "[]" ls Map.empty w m w'] indexes_empty by simp

lemma unique_lines_Inr:
  assumes "unique_lines cs a b hash_line w = (Inr cands, w')"
  shows "ordered_candidates hash_line a b (length a) cands"
    "\<forall>p. unique_pair hash_line a b p \<longrightarrow> p \<in> set cands"
proof -
  from assms obtain left right w1 w2 w3 where run:
    "tally cs hash_line 0 a Map.empty w1 = (Inr left, w2)"
    "tally cs hash_line 0 b Map.empty w2 = (Inr right, w3)"
    "candidates cs hash_line left right 0 a [] w3 = (Inr cands, w')"
    unfolding unique_lines_def act_bind_Inr_iff by (elim exE conjE) simp
  note ix = tally_start [OF run(1)] tally_start [OF run(2)]
  show "ordered_candidates hash_line a b (length a) cands"
    using candidates_Inr [of cs hash_line left right "[]" a "[]", OF _ _ ix] run(3)
    by (simp add: ordered_candidates_def)
  show "\<forall>p. unique_pair hash_line a b p \<longrightarrow> p \<in> set cands"
    using candidates_complete [of cs hash_line left right "[]" a "[]", OF _ _ ix] run(3) by simp
qed

lemma unique_lines_Inl:
  assumes "unique_lines cs a b hash_line w = (Inl e, w')"
  shows "stopped cs e"
proof -
  have "stopped cs e" if "tally cs hash_line 0 a Map.empty w1 = (Inr left, w2)"
    "candidates cs hash_line left right 0 a [] w3 = (Inl e, w4)" for w1 left w2 right w3 w4
    using candidates_Inl [OF that(2)] indexes_found [OF tally_start [OF that(1)]] by blast
  with assms show ?thesis
    unfolding unique_lines_def act_bind_Inl_iff
    by (elim disjE exE conjE) (erule reserve_Inl tally_Inl | assumption | blast)+
qed

text \<open>The anchors are a longest chain, unless the meter stops the work.\<close>

lemma anchor_list_result:
  assumes "anchor_list cs a b hash_line w = (r, w')"
  shows "case r of Inr anchors \<Rightarrow> best_anchors hash_line a b anchors | Inl e \<Rightarrow> stopped cs e"
proof -
  obtain r1 w1 where u: "unique_lines cs a b hash_line w = (r1, w1)"
    by fastforce
  show ?thesis
  proof (cases r1)
    case (Inl e)
    with u assms unique_lines_Inl show ?thesis
      by (auto simp: anchor_list_def act_bind_def)
  next
    case (Inr cands)
    obtain r2 w2 where p: "patience cs cands 0 cands [] (replicate (length cands) None) w1 = (r2, w2)"
      by fastforce
    show ?thesis
    proof (cases r2)
      case (Inl e)
      with u p \<open>r1 = Inr cands\<close> assms patience_Inl show ?thesis
        by (auto simp: anchor_list_def act_bind_def)
    next
      case (Inr t)
      obtain tails prev where t: "t = (tails, prev)"
        by fastforce
      from anchors_walk [OF unique_lines_Inr [OF u [unfolded \<open>r1 = Inr cands\<close>]] p [unfolded Inr t]]
      obtain ps where "walk (length cands) cands prev (if tails = [] then None else Some (last tails)) = Inr ps"
          "best_anchors hash_line a b (rev ps)"
        by blast
      with u p \<open>r1 = Inr cands\<close> Inr t assms show ?thesis
        by (auto simp: anchor_list_def act_bind_def act_lift_def split del: if_split)
    qed
  qed
qed

section \<open>The gaps\<close>

lemma prefix_pairs_run:
  assumes "prefix_pairs a b i j x y pairs = (x', y', pairs')" "x \<le> i" "y \<le> j" "i \<le> length a" "j \<le> length b"
  shows "\<exists>l. x' = x + l \<and> y' = y + l \<and> pairs' = pairs @ run_of x y l \<and> x' \<le> i \<and> y' \<le> j \<and>
    (\<forall>t<l. line_match a b (x + t) (y + t)) \<and>
    (x' < i \<longrightarrow> y' < j \<longrightarrow> ln_text (a ! x') \<noteq> ln_text (b ! y'))"
  using assms
proof (induction a b i j x y pairs rule: prefix_pairs.induct)
  case (1 a b i j x y pairs)
  show ?case
  proof (cases "x < i \<and> y < j \<and> ln_text (a ! x) = ln_text (b ! y)")
    case True
    then have m: "line_match a b x y" "x + 1 \<le> i" "y + 1 \<le> j"
      "prefix_pairs a b i j (x + 1) (y + 1) (pairs @ [(x, y)]) = (x', y', pairs')"
      using "1.prems" by (auto simp: line_match_def prefix_pairs.simps [of a b i j x y])
    obtain l where l: "x' = x + 1 + l" "y' = y + 1 + l" "pairs' = (pairs @ [(x, y)]) @ run_of (x + 1) (y + 1) l"
        "x' \<le> i" "y' \<le> j" "\<forall>t<l. line_match a b (x + 1 + t) (y + 1 + t)"
        "x' < i \<longrightarrow> y' < j \<longrightarrow> ln_text (a ! x') \<noteq> ln_text (b ! y')"
      using "1.IH" [OF True m(4,2,3)] "1.prems"(4,5) by blast
    have "(x, y) # run_of (x + 1) (y + 1) l = run_of x y (Suc l)"
      by (simp add: run_of_def upt_conv_Cons flip: map_Suc_upt del: upt_Suc)
    moreover have "line_match a b (x + t) (y + t)" if "t < Suc l" for t
      using that m(1) l(6) by (cases t) auto
    ultimately show ?thesis
      using l by (intro exI [of _ "Suc l"]) auto
  next
    case False
    with "1.prems" show ?thesis
      by (intro exI [of _ 0]) (auto simp: prefix_pairs.simps [of a b i j x y] run_of_def)
  qed
qed

lemma suffix_edges_run:
  assumes "suffix_edges a b x y xe ye = (xe', ye')" "x \<le> xe" "y \<le> ye" "xe \<le> length a" "ye \<le> length b"
  shows "\<exists>l. xe = xe' + l \<and> ye = ye' + l \<and> x \<le> xe' \<and> y \<le> ye' \<and>
    (\<forall>t<l. line_match a b (xe' + t) (ye' + t))"
  using assms
proof (induction a b x y xe ye rule: suffix_edges.induct)
  case (1 a b x y xe ye)
  show ?case
  proof (cases "x < xe \<and> y < ye \<and> ln_text (a ! (xe - 1)) = ln_text (b ! (ye - 1))")
    case True
    then have le: "x \<le> xe - 1" "y \<le> ye - 1" "xe - 1 \<le> length a" "ye - 1 \<le> length b"
      "suffix_edges a b x y (xe - 1) (ye - 1) = (xe', ye')" "line_match a b (xe - 1) (ye - 1)"
      using "1.prems" by (auto simp: line_match_def suffix_edges.simps [of a b x y xe ye])
    obtain l where l: "xe - 1 = xe' + l" "ye - 1 = ye' + l" "x \<le> xe'" "y \<le> ye'"
        "\<forall>t<l. line_match a b (xe' + t) (ye' + t)"
      using "1.IH" [OF True le(5,1-4)] by blast
    have "line_match a b (xe' + t) (ye' + t)" if "t < Suc l" for t
      using that l le(6) by (auto simp: less_Suc_eq)
    moreover have "xe = xe' + Suc l" "ye = ye' + Suc l"
      using True l(1,2) by linarith+
    ultimately show ?thesis
      using l(3,4) by (intro exI [of _ "Suc l"]) simp
  next
    case False
    with "1.prems" show ?thesis
      by (auto simp: suffix_edges.simps [of a b x y xe ye])
  qed
qed

text \<open>The pairs so far: equal lines, in order, before \<open>x\<close> and \<open>y\<close>.\<close>

definition aligned :: "diff_line list \<Rightarrow> diff_line list \<Rightarrow> nat \<Rightarrow> nat \<Rightarrow> (nat \<times> nat) list \<Rightarrow> bool" where
  "aligned a b x y ps \<longleftrightarrow> chain ps \<and> matching (line_match a b) ps \<and> within x y ps"

lemma aligned_run:
  assumes "aligned a b x y ps" "\<forall>t<l. line_match a b (x + t) (y + t)"
  shows "aligned a b (x + l) (y + l) (ps @ run_of x y l)"
proof -
  have "within (x + l) (y + l) ps"
    using assms(1) by (auto simp: aligned_def intro: within_mono)
  moreover have "chain (ps @ run_of x y l)"
    using assms(1) by (intro run_of_after) (simp_all add: aligned_def)
  ultimately show ?thesis
    using assms run_of_chain(2) run_of_matching [of l "line_match a b"] by (simp add: aligned_def del: chain_simps)
qed

lemma aligned_mono: "aligned a b x y ps \<Longrightarrow> x \<le> x' \<Longrightarrow> y \<le> y' \<Longrightarrow> aligned a b x' y' ps"
  by (auto simp: aligned_def intro: within_mono)

lemma aligned_shift:
  assumes "aligned a b x y ps" "longest (line_match (sub x xe a) (sub y ye b)) (length (sub x xe a)) (length (sub y ye b)) qs"
    "x \<le> xe" "y \<le> ye"
  shows "aligned a b xe ye (ps @ map (\<lambda>(dx, dy). (x + dx, y + dy)) qs)"
proof -
  let ?qs = "map (\<lambda>(dx, dy). (x + dx, y + dy)) qs"
  have "line_match (sub x xe a) (sub y ye b) i j \<Longrightarrow> line_match a b (x + i) (y + j)" for i j
    by (auto simp: line_match_def sub_def)
  then have "matching (line_match a b) ?qs"
    using assms(2) by (auto simp: matching_def longest_def)
  moreover have "chain ?qs"
    using assms(2) by (auto simp: chain_def longest_def sorted_wrt_map split_beta elim!: sorted_wrt_mono_rel [rotated])
  moreover have "within xe ye ?qs"
    using assms(2-) by (fastforce simp: within_def longest_def sub_def)
  moreover have "within xe ye ps"
    using assms(1,3,4) by (auto simp: aligned_def intro: within_mono)
  moreover have "\<forall>p\<in>set ps. \<forall>q\<in>set ?qs. fst p < fst q \<and> snd p < snd q"
    using assms(1) by (fastforce simp: aligned_def within_def)
  ultimately show ?thesis
    using assms(1) by (simp add: aligned_def)
qed


lemma zip_run: "i = xe + l \<Longrightarrow> j = ye + l \<Longrightarrow> zip [xe..<i] [ye..<j] = run_of xe ye l"
  by (rule nth_equalityI) (simp_all add: run_of_def)

lemma middle_result:
  assumes "middle cs a b x y xe ye out w = (r, w')" "aligned a b x y (al_pairs out)" "x \<le> xe" "y \<le> ye"
  shows "case r of Inr out' \<Rightarrow> aligned a b xe ye (al_pairs out') | Inl e \<Rightarrow> stopped cs e"
proof (cases "x < xe \<and> y < ye")
  case True
  obtain r1 w1 where m: "myers cs (sub x xe a) (sub y ye b) w = (r1, w1)"
    by fastforce
  show ?thesis
  proof (cases r1)
    case (Inl e)
    with m True assms(1) myers_Inl [of cs "sub x xe a" "sub y ye b" w e w1] aligned_mono [OF assms(2-4)] show ?thesis
      by (auto simp: middle_def split: completeness.splits)
  next
    case (Inr inner)
    from aligned_shift [OF assms(2) myers_Inr [OF m [unfolded Inr]] assms(3,4)] m True Inr assms(1) show ?thesis
      by (auto simp: middle_def)
  qed
next
  case False
  with assms(1) aligned_mono [OF assms(2-4)] show ?thesis
    by (auto simp: middle_def)
qed

text \<open>What an anchor adds: its gap, and itself unless it is the end.\<close>

definition step_to :: "diff_line list \<Rightarrow> diff_line list \<Rightarrow> nat \<times> nat \<Rightarrow> nat \<Rightarrow> nat \<Rightarrow> bool" where
  "step_to a b = (\<lambda>(i, j) x y. x \<le> i \<and> y \<le> j \<and> (line_match a b i j \<or> i = length a \<and> j = length b))"

lemma gap_result:
  assumes "gap cs a b (i, j) x y out w = (r, w')" "aligned a b x y (al_pairs out)" "step_to a b (i, j) x y"
  shows "case r of Inl e \<Rightarrow> stopped cs e
    | Inr out' \<Rightarrow> if i < length a then aligned a b (i + 1) (j + 1) (al_pairs out')
        else aligned a b i j (al_pairs out')"
proof -
  have le: "x \<le> i" "y \<le> j" "i \<le> length a" "j \<le> length b" "i < length a \<Longrightarrow> line_match a b i j"
    using assms(3) by (auto simp: step_to_def line_match_def)
  obtain x' y' pairs where p: "prefix_pairs a b i j x y (al_pairs out) = (x', y', pairs)"
    using prod_cases3 by blast
  obtain xe ye where s: "suffix_edges a b x' y' i j = (xe, ye)"
    by fastforce
  obtain l where l: "x' = x + l" "y' = y + l" "pairs = al_pairs out @ run_of x y l" "x' \<le> i" "y' \<le> j"
      "\<forall>t<l. line_match a b (x + t) (y + t)"
    using prefix_pairs_run [OF p le(1-4)] by blast
  obtain k where k: "i = xe + k" "j = ye + k" "x' \<le> xe" "y' \<le> ye" "\<forall>t<k. line_match a b (xe + t) (ye + t)"
    using suffix_edges_run [OF s l(4,5) le(3,4)] by blast
  have start: "aligned a b x' y' pairs"
    unfolding l(1-3) by (rule aligned_run [OF assms(2) l(6)])
  obtain r1 w1 where m: "middle cs a b x' y' xe ye (out\<lparr>al_pairs := pairs\<rparr>) (w\<lparr>wk_polls := Suc (wk_polls w)\<rparr>) = (r1, w1)"
    by fastforce
  have mid: "case r1 of Inr out' \<Rightarrow> aligned a b xe ye (al_pairs out') | Inl e \<Rightarrow> stopped cs e"
    using middle_result [OF m _ k(3,4)] start by simp
  consider (cancel) "r = Inl Cancelled" "cs_cancelled cs (wk_polls w)"
    | (stop) e where "r = Inl e" "r1 = Inl e"
    | (go) out1 where "r1 = Inr out1" "r = Inr (out1\<lparr>al_pairs := al_pairs out1 @ zip [xe..<i] [ye..<j] @
        (if i < length a then [(i, j)] else [])\<rparr>)"
    using assms(1) p s m
    by (cases r1) (auto simp: gap_def act_bind_def act_lift_def cancelled_def split: if_splits)
  then show ?thesis
  proof cases
    case cancel
    then show ?thesis
      by (auto simp: stopped_def)
  next
    case stop
    then show ?thesis
      using mid by simp
  next
    case go
    then have "aligned a b xe ye (al_pairs out1)"
      using mid by simp
    from aligned_run [OF this k(5)] have run: "aligned a b i j (al_pairs out1 @ zip [xe..<i] [ye..<j])"
      by (simp add: k(1,2) zip_run)
    show ?thesis
    proof (cases "i < length a")
      case True
      have "aligned a b (i + 1) (j + 1) ((al_pairs out1 @ zip [xe..<i] [ye..<j]) @ run_of i j 1)"
        by (rule aligned_run [OF run]) (use le(5) True in simp)
      with go True show ?thesis
        by (simp add: run_of_def)
    next
      case False
      with go run show ?thesis
        by simp
    qed
  qed
qed

text \<open>The anchors, then the end of both sides.\<close>

fun steps_to :: "diff_line list \<Rightarrow> diff_line list \<Rightarrow> (nat \<times> nat) list \<Rightarrow> nat \<Rightarrow> nat \<Rightarrow> bool" where
  "steps_to a b [] x y = False"
| "steps_to a b [p] x y \<longleftrightarrow> p = (length a, length b) \<and> x \<le> length a \<and> y \<le> length b"
| "steps_to a b (p # ps) x y \<longleftrightarrow>
     x \<le> fst p \<and> y \<le> snd p \<and> line_match a b (fst p) (snd p) \<and> steps_to a b ps (fst p + 1) (snd p + 1)"

lemma gaps_result:
  "gaps cs a b anchors x y out w = (r, w') \<Longrightarrow> steps_to a b anchors x y \<Longrightarrow> aligned a b x y (al_pairs out) \<Longrightarrow>
   case r of Inr out' \<Rightarrow> aligned a b (length a) (length b) (al_pairs out') | Inl e \<Rightarrow> stopped cs e"
proof (induction a b anchors x y arbitrary: out w rule: steps_to.induct)
  case (2 a b p x y)
  obtain r1 w1 where g: "gap cs a b (length a, length b) x y out w = (r1, w1)"
    by fastforce
  have "case r1 of Inl e \<Rightarrow> stopped cs e | Inr out' \<Rightarrow> aligned a b (length a) (length b) (al_pairs out')"
    using gap_result [OF g "2.prems"(3)] "2.prems"(2) by (simp add: step_to_def split: sum.splits)
  with g "2.prems"(1,2) show ?case
    by (cases r1) (auto simp: act_bind_def act_lift_def)
next
  case (3 a b p q ps x y)
  obtain r1 w1 where g: "gap cs a b p x y out w = (r1, w1)"
    by fastforce
  have "fst p < length a"
    using "3.prems"(2) by (simp add: line_match_def)
  then have mid: "case r1 of Inl e \<Rightarrow> stopped cs e | Inr out' \<Rightarrow> aligned a b (fst p + 1) (snd p + 1) (al_pairs out')"
    using gap_result [of cs a b "fst p" "snd p" x y out w r1 w1] g "3.prems"(2,3)
    by (cases p) (simp add: step_to_def split: sum.splits)
  show ?case
  proof (cases r1)
    case (Inl e)
    with g mid "3.prems"(1) show ?thesis
      by (auto simp: act_bind_def)
  next
    case (Inr out1)
    with g "3.prems"(1) have "gaps cs a b (q # ps) (fst p + 1) (snd p + 1) out1 w1 = (r, w')"
      by (simp add: act_bind_def)
    from "3.IH" [OF this] mid Inr "3.prems"(2) show ?thesis
      by simp
  qed
qed simp

lemma anchors_steps:
  "chain ps \<Longrightarrow> matching (line_match a b) ps \<Longrightarrow> \<forall>p\<in>set ps. x \<le> fst p \<and> y \<le> snd p \<Longrightarrow> x \<le> length a \<Longrightarrow> y \<le> length b \<Longrightarrow>
   steps_to a b (ps @ [(length a, length b)]) x y"
proof (induction ps arbitrary: x y)
  case (Cons p ps)
  have lt: "line_match a b (fst p) (snd p)" "fst p < length a" "snd p < length b"
    using Cons.prems(2) by (auto simp: line_match_def)
  have "\<forall>q\<in>set ps. fst p + 1 \<le> fst q \<and> snd p + 1 \<le> snd q"
    using Cons.prems(1) by auto
  with Cons.IH [of "fst p + 1" "snd p + 1"] Cons.prems lt
  have rest: "steps_to a b (ps @ [(length a, length b)]) (fst p + 1) (snd p + 1)"
    by simp
  with lt Cons.prems(3) show ?case
    by (cases "ps @ [(length a, length b)]") auto
qed simp

text \<open>The whole alignment.\<close>

lemma anchored_result:
  assumes "anchored cs a b hash_line w = (r, w')"
  shows "case r of Inr out \<Rightarrow> aligned a b (length a) (length b) (al_pairs out) | Inl e \<Rightarrow> stopped cs e"
proof -
  obtain r1 w1 where g: "anchor_list cs a b hash_line w = (r1, w1)"
    by fastforce
  show ?thesis
  proof (cases r1)
    case (Inl e)
    with g assms anchor_list_result [OF g] show ?thesis
      by (auto simp: anchored_def act_bind_def)
  next
    case (Inr ps)
    have "best_anchors hash_line a b ps"
      using anchor_list_result [OF g] Inr by simp
    then have "chain ps" "matching (line_match a b) ps"
      by (auto simp: best_anchors_def matching_def unique_pair_def list_all_iff)
    then have steps: "steps_to a b (ps @ [(length a, length b)]) 0 0"
      by (intro anchors_steps) auto
    have "gaps cs a b (ps @ [(length a, length b)]) 0 0 \<lparr>al_pairs = [], al_coarse = {}, al_reason = None\<rparr> w1 = (r, w')"
      using assms g Inr by (simp add: anchored_def act_bind_def)
    from gaps_result [OF this steps] show ?thesis
      by (simp add: aligned_def)
  qed
qed

end
