(* ===== verification/Diff_Hunks.thy ===== *)
theory Diff_Hunks
  imports Diff Diff_Lines Anchors
begin

text \<open>
  What the hunks of a comparison mean. The lines of a text lie in order on character boundaries; the
  hunks are the gaps between the aligned pairs; replacing each gap of the right text with its left
  lines gives the left text when no option ignores anything.
\<close>

section \<open>Lines lie on character boundaries\<close>

lemma ascii_boundary:
  "valid_utf8 xs \<Longrightarrow> n < length xs \<Longrightarrow> xs ! n < 0x80 \<Longrightarrow> char_boundary xs (Suc n)"
proof (induction xs arbitrary: n rule: valid_utf8.induct)
  case (1 xs)
  obtain b bs where xs: "xs = b # bs"
    using "1.prems"(2) by (cases xs) auto
  obtain w where w: "w = utf8_width b" "0 < w" "w \<le> length xs" "utf8_scalar (take w xs)" "valid_utf8 (drop w xs)"
    using valid_utf8_step [OF "1.prems"(1)] xs by (metis list.discI list.sel(1))
  show ?case
  proof (cases "n < w")
    case True
    have "n = 0"
    proof (rule ccontr)
      assume "n \<noteq> 0"
      then have "cont (take w xs ! n)"
        using w(3,4) True by (intro utf8_scalar_tail_cont) simp_all
      then show False
        using True "1.prems"(3) by (simp add: cont_iff) (metis not_le)
    qed
    then have "w = 1"
      using "1.prems"(3) w(1) by (simp add: xs utf8_width_def)
    then show ?thesis
      using w(5) \<open>n = 0\<close> by (cases bs) (auto simp: xs char_boundary_def dest: valid_utf8_hd)
  next
    case False
    then have n: "n - w < length (drop w xs)" "drop w xs ! (n - w) = xs ! n" "Suc n - w = Suc (n - w)"
      using "1.prems"(2) w(3) by auto
    have "char_boundary (drop w xs) (Suc n - w)"
      using "1.IH" [OF xs, of "n - w"] n "1.prems"(3) w by simp
    then show ?thesis
      using char_boundary_append_right [OF w(5), of "take w xs" "Suc n"] w(3) False by simp
  qed
qed

lemma first_line_end:
  "t \<noteq> [] \<Longrightarrow> first_line t = t \<or> last (first_line t) = CR \<or> last (first_line t) = LF"
  by (induction t rule: first_line.induct) auto

lemma first_line_valid:
  assumes "valid_utf8 t"
  shows "valid_utf8 (first_line t)" "valid_utf8 (drop (length (first_line t)) t)"
proof -
  let ?n = "length (first_line t)"
  have pre: "take ?n t = first_line t" "?n \<le> length t"
    using first_line_prefix [of t] by (metis append_eq_conv_conj, metis le_add1 length_append)
  have "char_boundary t ?n"
  proof (cases "t = [] \<or> first_line t = t")
    case True
    then show ?thesis
      by (cases "t = []") (simp_all add: char_boundary_def)
  next
    case False
    then have last: "last (first_line t) = CR \<or> last (first_line t) = LF" "0 < ?n"
      using first_line_end [of t] by simp_all
    have "last (first_line t) = t ! (?n - 1)"
      using pre last(2) by (metis last_conv_nth length_greater_0_conv nth_take diff_less zero_less_one)
    then have "t ! (?n - 1) < 0x80" "?n - 1 < length t"
      using last pre(2) by (auto, linarith+)
    from ascii_boundary [OF assms this(2,1)] last(2) show ?thesis
      by simp
  qed
  from valid_utf8_cut [OF assms this] pre(1)
  show "valid_utf8 (first_line t)" "valid_utf8 (drop ?n t)"
    by simp_all
qed

lemma split_lines_valid: "valid_utf8 t \<Longrightarrow> list_all valid_utf8 (split_lines t)"
proof (induction t rule: split_lines.induct)
  case (1 t)
  show ?case
  proof (cases "t = []")
    case False
    with 1 first_line_valid [OF "1.prems"] show ?thesis
      by (subst split_lines.simps) simp
  qed simp
qed

section \<open>Lines in order\<close>

text \<open>Lines of a text: in order, none empty, between character boundaries.\<close>

fun lines_from :: "byte list \<Rightarrow> nat \<Rightarrow> diff_line list \<Rightarrow> bool" where
  "lines_from t pos [] \<longleftrightarrow> pos \<le> length t"
| "lines_from t pos (l # ls) \<longleftrightarrow>
     pos \<le> ln_start l \<and> ln_start l < ln_end l \<and> ln_end l \<le> length t \<and>
     char_boundary t (ln_start l) \<and> char_boundary t (ln_end l) \<and> lines_from t (ln_end l) ls"

lemma lines_from_le: "lines_from t pos ls \<Longrightarrow> pos' \<le> pos \<Longrightarrow> lines_from t pos' ls"
  by (cases ls) auto

lemma line_list_from:
  assumes "t = concat pre @ concat raws" "list_all valid_utf8 (pre @ raws)" "[] \<notin> set raws"
  shows "lines_from t (length (concat pre)) (line_list cs (length (concat pre)) hint raws)"
  using assms
proof (induction raws arbitrary: pre hint)
  case (Cons raw raws)
  let ?p = "length (concat pre)"
  have valid: "valid_utf8 (concat (raw # raws))" "valid_utf8 (concat raws)"
    using Cons.prems(2) valid_utf8_concat [of "raw # raws"] valid_utf8_concat [of raws]
    by (simp_all add: list_all_iff)
  have "char_boundary t ?p" "char_boundary t (?p + length raw)"
    using char_boundary_append_right [OF valid(1), of "concat pre" ?p]
      char_boundary_append_right [OF valid(2), of "concat pre @ raw" "?p + length raw"] Cons.prems(1) by simp_all
  moreover have "lines_from t (?p + length raw) (line_list cs (?p + length raw) (hint + 1) raws)"
    using Cons.IH [of "pre @ [raw]"] Cons.prems by simp
  moreover have "raw \<noteq> []"
    using Cons.prems(3) by auto
  ultimately show ?case
    using Cons.prems(1) lines_from_le [of t "?p + length raw" _ ?p] by (auto simp: kept_line_def)
qed simp

lemma snapshot_lines_from:
  assumes "good s" "snapshot_lines cs s w = (Inr ls, w')"
  shows "lines_from (snap_text s) 0 ls"
proof -
  have "valid_utf8 (snap_text s)"
    using assms(1) by (simp add: good_def snap_text_def owned_valid)
  then show ?thesis
    using line_list_from [of "snap_text s" "[]" "split_lines (snap_text s)" cs 0] split_lines_valid
      split_lines_not_Nil snapshot_lines_reference [OF assms] by fastforce
qed

section \<open>Gaps\<close>

text \<open>The ranges between the pairs, where there is anything between them.\<close>

fun gap_ranges ::
  "diff_line list \<Rightarrow> diff_line list \<Rightarrow> nat \<Rightarrow> nat \<Rightarrow> (nat \<times> nat) list \<Rightarrow> nat \<Rightarrow> nat \<Rightarrow> (range \<times> range) list" where
  "gap_ranges a b n m [] x y = []"
| "gap_ranges a b n m (p # ps) x y =
     (if x < fst p \<or> y < snd p then [(lines_range a n x (fst p), lines_range b m y (snd p))] else []) @
     gap_ranges a b n m ps (fst p + 1) (snd p + 1)"

abbreviation hunk_ranges :: "hunk list \<Rightarrow> (range \<times> range) list" where
  "hunk_ranges hs \<equiv> map (\<lambda>h. (hk_left h, hk_right h)) hs"

text \<open>Where the line at a number starts; past the lines, the end of the text.\<close>

definition start_of :: "nat \<Rightarrow> diff_line list \<Rightarrow> nat \<Rightarrow> nat" where
  "start_of n ls i = (if i < length ls then ln_start (ls ! i) else n)"

text \<open>Where the line before a number ends.\<close>

definition end_before :: "diff_line list \<Rightarrow> nat \<Rightarrow> nat" where
  "end_before ls i = (if i = 0 then 0 else ln_end (ls ! (i - 1)))"

lemma lines_from_nth:
  "lines_from t pos ls \<Longrightarrow> i < length ls \<Longrightarrow>
   pos \<le> ln_start (ls ! i) \<and> ln_start (ls ! i) < ln_end (ls ! i) \<and> ln_end (ls ! i) \<le> length t \<and>
   char_boundary t (ln_start (ls ! i)) \<and> char_boundary t (ln_end (ls ! i)) \<and>
   lines_from t (ln_end (ls ! i)) (drop (Suc i) ls)"
proof (induction ls arbitrary: i pos)
  case (Cons l ls)
  then show ?case
    by (cases i) (fastforce simp del: lines_from.simps(1))+
qed simp

lemma lines_from_order:
  assumes "lines_from t pos ls" "i < j" "j < length ls"
  shows "ln_end (ls ! i) \<le> ln_start (ls ! j)"
proof -
  have "lines_from t (ln_end (ls ! i)) (drop (Suc i) ls)"
    using lines_from_nth [OF assms(1), of i] assms(2,3) by simp
  from lines_from_nth [OF this, of "j - Suc i"] assms(2,3) show ?thesis
    by simp
qed

text \<open>A range of lines lies between the line before it and the line after it.\<close>

lemma lines_range_bounds:
  assumes "lines_from t 0 ls" "x \<le> i" "i \<le> length ls" "lines_range ls (length t) x i = (s, e)"
  shows "end_before ls x \<le> s" "s \<le> e" "e \<le> start_of (length t) ls i" "char_boundary t s" "char_boundary t e"
    "x < i \<Longrightarrow> s < e"
proof -
  have before: "end_before ls x \<le> start_of (length t) ls x"
    using assms(1-3) lines_from_order [OF assms(1), of "x - 1" x] lines_from_nth [OF assms(1), of "x - 1"]
    by (auto simp: end_before_def start_of_def)
  have "end_before ls x \<le> s \<and> s \<le> e \<and> e \<le> start_of (length t) ls i \<and> char_boundary t s \<and> char_boundary t e \<and>
      (x < i \<longrightarrow> s < e)"
  proof (cases "x < i")
    case True
    then have x: "x < length ls" "i - 1 < length ls"
      using assms(3) by simp_all
    have "ln_start (ls ! x) < ln_end (ls ! (i - 1))"
    proof (cases "x = i - 1")
      case False
      then have "x < i - 1"
        using True by simp
      from lines_from_order [OF assms(1) this x(2)] show ?thesis
        using lines_from_nth [OF assms(1) x(1)] lines_from_nth [OF assms(1) x(2)] by simp
    qed (use lines_from_nth [OF assms(1) x(1)] in simp)
    moreover have "ln_end (ls ! (i - 1)) \<le> start_of (length t) ls i"
      using lines_from_order [OF assms(1), of "i - 1" i] lines_from_nth [OF assms(1) x(2)] True
      by (auto simp: start_of_def)
    ultimately show ?thesis
      using True assms(4) before x lines_from_nth [OF assms(1) x(1)] lines_from_nth [OF assms(1) x(2)]
      by (auto simp: lines_range_def start_of_def)
  next
    case False
    then have "x = i"
      using assms(2) by simp
    with False assms(4) before lines_from_nth [OF assms(1), of i] show ?thesis
      by (auto simp: lines_range_def start_of_def Let_def)
  qed
  then show "end_before ls x \<le> s" "s \<le> e" "e \<le> start_of (length t) ls i" "char_boundary t s" "char_boundary t e"
    "x < i \<Longrightarrow> s < e"
    by simp_all
qed

section \<open>The pass over the pairs\<close>

lemma make_hunk_ranges [simp]:
  "hk_left (make_hunk l r left right hints i) = left" "hk_right (make_hunk l r left right hints i) = right"
  by (simp_all add: make_hunk_def)

lemma hunk_before_Inr:
  assumes "hunk_before cs l r a b blocks i j st w = (Inr st', w')"
  shows "\<exists>h. hs_hunks st' = hs_hunks st @ [h] \<and>
    (hk_left h, hk_right h) = (lines_range a (snapshot_len l) (hs_si st) i, lines_range b (snapshot_len r) (hs_sj st) j) \<and>
    hs_si st' = hs_si st \<and> hs_sj st' = hs_sj st"
  using assms unfolding hunk_before_def Let_def act_bind_Inr_iff act_lift_iff
  by (elim exE conjE) (auto simp: act_lift_iff split: prod.splits)

lemma pair_step_Inr:
  assumes "pair_step cs l r a b blocks p st w = (Inr st', w')"
  shows "\<exists>hs. hs_hunks st' = hs_hunks st @ hs \<and>
    hunk_ranges hs = (if hs_si st < fst p \<or> hs_sj st < snd p
      then [(lines_range a (snapshot_len l) (hs_si st) (fst p), lines_range b (snapshot_len r) (hs_sj st) (snd p))]
      else []) \<and>
    hs_si st' = fst p + 1 \<and> hs_sj st' = snd p + 1"
proof -
  obtain i j where p: "p = (i, j)"
    by fastforce
  obtain w1 st1 w2 where st1: "(if hs_si st < i \<or> hs_sj st < j then hunk_before cs l r a b blocks i j st
      else act_lift (Inr st)) w1 = (Inr st1, w2)"
    "st' = st1\<lparr>hs_anchor := hash_at a i, hs_si := i + 1, hs_sj := j + 1\<rparr>"
    using assms unfolding p pair_step_def act_bind_Inr_iff act_lift_iff prod.case by auto
  show ?thesis
  proof (cases "hs_si st < i \<or> hs_sj st < j")
    case True
    then obtain h where "hs_hunks st1 = hs_hunks st @ [h]" "(hk_left h, hk_right h) =
        (lines_range a (snapshot_len l) (hs_si st) i, lines_range b (snapshot_len r) (hs_sj st) j)"
      using st1(1) hunk_before_Inr by force
    with True st1(2) show ?thesis
      by (intro exI [of _ "[h]"]) (simp add: p)
  next
    case False
    with st1 show ?thesis
      by (auto simp: p act_lift_iff)
  qed
qed

lemma pair_steps_Inr:
  "pair_steps cs l r a b blocks ps st w = (Inr st', w') \<Longrightarrow>
   \<exists>hs. hs_hunks st' = hs_hunks st @ hs \<and>
     hunk_ranges hs = gap_ranges a b (snapshot_len l) (snapshot_len r) ps (hs_si st) (hs_sj st)"
proof (induction ps arbitrary: st w)
  case (Cons p ps)
  then obtain st1 w1 where st1: "pair_step cs l r a b blocks p st w = (Inr st1, w1)"
      "pair_steps cs l r a b blocks ps st1 w1 = (Inr st', w')"
    by (auto simp: act_bind_Inr_iff)
  obtain hs where hs: "hs_hunks st1 = hs_hunks st @ hs" "hs_si st1 = fst p + 1" "hs_sj st1 = snd p + 1"
    "hunk_ranges hs = (if hs_si st < fst p \<or> hs_sj st < snd p
      then [(lines_range a (snapshot_len l) (hs_si st) (fst p), lines_range b (snapshot_len r) (hs_sj st) (snd p))]
      else [])"
    using pair_step_Inr [OF st1(1)] by blast
  obtain hs' where "hs_hunks st' = hs_hunks st1 @ hs'"
      "hunk_ranges hs' = gap_ranges a b (snapshot_len l) (snapshot_len r) ps (fst p + 1) (snd p + 1)"
    using Cons.IH [OF st1(2)] hs(2,3) by auto
  with hs show ?case
    by (intro exI [of _ "hs @ hs'"]) simp
qed (simp add: act_lift_iff)

text \<open>Pairing moved blocks changes only kinds.\<close>

lemma moved_pair_ranges:
  "hunk_ranges ((hs[i := (hs ! i)\<lparr>hk_kind := k\<rparr>])[j := (hs ! j)\<lparr>hk_kind := k\<rparr>]) = hunk_ranges hs"
  by (rule nth_equalityI; cases "i < length hs"; cases "j < length hs"; simp add: nth_list_update)

lemma find_moved_ranges:
  "find_moved cs l r removed added hunks paired w = (Inr (hunks', paired', limit), w') \<Longrightarrow>
   hunk_ranges hunks' = hunk_ranges hunks"
proof (induction added arbitrary: w)
  case (Cons n added)
  let ?again = "find_moved cs l r removed added hunks paired"
  obtain r1 w1 where c: "check cs w = (r1, w1)"
    by fastforce
  let ?n = "hunks ! n" and ?lr = "hk_left (hunks ! removed)" and ?rr = "hk_right (hunks ! n)"
  show ?case
  proof (cases r1)
    case (Inl e)
    with c Cons.prems show ?thesis
      by (auto split: completeness.splits)
  next
    case (Inr u)
    consider (again) "n \<in> paired \<or> hk_kind ?n \<noteq> Added \<or> range_size ?lr > 64 * 1024 \<or> range_size ?lr \<noteq> range_size ?rr"
      | (read) "n \<notin> paired" "hk_kind ?n = Added" "range_size ?lr \<le> 64 * 1024" "range_size ?lr = range_size ?rr"
      by fastforce
    then show ?thesis
    proof cases
      case again
      with c Inr Cons.prems have "?again w1 = (Inr (hunks', paired', limit), w')"
        by (auto simp: Let_def split: if_split_asm)
      then show ?thesis
        by (rule Cons.IH)
    next
      case read
      with c Inr Cons.prems have "\<exists>(lt :: byte list) rt w2.
         (if lt = rt then act_lift (Inr
           ((hunks[removed := (hunks ! removed)\<lparr>hk_kind := MovedAligned\<rparr>])
              [n := ?n\<lparr>hk_kind := MovedAligned\<rparr>], insert n paired, None))
          else ?again) w2 = (Inr (hunks', paired', limit), w')"
        by (simp add: Let_def act_bind_Inr_iff split del: if_split) (elim exE conjE, intro exI, assumption)
      with Cons.IH moved_pair_ranges show ?thesis
        by (auto simp: act_lift_iff split: if_splits)
    qed
  qed
qed (simp add: act_lift_iff)

lemma moved_from_ranges:
  "moved_from cs l r removed hunks paired w = (Inr (hunks', limit), w') \<Longrightarrow>
   hunk_ranges hunks' = hunk_ranges hunks"
proof (induction cs l r removed hunks paired arbitrary: w rule: moved_from.induct)
  case (2 cs l r removed rest hunks paired)
  then show ?case
    by (auto simp: res_simps split: if_splits dest!: find_moved_ranges)
qed (simp add: act_lift_iff)

section \<open>The edits of the hunks\<close>

text \<open>The edit of the right text that puts the left bytes of a hunk in place of its right ones.\<close>

definition left_edit :: "byte list \<Rightarrow> range \<times> range \<Rightarrow> edit" where
  "left_edit t = (\<lambda>(left, right).
     \<lparr>ed_start = fst right, ed_end = snd right, ed_insert = sub (fst left) (snd left) t\<rparr>)"

definition right_edit :: "byte list \<Rightarrow> range \<times> range \<Rightarrow> edit" where
  "right_edit t = (\<lambda>(left, right).
     \<lparr>ed_start = fst left, ed_end = snd left, ed_insert = sub (fst right) (snd right) t\<rparr>)"

lemma left_edit_simps [simp]:
  "ed_start (left_edit t p) = fst (snd p)" "ed_end (left_edit t p) = snd (snd p)"
  "ed_start (right_edit t p) = fst (fst p)" "ed_end (right_edit t p) = snd (fst p)"
  "ed_insert (left_edit t p) = sub (fst (fst p)) (snd (fst p)) t"
  by (simp_all add: left_edit_def right_edit_def split_beta)

lemma steps_to_Cons:
  "steps_to a b (p # ps) x y \<Longrightarrow>
   x \<le> fst p \<and> y \<le> snd p \<and> fst p \<le> length a \<and> snd p \<le> length b \<and>
   (ps = [] \<and> p = (length a, length b) \<or>
    ps \<noteq> [] \<and> line_match a b (fst p) (snd p) \<and> steps_to a b ps (fst p + 1) (snd p + 1))"
  by (cases ps) (auto simp: line_match_def)

lemma ordered_after_range:
  assumes "lines_from t 0 ls" "x \<le> i" "i < length ls" "lines_range ls (length t) x i = (s, e)"
    "ordered (end_before ls (i + 1)) t es"
  shows "ordered e t es"
  using lines_range_bounds(3) [OF assms(1,2) _ assms(4)] assms(3) lines_from_nth [OF assms(1,3)]
  by (intro ordered_le [OF assms(5)]) (simp add: start_of_def end_before_def)

lemma end_before_mono:
  assumes "lines_from t 0 ls" "x \<le> i" "i < length ls"
  shows "end_before ls x \<le> end_before ls (i + 1)"
  using lines_from_nth [OF assms(1,3)] lines_from_order [OF assms(1), of "x - 1" i] assms
  by (cases x) (auto simp: end_before_def)

lemma gap_ranges_ordered:
  assumes "lines_from ta 0 a" "lines_from tb 0 b" "steps_to a b ps x y"
  shows "ordered (end_before b y) tb (map (left_edit u) (gap_ranges a b (length ta) (length tb) ps x y)) \<and>
    ordered (end_before a x) ta (map (right_edit u) (gap_ranges a b (length ta) (length tb) ps x y))"
  using assms(3)
proof (induction ps arbitrary: x y)
  case (Cons p ps)
  note st = steps_to_Cons [OF Cons.prems]
  obtain s e where s: "lines_range a (length ta) x (fst p) = (s, e)"
    by fastforce
  obtain s' e' where s': "lines_range b (length tb) y (snd p) = (s', e')"
    by fastforce
  have le: "x \<le> fst p" "y \<le> snd p" "fst p \<le> length a" "snd p \<le> length b"
    using st by auto
  note bounds = lines_range_bounds(1,2,4,5) [OF assms(1) le(1,3) s]
    lines_range_bounds(1,2,4,5) [OF assms(2) le(2,4) s']
  show ?case
  proof (cases "ps = []")
    case True
    with bounds s s' show ?thesis
      by simp
  next
    case False
    then have m: "line_match a b (fst p) (snd p)" "steps_to a b ps (fst p + 1) (snd p + 1)"
      using st by auto
    then have lt: "fst p < length a" "snd p < length b"
      by (auto simp: line_match_def)
    note ih = Cons.IH [OF m(2)]
    note rest = ordered_after_range [OF assms(1) le(1) lt(1) s conjunct2 [OF ih]]
      ordered_after_range [OF assms(2) le(2) lt(2) s' conjunct1 [OF ih]]
      ordered_le [OF conjunct2 [OF ih] end_before_mono [OF assms(1) le(1) lt(1)]]
      ordered_le [OF conjunct1 [OF ih] end_before_mono [OF assms(2) le(2) lt(2)]]
    with bounds s s' show ?thesis
      by simp
  qed
qed simp

section \<open>Exact lines\<close>

text \<open>Lines that cover a text and keep their bytes.\<close>

fun tiles :: "byte list \<Rightarrow> nat \<Rightarrow> diff_line list \<Rightarrow> bool" where
  "tiles t pos [] \<longleftrightarrow> pos = length t"
| "tiles t pos (l # ls) \<longleftrightarrow>
     ln_start l = pos \<and> pos \<le> ln_end l \<and> ln_end l \<le> length t \<and> ln_text l = sub pos (ln_end l) t \<and>
     tiles t (ln_end l) ls"

lemma normalize_plain: "\<not> ignores (cs_options cs) \<Longrightarrow> normalize cs raw first = raw"
proof -
  assume "\<not> ignores (cs_options cs)"
  moreover have "body @ eol = raw" if "split_eol raw = (body, eol)" for body eol
    using that by (auto simp: split_eol_def strip_suffix_def split: if_splits)
  ultimately show ?thesis
    by (auto simp: normalize_def ignores_def split: prod.splits)
qed

lemma line_list_tiles:
  assumes "t = pre @ concat raws" "\<not> ignores (cs_options cs)"
  shows "tiles t (length pre) (line_list cs (length pre) hint raws)"
  using assms(1)
proof (induction raws arbitrary: pre hint)
  case (Cons raw raws)
  have "tiles t (length (pre @ raw)) (line_list cs (length (pre @ raw)) (hint + 1) raws)"
    using Cons.IH [of "pre @ raw"] Cons.prems by simp
  moreover have "\<not> co_ignore_blank_lines (cs_options cs)"
    using assms(2) by (auto simp: ignores_def)
  ultimately show ?case
    using Cons.prems normalize_plain [OF assms(2)] by (simp add: kept_line_def sub_def)
qed simp

lemma tiles_nth:
  "tiles t pos ls \<Longrightarrow> i < length ls \<Longrightarrow>
   ln_text (ls ! i) = sub (start_of (length t) ls i) (start_of (length t) ls (Suc i)) t \<and>
   ln_end (ls ! i) = start_of (length t) ls (Suc i) \<and> pos \<le> ln_start (ls ! i) \<and>
   ln_start (ls ! i) \<le> ln_end (ls ! i) \<and> ln_end (ls ! i) \<le> length t"
proof (induction ls arbitrary: i pos)
  case (Cons l ls)
  have first: "start_of (length t) (l # ls) (Suc k) = start_of (length t) ls k" for k
    by (simp add: start_of_def)
  have start: "start_of (length t) ls 0 = ln_end l"
    using Cons.prems(1) by (cases ls) (auto simp: start_of_def)
  show ?case
  proof (cases i)
    case 0
    with Cons.prems(1) first [of 0] start show ?thesis
      by (simp add: start_of_def)
  next
    case (Suc k)
    with Cons.IH [of "ln_end l" k] Cons.prems first show ?thesis
      by auto
  qed
qed simp

lemma tiles_range:
  assumes "tiles t 0 ls" "x \<le> i" "i \<le> length ls"
  shows "lines_range ls (length t) x i = (start_of (length t) ls x, start_of (length t) ls i)"
proof (cases "x < i")
  case True
  with tiles_nth [OF assms(1), of "i - 1"] assms(3) show ?thesis
    by (simp add: lines_range_def start_of_def)
next
  case False
  with assms(2) show ?thesis
    by (simp add: lines_range_def start_of_def Let_def)
qed

lemma start_of_step:
  assumes "tiles t 0 ls" "i \<le> length ls"
  shows "start_of (length t) ls i \<le> start_of (length t) ls (Suc i)" "start_of (length t) ls i \<le> length t"
  using tiles_nth [OF assms(1), of i] assms(2) by (auto simp: start_of_def not_less)

lemma start_of_mono:
  assumes "tiles t 0 ls" "x \<le> i" "i \<le> length ls"
  shows "start_of (length t) ls x \<le> start_of (length t) ls i"
  using assms(2,3)
proof (induction i rule: dec_induct)
  case (step k)
  then show ?case
    using start_of_step(1) [OF assms(1), of k] by simp
qed simp

lemma start_of_0: "tiles t 0 ls \<Longrightarrow> start_of (length t) ls 0 = 0"
  by (cases ls) (auto simp: start_of_def)

lemma sub_drop: "s \<le> e \<Longrightarrow> sub s e t @ drop e t = drop s t"
  by (metis append_take_drop_id drop_drop le_add_diff_inverse2 sub_def)

lemma render_skip:
  assumes "ordered pos' t es" "pos \<le> pos'"
  shows "render pos t es = sub pos pos' t @ render pos' t es"
proof (cases es)
  case Nil
  with assms show ?thesis
    by (simp add: sub_drop)
next
  case (Cons e fs)
  with assms show ?thesis
    using sub_split [of pos pos' "ed_start e" t] by simp
qed

text \<open>Replacing each gap of the right text by its left lines gives the left text.\<close>

lemma gap_ranges_render:
  assumes "tiles ta 0 a" "tiles tb 0 b" "lines_from ta 0 a" "lines_from tb 0 b" "steps_to a b ps x y"
  shows "render (start_of (length tb) b y) tb (map (left_edit ta) (gap_ranges a b (length ta) (length tb) ps x y)) =
    drop (start_of (length ta) a x) ta"
  using assms(5)
proof (induction ps arbitrary: x y)
  case (Cons p ps)
  let ?pa = "start_of (length ta) a" and ?pb = "start_of (length tb) b"
  let ?rest = "map (left_edit ta) (gap_ranges a b (length ta) (length tb) ps (fst p + 1) (snd p + 1))"
  note st = steps_to_Cons [OF Cons.prems]
  have range: "lines_range a (length ta) x (fst p) = (?pa x, ?pa (fst p))"
    "lines_range b (length tb) y (snd p) = (?pb y, ?pb (snd p))"
    using tiles_range assms(1,2) st by simp_all
  have le: "?pa x \<le> ?pa (fst p)" "?pb y \<le> ?pb (snd p)"
    using start_of_mono assms(1,2) st by simp_all
  have tail: "render (?pb (snd p)) tb ?rest = drop (?pa (fst p)) ta"
  proof (cases "ps = []")
    case True
    then have "p = (length a, length b)"
      using st by simp
    with True show ?thesis
      by (simp add: start_of_def)
  next
    case False
    then have m: "line_match a b (fst p) (snd p)" "steps_to a b ps (fst p + 1) (snd p + 1)"
      using st by auto
    then have lt: "fst p < length a" "snd p < length b" "ln_text (a ! fst p) = ln_text (b ! snd p)"
      by (auto simp: line_match_def)
    have eb: "end_before b (Suc (snd p)) = ?pb (Suc (snd p))"
      using tiles_nth [OF assms(2) lt(2)] by (simp add: end_before_def)
    have "ordered (?pb (Suc (snd p))) tb ?rest"
      using gap_ranges_ordered [OF assms(3,4) m(2), of ta] by (simp add: eb)
    then have "render (?pb (snd p)) tb ?rest =
        sub (?pb (snd p)) (?pb (Suc (snd p))) tb @ render (?pb (Suc (snd p))) tb ?rest"
      by (rule render_skip) (use start_of_step(1) [OF assms(2), of "snd p"] lt(2) in simp)
    also have "\<dots> = sub (?pa (fst p)) (?pa (Suc (fst p))) ta @ drop (?pa (Suc (fst p))) ta"
      using Cons.IH [OF m(2)] tiles_nth [OF assms(1) lt(1)] tiles_nth [OF assms(2) lt(2)] lt(3) by simp
    also have "\<dots> = drop (?pa (fst p)) ta"
      using start_of_step(1) [OF assms(1), of "fst p"] lt(1) by (intro sub_drop) simp
    finally show ?thesis .
  qed
  show ?case
  proof (cases "x < fst p \<or> y < snd p")
    case True
    with range tail le show ?thesis
      by (simp add: sub_drop)
  next
    case False
    then have "x = fst p" "y = snd p"
      using st by auto
    with tail show ?thesis
      by simp
  qed
qed simp

section \<open>Equal texts\<close>

lemma refill_text: "refill x rest = Some (x', rest') \<Longrightarrow> x' @ concat rest' = x @ concat rest"
  by (auto simp: refill_def split: if_splits list.splits)

lemma refill_None: "refill x rest = None \<Longrightarrow> x = [] \<and> rest = []"
  by (auto simp: refill_def split: if_splits list.splits)

lemma take_min_eq:
  "xs @ us = ys @ vs \<Longrightarrow> n \<le> length xs \<Longrightarrow> n \<le> length ys \<Longrightarrow>
   take n xs = take n ys \<and> drop n xs @ us = drop n ys @ vs"
  by (drule arg_cong [of _ _ "\<lambda>zs. (take n zs, drop n zs)"]) simp

lemma drop_same:
  assumes "take n xs = take n ys"
  shows "drop n xs @ us = drop n ys @ vs \<longleftrightarrow> xs @ us = ys @ vs"
proof -
  have "xs @ us = take n xs @ (drop n xs @ us)" "ys @ vs = take n ys @ (drop n ys @ vs)"
    by simp_all
  with assms show ?thesis
    by (metis same_append_eq)
qed

lemma same_loop_Inr:
  "same_loop cs n x left y right matched w = (Inr res, w') \<Longrightarrow>
   matched + length (x @ concat left) = n \<Longrightarrow> matched + length (y @ concat right) = n \<Longrightarrow>
   res \<longleftrightarrow> x @ concat left = y @ concat right"
proof (induction cs n x left y right matched w rule: same_loop.induct)
  case (1 cs n x left y right matched w)
  obtain r1 w1 where c: "cancelled cs w = (r1, w1)"
    by fastforce
  show ?case
  proof (cases r1)
    case (Inl e)
    with c "1.prems"(1) show ?thesis
      by (simp add: same_loop.simps [of cs n x left y right matched w] act_bind_def)
  next
    case (Inr u)
    note loop = "1.prems"(1) [unfolded same_loop.simps [of cs n x left y right matched w] act_bind_def c Inr]
    show ?thesis
    proof (cases "refill x left")
      case None
      then show ?thesis
        using loop "1.prems"(2,3) refill_None [OF None] None
        by (cases "y @ concat right") auto
    next
      case (Some p)
      obtain x' left' where p: "p = (x', left')"
        by fastforce
      note x' = Some [unfolded p]
      show ?thesis
      proof (cases "refill y right")
        case None
        then show ?thesis
          using loop "1.prems"(2,3) refill_None [OF None] x' by auto
      next
        case (Some q)
        obtain y' right' where q: "q = (y', right')"
          by fastforce
        note y' = Some [unfolded q]
        let ?n = "min (length x') (length y')"
        have texts: "x' @ concat left' = x @ concat left" "y' @ concat right' = y @ concat right"
          using refill_text x' y' by auto
        show ?thesis
        proof (cases "take ?n x' = take ?n y'")
          case True
          then have run: "same_loop cs n (drop ?n x') left' (drop ?n y') right' (matched + ?n) w1 = (Inr res, w')"
            using loop x' y' by (simp add: Let_def)
          have "matched + ?n + length (drop ?n x' @ concat left') = n"
            "matched + ?n + length (drop ?n y' @ concat right') = n"
            using "1.prems"(2,3) texts [THEN arg_cong, of length] by simp_all
          then have "res \<longleftrightarrow> drop ?n x' @ concat left' = drop ?n y' @ concat right'"
            using "1.IH" [OF c [unfolded Inr] x' refl y' refl refl] True run by simp
          also have "\<dots> \<longleftrightarrow> x' @ concat left' = y' @ concat right'"
            using True by (rule drop_same)
          finally show ?thesis
            using texts by simp
        next
          case False
          then show ?thesis
            using loop x' y' texts take_min_eq [of x' "concat left'" y' "concat right'" ?n] by (auto simp: Let_def)
        qed
      qed
    qed
  qed
qed

lemma same_bytes_Inr:
  assumes "good l" "good r" "same_bytes cs l r w = (Inr res, w')"
  shows "res \<longleftrightarrow> snap_text l = snap_text r"
proof (cases "snapshot_len l = snapshot_len r")
  case True
  obtain left right where "all_chunks l = Inr left" "concat left = snap_text l"
      "all_chunks r = Inr right" "concat right = snap_text r"
    using all_chunks_good assms(1,2) by blast
  with True assms show ?thesis
    using same_loop_Inr [of cs "snapshot_len l" "[]" left "[]" right 0]
    by (auto simp: same_bytes_def res_simps snapshot_len_text)
next
  case False
  with assms show ?thesis
    by (auto simp: same_bytes_def res_simps snapshot_len_text)
qed

section \<open>The comparison\<close>

lemma compare_body_Inr:
  assumes "good l" "good r" "compare_body cs l r hash_line w = (Inr (hs, c), w')"
  shows "snap_text l = snap_text r \<and> hs = [] \<and> c = None \<or>
    (\<exists>a b ps w1 w2 w3 w4.
       snapshot_lines cs l w1 = (Inr a, w2) \<and> snapshot_lines cs r w3 = (Inr b, w4) \<and>
       aligned a b (length a) (length b) ps \<and>
       hunk_ranges hs =
         gap_ranges a b (snapshot_len l) (snapshot_len r) (ps @ [(length a, length b)]) 0 0)"
proof -
  from assms(3) consider w1 w2 where "same_bytes cs l r w1 = (Inr True, w2)" "hs = []" "c = None"
    | w1 where "compare_lines cs l r hash_line w1 = (Inr (hs, c), w')"
    unfolding compare_body_def by (auto simp: act_bind_Inr_iff act_lift_iff split: if_split_asm)
  then show ?thesis
  proof cases
    case 1
    then show ?thesis
      using same_bytes_Inr [OF assms(1,2)] by auto
  next
    case 2
    then obtain w3 a w4 b w5 al w6 st w7 hunks limit w8 where run:
      "snapshot_lines cs l w3 = (Inr a, w4)" "snapshot_lines cs r w4 = (Inr b, w5)"
      "anchored cs a b hash_line w5 = (Inr al, w6)"
      "pair_steps cs l r a b (al_coarse al) (al_pairs al @ [(length a, length b)])
         \<lparr>hs_si = 0, hs_sj = 0, hs_anchor = 0, hs_occurrences = Map.empty, hs_hunks = [],
          hs_coarse = al_reason al, hs_refine = True\<rparr> w6 = (Inr st, w7)"
      "moved_from cs l r [0..<length (hs_hunks st)] (hs_hunks st) {} w7 = (Inr (hs, limit), w8)"
      unfolding compare_lines_def by (auto simp: act_bind_Inr_iff act_lift_iff)
    have "aligned a b (length a) (length b) (al_pairs al)"
      using anchored_result [OF run(3)] by simp
    moreover have "hunk_ranges hs =
        gap_ranges a b (snapshot_len l) (snapshot_len r) (al_pairs al @ [(length a, length b)]) 0 0"
      using moved_from_ranges [OF run(5)] pair_steps_Inr [OF run(4)] by auto
    ultimately show ?thesis
      using run(1,2) by blast
  qed
qed

lemma aligned_steps: "aligned a b (length a) (length b) ps \<Longrightarrow> steps_to a b (ps @ [(length a, length b)]) 0 0"
  by (rule anchors_steps) (auto simp: aligned_def)

lemma compare_body_ordered:
  assumes "good l" "good r" "compare_body cs l r hash_line w = (Inr (hs, c), w')"
  shows "ordered 0 (snap_text r) (map (left_edit u) (hunk_ranges hs)) \<and>
    ordered 0 (snap_text l) (map (right_edit u) (hunk_ranges hs))"
  using compare_body_Inr [OF assms]
proof (elim disjE exE conjE)
  fix a b ps w1 w2 w3 w4
  assume "snapshot_lines cs l w1 = (Inr a, w2)" "snapshot_lines cs r w3 = (Inr b, w4)"
    and al: "aligned a b (length a) (length b) ps" and hs: "hunk_ranges hs =
      gap_ranges a b (snapshot_len l) (snapshot_len r) (ps @ [(length a, length b)]) 0 0"
  then have "lines_from (snap_text l) 0 a" "lines_from (snap_text r) 0 b"
    using snapshot_lines_from assms(1,2) by blast+
  from gap_ranges_ordered [OF this aligned_steps [OF al], of u] show ?thesis
    by (simp add: hs snapshot_len_text assms(1,2) end_before_def)
qed simp

lemma compare_body_render:
  assumes "good l" "good r" "\<not> ignores (cs_options cs)" "compare_body cs l r hash_line w = (Inr (hs, c), w')"
  shows "render 0 (snap_text r) (map (left_edit (snap_text l)) (hunk_ranges hs)) = snap_text l"
  using compare_body_Inr [OF assms(1,2,4)]
proof (elim disjE exE conjE)
  fix a b ps w1 w2 w3 w4
  assume lines: "snapshot_lines cs l w1 = (Inr a, w2)" "snapshot_lines cs r w3 = (Inr b, w4)"
    and al: "aligned a b (length a) (length b) ps" and hs: "hunk_ranges hs =
      gap_ranges a b (snapshot_len l) (snapshot_len r) (ps @ [(length a, length b)]) 0 0"
  have ln: "lines_from (snap_text l) 0 a" "lines_from (snap_text r) 0 b"
    using snapshot_lines_from assms(1,2) lines by blast+
  have tiles: "tiles (snap_text l) 0 a" "tiles (snap_text r) 0 b"
    using snapshot_lines_reference [OF assms(1) lines(1)] snapshot_lines_reference [OF assms(2) lines(2)]
      line_list_tiles [of _ "[]" "split_lines _", OF _ assms(3)] by simp_all
  from gap_ranges_render [OF tiles ln aligned_steps [OF al]] show ?thesis
    by (simp add: hs snapshot_len_text assms(1,2) start_of_0 tiles)
qed simp


lemma compare_body_equal:
  assumes "good l" "good r" "compare_body cs l r hash_line w = (Inr (hs, c), w')" "snap_text l = snap_text r"
  shows "hs = []"
proof -
  from assms(3) consider "hs = []" | w1 w2 where "same_bytes cs l r w1 = (Inr False, w2)"
    unfolding compare_body_def by (auto simp: act_bind_Inr_iff act_lift_iff split: if_split_asm)
  then show ?thesis
    using same_bytes_Inr [OF assms(1,2)] assms(4) by cases auto
qed

end
