(* ===== verification/Diff_Total.thy ===== *)
theory Diff_Total
  imports Diff_Hunks
begin

text \<open>
  A comparison of good snapshots never panics: every slice is of whole characters and in range, every
  read is of a valid range, and a run ends early only for a cancellation or a limit.
\<close>

section \<open>Pieces of a text\<close>

text \<open>Words and grapheme clusters cut a text into pieces of whole characters.\<close>

definition cuts :: "(byte list \<Rightarrow> byte list list) \<Rightarrow> bool" where
  "cuts f \<longleftrightarrow> (\<forall>t. valid_utf8 t \<longrightarrow> concat (f t) = t \<and> list_all valid_utf8 (f t))"

lemma common_bytes_Inr:
  "common_bytes cs xs ys n w = (Inr m, w') \<Longrightarrow>
   \<exists>k. m = n + length (concat (take k xs)) \<and> take k xs = take k ys"
proof (induction cs xs ys n arbitrary: w rule: common_bytes.induct)
  case (1 cs x xs y ys n)
  show ?case
  proof (cases "x = y")
    case True
    with "1.prems" obtain w1 where "common_bytes cs xs ys (n + length x) w1 = (Inr m, w')"
      by (auto simp: res_simps)
    with "1.IH" [of w1] True obtain k where "m = n + length x + length (concat (take k xs))" "take k xs = take k ys"
      by auto
    with True show ?thesis
      by (intro exI [of _ "Suc k"]) simp
  next
    case False
    with "1.prems" show ?thesis
      by (intro exI [of _ 0]) (auto simp: res_simps)
  qed
qed (auto simp: res_simps intro!: exI [of _ 0])

lemma common_bytes_Inl: "common_bytes cs xs ys n w = (Inl e, w') \<Longrightarrow> stopped cs e"
  by (induction cs xs ys n arbitrary: w rule: common_bytes.induct)
    (auto simp: res_simps check_Inl split: if_splits)

lemma piece_boundary:
  assumes "list_all valid_utf8 xs"
  shows "char_boundary (concat xs) (length (concat (take k xs)))"
proof -
  have "valid_utf8 (concat (drop k xs))"
    using assms by (intro valid_utf8_concat) (auto simp: list_all_iff dest: in_set_dropD)
  from char_boundary_append_right [OF this, of "concat (take k xs)" "length (concat (take k xs))"] show ?thesis
    by (simp flip: concat_append)
qed

text \<open>The bytes two texts have in common at the front are a slice of whole characters of each.\<close>

lemma common_front:
  assumes "cuts f" "valid_utf8 s" "valid_utf8 t" "common_bytes cs (f s) (f t) 0 w = (Inr n, w')"
  shows "char_boundary s n" "char_boundary t n" "take n s = take n t"
proof -
  obtain k where k: "n = length (concat (take k (f s)))" "take k (f s) = take k (f t)"
    using common_bytes_Inr [OF assms(4)] by auto
  have "concat (f s) = s" "list_all valid_utf8 (f s)" "concat (f t) = t" "list_all valid_utf8 (f t)"
    using assms(1-3) by (auto simp: cuts_def)
  with piece_boundary [of "f s" k] piece_boundary [of "f t" k] k show "char_boundary s n" "char_boundary t n"
    by simp_all
  have "take (length (concat (take k xs))) (concat xs) = concat (take k xs)" for xs :: "byte list list"
    by (metis append_eq_conv_conj append_take_drop_id concat_append)
  from this [of "f s"] this [of "f t"] show "take n s = take n t"
    using k \<open>concat (f s) = s\<close> \<open>concat (f t) = t\<close> by simp
qed

lemma back_boundary:
  assumes "cuts f" "valid_utf8 s" "n = length (concat (take k (rev (f s))))"
  shows "char_boundary s (length s - n)" "n \<le> length s" "drop (length s - n) s = concat (rev (take k (rev (f s))))"
proof -
  have s: "concat (f s) = s" "list_all valid_utf8 (f s)"
    using assms(1,2) by (auto simp: cuts_def)
  let ?m = "length (f s) - k"
  have "n = length (concat (drop ?m (f s)))"
    using assms(3) by (simp add: take_rev length_concat sum_list_rev flip: rev_map)
  moreover have "length s = length (concat (take ?m (f s))) + length (concat (drop ?m (f s)))"
    by (metis append_take_drop_id concat_append length_append s(1))
  ultimately show "char_boundary s (length s - n)" "n \<le> length s"
    using piece_boundary [OF s(2), of ?m] s(1) by simp_all
  have "s = concat (take ?m (f s)) @ concat (drop ?m (f s))"
    using s(1) by (metis append_take_drop_id concat_append)
  moreover have "drop ?m (f s) = rev (take k (rev (f s)))"
    by (simp add: take_rev)
  ultimately show "drop (length s - n) s = concat (rev (take k (rev (f s))))"
    using \<open>n = length (concat (drop ?m (f s)))\<close>
    by (metis append_eq_conv_conj diff_add_inverse2 length_append)
qed

lemma common_end:
  assumes "cuts f" "valid_utf8 s" "valid_utf8 t" "common_bytes cs (rev (f s)) (rev (f t)) 0 w = (Inr n, w')"
  shows "char_boundary s (length s - n)" "n \<le> length s" "char_boundary t (length t - n)" "n \<le> length t"
    "drop (length s - n) s = drop (length t - n) t"
proof -
  obtain k where k: "n = length (concat (take k (rev (f s))))" "take k (rev (f s)) = take k (rev (f t))"
    using common_bytes_Inr [OF assms(4)] by auto
  show "char_boundary s (length s - n)" "n \<le> length s"
    using back_boundary(1,2) [OF assms(1,2) k(1)] .
  show "char_boundary t (length t - n)" "n \<le> length t"
    using back_boundary(1,2) [OF assms(1,3), of n k] k by simp_all
  show "drop (length s - n) s = drop (length t - n) t"
    using back_boundary(3) [OF assms(1,2) k(1)] back_boundary(3) [OF assms(1,3), of n k] k by simp
qed

lemma str_slice_Inr:
  "s \<le> e \<Longrightarrow> char_boundary t s \<Longrightarrow> char_boundary t e \<Longrightarrow> valid_utf8 t \<Longrightarrow>
   \<exists>u. str_slice s e t = Inr u \<and> valid_utf8 u \<and> u = sub s e t"
  by (simp add: str_slice_def valid_utf8_sub)

lemma cancelled_Inl: "cancelled cs w = (Inl e, w') \<Longrightarrow> stopped cs e"
  by (auto simp: cancelled_def stopped_def split: if_splits)

section \<open>Intraline spans\<close>

definition line_in :: "byte list \<Rightarrow> diff_line \<Rightarrow> bool" where
  "line_in t l \<longleftrightarrow> ln_start l \<le> ln_end l \<and> char_boundary t (ln_start l) \<and> char_boundary t (ln_end l)"

lemma line_in_read:
  assumes "good s" "line_in (snap_text s) a"
  shows "read_range s (ln_start a, ln_end a) (ln_end a - ln_start a) =
      Inr (sub (ln_start a) (ln_end a) (snap_text s))"
    "valid_utf8 (sub (ln_start a) (ln_end a) (snap_text s))"
  using snapshot_read_text [OF assms(1), of "ln_start a" "ln_end a"] assms
  by (auto simp: read_range_def line_in_def good_def snap_text_def owned_valid intro!: valid_utf8_sub)

text \<open>What is in common at both ends, in whole characters, without overlap.\<close>

definition shared_ends :: "byte list \<Rightarrow> byte list \<Rightarrow> nat \<Rightarrow> nat \<Rightarrow> bool" where
  "shared_ends s t n m \<longleftrightarrow>
     n + m \<le> length s \<and> n + m \<le> length t \<and> take n s = take n t \<and>
     drop (length s - m) s = drop (length t - m) t \<and>
     char_boundary s n \<and> char_boundary t n \<and>
     char_boundary s (length s - m) \<and> char_boundary t (length t - m)"

lemma common_ends_result:
  assumes "cuts f" "valid_utf8 s" "valid_utf8 t" "common_ends cs f s t w = (r, w')"
  shows "case r of Inr (n, m) \<Rightarrow> shared_ends s t n m | Inl e \<Rightarrow> stopped cs e"
proof -
  obtain r1 w1 where c: "common_bytes cs (f s) (f t) 0 w = (r1, w1)"
    by fastforce
  show ?thesis
  proof (cases r1)
    case (Inl e)
    with c assms(4) common_bytes_Inl show ?thesis
      by (auto simp: common_ends_def act_bind_def)
  next
    case (Inr n)
    note front = common_front [OF assms(1-3) c [unfolded Inr]]
    have le: "n \<le> length s" "n \<le> length t"
      using front by (auto dest: char_boundary_le)
    obtain s1 where s1: "str_slice n (length s) s = Inr s1" "valid_utf8 s1" "s1 = drop n s"
      using str_slice_Inr [OF le(1) front(1) _ assms(2)] by (auto simp: sub_to_end)
    obtain t1 where t1: "str_slice n (length t) t = Inr t1" "valid_utf8 t1" "t1 = drop n t"
      using str_slice_Inr [OF le(2) front(2) _ assms(3)] by (auto simp: sub_to_end)
    obtain r2 w2 where d: "common_bytes cs (rev (f s1)) (rev (f t1)) 0 w1 = (r2, w2)"
      by fastforce
    show ?thesis
    proof (cases r2)
      case (Inl e)
      with c d assms(4) \<open>r1 = Inr n\<close> s1(1) t1(1) common_bytes_Inl show ?thesis
        by (auto simp: common_ends_def act_bind_def act_lift_def)
    next
      case (Inr m)
      then have r: "r = Inr (n, m)"
        using c d assms(4) \<open>r1 = Inr n\<close> s1(1) t1(1)
        by (auto simp: common_ends_def act_bind_def act_lift_def)
      note last = common_end [OF assms(1) s1(2) t1(2) d [unfolded Inr]]
      have m: "n + m \<le> length s" "n + m \<le> length t"
        using last(2,4) le by (simp_all add: s1(3) t1(3))
      have "char_boundary s (length s - m)"
        using last(1) m(1) valid_utf8_cut [OF assms(2) front(1)] s1(3)
          char_boundary_append_right [of "drop n s" "take n s" "length s - m"] by (simp add: add.commute)
      moreover have "char_boundary t (length t - m)"
        using last(3) m(2) valid_utf8_cut [OF assms(3) front(2)] t1(3)
          char_boundary_append_right [of "drop n t" "take n t" "length t - m"] by (simp add: add.commute)
      moreover have "drop (length s - m) s = drop (length t - m) t"
        using last(5) m by (simp add: s1(3) t1(3))
      ultimately show ?thesis
        using r m front by (simp add: shared_ends_def)
    qed
  qed
qed


text \<open>A span of two lines: inside both, and outside it both have the same bytes.\<close>

definition span_ok :: "byte list \<Rightarrow> byte list \<Rightarrow> diff_line \<Rightarrow> diff_line \<Rightarrow> span \<Rightarrow> bool" where
  "span_ok s t a b sp \<longleftrightarrow>
     ln_start a \<le> fst (sp_left sp) \<and> fst (sp_left sp) \<le> snd (sp_left sp) \<and> snd (sp_left sp) \<le> ln_end a \<and>
     ln_start b \<le> fst (sp_right sp) \<and> fst (sp_right sp) \<le> snd (sp_right sp) \<and> snd (sp_right sp) \<le> ln_end b \<and>
     sub (ln_start a) (fst (sp_left sp)) s = sub (ln_start b) (fst (sp_right sp)) t \<and>
     sub (snd (sp_left sp)) (ln_end a) s = sub (snd (sp_right sp)) (ln_end b) t"

lemma shared_ends_inner:
  assumes "shared_ends s t n m" "shared_ends (sub n (length s - m) s) (sub n (length t - m) t) n' m'"
  shows "n + n' + (m + m') \<le> length s" "n + n' + (m + m') \<le> length t" "take (n + n') s = take (n + n') t"
    "drop (length s - (m + m')) s = drop (length t - (m + m')) t"
proof -
  have le: "n + m \<le> length s" "n + m \<le> length t" "n' + m' \<le> length s - m - n" "n' + m' \<le> length t - m - n"
    using assms by (auto simp: shared_ends_def)
  then show "n + n' + (m + m') \<le> length s" "n + n' + (m + m') \<le> length t"
    by linarith+
  have "take (n + n') u = take n u @ take n' (sub n (length u - m) u)" if "n + m \<le> length u" "n' + m' \<le> length u - m - n" for u :: "byte list"
    using that by (simp add: sub_def take_add min_def)
  from this [OF le(1,3)] this [OF le(2,4)] assms show "take (n + n') s = take (n + n') t"
    by (simp add: shared_ends_def)
  have "drop (length u - (m + m')) u = drop (length (sub n (length u - m) u) - m') (sub n (length u - m) u) @ drop (length u - m) u"
    if "n + m \<le> length u" "n' + m' \<le> length u - m - n" for u :: "byte list"
  proof -
    have "sub (length u - (m + m')) (length u - m) u @ sub (length u - m) (length u) u = sub (length u - (m + m')) (length u) u"
      using that by (intro sub_split) auto
    moreover have "drop (length (sub n (length u - m) u) - m') (sub n (length u - m) u) = sub (length u - (m + m')) (length u - m) u"
      using that by (simp add: sub_def drop_take)
    ultimately show ?thesis
      by (simp add: sub_to_end)
  qed
  from this [OF le(1,3)] this [OF le(2,4)] assms
  show "drop (length s - (m + m')) s = drop (length t - (m + m')) t"
    by (simp add: shared_ends_def)
qed

lemma sub_take: "k \<le> length (sub s e t) \<Longrightarrow> take k (sub s e t) = sub s (s + k) t"
  by (simp add: sub_def)

lemma sub_end:
  "s + length (sub s e t) = e \<Longrightarrow> k \<le> length (sub s e t) \<Longrightarrow>
   drop (length (sub s e t) - k) (sub s e t) = sub (e - k) e t"
  by (simp add: sub_def drop_take)

lemma intraline_result:
  assumes "good l" "good r" "line_in (snap_text l) a" "line_in (snap_text r) b"
    "cuts (cs_words cs)" "cuts (cs_graphemes cs)" "intraline cs l r a b w = (res, w')"
  shows "case res of Inr sp \<Rightarrow> span_ok (snap_text l) (snap_text r) a b sp | Inl e \<Rightarrow> stopped cs e"
proof -
  define s where "s = sub (ln_start a) (ln_end a) (snap_text l)"
  define t where "t = sub (ln_start b) (ln_end b) (snap_text r)"
  have read: "read_range l (ln_start a, ln_end a) (ln_end a - ln_start a) = Inr s" "valid_utf8 s"
    "read_range r (ln_start b, ln_end b) (ln_end b - ln_start b) = Inr t" "valid_utf8 t"
    using line_in_read [OF assms(1,3)] line_in_read [OF assms(2,4)] by (simp_all add: s_def t_def)
  have len: "ln_start a + length s = ln_end a" "ln_start b + length t = ln_end b"
    using assms(3,4) by (auto simp: line_in_def s_def t_def dest: char_boundary_le)
  obtain r1 w1 where c: "common_ends cs (cs_words cs) s t w = (r1, w1)"
    by fastforce
  note outer = common_ends_result [OF assms(5) read(2,4) c]
  show ?thesis
  proof (cases r1)
    case (Inl e)
    with c outer read(1,3) assms(7) show ?thesis
      by (auto simp: intraline_def act_bind_def act_lift_def)
  next
    case (Inr p)
    obtain n m where p: "p = (n, m)"
      by fastforce
    have nm: "shared_ends s t n m"
      using outer Inr p by simp
    obtain lm where lm: "str_slice n (length s - m) s = Inr lm" "valid_utf8 lm" "lm = sub n (length s - m) s"
      using str_slice_Inr [of n "length s - m" s] nm read(2) by (auto simp: shared_ends_def)
    obtain rm where rm: "str_slice n (length t - m) t = Inr rm" "valid_utf8 rm" "rm = sub n (length t - m) t"
      using str_slice_Inr [of n "length t - m" t] nm read(4) by (auto simp: shared_ends_def)
    obtain r2 w2 where d: "common_ends cs (cs_graphemes cs) lm rm w1 = (r2, w2)"
      by fastforce
    note inner = common_ends_result [OF assms(6) lm(2) rm(2) d]
    show ?thesis
    proof (cases r2)
      case (Inl e)
      with c d Inr p inner read(1,3) lm(1) rm(1) assms(7) \<open>r1 = Inr p\<close> show ?thesis
        by (auto simp: intraline_def act_bind_def act_lift_def)
    next
      case (Inr q)
      obtain n' m' where q: "q = (n', m')"
        by fastforce
      have res: "res = Inr \<lparr>sp_left = (ln_start a + n + n', ln_end a - m - m'), sp_right = (ln_start b + n + n', ln_end b - m - m')\<rparr>"
        using c d p q Inr read(1,3) lm(1) rm(1) assms(7) \<open>r1 = Inr p\<close>
        by (auto simp: intraline_def act_bind_def act_lift_def)
      have "shared_ends (sub n (length s - m) s) (sub n (length t - m) t) n' m'"
        using inner Inr q lm(3) rm(3) by simp
      note both = shared_ends_inner [OF nm this]
      have "sub (ln_start a) (ln_start a + (n + n')) (snap_text l) = take (n + n') s"
        "sub (ln_start b) (ln_start b + (n + n')) (snap_text r) = take (n + n') t"
        using both(1,2) len by (auto simp: s_def t_def intro!: sub_take [symmetric])
      moreover have "sub (ln_end a - (m + m')) (ln_end a) (snap_text l) = drop (length s - (m + m')) s"
        "sub (ln_end b - (m + m')) (ln_end b) (snap_text r) = drop (length t - (m + m')) t"
        using both(1,2) len by (auto simp: s_def t_def intro!: sub_end [symmetric])
      ultimately show ?thesis
        using both len unfolding res by (simp add: span_ok_def add.assoc) linarith
    qed
  qed
qed

section \<open>Every run ends for a reason\<close>

definition ended :: "setting \<Rightarrow> completeness \<Rightarrow> bool" where
  "ended cs e \<longleftrightarrow> stopped cs e \<or> e = Coarse LinesLimit \<or> e = Coarse BytesLimit"

lemma push_line_Inl: "push_line cs out raw s e hint w = (Inl c, w') \<Longrightarrow> ended cs c"
  by (auto simp: push_line_def res_simps Let_def ended_def split: if_splits dest: reserve_Inl)

lemma end_line_Inl: "end_line cs st w = (Inl c, w') \<Longrightarrow> ended cs c"
  by (auto simp: end_line_def res_simps dest: push_line_Inl)

lemma line_within_Inl: "line_within st = Inl c \<Longrightarrow> ended cs c"
  by (auto simp: line_within_def ended_def split: if_splits)

lemma scan_chunk_Inl: "scan_chunk cs rest st w = (Inl c, w') \<Longrightarrow> ended cs c"
proof (induction cs rest st w rule: scan_chunk.induct)
  case (1 cs rest st w)
  show ?case
  proof (cases "rest = []")
    case True
    with "1.prems" show ?thesis
      by (simp add: scan_chunk.simps)
  next
    case False
    show ?thesis
    proof (cases "sc_pending_cr st")
      case pending: True
      show ?thesis
      proof (cases "strip_prefix [LF] rest")
        case None
        with "1.prems" False pending "1.IH"(1) [OF False pending refl None] end_line_Inl show ?thesis
          by (auto simp: scan_chunk.simps [of cs rest st w] act_bind_Inl_iff Let_def)
      next
        case (Some tail)
        with "1.prems" False pending "1.IH"(2) [OF False pending refl Some] end_line_Inl show ?thesis
          by (auto simp: scan_chunk.simps [of cs rest st w] act_bind_Inl_iff Let_def)
      qed
    next
      case plain: False
      show ?thesis
      proof (cases "find_eol rest")
        case None
        with "1.prems" False plain line_within_Inl show ?thesis
          by (auto simp: scan_chunk.simps [of cs rest st w] act_bind_Inl_iff act_lift_iff Let_def)
      next
        case (Some k)
        let ?st = "st\<lparr>sc_raw := sc_raw st @ take (k + 1) rest, sc_offset := sc_offset st + (k + 1)\<rparr>"
        have "act_bind (if rest ! k = CR then act_lift (Inr (?st\<lparr>sc_pending_cr := True\<rparr>)) else end_line cs ?st)
          (\<lambda>st. act_bind (act_lift (line_within st)) (\<lambda>_. scan_chunk cs (drop (k + 1) rest) st)) w = (Inl c, w')"
          using "1.prems" False plain Some by (simp add: scan_chunk.simps [of cs rest st w] Let_def split del: if_split cong: if_cong)
        then consider "end_line cs ?st w = (Inl c, w')" | st2 where "line_within st2 = Inl c"
          | st2 w2 x w3 where "(if rest ! k = CR then act_lift (Inr (?st\<lparr>sc_pending_cr := True\<rparr>)) else end_line cs ?st) w = (Inr st2, w2)"
            "act_lift (line_within st2) w2 = (Inr x, w3)" "scan_chunk cs (drop (k + 1) rest) st2 w3 = (Inl c, w')"
          unfolding act_bind_Inl_iff by (elim disjE exE conjE) (auto simp: act_lift_iff split: if_split_asm)
        then show ?thesis
        proof cases
          case 3
          show ?thesis
            using "1.IH"(3) [OF False plain Some refl refl 3(1,2,3)] .
        qed (use end_line_Inl line_within_Inl in blast)+
      qed
    qed
  qed
qed

lemma scan_chunks_Inl: "scan_chunks cs ts st w = (Inl c, w') \<Longrightarrow> ended cs c"
  by (induction ts arbitrary: st w) (auto simp: res_simps ended_def dest: check_Inl scan_chunk_Inl)

lemma snapshot_lines_Inl:
  assumes "good s" "snapshot_lines cs s w = (Inl c, w')"
  shows "ended cs c"
proof -
  let ?st = "\<lparr>sc_out = [], sc_raw = [], sc_start = 0, sc_offset = 0, sc_hint = 0, sc_pending_cr = False\<rparr>"
  obtain ts where ts: "all_chunks s = Inr ts" "concat ts = snap_text s"
    using all_chunks_good [OF assms(1)] by blast
  have "sc_offset st = snapshot_len s" if "scan_chunks cs ts ?st w1 = (Inr st, w2)" for st w1 w2
    using scan_chunks_expected [OF that, of "[]"] ts(2) assms(1) by (simp add: scan_ok_def snapshot_len_text)
  with assms(2) ts(1) show ?thesis
    by (auto simp: snapshot_lines_def res_simps split: if_splits dest: scan_chunks_Inl push_line_Inl)
qed

lemma content_id_Inl: "content_id cs ls acc w = (Inl e, w') \<Longrightarrow> stopped cs e"
  by (induction ls arbitrary: acc w) (auto simp: act_bind_Inl_iff act_lift_iff dest: cancelled_Inl)

lemma spans_Inl:
  assumes "spans cs l r pairs acc w = (Inl e, w')" "good l" "good r" "cuts (cs_words cs)" "cuts (cs_graphemes cs)"
    "\<forall>p\<in>set pairs. line_in (snap_text l) (fst p) \<and> line_in (snap_text r) (snd p)"
  shows "stopped cs e"
  using assms(1,6)
proof (induction pairs arbitrary: acc w)
  case (Cons p pairs)
  obtain al bl where p: "p = (al, bl)"
    by fastforce
  obtain r1 w1 where v: "reserve cs (cs_span_size cs) w = (r1, w1)"
    by fastforce
  obtain r2 w2 where i: "intraline cs l r al bl w1 = (r2, w2)"
    by fastforce
  have res: "case r2 of Inr sp \<Rightarrow> span_ok (snap_text l) (snap_text r) al bl sp | Inl e \<Rightarrow> stopped cs e"
    using intraline_result [OF assms(2,3) _ _ assms(4,5) i] Cons.prems(2) by (simp add: p)
  show ?case
  proof (cases r1)
    case (Inl e')
    with v Cons.prems(1) show ?thesis
      by (auto simp: p act_bind_def dest: reserve_Inl)
  next
    case (Inr u)
    show ?thesis
    proof (cases r2)
      case (Inl e')
      with v i Inr Cons.prems(1) \<open>r1 = Inr u\<close> res show ?thesis
        by (auto simp: p act_bind_def split: completeness.splits)
    next
      case (Inr sp)
      with v i Cons.prems(1) \<open>r1 = Inr u\<close> have "spans cs l r pairs (acc @ [sp]) w2 = (Inl e, w')"
        by (simp add: p act_bind_def)
      with Cons.IH Cons.prems(2) show ?thesis
        by simp
    qed
  qed
qed (simp add: act_lift_iff)

lemma hunk_before_Inl:
  assumes "hunk_before cs l r a b blocks i j st w = (Inl e, w')" "good l" "good r"
    "cuts (cs_words cs)" "cuts (cs_graphemes cs)" "list_all (line_in (snap_text l)) a" "list_all (line_in (snap_text r)) b"
    "hs_si st \<le> i" "i \<le> length a" "hs_sj st \<le> j" "j \<le> length b"
  shows "stopped cs e"
proof -
  let ?als = "sub (hs_si st) i a" and ?bls = "sub (hs_sj st) j b"
  have "set ?als \<subseteq> set a" "set ?bls \<subseteq> set b"
    by (auto simp: sub_def dest!: in_set_takeD in_set_dropD)
  then have pairs: "\<forall>p\<in>set (zip ?als ?bls). line_in (snap_text l) (fst p) \<and> line_in (snap_text r) (snd p)"
    using assms(6,7) by (force simp: list_all_iff dest: set_zip_leftD set_zip_rightD)
  have slices: "slice (hs_si st) i a = Inr ?als" "slice (hs_sj st) j b = Inr ?bls"
    using assms(8-11) by (simp_all add: slice_def)
  show ?thesis
    using assms(1) slices spans_Inl [OF _ assms(2-5) pairs]
    unfolding hunk_before_def Let_def act_bind_Inl_iff
    by (elim disjE exE conjE)
      (auto simp: act_lift_iff dest: reserve_Inl content_id_Inl split: if_split_asm prod.splits)
qed


lemma pair_steps_Inl:
  assumes "good l" "good r" "cuts (cs_words cs)" "cuts (cs_graphemes cs)"
    "list_all (line_in (snap_text l)) a" "list_all (line_in (snap_text r)) b"
  shows "pair_steps cs l r a b blocks ps st w = (Inl e, w') \<Longrightarrow> steps_to a b ps (hs_si st) (hs_sj st) \<Longrightarrow> stopped cs e"
proof (induction ps arbitrary: st w)
  case (Cons p ps)
  note step = steps_to_Cons [OF Cons.prems(2)]
  obtain i j where p: "p = (i, j)"
    by fastforce
  consider (now) w1 where "pair_step cs l r a b blocks p st w = (Inl e, w1)"
    | (later) st1 w1 where "pair_step cs l r a b blocks p st w = (Inr st1, w1)"
        "pair_steps cs l r a b blocks ps st1 w1 = (Inl e, w')"
    using Cons.prems(1) by (auto simp: act_bind_Inl_iff)
  then show ?case
  proof cases
    case now
    then consider w2 w3 where "cancelled cs w2 = (Inl e, w3)"
      | w2 w3 where "hunk_before cs l r a b blocks i j st w2 = (Inl e, w3)"
      by (auto simp: p pair_step_def act_bind_Inl_iff act_lift_iff split: if_splits)
    then show ?thesis
      using cancelled_Inl hunk_before_Inl [OF _ assms] step p by cases auto
  next
    case later
    show ?thesis
    proof (cases "ps = []")
      case True
      with later(2) show ?thesis
        by (simp add: act_lift_iff)
    next
      case False
      with step pair_step_Inr [OF later(1)] Cons.IH [OF later(2)] show ?thesis
        by auto
    qed
  qed
qed simp

text \<open>Ranges that can be read.\<close>

definition readable :: "byte list \<Rightarrow> range \<Rightarrow> bool" where
  "readable t r \<longleftrightarrow> fst r \<le> snd r \<and> char_boundary t (fst r) \<and> char_boundary t (snd r)"

lemma readable_read:
  assumes "good s" "readable (snap_text s) r" "range_size r \<le> max_bytes"
  shows "read_range s r max_bytes = Inr (sub (fst r) (snd r) (snap_text s))"
  using snapshot_read_text [OF assms(1), of "fst r" "snd r" max_bytes] assms(2,3)
  by (simp add: read_range_def readable_def range_size_def)

definition readable_hunks :: "snapshot \<Rightarrow> snapshot \<Rightarrow> (range \<times> range) list \<Rightarrow> bool" where
  "readable_hunks l r ps \<longleftrightarrow> list_all (\<lambda>(left, right). readable (snap_text l) left \<and> readable (snap_text r) right) ps"

lemma find_moved_Inl:
  assumes "good l" "good r" "readable_hunks l r (hunk_ranges hunks)" "removed < length hunks"
    "sat_add (snapshot_len l) (snapshot_len r) \<le> rl_max_bytes_exact (limits cs)"
  shows "find_moved cs l r removed added hunks paired w = (Inl e, w') \<Longrightarrow> \<forall>n\<in>set added. n < length hunks \<Longrightarrow> stopped cs e"
proof (induction added arbitrary: w)
  case (Cons n added)
  let ?again = "find_moved cs l r removed added hunks paired"
  let ?n = "hunks ! n" and ?lr = "hk_left (hunks ! removed)" and ?rr = "hk_right (hunks ! n)"
  obtain r1 w1 where c: "check cs w = (r1, w1)"
    by fastforce
  have range: "readable (snap_text l) ?lr" "readable (snap_text r) ?rr"
    using assms(3,4) Cons.prems(2) by (auto simp: readable_hunks_def list_all_length)
  show ?case
  proof (cases r1)
    case (Inl e')
    with c Cons.prems(1) check_Inl [OF c [unfolded Inl]] show ?thesis
      by (auto split: completeness.splits)
  next
    case (Inr u)
    consider (again) "n \<in> paired \<or> hk_kind ?n \<noteq> Added \<or> range_size ?lr > 64 * 1024 \<or> range_size ?lr \<noteq> range_size ?rr"
      | (read) "n \<notin> paired" "hk_kind ?n = Added" "range_size ?lr \<le> 64 * 1024" "range_size ?lr = range_size ?rr"
      by fastforce
    then show ?thesis
    proof cases
      case again
      with c Inr Cons.prems(1) have "?again w1 = (Inl e, w')"
        by (auto simp: Let_def split: if_split_asm)
      with Cons.IH Cons.prems(2) show ?thesis
        by simp
    next
      case read
      have "snd ?lr \<le> snapshot_len l"
        using range(1) assms(1) by (auto simp: readable_def snapshot_len_text dest: char_boundary_le)
      then have "range_size ?lr \<le> sat_add (snapshot_len l) (snapshot_len r)"
        using read(3) by (simp add: range_size_def sat_add_def usize_max_def)
      then have size: "range_size ?lr \<le> rl_max_bytes_exact (limits cs)" "range_size ?rr \<le> rl_max_bytes_exact (limits cs)"
        using assms(5) read(4) by linarith+
      note reads = readable_read [OF assms(1) range(1) size(1)] readable_read [OF assms(2) range(2) size(2)]
      have "\<exists>w2. ?again w2 = (Inl e, w')"
        using c Inr Cons.prems(1) read reads
        by (auto simp: Let_def act_bind_Inl_iff act_lift_iff split: if_split_asm)
      with Cons.IH Cons.prems(2) show ?thesis
        by auto
    qed
  qed
qed (simp add: act_lift_iff)

lemma moved_from_Inl:
  assumes "good l" "good r" "sat_add (snapshot_len l) (snapshot_len r) \<le> rl_max_bytes_exact (limits cs)"
  shows "moved_from cs l r removed hunks paired w = (Inl e, w') \<Longrightarrow> readable_hunks l r (hunk_ranges hunks) \<Longrightarrow>
    \<forall>n\<in>set removed. n < length hunks \<Longrightarrow> stopped cs e"
proof (induction removed arbitrary: hunks paired w)
  case (Cons n removed)
  show ?case
  proof (cases "hk_kind (hunks ! n) = Removed")
    case True
    let ?find = "find_moved cs l r n [n - 64..<min (length hunks) (n + 65)] hunks paired"
    from Cons.prems(1) True consider w1 where "?find w = (Inl e, w1)"
      | hunks' paired' limit w1 where "?find w = (Inr (hunks', paired', limit), w1)"
          "moved_from cs l r removed hunks' paired' w1 = (Inl e, w')"
      by (auto simp: act_bind_Inl_iff act_lift_iff split: if_split_asm)
    then show ?thesis
    proof cases
      case 1
      then show ?thesis
        using find_moved_Inl [OF assms(1,2) Cons.prems(2) _ assms(3)] Cons.prems(3) by auto
    next
      case 2
      have ranges: "hunk_ranges hunks' = hunk_ranges hunks"
        by (rule find_moved_ranges [OF 2(1)])
      then have "length hunks' = length hunks"
        by (rule map_eq_imp_length_eq)
      then show ?thesis
        using Cons.IH [OF 2(2)] Cons.prems(2,3) ranges by simp
    qed
  next
    case False
    with Cons show ?thesis
      by (auto split: if_split_asm)
  qed
qed (simp add: act_lift_iff)

lemma lines_from_line_in: "lines_from t pos ls \<Longrightarrow> list_all (line_in t) ls"
  by (induction ls arbitrary: pos) (auto simp: line_in_def)

lemma ordered_readable:
  "ordered pos t (map (left_edit u) ps) \<Longrightarrow> list_all (\<lambda>(left, right). readable t right) ps"
  "ordered pos t (map (right_edit u) ps) \<Longrightarrow> list_all (\<lambda>(left, right). readable t left) ps"
  by (induction ps arbitrary: pos) (auto simp: readable_def)

lemma compare_lines_Inl:
  assumes "compare_lines cs l r hash_line w = (Inl e, w')" "good l" "good r" "cuts (cs_words cs)" "cuts (cs_graphemes cs)"
    "sat_add (snapshot_len l) (snapshot_len r) \<le> rl_max_bytes_exact (limits cs)"
  shows "ended cs e"
proof -
  consider (left) w1 where "snapshot_lines cs l w = (Inl e, w1)"
    | (right) w1 w2 where "snapshot_lines cs r w1 = (Inl e, w2)"
    | (anchor) a b w1 w2 where "anchored cs a b hash_line w1 = (Inl e, w2)"
    | (pairs) a w1 w2 b w3 al w4 where "snapshot_lines cs l w = (Inr a, w1)" "snapshot_lines cs r w1 = (Inr b, w2)"
        "anchored cs a b hash_line w2 = (Inr al, w3)"
        "pair_steps cs l r a b (al_coarse al) (al_pairs al @ [(length a, length b)])
          \<lparr>hs_si = 0, hs_sj = 0, hs_anchor = 0, hs_occurrences = Map.empty, hs_hunks = [],
           hs_coarse = al_reason al, hs_refine = True\<rparr> w3 = (Inl e, w4)"
    | (moved) a w1 w2 b w3 al w4 st w5 where "snapshot_lines cs l w = (Inr a, w1)" "snapshot_lines cs r w1 = (Inr b, w2)"
        "anchored cs a b hash_line w2 = (Inr al, w3)"
        "pair_steps cs l r a b (al_coarse al) (al_pairs al @ [(length a, length b)])
          \<lparr>hs_si = 0, hs_sj = 0, hs_anchor = 0, hs_occurrences = Map.empty, hs_hunks = [],
           hs_coarse = al_reason al, hs_refine = True\<rparr> w3 = (Inr st, w4)"
        "moved_from cs l r [0..<length (hs_hunks st)] (hs_hunks st) {} w4 = (Inl e, w5)"
    using assms(1) unfolding compare_lines_def by (auto simp: act_bind_Inl_iff act_lift_iff)
  then show ?thesis
  proof cases
    case left
    then show ?thesis
      by (rule snapshot_lines_Inl [OF assms(2)])
  next
    case right
    then show ?thesis
      by (rule snapshot_lines_Inl [OF assms(3)])
  next
    case anchor
    then show ?thesis
      using anchored_result [OF anchor] by (simp add: ended_def)
  next
    case pairs
    have "list_all (line_in (snap_text l)) a" "list_all (line_in (snap_text r)) b"
      using snapshot_lines_from assms(2,3) pairs(1,2) lines_from_line_in by blast+
    from pair_steps_Inl [OF assms(2-5) this pairs(4)] aligned_steps anchored_result [OF pairs(3)] show ?thesis
      by (simp add: ended_def)
  next
    case moved
    have ln: "lines_from (snap_text l) 0 a" "lines_from (snap_text r) 0 b"
      using snapshot_lines_from assms(2,3) moved(1,2) by blast+
    have steps: "steps_to a b (al_pairs al @ [(length a, length b)]) 0 0"
      using anchored_result [OF moved(3)] aligned_steps by simp
    have "hunk_ranges (hs_hunks st) =
        gap_ranges a b (snapshot_len l) (snapshot_len r) (al_pairs al @ [(length a, length b)]) 0 0"
      using pair_steps_Inr [OF moved(4)] by auto
    with gap_ranges_ordered [OF ln steps] ordered_readable
    have "readable_hunks l r (hunk_ranges (hs_hunks st))"
      unfolding readable_hunks_def list_all_iff snapshot_len_text [OF assms(2)] snapshot_len_text [OF assms(3)]
      by (metis (no_types, lifting) case_prodI2 case_prodD)
    with moved_from_Inl [OF assms(2,3,6) moved(5)] show ?thesis
      by (simp add: ended_def)
  qed
qed

lemma same_loop_Inl: "same_loop cs n x left y right matched w = (Inl e, w') \<Longrightarrow> stopped cs e"
proof (induction cs n x left y right matched w rule: same_loop.induct)
  case (1 cs n x left y right matched w)
  obtain r1 w1 where c: "cancelled cs w = (r1, w1)"
    by fastforce
  show ?case
  proof (cases r1)
    case (Inl e')
    with c "1.prems" cancelled_Inl [OF c [unfolded Inl]] show ?thesis
      by (simp add: same_loop.simps [of cs n x left y right matched w] act_bind_def)
  next
    case (Inr u)
    note loop = "1.prems" [unfolded same_loop.simps [of cs n x left y right matched w] act_bind_def c Inr]
    then obtain x' left' y' right' where fill: "refill x left = Some (x', left')" "refill y right = Some (y', right')"
      by (auto split: option.splits)
    let ?n = "min (length x') (length y')"
    have "take ?n x' = take ?n y'"
        "same_loop cs n (drop ?n x') left' (drop ?n y') right' (matched + ?n) w1 = (Inl e, w')"
      using loop fill by (auto simp: Let_def split: if_split_asm)
    with "1.IH" [OF c [unfolded Inr] fill(1) refl fill(2) refl refl] show ?thesis
      by simp
  qed
qed

lemma same_bytes_Inl:
  assumes "good l" "good r" "same_bytes cs l r w = (Inl e, w')"
  shows "stopped cs e"
proof -
  obtain left right where "all_chunks l = Inr left" "all_chunks r = Inr right"
    using all_chunks_good assms(1,2) by blast
  with assms(3) show ?thesis
    by (auto simp: same_bytes_def res_simps split: if_split_asm dest: same_loop_Inl)
qed

text \<open>The reasons a comparison may end early.\<close>

lemma compare_body_Inl:
  assumes "compare_body cs l r hash_line w = (Inl e, w')" "good l" "good r" "cuts (cs_words cs)" "cuts (cs_graphemes cs)"
  shows "ended cs e \<or> e = Failed \<and> rl_max_memory_bytes (limits cs) < cs_hunk_size cs * 2 \<or>
    e = Unavailable \<and> \<not> (sn_complete l \<and> sn_complete r)"
proof -
  from assms(1) consider "e = Unavailable" "\<not> (sn_complete l \<and> sn_complete r)" | w1 where "cancelled cs w = (Inl e, w1)"
    | "e = Failed" "rl_max_memory_bytes (limits cs) < cs_hunk_size cs * 2"
    | w1 w2 where "check cs w1 = (Inl e, w2)" | w1 w2 where "same_bytes cs l r w1 = (Inl e, w2)" | "e = Coarse BytesLimit"
    | w1 where "sat_add (snapshot_len l) (snapshot_len r) \<le> rl_max_bytes_exact (limits cs)"
        "compare_lines cs l r hash_line w1 = (Inl e, w')"
    unfolding compare_body_def
    by (auto simp: act_bind_Inl_iff act_lift_iff not_less split: if_split_asm)
  then show ?thesis
    using cancelled_Inl check_Inl same_bytes_Inl [OF assms(2,3)] compare_lines_Inl [OF _ assms(2-5)]
    by cases (auto simp: ended_def)
qed

section \<open>Coarse blocks have a reason\<close>

lemma middle_reason:
  assumes "middle cs a b x y xe ye out w = (Inr out', w')" "al_reason out' = Some c"
  shows "al_reason out = Some c \<or> stopped cs (Coarse c)"
proof (cases "x < xe \<and> y < ye")
  case True
  obtain r1 w1 where m: "myers cs (sub x xe a) (sub y ye b) w = (r1, w1)"
    by fastforce
  with True assms myers_Inl [of cs "sub x xe a" "sub y ye b" w _ w1] show ?thesis
    by (cases r1) (auto simp: middle_def split: completeness.splits option.splits)
next
  case False
  with assms show ?thesis
    by (auto simp: middle_def)
qed

lemma gap_reason:
  assumes "gap cs a b p x y out w = (Inr out', w')" "al_reason out' = Some c"
  shows "al_reason out = Some c \<or> stopped cs (Coarse c)"
  using assms by (cases p)
    (auto simp: gap_def act_bind_Inr_iff act_lift_iff dest!: middle_reason split: prod.splits)

lemma gaps_reason:
  "gaps cs a b ps x y out w = (Inr out', w') \<Longrightarrow> al_reason out' = Some c \<Longrightarrow>
   al_reason out = Some c \<or> stopped cs (Coarse c)"
  by (induction ps arbitrary: x y out w) (auto simp: act_bind_Inr_iff act_lift_iff dest: gap_reason)

lemma anchored_reason:
  "anchored cs a b hash_line w = (Inr out, w') \<Longrightarrow> al_reason out = Some c \<Longrightarrow> stopped cs (Coarse c)"
  by (auto simp: anchored_def act_bind_Inr_iff dest!: gaps_reason)

lemma spans_reason:
  assumes "spans cs l r pairs acc w = (Inr (sps, Some c), w')" "good l" "good r" "cuts (cs_words cs)" "cuts (cs_graphemes cs)"
    "\<forall>p\<in>set pairs. line_in (snap_text l) (fst p) \<and> line_in (snap_text r) (snd p)"
  shows "stopped cs (Coarse c)"
  using assms(1,6)
proof (induction pairs arbitrary: acc w)
  case (Cons p pairs)
  obtain al bl where p: "p = (al, bl)"
    by fastforce
  obtain r1 w1 where v: "reserve cs (cs_span_size cs) w = (r1, w1)"
    by fastforce
  obtain r2 w2 where i: "intraline cs l r al bl w1 = (r2, w2)"
    by fastforce
  have res: "case r2 of Inr sp \<Rightarrow> span_ok (snap_text l) (snap_text r) al bl sp | Inl e \<Rightarrow> stopped cs e"
    using intraline_result [OF assms(2,3) _ _ assms(4,5) i] Cons.prems(2) by (simp add: p)
  have "spans cs l r pairs acc' w3 = (Inr (sps, Some c), w') \<Longrightarrow> ?case" for acc' w3
    using Cons.IH Cons.prems(2) by simp
  with v i res Cons.prems(1) show ?case
    by (cases r1; cases r2) (auto simp: p act_bind_def split: completeness.splits)
qed (simp add: act_lift_iff)

lemma lines_pairs:
  assumes "list_all (line_in s) a" "list_all (line_in t) b"
  shows "\<forall>p\<in>set (zip (sub x i a) (sub y j b)). line_in s (fst p) \<and> line_in t (snd p)"
proof -
  have "set (sub x i a) \<subseteq> set a" "set (sub y j b) \<subseteq> set b"
    by (auto simp: sub_def dest!: in_set_takeD in_set_dropD)
  then show ?thesis
    using assms by (force simp: list_all_iff dest: set_zip_leftD set_zip_rightD)
qed

lemma slice_sub: "slice s e xs = Inr ys \<Longrightarrow> ys = sub s e xs"
  by (auto simp: slice_def split: if_splits)

lemma hunk_before_reason:
  assumes "hunk_before cs l r a b blocks i j st w = (Inr st', w')" "good l" "good r"
    "cuts (cs_words cs)" "cuts (cs_graphemes cs)" "list_all (line_in (snap_text l)) a" "list_all (line_in (snap_text r)) b"
    "hs_coarse st' = Some c"
  shows "hs_coarse st = Some c \<or> stopped cs (Coarse c)"
  using assms(1,8) spans_reason [OF _ assms(2-5) lines_pairs [OF assms(6,7)]]
  unfolding hunk_before_def Let_def act_bind_Inr_iff act_lift_iff
  by (elim exE conjE)
    (auto simp: act_lift_iff or_reason_def dest!: slice_sub [OF sym] split: prod.splits option.splits if_split_asm)

lemma pair_steps_reason:
  assumes "good l" "good r" "cuts (cs_words cs)" "cuts (cs_graphemes cs)"
    "list_all (line_in (snap_text l)) a" "list_all (line_in (snap_text r)) b"
  shows "pair_steps cs l r a b blocks ps st w = (Inr st', w') \<Longrightarrow> hs_coarse st' = Some c \<Longrightarrow>
    hs_coarse st = Some c \<or> stopped cs (Coarse c)"
proof (induction ps arbitrary: st w)
  case (Cons p ps)
  then obtain st1 w1 where st1: "pair_step cs l r a b blocks p st w = (Inr st1, w1)"
      "pair_steps cs l r a b blocks ps st1 w1 = (Inr st', w')"
    by (auto simp: act_bind_Inr_iff)
  obtain i j where p: "p = (i, j)"
    by fastforce
  have "hs_coarse st = Some c \<or> stopped cs (Coarse c)" if "hs_coarse st1 = Some c"
    using st1(1) that
    by (auto simp: p pair_step_def act_bind_Inr_iff act_lift_iff split: if_split_asm
        dest: hunk_before_reason [OF _ assms])
  with Cons.IH [OF st1(2) Cons.prems(2)] show ?case
    by blast
qed (simp add: act_lift_iff)

lemma find_moved_reason:
  "find_moved cs l r removed added hunks paired w = (Inr (hunks', paired', Some c), w') \<Longrightarrow> stopped cs (Coarse c)"
proof (induction added arbitrary: w)
  case (Cons n added)
  obtain r1 w1 where k: "check cs w = (r1, w1)"
    by fastforce
  show ?case
  proof (cases r1)
    case (Inl e)
    with k Cons.prems check_Inl [OF k [unfolded Inl]] show ?thesis
      by (auto split: completeness.splits)
  next
    case (Inr u)
    with k Cons.prems Cons.IH show ?thesis
      by (auto simp: Let_def act_bind_Inr_iff act_lift_iff split: if_split_asm)
  qed
qed (simp add: act_lift_iff)

lemma moved_from_reason:
  "moved_from cs l r removed hunks paired w = (Inr (hunks', Some c), w') \<Longrightarrow> stopped cs (Coarse c)"
proof (induction removed arbitrary: hunks paired w)
  case (Cons n removed)
  show ?case
  proof (cases "hk_kind (hunks ! n) = Removed")
    case True
    with Cons.prems Cons.IH find_moved_reason show ?thesis
      by (fastforce simp: act_bind_Inr_iff act_lift_iff split: if_split_asm)
  next
    case False
    with Cons show ?thesis
      by (auto split: if_split_asm)
  qed
qed (simp add: act_lift_iff)

lemma compare_body_reason:
  assumes "compare_body cs l r hash_line w = (Inr (hs, Some c), w')" "good l" "good r"
    "cuts (cs_words cs)" "cuts (cs_graphemes cs)"
  shows "stopped cs (Coarse c)"
proof -
  from assms(1) obtain w1 where "compare_lines cs l r hash_line w1 = (Inr (hs, Some c), w')"
    unfolding compare_body_def by (auto simp: act_bind_Inr_iff act_lift_iff split: if_split_asm)
  then obtain a w2 b w3 al w4 st w5 limit where run:
    "snapshot_lines cs l w1 = (Inr a, w2)" "snapshot_lines cs r w2 = (Inr b, w3)"
    "anchored cs a b hash_line w3 = (Inr al, w4)"
    "pair_steps cs l r a b (al_coarse al) (al_pairs al @ [(length a, length b)])
       \<lparr>hs_si = 0, hs_sj = 0, hs_anchor = 0, hs_occurrences = Map.empty, hs_hunks = [],
        hs_coarse = al_reason al, hs_refine = True\<rparr> w4 = (Inr st, w5)"
    "moved_from cs l r [0..<length (hs_hunks st)] (hs_hunks st) {} w5 = (Inr (hs, limit), w')"
    "Some c = (case limit of None \<Rightarrow> hs_coarse st | Some c \<Rightarrow> or_reason (hs_coarse st) c)"
    unfolding compare_lines_def by (auto simp: act_bind_Inr_iff act_lift_iff)
  have lines: "list_all (line_in (snap_text l)) a" "list_all (line_in (snap_text r)) b"
    using snapshot_lines_from assms(2,3) run(1,2) lines_from_line_in by blast+
  have "stopped cs (Coarse d)" if "hs_coarse st = Some d" for d
    using pair_steps_reason [OF assms(2-5) lines run(4) that] anchored_reason [OF run(3)] by auto
  moreover have "stopped cs (Coarse d)" if "limit = Some d" for d
    using moved_from_reason run(5) that by blast
  ultimately show ?thesis
    using run(6) by (auto simp: or_reason_def split: option.splits)
qed

section \<open>The result\<close>

lemma whole_hunk_ranges [simp]:
  "hk_left (whole_hunk cs l r) = (0, snapshot_len l)" "hk_right (whole_hunk cs l r) = (0, snapshot_len r)"
  by (simp_all add: whole_hunk_def)

lemma compare_hashed_cases:
  obtains (complete) hs c w where "compare_body cs l r hash_line \<lparr>wk_used = 0, wk_peak = 0, wk_polls = 0\<rparr> = (Inr (hs, c), w)"
      "cr_hunks (compare_hashed cs l r hash_line) = hs"
      "cr_completeness (compare_hashed cs l r hash_line) = (case c of None \<Rightarrow> Exact | Some d \<Rightarrow> Coarse d)"
  | (whole) c w where "compare_body cs l r hash_line \<lparr>wk_used = 0, wk_peak = 0, wk_polls = 0\<rparr> = (Inl (Coarse c), w)"
      "cr_hunks (compare_hashed cs l r hash_line) = [whole_hunk cs l r]"
      "cr_completeness (compare_hashed cs l r hash_line) = Coarse c"
  | (failed) e w where "compare_body cs l r hash_line \<lparr>wk_used = 0, wk_peak = 0, wk_polls = 0\<rparr> = (Inl e, w)"
      "\<forall>c. e \<noteq> Coarse c" "cr_hunks (compare_hashed cs l r hash_line) = []"
      "cr_completeness (compare_hashed cs l r hash_line) = e"
proof -
  obtain res w where b: "compare_body cs l r hash_line \<lparr>wk_used = 0, wk_peak = 0, wk_polls = 0\<rparr> = (res, w)"
    by fastforce
  show thesis
  proof (cases res)
    case (Inl e)
    with b that(2,3) show ?thesis
      by (cases e) (simp_all add: compare_hashed_def)
  next
    case (Inr p)
    with b that(1) show ?thesis
      by (cases p; cases "snd p") (simp_all add: compare_hashed_def)
  qed
qed

text \<open>The completeness of any comparison.\<close>

lemma compare_hashed_completeness:
  assumes "good l" "good r" "cuts (cs_words cs)" "cuts (cs_graphemes cs)"
    "c = cr_completeness (compare_hashed cs l r hash_line)"
  shows "c = Exact \<or> ended cs c \<or> c = Failed \<and> rl_max_memory_bytes (limits cs) < cs_hunk_size cs * 2 \<or>
    c = Unavailable \<and> \<not> (sn_complete l \<and> sn_complete r)"
proof (cases rule: compare_hashed_cases [of cs l r hash_line])
  case (complete hs d w)
  show ?thesis
  proof (cases d)
    case (Some e)
    from compare_body_reason [OF complete(1) [unfolded Some] assms(1-4)] complete(3) Some assms(5) show ?thesis
      by (simp add: ended_def)
  qed (use complete(3) assms(5) in simp)
next
  case (whole d w)
  with compare_body_Inl [OF whole(1) assms(1-4)] assms(5) show ?thesis
    by auto
next
  case (failed e w)
  with compare_body_Inl [OF failed(1) assms(1-4)] assms(5) show ?thesis
    by auto
qed

text \<open>What the hunks of a comparison say of the two texts: in order between character boundaries of
  the right text, and putting the left bytes of each in place of its right ones gives the left text.\<close>

definition rebuilds :: "snapshot \<Rightarrow> snapshot \<Rightarrow> hunk list \<Rightarrow> bool" where
  "rebuilds l r hs \<longleftrightarrow>
     (let es = map (left_edit (snap_text l)) (hunk_ranges hs) in
      ordered 0 (snap_text r) es \<and> render 0 (snap_text r) es = snap_text l)"

lemma compare_hashed_rebuilds:
  assumes "good l" "good r" "\<not> ignores (cs_options cs)" "cuts (cs_words cs)" "cuts (cs_graphemes cs)"
  shows "case cr_completeness (compare_hashed cs l r hash_line) of
      Exact \<Rightarrow> rebuilds l r (cr_hunks (compare_hashed cs l r hash_line)) \<and>
        (cr_hunks (compare_hashed cs l r hash_line) = [] \<longleftrightarrow> snap_text l = snap_text r)
    | Coarse _ \<Rightarrow> rebuilds l r (cr_hunks (compare_hashed cs l r hash_line))
    | _ \<Rightarrow> cr_hunks (compare_hashed cs l r hash_line) = []"
proof (cases rule: compare_hashed_cases [of cs l r hash_line])
  case (complete hs c w)
  have re: "rebuilds l r hs"
    using compare_body_ordered [OF assms(1,2) complete(1)] compare_body_render [OF assms(1-3) complete(1)]
    by (simp add: rebuilds_def Let_def)
  have "hs = [] \<longleftrightarrow> snap_text l = snap_text r"
    using compare_body_equal [OF assms(1,2) complete(1)] re by (auto simp: rebuilds_def)
  with re complete(2,3) show ?thesis
    by (cases c) simp_all
next
  case (whole c w)
  have "rebuilds l r [whole_hunk cs l r]"
    using assms(1,2) by (simp add: rebuilds_def snapshot_len_text)
  with whole(2,3) show ?thesis
    by simp
next
  case (failed e w)
  have "e \<noteq> Exact"
    using compare_body_Inl [OF failed(1) assms(1,2,4,5)] by (auto simp: ended_def stopped_def)
  with failed(2-4) show ?thesis
    by (cases e) simp_all
qed

text \<open>Every hunk is stamped with both states and the options, and its kind says which sides are
  empty; a coarse one has no spans.\<close>

definition hunk_ok :: "setting \<Rightarrow> snapshot \<Rightarrow> snapshot \<Rightarrow> hunk \<Rightarrow> bool" where
  "hunk_ok cs l r h \<longleftrightarrow>
     matches_states h (sn_revision l) (sn_state l) (sn_revision r) (sn_state r) \<and>
     hk_options h = cs_options cs \<and> (hk_coarse h \<longrightarrow> hk_intraline h = []) \<and>
     (case hk_kind h of
        Equal \<Rightarrow> False
      | Added \<Rightarrow> empty_range (hk_left h)
      | Removed \<Rightarrow> \<not> empty_range (hk_left h) \<and> empty_range (hk_right h)
      | Changed \<Rightarrow> \<not> empty_range (hk_left h) \<and> \<not> empty_range (hk_right h)
      | MovedAligned \<Rightarrow> empty_range (hk_left h) \<or> empty_range (hk_right h))"

lemma make_hunk_ok:
  "hk_coarse h \<longrightarrow> sps = [] \<Longrightarrow> h = (make_hunk l r left right hints i)\<lparr>hk_coarse := c\<rparr> \<Longrightarrow>
   hunk_ok cs l r (h\<lparr>hk_intraline := sps, hk_options := cs_options cs\<rparr>)"
  by (auto simp: make_hunk_def hunk_ok_def matches_states_def)

lemma whole_hunk_ok: "hunk_ok cs l r (whole_hunk cs l r)"
  by (auto simp: whole_hunk_def make_hunk_def hunk_ok_def matches_states_def)

lemma hunk_before_ok:
  assumes "hunk_before cs l r a b blocks i j st w = (Inr st', w')" "list_all (hunk_ok cs l r) (hs_hunks st)"
  shows "list_all (hunk_ok cs l r) (hs_hunks st')"
  using assms unfolding hunk_before_def Let_def act_bind_Inr_iff act_lift_iff
  by (elim exE conjE) (auto simp: act_lift_iff split: prod.splits if_split_asm intro!: make_hunk_ok)

lemma pair_steps_ok:
  "pair_steps cs l r a b blocks ps st w = (Inr st', w') \<Longrightarrow> list_all (hunk_ok cs l r) (hs_hunks st) \<Longrightarrow>
   list_all (hunk_ok cs l r) (hs_hunks st')"
proof (induction ps arbitrary: st w)
  case (Cons p ps)
  then obtain st1 w1 where st1: "pair_step cs l r a b blocks p st w = (Inr st1, w1)"
      "pair_steps cs l r a b blocks ps st1 w1 = (Inr st', w')"
    by (auto simp: act_bind_Inr_iff)
  have "list_all (hunk_ok cs l r) (hs_hunks st1)"
    using st1(1) Cons.prems(2)
    by (cases p) (auto simp: pair_step_def act_bind_Inr_iff act_lift_iff split: if_split_asm dest: hunk_before_ok)
  with Cons.IH [OF st1(2)] show ?case
    by blast
qed (simp add: act_lift_iff)

lemma moved_ok:
  "hunk_ok cs l r h \<Longrightarrow> hk_kind h = Added \<or> hk_kind h = Removed \<Longrightarrow> hunk_ok cs l r (h\<lparr>hk_kind := MovedAligned\<rparr>)"
  by (auto simp: hunk_ok_def matches_states_def)

lemma list_all_update: "list_all P xs \<Longrightarrow> P x \<Longrightarrow> list_all P (xs[i := x])"
  using set_update_subset_insert [of xs i x] by (auto simp: list_all_iff)

lemma find_moved_ok:
  assumes "list_all (hunk_ok cs l r) hunks" "removed < length hunks" "hk_kind (hunks ! removed) = Removed"
  shows "find_moved cs l r removed added hunks paired w = (Inr (hunks', paired', limit), w') \<Longrightarrow>
    \<forall>n\<in>set added. n < length hunks \<Longrightarrow> list_all (hunk_ok cs l r) hunks'"
proof (induction added arbitrary: w)
  case (Cons n added)
  let ?again = "find_moved cs l r removed added hunks paired"
  obtain r1 w1 where c: "check cs w = (r1, w1)"
    by fastforce
  have ok: "hunk_ok cs l r (hunks ! removed)" "hunk_ok cs l r (hunks ! n)"
    using assms(1,2) Cons.prems(2) by (simp_all add: list_all_length)
  have both: "list_all (hunk_ok cs l r) ((hunks[removed := (hunks ! removed)\<lparr>hk_kind := MovedAligned\<rparr>])
      [n := (hunks ! n)\<lparr>hk_kind := MovedAligned\<rparr>])" if "hk_kind (hunks ! n) = Added"
    using assms(1,3) ok that by (intro list_all_update moved_ok) simp_all
  show ?case
  proof (cases r1)
    case (Inl e)
    with c Cons.prems(1) assms(1) show ?thesis
      by (auto split: completeness.splits)
  next
    case (Inr u)
    with c Cons.prems Cons.IH both show ?thesis
      by (auto simp: Let_def act_bind_Inr_iff act_lift_iff split: if_split_asm)
  qed
qed (use assms(1) in \<open>simp add: act_lift_iff\<close>)

lemma moved_from_ok:
  "moved_from cs l r removed hunks paired w = (Inr (hunks', limit), w') \<Longrightarrow> list_all (hunk_ok cs l r) hunks \<Longrightarrow>
   \<forall>n\<in>set removed. n < length hunks \<Longrightarrow> list_all (hunk_ok cs l r) hunks'"
proof (induction removed arbitrary: hunks paired w)
  case (Cons n removed)
  show ?case
  proof (cases "hk_kind (hunks ! n) = Removed")
    case True
    let ?find = "find_moved cs l r n [n - 64..<min (length hunks) (n + 65)] hunks paired"
    from Cons.prems(1) True obtain hunks1 paired1 limit1 w1 where find: "?find w = (Inr (hunks1, paired1, limit1), w1)"
      "(if limit1 = None then moved_from cs l r removed hunks1 paired1 else act_lift (Inr (hunks1, limit1))) w1 = (Inr (hunks', limit), w')"
      by (auto simp: act_bind_Inr_iff)
    have "list_all (hunk_ok cs l r) hunks1"
      using find_moved_ok [OF Cons.prems(2) _ True find(1)] Cons.prems(3) by simp
    moreover have "length hunks1 = length hunks"
      using find_moved_ranges [OF find(1)] by (rule map_eq_imp_length_eq)
    ultimately show ?thesis
      using find(2) Cons.IH [of hunks1 paired1 w1] Cons.prems(3) by (auto simp: act_lift_iff split: if_split_asm)
  next
    case False
    with Cons show ?thesis
      by (auto split: if_split_asm)
  qed
qed (simp add: act_lift_iff)

lemma compare_body_hunks_ok:
  assumes "compare_body cs l r hash_line w = (Inr (hs, c), w')"
  shows "list_all (hunk_ok cs l r) hs"
proof -
  from assms consider "hs = []" | w1 where "compare_lines cs l r hash_line w1 = (Inr (hs, c), w')"
    unfolding compare_body_def by (auto simp: act_bind_Inr_iff act_lift_iff split: if_split_asm)
  then show ?thesis
  proof cases
    case 2
    then obtain a w2 b w3 al w4 st w5 limit w6 where run:
      "snapshot_lines cs l w1 = (Inr a, w2)" "snapshot_lines cs r w2 = (Inr b, w3)"
      "anchored cs a b hash_line w3 = (Inr al, w4)"
      "pair_steps cs l r a b (al_coarse al) (al_pairs al @ [(length a, length b)])
         \<lparr>hs_si = 0, hs_sj = 0, hs_anchor = 0, hs_occurrences = Map.empty, hs_hunks = [],
          hs_coarse = al_reason al, hs_refine = True\<rparr> w4 = (Inr st, w5)"
      "moved_from cs l r [0..<length (hs_hunks st)] (hs_hunks st) {} w5 = (Inr (hs, limit), w6)"
      unfolding compare_lines_def by (auto simp: act_bind_Inr_iff act_lift_iff)
    from moved_from_ok [OF run(5)] pair_steps_ok [OF run(4)] show ?thesis
      by simp
  qed simp
qed

end
