(* ===== verification/Diff_Merge.thy ===== *)
theory Diff_Merge
  imports Diff
begin

text \<open>
  Merging a hunk, crates/diff/src/lib.rs: the transaction that copies one side of a hunk over the
  other, or, when the comparison ignored something, the one that keeps the ignored bytes of the
  destination by aligning the tokens of both ranges.

  The code searches with a cancellation token of its own that is never set; the setting it works
  under has the options of the hunk. The loop that widens a segment runs on fuel; every round but
  the last widens it.
\<close>

datatype direction = LeftToRight | RightToLeft

text \<open>\<open>DiffPanicked\<close> is the model's value for a panic.\<close>

datatype apply_error =
    DiffUnavailable
  | DiffStale
  | DiffInvalidRange
  | DiffBudgetExceeded
  | UnsupportedPreserve
  | DiffPanicked

datatype merge_policy = PreserveIgnoredDestination | CopySelectedRange

text \<open>The error of a fallible step of the document or of the search, as the caller maps it.\<close>

definition read_or :: "apply_error \<Rightarrow> snapshot \<Rightarrow> range \<Rightarrow> nat \<Rightarrow> apply_error + byte list" where
  "read_or e s rng max_bytes =
     (case snapshot_read s (fst rng) (snd rng) max_bytes of
        Inl Panicked \<Rightarrow> Inl DiffPanicked
      | Inl _ \<Rightarrow> Inl e
      | Inr t \<Rightarrow> Inr t)"

type_synonym 'a merge_run = "(work, apply_error, 'a) step"

definition within_budget :: "'a run \<Rightarrow> 'a merge_run" where
  "within_budget m w =
     (case m w of
        (Inl Crashed, w) \<Rightarrow> (Inl DiffPanicked, w)
      | (Inl _, w) \<Rightarrow> (Inl DiffBudgetExceeded, w)
      | (Inr x, w) \<Rightarrow> (Inr x, w))"

section \<open>Tokens\<close>

fun split_inclusive :: "byte list \<Rightarrow> byte list \<Rightarrow> byte list list" where
  "split_inclusive acc [] = (if acc = [] then [] else [acc])"
| "split_inclusive acc (b # bs) =
     (if b = LF then (acc @ [b]) # split_inclusive [] bs else split_inclusive (acc @ [b]) bs)"

definition tab_step :: "nat \<Rightarrow> byte list \<Rightarrow> nat" where
  "tab_step column g = column + (if g = [9] then 4 - column mod 4 else 1)"

definition is_blank :: "byte list \<Rightarrow> bool" where
  "is_blank g \<longleftrightarrow> g = [32] \<or> g = [9]"

text \<open>The blanks that follow: the column they reach, their bytes and what is left.\<close>

fun take_blanks :: "nat \<Rightarrow> byte list list \<Rightarrow> nat \<times> nat \<times> byte list list" where
  "take_blanks column [] = (column, 0, [])"
| "take_blanks column (g # gs) =
     (if is_blank g then
        let (c, n, rest) = take_blanks (tab_step column g) gs in (c, length g + n, rest)
      else (column, 0, g # gs))"

lemma take_blanks_length: "take_blanks column gs = (c, n, rest) \<Longrightarrow> length rest \<le> length gs"
  by (induction column gs arbitrary: c n rest rule: take_blanks.induct)
    (auto split: prod.splits if_splits intro: le_SucI)

record token_line =
  tl_offset :: nat
  tl_skip :: bool
  tl_body :: nat
  tl_trim_start :: nat
  tl_trim_end :: nat

definition token_text :: "setting \<Rightarrow> byte list \<Rightarrow> nat option \<Rightarrow> byte list" where
  "token_text cs g blanks =
     (if co_ignore_eol_style (cs_options cs) \<and> list_all (\<lambda>b. b = CR \<or> b = LF) g then [LF]
      else
        case blanks of
          Some n \<Rightarrow> replicate n 32
        | None \<Rightarrow> if co_ignore_case (cs_options cs) then cs_fold cs g else g)"

definition token_ignored :: "setting \<Rightarrow> token_line \<Rightarrow> nat \<Rightarrow> byte list \<Rightarrow> bool" where
  "token_ignored cs ln idx g \<longleftrightarrow>
     tl_skip ln \<or>
     co_ignore_encoding_bom (cs_options cs) \<and> tl_offset ln + idx = 0 \<and> g = [0xEF, 0xBB, 0xBF] \<or>
     co_whitespace (cs_options cs) = IgnoreAll \<and> list_all is_whitespace (utf8_chars g) \<and> idx < tl_body ln \<or>
     co_whitespace (cs_options cs) = TrimEdges \<and> idx < tl_body ln \<and>
       (idx < tl_trim_start ln \<or> idx \<ge> tl_trim_end ln)"

definition token_lines :: "setting \<Rightarrow> range \<Rightarrow> byte list \<Rightarrow> byte list \<Rightarrow> diff_line list" where
  "token_lines cs original g t =
     map (\<lambda>part. \<lparr>ln_start = fst original, ln_end = snd original, ln_text = part, ln_hint = 0\<rparr>)
       (if co_ignore_case (cs_options cs) \<and> \<not> list_all is_whitespace (utf8_chars g)
        then cs_graphemes cs t else [t])"

function line_tokens :: "setting \<Rightarrow> token_line \<Rightarrow> nat \<Rightarrow> nat \<Rightarrow> byte list list \<Rightarrow> diff_line list" where
  "line_tokens cs ln idx column [] = []"
| "line_tokens cs ln idx column (g # gs) =
     (let merged = co_normalize_tabs (cs_options cs) \<and> is_blank g;
          (column', n, rest) =
            (if merged then take_blanks (tab_step column g) gs
             else (column + length (utf8_chars g), 0, gs));
          e = idx + length g + n;
          blanks = (if merged then Some (column' - column) else None);
          original = (tl_offset ln + idx, tl_offset ln + e)
      in
      (if token_ignored cs ln idx g then [] else token_lines cs original g (token_text cs g blanks)) @
      line_tokens cs ln e column' rest)"
  by pat_completeness auto
termination
  by (relation "measure (\<lambda>(_, _, _, _, gs). length gs)")
    (auto split: if_splits dest!: take_blanks_length [OF sym])

definition token_line_of :: "setting \<Rightarrow> nat \<Rightarrow> byte list \<Rightarrow> token_line" where
  "token_line_of cs offset line =
     (let body = rev (dropWhile (\<lambda>b. b = CR \<or> b = LF) (rev line)) in
      \<lparr>tl_offset = offset,
       tl_skip = (co_ignore_blank_lines (cs_options cs) \<and> trim line = []),
       tl_body = length body,
       tl_trim_start = length body - length (trim_start body),
       tl_trim_end = length (trim_end body)\<rparr>)"

fun tokens_of :: "setting \<Rightarrow> nat \<Rightarrow> byte list list \<Rightarrow> diff_line list" where
  "tokens_of cs offset [] = []"
| "tokens_of cs offset (line # lines) =
     line_tokens cs (token_line_of cs offset line) 0 0 (cs_graphemes cs line) @
     tokens_of cs (offset + length line) lines"

definition tokens :: "setting \<Rightarrow> snapshot \<Rightarrow> range \<Rightarrow> nat \<Rightarrow> apply_error + diff_line list" where
  "tokens cs s rng max_bytes =
     and_then (read_or DiffBudgetExceeded s rng max_bytes) (\<lambda>raw.
       Inr (tokens_of cs (fst rng) (split_inclusive [] raw)))"

section \<open>Segments\<close>

definition same_range :: "diff_line \<Rightarrow> diff_line \<Rightarrow> bool" where
  "same_range t u \<longleftrightarrow> ln_start t = ln_start u \<and> ln_end t = ln_end u"

fun grow_down :: "diff_line list \<Rightarrow> nat \<Rightarrow> nat" where
  "grow_down ts 0 = 0"
| "grow_down ts (Suc s) = (if same_range (ts ! s) (ts ! Suc s) then grow_down ts s else Suc s)"

function grow_up :: "diff_line list \<Rightarrow> nat \<Rightarrow> nat" where
  "grow_up ts e =
     (if e < length ts \<and> same_range (ts ! (e - 1)) (ts ! e) then grow_up ts (e + 1) else e)"
  by auto
termination
  by (relation "measure (\<lambda>(ts, e). length ts - e)") auto

declare grow_up.simps [simp del]

definition expand_original :: "diff_line list \<Rightarrow> nat \<Rightarrow> nat \<Rightarrow> nat \<times> nat" where
  "expand_original ts s e =
     (let (s, e) =
        (if s = e \<and> s > 0 \<and> s < length ts \<and> same_range (ts ! (s - 1)) (ts ! s)
         then (s - 1, e + 1) else (s, e))
      in if s < e then (grow_down ts s, grow_up ts e) else (s, e))"

record segment =
  sg_a0 :: nat
  sg_a1 :: nat
  sg_b0 :: nat
  sg_b1 :: nat

definition absorb :: "nat \<times> nat \<Rightarrow> segment \<Rightarrow> segment" where
  "absorb = (\<lambda>(ai, bj) sg.
     let sg = (if ai \<ge> sg_a0 sg \<and> ai < sg_a1 sg
               then sg\<lparr>sg_b0 := min (sg_b0 sg) bj, sg_b1 := max (sg_b1 sg) (bj + 1)\<rparr> else sg)
     in if bj \<ge> sg_b0 sg \<and> bj < sg_b1 sg
        then sg\<lparr>sg_a0 := min (sg_a0 sg) ai, sg_a1 := max (sg_a1 sg) (ai + 1)\<rparr> else sg)"

fun absorb_pairs :: "setting \<Rightarrow> nat \<Rightarrow> (nat \<times> nat) list \<Rightarrow> segment \<Rightarrow> segment run" where
  "absorb_pairs cs k [] sg = act_lift (Inr sg)"
| "absorb_pairs cs k (p # ps) sg =
     act_bind (if k mod 64 = 0 then check cs else act_lift (Inr ())) (\<lambda>_.
       absorb_pairs cs (k + 1) ps (absorb p sg))"

fun widen ::
  "setting \<Rightarrow> diff_line list \<Rightarrow> diff_line list \<Rightarrow> (nat \<times> nat) list \<Rightarrow> nat \<Rightarrow> segment \<Rightarrow> segment run" where
  "widen cs a b pairs 0 sg = act_lift (Inl Crashed)"
| "widen cs a b pairs (Suc fuel) sg =
     act_bind (check cs) (\<lambda>_.
       let (a0, a1) = expand_original a (sg_a0 sg) (sg_a1 sg);
           (b0, b1) = expand_original b (sg_b0 sg) (sg_b1 sg)
       in
       act_bind (absorb_pairs cs 0 pairs \<lparr>sg_a0 = a0, sg_a1 = a1, sg_b0 = b0, sg_b1 = b1\<rparr>) (\<lambda>sg'.
         if sg' = sg then act_lift (Inr sg') else widen cs a b pairs fuel sg'))"

definition join_segment :: "segment list \<Rightarrow> segment \<Rightarrow> segment list" where
  "join_segment sgs sg =
     (if sgs = [] then [sg]
      else
        let p = last sgs in
        if sg_a0 sg \<le> sg_a1 p \<or> sg_b0 sg \<le> sg_b1 p \<or> sg_a0 sg = sg_a0 p \<and> sg_a1 sg = sg_a1 p
        then butlast sgs @
          [\<lparr>sg_a0 = min (sg_a0 p) (sg_a0 sg), sg_a1 = max (sg_a1 p) (sg_a1 sg),
            sg_b0 = min (sg_b0 p) (sg_b0 sg), sg_b1 = max (sg_b1 p) (sg_b1 sg)\<rparr>]
        else sgs @ [sg])"

fun segments ::
  "setting \<Rightarrow> diff_line list \<Rightarrow> diff_line list \<Rightarrow> (nat \<times> nat) list \<Rightarrow> (nat \<times> nat) list \<Rightarrow> nat \<Rightarrow> nat \<Rightarrow>
   segment list \<Rightarrow> segment list run" where
  "segments cs a b pairs [] si sj sgs = act_lift (Inr sgs)"
| "segments cs a b pairs ((i, j) # rest) si sj sgs =
     act_bind
       (if si < i \<or> sj < j then
          act_bind (widen cs a b pairs (length a + length b + 2)
            \<lparr>sg_a0 = si, sg_a1 = i, sg_b0 = sj, sg_b1 = j\<rparr>) (\<lambda>sg.
            act_lift (Inr (join_segment sgs sg)))
        else act_lift (Inr sgs))
       (segments cs a b pairs rest (i + 1) (j + 1))"

section \<open>Edits\<close>

text \<open>The tokens of a segment, those of one original grapheme once.\<close>

fun originals :: "range option \<Rightarrow> diff_line list \<Rightarrow> range list" where
  "originals previous [] = []"
| "originals previous (t # ts) =
     (let rng = (ln_start t, ln_end t) in
      if previous = Some rng then originals previous ts else rng # originals (Some rng) ts)"

fun read_all :: "snapshot \<Rightarrow> range list \<Rightarrow> nat \<Rightarrow> apply_error + byte list" where
  "read_all s [] max_bytes = Inr []"
| "read_all s (r # rs) max_bytes =
     and_then (read_or DiffUnavailable s r max_bytes) (\<lambda>t.
     and_then (read_all s rs max_bytes) (\<lambda>ts. Inr (t @ ts)))"

fun replace_ranges :: "range list \<Rightarrow> byte list \<Rightarrow> edit list" where
  "replace_ranges [] insert_text = []"
| "replace_ranges (r # rs) insert_text =
     \<lparr>ed_start = fst r, ed_end = snd r, ed_insert = insert_text\<rparr> # replace_ranges rs []"

definition segment_edits ::
  "snapshot \<Rightarrow> nat \<Rightarrow> nat \<Rightarrow> diff_line list \<Rightarrow> diff_line list \<Rightarrow> segment \<Rightarrow> apply_error + edit list" where
  "segment_edits source target_end max_bytes a b sg =
     (if sg_b0 sg > sg_b1 sg \<or> sg_b1 sg > length b \<or> sg_a1 sg > length a then Inl DiffPanicked
      else
        and_then (read_all source (originals None (sub (sg_b0 sg) (sg_b1 sg) b)) max_bytes) (\<lambda>t.
          Inr
            (if sg_a0 sg < sg_a1 sg
             then replace_ranges (originals None (sub (sg_a0 sg) (sg_a1 sg) a)) t
             else
               let p = (if sg_a1 sg < length a then ln_start (a ! sg_a1 sg) else target_end) in
               [\<lparr>ed_start = p, ed_end = p, ed_insert = t\<rparr>])))"

fun all_edits ::
  "snapshot \<Rightarrow> nat \<Rightarrow> nat \<Rightarrow> diff_line list \<Rightarrow> diff_line list \<Rightarrow> segment list \<Rightarrow> apply_error + edit list" where
  "all_edits source target_end max_bytes a b [] = Inr []"
| "all_edits source target_end max_bytes a b (sg # sgs) =
     and_then (segment_edits source target_end max_bytes a b sg) (\<lambda>es.
     and_then (all_edits source target_end max_bytes a b sgs) (\<lambda>fs. Inr (es @ fs)))"

definition preserve ::
  "setting \<Rightarrow> snapshot \<Rightarrow> snapshot \<Rightarrow> range \<Rightarrow> range \<Rightarrow> nat \<Rightarrow> apply_error + transaction" where
  "preserve cs source target srange trange max_bytes =
     (let size_bytes = sat_add (range_size srange) (range_size trange) in
      if size_bytes > max_bytes \<or> sat_mul size_bytes 256 > rl_max_memory_bytes (limits cs)
      then Inl DiffBudgetExceeded
      else
        and_then (tokens cs target trange max_bytes) (\<lambda>a.
        and_then (tokens cs source srange max_bytes) (\<lambda>b.
        and_then
          (fst (act_bind (within_budget (myers cs a b)) (\<lambda>pairs.
             within_budget (segments cs a b pairs (pairs @ [(length a, length b)]) 0 0 []))
             \<lparr>wk_used = sat_mul size_bytes 256, wk_peak = 0, wk_polls = 0\<rparr>)) (\<lambda>sgs.
        and_then (all_edits source (snd trange) max_bytes a b sgs) (\<lambda>es.
          Inr \<lparr>tr_base = sn_revision target, tr_edits = es\<rparr>)))))"

definition chunks_or_invalid :: "snapshot \<Rightarrow> range \<Rightarrow> apply_error + unit" where
  "chunks_or_invalid s rng =
     (case snapshot_chunks s (fst rng) (snd rng) of Inl _ \<Rightarrow> Inl DiffInvalidRange | Inr _ \<Rightarrow> Inr ())"

definition apply_hunk_with_policy ::
  "setting \<Rightarrow> merge_policy \<Rightarrow> direction \<Rightarrow> hunk \<Rightarrow> snapshot \<Rightarrow> snapshot \<Rightarrow> nat \<Rightarrow> apply_error + transaction" where
  "apply_hunk_with_policy cs policy dir h l r max_insert_bytes =
     (if \<not> sn_complete l \<or> \<not> sn_complete r then Inl DiffUnavailable
      else if sn_revision l \<noteq> hk_left_revision h \<or> sn_revision r \<noteq> hk_right_revision h \<or>
        sn_state l \<noteq> hk_left_state h \<or> sn_state r \<noteq> hk_right_state h
      then Inl DiffStale
      else
        let (source, target, srange, trange) =
          (case dir of
             LeftToRight \<Rightarrow> (l, r, hk_left h, hk_right h)
           | RightToLeft \<Rightarrow> (r, l, hk_right h, hk_left h))
        in
        and_then (chunks_or_invalid source srange) (\<lambda>_.
        and_then (chunks_or_invalid target trange) (\<lambda>_.
          if policy = PreserveIgnoredDestination \<and> ignores (hk_options h)
          then preserve (cs\<lparr>cs_options := hk_options h, cs_cancelled := \<lambda>_. False\<rparr>)
            source target srange trange max_insert_bytes
          else
            and_then (chunks_or_invalid target trange) (\<lambda>_.
            and_then
              (case snapshot_read source (fst srange) (snd srange) max_insert_bytes of
                 Inl Panicked \<Rightarrow> Inl DiffPanicked
               | Inl BudgetExceeded \<Rightarrow> Inl DiffBudgetExceeded
               | Inl _ \<Rightarrow> Inl DiffInvalidRange
               | Inr t \<Rightarrow> Inr t) (\<lambda>t.
              Inr \<lparr>tr_base = sn_revision target,
                tr_edits = [\<lparr>ed_start = fst trange, ed_end = snd trange, ed_insert = t\<rparr>]\<rparr>)))))"

definition apply_hunk ::
  "setting \<Rightarrow> direction \<Rightarrow> hunk \<Rightarrow> snapshot \<Rightarrow> snapshot \<Rightarrow> nat \<Rightarrow> apply_error + transaction" where
  "apply_hunk cs dir h l r max_insert_bytes =
     apply_hunk_with_policy cs PreserveIgnoredDestination dir h l r max_insert_bytes"

end
