(* ===== verification/Diff_Merge_Total.thy ===== *)
theory Diff_Merge_Total
  imports Diff_Total Diff_Merge
begin

text \<open>
  Merging hunks: what a copied hunk does, and that widening the segments of a preserving merge ends
  within its fuel.
\<close>

section \<open>Copied hunks\<close>

lemma chunks_or_invalid_Inr:
  "good s \<Longrightarrow> chunks_or_invalid s rng = Inr () \<longleftrightarrow> readable (snap_text s) rng"
  using validate_range_iff [of s "fst rng" "snd rng"]
  by (cases "validate_range s (fst rng) (snd rng)")
    (auto simp: chunks_or_invalid_def snapshot_chunks_def readable_def)

lemma copied_hunk:
  assumes "good l" "good r" "apply_hunk_with_policy cs CopySelectedRange LeftToRight h l r max_bytes = Inr tr"
  shows "matches_states h (sn_revision l) (sn_state l) (sn_revision r) (sn_state r) \<and>
    tr = \<lparr>tr_base = sn_revision r, tr_edits = [\<lparr>ed_start = fst (hk_right h), ed_end = snd (hk_right h),
      ed_insert = sub (fst (hk_left h)) (snd (hk_left h)) (snap_text l)\<rparr>]\<rparr> \<and>
    readable (snap_text r) (hk_right h) \<and> valid_utf8 (sub (fst (hk_left h)) (snd (hk_left h)) (snap_text l))"
proof -
  have run: "matches_states h (sn_revision l) (sn_state l) (sn_revision r) (sn_state r)"
    "chunks_or_invalid l (hk_left h) = Inr ()" "chunks_or_invalid r (hk_right h) = Inr ()"
    "\<exists>t. snapshot_read l (fst (hk_left h)) (snd (hk_left h)) max_bytes = Inr t \<and>
      tr = \<lparr>tr_base = sn_revision r, tr_edits = [\<lparr>ed_start = fst (hk_right h), ed_end = snd (hk_right h), ed_insert = t\<rparr>]\<rparr>"
    using assms(3)
    by (auto simp: apply_hunk_with_policy_def matches_states_def and_then_Inr_iff split: if_split_asm sum.splits error.splits)
  then have range: "readable (snap_text l) (hk_left h)" "readable (snap_text r) (hk_right h)"
    using chunks_or_invalid_Inr assms(1,2) by blast+
  have "snapshot_read l (fst (hk_left h)) (snd (hk_left h)) max_bytes = Inr t \<Longrightarrow>
      t = sub (fst (hk_left h)) (snd (hk_left h)) (snap_text l)" for t
    using snapshot_chunks_text [OF assms(1), of "fst (hk_left h)" "snd (hk_left h)"] range(1)
    by (auto simp: snapshot_read_def readable_def and_then_Inr_iff split: if_split_asm)
  moreover have "valid_utf8 (sub (fst (hk_left h)) (snd (hk_left h)) (snap_text l))"
    using range(1) assms(1) by (auto simp: readable_def good_def snap_text_def owned_valid intro!: valid_utf8_sub)
  ultimately show ?thesis
    using run(1,4) range(2) by blast
qed

section \<open>Widening ends\<close>

definition segment_in :: "nat \<Rightarrow> nat \<Rightarrow> segment \<Rightarrow> bool" where
  "segment_in n m sg \<longleftrightarrow> sg_a0 sg \<le> sg_a1 sg \<and> sg_a1 sg \<le> n \<and> sg_b0 sg \<le> sg_b1 sg \<and> sg_b1 sg \<le> m"

definition widens :: "segment \<Rightarrow> segment \<Rightarrow> bool" where
  "widens sg sg' \<longleftrightarrow> sg_a0 sg' \<le> sg_a0 sg \<and> sg_a1 sg \<le> sg_a1 sg' \<and> sg_b0 sg' \<le> sg_b0 sg \<and> sg_b1 sg \<le> sg_b1 sg'"

definition segment_size :: "segment \<Rightarrow> nat" where
  "segment_size sg = (sg_a1 sg - sg_a0 sg) + (sg_b1 sg - sg_b0 sg)"

lemma widens_trans: "widens sg sg' \<Longrightarrow> widens sg' sg'' \<Longrightarrow> widens sg sg''"
  by (auto simp: widens_def)

lemma segment_size_le: "segment_in n m sg \<Longrightarrow> segment_size sg \<le> n + m"
  by (auto simp: segment_in_def segment_size_def)

lemma widens_size: "widens sg sg' \<Longrightarrow> segment_in n m sg \<Longrightarrow> sg' \<noteq> sg \<Longrightarrow> segment_size sg < segment_size sg'"
  by (cases sg; cases sg') (auto simp: widens_def segment_in_def segment_size_def)

lemma grow_down_le: "grow_down ts s \<le> s"
  by (induction ts s rule: grow_down.induct) auto

lemma grow_up_bounds: "e \<le> length ts \<Longrightarrow> e \<le> grow_up ts e \<and> grow_up ts e \<le> length ts"
proof (induction ts e rule: grow_up.induct)
  case (1 ts e)
  then show ?case
    by (subst (1 2) grow_up.simps) auto
qed

lemma expand_original_bounds:
  assumes "s \<le> e" "e \<le> length ts" "expand_original ts s e = (s', e')"
  shows "s' \<le> s \<and> e \<le> e' \<and> e' \<le> length ts"
proof -
  define p where "p = (if s = e \<and> s > 0 \<and> s < length ts \<and> same_range (ts ! (s - 1)) (ts ! s) then (s - 1, e + 1) else (s, e))"
  have p: "fst p \<le> s" "e \<le> snd p" "snd p \<le> length ts"
    using assms(1,2) by (auto simp: p_def)
  have "(s', e') = (if fst p < snd p then (grow_down ts (fst p), grow_up ts (snd p)) else p)"
    using assms(3) unfolding expand_original_def p_def [symmetric] Let_def
    by (auto simp: split_beta)
  then show ?thesis
    using p grow_down_le [of ts "fst p"] grow_up_bounds [OF p(3)] by (auto simp: prod_eq_iff split: if_splits)
qed

lemma absorb_widens:
  assumes "segment_in n m sg" "fst p < n" "snd p < m"
  shows "widens sg (absorb p sg) \<and> segment_in n m (absorb p sg)"
  using assms by (cases p) (auto simp: absorb_def widens_def segment_in_def Let_def min_def max_def)

lemma absorb_pairs_Inr:
  "absorb_pairs cs k ps sg w = (Inr sg', w') \<Longrightarrow> segment_in n m sg \<Longrightarrow> within n m ps \<Longrightarrow>
   widens sg sg' \<and> segment_in n m sg'"
proof (induction ps arbitrary: k sg w)
  case (Cons p ps)
  then have "widens sg (absorb p sg)" "segment_in n m (absorb p sg)"
    using absorb_widens by simp_all
  moreover obtain w1 where "absorb_pairs cs (k + 1) ps (absorb p sg) w1 = (Inr sg', w')"
    using Cons.prems(1) by (auto simp: act_bind_Inr_iff)
  ultimately show ?case
    using Cons.IH Cons.prems(3) widens_trans by fastforce
qed (simp add: act_lift_iff widens_def)

lemma absorb_pairs_Inl: "absorb_pairs cs k ps sg w = (Inl e, w') \<Longrightarrow> stopped cs e"
  by (induction ps arbitrary: k sg w)
    (auto simp: act_bind_Inl_iff act_lift_iff check_Inl split: if_split_asm)

lemma widen_step:
  assumes "widen cs a b pairs (Suc fuel) sg w = (res, w')" "segment_in (length a) (length b) sg"
    "within (length a) (length b) pairs"
  shows "(\<exists>e. res = Inl e \<and> stopped cs e) \<or>
    (\<exists>sg' w1. widens sg sg' \<and> segment_in (length a) (length b) sg' \<and>
       (if sg' = sg then res = Inr sg' else widen cs a b pairs fuel sg' w1 = (res, w')))"
proof -
  obtain a0 a1 where a: "expand_original a (sg_a0 sg) (sg_a1 sg) = (a0, a1)"
    by fastforce
  obtain b0 b1 where b: "expand_original b (sg_b0 sg) (sg_b1 sg) = (b0, b1)"
    by fastforce
  let ?sg = "\<lparr>sg_a0 = a0, sg_a1 = a1, sg_b0 = b0, sg_b1 = b1\<rparr>"
  have grown: "widens sg ?sg" "segment_in (length a) (length b) ?sg"
    using expand_original_bounds [OF _ _ a] expand_original_bounds [OF _ _ b] assms(2)
    by (auto simp: widens_def segment_in_def)
  show ?thesis
  proof (cases res)
    case (Inl e)
    with assms(1) a b consider w1 where "check cs w = (Inl e, w1)"
      | w1 w2 where "absorb_pairs cs 0 pairs ?sg w1 = (Inl e, w2)"
      | w1 sg' w2 where "absorb_pairs cs 0 pairs ?sg w1 = (Inr sg', w2)" "sg' \<noteq> sg" "widen cs a b pairs fuel sg' w2 = (res, w')"
      by (auto simp: act_bind_Inl_iff act_lift_iff split: if_split_asm)
    then show ?thesis
    proof cases
      case 3
      with absorb_pairs_Inr [OF 3(1) grown(2) assms(3)] widens_trans [OF grown(1)] show ?thesis
        by auto
    qed (use Inl check_Inl absorb_pairs_Inl in blast)+
  next
    case (Inr sg1)
    with assms(1) a b obtain w1 sg' w2 where run: "absorb_pairs cs 0 pairs ?sg w1 = (Inr sg', w2)"
        "if sg' = sg then res = Inr sg' else widen cs a b pairs fuel sg' w2 = (res, w')"
      by (auto simp: act_bind_Inr_iff act_lift_iff split: if_split_asm)
    with absorb_pairs_Inr [OF run(1) grown(2) assms(3)] widens_trans [OF grown(1)] show ?thesis
      by blast
  qed
qed

text \<open>Every round but the last widens the segment, so the fuel is enough.\<close>

lemma widen_ends:
  assumes "widen cs a b pairs fuel sg w = (res, w')" "segment_in (length a) (length b) sg"
    "within (length a) (length b) pairs" "length a + length b < fuel + segment_size sg"
  shows "case res of Inl e \<Rightarrow> stopped cs e | Inr sg' \<Rightarrow> segment_in (length a) (length b) sg'"
  using assms(1,2,4)
proof (induction fuel arbitrary: sg w)
  case 0
  then show ?case
    using segment_size_le by fastforce
next
  case (Suc fuel)
  from widen_step [OF Suc.prems(1,2) assms(3)] consider e where "res = Inl e" "stopped cs e"
    | "res = Inr sg" | sg' w1 where "widens sg sg'" "segment_in (length a) (length b) sg'" "sg' \<noteq> sg"
        "widen cs a b pairs fuel sg' w1 = (res, w')"
    by (auto split: if_split_asm)
  then show ?case
  proof cases
    case 3
    with Suc.IH [OF 3(4,2)] widens_size [OF 3(1) Suc.prems(2) 3(3)] Suc.prems(3) show ?thesis
      by simp
  qed (use Suc.prems(2) in simp_all)
qed

definition segments_in :: "nat \<Rightarrow> nat \<Rightarrow> segment list \<Rightarrow> bool" where
  "segments_in n m sgs \<longleftrightarrow> list_all (segment_in n m) sgs"

lemma join_segment_in: "segments_in n m sgs \<Longrightarrow> segment_in n m sg \<Longrightarrow> segments_in n m (join_segment sgs sg)"
proof (cases sgs rule: rev_cases)
  case (snoc us u)
  assume "segments_in n m sgs" "segment_in n m sg"
  with snoc show ?thesis
    by (auto simp: join_segment_def segments_in_def segment_in_def Let_def min_def max_def)
qed (simp add: join_segment_def segments_in_def)

lemma segments_result:
  assumes "within (length a) (length b) pairs"
  shows "segments cs a b pairs ps si sj sgs w = (res, w') \<Longrightarrow> steps_to a b ps si sj \<Longrightarrow>
    segments_in (length a) (length b) sgs \<Longrightarrow>
    case res of Inl e \<Rightarrow> stopped cs e | Inr sgs' \<Rightarrow> segments_in (length a) (length b) sgs'"
proof (induction ps arbitrary: si sj sgs w)
  case (Cons p ps)
  obtain i j where p: "p = (i, j)"
    by fastforce
  note step = steps_to_Cons [OF Cons.prems(2), unfolded p fst_conv snd_conv]
  let ?sg = "\<lparr>sg_a0 = si, sg_a1 = i, sg_b0 = sj, sg_b1 = j\<rparr>"
  let ?first = "if si < i \<or> sj < j then
      act_bind (widen cs a b pairs (length a + length b + 2) ?sg) (\<lambda>sg. act_lift (Inr (join_segment sgs sg)))
    else act_lift (Inr sgs)"
  obtain r1 w1 where f: "?first w = (r1, w1)"
    by fastforce
  have first: "case r1 of Inl e \<Rightarrow> stopped cs e | Inr sgs' \<Rightarrow> segments_in (length a) (length b) sgs'"
  proof (cases "si < i \<or> sj < j")
    case True
    obtain r2 w2 where wd: "widen cs a b pairs (length a + length b + 2) ?sg w = (r2, w2)"
      by fastforce
    have "segment_in (length a) (length b) ?sg"
      using step by (simp add: segment_in_def)
    from widen_ends [OF wd this assms] f wd True join_segment_in [OF Cons.prems(3)] show ?thesis
      by (cases r2) (auto simp: act_bind_def act_lift_def)
  next
    case False
    with f Cons.prems(3) show ?thesis
      by (auto simp: act_lift_def)
  qed
  show ?case
  proof (cases r1)
    case (Inl e)
    with f first Cons.prems(1) show ?thesis
      by (auto simp: p act_bind_def)
  next
    case (Inr sgs1)
    then have rest: "segments cs a b pairs ps (i + 1) (j + 1) sgs1 w1 = (res, w')"
      using f Cons.prems(1) by (simp add: p act_bind_def split del: if_split cong: if_cong)
    have sgs1: "segments_in (length a) (length b) sgs1"
      using first Inr by simp
    show ?thesis
    proof (cases "ps = []")
      case True
      with rest sgs1 show ?thesis
        by (auto simp: act_lift_def)
    next
      case False
      with Cons.IH [OF rest _ sgs1] step show ?thesis
        by simp
    qed
  qed
qed simp

section \<open>A merge never panics\<close>

lemma snapshot_read_no_panic: "good s \<Longrightarrow> snapshot_read s start stop max_bytes \<noteq> Inl Panicked"
proof (cases "validate_range s start stop")
  case (Inl err)
  with validate_range_errors [OF Inl] show ?thesis
    by (auto simp: snapshot_read_def)
next
  case (Inr u)
  assume s: "good s"
  then have "readable (snap_text s) (start, stop)"
    using validate_range_iff [OF s, of start stop] Inr by (simp add: readable_def)
  with Inr snapshot_chunks_text [OF s, of start stop] show ?thesis
    by (auto simp: snapshot_read_def readable_def)
qed

lemma read_or_no_panic: "good s \<Longrightarrow> e \<noteq> DiffPanicked \<Longrightarrow> read_or e s rng max_bytes \<noteq> Inl DiffPanicked"
  using snapshot_read_no_panic [of s "fst rng" "snd rng" max_bytes]
  by (auto simp: read_or_def split: sum.splits error.splits)

lemma read_all_no_panic: "good s \<Longrightarrow> read_all s rs max_bytes \<noteq> Inl DiffPanicked"
  by (induction rs) (auto simp: and_then_Inl_iff dest: read_or_no_panic)

lemma all_edits_no_panic:
  "good s \<Longrightarrow> segments_in (length a) (length b) sgs \<Longrightarrow> all_edits s e max_bytes a b sgs \<noteq> Inl DiffPanicked"
  by (induction sgs)
    (auto simp: and_then_Inl_iff segment_edits_def segments_in_def segment_in_def read_all_no_panic split: if_split_asm)

lemma tokens_no_panic: "good s \<Longrightarrow> tokens cs s rng max_bytes \<noteq> Inl DiffPanicked"
  by (auto simp: tokens_def and_then_Inl_iff dest: read_or_no_panic)

lemma stopped_no_crash: "stopped cs e \<Longrightarrow> e \<noteq> Crashed"
  by (auto simp: stopped_def)

lemma search_segments:
  assumes "act_bind (within_budget (myers cs a b)) (\<lambda>pairs.
    within_budget (segments cs a b pairs (pairs @ [(length a, length b)]) 0 0 [])) w = (res, w')"
  shows "case res of Inl e \<Rightarrow> e = DiffBudgetExceeded | Inr sgs \<Rightarrow> segments_in (length a) (length b) sgs"
proof -
  obtain r1 w1 where m: "myers cs a b w = (r1, w1)"
    by fastforce
  show ?thesis
  proof (cases r1)
    case (Inl e)
    with m assms stopped_no_crash [OF myers_Inl [OF m [unfolded Inl]]] show ?thesis
      by (cases e) (auto simp: act_bind_def within_budget_def)
  next
    case (Inr pairs)
    have long: "longest (line_match a b) (length a) (length b) pairs"
      by (rule myers_Inr [OF m [unfolded Inr]])
    obtain r2 w2 where s: "segments cs a b pairs (pairs @ [(length a, length b)]) 0 0 [] w1 = (r2, w2)"
      by fastforce
    have "within (length a) (length b) pairs" "steps_to a b (pairs @ [(length a, length b)]) 0 0"
      using long aligned_steps [of a b pairs] by (simp_all add: longest_def aligned_def)
    note ends = segments_result [OF this(1) s this(2)]
    show ?thesis
    proof (cases r2)
      case (Inl e)
      with m s assms ends stopped_no_crash [of cs e] \<open>r1 = Inr pairs\<close> show ?thesis
        by (cases e) (auto simp: act_bind_def within_budget_def segments_in_def)
    next
      case (Inr sgs)
      with m s assms ends \<open>r1 = Inr pairs\<close> show ?thesis
        by (auto simp: act_bind_def within_budget_def segments_in_def)
    qed
  qed
qed

lemma preserve_no_panic:
  assumes "good source" "good target"
  shows "preserve cs source target srange trange max_bytes \<noteq> Inl DiffPanicked"
proof -
  have "fst (act_bind (within_budget (myers cs a b)) (\<lambda>pairs.
      within_budget (segments cs a b pairs (pairs @ [(length a, length b)]) 0 0 [])) w) \<noteq> Inl DiffPanicked" for a b w
    using search_segments [of cs a b w] by (cases "act_bind (within_budget (myers cs a b)) (\<lambda>pairs.
      within_budget (segments cs a b pairs (pairs @ [(length a, length b)]) 0 0 [])) w") auto
  moreover have "all_edits source e max_bytes a b sgs \<noteq> Inl DiffPanicked"
    if "fst (act_bind (within_budget (myers cs a b)) (\<lambda>pairs.
      within_budget (segments cs a b pairs (pairs @ [(length a, length b)]) 0 0 [])) w) = Inr sgs" for e a b w sgs
    using that search_segments [of cs a b w] all_edits_no_panic [OF assms(1)]
    by (cases "act_bind (within_budget (myers cs a b)) (\<lambda>pairs.
      within_budget (segments cs a b pairs (pairs @ [(length a, length b)]) 0 0 [])) w") auto
  ultimately show ?thesis
    using tokens_no_panic [OF assms(1)] tokens_no_panic [OF assms(2)]
    unfolding preserve_def Let_def by (auto simp: and_then_Inl_iff)
qed

end
