(* ===== verification/Diff_Properties.thy ===== *)
theory Diff_Properties
  imports Diff_Merge_Total
begin

text \<open>
  The properties of the comparison of two texts and of merging its hunks, and a concrete comparison
  on which they apply.
\<close>

section \<open>A concrete comparison\<close>

text \<open>Without cancellation, with time and memory to spare; pieces are characters.\<close>

definition sample_options :: compare_options where
  "sample_options = default_options\<lparr>co_limits := default_limits\<lparr>rl_max_memory_bytes := usize_max\<rparr>\<rparr>"

definition sample_setting :: setting where
  "sample_setting =
     \<lparr>cs_options = sample_options, cs_cancelled = \<lambda>_. False, cs_elapsed = \<lambda>_. 0, cs_fold = id,
      cs_capacity = length, cs_words = utf8_chars, cs_graphemes = utf8_chars, cs_line_size = 64,
      cs_usize_size = 8, cs_hunk_size = 256, cs_span_size = 32\<rparr>"

definition text_snapshot :: "byte list \<Rightarrow> nat \<Rightarrow> snapshot" where
  "text_snapshot t state = d_current (empty_doc (Some (Leaf (sample_piece t))) [] state 2)"

definition sample_l :: snapshot where
  "sample_l = text_snapshot [97, LF, 98, LF, 100] 1"

definition sample_r :: snapshot where
  "sample_r = text_snapshot [97, LF, 99, LF, 100] 2"

lemma sample_valid_texts: "valid_utf8 [97, LF, 98, LF, 100]" "valid_utf8 [97, LF, 99, LF, 100]"
  by code_simp+

lemma text_snapshot_good:
  "valid_utf8 t \<Longrightarrow> t \<noteq> [] \<Longrightarrow> good (text_snapshot t state) \<and> snap_text (text_snapshot t state) = t"
  using sample_piece_ok [of t]
  by (simp add: text_snapshot_def empty_doc_def good_def snap_text_def owned_def text_of_def)
     (simp add: sample_piece_def piece_text_def)

lemma sample_snapshots [simp]:
  "good sample_l" "good sample_r" "snap_text sample_l = [97, LF, 98, LF, 100]"
  "snap_text sample_r = [97, LF, 99, LF, 100]" "sn_complete sample_l" "sn_complete sample_r"
  using text_snapshot_good sample_valid_texts
  by (simp_all add: sample_l_def sample_r_def) (simp_all add: text_snapshot_def empty_doc_def)

lemma chars_cut [simp]: "cuts utf8_chars"
  by (auto simp: cuts_def list_all_iff intro: utf8_scalar_valid utf8_chars_scalar)

lemma sample_plain [simp]: "\<not> ignores (cs_options sample_setting)"
  by (simp add: sample_setting_def sample_options_def default_options_def ignores_def)

lemma sample_pieces [simp]: "cuts (cs_words sample_setting)" "cuts (cs_graphemes sample_setting)"
  by (simp_all add: sample_setting_def)

lemma sample_unlimited [simp]: "\<not> stopped sample_setting e"
  by (simp add: stopped_def sample_setting_def sample_options_def default_options_def default_limits_def)

section \<open>Aligning lines\<close>

text \<open>C9: The pairs the greedy search returns are a longest common subsequence of the two lists of
  lines: they increase on both sides, pair equal lines, and no other such list is longer, although
  the search reads only the furthest point of each diagonal and works back from its trace.\<close>
theorem myers_longest:
  assumes "myers cs a b w = (Inr ps, w')"
  shows "chain ps \<and> matching (line_match a b) ps \<and> within (length a) (length b) ps \<and>
    (\<forall>qs. chain qs \<longrightarrow> matching (line_match a b) qs \<longrightarrow> within (length a) (length b) qs \<longrightarrow>
       length qs \<le> length ps)"
  using myers_Inr [OF assms] by (simp add: longest_def)

definition sample_lines :: "byte list list \<Rightarrow> diff_line list" where
  "sample_lines ts = map (\<lambda>t. \<lparr>ln_start = 0, ln_end = length t, ln_text = t, ln_hint = 0\<rparr>) ts"

definition start_work :: work where
  "start_work = \<lparr>wk_used = 0, wk_peak = 0, wk_polls = 0\<rparr>"

theorem myers_longest_witness:
  "\<exists>ps w'. myers sample_setting (sample_lines [[97], [98], [99]]) (sample_lines [[98], [99]]) start_work = (Inr ps, w') \<and>
    2 \<le> length ps"
proof -
  let ?a = "sample_lines [[97], [98], [99]]" and ?b = "sample_lines [[98], [99]]"
  obtain ps w' where run: "myers sample_setting ?a ?b start_work = (Inr ps, w')"
    using unlimited_run by (fastforce simp: unlimited_def)
  have "length [(1, 0), (2, 1)] \<le> length ps"
    using myers_longest [OF run]
    by (elim conjE allE [of _ "[(1, 0), (2, 1)]"]) (simp add: line_match_def sample_lines_def)
  with run show ?thesis
    by auto
qed

text \<open>The search ends with a path of the length the table of the reference gives, whatever the
  lines are, when no poll cancels it, no poll finds its time spent and the memory limit is the
  largest \<open>usize\<close>; in particular it never runs past its last row or reads out of range.\<close>
theorem myers_terminates:
  assumes "\<forall>n. \<not> cs_cancelled cs n" "\<forall>n. cs_elapsed cs n < rl_time_budget_ms (limits cs)"
    "usize_max \<le> rl_max_memory_bytes (limits cs)"
  shows "\<exists>ps w'. myers cs a b w = (Inr ps, w') \<and> length ps = lcs (line_match a b) (length a) (length b)"
proof -
  have "unlimited cs"
    using assms by (auto simp: unlimited_def stopped_def not_le not_less)
  then obtain ps w' where run: "myers cs a b w = (Inr ps, w')"
    using unlimited_run by blast
  with myers_length [OF run] show ?thesis
    by blast
qed

theorem myers_terminates_witness:
  "\<exists>ps w'. myers sample_setting (sample_lines [[97], [98], [99]]) (sample_lines [[98], [99]]) start_work = (Inr ps, w') \<and>
    length ps = 2"
proof -
  have "lcs (line_match (sample_lines [[97], [98], [99]]) (sample_lines [[98], [99]])) 3 2 = 2"
    by (simp add: numeral_2_eq_2 numeral_3_eq_3 line_match_def sample_lines_def)
  moreover have "\<forall>n. \<not> cs_cancelled sample_setting n"
    "\<forall>n. cs_elapsed sample_setting n < rl_time_budget_ms (limits sample_setting)"
    "usize_max \<le> rl_max_memory_bytes (limits sample_setting)"
    by (simp_all add: sample_setting_def sample_options_def default_options_def default_limits_def)
  note myers_terminates [OF this, of "sample_lines [[97], [98], [99]]" "sample_lines [[98], [99]]" start_work]
  moreover have "length (sample_lines [[97], [98], [99]]) = 3" "length (sample_lines [[98], [99]]) = 2"
    by (simp_all add: sample_lines_def)
  ultimately show ?thesis
    by simp
qed

text \<open>The anchors of an alignment are lines that occur exactly once on each side, pair equal
  lines in order, and no other chain of such pairs is longer: the patience pass finds a longest
  increasing sequence, and hash collisions establish nothing.\<close>
theorem anchors_longest:
  assumes "anchor_list cs a b hash_line w = (Inr anchors, w')"
  shows "chain anchors \<and> list_all (unique_pair hash_line a b) anchors \<and>
    (\<forall>qs. chain qs \<longrightarrow> list_all (unique_pair hash_line a b) qs \<longrightarrow> length qs \<le> length anchors)"
  using anchor_list_result [OF assms] by (simp add: best_anchors_def)

theorem anchors_longest_witness:
  "\<exists>ps w'. anchor_list sample_setting (sample_lines [[97], [98], [99]]) (sample_lines [[98], [99]]) (\<lambda>_. 7) start_work =
      (Inr ps, w') \<and> 2 \<le> length ps"
proof -
  let ?a = "sample_lines [[97], [98], [99]]" and ?b = "sample_lines [[98], [99]]"
  obtain res w' where run: "anchor_list sample_setting ?a ?b (\<lambda>_. 7) start_work = (res, w')"
    by fastforce
  then obtain ps where ps: "res = Inr ps"
    using anchor_list_result [OF run] by (cases res) auto
  have "list_all (unique_pair (\<lambda>_. 7) ?a ?b) [(1, 0), (2, 1)]"
    by (simp add: unique_pair_def line_match_def sample_lines_def positions_def line_key_def upt_rec)
  then have "length [(1, 0), (2, 1)] \<le> length ps"
    using anchors_longest [OF run [unfolded ps]]
    by (elim conjE allE [of _ "[(1, 0), (2, 1)]"]) simp
  with run ps show ?thesis
    by auto
qed

section \<open>Hunks\<close>

text \<open>C8: When no option ignores anything, the hunks of a comparison are all of the difference: the
  left bytes of every hunk in place of its right ones turn the right text into the left text, also
  when limits left coarse blocks or a single one; a comparison that failed has no hunks; and an exact
  one has none just when the texts are equal.\<close>
theorem hunks_rebuild_left:
  assumes "good l" "good r" "\<not> ignores (cs_options cs)" "cuts (cs_words cs)" "cuts (cs_graphemes cs)"
  shows "case cr_completeness (compare cs l r) of
      Exact \<Rightarrow> rebuilds l r (cr_hunks (compare cs l r)) \<and>
        (cr_hunks (compare cs l r) = [] \<longleftrightarrow> snap_text l = snap_text r)
    | Coarse _ \<Rightarrow> rebuilds l r (cr_hunks (compare cs l r))
    | _ \<Rightarrow> cr_hunks (compare cs l r) = []"
  unfolding compare_def by (rule compare_hashed_rebuilds [OF assms])

theorem hunks_rebuild_left_witness:
  "case cr_completeness (compare sample_setting sample_l sample_r) of
      Exact \<Rightarrow> rebuilds sample_l sample_r (cr_hunks (compare sample_setting sample_l sample_r)) \<and>
        cr_hunks (compare sample_setting sample_l sample_r) \<noteq> []
    | Coarse _ \<Rightarrow> rebuilds sample_l sample_r (cr_hunks (compare sample_setting sample_l sample_r))
    | _ \<Rightarrow> cr_hunks (compare sample_setting sample_l sample_r) = []"
  using hunks_rebuild_left [of sample_l sample_r sample_setting] by (simp split: completeness.splits)

text \<open>C13: Whatever the options and however the comparison ends, its hunks are well formed: their right
  ranges are in order, disjoint and between characters of the right text, their left ranges so of the
  left text, every hunk is stamped with both revisions, both content states and the options, its kind
  says which sides are empty, and a coarse hunk has no intraline spans.\<close>
theorem compare_well_formed:
  assumes "good l" "good r"
  shows "list_all (hunk_ok cs l r) (cr_hunks (compare cs l r)) \<and>
    ordered 0 (snap_text r) (map (left_edit (snap_text l)) (hunk_ranges (cr_hunks (compare cs l r)))) \<and>
    ordered 0 (snap_text l) (map (right_edit (snap_text r)) (hunk_ranges (cr_hunks (compare cs l r))))"
proof (cases rule: compare_hashed_cases [of cs l r hash])
  case (complete hs c w)
  with compare_body_hunks_ok [OF complete(1)] compare_body_ordered [OF assms complete(1)] show ?thesis
    by (simp add: compare_def)
next
  case (whole c w)
  with whole_hunk_ok assms show ?thesis
    by (simp add: compare_def snapshot_len_text)
next
  case (failed e w)
  then show ?thesis
    by (simp add: compare_def)
qed

theorem compare_well_formed_witness:
  "list_all (hunk_ok sample_setting sample_l sample_r) (cr_hunks (compare sample_setting sample_l sample_r)) \<and>
    ordered 0 [97, LF, 99, LF, 100]
      (map (left_edit [97, LF, 98, LF, 100]) (hunk_ranges (cr_hunks (compare sample_setting sample_l sample_r))))"
  using compare_well_formed [of sample_l sample_r sample_setting] by simp

text \<open>C28: A comparison never panics, and how it ends has its reason: it is cancelled only when a poll
  was, coarse for time only when a poll found the budget spent, coarse for memory only under a limit
  below the largest \<open>usize\<close>, failed only when the limit does not hold two hunks, unavailable only when
  a snapshot is incomplete; else it is coarse for the number of lines or bytes, or exact.\<close>
theorem compare_reasons:
  assumes "good l" "good r" "cuts (cs_words cs)" "cuts (cs_graphemes cs)"
  shows "case cr_completeness (compare cs l r) of
      Exact \<Rightarrow> True
    | Cancelled \<Rightarrow> \<exists>n. cs_cancelled cs n
    | Coarse TimeLimit \<Rightarrow> \<exists>n. rl_time_budget_ms (limits cs) \<le> cs_elapsed cs n
    | Coarse MemoryLimit \<Rightarrow> rl_max_memory_bytes (limits cs) < usize_max
    | Coarse LinesLimit \<Rightarrow> True
    | Coarse BytesLimit \<Rightarrow> True
    | Coarse Windowed \<Rightarrow> False
    | Failed \<Rightarrow> rl_max_memory_bytes (limits cs) < cs_hunk_size cs * 2
    | Unavailable \<Rightarrow> \<not> (sn_complete l \<and> sn_complete r)
    | Crashed \<Rightarrow> False"
  using compare_hashed_completeness [OF assms refl, of hash]
  unfolding compare_def ended_def stopped_def
  by (elim disjE conjE) simp_all

theorem compare_reasons_witness:
  "cr_completeness (compare sample_setting sample_l sample_r) \<in> {Exact, Coarse LinesLimit, Coarse BytesLimit}"
  using compare_reasons [of sample_l sample_r sample_setting]
  by (auto simp: sample_setting_def sample_options_def default_options_def default_limits_def usize_max_def
      split: completeness.splits coarse_reason.splits)

section \<open>Merging\<close>

text \<open>C17: Copying a hunk from left to right: when the code returns a transaction, the hunk carries the
  states of both snapshots, and the document whose current snapshot is the right one applies it as it
  stands, giving the right text with the left bytes of the hunk in place of its right range; it may
  refuse only for memory or because its revisions are used up.\<close>
theorem merge_hunk:
  assumes "env_ok env" "doc_ok (slot_of env) d" "good l"
    "apply_hunk_with_policy cs CopySelectedRange LeftToRight h l (d_current d) max_bytes = Inr tr"
  shows "matches_states h (sn_revision l) (sn_state l) (sn_revision (d_current d)) (sn_state (d_current d)) \<and>
    (case apply_transaction env tr w d of
       (Inr revision, w', d') \<Rightarrow>
         doc_ok (slot_of env) d' \<and> revision = sn_revision (d_current d') \<and>
         snap_text (d_current d') =
           replace_range (fst (hk_right h)) (snd (hk_right h)) (sub (fst (hk_left h)) (snd (hk_left h)) (snap_text l))
             (snap_text (d_current d))
     | (Inl err, w', d') \<Rightarrow> err = BudgetExceeded \<or> err = RevisionOverflow)"
proof -
  let ?t = "sub (fst (hk_left h)) (snd (hk_left h)) (snap_text l)"
  have good: "good (d_current d)"
    using assms(2) by (simp add: doc_ok_def)
  have states: "matches_states h (sn_revision l) (sn_state l) (sn_revision (d_current d)) (sn_state (d_current d))"
    and tr: "tr = \<lparr>tr_base = sn_revision (d_current d),
      tr_edits = [\<lparr>ed_start = fst (hk_right h), ed_end = snd (hk_right h), ed_insert = ?t\<rparr>]\<rparr>"
    and range: "readable (snap_text (d_current d)) (hk_right h)" "valid_utf8 ?t"
    using copied_hunk [OF assms(3) good assms(4)] by auto
  then have edits: "inserts_valid (tr_edits tr)" "tr_base tr = sn_revision (d_current d)"
    "accepted (snap_text (d_current d)) None (tr_edits tr)"
    and rendered: "render 0 (snap_text (d_current d)) (tr_edits tr) =
       replace_range (fst (hk_right h)) (snd (hk_right h)) ?t (snap_text (d_current d))"
    by (simp_all add: valid_step_def readable_def replace_range_def sub_0_take)
  show ?thesis
    using states apply_accepted [OF assms(1,2) edits, of w, unfolded rendered] by (rule conjI)
qed

definition sample_hunk :: hunk where
  "sample_hunk = make_hunk sample_l (d_current sample_doc) (2, 4) (1, 2) (1, 0) 0"

theorem merge_hunk_witness:
  "\<exists>tr. apply_hunk_with_policy sample_setting CopySelectedRange LeftToRight sample_hunk sample_l (d_current sample_doc) 10 = Inr tr \<and>
    (case apply_transaction sample_env tr sample_world sample_doc of
       (Inr revision, w', d') \<Rightarrow> snap_text (d_current d') = [97, 98, LF, CR, LF, 99]
     | (Inl err, w', d') \<Rightarrow> err = BudgetExceeded \<or> err = RevisionOverflow)"
proof -
  have bounds: "char_boundary [97, LF, 98, LF, 100] 2" "char_boundary [97, LF, 98, LF, 100] 4"
    "char_boundary [97, 98, CR, LF, 99] 1" "char_boundary [97, 98, CR, LF, 99] 2"
    by (simp_all add: char_boundary_def cont_iff)
  then have "chunks_or_invalid sample_l (2, 4) = Inr ()" "chunks_or_invalid (d_current sample_doc) (1, 2) = Inr ()"
    "snapshot_read sample_l 2 4 10 = Inr [98, LF]"
    using snapshot_read_text [of sample_l 2 4 10] by (simp_all add: chunks_or_invalid_Inr readable_def sub_def)
  then obtain tr where tr: "apply_hunk_with_policy sample_setting CopySelectedRange LeftToRight sample_hunk sample_l (d_current sample_doc) 10 = Inr tr"
    by (simp add: apply_hunk_with_policy_def sample_hunk_def make_hunk_def)
      (simp add: sample_l_def text_snapshot_def empty_doc_def sample_doc_def)
  have range: "hk_left sample_hunk = (2, 4)" "hk_right sample_hunk = (1, 2)"
    by (simp_all add: sample_hunk_def make_hunk_def)
  from merge_hunk [OF sample_env_ok sample_doc_ok(1) sample_snapshots(1) tr, of sample_world] tr show ?thesis
    by (auto simp: range replace_range_def sub_def numeral_2_eq_2 split: prod.splits sum.splits)
qed


text \<open>C18: Merging a hunk never panics, whatever the hunk, the snapshots, the direction and the policy:
  a range that fits neither text, a hunk of other snapshots or an exhausted budget are errors, and the
  segmentation of the ignoring merge, whose loops widen a segment over its neighbours, ends.\<close>
theorem merge_never_panics:
  assumes "good l" "good r"
  shows "apply_hunk_with_policy cs policy dir h l r max_bytes \<noteq> Inl DiffPanicked"
proof -
  have plain: "chunks_or_invalid s rng \<noteq> Inl DiffPanicked" for s rng
    by (auto simp: chunks_or_invalid_def split: prod.splits sum.splits if_splits)
  show ?thesis
    using assms plain snapshot_read_no_panic preserve_no_panic
    unfolding apply_hunk_with_policy_def Let_def
    by (cases dir) (auto simp: and_then_Inl_iff split: sum.splits error.splits)
qed

theorem merge_never_panics_witness:
  "apply_hunk_with_policy sample_setting PreserveIgnoredDestination RightToLeft
     (make_hunk sample_l sample_r (9, 3) (2, 1) (1, 0) 0) sample_l sample_r 10 \<noteq> Inl DiffPanicked"
  using merge_never_panics [of sample_l sample_r] by simp

end
