(* ===== verification/Search.thy ===== *)
theory Search
  imports Document Chars Effects
begin

text \<open>
  Searching a text, crates/search/src/lib.rs with extended.rs, fold.rs and word.rs, and the case folding
  of crates/unicode-fold: the escapes of the extended mode, the linear scan for a literal pattern and
  the moves between its matches.

  The tables of case folding and of word characters are generated when the program is built, and
  regex.rs drives an external engine; they are fields of the \<open>search_env\<close>. A job's cancellation flag
  is an oracle, asked at the \<open>n\<close>-th poll. A function that can panic, or loop on a malformed table,
  returns an option; \<open>None\<close> is a panic or a run without end.
\<close>

section \<open>Queries and results\<close>

datatype search_mode = Literal | Extended | Regex

datatype case_mode = Sensitive | Folded

record search_query =
  q_pattern :: "byte list"
  q_mode :: search_mode
  q_case :: case_mode
  q_whole_word :: bool
  q_selection :: "range option"
  q_results_ram_bytes :: nat
  q_count_beyond_limit :: bool
  q_dot_matches_newline :: bool

datatype regex_limit_kind = TimeLimit | Backtracking | Depth | Memory | Engine

datatype search_completeness =
    Complete
  | Cancelled
  | ResultLimit
  | Unsupported
  | UnsupportedStreaming
  | RegexLimit regex_limit_kind
  | InvalidQuery

record search_job =
  jb_id :: nat
  jb_cancelled :: "nat \<Rightarrow> bool"

record search_results =
  sr_job :: nat
  sr_source :: snapshot
  sr_matches :: "range list"
  sr_completeness :: search_completeness
  sr_captures :: "range option list list option"
  sr_names :: "(byte list \<times> nat) list"
  sr_total_count :: nat
  sr_count_complete :: bool

text \<open>What a scan returns and the matches it handed out in batches on the way.\<close>

type_synonym scan_outcome = "search_results \<times> range list list"

record search_env =
  se_fold :: "byte list \<Rightarrow> byte list option"
  se_word :: "(nat \<times> nat) list"
  se_regex :: "snapshot \<Rightarrow> search_query \<Rightarrow> search_job \<Rightarrow> scan_outcome option"
  se_match_size :: nat
  se_edit_size :: nat

definition MAX_PATTERN_BYTES :: nat where "MAX_PATTERN_BYTES = 64 * 1024"
definition MAX_RESULT_BYTES :: nat where "MAX_RESULT_BYTES = 16 * 1024 * 1024"
definition MAX_REPLACE_STAGING_BYTES :: nat where "MAX_REPLACE_STAGING_BYTES = 64 * 1024 * 1024"
definition BATCH_SIZE :: nat where "BATCH_SIZE = 128"

definition literal_query :: "byte list \<Rightarrow> search_query" where
  "literal_query pattern =
     \<lparr>q_pattern = pattern, q_mode = Literal, q_case = Sensitive, q_whole_word = False,
      q_selection = None, q_results_ram_bytes = MAX_RESULT_BYTES, q_count_beyond_limit = False,
      q_dot_matches_newline = False\<rparr>"

section \<open>The extended mode\<close>

text \<open>\<open>to_digit(16)\<close>.\<close>

definition hex_digit :: "byte list \<Rightarrow> nat option" where
  "hex_digit c =
     (case map unat c of
        [b] \<Rightarrow>
          if 48 \<le> b \<and> b \<le> 57 then Some (b - 48)
          else if 97 \<le> b \<and> b \<le> 102 then Some (b - 87)
          else if 65 \<le> b \<and> b \<le> 70 then Some (b - 55)
          else None
      | _ \<Rightarrow> None)"

definition checked_u32 :: "nat \<Rightarrow> nat option" where
  "checked_u32 n = (if n < 2 ^ 32 then Some n else None)"

fun hex_code :: "nat \<Rightarrow> byte list list \<Rightarrow> nat \<Rightarrow> (nat \<times> byte list list) option" where
  "hex_code 0 cs code = Some (code, cs)"
| "hex_code (Suc n) [] code = None"
| "hex_code (Suc n) (c # cs) code =
     Option.bind (checked_u32 (code * 16)) (\<lambda>code.
     Option.bind (hex_digit c) (\<lambda>d.
     Option.bind (checked_u32 (code + d)) (hex_code n cs)))"

definition hexadecimal :: "nat \<Rightarrow> byte list list \<Rightarrow> (byte list \<times> byte list list) option" where
  "hexadecimal n cs =
     Option.bind (hex_code n cs 0) (\<lambda>(code, rest).
     Option.bind (char_from_u32 code) (\<lambda>c. Some (c, rest)))"

text \<open>The character of an escape, and what follows it: backslash, n, r, t, 0, x, u and U.\<close>

definition escape :: "byte list \<Rightarrow> byte list list \<Rightarrow> (byte list \<times> byte list list) option" where
  "escape c cs =
     (if c = [92] then Some ([92], cs)
      else if c = [110] then Some ([LF], cs)
      else if c = [114] then Some ([CR], cs)
      else if c = [116] then Some ([9], cs)
      else if c = [48] then Some ([0], cs)
      else if c = [120] then hexadecimal 2 cs
      else if c = [117] then hexadecimal 4 cs
      else if c = [85] then hexadecimal 8 cs
      else None)"

lemma hex_code_length: "hex_code n cs code = Some (d, rest) \<Longrightarrow> length rest \<le> length cs"
proof (induction n cs code rule: hex_code.induct)
  case (3 n c cs code)
  then show ?case
    by (fastforce simp: bind_eq_Some_conv)
qed auto

lemma escape_length: "escape c cs = Some (d, rest) \<Longrightarrow> length rest \<le> length cs"
  by (auto simp: escape_def hexadecimal_def bind_eq_Some_conv dest: hex_code_length split: if_splits)

function decode_chars :: "byte list list \<Rightarrow> byte list option" where
  "decode_chars [] = Some []"
| "decode_chars (c # cs) =
     (if c \<noteq> [92] then map_option (\<lambda>t. c @ t) (decode_chars cs)
      else
        case cs of
          [] \<Rightarrow> None
        | e # cs' \<Rightarrow>
            (case escape e cs' of
               None \<Rightarrow> None
             | Some (d, rest) \<Rightarrow> map_option (\<lambda>t. d @ t) (decode_chars rest)))"
  by pat_completeness auto
termination
  by (relation "measure length") (auto dest: escape_length)

definition decode :: "byte list \<Rightarrow> byte list option" where
  "decode input = decode_chars (utf8_chars input)"

section \<open>Case folding\<close>

definition fold_char :: "search_env \<Rightarrow> byte list \<Rightarrow> byte list" where
  "fold_char env c =
     (case c of
        [b] \<Rightarrow> [ascii_lower b]
      | _ \<Rightarrow> (case se_fold env c of Some t \<Rightarrow> t | None \<Rightarrow> c))"

text \<open>\<open>MappedBytes\<close>: the bytes that are compared, each with the character it comes from.\<close>

record unit_byte =
  un_byte :: byte
  un_start :: nat
  un_end :: nat
  un_first :: bool
  un_last :: bool

record mapped =
  mp_text :: "byte list"
  mp_base :: nat
  mp_cursor :: nat
  mp_folded :: bool
  mp_buffer :: "byte list"
  mp_used :: nat
  mp_position :: nat
  mp_start :: nat

definition mapped_new :: "byte list \<Rightarrow> nat \<Rightarrow> bool \<Rightarrow> mapped" where
  "mapped_new t base folded =
     \<lparr>mp_text = t, mp_base = base, mp_cursor = 0, mp_folded = folded, mp_buffer = replicate 12 0,
      mp_used = 0, mp_position = 0, mp_start = 0\<rparr>"

text \<open>The step that maps the next character into the buffer; \<open>Some None\<close> at the end of the text.\<close>

definition mapped_fill :: "search_env \<Rightarrow> mapped \<Rightarrow> mapped option option" where
  "mapped_fill env mp =
     (if mp_position mp \<noteq> mp_used mp then Some (Some mp)
      else if \<not> char_boundary (mp_text mp) (mp_cursor mp) then None
      else
        case utf8_chars (drop (mp_cursor mp) (mp_text mp)) of
          [] \<Rightarrow> Some None
        | c # _ \<Rightarrow>
            let t = fold_char env c in
            if length t > 12 then None
            else Some (Some (mp\<lparr>mp_start := mp_base mp + mp_cursor mp,
              mp_cursor := mp_cursor mp + length c, mp_used := length t,
              mp_buffer := t @ drop (length t) (mp_buffer mp), mp_position := 0\<rparr>)))"

definition mapped_next :: "search_env \<Rightarrow> mapped \<Rightarrow> (unit_byte \<times> mapped) option option" where
  "mapped_next env mp =
     (if \<not> mp_folded mp then
        if mp_cursor mp < length (mp_text mp) then
          let s = mp_base mp + mp_cursor mp in
          Some (Some
            (\<lparr>un_byte = mp_text mp ! mp_cursor mp, un_start = s, un_end = s + 1, un_first = True,
              un_last = True\<rparr>,
             mp\<lparr>mp_cursor := mp_cursor mp + 1\<rparr>))
        else Some None
      else
        case mapped_fill env mp of
          None \<Rightarrow> None
        | Some None \<Rightarrow> Some None
        | Some (Some mp) \<Rightarrow>
            if mp_position mp < length (mp_buffer mp) then
              Some (Some
                (\<lparr>un_byte = mp_buffer mp ! mp_position mp, un_start = mp_start mp,
                  un_end = mp_base mp + mp_cursor mp, un_first = (mp_position mp = 0),
                  un_last = (mp_position mp + 1 = mp_used mp)\<rparr>,
                 mp\<lparr>mp_position := mp_position mp + 1\<rparr>))
            else None)"

section \<open>Whole words\<close>

definition is_word :: "search_env \<Rightarrow> byte list \<Rightarrow> bool" where
  "is_word env c =
     (let index = partition_point (\<lambda>r. snd r < char_code c) (se_word env) in
      index < length (se_word env) \<and> fst (se_word env ! index) \<le> char_code c)"

partial_function (option) boundary_from :: "snapshot \<Rightarrow> nat \<Rightarrow> nat option" where
  "boundary_from s n = (if is_boundary s n then Some n else boundary_from s (n + 1))"

fun boundary_until :: "snapshot \<Rightarrow> nat \<Rightarrow> nat option" where
  "boundary_until s 0 = (if is_boundary s 0 then Some 0 else None)"
| "boundary_until s (Suc n) = (if is_boundary s (Suc n) then Some (Suc n) else boundary_until s n)"

text \<open>\<open>read(..).ok()\<close>: a refused read is \<open>Some None\<close>.\<close>

definition read_ok :: "snapshot \<Rightarrow> nat \<Rightarrow> nat \<Rightarrow> nat \<Rightarrow> byte list option option" where
  "read_ok s a b max_bytes =
     (case snapshot_read s a b max_bytes of
        Inl Panicked \<Rightarrow> None
      | Inl _ \<Rightarrow> Some None
      | Inr t \<Rightarrow> Some (Some t))"

definition word_boundaries :: "search_env \<Rightarrow> snapshot \<Rightarrow> nat \<Rightarrow> nat \<Rightarrow> bool option option" where
  "word_boundaries env s a b =
     Option.bind (boundary_from s (a - 4)) (\<lambda>before.
     Option.bind (read_ok s before a 4) (\<lambda>prefix.
       case prefix of
         None \<Rightarrow> Some None
       | Some t \<Rightarrow>
           if t \<noteq> [] \<and> is_word env (last (utf8_chars t)) then Some (Some False)
           else
             Option.bind (boundary_until s (min (sat_add b 4) (snapshot_len s))) (\<lambda>after.
             Option.bind (read_ok s b after 4) (\<lambda>suffix.
               case suffix of
                 None \<Rightarrow> Some None
               | Some t \<Rightarrow> Some (Some (\<not> (t \<noteq> [] \<and> is_word env (hd (utf8_chars t)))))))))"

text \<open>The same test over one complete subject, as the regex engine sees it.\<close>

definition text_start_boundary :: "search_env \<Rightarrow> byte list \<Rightarrow> nat \<Rightarrow> bool" where
  "text_start_boundary env t a \<longleftrightarrow>
     char_boundary t a \<and> \<not> (take a t \<noteq> [] \<and> is_word env (last (utf8_chars (take a t))))"

definition text_boundaries :: "search_env \<Rightarrow> byte list \<Rightarrow> nat \<Rightarrow> nat \<Rightarrow> bool" where
  "text_boundaries env t a b \<longleftrightarrow>
     text_start_boundary env t a \<and> char_boundary t b \<and>
     \<not> (drop b t \<noteq> [] \<and> is_word env (hd (utf8_chars (drop b t))))"

section \<open>The scan\<close>

text \<open>The longest shorter prefix of the pattern that the next byte may extend.\<close>

partial_function (option) fall_back :: "byte list \<Rightarrow> nat list \<Rightarrow> byte \<Rightarrow> nat \<Rightarrow> nat option" where
  "fall_back p f b m =
     (if m = 0 then Some 0
      else if m \<ge> length p then None
      else if b = p ! m then Some m
      else if m - 1 < length f then fall_back p f b (f ! (m - 1))
      else None)"

definition advance :: "byte list \<Rightarrow> nat list \<Rightarrow> byte \<Rightarrow> nat \<Rightarrow> nat option" where
  "advance p f b m =
     Option.bind (fall_back p f b m) (\<lambda>m.
       if m < length p then Some (if b = p ! m then m + 1 else m) else None)"

fun prefix_loop :: "byte list \<Rightarrow> nat list \<Rightarrow> nat \<Rightarrow> nat list \<Rightarrow> nat list option" where
  "prefix_loop p [] m f = Some f"
| "prefix_loop p (i # is) m f =
     Option.bind (advance p f (p ! i) m) (\<lambda>m. prefix_loop p is m (f[i := m]))"

definition prefix_table :: "byte list \<Rightarrow> nat list option" where
  "prefix_table p = prefix_loop p [1..<length p] 0 (replicate (length p) 0)"

text \<open>What stays fixed during a scan, and its variables.\<close>

record scan_plan =
  pl_env :: search_env
  pl_source :: snapshot
  pl_job :: search_job
  pl_pattern :: "byte list"
  pl_prefix :: "nat list"
  pl_capacity :: nat
  pl_whole_word :: bool
  pl_beyond :: bool

record scan_state =
  ss_matched :: nat
  ss_seen :: nat
  ss_mapping :: "(nat \<times> bool) list"
  ss_matches :: "range list"
  ss_emitted :: nat
  ss_batches :: "range list list"
  ss_total :: nat
  ss_completeness :: search_completeness
  ss_stop :: bool
  ss_polls :: nat

definition emit :: "scan_state \<Rightarrow> scan_state" where
  "emit st =
     st\<lparr>ss_batches := ss_batches st @ [drop (ss_emitted st) (ss_matches st)],
        ss_emitted := length (ss_matches st)\<rparr>"

definition take_hit :: "scan_plan \<Rightarrow> range \<Rightarrow> scan_state \<Rightarrow> scan_state" where
  "take_hit pl r st =
     (if length (ss_matches st) = pl_capacity pl then
        if pl_beyond pl
        then st\<lparr>ss_total := ss_total st + 1, ss_completeness := ResultLimit, ss_matched := 0\<rparr>
        else st\<lparr>ss_completeness := ResultLimit, ss_stop := True\<rparr>
      else
        let st = st\<lparr>ss_total := ss_total st + 1, ss_matches := ss_matches st @ [r], ss_matched := 0\<rparr> in
        if length (ss_matches st) - ss_emitted st = BATCH_SIZE then emit st else st)"

definition full_match :: "scan_plan \<Rightarrow> unit_byte \<Rightarrow> scan_state \<Rightarrow> scan_state option" where
  "full_match pl u st =
     (let m = ss_matched st;
          (start, first) =
            (if ss_mapping st = [] then (un_end u - m, True)
             else ss_mapping st ! ((ss_seen st - m) mod length (pl_pattern pl)));
          back = st\<lparr>ss_matched := pl_prefix pl ! (m - 1)\<rparr>
      in
      if \<not> first \<or> \<not> un_last u then Some back
      else if \<not> pl_whole_word pl then Some (take_hit pl (start, un_end u) st)
      else
        Option.bind (word_boundaries (pl_env pl) (pl_source pl) start (un_end u)) (\<lambda>word.
          Some
            (case word of
               Some True \<Rightarrow> take_hit pl (start, un_end u) st
             | Some False \<Rightarrow> back
             | None \<Rightarrow> st\<lparr>ss_completeness := InvalidQuery, ss_stop := True\<rparr>)))"

definition scan_unit :: "scan_plan \<Rightarrow> unit_byte \<Rightarrow> scan_state \<Rightarrow> scan_state option" where
  "scan_unit pl u st =
     (let asked = ss_seen st mod 4096 = 0;
          stopped = asked \<and> jb_cancelled (pl_job pl) (ss_polls st);
          st = (if asked then st\<lparr>ss_polls := ss_polls st + 1\<rparr> else st)
      in
      if stopped then Some (st\<lparr>ss_completeness := Cancelled, ss_stop := True\<rparr>)
      else
        let st =
          (if ss_mapping st = [] then st
           else st\<lparr>ss_mapping :=
             (ss_mapping st)[ss_seen st mod length (pl_pattern pl) := (un_start u, un_first u)]\<rparr>)
        in
        Option.bind (advance (pl_pattern pl) (pl_prefix pl) (un_byte u) (ss_matched st)) (\<lambda>m.
          let st = st\<lparr>ss_seen := ss_seen st + 1, ss_matched := m\<rparr> in
          if m = length (pl_pattern pl) then full_match pl u st else Some st))"

partial_function (option) scan_chunk :: "scan_plan \<Rightarrow> mapped \<Rightarrow> scan_state \<Rightarrow> scan_state option" where
  "scan_chunk pl mp st =
     Option.bind (mapped_next (pl_env pl) mp) (\<lambda>item.
       case item of
         None \<Rightarrow> Some st
       | Some (u, mp) \<Rightarrow>
           Option.bind (scan_unit pl u st) (\<lambda>st.
             if ss_stop st then Some st else scan_chunk pl mp st))"

fun scan_chunks :: "scan_plan \<Rightarrow> bool \<Rightarrow> byte list list \<Rightarrow> nat \<Rightarrow> scan_state \<Rightarrow> scan_state option" where
  "scan_chunks pl folded [] offset st = Some st"
| "scan_chunks pl folded (t # ts) offset st =
     Option.bind (scan_chunk pl (mapped_new t offset folded) st) (\<lambda>st.
       if ss_stop st then Some st else scan_chunks pl folded ts (offset + length t) st)"

text \<open>The bytes that are looked for, \<open>None\<close> when the query is invalid.\<close>

fun fold_pattern :: "search_env \<Rightarrow> byte list list \<Rightarrow> byte list \<Rightarrow> byte list option" where
  "fold_pattern env [] acc = Some acc"
| "fold_pattern env (c # cs) acc =
     (let t = fold_char env c in
      if length acc + length t > MAX_PATTERN_BYTES then None else fold_pattern env cs (acc @ t))"

definition search_pattern :: "search_env \<Rightarrow> search_query \<Rightarrow> byte list option" where
  "search_pattern env q =
     (if q_pattern q = [] \<or> length (q_pattern q) > MAX_PATTERN_BYTES then None
      else
        Option.bind (if q_mode q = Extended then decode (q_pattern q) else Some (q_pattern q)) (\<lambda>t.
          if q_case q = Folded then fold_pattern env (utf8_chars t) [] else Some t))"

definition no_results :: "snapshot \<Rightarrow> search_job \<Rightarrow> search_completeness \<Rightarrow> search_results" where
  "no_results s job c =
     \<lparr>sr_job = jb_id job, sr_source = s, sr_matches = [], sr_completeness = c, sr_captures = None,
      sr_names = [], sr_total_count = 0, sr_count_complete = False\<rparr>"

definition finish_scan :: "scan_plan \<Rightarrow> scan_state \<Rightarrow> scan_outcome" where
  "finish_scan pl st =
     (let cancelled = jb_cancelled (pl_job pl) (ss_polls st) \<or> jb_cancelled (pl_job pl) (ss_polls st + 1);
          st = (if ss_emitted st < length (ss_matches st) then emit st else st);
          c = (if cancelled then Cancelled else ss_completeness st)
      in
      ((no_results (pl_source pl) (pl_job pl) c)
         \<lparr>sr_matches := ss_matches st, sr_total_count := ss_total st,
          sr_count_complete := (c = Complete \<or> pl_beyond pl \<and> c = ResultLimit)\<rparr>,
       ss_batches st))"

definition scan_start :: "bool \<Rightarrow> byte list \<Rightarrow> scan_state" where
  "scan_start folded p =
     \<lparr>ss_matched = 0, ss_seen = 0,
      ss_mapping = (if folded then replicate (length p) (0, False) else []), ss_matches = [],
      ss_emitted = 0, ss_batches = [], ss_total = 0, ss_completeness = Complete, ss_stop = False,
      ss_polls = 1\<rparr>"

definition query_range :: "snapshot \<Rightarrow> search_query \<Rightarrow> range" where
  "query_range s q = (case q_selection q of Some r \<Rightarrow> r | None \<Rightarrow> (0, snapshot_len s))"

definition scan_pattern ::
  "search_env \<Rightarrow> snapshot \<Rightarrow> search_query \<Rightarrow> search_job \<Rightarrow> byte list \<Rightarrow> chunk_stack \<Rightarrow> scan_outcome option"
where
  "scan_pattern env s q job p stack =
     Option.bind (prefix_table p) (\<lambda>f.
       let pl = \<lparr>pl_env = env, pl_source = s, pl_job = job, pl_pattern = p, pl_prefix = f,
         pl_capacity = min (q_results_ram_bytes q) MAX_RESULT_BYTES div se_match_size env,
         pl_whole_word = q_whole_word q, pl_beyond = q_count_beyond_limit q\<rparr>
       in
       case chunks_all stack of
         Inl _ \<Rightarrow> None
       | Inr ts \<Rightarrow>
           map_option (finish_scan pl)
             (scan_chunks pl (q_case q = Folded) ts (fst (query_range s q))
               (scan_start (q_case q = Folded) p)))"

definition scan :: "search_env \<Rightarrow> snapshot \<Rightarrow> search_query \<Rightarrow> search_job \<Rightarrow> scan_outcome option" where
  "scan env s q job =
     (if jb_cancelled job 0 then Some (no_results s job Cancelled, [])
      else if \<not> sn_complete s then Some (no_results s job Unsupported, [])
      else if q_mode q = Regex then se_regex env s q job
      else
        case search_pattern env q of
          None \<Rightarrow> Some (no_results s job InvalidQuery, [])
        | Some p \<Rightarrow>
            case snapshot_chunks s (fst (query_range s q)) (snd (query_range s q)) of
              Inl Panicked \<Rightarrow> None
            | Inl _ \<Rightarrow> Some (no_results s job InvalidQuery, [])
            | Inr stack \<Rightarrow> scan_pattern env s q job p stack)"

section \<open>Moving between matches\<close>

definition is_current :: "search_results \<Rightarrow> snapshot \<Rightarrow> bool" where
  "is_current r s \<longleftrightarrow> same_document (sr_source r) s \<and> sn_revision (sr_source r) = sn_revision s"

definition next_match :: "search_results \<Rightarrow> nat \<Rightarrow> bool \<Rightarrow> bool \<Rightarrow> range option" where
  "next_match r offset backwards wrap =
     (let ms = sr_matches r;
          index = partition_point (\<lambda>m. fst m < offset) ms
      in
      if backwards then
        if 0 < index then Some (ms ! (index - 1))
        else if wrap \<and> ms \<noteq> [] then Some (last ms) else None
      else
        if index < length ms then Some (ms ! index)
        else if wrap \<and> ms \<noteq> [] then Some (hd ms) else None)"

end
