(* ===== verification/Kmp.thy ===== *)
theory Kmp
  imports Search "HOL-Library.Sublist"
begin

text \<open>
  The automaton of the literal scan: \<open>advance\<close> keeps the longest prefix of the pattern that the bytes
  seen so far end with, and the table it falls back on holds the same for the pattern itself.
\<close>

section \<open>Longest prefixes\<close>

text \<open>Among the prefixes of at most \<open>n\<close> bytes, that of \<open>m\<close> bytes is the longest that \<open>ws\<close> ends with.\<close>

definition longest_end :: "byte list \<Rightarrow> nat \<Rightarrow> byte list \<Rightarrow> nat \<Rightarrow> bool" where
  "longest_end p n ws m \<longleftrightarrow>
     m \<le> n \<and> suffix (take m p) ws \<and> (\<forall>k. m < k \<longrightarrow> k \<le> n \<longrightarrow> \<not> suffix (take k p) ws)"

lemma suffix_take_snoc:
  "k < length p \<Longrightarrow> suffix (take (Suc k) p) (ws @ [b]) \<longleftrightarrow> suffix (take k p) ws \<and> p ! k = b"
  unfolding take_Suc_conv_app_nth snoc_suffix_snoc by blast

lemma suffix_within:
  assumes "suffix (take m p) ws" "k \<le> m" "m \<le> length p"
  shows "suffix (take k p) ws \<longleftrightarrow> suffix (take k p) (take m p)"
proof
  assume "suffix (take k p) ws"
  then show "suffix (take k p) (take m p)"
    by (rule suffix_length_suffix [OF _ assms(1)]) (use assms in simp)
next
  assume "suffix (take k p) (take m p)"
  then show "suffix (take k p) ws"
    by (rule suffix_order.trans [OF _ assms(1)])
qed

text \<open>Entry \<open>j\<close> of the table is about the first \<open>j + 1\<close> bytes of the pattern, without the whole.\<close>

definition table_upto :: "byte list \<Rightarrow> nat list \<Rightarrow> nat \<Rightarrow> bool" where
  "table_upto p f n \<longleftrightarrow> length f = length p \<and>
     (\<forall>j<n. longest_end p j (tl (take (Suc j) p)) (f ! j))"

lemma suffix_tl_take:
  assumes "k < m" "m \<le> length p"
  shows "suffix (take k p) (tl (take m p)) \<longleftrightarrow> suffix (take k p) (take m p)"
proof
  assume "suffix (take k p) (take m p)"
  then show "suffix (take k p) (tl (take m p))"
    by (rule suffix_length_suffix [OF _ suffix_tl]) (use assms in simp)
next
  assume "suffix (take k p) (tl (take m p))"
  then show "suffix (take k p) (take m p)"
    by (rule suffix_order.trans [OF _ suffix_tl])
qed

lemma fall_back_longest:
  assumes "table_upto p f m" "m < length p" "suffix (take m p) ws"
    "\<forall>k. m < k \<longrightarrow> k < length p \<longrightarrow> suffix (take k p) ws \<longrightarrow> p ! k \<noteq> b"
  shows "\<exists>n. fall_back p f b m = Some n \<and> n \<le> m \<and> suffix (take n p) ws \<and> (n = 0 \<or> p ! n = b) \<and>
    (\<forall>k. n < k \<longrightarrow> k < length p \<longrightarrow> suffix (take k p) ws \<longrightarrow> p ! k \<noteq> b)"
  using assms
proof (induction m rule: less_induct)
  case (less m)
  show ?case
  proof (cases "m = 0 \<or> b = p ! m")
    case True
    with less.prems show ?thesis
      by (intro exI [of _ m]) (subst fall_back.simps, auto)
  next
    case False
    define n where "n = f ! (m - 1)"
    have table: "longest_end p (m - 1) (tl (take m p)) n" "length f = length p"
      using less.prems(1) False by (auto simp: table_upto_def n_def dest!: spec [of _ "m - 1"])
    then have n: "n < m" "suffix (take n p) (take m p)"
      using False less.prems(2) suffix_tl_take [of n m p] by (auto simp: longest_end_def)
    have between: "\<not> suffix (take k p) ws" if "n < k" "k < m" for k
    proof -
      have "\<not> suffix (take k p) (take m p)"
        using table(1) that less.prems(2) suffix_tl_take [of k m p] by (auto simp: longest_end_def)
      then show ?thesis
        using suffix_within [OF less.prems(3), of k] that less.prems(2) by simp
    qed
    have "\<exists>n'. fall_back p f b n = Some n' \<and> n' \<le> n \<and> suffix (take n' p) ws \<and> (n' = 0 \<or> p ! n' = b) \<and>
      (\<forall>k. n' < k \<longrightarrow> k < length p \<longrightarrow> suffix (take k p) ws \<longrightarrow> p ! k \<noteq> b)"
    proof (rule less.IH [OF n(1)])
      show "table_upto p f n"
        using less.prems(1) n(1) by (auto simp: table_upto_def)
      show "suffix (take n p) ws"
        using suffix_within [OF less.prems(3), of n] n less.prems(2) by simp
      show "\<forall>k. n < k \<longrightarrow> k < length p \<longrightarrow> suffix (take k p) ws \<longrightarrow> p ! k \<noteq> b"
      proof (intro allI impI)
        fix k
        assume k: "n < k" "k < length p" "suffix (take k p) ws"
        then consider "k = m" | "m < k"
          using between by (metis nat_neq_iff)
        then show "p ! k \<noteq> b"
          using False k less.prems(4) by cases auto
      qed
    qed (use n less.prems(2) in simp)
    moreover have "fall_back p f b m = fall_back p f b n"
      using False less.prems(2) table(2) by (subst fall_back.simps) (auto simp: n_def)
    ultimately show ?thesis
      using n(1) by auto
  qed
qed

text \<open>One byte: the longest end of at most one byte more.\<close>

lemma advance_longest:
  assumes "table_upto p f m" "longest_end p n ws m" "n < length p" "Suc n = length p \<or> length ws \<le> n"
  shows "\<exists>m'. advance p f b m = Some m' \<and> longest_end p (Suc n) (ws @ [b]) m'"
proof -
  have beyond: "\<not> suffix (take k p) ws" if "n < k" "k < length p" for k
    using that assms(4) by (auto dest: suffix_length_le)
  have "\<forall>k. m < k \<longrightarrow> k < length p \<longrightarrow> suffix (take k p) ws \<longrightarrow> p ! k \<noteq> b"
    using assms(2) beyond by (metis longest_end_def not_le)
  then obtain j where j: "fall_back p f b m = Some j" "j \<le> m" "suffix (take j p) ws" "j = 0 \<or> p ! j = b"
    "\<forall>k. j < k \<longrightarrow> k < length p \<longrightarrow> suffix (take k p) ws \<longrightarrow> p ! k \<noteq> b"
    using fall_back_longest [OF assms(1), of ws b] assms(2,3) by (auto simp: longest_end_def)
  have le: "j \<le> n" "j < length p"
    using j(2) assms(2,3) by (auto simp: longest_end_def)
  define m' where "m' = (if b = p ! j then j + 1 else j)"
  have run: "advance p f b m = Some m'"
    using j(1) le by (simp add: advance_def m'_def)
  have "suffix (take m' p) (ws @ [b])"
    using j(3,4) suffix_take_snoc [OF le(2), of ws b] by (auto simp: m'_def simp del: suffix_snoc)
  moreover have "\<not> suffix (take k p) (ws @ [b])" if "m' < k" "k \<le> Suc n" for k
  proof -
    define i where "i = k - 1"
    then have i: "k = Suc i" "i < length p"
      using that assms(3) by auto
    have "j < i \<or> i = j \<and> b \<noteq> p ! j"
      using that i by (auto simp: m'_def split: if_splits)
    with j(5) i show ?thesis
      using suffix_take_snoc [OF i(2), of ws b] by (auto simp del: suffix_snoc)
  qed
  ultimately show ?thesis
    using run le by (auto simp: longest_end_def m'_def)
qed

section \<open>The table\<close>

lemma prefix_loop_table:
  assumes "0 < i" "i \<le> length p" "table_upto p f i" "longest_end p (i - 1) (tl (take i p)) m"
  shows "\<exists>g. prefix_loop p [i..<length p] m f = Some g \<and> table_upto p g (length p)"
  using assms
proof (induction "length p - i" arbitrary: i m f)
  case 0
  then show ?case
    by simp
next
  case (Suc d)
  then have i: "i < length p"
    by simp
  have m: "m \<le> i - 1"
    using Suc.prems(4) by (simp add: longest_end_def)
  have "table_upto p f m"
    using Suc.prems(1,3) m by (auto simp: table_upto_def)
  then have "\<exists>m'. advance p f (p ! i) m = Some m' \<and> longest_end p (Suc (i - 1)) (tl (take i p) @ [p ! i]) m'"
    using i Suc.prems(1) by (intro advance_longest [OF _ Suc.prems(4)]) auto
  then obtain m' where
    m': "advance p f (p ! i) m = Some m'" "longest_end p i (tl (take i p) @ [p ! i]) m'"
    using Suc.prems(1) by auto
  have next_tl: "tl (take i p) @ [p ! i] = tl (take (Suc i) p)"
    using i Suc.prems(1) by (cases i; cases p) (auto simp: take_Suc_conv_app_nth)
  have "table_upto p (f[i := m']) (Suc i)"
    using Suc.prems(3) m'(2) i by (auto simp: table_upto_def next_tl less_Suc_eq)
  with Suc.hyps(1) [of "Suc i" "f[i := m']" m'] Suc.hyps(2) i m' show ?case
    by (simp add: upt_conv_Cons next_tl)
qed

lemma prefix_table_ok:
  assumes "p \<noteq> []"
  shows "\<exists>f. prefix_table p = Some f \<and> table_upto p f (length p)"
proof -
  have "longest_end p 0 (tl (take (Suc 0) p)) 0"
    by (simp add: longest_end_def)
  then show ?thesis
    using prefix_loop_table [of 1 p "replicate (length p) 0" 0] assms
    by (simp add: prefix_table_def table_upto_def Suc_le_eq)
qed

text \<open>The step of the scan, whose longest end has fewer bytes than the pattern.\<close>

lemma scan_advance:
  assumes "table_upto p f (length p)" "p \<noteq> []" "longest_end p (length p - 1) ws m"
  obtains m' where "advance p f b m = Some m'" "longest_end p (length p) (ws @ [b]) m'"
    "m' < length p \<Longrightarrow> longest_end p (length p - 1) (ws @ [b]) m'"
    "m' = length p \<Longrightarrow> longest_end p (length p - 1) (ws @ [b]) (f ! (m' - 1))"
proof -
  have "table_upto p f m"
    using assms by (auto simp: table_upto_def longest_end_def)
  then obtain m' where m': "advance p f b m = Some m'" "longest_end p (length p) (ws @ [b]) m'"
    using advance_longest [OF _ assms(3), of f b] assms(2) by (metis Suc_pred' diff_less length_greater_0_conv less_one)
  have "longest_end p (length p - 1) (ws @ [b]) (f ! (m' - 1))" if "m' = length p"
  proof -
    have full: "suffix p (ws @ [b])"
      using m'(2) that by (simp add: longest_end_def)
    have "longest_end p (length p - 1) (tl p) (f ! (m' - 1))"
      using assms(1,2) that by (auto simp: table_upto_def dest!: spec [of _ "length p - 1"])
    moreover have "suffix (take k p) (ws @ [b]) \<longleftrightarrow> suffix (take k p) (tl p)" if "k \<le> length p - 1" for k
      using suffix_within [of "length p" p "ws @ [b]" k] suffix_tl_take [of k "length p" p] full that assms(2)
      by (cases p) auto
    ultimately show ?thesis
      by (auto simp: longest_end_def)
  qed
  with m' that show thesis
    by (auto simp: longest_end_def)
qed

end
