(* ===== verification/Search_Units.thy ===== *)
theory Search_Units
  imports Kmp Document_Properties
begin

text \<open>
  The bytes a scan compares, as one list over the whole range: what the iterator yields chunk by chunk,
  and the characters and matches that the list stands for.
\<close>

section \<open>The units of a text\<close>

text \<open>What the generated tables promise: a folded character is some well-formed text of at most 12 bytes.\<close>

definition fold_ok :: "search_env \<Rightarrow> bool" where
  "fold_ok env \<longleftrightarrow>
     (\<forall>c t. se_fold env c = Some t \<longrightarrow> t \<noteq> [] \<and> length t \<le> 12 \<and> valid_utf8 t)"

definition plain_units :: "nat \<Rightarrow> byte list \<Rightarrow> unit_byte list" where
  "plain_units base t =
     map (\<lambda>i. \<lparr>un_byte = t ! i, un_start = base + i, un_end = base + i + 1, un_first = True, un_last = True\<rparr>)
       [0..<length t]"

definition char_units :: "search_env \<Rightarrow> nat \<Rightarrow> byte list \<Rightarrow> unit_byte list" where
  "char_units env base c =
     map (\<lambda>i. \<lparr>un_byte = fold_char env c ! i, un_start = base, un_end = base + length c, un_first = (i = 0),
         un_last = (i + 1 = length (fold_char env c))\<rparr>)
       [0..<length (fold_char env c)]"

fun folded_units :: "search_env \<Rightarrow> nat \<Rightarrow> byte list list \<Rightarrow> unit_byte list" where
  "folded_units env base [] = []"
| "folded_units env base (c # cs) = char_units env base c @ folded_units env (base + length c) cs"

definition units :: "search_env \<Rightarrow> bool \<Rightarrow> nat \<Rightarrow> byte list \<Rightarrow> unit_byte list" where
  "units env folded base t = (if folded then folded_units env base (utf8_chars t) else plain_units base t)"

lemma units_Nil [simp]: "units env folded base [] = []"
  by (simp add: units_def plain_units_def)

lemma folded_units_append:
  "folded_units env base (cs @ ds) = folded_units env base cs @ folded_units env (base + length (concat cs)) ds"
  by (induction cs arbitrary: base) (simp_all add: add.assoc)

lemma plain_units_append: "plain_units base (s @ t) = plain_units base s @ plain_units (base + length s) t"
proof -
  have "[0..<length (s @ t)] = [0..<length s] @ map (\<lambda>i. i + length s) [0..<length t]"
    using upt_add_eq_append [of 0 "length s" "length t"]
    by (simp add: map_add_upt add.commute [of "length t"])
  then show ?thesis
    unfolding plain_units_def by (simp add: nth_append o_def add.commute add.left_commute)
qed

lemma units_append:
  "valid_utf8 s \<Longrightarrow> valid_utf8 t \<Longrightarrow>
   units env folded base (s @ t) = units env folded base s @ units env folded (base + length s) t"
  by (simp add: units_def plain_units_append utf8_chars_append folded_units_append)

section \<open>The iterator\<close>

lemma fold_char_ok:
  "fold_ok env \<Longrightarrow> utf8_scalar c \<Longrightarrow> fold_char env c \<noteq> [] \<and> length (fold_char env c) \<le> 12"
  by (auto simp: fold_char_def fold_ok_def utf8_scalar_def utf8_width_def split: list.splits option.splits if_splits)

definition mapped_ok :: "mapped \<Rightarrow> bool" where
  "mapped_ok mp \<longleftrightarrow>
     valid_utf8 (mp_text mp) \<and> char_boundary (mp_text mp) (mp_cursor mp) \<and> length (mp_buffer mp) = 12 \<and>
     mp_position mp \<le> mp_used mp \<and> mp_used mp \<le> 12"

text \<open>What it is still to yield: the rest of the mapped character, and the characters after it.\<close>

definition remaining :: "search_env \<Rightarrow> mapped \<Rightarrow> unit_byte list" where
  "remaining env mp =
     (if mp_folded mp then
        map (\<lambda>i. \<lparr>un_byte = mp_buffer mp ! i, un_start = mp_start mp, un_end = mp_base mp + mp_cursor mp,
            un_first = (i = 0), un_last = (i + 1 = mp_used mp)\<rparr>) [mp_position mp..<mp_used mp] @
        folded_units env (mp_base mp + mp_cursor mp) (utf8_chars (drop (mp_cursor mp) (mp_text mp)))
      else plain_units (mp_base mp + mp_cursor mp) (drop (mp_cursor mp) (mp_text mp)))"

lemma remaining_new: "remaining env (mapped_new t base folded) = units env folded base t"
  by (simp add: remaining_def mapped_new_def units_def)

definition iterates :: "search_env \<Rightarrow> mapped \<Rightarrow> bool" where
  "iterates env mp \<longleftrightarrow> mp_folded mp \<longrightarrow> mapped_ok mp"

lemma mapped_fill_ok:
  assumes "fold_ok env" "mapped_ok mp" "mp_folded mp"
  shows "case mapped_fill env mp of
      None \<Rightarrow> False
    | Some None \<Rightarrow> remaining env mp = []
    | Some (Some mp') \<Rightarrow> mapped_ok mp' \<and> mp_folded mp' \<and> mp_position mp' < mp_used mp' \<and>
        remaining env mp' = remaining env mp"
proof (cases "mp_position mp = mp_used mp")
  case False
  with assms show ?thesis
    by (simp add: mapped_fill_def mapped_ok_def)
next
  case True
  let ?rest = "drop (mp_cursor mp) (mp_text mp)"
  have valid: "valid_utf8 ?rest"
    using assms(2) valid_utf8_cut by (simp add: mapped_ok_def)
  show ?thesis
  proof (cases "?rest = []")
    case True
    with \<open>mp_position mp = mp_used mp\<close> assms show ?thesis
      by (simp add: mapped_fill_def mapped_ok_def remaining_def)
  next
    case False
    obtain w where w: "0 < w" "w \<le> length ?rest" "utf8_scalar (take w ?rest)" "valid_utf8 (drop w ?rest)"
      "utf8_chars ?rest = take w ?rest # utf8_chars (drop w ?rest)"
      using utf8_chars_step [OF valid False] by metis
    let ?c = "take w ?rest"
    note fold = fold_char_ok [OF assms(1) w(3)]
    have len: "length ?c = w"
      using w(2) by simp
    have "char_boundary (mp_text mp) (mp_cursor mp + w)"
    proof -
      have "mp_text mp = take (mp_cursor mp + w) (mp_text mp) @ drop w ?rest"
        by (simp add: add.commute)
      moreover have "length (take (mp_cursor mp + w) (mp_text mp)) = mp_cursor mp + w"
        using w(1,2) by simp
      ultimately show ?thesis
        using char_boundary_append_left [OF w(4), of "mp_cursor mp + w" "take (mp_cursor mp + w) (mp_text mp)"]
        by (metis char_boundary_ends(2) order_refl)
    qed
    with True fold w(5) len assms show ?thesis
      unfolding mapped_fill_def mapped_ok_def remaining_def
      by (simp add: char_units_def Let_def nth_append add.assoc drop_drop [symmetric] del: drop_drop take_drop)
         (simp add: drop_drop add.commute)
  qed
qed

lemma mapped_next_ok:
  assumes "fold_ok env" "iterates env mp"
  shows "case mapped_next env mp of
      None \<Rightarrow> False
    | Some None \<Rightarrow> remaining env mp = []
    | Some (Some (u, mp')) \<Rightarrow> remaining env mp = u # remaining env mp' \<and> iterates env mp'"
proof (cases "mp_folded mp")
  case False
  show ?thesis
  proof (cases "mp_cursor mp < length (mp_text mp)")
    case True
    let ?rest = "drop (mp_cursor mp) (mp_text mp)"
    have "?rest = [mp_text mp ! mp_cursor mp] @ drop (Suc (mp_cursor mp)) (mp_text mp)"
      using True by (simp add: Cons_nth_drop_Suc)
    then have "plain_units (mp_base mp + mp_cursor mp) ?rest =
        plain_units (mp_base mp + mp_cursor mp) [mp_text mp ! mp_cursor mp] @
        plain_units (mp_base mp + mp_cursor mp + 1) (drop (Suc (mp_cursor mp)) (mp_text mp))"
      by (metis plain_units_append length_Cons list.size(3) One_nat_def)
    with False True show ?thesis
      by (simp add: mapped_next_def remaining_def iterates_def plain_units_def Let_def)
  qed (use False in \<open>simp add: mapped_next_def remaining_def plain_units_def\<close>)
next
  case True
  then have ok: "mapped_ok mp"
    using assms(2) by (simp add: iterates_def)
  note fill = mapped_fill_ok [OF assms(1) ok True]
  show ?thesis
  proof (cases "mapped_fill env mp")
    case None
    with fill show ?thesis
      by simp
  next
    case (Some r)
    show ?thesis
    proof (cases r)
      case None
      with Some fill True show ?thesis
        by (simp add: mapped_next_def)
    next
      case (Some mp')
      with \<open>mapped_fill env mp = Some r\<close> fill have mp': "mapped_ok mp'" "mp_folded mp'"
        "mp_position mp' < mp_used mp'" "remaining env mp = remaining env mp'"
        by simp_all
      then have "mp_position mp' < length (mp_buffer mp')"
        by (simp add: mapped_ok_def)
      moreover have "iterates env (mp'\<lparr>mp_position := mp_position mp' + 1\<rparr>)"
        using mp'(1,3) by (simp add: iterates_def mapped_ok_def)
      moreover have "[mp_position mp'..<mp_used mp'] = mp_position mp' # [mp_position mp' + 1..<mp_used mp']"
        using mp'(3) by (simp add: upt_conv_Cons)
      ultimately show ?thesis
        using \<open>mapped_fill env mp = Some r\<close> Some True mp' by (simp add: mapped_next_def remaining_def)
    qed
  qed
qed

section \<open>The scan over a list of units\<close>

fun scan_units :: "scan_plan \<Rightarrow> unit_byte list \<Rightarrow> scan_state \<Rightarrow> scan_state option" where
  "scan_units pl [] st = Some st"
| "scan_units pl (u # us) st =
     Option.bind (scan_unit pl u st) (\<lambda>st. if ss_stop st then Some st else scan_units pl us st)"

lemma scan_chunk_units:
  assumes "fold_ok (pl_env pl)" "iterates (pl_env pl) mp"
  shows "scan_chunk pl mp st = scan_units pl (remaining (pl_env pl) mp) st"
  using assms(2)
proof (induction "remaining (pl_env pl) mp" arbitrary: mp st)
  case Nil
  with mapped_next_ok [OF assms(1) Nil(2)] show ?case
    by (subst scan_chunk.simps) (auto split: option.splits)
next
  case (Cons u us)
  then obtain mp' where next_unit: "mapped_next (pl_env pl) mp = Some (Some (u, mp'))"
    "us = remaining (pl_env pl) mp'" "iterates (pl_env pl) mp'"
    using mapped_next_ok [OF assms(1) Cons(3)] by (auto split: option.splits prod.splits)
  then have "scan_chunk pl mp' st' = scan_units pl us st'" for st'
    using Cons(1) by simp
  with next_unit(1) Cons(2) [symmetric] show ?case
    by (subst scan_chunk.simps) (simp cong: if_cong)
qed

lemma scan_units_append:
  "scan_units pl (us @ vs) st =
     Option.bind (scan_units pl us st) (\<lambda>st'. if us \<noteq> [] \<and> ss_stop st' then Some st' else scan_units pl vs st')"
  by (induction us arbitrary: st) (auto split: bind_split)

text \<open>The chunks of a range are scanned as one list, wherever they end.\<close>

lemma scan_chunks_units:
  assumes "fold_ok (pl_env pl)" "list_all valid_utf8 ts" "\<not> ss_stop st"
  shows "scan_chunks pl folded ts base st = scan_units pl (units (pl_env pl) folded base (concat ts)) st"
  using assms(2,3)
proof (induction ts arbitrary: base st)
  case (Cons t ts)
  have "iterates (pl_env pl) (mapped_new t base folded)"
    using Cons.prems by (simp add: iterates_def mapped_ok_def mapped_new_def)
  from scan_chunk_units [OF assms(1) this]
  have first: "scan_chunk pl (mapped_new t base folded) st = scan_units pl (units (pl_env pl) folded base t) st"
    by (simp add: remaining_new)
  have "valid_utf8 (concat ts)"
    using Cons.prems by (intro valid_utf8_concat) (simp add: list_all_iff)
  then have "units (pl_env pl) folded base (concat (t # ts)) =
      units (pl_env pl) folded base t @ units (pl_env pl) folded (base + length t) (concat ts)"
    using Cons.prems by (simp add: units_append)
  moreover have "Option.bind (scan_units pl us st) (\<lambda>st'. if ss_stop st' then Some st' else f st') =
      Option.bind (scan_units pl us st) (\<lambda>st'. if us \<noteq> [] \<and> ss_stop st' then Some st' else f st')" for us f
    using Cons.prems(2) by (cases us) auto
  ultimately show ?case
    using Cons by (simp add: first scan_units_append bind_eq_Some_conv cong: bind_option_cong if_cong)
qed simp

end
