(* ===== verification/Search_Find.thy ===== *)
theory Search_Find
  imports Search_Units
begin

text \<open>
  The matches of a scan against their reference: from the left, every occurrence of the pattern that
  starts and ends with whole characters and passes the test for words, none overlapping the one before.
\<close>

section \<open>The reference\<close>

definition hit :: "byte list \<Rightarrow> (nat \<Rightarrow> nat \<Rightarrow> bool) \<Rightarrow> unit_byte list \<Rightarrow> bool" where
  "hit p word us \<longleftrightarrow>
     map un_byte (take (length p) us) = p \<and> un_first (hd us) \<and> un_last (us ! (length p - 1)) \<and>
     word (un_start (hd us)) (un_end (us ! (length p - 1)))"

definition hit_range :: "byte list \<Rightarrow> unit_byte list \<Rightarrow> range" where
  "hit_range p us = (un_start (hd us), un_end (us ! (length p - 1)))"

function occurrences :: "byte list \<Rightarrow> (nat \<Rightarrow> nat \<Rightarrow> bool) \<Rightarrow> unit_byte list \<Rightarrow> range list" where
  "occurrences p word us =
     (if p = [] \<or> us = [] then []
      else if hit p word us then hit_range p us # occurrences p word (drop (length p) us)
      else occurrences p word (tl us))"
  by auto
termination
  by (relation "measure (\<lambda>(p, word, us). length us)") auto

declare occurrences.simps [simp del]

lemma hit_length: "hit p word us \<Longrightarrow> length p \<le> length us"
  by (metis hit_def length_map length_take min.absorb_iff2 min.commute)

lemma hit_append:
  assumes "length p \<le> length us" "p \<noteq> []"
  shows "hit p word (us @ vs) \<longleftrightarrow> hit p word us" "hit_range p (us @ vs) = hit_range p us"
proof -
  have "us \<noteq> []" "length p - 1 < length us"
    using assms by (cases us; cases p; simp)+
  then show "hit p word (us @ vs) \<longleftrightarrow> hit p word us" "hit_range p (us @ vs) = hit_range p us"
    using assms(1) by (simp_all add: hit_def hit_range_def nth_append)
qed

lemma occurrences_Nil [simp]: "occurrences p word [] = []"
  by (simp add: occurrences.simps)

lemma occurrences_skip:
  "n \<le> length us \<Longrightarrow> \<forall>i<n. \<not> hit p word (drop i us) \<Longrightarrow> occurrences p word us = occurrences p word (drop n us)"
proof (induction n arbitrary: us)
  case (Suc n)
  then have "us \<noteq> []" "\<not> hit p word us"
    by auto
  then have "occurrences p word us = occurrences p word (tl us)"
    by (subst occurrences.simps) (simp add: occurrences.simps [of p word "tl us"])
  also have "\<dots> = occurrences p word (drop n (tl us))"
    using Suc.prems by (intro Suc.IH) (auto simp: drop_Suc [symmetric])
  finally show ?case
    by (simp add: drop_Suc)
qed simp

text \<open>The same by one unit at a time: the matches so far and the units since the last of them.\<close>

definition feed :: "byte list \<Rightarrow> (nat \<Rightarrow> nat \<Rightarrow> bool) \<Rightarrow> range list \<times> unit_byte list \<Rightarrow> unit_byte \<Rightarrow>
    range list \<times> unit_byte list" where
  "feed p word = (\<lambda>(found, cur) u.
     let tail = drop (length cur + 1 - length p) (cur @ [u]) in
     if length p \<le> length cur + 1 \<and> hit p word tail then (found @ [hit_range p tail], [])
     else (found, cur @ [u]))"

definition fresh :: "byte list \<Rightarrow> (nat \<Rightarrow> nat \<Rightarrow> bool) \<Rightarrow> unit_byte list \<Rightarrow> bool" where
  "fresh p word cur \<longleftrightarrow> (\<forall>i. \<not> hit p word (drop i cur))"

lemma fresh_Nil [simp]: "p \<noteq> [] \<Longrightarrow> fresh p word []"
  by (simp add: fresh_def hit_def)

lemma fresh_snoc:
  assumes "p \<noteq> []" "fresh p word cur"
    "length p \<le> length cur + 1 \<Longrightarrow> \<not> hit p word (drop (length cur + 1 - length p) (cur @ [u]))"
  shows "fresh p word (cur @ [u])"
  unfolding fresh_def
proof (intro allI notI)
  fix i
  assume h: "hit p word (drop i (cur @ [u]))"
  from hit_length [OF this] assms(1) have i: "i + length p \<le> length cur + 1"
    by (cases p) auto
  show False
  proof (cases "i + length p \<le> length cur")
    case True
    then have "hit p word (drop i cur)"
      using h hit_append(1) [of p "drop i cur" word "[u]"] assms(1) by simp
    with assms(2) show False
      by (simp add: fresh_def)
  next
    case False
    then have "i = length cur + 1 - length p"
      using i by simp
    with h i assms(3) show False
      by simp
  qed
qed

lemma feed_occurrences:
  assumes "p \<noteq> []" "fresh p word cur"
  shows "fst (foldl (feed p word) (found, cur) us) = found @ occurrences p word (cur @ us)"
  using assms(2)
proof (induction us arbitrary: found cur)
  case Nil
  then have "\<forall>i<length cur. \<not> hit p word (drop i cur)"
    by (simp add: fresh_def)
  then show ?case
    using occurrences_skip [of "length cur" cur p word] by simp
next
  case (Cons u us)
  let ?n = "length cur + 1 - length p" and ?tail = "drop (length cur + 1 - length p) (cur @ [u])"
  show ?case
  proof (cases "length p \<le> length cur + 1 \<and> hit p word ?tail")
    case True
    have early: "\<not> hit p word (drop i (cur @ u # us))" if "i < ?n" for i
    proof -
      have "drop i (cur @ u # us) = drop i cur @ u # us"
        using that by simp
      then show ?thesis
        using that Cons.prems hit_append(1) [of p "drop i cur" word "u # us"] assms(1)
        by (auto simp: fresh_def)
    qed
    have tail: "drop ?n (cur @ u # us) = ?tail @ us" "length ?tail = length p"
      using True assms(1) by (auto simp: Suc_diff_le neq_Nil_conv)
    have "occurrences p word (cur @ u # us) = occurrences p word (?tail @ us)"
      using occurrences_skip [of ?n "cur @ u # us" p word] early tail(1) by simp
    also have "\<dots> = hit_range p (?tail @ us) # occurrences p word (drop (length p) (?tail @ us))"
    proof -
      have "hit p word (?tail @ us)"
        using True hit_append(1) [of p ?tail word us] tail(2) assms(1) by simp
      moreover have "?tail @ us \<noteq> []"
        using tail(2) assms(1) by auto
      ultimately show ?thesis
        using assms(1) by (subst occurrences.simps) simp
    qed
    also have "drop (length p) (?tail @ us) = us"
      using tail(2) by simp
    finally have "occurrences p word (cur @ u # us) = hit_range p ?tail # occurrences p word us"
      using hit_append(2) [of p ?tail us] tail(2) assms(1) by simp
    moreover have "feed p word (found, cur) u = (found @ [hit_range p ?tail], [])"
      using True by (simp add: feed_def Let_def)
    ultimately show ?thesis
      using Cons.IH [of "[]" "found @ [hit_range p ?tail]"] assms(1) by simp
  next
    case False
    then have "feed p word (found, cur) u = (found, cur @ [u])"
      by (simp add: feed_def Let_def)
    moreover have "fresh p word (cur @ [u])"
      using fresh_snoc [OF assms(1) Cons.prems, of u] False by blast
    ultimately show ?thesis
      using Cons.IH by simp
  qed
qed

section \<open>The scan keeps to the reference\<close>

definition plan_ok :: "scan_plan \<Rightarrow> bool" where
  "plan_ok pl \<longleftrightarrow> pl_pattern pl \<noteq> [] \<and> table_upto (pl_pattern pl) (pl_prefix pl) (length (pl_pattern pl))"

text \<open>Each unit of the unfolded text is a byte by itself.\<close>

definition single_units :: "nat \<Rightarrow> unit_byte list \<Rightarrow> bool" where
  "single_units base us \<longleftrightarrow>
     (\<forall>j<length us. un_start (us ! j) = base + j \<and> un_end (us ! j) = base + j + 1 \<and>
        un_first (us ! j) \<and> un_last (us ! j))"

text \<open>The ring of the folded scan holds the units one pattern length back.\<close>

definition ring_ok :: "nat \<Rightarrow> unit_byte list \<Rightarrow> (nat \<times> bool) list \<Rightarrow> bool" where
  "ring_ok n us ring \<longleftrightarrow> length ring = n \<and>
     (\<forall>j<length us. length us \<le> j + n \<longrightarrow> ring ! (j mod n) = (un_start (us ! j), un_first (us ! j)))"

lemma ring_ok_snoc:
  assumes "ring_ok n us ring" "0 < n"
  shows "ring_ok n (us @ [u]) (ring[length us mod n := (un_start u, un_first u)])"
proof -
  have differ: "j mod n \<noteq> length us mod n" if "j < length us" "length us < j + n" for j
  proof
    assume "j mod n = length us mod n"
    then have "n dvd length us - j"
      using that(1) by (metis mod_eq_dvd_iff_nat less_imp_le_nat)
    with that show False
      using nat_dvd_not_less [of "length us - j" n] by simp
  qed
  show ?thesis
    unfolding ring_ok_def
  proof (intro conjI allI impI)
    fix j
    assume j: "j < length (us @ [u])" "length (us @ [u]) \<le> j + n"
    show "ring[length us mod n := (un_start u, un_first u)] ! (j mod n) =
        (un_start ((us @ [u]) ! j), un_first ((us @ [u]) ! j))"
    proof (cases "j = length us")
      case False
      with j differ [of j] assms show ?thesis
        by (simp add: ring_ok_def nth_append)
    qed (use assms in \<open>simp add: ring_ok_def\<close>)
  qed (use assms in \<open>simp add: ring_ok_def\<close>)
qed

definition first_of :: "scan_plan \<Rightarrow> unit_byte list \<Rightarrow> (nat \<times> bool) list \<Rightarrow> bool" where
  "first_of pl us ring \<longleftrightarrow>
     (if ring = [] then \<exists>base. single_units base us else ring_ok (length (pl_pattern pl)) us ring)"

text \<open>The matches of which the scan knows, within its capacity, and what it has handed out of them.\<close>

definition reported :: "scan_plan \<Rightarrow> range list \<Rightarrow> scan_state \<Rightarrow> bool" where
  "reported pl found st \<longleftrightarrow>
     ss_matches st = take (pl_capacity pl) found \<and>
     ss_total st = length found \<and>
     ss_completeness st = (if length found \<le> pl_capacity pl then Complete else ResultLimit) \<and>
     (length found \<le> pl_capacity pl \<or> pl_beyond pl)"

definition batched :: "scan_state \<Rightarrow> bool" where
  "batched st \<longleftrightarrow>
     ss_emitted st \<le> length (ss_matches st) \<and> length (ss_matches st) < ss_emitted st + BATCH_SIZE \<and>
     concat (ss_batches st) = take (ss_emitted st) (ss_matches st) \<and>
     list_all (\<lambda>b. b \<noteq> [] \<and> length b \<le> BATCH_SIZE) (ss_batches st)"

definition following :: "scan_plan \<Rightarrow> unit_byte list \<Rightarrow> unit_byte list \<Rightarrow> range list \<Rightarrow> scan_state \<Rightarrow> bool" where
  "following pl us cur found st \<longleftrightarrow>
     ss_seen st = length us \<and> suffix cur us \<and> first_of pl us (ss_mapping st) \<and>
     longest_end (pl_pattern pl) (length (pl_pattern pl) - 1) (map un_byte cur) (ss_matched st) \<and>
     reported pl found st \<and> batched st \<and> \<not> ss_stop st"

text \<open>The end of a scan before the end of the text.\<close>

definition broken_off :: "scan_plan \<Rightarrow> range list \<Rightarrow> scan_state \<Rightarrow> bool" where
  "broken_off pl found st \<longleftrightarrow>
     ss_stop st \<and> batched st \<and>
     (ss_completeness st = Cancelled \<and> (\<exists>n. jb_cancelled (pl_job pl) n) \<and>
        ss_matches st = take (pl_capacity pl) found \<and> ss_total st = length found \<or>
      ss_completeness st = ResultLimit \<and> \<not> pl_beyond pl \<and> length found = pl_capacity pl + 1 \<and>
        ss_matches st = take (pl_capacity pl) found \<and> ss_total st = pl_capacity pl)"

lemma emit_batched:
  assumes "concat (ss_batches st) = take (ss_emitted st) (ss_matches st)"
    "list_all (\<lambda>b. b \<noteq> [] \<and> length b \<le> BATCH_SIZE) (ss_batches st)"
    "ss_emitted st < length (ss_matches st)" "length (ss_matches st) \<le> ss_emitted st + BATCH_SIZE"
  shows "batched (emit st)"
  using assms by (auto simp: emit_def batched_def BATCH_SIZE_def)

lemma take_hit_follows:
  assumes "reported pl found st" "batched st" "\<not> ss_stop st"
  shows "let st' = take_hit pl r st in
    if ss_stop st' then broken_off pl (found @ [r]) st'
    else reported pl (found @ [r]) st' \<and> batched st' \<and> ss_matched st' = 0 \<and> ss_seen st' = ss_seen st \<and>
      ss_mapping st' = ss_mapping st"
proof (cases "length (ss_matches st) = pl_capacity pl")
  case True
  then have "pl_capacity pl \<le> length found"
    using assms(1) by (auto simp: reported_def)
  with True assms show ?thesis
    by (auto simp: take_hit_def reported_def broken_off_def batched_def Let_def)
next
  case False
  then have found: "length found < pl_capacity pl"
    using assms(1) by (auto simp: reported_def)
  let ?st = "st\<lparr>ss_total := ss_total st + 1, ss_matches := ss_matches st @ [r], ss_matched := 0\<rparr>"
  have part: "concat (ss_batches ?st) = take (ss_emitted ?st) (ss_matches ?st)"
    using assms(2) by (simp add: batched_def)
  have "take_hit pl r st = (if length (ss_matches ?st) - ss_emitted ?st = BATCH_SIZE then emit ?st else ?st)"
    using False by (simp add: take_hit_def Let_def)
  moreover have "batched (if length (ss_matches ?st) - ss_emitted ?st = BATCH_SIZE then emit ?st else ?st)"
    using assms(2) part emit_batched [of ?st] by (auto simp: batched_def)
  ultimately show ?thesis
    using assms(1,3) found by (auto simp: reported_def emit_def Let_def)
qed

lemma first_of_snoc:
  assumes "first_of pl us ring" "pl_pattern pl \<noteq> []"
    "ring = [] \<Longrightarrow> \<exists>base. single_units base (us @ [u])"
  shows "first_of pl (us @ [u])
    (if ring = [] then ring else ring[length us mod length (pl_pattern pl) := (un_start u, un_first u)])"
  using assms ring_ok_snoc [of "length (pl_pattern pl)" us ring u] by (simp add: first_of_def)

text \<open>Where a full match began, from the ring or by counting back.\<close>

lemma first_of_match:
  assumes "first_of pl us ring" "n = length (pl_pattern pl)" "0 < n" "n \<le> length us"
  shows "(if ring = [] then (un_end (last us) - n, True) else ring ! ((length us - n) mod n)) =
    (un_start (us ! (length us - n)), un_first (us ! (length us - n)))"
proof (cases "ring = []")
  case True
  then obtain base where "single_units base us"
    using assms(1) by (auto simp: first_of_def)
  moreover have "last us = us ! (length us - 1)"
    using assms(3,4) by (intro last_conv_nth) auto
  ultimately show ?thesis
    using True assms(3,4) by (auto simp: single_units_def dest: spec [of _ "length us - 1"] spec [of _ "length us - n"])
next
  case False
  moreover have "length us - n < length us"
    using assms(3,4) by simp
  ultimately show ?thesis
    using assms by (auto simp: first_of_def ring_ok_def)
qed

lemma tail_suffix:
  assumes "hit p word (drop n cur)" "length cur - n = length p"
  shows "suffix p (map un_byte cur)"
proof -
  have "map un_byte (drop n cur) = p"
    using assms by (simp add: hit_def)
  then show ?thesis
    by (metis drop_map suffix_drop)
qed

lemma suffix_drop_eq:
  assumes "suffix p (map f cur)"
  shows "map f (drop (length cur - length p) cur) = p"
proof -
  obtain zs where zs: "map f cur = zs @ p"
    using assms by (auto simp: suffix_def)
  then have "length cur = length zs + length p"
    by (metis length_append length_map)
  with zs show ?thesis
    by (simp add: drop_map [symmetric])
qed

lemma suffix_drop_hd:
  assumes "suffix cur us" "n \<le> length cur" "0 < n"
  shows "hd (drop (length cur - n) cur) = us ! (length us - n)"
  using assms by (auto simp: suffix_def nth_append hd_drop_conv_nth)

text \<open>What the test for whole words says where the pattern stands.\<close>

definition word_test :: "scan_plan \<Rightarrow> (nat \<Rightarrow> nat \<Rightarrow> bool) \<Rightarrow> unit_byte list \<Rightarrow> bool" where
  "word_test pl word us \<longleftrightarrow>
     (\<forall>a b. if pl_whole_word pl then
        (\<forall>vs. suffix vs us \<longrightarrow> hit (pl_pattern pl) (\<lambda>c d. c = a \<and> d = b) vs \<longrightarrow> length vs = length (pl_pattern pl) \<longrightarrow>
           word_boundaries (pl_env pl) (pl_source pl) a b = Some (Some (word a b)))
      else word a b)"

lemma scan_unit_follows:
  assumes "plan_ok pl" "following pl us cur found st"
    "ss_mapping st = [] \<Longrightarrow> \<exists>base. single_units base (us @ [u])" "word_test pl word (us @ [u])"
  shows "\<exists>st'. scan_unit pl u st = Some st' \<and>
    (case feed (pl_pattern pl) word (found, cur) u of (found', cur') \<Rightarrow>
       if ss_stop st' then broken_off pl found st' \<or> broken_off pl found' st'
       else following pl (us @ [u]) cur' found' st')"
proof -
  let ?p = "pl_pattern pl" and ?asked = "ss_seen st mod 4096 = 0"
  let ?cur = "cur @ [u]" and ?us = "us @ [u]"
  have p: "?p \<noteq> []" "table_upto ?p (pl_prefix pl) (length ?p)"
    using assms(1) by (simp_all add: plan_ok_def)
  show ?thesis
  proof (cases "?asked \<and> jb_cancelled (pl_job pl) (ss_polls st)")
    case True
    then have "scan_unit pl u st = Some (st\<lparr>ss_polls := ss_polls st + 1, ss_completeness := Cancelled, ss_stop := True\<rparr>)"
      by (simp add: scan_unit_def)
    moreover have "broken_off pl found (st\<lparr>ss_polls := ss_polls st + 1, ss_completeness := Cancelled, ss_stop := True\<rparr>)"
      using assms(2) True by (auto simp: following_def broken_off_def reported_def batched_def)
    ultimately show ?thesis
      by (auto split: prod.splits)
  next
    case go: False
    obtain m where m: "advance ?p (pl_prefix pl) (un_byte u) (ss_matched st) = Some m"
      "longest_end ?p (length ?p) (map un_byte ?cur) m"
      "m < length ?p \<Longrightarrow> longest_end ?p (length ?p - 1) (map un_byte ?cur) m"
      "m = length ?p \<Longrightarrow> longest_end ?p (length ?p - 1) (map un_byte ?cur) (pl_prefix pl ! (m - 1))"
      using scan_advance [OF p(2,1), of "map un_byte cur" "ss_matched st" "un_byte u"] assms(2)
      by (auto simp: following_def)
    define ring where "ring = (if ss_mapping st = [] then ss_mapping st
      else (ss_mapping st)[length us mod length ?p := (un_start u, un_first u)])"
    define polls where "polls = (if ?asked then ss_polls st + 1 else ss_polls st)"
    define st1 where "st1 = st\<lparr>ss_polls := polls, ss_mapping := ring, ss_seen := length us + 1, ss_matched := m\<rparr>"
    have seen: "ss_seen st = length us"
      using assms(2) by (simp add: following_def)
    have run: "scan_unit pl u st = (if m = length ?p then full_match pl u st1 else Some st1)"
      using go m(1) seen by (cases st) (auto simp: scan_unit_def Let_def st1_def ring_def polls_def)
    have ring_ok: "first_of pl ?us ring"
      unfolding ring_def using assms(2,3) p(1) by (intro first_of_snoc) (auto simp: following_def)
    have kept: "suffix ?cur ?us" "reported pl found st1" "batched st1" "\<not> ss_stop st1"
      using assms(2) by (auto simp: following_def reported_def batched_def st1_def)
    have follow: "following pl ?us ?cur found (st1\<lparr>ss_matched := k\<rparr>)"
      if "longest_end ?p (length ?p - 1) (map un_byte ?cur) k" for k
      using that kept ring_ok by (auto simp: following_def reported_def batched_def st1_def)
    show ?thesis
    proof (cases "m = length ?p")
      case False
      then have "m < length ?p"
        using m(2) by (simp add: longest_end_def)
      then have "\<not> suffix ?p (map un_byte ?cur)"
        using m(2) by (auto simp: longest_end_def dest!: spec [of _ "length ?p"])
      then have "feed ?p word (found, cur) u = (found, ?cur)"
        using tail_suffix [of ?p word "length cur + 1 - length ?p" ?cur] by (auto simp: feed_def Let_def)
      then show ?thesis
        using run False follow [OF m(3) [OF \<open>m < length ?p\<close>]] kept(4) by (simp add: st1_def)
    next
      case True
      define rest where "rest = drop (length cur + 1 - length ?p) ?cur"
      have "suffix ?p (map un_byte ?cur)"
        using m(2) True by (simp add: longest_end_def)
      then have tail: "map un_byte rest = ?p" "length ?p \<le> length ?cur"
        using suffix_drop_eq [of ?p un_byte ?cur] by (auto simp: rest_def dest: suffix_length_le)
      then have len: "length rest = length ?p"
        by (metis length_map)
      have last_u: "rest ! (length ?p - 1) = u"
      proof -
        have "rest \<noteq> []"
          using len p(1) by (metis length_0_conv)
        then have "rest ! (length ?p - 1) = last rest"
          using last_conv_nth len by metis
        also have "\<dots> = last ?cur"
          unfolding rest_def using p(1) by (intro last_drop) (cases ?p, auto)
        finally show ?thesis
          by simp
      qed
      have n: "0 < length ?p" "length ?p \<le> length ?us"
        using p(1) tail(2) kept(1) by (auto dest: suffix_length_le)
      have first: "hd rest = ?us ! (length ?us - length ?p)"
        using suffix_drop_hd [OF kept(1) tail(2) n(1)] by (simp add: rest_def)
      define a where "a = un_start (hd rest)"
      have start: "(if ss_mapping st1 = [] then (un_end u - m, True)
          else ss_mapping st1 ! ((ss_seen st1 - m) mod length ?p)) = (a, un_first (hd rest))"
        using first_of_match [OF ring_ok refl n] True by (simp add: st1_def first a_def cong: if_cong)
      have matched: "ss_matched st1 = m"
        by (simp add: st1_def)
      note unfold_match = full_match_def Let_def matched start prod.case
      have again: "following pl ?us ?cur found (st1\<lparr>ss_matched := pl_prefix pl ! (m - 1)\<rparr>)"
        using m(4) [OF True] by (rule follow)
      have hit_iff: "hit ?p word rest \<longleftrightarrow> un_first (hd rest) \<and> un_last u \<and> word a (un_end u)"
        using tail(1) len last_u by (simp add: hit_def a_def)
      have range: "hit_range ?p rest = (a, un_end u)"
        using last_u by (simp add: hit_range_def a_def)
      have miss: "feed ?p word (found, cur) u = (found, ?cur)" if "\<not> hit ?p word rest"
        using that by (simp add: feed_def Let_def rest_def)
      have take: "feed ?p word (found, cur) u = (found @ [(a, un_end u)], [])" if "hit ?p word rest"
        using that tail(2) range by (simp add: feed_def Let_def rest_def)
      have taken: "let st' = take_hit pl (a, un_end u) st1 in
        if ss_stop st' then broken_off pl (found @ [(a, un_end u)]) st'
        else following pl ?us [] (found @ [(a, un_end u)]) st'"
        using take_hit_follows [OF kept(2-4), of "(a, un_end u)"] ring_ok
        by (auto simp: Let_def following_def longest_end_def st1_def split: if_splits)
      have step: "scan_unit pl u st = full_match pl u st1"
        using run True by simp
      show ?thesis
      proof (cases "un_first (hd rest) \<and> un_last u")
        case False
        then have "full_match pl u st1 = Some (st1\<lparr>ss_matched := pl_prefix pl ! (m - 1)\<rparr>)"
          unfolding unfold_match by simp
        with step miss hit_iff False again kept(4) show ?thesis
          by auto
      next
        case ends: True
        have plain: "full_match pl u st1 = Some (take_hit pl (a, un_end u) st1)" if "\<not> pl_whole_word pl"
          unfolding unfold_match using ends that by simp
        have word: "full_match pl u st1 =
            Some (if word a (un_end u) then take_hit pl (a, un_end u) st1
              else st1\<lparr>ss_matched := pl_prefix pl ! (m - 1)\<rparr>)" if "pl_whole_word pl"
        proof -
          have "hit ?p (\<lambda>c d. c = a \<and> d = un_end u) rest"
            using tail(1) len last_u ends by (simp add: hit_def a_def)
          moreover have "suffix rest ?us"
            using kept(1) suffix_drop suffix_order.trans unfolding rest_def by blast
          ultimately have "word_boundaries (pl_env pl) (pl_source pl) a (un_end u) = Some (Some (word a (un_end u)))"
            using assms(4) that len by (auto simp: word_test_def)
          then show ?thesis
            unfolding unfold_match using ends that by simp
        qed
        have always: "word a (un_end u)" if "\<not> pl_whole_word pl"
          using assms(4) that by (simp add: word_test_def)
        show ?thesis
        proof (cases "word a (un_end u)")
          case True
          then have "scan_unit pl u st = Some (take_hit pl (a, un_end u) st1)"
            using step plain word by (cases "pl_whole_word pl") simp_all
          with take taken hit_iff ends True show ?thesis
            by (auto simp: Let_def)
        next
          case False
          then have "pl_whole_word pl"
            using always by blast
          with step word False miss hit_iff again kept(4) show ?thesis
            by auto
        qed
      qed
    qed
  qed
qed

end
