(* ===== verification/Search_Result.thy ===== *)
theory Search_Result
  imports Search_Find
begin

text \<open>
  What a whole scan returns, against the reference: all occurrences, or as many as fit, or those found
  before it was cancelled; and that the test for whole words reads what it needs.
\<close>

section \<open>The loop\<close>

lemma feed_extends: "prefix found (fst (foldl (feed p word) (found, cur) us))"
proof (induction us arbitrary: found cur)
  case (Cons u us)
  obtain found' cur' where step: "feed p word (found, cur) u = (found', cur')"
    by fastforce
  then have "prefix found found'"
    by (auto simp: feed_def Let_def split: if_splits)
  with Cons.IH [of found' cur'] step show ?case
    by (auto intro: prefix_order.trans)
qed simp

definition word_ok :: "scan_plan \<Rightarrow> (nat \<Rightarrow> nat \<Rightarrow> bool) \<Rightarrow> unit_byte list \<Rightarrow> bool" where
  "word_ok pl word us \<longleftrightarrow>
     (\<forall>a b. if pl_whole_word pl then
        (\<forall>xs vs ys. us = xs @ vs @ ys \<longrightarrow> hit (pl_pattern pl) (\<lambda>c d. c = a \<and> d = b) vs \<longrightarrow>
           length vs = length (pl_pattern pl) \<longrightarrow>
           word_boundaries (pl_env pl) (pl_source pl) a b = Some (Some (word a b)))
      else word a b)"

lemma word_ok_test: "word_ok pl word (us @ vs) \<Longrightarrow> word_test pl word us"
  by (fastforce simp: word_ok_def word_test_def suffix_def split: if_splits)

lemma single_units_append: "single_units base (us @ vs) \<Longrightarrow> single_units base us"
  by (auto simp: single_units_def nth_append split: if_splits)

lemma take_hit_mapping [simp]: "ss_mapping (take_hit pl r st) = ss_mapping st"
  by (simp add: take_hit_def emit_def Let_def)

lemma full_match_mapping: "full_match pl u st = Some st' \<Longrightarrow> ss_mapping st' = ss_mapping st"
proof -
  assume run: "full_match pl u st = Some st'"
  obtain a f where start: "(if ss_mapping st = [] then (un_end u - ss_matched st, True)
      else ss_mapping st ! ((ss_seen st - ss_matched st) mod length (pl_pattern pl))) = (a, f)"
    by fastforce
  show ?thesis
    using run unfolding full_match_def Let_def start prod.case
    by (cases "word_boundaries (pl_env pl) (pl_source pl) a (un_end u)")
      (auto split: if_split_asm option.split_asm bool.split_asm)
qed

lemma scan_unit_mapping:
  "scan_unit pl u st = Some st' \<Longrightarrow> ss_mapping st' = [] \<longleftrightarrow> ss_mapping st = []"
  by (auto simp: scan_unit_def Let_def bind_eq_Some_conv dest: full_match_mapping split: if_splits)

lemma scan_units_result:
  assumes "plan_ok pl" "following pl us cur found st"
    "ss_mapping st = [] \<Longrightarrow> \<exists>base. single_units base (us @ vs)" "word_ok pl word (us @ vs)"
  shows "\<exists>st' some. scan_units pl vs st = Some st' \<and>
    prefix some (fst (foldl (feed (pl_pattern pl) word) (found, cur) vs)) \<and>
    (if ss_stop st' then broken_off pl some st'
     else some = fst (foldl (feed (pl_pattern pl) word) (found, cur) vs) \<and> reported pl some st' \<and> batched st')"
  using assms(2-4)
proof (induction vs arbitrary: us cur found st)
  case Nil
  then show ?case
    by (auto simp: following_def)
next
  case (Cons u vs)
  let ?p = "pl_pattern pl"
  have single: "ss_mapping st = [] \<Longrightarrow> \<exists>base. single_units base (us @ [u])"
    using Cons.prems(2) single_units_append [of _ "us @ [u]" vs] by auto
  have "word_test pl word (us @ [u])"
    using word_ok_test [of pl word "us @ [u]" vs] Cons.prems(3) by simp
  note follows = scan_unit_follows [OF assms(1) Cons.prems(1) single this]
  obtain found' cur' where feed: "feed ?p word (found, cur) u = (found', cur')"
    by fastforce
  with follows obtain st1 where step: "scan_unit pl u st = Some st1" "feed ?p word (found, cur) u = (found', cur')"
    "if ss_stop st1 then broken_off pl found st1 \<or> broken_off pl found' st1
     else following pl (us @ [u]) cur' found' st1"
    by auto
  have "prefix found found'"
    using step(2) by (auto simp: feed_def Let_def split: if_splits)
  then have extends: "prefix found (fst (foldl (feed ?p word) (found', cur') vs))"
    "prefix found' (fst (foldl (feed ?p word) (found', cur') vs))"
    using feed_extends [of found' ?p word cur' vs] by (auto intro: prefix_order.trans)
  show ?case
  proof (cases "ss_stop st1")
    case True
    with step extends show ?thesis
      by auto
  next
    case False
    then have follow: "following pl (us @ [u]) cur' found' st1"
      using step(3) by simp
    have "ss_mapping st1 = [] \<Longrightarrow> \<exists>base. single_units base ((us @ [u]) @ vs)"
      using scan_unit_mapping [OF step(1)] Cons.prems(2) by simp
    from Cons.IH [OF follow this] Cons.prems(3) step(1,2) False show ?thesis
      by (simp split del: if_split cong: if_cong)
  qed
qed

end
