(* ===== verification/Search_Text.thy ===== *)
theory Search_Text
  imports Search_Result
begin

text \<open>
  The reference for the matches of a scan in terms of the text: what the characters fold to, at which
  characters an occurrence starts, and whether it is a word by itself.
\<close>

section \<open>The reference over characters\<close>

text \<open>How many characters it takes for their foldings to make up the pattern.\<close>

fun covers :: "(byte list \<Rightarrow> byte list) \<Rightarrow> byte list \<Rightarrow> byte list list \<Rightarrow> nat option" where
  "covers f p [] = (if p = [] then Some 0 else None)"
| "covers f p (c # cs) =
     (if p = [] then Some 0
      else if take (length (f c)) p = f c then map_option Suc (covers f (drop (length (f c)) p) cs)
      else None)"

function find_all ::
  "(byte list \<Rightarrow> byte list) \<Rightarrow> byte list \<Rightarrow> (nat \<Rightarrow> nat \<Rightarrow> bool) \<Rightarrow> nat \<Rightarrow> byte list list \<Rightarrow> range list" where
  "find_all f p word pos [] = []"
| "find_all f p word pos (c # cs) =
     (case covers f p (c # cs) of
        Some n \<Rightarrow>
          let e = pos + length (concat (take n (c # cs))) in
          if word pos e then (pos, e) # find_all f p word e (drop (n - 1) cs)
          else find_all f p word (pos + length c) cs
      | None \<Rightarrow> find_all f p word (pos + length c) cs)"
  by pat_completeness auto
termination
  by (relation "measure (\<lambda>(_, _, _, _, cs). length cs)") auto

definition folding :: "search_env \<Rightarrow> bool \<Rightarrow> byte list \<Rightarrow> byte list" where
  "folding env folded = (if folded then fold_char env else id)"

lemma covers_Some:
  assumes "covers f p cs = Some n"
  shows "n \<le> length cs \<and> concat (map f (take n cs)) = p"
  using assms
proof (induction f p cs arbitrary: n rule: covers.induct)
  case (2 f p c cs)
  show ?case
  proof (cases "p = []")
    case False
    with 2 obtain m where m: "covers f (drop (length (f c)) p) cs = Some m" "n = Suc m"
      "take (length (f c)) p = f c"
      by (auto split: if_splits)
    have "f c @ drop (length (f c)) p = p"
      using m(3) append_take_drop_id by metis
    with "2.IH" [OF False m(3,1)] m(2) show ?thesis
      by simp
  qed (use 2 in simp)
qed (simp split: if_splits)

lemma covers_pos: "covers f p cs = Some n \<Longrightarrow> p \<noteq> [] \<Longrightarrow> 0 < n"
  by (cases cs) (auto split: if_splits)

lemma covers_complete:
  "\<forall>c\<in>set cs. f c \<noteq> [] \<Longrightarrow> n \<le> length cs \<Longrightarrow> concat (map f (take n cs)) = p \<Longrightarrow> covers f p cs = Some n"
proof (induction n arbitrary: cs p)
  case 0
  then show ?case
    by (cases cs) auto
next
  case (Suc n)
  then obtain c ds where cs: "cs = c # ds"
    by (cases cs) auto
  with Suc.prems have "covers f (concat (map f (take n ds))) ds = Some n"
    by (intro Suc.IH) auto
  with Suc.prems cs show ?case
    by auto
qed

section \<open>Units and characters\<close>

definition char_like :: "search_env \<Rightarrow> bool \<Rightarrow> byte list \<Rightarrow> bool" where
  "char_like env folded p \<longleftrightarrow> p \<noteq> [] \<and> (folded \<or> valid_utf8 p)"

lemma length_char_units [simp]: "length (char_units env base c) = length (fold_char env c)"
  by (simp add: char_units_def)

lemma bytes_char_units [simp]: "map un_byte (char_units env base c) = fold_char env c"
  by (simp add: char_units_def o_def map_nth)

lemma length_plain_units [simp]: "length (plain_units base t) = length t"
  by (simp add: plain_units_def)

lemma bytes_plain_units [simp]: "map un_byte (plain_units base t) = t"
  by (simp add: plain_units_def o_def map_nth)

lemma plain_units_nth:
  "i < length t \<Longrightarrow> plain_units base t ! i =
     \<lparr>un_byte = t ! i, un_start = base + i, un_end = base + i + 1, un_first = True, un_last = True\<rparr>"
  by (simp add: plain_units_def)

lemma single_plain_units: "single_units base (plain_units base t)"
  by (simp add: single_units_def plain_units_nth)

lemma bytes_folded_units [simp]: "map un_byte (folded_units env base cs) = concat (map (fold_char env) cs)"
  by (induction cs arbitrary: base) simp_all

text \<open>A unit that ends a folded character ends the units of the characters up to it.\<close>

lemma folded_last:
  assumes "\<forall>c\<in>set cs. fold_char env c \<noteq> []" "k < length (folded_units env base cs)"
    "un_last (folded_units env base cs ! k)"
  shows "\<exists>n. 0 < n \<and> n \<le> length cs \<and> Suc k = length (concat (map (fold_char env) (take n cs))) \<and>
    un_end (folded_units env base cs ! k) = base + length (concat (take n cs))"
  using assms
proof (induction cs arbitrary: base k)
  case (Cons c cs)
  let ?n = "length (fold_char env c)"
  show ?case
  proof (cases "k < ?n")
    case True
    then have "folded_units env base (c # cs) ! k = char_units env base c ! k"
      by (simp add: nth_append)
    with True Cons.prems(3) have "k + 1 = ?n" "un_end (folded_units env base (c # cs) ! k) = base + length c"
      by (simp_all add: char_units_def)
    then show ?thesis
      by (intro exI [of _ 1]) simp
  next
    case False
    then have at: "folded_units env base (c # cs) ! k = folded_units env (base + length c) cs ! (k - ?n)"
      by (simp add: nth_append)
    obtain n where "0 < n" "n \<le> length cs" "Suc (k - ?n) = length (concat (map (fold_char env) (take n cs)))"
      "un_end (folded_units env (base + length c) cs ! (k - ?n)) = base + length c + length (concat (take n cs))"
      using Cons.IH [of "k - ?n" "base + length c"] Cons.prems False at by (auto simp: less_diff_conv2)
    with False at show ?thesis
      by (intro exI [of _ "Suc n"]) auto
  qed
qed simp

lemma folded_last_nth:
  assumes "\<forall>c\<in>set cs. fold_char env c \<noteq> []" "0 < n" "n \<le> length cs"
  shows "let k = length (concat (map (fold_char env) (take n cs))) - 1 in
    k < length (folded_units env base cs) \<and> un_last (folded_units env base cs ! k) \<and>
    un_end (folded_units env base cs ! k) = base + length (concat (take n cs))"
proof -
  obtain m where m: "n = Suc m"
    using assms(2) by (cases n) auto
  let ?c = "cs ! m"
  have cs: "cs = take m cs @ ?c # drop n cs" "take n cs = take m cs @ [?c]"
    using assms(3) m by (simp_all add: id_take_nth_drop take_Suc_conv_app_nth)
  have ne: "fold_char env ?c \<noteq> []"
    using assms(1,3) m by simp
  define us where "us = folded_units env base (take m cs)"
  have units: "folded_units env base cs = us @ char_units env (base + length (concat (take m cs))) ?c @
      folded_units env (base + length (concat (take m cs)) + length ?c) (drop n cs)"
    by (subst cs(1)) (simp add: folded_units_append us_def)
  have len: "length us = length (concat (map (fold_char env) (take m cs)))"
    unfolding us_def by (metis bytes_folded_units length_map)
  have k: "length (concat (map (fold_char env) (take n cs))) - 1 = length us + (length (fold_char env ?c) - 1)"
    using ne by (simp add: cs(2) len) (cases "fold_char env ?c"; simp)
  have "length (fold_char env ?c) - Suc 0 < length (fold_char env ?c) + j" for j
    using ne by (cases "fold_char env ?c") simp_all
  then show ?thesis
    unfolding k units Let_def using ne by (simp add: nth_append char_units_def cs(2))
qed

section \<open>The two references agree\<close>

lemma occurrences_step:
  assumes "p \<noteq> []" "us \<noteq> []"
  shows "occurrences p word us =
    (if hit p word us then hit_range p us # occurrences p word (drop (length p) us)
     else occurrences p word (tl us))"
  using assms by (subst occurrences.simps) simp

lemma hit_folded:
  assumes "\<forall>c\<in>set cs. fold_char env c \<noteq> []" "p \<noteq> []" "cs \<noteq> []"
  shows "hit p word (folded_units env pos cs) \<longleftrightarrow>
    (\<exists>n. covers (fold_char env) p cs = Some n \<and> word pos (pos + length (concat (take n cs))))"
    and "covers (fold_char env) p cs = Some n \<Longrightarrow>
      hit_range p (folded_units env pos cs) = (pos, pos + length (concat (take n cs)))"
proof -
  let ?us = "folded_units env pos cs"
  obtain c ds where cs: "cs = c # ds"
    using assms(3) by (cases cs) auto
  then obtain b bs where "fold_char env c = b # bs"
    using assms(1) by (cases "fold_char env c") auto
  then have first: "un_first (hd ?us)" "un_start (hd ?us) = pos"
    using cs by (simp_all add: char_units_def upt_conv_Cons del: upt_Suc)
  have bytes: "map un_byte (take (length p) ?us) = take (length p) (concat (map (fold_char env) cs))"
    by (metis bytes_folded_units take_map)
  have last_of: "un_last (?us ! (length p - 1)) \<and> un_end (?us ! (length p - 1)) = pos + length (concat (take n cs)) \<and>
      take (length p) (concat (map (fold_char env) cs)) = p"
    if "covers (fold_char env) p cs = Some n" for n
  proof -
    have n: "n \<le> length cs" "concat (map (fold_char env) (take n cs)) = p" "0 < n"
      using covers_Some [OF that] covers_pos [OF that assms(2)] by auto
    have "concat (map (fold_char env) cs) = p @ concat (map (fold_char env) (drop n cs))"
      by (metis n(2) append_take_drop_id concat_append map_append)
    then show ?thesis
      using folded_last_nth [OF assms(1) n(3,1), of pos] n(2) by (simp add: Let_def)
  qed
  show "covers (fold_char env) p cs = Some n \<Longrightarrow> hit_range p ?us = (pos, pos + length (concat (take n cs)))"
    using last_of first by (simp add: hit_range_def)
  show "hit p word ?us \<longleftrightarrow>
      (\<exists>n. covers (fold_char env) p cs = Some n \<and> word pos (pos + length (concat (take n cs))))"
  proof
    assume h: "hit p word ?us"
    have "length p - 1 < length ?us"
      using hit_length [OF h] assms(2) by (cases p) auto
    then obtain n where n: "0 < n" "n \<le> length cs"
      "Suc (length p - 1) = length (concat (map (fold_char env) (take n cs)))"
      using folded_last [OF assms(1), of "length p - 1" pos] h by (auto simp: hit_def)
    have "concat (map (fold_char env) cs) =
        concat (map (fold_char env) (take n cs)) @ concat (map (fold_char env) (drop n cs))"
      by (metis append_take_drop_id concat_append map_append)
    then have "concat (map (fold_char env) (take n cs)) = p"
      using h n(3) assms(2) bytes by (simp add: hit_def)
    then have "covers (fold_char env) p cs = Some n"
      using covers_complete [of cs "fold_char env" n] assms(1) n(2) by simp
    with h last_of first show "\<exists>n. covers (fold_char env) p cs = Some n \<and> word pos (pos + length (concat (take n cs)))"
      by (auto simp: hit_def)
  next
    assume "\<exists>n. covers (fold_char env) p cs = Some n \<and> word pos (pos + length (concat (take n cs)))"
    with last_of first bytes show "hit p word ?us"
      by (auto simp: hit_def)
  qed
qed

lemma occurrences_char:
  assumes "fold_char env c \<noteq> []" "\<not> hit p word (char_units env pos c @ us)"
  shows "occurrences p word (char_units env pos c @ us) = occurrences p word us"
proof -
  have "\<not> hit p word (drop i (char_units env pos c @ us))" if "i < length (fold_char env c)" for i
  proof (cases i)
    case (Suc j)
    then have "\<not> un_first (hd (drop i (char_units env pos c @ us)))"
      using that by (simp add: hd_append hd_drop_conv_nth char_units_def del: drop_Suc_Cons)
    then show ?thesis
      by (simp add: hit_def)
  qed (use assms(2) in simp)
  then show ?thesis
    using occurrences_skip [of "length (fold_char env c)" "char_units env pos c @ us" p word] by simp
qed

lemma occurrences_folded:
  "\<forall>c\<in>set cs. fold_char env c \<noteq> [] \<Longrightarrow> p \<noteq> [] \<Longrightarrow>
   occurrences p word (folded_units env pos cs) = find_all (fold_char env) p word pos cs"
proof (induction "length cs" arbitrary: pos cs rule: less_induct)
  case less
  show ?case
  proof (cases cs)
    case (Cons c ds)
    let ?us = "folded_units env pos cs"
    have ne: "cs \<noteq> []" "?us \<noteq> []"
      using Cons less.prems by (auto simp: char_units_def)
    note hit = hit_folded(1) [OF less.prems ne(1), where word = word and pos = pos]
      hit_folded(2) [OF less.prems ne(1), where pos = pos]
    have later: "occurrences p word (folded_units env q (drop k ds)) = find_all (fold_char env) p word q (drop k ds)" for q k
      using Cons less.prems by (intro less.hyps) (auto dest: in_set_dropD)
    have skip: "\<not> hit p word ?us \<Longrightarrow> occurrences p word ?us = find_all (fold_char env) p word (pos + length c) ds"
      using occurrences_char [of env c p word pos "folded_units env (pos + length c) ds"] Cons less.prems(1)
        later [of "pos + length c" 0] by simp
    show ?thesis
    proof (cases "covers (fold_char env) p cs")
      case None
      with hit(1) skip Cons show ?thesis
        by simp
    next
      case (Some n)
      let ?e = "pos + length (concat (take n cs))"
      have n: "n \<le> length cs" "concat (map (fold_char env) (take n cs)) = p" "0 < n"
        using covers_Some [OF Some] covers_pos [OF Some less.prems(2)] by auto
      have "?us = folded_units env pos (take n cs) @ folded_units env ?e (drop n cs)"
        by (metis append_take_drop_id folded_units_append)
      moreover have "length (folded_units env pos (take n cs)) = length p"
        by (metis bytes_folded_units length_map n(2))
      ultimately have "drop (length p) ?us = folded_units env ?e (drop n cs)"
        by simp
      moreover have "drop n cs = drop (n - 1) ds"
        using Cons n(3) by (cases n) auto
      ultimately have "occurrences p word (drop (length p) ?us) = find_all (fold_char env) p word ?e (drop (n - 1) ds)"
        using later by simp
      then show ?thesis
        using Some hit skip occurrences_step [OF less.prems(2) ne(2), of word] Cons by (simp add: Let_def)
    qed
  qed simp
qed

lemma drop_plain_units: "drop i (plain_units base t) = plain_units (base + i) (drop i t)"
  by (rule nth_equalityI) (auto simp: plain_units_nth)

lemma hit_plain:
  assumes "p \<noteq> []"
  shows "hit p word (plain_units pos t) \<longleftrightarrow> take (length p) t = p \<and> word pos (pos + length p)"
    and "take (length p) t = p \<Longrightarrow> hit_range p (plain_units pos t) = (pos, pos + length p)"
proof -
  have bytes: "map un_byte (take (length p) (plain_units pos t)) = take (length p) t"
    by (metis bytes_plain_units take_map)
  have ends: "un_start (hd (plain_units pos t)) = pos" "un_end (plain_units pos t ! (length p - 1)) = pos + length p"
    "un_first (hd (plain_units pos t))" "un_last (plain_units pos t ! (length p - 1))"
    if "take (length p) t = p"
  proof -
    have "length p \<le> length t" "0 < length t"
      using that assms by (metis length_take min.absorb_iff2 min.commute, auto)
    moreover from this have "length p - 1 < length t" "hd (plain_units pos t) = plain_units pos t ! 0"
      using assms by (cases p, auto simp: hd_conv_nth simp flip: length_greater_0_conv)
    ultimately show "un_start (hd (plain_units pos t)) = pos"
      "un_end (plain_units pos t ! (length p - 1)) = pos + length p"
      "un_first (hd (plain_units pos t))" "un_last (plain_units pos t ! (length p - 1))"
      using assms by (simp_all add: plain_units_nth)
  qed
  show "hit p word (plain_units pos t) \<longleftrightarrow> take (length p) t = p \<and> word pos (pos + length p)"
    using ends bytes by (auto simp: hit_def)
  show "take (length p) t = p \<Longrightarrow> hit_range p (plain_units pos t) = (pos, pos + length p)"
    using ends by (simp add: hit_range_def)
qed

text \<open>A well-formed pattern occurs only at the start of a character.\<close>

lemma covers_plain:
  assumes "valid_utf8 p" "valid_utf8 t"
  shows "covers id p (utf8_chars t) =
    (if take (length p) t = p then Some (length (utf8_chars p)) else None)"
proof (cases "take (length p) t = p")
  case True
  then obtain r where t: "t = p @ r"
    by (metis append_take_drop_id)
  then have "utf8_chars t = utf8_chars p @ utf8_chars r"
    using assms by (simp add: utf8_chars_append valid_utf8_append)
  moreover have "\<forall>c\<in>set (utf8_chars t). id c \<noteq> []"
    using assms(2) by (auto dest: utf8_chars_scalar utf8_scalar_not_Nil)
  ultimately show ?thesis
    using True covers_complete [of "utf8_chars t" id "length (utf8_chars p)" p] assms(1) by simp
next
  case False
  have "covers id p (utf8_chars t) = None"
  proof (rule ccontr)
    assume "covers id p (utf8_chars t) \<noteq> None"
    then obtain n where "covers id p (utf8_chars t) = Some n"
      by auto
    from covers_Some [OF this] have "concat (take n (utf8_chars t)) = p"
      by simp
    then have "t = p @ concat (drop n (utf8_chars t))"
      using assms(2) by (metis append_take_drop_id concat_append concat_utf8_chars)
    with False show False
      by (metis append_eq_conv_conj)
  qed
  with False show ?thesis
    by simp
qed

lemma occurrences_plain:
  "valid_utf8 t \<Longrightarrow> valid_utf8 p \<Longrightarrow> p \<noteq> [] \<Longrightarrow>
   occurrences p word (plain_units pos t) = find_all id p word pos (utf8_chars t)"
proof (induction "length t" arbitrary: pos t rule: less_induct)
  case less
  show ?case
  proof (cases "t = []")
    case False
    let ?us = "plain_units pos t"
    obtain w where w: "0 < w" "w \<le> length t" "utf8_scalar (take w t)" "valid_utf8 (drop w t)"
      "utf8_chars t = take w t # utf8_chars (drop w t)"
      using utf8_chars_step [OF less.prems(1) False] by metis
    have ne: "?us \<noteq> []"
      using False by (simp add: plain_units_def)
    note hit = hit_plain [OF less.prems(3), where pos = pos and t = t]
    have later: "occurrences p word (plain_units q (drop k t)) = find_all id p word q (utf8_chars (drop k t))"
      if "0 < k" "valid_utf8 (drop k t)" for q k
      using that less False by (intro less.hyps) simp_all
    have skip: "occurrences p word ?us = find_all id p word (pos + w) (utf8_chars (drop w t))" if "\<not> hit p word ?us"
    proof -
      have "\<not> hit p word (drop i ?us)" if "i < w" for i
      proof (cases "i = 0")
        case False
        have "cont (t ! i)"
          using utf8_scalar_tail_cont [OF w(3), of i] False that w(2) by simp
        moreover have "\<not> cont (hd p)"
          using valid_utf8_hd less.prems(2,3) .
        moreover have "t ! i = hd p" if "take (length p) (drop i t) = p"
        proof -
          have "hd p = hd (drop i t)"
            using that less.prems(3) by (metis hd_take length_greater_0_conv)
          then show ?thesis
            using \<open>i < w\<close> w(2) by (simp add: hd_drop_conv_nth)
        qed
        ultimately show ?thesis
          using hit_plain(1) [OF less.prems(3), of word "pos + i" "drop i t"] by (auto simp: drop_plain_units)
      qed (use \<open>\<not> hit p word ?us\<close> in simp)
      then have "occurrences p word ?us = occurrences p word (drop w ?us)"
        using w(2) by (intro occurrences_skip) simp_all
      then show ?thesis
        using later [OF w(1,4)] by (simp add: drop_plain_units)
    qed
    show ?thesis
    proof (cases "take (length p) t = p")
      case True
      let ?n = "length (utf8_chars p)"
      obtain r where t: "t = p @ r"
        using True by (metis append_take_drop_id)
      then have r: "valid_utf8 r" "drop (length p) t = r"
        using less.prems by (simp_all add: valid_utf8_append)
      have chars: "utf8_chars t = utf8_chars p @ utf8_chars r"
        using t r(1) less.prems(2) by (simp add: utf8_chars_append)
      have n: "covers id p (utf8_chars t) = Some ?n" "concat (take ?n (utf8_chars t)) = p" "0 < ?n"
        using covers_plain [OF less.prems(2,1)] True chars less.prems(2,3) by simp_all
      have "drop (?n - 1) (utf8_chars (drop w t)) = utf8_chars r"
      proof -
        have "drop (?n - 1) (utf8_chars (drop w t)) = drop ?n (utf8_chars t)"
          using w(5) n(3) by (cases ?n) simp_all
        then show ?thesis
          by (simp add: chars)
      qed
      moreover have "occurrences p word (drop (length p) ?us) = find_all id p word (pos + length p) (utf8_chars r)"
        using later [of "length p" "pos + length p"] r less.prems(3) by (simp add: drop_plain_units)
      ultimately show ?thesis
        using hit True skip occurrences_step [OF less.prems(3) ne, of word] n(1,2) w(2,5)
        by (simp add: Let_def)
    next
      case False
      then have "covers id p (utf8_chars t) = None"
        using covers_plain [OF less.prems(2,1)] by simp
      then show ?thesis
        using skip hit(1) False w(2,5) by simp
    qed
  qed (simp add: plain_units_def)
qed

lemma occurrences_find_all:
  assumes "fold_ok env" "valid_utf8 t" "char_like env folded p"
  shows "occurrences p word (units env folded pos t) = find_all (folding env folded) p word pos (utf8_chars t)"
proof (cases folded)
  case True
  have "\<forall>c\<in>set (utf8_chars t). fold_char env c \<noteq> []"
    using assms(1,2) by (auto dest: utf8_chars_scalar fold_char_ok)
  with True assms occurrences_folded show ?thesis
    by (simp add: units_def folding_def char_like_def)
qed (use assms occurrences_plain in \<open>simp add: units_def folding_def char_like_def\<close>)

end
