(* ===== verification/Search_Scan.thy ===== *)
theory Search_Scan
  imports Search_Text
begin

text \<open>
  The scan of a snapshot: the chunks it reads are whole characters, the test for whole words reads the
  characters around a match, and the result is that of the reference over the text.
\<close>

section \<open>Whole words\<close>

text \<open>Neither the character before nor the one after is part of a word.\<close>

definition whole_word :: "search_env \<Rightarrow> byte list \<Rightarrow> nat \<Rightarrow> nat \<Rightarrow> bool" where
  "whole_word env t a b \<longleftrightarrow>
     \<not> (0 < a \<and> is_word env (last (utf8_chars (take a t)))) \<and>
     \<not> (b < length t \<and> is_word env (hd (utf8_chars (drop b t))))"

lemma boundary_from_ok:
  "is_boundary s a \<Longrightarrow> n \<le> a \<Longrightarrow>
   \<exists>m. boundary_from s n = Some m \<and> n \<le> m \<and> m \<le> a \<and> is_boundary s m \<and> (\<forall>k. n \<le> k \<longrightarrow> k < m \<longrightarrow> \<not> is_boundary s k)"
proof (induction "a - n" arbitrary: n)
  case 0
  then show ?case
    by (subst boundary_from.simps) auto
next
  case (Suc d)
  show ?case
  proof (cases "is_boundary s n")
    case True
    with Suc.prems show ?thesis
      by (subst boundary_from.simps) auto
  next
    case False
    have "d = a - (n + 1)" "n + 1 \<le> a"
      using Suc.hyps(2) by linarith+
    then obtain m where "boundary_from s (n + 1) = Some m" "n + 1 \<le> m" "m \<le> a" "is_boundary s m"
      "\<forall>k. n + 1 \<le> k \<longrightarrow> k < m \<longrightarrow> \<not> is_boundary s k"
      using Suc.hyps(1) [of "n + 1"] Suc.prems(1) by blast
    with False show ?thesis
      by (subst boundary_from.simps) (auto, metis Suc_leI le_neq_implies_less)
  qed
qed

lemma boundary_until_ok:
  "is_boundary s b \<Longrightarrow> b \<le> n \<Longrightarrow>
   \<exists>m. boundary_until s n = Some m \<and> b \<le> m \<and> m \<le> n \<and> is_boundary s m \<and> (\<forall>k. m < k \<longrightarrow> k \<le> n \<longrightarrow> \<not> is_boundary s k)"
proof (induction n)
  case (Suc n)
  show ?case
  proof (cases "is_boundary s (Suc n)")
    case False
    with Suc.prems have "b \<le> n"
      by (cases "b = Suc n") auto
    with Suc False show ?thesis
      by (auto simp: le_Suc_eq)
  qed (use Suc.prems in auto)
qed auto

lemma read_ok_text:
  assumes "good s" "a \<le> b" "char_boundary (snap_text s) a" "char_boundary (snap_text s) b" "b - a \<le> n"
  shows "read_ok s a b n = Some (Some (sub a b (snap_text s)))"
  using snapshot_read_text [OF assms] by (simp add: read_ok_def)

lemma char_before:
  assumes "valid_utf8 t" "char_boundary t a" "0 < a"
  shows "\<exists>m. m < a \<and> a \<le> m + 4 \<and> char_boundary t m"
proof -
  have "a \<le> length t"
    using assms(2) by (rule char_boundary_le)
  then have "\<exists>m. m \<le> a - 1 \<and> a - 1 \<le> m + 3 \<and> char_boundary t m"
    using char_boundary_near [OF assms(1), of "a - 1"] by simp
  then obtain m where "m \<le> a - 1" "a - 1 \<le> m + 3" "char_boundary t m"
    by blast
  with assms(3) show ?thesis
    by (intro exI [of _ m]) auto
qed

lemma char_after:
  assumes "valid_utf8 t" "char_boundary t b" "b < length t"
  shows "\<exists>m. b < m \<and> m \<le> b + 4 \<and> char_boundary t m"
proof -
  have rest: "valid_utf8 (drop b t)" "drop b t \<noteq> []"
    using assms valid_utf8_cut by auto
  obtain w where w: "0 < w" "w \<le> 4" "w \<le> length (drop b t)" "valid_utf8 (drop w (drop b t))"
    using utf8_chars_step [OF rest] by metis
  have "char_boundary t (b + w)"
    using char_boundary_append_left [of "drop w (drop b t)" "b + w" "take (b + w) t"] w
    by (simp add: add.commute) (metis add.commute append_take_drop_id char_boundary_ends(2) drop_drop
        length_take min.absorb2 add_le_imp_le_diff le_diff_conv2 assms(3) less_imp_le)
  with w show ?thesis
    by (intro exI [of _ "b + w"]) auto
qed

lemma word_boundaries_text:
  assumes "good s" "valid_utf8 (snap_text s)" "length (snap_text s) \<le> usize_max"
    "char_boundary (snap_text s) a" "char_boundary (snap_text s) b"
  shows "word_boundaries env s a b = Some (Some (whole_word env (snap_text s) a b))"
proof -
  let ?t = "snap_text s"
  have boundary: "is_boundary s k \<longleftrightarrow> char_boundary ?t k" for k
    using assms(1) by (rule is_boundary_text)
  obtain before where before: "boundary_from s (a - 4) = Some before" "a - 4 \<le> before" "before \<le> a"
    "char_boundary ?t before" "\<forall>k. a - 4 \<le> k \<longrightarrow> k < before \<longrightarrow> \<not> char_boundary ?t k"
    using boundary_from_ok [of s a "a - 4"] assms(4) by (auto simp: boundary)
  have "before < a" if "0 < a"
    using char_before [OF assms(2,4) that] before(5) by (metis le_diff_conv not_le order.strict_trans1)
  then have prefix: "sub before a ?t \<noteq> [] \<longleftrightarrow> 0 < a"
    using before(3) char_boundary_le [OF assms(4)] by (auto simp: sub_def)
  have left: "last (utf8_chars (sub before a ?t)) = last (utf8_chars (take a ?t))" if "0 < a"
  proof -
    have "take a ?t = take before ?t @ sub before a ?t"
      using before(3) by (metis sub_def append_take_drop_id drop_take min.absorb1 take_take le_add_diff_inverse take_add)
    moreover have "valid_utf8 (take before ?t)" "valid_utf8 (sub before a ?t)"
      using assms(2,4) before(3,4) valid_utf8_cut valid_utf8_sub by blast+
    ultimately have "utf8_chars (take a ?t) = utf8_chars (take before ?t) @ utf8_chars (sub before a ?t)"
      by (metis utf8_chars_append)
    with prefix that show ?thesis
      by simp
  qed
  have b: "b \<le> length ?t"
    using assms(5) by (rule char_boundary_le)
  define top where "top = min (sat_add b 4) (snapshot_len s)"
  have top: "b \<le> top" "top \<le> length ?t" "b + 4 \<le> length ?t \<Longrightarrow> top = b + 4" "length ?t < b + 4 \<Longrightarrow> top = length ?t"
    using assms(1,3) b by (auto simp: top_def sat_add_def snapshot_len_text)
  obtain after where after: "boundary_until s top = Some after" "b \<le> after" "after \<le> top" "char_boundary ?t after"
    "\<forall>k. after < k \<longrightarrow> k \<le> top \<longrightarrow> \<not> char_boundary ?t k"
    using boundary_until_ok [of s b top] assms(5) top(1) by (auto simp: boundary)
  have "b < after" if more: "b < length ?t"
  proof -
    obtain m where m: "b < m" "m \<le> b + 4" "char_boundary ?t m"
      using char_after [OF assms(2,5) more] by blast
    then have "m \<le> top"
      using top(3,4) char_boundary_le [OF m(3)] by linarith
    with m after(5) show ?thesis
      by (metis not_le order.strict_trans1)
  qed
  then have suffix: "sub b after ?t \<noteq> [] \<longleftrightarrow> b < length ?t"
    using after(2,3) top(2) by (auto simp: sub_def)
  have right: "hd (utf8_chars (sub b after ?t)) = hd (utf8_chars (drop b ?t))" if "b < length ?t"
  proof -
    have "drop b ?t = sub b after ?t @ drop after ?t"
      using after(2) by (metis sub_def append_take_drop_id drop_drop le_add_diff_inverse2)
    moreover have "valid_utf8 (drop after ?t)" "valid_utf8 (sub b after ?t)"
      using assms(2,5) after(2,4) valid_utf8_cut valid_utf8_sub by blast+
    ultimately have "utf8_chars (drop b ?t) = utf8_chars (sub b after ?t) @ utf8_chars (drop after ?t)"
      by (metis utf8_chars_append)
    with suffix that show ?thesis
      by simp
  qed
  have reads: "read_ok s before a 4 = Some (Some (sub before a ?t))" "read_ok s b after 4 = Some (Some (sub b after ?t))"
    using assms(1,4,5) before(2-4) after(2-4) top(1-4) by (intro read_ok_text; linarith?)+
  show ?thesis
    using prefix left suffix right
    unfolding word_boundaries_def before(1) top_def [symmetric] after(1) whole_word_def reads bind.bind_lunit
      option.case
    by auto
qed

section \<open>The chunks are whole characters\<close>

lemma chunks_next_valid:
  "list_all pending_ok stack \<Longrightarrow> chunks_next stack = Inr (Some t, stack') \<Longrightarrow> valid_utf8 t"
proof (induction stack rule: chunks_next.induct)
  case (2 node s e stack)
  show ?case
  proof (cases node)
    case (Leaf p)
    with "2.prems" have "piece_ok p" "s < e" "char_boundary (piece_text p) s"
      "char_boundary (piece_text p) e" "t = sub s e (piece_text p)"
      by (auto simp: pending_ok_def and_then_Inr_iff str_slice_ok)
    then show ?thesis
      by (auto intro!: valid_utf8_sub piece_ok_valid)
  next
    case (Branch l r h sm)
    let ?m = "node_bytes l"
    let ?stack1 = "if e > ?m then (r, s - ?m, e - ?m) # stack else stack"
    let ?stack2 = "if s < ?m then (l, s, min e ?m) # ?stack1 else ?stack1"
    have entry: "pending_ok (Branch l r h sm, s, e)"
      using "2.prems" Branch by simp
    have "list_all pending_ok ?stack2"
      using pending_ok_branch(1,2) [OF entry] "2.prems" by auto
    moreover have "chunks_next ?stack2 = Inr (Some t, stack')"
      using "2.prems" Branch by (simp add: Let_def)
    ultimately show ?thesis
      by (rule "2.IH" [OF Branch refl refl refl])
  qed (use "2.prems" in \<open>auto simp: pending_ok_def\<close>)
qed simp

lemma chunks_all_valid:
  "list_all pending_ok stack \<Longrightarrow> chunks_all stack = Inr ts \<Longrightarrow> list_all valid_utf8 ts"
proof (induction stack arbitrary: ts rule: chunks_all.induct)
  case (1 stack)
  show ?case
  proof (cases "stack = []")
    case False
    obtain t stack' where t: "chunks_next stack = Inr (Some t, stack')" "list_all pending_ok stack'"
      using chunks_next_ok [OF "1.prems"(1) False] by blast
    then obtain us where us: "chunks_all stack' = Inr us" "ts = t # us"
      using "1.prems"(2) by (subst (asm) chunks_all.simps) (auto simp: and_then_Inr_iff)
    show ?thesis
      using "1.IH" [OF t(1) refl refl t(2) us(1)] chunks_next_valid [OF "1.prems"(1) t(1)] us(2) by simp
  qed (use 1 in simp)
qed

lemma snapshot_chunks_valid:
  assumes "good s" "a \<le> b" "char_boundary (snap_text s) a" "char_boundary (snap_text s) b"
  shows "\<exists>stack ts. snapshot_chunks s a b = Inr stack \<and> chunks_all stack = Inr ts \<and>
    list_all valid_utf8 ts \<and> concat ts = sub a b (snap_text s)"
proof -
  obtain stack ts where run: "snapshot_chunks s a b = Inr stack" "chunks_all stack = Inr ts"
    "concat ts = sub a b (snap_text s)"
    using snapshot_chunks_text [OF assms] by (auto simp: and_then_Inr_iff)
  have "list_all pending_ok stack"
  proof (cases "sn_root s")
    case (Some n)
    have n: "node_ok (\<lambda>_. []) n" "\<not> node_has_source n" "snap_text s = flat (\<lambda>_. []) n"
      using assms(1) Some by (simp_all add: good_def owned_def snap_text_def text_of_def)
    have "stack = chunks (sn_root s) a b"
      using run(1) by (auto simp: snapshot_chunks_def and_then_Inr_iff)
    moreover have "pending_ok (n, a, b)" if "a < b"
      using that n assms(3,4) char_boundary_le [OF assms(4)] cut_ok_boundary [OF n(1,2)]
      by (auto simp: pending_ok_def)
    ultimately show ?thesis
      using Some by (simp add: chunks_def)
  next
    case None
    then show ?thesis
      using run(1) by (auto simp: snapshot_chunks_def and_then_Inr_iff chunks_def)
  qed
  with run chunks_all_valid show ?thesis
    by blast
qed

section \<open>The units lie between characters\<close>

text \<open>Both ends of what a unit of a folded text stands for.\<close>

lemma folded_units_ends:
  "u \<in> set (folded_units env base cs) \<Longrightarrow>
   \<exists>i j. un_start u = base + length (concat (take i cs)) \<and> un_end u = base + length (concat (take j cs))"
proof (induction cs arbitrary: base)
  case (Cons c cs)
  consider "u \<in> set (char_units env base c)" | "u \<in> set (folded_units env (base + length c) cs)"
    using Cons.prems by auto
  then show ?case
  proof cases
    case 1
    then have "un_start u = base + length (concat (take 0 (c # cs)))"
      "un_end u = base + length (concat (take 1 (c # cs)))"
      by (auto simp: char_units_def)
    then show ?thesis
      by blast
  next
    case 2
    then obtain i j where "un_start u = base + length c + length (concat (take i cs))"
      "un_end u = base + length c + length (concat (take j cs))"
      using Cons.IH by blast
    then have "un_start u = base + length (concat (take (Suc i) (c # cs)))"
      "un_end u = base + length (concat (take (Suc j) (c # cs)))"
      by simp_all
    then show ?thesis
      by blast
  qed
qed simp

lemma char_boundary_chars:
  assumes "valid_utf8 t"
  shows "char_boundary t (length (concat (take i (utf8_chars t))))"
proof -
  have "t = concat (take i (utf8_chars t)) @ concat (drop i (utf8_chars t))"
    using assms by (metis append_take_drop_id concat_append concat_utf8_chars)
  moreover have "valid_utf8 (concat (drop i (utf8_chars t)))"
    using assms by (intro valid_utf8_concat) (auto dest!: in_set_dropD utf8_chars_scalar intro: utf8_scalar_valid)
  ultimately show ?thesis
    using char_boundary_append_left [of "concat (drop i (utf8_chars t))" "length (concat (take i (utf8_chars t)))"
        "concat (take i (utf8_chars t))"] by simp
qed

lemma char_boundary_inside:
  assumes "valid_utf8 t" "a \<le> b" "char_boundary t a" "char_boundary t b" "char_boundary (sub a b t) k"
  shows "char_boundary t (a + k)"
proof -
  have split: "t = take a t @ sub a b t @ drop b t" "length (take a t) = a"
    using assms(2) char_boundary_le [OF assms(3)]
    by (simp_all add: sub_def) (metis append_take_drop_id drop_take le_add_diff_inverse take_add append_assoc drop_drop)
  have "valid_utf8 (drop b t)" "valid_utf8 (sub a b t)"
    using assms valid_utf8_cut valid_utf8_sub by blast+
  then show ?thesis
    using char_boundary_append_right [of "sub a b t @ drop b t" "take a t" "a + k"]
      char_boundary_append_left [of "drop b t" k "sub a b t"] assms(5) char_boundary_le [OF assms(5)] split
    by (simp add: valid_utf8_append)
qed

lemma hit_ends:
  assumes "fold_ok env" "valid_utf8 t" "char_like env folded p" "units env folded base t = xs @ vs @ ys"
    "hit p (\<lambda>c d. c = a \<and> d = b) vs" "length vs = length p"
  shows "\<exists>i j. a = base + i \<and> b = base + j \<and> char_boundary t i \<and> char_boundary t j"
proof (cases folded)
  case True
  have "vs \<noteq> []" "length p - 1 < length vs"
    using assms(3,6) by (auto simp: char_like_def)
  then have "hd vs \<in> set (units env folded base t)" "vs ! (length p - 1) \<in> set (units env folded base t)"
    unfolding assms(4) by auto
  then obtain i j i' j' where "un_start (hd vs) = base + length (concat (take i (utf8_chars t)))"
    "un_end (vs ! (length p - 1)) = base + length (concat (take j (utf8_chars t)))"
    using True folded_units_ends [of _ env base "utf8_chars t"] by (metis units_def)
  then have "a = base + length (concat (take i (utf8_chars t)))" "b = base + length (concat (take j (utf8_chars t)))"
    using assms(5) by (auto simp: hit_def)
  then show ?thesis
    using char_boundary_chars [OF assms(2)] by blast
next
  case False
  let ?i = "length xs"
  have p: "valid_utf8 p" "p \<noteq> []"
    using assms(3) False by (simp_all add: char_like_def)
  have "drop ?i (plain_units base t) = vs @ ys"
    using assms(4) False by (simp add: units_def)
  then have vs: "vs @ ys = plain_units (base + ?i) (drop ?i t)"
    by (simp add: drop_plain_units)
  have "hit p (\<lambda>c d. c = a \<and> d = b) (vs @ ys)"
    using assms(5,6) hit_append(1) [of p vs _ ys] p(2) by simp
  then have at: "take (length p) (drop ?i t) = p" "a = base + ?i" "b = base + ?i + length p"
    using hit_plain(1) [OF p(2), of _ "base + ?i" "drop ?i t"] by (simp_all add: vs)
  have i: "?i < length t"
    using at(1) p(2) by (metis drop_all not_le take_Nil)
  have "t ! ?i = hd p"
    using at(1) p(2) i by (metis hd_drop_conv_nth hd_take length_greater_0_conv)
  then have start: "char_boundary t ?i"
    using i valid_utf8_hd [OF p] by (simp add: char_boundary_def)
  have rest: "drop ?i t = p @ drop (?i + length p) t"
    using at(1) by (metis add.commute append_take_drop_id drop_drop)
  have "valid_utf8 (drop (?i + length p) t)"
    using valid_utf8_cut [OF assms(2) start] p(1) rest by (metis valid_utf8_append)
  moreover have "t = (take ?i t @ p) @ drop (?i + length p) t" "length (take ?i t @ p) = ?i + length p"
    using rest i by (simp_all, metis append_take_drop_id)
  ultimately have "char_boundary t (?i + length p)"
    by (metis char_boundary_append_left char_boundary_ends(2) order_refl)
  with start at show ?thesis
    by (metis add.assoc)
qed

section \<open>The result of a scan\<close>

text \<open>Whether a match counts: with whole words asked for, by the characters around it.\<close>

definition counts :: "search_env \<Rightarrow> snapshot \<Rightarrow> search_query \<Rightarrow> nat \<Rightarrow> nat \<Rightarrow> bool" where
  "counts env s q a b \<longleftrightarrow> (q_whole_word q \<longrightarrow> whole_word env (snap_text s) a b)"

definition all_matches :: "search_env \<Rightarrow> snapshot \<Rightarrow> search_query \<Rightarrow> byte list \<Rightarrow> range list" where
  "all_matches env s q p =
     (let (a, b) = query_range s q in
      find_all (folding env (q_case q = Folded)) p (counts env s q) a (utf8_chars (sub a b (snap_text s))))"

definition scan_capacity :: "search_env \<Rightarrow> search_query \<Rightarrow> nat" where
  "scan_capacity env q = min (q_results_ram_bytes q) MAX_RESULT_BYTES div se_match_size env"

text \<open>How a scan may end, with the reference beside it.\<close>

definition scanned :: "search_env \<Rightarrow> search_query \<Rightarrow> search_job \<Rightarrow> range list \<Rightarrow> scan_outcome \<Rightarrow> bool" where
  "scanned env q job found = (\<lambda>(r, batches).
     concat batches = sr_matches r \<and> list_all (\<lambda>b. b \<noteq> [] \<and> length b \<le> BATCH_SIZE) batches \<and>
     sr_captures r = None \<and>
     (case sr_completeness r of
        Complete \<Rightarrow> sr_matches r = found \<and> sr_total_count r = length found \<and> sr_count_complete r
      | ResultLimit \<Rightarrow>
          scan_capacity env q < length found \<and> sr_matches r = take (scan_capacity env q) found \<and>
          sr_total_count r = (if q_count_beyond_limit q then length found else scan_capacity env q) \<and>
          sr_count_complete r = q_count_beyond_limit q
      | Cancelled \<Rightarrow>
          (\<exists>n. jb_cancelled job n) \<and> prefix (sr_matches r) found \<and> length (sr_matches r) \<le> sr_total_count r \<and>
          sr_total_count r \<le> length found \<and> \<not> sr_count_complete r
      | _ \<Rightarrow> False))"

lemma batched_concat:
  assumes "batched st"
  shows "concat (ss_batches (if ss_emitted st < length (ss_matches st) then emit st else st)) = ss_matches st"
    "list_all (\<lambda>b. b \<noteq> [] \<and> length b \<le> BATCH_SIZE)
      (ss_batches (if ss_emitted st < length (ss_matches st) then emit st else st))"
  using assms by (auto simp: batched_def emit_def)

lemma finish_scan_result:
  assumes "batched st" "prefix some found" "pl_capacity pl = scan_capacity env q" "pl_beyond pl = q_count_beyond_limit q"
    "pl_job pl = job" "if ss_stop st then broken_off pl some st else some = found \<and> reported pl some st"
  shows "scanned env q job found (finish_scan pl st)"
proof -
  define st' where "st' = (if ss_emitted st < length (ss_matches st) then emit st else st)"
  have same: "ss_matches st' = ss_matches st" "ss_total st' = ss_total st" "ss_completeness st' = ss_completeness st"
    by (simp_all add: st'_def emit_def)
  note out = batched_concat [OF assms(1), folded st'_def]
  have le: "length some \<le> length found"
    using assms(2) by (rule prefix_length_le)
  have cut: "prefix (take k some) found" for k
    using assms(2) by (metis prefix_order.trans take_is_prefix)
  have kept: "ss_matches st = take (scan_capacity env q) some" "length (ss_matches st) \<le> ss_total st" "ss_total st \<le> length some"
    using assms(3,6) by (auto simp: broken_off_def reported_def split: if_splits)
  define c where "c = (if jb_cancelled job (ss_polls st) \<or> jb_cancelled job (ss_polls st + 1) then Cancelled
    else ss_completeness st)"
  have form: "finish_scan pl st =
    ((no_results (pl_source pl) job c)\<lparr>sr_matches := ss_matches st, sr_total_count := ss_total st,
      sr_count_complete := (c = Complete \<or> pl_beyond pl \<and> c = ResultLimit)\<rparr>, ss_batches st')"
    unfolding finish_scan_def Let_def st'_def [symmetric] same assms(5) c_def ..
  have take_eq: "take k some = take k found" if "k \<le> length some" for k
    using assms(2) that by (auto simp: prefix_def)
  have "scanned env q job found (finish_scan pl st) \<longleftrightarrow>
    (case c of
        Complete \<Rightarrow> ss_matches st = found \<and> ss_total st = length found
      | ResultLimit \<Rightarrow>
          scan_capacity env q < length found \<and> ss_matches st = take (scan_capacity env q) found \<and>
          ss_total st = (if q_count_beyond_limit q then length found else scan_capacity env q)
      | Cancelled \<Rightarrow> \<exists>n. jb_cancelled job n
      | _ \<Rightarrow> False)"
    unfolding form scanned_def using out le kept cut same assms(4)
    by (cases c) (auto simp: no_results_def)
  also have "\<dots>"
  proof (cases "c = Cancelled")
    case False
    then have c: "c = ss_completeness st"
      by (auto simp: c_def split: if_splits)
    show ?thesis
    proof (cases "ss_stop st")
      case True
      with assms(3-6) c False le take_eq show ?thesis
        by (auto simp: broken_off_def)
    next
      case ran: False
      with assms(3,4,6) c show ?thesis
        by (auto simp: reported_def)
    qed
  next
    case True
    with assms(5,6) show ?thesis
      by (auto simp: c_def broken_off_def reported_def split: if_splits)
  qed
  finally show ?thesis .
qed

lemma scan_start_follows:
  assumes "pl_pattern pl \<noteq> []" "p = pl_pattern pl"
  shows "following pl [] [] [] (scan_start folded p)"
proof -
  have "take k p \<noteq> []" if "0 < k" for k
    using assms that by simp
  then have "longest_end p (length p - 1) [] 0"
    by (auto simp: longest_end_def)
  then show ?thesis
    using assms
    by (auto simp: following_def scan_start_def first_of_def ring_ok_def single_units_def reported_def
        batched_def BATCH_SIZE_def)
qed

lemma word_ok_units:
  assumes "fold_ok (pl_env pl)" "good (pl_source pl)" "length (snap_text (pl_source pl)) \<le> usize_max"
    "a \<le> b" "char_boundary (snap_text (pl_source pl)) a" "char_boundary (snap_text (pl_source pl)) b"
    "char_like (pl_env pl) folded (pl_pattern pl)"
    "word = (\<lambda>c d. pl_whole_word pl \<longrightarrow> whole_word (pl_env pl) (snap_text (pl_source pl)) c d)"
  shows "word_ok pl word (units (pl_env pl) folded a (sub a b (snap_text (pl_source pl))))"
proof -
  let ?t = "snap_text (pl_source pl)"
  have valid: "valid_utf8 ?t"
    using assms(2) by (simp add: good_def snap_text_def owned_valid)
  then have part: "valid_utf8 (sub a b ?t)"
    using assms(4-6) by (intro valid_utf8_sub)
  have "word_boundaries (pl_env pl) (pl_source pl) c d = Some (Some (whole_word (pl_env pl) ?t c d))"
    if "units (pl_env pl) folded a (sub a b ?t) = xs @ vs @ ys"
      "hit (pl_pattern pl) (\<lambda>i j. i = c \<and> j = d) vs" "length vs = length (pl_pattern pl)" for xs vs ys c d
  proof -
    note ends = hit_ends [OF assms(1) part assms(7) that]
    then obtain i j where "c = a + i" "d = a + j" "char_boundary (sub a b ?t) i" "char_boundary (sub a b ?t) j"
      by blast
    then have "char_boundary ?t c" "char_boundary ?t d"
      using char_boundary_inside [OF valid assms(4-6)] by simp_all
    then show ?thesis
      by (rule word_boundaries_text [OF assms(2) valid assms(3)])
  qed
  then show ?thesis
    by (auto simp: word_ok_def assms(8))
qed

lemma scan_pattern_result:
  assumes "fold_ok env" "good s" "length (snap_text s) \<le> usize_max" "char_like env (q_case q = Folded) p"
    "query_range s q = (a, b)" "a \<le> b" "char_boundary (snap_text s) a" "char_boundary (snap_text s) b"
    "snapshot_chunks s a b = Inr stack"
  shows "\<exists>out. scan_pattern env s q job p stack = Some out \<and> scanned env q job (all_matches env s q p) out"
proof -
  let ?folded = "q_case q = Folded" and ?t = "sub a b (snap_text s)"
  have p: "p \<noteq> []"
    using assms(4) by (simp add: char_like_def)
  obtain f where f: "prefix_table p = Some f" "table_upto p f (length p)"
    using prefix_table_ok [OF p] by blast
  define pl where "pl = \<lparr>pl_env = env, pl_source = s, pl_job = job, pl_pattern = p, pl_prefix = f,
    pl_capacity = scan_capacity env q, pl_whole_word = q_whole_word q, pl_beyond = q_count_beyond_limit q\<rparr>"
  have sel [simp]: "pl_env pl = env" "pl_source pl = s" "pl_job pl = job" "pl_pattern pl = p" "pl_prefix pl = f"
    "pl_capacity pl = scan_capacity env q" "pl_whole_word pl = q_whole_word q" "pl_beyond pl = q_count_beyond_limit q"
    by (simp_all add: pl_def)
  obtain ts where ts: "chunks_all stack = Inr ts" "list_all valid_utf8 ts" "concat ts = ?t"
    using snapshot_chunks_valid [OF assms(2,6-8)] assms(9) by auto
  let ?us = "units env ?folded a ?t" and ?st = "scan_start ?folded p"
  have loop: "scan_chunks pl ?folded ts a ?st = scan_units pl ?us ?st"
    using scan_chunks_units [of pl ts ?st ?folded a] assms(1) ts by (simp add: scan_start_def)
  have word: "word_ok pl (counts env s q) ?us"
    using word_ok_units [of pl a b ?folded "counts env s q"] assms(1-4,6-8) by (simp add: counts_def fun_eq_iff)
  have single: "\<exists>base. single_units base ([] @ ?us)" if "ss_mapping ?st = []"
    using that p single_plain_units by (auto simp: scan_start_def units_def split: if_splits)
  have plan: "plan_ok pl"
    using p f(2) by (simp add: plan_ok_def)
  have follow: "following pl [] [] [] ?st"
    by (rule scan_start_follows) (simp_all add: p)
  have word': "word_ok pl (counts env s q) ([] @ ?us)"
    unfolding append_Nil by (rule word)
  obtain st' some where run: "scan_units pl ?us ?st = Some st'"
    "prefix some (fst (foldl (feed p (counts env s q)) ([], []) ?us))"
    "if ss_stop st' then broken_off pl some st'
     else some = fst (foldl (feed p (counts env s q)) ([], []) ?us) \<and> reported pl some st' \<and> batched st'"
    using scan_units_result [OF plan follow single word', unfolded sel] by blast
  have valid: "valid_utf8 ?t"
    using assms(2,6-8) by (intro valid_utf8_sub) (auto simp: good_def snap_text_def owned_valid)
  have "fst (foldl (feed p (counts env s q)) ([], []) ?us) = occurrences p (counts env s q) ?us"
    using feed_occurrences [OF p fresh_Nil [OF p], of "counts env s q" "[]" ?us] by simp
  also have "\<dots> = all_matches env s q p"
    using occurrences_find_all [OF assms(1) valid assms(4), of "counts env s q" a] assms(5)
    by (simp add: all_matches_def)
  finally have found: "fst (foldl (feed p (counts env s q)) ([], []) ?us) = all_matches env s q p" .
  have "scanned env q job (all_matches env s q p) (finish_scan pl st')"
    using run(2,3) by (intro finish_scan_result) (auto simp: found broken_off_def split: if_splits)
  then show ?thesis
    using f(1) ts(1) loop run(1) assms(5)
    by (simp add: scan_pattern_def pl_def scan_capacity_def)
qed

end
