(* ===== verification/Search_Query.thy ===== *)
theory Search_Query
  imports Search_Scan
begin

text \<open>
  The pattern of a query: decoding and folding give well-formed, nonempty text, and the scan on every
  branch of its checks.
\<close>

section \<open>Decoding\<close>

lemma utf8_scalar_ascii: "unat b < 128 \<Longrightarrow> utf8_scalar [b]"
  by (simp add: utf8_scalar_def utf8_width_def word_less_nat_alt)

lemma hexadecimal_scalar: "hexadecimal n cs = Some (c, rest) \<Longrightarrow> utf8_scalar c"
  by (auto simp: hexadecimal_def bind_eq_Some_conv dest: char_from_u32_scalar)

lemma escape_scalar: "escape c cs = Some (d, rest) \<Longrightarrow> utf8_scalar d"
  by (auto simp: escape_def dest: hexadecimal_scalar intro!: utf8_scalar_ascii split: if_splits)

lemma hex_code_rest: "hex_code n cs code = Some (d, rest) \<Longrightarrow> set rest \<subseteq> set cs"
proof (induction n cs code rule: hex_code.induct)
  case (3 n c cs code)
  then show ?case
    by (fastforce simp: bind_eq_Some_conv)
qed auto

lemma escape_rest: "escape c cs = Some (d, rest) \<Longrightarrow> set rest \<subseteq> set cs"
  by (auto simp: escape_def hexadecimal_def bind_eq_Some_conv dest!: hex_code_rest split: if_splits)

lemma decode_chars_valid:
  "\<forall>c\<in>set cs. utf8_scalar c \<Longrightarrow> decode_chars cs = Some t \<Longrightarrow> valid_utf8 t \<and> (cs \<noteq> [] \<longrightarrow> t \<noteq> [])"
proof (induction cs arbitrary: t rule: decode_chars.induct)
  case (2 c cs)
  show ?case
  proof (cases "c = [92]")
    case False
    then obtain u where "decode_chars cs = Some u" "t = c @ u"
      using "2.prems"(2) by auto
    with "2.IH"(1) [OF False] "2.prems"(1) show ?thesis
      by (auto simp: valid_utf8_append utf8_scalar_valid dest: utf8_scalar_not_Nil)
  next
    case True
    then obtain e cs' d rest u where step: "cs = e # cs'" "escape e cs' = Some (d, rest)" "decode_chars rest = Some u" "t = d @ u"
      using "2.prems"(2) by (auto split: list.splits option.splits)
    have "\<forall>c\<in>set rest. utf8_scalar c"
      using escape_rest [OF step(2)] step(1) "2.prems"(1) by auto
    from "2.IH"(2) [of e cs' "(d, rest)" d rest, OF _ step(1,2) refl this step(3)] True
    have "valid_utf8 u"
      by simp
    with escape_scalar [OF step(2)] step(4) show ?thesis
      by (auto simp: valid_utf8_append utf8_scalar_valid dest: utf8_scalar_not_Nil)
  qed
qed simp

lemma decode_valid: "valid_utf8 s \<Longrightarrow> decode s = Some t \<Longrightarrow> valid_utf8 t \<and> (s \<noteq> [] \<longrightarrow> t \<noteq> [])"
  using decode_chars_valid [of "utf8_chars s" t] by (auto simp: decode_def dest: utf8_chars_scalar)

lemma fold_pattern_result:
  "fold_pattern env cs acc = Some t \<Longrightarrow> t = acc @ concat (map (fold_char env) cs)"
  by (induction cs arbitrary: acc) (fastforce simp: Let_def split: if_splits)+

text \<open>The pattern that the scan looks for.\<close>

lemma search_pattern_like:
  assumes "fold_ok env" "valid_utf8 (q_pattern q)" "search_pattern env q = Some p"
  shows "char_like env (q_case q = Folded) p"
proof -
  obtain t where t: "(if q_mode q = Extended then decode (q_pattern q) else Some (q_pattern q)) = Some t"
    "(if q_case q = Folded then fold_pattern env (utf8_chars t) [] else Some t) = Some p" "q_pattern q \<noteq> []"
    using assms(3) by (auto simp: search_pattern_def bind_eq_Some_conv split: if_splits)
  have valid: "valid_utf8 t" "t \<noteq> []"
    using t(1,3) decode_valid assms(2) by (auto split: if_splits)
  show ?thesis
  proof (cases "q_case q = Folded")
    case True
    then have p: "p = concat (map (fold_char env) (utf8_chars t))"
      using t(2) fold_pattern_result [of env "utf8_chars t" "[]" p] by simp
    have "utf8_chars t \<noteq> []" "\<forall>c\<in>set (utf8_chars t). fold_char env c \<noteq> []"
      using valid assms(1) by (auto dest: utf8_chars_scalar fold_char_ok)
    with p have "p \<noteq> []"
      by (cases "utf8_chars t") auto
    with True show ?thesis
      by (simp add: char_like_def)
  qed (use t(2) valid in \<open>simp add: char_like_def\<close>)
qed

section \<open>Every branch\<close>

lemma scan_result:
  assumes "fold_ok env" "good s" "length (snap_text s) \<le> usize_max" "sn_complete s" "valid_utf8 (q_pattern q)"
    "q_mode q \<noteq> Regex" "\<not> jb_cancelled job 0"
  shows "case search_pattern env q of
      None \<Rightarrow> scan env s q job = Some (no_results s job InvalidQuery, [])
    | Some p \<Rightarrow>
        (case query_range s q of (a, b) \<Rightarrow>
           if a \<le> b \<and> char_boundary (snap_text s) a \<and> char_boundary (snap_text s) b
           then \<exists>out. scan env s q job = Some out \<and> scanned env q job (all_matches env s q p) out
           else scan env s q job = Some (no_results s job InvalidQuery, []))"
proof (cases "search_pattern env q")
  case None
  with assms show ?thesis
    by (simp add: scan_def)
next
  case (Some p)
  note like = search_pattern_like [OF assms(1,5) Some]
  obtain a b where range: "query_range s q = (a, b)"
    by fastforce
  show ?thesis
  proof (cases "a \<le> b \<and> char_boundary (snap_text s) a \<and> char_boundary (snap_text s) b")
    case True
    then obtain stack where stack: "snapshot_chunks s a b = Inr stack"
      using snapshot_chunks_valid [OF assms(2), of a b] by blast
    with True Some range assms scan_pattern_result [OF assms(1-3) like range _ _ _ stack] show ?thesis
      by (simp add: scan_def)
  next
    case False
    then obtain err where "validate_range s a b = Inl err"
      using validate_range_iff [OF assms(2), of a b] by (cases "validate_range s a b") auto
    moreover from validate_range_errors [OF this] have "err \<noteq> Panicked"
      by auto
    ultimately have "snapshot_chunks s a b = Inl err" "err \<noteq> Panicked"
      by (simp_all add: snapshot_chunks_def)
    with False Some range assms show ?thesis
      by (auto simp: scan_def split: error.splits)
  qed
qed

end
