(* ===== verification/Replace.thy ===== *)
theory Replace
  imports Search
begin

text \<open>
  Replacing matches, crates/search/src/lib.rs and regex.rs: the template a replacement is decoded into,
  its expansion at a match, and the transaction that replaces the matches of a complete search within
  a limit on the staged text.
\<close>

section \<open>Templates\<close>

text \<open>\<open>ReplacePanicked\<close> is the model's value for a panic.\<close>

datatype replace_error =
    Incomplete
  | Stale
  | StagingLimit
  | ReplaceCancelled
  | NoMatch
  | InvalidReplacement
  | TooManyReplacements nat nat
  | ReplacePanicked

datatype template_piece = TextPiece "byte list" | Group nat | Named "byte list"

type_synonym template = "template_piece list"

definition plain_template :: "byte list \<Rightarrow> template" where
  "plain_template t = (if t = [] then [] else [TextPiece t])"

definition template_literal :: "template \<Rightarrow> byte list option" where
  "template_literal pieces =
     (case pieces of
        [] \<Rightarrow> Some []
      | [TextPiece t] \<Rightarrow> Some t
      | _ \<Rightarrow> None)"

definition digit_value :: "byte list \<Rightarrow> nat option" where
  "digit_value c =
     (case map unat c of
        [b] \<Rightarrow> if 48 \<le> b \<and> b \<le> 57 then Some (b - 48) else None
      | _ \<Rightarrow> None)"

definition push_digit :: "nat \<Rightarrow> nat \<Rightarrow> nat option" where
  "push_digit n d = Option.bind (checked_mul n 10) (\<lambda>n. checked_add n d)"

text \<open>The digits of a group reference, and what follows them.\<close>

fun group_number :: "nat \<Rightarrow> byte list list \<Rightarrow> replace_error + nat \<times> byte list list" where
  "group_number n [] = Inr (n, [])"
| "group_number n (c # cs) =
     (case digit_value c of
        None \<Rightarrow> Inr (n, c # cs)
      | Some d \<Rightarrow> and_then (ok_or InvalidReplacement (push_digit n d)) (\<lambda>n. group_number n cs))"

text \<open>A name in braces: the characters up to the closing one.\<close>

fun group_name :: "byte list list \<Rightarrow> byte list list \<Rightarrow> replace_error + byte list list \<times> byte list list" where
  "group_name name [] = Inl InvalidReplacement"
| "group_name name (c # cs) =
     (if c = [125] then Inr (name, cs)
      else if length (concat name) < MAX_PATTERN_BYTES then group_name (name @ [c]) cs
      else Inl InvalidReplacement)"

fun parse_usize :: "nat \<Rightarrow> byte list list \<Rightarrow> nat option" where
  "parse_usize n [] = Some n"
| "parse_usize n (c # cs) =
     Option.bind (digit_value c) (\<lambda>d. Option.bind (push_digit n d) (\<lambda>n. parse_usize n cs))"

definition name_piece :: "byte list list \<Rightarrow> replace_error + template_piece" where
  "name_piece name =
     (if name \<noteq> [] \<and> list_all (\<lambda>c. digit_value c \<noteq> None) name
      then and_then (ok_or InvalidReplacement (parse_usize 0 name)) (\<lambda>n. Inr (Group n))
      else Inr (Named (concat name)))"

text \<open>A reference after \<open>$\<close> or a backslash, if there is one: \<open>${name}\<close>, \<open>$+{name}\<close> or digits.\<close>

definition reference ::
  "byte list \<Rightarrow> byte list \<Rightarrow> byte list list \<Rightarrow> replace_error + (template_piece \<times> byte list list) option" where
  "reference c next_char cs =
     (if c = [36] \<and> (next_char = [123] \<or> next_char = [43]) then
        and_then
          (if next_char = [123] then Inr cs
           else case cs of d # ds \<Rightarrow> if d = [123] then Inr ds else Inl InvalidReplacement
                | [] \<Rightarrow> Inl InvalidReplacement) (\<lambda>cs.
        and_then (group_name [] cs) (\<lambda>(name, rest).
        and_then (name_piece name) (\<lambda>piece. Inr (Some (piece, rest)))))
      else
        case digit_value next_char of
          Some d \<Rightarrow> and_then (group_number d cs) (\<lambda>(n, rest). Inr (Some (Group n, rest)))
        | None \<Rightarrow> Inr None)"

definition template_escape :: "byte list \<Rightarrow> byte list \<Rightarrow> byte list option" where
  "template_escape c next_char =
     (if c = [36] \<and> next_char = [36] then Some [36]
      else if c \<noteq> [92] then None
      else if next_char = [92] then Some [92]
      else if next_char = [110] then Some [LF]
      else if next_char = [114] then Some [CR]
      else if next_char = [116] then Some [9]
      else None)"

definition flush_text :: "template \<Rightarrow> byte list \<Rightarrow> template" where
  "flush_text pieces t = (if t = [] then pieces else pieces @ [TextPiece t])"

lemma group_number_length: "group_number n cs = Inr (m, rest) \<Longrightarrow> length rest \<le> length cs"
  by (induction n cs rule: group_number.induct) (auto simp: and_then_Inr_iff intro: le_SucI split: option.splits)

lemma group_name_length: "group_name name cs = Inr (n, rest) \<Longrightarrow> length rest \<le> length cs"
  by (induction name cs rule: group_name.induct) (auto split: if_splits)

lemma reference_length: "reference c d cs = Inr (Some (piece, rest)) \<Longrightarrow> length rest \<le> length cs"
  by (auto simp: reference_def and_then_Inr_iff dest!: group_number_length group_name_length
      split: if_splits option.splits list.splits)

function parse_pieces :: "byte list list \<Rightarrow> template \<Rightarrow> byte list \<Rightarrow> replace_error + template" where
  "parse_pieces [] pieces t = Inr (flush_text pieces t)"
| "parse_pieces (c # cs) pieces t =
     (if c \<noteq> [36] \<and> c \<noteq> [92] then parse_pieces cs pieces (t @ c)
      else
        case cs of
          [] \<Rightarrow> Inl InvalidReplacement
        | d # ds \<Rightarrow>
            and_then (reference c d ds) (\<lambda>found.
              case found of
                Some (piece, rest) \<Rightarrow> parse_pieces rest (flush_text pieces t @ [piece]) []
              | None \<Rightarrow>
                  and_then (ok_or InvalidReplacement (template_escape c d)) (\<lambda>e.
                    parse_pieces ds pieces (t @ e))))"
  by pat_completeness auto
termination
  by (relation "measure (\<lambda>(cs, _). length cs)") (auto dest: reference_length)

definition parse_template :: "byte list \<Rightarrow> replace_error + template" where
  "parse_template t = parse_pieces (utf8_chars t) [] []"

definition decode_template :: "byte list \<Rightarrow> search_mode \<Rightarrow> replace_error + template" where
  "decode_template value mode =
     (case mode of
        Literal \<Rightarrow> Inr (plain_template value)
      | Extended \<Rightarrow> and_then (ok_or InvalidReplacement (decode value)) (\<lambda>t. Inr (plain_template t))
      | Regex \<Rightarrow> parse_template value)"

section \<open>Expansion\<close>

definition named_group :: "(byte list \<times> nat) list \<Rightarrow> range option list \<Rightarrow> byte list \<Rightarrow> nat option" where
  "named_group names captures name =
     (case List.find (\<lambda>(c, i). c = name \<and> i < length captures \<and> captures ! i \<noteq> None) names of
        Some (_, i) \<Rightarrow> Some i
      | None \<Rightarrow> map_option snd (List.find (\<lambda>(c, _). c = name) names))"

definition piece_group ::
  "(byte list \<times> nat) list \<Rightarrow> range option list \<Rightarrow> template_piece \<Rightarrow> replace_error + nat" where
  "piece_group names captures piece =
     (case piece of
        Group i \<Rightarrow> Inr i
      | Named name \<Rightarrow> ok_or InvalidReplacement (named_group names captures name)
      | TextPiece _ \<Rightarrow> Inr 0)"

definition expand_group ::
  "range option list \<Rightarrow> nat \<Rightarrow> (range \<Rightarrow> nat \<Rightarrow> replace_error + byte list) \<Rightarrow> byte list \<Rightarrow> nat \<Rightarrow>
   replace_error + byte list" where
  "expand_group captures limit read out i =
     (if i \<ge> length captures then Inl InvalidReplacement
      else
        case captures ! i of
          None \<Rightarrow> Inr out
        | Some r \<Rightarrow>
            let n = snd r - fst r in
            if snd r < fst r then Inl ReplacePanicked
            else if n > limit - length out then Inl StagingLimit
            else
              and_then (read r n) (\<lambda>t. if length t \<noteq> n then Inl Stale else Inr (out @ t)))"

fun expand_ranges ::
  "range option list \<Rightarrow> (byte list \<times> nat) list \<Rightarrow> nat \<Rightarrow> (range \<Rightarrow> nat \<Rightarrow> replace_error + byte list) \<Rightarrow>
   template \<Rightarrow> byte list \<Rightarrow> replace_error + byte list" where
  "expand_ranges captures names limit read [] out = Inr out"
| "expand_ranges captures names limit read (piece # pieces) out =
     and_then
       (case piece of
          TextPiece t \<Rightarrow> if length t > limit - length out then Inl StagingLimit else Inr (out @ t)
        | _ \<Rightarrow> and_then (piece_group names captures piece) (expand_group captures limit read out))
       (expand_ranges captures names limit read pieces)"

definition expand ::
  "template \<Rightarrow> range option list \<Rightarrow> (byte list \<times> nat) list \<Rightarrow> snapshot \<Rightarrow> nat \<Rightarrow> replace_error + byte list" where
  "expand pieces captures names s limit =
     expand_ranges captures names limit (\<lambda>r n.
       case snapshot_read s (fst r) (snd r) n of
         Inl Panicked \<Rightarrow> Inl ReplacePanicked
       | Inl _ \<Rightarrow> Inl Stale
       | Inr t \<Rightarrow> Inr t) pieces []"

section \<open>The transaction\<close>

datatype replace_scope = AllMatches | OneMatch range

function same_start :: "range list \<Rightarrow> range \<Rightarrow> nat \<Rightarrow> nat" where
  "same_start ms r i =
     (if i < length ms \<and> fst (ms ! i) = fst r \<and> ms ! i \<noteq> r then same_start ms r (i + 1) else i)"
  by auto
termination
  by (relation "measure (\<lambda>(ms, _, i). length ms - i)") auto

declare same_start.simps [simp del]

text \<open>The index of the first match in the scope, and the matches.\<close>

definition scope_matches :: "range list \<Rightarrow> replace_scope \<Rightarrow> replace_error + nat \<times> range list" where
  "scope_matches ms scope =
     (case scope of
        AllMatches \<Rightarrow> Inr (0, ms)
      | OneMatch r \<Rightarrow>
          let i = same_start ms r (partition_point (\<lambda>m. fst m < fst r) ms) in
          if i < length ms \<and> ms ! i = r then Inr (i, [r]) else Inl NoMatch)"

definition push_edit :: "edit list \<Rightarrow> edit \<Rightarrow> edit list" where
  "push_edit es e =
     (if es \<noteq> [] \<and> ed_end (last es) \<le> ed_start (last es) \<and> ed_start (last es) = ed_start e
      then butlast es @ [(last es)\<lparr>ed_end := ed_end e, ed_insert := ed_insert (last es) @ ed_insert e\<rparr>]
      else es @ [e])"

definition replacement_text ::
  "search_results \<Rightarrow> snapshot \<Rightarrow> template \<Rightarrow> nat \<Rightarrow> nat \<Rightarrow> replace_error + byte list" where
  "replacement_text r s pieces k limit =
     (case sr_captures r of
        Some captures \<Rightarrow>
          if k < length captures then expand pieces (captures ! k) (sr_names r) s limit
          else Inl ReplacePanicked
      | None \<Rightarrow>
          and_then (ok_or InvalidReplacement (template_literal pieces)) (\<lambda>t.
            if length t > limit then Inl StagingLimit else Inr t))"

fun stage_matches ::
  "search_env \<Rightarrow> search_results \<Rightarrow> snapshot \<Rightarrow> template \<Rightarrow> nat \<Rightarrow> search_job \<Rightarrow> bool \<Rightarrow> nat \<Rightarrow> nat \<Rightarrow>
   range list \<Rightarrow> nat \<Rightarrow> edit list \<Rightarrow> replace_error + edit list" where
  "stage_matches env r s pieces limit job with_inverse poll k [] used es =
     (if jb_cancelled job poll then Inl ReplaceCancelled else Inr es)"
| "stage_matches env r s pieces limit job with_inverse poll k (m # ms) used es =
     (if jb_cancelled job poll then Inl ReplaceCancelled
      else if with_inverse \<and> snd m < fst m then Inl ReplacePanicked
      else
        and_then
          (ok_or StagingLimit
            (Option.bind (checked_add used (if with_inverse then snd m - fst m else 0)) (\<lambda>n.
              checked_add n (se_edit_size env)))) (\<lambda>used.
          if used > limit then Inl StagingLimit
          else
            and_then (replacement_text r s pieces k (limit - used)) (\<lambda>t.
              stage_matches env r s pieces limit job with_inverse (poll + 1) (k + 1) ms (used + length t)
                (push_edit es \<lparr>ed_start = fst m, ed_end = snd m, ed_insert = t\<rparr>))))"

definition prepare_replace_ranges ::
  "search_env \<Rightarrow> search_results \<Rightarrow> snapshot \<Rightarrow> template \<Rightarrow> nat \<Rightarrow> replace_scope \<Rightarrow> search_job \<Rightarrow> bool \<Rightarrow>
   replace_error + transaction" where
  "prepare_replace_ranges env r s pieces staging_limit scope job with_inverse =
     (if sr_completeness r \<noteq> Complete then Inl Incomplete
      else if \<not> is_current r s then Inl Stale
      else if jb_cancelled job 0 then Inl ReplaceCancelled
      else
        and_then (scope_matches (sr_matches r) scope) (\<lambda>(k, ms).
          if ms = [] then Inl NoMatch
          else
            let limit = min staging_limit MAX_REPLACE_STAGING_BYTES in
            case checked_mul (length ms) (se_edit_size env) of
              None \<Rightarrow> Inl StagingLimit
            | Some bytes \<Rightarrow>
                if bytes > limit then Inl StagingLimit
                else
                  and_then (stage_matches env r s pieces limit job with_inverse 1 k ms 0 []) (\<lambda>es.
                    Inr \<lparr>tr_base = sn_revision s, tr_edits = es\<rparr>)))"

definition prepare_replace_scoped ::
  "search_env \<Rightarrow> search_results \<Rightarrow> snapshot \<Rightarrow> template \<Rightarrow> nat \<Rightarrow> replace_scope \<Rightarrow> search_job \<Rightarrow>
   replace_error + transaction" where
  "prepare_replace_scoped env r s pieces staging_limit scope job =
     prepare_replace_ranges env r s pieces staging_limit scope job True"

definition prepare_replace ::
  "search_env \<Rightarrow> search_results \<Rightarrow> snapshot \<Rightarrow> template \<Rightarrow> nat \<Rightarrow> replace_error + transaction" where
  "prepare_replace env r s pieces staging_limit =
     prepare_replace_scoped env r s pieces staging_limit AllMatches \<lparr>jb_id = 0, jb_cancelled = \<lambda>_. False\<rparr>"

end
