(* ===== verification/Search_Replace.thy ===== *)
theory Search_Replace
  imports Search_Query Replace Document_Properties
begin

text \<open>
  What replacing means for the text: the edits staged for the matches render as the matches replaced
  one by one, the expansion of a template is the concatenation of its pieces, and the matches of a scan
  are in order.
\<close>

section \<open>Expansion\<close>

definition group_ok :: "byte list \<Rightarrow> range option list \<Rightarrow> nat \<Rightarrow> bool" where
  "group_ok t captures i \<longleftrightarrow> i < length captures \<and>
     (case captures ! i of
        None \<Rightarrow> True
      | Some r \<Rightarrow> fst r \<le> snd r \<and> char_boundary t (fst r) \<and> char_boundary t (snd r))"

definition group_text :: "byte list \<Rightarrow> range option list \<Rightarrow> nat \<Rightarrow> byte list" where
  "group_text t captures i = (case captures ! i of None \<Rightarrow> [] | Some r \<Rightarrow> sub (fst r) (snd r) t)"

text \<open>The text of a piece at a match, and whether it has one.\<close>

fun resolves :: "byte list \<Rightarrow> range option list \<Rightarrow> (byte list \<times> nat) list \<Rightarrow> template_piece \<Rightarrow> bool" where
  "resolves t captures names (TextPiece u) = True"
| "resolves t captures names (Group i) = group_ok t captures i"
| "resolves t captures names (Named name) =
     (case named_group names captures name of None \<Rightarrow> False | Some i \<Rightarrow> group_ok t captures i)"

fun resolution :: "byte list \<Rightarrow> range option list \<Rightarrow> (byte list \<times> nat) list \<Rightarrow> template_piece \<Rightarrow> byte list" where
  "resolution t captures names (TextPiece u) = u"
| "resolution t captures names (Group i) = group_text t captures i"
| "resolution t captures names (Named name) =
     (case named_group names captures name of None \<Rightarrow> [] | Some i \<Rightarrow> group_text t captures i)"

definition expansion :: "byte list \<Rightarrow> range option list \<Rightarrow> (byte list \<times> nat) list \<Rightarrow> template \<Rightarrow> byte list" where
  "expansion t captures names pieces = concat (map (resolution t captures names) pieces)"

definition read_group :: "snapshot \<Rightarrow> range \<Rightarrow> nat \<Rightarrow> replace_error + byte list" where
  "read_group s r n =
     (case snapshot_read s (fst r) (snd r) n of
        Inl Panicked \<Rightarrow> Inl ReplacePanicked
      | Inl _ \<Rightarrow> Inl Stale
      | Inr t \<Rightarrow> Inr t)"

lemma expand_read: "expand pieces captures names s limit = expand_ranges captures names limit (read_group s) pieces []"
  by (simp add: expand_def read_group_def [abs_def])

lemma read_group_iff:
  assumes "good s" "fst r \<le> snd r"
  shows "read_group s r (snd r - fst r) = Inr t \<longleftrightarrow>
    char_boundary (snap_text s) (fst r) \<and> char_boundary (snap_text s) (snd r) \<and>
    t = sub (fst r) (snd r) (snap_text s)"
proof (cases "char_boundary (snap_text s) (fst r) \<and> char_boundary (snap_text s) (snd r)")
  case True
  then show ?thesis
    using snapshot_read_text [OF assms(1,2), of "snd r - fst r"] by (auto simp: read_group_def)
next
  case False
  then have "\<nexists>u. snapshot_read s (fst r) (snd r) (snd r - fst r) = Inr u"
    using validate_range_iff [OF assms(1), of "fst r" "snd r"]
    by (auto simp: snapshot_read_def and_then_Inr_iff)
  then obtain err where "snapshot_read s (fst r) (snd r) (snd r - fst r) = Inl err"
    by (cases "snapshot_read s (fst r) (snd r) (snd r - fst r)") auto
  with False show ?thesis
    by (auto simp: read_group_def split: error.splits)
qed

lemma length_group_sub:
  "char_boundary t b \<Longrightarrow> a \<le> b \<Longrightarrow> length (sub a b t) = b - a"
  by (auto simp: length_sub dest: char_boundary_le)

lemma expand_group_iff:
  assumes "good s" "length out \<le> limit"
  shows "expand_group captures limit (read_group s) out i = Inr out' \<longleftrightarrow>
    group_ok (snap_text s) captures i \<and> out' = out @ group_text (snap_text s) captures i \<and> length out' \<le> limit"
proof (cases "i < length captures")
  case True
  show ?thesis
  proof (cases "captures ! i")
    case None
    with True assms(2) show ?thesis
      by (auto simp: expand_group_def group_ok_def group_text_def)
  next
    case (Some r)
    show ?thesis
    proof (cases "fst r \<le> snd r")
      case le: True
      with True Some assms show ?thesis
        by (auto simp: expand_group_def group_ok_def group_text_def Let_def and_then_Inr_iff
            read_group_iff length_group_sub)
    qed (use True Some in \<open>auto simp: expand_group_def group_ok_def Let_def\<close>)
  qed
qed (simp add: expand_group_def group_ok_def)

lemma expand_ranges_iff:
  assumes "good s" "length out \<le> limit"
  shows "expand_ranges captures names limit (read_group s) pieces out = Inr out' \<longleftrightarrow>
    list_all (resolves (snap_text s) captures names) pieces \<and>
    out' = out @ expansion (snap_text s) captures names pieces \<and> length out' \<le> limit"
  using assms(2)
proof (induction pieces arbitrary: out)
  case (Cons piece pieces)
  define step where "step = (case piece of
      TextPiece t \<Rightarrow> if length t > limit - length out then Inl StagingLimit else Inr (out @ t)
    | _ \<Rightarrow> and_then (piece_group names captures piece) (expand_group captures limit (read_group s) out))"
  have step: "step = Inr mid \<longleftrightarrow>
      resolves (snap_text s) captures names piece \<and>
      mid = out @ resolution (snap_text s) captures names piece \<and> length mid \<le> limit" for mid
    using Cons.prems unfolding step_def
    by (cases piece)
      (auto simp: piece_group_def and_then_Inr_iff ok_or_Inr_iff expand_group_iff [OF assms(1)] split: option.splits)
  have "expand_ranges captures names limit (read_group s) (piece # pieces) out =
      and_then step (expand_ranges captures names limit (read_group s) pieces)"
    unfolding step_def expand_ranges.simps ..
  then have split: "expand_ranges captures names limit (read_group s) (piece # pieces) out = Inr out' \<longleftrightarrow>
      (\<exists>mid. step = Inr mid \<and> expand_ranges captures names limit (read_group s) pieces mid = Inr out')"
    by (simp only: and_then_Inr_iff)
  show ?case
    unfolding split step using Cons.IH [of "out @ resolution (snap_text s) captures names piece"]
    by (auto simp: expansion_def)
qed (auto simp: expansion_def)

lemma expand_iff:
  assumes "good s"
  shows "expand pieces captures names s limit = Inr out \<longleftrightarrow>
    list_all (resolves (snap_text s) captures names) pieces \<and>
    out = expansion (snap_text s) captures names pieces \<and> length out \<le> limit"
  using expand_ranges_iff [OF assms, of "[]" limit] by (simp add: expand_read)

text \<open>The texts of a decoded template are well formed.\<close>

definition valid_pieces :: "template \<Rightarrow> bool" where
  "valid_pieces pieces \<longleftrightarrow> (\<forall>u. TextPiece u \<in> set pieces \<longrightarrow> valid_utf8 u)"

lemma valid_group: "valid_utf8 t \<Longrightarrow> group_ok t captures i \<Longrightarrow> valid_utf8 (group_text t captures i)"
  by (auto simp: group_ok_def group_text_def intro: valid_utf8_sub split: option.splits)

lemma valid_expansion:
  assumes "valid_utf8 t" "valid_pieces pieces" "list_all (resolves t captures names) pieces"
  shows "valid_utf8 (expansion t captures names pieces)"
  using assms(2,3)
proof (induction pieces)
  case (Cons piece pieces)
  then have "valid_utf8 (resolution t captures names piece)"
    using valid_group [OF assms(1)] by (cases piece) (auto simp: valid_pieces_def split: option.splits)
  with Cons show ?case
    by (auto simp: expansion_def valid_utf8_append valid_pieces_def)
qed (simp add: expansion_def)

lemma group_number_rest: "group_number n cs = Inr (m, rest) \<Longrightarrow> set rest \<subseteq> set cs"
  by (induction n cs rule: group_number.induct) (auto simp: and_then_Inr_iff split: option.splits)

lemma group_name_rest: "group_name name cs = Inr (m, rest) \<Longrightarrow> set rest \<subseteq> set cs"
  by (induction name cs rule: group_name.induct) (auto split: if_splits)

lemma reference_rest: "reference c d cs = Inr (Some (piece, rest)) \<Longrightarrow> set rest \<subseteq> set cs \<and> (\<forall>u. piece \<noteq> TextPiece u)"
  by (fastforce simp: reference_def name_piece_def and_then_Inr_iff dest!: group_number_rest group_name_rest
      split: if_splits option.splits list.splits)

lemma template_escape_valid: "template_escape c d = Some e \<Longrightarrow> valid_utf8 e"
  by (auto simp: template_escape_def intro!: utf8_scalar_valid utf8_scalar_ascii split: if_splits)

lemma valid_flush: "valid_pieces pieces \<Longrightarrow> valid_utf8 t \<Longrightarrow> valid_pieces (flush_text pieces t)"
  by (auto simp: valid_pieces_def flush_text_def)

lemma parse_pieces_valid:
  "\<forall>c\<in>set cs. utf8_scalar c \<Longrightarrow> valid_pieces pieces \<Longrightarrow> valid_utf8 t \<Longrightarrow> parse_pieces cs pieces t = Inr ps \<Longrightarrow>
   valid_pieces ps"
proof (induction cs pieces t rule: parse_pieces.induct)
  case (1 pieces t)
  then show ?case
    using valid_flush by auto
next
  case (2 c cs pieces t)
  show ?case
  proof (cases "c \<noteq> [36] \<and> c \<noteq> [92]")
    case True
    with 2 show ?thesis
      by (simp add: valid_utf8_append utf8_scalar_valid)
  next
    case False
    then obtain d ds found where step: "cs = d # ds" "reference c d ds = Inr found"
      using "2.prems"(4) by (auto simp: and_then_Inr_iff split: list.splits)
    show ?thesis
    proof (cases found)
      case (Some pr)
      then obtain piece rest where pr: "found = Some (piece, rest)"
        by (cases pr) auto
      with step(2) have rest: "set rest \<subseteq> set ds" "\<forall>u. piece \<noteq> TextPiece u"
        using reference_rest by simp_all
      then have "valid_pieces (flush_text pieces t @ [piece])"
        using valid_flush [OF "2.prems"(2,3)] by (auto simp: valid_pieces_def)
      moreover have "\<forall>c\<in>set rest. utf8_scalar c"
        using rest(1) step(1) "2.prems"(1) by auto
      ultimately show ?thesis
        using "2.IH"(3) [OF False step pr refl] "2.prems"(4) False step pr by (simp add: and_then_Inr_iff)
    next
      case None
      with step False "2.prems"(4) obtain e where e: "template_escape c d = Some e" "parse_pieces ds pieces (t @ e) = Inr ps"
        by (auto simp: and_then_Inr_iff ok_or_Inr_iff)
      then have "valid_utf8 (t @ e)"
        using template_escape_valid "2.prems"(3) by (simp add: valid_utf8_append)
      with "2.IH"(2) [OF False step None, of e] e step(1) "2.prems"(1,2) show ?thesis
        by simp
    qed
  qed
qed

lemma decode_template_valid:
  assumes "valid_utf8 v" "decode_template v mode = Inr pieces"
  shows "valid_pieces pieces"
proof (cases mode)
  case Regex
  with assms have "parse_pieces (utf8_chars v) [] [] = Inr pieces"
    by (simp add: decode_template_def parse_template_def)
  with parse_pieces_valid [of "utf8_chars v" "[]" "[]" pieces] utf8_chars_scalar [OF assms(1)] show ?thesis
    by (simp add: valid_pieces_def)
next
  case Extended
  with assms obtain t where "decode v = Some t" "pieces = plain_template t"
    by (auto simp: decode_template_def and_then_Inr_iff ok_or_Inr_iff)
  with decode_valid [OF assms(1)] show ?thesis
    by (simp add: plain_template_def valid_pieces_def)
qed (use assms in \<open>auto simp: decode_template_def plain_template_def valid_pieces_def split: if_splits\<close>)

section \<open>The edits of the matches\<close>

text \<open>Matches in order: none overlaps the next, and only an empty one may start where the next does.\<close>

fun in_order :: "byte list \<Rightarrow> range option \<Rightarrow> range list \<Rightarrow> bool" where
  "in_order t previous [] = True"
| "in_order t previous (m # ms) =
     (fst m \<le> snd m \<and> char_boundary t (fst m) \<and> char_boundary t (snd m) \<and>
      (case previous of None \<Rightarrow> True | Some p \<Rightarrow> snd p \<le> fst m \<and> p \<noteq> m) \<and> in_order t (Some m) ms)"

definition match_edits :: "range list \<Rightarrow> byte list list \<Rightarrow> edit list" where
  "match_edits ms ts = map2 (\<lambda>m t. \<lparr>ed_start = fst m, ed_end = snd m, ed_insert = t\<rparr>) ms ts"

lemma match_edits_simps [simp]:
  "match_edits [] ts = []"
  "match_edits (m # ms) (t # ts) = \<lparr>ed_start = fst m, ed_end = snd m, ed_insert = t\<rparr> # match_edits ms ts"
  by (simp_all add: match_edits_def)

text \<open>What the matches are replaced by, when the code does not refuse.\<close>

definition match_texts :: "search_results \<Rightarrow> snapshot \<Rightarrow> template \<Rightarrow> nat \<Rightarrow> nat \<Rightarrow> byte list list \<Rightarrow> bool" where
  "match_texts r s pieces k n ts \<longleftrightarrow>
     length ts = n \<and> (\<forall>i<n. \<exists>limit. replacement_text r s pieces (k + i) limit = Inr (ts ! i))"

lemma stage_matches_pushed:
  "stage_matches env r s pieces limit job with_inverse poll k ms used es = Inr es' \<Longrightarrow>
   \<exists>ts. match_texts r s pieces k (length ms) ts \<and> es' = foldl push_edit es (match_edits ms ts)"
proof (induction ms arbitrary: poll k used es)
  case (Cons m ms)
  then obtain t used' lim where step: "replacement_text r s pieces k lim = Inr t"
    "stage_matches env r s pieces limit job with_inverse (poll + 1) (k + 1) ms used'
       (push_edit es \<lparr>ed_start = fst m, ed_end = snd m, ed_insert = t\<rparr>) = Inr es'"
    by (auto simp: and_then_Inr_iff split: if_splits)
  from Cons.IH [OF step(2)] obtain ts where ts: "match_texts r s pieces (k + 1) (length ms) ts"
    "es' = foldl push_edit (push_edit es \<lparr>ed_start = fst m, ed_end = snd m, ed_insert = t\<rparr>) (match_edits ms ts)"
    by auto
  have "\<exists>limit. replacement_text r s pieces (k + i) limit = Inr ((t # ts) ! i)" if "i < length (m # ms)" for i
    using ts(1) step(1) that by (cases i) (auto simp: match_texts_def)
  with ts show ?case
    by (intro exI [of _ "t # ts"]) (simp add: match_texts_def)
qed (auto simp: match_texts_def split: if_splits)

lemma accepted_snoc:
  "accepted t previous (es @ [e]) \<longleftrightarrow>
     accepted t previous es \<and> valid_step t (if es = [] then previous else Some (last es)) e"
  by (induction es arbitrary: previous) auto

text \<open>The last edit staged so far is that of the last match, joined with an empty one before it.\<close>

definition staged_upto :: "byte list \<Rightarrow> edit list \<Rightarrow> range option \<Rightarrow> bool" where
  "staged_upto t es previous \<longleftrightarrow> accepted t None es \<and>
     (case previous of
        None \<Rightarrow> es = []
      | Some p \<Rightarrow> es \<noteq> [] \<and> ed_start (last es) = fst p \<and> ed_end (last es) = snd p)"

lemma push_edit_staged:
  assumes "staged_upto t es previous" "in_order t previous [m]"
  shows "staged_upto t (push_edit es \<lparr>ed_start = fst m, ed_end = snd m, ed_insert = u\<rparr>) (Some m)" (is ?staged)
    "render 0 t (push_edit es \<lparr>ed_start = fst m, ed_end = snd m, ed_insert = u\<rparr> @ fs) =
       render 0 t (es @ \<lparr>ed_start = fst m, ed_end = snd m, ed_insert = u\<rparr> # fs)" (is ?render)
proof -
  let ?e = "\<lparr>ed_start = fst m, ed_end = snd m, ed_insert = u\<rparr>"
  show ?staged ?render
  proof (atomize (full), cases "es \<noteq> [] \<and> ed_end (last es) \<le> ed_start (last es) \<and> ed_start (last es) = fst m")
    case True
    define ys l l' where "ys = butlast es" and "l = last es"
      and "l' = l\<lparr>ed_end := snd m, ed_insert := ed_insert l @ u\<rparr>"
    have es: "es = ys @ [l]" "push_edit es ?e = ys @ [l']"
      using True by (simp_all add: push_edit_def ys_def l_def l'_def)
    have l: "ed_start l = fst m" "ed_end l \<le> ed_start l"
      using True by (simp_all add: l_def)
    have "accepted t None ys" "valid_step t (if ys = [] then None else Some (last ys)) l"
      using assms(1) es(1) accepted_snoc by (simp_all add: staged_upto_def)
    then have "ed_end l = fst m"
      using l by (simp add: valid_step_def)
    have "accepted t None (ys @ [l'])"
      using \<open>accepted t None ys\<close> \<open>valid_step t _ l\<close> assms(2) l by (auto simp: accepted_snoc valid_step_def l'_def split: option.splits)
    moreover have "render 0 t (ys @ l' # fs) = render 0 t (ys @ l # ?e # fs)"
      by (rule render_join) (use l \<open>ed_end l = fst m\<close> in \<open>simp_all add: l'_def\<close>)
    ultimately show "?staged \<and> ?render"
      using l(1) unfolding es(2) by (simp add: es(1) staged_upto_def l'_def)
  next
    case False
    then have "push_edit es ?e = es @ [?e]"
      by (auto simp: push_edit_def)
    moreover have "accepted t None (es @ [?e])"
      using False assms by (cases m) (auto simp: staged_upto_def accepted_snoc valid_step_def split: option.splits)
    ultimately show "?staged \<and> ?render"
      by (simp add: staged_upto_def)
  qed
qed

lemma pushed_accepted:
  "staged_upto t es previous \<Longrightarrow> in_order t previous ms \<Longrightarrow> length us = length ms \<Longrightarrow>
   accepted t None (foldl push_edit es (match_edits ms us)) \<and>
   render 0 t (foldl push_edit es (match_edits ms us)) = render 0 t (es @ match_edits ms us)"
proof (induction ms arbitrary: es previous us)
  case Nil
  then show ?case
    by (simp add: staged_upto_def)
next
  case (Cons m ms)
  then obtain u vs where us: "us = u # vs" "length vs = length ms"
    by (cases us) auto
  have "in_order t previous [m]"
    using Cons.prems(2) by simp
  note staged = push_edit_staged [OF Cons.prems(1) this]
  show ?case
    using Cons.IH [OF staged(1), of vs u] Cons.prems(2) us staged(2) by simp
qed

lemma push_edit_valid: "inserts_valid es \<Longrightarrow> valid_utf8 (ed_insert e) \<Longrightarrow> inserts_valid (push_edit es e)"
  by (cases es rule: rev_cases) (auto simp: push_edit_def valid_utf8_append)

lemma pushed_valid:
  "inserts_valid es \<Longrightarrow> list_all valid_utf8 us \<Longrightarrow> inserts_valid (foldl push_edit es (match_edits ms us))"
proof (induction ms arbitrary: es us)
  case (Cons m ms)
  then show ?case
    by (cases us) (auto simp: push_edit_valid match_edits_def)
qed simp

section \<open>The document\<close>

lemma prepare_replace_edits:
  assumes "prepare_replace_ranges env r s pieces limit scope job with_inverse = Inr tr"
  obtains k ms us where "sr_completeness r = Complete" "is_current r s" "scope_matches (sr_matches r) scope = Inr (k, ms)"
    "match_texts r s pieces k (length ms) us" "ms \<noteq> []"
    "tr = \<lparr>tr_base = sn_revision s, tr_edits = foldl push_edit [] (match_edits ms us)\<rparr>"
proof -
  from assms obtain k ms es where "sr_completeness r = Complete" "is_current r s"
    "scope_matches (sr_matches r) scope = Inr (k, ms)"
    "stage_matches env r s pieces (min limit MAX_REPLACE_STAGING_BYTES) job with_inverse 1 k ms 0 [] = Inr es"
    "ms \<noteq> []" "tr = \<lparr>tr_base = sn_revision s, tr_edits = es\<rparr>"
    by (auto simp: prepare_replace_ranges_def and_then_Inr_iff Let_def split: if_splits option.splits)
  with stage_matches_pushed show thesis
    by (metis that)
qed

lemma replace_applies:
  assumes "env_ok env" "doc_ok (slot_of env) d" "in_order (snap_text (d_current d)) None ms"
    "length us = length ms" "list_all valid_utf8 us"
    "tr = \<lparr>tr_base = sn_revision (d_current d), tr_edits = foldl push_edit [] (match_edits ms us)\<rparr>"
  shows "case apply_transaction env tr w d of
      (Inr revision, w', d') \<Rightarrow>
        doc_ok (slot_of env) d' \<and> revision = sn_revision (d_current d') \<and>
        snap_text (d_current d') = render 0 (snap_text (d_current d)) (match_edits ms us)
    | (Inl err, w', d') \<Rightarrow> err = BudgetExceeded \<or> err = RevisionOverflow"
proof -
  have "staged_upto (snap_text (d_current d)) [] None"
    by (simp add: staged_upto_def)
  from pushed_accepted [OF this assms(3,4)] pushed_valid [OF _ assms(5), of "[]" ms]
  have edits: "inserts_valid (tr_edits tr)" "tr_base tr = sn_revision (d_current d)"
    "accepted (snap_text (d_current d)) None (tr_edits tr)"
    and rendered: "render 0 (snap_text (d_current d)) (tr_edits tr) = render 0 (snap_text (d_current d)) (match_edits ms us)"
    by (simp_all add: assms(6))
  show ?thesis
    by (rule apply_accepted [OF assms(1,2) edits, unfolded rendered])
qed

section \<open>The matches of a scan\<close>

lemma char_boundary_split:
  assumes "\<forall>i\<le>length cs. char_boundary t (pos + length (concat (take i cs)))" "j \<le> length cs" "i \<le> length (drop j cs)"
  shows "char_boundary t (pos + length (concat (take j cs)) + length (concat (take i (drop j cs))))"
proof -
  have "char_boundary t (pos + length (concat (take (j + i) cs)))"
    using assms by auto
  then show ?thesis
    by (simp only: take_add concat_append length_append add.assoc)
qed

text \<open>Nonempty ranges in order from a position on.\<close>

definition laid_out :: "byte list \<Rightarrow> nat \<Rightarrow> range list \<Rightarrow> bool" where
  "laid_out t pos ms \<longleftrightarrow>
     (\<forall>m\<in>set ms. pos \<le> fst m \<and> fst m < snd m) \<and>
     (\<forall>previous. (case previous of None \<Rightarrow> True | Some q \<Rightarrow> snd q \<le> pos \<and> fst q < pos) \<longrightarrow> in_order t previous ms)"

lemma laid_out_le: "laid_out t pos ms \<Longrightarrow> pos' \<le> pos \<Longrightarrow> laid_out t pos' ms"
  unfolding laid_out_def by (fastforce split: option.splits)

lemma laid_out_Cons:
  "pos < e \<Longrightarrow> char_boundary t pos \<Longrightarrow> char_boundary t e \<Longrightarrow> laid_out t e ms \<Longrightarrow> laid_out t pos ((pos, e) # ms)"
  unfolding laid_out_def by (fastforce split: option.splits)

lemma find_all_laid_out:
  assumes "p \<noteq> []"
  shows "\<forall>c\<in>set cs. c \<noteq> [] \<Longrightarrow> \<forall>i\<le>length cs. char_boundary t (pos + length (concat (take i cs))) \<Longrightarrow>
    laid_out t pos (find_all f p word pos cs)"
  using assms
proof (induction f p word pos cs rule: find_all.induct)
  case (2 f p word pos c cs)
  note bounds = char_boundary_split [OF "2.prems"(2)]
  have rest: "\<forall>i\<le>length cs. char_boundary t (pos + length c + length (concat (take i cs)))" "\<forall>d\<in>set cs. d \<noteq> []" "0 < length c"
    using bounds [of 1] "2.prems"(1) by simp_all
  show ?case
  proof (cases "covers f p (c # cs)")
    case None
    from laid_out_le [OF "2.IH"(1) [OF None rest(2,1) "2.prems"(3)], of pos] None show ?thesis
      by simp
  next
    case (Some n)
    define e where "e = pos + length (concat (take n (c # cs)))"
    have n: "0 < n" "n \<le> length (c # cs)"
      using covers_pos [OF Some "2.prems"(3)] covers_Some [OF Some] by simp_all
    then have ahead: "pos < e" "drop n (c # cs) = drop (n - 1) cs"
      using rest(3) by (cases n; simp add: e_def)+
    show ?thesis
    proof (cases "word pos e")
      case True
      have "\<forall>i\<le>length (drop (n - 1) cs). char_boundary t (e + length (concat (take i (drop (n - 1) cs))))"
        using bounds [OF n(2)] ahead(2) by (simp add: e_def)
      moreover have "\<forall>d\<in>set (drop (n - 1) cs). d \<noteq> []"
        using rest(2) by (auto dest: in_set_dropD)
      ultimately have "laid_out t e (find_all f p word e (drop (n - 1) cs))"
        using "2.IH"(2) [OF Some e_def True] "2.prems"(3) by blast
      moreover have "char_boundary t pos" "char_boundary t e"
        using bounds [of 0 0] bounds [OF n(2), of 0] by (simp_all add: e_def)
      ultimately have "laid_out t pos ((pos, e) # find_all f p word e (drop (n - 1) cs))"
        by (intro laid_out_Cons ahead(1))
      moreover have "find_all f p word pos (c # cs) = (pos, e) # find_all f p word e (drop (n - 1) cs)"
        using Some True by (simp add: e_def Let_def del: covers.simps take_Cons_numeral)
      ultimately show ?thesis
        by simp
    next
      case False
      have "find_all f p word pos (c # cs) = find_all f p word (pos + length c) cs"
        using Some False by (simp add: e_def Let_def del: covers.simps)
      with laid_out_le [OF "2.IH"(3) [OF Some e_def False rest(2,1) "2.prems"(3)], of pos] show ?thesis
        by simp
    qed
  qed
qed (auto simp: laid_out_def)

section \<open>The reference for replacing\<close>

function replaced ::
  "(byte list \<Rightarrow> byte list) \<Rightarrow> byte list \<Rightarrow> (nat \<Rightarrow> nat \<Rightarrow> bool) \<Rightarrow> byte list \<Rightarrow> nat \<Rightarrow> byte list list \<Rightarrow> byte list" where
  "replaced f p word u pos [] = []"
| "replaced f p word u pos (c # cs) =
     (case covers f p (c # cs) of
        Some n \<Rightarrow>
          let e = pos + length (concat (take n (c # cs))) in
          if word pos e then u @ replaced f p word u e (drop (n - 1) cs)
          else c @ replaced f p word u (pos + length c) cs
      | None \<Rightarrow> c @ replaced f p word u (pos + length c) cs)"
  by pat_completeness auto
termination
  by (relation "measure (\<lambda>(_, _, _, _, _, cs). length cs)") auto

definition edits_to :: "byte list \<Rightarrow> range list \<Rightarrow> edit list" where
  "edits_to u = map (\<lambda>m. \<lparr>ed_start = fst m, ed_end = snd m, ed_insert = u\<rparr>)"

lemma match_edits_replicate: "match_edits ms (replicate (length ms) u) = edits_to u ms"
  by (induction ms) (simp_all add: edits_to_def)

lemma render_gap:
  assumes "laid_out t pos' ms" "pos \<le> pos'" "pos' \<le> length t"
  shows "render pos t (edits_to u ms) = sub pos pos' t @ render pos' t (edits_to u ms)"
proof (cases ms)
  case Nil
  with assms(2,3) show ?thesis
    using sub_split [of pos pos' "length t" t] by (simp add: edits_to_def sub_to_end)
next
  case (Cons m ms)
  with assms have "pos' \<le> fst m"
    by (simp add: laid_out_def)
  with Cons assms(2) show ?thesis
    using sub_split [of pos pos' "fst m" t] by (simp add: edits_to_def)
qed

lemma render_find_all:
  assumes "p \<noteq> []" "valid_utf8 t"
  shows "\<forall>c\<in>set cs. c \<noteq> [] \<Longrightarrow> \<forall>i\<le>length cs. char_boundary t (pos + length (concat (take i cs))) \<Longrightarrow>
    drop pos t = concat cs @ post \<Longrightarrow>
    render pos t (edits_to u (find_all f p word pos cs)) = replaced f p word u pos cs @ post"
  using assms(1)
proof (induction f p word u pos cs rule: replaced.induct)
  case (1 f p word u pos)
  then show ?case
    by (simp add: edits_to_def)
next
  case (2 f p word u pos c cs)
  note bounds = char_boundary_split [OF "2.prems"(2)]
  have rest: "\<forall>i\<le>length cs. char_boundary t (pos + length c + length (concat (take i cs)))" "\<forall>d\<in>set cs. d \<noteq> []"
    using bounds [of 1] "2.prems"(1) by simp_all
  have "drop (pos + length c) t = drop (length c) (drop pos t)"
    by (simp add: add.commute)
  then have after: "drop (pos + length c) t = concat cs @ post" "sub pos (pos + length c) t = c"
    by (simp_all add: "2.prems"(3) sub_def)
  have "char_boundary t (pos + length c)"
    using rest(1) by (auto dest: spec [of _ 0])
  note skip = render_gap [OF find_all_laid_out [OF "2.prems"(4) rest(2,1)], of pos, unfolded after(2)]
  show ?case
  proof (cases "covers f p (c # cs)")
    case None
    from "2.IH"(1) [OF None rest(2,1) after(1) "2.prems"(4)] None skip char_boundary_le [OF \<open>char_boundary t (pos + length c)\<close>]
    show ?thesis
      by simp
  next
    case (Some n)
    define e where "e = pos + length (concat (take n (c # cs)))"
    have n: "0 < n" "n \<le> length (c # cs)"
      using covers_pos [OF Some "2.prems"(4)] covers_Some [OF Some] by simp_all
    then have ahead: "drop n (c # cs) = drop (n - 1) cs"
      by (cases n) simp_all
    show ?thesis
    proof (cases "word pos e")
      case True
      have "\<forall>i\<le>length (drop (n - 1) cs). char_boundary t (e + length (concat (take i (drop (n - 1) cs))))"
        using bounds [OF n(2)] ahead by (simp add: e_def)
      moreover have "\<forall>d\<in>set (drop (n - 1) cs). d \<noteq> []"
        using rest(2) by (auto dest: in_set_dropD)
      moreover have "drop e t = concat (drop (n - 1) cs) @ post"
      proof -
        have "concat (c # cs) = concat (take n (c # cs)) @ concat (drop n (c # cs))"
          by (metis append_take_drop_id concat_append)
        then have "drop pos t = concat (take n (c # cs)) @ concat (drop (n - 1) cs) @ post"
          using "2.prems"(3) ahead by simp
        then have "drop (length (concat (take n (c # cs)))) (drop pos t) = concat (drop (n - 1) cs) @ post"
          by simp
        then show ?thesis
          by (simp add: e_def add.commute)
      qed
      ultimately have "render e t (edits_to u (find_all f p word e (drop (n - 1) cs))) =
          replaced f p word u e (drop (n - 1) cs) @ post"
        using "2.IH"(2) [OF Some e_def True] "2.prems"(4) by blast
      then show ?thesis
        using Some True by (simp add: e_def Let_def edits_to_def del: covers.simps)
    next
      case False
      from "2.IH"(3) [OF Some e_def False rest(2,1) after(1) "2.prems"(4)] skip Some False
        char_boundary_le [OF \<open>char_boundary t (pos + length c)\<close>]
      show ?thesis
        by (simp add: e_def Let_def del: covers.simps)
    qed
  qed
qed

text \<open>The text of a snapshot with the matches of a query replaced.\<close>

definition replaced_text :: "search_env \<Rightarrow> snapshot \<Rightarrow> search_query \<Rightarrow> byte list \<Rightarrow> byte list \<Rightarrow> byte list" where
  "replaced_text env s q p u =
     (let (a, b) = query_range s q; t = snap_text s in
      take a t @
      replaced (folding env (q_case q = Folded)) p (counts env s q) u a (utf8_chars (sub a b t)) @
      drop b t)"

lemma all_matches_replaced:
  assumes "valid_utf8 (snap_text s)" "p \<noteq> []" "query_range s q = (a, b)" "a \<le> b"
    "char_boundary (snap_text s) a" "char_boundary (snap_text s) b"
  shows "laid_out (snap_text s) 0 (all_matches env s q p)"
    "render 0 (snap_text s) (edits_to u (all_matches env s q p)) = replaced_text env s q p u"
proof -
  let ?t = "snap_text s" and ?cs = "utf8_chars (sub a b (snap_text s))"
  let ?found = "find_all (folding env (q_case q = Folded)) p (counts env s q) a ?cs"
  have valid: "valid_utf8 (sub a b ?t)"
    using assms valid_utf8_sub by blast
  then have cs: "\<forall>c\<in>set ?cs. c \<noteq> []" "concat ?cs = sub a b ?t"
    by (auto dest: utf8_chars_scalar utf8_scalar_not_Nil)
  have bounds: "\<forall>i\<le>length ?cs. char_boundary ?t (a + length (concat (take i ?cs)))"
    using char_boundary_inside [OF assms(1,4-6) char_boundary_chars [OF valid]] by blast
  have "a \<le> length ?t"
    using assms(5) by (rule char_boundary_le)
  have "drop a ?t = concat ?cs @ drop b ?t"
    using take_sub_drop [OF assms(4), of ?t] \<open>a \<le> length ?t\<close> cs(2)
    by (metis append_eq_conv_conj length_take min.absorb2)
  from render_find_all [OF assms(2,1) cs(1) bounds this, of u "folding env (q_case q = Folded)" "counts env s q"]
  have "render a ?t (edits_to u ?found) =
      replaced (folding env (q_case q = Folded)) p (counts env s q) u a ?cs @ drop b ?t"
    by simp
  moreover note laid = find_all_laid_out [OF assms(2) cs(1) bounds, of "folding env (q_case q = Folded)" "counts env s q"]
  ultimately show "render 0 ?t (edits_to u (all_matches env s q p)) = replaced_text env s q p u"
    using render_gap [OF laid, of 0 u] \<open>a \<le> length ?t\<close> assms(3)
    by (simp add: all_matches_def replaced_text_def sub_0_take Let_def)
  show "laid_out ?t 0 (all_matches env s q p)"
    using laid_out_le [OF laid, of 0] assms(3) by (simp add: all_matches_def)
qed

lemma finish_source: "sr_source (fst (finish_scan pl st)) = pl_source pl \<and> sr_job (fst (finish_scan pl st)) = jb_id (pl_job pl)"
  by (simp add: finish_scan_def no_results_def Let_def)

lemma scan_pattern_source:
  assumes "scan_pattern env s q job p stack = Some out"
  shows "sr_source (fst out) = s \<and> sr_job (fst out) = jb_id job"
proof -
  from assms obtain pl st where "out = finish_scan pl st" "pl_source pl = s" "pl_job pl = job"
    by (cases "chunks_all stack") (auto simp: scan_pattern_def bind_eq_Some_conv Let_def)
  with finish_source [of pl st] show ?thesis
    by simp
qed

lemma scan_source:
  assumes "scan env s q job = Some (r, batches)" "q_mode q \<noteq> Regex"
  shows "sr_source r = s \<and> sr_job r = jb_id job"
  using assms scan_pattern_source [of env s q job _ _ "(r, batches)"]
  by (auto simp: scan_def no_results_def split: if_splits option.splits sum.splits error.splits)

lemma scan_complete:
  assumes "fold_ok env" "good s" "length (snap_text s) \<le> usize_max" "valid_utf8 (q_pattern q)" "q_mode q \<noteq> Regex"
    "scan env s q job = Some (r, batches)" "sr_completeness r = Complete"
  obtains p a b where "search_pattern env q = Some p" "p \<noteq> []" "query_range s q = (a, b)" "a \<le> b"
    "char_boundary (snap_text s) a" "char_boundary (snap_text s) b"
    "sr_matches r = all_matches env s q p" "sr_captures r = None"
proof -
  have run: "\<not> jb_cancelled job 0" "sn_complete s"
    using assms(5-7) by (auto simp: scan_def no_results_def split: if_splits)
  note result = scan_result [OF assms(1-3) run(2) assms(4,5) run(1)]
  obtain p where p: "search_pattern env q = Some p"
    using result assms(6,7) by (cases "search_pattern env q") (auto simp: no_results_def)
  obtain a b where range: "query_range s q = (a, b)"
    by fastforce
  have "a \<le> b \<and> char_boundary (snap_text s) a \<and> char_boundary (snap_text s) b"
    using result p range assms(6,7) by (auto simp: no_results_def split: if_splits)
  moreover from this have "scanned env q job (all_matches env s q p) (r, batches)"
    using result p range assms(6) by auto
  moreover have "p \<noteq> []"
    using search_pattern_like [OF assms(1,4) p] by (simp add: char_like_def)
  ultimately show thesis
    using that p range assms(7) by (auto simp: scanned_def)
qed

lemma scope_matches_One:
  assumes "scope_matches ms (OneMatch rg) = Inr (k, ms')"
  shows "rg \<in> set ms \<and> ms' = [rg]"
  using assms by (auto simp: scope_matches_def Let_def split: if_splits)

lemma in_order_member: "in_order t previous ms \<Longrightarrow> m \<in> set ms \<Longrightarrow> in_order t None [m]"
  by (induction ms arbitrary: previous) auto

lemma scope_in_order:
  assumes "scope_matches ms scope = Inr (k, ms')" "in_order t None ms"
  shows "in_order t None ms'"
proof (cases scope)
  case (OneMatch rg)
  with assms scope_matches_One in_order_member show ?thesis
    by blast
qed (use assms in \<open>simp add: scope_matches_def\<close>)

lemma match_texts_literal:
  assumes "match_texts r s pieces k n us" "sr_captures r = None" "0 < n"
  obtains u where "template_literal pieces = Some u" "us = replicate n u"
proof -
  have all: "template_literal pieces = Some (us ! i)" if "i < n" for i
    using assms(1,2) that by (fastforce simp: match_texts_def replacement_text_def and_then_Inr_iff ok_or_Inr_iff split: if_splits)
  obtain u where u: "u = us ! 0"
    by simp
  have "us ! i = u" if "i < n" for i
    using all [OF that] all [OF assms(3)] u by simp
  then have "us = replicate n u"
    using assms(1) by (intro nth_equalityI) (simp_all add: match_texts_def)
  with u all [OF assms(3)] show thesis
    using that by blast
qed

lemma match_texts_captures:
  assumes "good s" "match_texts r s pieces 0 n us" "sr_captures r = Some captures"
  shows "n \<le> length captures" "list_all (\<lambda>c. list_all (resolves (snap_text s) c (sr_names r)) pieces) (take n captures)"
    "us = map (\<lambda>c. expansion (snap_text s) c (sr_names r) pieces) (take n captures)"
proof -
  have each: "i < length captures \<and> list_all (resolves (snap_text s) (captures ! i) (sr_names r)) pieces \<and>
      us ! i = expansion (snap_text s) (captures ! i) (sr_names r) pieces" if "i < n" for i
    using assms(2,3) that
    by (fastforce simp: match_texts_def replacement_text_def expand_iff [OF assms(1)] split: if_splits)
  show len: "n \<le> length captures"
    using each by (metis le_less_linear less_irrefl)
  show "list_all (\<lambda>c. list_all (resolves (snap_text s) c (sr_names r)) pieces) (take n captures)"
    using each by (simp add: list_all_length)
  show "us = map (\<lambda>c. expansion (snap_text s) c (sr_names r) pieces) (take n captures)"
    using each len assms(2) by (intro nth_equalityI) (simp_all add: match_texts_def)
qed

section \<open>Moving between matches\<close>

definition apart :: "range list \<Rightarrow> bool" where
  "apart ms \<longleftrightarrow> sorted_wrt (\<lambda>m n. snd m \<le> fst n) ms \<and> (\<forall>m\<in>set ms. fst m < snd m)"

lemma in_order_from: "in_order t (Some p) ms \<Longrightarrow> m \<in> set ms \<Longrightarrow> snd p \<le> fst m"
proof (induction ms arbitrary: p)
  case (Cons n ms)
  then have "snd p \<le> fst n" "fst n \<le> snd n" "m \<in> set ms \<Longrightarrow> snd n \<le> fst m"
    using Cons.IH [of n] by auto
  then have "m = n \<or> snd n \<le> fst m"
    using Cons.prems(2) by auto
  with \<open>snd p \<le> fst n\<close> \<open>fst n \<le> snd n\<close> show ?case
    by auto
qed simp

lemma in_order_sorted: "in_order t previous ms \<Longrightarrow> sorted_wrt (\<lambda>m n. snd m \<le> fst n) ms"
  by (induction ms arbitrary: previous) (auto dest: in_order_from)

lemma laid_out_apart:
  assumes "laid_out t pos ms"
  shows "apart ms"
proof -
  have "in_order t None ms" "\<forall>m\<in>set ms. fst m < snd m"
    using assms by (simp_all add: laid_out_def)
  then show ?thesis
    by (simp add: apart_def in_order_sorted)
qed

lemma apart_take: "apart ms \<Longrightarrow> apart (take n ms)"
  by (auto simp: apart_def dest: in_set_takeD)

lemma scan_apart:
  assumes "fold_ok env" "good s" "length (snap_text s) \<le> usize_max" "valid_utf8 (q_pattern q)" "q_mode q \<noteq> Regex"
    "scan env s q job = Some (r, batches)"
  shows "apart (sr_matches r)"
proof (cases "sr_matches r = []")
  case False
  then have run: "\<not> jb_cancelled job 0" "sn_complete s"
    using assms(5,6) by (auto simp: scan_def no_results_def split: if_splits)
  note result = scan_result [OF assms(1-3) run(2) assms(4,5) run(1)]
  obtain p where p: "search_pattern env q = Some p"
    using result assms(6) False by (cases "search_pattern env q") (auto simp: no_results_def)
  obtain a b where range: "query_range s q = (a, b)"
    by fastforce
  have bounds: "a \<le> b \<and> char_boundary (snap_text s) a \<and> char_boundary (snap_text s) b"
    using result p range assms(6) False by (auto simp: no_results_def split: if_splits)
  then have "scanned env q job (all_matches env s q p) (r, batches)"
    using result p range assms(6) by auto
  then have some: "sr_matches r = take (length (sr_matches r)) (all_matches env s q p)"
    by (cases "sr_completeness r") (auto simp: scanned_def prefix_def)
  have "p \<noteq> []"
    using search_pattern_like [OF assms(1,4) p] by (simp add: char_like_def)
  moreover have "valid_utf8 (snap_text s)"
    using assms(2) by (simp add: good_def snap_text_def owned_valid)
  ultimately have "apart (all_matches env s q p)"
    using all_matches_replaced(1) range bounds laid_out_apart by blast
  then show ?thesis
    using some by (metis apart_take)
qed (simp add: apart_def)

text \<open>The matches before an offset and those from it on.\<close>

lemma apart_starts: "apart ms \<Longrightarrow> sorted_wrt (\<lambda>m n. fst m < fst n) ms"
  unfolding apart_def sorted_wrt_iff_nth_less by (meson less_le_trans nth_mem order.strict_trans)

lemma split_at_start:
  assumes "apart ms"
  shows "takeWhile (\<lambda>m. fst m < offset) ms = [m \<leftarrow> ms. fst m < offset]"
    "dropWhile (\<lambda>m. fst m < offset) ms = [m \<leftarrow> ms. offset \<le> fst m]"
  using apart_starts [OF assms]
  by (induction ms) (fastforce simp: not_less intro!: filter_False [symmetric] filter_True [symmetric])+

lemma next_match_ahead:
  assumes "apart ms" "ms = sr_matches r"
  shows "next_match r offset False wrap =
      (case [m \<leftarrow> ms. offset \<le> fst m] of
         m # _ \<Rightarrow> Some m
       | [] \<Rightarrow> if wrap \<and> ms \<noteq> [] then Some (hd ms) else None)"
proof -
  let ?before = "[m \<leftarrow> ms. fst m < offset]" and ?from = "[m \<leftarrow> ms. offset \<le> fst m]"
  have "ms = ?before @ ?from"
    using split_at_start [OF assms(1), of offset] takeWhile_dropWhile_id by metis
  then have "length ms = length ?before + length ?from" "?from \<noteq> [] \<Longrightarrow> ms ! length ?before = hd ?from"
    by (metis length_append, metis hd_conv_nth nth_append_length_plus add_0_right)
  then show ?thesis
    using split_at_start(1) [OF assms(1), of offset] assms(2)
    by (auto simp: next_match_def partition_point_def Let_def split: list.splits)
qed

lemma next_match_behind:
  assumes "apart ms" "ms = sr_matches r"
  shows "next_match r offset True wrap =
      (case rev [m \<leftarrow> ms. fst m < offset] of
         m # _ \<Rightarrow> Some m
       | [] \<Rightarrow> if wrap \<and> ms \<noteq> [] then Some (last ms) else None)"
proof -
  let ?before = "[m \<leftarrow> ms. fst m < offset]"
  have ms: "ms = ?before @ [m \<leftarrow> ms. offset \<le> fst m]"
    using split_at_start [OF assms(1), of offset] takeWhile_dropWhile_id by metis
  have point: "partition_point (\<lambda>m. fst m < offset) (sr_matches r) = length ?before"
    using split_at_start(1) [OF assms(1), of offset] assms(2) by (simp add: partition_point_def)
  show ?thesis
  proof (cases ?before rule: rev_cases)
    case Nil
    with point assms(2) show ?thesis
      by (simp add: next_match_def Let_def)
  next
    case (snoc xs m)
    then have "ms ! length xs = m"
      using ms by (metis append.assoc append_Cons nth_append_length)
    with snoc point assms(2) show ?thesis
      by (simp add: next_match_def)
  qed
qed

lemma next_match_around:
  assumes "apart ms" "ms = sr_matches r"
  shows "\<forall>i<length ms. next_match r (snd (ms ! i)) False True = Some (ms ! (Suc i mod length ms)) \<and>
    next_match r (fst (ms ! i)) True True = Some (ms ! ((i + length ms - 1) mod length ms))"
proof (intro allI impI)
  fix i
  assume i: "i < length ms"
  have ends: "snd (ms ! j) \<le> fst (ms ! k)" if "j < k" "k < length ms" for j k
    using assms(1) that by (simp add: apart_def sorted_wrt_iff_nth_less)
  have starts: "fst (ms ! j) < snd (ms ! j)" if "j < length ms" for j
    using assms(1) that by (simp add: apart_def)
  have before: "fst (ms ! j) < fst (ms ! k)" if "j < k" "k < length ms" for j k
    using ends [OF that] starts [of j] that by simp
  then have within: "fst (ms ! j) < snd (ms ! k)" if "j < k" "k < length ms" for j k
    using that starts [of k] by (meson order.strict_trans)
  have cut: "takeWhile (\<lambda>m. fst m < offset) ms = take n ms"
    if "n \<le> length ms" "\<forall>j<n. fst (ms ! j) < offset" "n < length ms \<longrightarrow> \<not> fst (ms ! n) < offset" for n offset
    using that by (intro takeWhile_eq_take_P_nth) auto
  have "takeWhile (\<lambda>m. fst m < snd (ms ! i)) ms = take (Suc i) ms"
  proof (rule cut)
    show "\<forall>j<Suc i. fst (ms ! j) < snd (ms ! i)"
      using i starts within by (auto simp: less_Suc_eq)
  qed (use i ends in \<open>auto simp: not_less\<close>)
  then have "partition_point (\<lambda>m. fst m < snd (ms ! i)) (sr_matches r) = Suc i"
    using i assms(2) by (simp add: partition_point_def)
  then have ahead: "next_match r (snd (ms ! i)) False True = Some (ms ! (Suc i mod length ms))"
    using i assms(2) by (cases "Suc i = length ms") (auto simp: next_match_def hd_conv_nth Let_def)
  have "takeWhile (\<lambda>m. fst m < fst (ms ! i)) ms = take i ms"
  proof (rule cut)
    show "\<forall>j<i. fst (ms ! j) < fst (ms ! i)"
      using i before by auto
  qed (use i in auto)
  then have "partition_point (\<lambda>m. fst m < fst (ms ! i)) (sr_matches r) = i"
    using i assms(2) by (simp add: partition_point_def)
  then have "next_match r (fst (ms ! i)) True True = Some (ms ! ((i + length ms - 1) mod length ms))"
    using i assms(2) by (cases i) (auto simp: next_match_def last_conv_nth Let_def)
  with ahead show "next_match r (snd (ms ! i)) False True = Some (ms ! (Suc i mod length ms)) \<and>
      next_match r (fst (ms ! i)) True True = Some (ms ! ((i + length ms - 1) mod length ms))"
    by simp
qed

end
