(* ===== verification/Search_Properties.thy ===== *)
theory Search_Properties
  imports Search_Replace
begin

text \<open>
  The properties of searching a text and of replacing what was found, with concrete searches on which
  they apply.
\<close>

section \<open>A concrete search\<close>

text \<open>The letters are word characters, and \<open>\<close> folds nothing beyond ASCII.\<close>

definition sample_search_env :: search_env where
  "sample_search_env =
     \<lparr>se_fold = \<lambda>_. None, se_word = [(65, 90), (97, 122)], se_regex = \<lambda>_ _ _. None, se_match_size = 16,
      se_edit_size = 40\<rparr>"

definition sample_job :: search_job where
  "sample_job = \<lparr>jb_id = 1, jb_cancelled = \<lambda>_. False\<rparr>"

definition sample_query :: search_query where
  "sample_query = (literal_query [66])\<lparr>q_case := Folded\<rparr>"

lemma sample_search [simp]:
  "fold_ok sample_search_env" "\<not> jb_cancelled sample_job n" "q_mode sample_query = Literal"
  "q_pattern sample_query = [66]" "query_range (d_current sample_doc) sample_query = (0, 5)"
  "search_pattern sample_search_env sample_query = Some [98]" "sn_complete (d_current sample_doc)"
  "q_case sample_query = Folded" "\<not> q_whole_word sample_query"
proof -
  have "utf8_chars [66] = [[66]]"
    by code_simp
  then show "search_pattern sample_search_env sample_query = Some [98]"
    by (simp add: sample_query_def search_pattern_def literal_query_def MAX_PATTERN_BYTES_def fold_char_def
        ascii_lower_def Let_def)
  have "snapshot_len (d_current sample_doc) = 5"
    using snapshot_len_text [OF sample_doc_ok(2)] by simp
  then show "query_range (d_current sample_doc) sample_query = (0, 5)"
    by (simp add: query_range_def sample_query_def literal_query_def)
qed (simp_all add: fold_ok_def sample_search_env_def sample_job_def sample_query_def literal_query_def sample_doc_def empty_doc_def)

lemma sample_matches: "all_matches sample_search_env (d_current sample_doc) sample_query [98] = [(1, 2)]"
proof -
  have "utf8_chars [97, 98, CR, LF, 99] = [[97], [98], [CR], [LF], [99]]"
    by code_simp
  then show ?thesis
    by (simp add: all_matches_def folding_def fold_char_def ascii_lower_def counts_def Let_def)
qed

lemma sample_capacity: "scan_capacity sample_search_env sample_query = 1024 * 1024"
  by (simp add: scan_capacity_def sample_query_def literal_query_def sample_search_env_def MAX_RESULT_BYTES_def)

lemma sample_scan:
  "\<exists>r batches. scan sample_search_env (d_current sample_doc) sample_query sample_job = Some (r, batches) \<and>
     sr_completeness r = Complete \<and> sr_matches r = [(1, 2)] \<and> sr_captures r = None"
proof -
  have "char_boundary [97, 98, CR, LF, 99] 5" "valid_utf8 [66]"
    by code_simp+
  then obtain r batches where "scan sample_search_env (d_current sample_doc) sample_query sample_job = Some (r, batches)"
    "scanned sample_search_env sample_query sample_job [(1, 2)] (r, batches)"
    using scan_result [of sample_search_env "d_current sample_doc" sample_query sample_job] sample_matches
    by (auto simp: usize_max_def simp del: One_nat_def)
  then show ?thesis
    by (auto simp: scanned_def sample_capacity split: search_completeness.splits)
qed

section \<open>Searching\<close>

text \<open>C14: A scan always ends, without a panic, and what it returns is decided by the text alone: on a
  complete snapshot with a valid pattern and range, an unlimited, uncancelled scan returns exactly the
  leftmost, disjoint occurrences of the reference, characters compared after folding and only between
  characters that are no part of a word where whole words are asked for; at the limit it returns the
  first of them and says how many it counted, cancelled a prefix of them; in every case the batches it
  handed out are the matches it returns. An invalid pattern or range is reported as such.\<close>
theorem scan_finds_all:
  assumes "fold_ok env" "good s" "length (snap_text s) \<le> usize_max" "valid_utf8 (q_pattern q)" "q_mode q \<noteq> Regex"
  shows "(jb_cancelled job 0 \<longrightarrow> scan env s q job = Some (no_results s job Cancelled, [])) \<and>
    (\<not> jb_cancelled job 0 \<and> \<not> sn_complete s \<longrightarrow> scan env s q job = Some (no_results s job Unsupported, [])) \<and>
    (\<not> jb_cancelled job 0 \<and> sn_complete s \<longrightarrow>
      (case search_pattern env q of
         None \<Rightarrow> scan env s q job = Some (no_results s job InvalidQuery, [])
       | Some p \<Rightarrow>
           (case query_range s q of (a, b) \<Rightarrow>
              if a \<le> b \<and> char_boundary (snap_text s) a \<and> char_boundary (snap_text s) b
              then \<exists>out. scan env s q job = Some out \<and> scanned env q job (all_matches env s q p) out
              else scan env s q job = Some (no_results s job InvalidQuery, []))))"
  using scan_result [OF assms(1-3) _ assms(4,5)] by (simp add: scan_def)

theorem scan_finds_all_witness:
  "\<exists>r batches. scan sample_search_env (d_current sample_doc) sample_query sample_job = Some (r, batches) \<and>
     sr_completeness r = Complete \<and> sr_matches r = [(1, 2)] \<and> concat batches = [(1, 2)]"
proof -
  have "char_boundary [97, 98, CR, LF, 99] 5" "valid_utf8 [66]"
    by code_simp+
  then obtain r batches where "scan sample_search_env (d_current sample_doc) sample_query sample_job = Some (r, batches)"
    "scanned sample_search_env sample_query sample_job [(1, 2)] (r, batches)"
    using scan_finds_all [of sample_search_env "d_current sample_doc" sample_query sample_job] sample_matches
    by (auto simp: usize_max_def simp del: One_nat_def)
  then show ?thesis
    by (auto simp: scanned_def sample_capacity split: search_completeness.splits)
qed

section \<open>Replacing\<close>

text \<open>C15: Replacing after a literal search: when the code prepares a transaction from a scan of the
  document's current snapshot, the document applies it as it stands, unless it is short of memory or
  out of revisions, and its text is then the reference replacement, one pass over the characters of
  the searched range that puts the decoded replacement for every match; in the narrower scope it is
  the text with that one match replaced.\<close>
theorem replace_refines:
  assumes "env_ok denv" "doc_ok (slot_of denv) d" "fold_ok env" "length (snap_text (d_current d)) \<le> usize_max"
    "valid_utf8 (q_pattern q)" "q_mode q \<noteq> Regex" "scan env (d_current d) q job = Some (r, batches)"
    "valid_utf8 v" "decode_template v (q_mode q) = Inr pieces"
    "prepare_replace_ranges env r (d_current d) pieces limit scope job' with_inverse = Inr tr"
  shows "\<exists>p u. search_pattern env q = Some p \<and> template_literal pieces = Some u \<and>
    (case apply_transaction denv tr w d of
       (Inr revision, w', d') \<Rightarrow>
         doc_ok (slot_of denv) d' \<and> revision = sn_revision (d_current d') \<and>
         (case scope of
            AllMatches \<Rightarrow> snap_text (d_current d') = replaced_text env (d_current d) q p u
          | OneMatch m \<Rightarrow>
              m \<in> set (all_matches env (d_current d) q p) \<and>
              snap_text (d_current d') = replace_range (fst m) (snd m) u (snap_text (d_current d)))
     | (Inl err, w', d') \<Rightarrow> err = BudgetExceeded \<or> err = RevisionOverflow)"
proof -
  let ?t = "snap_text (d_current d)"
  have good: "good (d_current d)"
    using assms(2) by (simp add: doc_ok_def)
  then have valid: "valid_utf8 ?t"
    by (simp add: good_def snap_text_def owned_valid)
  obtain k ms us where prepared: "sr_completeness r = Complete" "scope_matches (sr_matches r) scope = Inr (k, ms)"
    "match_texts r (d_current d) pieces k (length ms) us" "ms \<noteq> []"
    "tr = \<lparr>tr_base = sn_revision (d_current d), tr_edits = foldl push_edit [] (match_edits ms us)\<rparr>"
    using prepare_replace_edits [OF assms(10)] by metis
  obtain p a b where scan: "search_pattern env q = Some p" "p \<noteq> []" "query_range (d_current d) q = (a, b)" "a \<le> b"
    "char_boundary ?t a" "char_boundary ?t b" "sr_matches r = all_matches env (d_current d) q p" "sr_captures r = None"
    using scan_complete [OF assms(3) good assms(4-7) prepared(1)] by blast
  obtain u where u: "template_literal pieces = Some u" "us = replicate (length ms) u"
    using match_texts_literal [OF prepared(3) scan(8)] prepared(4) by auto
  have "valid_utf8 u"
    using decode_template_valid [OF assms(8,9)] u(1)
    by (auto simp: template_literal_def valid_pieces_def split: list.splits template_piece.splits)
  note found = all_matches_replaced [OF valid scan(2-6), where env = env]
  have ms: "in_order ?t None ms"
    using found(1) scope_in_order [OF prepared(2)] scan(7) by (simp add: laid_out_def)
  have edits: "match_edits ms us = edits_to u ms" "length us = length ms" "list_all valid_utf8 us"
    using u(2) \<open>valid_utf8 u\<close> by (simp_all add: match_edits_replicate list_all_length)
  note applied = replace_applies [OF assms(1,2) ms edits(2,3) prepared(5), of w, unfolded edits(1)]
  show ?thesis
  proof (cases scope)
    case AllMatches
    with prepared(2) scan(7) found(2) applied u(1) scan(1) show ?thesis
      by (auto simp: scope_matches_def split: sum.splits)
  next
    case (OneMatch m)
    have "m \<in> set (sr_matches r)" "ms = [m]"
      using scope_matches_One [OF prepared(2) [unfolded OneMatch]] by simp_all
    with OneMatch scan(7) applied u(1) scan(1) show ?thesis
      by (auto simp: edits_to_def replace_range_def sub_0_take split: sum.splits)
  qed
qed

text \<open>The template with every letter b of the sample replaced by two letters x.\<close>

theorem replace_refines_witness:
  "\<exists>r batches tr. scan sample_search_env (d_current sample_doc) sample_query sample_job = Some (r, batches) \<and>
    prepare_replace_ranges sample_search_env r (d_current sample_doc) [TextPiece [120, 120]] 1000 AllMatches
      sample_job True = Inr tr \<and>
    (case apply_transaction sample_env tr sample_world sample_doc of
       (Inr revision, w', d') \<Rightarrow> snap_text (d_current d') = [97, 120, 120, CR, LF, 99]
     | (Inl err, w', d') \<Rightarrow> err = BudgetExceeded \<or> err = RevisionOverflow)"
proof -
  have valid: "valid_utf8 [66]" "valid_utf8 [120, 120]"
    by code_simp+
  obtain r batches where scan: "scan sample_search_env (d_current sample_doc) sample_query sample_job = Some (r, batches)"
    and r: "sr_completeness r = Complete" "sr_matches r = [(1, 2)]" "sr_captures r = None"
    using sample_scan by blast
  then obtain tr where tr: "prepare_replace_ranges sample_search_env r (d_current sample_doc) [TextPiece [120, 120]] 1000
      AllMatches sample_job True = Inr tr"
    using scan_source [OF scan] r
    by (simp add: prepare_replace_ranges_def is_current_def same_document_def scope_matches_def replacement_text_def
        template_literal_def checked_mul_def checked_add_def sample_search_env_def MAX_REPLACE_STAGING_BYTES_def
        usize_max_def Let_def)
  have after: "replaced_text sample_search_env (d_current sample_doc) sample_query [98] [120, 120] = [97, 120, 120, CR, LF, 99]"
  proof -
    have "utf8_chars [97, 98, CR, LF, 99] = [[97], [98], [CR], [LF], [99]]"
      by code_simp
    then show ?thesis
      by (simp add: replaced_text_def folding_def fold_char_def ascii_lower_def counts_def Let_def)
  qed
  from replace_refines [OF sample_env_ok sample_doc_ok(1) sample_search(1) _ _ _ scan valid(2), of "[TextPiece [120, 120]]" 1000
      AllMatches sample_job True tr sample_world] tr valid(1) scan after
  show ?thesis
    by (auto simp: decode_template_def plain_template_def template_literal_def usize_max_def split: prod.splits sum.splits)
qed

text \<open>C16: Replacing the matches of a regular expression, whatever the engine found: when the matches
  are in order, where an empty match may be followed by one that starts at the same place, and the
  code prepares a transaction, every group the template refers to exists and was read exactly, and the
  document applies the transaction, unless it is short of memory or out of revisions, giving the text
  with every match replaced by the expansion of the template over its own groups.\<close>
theorem replace_captures:
  assumes "env_ok denv" "doc_ok (slot_of denv) d" "valid_utf8 v" "decode_template v Regex = Inr pieces"
    "sr_captures r = Some captures" "in_order (snap_text (d_current d)) None (sr_matches r)"
    "prepare_replace_ranges env r (d_current d) pieces limit AllMatches job with_inverse = Inr tr"
  shows "length (sr_matches r) \<le> length captures \<and>
    list_all (\<lambda>c. list_all (resolves (snap_text (d_current d)) c (sr_names r)) pieces)
      (take (length (sr_matches r)) captures) \<and>
    (case apply_transaction denv tr w d of
       (Inr revision, w', d') \<Rightarrow>
         doc_ok (slot_of denv) d' \<and> revision = sn_revision (d_current d') \<and>
         snap_text (d_current d') =
           render 0 (snap_text (d_current d)) (match_edits (sr_matches r)
             (map (\<lambda>c. expansion (snap_text (d_current d)) c (sr_names r) pieces) (take (length (sr_matches r)) captures)))
     | (Inl err, w', d') \<Rightarrow> err = BudgetExceeded \<or> err = RevisionOverflow)"
proof -
  let ?t = "snap_text (d_current d)" and ?n = "length (sr_matches r)"
  let ?us = "map (\<lambda>c. expansion ?t c (sr_names r) pieces) (take ?n captures)"
  have good: "good (d_current d)"
    using assms(2) by (simp add: doc_ok_def)
  then have valid: "valid_utf8 ?t"
    by (simp add: good_def snap_text_def owned_valid)
  obtain k ms us where prepared: "scope_matches (sr_matches r) AllMatches = Inr (k, ms)"
    "match_texts r (d_current d) pieces k (length ms) us" "ms \<noteq> []"
    "tr = \<lparr>tr_base = sn_revision (d_current d), tr_edits = foldl push_edit [] (match_edits ms us)\<rparr>"
    using prepare_replace_edits [OF assms(7)] by metis
  then have texts: "match_texts r (d_current d) pieces 0 ?n us" and ms: "ms = sr_matches r"
    by (simp_all add: scope_matches_def)
  note expanded = match_texts_captures [OF good texts assms(5)]
  have "list_all valid_utf8 us"
    using expanded(2,3) decode_template_valid [OF assms(3,4)]
    by (auto simp: list_all_iff intro!: valid_expansion [OF valid])
  have "length us = ?n"
    using texts by (simp add: match_texts_def)
  note applied = replace_applies [OF assms(1,2,6) \<open>length us = ?n\<close> \<open>list_all valid_utf8 us\<close> prepared(4) [unfolded ms], of w]
  show ?thesis
    using expanded(1,2) applied [unfolded expanded(3)] by (intro conjI)
qed

definition sample_found :: search_results where
  "sample_found =
     (no_results (d_current sample_doc) sample_job Complete)
       \<lparr>sr_matches := [(0, 0), (0, 2)], sr_captures := Some [[Some (0, 0), None], [Some (0, 2), Some (1, 2)]]\<rparr>"

text \<open>An empty match and one at the same place, replaced by the group around a dash.\<close>

theorem replace_captures_witness:
  "\<exists>tr. prepare_replace_ranges sample_search_env sample_found (d_current sample_doc) [Group 1, TextPiece [45]] 1000
      AllMatches sample_job True = Inr tr \<and>
    (case apply_transaction sample_env tr sample_world sample_doc of
       (Inr revision, w', d') \<Rightarrow> snap_text (d_current d') = [45, 98, 45, CR, LF, 99]
     | (Inl err, w', d') \<Rightarrow> err = BudgetExceeded \<or> err = RevisionOverflow)"
proof -
  have bounds: "char_boundary [97, 98, CR, LF, 99] 1" "char_boundary [97, 98, CR, LF, 99] 2"
    and template: "valid_utf8 [36, 49, 45]" "decode_template [36, 49, 45] Regex = Inr [Group 1, TextPiece [45]]"
    by code_simp+
  have read: "snapshot_read (d_current sample_doc) 1 2 1 = Inr [98]"
    using snapshot_read_text [of "d_current sample_doc" 1 2 1] bounds by (simp add: sub_def)
  then obtain tr where tr: "prepare_replace_ranges sample_search_env sample_found (d_current sample_doc)
      [Group 1, TextPiece [45]] 1000 AllMatches sample_job True = Inr tr"
    by (simp add: prepare_replace_ranges_def is_current_def same_document_def scope_matches_def replacement_text_def
        sample_found_def no_results_def checked_mul_def checked_add_def sample_search_env_def expand_def
        MAX_REPLACE_STAGING_BYTES_def usize_max_def Let_def piece_group_def expand_group_def)
  from replace_captures [OF sample_env_ok sample_doc_ok(1) template _ _ tr, of _ sample_world] tr bounds
  show ?thesis
    by (auto simp: sample_found_def no_results_def expansion_def group_text_def sub_def split: prod.splits sum.splits)
qed

section \<open>Moving between matches\<close>

text \<open>In the matches of a scan, complete or not, moving forward goes to the first match that starts
  at or after the offset and moving backward to the last that starts before it, at the end of the list
  to its other end when wrapping is asked for; from the end of a match forward goes to the next one
  and from its start backward to the one before, around the list.\<close>
theorem next_match_cycles:
  assumes "fold_ok env" "good s" "length (snap_text s) \<le> usize_max" "valid_utf8 (q_pattern q)" "q_mode q \<noteq> Regex"
    "scan env s q job = Some (r, batches)" "ms = sr_matches r"
  shows "next_match r offset False wrap =
      (case [m \<leftarrow> ms. offset \<le> fst m] of
         m # _ \<Rightarrow> Some m
       | [] \<Rightarrow> if wrap \<and> ms \<noteq> [] then Some (hd ms) else None) \<and>
    next_match r offset True wrap =
      (case rev [m \<leftarrow> ms. fst m < offset] of
         m # _ \<Rightarrow> Some m
       | [] \<Rightarrow> if wrap \<and> ms \<noteq> [] then Some (last ms) else None) \<and>
    (\<forall>i<length ms.
       next_match r (snd (ms ! i)) False True = Some (ms ! (Suc i mod length ms)) \<and>
       next_match r (fst (ms ! i)) True True = Some (ms ! ((i + length ms - 1) mod length ms)))"
proof -
  have order: "apart ms"
    using scan_apart [OF assms(1-6)] assms(7) by simp
  note ahead = next_match_ahead [OF order assms(7)] next_match_behind [OF order assms(7)]
  show ?thesis
    using ahead next_match_around [OF order assms(7)] by blast
qed

theorem next_match_cycles_witness:
  "\<exists>r batches. scan sample_search_env (d_current sample_doc) sample_query sample_job = Some (r, batches) \<and>
     next_match r 0 False False = Some (1, 2) \<and> next_match r 2 False False = None \<and>
     next_match r 2 False True = Some (1, 2) \<and> next_match r 1 True True = Some (1, 2)"
proof -
  obtain r batches where scan: "scan sample_search_env (d_current sample_doc) sample_query sample_job = Some (r, batches)"
    "sr_matches r = [(1, 2)]"
    using sample_scan by blast
  have "valid_utf8 [66]"
    by code_simp
  with next_match_cycles [of sample_search_env "d_current sample_doc" sample_query sample_job r batches "[(1, 2)]"] scan
  have "next_match r offset False wrap =
      (case [m \<leftarrow> [(1, 2)]. offset \<le> fst m] of m # _ \<Rightarrow> Some m | [] \<Rightarrow> if wrap then Some (1, 2) else None) \<and>
    next_match r offset True wrap =
      (case rev [m \<leftarrow> [(1, 2)]. fst m < offset] of m # _ \<Rightarrow> Some m | [] \<Rightarrow> if wrap then Some (1, 2) else None)" for offset wrap
    by (simp add: usize_max_def)
  with scan(1) show ?thesis
    by auto
qed

end
