(* ===== verification/Commands.thy ===== *)
theory Commands
  imports Chars Btree "HOL-Library.List_Lexorder"
begin

text \<open>
  Commands and menus, crates/commands/src: the registry of lib.rs and discovery.rs, the commands that
  extensions contribute (contributions.rs), and the menu trees of discovery.rs. An identifier is its
  bytes; the maps are lists in key order.
\<close>

section \<open>Contributed commands\<close>

record dynamic_identity =
  dy_owner :: "byte list"
  dy_id :: "byte list"
  dy_generation :: nat

record dynamic_record =
  dr_identity :: dynamic_identity
  dr_title :: "byte list"
  dr_enabled :: bool
  dr_disabled_reason :: "byte list option"

text \<open>The records by owner and identifier; \<open>BTreeMap<(String, String), _>\<close>.\<close>

type_synonym contributions = "(byte list list \<times> dynamic_record) list"

datatype contribution_error = CountLimit | TotalLimit | InvalidContribution | DuplicateContribution

definition alphanumeric_byte :: "byte \<Rightarrow> bool" where
  "alphanumeric_byte b \<longleftrightarrow> 48 \<le> b \<and> b \<le> 57 \<or> 65 \<le> b \<and> b \<le> 90 \<or> 97 \<le> b \<and> b \<le> 122"

definition valid_name :: "byte list \<Rightarrow> bool" where
  "valid_name v \<longleftrightarrow>
     v \<noteq> [] \<and> length v \<le> 128 \<and> list_all (\<lambda>b. alphanumeric_byte b \<or> b = 46 \<or> b = 45 \<or> b = 95) v"

definition owned_by :: "byte list \<Rightarrow> byte list list \<times> dynamic_record \<Rightarrow> bool" where
  "owned_by owner = (\<lambda>(k, _). hd k = owner)"

definition remove_owner :: "byte list \<Rightarrow> contributions \<Rightarrow> contributions" where
  "remove_owner owner cs = filter (\<lambda>r. \<not> owned_by owner r) cs"

definition valid_record :: "byte list \<Rightarrow> dynamic_record \<Rightarrow> bool" where
  "valid_record owner r \<longleftrightarrow>
     dy_owner (dr_identity r) = owner \<and> valid_name (dy_id (dr_identity r)) \<and> dr_title r \<noteq> [] \<and>
     length (dr_title r) \<le> 256 \<and>
     (case dr_disabled_reason r of None \<Rightarrow> True | Some reason \<Rightarrow> length reason \<le> 512)"

fun replacement :: "byte list \<Rightarrow> dynamic_record list \<Rightarrow> contributions \<Rightarrow> contribution_error + contributions" where
  "replacement owner [] acc = Inr acc"
| "replacement owner (r # rs) acc =
     (if \<not> valid_record owner r then Inl InvalidContribution
      else
        let key = [owner, dy_id (dr_identity r)] in
        if map_of acc key \<noteq> None then Inl DuplicateContribution
        else replacement owner rs (btree_insert key r acc))"

definition extend_records :: "contributions \<Rightarrow> contributions \<Rightarrow> contributions" where
  "extend_records cs new = foldl (\<lambda>cs (k, r). btree_insert k r cs) cs new"

definition replace_owner ::
  "byte list \<Rightarrow> dynamic_record list \<Rightarrow> contributions \<Rightarrow> contribution_error + contributions" where
  "replace_owner owner rs cs =
     (if \<not> valid_name owner \<or> length rs > 256 then Inl CountLimit
      else if length (remove_owner owner cs) + length rs > 1024 then Inl TotalLimit
      else and_then (replacement owner rs []) (\<lambda>new. Inr (extend_records (remove_owner owner cs) new)))"

definition resolve_dynamic :: "dynamic_identity \<Rightarrow> contributions \<Rightarrow> dynamic_record option" where
  "resolve_dynamic i cs =
     (case map_of cs [dy_owner i, dy_id i] of
        Some r \<Rightarrow> if dr_enabled r \<and> dr_identity r = i then Some r else None
      | None \<Rightarrow> None)"

section \<open>The registry\<close>

datatype action =
    Contributed "byte list"
  | ActNew | ActQuit | ActAbout | ActPalette | ActUndo | ActRedo | ActSelectAll | ActOpen | ActSave
  | ActSaveAs | ActCopy | ActCut | ActPaste | ActCancelFileOperations | ActClose | ActFind | ActFindNext
  | ActFindPrevious | ActFindClose | ActFindMatchCase | ActFindWholeWord | ActReplace | ActReplaceOne
  | ActReplaceAll | ActFindMode | ActFindCancel

record command_spec =
  cs_id :: "byte list"
  cs_title :: "byte list"
  cs_category :: "byte list"
  cs_shortcut :: "byte list"
  cs_action :: action

record command_state =
  ct_enabled :: bool
  ct_checked :: bool
  ct_radio :: bool
  ct_hidden :: bool
  ct_label :: "byte list option"
  ct_disabled_reason :: "byte list option"

definition command_state_default :: command_state where
  "command_state_default =
     \<lparr>ct_enabled = True, ct_checked = False, ct_radio = False, ct_hidden = False, ct_label = None,
      ct_disabled_reason = None\<rparr>"

record command_context =
  cx_states :: "(byte list \<times> command_state) list"
  cx_show_internal :: bool

datatype menu_placement = Always | WhenEnabled | PaletteOnly

record presentation =
  pr_menu_path :: "byte list"
  pr_keywords :: "byte list list"
  pr_accessible_name :: "byte list option"
  pr_internal :: bool
  pr_menu :: menu_placement

definition presentation_default :: presentation where
  "presentation_default =
     \<lparr>pr_menu_path = [], pr_keywords = [], pr_accessible_name = None, pr_internal = False, pr_menu = Always\<rparr>"

record registry =
  rg_entries :: "(byte list \<times> command_spec) list"
  rg_presentations :: "(byte list \<times> presentation) list"
  rg_contributions :: contributions

definition registry_default :: registry where
  "registry_default = \<lparr>rg_entries = [], rg_presentations = [], rg_contributions = []\<rparr>"

definition register :: "command_spec \<Rightarrow> registry \<Rightarrow> byte list + registry" where
  "register s rg =
     (if map_of (rg_entries rg) (cs_id s) \<noteq> None then Inl (cs_id s)
      else Inr (rg\<lparr>rg_entries := btree_insert (cs_id s) s (rg_entries rg)\<rparr>))"

definition spec :: "registry \<Rightarrow> byte list \<Rightarrow> command_spec option" where
  "spec rg i = map_of (rg_entries rg) i"

definition dispatch :: "registry \<Rightarrow> byte list \<Rightarrow> action option" where
  "dispatch rg i = map_option cs_action (map_of (rg_entries rg) i)"

definition entries :: "registry \<Rightarrow> command_spec list" where
  "entries rg = map snd (rg_entries rg)"

definition shortcut :: "registry \<Rightarrow> byte list \<Rightarrow> action option" where
  "shortcut rg key =
     (if key = [] then None else map_option cs_action (List.find (\<lambda>s. cs_shortcut s = key) (entries rg)))"

definition lookup_command :: "registry \<Rightarrow> byte list \<Rightarrow> byte list option" where
  "lookup_command rg i = List.find (\<lambda>k. k = i) (map fst (rg_entries rg))"

lemma lookup_command_id: "lookup_command rg i = (if i \<in> fst ` set (rg_entries rg) then Some i else None)"
proof (cases "List.find (\<lambda>k. k = i) (map fst (rg_entries rg))")
  case None
  then show ?thesis
    by (auto simp: lookup_command_def find_None_iff)
next
  case (Some j)
  then have "j = i" "j \<in> set (map fst (rg_entries rg))"
    by (auto simp: find_Some_iff)
  with Some show ?thesis
    by (simp add: lookup_command_def)
qed

definition presentation_of :: "registry \<Rightarrow> byte list \<Rightarrow> presentation option" where
  "presentation_of rg i = map_of (rg_presentations rg) i"

definition update_presentation ::
  "byte list \<Rightarrow> (presentation \<Rightarrow> presentation) \<Rightarrow> registry \<Rightarrow> byte list + registry" where
  "update_presentation i f rg =
     (if map_of (rg_entries rg) i = None then Inl i
      else
        let p = (case presentation_of rg i of Some p \<Rightarrow> p | None \<Rightarrow> presentation_default) in
        Inr (rg\<lparr>rg_presentations := btree_insert i (f p) (rg_presentations rg)\<rparr>))"

definition set_presentation :: "byte list \<Rightarrow> presentation \<Rightarrow> registry \<Rightarrow> byte list + registry" where
  "set_presentation i p rg =
     (if map_of (rg_entries rg) i = None then Inl i
      else Inr (rg\<lparr>rg_presentations := btree_insert i p (rg_presentations rg)\<rparr>))"

definition placement_of :: "registry \<Rightarrow> byte list \<Rightarrow> menu_placement" where
  "placement_of rg i = (case presentation_of rg i of None \<Rightarrow> Always | Some p \<Rightarrow> pr_menu p)"

definition is_internal :: "registry \<Rightarrow> byte list \<Rightarrow> bool" where
  "is_internal rg i \<longleftrightarrow> (case presentation_of rg i of None \<Rightarrow> False | Some p \<Rightarrow> pr_internal p)"

datatype dispatch_error = UnknownCommand "byte list" | DisabledCommand "byte list"

definition state_of :: "registry \<Rightarrow> byte list \<Rightarrow> command_context \<Rightarrow> command_state option" where
  "state_of rg i cx =
     map_option (\<lambda>_. case map_of (cx_states cx) i of Some st \<Rightarrow> st | None \<Rightarrow> command_state_default)
       (map_of (rg_entries rg) i)"

definition unavailable :: "byte list" where
  "unavailable = ascii ''Unavailable in the current context''"

definition dispatch_in :: "registry \<Rightarrow> byte list \<Rightarrow> command_context \<Rightarrow> dispatch_error + action" where
  "dispatch_in rg i cx =
     and_then (ok_or (UnknownCommand i) (state_of rg i cx)) (\<lambda>st.
       if \<not> ct_enabled st
       then Inl (DisabledCommand (case ct_disabled_reason st of Some r \<Rightarrow> r | None \<Rightarrow> unavailable))
       else ok_or (UnknownCommand i) (dispatch rg i))"

section \<open>Menus\<close>

datatype menu_item = Command "byte list" | Separator | Submenu "byte list" "menu_item list"

datatype menu_template =
    CommandTemplate "byte list"
  | SeparatorTemplate
  | SubmenuTemplate "byte list" "menu_template list"

text \<open>A submenu that holds one command of its own title becomes that command.\<close>

fun fold_single :: "registry \<Rightarrow> menu_item \<Rightarrow> menu_item" where
  "fold_single rg (Submenu title [Command i]) =
     (if map_option cs_title (List.find (\<lambda>s. cs_id s = i) (entries rg)) = Some title then Command i
      else Submenu title [Command i])"
| "fold_single rg item = item"

fun collapse_item :: "registry \<Rightarrow> menu_item \<Rightarrow> menu_item" where
  "collapse_item rg (Submenu title items) =
     Submenu title (map (\<lambda>item. fold_single rg (collapse_item rg item)) items)"
| "collapse_item rg item = item"

definition is_submenu :: "byte list \<Rightarrow> menu_item \<Rightarrow> bool" where
  "is_submenu title item = (case item of Submenu t _ \<Rightarrow> t = title | _ \<Rightarrow> False)"

text \<open>The submenu of a title, appended when there is none.\<close>

fun insert_path :: "menu_item list \<Rightarrow> byte list list \<Rightarrow> byte list \<Rightarrow> menu_item list" where
  "insert_path items [] i = items @ [Command i]"
| "insert_path items (title # rest) i =
     (let index = partition_point (\<lambda>item. \<not> is_submenu title item) items;
          items = (if index < length items then items else items @ [Submenu title []])
      in
      case items ! index of
        Submenu t children \<Rightarrow> items[index := Submenu t (insert_path children rest i)]
      | _ \<Rightarrow> items)"

text \<open>The parts of a menu path: the greater-than sign or U+203A separates them.\<close>

definition path_parts :: "byte list \<Rightarrow> byte list list" where
  "path_parts path =
     filter (\<lambda>part. part \<noteq> [])
       (map (concat \<circ> trim_chars) (split_at_chars (\<lambda>c. c = [62] \<or> c = [226, 128, 186]) (utf8_chars path)))"

definition declared_path :: "registry \<Rightarrow> command_spec \<Rightarrow> byte list" where
  "declared_path rg s =
     (case presentation_of rg (cs_id s) of
        Some p \<Rightarrow> if pr_menu_path p \<noteq> [] then pr_menu_path p else cs_category s
      | None \<Rightarrow> cs_category s)"

definition MENU_TAXONOMY :: "byte list list" where
  "MENU_TAXONOMY =
     map ascii [''File'', ''Edit'', ''Search'', ''View'', ''Encoding'', ''Language'', ''Settings'', ''Macro'',
       ''Run'', ''Tools'', ''Window'', ''Help'']"

definition OTHER_MENU :: "byte list" where
  "OTHER_MENU = ascii ''Other''"

definition TOOLS :: "byte list" where
  "TOOLS = ascii ''Tools''"

definition shown :: "registry \<Rightarrow> byte list \<Rightarrow> bool" where
  "shown rg i \<longleftrightarrow> \<not> is_internal rg i \<and> placement_of rg i \<noteq> PaletteOnly"

definition from_registry :: "registry \<Rightarrow> menu_item list" where
  "from_registry rg =
     map (collapse_item rg)
       (foldl (\<lambda>items s. insert_path items (path_parts (declared_path rg s)) (cs_id s))
         (map (\<lambda>title. Submenu title []) MENU_TAXONOMY)
         (filter (\<lambda>s. shown rg (cs_id s)) (entries rg)))"

definition drop_trailing :: "menu_item list \<Rightarrow> menu_item list" where
  "drop_trailing items = rev (dropWhile (\<lambda>item. item = Separator) (rev items))"

definition push_separator :: "menu_item list \<Rightarrow> menu_item list" where
  "push_separator items = (if items = [] \<or> last items = Separator then items else items @ [Separator])"

definition push_submenu :: "byte list \<Rightarrow> menu_item list \<Rightarrow> menu_item list \<Rightarrow> menu_item list" where
  "push_submenu title children items =
     (if list_ex (\<lambda>item. item \<noteq> Separator) children then items @ [Submenu title children] else items)"

text \<open>The items of a hand-written tree, and the commands placed on the way.\<close>

fun build_menu ::
  "registry \<Rightarrow> menu_template list \<Rightarrow> byte list set \<Rightarrow> menu_item list \<Rightarrow> menu_item list \<times> byte list set"
where
  "build_menu rg [] placed items = (drop_trailing items, placed)"
| "build_menu rg (SeparatorTemplate # ts) placed items = build_menu rg ts placed (push_separator items)"
| "build_menu rg (CommandTemplate i # ts) placed items =
     (case lookup_command rg i of
        None \<Rightarrow> build_menu rg ts placed items
      | Some i \<Rightarrow> build_menu rg ts (insert i placed) (if shown rg i then items @ [Command i] else items))"
| "build_menu rg (SubmenuTemplate title cs # ts) placed items =
     (case build_menu rg cs placed [] of
        (children, placed) \<Rightarrow> build_menu rg ts placed (push_submenu title children items))"

text \<open>A command that the tree does not place goes to its declared path, or to Tools.\<close>

definition route :: "registry \<Rightarrow> byte list list \<Rightarrow> byte list set \<Rightarrow> menu_item list \<Rightarrow> command_spec \<Rightarrow> menu_item list" where
  "route rg tops placed items s =
     (if cs_id s \<in> placed \<or> \<not> shown rg (cs_id s) then items
      else
        case path_parts (declared_path rg s) of
          part # parts \<Rightarrow>
            if part \<in> set tops then insert_path items (part # parts) (cs_id s)
            else insert_path items [TOOLS, OTHER_MENU] (cs_id s)
        | [] \<Rightarrow> insert_path items [TOOLS, OTHER_MENU] (cs_id s))"

definition submenu_titles :: "menu_item list \<Rightarrow> byte list list" where
  "submenu_titles items = concat (map (\<lambda>item. case item of Submenu t _ \<Rightarrow> [t] | _ \<Rightarrow> []) items)"

definition curated :: "registry \<Rightarrow> menu_template list \<Rightarrow> menu_item list" where
  "curated rg tree =
     (case build_menu rg tree {} [] of
        (items, placed) \<Rightarrow>
          let items = (if list_ex (is_submenu TOOLS) items then items else items @ [Submenu TOOLS []]) in
          map (collapse_item rg) (foldl (route rg (submenu_titles items) placed) items (entries rg)))"

definition visible_command :: "registry \<Rightarrow> command_context \<Rightarrow> byte list \<Rightarrow> bool" where
  "visible_command rg cx i =
     (let st = map_of (cx_states cx) i;
          hidden =
            (case st of Some st \<Rightarrow> ct_hidden st | None \<Rightarrow> False) \<or>
            (case placement_of rg i of
               Always \<Rightarrow> False
             | WhenEnabled \<Rightarrow> (case st of Some st \<Rightarrow> \<not> ct_enabled st | None \<Rightarrow> False)
             | PaletteOnly \<Rightarrow> True)
      in \<not> is_internal rg i \<and> \<not> hidden)"

fun visible_items :: "registry \<Rightarrow> command_context \<Rightarrow> menu_item list \<Rightarrow> menu_item list \<Rightarrow> menu_item list" where
  "visible_items rg cx [] out = drop_trailing out"
| "visible_items rg cx (Command i # items) out =
     visible_items rg cx items (if visible_command rg cx i then out @ [Command i] else out)"
| "visible_items rg cx (Submenu title children # items) out =
     visible_items rg cx items (push_submenu title (visible_items rg cx children []) out)"
| "visible_items rg cx (Separator # items) out = visible_items rg cx items (push_separator out)"

definition visible :: "registry \<Rightarrow> command_context \<Rightarrow> menu_item list \<Rightarrow> menu_item list" where
  "visible rg cx items = visible_items rg cx items []"

fun item_commands :: "menu_item \<Rightarrow> byte list list" where
  "item_commands (Command i) = [i]"
| "item_commands (Submenu title items) = concat (map item_commands items)"
| "item_commands Separator = []"

definition command_order :: "menu_item list \<Rightarrow> byte list list" where
  "command_order items = concat (map item_commands items)"

definition for_context :: "registry \<Rightarrow> byte list list \<Rightarrow> byte list + menu_item list" where
  "for_context rg is =
     (case List.find (\<lambda>i. dispatch rg i = None) is of
        Some i \<Rightarrow> Inl i
      | None \<Rightarrow> Inr (map Command is))"

definition missing_commands :: "registry \<Rightarrow> menu_item list \<Rightarrow> byte list list" where
  "missing_commands rg items =
     sorted_list_of_set (set (filter (\<lambda>i. dispatch rg i = None) (command_order items)))"

end
