(* ===== verification/Keymap.thy ===== *)
theory Keymap
  imports Commands "HOL-Library.Product_Lexorder"
begin

text \<open>
  Key bindings, crates/commands/src/keymap.rs: chords and their names, the map from chord sequences to
  commands, its conflicts and its resolution. The upper-case form of a character beyond ASCII is a
  table of the standard library, an argument of the definitions that need it. Reading and writing a
  map as TOML is left to an external crate.
\<close>

section \<open>Chords\<close>

datatype key = Logical "byte list" | Physical "byte list"

record key_chord =
  kc_ctrl :: bool
  kc_alt :: bool
  kc_shift :: bool
  kc_meta :: bool
  kc_key :: key

datatype chord_error =
    UnknownModifier "byte list"
  | RepeatedModifier "byte list"
  | MissingKey
  | EmptyPhysical
  | UnknownKey "byte list"

type_synonym case_table = "byte list \<Rightarrow> byte list"

text \<open>\<open>to_uppercase\<close>, character by character.\<close>

definition upper_char :: "case_table \<Rightarrow> byte list \<Rightarrow> byte list" where
  "upper_char up c =
     (case c of
        [b] \<Rightarrow> [if 97 \<le> b \<and> b \<le> 122 then b - 32 else b]
      | _ \<Rightarrow> up c)"

definition to_uppercase :: "case_table \<Rightarrow> byte list \<Rightarrow> byte list" where
  "to_uppercase up s = concat (map (upper_char up) (utf8_chars s))"

definition normalize_logical_key :: "case_table \<Rightarrow> byte list \<Rightarrow> byte list" where
  "normalize_logical_key up key =
     (let normalized = to_uppercase up key in
      if normalized = ascii ''ARROWLEFT'' then ascii ''LEFT''
      else if normalized = ascii ''ARROWRIGHT'' then ascii ''RIGHT''
      else if normalized = ascii ''ARROWUP'' then ascii ''UP''
      else if normalized = ascii ''ARROWDOWN'' then ascii ''DOWN''
      else normalized)"

definition named_keys :: "byte list list" where
  "named_keys =
     map ascii [''BACKSPACE'', ''TAB'', ''ENTER'', ''ESCAPE'', ''SPACE'', ''DELETE'', ''INSERT'', ''HOME'', ''END'',
       ''PAGEUP'', ''PAGEDOWN'', ''LEFT'', ''RIGHT'', ''UP'', ''DOWN'', ''ARROWLEFT'', ''ARROWRIGHT'', ''ARROWUP'',
       ''ARROWDOWN'', ''CONTEXTMENU'', ''PRINTSCREEN'', ''SCROLLLOCK'', ''PAUSE'', ''CAPSLOCK'', ''NUMLOCK'']"

text \<open>\<open>parse::<u8>()\<close>: an optional plus sign and digits.\<close>

fun u8_digits :: "nat \<Rightarrow> byte list \<Rightarrow> nat option" where
  "u8_digits n [] = Some n"
| "u8_digits n (b # bs) =
     (if 48 \<le> b \<and> b \<le> 57 \<and> n * 10 + (unat b - 48) \<le> 255 then u8_digits (n * 10 + (unat b - 48)) bs else None)"

definition parse_u8 :: "byte list \<Rightarrow> nat option" where
  "parse_u8 s =
     (let digits = (case s of b # bs \<Rightarrow> if b = 43 then bs else s | [] \<Rightarrow> s) in
      if digits = [] then None else u8_digits 0 digits)"

definition function_key :: "byte list \<Rightarrow> bool" where
  "function_key normalized \<longleftrightarrow>
     (case Option.bind (strip_prefix (ascii ''F'') normalized) parse_u8 of
        Some n \<Rightarrow> 1 \<le> n \<and> n \<le> 35
      | None \<Rightarrow> False)"

definition empty_chord :: key_chord where
  "empty_chord =
     \<lparr>kc_ctrl = False, kc_alt = False, kc_shift = False, kc_meta = False, kc_key = Logical []\<rparr>"

definition set_modifier :: "byte list \<Rightarrow> key_chord \<Rightarrow> chord_error + key_chord" where
  "set_modifier m c =
     (let name = map ascii_lower m in
      if name = ascii ''ctrl'' then if kc_ctrl c then Inl (RepeatedModifier m) else Inr (c\<lparr>kc_ctrl := True\<rparr>)
      else if name = ascii ''alt'' then if kc_alt c then Inl (RepeatedModifier m) else Inr (c\<lparr>kc_alt := True\<rparr>)
      else if name = ascii ''shift'' then if kc_shift c then Inl (RepeatedModifier m) else Inr (c\<lparr>kc_shift := True\<rparr>)
      else if name = ascii ''meta'' then if kc_meta c then Inl (RepeatedModifier m) else Inr (c\<lparr>kc_meta := True\<rparr>)
      else Inl (UnknownModifier m))"

fun set_modifiers :: "byte list list \<Rightarrow> key_chord \<Rightarrow> chord_error + key_chord" where
  "set_modifiers [] c = Inr c"
| "set_modifiers (m # ms) c = and_then (set_modifier m c) (set_modifiers ms)"

definition logical_key :: "case_table \<Rightarrow> byte list \<Rightarrow> chord_error + key" where
  "logical_key up key =
     (let normalized = normalize_logical_key up key;
          cs = utf8_chars key;
          character = (length cs = 1 \<and> \<not> list_ex is_control cs)
      in
      if \<not> character \<and> normalized \<notin> set named_keys \<and> \<not> function_key normalized then Inl (UnknownKey key)
      else Inr (Logical normalized))"

definition parse_key :: "case_table \<Rightarrow> byte list \<Rightarrow> chord_error + key" where
  "parse_key up key =
     (if key = [] \<or> list_ex is_whitespace (utf8_chars key) then Inl MissingKey
      else
        case strip_prefix (ascii ''Physical:'') key of
          Some code \<Rightarrow> if code = [] then Inl EmptyPhysical else Inr (Physical code)
        | None \<Rightarrow> logical_key up key)"

definition parse_chord :: "case_table \<Rightarrow> byte list \<Rightarrow> chord_error + key_chord" where
  "parse_chord up s =
     (let parts = split_at_chars (\<lambda>b. b = 43) s in
      and_then (set_modifiers (butlast parts) empty_chord) (\<lambda>c.
      and_then (parse_key up (last parts)) (\<lambda>k. Inr (c\<lparr>kc_key := k\<rparr>))))"

definition produces_text :: "key_chord \<Rightarrow> bool" where
  "produces_text c =
     (case kc_key c of
        Logical key \<Rightarrow> length (utf8_chars key) = 1
      | Physical code \<Rightarrow>
          list_ex (\<lambda>p. strip_prefix p code \<noteq> None) (map ascii [''Key'', ''Digit'', ''Intl'']) \<or>
          code \<in> set (map ascii [''Backquote'', ''Backslash'', ''BracketLeft'', ''BracketRight'', ''Comma'', ''Equal'',
            ''Minus'', ''Period'', ''Quote'', ''Semicolon'', ''Slash'', ''Space'']))"

definition chord_label :: "key_chord \<Rightarrow> byte list" where
  "chord_label c =
     (if kc_ctrl c then ascii ''Ctrl+'' else []) @ (if kc_alt c then ascii ''Alt+'' else []) @
     (if kc_shift c then ascii ''Shift+'' else []) @ (if kc_meta c then ascii ''Meta+'' else []) @
     (case kc_key c of
        Logical key \<Rightarrow> key
      | Physical code \<Rightarrow> ascii ''Physical:'' @ code)"

section \<open>Key presses\<close>

record key_press =
  kp_ctrl :: bool
  kp_alt :: bool
  kp_shift :: bool
  kp_meta :: bool
  kp_physical :: "byte list option"
  kp_logical :: "byte list option"
  kp_unmodified :: "byte list option"

definition add_key :: "key list \<Rightarrow> key \<Rightarrow> key list" where
  "add_key keys k = (if k \<in> set keys then keys else keys @ [k])"

definition key_candidates :: "case_table \<Rightarrow> key_press \<Rightarrow> key_chord list" where
  "key_candidates up p =
     (let keys = (case kp_physical p of Some code \<Rightarrow> [Physical code] | None \<Rightarrow> []);
          keys =
            foldl (\<lambda>keys l. case l of None \<Rightarrow> keys | Some l \<Rightarrow> add_key keys (Logical (normalize_logical_key up l)))
              keys [kp_logical p, kp_unmodified p]
      in
      map (\<lambda>k. \<lparr>kc_ctrl = kp_ctrl p, kc_alt = kp_alt p, kc_shift = kp_shift p, kc_meta = kp_meta p, kc_key = k\<rparr>)
        keys)"

section \<open>The key map\<close>

record key_binding =
  kb_command :: "byte list"
  kb_sequence :: "key_chord list"

type_synonym keymap = "key_binding list"

datatype conflict_kind = ExactConflict | PrefixConflict

record key_conflict =
  kx_first :: "byte list"
  kx_second :: "byte list"
  kx_kind :: conflict_kind

record input_context =
  ic_alt_gr :: bool
  ic_ime_composing :: bool
  ic_dead_key :: bool

datatype key_resolution = TextInput | NoKeyMatch | PendingKeys | KeyCommand "byte list"

text \<open>\<open>starts_with\<close>.\<close>

definition starts_with :: "'a list \<Rightarrow> 'a list \<Rightarrow> bool" where
  "starts_with s p \<longleftrightarrow> take (length p) s = p"

definition conflict_of :: "key_binding \<Rightarrow> key_binding \<Rightarrow> key_conflict list" where
  "conflict_of a b =
     (if starts_with (kb_sequence a) (kb_sequence b) \<or> starts_with (kb_sequence b) (kb_sequence a)
      then [\<lparr>kx_first = kb_command a, kx_second = kb_command b,
        kx_kind = (if kb_sequence a = kb_sequence b then ExactConflict else PrefixConflict)\<rparr>]
      else [])"

fun all_conflicts :: "keymap \<Rightarrow> key_conflict list" where
  "all_conflicts [] = []"
| "all_conflicts (a # bs) = concat (map (conflict_of a) bs) @ all_conflicts bs"

definition conflicts :: "keymap \<Rightarrow> key_conflict list" where
  "conflicts bs = sort_key (\<lambda>c. (kx_first c, kx_second c)) (all_conflicts bs)"

text \<open>The errors of a replacement; a conflict comes with the number of the others.\<close>

datatype keymap_error = UnknownTarget "byte list" | ChordCount | Conflicting key_conflict nat

fun check_bindings :: "registry \<Rightarrow> keymap \<Rightarrow> keymap_error + unit" where
  "check_bindings rg [] = Inr ()"
| "check_bindings rg (b # bs) =
     (if dispatch rg (kb_command b) = None then Inl (UnknownTarget (kb_command b))
      else if kb_sequence b = [] \<or> length (kb_sequence b) > 4 then Inl ChordCount
      else check_bindings rg bs)"

definition replace_bindings :: "registry \<Rightarrow> keymap \<Rightarrow> keymap \<Rightarrow> (keymap_error + unit) \<times> keymap" where
  "replace_bindings rg bs km =
     (case check_bindings rg bs of
        Inl err \<Rightarrow> (Inl err, km)
      | Inr _ \<Rightarrow>
          (case conflicts bs of
             [] \<Rightarrow> (Inr (), bs)
           | c # cs \<Rightarrow> (Inl (Conflicting c (length cs)), km)))"

definition resolve_keys :: "keymap \<Rightarrow> key_chord list \<Rightarrow> input_context \<Rightarrow> key_resolution" where
  "resolve_keys km s cx =
     (let alt_gr_text = (ic_alt_gr cx \<and> s \<noteq> [] \<and> produces_text (last s)) in
      if alt_gr_text \<or> ic_ime_composing cx \<or> ic_dead_key cx then TextInput
      else if s = [] then NoKeyMatch
      else
        case List.find (\<lambda>b. kb_sequence b = s) km of
          Some b \<Rightarrow> KeyCommand (kb_command b)
        | None \<Rightarrow> if list_ex (\<lambda>b. starts_with (kb_sequence b) s) km then PendingKeys else NoKeyMatch)"

text \<open>The bindings of a registry's own shortcuts; a shortcut that does not parse panics.\<close>

fun default_bindings :: "case_table \<Rightarrow> command_spec list \<Rightarrow> keymap option" where
  "default_bindings up [] = Some []"
| "default_bindings up (s # ss) =
     (if cs_shortcut s = [] then default_bindings up ss
      else
        case parse_chord up (cs_shortcut s) of
          Inl _ \<Rightarrow> None
        | Inr c \<Rightarrow> map_option (\<lambda>bs. \<lparr>kb_command = cs_id s, kb_sequence = [c]\<rparr> # bs) (default_bindings up ss))"

definition keymap_defaults :: "case_table \<Rightarrow> registry \<Rightarrow> keymap option" where
  "keymap_defaults up rg = default_bindings up (entries rg)"

end
