(* ===== verification/Commands_Properties.thy ===== *)
theory Commands_Properties
  imports Keymap
begin

text \<open>
  The properties of the command registry, of the menus built from it, and of key bindings, with concrete
  registries on which they apply.
\<close>

section \<open>The registry\<close>

text \<open>An entry is filed under its own identifier.\<close>

definition registry_ok :: "registry \<Rightarrow> bool" where
  "registry_ok rg \<longleftrightarrow> keys_sorted (rg_entries rg) \<and> (\<forall>(i, s)\<in>set (rg_entries rg). cs_id s = i)"

lemma register_ok: "registry_ok rg \<Longrightarrow> register s rg = Inr rg' \<Longrightarrow> registry_ok rg'"
  using set_btree_insert [of "cs_id s" s "rg_entries rg"]
  by (auto simp: register_def registry_ok_def btree_insert_sorted split: if_splits)

lemma entry_ids: "registry_ok rg \<Longrightarrow> cs_id ` set (entries rg) = fst ` set (rg_entries rg)"
  by (force simp: registry_ok_def entries_def image_iff)

section \<open>The commands of a menu\<close>

lemma command_order_simps [simp]:
  "command_order [] = []"
  "command_order (item # items) = item_commands item @ command_order items"
  "command_order (items @ items') = command_order items @ command_order items'"
  by (simp_all add: command_order_def)

lemma item_commands_Submenu [simp]: "item_commands (Submenu title items) = command_order items"
  by (simp add: command_order_def)

declare item_commands.simps(2) [simp del]
declare insert_path.simps(2) [simp del]

lemma command_order_separators: "\<forall>item\<in>set items. item = Separator \<Longrightarrow> command_order items = []"
  by (induction items) auto

lemma command_order_drop_trailing [simp]: "command_order (drop_trailing items) = command_order items"
proof -
  let ?p = "\<lambda>item. item = Separator"
  have "items = drop_trailing items @ rev (takeWhile ?p (rev items))"
    by (metis drop_trailing_def rev_append rev_rev_ident takeWhile_dropWhile_id)
  moreover have "command_order (rev (takeWhile ?p (rev items))) = []"
    by (rule command_order_separators) (auto dest: set_takeWhileD)
  ultimately show ?thesis
    by (metis append_Nil2 command_order_simps(3))
qed

lemma command_order_push_separator [simp]: "command_order (push_separator items) = command_order items"
  by (simp add: push_separator_def)

lemma command_order_push_submenu [simp]:
  "command_order (push_submenu title children items) = command_order items @ command_order children"
  using command_order_separators [of children] by (auto simp: push_submenu_def list_ex_iff)

lemma command_order_visible_items:
  "command_order (visible_items rg cx items out) = command_order out @ filter (visible_command rg cx) (command_order items)"
  by (induction rg cx items out rule: visible_items.induct) simp_all

lemma item_commands_fold: "item_commands (fold_single rg item) = item_commands item"
  by (cases "(rg, item)" rule: fold_single.cases) auto

lemma item_commands_collapse: "item_commands (collapse_item rg item) = item_commands item"
  by (induction rg item rule: collapse_item.induct) (auto simp: item_commands_fold command_order_def o_def intro!: arg_cong [where f = concat])

section \<open>The commands placed\<close>

lemma build_menu_commands:
  "build_menu rg ts placed items = (items', placed') \<Longrightarrow>
   \<exists>new. placed' = placed \<union> new \<and> new \<subseteq> fst ` set (rg_entries rg) \<and>
     set (command_order items') = set (command_order items) \<union> {i \<in> new. shown rg i}"
proof (induction rg ts placed items arbitrary: items' placed' rule: build_menu.induct)
  case (1 rg placed items)
  then show ?case
    by (intro exI [of _ "{}"]) auto
next
  case (2 rg ts placed items)
  then show ?case
    by simp
next
  case (3 rg i ts placed items)
  show ?case
  proof (cases "lookup_command rg i")
    case None
    with 3 show ?thesis
      by simp
  next
    case (Some j)
    then have j: "j = i" "i \<in> fst ` set (rg_entries rg)"
      by (simp_all add: lookup_command_id split: if_splits)
    have "build_menu rg ts (insert i placed) (if shown rg i then items @ [Command i] else items) = (items', placed')"
      using "3.prems" Some j(1) by simp
    from "3.IH"(2) [OF Some, unfolded j(1), OF this] obtain new where "placed' = insert i placed \<union> new"
      "new \<subseteq> fst ` set (rg_entries rg)"
      "set (command_order items') = set (command_order (if shown rg i then items @ [Command i] else items)) \<union> {k \<in> new. shown rg k}"
      by blast
    with j show ?thesis
      by (intro exI [of _ "insert i new"]) auto
  qed
next
  case (4 rg title cs ts placed items)
  obtain children placed1 where c: "build_menu rg cs placed [] = (children, placed1)"
    by fastforce
  with "4.IH"(1) [OF c] obtain new1 where new1: "placed1 = placed \<union> new1" "new1 \<subseteq> fst ` set (rg_entries rg)"
    "set (command_order children) = {i \<in> new1. shown rg i}"
    by auto
  from "4.IH"(2) [OF c [symmetric]] "4.prems" c obtain new2 where "placed' = placed1 \<union> new2"
    "new2 \<subseteq> fst ` set (rg_entries rg)"
    "set (command_order items') = set (command_order (push_submenu title children items)) \<union> {i \<in> new2. shown rg i}"
    by auto
  with new1 show ?case
    by (intro exI [of _ "new1 \<union> new2"]) auto
qed

text \<open>The place that \<open>insert_path\<close> descends into.\<close>

lemma insert_path_step:
  obtains xs children ys where "insert_path items (title # rest) i = xs @ Submenu title (insert_path children rest i) # ys"
    "items = xs @ Submenu title children # ys \<or> items = xs \<and> children = [] \<and> ys = []"
proof -
  let ?p = "is_submenu title"
  define k where "k = partition_point (\<lambda>x. \<not> ?p x) items"
  show thesis
  proof (cases "k < length items")
    case True
    then have "?p (items ! k)"
      using nth_length_takeWhile [of "\<lambda>x. \<not> ?p x" items] by (simp add: k_def partition_point_def)
    then obtain children where child: "items ! k = Submenu title children"
      by (auto simp: is_submenu_def split: menu_item.splits)
    have "insert_path items (title # rest) i = items[k := Submenu title (insert_path children rest i)]"
      unfolding insert_path.simps(2) Let_def k_def [symmetric] using True child by simp
    then have "insert_path items (title # rest) i = take k items @ Submenu title (insert_path children rest i) # drop (Suc k) items"
      by (simp only: upd_conv_take_nth_drop [OF True])
    then show thesis
      using that id_take_nth_drop [OF True] child by metis
  next
    case False
    then have "k = length items"
      using length_takeWhile_le [of "\<lambda>x. \<not> ?p x" items] by (simp add: k_def partition_point_def)
    then have "insert_path items (title # rest) i = items @ [Submenu title (insert_path [] rest i)]"
      unfolding insert_path.simps(2) Let_def k_def [symmetric] by (simp add: list_update_append)
    then show thesis
      using that [of items "[]" "[]"] by simp
  qed
qed

lemma insert_path_commands: "set (command_order (insert_path items path i)) = insert i (set (command_order items))"
proof (induction path arbitrary: items)
  case (Cons title rest)
  obtain xs children ys where step: "insert_path items (title # rest) i = xs @ Submenu title (insert_path children rest i) # ys"
    "items = xs @ Submenu title children # ys \<or> items = xs \<and> children = [] \<and> ys = []"
    by (rule insert_path_step)
  have "set (command_order (insert_path items (title # rest) i)) =
      set (command_order xs) \<union> insert i (set (command_order children)) \<union> set (command_order ys)"
    by (simp add: step(1) Cons.IH Un_assoc)
  moreover have "set (command_order items) = set (command_order xs) \<union> set (command_order children) \<union> set (command_order ys)"
    using step(2) by (elim disjE) (simp_all add: Un_assoc)
  ultimately show ?case
    by simp
qed simp

lemma route_commands:
  "set (command_order (route rg tops placed items s)) =
     (if cs_id s \<in> placed \<or> \<not> shown rg (cs_id s) then set (command_order items)
      else insert (cs_id s) (set (command_order items)))"
  by (auto simp: route_def insert_path_commands split: list.splits)

lemma routes_commands:
  "set (command_order (foldl (route rg tops placed) items ss)) =
     set (command_order items) \<union> {i \<in> cs_id ` set ss. i \<notin> placed \<and> shown rg i}"
  by (induction ss arbitrary: items) (auto simp: route_commands)

section \<open>Separators\<close>

text \<open>No separator leads, trails or stands beside another, at any level; no submenu is empty.\<close>

definition separated :: "menu_item list \<Rightarrow> bool" where
  "separated items \<longleftrightarrow>
     (let ss = map (\<lambda>item. item = Separator) items in
      ss = [] \<or> \<not> hd ss \<and> \<not> last ss \<and> successively (\<lambda>a b. \<not> (a \<and> b)) ss)"

fun lined_item :: "menu_item \<Rightarrow> bool" where
  "lined_item (Submenu title items) = (separated items \<and> list_all lined_item items)"
| "lined_item item = True"

fun filled_item :: "menu_item \<Rightarrow> bool" where
  "filled_item (Submenu title items) = (items \<noteq> [] \<and> list_all filled_item items)"
| "filled_item item = True"

definition lined :: "menu_item list \<Rightarrow> bool" where
  "lined items \<longleftrightarrow> separated items \<and> list_all lined_item items"

definition filled :: "menu_item list \<Rightarrow> bool" where
  "filled items \<longleftrightarrow> list_all filled_item items"

text \<open>The items collected so far: like a finished list, but it may end in a separator.\<close>

definition opened :: "menu_item list \<Rightarrow> bool" where
  "opened items \<longleftrightarrow>
     (items = [] \<or> hd items \<noteq> Separator \<and> successively (\<lambda>a b. \<not> (a = Separator \<and> b = Separator)) items) \<and>
     list_all lined_item items \<and> list_all filled_item items"

lemma opened_push [simp]:
  "opened out \<Longrightarrow> opened (out @ [Command i])"
  "opened out \<Longrightarrow> opened (push_separator out)"
  "opened out \<Longrightarrow> lined children \<Longrightarrow> filled children \<Longrightarrow> opened (push_submenu title children out)"
  "opened []"
  by (auto simp: opened_def push_separator_def push_submenu_def successively_append_iff lined_def filled_def hd_append)

lemma opened_append: "opened (xs @ ys) \<Longrightarrow> opened xs"
  by (cases "xs = []") (auto simp: opened_def successively_append_iff)

lemma opened_finished: "opened out \<Longrightarrow> lined (drop_trailing out) \<and> filled (drop_trailing out)"
proof -
  assume out: "opened out"
  let ?p = "\<lambda>item. item = Separator"
  have "out = drop_trailing out @ rev (takeWhile ?p (rev out))"
    by (metis drop_trailing_def rev_append rev_rev_ident takeWhile_dropWhile_id)
  with out have kept: "opened (drop_trailing out)"
    by (metis opened_append)
  have "last (drop_trailing out) \<noteq> Separator" if "drop_trailing out \<noteq> []"
    using that hd_dropWhile [of ?p "rev out"] by (auto simp: drop_trailing_def last_rev)
  with kept show ?thesis
    by (auto simp: opened_def lined_def filled_def separated_def Let_def hd_map last_map successively_map)
qed

lemma visible_items_lined:
  "opened out \<Longrightarrow> lined (visible_items rg cx items out) \<and> filled (visible_items rg cx items out)"
  by (induction rg cx items out rule: visible_items.induct) (simp_all add: opened_finished)

lemma build_menu_lined:
  "opened items \<Longrightarrow> build_menu rg ts placed items = (items', placed') \<Longrightarrow> lined items' \<and> filled items'"
proof (induction rg ts placed items arbitrary: items' placed' rule: build_menu.induct)
  case (1 rg placed items)
  then show ?case
    using opened_finished by auto
next
  case (3 rg i ts placed items)
  then show ?case
    by (fastforce split: option.splits)
next
  case (4 rg title cs ts placed items)
  obtain children placed1 where c: "build_menu rg cs placed [] = (children, placed1)"
    by fastforce
  from "4.IH"(1) [OF opened_push(4) c] have "opened (push_submenu title children items)"
    using "4.prems"(1) opened_push(3) by blast
  moreover have "build_menu rg ts placed1 (push_submenu title children items) = (items', placed')"
    using "4.prems"(2) c by simp
  ultimately show ?case
    by (rule "4.IH"(2) [OF c [symmetric]])
qed simp

lemma separated_simps:
  "separated items \<Longrightarrow> item \<noteq> Separator \<Longrightarrow> separated (items @ [item])"
  "item \<noteq> Separator \<Longrightarrow> item' \<noteq> Separator \<Longrightarrow> separated (xs @ item # ys) \<Longrightarrow> separated (xs @ item' # ys)"
  "(\<And>item. (f item = Separator) = (item = Separator)) \<Longrightarrow> separated (map f items) = separated items"
  by (auto simp: separated_def Let_def successively_append_iff hd_append o_def split: if_splits)

lemma separated_Nil: "separated []"
  by (simp add: separated_def)

lemma insert_path_lined: "lined items \<Longrightarrow> lined (insert_path items path i)"
proof (induction path arbitrary: items)
  case (Cons title rest)
  obtain xs children ys where step: "insert_path items (title # rest) i = xs @ Submenu title (insert_path children rest i) # ys"
    "items = xs @ Submenu title children # ys \<or> items = xs \<and> children = [] \<and> ys = []"
    by (rule insert_path_step)
  have new: "lined (insert_path children rest i)"
    using Cons.prems step(2) by (intro Cons.IH) (auto simp: lined_def separated_Nil)
  from step(2) Cons.prems have "separated (insert_path items (title # rest) i)"
    unfolding step(1) by (auto simp: lined_def intro: separated_simps)
  with new step Cons.prems show ?case
    by (auto simp: lined_def)
qed (simp add: lined_def separated_simps)

lemma fold_single_separator: "fold_single rg item = Separator \<longleftrightarrow> item = Separator"
  by (cases "(rg, item)" rule: fold_single.cases) auto

lemma fold_single_lined: "lined_item item \<Longrightarrow> lined_item (fold_single rg item)"
  by (cases "(rg, item)" rule: fold_single.cases) auto

lemma collapse_separator: "collapse_item rg item = Separator \<longleftrightarrow> item = Separator"
  by (cases item) auto

lemma collapse_item_lined: "lined_item item \<Longrightarrow> lined_item (collapse_item rg item)"
proof (induction rg item rule: collapse_item.induct)
  case (1 rg title items)
  then show ?case
    by (auto simp: separated_simps(3) fold_single_separator collapse_separator list_all_iff intro!: fold_single_lined)
qed simp_all

lemma collapse_lined: "lined items \<Longrightarrow> lined (map (collapse_item rg) items)"
  by (auto simp: lined_def separated_simps(3) collapse_separator list_all_iff intro: collapse_item_lined)

lemma routes_lined: "lined items \<Longrightarrow> lined (foldl (route rg tops placed) items ss)"
  by (induction ss arbitrary: items) (auto simp: route_def insert_path_lined split: list.splits)

section \<open>Menus\<close>

text \<open>C22: No command is unreachable: the menu built from a hand-written tree holds exactly the commands
  of the registry that are neither internal nor for the palette alone, those the tree forgets under
  their declared path or under Tools, whatever the tree is, and no separator in it leads, trails or
  doubles.\<close>
theorem curated_reaches_all:
  assumes "registry_ok rg"
  shows "set (command_order (curated rg tree)) = {i. spec rg i \<noteq> None \<and> shown rg i} \<and> lined (curated rg tree)"
proof -
  obtain items placed where built: "build_menu rg tree {} [] = (items, placed)"
    by fastforce
  define tooled where "tooled = (if list_ex (is_submenu TOOLS) items then items else items @ [Submenu TOOLS []])"
  have curated: "curated rg tree = map (collapse_item rg) (foldl (route rg (submenu_titles tooled) placed) tooled (entries rg))"
    by (simp add: curated_def built tooled_def Let_def)
  have "set (command_order tooled) = {i \<in> placed. shown rg i}" "placed \<subseteq> fst ` set (rg_entries rg)"
    using build_menu_commands [OF built] by (auto simp: tooled_def)
  moreover have "command_order (map (collapse_item rg) xs) = command_order xs" for xs
    by (simp add: command_order_def o_def item_commands_collapse)
  ultimately have "set (command_order (curated rg tree)) = {i \<in> fst ` set (rg_entries rg). shown rg i}"
    by (auto simp: curated routes_commands entry_ids [OF assms, symmetric])
  moreover have "fst ` set (rg_entries rg) = {i. spec rg i \<noteq> None}"
    by (auto simp: spec_def map_of_eq_None_iff)
  moreover have "lined tooled"
    using build_menu_lined [OF _ built] by (auto simp: tooled_def lined_def separated_simps(1) separated_Nil)
  ultimately show ?thesis
    by (simp add: curated collapse_lined routes_lined)
qed

text \<open>What a menu shows in a context is, in the same order, exactly its commands that are neither internal nor
  hidden there, in no empty submenu and with no separator that leads, trails or doubles.\<close>
theorem visible_menu:
  "command_order (visible rg cx items) = filter (visible_command rg cx) (command_order items) \<and>
   lined (visible rg cx items) \<and> filled (visible rg cx items)"
  by (simp add: visible_def command_order_visible_items visible_items_lined)

definition sample_spec :: "byte list \<Rightarrow> command_spec" where
  "sample_spec i = \<lparr>cs_id = i, cs_title = i, cs_category = ascii ''View'', cs_shortcut = [], cs_action = Contributed i\<rparr>"

definition sample_registry :: registry where
  "sample_registry =
     \<lparr>rg_entries = [([97], sample_spec [97]), ([98], sample_spec [98]), ([99], sample_spec [99])],
      rg_presentations = [([98], presentation_default\<lparr>pr_internal := True\<rparr>)], rg_contributions = []\<rparr>"

text \<open>The tree places the first command between separators; the second is internal, the third forgotten.\<close>

theorem curated_reaches_all_witness:
  "set (command_order (curated sample_registry
     [SeparatorTemplate, CommandTemplate [97], SeparatorTemplate, SubmenuTemplate [100] [CommandTemplate [98]]])) = {[97], [99]}"
proof -
  have "registry_ok sample_registry"
    by (simp add: registry_ok_def sample_registry_def sample_spec_def)
  moreover have "{i. spec sample_registry i \<noteq> None \<and> shown sample_registry i} = {[97], [99]}"
    by (auto simp: spec_def shown_def is_internal_def placement_of_def presentation_of_def sample_registry_def
        presentation_default_def split: if_splits)
  ultimately show ?thesis
    using curated_reaches_all [of sample_registry "[SeparatorTemplate, CommandTemplate [97], SeparatorTemplate,
      SubmenuTemplate [100] [CommandTemplate [98]]]"] by simp
qed

section \<open>Contributions\<close>

text \<open>Records are filed under their owner and identifier.\<close>

definition contributions_ok :: "contributions \<Rightarrow> bool" where
  "contributions_ok cs \<longleftrightarrow> keys_sorted cs \<and>
     (\<forall>(k, r)\<in>set cs. k = [dy_owner (dr_identity r), dy_id (dr_identity r)]) \<and> length cs \<le> 1024"

definition filed :: "dynamic_record \<Rightarrow> byte list list \<times> dynamic_record" where
  "filed r = ([dy_owner (dr_identity r), dy_id (dr_identity r)], r)"

lemma replacement_filed:
  "replacement owner rs acc = Inr new \<Longrightarrow> keys_sorted acc \<Longrightarrow>
     keys_sorted new \<and> set new = set acc \<union> filed ` set rs \<and> length new = length acc + length rs \<and>
     (\<forall>r\<in>set rs. dy_owner (dr_identity r) = owner)"
proof (induction rs arbitrary: acc)
  case (Cons r rs)
  let ?k = "[owner, dy_id (dr_identity r)]"
  have r: "dy_owner (dr_identity r) = owner" "map_of acc ?k = None" "replacement owner rs (btree_insert ?k r acc) = Inr new"
    using Cons.prems(1) by (auto simp: valid_record_def Let_def split: if_splits)
  from Cons.IH [OF r(3) btree_insert_sorted [OF Cons.prems(2)]] btree_insert_new [OF r(2), of r] r(1) show ?case
    by (auto simp: filed_def)
qed simp

lemma extend_records_disjoint:
  "keys_sorted cs \<Longrightarrow> distinct (map fst new) \<Longrightarrow> \<forall>k\<in>fst ` set new. k \<notin> fst ` set cs \<Longrightarrow>
     keys_sorted (extend_records cs new) \<and> set (extend_records cs new) = set cs \<union> set new \<and>
     length (extend_records cs new) = length cs + length new"
  unfolding extend_records_def
proof (induction new arbitrary: cs)
  case (Cons kr new)
  obtain k r where kr: "kr = (k, r)"
    by (cases kr)
  have "map_of cs k = None"
    using Cons.prems(3) kr by (auto simp: map_of_eq_None_iff)
  note insert = btree_insert_new [OF this, of r]
  have "\<forall>k'\<in>fst ` set new. k' \<notin> fst ` set (btree_insert k r cs)"
    using Cons.prems(2,3) insert kr by auto
  from Cons.IH [OF btree_insert_sorted [OF Cons.prems(1)] _ this] Cons.prems(2) insert kr show ?case
    by auto
qed simp

text \<open>An owner's contributions are replaced as a whole: on success its identities, with their
  generation, resolve exactly to its new enabled records, so that one of an earlier generation
  resolves to nothing, those of every other owner resolve as before, and the records stay in order,
  filed under their identities and at most 1024.\<close>
theorem contributions_replaced:
  assumes "contributions_ok cs" "replace_owner owner rs cs = Inr cs'"
  shows "contributions_ok cs' \<and>
    (\<forall>i r. resolve_dynamic i cs' = Some r \<longleftrightarrow>
       (if dy_owner i = owner then r \<in> set rs \<and> dr_identity r = i \<and> dr_enabled r
        else resolve_dynamic i cs = Some r))"
proof -
  obtain new where new: "replacement owner rs [] = Inr new" "cs' = extend_records (remove_owner owner cs) new"
    and limit: "length (remove_owner owner cs) + length rs \<le> 1024"
    using assms(2) by (auto simp: replace_owner_def and_then_Inr_iff split: if_splits)
  have sorted: "keys_sorted cs" "keys_sorted (remove_owner owner cs)"
    using assms(1) keys_sorted_filter by (auto simp: contributions_ok_def remove_owner_def)
  from replacement_filed [OF new(1)] have filed: "keys_sorted new" "set new = filed ` set rs" "length new = length rs"
    "\<forall>r\<in>set rs. dy_owner (dr_identity r) = owner"
    by simp_all
  have "\<forall>k\<in>fst ` set new. k \<notin> fst ` set (remove_owner owner cs)"
    using filed(2,4) by (auto simp: filed_def remove_owner_def owned_by_def)
  note extended = extend_records_disjoint [OF sorted(2) keys_sorted_distinct [OF filed(1)] this, folded new(2)]
  have ok: "contributions_ok cs'"
    using extended limit filed assms(1) by (auto simp: contributions_ok_def remove_owner_def filed_def)
  have resolved: "resolve_dynamic i xs = Some r \<longleftrightarrow> ([dy_owner i, dy_id i], r) \<in> set xs \<and> dr_identity r = i \<and> dr_enabled r"
    if "keys_sorted xs" for xs i r
    by (auto simp: resolve_dynamic_def keys_sorted_map_of [OF that, symmetric] split: option.splits if_splits)
  have "([dy_owner i, dy_id i], r) \<in> set cs' \<and> dr_identity r = i \<and> dr_enabled r \<longleftrightarrow>
      (if dy_owner i = owner then r \<in> set rs \<and> dr_identity r = i \<and> dr_enabled r
       else ([dy_owner i, dy_id i], r) \<in> set cs \<and> dr_identity r = i \<and> dr_enabled r)" for i r
    using extended filed(2,4) by (auto simp: filed_def remove_owner_def owned_by_def)
  with ok resolved extended sorted(1) show ?thesis
    by simp
qed

definition sample_record :: "nat \<Rightarrow> dynamic_record" where
  "sample_record generation =
     \<lparr>dr_identity = \<lparr>dy_owner = [97], dy_id = [98], dy_generation = generation\<rparr>, dr_title = [99], dr_enabled = True,
      dr_disabled_reason = None\<rparr>"

theorem contributions_replaced_witness:
  "\<exists>cs. replace_owner [97] [sample_record 2] [filed (sample_record 1)] = Inr cs \<and>
     resolve_dynamic (dr_identity (sample_record 2)) cs = Some (sample_record 2) \<and>
     resolve_dynamic (dr_identity (sample_record 1)) cs = None"
proof -
  have "contributions_ok [filed (sample_record 1)]"
    by (simp add: contributions_ok_def filed_def)
  moreover obtain cs where cs: "replace_owner [97] [sample_record 2] [filed (sample_record 1)] = Inr cs"
    by (simp add: replace_owner_def remove_owner_def owned_by_def filed_def valid_record_def valid_name_def sample_record_def
        alphanumeric_byte_def Let_def)
  ultimately have "\<forall>i r. resolve_dynamic i cs = Some r \<longleftrightarrow>
      (if dy_owner i = [97] then r \<in> set [sample_record 2] \<and> dr_identity r = i \<and> dr_enabled r
       else resolve_dynamic i [filed (sample_record 1)] = Some r)"
    using contributions_replaced [of "[filed (sample_record 1)]" "[97]" "[sample_record 2]" cs] by simp
  then have "resolve_dynamic (dr_identity (sample_record 2)) cs = Some (sample_record 2)"
    "\<not> (\<exists>r. resolve_dynamic (dr_identity (sample_record 1)) cs = Some r)"
    by (simp_all add: sample_record_def)
  with cs show ?thesis
    by auto
qed

end
