(* ===== verification/Keymap_Properties.thy ===== *)
theory Keymap_Properties
  imports Commands_Properties
begin

text \<open>
  The properties of key bindings: a map that was accepted is unambiguous, a refused one changes nothing,
  and the name of a chord reads back as the chord, but for keys whose upper-case form is longer.
\<close>

section \<open>Conflicts\<close>

definition clear_of :: "key_binding \<Rightarrow> key_binding \<Rightarrow> bool" where
  "clear_of a b \<longleftrightarrow>
     \<not> starts_with (kb_sequence a) (kb_sequence b) \<and> \<not> starts_with (kb_sequence b) (kb_sequence a)"

lemma all_conflicts_Nil: "all_conflicts bs = [] \<longleftrightarrow> sorted_wrt clear_of bs"
  by (induction bs) (auto simp: conflict_of_def clear_of_def split: if_splits)

lemma conflicts_Nil: "conflicts bs = [] \<longleftrightarrow> sorted_wrt clear_of bs"
  by (metis all_conflicts_Nil conflicts_def length_0_conv length_sort)

lemma all_conflicts_pair:
  "c \<in> set (all_conflicts bs) \<Longrightarrow> \<exists>i j. i < j \<and> j < length bs \<and> c \<in> set (conflict_of (bs ! i) (bs ! j))"
proof (induction bs)
  case (Cons a bs)
  consider b where "b \<in> set bs" "c \<in> set (conflict_of a b)" | "c \<in> set (all_conflicts bs)"
    using Cons.prems by auto
  then show ?case
  proof cases
    case 1
    then obtain j where "j < length bs" "bs ! j = b"
      by (auto simp: in_set_conv_nth)
    with 1 show ?thesis
      by (intro exI [of _ 0] exI [of _ "Suc j"]) simp
  next
    case 2
    with Cons.IH obtain i j where "i < j" "j < length bs" "c \<in> set (conflict_of (bs ! i) (bs ! j))"
      by auto
    then show ?thesis
      by (intro exI [of _ "Suc i"] exI [of _ "Suc j"]) simp
  qed
qed simp

lemma starts_with_iff: "starts_with s p \<longleftrightarrow> (\<exists>keys. s = p @ keys)"
  by (metis append_eq_conv_conj append_take_drop_id starts_with_def)

text \<open>Two bindings of an unambiguous map that share a start are the same one.\<close>

lemma clear_same:
  assumes "sorted_wrt clear_of bs" "i < length bs" "j < length bs" "starts_with (kb_sequence (bs ! i)) (kb_sequence (bs ! j))"
  shows "i = j"
proof (rule ccontr)
  assume "i \<noteq> j"
  then have "clear_of (bs ! min i j) (bs ! max i j)"
    using assms(1-3) by (auto simp: sorted_wrt_iff_nth_less min_def max_def)
  with assms(4) show False
    by (auto simp: clear_of_def min_def max_def split: if_splits)
qed

definition plain_input :: input_context where
  "plain_input = \<lparr>ic_alt_gr = False, ic_ime_composing = False, ic_dead_key = False\<rparr>"

lemma resolve_plain:
  "resolve_keys km s plain_input =
     (if s = [] then NoKeyMatch
      else
        case List.find (\<lambda>b. kb_sequence b = s) km of
          Some b \<Rightarrow> KeyCommand (kb_command b)
        | None \<Rightarrow> if \<exists>b\<in>set km. starts_with (kb_sequence b) s then PendingKeys else NoKeyMatch)"
  by (auto simp: resolve_keys_def plain_input_def list_ex_iff split: option.split)

lemma resolve_unambiguous:
  assumes "sorted_wrt clear_of bs" "b \<in> set bs" "kb_sequence b \<noteq> []"
  shows "resolve_keys bs (kb_sequence b) plain_input = KeyCommand (kb_command b)"
    "0 < n \<Longrightarrow> n < length (kb_sequence b) \<Longrightarrow> resolve_keys bs (take n (kb_sequence b)) plain_input = PendingKeys"
    "keys \<noteq> [] \<Longrightarrow> resolve_keys bs (kb_sequence b @ keys) plain_input = NoKeyMatch"
proof -
  have same: "b' = b" if "b' \<in> set bs" "starts_with (kb_sequence b') (kb_sequence b) \<or> starts_with (kb_sequence b) (kb_sequence b')" for b'
  proof -
    obtain i j where "i < length bs" "j < length bs" "bs ! i = b" "bs ! j = b'"
      using assms(2) \<open>b' \<in> set bs\<close> by (auto simp: in_set_conv_nth)
    with that(2) clear_same [OF assms(1), of i j] clear_same [OF assms(1), of j i] show ?thesis
      by auto
  qed
  have start: "starts_with s s" for s :: "key_chord list"
    by (simp add: starts_with_def)
  obtain b' where "List.find (\<lambda>b'. kb_sequence b' = kb_sequence b) bs = Some b'" "b' \<in> set bs" "kb_sequence b' = kb_sequence b"
    using assms(2) by (cases "List.find (\<lambda>b'. kb_sequence b' = kb_sequence b) bs") (auto simp: find_None_iff find_Some_iff)
  then show "resolve_keys bs (kb_sequence b) plain_input = KeyCommand (kb_command b)"
    using same [of b'] start assms(3) by (simp add: resolve_plain)
  show "resolve_keys bs (take n (kb_sequence b)) plain_input = PendingKeys" if "0 < n" "n < length (kb_sequence b)"
  proof -
    have "starts_with (kb_sequence b) (take n (kb_sequence b))"
      by (metis append_take_drop_id starts_with_iff)
    moreover have "kb_sequence b' \<noteq> take n (kb_sequence b)" if "b' \<in> set bs" for b'
    proof
      assume eq: "kb_sequence b' = take n (kb_sequence b)"
      with same [OF that] \<open>starts_with (kb_sequence b) (take n (kb_sequence b))\<close> have "b' = b"
        by simp
      with eq \<open>n < length (kb_sequence b)\<close> have "length (kb_sequence b) \<le> n"
        by (metis length_take min.cobounded2)
      with \<open>n < length (kb_sequence b)\<close> show False
        by simp
    qed
    then have "List.find (\<lambda>b'. kb_sequence b' = take n (kb_sequence b)) bs = None"
      by (auto simp: find_None_iff)
    ultimately show ?thesis
      using that assms(2,3) by (auto simp: resolve_plain)
  qed
  show "resolve_keys bs (kb_sequence b @ keys) plain_input = NoKeyMatch" if "keys \<noteq> []"
  proof -
    have none: "\<not> starts_with (kb_sequence b') (kb_sequence b @ keys)" if "b' \<in> set bs" for b'
    proof
      assume longer: "starts_with (kb_sequence b') (kb_sequence b @ keys)"
      then have "starts_with (kb_sequence b') (kb_sequence b)"
        by (auto simp: starts_with_iff)
      with same [OF that] longer \<open>keys \<noteq> []\<close> show False
        by (auto simp: starts_with_iff)
    qed
    then have "List.find (\<lambda>b'. kb_sequence b' = kb_sequence b @ keys) bs = None"
      using start by (auto simp: find_None_iff) metis
    with none assms(3) show ?thesis
      by (auto simp: resolve_plain)
  qed
qed

lemma check_bindings_Inr:
  "check_bindings rg bs = Inr () \<longleftrightarrow>
     (\<forall>b\<in>set bs. dispatch rg (kb_command b) \<noteq> None \<and> kb_sequence b \<noteq> [] \<and> length (kb_sequence b) \<le> 4)"
  by (induction bs) auto

lemma check_bindings_Inl:
  "check_bindings rg bs = Inl err \<Longrightarrow>
     \<exists>b\<in>set bs. (err = UnknownTarget (kb_command b) \<and> dispatch rg (kb_command b) = None) \<or>
       (err = ChordCount \<and> (kb_sequence b = [] \<or> length (kb_sequence b) > 4))"
  by (induction bs) (auto split: if_splits)

text \<open>C21: Replacing the key map is atomic, and a map that is accepted is unambiguous: every binding
  names a registered command and has one to four chords; pressing its chords one by one is pending up
  to the last one and then gives its command, and no longer sequence gives anything. A map that is
  refused leaves the old one, and the error names a fault the new one has.\<close>
theorem keymap_replaced:
  "case replace_bindings rg bs km of
     (Inr _, km') \<Rightarrow> km' = bs \<and>
       (\<forall>b\<in>set bs.
          dispatch rg (kb_command b) \<noteq> None \<and> kb_sequence b \<noteq> [] \<and> length (kb_sequence b) \<le> 4 \<and>
          resolve_keys km' (kb_sequence b) plain_input = KeyCommand (kb_command b) \<and>
          (\<forall>n\<in>{1..<length (kb_sequence b)}. resolve_keys km' (take n (kb_sequence b)) plain_input = PendingKeys) \<and>
          (\<forall>keys. keys \<noteq> [] \<longrightarrow> resolve_keys km' (kb_sequence b @ keys) plain_input = NoKeyMatch))
   | (Inl err, km') \<Rightarrow> km' = km \<and>
       (case err of
          UnknownTarget i \<Rightarrow> \<exists>b\<in>set bs. kb_command b = i \<and> dispatch rg i = None
        | ChordCount \<Rightarrow> \<exists>b\<in>set bs. kb_sequence b = [] \<or> length (kb_sequence b) > 4
        | Conflicting c n \<Rightarrow> \<exists>i j. i < j \<and> j < length bs \<and> c \<in> set (conflict_of (bs ! i) (bs ! j)) \<and>
            length (all_conflicts bs) = n + 1)"
proof (cases "check_bindings rg bs")
  case (Inl err)
  with check_bindings_Inl [OF Inl] show ?thesis
    by (auto simp: replace_bindings_def)
next
  case (Inr u)
  then have ok: "\<forall>b\<in>set bs. dispatch rg (kb_command b) \<noteq> None \<and> kb_sequence b \<noteq> [] \<and> length (kb_sequence b) \<le> 4"
    by (simp add: check_bindings_Inr)
  show ?thesis
  proof (cases "conflicts bs")
    case Nil
    then have clear: "sorted_wrt clear_of bs"
      by (simp add: conflicts_Nil)
    have run: "replace_bindings rg bs km = (Inr (), bs)"
      using Inr Nil by (simp add: replace_bindings_def)
    show ?thesis
      unfolding run using ok resolve_unambiguous [OF clear] by simp
  next
    case (Cons c cs)
    have run: "replace_bindings rg bs km = (Inl (Conflicting c (length cs)), km)"
      using Inr Cons by (simp add: replace_bindings_def)
    have "set (conflicts bs) = set (all_conflicts bs)" "length (conflicts bs) = length (all_conflicts bs)"
      by (simp_all add: conflicts_def)
    with Cons have "c \<in> set (all_conflicts bs)" "length (all_conflicts bs) = length cs + 1"
      by auto
    with all_conflicts_pair [of c bs] show ?thesis
      unfolding run by simp
  qed
qed

definition sample_bindings :: keymap where
  "sample_bindings =
     (let k = empty_chord\<lparr>kc_ctrl := True, kc_key := Logical [75]\<rparr>;
          n = empty_chord\<lparr>kc_ctrl := True, kc_key := Logical [78]\<rparr>
      in [\<lparr>kb_command = [97], kb_sequence = [n]\<rparr>, \<lparr>kb_command = [99], kb_sequence = [k, n]\<rparr>])"

theorem keymap_replaced_witness:
  "replace_bindings sample_registry sample_bindings [] = (Inr (), sample_bindings) \<and>
   resolve_keys sample_bindings (kb_sequence (sample_bindings ! 1)) plain_input = KeyCommand [99] \<and>
   resolve_keys sample_bindings (take 1 (kb_sequence (sample_bindings ! 1))) plain_input = PendingKeys"
proof -
  have "replace_bindings sample_registry sample_bindings [] = (Inr (), sample_bindings)"
    by (simp add: replace_bindings_def sample_bindings_def dispatch_def sample_registry_def conflicts_def
        conflict_of_def starts_with_def empty_chord_def Let_def)
  moreover have "sample_bindings ! 1 \<in> set sample_bindings" "length (kb_sequence (sample_bindings ! 1)) = 2"
    "kb_command (sample_bindings ! 1) = [99]"
    by (simp_all add: sample_bindings_def Let_def)
  ultimately show ?thesis
    using keymap_replaced [where rg = sample_registry and bs = sample_bindings and km = "[]"] by fastforce
qed

section \<open>Names of chords\<close>

lemma split_at_chars_part:
  "\<forall>a\<in>set x. \<not> p a \<Longrightarrow> split_at_chars p x = [x]"
  "\<forall>a\<in>set x. \<not> p a \<Longrightarrow> p b \<Longrightarrow> split_at_chars p (x @ b # y) = x # split_at_chars p y"
  by (induction x) auto

lemma split_at_chars_parts:
  "split_at_chars p s \<noteq> []" "w \<in> set (split_at_chars p s) \<Longrightarrow> a \<in> set w \<Longrightarrow> \<not> p a \<and> a \<in> set s"
  by (induction s arbitrary: w) (auto split: list.splits if_splits, blast+)

definition ascii_text :: "byte list \<Rightarrow> bool" where
  "ascii_text s \<longleftrightarrow> (\<forall>b\<in>set s. b < 128)"

lemma utf8_chars_ascii: "ascii_text s \<Longrightarrow> utf8_chars s = map (\<lambda>b. [b]) s"
proof (induction s)
  case (Cons b s)
  then have "utf8_width b = 1"
    by (simp add: ascii_text_def utf8_width_def word_less_nat_alt)
  with Cons show ?case
    by (subst utf8_chars.simps) (simp add: ascii_text_def)
qed simp

definition ascii_upper :: "byte \<Rightarrow> byte" where
  "ascii_upper b = (if 97 \<le> b \<and> b \<le> 122 then b - 32 else b)"

lemma to_uppercase_ascii: "ascii_text s \<Longrightarrow> to_uppercase up s = map ascii_upper s"
  by (simp add: to_uppercase_def utf8_chars_ascii upper_char_def ascii_upper_def o_def)

lemma unat_upper: "unat (ascii_upper b) = (if 97 \<le> unat b \<and> unat b \<le> 122 then unat b - 32 else unat b)"
  by (simp add: ascii_upper_def word_le_nat_alt unat_sub)

lemma upper_idem [simp]: "ascii_upper (ascii_upper b) = ascii_upper b"
  by (auto simp: word_unat_eq_iff unat_upper)

lemma char_code_single [simp]: "char_code [b] = unat b"
  by (simp add: char_code_def)

lemma ascii_upper_all:
  "(b < 128 \<longrightarrow> ascii_upper b < 128) \<and> ascii_upper (ascii_upper b) = ascii_upper b \<and> (ascii_upper b = 43 \<longleftrightarrow> b = 43) \<and>
   \<not> (97 \<le> ascii_upper b \<and> ascii_upper b \<le> 122) \<and>
   is_control [ascii_upper b] = is_control [b] \<and> is_whitespace [ascii_upper b] = is_whitespace [b]"
proof -
  have "ascii_upper b = 43 \<longleftrightarrow> b = 43"
    by (auto simp: word_unat_eq_iff unat_upper)
  moreover have "is_control [ascii_upper b] = is_control [b]" "is_whitespace [ascii_upper b] = is_whitespace [b]"
    by (auto simp: is_control_def is_whitespace_def unat_upper Let_def)
  ultimately show ?thesis
    by (auto simp: word_less_nat_alt word_le_nat_alt unat_upper)
qed

lemma ascii_text_upper: "ascii_text s \<Longrightarrow> ascii_text (map ascii_upper s)"
  using ascii_upper_all by (auto simp: ascii_text_def)

lemma normalize_named:
  "normalize_logical_key up key \<in> {ascii ''LEFT'', ascii ''RIGHT'', ascii ''UP'', ascii ''DOWN''} \<or>
   normalize_logical_key up key = to_uppercase up key \<and>
     to_uppercase up key \<notin> {ascii ''ARROWLEFT'', ascii ''ARROWRIGHT'', ascii ''ARROWUP'', ascii ''ARROWDOWN''}"
  by (simp add: normalize_logical_key_def Let_def)

text \<open>A key that reads as a logical one, written and read again.\<close>

definition plain_key :: "byte list \<Rightarrow> bool" where
  "plain_key key \<longleftrightarrow> ascii_text key \<and> key \<noteq> [] \<and> (\<forall>b\<in>set key. b \<noteq> 43 \<and> \<not> is_whitespace [b])"

lemma arrow_names:
  "n \<in> {ascii ''LEFT'', ascii ''RIGHT'', ascii ''UP'', ascii ''DOWN''} \<Longrightarrow>
     plain_key n \<and> map ascii_upper n = n \<and> n \<in> set named_keys \<and>
     n \<notin> {ascii ''ARROWLEFT'', ascii ''ARROWRIGHT'', ascii ''ARROWUP'', ascii ''ARROWDOWN''}"
  by (elim insertE emptyE) (simp_all add: ascii_def named_keys_def plain_key_def ascii_text_def is_whitespace_def ascii_upper_def)

lemma normalized_plain:
  assumes "plain_key key"
  shows "plain_key (normalize_logical_key up key)"
    "normalize_logical_key up (normalize_logical_key up key) = normalize_logical_key up key"
    "map ascii_upper (normalize_logical_key up key) = normalize_logical_key up key"
    "normalize_logical_key up key \<in> set named_keys \<or> normalize_logical_key up key = map ascii_upper key"
proof -
  let ?n = "normalize_logical_key up key"
  have ascii: "to_uppercase up s = map ascii_upper s" if "plain_key s" for s
    using that by (simp add: plain_key_def to_uppercase_ascii)
  have upper: "plain_key (map ascii_upper key)"
    using assms ascii_upper_all ascii_text_upper by (auto simp: plain_key_def)
  consider "?n \<in> {ascii ''LEFT'', ascii ''RIGHT'', ascii ''UP'', ascii ''DOWN''}"
    | "?n = map ascii_upper key" "?n \<notin> {ascii ''ARROWLEFT'', ascii ''ARROWRIGHT'', ascii ''ARROWUP'', ascii ''ARROWDOWN''}"
    using normalize_named [of up key] ascii [OF assms] by auto
  then have "plain_key ?n \<and> normalize_logical_key up ?n = ?n \<and> map ascii_upper ?n = ?n \<and>
      (?n \<in> set named_keys \<or> ?n = map ascii_upper key)"
  proof cases
    case 1
    note names = arrow_names [OF 1]
    then have "normalize_logical_key up ?n = ?n"
      by (simp add: normalize_logical_key_def [of up ?n] ascii)
    with names show ?thesis
      by simp
  next
    case 2
    then have "plain_key ?n" "map ascii_upper ?n = ?n"
      using upper by simp_all
    moreover have "normalize_logical_key up (map ascii_upper key) = map ascii_upper key"
      using 2(2) [unfolded 2(1)] by (simp add: normalize_logical_key_def ascii [OF upper] o_def)
    ultimately show ?thesis
      using 2(1) by simp
  qed
  then show "plain_key ?n" "normalize_logical_key up ?n = ?n" "map ascii_upper ?n = ?n"
    "?n \<in> set named_keys \<or> ?n = map ascii_upper key"
    by simp_all
qed

lemma physical_letter: "104 \<in> set (ascii ''Physical:'')"
  by (simp add: ascii_def)

lemma no_lower_letter: "map ascii_upper n = n \<Longrightarrow> 104 \<notin> set n"
  using ascii_upper_all [of 104] by (auto simp: map_idI ascii_upper_def dest!: map_eq_conv [THEN iffD1, of _ _ id, simplified])

lemma parse_key_label:
  assumes "plain_key key" "parse_key up key = Inr k"
  shows "plain_key (case k of Logical n \<Rightarrow> n | Physical code \<Rightarrow> ascii ''Physical:'' @ code)"
    "parse_key up (case k of Logical n \<Rightarrow> n | Physical code \<Rightarrow> ascii ''Physical:'' @ code) = Inr k"
proof -
  have chars: "utf8_chars s = map (\<lambda>b. [b]) s" if "plain_key s" for s
    using that by (simp add: plain_key_def utf8_chars_ascii)
  have spaces: "\<not> list_ex is_whitespace (utf8_chars s)" if "plain_key s" for s
    using that by (auto simp: chars plain_key_def list_ex_iff)
  have "key \<noteq> []"
    using assms(1) by (simp add: plain_key_def)
  have "plain_key (case k of Logical n \<Rightarrow> n | Physical code \<Rightarrow> ascii ''Physical:'' @ code) \<and>
      parse_key up (case k of Logical n \<Rightarrow> n | Physical code \<Rightarrow> ascii ''Physical:'' @ code) = Inr k"
  proof (cases "strip_prefix (ascii ''Physical:'') key")
    case (Some code)
    then have "key = ascii ''Physical:'' @ code" "k = Physical code"
      using assms spaces [OF assms(1)] \<open>key \<noteq> []\<close>
      by (auto simp: parse_key_def strip_prefix_def split: if_splits) (metis append_take_drop_id)
    with assms show ?thesis
      by simp
  next
    case None
    define n where "n = normalize_logical_key up key"
    have k: "k = Logical n" "length (utf8_chars key) = 1 \<and> \<not> list_ex is_control (utf8_chars key) \<or> n \<in> set named_keys \<or> function_key n"
      using assms(2) None spaces [OF assms(1)] \<open>key \<noteq> []\<close>
      by (auto simp: parse_key_def logical_key_def n_def Let_def split: if_splits)
    note normal = normalized_plain [OF assms(1), of up, folded n_def]
    have "strip_prefix (ascii ''Physical:'') n = None"
    proof (rule ccontr)
      assume "strip_prefix (ascii ''Physical:'') n \<noteq> None"
      then have "take (length (ascii ''Physical:'')) n = ascii ''Physical:''"
        by (simp add: strip_prefix_def split: if_splits)
      then have "104 \<in> set n"
        by (metis in_set_takeD physical_letter)
      with no_lower_letter [OF normal(3)] show False
        by simp
    qed
    moreover have "length (utf8_chars n) = 1 \<and> \<not> list_ex is_control (utf8_chars n) \<or> n \<in> set named_keys \<or> function_key n"
      using k(2) normal(4) ascii_upper_all
      by (auto simp: chars [OF assms(1)] chars [OF normal(1)] list_ex_iff)
    ultimately have "parse_key up n = Inr (Logical n)"
      using normal(1,2) spaces [OF normal(1)] by (auto simp: parse_key_def logical_key_def plain_key_def Let_def)
    with normal(1) k(1) show ?thesis
      by simp
  qed
  then show "plain_key (case k of Logical n \<Rightarrow> n | Physical code \<Rightarrow> ascii ''Physical:'' @ code)"
    "parse_key up (case k of Logical n \<Rightarrow> n | Physical code \<Rightarrow> ascii ''Physical:'' @ code) = Inr k"
    by simp_all
qed

text \<open>The names of the modifiers that are set, and the text of the key.\<close>

definition flag_names :: "key_chord \<Rightarrow> byte list list" where
  "flag_names c =
     (if kc_ctrl c then [ascii ''Ctrl''] else []) @ (if kc_alt c then [ascii ''Alt''] else []) @
     (if kc_shift c then [ascii ''Shift''] else []) @ (if kc_meta c then [ascii ''Meta''] else [])"

definition key_text :: "key \<Rightarrow> byte list" where
  "key_text k = (case k of Logical n \<Rightarrow> n | Physical code \<Rightarrow> ascii ''Physical:'' @ code)"

lemma chord_label_names: "chord_label c = concat (map (\<lambda>m. m @ [43]) (flag_names c)) @ key_text (kc_key c)"
  by (simp add: chord_label_def flag_names_def key_text_def ascii_def)

lemma split_names:
  "\<forall>m\<in>set ms. 43 \<notin> set m \<Longrightarrow> 43 \<notin> set k \<Longrightarrow>
   split_at_chars (\<lambda>b. b = 43) (concat (map (\<lambda>m. m @ [43]) ms) @ k) = ms @ [k]"
proof (induction ms)
  case Nil
  then show ?case
    by (simp, subst split_at_chars_part(1)) auto
next
  case (Cons m ms)
  then have "split_at_chars (\<lambda>b. b = 43) (m @ 43 # (concat (map (\<lambda>m. m @ [43]) ms) @ k)) = m # ms @ [k]"
    by (subst split_at_chars_part(2)) auto
  then show ?case
    by simp
qed

lemma flag_names_plus: "m \<in> set (flag_names c) \<Longrightarrow> 43 \<notin> set m"
  by (auto simp: flag_names_def ascii_def split: if_splits)

lemma set_flag_names: "set_modifiers (flag_names c) empty_chord = Inr (c\<lparr>kc_key := Logical []\<rparr>)"
  by (cases c) (simp add: flag_names_def set_modifier_def empty_chord_def ascii_def ascii_lower_def Let_def)

lemma set_modifiers_key: "set_modifiers ms c = Inr c' \<Longrightarrow> kc_key c' = kc_key c"
proof (induction ms arbitrary: c)
  case (Cons m ms)
  then obtain c1 where "set_modifier m c = Inr c1" "set_modifiers ms c1 = Inr c'"
    by (auto simp: and_then_Inr_iff)
  with Cons.IH [of c1] show ?case
    by (auto simp: set_modifier_def Let_def split: if_splits)
qed simp

text \<open>C40: The name of a chord reads back as the chord: when an ASCII text reads as a chord, so does the
  canonical name the maps are stored under, whatever the case, the order of the modifiers and the
  spelling of the arrow keys were.\<close>
theorem chord_label_roundtrip:
  assumes "ascii_text s" "parse_chord up s = Inr c"
  shows "parse_chord up (chord_label c) = Inr c"
proof -
  let ?parts = "split_at_chars (\<lambda>b. b = 43) s"
  obtain c0 k where parsed: "set_modifiers (butlast ?parts) empty_chord = Inr c0" "parse_key up (last ?parts) = Inr k"
    "c = c0\<lparr>kc_key := k\<rparr>"
    using assms(2) by (auto simp: parse_chord_def and_then_Inr_iff Let_def)
  have part: "last ?parts \<in> set ?parts"
    using split_at_chars_parts(1) by (rule last_in_set)
  then have "ascii_text (last ?parts)" "\<forall>b\<in>set (last ?parts). b \<noteq> 43"
    using split_at_chars_parts(2) [OF part] assms(1) by (auto simp: ascii_text_def)
  moreover from parsed(2) have "last ?parts \<noteq> []" "\<not> list_ex is_whitespace (utf8_chars (last ?parts))"
    by (auto simp: parse_key_def split: if_splits)
  ultimately have "plain_key (last ?parts)"
    by (auto simp: plain_key_def utf8_chars_ascii list_ex_iff)
  note key = parse_key_label [OF this parsed(2), folded key_text_def]
  then have "43 \<notin> set (key_text k)"
    by (auto simp: plain_key_def)
  then have "split_at_chars (\<lambda>b. b = 43) (chord_label c) = flag_names c @ [key_text k]"
    using flag_names_plus by (simp add: chord_label_names parsed(3) split_names)
  with key(2) set_flag_names [of c] show ?thesis
    by (simp add: parse_chord_def Let_def parsed(3))
qed

theorem chord_label_roundtrip_witness:
  "\<exists>c. parse_chord (\<lambda>c. c) (ascii ''shift+CTRL+ArrowUp'') = Inr c \<and> chord_label c = ascii ''Ctrl+Shift+UP'' \<and>
     parse_chord (\<lambda>c. c) (chord_label c) = Inr c"
proof -
  have plain: "ascii_text (ascii ''shift+CTRL+ArrowUp'')" "ascii_text (ascii ''ArrowUp'')"
    by (simp_all add: ascii_text_def ascii_def)
  have key: "parse_key (\<lambda>c. c) (ascii ''ArrowUp'') = Inr (Logical (ascii ''UP''))"
    using utf8_chars_ascii [OF plain(2)] to_uppercase_ascii [OF plain(2), of "\<lambda>c. c"]
    by (simp add: parse_key_def logical_key_def normalize_logical_key_def strip_prefix_def is_whitespace_def named_keys_def
        ascii_def ascii_upper_def Let_def)
  have "split_at_chars (\<lambda>b. b = 43) (ascii ''shift+CTRL+ArrowUp'') = map ascii [''shift'', ''CTRL'', ''ArrowUp'']"
    by (simp add: ascii_def)
  then obtain c where "parse_chord (\<lambda>c. c) (ascii ''shift+CTRL+ArrowUp'') = Inr c" "chord_label c = ascii ''Ctrl+Shift+UP''"
    using key by (simp add: parse_chord_def set_modifier_def empty_chord_def ascii_lower_def chord_label_def ascii_def Let_def)
  with chord_label_roundtrip [OF plain(1)] show ?thesis
    by blast
qed

text \<open>Beyond ASCII it need not: the sharp s, a key of German keyboards, has the upper-case form SS, and the
  name of a chord with it is no key.\<close>

theorem sharp_s_lost:
  "parse_chord (\<lambda>c. if c = [195, 159] then ascii ''SS'' else c) (ascii ''Ctrl+'' @ [195, 159]) =
     Inr (empty_chord\<lparr>kc_ctrl := True, kc_key := Logical (ascii ''SS'')\<rparr>) \<and>
   chord_label (empty_chord\<lparr>kc_ctrl := True, kc_key := Logical (ascii ''SS'')\<rparr>) = ascii ''Ctrl+SS'' \<and>
   parse_chord (\<lambda>c. if c = [195, 159] then ascii ''SS'' else c) (ascii ''Ctrl+SS'') = Inl (UnknownKey (ascii ''SS''))"
proof -
  have chars: "utf8_chars [195, 159] = [[195, 159]]" "utf8_chars [83, 83] = [[83], [83]]"
    by code_simp+
  show ?thesis
    by (simp add: parse_chord_def parse_key_def logical_key_def normalize_logical_key_def to_uppercase_def upper_char_def
        strip_prefix_def set_modifier_def empty_chord_def ascii_lower_def ascii_def chord_label_def is_whitespace_def
        is_control_def char_code_def named_keys_def function_key_def chars Let_def)
qed

end
