(* ===== verification/Macros.thy ===== *)
theory Macros
  imports Commands Decimal
begin

text \<open>
  Macros, crates/macros/src/lib.rs: their validation, the recorder and the playback. The commands of a
  playback go through an executor, an argument of the model; an instant is its milliseconds. Reading
  a macro from TOML is left to an external crate; \<open>quote\<close> writes the strings of one. A step that would
  overflow, or slice off a character, is the value \<open>MacroPanicked\<close> or, in the playback, \<open>None\<close>.
\<close>

section \<open>Macros\<close>

text \<open>The arguments of a command, a \<open>BTreeMap\<close>, are pairs in key order.\<close>

datatype macro_event =
    CommandEvent "byte list" "(byte list \<times> byte list) list"
  | TypeText "byte list" "byte list" nat

record macro =
  ma_name :: "byte list"
  ma_events :: "macro_event list"

datatype macro_error =
    NameEmpty
  | EventCount
  | UnknownMacroCommand "byte list"
  | TypingEmpty
  | IntervalTooLong
  | MacroTooLarge
  | SerializedTooLarge
  | InvalidMacroName
  | RenamedTooLarge
  | UnknownRecorded
  | RecordingLimit
  | RecordingDiscarded macro_error
  | IterationLimit
  | RepeatLimit
  | MacroPanicked

definition MAX_EVENTS :: nat where "MAX_EVENTS = 10000"
definition MAX_MACRO_BYTES :: nat where "MAX_MACRO_BYTES = 4 * 1024 * 1024"

definition command_id :: "macro_event \<Rightarrow> byte list" where
  "command_id e = (case e of CommandEvent i _ \<Rightarrow> i | TypeText i _ _ \<Rightarrow> i)"

definition bad_name :: "byte list \<Rightarrow> bool" where
  "bad_name name \<longleftrightarrow>
     trim_chars (utf8_chars name) = [] \<or> length name > 4096 \<or> list_ex is_control (utf8_chars name)"

definition argument_bytes :: "(byte list \<times> byte list) list \<Rightarrow> nat" where
  "argument_bytes as = sum_list (map (\<lambda>(k, v). length k + length v) as)"

text \<open>The bytes an event adds; the sums are of strings held in memory.\<close>

definition event_check :: "registry \<Rightarrow> macro_event \<Rightarrow> nat \<Rightarrow> macro_error + nat" where
  "event_check rg e bytes =
     (if lookup_command rg (command_id e) = None then Inl (UnknownMacroCommand (command_id e))
      else
        and_then
          (case e of
             CommandEvent i as \<Rightarrow> Inr (bytes + length i + argument_bytes as)
           | TypeText i t interval \<Rightarrow>
               if t = [] then Inl TypingEmpty
               else if interval > 60000 then Inl IntervalTooLong
               else Inr (bytes + length i + length t)) (\<lambda>bytes.
          if bytes > MAX_MACRO_BYTES then Inl MacroTooLarge else Inr bytes))"

fun events_check :: "registry \<Rightarrow> macro_event list \<Rightarrow> nat \<Rightarrow> macro_error + nat" where
  "events_check rg [] bytes = Inr bytes"
| "events_check rg (e # es) bytes = and_then (event_check rg e bytes) (events_check rg es)"

text \<open>The bound on the written form.\<close>

definition event_bound :: "macro_event \<Rightarrow> nat" where
  "event_bound e =
     (case e of
        CommandEvent i as \<Rightarrow>
          sat_add (sat_mul (length i) 6)
            (sum_list (map (\<lambda>(k, v). sat_add (sat_mul (sat_add (length k) (length v)) 6) 16) as))
      | TypeText i t _ \<Rightarrow> sat_mul (sat_add (length i) (length t)) 6)"

definition serialized_bound :: "byte list \<Rightarrow> macro_event list \<Rightarrow> nat" where
  "serialized_bound name es =
     foldl (\<lambda>total e. sat_add (sat_add total 128) (event_bound e)) (sat_add 128 (sat_mul (length name) 6)) es"

definition validate_macro :: "registry \<Rightarrow> macro \<Rightarrow> macro_error + unit" where
  "validate_macro rg m =
     (if bad_name (ma_name m) then Inl NameEmpty
      else if ma_events m = [] \<or> length (ma_events m) > MAX_EVENTS then Inl EventCount
      else
        and_then (events_check rg (ma_events m) (length (ma_name m))) (\<lambda>_.
          if serialized_bound (ma_name m) (ma_events m) > MAX_MACRO_BYTES then Inl SerializedTooLarge
          else Inr ()))"

definition rename_macro :: "byte list \<Rightarrow> macro \<Rightarrow> macro_error + macro" where
  "rename_macro name m =
     (if bad_name name then Inl InvalidMacroName
      else if serialized_bound name (ma_events m) > MAX_MACRO_BYTES then Inl RenamedTooLarge
      else Inr (m\<lparr>ma_name := name\<rparr>))"

section \<open>Quoted strings\<close>

definition hex_upper :: "nat \<Rightarrow> byte" where
  "hex_upper n = (if n < 10 then of_nat (48 + n) else of_nat (55 + n))"

text \<open>The format \<open>{:04X}\<close> of a code below 2^16.\<close>

definition hex_4 :: "nat \<Rightarrow> byte list" where
  "hex_4 n = map hex_upper [n div 4096 mod 16, n div 256 mod 16, n div 16 mod 16, n mod 16]"

definition quote_char :: "byte list \<Rightarrow> byte list" where
  "quote_char c =
     (if c = [92] then [92, 92]
      else if c = [34] then [92, 34]
      else if c = [LF] then [92, 110]
      else if c = [CR] then [92, 114]
      else if c = [9] then [92, 116]
      else if is_control c then [92, 117] @ hex_4 (char_code c)
      else c)"

definition quote :: "byte list \<Rightarrow> byte list" where
  "quote value = [34] @ concat (map quote_char (utf8_chars value)) @ [34]"

text \<open>The file of a macro. Byte 39 is the quote of a TOML literal string.\<close>

fun join_with :: "byte list \<Rightarrow> byte list list \<Rightarrow> byte list" where
  "join_with sep [] = []"
| "join_with sep [x] = x"
| "join_with sep (x # y # xs) = x @ sep @ join_with sep (y # xs)"

definition export_arguments :: "(byte list \<times> byte list) list \<Rightarrow> byte list" where
  "export_arguments as = join_with (ascii '', '') (map (\<lambda>(k, v). quote k @ ascii '' = '' @ quote v) as)"

definition export_event :: "macro_event \<Rightarrow> byte list" where
  "export_event e =
     [LF] @ ascii ''[[events]]'' @ [LF] @
     (case e of
        CommandEvent i as \<Rightarrow>
          ascii ''kind = '' @ [39] @ ascii ''command'' @ [39, LF] @ ascii ''command = '' @ quote i @ [LF] @
          ascii ''arguments = { '' @ export_arguments as @ ascii '' }'' @ [LF]
      | TypeText i t interval \<Rightarrow>
          ascii ''kind = '' @ [39] @ ascii ''type_text'' @ [39, LF] @ ascii ''command = '' @ quote i @ [LF] @
          ascii ''text = '' @ quote t @ [LF] @ ascii ''interval_ms = '' @ ascii (decimal interval) @ [LF])"

definition export_toml :: "macro \<Rightarrow> byte list" where
  "export_toml m =
     ascii ''format_version = 1'' @ [LF] @ ascii ''name = '' @ quote (ma_name m) @ [LF] @
     concat (map export_event (ma_events m))"

section \<open>Recording\<close>

record recorder =
  rc_recording :: bool
  rc_events :: "macro_event list"
  rc_bytes :: nat

definition recorder_default :: recorder where
  "recorder_default = \<lparr>rc_recording = False, rc_events = [], rc_bytes = 0\<rparr>"

definition start_recording :: "recorder \<Rightarrow> recorder" where
  "start_recording rc = rc\<lparr>rc_recording := True, rc_events := [], rc_bytes := 0\<rparr>"

definition cancel_recording :: "recorder \<Rightarrow> recorder" where
  "cancel_recording rc = rc\<lparr>rc_recording := False, rc_events := [], rc_bytes := 0\<rparr>"

definition recorded_bytes :: "macro_event \<Rightarrow> nat" where
  "recorded_bytes e =
     sat_add
       (case e of
          CommandEvent i as \<Rightarrow>
            sat_mul (length i) 6 +
            sum_list (map (\<lambda>(k, v). sat_add (sat_mul (length k + length v) 6) 16) as)
        | TypeText i t _ \<Rightarrow> sat_mul (length i + length t) 6) 128"

text \<open>The plain sum of a command's bytes overflows only for strings that fill the address space.\<close>

definition record_event :: "registry \<Rightarrow> macro_event \<Rightarrow> recorder \<Rightarrow> macro_error + recorder" where
  "record_event rg e rc =
     (if lookup_command rg (command_id e) = None then Inl UnknownRecorded
      else if usize_max < sat_mul (length (command_id e)) 6 +
          (case e of
             CommandEvent _ as \<Rightarrow> sum_list (map (\<lambda>(k, v). sat_add (sat_mul (length k + length v) 6) 16) as)
           | TypeText _ _ _ \<Rightarrow> 0) then Inl MacroPanicked
      else
        let bytes = recorded_bytes e in
        if length (rc_events rc) \<ge> MAX_EVENTS \<or>
          sat_add (sat_add (rc_bytes rc) bytes) (128 + 4096 * 6) > MAX_MACRO_BYTES
        then Inl RecordingLimit
        else Inr (rc\<lparr>rc_bytes := rc_bytes rc + bytes, rc_events := rc_events rc @ [e]\<rparr>))"

definition executed :: "registry \<Rightarrow> macro_event \<Rightarrow> bool \<Rightarrow> recorder \<Rightarrow> (macro_error + bool) \<times> recorder" where
  "executed rg e recordable rc =
     (if \<not> rc_recording rc \<or> \<not> recordable then (Inr False, rc)
      else
        case record_event rg e rc of
          Inl MacroPanicked \<Rightarrow> (Inl MacroPanicked, rc)
        | Inl err \<Rightarrow> (Inl (RecordingDiscarded err), cancel_recording rc)
        | Inr rc \<Rightarrow> (Inr True, rc))"

definition stop_recording :: "registry \<Rightarrow> byte list \<Rightarrow> recorder \<Rightarrow> (macro_error + macro) \<times> recorder" where
  "stop_recording rg name rc =
     (let m = \<lparr>ma_name = name, ma_events = rc_events rc\<rparr> in
      case validate_macro rg m of
        Inl err \<Rightarrow> (Inl err, rc)
      | Inr _ \<Rightarrow> (Inr m, cancel_recording rc))"

section \<open>Playback\<close>

record progress =
  pg_document :: nat
  pg_position :: nat
  pg_revision :: nat
  pg_eof :: bool

text \<open>The trait \<open>MacroExecutor\<close>; the arguments of a command are pairs of name and value.\<close>

type_synonym macro_arguments = "(byte list \<times> byte list) list"

record 'x executor =
  ex_context :: "'x \<Rightarrow> command_context"
  ex_progress :: "'x \<Rightarrow> progress"
  ex_poll :: "'x \<Rightarrow> (byte list + bool) \<times> 'x"
  ex_execute :: "'x \<Rightarrow> byte list \<Rightarrow> macro_arguments \<Rightarrow> (byte list + unit) \<times> 'x"

datatype repeat = Once | Times nat | UntilEof

record location =
  lo_iteration :: nat
  lo_event :: nat
  lo_text_byte :: nat

datatype play_reason =
    Reported "byte list"
  | NoLongerRegistered
  | CommandUnavailable dispatch_error
  | IterationSafeguard
  | NoProgress

datatype play_state = Running | Waiting nat | Finished | Stopped | Failed location play_reason

text \<open>The end of the character just typed, the length of the text and the interval.\<close>

type_synonym next_text = "(nat \<times> nat \<times> nat) option"

record playback =
  pb_definition :: macro
  pb_repeat :: repeat
  pb_max :: nat
  pb_location :: location
  pb_state :: play_state
  pb_iteration_start :: "progress option"
  pb_due :: "nat option"
  pb_pending :: "next_text option"

definition playback_new :: "macro \<Rightarrow> repeat \<Rightarrow> nat \<Rightarrow> registry \<Rightarrow> macro_error + playback" where
  "playback_new m repeat max_iterations rg =
     and_then (validate_macro rg m) (\<lambda>_.
       if max_iterations = 0 \<or> repeat = Times 0 then Inl IterationLimit
       else if (case repeat of Times n \<Rightarrow> n > max_iterations | _ \<Rightarrow> False) then Inl RepeatLimit
       else Inr
         \<lparr>pb_definition = m, pb_repeat = repeat, pb_max = max_iterations,
          pb_location = \<lparr>lo_iteration = 0, lo_event = 0, lo_text_byte = 0\<rparr>, pb_state = Running,
          pb_iteration_start = None, pb_due = None, pb_pending = None\<rparr>)"

fun active :: "play_state \<Rightarrow> bool" where
  "active Running = True"
| "active (Waiting d) = True"
| "active st = False"

definition cancel_playback :: "playback \<Rightarrow> playback" where
  "cancel_playback pb = (if active (pb_state pb) then pb\<lparr>pb_state := Stopped, pb_due := None\<rparr> else pb)"

definition resume :: "playback \<Rightarrow> bool \<times> playback" where
  "resume pb =
     (case pb_state pb of
        Failed _ _ \<Rightarrow>
          if lo_event (pb_location pb) < length (ma_events (pb_definition pb))
          then (True, pb\<lparr>pb_state := Running, pb_due := None\<rparr>) else (False, pb)
      | _ \<Rightarrow> (False, pb))"

definition fail :: "play_reason \<Rightarrow> playback \<Rightarrow> playback" where
  "fail reason pb = pb\<lparr>pb_state := Failed (pb_location pb) reason\<rparr>"

definition end_iteration :: "progress \<Rightarrow> playback \<Rightarrow> playback" where
  "end_iteration progress pb =
     (let complete =
        (case pb_repeat pb of
           Once \<Rightarrow> True
         | Times n \<Rightarrow> lo_iteration (pb_location pb) \<ge> n
         | UntilEof \<Rightarrow> pg_eof progress)
      in
      if complete then pb\<lparr>pb_state := Finished\<rparr>
      else if lo_iteration (pb_location pb) \<ge> pb_max pb then fail IterationSafeguard pb
      else if pb_repeat pb = UntilEof \<and> pb_iteration_start pb = Some progress then fail NoProgress pb
      else pb\<lparr>pb_location := (pb_location pb)\<lparr>lo_event := 0\<rparr>, pb_iteration_start := Some progress\<rparr>)"

text \<open>The end of the last event.\<close>

definition finish_event :: "progress \<Rightarrow> playback \<Rightarrow> playback" where
  "finish_event progress pb =
     (let loc = pb_location pb;
          pb = pb\<lparr>pb_location := loc\<lparr>lo_text_byte := 0, lo_event := lo_event loc + 1\<rparr>\<rparr>
      in
      if lo_event loc + 1 = length (ma_events (pb_definition pb))
      then end_iteration progress
        (pb\<lparr>pb_location := (pb_location pb)\<lparr>lo_iteration := lo_iteration loc + 1\<rparr>\<rparr>)
      else pb)"

definition finish_step :: "nat \<Rightarrow> next_text \<Rightarrow> progress \<Rightarrow> playback \<Rightarrow> playback" where
  "finish_step now next_text progress pb =
     (let pb = pb\<lparr>pb_state := Running\<rparr> in
      case next_text of
        Some (n, len, delay) \<Rightarrow>
          if n < len
          then pb\<lparr>pb_location := (pb_location pb)\<lparr>lo_text_byte := n\<rparr>, pb_due := Some (now + delay),
            pb_state := Waiting delay\<rparr>
          else finish_event progress pb
      | None \<Rightarrow> finish_event progress pb)"

definition text_argument :: "byte list \<Rightarrow> macro_arguments" where
  "text_argument t = [(ascii ''text'', t)]"

text \<open>The arguments of the next step, and where it leaves the text; \<open>None\<close> is a panic.\<close>

definition step_arguments :: "macro_event \<Rightarrow> nat \<Rightarrow> (macro_arguments \<times> next_text) option" where
  "step_arguments e k =
     (case e of
        CommandEvent _ as \<Rightarrow> Some (as, None)
      | TypeText _ t interval \<Rightarrow>
          if \<not> char_boundary t k then None
          else
            case utf8_chars (drop k t) of
              c # _ \<Rightarrow> Some (text_argument c, Some (k + length c, length t, interval))
            | [] \<Rightarrow> Some (text_argument [], None))"

definition poll_pending ::
  "nat \<Rightarrow> next_text \<Rightarrow> 'x executor \<Rightarrow> playback \<Rightarrow> 'x \<Rightarrow> playback \<times> 'x" where
  "poll_pending now next_text ex pb x =
     (case ex_poll ex x of
        (Inr False, x) \<Rightarrow> (pb\<lparr>pb_state := Waiting 1\<rparr>, x)
      | (Inl err, x) \<Rightarrow> (fail (Reported err) (pb\<lparr>pb_pending := None\<rparr>), x)
      | (Inr True, x) \<Rightarrow> (finish_step now next_text (ex_progress ex x) (pb\<lparr>pb_pending := None\<rparr>), x))"

definition submit ::
  "nat \<Rightarrow> byte list \<Rightarrow> macro_arguments \<Rightarrow> next_text \<Rightarrow> 'x executor \<Rightarrow> playback \<Rightarrow> 'x \<Rightarrow> playback \<times> 'x" where
  "submit now command as next_text ex pb x =
     (case ex_execute ex x command as of
        (Inl err, x) \<Rightarrow> (fail (Reported err) pb, x)
      | (Inr _, x) \<Rightarrow>
          (case ex_poll ex x of
             (Inr False, x) \<Rightarrow> (pb\<lparr>pb_pending := Some next_text, pb_state := Waiting 1\<rparr>, x)
           | (Inl err, x) \<Rightarrow> (fail (Reported err) pb, x)
           | (Inr True, x) \<Rightarrow> (finish_step now next_text (ex_progress ex x) pb, x)))"

definition run_event :: "nat \<Rightarrow> registry \<Rightarrow> 'x executor \<Rightarrow> playback \<Rightarrow> 'x \<Rightarrow> (playback \<times> 'x) option" where
  "run_event now rg ex pb x =
     (if length (ma_events (pb_definition pb)) \<le> lo_event (pb_location pb) then None
      else
        let e = ma_events (pb_definition pb) ! lo_event (pb_location pb) in
        case lookup_command rg (command_id e) of
          None \<Rightarrow> Some (fail NoLongerRegistered pb, x)
        | Some command \<Rightarrow>
            (case dispatch_in rg command (ex_context ex x) of
               Inl err \<Rightarrow> Some (fail (CommandUnavailable err) pb, x)
             | Inr _ \<Rightarrow>
                 map_option (\<lambda>(as, next_text). submit now command as next_text ex pb x)
                   (step_arguments e (lo_text_byte (pb_location pb)))))"

definition begin_event :: "nat \<Rightarrow> registry \<Rightarrow> 'x executor \<Rightarrow> playback \<Rightarrow> 'x \<Rightarrow> (playback \<times> 'x) option" where
  "begin_event now rg ex pb x =
     (let pb = pb\<lparr>pb_state := Running, pb_due := None\<rparr> in
      if pb_iteration_start pb \<noteq> None then run_event now rg ex pb x
      else
        let progress = ex_progress ex x in
        if pb_repeat pb = UntilEof \<and> pg_eof progress then Some (pb\<lparr>pb_state := Finished\<rparr>, x)
        else run_event now rg ex (pb\<lparr>pb_iteration_start := Some progress\<rparr>) x)"

text \<open>At most one command; \<open>None\<close> is a panic.\<close>

definition tick :: "nat \<Rightarrow> registry \<Rightarrow> 'x executor \<Rightarrow> playback \<Rightarrow> 'x \<Rightarrow> (playback \<times> 'x) option" where
  "tick now rg ex pb x =
     (if \<not> active (pb_state pb) then Some (pb, x)
      else
        case pb_pending pb of
          Some next_text \<Rightarrow> Some (poll_pending now next_text ex pb x)
        | None \<Rightarrow>
            (case pb_due pb of
               Some due \<Rightarrow> if now < due then Some (pb\<lparr>pb_state := Waiting (due - now)\<rparr>, x)
                 else begin_event now rg ex pb x
             | None \<Rightarrow> begin_event now rg ex pb x))"

end
