(* ===== verification/Playback.thy ===== *)
theory Playback
  imports Macros
begin

text \<open>
  Playing a macro: its steps, those before a location, the contract of an executor and the runs of a
  playback with one, and the invariant that every call keeps.
\<close>

section \<open>The steps of a macro\<close>

type_synonym macro_step = "byte list \<times> macro_arguments"

definition event_steps :: "macro_event \<Rightarrow> macro_step list" where
  "event_steps e =
     (case e of
        CommandEvent i as \<Rightarrow> [(i, as)]
      | TypeText i t _ \<Rightarrow> map (\<lambda>c. (i, text_argument c)) (utf8_chars t))"

definition macro_steps :: "macro \<Rightarrow> macro_step list" where
  "macro_steps m = concat (map event_steps (ma_events m))"

text \<open>How many steps of an event come before a byte of its text.\<close>

definition text_done :: "macro_event \<Rightarrow> nat \<Rightarrow> nat" where
  "text_done e k = (case e of CommandEvent _ _ \<Rightarrow> 0 | TypeText _ t _ \<Rightarrow> length (utf8_chars (take k t)))"

text \<open>The steps before a playback's location.\<close>

definition steps_done :: "playback \<Rightarrow> macro_step list" where
  "steps_done pb =
     (let es = ma_events (pb_definition pb); loc = pb_location pb in
      concat (replicate (lo_iteration loc) (macro_steps (pb_definition pb))) @
      (if lo_event loc < length es
       then concat (map event_steps (take (lo_event loc) es)) @
         take (text_done (es ! lo_event loc) (lo_text_byte loc)) (event_steps (es ! lo_event loc))
       else []))"

text \<open>The texts of a macro are Rust strings.\<close>

definition texts_valid :: "macro \<Rightarrow> bool" where
  "texts_valid m \<longleftrightarrow> (\<forall>i t interval. TypeText i t interval \<in> set (ma_events m) \<longrightarrow> valid_utf8 t)"

definition event_ok :: "macro_event \<Rightarrow> nat \<Rightarrow> bool" where
  "event_ok e k \<longleftrightarrow>
     (case e of
        CommandEvent _ _ \<Rightarrow> k = 0
      | TypeText _ t interval \<Rightarrow> valid_utf8 t \<and> char_boundary t k \<and> k < length t \<and> interval \<le> 60000)"

lemma utf8_chars_one: "utf8_scalar c \<Longrightarrow> utf8_chars c = [c]"
  using utf8_chars_step [of c] utf8_scalar_length [of c] utf8_scalar_valid [of c]
  by (metis drop_all order_refl take_all utf8_chars_Nil)

lemma text_cut:
  assumes "valid_utf8 t" "char_boundary t k" "utf8_chars (drop k t) = c # cs"
  shows "valid_utf8 (take (k + length c) t)" "utf8_chars (take (k + length c) t) = utf8_chars (take k t) @ [c]"
    "char_boundary t (k + length c)" "c \<noteq> []" "utf8_chars (drop (k + length c) t) = cs"
proof -
  have k: "valid_utf8 (take k t)" "valid_utf8 (drop k t)" "k \<le> length t"
    using valid_utf8_cut [OF assms(1,2)] char_boundary_le [OF assms(2)] by simp_all
  moreover have "drop k t \<noteq> []"
    using assms(3) by auto
  ultimately obtain w where w: "w \<le> length (drop k t)" "utf8_scalar (take w (drop k t))"
    "valid_utf8 (drop w (drop k t))" "utf8_chars (drop k t) = take w (drop k t) # utf8_chars (drop w (drop k t))"
    by (metis utf8_chars_step)
  with assms(3) have c: "c = take w (drop k t)" "cs = utf8_chars (drop w (drop k t))"
    by simp_all
  have len: "length c = w"
    using w(1) by (simp add: c(1))
  have take: "take (k + length c) t = take k t @ c"
    using c(1) len by (simp add: take_add)
  have "utf8_scalar c"
    using w(2) c(1) by simp
  then have scalar: "valid_utf8 c" "utf8_chars c = [c]" "c \<noteq> []"
    by (blast intro: utf8_scalar_valid utf8_chars_one dest: utf8_scalar_not_Nil)+
  then show "valid_utf8 (take (k + length c) t)" "utf8_chars (take (k + length c) t) = utf8_chars (take k t) @ [c]"
    "c \<noteq> []" "utf8_chars (drop (k + length c) t) = cs"
    unfolding take using k(1) c(2) len by (simp_all add: valid_utf8_append utf8_chars_append add.commute)
  have "char_boundary (take (k + length c) t @ drop w (drop k t)) (k + length c)"
    using char_boundary_append_right [OF w(3), of "take (k + length c) t" "k + length c"] k(3) w(1) len
    by (simp add: min_absorb2)
  moreover have "take (k + length c) t @ drop w (drop k t) = t"
    using len by (simp add: add.commute)
  ultimately show "char_boundary t (k + length c)"
    by simp
qed

text \<open>Whether a step leaves more of its event to type.\<close>

definition typing :: "next_text \<Rightarrow> bool" where
  "typing next_text \<longleftrightarrow> (case next_text of Some (n, len, _) \<Rightarrow> n < len | None \<Rightarrow> False)"

lemma step_arguments_next:
  assumes "event_ok e k"
  obtains as next_text where "step_arguments e k = Some (as, next_text)"
    "text_done e k < length (event_steps e)" "event_steps e ! text_done e k = (command_id e, as)"
    "typing next_text \<Longrightarrow> \<exists>n len delay. next_text = Some (n, len, delay) \<and> delay \<le> 60000 \<and> event_ok e n \<and>
       text_done e n = Suc (text_done e k)"
    "\<not> typing next_text \<Longrightarrow> length (event_steps e) = Suc (text_done e k)"
proof (cases e)
  case (CommandEvent i as)
  with assms that show ?thesis
    by (simp add: step_arguments_def event_steps_def text_done_def command_id_def typing_def)
next
  case (TypeText i t interval)
  with assms have t: "valid_utf8 t" "char_boundary t k" "k < length t" "interval \<le> 60000"
    by (simp_all add: event_ok_def)
  then obtain c cs where c: "utf8_chars (drop k t) = c # cs"
    by (metis drop_eq_Nil leD neq_Nil_conv utf8_chars_eq_Nil)
  note next_char = text_cut [OF t(1,2) c]
  have chars: "utf8_chars t = utf8_chars (take k t) @ c # cs"
    using valid_utf8_cut [OF t(1,2)] utf8_chars_append [of "take k t" "drop k t"] c by simp
  have more: "k + length c < length t \<longleftrightarrow> cs \<noteq> []"
    using next_char(5) utf8_chars_eq_Nil [of "drop (k + length c) t"] by (auto simp: not_less)
  show ?thesis
  proof (rule that [of "text_argument c" "Some (k + length c, length t, interval)"])
    show "step_arguments e k = Some (text_argument c, Some (k + length c, length t, interval))"
      using TypeText t(2) c by (simp add: step_arguments_def)
    show "text_done e k < length (event_steps e)" "event_steps e ! text_done e k = (command_id e, text_argument c)"
      using TypeText chars by (simp_all add: event_steps_def text_done_def command_id_def nth_append)
    show "\<exists>n len delay. Some (k + length c, length t, interval) = Some (n, len, delay) \<and> delay \<le> 60000 \<and>
        event_ok e n \<and> text_done e n = Suc (text_done e k)" if "typing (Some (k + length c, length t, interval))"
      using that TypeText t next_char by (simp add: typing_def event_ok_def text_done_def)
    show "length (event_steps e) = Suc (text_done e k)" if "\<not> typing (Some (k + length c, length t, interval))"
      using that TypeText chars more by (simp add: typing_def event_steps_def text_done_def)
  qed
qed

section \<open>A playback and its executor\<close>

text \<open>What the trait says of an executor, over the steps its documents have committed and the one that is
  under way: a step that was accepted commits when a poll says so, and an error means that it did not.\<close>

definition executor_ok ::
  "'x executor \<Rightarrow> ('x \<Rightarrow> macro_step list) \<Rightarrow> ('x \<Rightarrow> macro_step option) \<Rightarrow> bool" where
  "executor_ok ex committed outstanding \<longleftrightarrow>
     (\<forall>x i as. outstanding x = None \<longrightarrow>
        (case ex_execute ex x i as of
           (r, x') \<Rightarrow> committed x' = committed x \<and> outstanding x' = (if r = Inr () then Some (i, as) else None))) \<and>
     (\<forall>x s. outstanding x = Some s \<longrightarrow>
        (case ex_poll ex x of
           (r, x') \<Rightarrow>
             committed x' = committed x @ (if r = Inr True then [s] else []) \<and>
             outstanding x' = (if r = Inr False then Some s else None)))"

text \<open>A playback from its start, its executor evolving on its own between the calls; \<open>None\<close> is a panic.
  The registry may change from one tick to another.\<close>

inductive playing ::
  "'x executor \<Rightarrow> ('x \<Rightarrow> macro_step list) \<Rightarrow> ('x \<Rightarrow> macro_step option) \<Rightarrow> macro \<Rightarrow> repeat \<Rightarrow> nat \<Rightarrow>
   (playback \<times> 'x) option \<Rightarrow> bool"
  for ex committed outstanding m rep mx
where
  start: "playback_new m rep mx rg = Inr pb \<Longrightarrow> committed x = [] \<Longrightarrow> outstanding x = None \<Longrightarrow>
    playing ex committed outstanding m rep mx (Some (pb, x))"
| ticked: "playing ex committed outstanding m rep mx (Some (pb, x)) \<Longrightarrow>
    playing ex committed outstanding m rep mx (tick now rg ex pb x)"
| resumed: "playing ex committed outstanding m rep mx (Some (pb, x)) \<Longrightarrow>
    playing ex committed outstanding m rep mx (Some (snd (resume pb), x))"
| stopped: "playing ex committed outstanding m rep mx (Some (pb, x)) \<Longrightarrow>
    playing ex committed outstanding m rep mx (Some (cancel_playback pb, x))"
| evolved: "playing ex committed outstanding m rep mx (Some (pb, x)) \<Longrightarrow> committed x' = committed x \<Longrightarrow>
    outstanding x' = outstanding x \<Longrightarrow> playing ex committed outstanding m rep mx (Some (pb, x'))"

definition events_ok :: "macro \<Rightarrow> bool" where
  "events_ok m \<longleftrightarrow> ma_events m \<noteq> [] \<and> (\<forall>e\<in>set (ma_events m). event_ok e 0)"

definition iteration_limit :: "repeat \<Rightarrow> nat \<Rightarrow> nat" where
  "iteration_limit rep mx = (case rep of Once \<Rightarrow> 1 | Times n \<Rightarrow> n | UntilEof \<Rightarrow> mx)"

definition current_event :: "playback \<Rightarrow> macro_event" where
  "current_event pb = ma_events (pb_definition pb) ! lo_event (pb_location pb)"

text \<open>A playback before a step.\<close>

definition located :: "playback \<Rightarrow> bool" where
  "located pb \<longleftrightarrow>
     lo_event (pb_location pb) < length (ma_events (pb_definition pb)) \<and>
     event_ok (current_event pb) (lo_text_byte (pb_location pb)) \<and>
     lo_iteration (pb_location pb) < iteration_limit (pb_repeat pb) (pb_max pb)"

text \<open>A playback after its last step.\<close>

definition past_end :: "playback \<Rightarrow> bool" where
  "past_end pb \<longleftrightarrow>
     lo_event (pb_location pb) = length (ma_events (pb_definition pb)) \<and>
     lo_iteration (pb_location pb) \<le> iteration_limit (pb_repeat pb) (pb_max pb) \<and>
     (pb_state pb = Finished \<and>
        (pb_repeat pb = UntilEof \<or> lo_iteration (pb_location pb) = iteration_limit (pb_repeat pb) (pb_max pb)) \<or>
      (\<exists>loc reason. pb_state pb = Failed loc reason))"

definition play_ok :: "macro \<Rightarrow> repeat \<Rightarrow> nat \<Rightarrow> playback \<Rightarrow> bool" where
  "play_ok m rep mx pb \<longleftrightarrow>
     pb_definition pb = m \<and> pb_repeat pb = rep \<and> pb_max pb = mx \<and> events_ok m \<and>
     iteration_limit rep mx \<le> mx \<and> (located pb \<or> past_end pb) \<and>
     (located pb \<and> pb_state pb = Finished \<longrightarrow> rep = UntilEof \<and> pb_location pb = \<lparr>lo_iteration = 0, lo_event = 0, lo_text_byte = 0\<rparr>) \<and>
     (pb_iteration_start pb = None \<longrightarrow> pb_location pb = \<lparr>lo_iteration = 0, lo_event = 0, lo_text_byte = 0\<rparr>)"

lemma text_done_0 [simp]: "text_done e 0 = 0"
  by (simp add: text_done_def split: macro_event.splits)

lemma steps_done_located:
  "located pb \<Longrightarrow> steps_done pb =
     concat (replicate (lo_iteration (pb_location pb)) (macro_steps (pb_definition pb))) @
     concat (map event_steps (take (lo_event (pb_location pb)) (ma_events (pb_definition pb)))) @
     take (text_done (current_event pb) (lo_text_byte (pb_location pb))) (event_steps (current_event pb))"
  by (simp add: steps_done_def located_def current_event_def Let_def)

lemma steps_done_past_end:
  "past_end pb \<Longrightarrow> steps_done pb = concat (replicate (lo_iteration (pb_location pb)) (macro_steps (pb_definition pb)))"
  by (simp add: steps_done_def past_end_def Let_def)

lemma concat_replicate_Suc: "concat (replicate (Suc n) xs) = concat (replicate n xs) @ xs"
  by (induction n) simp_all

lemma steps_next_event:
  assumes "located pb" "length (event_steps (current_event pb)) = Suc (text_done (current_event pb) (lo_text_byte (pb_location pb)))"
    "event_steps (current_event pb) ! text_done (current_event pb) (lo_text_byte (pb_location pb)) = s"
  shows "steps_done pb @ [s] =
     concat (replicate (lo_iteration (pb_location pb)) (macro_steps (pb_definition pb))) @
     concat (map event_steps (take (Suc (lo_event (pb_location pb))) (ma_events (pb_definition pb))))"
proof -
  have "event_steps (current_event pb) =
      take (text_done (current_event pb) (lo_text_byte (pb_location pb))) (event_steps (current_event pb)) @ [s]"
    using assms(2,3) by (metis lessI take_Suc_conv_app_nth take_all_iff order_refl)
  then show ?thesis
    using assms(1) by (simp add: steps_done_located located_def take_Suc_conv_app_nth current_event_def)
qed

text \<open>What a finished step leaves: the next place, its state and when it is due.\<close>

definition stepped :: "nat \<Rightarrow> playback \<Rightarrow> playback \<Rightarrow> bool" where
  "stepped now pb pb' \<longleftrightarrow>
     pb_pending pb' = pb_pending pb \<and> pb_iteration_start pb' \<noteq> None \<and>
     (pb_due pb' = pb_due pb \<or> (\<exists>d\<le>now + 60000. pb_due pb' = Some d)) \<and>
     (located pb' \<longrightarrow> active (pb_state pb')) \<and> (past_end pb' \<and> pb_repeat pb \<noteq> UntilEof \<longrightarrow> pb_state pb' = Finished)"

lemma finish_event_result:
  assumes ok: "play_ok m rep mx pb" and located: "located pb" and start: "pb_iteration_start pb \<noteq> None"
    and running: "pb_state pb = Running"
    and last: "length (event_steps (current_event pb)) = Suc (text_done (current_event pb) (lo_text_byte (pb_location pb)))"
      "event_steps (current_event pb) ! text_done (current_event pb) (lo_text_byte (pb_location pb)) = s"
  shows "play_ok m rep mx (finish_event progress pb) \<and>
     steps_done (finish_event progress pb) = steps_done pb @ [s] \<and> stepped now pb (finish_event progress pb)"
proof -
  let ?es = "ma_events m"
  have m: "pb_definition pb = m" "pb_repeat pb = rep" "pb_max pb = mx" "events_ok m" "iteration_limit rep mx \<le> mx"
    using ok by (simp_all add: play_ok_def)
  have loc: "lo_event (pb_location pb) < length ?es" "lo_iteration (pb_location pb) < iteration_limit rep mx"
    using located m by (simp_all add: located_def)
  have first: "event_ok (?es ! i) 0" if "i < length ?es" for i
    using m(4) that by (simp add: events_ok_def)
  have ne: "0 < length ?es"
    using m(4) by (simp add: events_ok_def)
  note steps = steps_next_event [OF located last, unfolded m(1)]
  show ?thesis
  proof (cases "Suc (lo_event (pb_location pb)) = length ?es")
    case False
    then have "finish_event progress pb =
        pb\<lparr>pb_location := (pb_location pb)\<lparr>lo_text_byte := 0, lo_event := Suc (lo_event (pb_location pb))\<rparr>\<rparr>"
      by (simp add: finish_event_def m Let_def)
    then show ?thesis
      using False loc first [of "Suc (lo_event (pb_location pb))"] m start running steps
      by (auto simp: play_ok_def located_def past_end_def current_event_def stepped_def steps_done_def Let_def)
  next
    case True
    let ?pb = "pb\<lparr>pb_location := (pb_location pb)\<lparr>lo_text_byte := 0, lo_event := length ?es,
        lo_iteration := Suc (lo_iteration (pb_location pb))\<rparr>\<rparr>"
    have result: "finish_event progress pb = end_iteration progress ?pb"
      using True by (simp add: finish_event_def m Let_def)
    have "steps_done pb @ [s] = concat (replicate (Suc (lo_iteration (pb_location pb))) (macro_steps m))"
      using steps True by (simp add: concat_replicate_Suc macro_steps_def del: replicate_Suc)
    moreover have "play_ok m rep mx (end_iteration progress ?pb)" "stepped now pb (end_iteration progress ?pb)"
      using loc first [of 0] m start running ne
      by (cases rep; auto simp: end_iteration_def play_ok_def stepped_def located_def past_end_def current_event_def
        fail_def iteration_limit_def Let_def)+
    moreover have "steps_done (end_iteration progress ?pb) =
        concat (replicate (Suc (lo_iteration (pb_location pb))) (macro_steps m))"
      using ne m(1) by (auto simp: end_iteration_def steps_done_def fail_def Let_def simp del: replicate_Suc)
    ultimately show ?thesis
      by (simp add: result)
  qed
qed

lemma located_update [simp]:
  "located (pb\<lparr>pb_state := st\<rparr>) = located pb" "located (pb\<lparr>pb_due := d\<rparr>) = located pb"
  "located (pb\<lparr>pb_pending := w\<rparr>) = located pb" "located (pb\<lparr>pb_iteration_start := g\<rparr>) = located pb"
  by (simp_all add: located_def current_event_def)

lemma steps_done_update [simp]:
  "steps_done (pb\<lparr>pb_state := st\<rparr>) = steps_done pb" "steps_done (pb\<lparr>pb_due := d\<rparr>) = steps_done pb"
  "steps_done (pb\<lparr>pb_pending := w\<rparr>) = steps_done pb" "steps_done (pb\<lparr>pb_iteration_start := g\<rparr>) = steps_done pb"
  by (simp_all add: steps_done_def)

lemma current_event_update [simp]:
  "current_event (pb\<lparr>pb_state := st\<rparr>) = current_event pb" "current_event (pb\<lparr>pb_due := d\<rparr>) = current_event pb"
  "current_event (pb\<lparr>pb_pending := w\<rparr>) = current_event pb"
  "current_event (pb\<lparr>pb_iteration_start := g\<rparr>) = current_event pb"
  by (simp_all add: current_event_def)

lemma play_ok_update:
  "play_ok m rep mx pb \<Longrightarrow> located pb \<Longrightarrow> st \<noteq> Finished \<Longrightarrow> play_ok m rep mx (pb\<lparr>pb_state := st\<rparr>)"
  "play_ok m rep mx pb \<Longrightarrow> play_ok m rep mx (pb\<lparr>pb_pending := w\<rparr>)"
  "play_ok m rep mx pb \<Longrightarrow> play_ok m rep mx (pb\<lparr>pb_due := d\<rparr>)"
  "play_ok m rep mx pb \<Longrightarrow> play_ok m rep mx (pb\<lparr>pb_iteration_start := Some g\<rparr>)"
  by (auto simp: play_ok_def past_end_def)

lemma finish_step_result:
  assumes ok: "play_ok m rep mx pb" and located: "located pb" and start: "pb_iteration_start pb \<noteq> None"
    and step: "step_arguments (current_event pb) (lo_text_byte (pb_location pb)) = Some (as, next_text)"
  shows "play_ok m rep mx (finish_step now next_text progress pb) \<and>
     steps_done (finish_step now next_text progress pb) = steps_done pb @ [(command_id (current_event pb), as)] \<and>
     stepped now pb (finish_step now next_text progress pb)"
proof -
  let ?e = "current_event pb" and ?k = "lo_text_byte (pb_location pb)" and ?pb = "pb\<lparr>pb_state := Running\<rparr>"
  have "event_ok ?e ?k"
    using located by (simp add: located_def)
  from step_arguments_next [OF this] step have args: "text_done ?e ?k < length (event_steps ?e)"
    "event_steps ?e ! text_done ?e ?k = (command_id ?e, as)"
    "typing next_text \<Longrightarrow> \<exists>n len delay. next_text = Some (n, len, delay) \<and> delay \<le> 60000 \<and> event_ok ?e n \<and>
       text_done ?e n = Suc (text_done ?e ?k)"
    "\<not> typing next_text \<Longrightarrow> length (event_steps ?e) = Suc (text_done ?e ?k)"
    by (metis option.inject prod.inject)+
  have running: "play_ok m rep mx ?pb" "located ?pb" "pb_iteration_start ?pb \<noteq> None" "pb_state ?pb = Running"
    using ok located start by (simp_all add: play_ok_update)
  show ?thesis
  proof (cases "typing next_text")
    case True
    with args(3) obtain n len delay where n: "next_text = Some (n, len, delay)" "n < len" "delay \<le> 60000"
      "event_ok ?e n" "text_done ?e n = Suc (text_done ?e ?k)"
      by (auto simp: typing_def)
    let ?next = "pb\<lparr>pb_location := (pb_location pb)\<lparr>lo_text_byte := n\<rparr>, pb_due := Some (now + delay),
      pb_state := Waiting delay\<rparr>"
    have result: "finish_step now next_text progress pb = ?next"
      using n(1,2) by (simp add: finish_step_def Let_def)
    have there: "located ?next" "current_event ?next = ?e"
      using located n(4) by (simp_all add: located_def current_event_def)
    then have "steps_done ?next = steps_done pb @ [(command_id ?e, as)]"
      using n(5) args(1,2) located by (simp add: steps_done_located take_Suc_conv_app_nth)
    moreover have "play_ok m rep mx ?next"
      using ok there(1) start by (auto simp: play_ok_def)
    moreover have "stepped now pb ?next"
      using there(1) n(3) start by (auto simp: stepped_def past_end_def)
    ultimately show ?thesis
      by (simp add: result)
  next
    case False
    then have "finish_step now next_text progress pb = finish_event progress ?pb"
      by (auto simp: finish_step_def typing_def Let_def split: option.splits prod.splits)
    then show ?thesis
      using finish_event_result [OF running, of "(command_id ?e, as)" progress now] args(2,4) False
      by (simp add: stepped_def)
  qed
qed

section \<open>The invariant of a playback\<close>

text \<open>The committed steps are those before the location; a step that waits for its acknowledgement is the
  one there.\<close>

definition play_inv ::
  "('x \<Rightarrow> macro_step list) \<Rightarrow> ('x \<Rightarrow> macro_step option) \<Rightarrow> macro \<Rightarrow> repeat \<Rightarrow> nat \<Rightarrow> playback \<Rightarrow> 'x \<Rightarrow> bool"
where
  "play_inv committed outstanding m rep mx pb x \<longleftrightarrow>
     play_ok m rep mx pb \<and> committed x = steps_done pb \<and>
     (case pb_pending pb of
        None \<Rightarrow> outstanding x = None
      | Some next_text \<Rightarrow>
          located pb \<and> pb_iteration_start pb \<noteq> None \<and>
          (\<exists>as. step_arguments (current_event pb) (lo_text_byte (pb_location pb)) = Some (as, next_text) \<and>
             outstanding x = Some (command_id (current_event pb), as)))"

lemma executor_executes:
  assumes "executor_ok ex committed outstanding" "outstanding x = None" "ex_execute ex x i as = (r, x')"
  shows "committed x' = committed x \<and> outstanding x' = (if r = Inr () then Some (i, as) else None)"
proof -
  have "case ex_execute ex x i as of
      (r, x') \<Rightarrow> committed x' = committed x \<and> outstanding x' = (if r = Inr () then Some (i, as) else None)"
    by (rule assms(1) [unfolded executor_ok_def, THEN conjunct1, rule_format, OF assms(2)])
  then show ?thesis
    by (simp add: assms(3))
qed

lemma executor_polled:
  assumes "executor_ok ex committed outstanding" "outstanding x = Some s" "ex_poll ex x = (r, x')"
  shows "committed x' = committed x @ (if r = Inr True then [s] else []) \<and>
    outstanding x' = (if r = Inr False then Some s else None)"
proof -
  have "case ex_poll ex x of
      (r, x') \<Rightarrow> committed x' = committed x @ (if r = Inr True then [s] else []) \<and>
        outstanding x' = (if r = Inr False then Some s else None)"
    by (rule assms(1) [unfolded executor_ok_def, THEN conjunct2, rule_format, OF assms(2)])
  then show ?thesis
    by (simp add: assms(3))
qed

lemma active_located: "play_ok m rep mx pb \<Longrightarrow> active (pb_state pb) \<Longrightarrow> located pb"
  by (auto simp: play_ok_def past_end_def)

lemma play_inv_fail:
  assumes "play_ok m rep mx pb" "located pb" "pb_pending pb = None" "committed x = steps_done pb" "outstanding x = None"
  shows "play_inv committed outstanding m rep mx (fail reason pb) x"
  using assms by (simp add: play_inv_def fail_def play_ok_update)

lemma play_inv_finish:
  assumes "play_ok m rep mx pb" "located pb" "pb_iteration_start pb \<noteq> None" "pb_pending pb = None"
    "step_arguments (current_event pb) (lo_text_byte (pb_location pb)) = Some (as, next_text)"
    "committed x = steps_done pb @ [(command_id (current_event pb), as)]" "outstanding x = None"
  shows "play_inv committed outstanding m rep mx (finish_step now next_text progress pb) x"
  using finish_step_result [OF assms(1-3,5), of now progress] assms(4,6,7)
  by (simp add: play_inv_def stepped_def)

lemma poll_pending_inv:
  assumes ex: "executor_ok ex committed outstanding" and inv: "play_inv committed outstanding m rep mx pb x"
    and act: "active (pb_state pb)" and pending: "pb_pending pb = Some next_text"
  shows "case poll_pending now next_text ex pb x of (pb', x') \<Rightarrow> play_inv committed outstanding m rep mx pb' x'"
proof -
  obtain r x' where poll: "ex_poll ex x = (r, x')"
    by fastforce
  obtain as where pb: "play_ok m rep mx pb" "committed x = steps_done pb" "located pb" "pb_iteration_start pb \<noteq> None"
    "step_arguments (current_event pb) (lo_text_byte (pb_location pb)) = Some (as, next_text)"
    "outstanding x = Some (command_id (current_event pb), as)"
    using inv pending by (auto simp: play_inv_def)
  then have x': "committed x' = steps_done pb @ (if r = Inr True then [(command_id (current_event pb), as)] else [])"
    "outstanding x' = (if r = Inr False then Some (command_id (current_event pb), as) else None)"
    using executor_polled [OF ex _ poll] by simp_all
  let ?pb = "pb\<lparr>pb_pending := None\<rparr>"
  have cleared: "play_ok m rep mx ?pb" "located ?pb" "pb_iteration_start ?pb \<noteq> None" "pb_pending ?pb = None"
    using pb by (simp_all add: play_ok_update)
  consider "r = Inr False" | (failed) err where "r = Inl err" | (acknowledged) "r = Inr True"
    by (cases r) auto
  then show ?thesis
  proof cases
    case 1
    then show ?thesis
      using poll x' pb pending by (simp add: poll_pending_def play_inv_def play_ok_update)
  next
    case failed
    then show ?thesis
      using poll x' play_inv_fail [OF cleared(1,2,4), of committed x' outstanding] by (simp add: poll_pending_def)
  next
    case acknowledged
    then show ?thesis
      using poll x' play_inv_finish [OF cleared, of as next_text committed x' outstanding] pb(5)
      by (simp add: poll_pending_def)
  qed
qed

lemma submit_inv:
  assumes ex: "executor_ok ex committed outstanding" and inv: "play_inv committed outstanding m rep mx pb x"
    and located: "located pb" and start: "pb_iteration_start pb \<noteq> None" and pending: "pb_pending pb = None"
    and step: "step_arguments (current_event pb) (lo_text_byte (pb_location pb)) = Some (as, next_text)"
  shows "case submit now (command_id (current_event pb)) as next_text ex pb x of
     (pb', x') \<Rightarrow> play_inv committed outstanding m rep mx pb' x'"
proof -
  let ?s = "(command_id (current_event pb), as)"
  obtain r x' where execute: "ex_execute ex x (command_id (current_event pb)) as = (r, x')"
    by fastforce
  have pb: "play_ok m rep mx pb" "committed x = steps_done pb" "outstanding x = None"
    using inv pending by (simp_all add: play_inv_def)
  then have x': "committed x' = steps_done pb" "outstanding x' = (if r = Inr () then Some ?s else None)"
    using executor_executes [OF ex _ execute] by simp_all
  show ?thesis
  proof (cases r)
    case (Inl err)
    then show ?thesis
      using execute x' play_inv_fail [OF pb(1) located pending, of committed x' outstanding] by (simp add: submit_def)
  next
    case (Inr u)
    obtain r' y where poll: "ex_poll ex x' = (r', y)"
      by fastforce
    have y: "committed y = steps_done pb @ (if r' = Inr True then [?s] else [])"
      "outstanding y = (if r' = Inr False then Some ?s else None)"
      using executor_polled [OF ex _ poll] x' Inr by simp_all
    consider "r' = Inr False" | (failed) err where "r' = Inl err" | (acknowledged) "r' = Inr True"
      by (cases r') auto
    then show ?thesis
    proof cases
      case 1
      then show ?thesis
        using execute poll y pb located start step Inr by (simp add: submit_def play_inv_def play_ok_update)
    next
      case failed
      then show ?thesis
        using execute poll y Inr play_inv_fail [OF pb(1) located pending, of committed y outstanding]
        by (simp add: submit_def)
    next
      case acknowledged
      then show ?thesis
        using execute poll y Inr play_inv_finish [OF pb(1) located start pending step, of committed y outstanding]
        by (simp add: submit_def)
    qed
  qed
qed

lemma located_step:
  assumes "located pb"
  obtains as next_text where
    "step_arguments (current_event pb) (lo_text_byte (pb_location pb)) = Some (as, next_text)"
  using step_arguments_next assms unfolding located_def by metis

lemma run_event_inv:
  assumes "executor_ok ex committed outstanding" "play_inv committed outstanding m rep mx pb x" "located pb"
    "pb_iteration_start pb \<noteq> None" "pb_pending pb = None"
  shows "\<exists>pb' x'. run_event now rg ex pb x = Some (pb', x') \<and> play_inv committed outstanding m rep mx pb' x'"
proof -
  have pb: "play_ok m rep mx pb" "committed x = steps_done pb" "outstanding x = None"
    using assms(2,5) by (simp_all add: play_inv_def)
  note failed = play_inv_fail [OF pb(1) assms(3,5), of committed x outstanding, OF pb(2,3)]
  obtain as next_text where step:
    "step_arguments (current_event pb) (lo_text_byte (pb_location pb)) = Some (as, next_text)"
    using located_step [OF assms(3)] by metis
  have len: "\<not> length (ma_events (pb_definition pb)) \<le> lo_event (pb_location pb)"
    using assms(3) by (simp add: located_def)
  have run: "run_event now rg ex pb x =
      (case lookup_command rg (command_id (current_event pb)) of
         None \<Rightarrow> Some (fail NoLongerRegistered pb, x)
       | Some command \<Rightarrow>
           (case dispatch_in rg command (ex_context ex x) of
              Inl err \<Rightarrow> Some (fail (CommandUnavailable err) pb, x)
            | Inr _ \<Rightarrow> Some (submit now command as next_text ex pb x)))"
    using len step by (simp add: run_event_def current_event_def Let_def split: option.splits sum.splits)
  show ?thesis
  proof (cases "lookup_command rg (command_id (current_event pb))")
    case None
    with failed show ?thesis
      by (simp add: run)
  next
    case (Some command)
    then have command: "command = command_id (current_event pb)"
      by (simp add: lookup_command_id split: if_splits)
    show ?thesis
      using Some failed submit_inv [OF assms(1-5) step, of now] unfolding command
      by (cases "submit now (command_id (current_event pb)) as next_text ex pb x";
        cases "dispatch_in rg (command_id (current_event pb)) (ex_context ex x)") (simp_all add: run)
  qed
qed

lemma begin_event_inv:
  assumes ex: "executor_ok ex committed outstanding" and inv: "play_inv committed outstanding m rep mx pb x"
    and located: "located pb" and pending: "pb_pending pb = None"
  shows "\<exists>pb' x'. begin_event now rg ex pb x = Some (pb', x') \<and> play_inv committed outstanding m rep mx pb' x'"
proof -
  let ?pb = "pb\<lparr>pb_state := Running, pb_due := None\<rparr>"
  let ?started = "?pb\<lparr>pb_iteration_start := Some (ex_progress ex x)\<rparr>"
  have pb: "play_ok m rep mx pb" "committed x = steps_done pb" "outstanding x = None"
    using inv pending by (simp_all add: play_inv_def)
  then have ready: "play_inv committed outstanding m rep mx ?pb x" "play_inv committed outstanding m rep mx ?started x"
    using located pending by (simp_all add: play_inv_def play_ok_update)
  show ?thesis
  proof (cases "pb_iteration_start pb")
    case (Some start)
    with run_event_inv [OF ex ready(1)] located pending show ?thesis
      by (simp add: begin_event_def Let_def)
  next
    case None
    show ?thesis
    proof (cases "pb_repeat pb = UntilEof \<and> pg_eof (ex_progress ex x)")
      case True
      then have "play_inv committed outstanding m rep mx (?pb\<lparr>pb_state := Finished\<rparr>) x"
        using None pb located pending by (auto simp: play_inv_def play_ok_def)
      with True None show ?thesis
        by (simp add: begin_event_def Let_def)
    next
      case False
      with None run_event_inv [OF ex ready(2)] located pending show ?thesis
        by (auto simp: begin_event_def Let_def)
    qed
  qed
qed

lemma tick_inv:
  assumes ex: "executor_ok ex committed outstanding" and inv: "play_inv committed outstanding m rep mx pb x"
  shows "\<exists>pb' x'. tick now rg ex pb x = Some (pb', x') \<and> play_inv committed outstanding m rep mx pb' x'"
proof (cases "active (pb_state pb)")
  case False
  with inv show ?thesis
    by (simp add: tick_def)
next
  case True
  have ok: "play_ok m rep mx pb"
    using inv by (simp add: play_inv_def)
  then have located: "located pb"
    using True by (rule active_located)
  show ?thesis
  proof (cases "pb_pending pb")
    case (Some next_text)
    with poll_pending_inv [OF ex inv True Some, of now] True show ?thesis
      by (cases "poll_pending now next_text ex pb x") (simp add: tick_def)
  next
    case None
    have "play_inv committed outstanding m rep mx (pb\<lparr>pb_state := Waiting d\<rparr>) x" for d
      using inv located None by (simp add: play_inv_def play_ok_update)
    with None True begin_event_inv [OF ex inv located None, of now rg] show ?thesis
      by (auto simp: tick_def split: option.splits)
  qed
qed

lemma events_check_ok:
  "events_check rg es bytes = Inr n \<Longrightarrow> \<forall>i t interval. TypeText i t interval \<in> set es \<longrightarrow> valid_utf8 t \<Longrightarrow>
     \<forall>e\<in>set es. event_ok e 0"
proof (induction es arbitrary: bytes)
  case (Cons e es)
  then obtain b where "event_check rg e bytes = Inr b" "events_check rg es b = Inr n"
    by (auto simp: and_then_Inr_iff)
  with Cons.IH [of b] Cons.prems(2) show ?case
    by (cases e) (auto simp: event_check_def event_ok_def and_then_Inr_iff split: if_splits)
qed simp

lemma playback_new_ok:
  assumes "texts_valid m" "playback_new m rep mx rg = Inr pb"
  shows "play_ok m rep mx pb \<and> located pb \<and> steps_done pb = [] \<and> pb_pending pb = None \<and> pb_due pb = None \<and>
    active (pb_state pb)"
proof -
  have valid: "validate_macro rg m = Inr ()" and limit: "0 < iteration_limit rep mx" "iteration_limit rep mx \<le> mx"
    using assms(2) by (auto simp: playback_new_def and_then_Inr_iff iteration_limit_def split: if_splits repeat.splits)
  then obtain b where "events_check rg (ma_events m) (length (ma_name m)) = Inr b" "ma_events m \<noteq> []"
    by (auto simp: validate_macro_def and_then_Inr_iff split: if_splits)
  with events_check_ok [of rg "ma_events m" _ b] assms(1) have "events_ok m"
    by (simp add: events_ok_def texts_valid_def)
  moreover from this have "event_ok (ma_events m ! 0) 0" "0 < length (ma_events m)"
    by (simp_all add: events_ok_def)
  moreover have "pb = \<lparr>pb_definition = m, pb_repeat = rep, pb_max = mx,
      pb_location = \<lparr>lo_iteration = 0, lo_event = 0, lo_text_byte = 0\<rparr>, pb_state = Running,
      pb_iteration_start = None, pb_due = None, pb_pending = None\<rparr>"
    using assms(2) by (auto simp: playback_new_def and_then_Inr_iff split: if_splits)
  ultimately show ?thesis
    using limit by (simp add: play_ok_def located_def current_event_def steps_done_def Let_def)
qed

lemma resume_inv:
  "play_inv committed outstanding m rep mx pb x \<Longrightarrow> play_inv committed outstanding m rep mx (snd (resume pb)) x"
  by (auto simp: play_inv_def play_ok_def past_end_def resume_def split: play_state.splits option.splits)

lemma cancel_inv:
  "play_inv committed outstanding m rep mx pb x \<Longrightarrow> play_inv committed outstanding m rep mx (cancel_playback pb) x"
  using active_located [of m rep mx pb]
  by (auto simp: play_inv_def cancel_playback_def play_ok_update split: option.splits)

lemma playing_inv:
  assumes "playing ex committed outstanding m rep mx s" "executor_ok ex committed outstanding" "texts_valid m"
  shows "\<exists>pb x. s = Some (pb, x) \<and> play_inv committed outstanding m rep mx pb x"
  using assms(1)
proof induction
  case (start rg pb x)
  with playback_new_ok [OF assms(3) start(1)] show ?case
    by (simp add: play_inv_def)
next
  case (ticked pb x now rg)
  then show ?case
    using tick_inv [OF assms(2)] by simp
next
  case (evolved pb x x')
  then show ?case
    by (auto simp: play_inv_def split: option.splits)
qed (simp_all add: resume_inv cancel_inv)

lemma located_prefix:
  assumes "located pb" "pb_definition pb = m"
  obtains p q where "q \<noteq> []" "p @ q = macro_steps m"
    "steps_done pb = concat (replicate (lo_iteration (pb_location pb)) (macro_steps m)) @ p"
proof -
  let ?es = "ma_events m" and ?i = "lo_event (pb_location pb)" and ?e = "current_event pb"
  let ?n = "text_done ?e (lo_text_byte (pb_location pb))"
  have i: "?i < length ?es" "?e = ?es ! ?i" "event_ok ?e (lo_text_byte (pb_location pb))"
    using assms by (simp_all add: located_def current_event_def)
  then have n: "?n < length (event_steps ?e)"
    by (metis step_arguments_next)
  have "macro_steps m = concat (map event_steps (take ?i ?es @ ?e # drop (Suc ?i) ?es))"
    using i(1,2) id_take_nth_drop [of ?i ?es] by (simp add: macro_steps_def)
  then have "(concat (map event_steps (take ?i ?es)) @ take ?n (event_steps ?e)) @
      drop ?n (event_steps ?e) @ concat (map event_steps (drop (Suc ?i) ?es)) = macro_steps m"
    by simp
  moreover have "drop ?n (event_steps ?e) @ concat (map event_steps (drop (Suc ?i) ?es)) \<noteq> []"
    using n by simp
  moreover have "steps_done pb = concat (replicate (lo_iteration (pb_location pb)) (macro_steps m)) @
      concat (map event_steps (take ?i ?es)) @ take ?n (event_steps ?e)"
    using steps_done_located [OF assms(1)] assms(2) by simp
  ultimately show thesis
    using that by metis
qed

lemma concat_replicate_split:
  assumes "i < n"
  shows "concat (replicate n xs) = concat (replicate i xs) @ xs @ concat (replicate (n - Suc i) xs)"
proof -
  have "replicate n xs = replicate i xs @ replicate (Suc (n - Suc i)) xs"
    unfolding replicate_add [symmetric] using assms by simp
  then show ?thesis
    by simp
qed

lemma length_concat_replicate: "length (concat (replicate n xs)) = n * length xs"
  by (induction n) simp_all

lemma committed_prefix:
  assumes "play_ok m rep mx pb"
  shows "\<exists>rest. steps_done pb @ rest = concat (replicate (iteration_limit rep mx) (macro_steps m)) \<and> (located pb \<longrightarrow> rest \<noteq> [])"
proof (cases "located pb")
  case True
  have m: "pb_definition pb = m" "lo_iteration (pb_location pb) < iteration_limit rep mx"
    using assms True by (simp_all add: play_ok_def located_def)
  obtain p q where "q \<noteq> []" "p @ q = macro_steps m"
    "steps_done pb = concat (replicate (lo_iteration (pb_location pb)) (macro_steps m)) @ p"
    using located_prefix [OF True m(1)] by metis
  then have "steps_done pb @ q @ concat (replicate (iteration_limit rep mx - Suc (lo_iteration (pb_location pb))) (macro_steps m)) =
      concat (replicate (iteration_limit rep mx) (macro_steps m)) \<and> q \<noteq> []"
    using concat_replicate_split [OF m(2), of "macro_steps m"] by simp
  then show ?thesis
    by blast
next
  case False
  then have "past_end pb" "lo_iteration (pb_location pb) \<le> iteration_limit rep mx" "pb_definition pb = m"
    using assms by (auto simp: play_ok_def past_end_def)
  moreover from this have "replicate (iteration_limit rep mx) (macro_steps m) =
      replicate (lo_iteration (pb_location pb)) (macro_steps m) @
      replicate (iteration_limit rep mx - lo_iteration (pb_location pb)) (macro_steps m)"
    by (simp flip: replicate_add)
  ultimately show ?thesis
    using False by (simp add: steps_done_past_end)
qed

lemma finished_steps:
  assumes "play_ok m rep mx pb" "pb_state pb = Finished"
  shows "steps_done pb = concat (replicate (lo_iteration (pb_location pb)) (macro_steps m)) \<and>
    (rep \<noteq> UntilEof \<longrightarrow> lo_iteration (pb_location pb) = iteration_limit rep mx)"
proof (cases "located pb")
  case True
  then show ?thesis
    using assms by (simp add: play_ok_def steps_done_located)
next
  case False
  then show ?thesis
    using assms by (auto simp: play_ok_def past_end_def steps_done_past_end steps_done_def Let_def)
qed

section \<open>An executor that obliges\<close>

definition obliging ::
  "'x executor \<Rightarrow> ('x \<Rightarrow> macro_step list) \<Rightarrow> ('x \<Rightarrow> macro_step option) \<Rightarrow> registry \<Rightarrow> macro \<Rightarrow> bool"
where
  "obliging ex committed outstanding rg m \<longleftrightarrow>
     executor_ok ex committed outstanding \<and>
     (\<forall>x i as. outstanding x = None \<longrightarrow> fst (ex_execute ex x i as) = Inr ()) \<and>
     (\<forall>x. outstanding x \<noteq> None \<longrightarrow> fst (ex_poll ex x) = Inr True) \<and>
     (\<forall>x. \<forall>e\<in>set (ma_events m). \<exists>a. dispatch_in rg (command_id e) (ex_context ex x) = Inr a)"

text \<open>The ticks at a list of instants.\<close>

fun ticks :: "nat list \<Rightarrow> registry \<Rightarrow> 'x executor \<Rightarrow> playback \<Rightarrow> 'x \<Rightarrow> (playback \<times> 'x) option" where
  "ticks [] rg ex pb x = Some (pb, x)"
| "ticks (now # ns) rg ex pb x =
     (case tick now rg ex pb x of
        None \<Rightarrow> None
      | Some (pb, x) \<Rightarrow> ticks ns rg ex pb x)"

lemma dispatched_lookup: "dispatch_in rg i cx = Inr a \<Longrightarrow> lookup_command rg i = Some i"
  by (auto simp: dispatch_in_def state_of_def and_then_Inr_iff ok_or_Inr_iff lookup_command_id dest!: map_of_SomeD)
    (force simp: image_iff)

lemma run_event_obliged:
  assumes ex: "obliging ex committed outstanding rg m" and inv: "play_inv committed outstanding m rep mx pb x"
    and located: "located pb" and start: "pb_iteration_start pb \<noteq> None" and pending: "pb_pending pb = None"
  shows "\<exists>pb' x'. run_event now rg ex pb x = Some (pb', x') \<and> play_inv committed outstanding m rep mx pb' x' \<and>
    stepped now pb pb' \<and> length (committed x') = Suc (length (committed x))"
proof -
  let ?e = "current_event pb"
  have ok: "play_ok m rep mx pb" "committed x = steps_done pb" "outstanding x = None"
    using inv pending by (simp_all add: play_inv_def)
  have "?e \<in> set (ma_events m)"
    using located ok(1) by (simp add: located_def play_ok_def current_event_def)
  then obtain a where a: "dispatch_in rg (command_id ?e) (ex_context ex x) = Inr a"
    using ex unfolding obliging_def by blast
  obtain as next_text where step: "step_arguments ?e (lo_text_byte (pb_location pb)) = Some (as, next_text)"
    using located_step [OF located] by metis
  have contract: "executor_ok ex committed outstanding"
    using ex by (simp add: obliging_def)
  obtain y where execute: "ex_execute ex x (command_id ?e) as = (Inr (), y)"
    using ex ok(3) unfolding obliging_def by (metis prod.collapse)
  note executed = executor_executes [OF contract ok(3) execute]
  obtain z where poll: "ex_poll ex y = (Inr True, z)"
    using ex executed unfolding obliging_def by (metis option.distinct(1) prod.collapse)
  have z: "committed z = steps_done pb @ [(command_id ?e, as)]" "outstanding z = None"
    using executor_polled [OF contract _ poll] executed ok(2) by simp_all
  have "run_event now rg ex pb x = Some (finish_step now next_text (ex_progress ex z) pb, z)"
    using located step a dispatched_lookup [OF a] execute poll
    by (simp add: run_event_def located_def current_event_def submit_def Let_def)
  then show ?thesis
    using play_inv_finish [OF ok(1) located start pending step, of committed z outstanding now] z ok(2)
      finish_step_result [OF ok(1) located start step, of now] by auto
qed

lemma tick_obliged:
  assumes ex: "obliging ex committed outstanding rg m" and inv: "play_inv committed outstanding m rep mx pb x"
    and act: "active (pb_state pb)" and pending: "pb_pending pb = None" and rep: "rep \<noteq> UntilEof"
    and due: "\<And>d. pb_due pb = Some d \<Longrightarrow> d \<le> now"
  shows "\<exists>pb' x'. tick now rg ex pb x = Some (pb', x') \<and> play_inv committed outstanding m rep mx pb' x' \<and>
    pb_pending pb' = None \<and> (\<forall>d. pb_due pb' = Some d \<longrightarrow> d \<le> now + 60000) \<and>
    (located pb' \<longrightarrow> active (pb_state pb')) \<and> (past_end pb' \<longrightarrow> pb_state pb' = Finished) \<and>
    length (committed x') = Suc (length (committed x))"
proof -
  let ?run = "pb\<lparr>pb_state := Running, pb_due := None\<rparr>"
  let ?started = "?run\<lparr>pb_iteration_start := Some (ex_progress ex x)\<rparr>"
  let ?pb = "if pb_iteration_start pb \<noteq> None then ?run else ?started"
  have located: "located pb" and rep': "pb_repeat pb = rep"
    using active_located [OF _ act] inv by (auto simp: play_inv_def play_ok_def)
  have ready: "play_inv committed outstanding m rep mx ?pb x" "located ?pb" "pb_iteration_start ?pb \<noteq> None"
    "pb_pending ?pb = None"
    using inv located pending by (simp_all add: play_inv_def play_ok_update)
  have "tick now rg ex pb x = begin_event now rg ex pb x"
    using act pending due by (auto simp: tick_def not_less split: option.splits)
  also have "\<dots> = run_event now rg ex ?pb x"
    using rep rep' by (auto simp: begin_event_def Let_def)
  finally have tick: "tick now rg ex pb x = run_event now rg ex ?pb x" .
  obtain pb' x' where run: "run_event now rg ex ?pb x = Some (pb', x')" "play_inv committed outstanding m rep mx pb' x'"
    "stepped now ?pb pb'" "length (committed x') = Suc (length (committed x))"
    using run_event_obliged [OF ex ready, of now] by metis
  have "pb_pending ?pb = None" "pb_due ?pb = None" "pb_repeat ?pb = rep"
    using pending rep' by simp_all
  with run(3) rep have "pb_pending pb' = None" "\<forall>d. pb_due pb' = Some d \<longrightarrow> d \<le> now + 60000"
    "located pb' \<longrightarrow> active (pb_state pb')" "past_end pb' \<longrightarrow> pb_state pb' = Finished"
    unfolding stepped_def by auto
  with run(1,2,4) tick show ?thesis
    by simp
qed

lemma ticks_complete:
  assumes "obliging ex committed outstanding rg m" "rep \<noteq> UntilEof"
  shows "play_inv committed outstanding m rep mx pb x \<Longrightarrow> pb_pending pb = None \<Longrightarrow>
    (\<forall>d. pb_due pb = Some d \<and> ns \<noteq> [] \<longrightarrow> d \<le> hd ns) \<Longrightarrow>
    (located pb \<longrightarrow> active (pb_state pb)) \<Longrightarrow> (past_end pb \<longrightarrow> pb_state pb = Finished) \<Longrightarrow>
    length (committed x) + length ns = iteration_limit rep mx * length (macro_steps m) \<Longrightarrow>
    successively (\<lambda>a b. a + 60000 \<le> b) ns \<Longrightarrow>
    \<exists>pb' x'. ticks ns rg ex pb x = Some (pb', x') \<and> pb_state pb' = Finished \<and>
      play_inv committed outstanding m rep mx pb' x'"
proof (induction ns arbitrary: pb x)
  case Nil
  have ok: "play_ok m rep mx pb" "committed x = steps_done pb"
    using Nil.prems(1) by (simp_all add: play_inv_def)
  obtain rest where rest: "steps_done pb @ rest = concat (replicate (iteration_limit rep mx) (macro_steps m))"
    "located pb \<longrightarrow> rest \<noteq> []"
    using committed_prefix [OF ok(1)] by metis
  have "length (steps_done pb) + length rest = iteration_limit rep mx * length (macro_steps m)"
    using arg_cong [OF rest(1), of length] by (simp add: length_concat_replicate)
  with Nil.prems(6) ok(2) rest(2) have "\<not> located pb"
    by auto
  with Nil.prems(1,5) ok(1) show ?case
    by (auto simp: play_ok_def)
next
  case (Cons now ns)
  have ok: "play_ok m rep mx pb" "committed x = steps_done pb"
    using Cons.prems(1) by (simp_all add: play_inv_def)
  have "located pb"
  proof (rule ccontr)
    assume "\<not> located pb"
    then have "pb_state pb = Finished"
      using ok(1) Cons.prems(5) by (auto simp: play_ok_def)
    with finished_steps [OF ok(1)] assms(2) ok(2) Cons.prems(6) show False
      by (simp add: length_concat_replicate)
  qed
  then have "active (pb_state pb)"
    using Cons.prems(4) by simp
  moreover have "d \<le> now" if "pb_due pb = Some d" for d
    using Cons.prems(3) that by simp
  ultimately obtain pb' x' where tick: "tick now rg ex pb x = Some (pb', x')"
    "play_inv committed outstanding m rep mx pb' x'" "pb_pending pb' = None" "\<forall>d. pb_due pb' = Some d \<longrightarrow> d \<le> now + 60000"
    "located pb' \<longrightarrow> active (pb_state pb')" "past_end pb' \<longrightarrow> pb_state pb' = Finished"
    "length (committed x') = Suc (length (committed x))"
    using tick_obliged [OF assms(1) Cons.prems(1) _ Cons.prems(2) assms(2), of now] by metis
  have spaced: "ns \<noteq> [] \<longrightarrow> now + 60000 \<le> hd ns" "successively (\<lambda>a b. a + 60000 \<le> b) ns"
    using Cons.prems(7) by (cases ns; simp)+
  have "\<forall>d. pb_due pb' = Some d \<and> ns \<noteq> [] \<longrightarrow> d \<le> hd ns"
    using tick(4) spaced(1) by (meson le_trans)
  moreover have "length (committed x') + length ns = iteration_limit rep mx * length (macro_steps m)"
    using tick(7) Cons.prems(6) by simp
  ultimately show ?case
    using Cons.IH [OF tick(2,3) _ tick(5,6) _ spaced(2)] tick(1) by simp
qed

end
