(* ===== verification/Macro_Files.thy ===== *)
theory Macro_Files
  imports Macros
begin

text \<open>
  Saving a macro: the size of its file against the bound that is computed before it is written, what a
  recording keeps, and a reader for the quoted strings of the file.
\<close>

section \<open>The size of a macro's file\<close>

lemma sum_lengths_chars: "sum_list (map length (utf8_chars t)) = length t"
proof (induction t rule: utf8_chars.induct)
  case (1 t)
  show ?case
  proof (cases t)
    case (Cons b bs)
    then have "utf8_chars t = take (max 1 (utf8_width b)) t # utf8_chars (drop (max 1 (utf8_width b)) t)"
      by (subst utf8_chars.simps) simp
    then show ?thesis
      using "1.IH" [OF Cons] by simp
  qed simp
qed

lemma utf8_chars_nonempty: "c \<in> set (utf8_chars t) \<Longrightarrow> 0 < length c"
proof (induction t rule: utf8_chars.induct)
  case (1 t)
  show ?case
  proof (cases t)
    case (Cons b bs)
    then have "utf8_chars t = take (max 1 (utf8_width b)) t # utf8_chars (drop (max 1 (utf8_width b)) t)"
      by (subst utf8_chars.simps) simp
    moreover have "0 < length (take (max 1 (utf8_width b)) t)"
      by (simp add: Cons)
    ultimately show ?thesis
      using "1.IH" [OF Cons] "1.prems" by auto
  qed (use "1.prems" in simp)
qed

lemma quote_char_length: "0 < length c \<Longrightarrow> length (quote_char c) \<le> 6 * length c"
  by (cases c) (simp_all add: quote_char_def hex_4_def)

lemma quote_length: "length (quote s) \<le> 2 + 6 * length s"
proof -
  have "length (concat (map quote_char cs)) \<le> 6 * sum_list (map length cs)" if "\<forall>c\<in>set cs. 0 < length c" for cs
    using that
  proof (induction cs)
    case (Cons c cs)
    with quote_char_length [of c] show ?case
      by simp
  qed simp
  from this [of "utf8_chars s"] show ?thesis
    by (auto simp: quote_def sum_lengths_chars dest: utf8_chars_nonempty)
qed

lemma ascii_length: "length (ascii s) = length s"
  by (simp add: ascii_def)

text \<open>The bytes that the arguments of a command may take.\<close>

definition arguments_bound :: "macro_arguments \<Rightarrow> nat" where
  "arguments_bound as = sum_list (map (\<lambda>(k, v). 6 * (length k + length v) + 16) as)"

lemma join_with_length: "length (join_with sep xs) \<le> sum_list (map (\<lambda>x. length x + length sep) xs)"
  by (induction sep xs rule: join_with.induct) simp_all

lemma export_arguments_length: "length (export_arguments as) \<le> arguments_bound as"
proof -
  have pair: "length (quote k @ ascii '' = '' @ quote v) + length (ascii '', '') \<le> 6 * (length k + length v) + 16" for k v
    using quote_length [of k] quote_length [of v] by (simp add: ascii_length)
  have "sum_list (map (\<lambda>x. length x + length (ascii '', '')) (map (\<lambda>(k, v). quote k @ ascii '' = '' @ quote v) as)) \<le>
      arguments_bound as"
  proof (induction as)
    case (Cons a as)
    obtain k v where "a = (k, v)"
      by fastforce
    with Cons pair [of k v] show ?case
      by (simp add: arguments_bound_def del: length_append)
  qed (simp add: arguments_bound_def)
  then show ?thesis
    unfolding export_arguments_def by (rule le_trans [OF join_with_length])
qed

text \<open>The bytes an event may take.\<close>

definition event_room :: "macro_event \<Rightarrow> nat" where
  "event_room e =
     128 + (case e of
        CommandEvent i as \<Rightarrow> 6 * length i + arguments_bound as
      | TypeText i t _ \<Rightarrow> 6 * (length i + length t))"

definition short_interval :: "macro_event \<Rightarrow> bool" where
  "short_interval e \<longleftrightarrow> (case e of TypeText _ _ interval \<Rightarrow> interval \<le> 60000 | _ \<Rightarrow> True)"

lemma export_event_length: "short_interval e \<Longrightarrow> length (export_event e) \<le> event_room e"
proof (cases e)
  case (CommandEvent i as)
  with quote_length [of i] export_arguments_length [of as] show ?thesis
    by (simp add: export_event_def event_room_def ascii_length)
next
  case (TypeText i t interval)
  assume "short_interval e"
  with TypeText have "length (decimal interval) \<le> 5"
    using decimal_length [of interval 4] by (simp add: short_interval_def)
  with TypeText quote_length [of i] quote_length [of t] show ?thesis
    by (simp add: export_event_def event_room_def ascii_length)
qed

definition file_room :: "byte list \<Rightarrow> macro_event list \<Rightarrow> nat" where
  "file_room name es = 128 + 6 * length name + sum_list (map event_room es)"

lemma export_toml_length:
  assumes "\<forall>e\<in>set (ma_events m). short_interval e"
  shows "length (export_toml m) \<le> file_room (ma_name m) (ma_events m)"
proof -
  have "length (concat (map export_event es)) \<le> sum_list (map event_room es)" if "\<forall>e\<in>set es. short_interval e" for es
    using that
  proof (induction es)
    case (Cons e es)
    with export_event_length [of e] show ?case
      by simp
  qed simp
  from this [OF assms] quote_length [of "ma_name m"] show ?thesis
    by (simp add: export_toml_def file_room_def ascii_length)
qed

text \<open>The bounds the code computes are these, up to saturation.\<close>

lemma sat_add_exact_below: "sat_add a b \<le> MAX_MACRO_BYTES \<Longrightarrow> sat_add a b = a + b"
  by (simp add: sat_add_def MAX_MACRO_BYTES_def usize_max_def)

lemma sat_mul_exact_below: "sat_mul a b \<le> MAX_MACRO_BYTES \<Longrightarrow> sat_mul a b = a * b"
  by (simp add: sat_mul_def MAX_MACRO_BYTES_def usize_max_def)

lemma sat_mul_le: "sat_mul a b \<le> a * b"
  by (simp add: sat_mul_def)

lemma sum_list_exact_below:
  fixes f :: "'a \<Rightarrow> nat"
  assumes "sum_list (map f xs) \<le> n" "\<And>x. f x \<le> n \<Longrightarrow> f x = g x"
  shows "sum_list (map f xs) = sum_list (map g xs)"
proof -
  have "f x \<le> n" if "x \<in> set xs" for x
    using member_le_sum_list [of "f x" "map f xs"] that assms(1) by fastforce
  then show ?thesis
    using assms(2) by (metis (mono_tags) map_eq_conv)
qed

lemma argument_room_exact:
  "sat_add (sat_mul (sat_add a b) 6) 16 \<le> MAX_MACRO_BYTES \<Longrightarrow> sat_add (sat_mul (sat_add a b) 6) 16 = 6 * (a + b) + 16"
  "sat_add (sat_mul (a + b) 6) 16 \<le> MAX_MACRO_BYTES \<Longrightarrow> sat_add (sat_mul (a + b) 6) 16 = 6 * (a + b) + 16"
  by (auto simp: sat_add_def sat_mul_def MAX_MACRO_BYTES_def usize_max_def min_def split: if_splits)

lemma argument_room_le: "sat_add (sat_mul (sat_add a b) 6) 16 \<le> 6 * (a + b) + 16"
  by (auto simp: sat_add_def sat_mul_def min_def)

lemma event_bound_exact:
  assumes "event_bound e \<le> MAX_MACRO_BYTES"
  shows "event_bound e + 128 = event_room e"
proof (cases e)
  case (CommandEvent i as)
  let ?sum = "sum_list (map (\<lambda>(k, v). sat_add (sat_mul (sat_add (length k) (length v)) 6) 16) as)"
  have "sat_add (sat_mul (length i) 6) ?sum \<le> MAX_MACRO_BYTES"
    using assms CommandEvent by (simp add: event_bound_def)
  from sat_add_exact_below [OF this] this
  have parts: "event_bound e = sat_mul (length i) 6 + ?sum" "sat_mul (length i) 6 \<le> MAX_MACRO_BYTES" "?sum \<le> MAX_MACRO_BYTES"
    using CommandEvent by (simp_all add: event_bound_def)
  have "?sum = arguments_bound as"
    unfolding arguments_bound_def using argument_room_exact(1)
    by (intro sum_list_exact_below [OF parts(3)]) (auto split: prod.splits)
  with parts(1) sat_mul_exact_below [OF parts(2)] CommandEvent show ?thesis
    by (simp add: event_room_def)
next
  case (TypeText i t interval)
  then have "sat_mul (sat_add (length i) (length t)) 6 \<le> MAX_MACRO_BYTES"
    using assms by (simp add: event_bound_def)
  then have "sat_mul (sat_add (length i) (length t)) 6 = 6 * (length i + length t)"
    by (auto simp: sat_add_def sat_mul_def MAX_MACRO_BYTES_def usize_max_def min_def split: if_splits)
  with TypeText show ?thesis
    by (simp add: event_bound_def event_room_def)
qed

lemma recorded_bytes_exact:
  assumes "recorded_bytes e \<le> MAX_MACRO_BYTES"
  shows "recorded_bytes e = event_room e"
proof (cases e)
  case (CommandEvent i as)
  let ?sum = "sum_list (map (\<lambda>(k, v). sat_add (sat_mul (length k + length v) 6) 16) as)"
  have "sat_add (sat_mul (length i) 6 + ?sum) 128 \<le> MAX_MACRO_BYTES"
    using assms CommandEvent by (simp add: recorded_bytes_def)
  from sat_add_exact_below [OF this] this
  have parts: "recorded_bytes e = sat_mul (length i) 6 + ?sum + 128" "sat_mul (length i) 6 \<le> MAX_MACRO_BYTES"
    "?sum \<le> MAX_MACRO_BYTES"
    using CommandEvent by (simp_all add: recorded_bytes_def)
  have "?sum = arguments_bound as"
    unfolding arguments_bound_def using argument_room_exact(2)
    by (intro sum_list_exact_below [OF parts(3)]) (auto split: prod.splits)
  with parts(1) sat_mul_exact_below [OF parts(2)] CommandEvent show ?thesis
    by (simp add: event_room_def)
next
  case (TypeText i t interval)
  then have "sat_add (sat_mul (length i + length t) 6) 128 \<le> MAX_MACRO_BYTES"
    using assms by (simp add: recorded_bytes_def)
  then have "sat_add (sat_mul (length i + length t) 6) 128 = 6 * (length i + length t) + 128"
    by (auto simp: sat_add_def sat_mul_def MAX_MACRO_BYTES_def usize_max_def min_def split: if_splits)
  with TypeText show ?thesis
    by (simp add: recorded_bytes_def event_room_def)
qed

lemma event_bound_le: "event_bound e + 128 \<le> event_room e"
proof (cases e)
  case (CommandEvent i as)
  have "sum_list (map (\<lambda>(k, v). sat_add (sat_mul (sat_add (length k) (length v)) 6) 16) as) \<le> arguments_bound as"
    unfolding arguments_bound_def
    using argument_room_le by (intro sum_list_mono) (auto split: prod.splits)
  with CommandEvent show ?thesis
    by (simp add: event_bound_def event_room_def sat_add_def sat_mul_def)
next
  case (TypeText i t interval)
  have "sat_mul (sat_add (length i) (length t)) 6 \<le> 6 * (length i + length t)"
    by (auto simp: sat_add_def sat_mul_def min_def)
  with TypeText show ?thesis
    by (simp add: event_bound_def event_room_def)
qed

lemma serialized_bound_le: "serialized_bound name es \<le> file_room name es"
proof -
  have "foldl (\<lambda>n e. sat_add (sat_add n 128) (event_bound e)) n es \<le> n + sum_list (map event_room es)" for n
  proof (induction es arbitrary: n)
    case (Cons e es)
    have "sat_add (sat_add n 128) (event_bound e) \<le> n + event_room e"
      using event_bound_le [of e] by (simp add: sat_add_def)
    with Cons [of "sat_add (sat_add n 128) (event_bound e)"] show ?case
      by simp
  qed simp
  from this [of "sat_add 128 (sat_mul (length name) 6)"] show ?thesis
    unfolding serialized_bound_def file_room_def by (rule le_trans) (simp add: sat_add_def sat_mul_def)
qed

lemma serialized_bound_room:
  assumes "serialized_bound name es \<le> MAX_MACRO_BYTES"
  shows "file_room name es \<le> MAX_MACRO_BYTES"
proof -
  let ?start = "sat_add 128 (sat_mul (length name) 6)"
  have "n + sum_list (map event_room es) \<le> MAX_MACRO_BYTES"
    if "foldl (\<lambda>n e. sat_add (sat_add n 128) (event_bound e)) n es \<le> MAX_MACRO_BYTES" for n
    using that
  proof (induction es arbitrary: n)
    case (Cons e es)
    then have "sat_add (sat_add n 128) (event_bound e) + sum_list (map event_room es) \<le> MAX_MACRO_BYTES"
      by simp
    moreover from this have "sat_add (sat_add n 128) (event_bound e) \<le> MAX_MACRO_BYTES"
      by simp
    then have "sat_add (sat_add n 128) (event_bound e) = n + 128 + event_bound e" "event_bound e \<le> MAX_MACRO_BYTES"
      by (auto simp: sat_add_def MAX_MACRO_BYTES_def usize_max_def min_def split: if_splits)
    ultimately show ?case
      using event_bound_exact [of e] by simp
  qed simp
  from this [of ?start] assms have "?start + sum_list (map event_room es) \<le> MAX_MACRO_BYTES"
    by (simp add: serialized_bound_def)
  moreover from this have "?start = 128 + 6 * length name"
    by (auto simp: sat_add_def sat_mul_def MAX_MACRO_BYTES_def usize_max_def min_def split: if_splits)
  ultimately show ?thesis
    by (simp add: file_room_def)
qed

lemma validated_file:
  assumes "validate_macro rg m = Inr ()"
  shows "length (export_toml m) \<le> MAX_MACRO_BYTES"
proof -
  obtain n where n: "events_check rg (ma_events m) (length (ma_name m)) = Inr n"
    "serialized_bound (ma_name m) (ma_events m) \<le> MAX_MACRO_BYTES"
    using assms by (auto simp: validate_macro_def and_then_Inr_iff split: if_splits)
  have "\<forall>e\<in>set es. short_interval e" if "events_check rg es b = Inr n" for es b
    using that
  proof (induction es arbitrary: b)
    case (Cons e es)
    then show ?case
      by (cases e) (auto simp: event_check_def short_interval_def and_then_Inr_iff split: if_splits)
  qed simp
  from export_toml_length [of m] this [OF n(1)] serialized_bound_room [OF n(2)] show ?thesis
    by simp
qed

section \<open>Recordings\<close>

text \<open>The normalised events that the owner hands over.\<close>

definition normalized :: "macro_event \<Rightarrow> bool" where
  "normalized e \<longleftrightarrow> (case e of TypeText _ t interval \<Rightarrow> t \<noteq> [] \<and> interval \<le> 60000 | _ \<Rightarrow> True)"

inductive recording :: "registry \<Rightarrow> recorder \<Rightarrow> bool" for rg where
  started: "recording rg (start_recording rc)"
| performed: "recording rg rc \<Longrightarrow> normalized e \<Longrightarrow> executed rg e recordable rc = (r, rc') \<Longrightarrow> recording rg rc'"

definition recording_ok :: "registry \<Rightarrow> recorder \<Rightarrow> bool" where
  "recording_ok rg rc \<longleftrightarrow>
     (\<forall>e\<in>set (rc_events rc). normalized e \<and> lookup_command rg (command_id e) \<noteq> None) \<and>
     length (rc_events rc) \<le> MAX_EVENTS \<and> rc_bytes rc = sum_list (map event_room (rc_events rc)) \<and>
     rc_bytes rc + (128 + 4096 * 6) \<le> MAX_MACRO_BYTES"

lemma empty_recording_ok: "rc_events rc = [] \<Longrightarrow> rc_bytes rc = 0 \<Longrightarrow> recording_ok rg rc"
  by (simp add: recording_ok_def MAX_MACRO_BYTES_def)

lemma record_event_ok:
  assumes "recording_ok rg rc" "normalized e" "record_event rg e rc = Inr rc'"
  shows "recording_ok rg rc'"
proof -
  have e: "lookup_command rg (command_id e) \<noteq> None" "length (rc_events rc) < MAX_EVENTS"
    "sat_add (sat_add (rc_bytes rc) (recorded_bytes e)) (128 + 4096 * 6) \<le> MAX_MACRO_BYTES"
    "rc' = rc\<lparr>rc_bytes := rc_bytes rc + recorded_bytes e, rc_events := rc_events rc @ [e]\<rparr>"
    using assms(3) by (auto simp: record_event_def Let_def split: if_splits)
  have "rc_bytes rc + recorded_bytes e + (128 + 4096 * 6) \<le> MAX_MACRO_BYTES"
    using e(3) by (auto simp: sat_add_def MAX_MACRO_BYTES_def usize_max_def min_def split: if_splits)
  moreover from this have "recorded_bytes e = event_room e"
    by (intro recorded_bytes_exact) simp
  ultimately show ?thesis
    using assms(1,2) e(1,2,4) by (simp add: recording_ok_def)
qed

lemma recording_ok: "recording rg rc \<Longrightarrow> recording_ok rg rc"
proof (induction rule: recording.induct)
  case (started rc)
  then show ?case
    by (simp add: start_recording_def empty_recording_ok)
next
  case (performed rc e recordable r rc')
  then have "rc' = rc \<or> rc' = cancel_recording rc \<or> record_event rg e rc = Inr rc'"
    by (auto simp: executed_def split: if_splits sum.splits macro_error.splits)
  with performed show ?case
    by (auto simp: cancel_recording_def empty_recording_ok record_event_ok)
qed

lemma events_check_passes:
  "(\<forall>e\<in>set es. normalized e \<and> lookup_command rg (command_id e) \<noteq> None) \<Longrightarrow>
     b + sum_list (map event_room es) \<le> MAX_MACRO_BYTES \<Longrightarrow> \<exists>n. events_check rg es b = Inr n"
proof (induction es arbitrary: b)
  case (Cons e es)
  have args: "argument_bytes as \<le> arguments_bound as" for as
    unfolding argument_bytes_def arguments_bound_def by (rule sum_list_mono) auto
  have room: "b + event_room e \<le> MAX_MACRO_BYTES"
    using Cons.prems(2) by simp
  have "b + length i + argument_bytes as \<le> MAX_MACRO_BYTES \<and> argument_bytes as \<le> arguments_bound as"
    if "e = CommandEvent i as" for i as
    using that room args [of as] by (simp add: event_room_def)
  with room obtain n where "event_check rg e b = Inr n" "n \<le> b + event_room e"
    using Cons.prems(1) by (cases e) (auto simp: event_check_def normalized_def event_room_def command_id_def)
  moreover from this Cons.prems have "\<exists>k. events_check rg es n = Inr k"
    by (intro Cons.IH) simp_all
  ultimately show ?case
    by auto
qed simp

section \<open>Quoted strings\<close>

text \<open>A reference for the basic strings of TOML, after the opening quote: the value and what follows the
  closing quote. Escapes of eight digits are left out.\<close>

definition hex_digit :: "byte \<Rightarrow> nat option" where
  "hex_digit b =
     (if 48 \<le> b \<and> b \<le> 57 then Some (unat b - 48)
      else if 65 \<le> b \<and> b \<le> 70 then Some (unat b - 55)
      else if 97 \<le> b \<and> b \<le> 102 then Some (unat b - 87)
      else None)"

fun hex_number :: "nat \<Rightarrow> byte list \<Rightarrow> nat option" where
  "hex_number n [] = Some n"
| "hex_number n (b # bs) = Option.bind (hex_digit b) (\<lambda>d. hex_number (16 * n + d) bs)"

definition basic_escape :: "byte list \<Rightarrow> (byte list \<times> byte list) option" where
  "basic_escape s =
     (case s of
        [] \<Rightarrow> None
      | b # bs \<Rightarrow>
          if b = 92 then Some ([92], bs)
          else if b = 34 then Some ([34], bs)
          else if b = 98 then Some ([8], bs)
          else if b = 102 then Some ([12], bs)
          else if b = 110 then Some ([LF], bs)
          else if b = 114 then Some ([CR], bs)
          else if b = 116 then Some ([9], bs)
          else if b = 117 \<and> 4 \<le> length bs
          then map_option (\<lambda>c. (c, drop 4 bs)) (Option.bind (hex_number 0 (take 4 bs)) char_from_u32)
          else None)"

lemma basic_escape_length: "basic_escape s = Some (c, rest) \<Longrightarrow> length rest < length s"
  by (auto simp: basic_escape_def split: list.splits if_splits)

function read_basic :: "byte list \<Rightarrow> (byte list \<times> byte list) option" where
  "read_basic [] = None"
| "read_basic (b # bs) =
     (if b = 34 then Some ([], bs)
      else if b = 92 then
        (case basic_escape bs of
           None \<Rightarrow> None
         | Some (c, rest) \<Rightarrow> map_option (apfst (append c)) (read_basic rest))
      else if b < 32 \<and> b \<noteq> 9 \<or> b = 127 then None
      else map_option (apfst (Cons b)) (read_basic bs))"
  by pat_completeness auto
termination
  by (relation "measure length") (auto dest: basic_escape_length)

lemma read_basic_plain:
  "\<forall>b\<in>set c. 32 \<le> b \<and> b \<noteq> 34 \<and> b \<noteq> 92 \<and> b \<noteq> 127 \<Longrightarrow>
     read_basic (c @ s) = map_option (apfst (append c)) (read_basic s)"
proof (induction c)
  case Nil
  then show ?case
    by (cases "read_basic s") (simp_all add: apfst_def map_prod_def split: prod.splits)
next
  case (Cons b c)
  then show ?case
    by (cases "read_basic s") (auto simp: not_less)
qed

text \<open>A control character takes one byte, or two of which the second is its code.\<close>

lemma control_cases:
  assumes "utf8_scalar c" "is_control c"
  shows "char_code c \<le> 0x9F \<and> char_from_u32 (char_code c) = Some c"
proof -
  obtain a as where c: "c = a # as" "Suc (length as) = utf8_width a"
    using assms(1) by (cases c) (auto simp: utf8_scalar_def)
  have control: "char_code c < 0x20 \<or> 0x7F \<le> char_code c \<and> char_code c \<le> 0x9F"
    using assms(2) by (simp add: is_control_def)
  have "utf8_width a \<in> {1, 2, 3, 4}"
    using c(2) by (auto simp: utf8_width_def split: if_splits)
  then consider "as = []" | (two) b where "as = [b]" | (three) b d where "as = [b, d]" | (four) b d e where "as = [b, d, e]"
    using c(2) by (auto simp: length_Suc_conv numeral_eq_Suc)
  then show ?thesis
  proof cases
    case 1
    then have "unat a < 0x80"
      using c(2) by (auto simp: utf8_width_def word_less_nat_alt split: if_splits)
    then show ?thesis
      using 1 c(1) control by (simp add: char_code_def char_from_u32_def encode_char_def)
  next
    case two
    then have a: "0xC2 \<le> unat a" and b: "0x80 \<le> unat b" "unat b \<le> 0xBF"
      using c assms(1) by (auto simp: utf8_width_def utf8_scalar_def cont_iff word_le_nat_alt word_less_nat_alt split: if_splits)
    have code: "char_code c = (unat a - 0xC0) * 64 + (unat b - 0x80)"
      using two c(1) by (simp add: char_code_def)
    with control a have ua: "unat a = 0xC2"
      by linarith
    then have ub: "char_code c = unat b" "unat b \<le> 0x9F"
      using code control b by linarith+
    then have "unat b div 64 = 2"
      using b(1) by (intro div_nat_eqI) simp_all
    then have "unat b div 64 = 2" "unat b mod 64 = unat b - 0x80"
      using minus_mult_div_eq_mod [of "unat b" 64] by simp_all
    then have "encode_char (unat b) = [of_nat (unat a), of_nat (unat b)]"
      using b(1) ub(2) ua by (simp add: encode_char_def)
    then show ?thesis
      using two c(1) ub by (simp add: char_from_u32_def)
  next
    case three
    then have "utf8_width a = 3" "cont b" "utf8_second_ok a b"
      using c assms(1) by (simp_all add: utf8_scalar_def)
    then have "0xE0 \<le> a" "0x80 \<le> b" "a = 0xE0 \<Longrightarrow> 0xA0 \<le> b"
      by (simp_all add: utf8_width_def cont_iff utf8_second_ok_def split: if_splits)
    then have "0xE0 \<le> unat a" "0x80 \<le> unat b" "unat a = 0xE0 \<Longrightarrow> 0xA0 \<le> unat b"
      by (simp_all add: word_le_nat_alt word_unat_eq_iff)
    moreover have "char_code c = ((unat a - 0xE0) * 64 + (unat b - 0x80)) * 64 + (unat d - 0x80)"
      using three c(1) by (simp add: char_code_def)
    ultimately have "0x20 \<le> (unat a - 0xE0) * 64 + (unat b - 0x80)"
      "char_code c = ((unat a - 0xE0) * 64 + (unat b - 0x80)) * 64 + (unat d - 0x80)"
      by (cases "unat a = 0xE0"; simp)+
    then obtain x y where "0x20 \<le> x" "char_code c = x * 64 + y"
      by blast
    then have "0x800 \<le> char_code c"
      by linarith
    with control show ?thesis
      by linarith
  next
    case four
    then have "utf8_width a = 4" "cont b" "utf8_second_ok a b"
      using c assms(1) by (simp_all add: utf8_scalar_def)
    then have "0xF0 \<le> a" "0x80 \<le> b" "a = 0xF0 \<Longrightarrow> 0x90 \<le> b"
      by (simp_all add: utf8_width_def cont_iff utf8_second_ok_def split: if_splits)
    then have "0xF0 \<le> unat a" "0x80 \<le> unat b" "unat a = 0xF0 \<Longrightarrow> 0x90 \<le> unat b"
      by (simp_all add: word_le_nat_alt word_unat_eq_iff)
    moreover have "char_code c = (((unat a - 0xF0) * 64 + (unat b - 0x80)) * 64 + (unat d - 0x80)) * 64 + (unat e - 0x80)"
      using four c(1) by (simp add: char_code_def)
    ultimately have "0x10 \<le> (unat a - 0xF0) * 64 + (unat b - 0x80)"
      "char_code c = (((unat a - 0xF0) * 64 + (unat b - 0x80)) * 64 + (unat d - 0x80)) * 64 + (unat e - 0x80)"
      by (cases "unat a = 0xF0"; simp)+
    then obtain x y z where "0x10 \<le> x" "char_code c = (x * 64 + y) * 64 + z"
      by blast
    then have "0x800 \<le> char_code c"
      by (simp add: add_mult_distrib)
    with control show ?thesis
      by linarith
  qed
qed

lemma hex_upper_digit: "n < 16 \<Longrightarrow> hex_digit (hex_upper n) = Some n"
proof -
  assume "n < 16"
  moreover have "list_all (\<lambda>n. hex_digit (hex_upper n) = Some n) [0..<16]"
    by code_simp
  ultimately show "hex_digit (hex_upper n) = Some n"
    by (simp add: list_all_iff)
qed

lemma hex_4_number:
  assumes "n \<le> 0x9F"
  shows "hex_number 0 (hex_4 n) = Some n"
proof -
  have "n div 4096 mod 16 = 0" "n div 256 mod 16 = 0" "n div 16 mod 16 = n div 16"
    using assms by simp_all
  moreover have "n div 16 < 16" "n mod 16 < 16" "16 * (n div 16) + n mod 16 = n"
    using assms by auto
  ultimately show ?thesis
    using hex_upper_digit by (simp add: hex_4_def)
qed

lemma scalar_plain:
  assumes "utf8_scalar c" "\<not> is_control c" "c \<noteq> [34]" "c \<noteq> [92]"
  shows "\<forall>b\<in>set c. 32 \<le> b \<and> b \<noteq> 34 \<and> b \<noteq> 92 \<and> b \<noteq> 127"
proof -
  obtain a as where c: "c = a # as" "Suc (length as) = utf8_width a" "list_all cont as"
    using assms(1) by (cases c) (auto simp: utf8_scalar_def)
  have high: "32 \<le> b \<and> b \<noteq> 34 \<and> b \<noteq> 92 \<and> b \<noteq> 127" if "0x80 \<le> b" for b :: byte
    using that by (auto simp: word_le_nat_alt)
  show ?thesis
  proof (cases "a < 0x80")
    case True
    then have "as = []"
      using c(2) by (simp add: utf8_width_def)
    with True c(1) assms(2-4) show ?thesis
      by (auto simp: is_control_def char_code_def word_le_nat_alt word_less_nat_alt word_unat_eq_iff)
  next
    case False
    moreover have "\<forall>b\<in>set as. 0x80 \<le> b"
      using c(3) by (simp add: list_all_iff cont_iff)
    ultimately show ?thesis
      using high c(1) by (simp add: not_less)
  qed
qed

lemma read_quote_char:
  assumes "utf8_scalar c"
  shows "read_basic (quote_char c @ s) = map_option (apfst (append c)) (read_basic s)"
proof (cases "c = [92] \<or> c = [34] \<or> c = [LF] \<or> c = [CR] \<or> c = [9]")
  case True
  then show ?thesis
    by (auto simp: quote_char_def basic_escape_def)
next
  case False
  show ?thesis
  proof (cases "is_control c")
    case True
    then have "basic_escape (117 # hex_4 (char_code c) @ s) = Some (c, s)"
      using control_cases [OF assms True] hex_4_number [of "char_code c"]
      by (simp add: basic_escape_def hex_4_def)
    with True False show ?thesis
      by (simp add: quote_char_def)
  next
    case plain: False
    with False read_basic_plain [OF scalar_plain [OF assms plain]] show ?thesis
      by (simp add: quote_char_def)
  qed
qed

end
