(* ===== verification/Macros_Properties.thy ===== *)
theory Macros_Properties
  imports Playback Macro_Files
begin

text \<open>
  The properties of macros: a playback performs its commands exactly once and in order whatever fails
  and is resumed on the way, a recording that was not discarded can be saved, and a quoted string
  reads back.
\<close>

section \<open>The properties of the playback\<close>

text \<open>C23: A playback performs its commands exactly once and in order: whatever is refused, fails, waits or is
  resumed on the way, what the executor has committed is the commands up to the playback's location,
  a part of the repeated macro from its start; when it finishes, it is the whole macro, as many times
  as was asked for. No tick panics.\<close>
theorem macro_exactly_once:
  assumes "executor_ok ex committed outstanding" "texts_valid m" "playing ex committed outstanding m rep mx s"
  shows "\<exists>pb x. s = Some (pb, x) \<and> committed x = steps_done pb \<and>
     (\<exists>rest. committed x @ rest = concat (replicate (iteration_limit rep mx) (macro_steps m))) \<and>
     (pb_state pb = Finished \<longrightarrow>
        committed x = concat (replicate (lo_iteration (pb_location pb)) (macro_steps m)) \<and>
        (rep \<noteq> UntilEof \<longrightarrow> lo_iteration (pb_location pb) = iteration_limit rep mx))"
proof -
  obtain pb x where s: "s = Some (pb, x)" "play_inv committed outstanding m rep mx pb x"
    using playing_inv [OF assms(3,1,2)] by blast
  then have "play_ok m rep mx pb" "committed x = steps_done pb"
    by (simp_all add: play_inv_def)
  with s(1) committed_prefix [of m rep mx pb] finished_steps [of m rep mx pb] show ?thesis
    by auto
qed

text \<open>C24: A playback ends: when the executor accepts and completes every command and the commands are
  available, a macro to be played a number of times is finished after one tick for each of its
  commands and characters, at any instants a minute apart, and each was performed.\<close>
theorem macro_completes:
  assumes "obliging ex committed outstanding rg m" "texts_valid m" "playback_new m rep mx rg = Inr pb"
    "rep \<noteq> UntilEof" "committed x = []" "outstanding x = None" "successively (\<lambda>a b. a + 60000 \<le> b) ns"
    "length ns = iteration_limit rep mx * length (macro_steps m)"
  shows "\<exists>pb' x'. ticks ns rg ex pb x = Some (pb', x') \<and> pb_state pb' = Finished \<and>
     committed x' = concat (replicate (iteration_limit rep mx) (macro_steps m))"
proof -
  note new = playback_new_ok [OF assms(2,3)]
  have "\<not> past_end pb"
    using new by (auto simp: past_end_def)
  then obtain pb' x' where ticked: "ticks ns rg ex pb x = Some (pb', x')" "pb_state pb' = Finished"
    "play_inv committed outstanding m rep mx pb' x'"
    using ticks_complete [OF assms(1,4), of mx pb x ns] new assms(5-8) by (auto simp: play_inv_def)
  then show ?thesis
    using finished_steps [of m rep mx pb'] assms(4) by (simp add: play_inv_def)
qed

definition play_registry :: registry where
  "play_registry = registry_default\<lparr>rg_entries :=
     [([97], \<lparr>cs_id = [97], cs_title = [65], cs_category = [69], cs_shortcut = [], cs_action = ActUndo\<rparr>)]\<rparr>"

definition sample_macro :: macro where
  "sample_macro = \<lparr>ma_name = [109], ma_events = [CommandEvent [97] [([107], [118])], TypeText [97] [195, 169, 98] 5]\<rparr>"

definition sample_executor :: "(macro_step list \<times> macro_step option) executor" where
  "sample_executor =
     \<lparr>ex_context = (\<lambda>_. \<lparr>cx_states = [], cx_show_internal = False\<rparr>),
      ex_progress = (\<lambda>_. \<lparr>pg_document = 0, pg_position = 0, pg_revision = 0, pg_eof = False\<rparr>),
      ex_poll = (\<lambda>(c, w). (Inr True, (c @ (case w of Some s \<Rightarrow> [s] | None \<Rightarrow> []), None))),
      ex_execute = (\<lambda>(c, w) i as. (Inr (), (c, Some (i, as))))\<rparr>"

lemma sample_chars: "utf8_chars [109] = [[109]]" "utf8_chars [195, 169, 98] = [[195, 169], [98]]"
  by code_simp+

lemma sample_texts: "texts_valid sample_macro"
proof -
  have "valid_utf8 [195, 169, 98]"
    by code_simp
  then show ?thesis
    by (simp add: texts_valid_def sample_macro_def)
qed

lemma sample_obliging: "obliging sample_executor fst snd play_registry sample_macro"
  by (auto simp: obliging_def executor_ok_def sample_executor_def sample_macro_def play_registry_def registry_default_def
    dispatch_in_def state_of_def dispatch_def command_state_default_def command_id_def and_then_def ok_or_def)

lemma sample_validated: "validate_macro play_registry sample_macro = Inr ()"
  by (simp add: validate_macro_def sample_macro_def play_registry_def registry_default_def bad_name_def sample_chars
    trim_chars_def is_whitespace_def is_control_def char_code_def event_check_def lookup_command_def command_id_def
    argument_bytes_def MAX_EVENTS_def MAX_MACRO_BYTES_def serialized_bound_def event_bound_def sat_add_def sat_mul_def
    usize_max_def)

definition sample_playback :: playback where
  "sample_playback =
     \<lparr>pb_definition = sample_macro, pb_repeat = Times 2, pb_max = 3,
      pb_location = \<lparr>lo_iteration = 0, lo_event = 0, lo_text_byte = 0\<rparr>, pb_state = Running,
      pb_iteration_start = None, pb_due = None, pb_pending = None\<rparr>"

lemma sample_playback: "playback_new sample_macro (Times 2) 3 play_registry = Inr sample_playback"
  by (simp add: playback_new_def sample_validated sample_playback_def)

theorem macro_exactly_once_witness:
  "\<exists>pb x. tick 7 play_registry sample_executor sample_playback ([], None) = Some (pb, x) \<and> fst x = steps_done pb \<and>
     (\<exists>rest. fst x @ rest = concat (replicate 2 (macro_steps sample_macro)))"
proof -
  have ex: "executor_ok sample_executor fst snd"
    using sample_obliging by (simp add: obliging_def)
  have "playing sample_executor fst snd sample_macro (Times 2) 3
      (tick 7 play_registry sample_executor sample_playback ([], None))"
    by (intro playing.ticked playing.start [OF sample_playback]) simp_all
  from macro_exactly_once [OF ex sample_texts this] show ?thesis
    by (auto simp: iteration_limit_def)
qed

theorem macro_completes_witness:
  "\<exists>pb x. ticks [0, 60000, 120000, 180000, 240000, 300000] play_registry sample_executor sample_playback ([], None) =
       Some (pb, x) \<and> pb_state pb = Finished \<and>
     fst x = [([97], [([107], [118])]), ([97], text_argument [195, 169]), ([97], text_argument [98]),
       ([97], [([107], [118])]), ([97], text_argument [195, 169]), ([97], text_argument [98])]"
proof -
  have steps: "macro_steps sample_macro =
      [([97], [([107], [118])]), ([97], text_argument [195, 169]), ([97], text_argument [98])]"
    by (simp add: macro_steps_def sample_macro_def event_steps_def sample_chars)
  show ?thesis
    using macro_completes [OF sample_obliging sample_texts sample_playback, of "([], None)"
        "[0, 60000, 120000, 180000, 240000, 300000]"]
    by (simp add: steps iteration_limit_def numeral_2_eq_2)
qed

section \<open>The properties of recordings and files\<close>

text \<open>C25: A recording that was not discarded can be saved: after any run of normalised events, those recorded
  under any valid name form a macro that passes validation, and its file is no longer than the limit
  that reading checks.\<close>
theorem recording_saves:
  assumes "recording rg rc" "rc_events rc \<noteq> []" "\<not> bad_name name"
  shows "stop_recording rg name rc = (Inr \<lparr>ma_name = name, ma_events = rc_events rc\<rparr>, cancel_recording rc) \<and>
     length (export_toml \<lparr>ma_name = name, ma_events = rc_events rc\<rparr>) \<le> MAX_MACRO_BYTES"
proof -
  let ?m = "\<lparr>ma_name = name, ma_events = rc_events rc\<rparr>"
  have ok: "recording_ok rg rc"
    using assms(1) by (rule recording_ok)
  have "length name \<le> 4096"
    using assms(3) by (simp add: bad_name_def)
  then have room: "file_room name (rc_events rc) \<le> MAX_MACRO_BYTES"
    using ok by (simp add: recording_ok_def file_room_def)
  then have "length name + sum_list (map event_room (rc_events rc)) \<le> MAX_MACRO_BYTES"
    by (simp add: file_room_def)
  with ok obtain n where "events_check rg (rc_events rc) (length name) = Inr n"
    using events_check_passes [of "rc_events rc" rg "length name"] by (auto simp: recording_ok_def)
  moreover have "serialized_bound name (rc_events rc) \<le> MAX_MACRO_BYTES"
    using serialized_bound_le room by (rule le_trans)
  ultimately have valid: "validate_macro rg ?m = Inr ()"
    using assms(2,3) ok by (simp add: validate_macro_def recording_ok_def)
  with validated_file [OF valid] show ?thesis
    by (simp add: stop_recording_def)
qed

theorem recording_saves_witness:
  "\<exists>rc. executed play_registry (CommandEvent [97] [([107], [118])]) True (start_recording recorder_default) = (Inr True, rc) \<and>
     fst (stop_recording play_registry [109] rc) = Inr \<lparr>ma_name = [109], ma_events = [CommandEvent [97] [([107], [118])]]\<rparr>"
proof -
  let ?e = "CommandEvent [97] [([107], [118])]"
  obtain rc where run: "executed play_registry ?e True (start_recording recorder_default) = (Inr True, rc)"
    "rc_events rc = [?e]"
    by (simp add: executed_def start_recording_def record_event_def play_registry_def registry_default_def
        lookup_command_def command_id_def recorded_bytes_def sat_add_def sat_mul_def usize_max_def MAX_EVENTS_def
        MAX_MACRO_BYTES_def Let_def)
  have "recording play_registry rc"
    by (rule recording.performed [OF recording.started _ run(1)]) (simp add: normalized_def)
  moreover have "\<not> bad_name [109]"
    by (simp add: bad_name_def sample_chars trim_chars_def is_whitespace_def is_control_def char_code_def)
  ultimately show ?thesis
    using recording_saves [of play_registry rc "[109]"] run by auto
qed

text \<open>C39: A quoted string reads back: whatever the text, control characters, quotes and backslashes included,
  a reader of TOML basic strings returns it and stops after the closing quote.\<close>
theorem quote_roundtrip:
  assumes "valid_utf8 s"
  shows "hd (quote s) = 34 \<and> read_basic (tl (quote s) @ rest) = Some (s, rest)"
proof -
  have "read_basic (concat (map quote_char (utf8_chars s)) @ 34 # rest) = Some (s, rest)"
    using assms by (induction s rule: valid_utf8_induct) (simp_all add: read_quote_char)
  then show ?thesis
    by (simp add: quote_def)
qed

theorem quote_roundtrip_witness: "read_basic (tl (quote [104, 34, 10, 194, 133, 195, 169]) @ [44]) = Some ([104, 34, 10, 194, 133, 195, 169], [44])"
proof -
  have "valid_utf8 [104, 34, 10, 194, 133, 195, 169]"
    by code_simp
  from quote_roundtrip [OF this] show ?thesis
    by blast
qed

end
