(* ===== verification/Spec2Isabelle.thy ===== *)
theory Spec2Isabelle
  imports Group Change_Log Row_Map Replay_Properties Journal_Properties Compose Schedule
    Invocation_Properties Diff_Properties Search_Properties Keymap_Properties Macros_Properties
begin

text \<open>
  A verification development for BareLine, a text editor written in Rust (src/).

  The program's parts. A document is a persistent balanced tree of text pieces
  (crates/document/src/tree.rs) wrapped in a snapshot with a revision and metadata; transactions,
  undo and redo replace the tree and record reversible history under two memory budgets
  (crates/document/src/lib.rs, history.rs, metadata.rs, change.rs); group.rs commits and undoes
  over several documents at once. Each change yields a receipt: the views of a document follow the
  receipts in a bounded log (crates/editor-surface/src/change_log.rs) and keep visual rows in prefix
  sums (row_map.rs). Each change is also appended to a recovery journal on disk
  (crates/file-io/src/recovery/mod.rs), several transactions folded into one record, at the times a
  schedule demands; after a crash the journal is scanned, validated over an interval map
  (recovery/replay.rs), and the text reconstructed from the sealed baseline. Extensions run in
  another process and speak a framed protocol with the host (crates/extensions-protocol/src/lib.rs);
  a session brokers what a guest may do (broker.rs), and one invocation reads the document and
  proposes edits that the user may apply (crates/app/src/extensions.rs). Two snapshots are compared
  line by line, and a hunk of the comparison is merged by a transaction (crates/diff/src/lib.rs). A
  snapshot is searched for a pattern, and the matches are replaced by a transaction
  (crates/search/src). Commands are registered, contributed by extensions, laid out in menus and
  bound to keys (crates/commands/src); macros record and play them (crates/macros/src/lib.rs).

  Theories and code.
    Prelude: \<open>usize\<close>/\<open>u64\<close> arithmetic, \<open>Result\<close> as \<open>error + 'a\<close>, shared lemmas and collections.
    Effects: fallible steps over a state, for loops that thread one.
    Utf8, Chars: well-formed UTF-8 and character boundaries, on which \<open>str\<close> slicing depends, and the
      characters of a text.
    Summary, Lines: \<open>Summary\<close> of tree.rs and the reference notion of a line.
    Rope, Rope_Lines, Rope_Text: tree.rs. \<open>Root\<close>, \<open>Node\<close> and \<open>Piece\<close> become datatypes; \<open>concat\<close>,
      \<open>split\<close>, \<open>slice\<close>, \<open>find\<close>, \<open>line_start\<close>, the \<open>Chunks\<close> iterator, \<open>from_text\<close>, the streaming
      builder and the \<open>charged_\<close> variants.
    Budget: \<open>Budget\<close> and \<open>Reservation\<close> of lib.rs as a step relation.
    History, Document: the resident document. \<open>Document\<close> is the record \<open>doc\<close>; the state shared by
      all documents is the record \<open>world\<close>.
    Document_Text, Document_History, Document_Run: the meaning of transactions, the invariant of
      undo history, and the step relation of documents.
    Document_Properties: the properties of the document.
    Group: group.rs, with its properties.
    Change_Log, Row_Map: change_log.rs and row_map.rs, with their properties.
    Recovery: edits, records, CRC and directories of recovery/mod.rs.
    Replay, Replay_Map, Replay_Text, Replay_Properties: replay.rs; its map as a flat list of spans;
      the texts those spans stand for; the properties.
    Compose: \<open>compose_edits\<close> of recovery/mod.rs.
    Framing: little-endian lengths and frames, shared by the journal and the protocol.
    Journal, Journal_Read, Journal_Properties: writer, manifest, scan and the operations on a
      scanned journal; reading back what was written; the properties.
    Schedule: \<open>RecoverySchedule\<close>.
    Protocol: messages, their validation and framing (extensions-protocol/src/lib.rs).
    Broker, Broker_Properties: \<open>ExtensionSession\<close> of broker.rs, grants, replies and staged edits.
    Invocation, Invocation_Properties: \<open>InvocationBroker\<close> of app/src/extensions.rs.
    Diff_Work: options, limits and the meter \<open>Work\<close> of diff/src/lib.rs; \<open>normalize\<close> and \<open>lines\<close>.
    Diff_Align: \<open>myers\<close> and \<open>anchored\<close>. Diff: \<open>compare\<close> with \<open>same_bytes\<close>, hunks, \<open>intraline\<close> and
      moved blocks. Diff_Merge: \<open>apply_hunk\<close>, \<open>tokens\<close> and \<open>preserve\<close>.
    Diff_Lines, Myers, Myers_Total, Anchors, Diff_Hunks, Diff_Total, Diff_Merge_Total: lemmas about
      them; Diff_Properties: the properties.
    Search: crates/search/src, lib.rs with extended.rs, fold.rs and word.rs, and crates/unicode-fold:
      \<open>scan\<close>, whose loop variables are the record \<open>scan_state\<close>, and moving between matches. Replace:
      templates (\<open>parse_template\<close>, \<open>expand_ranges\<close> of regex.rs) and \<open>prepare_replace\<close>.
    Kmp, Search_Units, Search_Find, Search_Result, Search_Text, Search_Scan, Search_Query: the prefix
      table, the units that are compared, the scan against the reference over them, its batches and
      limit, the reference over characters, the chunks and words around a match, every branch of the
      checks. Search_Replace: the meaning of replacing. Search_Properties: the properties.
    Btree: inserting into a map that is a list in key order, as the row map and the registry are.
    Commands: \<open>CommandRegistry\<close> of lib.rs and discovery.rs, \<open>DynamicContributions\<close> of contributions.rs
      and \<open>MenuModel\<close>, built from a registry or a hand-written tree. Keymap: \<open>KeyChord\<close> and \<open>Keymap\<close> of
      keymap.rs. Commands_Properties, Keymap_Properties: the properties.
    Decimal: the decimal form of a number. Macros: \<open>Macro\<close>, \<open>Recorder\<close> and \<open>Playback\<close> of
      macros/src/lib.rs. Playback: the runs of a playback with an executor and their invariant.
      Macro_Files: the size of a macro's file, recordings, a reader of quoted strings.
      Macros_Properties: the properties.

  What the lemmas show. In the tree: every operation is the list operation on the text and keeps the
  tree well formed, balanced and its cached summaries exact; navigation by line agrees with the
  scan of the text, CR LF pairs split over leaves included. In the document: a transaction that
  passes the checks replaces exactly its ranges, fails only for a reason that is named, and its undo
  and redo return exactly the earlier text, revision state and metadata, typing merges included;
  one invariant holds of every reachable document. Groups change all their documents or none. The
  log never skips a change; the row map's updates in place equal a rebuild. In recovery: an append
  or checkpoint that fails at any storage step leaves a directory that still reads as the old or the
  new journal, recovery yields the text after a prefix of the valid records, a folded record has
  the meaning of the transactions it folds, and validation stays within its bounds. For extensions:
  frames read back as they were written, a session's invariant holds in every reachable state,
  nothing is served on a revoked grant, and an applied proposal changes the document just as its
  edits say. In the comparison: lines are those of a reference cut; \<open>myers\<close> finds a longest common
  subsequence, and does find it when nothing limits it; anchors are a longest chain of unique lines;
  the hunks account for every difference and are well formed however the comparison ends; no input
  makes it, or a merge, panic; a copied hunk has the meaning it claims. In the search: the
  scan, with its prefix table and its ring of positions, finds what a plain reference over the
  characters of the text finds, and the transaction of a replacement gives the text with each match
  replaced. Of commands: a menu reaches every command that is for menus, contributions are replaced
  as a whole, an accepted key map is unambiguous, and the stored name of a chord reads back, except
  where the upper-case form of its key is longer than one character (\<open>sharp_s_lost\<close>). A macro's
  commands are performed exactly once and in order, whatever fails and is resumed, and to the end if the
  executor does its part; a recording that was not discarded can be saved, and quoted strings read back.

  Interfaces. \<open>Budget.allowance\<close> is what a meter of bytes promises; \<open>Document_History.relief\<close> what
  evicting history may change; \<open>Rope_Text.text_store\<close> what building and reading text promise to
  their clients; \<open>Invocation_Properties.byte_reader\<close> what a store of text
  promises to a reader of byte ranges. Each is
  interpreted on the model of the code that provides it.

  Modelling decisions. Machine integers of offsets and counters are \<open>nat\<close>: where the code
  checks, saturates or asserts, the bound 2^64 is written out; an unchecked step that the code
  guards is total here. Hashes and identities that wrap are 64 bit words. A panic (a slice off a
  character boundary, an index out of range, \<open>unreachable!\<close>, a failed \<open>expect\<close>) is a value of the
  error type (\<open>Panicked\<close>, \<open>Aborted\<close>, \<open>Crashed\<close>, \<open>DiffPanicked\<close>), and the properties show it does not
  occur. \<open>Arc\<close> sharing is not observable and absent, except the reference count that the byte budget
  depends on: the byte budget is an abstract meter with the count as an argument of the environment.
  The allocator's answer to a request for slots, \<open>size_of\<close> constants, the counter behind \<open>unique()\<close>,
  and clocks are arguments; an \<open>Instant\<close> is its milliseconds. A \<open>BTreeMap\<close> is a map, or an
  association list where its order matters. Decoding of messages by external crates is an argument
  of the definitions that use it, and so are case folding tables, upper-case forms beyond ASCII, words,
  grapheme clusters, the expression engine and the executor of a macro's commands. Sums of the lengths
  of strings in memory do not overflow.
  Bounds of the code are the code's own constants (a block of 256 spans, 2^22 spans, 64 KiB segments,
  1 MiB records, 16 MiB transactions, 100000 records, 1024 changes, 64 KiB lines). Loops terminate
  by a measure that is proved, but two that run on fuel: the walk over the anchors, with as many
  steps as candidates, and the widening of a merge segment, with two more than there are tokens; the
  lemmas \<open>anchor_list_result\<close> and \<open>widen_ends\<close> show that it never runs out. A search returns an option where it could panic or
  run for ever on a malformed table, and three of its loops are \<open>partial_function\<close>s; \<open>scan_result\<close>
  shows that it returns. In the replay, the search and the comparison cancellation and elapsed time are oracles asked at every poll; in the journal a flag
  fixed for the call. A directory is a map from names to bytes or the error of opening them; the
  hash, JSON form and symbolic-link test of the journal are the record \<open>codec\<close>, arguments of the
  definitions that use them.

  Not modelled: documents over a file on disk with their spill store (paged.rs, source.rs, service.rs,
  spill.rs); copying and attaching a baseline, exporting edits and collecting retired segments in
  recovery/mod.rs, and its source-range variant streaming.rs; extension packages (package.rs);
  comparing in windows (\<open>compare_batches\<close>, diff/src/paged.rs); loading, saving and code pages of
  file-io; driving the external expression engine (\<open>scan\<close> of regex.rs) and searching documents on
  disk and folders; the scores of the command palette, the tables of commands and key presets, and key
  maps as TOML and reading macros from it, which an external crate does; running external
  processes; views, panels, shell, renderers and
  platform calls, which are glue around code outside src/; serialization of settings and
  packages.
\<close>

end
